(* ===== verification/Prelude.thy ===== *)
theory Prelude
  imports Main "HOL-Library.Word" "HOL-Library.AList" "HOL-Library.Char_ord" "HOL-Library.List_Lexorder"
    "HOL-Library.Code_Target_Nat"
begin

text \<open>
  The shared vocabulary of the development.

  Bytes and 32-bit lengths are machine words. File offsets, counts and clock readings
  (\<open>usize\<close>, \<open>u64\<close>) are natural numbers: the code only compares them, subtracts them with
  \<open>saturating_sub\<close> (which is subtraction on the naturals) or adds them with the saturating
  operations written out here.

  A \<open>HashMap\<close> is an association list with distinct keys. Its list order stands for the
  iteration order Rust leaves unspecified; no lemma of the development depends on it.
  A \<open>HashSet\<close> is a list without repetitions. Text is a list of characters, one per UTF-8
  byte, ordered bytewise as \<open>String\<close> is.
\<close>

unbundle bit_operations_syntax

named_theorems kv_maps \<open>lookups after updates of association lists\<close>
named_theorems framing \<open>how framed bytes split again\<close>

type_synonym byte = "8 word"
type_synonym bytes = "8 word list"
type_synonym u32 = "32 word"
type_synonym ('k, 'v) hmap = "('k \<times> 'v) list"
type_synonym 'a hset = "'a list"

section \<open>Unsigned arithmetic\<close>

definition u64_max :: nat where
  "u64_max = 18446744073709551615"

definition saturating_add :: "nat \<Rightarrow> nat \<Rightarrow> nat" where
  "saturating_add a b = min (a + b) u64_max"

definition saturating_mul :: "nat \<Rightarrow> nat \<Rightarrow> nat" where
  "saturating_mul a b = min (a * b) u64_max"

lemma saturating_add_le: "saturating_add a b \<le> u64_max"
  by (simp add: saturating_add_def)

lemma saturating_add_mono: "a \<le> a' \<Longrightarrow> saturating_add a b \<le> saturating_add a' b"
  by (simp add: saturating_add_def)

section \<open>Little-endian 32-bit words\<close>

definition le_bytes :: "u32 \<Rightarrow> bytes" where
  "le_bytes w = [ucast w, ucast (drop_bit 8 w), ucast (drop_bit 16 w), ucast (drop_bit 24 w)]"

definition of_le_bytes :: "bytes \<Rightarrow> u32" where
  "of_le_bytes bs =
     ucast (bs ! 0) OR push_bit 8 (ucast (bs ! 1))
       OR push_bit 16 (ucast (bs ! 2)) OR push_bit 24 (ucast (bs ! 3))"

lemma length_le_bytes [simp]: "length (le_bytes w) = 4"
  by (simp add: le_bytes_def)

lemma of_le_le_bytes [simp]: "of_le_bytes (le_bytes w) = w"
proof (rule bit_word_eqI)
  fix n assume "n < LENGTH(32)"
  then have n: "n < 32" by simp
  consider "n < 8" | "8 \<le> n" "n < 16" | "16 \<le> n" "n < 24" | "24 \<le> n"
    by linarith
  then show "bit (of_le_bytes (le_bytes w)) n \<longleftrightarrow> bit w n"
    using n by cases (auto simp: of_le_bytes_def le_bytes_def bit_simps numeral_3_eq_3 numeral_2_eq_2)
qed

lemma le_bytes_of_le_bytes [simp]:
  assumes "length bs = 4"
  shows "le_bytes (of_le_bytes bs) = bs"
proof -
  from assms obtain a b c d where bs: "bs = [a, b, c, d]"
    by (auto simp: length_Suc_conv numeral_eq_Suc)
  have "ucast (of_le_bytes bs) = a" "ucast (drop_bit 8 (of_le_bytes bs)) = b"
    "ucast (drop_bit 16 (of_le_bytes bs)) = c" "ucast (drop_bit 24 (of_le_bytes bs)) = d"
    by (rule bit_word_eqI; simp add: bs of_le_bytes_def bit_simps numeral_3_eq_3 numeral_2_eq_2;
        auto dest: bit_imp_le_length)+
  then show ?thesis by (simp add: le_bytes_def bs)
qed

lemma or_add:
  fixes a b :: u32
  assumes "\<And>n. n < 32 \<Longrightarrow> bit a n \<Longrightarrow> \<not> bit b n"
  shows "a OR b = a + b"
  by (rule disjunctive_add_eq_or [symmetric]) (use assms in \<open>auto intro!: bit_word_eqI simp: bit_simps\<close>)
text \<open>The same number as a sum, which is how it is evaluated.\<close>

lemma of_le_bytes_sum [code]:
  "of_le_bytes bs = of_nat (unat (bs ! 0) + 256 * (unat (bs ! 1) + 256 * (unat (bs ! 2) + 256 * unat (bs ! 3))))"
proof -
  have lt: "bit x n \<Longrightarrow> n < 8" for x :: byte and n by (auto dest: bit_imp_le_length)
  have "of_le_bytes bs = ucast (bs ! 0) + (push_bit 8 (ucast (bs ! 1)) +
      (push_bit 16 (ucast (bs ! 2)) + push_bit 24 (ucast (bs ! 3))))"
    unfolding of_le_bytes_def
    by (subst or_add, fastforce simp: bit_simps dest: lt)+ simp
  then show ?thesis
    by (simp add: push_bit_eq_mult algebra_simps)
qed

section \<open>Association lists as hash maps\<close>

definition hmap_ok :: "('k, 'v) hmap \<Rightarrow> bool" where
  "hmap_ok m \<longleftrightarrow> distinct (map fst m)"

abbreviation hget :: "('k, 'v) hmap \<Rightarrow> 'k \<Rightarrow> 'v option" where
  "hget m k \<equiv> map_of m k"

abbreviation hput :: "'k \<Rightarrow> 'v \<Rightarrow> ('k, 'v) hmap \<Rightarrow> ('k, 'v) hmap" where
  "hput k v m \<equiv> AList.update k v m"

abbreviation hdel :: "'k \<Rightarrow> ('k, 'v) hmap \<Rightarrow> ('k, 'v) hmap" where
  "hdel k m \<equiv> AList.delete k m"

abbreviation hkeys :: "('k, 'v) hmap \<Rightarrow> 'k list" where
  "hkeys m \<equiv> map fst m"

abbreviation hvals :: "('k, 'v) hmap \<Rightarrow> 'v list" where
  "hvals m \<equiv> map snd m"

lemma hmap_ok_Nil [simp]: "hmap_ok []"
  by (simp add: hmap_ok_def)

lemma hget_hput [simp, kv_maps]: "hget (hput k v m) k' = (if k' = k then Some v else hget m k')"
  by (simp add: update_conv')

lemma hget_hdel [simp, kv_maps]: "hget (hdel k m) k' = (if k' = k then None else hget m k')"
  by (simp add: delete_conv')

lemma hmap_ok_hput [simp]: "hmap_ok m \<Longrightarrow> hmap_ok (hput k v m)"
  by (simp add: hmap_ok_def distinct_update)

lemma hmap_ok_hdel [simp]: "hmap_ok m \<Longrightarrow> hmap_ok (hdel k m)"
  by (simp add: hmap_ok_def distinct_delete)

lemma set_hkeys: "set (hkeys m) = {k. hget m k \<noteq> None}"
  by (auto simp: map_of_eq_None_iff)

lemma hget_Some_mem: "hget m k = Some v \<Longrightarrow> (k, v) \<in> set m"
  by (rule map_of_SomeD)

lemma hmap_ok_mem: "hmap_ok m \<Longrightarrow> (k, v) \<in> set m \<longleftrightarrow> hget m k = Some v"
  by (simp add: hmap_ok_def map_of_eq_Some_iff)

lemma length_hkeys_eq:
  assumes "hmap_ok m" and "hmap_ok m'" and "map_of m = map_of m'"
  shows "length m = length m'"
proof -
  have "set (hkeys m) = set (hkeys m')" using assms(3) by (simp only: set_hkeys)
  then have "length (hkeys m) = length (hkeys m')"
    using assms(1,2) distinct_card unfolding hmap_ok_def by metis
  then show ?thesis by simp
qed

lemma length_hput: "hmap_ok m \<Longrightarrow> length (hput k v m) = (if hget m k = None then Suc (length m) else length m)"
  by (induction m) (auto simp: hmap_ok_def)

section \<open>Lists as hash sets\<close>

abbreviation hset_insert :: "'a \<Rightarrow> 'a hset \<Rightarrow> 'a hset" where
  "hset_insert x s \<equiv> List.insert x s"

abbreviation hset_remove :: "'a \<Rightarrow> 'a hset \<Rightarrow> 'a hset" where
  "hset_remove x s \<equiv> removeAll x s"

section \<open>Text as bytes\<close>

definition byte_of_char :: "char \<Rightarrow> byte" where
  "byte_of_char ch = of_char ch"

definition char_of_byte :: "byte \<Rightarrow> char" where
  "char_of_byte b = char_of (unat b)"

definition ascii :: "string \<Rightarrow> bytes" where
  "ascii s = map byte_of_char s"

definition text_of :: "bytes \<Rightarrow> string" where
  "text_of bs = map char_of_byte bs"

lemma char_of_byte_of_char [simp]: "char_of_byte (byte_of_char ch) = ch"
proof -
  have "(of_char ch :: nat) < 256"
    using mod_less_divisor [of 256 "of_char ch :: nat"] by (simp only: of_char_mod_256)
  then have "unat (of_nat (of_char ch) :: byte) = of_char ch"
    by (simp add: unat_of_nat)
  then have "unat (of_char ch :: byte) = of_char ch"
    by (simp add: of_nat_of_char)
  then show ?thesis by (simp add: char_of_byte_def byte_of_char_def)
qed

lemma byte_of_char_of_byte [simp]: "byte_of_char (char_of_byte b) = b"
proof -
  have "unat b < 256" using unsigned_less [of b, where ?'a = nat] by simp
  then have "(of_char (char_of (unat b)) :: nat) = unat b" by simp
  then have "(of_char (char_of (unat b)) :: byte) = of_nat (unat b)"
    by (metis of_nat_of_char)
  then show ?thesis by (simp add: char_of_byte_def byte_of_char_def)
qed

lemma text_of_ascii [simp]: "text_of (ascii s) = s"
  by (simp add: text_of_def ascii_def comp_def)

lemma ascii_text_of [simp]: "ascii (text_of bs) = bs"
  by (simp add: text_of_def ascii_def comp_def)

lemma ascii_append [simp]: "ascii (s @ t) = ascii s @ ascii t"
  by (simp add: ascii_def)

lemma length_ascii [simp]: "length (ascii s) = length s"
  by (simp add: ascii_def)

lemma ascii_inj: "ascii s = ascii t \<longleftrightarrow> s = t"
  by (metis text_of_ascii)

lemma of_char_word: "byte_of_char (Char b0 b1 b2 b3 b4 b5 b6 b7) = horner_sum of_bool 2 [b0, b1, b2, b3, b4, b5, b6, b7]"
  by (simp only: byte_of_char_def of_char_Char)

lemma ascii_Nil [simp]: "ascii [] = []"
  by (simp add: ascii_def)

lemma ascii_Cons: "ascii (ch # s) = byte_of_char ch # ascii s"
  by (simp add: ascii_def)

text \<open>The bytes of a literal.\<close>

lemmas literal = ascii_Cons of_char_word

text \<open>\<open>slice::strip_prefix\<close>.\<close>

definition strip_prefix :: "'a list \<Rightarrow> 'a list \<Rightarrow> 'a list option" where
  "strip_prefix p xs = (if take (length p) xs = p then Some (drop (length p) xs) else None)"

lemma strip_prefix_append [simp]: "strip_prefix p (p @ xs) = Some xs"
  by (simp add: strip_prefix_def)

lemma strip_prefix_Some: "strip_prefix p xs = Some ys \<longleftrightarrow> xs = p @ ys"
  by (auto simp: strip_prefix_def split: if_splits) (metis append_take_drop_id)

section \<open>Printed numbers\<close>

text \<open>\<open>Display\<close> of an unsigned integer and \<open>{:02x}\<close> of a byte.\<close>

definition digit :: "nat \<Rightarrow> char" where
  "digit n = ''0123456789abcdef'' ! n"

fun decimal :: "nat \<Rightarrow> string" where
  "decimal n = (if n < 10 then [digit n] else decimal (n div 10) @ [digit (n mod 10)])"

declare decimal.simps [simp del]

definition hex_byte :: "byte \<Rightarrow> string" where
  "hex_byte b = [digit (unat b div 16), digit (unat b mod 16)]"

definition hex_lower :: "bytes \<Rightarrow> string" where
  "hex_lower bs = concat (map hex_byte bs)"

lemma length_hex_lower [simp]: "length (hex_lower bs) = 2 * length bs"
  by (induction bs) (auto simp: hex_lower_def hex_byte_def)

text \<open>\<open>slice::starts_with\<close>.\<close>

definition starts_with :: "'a list \<Rightarrow> 'a list \<Rightarrow> bool" where
  "starts_with xs p \<longleftrightarrow> take (length p) xs = p"

lemma starts_with_take: "starts_with xs (take n xs)"
  by (simp add: starts_with_def min_def)

end
