(* ===== verification/Durable.thy ===== *)
theory Durable
  imports Prelude
begin

text \<open>
  The file system the stores write to, and the chain crate's one durable write
  (\<open>rust/chain/src/durable.rs\<close>, \<open>atomic_write\<close>).

  A path is its list of components, so \<open>parent\<close> and \<open>file_name\<close> are \<open>None\<close> exactly where
  Rust's are. The world is the files and a list of what the coming I/O calls will do: every
  fallible call takes one entry, \<open>None\<close> for success and \<open>Some n\<close> for a failure, where \<open>n\<close>
  is how many bytes a failing write left behind; past the end of the list every call
  succeeds. A lemma for every such list is a lemma for every sequence of I/O failures.
  The code has no clean-up on an error path, so the files it leaves when a call fails are
  also the files a crash at that call leaves.
\<close>

type_synonym path = "string list"

definition parent :: "path \<Rightarrow> path option" where
  "parent p = (if p = [] then None else Some (butlast p))"

definition file_name :: "path \<Rightarrow> string option" where
  "file_name p = (if p = [] then None else Some (last p))"

definition with_file_name :: "path \<Rightarrow> string \<Rightarrow> path" where
  "with_file_name p n = butlast p @ [n]"

record disk =
  files :: "(path, bytes) hmap"
  faults :: "nat option list"

datatype io_error = NotFound | InvalidInput | OtherError

definition io_call :: "disk \<Rightarrow> nat option \<times> disk" where
  "io_call d = (case faults d of [] \<Rightarrow> (None, d) | f # fs \<Rightarrow> (f, d\<lparr>faults := fs\<rparr>))"

definition put_file :: "path \<Rightarrow> bytes \<Rightarrow> disk \<Rightarrow> disk" where
  "put_file p bs d = d\<lparr>files := hput p bs (files d)\<rparr>"

definition del_file :: "path \<Rightarrow> disk \<Rightarrow> disk" where
  "del_file p d = d\<lparr>files := hdel p (files d)\<rparr>"

definition content :: "disk \<Rightarrow> path \<Rightarrow> bytes option" where
  "content d p = hget (files d) p"

lemma content_put_file [simp, kv_maps]:
  "content (put_file p bs d) q = (if q = p then Some bs else content d q)"
  by (simp add: content_def put_file_def)

lemma content_del_file [simp, kv_maps]:
  "content (del_file p d) q = (if q = p then None else content d q)"
  by (simp add: content_def del_file_def)

lemma content_faults [simp]: "content (d\<lparr>faults := fs\<rparr>) p = content d p"
  by (simp add: content_def)

lemma content_io_call [simp]: "content (snd (io_call d)) p = content d p"
  by (simp add: io_call_def content_def split: list.splits)

lemma io_call_content: "io_call d = (f, d') \<Longrightarrow> content d' = content d"
  by (auto simp: io_call_def content_def split: list.splits)

lemma io_call_no_fault: "faults d = [] \<Longrightarrow> io_call d = (None, d)"
  by (simp add: io_call_def)

text \<open>
  One fallible call: \<open>io_try d failed ok\<close> continues with \<open>failed n\<close> or with \<open>ok\<close>. Its
  elimination rule is how every lemma about an operation follows its I/O calls.
\<close>

definition io_try :: "disk \<Rightarrow> (nat \<Rightarrow> disk \<Rightarrow> 'r) \<Rightarrow> (disk \<Rightarrow> 'r) \<Rightarrow> 'r" where
  "io_try d failed ok =
     (case io_call d of (Some n, d') \<Rightarrow> failed n d' | (None, d') \<Rightarrow> ok d')"

lemma io_tryE:
  assumes "io_try d failed ok = r"
  obtains (failed) n d' where "content d' = content d" and "failed n d' = r"
    | (ok) d' where "content d' = content d" and "ok d' = r"
  using assms unfolding io_try_def
  by (auto split: prod.splits option.splits dest!: io_call_content)

lemma io_try_no_fault [simp]: "faults d = [] \<Longrightarrow> io_try d failed ok = ok d"
  by (simp add: io_try_def io_call_no_fault)

lemma io_try_fault [simp]: "faults d = None # fs \<Longrightarrow> io_try d failed ok = ok (d\<lparr>faults := fs\<rparr>)"
  by (simp add: io_try_def io_call_def)

lemma io_try_fault_Some [simp]:
  "faults d = Some n # fs \<Longrightarrow> io_try d failed ok = failed n (d\<lparr>faults := fs\<rparr>)"
  by (simp add: io_try_def io_call_def)

lemma faults_put_file [simp]: "faults (put_file p bs d) = faults d"
  by (simp add: put_file_def)

lemma faults_del_file [simp]: "faults (del_file p d) = faults d"
  by (simp add: del_file_def)

text \<open>\<open>std::fs::read\<close>: an absent file is told apart from one that cannot be read.\<close>

definition read_file :: "path \<Rightarrow> disk \<Rightarrow> disk \<times> (io_error + bytes)" where
  "read_file p d = io_try d
     (\<lambda>_ d. (d, Inl OtherError))
     (\<lambda>d. case content d p of None \<Rightarrow> (d, Inl NotFound) | Some bs \<Rightarrow> (d, Inr bs))"

lemma read_file_content: "read_file p d = (d', r) \<Longrightarrow> content d' = content d"
  unfolding read_file_def by (erule io_tryE) (auto split: option.splits)

lemma read_file_Inr: "read_file p d = (d', Inr bs) \<Longrightarrow> content d p = Some bs"
  unfolding read_file_def by (erule io_tryE) (auto split: option.splits)

lemma read_file_NotFound: "read_file p d = (d', Inl NotFound) \<Longrightarrow> content d p = None"
  unfolding read_file_def by (erule io_tryE) (auto split: option.splits)

section \<open>The durable write\<close>

text \<open>
  The temp file lives in the target's directory and is named after it, between a dot and
  \<open>.tmp\<close>; the write is the temp file, a sync, a rename, and a best-effort sync of the
  directory.
\<close>

definition temp_path :: "path \<Rightarrow> path" where
  "temp_path p = butlast p @ [''.'' @ last p @ ''.tmp'']"

definition atomic_write :: "path \<Rightarrow> bytes \<Rightarrow> disk \<Rightarrow> disk \<times> (io_error + unit)" where
  "atomic_write p bs d =
     (case (parent p, file_name p) of
        (Some dir, Some name) \<Rightarrow>
          let tmp = temp_path p; failed = (\<lambda>_ d. (d, Inl OtherError)) in
          io_try d failed (\<lambda>d. \<comment> \<open>create the directory\<close>
          io_try d failed (\<lambda>d. \<comment> \<open>create the temp file\<close>
          let d = put_file tmp [] d in
          io_try d (\<lambda>n d. (put_file tmp (take n bs) d, Inl OtherError)) (\<lambda>d. \<comment> \<open>write it\<close>
          let d = put_file tmp bs d in
          io_try d failed (\<lambda>d. \<comment> \<open>sync it\<close>
          io_try d failed (\<lambda>d. \<comment> \<open>rename it over the target\<close>
          let d = put_file p bs (del_file tmp d) in
          \<comment> \<open>open and sync the directory, best effort\<close>
          io_try d (\<lambda>_ d. (d, Inr ())) (\<lambda>d. (snd (io_call d), Inr ())))))))
      | _ \<Rightarrow> (d, Inl InvalidInput))"

lemma temp_path_neq: "p \<noteq> [] \<Longrightarrow> temp_path p \<noteq> p"
proof
  assume "p \<noteq> []" and "temp_path p = p"
  then have "last (temp_path p) = last p" by simp
  then have "''.'' @ last p @ ''.tmp'' = last p" by (simp add: temp_path_def)
  then have "length (''.'' @ last p @ ''.tmp'') = length (last p)" by (rule arg_cong)
  then show False by simp
qed

lemma atomic_write_root: "atomic_write [] bs d = (d, Inl InvalidInput)"
  by (simp add: atomic_write_def parent_def)

text \<open>Every outcome at once: what the target, the temp file and every other path hold.\<close>

lemma atomic_write_cases:
  assumes "p \<noteq> []" and "atomic_write p bs d = (d', r)"
  shows "(r = Inr () \<and> content d' = (content d)(p \<mapsto> bs, temp_path p := None))
    \<or> (r = Inl OtherError \<and>
        (content d' = content d \<or> (\<exists>k. content d' = (content d)(temp_path p \<mapsto> take k bs))))"
proof -
  let ?t = "temp_path p"
  have ne: "?t \<noteq> p" using assms(1) by (rule temp_path_neq)
  have cr: "content (put_file ?t [] d1) = (content d1)(?t \<mapsto> take 0 bs)" for d1
    by (simp add: fun_eq_iff)
  have cw: "content (put_file ?t (take n bs) d1) = (content d1)(?t \<mapsto> take n bs)" for d1 n
    by (simp add: fun_eq_iff)
  have cf: "content (put_file ?t bs d1) = (content d1)(?t \<mapsto> take (length bs) bs)" for d1
    by (simp add: fun_eq_iff)
  have cn: "content (put_file p bs (del_file ?t d1)) = (content d1)(p \<mapsto> bs, ?t := None)" for d1
    using ne by (auto simp: fun_eq_iff)
  have ci: "content (snd (io_call d1)) = content d1" for d1
    by (simp add: fun_eq_iff)
  have eq: "atomic_write p bs d = (d', r)" by (rule assms(2))
  show ?thesis
    using eq assms(1)
    unfolding atomic_write_def parent_def file_name_def Let_def
    by (auto elim!: io_tryE simp: cr cw cf cn ci simp del: take_all take_0)
qed

lemma atomic_write_Inr:
  assumes "p \<noteq> []" and "atomic_write p bs d = (d', Inr u)"
  shows "content d' = (content d)(p \<mapsto> bs, temp_path p := None)"
  using atomic_write_cases [OF assms] by auto

lemma atomic_write_Inl:
  assumes "p \<noteq> []" and "atomic_write p bs d = (d', Inl e)" and "q \<noteq> temp_path p"
  shows "content d' q = content d q"
  using atomic_write_cases [OF assms(1,2)] assms(3) by auto

lemma atomic_write_no_fault:
  "p \<noteq> [] \<Longrightarrow> faults d = [] \<Longrightarrow> snd (atomic_write p bs d) = Inr ()"
  by (simp add: atomic_write_def parent_def file_name_def Let_def)

section \<open>All or nothing\<close>

text \<open>
  The durable write is all or nothing for every reader of the directory. Whatever call
  fails, or wherever the process dies, the target holds its old bytes or all of the new ones,
  the only other path touched is its own temp file, and success leaves no temp file behind.
\<close>

theorem atomic_write_all_or_nothing:
  assumes run: "atomic_write p bs d = (d', res)"
  shows "content d' p = (if res = Inr () then Some bs else content d p) \<and>
    (\<forall>q. q \<noteq> p \<and> q \<noteq> temp_path p \<longrightarrow> content d' q = content d q) \<and>
    (res = Inr () \<longrightarrow> content d' (temp_path p) = None)"
proof (cases "p = []")
  case True
  then show ?thesis using run by (auto simp: atomic_write_root)
next
  case False
  then show ?thesis
    using atomic_write_cases [OF False run] temp_path_neq [OF False] by (elim disjE conjE exE) simp_all
qed

text \<open>A write that stops after two of its three bytes.\<close>

lemma atomic_write_all_or_nothing_witness:
  "\<exists>d'. atomic_write [''f''] [1, 2, 3] \<lparr>files = [([''f''], [9])], faults = [None, None, Some 2]\<rparr>
      = (d', Inl OtherError) \<and> content d' [''f''] = Some [9]"
proof -
  let ?d = "\<lparr>files = [([''f''], [9])], faults = [None, None, Some 2]\<rparr> :: disk"
  obtain d' res where run: "atomic_write [''f''] [1, 2, 3] ?d = (d', res)" by fastforce
  moreover have "res = Inl OtherError"
    using run by (simp add: atomic_write_def parent_def file_name_def Let_def)
  ultimately show ?thesis
    using atomic_write_all_or_nothing [OF run] by (auto simp: content_def)
qed

end
