(* ===== verification/Kvlog_Frames.thy ===== *)
theory Kvlog_Frames
  imports Durable
begin

text \<open>
  The wire half of \<open>rust/chain/src/kvlog.rs\<close>: the file header, the checksummed v2 frame, the
  v1 frame, replay up to the first bad frame, and the classification of what follows it.

  The record type, its key and its borsh encoding belong to the store that uses the log, and
  \<open>crc32fast\<close> and \<open>borsh\<close> are libraries: they are the fields of a \<open>codec\<close>, an argument of
  every definition. \<open>codec_ok\<close> is the one fact about borsh the log rests on: what it encodes
  it decodes again. Nothing at all is assumed of the checksum.
\<close>

section \<open>Frames and their encoding\<close>

datatype 't frame = Upsert 't | Remove string | Tombstone string | Untombstone string

datatype kv_error =
    EncodeError
  | FrameTooLarge
  | NewerVersion u32
  | ReadOnly string
  | ShorterThanEnd nat nat
  | GrewBehind
  | ImageMismatch
  | Io io_error

record 't codec =
  ser :: "'t \<Rightarrow> bytes option"
  enc_frame :: "'t frame \<Rightarrow> bytes option"
  dec_frame :: "bytes \<Rightarrow> 't frame option"
  crc :: "bytes \<Rightarrow> u32"
  key_of :: "'t \<Rightarrow> string"

text \<open>Borsh's round trip, for a record behind the variant byte 0 and for a whole frame.\<close>

definition codec_ok :: "'t codec \<Rightarrow> bool" where
  "codec_ok c \<longleftrightarrow>
     (\<forall>r bs. ser c r = Some bs \<longrightarrow> dec_frame c (0 # bs) = Some (Upsert r)) \<and>
     (\<forall>f bs. enc_frame c f = Some bs \<longrightarrow> dec_frame c bs = Some f)"

definition magic :: bytes where
  "magic = ascii ''KVLG''"

definition version :: u32 where
  "version = 2"

definition file_header_len :: nat where
  "file_header_len = 8"

definition frame_header_len :: nat where
  "frame_header_len = 8"

definition v1_frame_header_len :: nat where
  "v1_frame_header_len = 4"

definition compact_ratio :: nat where
  "compact_ratio = 2"

definition compact_floor :: nat where
  "compact_floor = 64 * 1024"

text \<open>The growth rule.\<close>

definition grown :: "nat \<Rightarrow> nat \<Rightarrow> bool" where
  "grown file_len live_len \<longleftrightarrow>
     file_len > compact_floor \<and> file_len > saturating_mul compact_ratio live_len"

definition encode :: "'t codec \<Rightarrow> 't frame \<Rightarrow> kv_error + bytes" where
  "encode c f = (case enc_frame c f of None \<Rightarrow> Inl EncodeError | Some bs \<Rightarrow> Inr bs)"

definition upsert_body :: "'t codec \<Rightarrow> 't \<Rightarrow> kv_error + bytes" where
  "upsert_body c r = (case ser c r of None \<Rightarrow> Inl EncodeError | Some bs \<Rightarrow> Inr (0 # bs))"

definition frame_crc :: "'t codec \<Rightarrow> bytes \<Rightarrow> bytes \<Rightarrow> u32" where
  "frame_crc c len body = crc c (len @ body)"

definition push_file_header :: "bytes \<Rightarrow> bytes" where
  "push_file_header out = out @ magic @ le_bytes version"

definition push_frame :: "'t codec \<Rightarrow> bytes \<Rightarrow> bytes \<Rightarrow> kv_error + bytes" where
  "push_frame c out body =
     (if 2 ^ 32 \<le> length body then Inl FrameTooLarge
      else let len = le_bytes (of_nat (length body))
           in Inr (out @ len @ le_bytes (frame_crc c len body) @ body))"

section \<open>The checksum's known answers\<close>

definition check_value :: u32 where "check_value = 0xCBF43926"
definition long_pattern_crc :: u32 where "long_pattern_crc = 0x5D1C4EE3"
definition frame_abc_crc :: u32 where "frame_abc_crc = 0x66E15D33"
definition frame_long_crc :: u32 where "frame_long_crc = 0x6F23BA11"
definition frame_unaligned_crc :: u32 where "frame_unaligned_crc = 0x3EE05566"

definition long_pattern :: bytes where
  "long_pattern = map (\<lambda>i. ucast ((of_nat i :: u32) * 31 + 7)) [0..<4096]"

definition checksum_holds :: "'t codec \<Rightarrow> bool" where
  "checksum_holds c \<longleftrightarrow>
     crc c (ascii ''123456789'') = check_value \<and>
     crc c long_pattern = long_pattern_crc \<and>
     frame_crc c (le_bytes 3) (ascii ''abc'') = frame_abc_crc \<and>
     frame_crc c (le_bytes 4096) long_pattern = frame_long_crc \<and>
     frame_crc c (le_bytes 4093) (take 4093 (drop 1 long_pattern)) = frame_unaligned_crc"

section \<open>Reading frames\<close>

datatype log_format = Empty | V1 | V2

datatype tail = Clean | Torn nat | Unreadable nat

definition v2_frame_checked :: "'t codec \<Rightarrow> bytes \<Rightarrow> bool \<Rightarrow> (bytes \<times> nat) option" where
  "v2_frame_checked c bs verify =
     (if length bs < frame_header_len then None
      else let len_bytes = take 4 bs;
               len = unat (of_le_bytes len_bytes);
               crc = of_le_bytes (take 4 (drop 4 bs));
               stop = frame_header_len + len
           in if length bs < stop then None
              else let body = take len (drop frame_header_len bs)
                   in if \<not> verify \<or> frame_crc c len_bytes body = crc then Some (body, stop)
                      else None)"

definition v2_frame_at :: "'t codec \<Rightarrow> bytes \<Rightarrow> (bytes \<times> nat) option" where
  "v2_frame_at c bs = v2_frame_checked c bs True"

definition tombstone_frame_len :: "string \<Rightarrow> nat" where
  "tombstone_frame_len key = frame_header_len + 1 + 4 + length key"

text \<open>What replay has folded so far.\<close>

record 't replaying =
  ra_records :: "(string, 't) hmap"
  ra_tombstoned :: "string hset"
  ra_sizes :: "(string, nat) hmap"
  ra_frames :: nat
  ra_removed :: bool

definition replay_init :: "'t replaying" where
  "replay_init = \<lparr>ra_records = [], ra_tombstoned = [], ra_sizes = [], ra_frames = 0, ra_removed = False\<rparr>"

fun apply_frame :: "'t codec \<Rightarrow> 't frame \<Rightarrow> nat \<Rightarrow> 't replaying \<Rightarrow> 't replaying" where
  "apply_frame c (Upsert r) body_len a =
     a\<lparr>ra_sizes := hput (key_of c r) (frame_header_len + body_len) (ra_sizes a),
       ra_records := hput (key_of c r) r (ra_records a), ra_frames := ra_frames a + 1\<rparr>"
| "apply_frame c (Remove k) body_len a =
     a\<lparr>ra_records := hdel k (ra_records a), ra_tombstoned := hset_remove k (ra_tombstoned a),
       ra_sizes := hdel k (ra_sizes a), ra_removed := True, ra_frames := ra_frames a + 1\<rparr>"
| "apply_frame c (Tombstone k) body_len a =
     a\<lparr>ra_tombstoned := hset_insert k (ra_tombstoned a), ra_frames := ra_frames a + 1\<rparr>"
| "apply_frame c (Untombstone k) body_len a =
     a\<lparr>ra_tombstoned := hset_remove k (ra_tombstoned a), ra_frames := ra_frames a + 1\<rparr>"

text \<open>
  The frame at the front of \<open>rest\<close>, which starts at offset \<open>at\<close>: the frame, its body's length
  and how far to step. \<open>v1\<close> decodes a v1 body.
\<close>

definition next_frame ::
  "'t codec \<Rightarrow> (bytes \<Rightarrow> 't frame option) \<Rightarrow> bool \<Rightarrow> log_format \<Rightarrow> nat \<Rightarrow> bytes \<Rightarrow> ('t frame \<times> nat \<times> nat) option" where
  "next_frame c v1 verify fmt at rest =
     (case fmt of
        Empty \<Rightarrow> None
      | V2 \<Rightarrow>
          if at = 0 then None
          else (case v2_frame_checked c rest verify of
                  None \<Rightarrow> None
                | Some (body, step) \<Rightarrow>
                    (case dec_frame c body of None \<Rightarrow> None | Some f \<Rightarrow> Some (f, length body, step)))
      | V1 \<Rightarrow>
          if length rest < v1_frame_header_len then None
          else let len = unat (of_le_bytes (take 4 rest)) in
               if length rest < v1_frame_header_len + len then None
               else (case v1 (take len (drop v1_frame_header_len rest)) of
                       None \<Rightarrow> None | Some f \<Rightarrow> Some (f, len, v1_frame_header_len + len)))"

lemma next_frame_step:
  "next_frame c v1 verify fmt at rest = Some (f, n, step) \<Longrightarrow> 0 < step \<and> step \<le> length rest"
  by (auto simp: next_frame_def v2_frame_checked_def Let_def frame_header_len_def
      v1_frame_header_len_def split: log_format.splits if_splits option.splits)

function replay_loop ::
  "'t codec \<Rightarrow> (bytes \<Rightarrow> 't frame option) \<Rightarrow> bool \<Rightarrow> log_format \<Rightarrow> bytes \<Rightarrow> nat \<Rightarrow> 't replaying \<Rightarrow> 't replaying \<times> nat" where
  "replay_loop c v1 verify fmt rest at acc =
     (case next_frame c v1 verify fmt at rest of
        None \<Rightarrow> (acc, at)
      | Some (f, body_len, step) \<Rightarrow>
          replay_loop c v1 verify fmt (drop step rest) (at + step) (apply_frame c f body_len acc))"
  by pat_completeness auto
termination
  by (relation "measure (\<lambda>(c, v1, verify, fmt, rest, at, acc). length rest)")
     (auto dest: next_frame_step)

declare replay_loop.simps [simp del]

text \<open>The format a file opens with and the offset of its first frame.\<close>

definition replay_start :: "bytes \<Rightarrow> kv_error + log_format \<times> nat" where
  "replay_start bs =
     (if bs = [] then Inr (Empty, 0)
      else if file_header_len \<le> length bs \<and> take 4 bs = magic then
        (let v = of_le_bytes (take 4 (drop 4 bs)) in
         if v \<noteq> version then Inl (NewerVersion v) else Inr (V2, file_header_len))
      else if length bs < file_header_len \<and> starts_with magic (take (min (length bs) 4) bs) then
        Inr (V2, 0)
      else Inr (V1, 0))"

text \<open>What the bytes after the last good frame are.\<close>

definition classify :: "'t codec \<Rightarrow> log_format \<Rightarrow> bytes \<Rightarrow> tail" where
  "classify c fmt rest =
     (let n = length rest in
      if n = 0 then Clean
      else if list_all (\<lambda>b. b = 0) rest then Torn n
      else (case fmt of
              Empty \<Rightarrow> Clean
            | V1 \<Rightarrow> if n < v1_frame_header_len then Torn n else Unreadable n
            | V2 \<Rightarrow>
                if list_ex (\<lambda>i. v2_frame_at c (drop i rest) \<noteq> None) [0..<n] then Unreadable n
                else if n < frame_header_len then Torn n
                else if n \<le> frame_header_len + unat (of_le_bytes (take 4 rest)) then Torn n
                else Unreadable n))"

record 't replayed =
  rp_format :: log_format
  rp_records :: "(string, 't) hmap"
  rp_tombstoned :: "string hset"
  rp_frames :: nat
  rp_removed :: bool
  rp_good_end :: nat
  rp_tail :: tail
  rp_live_len :: nat

definition replay ::
  "'t codec \<Rightarrow> (bytes \<Rightarrow> 't frame option) \<Rightarrow> bool \<Rightarrow> bytes \<Rightarrow> kv_error + 't replayed" where
  "replay c v1 verify bs =
     (case replay_start bs of
        Inl e \<Rightarrow> Inl e
      | Inr (fmt, at0) \<Rightarrow>
          let (a, at) = replay_loop c v1 verify fmt (drop at0 bs) at0 replay_init
          in Inr \<lparr>rp_format = fmt, rp_records = ra_records a, rp_tombstoned = ra_tombstoned a,
                  rp_frames = ra_frames a, rp_removed = ra_removed a, rp_good_end = at,
                  rp_tail = classify c fmt (drop at bs),
                  rp_live_len = file_header_len + sum_list (hvals (ra_sizes a))
                    + sum_list (map tombstone_frame_len (ra_tombstoned a))\<rparr>)"

section \<open>Frames split again\<close>

text \<open>The bytes \<open>push_frame\<close> appends.\<close>

definition frame_bytes :: "'t codec \<Rightarrow> bytes \<Rightarrow> bytes" where
  "frame_bytes c body =
     (let len = le_bytes (of_nat (length body)) in len @ le_bytes (frame_crc c len body) @ body)"

definition file_header :: bytes where
  "file_header = magic @ le_bytes version"

lemma push_frame_Inr:
  "push_frame c out body = Inr out' \<longleftrightarrow> length body < 2 ^ 32 \<and> out' = out @ frame_bytes c body"
  by (auto simp: push_frame_def frame_bytes_def Let_def)

lemma push_file_header_eq: "push_file_header out = out @ file_header"
  by (simp add: push_file_header_def file_header_def)

lemma length_magic [simp]: "length magic = 4"
  by (simp add: magic_def)

lemma length_file_header [simp]: "length file_header = 8"
  by (simp add: file_header_def)

lemma file_header_neq_Nil [simp]: "file_header \<noteq> []"
  using length_file_header by fastforce

lemma file_header_parts [simp]:
  "take 4 (file_header @ ys) = magic" "take 4 (drop 4 (file_header @ ys)) = le_bytes version"
  "take 4 file_header = magic" "take 4 (drop 4 file_header) = le_bytes version"
  by (simp_all add: file_header_def)

lemma length_frame_bytes [simp]: "length (frame_bytes c body) = 8 + length body"
  by (simp add: frame_bytes_def Let_def)

lemma frame_bytes_neq_Nil [simp]: "frame_bytes c body \<noteq> []"
  using length_frame_bytes [of c body] by (metis add_is_0 length_0_conv zero_neq_numeral)

lemma unat_body_length: "n < 2 ^ 32 \<Longrightarrow> unat (of_nat n :: u32) = n"
  by (simp add: unat_of_nat)

lemma v2_frame_pushed [framing]:
  assumes "length body < 2 ^ 32"
  shows "v2_frame_checked c (frame_bytes c body @ ys) verify = Some (body, 8 + length body)"
  using unat_body_length [OF assms]
  by (simp add: v2_frame_checked_def frame_bytes_def Let_def frame_header_len_def)

lemma v2_frame_mono [framing]:
  assumes "v2_frame_checked c bs verify = Some (body, step)"
  shows "v2_frame_checked c (bs @ ys) verify = Some (body, step)"
proof -
  from assms have "step \<le> length bs" and "8 \<le> length bs"
    by (auto simp: v2_frame_checked_def Let_def frame_header_len_def split: if_splits)
  with assms show ?thesis
    by (auto simp: v2_frame_checked_def Let_def frame_header_len_def split: if_splits)
qed

lemma v2_frame_prefix [framing]:
  assumes "length body < 2 ^ 32" and "n < 8 + length body"
  shows "v2_frame_checked c (take n (frame_bytes c body)) verify = None"
proof (cases "n < 8")
  case True
  then show ?thesis by (simp add: v2_frame_checked_def frame_header_len_def)
next
  case False
  then have n: "min 4 n = 4" and "min 8 n = 8" by simp_all
  have len: "take 4 (frame_bytes c body) = le_bytes (of_nat (length body))"
    by (simp add: frame_bytes_def Let_def)
  show ?thesis
    using assms False unat_body_length [OF assms(1)]
    by (simp add: v2_frame_checked_def Let_def frame_header_len_def n len)
qed

section \<open>Replay of appended bytes\<close>

lemma next_frame_mono [framing]:
  assumes "next_frame c v1 verify V2 at rest = Some x"
  shows "next_frame c v1 verify V2 at (rest @ ys) = Some x"
  using assms v2_frame_mono
  by (auto simp: next_frame_def split: if_splits option.splits prod.splits) fastforce+

text \<open>Replay of \<open>xs @ ys\<close> goes on from where replay of \<open>xs\<close> stops.\<close>

lemma replay_loop_append:
  assumes "replay_loop c v1 verify V2 xs at acc = (acc', at')"
  shows "at \<le> at' \<and> at' - at \<le> length xs \<and>
    replay_loop c v1 verify V2 (xs @ ys) at acc =
      replay_loop c v1 verify V2 (drop (at' - at) xs @ ys) at' acc'"
  using assms
proof (induction c v1 verify "V2 :: log_format" xs at acc rule: replay_loop.induct)
  case (1 c v1 verify xs at acc)
  show ?case
  proof (cases "next_frame c v1 verify V2 at xs")
    case None
    with "1.prems" have "acc' = acc" and "at' = at"
      by (simp_all add: replay_loop.simps [of c v1 verify V2 xs at acc])
    then show ?thesis by simp
  next
    case (Some x)
    obtain f n step where x: "x = (f, n, step)" by (cases x)
    note step = next_frame_step [OF Some [unfolded x]]
    from "1.prems" have run: "replay_loop c v1 verify V2 (drop step xs) (at + step) (apply_frame c f n acc)
        = (acc', at')"
      by (simp add: replay_loop.simps [of c v1 verify V2 xs at acc] Some x)
    from "1.hyps" [OF Some x [symmetric] refl run]
    have IH: "at + step \<le> at'" "at' - (at + step) \<le> length (drop step xs)"
      "replay_loop c v1 verify V2 (drop step xs @ ys) (at + step) (apply_frame c f n acc)
        = replay_loop c v1 verify V2 (drop (at' - (at + step)) (drop step xs) @ ys) at' acc'"
      by simp_all
    have "replay_loop c v1 verify V2 (xs @ ys) at acc
        = replay_loop c v1 verify V2 (drop step (xs @ ys)) (at + step) (apply_frame c f n acc)"
      using next_frame_mono [OF Some, of ys]
      by (simp add: replay_loop.simps [of c v1 verify V2 "xs @ ys" at acc] x)
    moreover have "drop step (xs @ ys) = drop step xs @ ys" using step by simp
    moreover have "drop (at' - (at + step)) (drop step xs) = drop (at' - at) xs"
      using IH(1) by simp
    moreover have "at' - at \<le> length xs" using IH(1,2) step unfolding length_drop by arith
    ultimately show ?thesis using IH step by simp
  qed
qed

text \<open>Appending one whole frame folds exactly that frame.\<close>

lemma replay_loop_frame:
  assumes "at \<noteq> 0" and "length body < 2 ^ 32" and "dec_frame c body = Some f"
  shows "replay_loop c v1 verify V2 (frame_bytes c body @ ys) at acc =
    replay_loop c v1 verify V2 ys (at + (8 + length body)) (apply_frame c f (length body) acc)"
  using assms
  by (subst replay_loop.simps) (simp add: next_frame_def v2_frame_pushed)

lemma replay_loop_Nil [simp]: "replay_loop c v1 verify V2 [] at acc = (acc, at)"
  by (simp add: replay_loop.simps next_frame_def v2_frame_checked_def frame_header_len_def)

text \<open>A frame cut short folds nothing.\<close>

lemma replay_loop_torn:
  assumes "length body < 2 ^ 32" and "n < 8 + length body"
  shows "replay_loop c v1 verify V2 (take n (frame_bytes c body)) at acc = (acc, at)"
  using v2_frame_prefix [OF assms, of c verify]
  by (subst replay_loop.simps) (simp add: next_frame_def)

section \<open>Files that replay cleanly\<close>

text \<open>A file a v2 log may hold: it replays to its own end, and is v2 or empty.\<close>

definition clean_file :: "'t codec \<Rightarrow> bytes \<Rightarrow> 't replayed \<Rightarrow> bool" where
  "clean_file c bs r \<longleftrightarrow>
     replay c (dec_frame c) True bs = Inr r \<and> rp_tail r = Clean \<and>
     rp_good_end r = length bs \<and> rp_format r \<noteq> V1"

lemma classify_clean: "classify c fmt [] = Clean"
  by (simp add: classify_def)

lemma classify_not_clean: "rest \<noteq> [] \<Longrightarrow> fmt \<noteq> Empty \<Longrightarrow> classify c fmt rest \<noteq> Clean"
  by (auto simp: classify_def Let_def split: log_format.splits)

lemma replay_start_header: "replay_start (file_header @ ys) = Inr (V2, 8)"
  by (simp add: replay_start_def file_header_len_def)

lemma replay_header:
  "replay c v1 verify (file_header @ ys) =
     (let (a, at) = replay_loop c v1 verify V2 ys 8 replay_init
      in Inr \<lparr>rp_format = V2, rp_records = ra_records a, rp_tombstoned = ra_tombstoned a,
                  rp_frames = ra_frames a, rp_removed = ra_removed a, rp_good_end = at,
                  rp_tail = classify c V2 (drop at (file_header @ ys)),
                  rp_live_len = file_header_len + sum_list (hvals (ra_sizes a))
                    + sum_list (map tombstone_frame_len (ra_tombstoned a))\<rparr>)"
  by (simp add: replay_def replay_start_header)

lemma replay_Nil:
  "replay c v1 verify [] = Inr \<lparr>rp_format = Empty, rp_records = [], rp_tombstoned = [],
     rp_frames = 0, rp_removed = False, rp_good_end = 0, rp_tail = Clean, rp_live_len = 8\<rparr>"
  by (simp add: replay_def replay_start_def replay_loop.simps next_frame_def classify_def
      replay_init_def file_header_len_def)

text \<open>What one frame does to the map of records and to the set of flags.\<close>

fun frame_records :: "'t codec \<Rightarrow> 't frame \<Rightarrow> (string \<rightharpoonup> 't) \<Rightarrow> (string \<rightharpoonup> 't)" where
  "frame_records c (Upsert r) R = R(key_of c r \<mapsto> r)"
| "frame_records c (Remove k) R = R(k := None)"
| "frame_records c _ R = R"

fun frame_tombs :: "'t frame \<Rightarrow> string set \<Rightarrow> string set" where
  "frame_tombs (Remove k) T = T - {k}"
| "frame_tombs (Tombstone k) T = insert k T"
| "frame_tombs (Untombstone k) T = T - {k}"
| "frame_tombs _ T = T"

lemma apply_frame_records: "map_of (ra_records (apply_frame c f n a)) = frame_records c f (map_of (ra_records a))"
  by (cases f) (auto simp: fun_eq_iff)

lemma apply_frame_tombs: "set (ra_tombstoned (apply_frame c f n a)) = frame_tombs f (set (ra_tombstoned a))"
  by (cases f) auto

lemma apply_frame_ok: "hmap_ok (ra_records a) \<Longrightarrow> hmap_ok (ra_records (apply_frame c f n a))"
  by (cases f) auto

lemma apply_frame_distinct: "distinct (ra_tombstoned a) \<Longrightarrow> distinct (ra_tombstoned (apply_frame c f n a))"
  by (cases f) (auto simp: distinct_removeAll)

lemma replay_loop_ok:
  "hmap_ok (ra_records acc) \<Longrightarrow> distinct (ra_tombstoned acc) \<Longrightarrow>
   replay_loop c v1 verify fmt rest at acc = (acc', at') \<Longrightarrow>
   hmap_ok (ra_records acc') \<and> distinct (ra_tombstoned acc')"
proof (induction c v1 verify fmt rest at acc rule: replay_loop.induct)
  case (1 c v1 verify fmt rest at acc)
  then show ?case
    by (subst (asm) replay_loop.simps)
       (auto split: option.splits prod.splits simp: apply_frame_ok apply_frame_distinct)
qed

lemma replay_ok:
  assumes "replay c v1 verify bs = Inr r"
  shows "hmap_ok (rp_records r) \<and> distinct (rp_tombstoned r)"
proof -
  have init: "hmap_ok (ra_records replay_init)" "distinct (ra_tombstoned replay_init)"
    by (simp_all add: replay_init_def)
  show ?thesis
    using assms
    by (auto simp: replay_def Let_def split: sum.splits prod.splits dest: replay_loop_ok [OF init])
qed

lemma replay_loop_v1_irrelevant:
  "fmt \<noteq> V1 \<Longrightarrow> replay_loop c v1 verify fmt rest at acc = replay_loop c v1' verify fmt rest at acc"
proof (induction c v1 verify fmt rest at acc rule: replay_loop.induct)
  case (1 c v1 verify fmt rest at acc)
  have "next_frame c v1 verify fmt at rest = next_frame c v1' verify fmt at rest"
    using "1.prems" by (simp add: next_frame_def split: log_format.splits)
  then show ?case
    using 1
    by (auto simp: replay_loop.simps [of c v1 verify fmt rest at acc]
        replay_loop.simps [of c v1' verify fmt rest at acc] split: option.splits)
qed

lemma replay_v1_irrelevant:
  assumes "replay c v1 verify bs = Inr r" and "rp_format r \<noteq> V1"
  shows "replay c v1' verify bs = Inr r"
proof -
  obtain fmt at0 where st: "replay_start bs = Inr (fmt, at0)"
    using assms(1) by (auto simp: replay_def split: sum.splits)
  with assms have "fmt \<noteq> V1" by (auto simp: replay_def Let_def split: prod.splits)
  then show ?thesis
    using assms(1) st replay_loop_v1_irrelevant [of fmt c v1 verify _ _ _ v1']
    by (simp add: replay_def)
qed

text \<open>A non-empty clean file is a header and a run of frames that reaches its end.\<close>

lemma clean_file_start:
  assumes "clean_file c bs r" and "bs \<noteq> []"
  obtains ys a where "bs = file_header @ ys" and "rp_format r = V2"
    and "replay_loop c (dec_frame c) True V2 ys 8 replay_init = (a, length bs)"
    and "rp_records r = ra_records a" and "rp_tombstoned r = ra_tombstoned a"
    and "rp_removed r = ra_removed a"
proof -
  obtain fmt at0 where st: "replay_start bs = Inr (fmt, at0)"
    using assms(1) by (auto simp: clean_file_def replay_def split: sum.splits)
  obtain a at where run: "replay_loop c (dec_frame c) True fmt (drop at0 bs) at0 replay_init = (a, at)"
    by fastforce
  have r: "rp_format r = fmt" "rp_good_end r = at" "rp_records r = ra_records a"
    "rp_tombstoned r = ra_tombstoned a" "rp_removed r = ra_removed a"
    using assms(1) st run by (auto simp: clean_file_def replay_def)
  have at: "at = length bs" using assms(1) r by (simp add: clean_file_def)
  have "fmt \<noteq> V1" using assms(1) r by (simp add: clean_file_def)
  moreover have "fmt \<noteq> Empty"
    using st assms(2) by (auto simp: replay_start_def Let_def split: if_splits)
  ultimately have fmt: "fmt = V2" by (cases fmt) auto
  have "at0 \<noteq> 0"
  proof
    assume "at0 = 0"
    then have "at = 0"
      using run fmt by (simp add: replay_loop.simps [of _ _ _ _ _ 0] next_frame_def)
    with at assms(2) show False by simp
  qed
  with st fmt have at0: "at0 = 8" and hd: "8 \<le> length bs" "take 4 bs = magic"
      "of_le_bytes (take 4 (drop 4 bs)) = version"
    by (auto simp: replay_start_def Let_def file_header_len_def split: if_splits)
  have "le_bytes (of_le_bytes (take 4 (drop 4 bs))) = take 4 (drop 4 bs)"
    using hd(1) by simp
  with hd(3) have "take 4 (drop 4 bs) = le_bytes version" by simp
  moreover have "take 8 bs = take 4 bs @ take 4 (drop 4 bs)"
    using take_add [of 4 4 bs] by simp
  ultimately have "take 8 bs = file_header"
    using hd(2) by (simp add: file_header_def)
  then have bs: "bs = file_header @ drop 8 bs"
    by (metis append_take_drop_id)
  show thesis
    by (rule that [OF bs]) (use r run at0 fmt at in simp_all)
qed

text \<open>Appending a frame to a clean file: clean again, with that frame's effect.\<close>

lemma clean_file_append:
  assumes "clean_file c bs r" and "bs \<noteq> []"
    and body: "length body < 2 ^ 32" "dec_frame c body = Some f"
  obtains r' where "clean_file c (bs @ frame_bytes c body) r'"
    and "map_of (rp_records r') = frame_records c f (map_of (rp_records r))"
    and "set (rp_tombstoned r') = frame_tombs f (set (rp_tombstoned r))"
    and "rp_removed r' \<longleftrightarrow> rp_removed r \<or> (\<exists>k. f = Remove k)"
proof -
  obtain ys a where bs: "bs = file_header @ ys" and fmt: "rp_format r = V2"
    and run: "replay_loop c (dec_frame c) True V2 ys 8 replay_init = (a, length bs)"
    and r: "rp_records r = ra_records a" "rp_tombstoned r = ra_tombstoned a"
      "rp_removed r = ra_removed a"
    using assms(1,2) by (rule clean_file_start)
  let ?a = "apply_frame c f (length body) a"
  have "length bs - 8 = length ys" using bs by simp
  then have run': "replay_loop c (dec_frame c) True V2 (ys @ frame_bytes c body) 8 replay_init
      = (?a, length bs + (8 + length body))"
    using replay_loop_append [OF run, of "frame_bytes c body"] assms(2)
      replay_loop_frame [OF _ body, of "length bs" "dec_frame c" True "[]" a]
    by simp
  have rem: "ra_removed ?a \<longleftrightarrow> ra_removed a \<or> (\<exists>k. f = Remove k)" by (cases f) auto
  show thesis
    by (rule that) (use run' bs r rem in \<open>auto simp: clean_file_def replay_header Let_def
        apply_frame_records apply_frame_tombs classify_clean\<close>)
qed

lemma clean_file_first:
  assumes body: "length body < 2 ^ 32" "dec_frame c body = Some f"
  obtains r' where "clean_file c (file_header @ frame_bytes c body) r'"
    and "map_of (rp_records r') = frame_records c f Map.empty"
    and "set (rp_tombstoned r') = frame_tombs f {}"
    and "rp_removed r' \<longleftrightarrow> (\<exists>k. f = Remove k)"
proof -
  obtain r where "clean_file c file_header r" "rp_records r = []" "rp_tombstoned r = []"
    "\<not> rp_removed r"
    using replay_header [of c "dec_frame c" True "[]"]
    by (fastforce simp: clean_file_def classify_clean replay_init_def)
  then show thesis
    using clean_file_append [of c file_header r body f thesis] body that by auto
qed

text \<open>A clean file followed by a frame cut short replays to the same state.\<close>

lemma clean_file_torn:
  assumes "clean_file c bs r" and "bs \<noteq> []"
    and body: "length body < 2 ^ 32" "n < 8 + length body"
  obtains r' where "replay c v1 True (bs @ take n (frame_bytes c body)) = Inr r'"
    and "rp_records r' = rp_records r" and "rp_tombstoned r' = rp_tombstoned r"
    and "rp_good_end r' = length bs" and "rp_format r' = V2"
proof -
  obtain ys a where bs: "bs = file_header @ ys" and fmt: "rp_format r = V2"
    and run: "replay_loop c (dec_frame c) True V2 ys 8 replay_init = (a, length bs)"
    and r: "rp_records r = ra_records a" "rp_tombstoned r = ra_tombstoned a"
      "rp_removed r = ra_removed a"
    using assms(1,2) by (rule clean_file_start)
  let ?t = "take n (frame_bytes c body)"
  have "length bs - 8 = length ys" using bs by simp
  then have "replay_loop c (dec_frame c) True V2 (ys @ ?t) 8 replay_init = (a, length bs)"
    using replay_loop_append [OF run, of ?t] replay_loop_torn [OF body] by simp
  then have run': "replay_loop c v1 True V2 (ys @ ?t) 8 replay_init = (a, length bs)"
    using replay_loop_v1_irrelevant [of V2 c v1 True _ _ _ "dec_frame c"] by simp
  have "\<exists>r'. replay c v1 True (bs @ ?t) = Inr r' \<and> rp_records r' = rp_records r \<and>
      rp_tombstoned r' = rp_tombstoned r \<and> rp_good_end r' = length bs \<and> rp_format r' = V2"
    using run' bs r by (simp add: replay_header)
  with that show thesis by blast
qed

end
