(* ===== verification/Kvlog.thy ===== *)
theory Kvlog
  imports Kvlog_Frames
begin

text \<open>
  The log itself (\<open>rust/chain/src/kvlog.rs\<close>, \<open>Log\<close>): load with its repair, the append and
  the operations over it, the wipe and the compaction. Every operation takes the log and the
  disk and returns both with its result, whatever the disk does.
\<close>

section \<open>State and operations\<close>

record 't log =
  lg_path :: path
  lg_records :: "(string, 't) hmap"
  lg_tombstoned :: "string hset"
  lg_end :: nat
  lg_cut_owed :: bool
  lg_held :: "string option"
  lg_removed :: bool

definition hold :: "'t log \<Rightarrow> string option" where
  "hold lg = lg_held lg"

definition holds_removed :: "'t log \<Rightarrow> bool" where
  "holds_removed lg = lg_removed lg"

definition refuse_if_held :: "'t log \<Rightarrow> kv_error + unit" where
  "refuse_if_held lg = (case lg_held lg of Some why \<Rightarrow> Inl (ReadOnly why) | None \<Rightarrow> Inr ())"

definition log_name :: "'t log \<Rightarrow> string" where
  "log_name lg = (case file_name (lg_path lg) of Some n \<Rightarrow> n | None \<Rightarrow> [])"

definition aside_prefix :: "'t log \<Rightarrow> string" where
  "aside_prefix lg = log_name lg @ ''.unreadable-''"

definition aside_path :: "'t codec \<Rightarrow> 't log \<Rightarrow> nat \<Rightarrow> bytes \<Rightarrow> path" where
  "aside_path c lg offset cut_bytes =
     with_file_name (lg_path lg)
       (aside_prefix lg @ decimal offset @ ''-'' @ decimal (length cut_bytes) @ ''-'' @
        hex_lower (rev (le_bytes (crc c cut_bytes))))"

definition asides :: "'t log \<Rightarrow> disk \<Rightarrow> disk \<times> (kv_error + path list)" where
  "asides lg d =
     (case parent (lg_path lg) of
        None \<Rightarrow> (d, Inr [])
      | Some dir \<Rightarrow> io_try d (\<lambda>_ d. (d, Inl (Io OtherError)))
          (\<lambda>d. (d, Inr (filter (\<lambda>p. p \<noteq> [] \<and> butlast p = dir \<and>
             (starts_with (last p) (aside_prefix lg) \<or> starts_with (last p) (''.'' @ aside_prefix lg)))
             (hkeys (files d))))))"

text \<open>Every copy is tried; the first failure is the result.\<close>

fun remove_files :: "path list \<Rightarrow> disk \<Rightarrow> disk \<times> io_error option" where
  "remove_files [] d = (d, None)"
| "remove_files (p # ps) d = io_try d
     (\<lambda>_ d. let (d, _) = remove_files ps d in (d, Some OtherError))
     (\<lambda>d. remove_files ps (del_file p d))"

definition remove_asides :: "'t log \<Rightarrow> disk \<Rightarrow> disk \<times> (kv_error + nat)" where
  "remove_asides lg d =
     (case asides lg d of
        (d, Inl e) \<Rightarrow> (d, Inl e)
      | (d, Inr ps) \<Rightarrow>
          (case remove_files ps d of
             (d, Some e) \<Rightarrow> (d, Inl (Io e))
           | (d, None) \<Rightarrow> (d, Inr (length ps))))"

text \<open>
  One frame written at the log's end, cutting first only bytes this log owns. The write and
  its sync are one call here: a failure that leaves all the bytes is a failed sync.
\<close>

definition write_frame ::
  "'t log \<Rightarrow> bytes \<Rightarrow> bytes \<Rightarrow> disk \<Rightarrow> 't log \<times> disk \<times> (kv_error + unit)" where
  "write_frame lg bs buf d =
     io_try d (\<lambda>_ d. (lg, d, Inl (Io OtherError))) (\<lambda>d. \<comment> \<open>seek\<close>
     io_try d
       (\<lambda>n d. (lg\<lparr>lg_cut_owed := True\<rparr>, put_file (lg_path lg) (bs @ take n buf) d, Inl (Io OtherError)))
       (\<lambda>d. (lg\<lparr>lg_end := lg_end lg + length buf, lg_cut_owed := False\<rparr>,
              put_file (lg_path lg) (bs @ buf) d, Inr ())))"

text \<open>The file's length against the log's end, before the write.\<close>

definition cut_and_write ::
  "'t log \<Rightarrow> bytes \<Rightarrow> bytes \<Rightarrow> disk \<Rightarrow> 't log \<times> disk \<times> (kv_error + unit)" where
  "cut_and_write lg bs buf d =
     (let on_disk = length bs in
      if on_disk < lg_end lg then (lg, d, Inl (ShorterThanEnd on_disk (lg_end lg)))
      else if lg_end lg < on_disk then
        (if \<not> lg_cut_owed lg then (lg, d, Inl GrewBehind)
         else io_try d (\<lambda>_ d. (lg, d, Inl (Io OtherError))) (\<lambda>d. \<comment> \<open>cut\<close>
           let kept = take (lg_end lg) bs
           in write_frame lg kept buf (put_file (lg_path lg) kept d)))
      else write_frame lg bs buf d)"

definition append_log :: "'t codec \<Rightarrow> 't log \<Rightarrow> disk \<Rightarrow> bytes \<Rightarrow> 't log \<times> disk \<times> (kv_error + unit)" where
  "append_log c lg d body =
     (case refuse_if_held lg of Inl e \<Rightarrow> (lg, d, Inl e) | Inr _ \<Rightarrow>
     (case push_frame c (if lg_end lg = 0 then push_file_header [] else []) body of
        Inl e \<Rightarrow> (lg, d, Inl e)
      | Inr buf \<Rightarrow>
        let failed = (\<lambda>_ d. (lg, d, Inl (Io OtherError))) in
        io_try d failed (\<lambda>d. \<comment> \<open>create the directory\<close>
        io_try d failed (\<lambda>d. \<comment> \<open>open, creating\<close>
        let bs = (case content d (lg_path lg) of None \<Rightarrow> [] | Some bs \<Rightarrow> bs);
            d = put_file (lg_path lg) bs d in
        io_try d failed (\<lambda>d. \<comment> \<open>metadata\<close>
        cut_and_write lg bs buf d)))))"

definition upsert ::
  "'t codec \<Rightarrow> 't log \<Rightarrow> disk \<Rightarrow> string \<Rightarrow> 't \<Rightarrow> 't log \<times> disk \<times> (kv_error + bool)" where
  "upsert c lg d key r =
     (case upsert_body c r of Inl e \<Rightarrow> (lg, d, Inl e) | Inr body \<Rightarrow>
      let write = (case append_log c lg d body of
                     (lg, d, Inl e) \<Rightarrow> (lg, d, Inl e)
                   | (lg, d, Inr _) \<Rightarrow> (lg\<lparr>lg_records := hput key r (lg_records lg)\<rparr>, d, Inr True))
      in (case hget (lg_records lg) key of
            None \<Rightarrow> write
          | Some held \<Rightarrow>
              (case upsert_body c held of
                 Inl e \<Rightarrow> (lg, d, Inl e)
               | Inr held_body \<Rightarrow> if held_body = body then (lg, d, Inr False) else write)))"

definition remove :: "'t codec \<Rightarrow> 't log \<Rightarrow> disk \<Rightarrow> string \<Rightarrow> 't log \<times> disk \<times> (kv_error + unit)" where
  "remove c lg d key =
     (if hget (lg_records lg) key = None then (lg, d, Inr ())
      else (case encode c (Remove key) of Inl e \<Rightarrow> (lg, d, Inl e) | Inr body \<Rightarrow>
        (case append_log c lg d body of
           (lg, d, Inl e) \<Rightarrow> (lg, d, Inl e)
         | (lg, d, Inr _) \<Rightarrow>
             (lg\<lparr>lg_records := hdel key (lg_records lg),
                 lg_tombstoned := hset_remove key (lg_tombstoned lg), lg_removed := True\<rparr>, d, Inr ()))))"

definition tombstone :: "'t codec \<Rightarrow> 't log \<Rightarrow> disk \<Rightarrow> string \<Rightarrow> 't log \<times> disk \<times> (kv_error + bool)" where
  "tombstone c lg d key =
     (if hget (lg_records lg) key = None \<or> key \<in> set (lg_tombstoned lg) then (lg, d, Inr False)
      else (case encode c (Tombstone key) of Inl e \<Rightarrow> (lg, d, Inl e) | Inr body \<Rightarrow>
        (case append_log c lg d body of
           (lg, d, Inl e) \<Rightarrow> (lg, d, Inl e)
         | (lg, d, Inr _) \<Rightarrow> (lg\<lparr>lg_tombstoned := hset_insert key (lg_tombstoned lg)\<rparr>, d, Inr True))))"

definition untombstone :: "'t codec \<Rightarrow> 't log \<Rightarrow> disk \<Rightarrow> string \<Rightarrow> 't log \<times> disk \<times> (kv_error + bool)" where
  "untombstone c lg d key =
     (if key \<notin> set (lg_tombstoned lg) then (lg, d, Inr False)
      else (case encode c (Untombstone key) of Inl e \<Rightarrow> (lg, d, Inl e) | Inr body \<Rightarrow>
        (case append_log c lg d body of
           (lg, d, Inl e) \<Rightarrow> (lg, d, Inl e)
         | (lg, d, Inr _) \<Rightarrow> (lg\<lparr>lg_tombstoned := hset_remove key (lg_tombstoned lg)\<rparr>, d, Inr True))))"

definition is_tombstoned :: "'t log \<Rightarrow> string \<Rightarrow> bool" where
  "is_tombstoned lg key \<longleftrightarrow> key \<in> set (lg_tombstoned lg)"

definition wipe :: "'t log \<Rightarrow> disk \<Rightarrow> 't log \<times> disk \<times> (kv_error + unit)" where
  "wipe lg d =
     (case refuse_if_held lg of Inl e \<Rightarrow> (lg, d, Inl e) | Inr _ \<Rightarrow>
     (case atomic_write (lg_path lg) [] d of
        (d, Inl e) \<Rightarrow> (lg, d, Inl (Io e))
      | (d, Inr _) \<Rightarrow>
          (lg\<lparr>lg_records := [], lg_tombstoned := [], lg_end := 0, lg_cut_owed := False,
              lg_removed := False\<rparr>, d, Inr ())))"

section \<open>Compaction\<close>

fun push_all :: "'t codec \<Rightarrow> bytes \<Rightarrow> (kv_error + bytes) list \<Rightarrow> kv_error + bytes" where
  "push_all c out [] = Inr out"
| "push_all c out (b # bs) =
     (case b of Inl e \<Rightarrow> Inl e | Inr body \<Rightarrow>
        (case push_frame c out body of Inl e \<Rightarrow> Inl e | Inr out \<Rightarrow> push_all c out bs))"

text \<open>One \<open>Upsert\<close> per live record, then one \<open>Tombstone\<close> per flag, each in key order.\<close>

definition image_log :: "'t codec \<Rightarrow> 't log \<Rightarrow> kv_error + bytes" where
  "image_log c lg =
     push_all c (push_file_header [])
       (map (\<lambda>k. upsert_body c (the (hget (lg_records lg) k))) (sort (hkeys (lg_records lg))) @
        map (\<lambda>k. encode c (Tombstone k)) (sort (lg_tombstoned lg)))"

text \<open>The image must replay to exactly the state it was built from.\<close>

definition image_same :: "'t codec \<Rightarrow> 't log \<Rightarrow> 't replayed \<Rightarrow> bool" where
  "image_same c lg check \<longleftrightarrow>
     rp_format check = V2 \<and> rp_tail check = Clean \<and>
     set (rp_tombstoned check) = set (lg_tombstoned lg) \<and>
     length (rp_records check) = length (lg_records lg) \<and>
     list_all (\<lambda>(key, record).
       (case (hget (lg_records lg) key, upsert_body c record) of
          (Some mine, Inr theirs) \<Rightarrow> upsert_body c mine = Inr theirs
        | _ \<Rightarrow> False)) (rp_records check)"

definition compact :: "'t codec \<Rightarrow> 't log \<Rightarrow> disk \<Rightarrow> 't log \<times> disk \<times> (kv_error + unit)" where
  "compact c lg d =
     (case refuse_if_held lg of Inl e \<Rightarrow> (lg, d, Inl e) | Inr _ \<Rightarrow>
      io_try d (\<lambda>_ d. (lg, d, Inl (Io OtherError))) (\<lambda>d. \<comment> \<open>metadata\<close>
      let on_disk = (case content d (lg_path lg) of None \<Rightarrow> 0 | Some bs \<Rightarrow> length bs) in
      if lg_end lg < on_disk \<and> \<not> lg_cut_owed lg then (lg, d, Inl GrewBehind)
      else (case image_log c lg of Inl e \<Rightarrow> (lg, d, Inl e) | Inr img \<Rightarrow>
        (case replay c (dec_frame c) True img of Inl e \<Rightarrow> (lg, d, Inl e) | Inr check \<Rightarrow>
          if \<not> image_same c lg check then (lg, d, Inl ImageMismatch)
          else (case atomic_write (lg_path lg) img d of
                  (d, Inl e) \<Rightarrow> (lg, d, Inl (Io e))
                | (d, Inr _) \<Rightarrow>
                    (lg\<lparr>lg_end := length img, lg_cut_owed := False, lg_removed := False\<rparr>, d, Inr ()))))))"

section \<open>Load\<close>

definition checksum_hold :: string where
  "checksum_hold = ''the checksum fails its known answers on this device''"

definition aside_hold :: string where
  "aside_hold = ''unreadable bytes could not be copied aside''"

definition migration_hold :: string where
  "migration_hold = ''the v1 file could not be migrated''"

text \<open>Why a load rewrites the file, if it does.\<close>

definition rewrite_reason :: "log_format \<Rightarrow> tail \<Rightarrow> bool \<Rightarrow> string option" where
  "rewrite_reason fmt what is_grown =
     (case (fmt, what, is_grown) of
        (V1, _, _) \<Rightarrow> Some ''migrated v1 to v2''
      | (_, Torn _, _) \<Rightarrow> Some ''torn tail cut''
      | (_, Unreadable _, _) \<Rightarrow> Some ''unreadable tail cut''
      | (_, Clean, True) \<Rightarrow> Some ''compacted''
      | _ \<Rightarrow> None)"

definition load_with_v1 ::
  "'t codec \<Rightarrow> (bytes \<Rightarrow> 't frame option) \<Rightarrow> path \<Rightarrow> disk \<Rightarrow> disk \<times> (kv_error + 't log)" where
  "load_with_v1 c v1 path d =
     (case read_file path d of
        (d, Inl OtherError) \<Rightarrow> (d, Inl (Io OtherError))
      | (d, Inl InvalidInput) \<Rightarrow> (d, Inl (Io InvalidInput))
      | (d, got) \<Rightarrow>
      let bs = (case got of Inl _ \<Rightarrow> [] | Inr bs \<Rightarrow> bs); verify = checksum_holds c in
      (case replay c v1 verify bs of Inl e \<Rightarrow> (d, Inl e) | Inr found \<Rightarrow>
      let lg = \<lparr>lg_path = path, lg_records = rp_records found, lg_tombstoned = rp_tombstoned found,
                lg_end = rp_good_end found, lg_cut_owed = False, lg_held = None,
                lg_removed = rp_removed found\<rparr> in
      if \<not> verify then (d, Inr (lg\<lparr>lg_held := Some checksum_hold\<rparr>))
      else if rp_format found = Empty then (d, Inr lg)
      else
        let cut_bytes = drop (rp_good_end found) bs;
            (d, saved) = (case rp_tail found of
                            Unreadable n \<Rightarrow> atomic_write (aside_path c lg (rp_good_end found) cut_bytes) cut_bytes d
                          | _ \<Rightarrow> (d, Inr ()))
        in (case saved of Inl _ \<Rightarrow> (d, Inr (lg\<lparr>lg_held := Some aside_hold\<rparr>)) | Inr _ \<Rightarrow>
          let lg = lg\<lparr>lg_cut_owed := rp_tail found \<noteq> Clean\<rparr> in
          (case rewrite_reason (rp_format found) (rp_tail found)
                  (grown (length bs) (rp_live_len found)) of
             None \<Rightarrow> (d, Inr lg)
           | Some why \<Rightarrow>
               (case compact c lg d of
                  (lg, d, Inr _) \<Rightarrow> (d, Inr lg)
                | (lg, d, Inl e) \<Rightarrow>
                    if rp_format found = V1 then (d, Inr (lg\<lparr>lg_held := Some migration_hold\<rparr>))
                    else (d, Inr (lg\<lparr>lg_cut_owed := rp_tail found \<noteq> Clean\<rparr>)))))))"

definition load :: "'t codec \<Rightarrow> path \<Rightarrow> disk \<Rightarrow> disk \<times> (kv_error + 't log)" where
  "load c path d = load_with_v1 c (dec_frame c) path d"

end
