(* ===== verification/Kvlog_Durability.thy ===== *)
theory Kvlog_Durability
  imports Kvlog
begin

text \<open>
  What the log promises the stores above it, whatever the disk does: the records and flags in
  memory are the ones the good part of the file replays to (\<open>log_inv\<close>), every operation keeps
  that, a crash inside a write leaves the state before it or the state after it, the
  compacted image always replays to the state it was built from, and a repair at load never
  destroys bytes it could not read without a copy of them.
\<close>

section \<open>The invariant\<close>

definition file_of :: "disk \<Rightarrow> path \<Rightarrow> bytes" where
  "file_of d p = (case content d p of None \<Rightarrow> [] | Some bs \<Rightarrow> bs)"

text \<open>The state a clean file replays to is the log's.\<close>

definition holds_state :: "'t codec \<Rightarrow> bytes \<Rightarrow> 't log \<Rightarrow> bool" where
  "holds_state c bs lg \<longleftrightarrow>
     (\<exists>r. clean_file c bs r \<and> map_of (rp_records r) = map_of (lg_records lg) \<and>
          set (rp_tombstoned r) = set (lg_tombstoned lg) \<and> (rp_removed r \<longrightarrow> lg_removed lg))"

text \<open>The maps are maps, the flags a set, and every record is filed under its own key.\<close>

definition log_wf :: "'t codec \<Rightarrow> 't log \<Rightarrow> bool" where
  "log_wf c lg \<longleftrightarrow>
     lg_path lg \<noteq> [] \<and> hmap_ok (lg_records lg) \<and> distinct (lg_tombstoned lg) \<and>
     (\<forall>k r. hget (lg_records lg) k = Some r \<longrightarrow> key_of c r = k)"

text \<open>
  What the whole file may show while it has bytes to cut: the log's own state, or that state
  changed by one frame, whose write failed after its bytes were down.
\<close>

definition tail_shows :: "'t codec \<Rightarrow> bytes \<Rightarrow> 't log \<Rightarrow> bool" where
  "tail_shows c bs lg \<longleftrightarrow>
     (\<exists>r. replay c (dec_frame c) True bs = Inr r \<and>
       (map_of (rp_records r) = map_of (lg_records lg) \<and> set (rp_tombstoned r) = set (lg_tombstoned lg) \<or>
        (\<exists>f. map_of (rp_records r) = frame_records c f (map_of (lg_records lg)) \<and>
             set (rp_tombstoned r) = frame_tombs f (set (lg_tombstoned lg)))))"

definition log_inv :: "'t codec \<Rightarrow> 't log \<Rightarrow> disk \<Rightarrow> bool" where
  "log_inv c lg d \<longleftrightarrow>
     log_wf c lg \<and>
     (lg_held lg = None \<longrightarrow>
        lg_end lg \<le> length (file_of d (lg_path lg)) \<and>
        (\<not> lg_cut_owed lg \<longrightarrow> length (file_of d (lg_path lg)) = lg_end lg) \<and>
        (lg_cut_owed lg \<longrightarrow> tail_shows c (file_of d (lg_path lg)) lg) \<and>
        holds_state c (take (lg_end lg) (file_of d (lg_path lg))) lg)"

lemma file_of_put_file [simp]: "file_of (put_file p bs d) q = (if q = p then bs else file_of d q)"
  by (simp add: file_of_def)

lemma file_of_content: "content d = content d' \<Longrightarrow> file_of d p = file_of d' p"
  by (simp add: file_of_def)

lemma log_inv_content: "content d' = content d \<Longrightarrow> log_inv c lg d' \<longleftrightarrow> log_inv c lg d"
  by (simp add: log_inv_def file_of_def)

lemma log_inv_wf: "log_inv c lg d \<Longrightarrow> log_wf c lg"
  by (simp add: log_inv_def)

section \<open>Append\<close>

text \<open>The bytes one append adds to a file of length \<open>n\<close>.\<close>

definition appended :: "'t codec \<Rightarrow> nat \<Rightarrow> bytes \<Rightarrow> bytes" where
  "appended c n body = (if n = 0 then file_header else []) @ frame_bytes c body"

lemma push_frame_appended:
  "push_frame c (if n = 0 then push_file_header [] else []) body = Inr buf \<longleftrightarrow>
   length body < 2 ^ 32 \<and> buf = appended c n body"
  by (auto simp: push_frame_Inr appended_def push_file_header_eq)

section \<open>A crash inside an append\<close>

lemma replay_short_header:
  assumes "k < 8"
  obtains r where "replay c v1 verify (take k file_header) = Inr r" "rp_records r = []" "rp_tombstoned r = []"
proof -
  have "take (min k 4) (take k file_header) = take (min k 4) magic"
    using assms by (auto simp: file_header_def min_def take_Cons' split: if_splits)
  then have "replay_start (take k file_header) = (if k = 0 then Inr (Empty, 0) else Inr (V2, 0))"
    using assms starts_with_take [of magic "min k 4"] length_file_header
    by (auto simp: replay_start_def file_header_len_def simp del: take_take)
  then show thesis
    using that
    by (cases "k = 0")
       (fastforce simp: replay_def replay_loop.simps [of _ _ _ _ _ 0] next_frame_def replay_init_def)+
qed

text \<open>What a file cut inside its last frame replays to, whatever the cut.\<close>

definition old_or_new :: "'t codec \<Rightarrow> 't frame \<Rightarrow> 't replayed \<Rightarrow> 't replayed \<Rightarrow> bool" where
  "old_or_new c f r r' \<longleftrightarrow>
     map_of (rp_records r') = map_of (rp_records r) \<and> set (rp_tombstoned r') = set (rp_tombstoned r)
   \<or> map_of (rp_records r') = frame_records c f (map_of (rp_records r)) \<and>
     set (rp_tombstoned r') = frame_tombs f (set (rp_tombstoned r))"

lemma clean_file_replay:
  "clean_file c bs r \<Longrightarrow> replay c v1 True bs = Inr r"
  using replay_v1_irrelevant [of c "dec_frame c" True bs r v1] by (simp add: clean_file_def)

lemma replay_cut_append_more:
  assumes cl: "clean_file c bs r" and ne: "bs \<noteq> []"
    and body: "length body < 2 ^ 32" "dec_frame c body = Some f"
  obtains r' where "replay c v1 True (bs @ take k (frame_bytes c body)) = Inr r'" and "old_or_new c f r r'"
proof (cases "k < 8 + length body")
  case True
  obtain r' where "replay c v1 True (bs @ take k (frame_bytes c body)) = Inr r'"
    "rp_records r' = rp_records r" "rp_tombstoned r' = rp_tombstoned r"
    using clean_file_torn [OF cl ne body(1) True, of v1] .
  then show thesis using that by (simp add: old_or_new_def)
next
  case False
  then have full: "take k (frame_bytes c body) = frame_bytes c body" by simp
  obtain r' where r': "clean_file c (bs @ frame_bytes c body) r'"
    "map_of (rp_records r') = frame_records c f (map_of (rp_records r))"
    "set (rp_tombstoned r') = frame_tombs f (set (rp_tombstoned r))"
    using clean_file_append [OF cl ne body] .
  show thesis
    by (rule that [of r'])
       (use clean_file_replay [OF r'(1), of v1] r'(2,3) in \<open>simp_all add: full old_or_new_def del: take_all\<close>)
qed

lemma replay_cut_append:
  assumes cl: "clean_file c bs r" and body: "length body < 2 ^ 32" "dec_frame c body = Some f"
  obtains r' where "replay c v1 True (bs @ take k (appended c (length bs) body)) = Inr r'"
    and "old_or_new c f r r'"
proof (cases "bs = []")
  case False
  then have a: "appended c (length bs) body = frame_bytes c body" by (simp add: appended_def)
  show thesis
    using replay_cut_append_more [OF cl False body, of v1 k] that unfolding a .
next
  case True
  have r: "rp_records r = []" "rp_tombstoned r = []"
    using cl True by (auto simp: clean_file_def replay_Nil)
  show thesis
  proof (cases "k < 8")
    case short: True
    obtain r' where "replay c v1 True (take k file_header) = Inr r'" "rp_records r' = []" "rp_tombstoned r' = []"
      using replay_short_header [OF short, of c v1 True] .
    then show thesis using that [of r'] short r True by (simp add: appended_def old_or_new_def)
  next
    case k: False
    obtain r0 where r0: "clean_file c file_header r0" "rp_records r0 = []" "rp_tombstoned r0 = []"
      using replay_header [of c "dec_frame c" True "[]"]
      by (fastforce simp: clean_file_def classify_clean replay_init_def)
    obtain r' where r': "replay c v1 True (file_header @ take (k - 8) (frame_bytes c body)) = Inr r'"
      "old_or_new c f r0 r'"
      using replay_cut_append_more [OF r0(1) file_header_neq_Nil body, of v1 "k - 8"] .
    have "bs @ take k (appended c (length bs) body) = file_header @ take (k - 8) (frame_bytes c body)"
      using True k by (simp add: appended_def)
    with r' r0 r that [of r'] show thesis by (simp add: old_or_new_def)
  qed
qed

lemma io_call_file_of: "content d' = content d \<Longrightarrow> file_of d' = file_of d"
  by (simp add: file_of_def fun_eq_iff)

lemma file_of_put [simp]: "file_of (put_file p bs d) = (file_of d)(p := bs)"
  by (simp add: fun_eq_iff)

lemma write_frame_cases:
  assumes "write_frame lg bs buf d = (lg', d', res)"
  obtains
    (ok) "res = Inr ()" "lg' = lg\<lparr>lg_end := lg_end lg + length buf, lg_cut_owed := False\<rparr>"
      "file_of d' = (file_of d)(lg_path lg := bs @ buf)"
  | (untouched) "res = Inl (Io OtherError)" "lg' = lg" "file_of d' = file_of d"
  | (partial) k where "res = Inl (Io OtherError)" "lg' = lg\<lparr>lg_cut_owed := True\<rparr>"
      "file_of d' = (file_of d)(lg_path lg := bs @ take k buf)"
  using assms unfolding write_frame_def
  by (auto elim!: io_tryE dest!: io_call_file_of)

lemma cut_and_write_cases:
  assumes "cut_and_write lg (file_of d (lg_path lg)) buf d = (lg', d', res)"
    and "\<not> lg_cut_owed lg \<Longrightarrow> length (file_of d (lg_path lg)) = lg_end lg"
    and le: "lg_end lg \<le> length (file_of d (lg_path lg))"
  obtains
    (ok) "res = Inr ()" "lg' = lg\<lparr>lg_end := lg_end lg + length buf, lg_cut_owed := False\<rparr>"
      "file_of d' = (file_of d)(lg_path lg := take (lg_end lg) (file_of d (lg_path lg)) @ buf)"
  | (untouched) e where "res = Inl e" "lg' = lg" "file_of d' = file_of d"
  | (partial) e k where "res = Inl e" "lg' = lg\<lparr>lg_cut_owed := True\<rparr>"
      "file_of d' = (file_of d)(lg_path lg := take (lg_end lg) (file_of d (lg_path lg)) @ take k buf)"
proof (cases "lg_end lg < length (file_of d (lg_path lg))")
  case True
  let ?kept = "take (lg_end lg) (file_of d (lg_path lg))"
  have owed: "lg_cut_owed lg" using True assms(2) by auto
  then have same: "lg\<lparr>lg_cut_owed := True\<rparr> = lg" by simp
  have "io_try d (\<lambda>_ d. (lg, d, Inl (Io OtherError)))
      (\<lambda>d. write_frame lg ?kept buf (put_file (lg_path lg) ?kept d)) = (lg', d', res)"
    using assms(1) True owed by (simp add: cut_and_write_def Let_def)
  then show ?thesis
  proof (rule io_tryE)
    fix d4 assume "content d4 = content d"
      and w: "write_frame lg ?kept buf (put_file (lg_path lg) ?kept d4) = (lg', d', res)"
    then have f4: "file_of d4 = file_of d" by (blast dest: io_call_file_of)
    show ?thesis
      using w
    proof (cases rule: write_frame_cases)
      case untouched
      then show ?thesis using partial [of "Io OtherError" 0] f4 same by simp
    qed (use f4 ok partial in simp_all)
  qed (use untouched in \<open>auto dest: io_call_file_of\<close>)
next
  case False
  with le have len: "length (file_of d (lg_path lg)) = lg_end lg" by simp
  have "write_frame lg (file_of d (lg_path lg)) buf d = (lg', d', res)"
    using assms(1) len by (simp add: cut_and_write_def)
  then show ?thesis
    by (cases rule: write_frame_cases) (use ok untouched partial len in simp_all)
qed

text \<open>Every outcome of an append, for every list of faults.\<close>

lemma append_log_cases:
  assumes inv: "log_inv c lg d" and run: "append_log c lg d body = (lg', d', res)"
  obtains
    (ok) "res = Inr ()" "lg_held lg = None" "length body < 2 ^ 32"
      "lg' = lg\<lparr>lg_end := lg_end lg + length (appended c (lg_end lg) body), lg_cut_owed := False\<rparr>"
      "file_of d' = (file_of d)(lg_path lg :=
         take (lg_end lg) (file_of d (lg_path lg)) @ appended c (lg_end lg) body)"
  | (untouched) e where "res = Inl e" "lg' = lg" "file_of d' = file_of d"
  | (partial) e k where "res = Inl e" "lg_held lg = None" "length body < 2 ^ 32"
      "lg' = lg\<lparr>lg_cut_owed := True\<rparr>"
      "file_of d' = (file_of d)(lg_path lg :=
         take (lg_end lg) (file_of d (lg_path lg)) @ take k (appended c (lg_end lg) body))"
proof (cases "lg_held lg")
  case (Some why)
  then show ?thesis using run untouched by (auto simp: append_log_def refuse_if_held_def)
next
  case None
  note held = None
  let ?p = "lg_path lg"
  let ?bs = "file_of d ?p"
  from inv held have le: "lg_end lg \<le> length ?bs"
    and cut: "\<not> lg_cut_owed lg \<Longrightarrow> length ?bs = lg_end lg"
    by (auto simp: log_inv_def)
  show ?thesis
  proof (cases "length body < 2 ^ 32")
    case False
    then have "push_frame c (if lg_end lg = 0 then push_file_header [] else []) body = Inl FrameTooLarge"
      by (simp add: push_frame_def)
    then show ?thesis using run held untouched by (auto simp: append_log_def refuse_if_held_def)
  next
    case True
    let ?buf = "appended c (lg_end lg) body"
    have buf: "push_frame c (if lg_end lg = 0 then push_file_header [] else []) body = Inr ?buf"
      using True by (simp add: push_frame_appended)
    have "io_try d (\<lambda>_ d. (lg, d, Inl (Io OtherError))) (\<lambda>d.
        io_try d (\<lambda>_ d. (lg, d, Inl (Io OtherError))) (\<lambda>d.
        io_try (put_file ?p (file_of d ?p) d) (\<lambda>_ d. (lg, d, Inl (Io OtherError)))
          (cut_and_write lg (file_of d ?p) ?buf))) = (lg', d', res)"
      using run by (simp add: append_log_def refuse_if_held_def held buf Let_def file_of_def)
    then show ?thesis
    proof (elim io_tryE)
      fix d1 d2 d3
      assume d: "content d1 = content d" "content d2 = content d1"
        and d3: "content d3 = content (put_file ?p (file_of d2 ?p) d2)"
        and rest: "cut_and_write lg (file_of d2 ?p) ?buf d3 = (lg', d', res)"
      have f2: "file_of d2 = file_of d" using d by (simp add: file_of_def fun_eq_iff)
      have f3: "file_of d3 = file_of d"
        using io_call_file_of [OF d3] f2 by simp
      have "cut_and_write lg (file_of d3 ?p) ?buf d3 = (lg', d', res)" using rest f2 f3 by simp
      then show ?thesis
        by (rule cut_and_write_cases) (use cut le f3 held True ok untouched partial in auto)
    qed (use untouched in \<open>auto dest!: io_call_file_of\<close>)
  qed
qed

lemma append_log_Inl:
  assumes "log_inv c lg d" and "append_log c lg d body = (lg', d', Inl e)" and f: "dec_frame c body = Some f"
  shows "log_inv c lg' d' \<and> lg_records lg' = lg_records lg \<and> lg_tombstoned lg' = lg_tombstoned lg
    \<and> lg_removed lg' = lg_removed lg \<and> lg_held lg' = lg_held lg \<and> lg_path lg' = lg_path lg"
  using assms(1,2)
proof (cases rule: append_log_cases)
  case (untouched e)
  then show ?thesis using assms(1) by (simp add: log_inv_def)
next
  case (partial e k)
  let ?bs = "file_of d (lg_path lg)"
  have "lg_end lg \<le> length ?bs" and h: "holds_state c (take (lg_end lg) ?bs) lg"
    using assms(1) partial(2) by (auto simp: log_inv_def)
  then have "take (lg_end lg) (file_of d' (lg_path lg)) = take (lg_end lg) ?bs"
    and "lg_end lg \<le> length (file_of d' (lg_path lg))"
    using partial(5) by simp_all
  moreover have "tail_shows c (file_of d' (lg_path lg)) lg"
  proof -
    obtain r where r: "clean_file c (take (lg_end lg) ?bs) r" "map_of (rp_records r) = map_of (lg_records lg)"
      "set (rp_tombstoned r) = set (lg_tombstoned lg)"
      using h by (auto simp: holds_state_def)
    have len: "length (take (lg_end lg) ?bs) = lg_end lg" using \<open>lg_end lg \<le> length ?bs\<close> by simp
    obtain r' where "replay c (dec_frame c) True (take (lg_end lg) ?bs @ take k (appended c (lg_end lg) body)) = Inr r'"
      "old_or_new c f r r'"
      using replay_cut_append [OF r(1) partial(3) f, of "dec_frame c" k] unfolding len .
    then show ?thesis
      using partial(5) r(2,3) by (auto simp: tail_shows_def old_or_new_def)
  qed
  ultimately show ?thesis
    using assms(1) partial h by (simp add: log_inv_def log_wf_def holds_state_def tail_shows_def)
qed simp_all

text \<open>
  A successful append of one encoded frame, followed by that frame's change to the maps in
  memory, keeps the invariant: memory and disk move together.
\<close>

lemma append_log_Inr:
  assumes inv: "log_inv c lg d" and run: "append_log c lg d body = (lg', d', Inr u)"
    and f: "dec_frame c body = Some f"
    and R: "map_of (lg_records lg2) = frame_records c f (map_of (lg_records lg))"
    and T: "set (lg_tombstoned lg2) = frame_tombs f (set (lg_tombstoned lg))"
    and rm: "lg_removed lg2 \<longleftrightarrow> lg_removed lg \<or> (\<exists>k. f = Remove k)"
    and wf: "log_wf c lg2"
    and rest: "lg_path lg2 = lg_path lg'" "lg_end lg2 = lg_end lg'" "lg_cut_owed lg2 = lg_cut_owed lg'"
  shows "log_inv c lg2 d'"
  using inv run
proof (cases rule: append_log_cases)
  case ok
  let ?bs = "file_of d (lg_path lg)"
  let ?kept = "take (lg_end lg) ?bs"
  let ?new = "?kept @ appended c (lg_end lg) body"
  have le: "lg_end lg \<le> length ?bs" and "holds_state c ?kept lg"
    using inv ok(2) by (auto simp: log_inv_def)
  then obtain r where r: "clean_file c ?kept r" "map_of (rp_records r) = map_of (lg_records lg)"
    "set (rp_tombstoned r) = set (lg_tombstoned lg)" "rp_removed r \<longrightarrow> lg_removed lg"
    by (auto simp: holds_state_def)
  have len: "length ?kept = lg_end lg" using le by simp
  have "holds_state c ?new lg2"
  proof (cases "lg_end lg = 0")
    case True
    then have "rp_records r = []" "rp_tombstoned r = []"
      using r(1) by (auto simp: clean_file_def replay_Nil)
    then have empty: "map_of (lg_records lg) = Map.empty" "set (lg_tombstoned lg) = {}"
      using r(2,3) by simp_all
    obtain r' where "clean_file c (file_header @ frame_bytes c body) r'"
      "map_of (rp_records r') = frame_records c f Map.empty" "set (rp_tombstoned r') = frame_tombs f {}"
      "rp_removed r' \<longleftrightarrow> (\<exists>k. f = Remove k)"
      using ok(3) f by (rule clean_file_first)
    then show ?thesis
      using True R T rm empty by (auto simp: holds_state_def appended_def)
  next
    case False
    with len have "?kept \<noteq> []" by force
    with r(1) obtain r' where "clean_file c (?kept @ frame_bytes c body) r'"
      "map_of (rp_records r') = frame_records c f (map_of (rp_records r))"
      "set (rp_tombstoned r') = frame_tombs f (set (rp_tombstoned r))"
      "rp_removed r' \<longleftrightarrow> rp_removed r \<or> (\<exists>k. f = Remove k)"
      using clean_file_append ok(3) f by metis
    then show ?thesis
      using False R T rm r by (auto simp: holds_state_def appended_def)
  qed
  moreover have "length ?new = lg_end lg2" using ok(4) len rest by simp
  ultimately show ?thesis
    using wf ok(4,5) rest by (auto simp: log_inv_def)
qed simp_all

section \<open>The operations keep the invariant\<close>

lemma upsert_body_decodes:
  "codec_ok c \<Longrightarrow> upsert_body c r = Inr body \<Longrightarrow> dec_frame c body = Some (Upsert r)"
  by (auto simp: codec_ok_def upsert_body_def split: option.splits)

lemma encode_decodes: "codec_ok c \<Longrightarrow> encode c f = Inr body \<Longrightarrow> dec_frame c body = Some f"
  by (auto simp: codec_ok_def encode_def split: option.splits)

lemma upsert_body_inj:
  "codec_ok c \<Longrightarrow> upsert_body c r = Inr b \<Longrightarrow> upsert_body c r' = Inr b \<Longrightarrow> r = r'"
  by (metis upsert_body_decodes option.inject frame.inject(1))

text \<open>A result in one of two cases, for the operations built on one append.\<close>

lemma append_log_Inr_wf:
  assumes "log_inv c lg d" and "append_log c lg d body = (lg', d', Inr u)"
  shows "lg_records lg' = lg_records lg \<and> lg_tombstoned lg' = lg_tombstoned lg \<and>
    lg_removed lg' = lg_removed lg \<and> lg_path lg' = lg_path lg \<and> lg_held lg' = None \<and> lg_held lg = None"
  using assms by (cases rule: append_log_cases) simp_all

lemma upsert_cases:
  assumes inv: "log_inv c lg d" and ok: "codec_ok c" and key: "key = key_of c r"
    and run: "upsert c lg d key r = (lg', d', res)"
  obtains (failed) e where "res = Inl e" "log_inv c lg' d'" "lg_records lg' = lg_records lg"
      "lg_tombstoned lg' = lg_tombstoned lg" "lg_held lg' = lg_held lg" "lg_path lg' = lg_path lg"
  | (same) "res = Inr False" "lg' = lg" "d' = d" "hget (lg_records lg) key = Some r"
  | (written) "res = Inr True" "log_inv c lg' d'" "lg_records lg' = hput key r (lg_records lg)"
      "lg_tombstoned lg' = lg_tombstoned lg" "lg_held lg' = None" "lg_path lg' = lg_path lg"
proof -
  have wf: "log_wf c lg" using inv by (rule log_inv_wf)
  show thesis
  proof (cases "upsert_body c r")
    case (Inl e)
    then show thesis using run failed [of e] inv by (simp add: upsert_def)
  next
    case (Inr body)
    let ?put = "case append_log c lg d body of (lg, d, Inl e) \<Rightarrow> (lg, d, Inl e)
      | (lg, d, Inr _) \<Rightarrow> (lg\<lparr>lg_records := hput key r (lg_records lg)\<rparr>, d, Inr True)"
    have go: "thesis" if w: "?put = (lg', d', res)"
    proof (cases "append_log c lg d body")
      case (fields lg1 d1 ap)
      show thesis
      proof (cases ap)
        case (Inl e)
        with w fields have "res = Inl e" "lg' = lg1" "d' = d1" by simp_all
        then show thesis
          using append_log_Inl [OF inv fields [unfolded Inl] upsert_body_decodes [OF ok Inr]] failed by simp
      next
        case ap: (Inr u)
        with w fields have w: "res = Inr True" "lg' = lg1\<lparr>lg_records := hput key r (lg_records lg1)\<rparr>" "d' = d1"
          by simp_all
        note same = append_log_Inr_wf [OF inv fields [unfolded ap]]
        have "log_inv c lg' d1"
          by (rule append_log_Inr [OF inv fields [unfolded ap] upsert_body_decodes [OF ok Inr]])
             (use wf same key w in \<open>auto simp: log_wf_def fun_eq_iff\<close>)
        then show thesis using written w same by simp
      qed
    qed
    show thesis
    proof (cases "hget (lg_records lg) key")
      case None
      then show thesis using run go Inr by (simp add: upsert_def Let_def)
    next
      case (Some held)
      show thesis
      proof (cases "upsert_body c held")
        case (Inl e)
        then show thesis using run Some Inr failed [of e] inv by (simp add: upsert_def Let_def)
      next
        case held: (Inr held_body)
        show thesis
        proof (cases "held_body = body")
          case True
          then have "held = r" using upsert_body_inj [OF ok held] Inr by simp
          then show thesis using run Some Inr held True same by (simp add: upsert_def Let_def)
        next
          case False
          then show thesis using run Some Inr held go by (simp add: upsert_def Let_def)
        qed
      qed
    qed
  qed
qed

text \<open>The three operations that write a frame naming a key share one argument.\<close>

lemma keyed_write:
  assumes inv: "log_inv c lg d" and ok: "codec_ok c" and body: "encode c f = Inr body"
    and run: "(case append_log c lg d body of (lg, d, Inl e) \<Rightarrow> (lg, d, Inl e)
      | (lg, d, Inr _) \<Rightarrow> (upd lg, d, Inr v)) = (lg', d', res)"
    and R: "\<And>l. map_of (lg_records (upd l)) = frame_records c f (map_of (lg_records l))"
    and T: "\<And>l. set (lg_tombstoned (upd l)) = frame_tombs f (set (lg_tombstoned l))"
    and rm: "\<And>l. lg_removed (upd l) \<longleftrightarrow> lg_removed l \<or> (\<exists>k. f = Remove k)"
    and rest: "\<And>l. lg_path (upd l) = lg_path l \<and> lg_end (upd l) = lg_end l \<and>
      lg_cut_owed (upd l) = lg_cut_owed l \<and> lg_held (upd l) = lg_held l"
    and wf: "\<And>l. log_wf c l \<Longrightarrow> log_wf c (upd l)"
  obtains (failed) e where "res = Inl e" "log_inv c lg' d'" "lg_records lg' = lg_records lg"
      "lg_tombstoned lg' = lg_tombstoned lg" "lg_held lg' = lg_held lg" "lg_path lg' = lg_path lg"
  | (written) l where "res = Inr v" "log_inv c lg' d'" "lg' = upd l" "lg_records l = lg_records lg"
      "lg_tombstoned l = lg_tombstoned lg" "lg_held l = None" "lg_path l = lg_path lg"
proof (cases "append_log c lg d body")
  case (fields lg1 d1 ap)
  show thesis
  proof (cases ap)
    case (Inl e)
    with run fields have "res = Inl e" "lg' = lg1" "d' = d1" by simp_all
    then show thesis
      using append_log_Inl [OF inv fields [unfolded Inl] encode_decodes [OF ok body]] failed by simp
  next
    case (Inr u)
    with run fields have w: "res = Inr v" "lg' = upd lg1" "d' = d1" by simp_all
    note same = append_log_Inr_wf [OF inv fields [unfolded Inr]]
    have "log_wf c lg1" using log_inv_wf [OF inv] same by (simp add: log_wf_def)
    then have "log_inv c lg' d'"
      unfolding w
      by (intro append_log_Inr [OF inv fields [unfolded Inr] encode_decodes [OF ok body]])
         (use wf R T rm rest same in simp_all)
    then show thesis using written w same by blast
  qed
qed

lemma remove_cases:
  assumes inv: "log_inv c lg d" and ok: "codec_ok c" and run: "remove c lg d key = (lg', d', res)"
  obtains (failed) e where "res = Inl e" "log_inv c lg' d'" "lg_records lg' = lg_records lg"
      "lg_tombstoned lg' = lg_tombstoned lg" "lg_held lg' = lg_held lg" "lg_path lg' = lg_path lg"
  | (absent) "res = Inr ()" "lg' = lg" "d' = d" "hget (lg_records lg) key = None"
  | (removed) "res = Inr ()" "log_inv c lg' d'" "lg_records lg' = hdel key (lg_records lg)"
      "lg_tombstoned lg' = hset_remove key (lg_tombstoned lg)" "lg_removed lg'"
      "lg_held lg' = None" "lg_path lg' = lg_path lg" "hget (lg_records lg) key \<noteq> None"
proof (cases "hget (lg_records lg) key")
  case None
  then show thesis using run absent by (simp add: remove_def)
next
  case (Some r)
  show thesis
  proof (cases "encode c (Remove key)")
    case (Inl e)
    then show thesis using run Some failed [of e] inv by (simp add: remove_def)
  next
    case (Inr body)
    have w: "(case append_log c lg d body of (lg, d, Inl e) \<Rightarrow> (lg, d, Inl e)
      | (lg, d, Inr _) \<Rightarrow> (lg\<lparr>lg_records := hdel key (lg_records lg),
          lg_tombstoned := hset_remove key (lg_tombstoned lg), lg_removed := True\<rparr>, d, Inr ()))
      = (lg', d', res)"
      using run Some Inr by (simp add: remove_def)
    show thesis
      by (rule keyed_write [OF inv ok Inr w])
         (use failed removed Some in \<open>auto simp: log_wf_def fun_eq_iff distinct_removeAll split: if_splits\<close>)
  qed
qed

lemma tombstone_cases:
  assumes inv: "log_inv c lg d" and ok: "codec_ok c" and run: "tombstone c lg d key = (lg', d', res)"
  obtains (failed) e where "res = Inl e" "log_inv c lg' d'" "lg_records lg' = lg_records lg"
      "lg_tombstoned lg' = lg_tombstoned lg" "lg_held lg' = lg_held lg" "lg_path lg' = lg_path lg"
  | (noop) "res = Inr False" "lg' = lg" "d' = d"
      "hget (lg_records lg) key = None \<or> key \<in> set (lg_tombstoned lg)"
  | (flagged) "res = Inr True" "log_inv c lg' d'" "lg_records lg' = lg_records lg"
      "lg_tombstoned lg' = hset_insert key (lg_tombstoned lg)" "lg_held lg' = None" "lg_path lg' = lg_path lg"
      "hget (lg_records lg) key \<noteq> None"
proof (cases "hget (lg_records lg) key = None \<or> key \<in> set (lg_tombstoned lg)")
  case True
  then have same: "res = Inr False" "lg' = lg" "d' = d" using run by (simp_all add: tombstone_def)
  show thesis by (rule noop [OF same True])
next
  case False
  show thesis
  proof (cases "encode c (Tombstone key)")
    case (Inl e)
    then show thesis using run False failed [of e] inv by (simp add: tombstone_def)
  next
    case (Inr body)
    have w: "(case append_log c lg d body of (lg, d, Inl e) \<Rightarrow> (lg, d, Inl e)
      | (lg, d, Inr _) \<Rightarrow> (lg\<lparr>lg_tombstoned := hset_insert key (lg_tombstoned lg)\<rparr>, d, Inr True))
      = (lg', d', res)"
      using run False Inr by (simp add: tombstone_def)
    show thesis
      by (rule keyed_write [OF inv ok Inr w]) (use failed flagged False in \<open>auto simp: log_wf_def\<close>)
  qed
qed

lemma untombstone_cases:
  assumes inv: "log_inv c lg d" and ok: "codec_ok c" and run: "untombstone c lg d key = (lg', d', res)"
  obtains (failed) e where "res = Inl e" "log_inv c lg' d'" "lg_records lg' = lg_records lg"
      "lg_tombstoned lg' = lg_tombstoned lg" "lg_held lg' = lg_held lg" "lg_path lg' = lg_path lg"
  | (noop) "res = Inr False" "lg' = lg" "d' = d" "key \<notin> set (lg_tombstoned lg)"
  | (cleared) "res = Inr True" "log_inv c lg' d'" "lg_records lg' = lg_records lg"
      "lg_tombstoned lg' = hset_remove key (lg_tombstoned lg)" "lg_held lg' = None" "lg_path lg' = lg_path lg"
proof (cases "key \<in> set (lg_tombstoned lg)")
  case False
  then have same: "res = Inr False" "lg' = lg" "d' = d" using run by (simp_all add: untombstone_def)
  show thesis by (rule noop [OF same False])
next
  case True
  show thesis
  proof (cases "encode c (Untombstone key)")
    case (Inl e)
    then show thesis using run True failed [of e] inv by (simp add: untombstone_def)
  next
    case (Inr body)
    have w: "(case append_log c lg d body of (lg, d, Inl e) \<Rightarrow> (lg, d, Inl e)
      | (lg, d, Inr _) \<Rightarrow> (lg\<lparr>lg_tombstoned := hset_remove key (lg_tombstoned lg)\<rparr>, d, Inr True))
      = (lg', d', res)"
      using run True Inr by (simp add: untombstone_def)
    show thesis
      by (rule keyed_write [OF inv ok Inr w])
         (use failed cleared in \<open>auto simp: log_wf_def distinct_removeAll\<close>)
  qed
qed

lemma wipe_cases:
  assumes inv: "log_inv c lg d" and run: "wipe lg d = (lg', d', res)"
  obtains (failed) e where "res = Inl e" "lg' = lg" "log_inv c lg' d'"
  | (wiped) "res = Inr ()" "log_inv c lg' d'" "lg_records lg' = []" "lg_tombstoned lg' = []"
      "\<not> lg_removed lg'" "file_of d' (lg_path lg) = []" "lg_held lg' = None" "lg_path lg' = lg_path lg"
proof (cases "lg_held lg")
  case (Some why)
  then have "res = Inl (ReadOnly why)" "lg' = lg" "d' = d"
    using run by (simp_all add: wipe_def refuse_if_held_def)
  with inv show thesis using failed by blast
next
  case None
  have p: "lg_path lg \<noteq> []" using inv by (simp add: log_inv_def log_wf_def)
  obtain d1 r1 where aw: "atomic_write (lg_path lg) [] d = (d1, r1)" by fastforce
  show thesis
  proof (cases r1)
    case (Inl e)
    have "file_of d1 (lg_path lg) = file_of d (lg_path lg)"
      using atomic_write_Inl [OF p aw [unfolded Inl]] temp_path_neq [OF p]
      by (metis file_of_def)
    then have "log_inv c lg d1" using inv by (simp add: log_inv_def)
    moreover have "res = Inl (Io e)" "lg' = lg" "d' = d1"
      using run None aw Inl by (simp_all add: wipe_def refuse_if_held_def)
    ultimately show thesis using failed by blast
  next
    case (Inr u)
    then have "file_of d1 (lg_path lg) = []"
      using atomic_write_Inr [OF p aw [unfolded Inr]] temp_path_neq [OF p] by (simp add: file_of_def)
    moreover have "clean_file c [] \<lparr>rp_format = Empty, rp_records = [], rp_tombstoned = [],
        rp_frames = 0, rp_removed = False, rp_good_end = 0, rp_tail = Clean, rp_live_len = 8\<rparr>"
      by (simp add: clean_file_def replay_Nil)
    moreover have lg': "res = Inr ()" "d' = d1" "lg' = lg\<lparr>lg_records := [], lg_tombstoned := [], lg_end := 0,
        lg_cut_owed := False, lg_removed := False\<rparr>"
      using run None aw Inr by (simp_all add: wipe_def refuse_if_held_def)
    ultimately have "log_inv c lg' d'"
      using p by (fastforce simp: log_inv_def log_wf_def holds_state_def)
    then show thesis
      by (rule wiped [rotated]) (use lg' None \<open>file_of d1 (lg_path lg) = []\<close> in simp_all)
  qed
qed

section \<open>The compacted image\<close>

lemma push_all_Inr:
  "push_all c out bs = Inr img \<Longrightarrow>
   \<exists>bodies. bs = map Inr bodies \<and> (\<forall>b \<in> set bodies. length b < 2 ^ 32) \<and>
     img = out @ concat (map (frame_bytes c) bodies)"
proof (induction c out bs rule: push_all.induct)
  case (1 c out)
  then show ?case by simp
next
  case (2 c out b bs)
  from "2.prems" obtain body where b: "b = Inr body" by (auto split: sum.splits)
  from "2.prems" b obtain out' where out': "push_frame c out body = Inr out'"
    and rest: "push_all c out' bs = Inr img" by (auto split: sum.splits)
  from "2.IH" [OF b out' rest] obtain bodies where IH: "bs = map Inr bodies"
    "\<forall>b \<in> set bodies. length b < 2 ^ 32" "img = out' @ concat (map (frame_bytes c) bodies)" by blast
  show ?case
    by (rule exI [of _ "body # bodies"]) (use b out' IH in \<open>auto simp: push_frame_Inr\<close>)
qed

text \<open>The fold of frames a run of bodies decodes to.\<close>

fun fold_frames :: "'t codec \<Rightarrow> (bytes \<times> 't frame) list \<Rightarrow> 't replaying \<Rightarrow> 't replaying" where
  "fold_frames c [] a = a"
| "fold_frames c ((body, f) # rest) a = fold_frames c rest (apply_frame c f (length body) a)"

lemma replay_loop_bodies:
  assumes "at \<noteq> 0" and "\<forall>(b, f) \<in> set bfs. length b < 2 ^ 32 \<and> dec_frame c b = Some f"
  shows "replay_loop c v1 verify V2 (concat (map (frame_bytes c) (map fst bfs))) at acc =
    (fold_frames c bfs acc, at + length (concat (map (frame_bytes c) (map fst bfs))))"
  using assms
proof (induction bfs arbitrary: at acc)
  case Nil
  then show ?case by simp
next
  case (Cons bf bfs)
  obtain b f where bf: "bf = (b, f)" by fastforce
  with Cons.prems show ?case
    using Cons.IH [of "at + (8 + length b)"] replay_loop_frame [of "at" b c f]
    by (simp add: add.assoc)
qed

lemma replay_image:
  assumes "\<forall>(b, f) \<in> set bfs. length b < 2 ^ 32 \<and> dec_frame c b = Some f"
  obtains r where "replay c v1 True (file_header @ concat (map (frame_bytes c) (map fst bfs))) = Inr r"
    and "rp_format r = V2" and "rp_tail r = Clean"
    and "rp_records r = ra_records (fold_frames c bfs replay_init)"
    and "rp_tombstoned r = ra_tombstoned (fold_frames c bfs replay_init)"
    and "rp_removed r = ra_removed (fold_frames c bfs replay_init)"
    and "rp_good_end r = length (file_header @ concat (map (frame_bytes c) (map fst bfs)))"
  using replay_loop_bodies [OF _ assms, of 8 v1 True replay_init]
  by (auto simp: replay_header classify_clean)

text \<open>
  Upserts of records that all sit in one map \<open>M\<close> under their own keys leave \<open>M\<close>'s value at
  every key they name; tombstones of keys leave the flags they name.
\<close>

lemma fold_frames_upserts:
  assumes "\<forall>(b, f) \<in> set bfs. \<exists>r. f = Upsert r \<and> M (key_of c r) = Some r"
  shows "hget (ra_records (fold_frames c bfs a)) k =
      (if \<exists>b r. (b, Upsert r) \<in> set bfs \<and> key_of c r = k then M k else hget (ra_records a) k)
    \<and> ra_tombstoned (fold_frames c bfs a) = ra_tombstoned a
    \<and> ra_removed (fold_frames c bfs a) = ra_removed a"
  using assms
proof (induction bfs arbitrary: a)
  case Nil
  then show ?case by simp
next
  case (Cons bf bfs)
  then obtain b r where bf: "bf = (b, Upsert r)" and M: "M (key_of c r) = Some r" by auto
  have "\<forall>(b, f) \<in> set bfs. \<exists>r. f = Upsert r \<and> M (key_of c r) = Some r" using Cons.prems by simp
  note IH = Cons.IH [OF this, of "apply_frame c (Upsert r) (length b) a"]
  have "hget (ra_records (apply_frame c (Upsert r) (length b) a)) k =
      (if k = key_of c r then M k else hget (ra_records a) k)" using M by simp
  then show ?case using IH bf by (auto simp del: hget_hput)
qed

lemma fold_frames_tombs:
  assumes "\<forall>(b, f) \<in> set bfs. \<exists>k. f = Tombstone k"
  shows "ra_records (fold_frames c bfs a) = ra_records a
    \<and> set (ra_tombstoned (fold_frames c bfs a)) =
      set (ra_tombstoned a) \<union> {k. \<exists>b. (b, Tombstone k) \<in> set bfs}
    \<and> ra_removed (fold_frames c bfs a) = ra_removed a"
  using assms
proof (induction bfs arbitrary: a)
  case Nil
  then show ?case by simp
next
  case (Cons bf bfs)
  then obtain b k where bf: "bf = (b, Tombstone k)" by auto
  have "\<forall>(b, f) \<in> set bfs. \<exists>k. f = Tombstone k" using Cons.prems by simp
  note IH = Cons.IH [OF this, of "apply_frame c (Tombstone k) (length b) a"]
  then show ?case using bf by auto
qed

lemma fold_frames_append: "fold_frames c (xs @ ys) a = fold_frames c ys (fold_frames c xs a)"
  by (induction c xs a rule: fold_frames.induct) auto


text \<open>
  The image's bodies and the frames they decode to: first the records in key order, then the
  flags.
\<close>

lemma image_log_replays:
  fixes lg :: "'a log" and c :: "'a codec"
  assumes wf: "log_wf c lg" and ok: "codec_ok c" and img: "image_log c lg = Inr img"
  obtains r where "clean_file c img r" and "rp_format r = V2"
    and "map_of (rp_records r) = map_of (lg_records lg)"
    and "set (rp_tombstoned r) = set (lg_tombstoned lg)" and "\<not> rp_removed r"
proof -
  let ?get = "\<lambda>k. the (hget (lg_records lg) k)"
  let ?ks = "sort (hkeys (lg_records lg))" and ?ts = "sort (lg_tombstoned lg)"
  obtain bodies where b: "map (\<lambda>k. upsert_body c (?get k)) ?ks @ map (\<lambda>k. encode c (Tombstone k)) ?ts
      = map Inr bodies" "\<forall>b \<in> set bodies. length b < 2 ^ 32"
      and img': "img = file_header @ concat (map (frame_bytes c) bodies)"
    using push_all_Inr [OF img [unfolded image_log_def]] by (auto simp: push_file_header_eq)
  define ups where "ups = map (\<lambda>k. (projr (upsert_body c (?get k)), Upsert (?get k))) ?ks"
  define tombs :: "(bytes \<times> 'a frame) list" where "tombs = map (\<lambda>k. (projr (encode c (Tombstone k)), Tombstone k)) ?ts"
  have bodies: "bodies = map fst (ups @ tombs)"
    using arg_cong [OF b(1), of "map projr"] by (simp add: ups_def tombs_def comp_def)
  have Inr: "\<forall>x \<in> set (map (\<lambda>k. upsert_body c (?get k)) ?ks @ map (\<lambda>k. encode c (Tombstone k)) ?ts).
      x = Inr (projr x)"
    unfolding b(1) by auto
  have dec: "\<forall>(b, f) \<in> set (ups @ tombs). length b < 2 ^ 32 \<and> dec_frame c b = Some f"
  proof (clarify)
    fix body f assume m: "(body, f) \<in> set (ups @ tombs)"
    then have "length body < 2 ^ 32" using b(2) bodies by (metis fst_conv image_eqI set_map)
    moreover have "dec_frame c body = Some f"
      using m Inr upsert_body_decodes [OF ok] encode_decodes [OF ok]
      unfolding ups_def tombs_def by fastforce
    ultimately show "length body < 2 ^ 32 \<and> dec_frame c body = Some f" ..
  qed
  obtain r where r: "replay c (dec_frame c) True img = Inr r" "rp_format r = V2" "rp_tail r = Clean"
    "rp_records r = ra_records (fold_frames c (ups @ tombs) replay_init)"
    "rp_tombstoned r = ra_tombstoned (fold_frames c (ups @ tombs) replay_init)"
    "rp_removed r = ra_removed (fold_frames c (ups @ tombs) replay_init)"
    "rp_good_end r = length img"
    using replay_image [OF dec] unfolding img' bodies by metis
  have key: "\<forall>(b, f) \<in> set ups. \<exists>r. f = Upsert r \<and> hget (lg_records lg) (key_of c r) = Some r"
  proof (clarify)
    fix body f assume "(body, f) \<in> set ups"
    then obtain k where "k \<in> set (hkeys (lg_records lg))" "f = Upsert (?get k)"
      by (auto simp: ups_def)
    then show "\<exists>r. f = Upsert r \<and> hget (lg_records lg) (key_of c r) = Some r"
      using wf unfolding set_hkeys log_wf_def by fastforce
  qed
  have t: "\<forall>(b, f) \<in> set tombs. \<exists>k. f = Tombstone k" by (auto simp: tombs_def)
  note U = fold_frames_upserts [OF key]
  note T = fold_frames_tombs [OF t, of c "fold_frames c ups replay_init"]
  have named: "(\<exists>b r. (b, Upsert r) \<in> set ups \<and> key_of c r = k) \<longleftrightarrow> hget (lg_records lg) k \<noteq> None" for k
  proof
    assume "\<exists>b r. (b, Upsert r) \<in> set ups \<and> key_of c r = k"
    then show "hget (lg_records lg) k \<noteq> None" using key by fastforce
  next
    assume "hget (lg_records lg) k \<noteq> None"
    then obtain r where "hget (lg_records lg) k = Some r" by blast
    moreover from this have "k \<in> set ?ks" unfolding set_sort set_hkeys by simp
    ultimately show "\<exists>b r. (b, Upsert r) \<in> set ups \<and> key_of c r = k"
      using wf unfolding ups_def log_wf_def by (fastforce simp: image_iff)
  qed
  have "map_of (rp_records r) = map_of (lg_records lg)"
  proof
    fix k
    show "hget (rp_records r) k = hget (lg_records lg) k"
      using r(4) T U [of replay_init k] named [of k]
      by (auto simp: fold_frames_append replay_init_def)
  qed
  moreover have "set (rp_tombstoned r) = set (lg_tombstoned lg)"
    using r(5) T U [of replay_init undefined]
    by (auto simp: fold_frames_append replay_init_def tombs_def)
  moreover have "\<not> rp_removed r"
    using r(6) T U [of replay_init undefined] by (simp add: fold_frames_append replay_init_def)
  ultimately show thesis using that r by (auto simp: clean_file_def)
qed

text \<open>So the check before the rewrite never refuses.\<close>

lemma image_log_same:
  assumes wf: "log_wf c lg" and ok: "codec_ok c" and img: "image_log c lg = Inr img"
    and check: "replay c (dec_frame c) True img = Inr r"
  shows "image_same c lg r"
proof -
  obtain r' where r': "clean_file c img r'" "rp_format r' = V2"
    "map_of (rp_records r') = map_of (lg_records lg)"
    "set (rp_tombstoned r') = set (lg_tombstoned lg)"
    using image_log_replays [OF wf ok img] .
  then have eq: "r' = r" using check by (simp add: clean_file_def)
  have okr: "hmap_ok (rp_records r)" using replay_ok [OF check] by simp
  have len: "length (rp_records r) = length (lg_records lg)"
    by (rule length_hkeys_eq) (use okr wf r'(3) eq in \<open>simp_all add: log_wf_def\<close>)
  obtain bodies where b: "map (\<lambda>k. upsert_body c (the (hget (lg_records lg) k))) (sort (hkeys (lg_records lg))) @
      map (\<lambda>k. encode c (Tombstone k)) (sort (lg_tombstoned lg)) = map Inr bodies"
    using push_all_Inr [OF img [unfolded image_log_def]] by blast
  have body: "\<exists>bs. upsert_body c v = Inr bs" if "hget (lg_records lg) k = Some v" for k v
  proof -
    have "k \<in> set (sort (hkeys (lg_records lg)))"
      using that unfolding set_sort set_hkeys by simp
    then have "upsert_body c (the (hget (lg_records lg) k)) \<in> set (map Inr bodies)"
      unfolding b [symmetric] by simp
    then show ?thesis using that by auto
  qed
  have "case (hget (lg_records lg) k, upsert_body c v) of
      (Some mine, Inr theirs) \<Rightarrow> upsert_body c mine = Inr theirs | _ \<Rightarrow> False"
    if "(k, v) \<in> set (rp_records r)" for k v
  proof -
    have "hget (lg_records lg) k = Some v"
      using that okr r'(3) eq by (metis hmap_ok_mem)
    then show ?thesis using body by fastforce
  qed
  then show ?thesis
    using r' eq len by (auto simp: image_same_def clean_file_def list_all_iff)
qed

lemma push_all_error:
  "push_all c out bs = Inl e \<Longrightarrow> e = FrameTooLarge \<or> Inl e \<in> set bs"
  by (induction c out bs rule: push_all.induct)
     (auto simp: push_frame_def Let_def split: sum.splits if_splits)

lemma image_log_error: "image_log c lg = Inl e \<Longrightarrow> e = FrameTooLarge \<or> e = EncodeError"
  unfolding image_log_def
  by (drule push_all_error) (auto simp: upsert_body_def encode_def split: option.splits)

lemma compact_cases:
  assumes wf: "log_wf c lg" and ok: "codec_ok c" and run: "compact c lg d = (lg', d', res)"
  obtains (failed) e where "res = Inl e" "e \<noteq> ImageMismatch" "lg' = lg"
      "\<And>q. q \<noteq> temp_path (lg_path lg) \<Longrightarrow> content d' q = content d q"
  | (compacted) img where "res = Inr ()" "image_log c lg = Inr img" "log_inv c lg' d'"
      "lg' = lg\<lparr>lg_end := length img, lg_cut_owed := False, lg_removed := False\<rparr>"
      "content d' = (content d)(lg_path lg \<mapsto> img, temp_path (lg_path lg) := None)"
proof (cases "lg_held lg")
  case (Some why)
  then have "res = Inl (ReadOnly why)" "lg' = lg" "d' = d"
    using run by (simp_all add: compact_def refuse_if_held_def)
  then show thesis using failed by simp
next
  case None
  have p: "lg_path lg \<noteq> []" using wf by (simp add: log_wf_def)
  from run show thesis
    unfolding compact_def refuse_if_held_def None option.case sum.case Let_def
  proof (elim io_tryE)
    fix n d1
    assume "content d1 = content d" "(lg, d1, Inl (Io OtherError)) = (lg', d', res)"
    then show thesis using failed by auto
  next
    fix d1
    let ?on_disk = "case content d1 (lg_path lg) of None \<Rightarrow> 0 | Some bs \<Rightarrow> length bs"
    assume c1: "content d1 = content d"
      and rest: "(if lg_end lg < ?on_disk \<and> \<not> lg_cut_owed lg then (lg, d1, Inl GrewBehind)
        else case image_log c lg of Inl e \<Rightarrow> (lg, d1, Inl e)
        | Inr img \<Rightarrow> (case replay c (dec_frame c) True img of Inl e \<Rightarrow> (lg, d1, Inl e)
          | Inr check \<Rightarrow> if \<not> image_same c lg check then (lg, d1, Inl ImageMismatch)
            else case atomic_write (lg_path lg) img d1 of (d, Inl e) \<Rightarrow> (lg, d, Inl (Io e))
              | (d, Inr x) \<Rightarrow> (lg\<lparr>lg_end := length img, lg_cut_owed := False, lg_removed := False\<rparr>, d, Inr ())))
        = (lg', d', res)"
    show thesis
    proof (cases "lg_end lg < ?on_disk \<and> \<not> lg_cut_owed lg")
      case True
      then show thesis using rest c1 failed by auto
    next
      case False
      show thesis
      proof (cases "image_log c lg")
        case (Inl e)
        have "e \<noteq> ImageMismatch"
          using Inl image_log_error by blast
        then show thesis using rest False Inl c1 failed by auto
      next
        case (Inr img)
        obtain r where r: "clean_file c img r" "rp_format r = V2"
          "map_of (rp_records r) = map_of (lg_records lg)"
          "set (rp_tombstoned r) = set (lg_tombstoned lg)" "\<not> rp_removed r"
          using image_log_replays [OF wf ok Inr] .
        then have rep: "replay c (dec_frame c) True img = Inr r" by (simp add: clean_file_def)
        have "image_same c lg r" by (rule image_log_same [OF wf ok Inr rep])
        with rest False Inr rep have w: "(case atomic_write (lg_path lg) img d1 of
            (d, Inl e) \<Rightarrow> (lg, d, Inl (Io e))
          | (d, Inr x) \<Rightarrow> (lg\<lparr>lg_end := length img, lg_cut_owed := False, lg_removed := False\<rparr>, d, Inr ()))
          = (lg', d', res)" by simp
        obtain d2 ar where aw: "atomic_write (lg_path lg) img d1 = (d2, ar)" by fastforce
        show thesis
        proof (cases ar)
          case (Inl e)
          then show thesis
            using w aw atomic_write_Inl [OF p aw [unfolded Inl]] c1 failed by auto
        next
          case ar: (Inr u)
          have c2: "content d2 = (content d)(lg_path lg \<mapsto> img, temp_path (lg_path lg) := None)"
            using atomic_write_Inr [OF p aw [unfolded ar]] c1 by simp
          have f2: "file_of d2 (lg_path lg) = img"
            using c2 temp_path_neq [OF p] by (simp add: file_of_def)
          have lg': "lg' = lg\<lparr>lg_end := length img, lg_cut_owed := False, lg_removed := False\<rparr>"
            "d' = d2" "res = Inr ()" using w aw ar by simp_all
          have "log_inv c lg' d'"
            using wf r f2 lg' by (auto simp: log_inv_def log_wf_def holds_state_def)
          then show thesis using compacted Inr lg' c2 by blast
        qed
      qed
    qed
  qed
qed

end
