(* ===== verification/Kvlog_Load.thy ===== *)
theory Kvlog_Load
  imports Kvlog_Durability
begin

text \<open>
  What a load establishes: the invariant, the records the readable part of the file holds,
  and no unreadable byte lost.
\<close>

section \<open>The readable part of a file\<close>

lemma v2_frame_take [framing]:
  assumes "v2_frame_checked c bs verify = Some (body, step)" and "step \<le> m"
  shows "v2_frame_checked c (take m bs) verify = Some (body, step)"
proof -
  from assms(1) have le: "step \<le> length bs" "8 \<le> step"
    by (auto simp: v2_frame_checked_def Let_def frame_header_len_def split: if_splits)
  with assms(2) have m: "min 4 m = 4" "min 4 (m - 4) = 4" "8 \<le> m" by simp_all
  from assms show ?thesis
    using le m
    by (auto simp: v2_frame_checked_def Let_def frame_header_len_def take_drop min_def
        split: if_splits)
qed

lemma replay_loop_take:
  assumes "replay_loop c v1 verify V2 xs at acc = (acc', at')"
  shows "at \<le> at' \<and> at' - at \<le> length xs \<and>
    replay_loop c v1 verify V2 (take (at' - at) xs) at acc = (acc', at')"
  using assms
proof (induction c v1 verify "V2 :: log_format" xs at acc rule: replay_loop.induct)
  case (1 c v1 verify xs at acc)
  show ?case
  proof (cases "next_frame c v1 verify V2 at xs")
    case None
    with "1.prems" have "acc' = acc" and "at' = at"
      by (simp_all add: replay_loop.simps [of c v1 verify V2 xs at acc])
    then show ?thesis by simp
  next
    case (Some x)
    obtain f n step where x: "x = (f, n, step)" by (cases x)
    note step = next_frame_step [OF Some [unfolded x]]
    from "1.prems" have run: "replay_loop c v1 verify V2 (drop step xs) (at + step) (apply_frame c f n acc)
        = (acc', at')"
      by (simp add: replay_loop.simps [of c v1 verify V2 xs at acc] Some x)
    from "1.hyps" [OF Some x [symmetric] refl run]
    have IH: "at + step \<le> at'" "at' - (at + step) \<le> length (drop step xs)"
      "replay_loop c v1 verify V2 (take (at' - (at + step)) (drop step xs)) (at + step) (apply_frame c f n acc)
        = (acc', at')"
      by simp_all
    have "next_frame c v1 verify V2 at (take (at' - at) xs) = Some (f, n, step)"
      using Some x IH(1) v2_frame_take [of c xs verify _ step "at' - at"]
      by (auto simp: next_frame_def split: if_splits option.splits prod.splits)
    moreover have "drop step (take (at' - at) xs) = take (at' - (at + step)) (drop step xs)"
      using IH(1) by (simp add: drop_take)
    moreover have "at' - at \<le> length xs" using IH(1,2) step unfolding length_drop by arith
    ultimately show ?thesis
      using IH by (simp add: replay_loop.simps [of c v1 verify V2 "take (at' - at) xs" at acc])
  qed
qed

text \<open>Every record sits under its own key.\<close>

lemma replay_loop_keys:
  "replay_loop c v1 verify fmt rest at acc = (acc', at') \<Longrightarrow>
   (\<forall>k r. hget (ra_records acc) k = Some r \<longrightarrow> key_of c r = k) \<Longrightarrow>
   (\<forall>k r. hget (ra_records acc') k = Some r \<longrightarrow> key_of c r = k)"
proof (induction c v1 verify fmt rest at acc rule: replay_loop.induct)
  case (1 c v1 verify fmt rest at acc)
  have step: "\<forall>k r. hget (ra_records (apply_frame c f n acc)) k = Some r \<longrightarrow> key_of c r = k" for f n
    using "1.prems"(2) by (cases f) auto
  show ?case
  proof (cases "next_frame c v1 verify fmt at rest")
    case None
    then have "acc' = acc" using "1.prems"(1) by (simp add: replay_loop.simps [of c v1 verify fmt rest])
    then show ?thesis using "1.prems"(2) by simp
  next
    case (Some x)
    obtain f n st where x: "x = (f, n, st)" by (cases x)
    have run: "replay_loop c v1 verify fmt (drop st rest) (at + st) (apply_frame c f n acc) = (acc', at')"
      using "1.prems"(1) Some x by (simp add: replay_loop.simps [of c v1 verify fmt rest])
    show ?thesis
      by (rule "1.IH" [OF Some x [symmetric] refl run step])
  qed
qed

lemma replay_keys:
  assumes "replay c v1 verify bs = Inr r" and "hget (rp_records r) k = Some v"
  shows "key_of c v = k"
proof -
  obtain fmt at0 where st: "replay_start bs = Inr (fmt, at0)"
    using assms(1) by (auto simp: replay_def split: sum.splits)
  obtain a at where run: "replay_loop c v1 verify fmt (drop at0 bs) at0 replay_init = (a, at)"
    by fastforce
  have "hget (ra_records a) k = Some v"
    using assms st run by (auto simp: replay_def)
  then show ?thesis
    using replay_loop_keys [OF run] by (simp add: replay_init_def)
qed

text \<open>The good part of a v2 file is a clean file with the same contents.\<close>

lemma replay_good_part:
  assumes "replay c v1 True bs = Inr r" and "rp_format r \<noteq> V1"
  obtains r' where "clean_file c (take (rp_good_end r) bs) r'" and "rp_records r' = rp_records r"
    and "rp_tombstoned r' = rp_tombstoned r" and "rp_removed r' = rp_removed r"
    and "rp_good_end r \<le> length bs"
proof -
  obtain fmt at0 where st: "replay_start bs = Inr (fmt, at0)"
    using assms(1) by (auto simp: replay_def split: sum.splits)
  obtain a at where run: "replay_loop c v1 True fmt (drop at0 bs) at0 replay_init = (a, at)"
    by fastforce
  have r: "rp_format r = fmt" "rp_good_end r = at" "rp_records r = ra_records a"
    "rp_tombstoned r = ra_tombstoned a" "rp_removed r = ra_removed a"
    using assms(1) st run by (auto simp: replay_def)
  show thesis
  proof (cases "fmt = V2 \<and> at0 \<noteq> 0")
    case False
    then have "fmt = Empty \<or> fmt = V2 \<and> at0 = 0" using assms(2) r by (cases fmt) auto
    moreover have "at0 = 0" using calculation st
      by (auto simp: replay_start_def Let_def split: if_splits)
    ultimately have a: "a = replay_init" "at = 0"
      using run by (auto simp: replay_loop.simps [of _ _ _ _ _ 0] next_frame_def)
    have "clean_file c (take at bs) \<lparr>rp_format = Empty, rp_records = [], rp_tombstoned = [],
        rp_frames = 0, rp_removed = False, rp_good_end = 0, rp_tail = Clean, rp_live_len = 8\<rparr>"
      using a by (simp add: clean_file_def replay_Nil)
    then show thesis
      using that a r by (simp add: replay_init_def)
  next
    case True
    then have at0: "at0 = 8" "8 \<le> length bs" "take 4 bs = magic"
      "of_le_bytes (take 4 (drop 4 bs)) = version"
      using st by (auto simp: replay_start_def Let_def file_header_len_def split: if_splits)
    have "le_bytes (of_le_bytes (take 4 (drop 4 bs))) = take 4 (drop 4 bs)"
      using at0(2) by simp
    with at0(4) have "take 4 (drop 4 bs) = le_bytes version" by simp
    moreover have "take 8 bs = take 4 bs @ take 4 (drop 4 bs)"
      using take_add [of 4 4 bs] by simp
    ultimately have "take 8 bs = file_header"
      using at0(3) by (simp add: file_header_def)
    then obtain ys where bs: "bs = file_header @ ys"
      by (metis append_take_drop_id)
    have run2: "replay_loop c v1 True V2 ys 8 replay_init = (a, at)"
      using run True at0(1) bs by simp
    note tk = replay_loop_take [OF run2]
    have run3: "replay_loop c (dec_frame c) True V2 (take (at - 8) ys) 8 replay_init = (a, at)"
      using tk replay_loop_v1_irrelevant [of V2 c v1 True _ _ _ "dec_frame c"] by simp
    have split: "take at bs = file_header @ take (at - 8) ys" using bs tk by simp
    have len: "length (file_header @ take (at - 8) ys) = at" using tk by simp
    have "replay c (dec_frame c) True (take at bs) = Inr \<lparr>rp_format = V2, rp_records = ra_records a,
        rp_tombstoned = ra_tombstoned a, rp_frames = ra_frames a, rp_removed = ra_removed a,
        rp_good_end = at, rp_tail = Clean,
        rp_live_len = file_header_len + sum_list (hvals (ra_sizes a))
          + sum_list (map tombstone_frame_len (ra_tombstoned a))\<rparr>"
      using run3 len unfolding split by (simp add: replay_header classify_clean)
    then have "\<exists>r'. clean_file c (take at bs) r' \<and> rp_records r' = ra_records a \<and>
        rp_tombstoned r' = ra_tombstoned a \<and> rp_removed r' = ra_removed a"
      using len split by (simp add: clean_file_def)
    moreover have "at \<le> length bs" using tk bs by auto
    ultimately show thesis using that r by auto
  qed
qed

section \<open>What a load leaves\<close>

lemma aside_path_neq:
  assumes "lg_path lg \<noteq> []"
  shows "aside_path c lg n b \<noteq> lg_path lg" and "temp_path (aside_path c lg n b) \<noteq> lg_path lg"
    and "aside_path c lg n b \<noteq> temp_path (lg_path lg)" and "aside_path c lg n b \<noteq> []"
proof -
  have len: "length (last (lg_path lg)) + 20 < length (last (aside_path c lg n b))"
    using assms by (simp add: aside_path_def with_file_name_def aside_prefix_def log_name_def file_name_def)
  show "aside_path c lg n b \<noteq> lg_path lg" using len by force
  have "length (last (temp_path (aside_path c lg n b))) > length (last (lg_path lg))"
    using len by (simp add: temp_path_def)
  then show "temp_path (aside_path c lg n b) \<noteq> lg_path lg" by force
  have "length (last (aside_path c lg n b)) > length (last (temp_path (lg_path lg)))"
    using len by (simp add: temp_path_def)
  then show "aside_path c lg n b \<noteq> temp_path (lg_path lg)" by force
  show "aside_path c lg n b \<noteq> []" by (simp add: aside_path_def with_file_name_def)
qed

lemma aside_path_cong: "lg_path lg = lg_path lg' \<Longrightarrow> aside_path c lg n b = aside_path c lg' n b"
  by (simp add: aside_path_def aside_prefix_def log_name_def)

text \<open>The log a load builds before any repair.\<close>

definition loaded :: "path \<Rightarrow> 't replayed \<Rightarrow> 't log" where
  "loaded p found =
     \<lparr>lg_path = p, lg_records = rp_records found, lg_tombstoned = rp_tombstoned found,
      lg_end = rp_good_end found, lg_cut_owed = rp_tail found \<noteq> Clean, lg_held = None,
      lg_removed = rp_removed found\<rparr>"

lemma loaded_wf:
  assumes "replay c v1 verify bs = Inr found" and "p \<noteq> []"
  shows "log_wf c (loaded p found)"
  using assms replay_ok [OF assms(1)] replay_keys [OF assms(1)] by (simp add: log_wf_def loaded_def)

lemma loaded_inv:
  assumes rep: "replay c v1 True (file_of d p) = Inr found" and "p \<noteq> []" and fmt: "rp_format found \<noteq> V1"
  shows "log_inv c (loaded p found) d"
proof -
  obtain r where r: "clean_file c (take (rp_good_end found) (file_of d p)) r" "rp_records r = rp_records found"
    "rp_tombstoned r = rp_tombstoned found" "rp_removed r = rp_removed found"
    "rp_good_end found \<le> length (file_of d p)"
    using replay_good_part [OF rep fmt] .
  have tail: "rp_tail found = classify c (rp_format found) (drop (rp_good_end found) (file_of d p))"
    using rep by (auto simp: replay_def Let_def split: sum.splits prod.splits)
  have "length (file_of d p) = rp_good_end found" if "rp_tail found = Clean"
  proof (rule ccontr)
    assume ne: "length (file_of d p) \<noteq> rp_good_end found"
    then have "drop (rp_good_end found) (file_of d p) \<noteq> []" using r(5) by simp
    then have "rp_format found = Empty" using that tail classify_not_clean by metis
    then have "file_of d p = []"
      using rep by (auto simp: replay_def replay_start_def Let_def split: sum.splits prod.splits if_splits)
    with ne r(5) show False by simp
  qed
  moreover have "tail_shows c (file_of d p) (loaded p found)"
    using replay_v1_irrelevant [OF rep fmt, of "dec_frame c"] by (simp add: tail_shows_def loaded_def)
  ultimately show ?thesis
    using loaded_wf [OF rep assms(2)] r
    by (auto simp: log_inv_def loaded_def holds_state_def)
qed

text \<open>
  The load after its copy aside: either no rewrite is due, or a compaction runs whose failure
  is survived.
\<close>

definition finish_load :: "'t codec \<Rightarrow> 't replayed \<Rightarrow> bytes \<Rightarrow> 't log \<Rightarrow> disk \<Rightarrow> disk \<times> (kv_error + 't log)" where
  "finish_load c found bs lg d =
     (case rewrite_reason (rp_format found) (rp_tail found) (grown (length bs) (rp_live_len found)) of
        None \<Rightarrow> (d, Inr lg)
      | Some why \<Rightarrow>
          (case compact c lg d of
             (lg, d, Inr _) \<Rightarrow> (d, Inr lg)
           | (lg, d, Inl e) \<Rightarrow>
               if rp_format found = V1 then (d, Inr (lg\<lparr>lg_held := Some migration_hold\<rparr>))
               else (d, Inr (lg\<lparr>lg_cut_owed := rp_tail found \<noteq> Clean\<rparr>))))"

lemma rewrite_reason_V1: "rewrite_reason V1 what is_grown = Some ''migrated v1 to v2''"
  by (simp add: rewrite_reason_def split: tail.splits)

lemma finish_load_inv:
  assumes ok: "codec_ok c" and p: "p \<noteq> []"
    and rep: "replay c v1 True (file_of d p) = Inr found" and ne: "rp_format found \<noteq> Empty"
    and run: "finish_load c found (file_of d p) (loaded p found) d = (d', Inr lg')"
  shows "log_inv c lg' d' \<and> lg_path lg' = p \<and> lg_records lg' = rp_records found
    \<and> lg_tombstoned lg' = rp_tombstoned found
    \<and> (\<forall>q. q \<noteq> p \<and> q \<noteq> temp_path p \<longrightarrow> content d' q = content d q)
    \<and> (rp_format found = V1 \<longrightarrow> lg_held lg' = None \<longrightarrow> (\<exists>r. clean_file c (file_of d' p) r))"
proof (cases "rewrite_reason (rp_format found) (rp_tail found) (grown (length (file_of d p)) (rp_live_len found))")
  case None
  then have "rp_format found \<noteq> V1" by (auto simp: rewrite_reason_V1)
  then show ?thesis
    using loaded_inv [OF rep p] run None by (auto simp: finish_load_def loaded_def)
next
  case (Some why)
  obtain lg1 d1 res where cmp: "compact c (loaded p found) d = (lg1, d1, res)" by (metis prod_cases3)
  have path: "lg_path (loaded p found) = p" by (simp add: loaded_def)
  from loaded_wf [OF rep p] ok cmp show ?thesis
  proof (cases rule: compact_cases)
    case (failed e)
    have f: "file_of d1 p = file_of d p"
      using failed(4) [of p] temp_path_neq [OF p] path by (metis file_of_def)
    show ?thesis
    proof (cases "rp_format found = V1")
      case True
      then show ?thesis
        using run Some cmp failed path loaded_wf [OF rep p]
        by (auto simp: finish_load_def log_inv_def log_wf_def loaded_def)
    next
      case False
      have "log_inv c (loaded p found) d1"
        using loaded_inv [OF rep p False] f path by (simp add: log_inv_def)
      then show ?thesis
        using run Some cmp failed path False by (auto simp: finish_load_def loaded_def)
    qed
  next
    case (compacted img)
    have out: "d' = d1" "lg' = lg1" using run Some cmp compacted by (simp_all add: finish_load_def)
    obtain r where "clean_file c img r"
      using image_log_replays [OF loaded_wf [OF rep p] ok compacted(2)] by blast
    moreover have "file_of d1 p = img"
      using compacted(5) path temp_path_neq [OF p] by (simp add: file_of_def)
    ultimately show ?thesis
      using compacted out path by (auto simp: loaded_def)
  qed
qed

definition fresh :: "path \<Rightarrow> 't replayed \<Rightarrow> 't log" where
  "fresh p found = (loaded p found)\<lparr>lg_cut_owed := False\<rparr>"

definition save_aside :: "'t codec \<Rightarrow> path \<Rightarrow> bytes \<Rightarrow> 't replayed \<Rightarrow> disk \<Rightarrow> disk \<times> (io_error + unit)" where
  "save_aside c p bs found d =
     (case rp_tail found of
        Unreadable n \<Rightarrow>
          atomic_write (aside_path c (fresh p found) (rp_good_end found) (drop (rp_good_end found) bs))
            (drop (rp_good_end found) bs) d
      | _ \<Rightarrow> (d, Inr ()))"

definition repaired :: "'t codec \<Rightarrow> path \<Rightarrow> bytes \<Rightarrow> 't replayed \<Rightarrow> disk \<Rightarrow> disk \<times> (kv_error + 't log)" where
  "repaired c p bs found d =
     (if rp_format found = Empty then (d, Inr (fresh p found))
      else (case save_aside c p bs found d of
              (d, Inl _) \<Rightarrow> (d, Inr ((fresh p found)\<lparr>lg_held := Some aside_hold\<rparr>))
            | (d, Inr _) \<Rightarrow> finish_load c found bs (loaded p found) d))"

definition after_read ::
  "'t codec \<Rightarrow> (bytes \<Rightarrow> 't frame option) \<Rightarrow> path \<Rightarrow> bytes \<Rightarrow> disk \<Rightarrow> disk \<times> (kv_error + 't log)" where
  "after_read c v1 p bs d =
     (case replay c v1 (checksum_holds c) bs of Inl e \<Rightarrow> (d, Inl e) | Inr found \<Rightarrow>
        if \<not> checksum_holds c then (d, Inr ((fresh p found)\<lparr>lg_held := Some checksum_hold\<rparr>))
        else repaired c p bs found d)"

lemma load_with_v1_steps:
  "load_with_v1 c v1 p d =
     (case read_file p d of
        (d, Inl OtherError) \<Rightarrow> (d, Inl (Io OtherError))
      | (d, Inl InvalidInput) \<Rightarrow> (d, Inl (Io InvalidInput))
      | (d, Inl NotFound) \<Rightarrow> after_read c v1 p [] d
      | (d, Inr bs) \<Rightarrow> after_read c v1 p bs d)"
proof -
  obtain d1 got where rd: "read_file p d = (d1, got)" by fastforce
  have step: "\<lparr>lg_path = p, lg_records = rp_records found, lg_tombstoned = rp_tombstoned found,
      lg_end = rp_good_end found, lg_cut_owed = False, lg_held = None, lg_removed = rp_removed found\<rparr>
    = fresh p found" for found :: "'a replayed"
    by (simp add: fresh_def loaded_def)
  have owed: "(fresh p found)\<lparr>lg_cut_owed := rp_tail found \<noteq> Clean\<rparr> = loaded p found" for found :: "'a replayed"
    by (simp add: fresh_def loaded_def)
  show ?thesis
    by (cases got; cases "projl got")
       (simp_all only: rd load_with_v1_def after_read_def repaired_def step Let_def owed finish_load_def
          save_aside_def prod.case sum.case sum.sel io_error.case)
qed

lemma load_after_read:
  assumes "load_with_v1 c v1 p d = (d', Inr lg')"
  obtains d1 where "content d1 = content d" and "after_read c v1 p (file_of d1 p) d1 = (d', Inr lg')"
proof -
  obtain d1 got where rd: "read_file p d = (d1, got)" by fastforce
  have c1: "content d1 = content d" by (rule read_file_content [OF rd])
  have "after_read c v1 p (file_of d1 p) d1 = (d', Inr lg')"
  proof (cases got)
    case (Inr bs)
    with rd have "file_of d1 p = bs" using read_file_Inr c1 by (fastforce simp: file_of_def)
    with assms rd Inr show ?thesis by (simp add: load_with_v1_steps)
  next
    case (Inl e)
    with assms rd have e: "e = NotFound" by (cases e) (auto simp: load_with_v1_steps)
    with rd Inl have "file_of d1 p = []" using read_file_NotFound c1 by (fastforce simp: file_of_def)
    with assms rd Inl e show ?thesis by (simp add: load_with_v1_steps)
  qed
  with c1 that show thesis by blast
qed

lemma fresh_path [simp]: "lg_path (fresh p found) = p"
  by (simp add: fresh_def loaded_def)

lemma save_aside_file:
  assumes "p \<noteq> []" and "save_aside c p bs found d = (d', saved)"
  shows "file_of d' p = file_of d p"
    and "saved = Inr u \<Longrightarrow> rp_tail found = Unreadable n \<Longrightarrow>
      content d' (aside_path c (fresh p found) (rp_good_end found) (drop (rp_good_end found) bs))
        = Some (drop (rp_good_end found) bs)"
proof -
  let ?a = "aside_path c (fresh p found) (rp_good_end found) (drop (rp_good_end found) bs)"
  have ne: "?a \<noteq> p" "temp_path ?a \<noteq> p" "?a \<noteq> []"
    using aside_path_neq(1,2,4) [of "fresh p found" c] assms(1) by simp_all
  show "file_of d' p = file_of d p"
    using assms(2) ne atomic_write_cases [of ?a "drop (rp_good_end found) bs" d d' saved]
    by (auto simp: save_aside_def file_of_def split: tail.splits)
  show "content d' ?a = Some (drop (rp_good_end found) bs)"
    if "saved = Inr u" "rp_tail found = Unreadable n"
    using assms(2) that ne(3) temp_path_neq [OF ne(3)]
      atomic_write_Inr [of ?a "drop (rp_good_end found) bs" d d' u]
    by (simp add: save_aside_def)
qed

lemma replay_Empty:
  assumes "replay c v1 verify bs = Inr r" and "rp_format r = Empty"
  shows "bs = []" and "rp_tail r = Clean"
proof -
  show "bs = []" using assms
    by (auto simp: replay_def replay_start_def Let_def split: sum.splits prod.splits if_splits)
  then show "rp_tail r = Clean" using assms by (auto simp: replay_Nil)
qed

text \<open>Every result of a load, for every list of faults.\<close>

lemma load_cases:
  assumes ok: "codec_ok c" and p: "p \<noteq> []" and run: "load_with_v1 c v1 p d = (d', Inr lg')"
  obtains found where "replay c v1 (checksum_holds c) (file_of d p) = Inr found"
    and "lg_path lg' = p" and "lg_records lg' = rp_records found"
    and "lg_tombstoned lg' = rp_tombstoned found" and "log_inv c lg' d'"
    and "file_of d' p = file_of d p \<or>
      (checksum_holds c \<and> ((\<nexists>n. rp_tail found = Unreadable n) \<or>
        content d' (aside_path c lg' (rp_good_end found) (drop (rp_good_end found) (file_of d p)))
          = Some (drop (rp_good_end found) (file_of d p))))"
    and "rp_format found = V1 \<longrightarrow> lg_held lg' = None \<longrightarrow> (\<exists>r. clean_file c (file_of d' p) r)"
    and "\<not> checksum_holds c \<longrightarrow> lg_held lg' = Some checksum_hold"
proof -
  obtain d1 where c1: "content d1 = content d" and ar: "after_read c v1 p (file_of d1 p) d1 = (d', Inr lg')"
    using load_after_read [OF run] .
  have f: "file_of d p = file_of d1 p" using c1 by (simp add: file_of_def)
  obtain found where rep: "replay c v1 (checksum_holds c) (file_of d1 p) = Inr found"
    using ar by (auto simp: after_read_def split: sum.splits)
  have wf: "log_wf c (fresh p found)" using loaded_wf [OF rep p] by (simp add: fresh_def log_wf_def)
  have fields: "lg_records (fresh p found) = rp_records found"
    "lg_tombstoned (fresh p found) = rp_tombstoned found" by (simp_all add: fresh_def loaded_def)
  note use = that [of found, unfolded f, OF rep]
  consider (bad_crc) "\<not> checksum_holds c" | (empty) "checksum_holds c" "rp_format found = Empty"
    | (full) "checksum_holds c" "rp_format found \<noteq> Empty" by blast
  then show thesis
  proof cases
    case bad_crc
    then have "lg' = (fresh p found)\<lparr>lg_held := Some checksum_hold\<rparr>" "d' = d1"
      using ar rep by (simp_all add: after_read_def repaired_def)
    then show thesis using use wf fields bad_crc by (simp add: log_inv_def log_wf_def)
  next
    case empty
    then have out: "lg' = fresh p found" "d' = d1" using ar rep by (simp_all add: after_read_def repaired_def)
    have "log_inv c (loaded p found) d1" using loaded_inv [of c v1 d1 p found] rep empty p by simp
    then have "log_inv c (fresh p found) d1"
      using replay_Empty(2) [OF rep empty(2)] by (simp add: fresh_def loaded_def)
    then show thesis using use fields empty out by simp
  next
    case full
    obtain d2 saved where sv: "save_aside c p (file_of d1 p) found d1 = (d2, saved)" by fastforce
    note sf = save_aside_file [OF p sv]
    show thesis
    proof (cases saved)
      case (Inl e)
      then have out: "d' = d2" "lg' = (fresh p found)\<lparr>lg_held := Some aside_hold\<rparr>"
        using ar rep full sv by (simp_all add: after_read_def repaired_def)
      then show thesis using use wf fields full sf(1) by (simp add: log_inv_def log_wf_def)
    next
      case (Inr u)
      then have fin: "finish_load c found (file_of d2 p) (loaded p found) d2 = (d', Inr lg')"
        using ar rep full sv sf(1) by (simp add: after_read_def repaired_def)
      have rep2: "replay c v1 True (file_of d2 p) = Inr found" using rep full sf(1) by simp
      note F = finish_load_inv [OF ok p rep2 full(2) fin]
      let ?cut = "drop (rp_good_end found) (file_of d1 p)"
      have "content d' (aside_path c lg' (rp_good_end found) ?cut) = Some ?cut"
        if "rp_tail found = Unreadable n" for n
        using F sf(2) [OF Inr that] aside_path_neq(1,3) [of "fresh p found" c] p
          aside_path_cong [of lg' "fresh p found" c] by simp
      then show thesis using use F full by auto
    qed
  qed
qed

text \<open>A load that rewrote the file owes it nothing.\<close>

lemma finish_load_file:
  assumes ok: "codec_ok c" and p: "p \<noteq> []" and rep: "replay c v1 True (file_of d p) = Inr found"
    and run: "finish_load c found (file_of d p) (loaded p found) d = (d', Inr lg')"
  shows "file_of d' p = file_of d p \<or> lg_held lg' = None \<and> \<not> lg_cut_owed lg'"
proof (cases "rewrite_reason (rp_format found) (rp_tail found) (grown (length (file_of d p)) (rp_live_len found))")
  case None
  then show ?thesis using run by (simp add: finish_load_def)
next
  case (Some why)
  obtain lg1 d1 res where cmp: "compact c (loaded p found) d = (lg1, d1, res)" by (metis prod_cases3)
  have path: "lg_path (loaded p found) = p" "lg_held (loaded p found) = None" by (simp_all add: loaded_def)
  from loaded_wf [OF rep p] ok cmp show ?thesis
  proof (cases rule: compact_cases)
    case (failed e)
    have "file_of d1 p = file_of d p"
      using failed(4) [of p] temp_path_neq [OF p] path by (metis file_of_def)
    then show ?thesis using run Some cmp failed by (auto simp: finish_load_def split: if_splits)
  next
    case (compacted img)
    then show ?thesis using run Some cmp path by (auto simp: finish_load_def)
  qed
qed

lemma load_file:
  assumes ok: "codec_ok c" and p: "p \<noteq> []" and run: "load_with_v1 c v1 p d = (d', Inr lg')"
  shows "file_of d' p = file_of d p \<or> lg_held lg' = None \<and> \<not> lg_cut_owed lg'"
proof -
  obtain d1 where c1: "content d1 = content d" and ar: "after_read c v1 p (file_of d1 p) d1 = (d', Inr lg')"
    using load_after_read [OF run] .
  have f: "file_of d p = file_of d1 p" using c1 by (simp add: file_of_def)
  obtain found where rep: "replay c v1 (checksum_holds c) (file_of d1 p) = Inr found"
    using ar by (auto simp: after_read_def split: sum.splits)
  show ?thesis
  proof (cases "checksum_holds c \<and> rp_format found \<noteq> Empty")
    case False
    then show ?thesis using ar rep f by (auto simp: after_read_def repaired_def split: if_splits)
  next
    case full: True
    obtain d2 saved where sv: "save_aside c p (file_of d1 p) found d1 = (d2, saved)" by fastforce
    note sf = save_aside_file(1) [OF p sv]
    show ?thesis
    proof (cases saved)
      case (Inl e)
      then show ?thesis using ar rep full sv sf f by (simp add: after_read_def repaired_def)
    next
      case (Inr u)
      then have fin: "finish_load c found (file_of d2 p) (loaded p found) d2 = (d', Inr lg')"
        using ar rep full sv sf by (simp add: after_read_def repaired_def)
      have "replay c v1 True (file_of d2 p) = Inr found" using rep full sf by simp
      from finish_load_file [OF ok p this fin] show ?thesis using sf f by simp
    qed
  qed
qed

end
