(* ===== verification/Kvlog_Crash.thy ===== *)
theory Kvlog_Crash
  imports Kvlog_Load
begin

text \<open>
  The log over its whole life: sequences of operations under any faults, a crash inside any of
  them, and the reload that follows.
\<close>

section \<open>Operations as data\<close>

datatype 't log_op =
    Do_Upsert 't
  | Do_Remove string
  | Do_Tombstone string
  | Do_Untombstone string
  | Do_Wipe
  | Do_Compact

text \<open>An operation's run, its answer reduced to whether it failed.\<close>

fun run_op :: "'t codec \<Rightarrow> 't log_op \<Rightarrow> 't log \<Rightarrow> disk \<Rightarrow> 't log \<times> disk \<times> kv_error option" where
  "run_op c (Do_Upsert r) lg d =
     (case upsert c lg d (key_of c r) r of (lg, d, res) \<Rightarrow> (lg, d, case res of Inl e \<Rightarrow> Some e | Inr _ \<Rightarrow> None))"
| "run_op c (Do_Remove k) lg d =
     (case remove c lg d k of (lg, d, res) \<Rightarrow> (lg, d, case res of Inl e \<Rightarrow> Some e | Inr _ \<Rightarrow> None))"
| "run_op c (Do_Tombstone k) lg d =
     (case tombstone c lg d k of (lg, d, res) \<Rightarrow> (lg, d, case res of Inl e \<Rightarrow> Some e | Inr _ \<Rightarrow> None))"
| "run_op c (Do_Untombstone k) lg d =
     (case untombstone c lg d k of (lg, d, res) \<Rightarrow> (lg, d, case res of Inl e \<Rightarrow> Some e | Inr _ \<Rightarrow> None))"
| "run_op c Do_Wipe lg d =
     (case wipe lg d of (lg, d, res) \<Rightarrow> (lg, d, case res of Inl e \<Rightarrow> Some e | Inr _ \<Rightarrow> None))"
| "run_op c Do_Compact lg d =
     (case compact c lg d of (lg, d, res) \<Rightarrow> (lg, d, case res of Inl e \<Rightarrow> Some e | Inr _ \<Rightarrow> None))"

fun run_ops :: "'t codec \<Rightarrow> 't log_op list \<Rightarrow> 't log \<Rightarrow> disk \<Rightarrow> 't log \<times> disk" where
  "run_ops c [] lg d = (lg, d)"
| "run_ops c (x # xs) lg d = (case run_op c x lg d of (lg, d, _) \<Rightarrow> run_ops c xs lg d)"

text \<open>What an operation promises: the records and flags after it.\<close>

fun op_records :: "'t codec \<Rightarrow> 't log_op \<Rightarrow> (string \<rightharpoonup> 't) \<Rightarrow> (string \<rightharpoonup> 't)" where
  "op_records c (Do_Upsert r) R = R(key_of c r \<mapsto> r)"
| "op_records c (Do_Remove k) R = R(k := None)"
| "op_records c Do_Wipe R = Map.empty"
| "op_records c _ R = R"

fun op_flags :: "'t log_op \<Rightarrow> (string \<rightharpoonup> 't) \<Rightarrow> string set \<Rightarrow> string set" where
  "op_flags (Do_Remove k) R T = (if R k = None then T else T - {k})"
| "op_flags (Do_Tombstone k) R T = (if R k = None then T else insert k T)"
| "op_flags (Do_Untombstone k) R T = T - {k}"
| "op_flags Do_Wipe R T = {}"
| "op_flags _ R T = T"

definition records_of :: "'t log \<Rightarrow> (string \<rightharpoonup> 't)" where
  "records_of lg = map_of (lg_records lg)"

definition flags_of :: "'t log \<Rightarrow> string set" where
  "flags_of lg = set (lg_tombstoned lg)"

text \<open>One operation: the invariant stays, and either it did what it promises or nothing changed.\<close>

lemma run_op_cases:
  assumes inv: "log_inv c lg d" and ok: "codec_ok c" and run: "run_op c x lg d = (lg', d', err)"
  shows "log_inv c lg' d' \<and> lg_path lg' = lg_path lg \<and> (lg_held lg = None \<longrightarrow> lg_held lg' = None) \<and>
    (case err of
       None \<Rightarrow> records_of lg' = op_records c x (records_of lg) \<and> flags_of lg' = op_flags x (records_of lg) (flags_of lg)
     | Some e \<Rightarrow> records_of lg' = records_of lg \<and> flags_of lg' = flags_of lg)"
proof -
  note defs = records_of_def flags_of_def fun_eq_iff
  show ?thesis
  proof (cases x)
    case (Do_Upsert r)
    obtain res where u: "upsert c lg d (key_of c r) r = (lg', d', res)"
      "err = (case res of Inl e \<Rightarrow> Some e | Inr _ \<Rightarrow> None)"
      using run Do_Upsert by (auto split: prod.splits)
    show ?thesis
      by (rule upsert_cases [OF inv ok refl u(1)]) (use Do_Upsert u(2) inv in \<open>auto simp: defs\<close>)
  next
    case (Do_Remove k)
    obtain res where u: "remove c lg d k = (lg', d', res)"
      "err = (case res of Inl e \<Rightarrow> Some e | Inr _ \<Rightarrow> None)"
      using run Do_Remove by (auto split: prod.splits)
    show ?thesis
      by (rule remove_cases [OF inv ok u(1)]) (use Do_Remove u(2) inv in \<open>auto simp: defs\<close>)
  next
    case (Do_Tombstone k)
    obtain res where u: "tombstone c lg d k = (lg', d', res)"
      "err = (case res of Inl e \<Rightarrow> Some e | Inr _ \<Rightarrow> None)"
      using run Do_Tombstone by (auto split: prod.splits)
    show ?thesis
      by (rule tombstone_cases [OF inv ok u(1)]) (use Do_Tombstone u(2) inv in \<open>auto simp: defs\<close>)
  next
    case (Do_Untombstone k)
    obtain res where u: "untombstone c lg d k = (lg', d', res)"
      "err = (case res of Inl e \<Rightarrow> Some e | Inr _ \<Rightarrow> None)"
      using run Do_Untombstone by (auto split: prod.splits)
    show ?thesis
      by (rule untombstone_cases [OF inv ok u(1)]) (use Do_Untombstone u(2) inv in \<open>auto simp: defs\<close>)
  next
    case Do_Wipe
    obtain res where u: "wipe lg d = (lg', d', res)"
      "err = (case res of Inl e \<Rightarrow> Some e | Inr _ \<Rightarrow> None)"
      using run Do_Wipe by (auto split: prod.splits)
    show ?thesis
      by (rule wipe_cases [OF inv u(1)]) (use Do_Wipe u(2) inv in \<open>auto simp: defs\<close>)
  next
    case Do_Compact
    obtain res where u: "compact c lg d = (lg', d', res)"
      "err = (case res of Inl e \<Rightarrow> Some e | Inr _ \<Rightarrow> None)"
      using run Do_Compact by (auto split: prod.splits)
    have p: "lg_path lg \<noteq> []" using inv by (simp add: log_inv_def log_wf_def)
    show ?thesis
    proof (rule compact_cases [OF log_inv_wf [OF inv] ok u(1)])
      fix e assume f: "res = Inl e" "lg' = lg"
        "\<And>q. q \<noteq> temp_path (lg_path lg) \<Longrightarrow> content d' q = content d q"
      then have "file_of d' (lg_path lg) = file_of d (lg_path lg)"
        using temp_path_neq [OF p] by (simp add: file_of_def)
      then have "log_inv c lg' d'" using inv f(2) by (simp add: log_inv_def)
      then show ?thesis using f u(2) by (simp add: defs)
    qed (use Do_Compact u(2) in \<open>auto simp: defs\<close>)
  qed
qed

lemma run_ops_inv:
  assumes "log_inv c lg d" and "codec_ok c" and "run_ops c xs lg d = (lg', d')"
  shows "log_inv c lg' d' \<and> lg_path lg' = lg_path lg \<and> (lg_held lg = None \<longrightarrow> lg_held lg' = None)"
  using assms
proof (induction xs arbitrary: lg d)
  case Nil
  then show ?case by simp
next
  case (Cons x xs)
  obtain lg1 d1 err where r: "run_op c x lg d = (lg1, d1, err)" by (metis prod_cases3)
  note step = run_op_cases [OF Cons.prems(1,2) r]
  then show ?case using Cons.IH [of lg1 d1] Cons.prems r by auto
qed

section \<open>Reload\<close>

text \<open>A clean file loads to its own contents.\<close>

lemma reload_clean:
  assumes ok: "codec_ok c" "checksum_holds c" and p: "p \<noteq> []" and cl: "clean_file c (file_of d p) r"
    and run: "load c p d = (d', Inr lg')"
  shows "records_of lg' = map_of (rp_records r)" and "flags_of lg' = set (rp_tombstoned r)"
proof -
  obtain found where "replay c (dec_frame c) True (file_of d p) = Inr found"
    "lg_records lg' = rp_records found" "lg_tombstoned lg' = rp_tombstoned found"
    using load_cases [OF ok(1) p run [unfolded load_def]] ok(2) by metis
  moreover from this cl have "found = r" by (simp add: clean_file_def)
  ultimately show "records_of lg' = map_of (rp_records r)" "flags_of lg' = set (rp_tombstoned r)"
    by (simp_all add: records_of_def flags_of_def)
qed

lemma reload_inv:
  assumes ok: "codec_ok c" "checksum_holds c" and inv: "log_inv c lg d"
    and "lg_held lg = None" "\<not> lg_cut_owed lg" and run: "load c (lg_path lg) d = (d', Inr lg')"
  shows "records_of lg' = records_of lg" and "flags_of lg' = flags_of lg"
proof -
  have p: "lg_path lg \<noteq> []" using inv by (simp add: log_inv_def log_wf_def)
  obtain r where "clean_file c (file_of d (lg_path lg)) r" "map_of (rp_records r) = records_of lg"
    "set (rp_tombstoned r) = flags_of lg"
    using inv assms(4,5) by (auto simp: log_inv_def holds_state_def records_of_def flags_of_def)
  then show "records_of lg' = records_of lg" "flags_of lg' = flags_of lg"
    using reload_clean [OF ok p _ run] by simp_all
qed

section \<open>A crash inside an operation\<close>

text \<open>
  What a run of an operation is made of: nothing written, one append of a frame with the
  operation's own effect, or a whole-file rewrite.
\<close>

lemma append_log_owed:
  assumes "log_inv c lg d" and "append_log c lg d body = (lg', d', Inr u)"
  shows "\<not> lg_cut_owed lg'"
  using assms by (cases rule: append_log_cases) simp_all

lemma run_op_parts:
  assumes inv: "log_inv c lg d" and ok: "codec_ok c" and run: "run_op c x lg d = (lg', d', err)"
  obtains (untouched) "lg' = lg" "d' = d"
  | (frame) f body ap lg1 where "append_log c lg d body = (lg1, d', ap)" "dec_frame c body = Some f"
      "err = (case ap of Inl e \<Rightarrow> Some e | Inr _ \<Rightarrow> None)" "lg_cut_owed lg' = lg_cut_owed lg1"
      "frame_records c f (records_of lg) = op_records c x (records_of lg)"
      "frame_tombs f (flags_of lg) = op_flags x (records_of lg) (flags_of lg)"
  | (rewrite) "x = Do_Wipe \<or> x = Do_Compact" "err = None \<longrightarrow> \<not> lg_cut_owed lg' \<and> lg_held lg = None"
      "err \<noteq> None \<longrightarrow> lg' = lg \<and> file_of d' (lg_path lg) = file_of d (lg_path lg)"
proof (cases x)
  case (Do_Upsert r)
  show thesis
  proof (cases "upsert_body c r")
    case (Inl e)
    then show thesis using run Do_Upsert untouched by (simp add: upsert_def)
  next
    case (Inr body)
    obtain lg1 d1 ap where ap: "append_log c lg d body = (lg1, d1, ap)" by (metis prod_cases3)
    have "(lg' = lg \<and> d' = d) \<or> (d' = d1 \<and> err = (case ap of Inl e \<Rightarrow> Some e | Inr _ \<Rightarrow> None)
        \<and> lg_cut_owed lg' = lg_cut_owed lg1)"
      using run Do_Upsert Inr ap
      by (auto simp: upsert_def Let_def split: option.splits sum.splits if_splits)
    then show thesis
      using untouched frame [OF _ upsert_body_decodes [OF ok Inr]] ap Do_Upsert by auto
  qed
next
  case (Do_Remove k)
  show thesis
  proof (cases "hget (lg_records lg) k = None \<or> (\<exists>e. encode c (Remove k) = Inl e)")
    case True
    then show thesis using run Do_Remove untouched by (cases "hget (lg_records lg) k") (auto simp: remove_def)
  next
    case False
    then obtain body where body: "encode c (Remove k) = Inr body" by (cases "encode c (Remove k)") auto
    obtain lg1 d1 ap where ap: "append_log c lg d body = (lg1, d1, ap)" by (metis prod_cases3)
    have "d' = d1 \<and> err = (case ap of Inl e \<Rightarrow> Some e | Inr _ \<Rightarrow> None) \<and> lg_cut_owed lg' = lg_cut_owed lg1"
      using run Do_Remove False body ap by (auto simp: remove_def split: sum.splits)
    then show thesis
      using frame [OF _ encode_decodes [OF ok body]] ap Do_Remove False by (auto simp: records_of_def)
  qed
next
  case (Do_Tombstone k)
  show thesis
  proof (cases "hget (lg_records lg) k = None \<or> k \<in> set (lg_tombstoned lg) \<or> (\<exists>e. encode c (Tombstone k) = Inl e)")
    case True
    then show thesis using run Do_Tombstone untouched by (cases "hget (lg_records lg) k = None \<or> k \<in> set (lg_tombstoned lg)") (auto simp: tombstone_def)
  next
    case False
    then obtain body where body: "encode c (Tombstone k) = Inr body" by (cases "encode c (Tombstone k)") auto
    obtain lg1 d1 ap where ap: "append_log c lg d body = (lg1, d1, ap)" by (metis prod_cases3)
    have "d' = d1 \<and> err = (case ap of Inl e \<Rightarrow> Some e | Inr _ \<Rightarrow> None) \<and> lg_cut_owed lg' = lg_cut_owed lg1"
      using run Do_Tombstone False body ap by (auto simp: tombstone_def split: sum.splits)
    then show thesis
      using frame [OF _ encode_decodes [OF ok body]] ap Do_Tombstone False by (auto simp: records_of_def)
  qed
next
  case (Do_Untombstone k)
  show thesis
  proof (cases "k \<notin> set (lg_tombstoned lg) \<or> (\<exists>e. encode c (Untombstone k) = Inl e)")
    case True
    then show thesis using run Do_Untombstone untouched by (cases "k \<in> set (lg_tombstoned lg)") (auto simp: untombstone_def)
  next
    case False
    then obtain body where body: "encode c (Untombstone k) = Inr body" by (cases "encode c (Untombstone k)") auto
    obtain lg1 d1 ap where ap: "append_log c lg d body = (lg1, d1, ap)" by (metis prod_cases3)
    have "d' = d1 \<and> err = (case ap of Inl e \<Rightarrow> Some e | Inr _ \<Rightarrow> None) \<and> lg_cut_owed lg' = lg_cut_owed lg1"
      using run Do_Untombstone False body ap by (auto simp: untombstone_def split: sum.splits)
    then show thesis
      using frame [OF _ encode_decodes [OF ok body]] ap Do_Untombstone by auto
  qed
next
  case Do_Wipe
  have p: "lg_path lg \<noteq> []" using inv by (simp add: log_inv_def log_wf_def)
  have "(err = None \<longrightarrow> \<not> lg_cut_owed lg' \<and> lg_held lg = None) \<and>
      (err \<noteq> None \<longrightarrow> lg' = lg \<and> file_of d' (lg_path lg) = file_of d (lg_path lg))"
    using run Do_Wipe atomic_write_Inl [OF p _ temp_path_neq [OF p, symmetric]]
    by (auto simp: wipe_def refuse_if_held_def file_of_def split: sum.splits prod.splits option.splits)
  then show thesis using rewrite Do_Wipe by blast
next
  case Do_Compact
  obtain res where cmp: "compact c lg d = (lg', d', res)" "err = (case res of Inl e \<Rightarrow> Some e | Inr _ \<Rightarrow> None)"
    using run Do_Compact by (auto split: prod.splits)
  have p: "lg_path lg \<noteq> []" using inv by (simp add: log_inv_def log_wf_def)
  have "res = Inr () \<Longrightarrow> lg_held lg = None"
    using cmp(1) by (cases "lg_held lg") (simp_all add: compact_def refuse_if_held_def)
  moreover have "(err = None \<longrightarrow> \<not> lg_cut_owed lg' \<and> res = Inr ()) \<and>
      (err \<noteq> None \<longrightarrow> lg' = lg \<and> file_of d' (lg_path lg) = file_of d (lg_path lg))"
    by (rule compact_cases [OF log_inv_wf [OF inv] ok cmp(1)])
      (use cmp(2) temp_path_neq [OF p, symmetric] in \<open>auto simp: file_of_def\<close>)
  ultimately have "(err = None \<longrightarrow> \<not> lg_cut_owed lg' \<and> lg_held lg = None) \<and>
      (err \<noteq> None \<longrightarrow> lg' = lg \<and> file_of d' (lg_path lg) = file_of d (lg_path lg))" by blast
  then show thesis using rewrite Do_Compact by blast
qed

section \<open>What the file shows\<close>

text \<open>The contents of a log: its records and its flags.\<close>

type_synonym 't kv_state = "(string \<rightharpoonup> 't) \<times> string set"

definition state_of :: "'t log \<Rightarrow> 't kv_state" where
  "state_of lg = (records_of lg, flags_of lg)"

definition spec_step :: "'t codec \<Rightarrow> 't log_op \<Rightarrow> 't kv_state \<Rightarrow> 't kv_state" where
  "spec_step c x s = (op_records c x (fst s), op_flags x (fst s) (snd s))"

text \<open>
  The whole file, read as it is, shows the log's own state; or, while the log owes a cut, that
  state with one of the operations \<open>F\<close> done.
\<close>

definition file_shows :: "'t codec \<Rightarrow> 't log \<Rightarrow> disk \<Rightarrow> 't log_op set \<Rightarrow> bool" where
  "file_shows c lg d F \<longleftrightarrow>
     (\<exists>r. replay c (dec_frame c) True (file_of d (lg_path lg)) = Inr r \<and>
       ((map_of (rp_records r), set (rp_tombstoned r)) = state_of lg \<or>
        lg_cut_owed lg \<and>
          (\<exists>x \<in> F. (map_of (rp_records r), set (rp_tombstoned r)) = spec_step c x (state_of lg))))"

lemma file_shows_mono: "file_shows c lg d F \<Longrightarrow> F \<subseteq> G \<Longrightarrow> file_shows c lg d G"
  unfolding file_shows_def by blast

lemma file_shows_cong:
  assumes "file_shows c lg d F" and "file_of d' (lg_path lg) = file_of d (lg_path lg)"
    and "lg_path lg' = lg_path lg" "lg_cut_owed lg' = lg_cut_owed lg" "state_of lg' = state_of lg"
  shows "file_shows c lg' d' F"
  using assms by (simp add: file_shows_def)

lemma file_shows_settled:
  assumes "log_inv c lg d" and "lg_held lg = None" and "\<not> lg_cut_owed lg"
  shows "file_shows c lg d F"
proof -
  obtain r where "clean_file c (file_of d (lg_path lg)) r" "map_of (rp_records r) = records_of lg"
    "set (rp_tombstoned r) = flags_of lg"
    using assms by (auto simp: log_inv_def holds_state_def records_of_def flags_of_def)
  then show ?thesis by (auto simp: file_shows_def clean_file_def state_of_def)
qed

lemma load_shows:
  assumes ok: "codec_ok c" "checksum_holds c" and p: "p \<noteq> []" and run: "load c p d = (d', Inr lg)"
  shows "file_shows c lg d' {}"
proof -
  note l = run [unfolded load_def]
  from load_file [OF ok(1) p l] show ?thesis
  proof
    assume same: "file_of d' p = file_of d p"
    obtain found where "replay c (dec_frame c) True (file_of d p) = Inr found" "lg_path lg = p"
      "lg_records lg = rp_records found" "lg_tombstoned lg = rp_tombstoned found"
      using load_cases [OF ok(1) p l] ok(2) by metis
    then show ?thesis
      using same by (auto simp: file_shows_def state_of_def records_of_def flags_of_def)
  next
    assume "lg_held lg = None \<and> \<not> lg_cut_owed lg"
    moreover have "log_inv c lg d'" using load_cases [OF ok(1) p l] by metis
    ultimately show ?thesis using file_shows_settled by blast
  qed
qed

text \<open>What one operation does to what the file shows, whatever its faults.\<close>

lemma run_op_file:
  assumes inv: "log_inv c lg d" and ok: "codec_ok c" and run: "run_op c x lg d = (lg', d', err)"
  obtains (same) "file_of d' (lg_path lg) = file_of d (lg_path lg)" "lg_cut_owed lg' = lg_cut_owed lg"
      "state_of lg' = state_of lg"
  | (settled) "lg_held lg' = None" "\<not> lg_cut_owed lg'"
  | (torn) "err \<noteq> None" "state_of lg' = state_of lg" "file_shows c lg' d' {x}"
  using inv ok run
proof (cases rule: run_op_parts)
  case untouched
  then show ?thesis using same by simp
next
  case (frame f body ap lg1)
  note step = run_op_cases [OF inv ok run]
  have failed: "state_of lg' = state_of lg" if "ap = Inl e" for e
    using step frame(3) that by (simp add: state_of_def)
  from inv frame(1) show ?thesis
  proof (cases rule: append_log_cases)
    case ok
    then show ?thesis using settled step frame(4) by simp
  next
    case (untouched e)
    then show ?thesis using same failed frame(4) by simp
  next
    case (partial e k)
    let ?kept = "take (lg_end lg) (file_of d (lg_path lg))"
    have len: "length ?kept = lg_end lg" and "holds_state c ?kept lg"
      using inv partial(2) by (auto simp: log_inv_def)
    then obtain r where r: "clean_file c ?kept r" "map_of (rp_records r) = records_of lg"
      "set (rp_tombstoned r) = flags_of lg"
      by (auto simp: holds_state_def records_of_def flags_of_def)
    obtain r' where "replay c (dec_frame c) True (?kept @ take k (appended c (lg_end lg) body)) = Inr r'"
      "old_or_new c f r r'"
      using replay_cut_append [OF r(1) partial(3) frame(2), of "dec_frame c" k] unfolding len .
    moreover have "lg_path lg' = lg_path lg" "lg_cut_owed lg'" using step partial frame(4) by simp_all
    ultimately have "file_shows c lg' d' {x}"
      using partial(5) r(2,3) frame(5,6) failed [OF partial(1)]
      by (auto simp: file_shows_def old_or_new_def state_of_def spec_step_def)
    then show ?thesis using torn failed [OF partial(1)] frame(3) partial(1) by simp
  qed
next
  case rewrite
  then show ?thesis
    using same settled run_op_cases [OF inv ok run] by (cases err) auto
qed

lemma run_op_shows:
  assumes "log_inv c lg d" and "codec_ok c" and "run_op c x lg d = (lg', d', err)" and "file_shows c lg d F"
  shows "file_shows c lg' d' (F \<union> (if err = None then {} else {x}))"
proof -
  note step = run_op_cases [OF assms(1-3)]
  from assms(1-3) show ?thesis
  proof (cases rule: run_op_file)
    case same
    then have "file_shows c lg' d' F" using file_shows_cong [OF assms(4)] step by blast
    then show ?thesis by (rule file_shows_mono) simp
  next
    case settled
    then show ?thesis using file_shows_settled step by blast
  next
    case torn
    then show ?thesis by (auto elim: file_shows_mono)
  qed
qed

text \<open>A reload reads what the file shows.\<close>

lemma reload_shown:
  assumes ok: "codec_ok c" "checksum_holds c" and p: "lg_path lg \<noteq> []" and seen: "file_shows c lg d F"
    and run: "load c (lg_path lg) d = (d', Inr lg')"
  shows "state_of lg' = state_of lg \<or> lg_cut_owed lg \<and> (\<exists>x \<in> F. state_of lg' = spec_step c x (state_of lg))"
proof -
  obtain found where "replay c (dec_frame c) True (file_of d (lg_path lg)) = Inr found"
    "lg_records lg' = rp_records found" "lg_tombstoned lg' = rp_tombstoned found"
    using load_cases [OF ok(1) p run [unfolded load_def]] ok(2) by metis
  then have "state_of lg' = (map_of (rp_records found), set (rp_tombstoned found))"
    "replay c (dec_frame c) True (file_of d (lg_path lg)) = Inr found"
    by (simp_all add: state_of_def records_of_def flags_of_def)
  then show ?thesis using seen by (auto simp: file_shows_def)
qed

text \<open>And one frame is all a reload can find beyond the log's state.\<close>

lemma reload_one_frame:
  assumes ok: "codec_ok c" "checksum_holds c" and inv: "log_inv c lg d" and held: "lg_held lg = None"
    and run: "load c (lg_path lg) d = (d', Inr lg')"
  shows "state_of lg' = state_of lg \<or>
    lg_cut_owed lg \<and> (\<exists>f. state_of lg' = (frame_records c f (records_of lg), frame_tombs f (flags_of lg)))"
proof -
  have p: "lg_path lg \<noteq> []" using inv by (simp add: log_inv_def log_wf_def)
  obtain found where found: "replay c (dec_frame c) True (file_of d (lg_path lg)) = Inr found"
    "lg_records lg' = rp_records found" "lg_tombstoned lg' = rp_tombstoned found"
    using load_cases [OF ok(1) p run [unfolded load_def]] ok(2) by metis
  show ?thesis
  proof (cases "lg_cut_owed lg")
    case True
    then have "tail_shows c (file_of d (lg_path lg)) lg" using inv held by (simp add: log_inv_def)
    then show ?thesis
      using True found by (auto simp: tail_shows_def state_of_def records_of_def flags_of_def)
  next
    case False
    then show ?thesis using reload_inv [OF ok inv held False run] by (simp add: state_of_def)
  qed
qed

end
