(* ===== verification/Kvlog_Props.thy ===== *)
theory Kvlog_Props
  imports Kvlog_Crash
begin

text \<open>
  The log's contract with the stores above it, stated over the operations of
  \<open>rust/chain/src/kvlog.rs\<close> and witnessed on a small concrete codec.
\<close>

section \<open>Runs\<close>

text \<open>The operations of a run that answered success.\<close>

fun succeeded :: "'t codec \<Rightarrow> 't log_op list \<Rightarrow> 't log \<Rightarrow> disk \<Rightarrow> 't log_op list" where
  "succeeded c [] lg d = []"
| "succeeded c (x # xs) lg d =
     (case run_op c x lg d of
        (lg, d, err) \<Rightarrow> (if err = None then [x] else []) @ succeeded c xs lg d)"

text \<open>And those that answered an error.\<close>

fun failures :: "'t codec \<Rightarrow> 't log_op list \<Rightarrow> 't log \<Rightarrow> disk \<Rightarrow> 't log_op list" where
  "failures c [] lg d = []"
| "failures c (x # xs) lg d =
     (case run_op c x lg d of
        (lg, d, err) \<Rightarrow> (if err = None then [] else [x]) @ failures c xs lg d)"

lemma run_ops_shows:
  assumes "log_inv c lg d" and "codec_ok c" and "run_ops c xs lg d = (lg', d')" and "file_shows c lg d F"
  shows "file_shows c lg' d' (F \<union> set (failures c xs lg d))"
  using assms
proof (induction xs arbitrary: lg d F)
  case Nil
  then show ?case by simp
next
  case (Cons x xs)
  obtain lg1 d1 err where r: "run_op c x lg d = (lg1, d1, err)" by (metis prod_cases3)
  let ?F = "F \<union> (if err = None then {} else {x})"
  have "log_inv c lg1 d1" using run_op_cases [OF Cons.prems(1,2) r] by blast
  moreover have "run_ops c xs lg1 d1 = (lg', d')" using Cons.prems(3) r by simp
  moreover have "file_shows c lg1 d1 ?F" by (rule run_op_shows [OF Cons.prems(1,2) r Cons.prems(4)])
  ultimately have "file_shows c lg' d' (?F \<union> set (failures c xs lg1 d1))"
    using Cons.IH Cons.prems(2) by blast
  moreover have "?F \<union> set (failures c xs lg1 d1) = F \<union> set (failures c (x # xs) lg d)"
    using r by auto
  ultimately show ?case by simp
qed

lemma run_ops_refines:
  assumes "log_inv c lg d" and "codec_ok c" and "run_ops c xs lg d = (lg', d')"
  shows "state_of lg' = fold (spec_step c) (succeeded c xs lg d) (state_of lg)"
  using assms
proof (induction xs arbitrary: lg d)
  case Nil
  then show ?case by simp
next
  case (Cons x xs)
  obtain lg1 d1 err where r: "run_op c x lg d = (lg1, d1, err)" by (metis prod_cases3)
  note step = run_op_cases [OF Cons.prems(1,2) r]
  have "state_of lg1 = (if err = None then spec_step c x (state_of lg) else state_of lg)"
    using step by (cases err) (auto simp: state_of_def spec_step_def)
  then show ?case
    using Cons.IH [of lg1 d1] Cons.prems r step by auto
qed

text \<open>A load fails only on a read error or a newer format.\<close>

lemma after_read_Inl:
  "after_read c v1 p bs d = (d', Inl e) \<Longrightarrow> replay c v1 (checksum_holds c) bs = Inl e \<and> d' = d"
  by (auto simp: after_read_def repaired_def finish_load_def split: sum.splits if_splits prod.splits option.splits)

lemma after_read_Inr:
  "replay c v1 (checksum_holds c) bs = Inr r \<Longrightarrow> \<exists>d' lg. after_read c v1 p bs d = (d', Inr lg)"
  by (auto simp: after_read_def repaired_def finish_load_def split: sum.splits prod.splits option.splits)

lemma load_no_fault:
  assumes "faults d = []" and "replay c v1 (checksum_holds c) (file_of d p) = Inr r"
  shows "\<exists>d' lg. load_with_v1 c v1 p d = (d', Inr lg)"
  using assms after_read_Inr [OF assms(2)]
  by (auto simp: load_with_v1_steps read_file_def file_of_def split: option.splits)

lemma load_inv:
  assumes "codec_ok c" and "p \<noteq> []" and "load c p d = (d', Inr lg)"
  shows "log_inv c lg d'" and "lg_path lg = p"
  using load_cases [OF assms(1,2) assms(3) [unfolded load_def]] by metis+

section \<open>A concrete codec\<close>

text \<open>
  Records are their own bytes, keyed by their first one; the checksum is a function of the
  length that gives the known answers.
\<close>

fun demo_enc :: "bytes frame \<Rightarrow> bytes option" where
  "demo_enc (Upsert r) = Some (0 # r)"
| "demo_enc (Remove k) = Some (1 # ascii k)"
| "demo_enc (Tombstone k) = Some (2 # ascii k)"
| "demo_enc (Untombstone k) = Some (3 # ascii k)"

definition demo_dec :: "bytes \<Rightarrow> bytes frame option" where
  "demo_dec bs =
     (case bs of
        [] \<Rightarrow> None
      | b # r \<Rightarrow> if b = 0 then Some (Upsert r) else if b = 1 then Some (Remove (text_of r))
          else if b = 2 then Some (Tombstone (text_of r)) else if b = 3 then Some (Untombstone (text_of r))
          else None)"

definition demo_crc :: "bytes \<Rightarrow> u32" where
  "demo_crc bs =
     (let n = length bs in
      if n = 9 then check_value else if n = 4096 then long_pattern_crc else if n = 7 then frame_abc_crc
      else if n = 4100 then frame_long_crc else if n = 4097 then frame_unaligned_crc else of_nat n + 1)"

definition demo_codec :: "bytes codec" where
  "demo_codec = \<lparr>ser = Some, enc_frame = demo_enc, dec_frame = demo_dec, crc = demo_crc,
     key_of = (\<lambda>r. text_of (take 1 r))\<rparr>"

lemma demo_codec_ok: "codec_ok demo_codec"
proof -
  have "demo_enc f = Some bs \<Longrightarrow> demo_dec bs = Some f" for f bs
    by (cases f) (auto simp: demo_dec_def)
  then show ?thesis by (simp add: codec_ok_def demo_codec_def demo_dec_def)
qed

lemma demo_checksum_holds: "checksum_holds demo_codec"
proof -
  have len: "length long_pattern = 4096" by (simp only: long_pattern_def length_map length_upt)
  have [simp]: "length (ascii ''123456789'') = 9" "length (ascii ''abc'') = 3" by simp_all
  show ?thesis
    unfolding checksum_holds_def frame_crc_def demo_codec_def codec.simps demo_crc_def
    by (simp add: len del: length_ascii)
qed

definition demo_path :: path where
  "demo_path = [''data'', ''m.log'']"

definition demo_log :: "bytes log" where
  "demo_log = \<lparr>lg_path = demo_path, lg_records = [], lg_tombstoned = [], lg_end = 0,
     lg_cut_owed = False, lg_held = None, lg_removed = False\<rparr>"

definition demo_disk :: disk where
  "demo_disk = \<lparr>files = [], faults = []\<rparr>"

lemma demo_load: "load demo_codec demo_path demo_disk = (demo_disk, Inr demo_log)"
  by (simp add: load_def load_with_v1_def read_file_def demo_disk_def content_def replay_Nil
      demo_checksum_holds demo_log_def)

definition demo_ops :: "bytes log_op list" where
  "demo_ops = [Do_Upsert [97, 1], Do_Upsert [98, 2], Do_Tombstone ''a'', Do_Remove ''b'']"

lemma demo_run:
  "case run_ops demo_codec demo_ops demo_log demo_disk of (lg, d) \<Rightarrow>
     lg_held lg = None \<and> \<not> lg_cut_owed lg \<and> content d demo_path \<noteq> None"
  by code_simp

lemma demo_replays:
  "case run_ops demo_codec demo_ops demo_log demo_disk of (lg, d) \<Rightarrow>
     faults d = [] \<and> \<not> isl (replay demo_codec (dec_frame demo_codec) True (file_of d demo_path))"
  by code_simp

lemma demo_reload:
  "\<exists>d2 lg2. load demo_codec demo_path (snd (run_ops demo_codec demo_ops demo_log demo_disk)) = (d2, Inr lg2)"
  using demo_replays load_no_fault [of _ demo_codec "dec_frame demo_codec" demo_path] demo_checksum_holds
  by (cases "run_ops demo_codec demo_ops demo_log demo_disk";
      cases "replay demo_codec (dec_frame demo_codec) True
        (file_of (snd (run_ops demo_codec demo_ops demo_log demo_disk)) demo_path)")
     (auto simp: load_def)

section \<open>Properties\<close>

lemma run_ops_from_load:
  assumes "codec_ok c" and "p \<noteq> []" and "load c p d0 = (d1, Inr lg0)" and "run_ops c ops lg0 d1 = (lg, d)"
  shows "log_inv c lg d" and "lg_path lg = p"
  using run_ops_inv [OF load_inv(1) [OF assms(1-3)] assms(1,4)] load_inv(2) [OF assms(1-3)] by auto

lemma run_shows:
  assumes ok: "codec_ok c" "checksum_holds c" and p: "p \<noteq> []" and first: "load c p d0 = (d1, Inr lg0)"
    and run: "run_ops c ops lg0 d1 = (lg, d)"
  shows "file_shows c lg d (set (failures c ops lg0 d1))"
  using run_ops_shows [OF load_inv(1) [OF ok(1) p first] ok(1) run load_shows [OF ok p first]] by simp

text \<open>
  C1. Durability. Load any file, run any operations while any of their I/O calls fail, and load
  again. The second load gives the records and flags of the first, changed by every operation
  that reported success, in order, and by nothing else: save that a failed write whose bytes
  reached the file, and that no later write has yet cut away, may show as one operation more, and
  that operation is one of those that reported failure.
\<close>

theorem kvlog_durable:
  assumes ok: "codec_ok c" "checksum_holds c" and p: "p \<noteq> []"
    and first: "load c p d0 = (d1, Inr lg0)" and run: "run_ops c ops lg0 d1 = (lg, d)"
    and again: "load c p d = (d2, Inr lg2)"
  shows "state_of lg2 = fold (spec_step c) (succeeded c ops lg0 d1) (state_of lg0) \<or>
    lg_cut_owed lg \<and>
      (\<exists>x \<in> set (failures c ops lg0 d1).
        state_of lg2 = spec_step c x (fold (spec_step c) (succeeded c ops lg0 d1) (state_of lg0)))"
proof -
  have path: "lg_path lg = p" using run_ops_from_load(2) [OF ok(1) p first run] .
  have "state_of lg = fold (spec_step c) (succeeded c ops lg0 d1) (state_of lg0)"
    by (rule run_ops_refines [OF load_inv(1) [OF ok(1) p first] ok(1) run])
  then show ?thesis
    using reload_shown [OF ok _ run_shows [OF ok p first run], of d2 lg2] again p path by auto
qed

text \<open>
  A disk that loses the sync of the second write: the whole frame is in the file when the write
  reports its error.
\<close>

definition unsynced_disk :: disk where
  "unsynced_disk = demo_disk\<lparr>faults := replicate 9 None @ [Some 100]\<rparr>"

definition unsynced_ops :: "bytes log_op list" where
  "unsynced_ops = [Do_Upsert [97, 1], Do_Upsert [98, 2]]"

lemma unsynced_load:
  "load demo_codec demo_path (unsynced_disk\<lparr>faults := None # faults unsynced_disk\<rparr>) = (unsynced_disk, Inr demo_log)"
  by (simp add: load_def load_with_v1_def read_file_def unsynced_disk_def demo_disk_def content_def replay_Nil
      demo_checksum_holds demo_log_def)

lemma unsynced_run:
  "case run_ops demo_codec unsynced_ops demo_log unsynced_disk of (lg, d) \<Rightarrow>
     succeeded demo_codec unsynced_ops demo_log unsynced_disk = [Do_Upsert [97, 1]] \<and>
     failures demo_codec unsynced_ops demo_log unsynced_disk = [Do_Upsert [98, 2]] \<and>
     faults d = [] \<and>
     (case replay demo_codec (dec_frame demo_codec) True (file_of d demo_path) of
        Inl e \<Rightarrow> False | Inr r \<Rightarrow> hget (rp_records r) ''b'' = Some [98, 2])"
  by code_simp

lemma kvlog_durable_witness:
  "\<exists>lg d d2 lg2. run_ops demo_codec unsynced_ops demo_log unsynced_disk = (lg, d) \<and>
     load demo_codec demo_path d = (d2, Inr lg2) \<and> lg_cut_owed lg \<and>
     state_of lg2 = spec_step demo_codec (Do_Upsert [98, 2])
       (spec_step demo_codec (Do_Upsert [97, 1]) (state_of demo_log))"
proof -
  obtain lg d where run: "run_ops demo_codec unsynced_ops demo_log unsynced_disk = (lg, d)" by fastforce
  obtain r where out: "succeeded demo_codec unsynced_ops demo_log unsynced_disk = [Do_Upsert [97, 1]]"
    "failures demo_codec unsynced_ops demo_log unsynced_disk = [Do_Upsert [98, 2]]" "faults d = []"
    and r: "replay demo_codec (dec_frame demo_codec) True (file_of d demo_path) = Inr r"
    and b: "hget (rp_records r) ''b'' = Some [98, 2]"
    using unsynced_run unfolding run prod.case
    by (cases "replay demo_codec (dec_frame demo_codec) True (file_of d demo_path)") auto
  obtain d2 lg2 where ld: "load demo_codec demo_path d = (d2, Inr lg2)"
    using load_no_fault [OF out(3), of demo_codec "dec_frame demo_codec" demo_path r] r demo_checksum_holds
    by (auto simp: load_def)
  have p: "demo_path \<noteq> []" by (simp add: demo_path_def)
  obtain found where "replay demo_codec (dec_frame demo_codec) True (file_of d demo_path) = Inr found"
    "lg_records lg2 = rp_records found"
    using load_cases [OF demo_codec_ok p ld [unfolded load_def]] demo_checksum_holds by metis
  then have "fst (state_of lg2) ''b'' = Some [98, 2]"
    using r b by (simp add: state_of_def records_of_def)
  moreover have "key_of demo_codec [97, 1] = ''a''" by code_simp
  then have "fst (spec_step demo_codec (Do_Upsert [97, 1]) (state_of demo_log)) ''b'' = None"
    by (simp add: spec_step_def state_of_def records_of_def demo_log_def)
  ultimately have "state_of lg2 \<noteq> spec_step demo_codec (Do_Upsert [97, 1]) (state_of demo_log)" by force
  with kvlog_durable [OF demo_codec_ok demo_checksum_holds p unsynced_load run ld]
  show ?thesis unfolding out using run ld by simp
qed

text \<open>
  C15. Atomicity. Any operation on any log may fail, or the process may die, at any of its I/O
  calls. The reload that follows finds the state the operation promises, and otherwise, only when
  the operation failed, the state before it: never a mixture. While an earlier failed write is
  still owed its cut and the operation left the file and the state alone, what shows instead may
  be that earlier write, whole, on the state before.
\<close>

theorem kvlog_crash_atomic:
  assumes ok: "codec_ok c" "checksum_holds c" and p: "p \<noteq> []"
    and first: "load c p d0 = (d1, Inr lg0)" and run: "run_ops c ops lg0 d1 = (lg, d)"
    and last: "run_op c x lg d = (lg', d', err)"
    and again: "load c p d' = (d2, Inr lg2)"
  shows "state_of lg2 = spec_step c x (state_of lg) \<or>
    err \<noteq> None \<and> state_of lg2 = state_of lg \<or>
    lg_cut_owed lg \<and> state_of lg' = state_of lg \<and> file_of d' p = file_of d p \<and>
      (\<exists>y \<in> set (failures c ops lg0 d1). state_of lg2 = spec_step c y (state_of lg))"
proof -
  have inv: "log_inv c lg d" and path: "lg_path lg = p"
    using run_ops_from_load [OF ok(1) p first run] .
  note step = run_op_cases [OF inv ok(1) last]
  have mem: "state_of lg' = (if err = None then spec_step c x (state_of lg) else state_of lg)"
    using step by (cases err) (auto simp: state_of_def spec_step_def)
  note shown = reload_shown [OF ok, of lg' d' _ d2 lg2]
  from inv ok(1) last show ?thesis
  proof (cases rule: run_op_file)
    case same
    then have "file_shows c lg' d' (set (failures c ops lg0 d1))"
      using file_shows_cong [OF run_shows [OF ok p first run]] step by blast
    then show ?thesis using shown [OF _ _] same mem again p path step by (auto split: if_splits)
  next
    case settled
    then have "file_shows c lg' d' {}" using file_shows_settled step by blast
    then show ?thesis using shown [OF _ _] mem again p path step by (auto split: if_splits)
  next
    case torn
    then show ?thesis using shown [OF _ _] mem again p path step by (auto split: if_splits)
  qed
qed

text \<open>A disk whose third write call leaves five bytes and fails.\<close>

definition torn_disk :: disk where
  "torn_disk = demo_disk\<lparr>faults := [None, None, None, None, Some 5]\<rparr>"

lemma torn_run:
  "case run_op demo_codec (Do_Upsert [97, 1]) demo_log torn_disk of (lg, d, err) \<Rightarrow>
     err \<noteq> None \<and> file_of d demo_path = take 5 file_header \<and> faults d = [] \<and>
     \<not> isl (replay demo_codec (dec_frame demo_codec) True (file_of d demo_path))"
  by code_simp

lemma torn_load: "load demo_codec demo_path (torn_disk\<lparr>faults := None # faults torn_disk\<rparr>) = (torn_disk, Inr demo_log)"
  by (simp add: load_def load_with_v1_def read_file_def torn_disk_def demo_disk_def content_def replay_Nil
      demo_checksum_holds demo_log_def)

lemma kvlog_crash_atomic_witness:
  "\<exists>lg d err d2 lg2. run_op demo_codec (Do_Upsert [97, 1]) demo_log torn_disk = (lg, d, err) \<and> err \<noteq> None \<and>
     load demo_codec demo_path d = (d2, Inr lg2) \<and>
     (state_of lg2 = spec_step demo_codec (Do_Upsert [97, 1]) (state_of demo_log) \<or>
      state_of lg2 = state_of demo_log)"
proof -
  obtain lg d err where run: "run_op demo_codec (Do_Upsert [97, 1]) demo_log torn_disk = (lg, d, err)"
    by (metis prod_cases3)
  then have err: "err \<noteq> None" and "faults d = []"
    and "\<not> isl (replay demo_codec (dec_frame demo_codec) True (file_of d demo_path))"
    using torn_run unfolding run prod.case by blast+
  then obtain d2 lg2 where ld: "load demo_codec demo_path d = (d2, Inr lg2)"
    using load_no_fault [of d demo_codec "dec_frame demo_codec" demo_path] demo_checksum_holds
    by (cases "replay demo_codec (dec_frame demo_codec) True (file_of d demo_path)") (auto simp: load_def)
  have "demo_path \<noteq> []" by (simp add: demo_path_def)
  from kvlog_crash_atomic [OF demo_codec_ok demo_checksum_holds this torn_load run_ops.simps(1) run ld]
  show ?thesis using run ld err by (auto simp: demo_log_def)
qed

text \<open>
  Compaction. It never refuses its own image: the checked rewrite always replays to the
  state in memory. When it succeeds the file holds exactly that state with nothing after it;
  when it fails the log and its file are as they were.
\<close>

theorem kvlog_compaction:
  assumes ok: "codec_ok c" and inv: "log_inv c lg d" and run: "compact c lg d = (lg', d', res)"
  shows "res \<noteq> Inl ImageMismatch \<and> state_of lg' = state_of lg \<and>
    (case res of
       Inl e \<Rightarrow> lg' = lg \<and> content d' (lg_path lg) = content d (lg_path lg)
     | Inr _ \<Rightarrow> \<not> lg_cut_owed lg' \<and> \<not> lg_removed lg' \<and>
         (\<exists>r. clean_file c (file_of d' (lg_path lg)) r \<and> map_of (rp_records r) = records_of lg \<and>
              set (rp_tombstoned r) = flags_of lg))"
  using log_inv_wf [OF inv] ok run
proof (cases rule: compact_cases)
  case (failed e)
  have "lg_path lg \<noteq> []" using inv by (simp add: log_inv_def log_wf_def)
  then show ?thesis using failed temp_path_neq [of "lg_path lg"] by simp
next
  case (compacted img)
  have p: "lg_path lg \<noteq> []" using inv by (simp add: log_inv_def log_wf_def)
  obtain r where "clean_file c img r" "map_of (rp_records r) = records_of lg"
    "set (rp_tombstoned r) = flags_of lg"
    using image_log_replays [OF log_inv_wf [OF inv] ok compacted(2)]
    by (auto simp: records_of_def flags_of_def)
  moreover have "file_of d' (lg_path lg) = img"
    using compacted(5) temp_path_neq [OF p] by (simp add: file_of_def)
  ultimately show ?thesis
    using compacted by (auto simp: state_of_def records_of_def flags_of_def)
qed

lemma demo_compacts:
  "case run_ops demo_codec demo_ops demo_log demo_disk of (lg, d) \<Rightarrow>
     (case compact demo_codec lg d of (_, _, res) \<Rightarrow> res = Inr ())"
  by code_simp

lemma kvlog_compaction_witness:
  "\<exists>lg d lg' d'. run_ops demo_codec demo_ops demo_log demo_disk = (lg, d) \<and>
     compact demo_codec lg d = (lg', d', Inr ()) \<and> state_of lg' = state_of lg \<and> \<not> lg_removed lg'"
proof -
  obtain lg d where run: "run_ops demo_codec demo_ops demo_log demo_disk = (lg, d)" by fastforce
  obtain lg' d' res where cmp: "compact demo_codec lg d = (lg', d', res)" by (metis prod_cases3)
  have res: "res = Inr ()" using demo_compacts unfolding run prod.case cmp .
  have "demo_path \<noteq> []" by (simp add: demo_path_def)
  note inv = run_ops_from_load(1) [OF demo_codec_ok this demo_load run]
  from kvlog_compaction [OF demo_codec_ok inv cmp] show ?thesis using run cmp res by auto
qed

text \<open>Bytes nothing can be read from: all zero, or no frame that passes its checksum in them.\<close>

definition worthless :: "'t codec \<Rightarrow> log_format \<Rightarrow> bytes \<Rightarrow> bool" where
  "worthless c fmt cut_bytes \<longleftrightarrow>
     (\<forall>b \<in> set cut_bytes. b = 0) \<or>
     (if fmt = V1 then length cut_bytes < v1_frame_header_len
      else \<forall>i < length cut_bytes. v2_frame_at c (drop i cut_bytes) = None)"

lemma classify_worthless:
  assumes "\<nexists>n. classify c fmt rest = Unreadable n" and "fmt \<noteq> Empty"
  shows "worthless c fmt rest"
  using assms
  by (cases fmt)
     (auto simp: classify_def worthless_def Let_def list_all_iff list_ex_iff
       simp del: not_None_eq split: if_splits)

lemma replay_tail:
  "replay c v1 verify bs = Inr r \<Longrightarrow> rp_tail r = classify c (rp_format r) (drop (rp_good_end r) bs)"
  by (auto simp: replay_def Let_def split: sum.splits prod.splits)

text \<open>
  Repair loses nothing readable. If a load changed the file, the bytes it cut were worthless
  (empty, all zero, or holding no frame that passes its checksum at any offset) or they are
  now, byte for byte, in the copy beside the log; a file whose checksums cannot be trusted on
  this device is never changed at all.
\<close>

theorem kvlog_load_keeps_unreadable:
  assumes ok: "codec_ok c" and p: "p \<noteq> []" and run: "load_with_v1 c v1 p d = (d', Inr lg)"
    and changed: "file_of d' p \<noteq> file_of d p"
  shows "\<exists>found cut_bytes. checksum_holds c \<and> replay c v1 True (file_of d p) = Inr found \<and>
    file_of d p = take (rp_good_end found) (file_of d p) @ cut_bytes \<and>
    (worthless c (rp_format found) cut_bytes \<or>
     content d' (aside_path c lg (rp_good_end found) cut_bytes) = Some cut_bytes)"
proof -
  obtain found where rep: "replay c v1 (checksum_holds c) (file_of d p) = Inr found"
    and out: "file_of d' p = file_of d p \<or> (checksum_holds c \<and> ((\<nexists>n. rp_tail found = Unreadable n) \<or>
        content d' (aside_path c lg (rp_good_end found) (drop (rp_good_end found) (file_of d p)))
          = Some (drop (rp_good_end found) (file_of d p))))"
    using load_cases [OF ok p run] by metis
  let ?cut = "drop (rp_good_end found) (file_of d p)"
  have "worthless c (rp_format found) ?cut" if "\<nexists>n. rp_tail found = Unreadable n"
  proof (cases "rp_format found = Empty")
    case True
    then show ?thesis using replay_Empty(1) [OF rep] by (simp add: worthless_def)
  next
    case False
    then show ?thesis using classify_worthless [of c "rp_format found" ?cut] that replay_tail [OF rep] by simp
  qed
  then show ?thesis
    using out changed rep by (intro exI [of _ found] exI [of _ ?cut]) auto
qed

text \<open>A file whose one frame is followed by a damaged frame and a whole one.\<close>

definition damaged_file :: bytes where
  "damaged_file = file_header @ frame_bytes demo_codec [0, 97] @ [9, 0, 0, 0, 1, 1, 1, 1, 7] @
     frame_bytes demo_codec [0, 98]"

definition damaged_disk :: disk where
  "damaged_disk = put_file demo_path damaged_file demo_disk"

lemma damaged_replay:
  "case replay demo_codec (dec_frame demo_codec) True damaged_file of
     Inl e \<Rightarrow> False
   | Inr r \<Rightarrow> rp_tail r = Unreadable 19 \<and> rp_good_end r = 18 \<and> rp_format r = V2 \<and> 
       rp_records r = [(''a'', [97])] \<and> rp_tombstoned r = [] \<and> \<not> rp_removed r"
  by code_simp

lemma damaged_repair:
  "case replay demo_codec (dec_frame demo_codec) True damaged_file of
     Inl e \<Rightarrow> False
   | Inr r \<Rightarrow> (case repaired demo_codec demo_path damaged_file r damaged_disk of
       (d, Inl e) \<Rightarrow> False | (d, Inr lg) \<Rightarrow> file_of d demo_path = take 18 damaged_file)"
  by code_simp

lemma damaged_load:
  "\<exists>d lg. load_with_v1 demo_codec (dec_frame demo_codec) demo_path damaged_disk = (d, Inr lg) \<and>
     file_of d demo_path = take 18 damaged_file"
proof -
  obtain r where r: "replay demo_codec (dec_frame demo_codec) True damaged_file = Inr r"
    using damaged_repair by (cases "replay demo_codec (dec_frame demo_codec) True damaged_file") auto
  obtain d res where rp: "repaired demo_codec demo_path damaged_file r damaged_disk = (d, res)" by fastforce
  obtain lg where "res = Inr lg" "file_of d demo_path = take 18 damaged_file"
    using damaged_repair r rp by (cases res) auto
  moreover have "load_with_v1 demo_codec (dec_frame demo_codec) demo_path damaged_disk = (d, res)"
    using r rp
    by (simp add: load_with_v1_steps read_file_def damaged_disk_def demo_disk_def after_read_def
        demo_checksum_holds)
  ultimately show ?thesis by blast
qed

lemma kvlog_load_keeps_unreadable_witness:
  "\<exists>d lg found cut_bytes. load_with_v1 demo_codec (dec_frame demo_codec) demo_path damaged_disk = (d, Inr lg) \<and>
     replay demo_codec (dec_frame demo_codec) True damaged_file = Inr found \<and>
     damaged_file = take (rp_good_end found) damaged_file @ cut_bytes \<and>
     (worthless demo_codec (rp_format found) cut_bytes \<or>
      content d (aside_path demo_codec lg (rp_good_end found) cut_bytes) = Some cut_bytes)"
proof -
  obtain d lg where ld: "load_with_v1 demo_codec (dec_frame demo_codec) demo_path damaged_disk = (d, Inr lg)"
    and f: "file_of d demo_path = take 18 damaged_file" using damaged_load by blast
  have f0: "file_of damaged_disk demo_path = damaged_file" by (simp add: damaged_disk_def)
  have "length damaged_file = 37" by (simp add: damaged_file_def)
  then have "length (take 18 damaged_file) \<noteq> length damaged_file" by simp
  then have changed: "file_of d demo_path \<noteq> file_of damaged_disk demo_path" using f f0 by metis
  have "demo_path \<noteq> []" by (simp add: demo_path_def)
  from kvlog_load_keeps_unreadable [OF demo_codec_ok this ld changed] show ?thesis
    unfolding f0 using ld by blast
qed

text \<open>
  A held log is read only. No operation on it touches the disk or the records in memory,
  and none reports success unless it asked for the state the log already has.
\<close>

theorem kvlog_held_never_writes:
  assumes ok: "codec_ok c" and wf: "log_wf c lg" and held: "lg_held lg = Some why"
    and run: "run_op c x lg d = (lg', d', err)"
  shows "lg' = lg \<and> d' = d \<and> (err = None \<longrightarrow> spec_step c x (state_of lg) = state_of lg)"
proof -
  have inv: "log_inv c lg d" using wf held by (simp add: log_inv_def)
  have refuse: "append_log c lg d body = (lg, d, Inl (ReadOnly why))" for body
    by (simp add: append_log_def refuse_if_held_def held)
  have same: "lg' = lg \<and> d' = d"
    using run held refuse
    by (cases x)
       (auto simp: upsert_def remove_def tombstone_def untombstone_def wipe_def compact_def
         refuse_if_held_def Let_def split: option.splits sum.splits if_splits prod.splits)
  moreover have "spec_step c x (state_of lg) = state_of lg" if "err = None"
    using run_op_cases [OF inv ok run] same that by (auto simp: state_of_def spec_step_def)
  ultimately show ?thesis by blast
qed

lemma kvlog_held_never_writes_witness:
  "\<exists>err. run_op demo_codec (Do_Upsert [97, 1]) (demo_log\<lparr>lg_held := Some ''why''\<rparr>) demo_disk =
     (demo_log\<lparr>lg_held := Some ''why''\<rparr>, demo_disk, err)"
proof -
  let ?lg = "demo_log\<lparr>lg_held := Some ''why''\<rparr>"
  obtain lg d err where run: "run_op demo_codec (Do_Upsert [97, 1]) ?lg demo_disk = (lg, d, err)"
    by (metis prod_cases3)
  have wf: "log_wf demo_codec ?lg" by (simp add: log_wf_def demo_log_def demo_path_def)
  from kvlog_held_never_writes [OF demo_codec_ok wf _ run] run show ?thesis by simp
qed

text \<open>
  A load that fails changes nothing on the disk, and fails for one of two reasons: the file
  could not be read, or its header names a version this code does not know.
\<close>

theorem kvlog_load_error:
  assumes "load c p d = (d', Inl e)"
  shows "content d' = content d \<and>
    (e = Io OtherError \<or>
     (\<exists>v. e = NewerVersion v \<and> v \<noteq> version \<and> take 4 (file_of d p) = magic \<and>
        of_le_bytes (take 4 (drop 4 (file_of d p))) = v))"
proof -
  obtain d1 got where rd: "read_file p d = (d1, got)" by fastforce
  have c1: "content d1 = content d" by (rule read_file_content [OF rd])
  have start: "replay_start bs = Inl e' \<Longrightarrow> \<exists>v. e' = NewerVersion v \<and> v \<noteq> version \<and> take 4 bs = magic \<and>
      of_le_bytes (take 4 (drop 4 bs)) = v" for bs e'
    by (auto simp: replay_start_def Let_def split: if_splits)
  have rep: "replay c v1 verify bs = Inl e' \<Longrightarrow> replay_start bs = Inl e'" for v1 verify bs e'
    by (auto simp: replay_def Let_def split: sum.splits prod.splits)
  show ?thesis
  proof (cases got)
    case (Inr bs)
    with rd have bs: "file_of d p = bs" using read_file_Inr by (fastforce simp: file_of_def)
    from assms rd Inr have "after_read c (dec_frame c) p bs d1 = (d', Inl e)"
      by (simp add: load_def load_with_v1_steps)
    from after_read_Inl [OF this] show ?thesis using start rep c1 bs by blast
  next
    case (Inl k)
    show ?thesis
    proof (cases k)
      case NotFound
      from assms rd Inl NotFound have "after_read c (dec_frame c) p [] d1 = (d', Inl e)"
        by (simp add: load_def load_with_v1_steps)
      from after_read_Inl [OF this] show ?thesis by (simp add: replay_Nil)
    next
      case InvalidInput
      then show ?thesis using rd Inl unfolding read_file_def by (auto elim!: io_tryE split: option.splits)
    next
      case OtherError
      then show ?thesis using assms rd Inl c1 by (simp add: load_def load_with_v1_steps)
    qed
  qed
qed

lemma kvlog_load_error_witness:
  "\<exists>d' e. load demo_codec demo_path (put_file demo_path (magic @ [3, 0, 0, 0]) demo_disk) = (d', Inl e) \<and>
     content d' demo_path = Some (magic @ [3, 0, 0, 0]) \<and> (e = Io OtherError \<or> (\<exists>v. e = NewerVersion v))"
proof -
  let ?d = "put_file demo_path (magic @ [3, 0, 0, 0]) demo_disk"
  have "replay_start (magic @ [3, 0, 0, 0]) = Inl (NewerVersion 3)" by code_simp
  then have ld: "load demo_codec demo_path ?d = (?d, Inl (NewerVersion 3))"
    by (simp add: load_def load_with_v1_steps read_file_def demo_disk_def after_read_def replay_def)
  from kvlog_load_error [OF ld] show ?thesis using ld by auto
qed

lemma cut_and_write_no_fault:
  assumes "faults d = []" and "lg_end lg \<le> length bs" and "\<not> lg_cut_owed lg \<Longrightarrow> length bs = lg_end lg"
  shows "\<exists>lg' d'. cut_and_write lg bs buf d = (lg', d', Inr ())"
proof (cases "length bs = lg_end lg")
  case True
  with assms(1) show ?thesis by (simp add: cut_and_write_def write_frame_def)
next
  case False
  then have "lg_cut_owed lg" and "lg_end lg < length bs" using assms(2,3) by auto
  with assms(1) show ?thesis by (simp add: cut_and_write_def write_frame_def Let_def)
qed

lemma append_log_no_fault:
  assumes inv: "log_inv c lg d" and f: "faults d = []" and held: "lg_held lg = None"
    and body: "length body < 2 ^ 32"
  shows "\<exists>lg' d'. append_log c lg d body = (lg', d', Inr ())"
proof -
  let ?bs = "file_of d (lg_path lg)"
  have le: "lg_end lg \<le> length ?bs" and cut: "\<not> lg_cut_owed lg \<Longrightarrow> length ?bs = lg_end lg"
    using inv held by (auto simp: log_inv_def)
  have "push_frame c (if lg_end lg = 0 then push_file_header [] else []) body = Inr (appended c (lg_end lg) body)"
    using body by (simp add: push_frame_appended)
  then have "append_log c lg d body =
      cut_and_write lg ?bs (appended c (lg_end lg) body) (put_file (lg_path lg) ?bs d)"
    using held f by (simp add: append_log_def refuse_if_held_def Let_def file_of_def)
  moreover have "faults (put_file (lg_path lg) ?bs d) = []" using f by simp
  ultimately show ?thesis
    using cut_and_write_no_fault [OF _ le cut, of "put_file (lg_path lg) ?bs d"] by simp
qed

text \<open>
  A write that meets no failure lands. On any log in use, whatever its history of torn
  writes, an upsert of a record that encodes within 4 GiB succeeds: an equal record already
  there is answered with no write at all, any other is stored and the file is whole again.
\<close>

theorem kvlog_upsert_lands:
  assumes ok: "codec_ok c" and inv: "log_inv c lg d" and held: "lg_held lg = None" and f: "faults d = []"
    and enc: "ser c r = Some bs" "length bs + 1 < 2 ^ 32"
    and old: "\<And>r'. hget (lg_records lg) (key_of c r) = Some r' \<Longrightarrow> ser c r' \<noteq> None"
    and run: "upsert c lg d (key_of c r) r = (lg', d', res)"
  shows "(hget (lg_records lg) (key_of c r) = Some r \<and> res = Inr False \<and> lg' = lg \<and> d' = d) \<or>
    (hget (lg_records lg) (key_of c r) \<noteq> Some r \<and> res = Inr True \<and> log_inv c lg' d' \<and> \<not> lg_cut_owed lg' \<and>
      state_of lg' = ((records_of lg)(key_of c r \<mapsto> r), flags_of lg))"
proof -
  let ?k = "key_of c r"
  have body: "upsert_body c r = Inr (0 # bs)" using enc by (simp add: upsert_body_def)
  obtain lg1 d1 where ap: "append_log c lg d (0 # bs) = (lg1, d1, Inr ())"
    using append_log_no_fault [OF inv f held, of "0 # bs"] enc by auto
  show ?thesis
  proof (cases "hget (lg_records lg) ?k = Some r")
    case True
    then have "res = Inr False" "lg' = lg" "d' = d" using run body by (simp_all add: upsert_def Let_def)
    with True show ?thesis by simp
  next
    case False
    have "\<exists>b. upsert_body c r' = Inr b \<and> b \<noteq> 0 # bs" if "hget (lg_records lg) ?k = Some r'" for r'
    proof -
      note enc' = old [OF that]
      then obtain b where "upsert_body c r' = Inr b"
        by (auto simp: upsert_body_def)
      moreover from this have "b \<noteq> 0 # bs" using upsert_body_inj [OF ok body, of r'] False that by auto
      ultimately show ?thesis by blast
    qed
    then have w: "res = Inr True" "lg' = lg1\<lparr>lg_records := hput ?k r (lg_records lg1)\<rparr>" "d' = d1"
      using run body ap by (auto simp: upsert_def Let_def split: option.splits)
    have o: "\<not> lg_cut_owed lg'" using append_log_owed [OF inv ap] w by simp
    from inv ok refl run show ?thesis
    proof (cases rule: upsert_cases)
      case written
      then show ?thesis using False o by (auto simp: state_of_def records_of_def flags_of_def fun_eq_iff)
    qed (use w in simp_all)
  qed
qed

lemma kvlog_upsert_lands_witness:
  "\<exists>lg d. upsert demo_codec demo_log demo_disk ''a'' [97, 1] = (lg, d, Inr True) \<and>
     state_of lg = ([''a'' \<mapsto> [97, 1]], {})"
proof -
  have key: "key_of demo_codec [97, 1] = ''a''" by code_simp
  obtain lg d res where run: "upsert demo_codec demo_log demo_disk (key_of demo_codec [97, 1]) [97, 1] = (lg, d, res)"
    by (metis prod_cases3)
  have "demo_path \<noteq> []" by (simp add: demo_path_def)
  note inv = load_inv(1) [OF demo_codec_ok this demo_load]
  have held: "lg_held demo_log = None" and f: "faults demo_disk = []"
    and enc: "ser demo_codec [97, 1] = Some [97, 1]" and len: "length [97, 1 :: byte] + 1 < 2 ^ 32"
    and old: "\<And>r'. hget (lg_records demo_log) (key_of demo_codec [97, 1]) = Some r' \<Longrightarrow> ser demo_codec r' \<noteq> None"
    by (simp_all add: demo_log_def demo_disk_def demo_codec_def)
  show ?thesis
    using kvlog_upsert_lands [OF demo_codec_ok inv held f enc len old run] run
    unfolding key by (auto simp: demo_log_def state_of_def records_of_def flags_of_def)
qed

end
