(* ===== verification/Fifo.thy ===== *)
theory Fifo
  imports Prelude
begin

text \<open>
  The bounded memories of the acceptance tracker (\<open>rust/chain/src/acceptance.rs\<close>: \<open>OffChain\<close>,
  \<open>MatchedMemory\<close> and the sender-interest queue) share one contract: no key twice, the oldest
  out first once the capacity is reached. The contract is the locale \<open>bounded_fifo\<close>, with what
  its users rely on proved once inside it; each memory interprets it.
\<close>

section \<open>The contract\<close>

locale bounded_fifo =
  fixes push :: "'k \<Rightarrow> 's \<Rightarrow> 's"
    and keys :: "'s \<Rightarrow> 'k list"
    and good :: "'s \<Rightarrow> bool"
    and cap :: nat
  assumes cap_pos: "0 < cap"
    and good_push: "good s \<Longrightarrow> good (push k s)"
    and good_bound: "good s \<Longrightarrow> length (keys s) \<le> cap"
    and good_distinct: "good s \<Longrightarrow> distinct (keys s)"
    and keys_push: "good s \<Longrightarrow> keys (push k s) =
      (if k \<in> set (keys s) then keys s else drop (Suc (length (keys s)) - cap) (keys s @ [k]))"
begin

lemma good_fold: "good s \<Longrightarrow> good (fold push ks s)"
  by (induction ks arbitrary: s) (auto simp: good_push)

lemma push_member: "good s \<Longrightarrow> k \<in> set (keys (push k s))"
proof (cases "k \<in> set (keys s)")
  case True
  then show "good s \<Longrightarrow> ?thesis" by (simp add: keys_push)
next
  case False
  assume g: "good s"
  have "Suc (length (keys s)) - cap \<le> length (keys s)" using cap_pos by simp
  then show ?thesis using False g by (simp add: keys_push)
qed

text \<open>How many keys came after \<open>k\<close>: its age.\<close>

definition age :: "'k \<Rightarrow> 's \<Rightarrow> nat" where
  "age k s = length (takeWhile (\<lambda>x. x \<noteq> k) (rev (keys s)))"

lemma age_alt: "keys s = xs @ k # ys \<Longrightarrow> k \<notin> set ys \<Longrightarrow> age k s = length ys"
  by (simp add: age_def) (subst takeWhile_append2, auto)

lemma push_age:
  assumes g: "good s" and k: "k \<in> set (keys s)" and young: "age k s + 1 < cap"
  shows "k \<in> set (keys (push j s)) \<and> age k (push j s) \<le> age k s + 1"
proof -
  obtain xs ys where split: "keys s = xs @ k # ys" "k \<notin> set ys"
    using k by (meson split_list_last)
  then have a: "age k s = length ys" by (rule age_alt)
  show ?thesis
  proof (cases "j \<in> set (keys s)")
    case True
    then show ?thesis using k g keys_push [OF g, of j] by (simp add: age_def)
  next
    case False
    let ?n = "Suc (length (keys s)) - cap"
    have n: "?n \<le> length xs" using young a split(1) by simp
    have keys: "keys (push j s) = drop ?n xs @ k # (ys @ [j])"
      using keys_push [OF g, of j] False split(1) n by simp
    have "k \<notin> set (ys @ [j])" using split(2) False k by auto
    then have "age k (push j s) = length (ys @ [j])" by (rule age_alt [OF keys])
    then show ?thesis using keys a by simp
  qed
qed

text \<open>A key just pushed outlives every run of fewer than \<open>cap\<close> later pushes.\<close>

lemma survives_age:
  "good s \<Longrightarrow> k \<in> set (keys s) \<Longrightarrow> age k s + length ks < cap \<Longrightarrow> k \<in> set (keys (fold push ks s))"
proof (induction ks arbitrary: s)
  case Nil
  then show ?case by simp
next
  case (Cons j ks)
  have "k \<in> set (keys (push j s)) \<and> age k (push j s) \<le> age k s + 1"
    using Cons.prems by (intro push_age) simp_all
  then show ?case using Cons.IH [of "push j s"] Cons.prems by (simp add: good_push)
qed

lemma newest_age: "good s \<Longrightarrow> k \<notin> set (keys s) \<Longrightarrow> age k (push k s) = 0"
proof -
  assume g: "good s" and new: "k \<notin> set (keys s)"
  have "Suc (length (keys s)) - cap \<le> length (keys s)" using cap_pos by simp
  then have "keys (push k s) = drop (Suc (length (keys s)) - cap) (keys s) @ k # []"
    using keys_push [OF g, of k] new by simp
  then have "age k (push k s) = length ([] :: 'k list)" by (rule age_alt) simp
  then show ?thesis by simp
qed

lemma survives:
  "good s \<Longrightarrow> k \<notin> set (keys s) \<Longrightarrow> length ks < cap \<Longrightarrow> k \<in> set (keys (fold push ks (push k s)))"
  using survives_age [OF good_push [of s k] push_member [of s k], of ks] newest_age [of s k] by simp

end

section \<open>Chain blocks the live stream took off the chain\<close>

definition off_chain_capacity :: nat where
  "off_chain_capacity = 4096"

record off_chain =
  oc_order :: "string list"
  oc_set :: "string hset"

definition no_off_chain :: off_chain where
  "no_off_chain = \<lparr>oc_order = [], oc_set = []\<rparr>"

definition oc_removed :: "string \<Rightarrow> off_chain \<Rightarrow> off_chain" where
  "oc_removed block oc =
     (if block \<in> set (oc_set oc) then oc
      else let oc = oc\<lparr>oc_set := hset_insert block (oc_set oc), oc_order := oc_order oc @ [block]\<rparr> in
           if length (oc_order oc) > off_chain_capacity then
             (case oc_order oc of
                [] \<Rightarrow> oc
              | oldest # rest \<Rightarrow> oc\<lparr>oc_order := rest, oc_set := hset_remove oldest (oc_set oc)\<rparr>)
           else oc)"

definition oc_added :: "string \<Rightarrow> off_chain \<Rightarrow> off_chain" where
  "oc_added block oc =
     (if block \<in> set (oc_set oc) then
        oc\<lparr>oc_set := hset_remove block (oc_set oc), oc_order := filter (\<lambda>b. b \<noteq> block) (oc_order oc)\<rparr>
      else oc)"

definition oc_contains :: "off_chain \<Rightarrow> string \<Rightarrow> bool" where
  "oc_contains oc block \<longleftrightarrow> block \<in> set (oc_set oc)"

text \<open>The queue and the set hold the same blocks, once each.\<close>

definition oc_ok :: "off_chain \<Rightarrow> bool" where
  "oc_ok oc \<longleftrightarrow> set (oc_set oc) = set (oc_order oc) \<and> distinct (oc_order oc) \<and>
     length (oc_order oc) \<le> off_chain_capacity"

lemma oc_ok_empty [simp]: "oc_ok no_off_chain"
  by (simp add: oc_ok_def no_off_chain_def)

lemma off_chain_capacity_pos: "0 < off_chain_capacity"
  by (simp add: off_chain_capacity_def)

lemma oc_order_removed:
  assumes "oc_ok oc"
  shows "oc_order (oc_removed block oc) =
     (if block \<in> set (oc_order oc) then oc_order oc
      else drop (Suc (length (oc_order oc)) - off_chain_capacity) (oc_order oc @ [block]))"
proof (cases "block \<in> set (oc_order oc)")
  case True
  then show ?thesis using assms by (simp add: oc_ok_def oc_removed_def)
next
  case False
  show ?thesis
  proof (cases "length (oc_order oc) < off_chain_capacity")
    case True
    then show ?thesis using assms False by (simp add: oc_ok_def oc_removed_def Let_def)
  next
    case full: False
    then obtain x xs where "oc_order oc = x # xs"
      using off_chain_capacity_pos by (cases "oc_order oc") auto
    then show ?thesis using assms False full by (simp add: oc_ok_def oc_removed_def Let_def)
  qed
qed

lemma oc_ok_removed:
  assumes "oc_ok oc"
  shows "oc_ok (oc_removed block oc)"
proof (cases "block \<in> set (oc_order oc) \<or> length (oc_order oc) < off_chain_capacity")
  case True
  then show ?thesis
    using assms by (cases "block \<in> set (oc_order oc)") (simp_all add: oc_ok_def oc_removed_def Let_def)
next
  case False
  then obtain x xs where "oc_order oc = x # xs"
    using off_chain_capacity_pos by (cases "oc_order oc") auto
  then show ?thesis using assms False by (auto simp: oc_ok_def oc_removed_def Let_def)
qed

lemma oc_ok_added: "oc_ok oc \<Longrightarrow> oc_ok (oc_added block oc)"
  by (auto simp: oc_ok_def oc_added_def intro: order_trans [OF length_filter_le])

interpretation oc: bounded_fifo oc_removed oc_order oc_ok off_chain_capacity
proof unfold_locales
  show "0 < off_chain_capacity" by (rule off_chain_capacity_pos)
qed (auto simp: oc_ok_removed oc_order_removed, auto simp: oc_ok_def)

lemma oc_contains_added: "oc_contains (oc_added block oc) b \<longleftrightarrow> oc_contains oc b \<and> b \<noteq> block"
  by (auto simp: oc_contains_def oc_added_def)

lemma oc_contains_removed: "oc_ok oc \<Longrightarrow> oc_contains (oc_removed block oc) block"
  using oc.push_member [of oc block] oc_ok_removed [of oc block] by (auto simp: oc_contains_def oc_ok_def)

section \<open>Matched transactions no one watches yet\<close>

definition matched_memory_capacity :: nat where
  "matched_memory_capacity = 1024"

definition matched_eviction_log_every_ms :: nat where
  "matched_eviction_log_every_ms = 10 * 60 * 1000"

datatype remembered =
    RAccepted (ra_block: string) (ra_blue: nat) (ra_daa: nat) (ra_accepted_ms: nat)
  | RDisplaced (rd_since: nat) (rd_block: string)

record matched_memory =
  mm_order :: "string list"
  mm_map :: "(string, remembered) hmap"
  mm_evicted :: nat
  mm_logged_at :: nat

definition no_memory :: matched_memory where
  "no_memory = \<lparr>mm_order = [], mm_map = [], mm_evicted = 0, mm_logged_at = 0\<rparr>"

definition mm_get :: "matched_memory \<Rightarrow> string \<Rightarrow> remembered option" where
  "mm_get mm txid = hget (mm_map mm) txid"

definition mm_remember :: "string \<Rightarrow> remembered \<Rightarrow> nat \<Rightarrow> matched_memory \<Rightarrow> matched_memory" where
  "mm_remember txid remembered now mm =
     (let mm =
        (if hget (mm_map mm) txid \<noteq> None then mm
         else
           let mm = (if length (mm_order mm) < matched_memory_capacity then mm
                     else (case mm_order mm of
                             [] \<Rightarrow> mm
                           | oldest # rest \<Rightarrow>
                               let mm = mm\<lparr>mm_order := rest, mm_map := hdel oldest (mm_map mm),
                                           mm_evicted := mm_evicted mm + 1\<rparr> in
                               if now - mm_logged_at mm \<ge> matched_eviction_log_every_ms
                               then mm\<lparr>mm_evicted := 0, mm_logged_at := now\<rparr> else mm))
           in mm\<lparr>mm_order := mm_order mm @ [txid]\<rparr>)
      in mm\<lparr>mm_map := hput txid remembered (mm_map mm)\<rparr>)"

definition mm_displaced :: "string list \<Rightarrow> nat \<Rightarrow> remembered \<Rightarrow> remembered" where
  "mm_displaced removed now r =
     (case r of
        RAccepted block _ _ _ \<Rightarrow> if block \<in> set removed then RDisplaced now block else r
      | RDisplaced _ _ \<Rightarrow> r)"

definition mm_displace :: "string list \<Rightarrow> nat \<Rightarrow> matched_memory \<Rightarrow> matched_memory" where
  "mm_displace removed now mm = mm\<lparr>mm_map := map (\<lambda>(k, r). (k, mm_displaced removed now r)) (mm_map mm)\<rparr>"

definition mm_ok :: "matched_memory \<Rightarrow> bool" where
  "mm_ok mm \<longleftrightarrow> set (hkeys (mm_map mm)) = set (mm_order mm) \<and> hmap_ok (mm_map mm) \<and>
     distinct (mm_order mm) \<and> length (mm_order mm) \<le> matched_memory_capacity"

lemma mm_ok_empty [simp]: "mm_ok no_memory"
  by (simp add: mm_ok_def no_memory_def)

lemma hkeys_hput: "fst ` set (hput k v m) = insert k (fst ` set m)"
  using dom_update [of k v m] by simp

lemma hkeys_hdel: "fst ` set (hdel k m) = fst ` set m - {k}"
  using arg_cong [OF delete_keys [of k m], of set] by simp

lemma matched_memory_capacity_pos: "0 < matched_memory_capacity"
  by (simp add: matched_memory_capacity_def)

lemma mm_known: "mm_ok mm \<Longrightarrow> hget (mm_map mm) k = None \<longleftrightarrow> k \<notin> set (mm_order mm)"
  by (auto simp: mm_ok_def map_of_eq_None_iff)

lemma mm_order_remember:
  assumes "mm_ok mm"
  shows "mm_order (mm_remember k r now mm) =
     (if k \<in> set (mm_order mm) then mm_order mm
      else drop (Suc (length (mm_order mm)) - matched_memory_capacity) (mm_order mm @ [k]))"
proof (cases "k \<in> set (mm_order mm) \<or> length (mm_order mm) < matched_memory_capacity")
  case True
  then show ?thesis using mm_known [OF assms, of k] by (auto simp: mm_remember_def Let_def)
next
  case False
  then obtain x xs where "mm_order mm = x # xs"
    using matched_memory_capacity_pos by (cases "mm_order mm") auto
  moreover have "length (mm_order mm) \<le> matched_memory_capacity" using assms by (simp add: mm_ok_def)
  ultimately show ?thesis
    using False mm_known [OF assms, of k] by (auto simp: mm_remember_def Let_def)
qed

lemma mm_map_remember:
  "mm_map (mm_remember k r now mm) = hput k r
     (if hget (mm_map mm) k \<noteq> None \<or> length (mm_order mm) < matched_memory_capacity then mm_map mm
      else (case mm_order mm of [] \<Rightarrow> mm_map mm | x # _ \<Rightarrow> hdel x (mm_map mm)))"
  by (cases "mm_order mm") (simp_all add: mm_remember_def Let_def)

lemma mm_ok_remember:
  assumes ok: "mm_ok mm"
  shows "mm_ok (mm_remember k r now mm)"
proof -
  have len: "length (mm_order mm) \<le> matched_memory_capacity" and d: "distinct (mm_order mm)"
    and keys: "fst ` set (mm_map mm) = set (mm_order mm)" and h: "hmap_ok (mm_map mm)"
    using ok by (simp_all add: mm_ok_def)
  note map = mm_map_remember [of k r now mm] and order = mm_order_remember [OF ok, of k r now]
  consider (known) "k \<in> set (mm_order mm)"
    | (space) "k \<notin> set (mm_order mm)" "length (mm_order mm) < matched_memory_capacity"
    | (full) x xs where "k \<notin> set (mm_order mm)" "length (mm_order mm) = matched_memory_capacity" "mm_order mm = x # xs"
    using len matched_memory_capacity_pos by (cases "mm_order mm") force+
  then show ?thesis
  proof cases
    case known
    then have "hget (mm_map mm) k \<noteq> None" using mm_known [OF ok] by simp
    then show ?thesis
      using map order known h len d keys by (simp add: mm_ok_def hkeys_hput insert_absorb)
  next
    case space
    then have "hget (mm_map mm) k = None" using mm_known [OF ok] by simp
    then show ?thesis using map order space h d keys by (simp add: mm_ok_def hkeys_hput)
  next
    case full
    then have "hget (mm_map mm) k = None" using mm_known [OF ok] by simp
    moreover have "set (mm_order mm) - {x} = set xs" using full d by auto
    ultimately show ?thesis
      using map order full h d keys by (auto simp: mm_ok_def hkeys_hput hkeys_hdel)
  qed
qed

lemma mm_ok_displace: "mm_ok mm \<Longrightarrow> mm_ok (mm_displace removed now mm)"
  by (simp add: mm_ok_def mm_displace_def hmap_ok_def comp_def case_prod_unfold)

interpretation mm: bounded_fifo "\<lambda>k. mm_remember k (f k) now" mm_order mm_ok matched_memory_capacity
  for f :: "string \<Rightarrow> remembered" and now :: nat
proof unfold_locales
  show "0 < matched_memory_capacity" by (rule matched_memory_capacity_pos)
qed (auto simp: mm_ok_remember mm_order_remember, auto simp: mm_ok_def)

section \<open>Senders to be named\<close>

definition sender_interest_capacity :: nat where
  "sender_interest_capacity = 256"

text \<open>The queue's own rule, once a lookup has not answered the interest at once.\<close>

definition interest_push :: "string \<Rightarrow> string list \<Rightarrow> string list" where
  "interest_push txid q =
     (if txid \<in> set q then q
      else (if length q \<ge> sender_interest_capacity then drop 1 q else q) @ [txid])"

definition interest_ok :: "string list \<Rightarrow> bool" where
  "interest_ok q \<longleftrightarrow> distinct q \<and> length q \<le> sender_interest_capacity"

interpretation interest: bounded_fifo interest_push "\<lambda>q. q" interest_ok sender_interest_capacity
proof unfold_locales
  fix k q assume ok: "interest_ok q"
  then show "interest_ok (interest_push k q)"
    by (cases q) (auto simp: interest_ok_def interest_push_def sender_interest_capacity_def)
  show "interest_push k q = (if k \<in> set q then q else drop (Suc (length q) - sender_interest_capacity) (q @ [k]))"
    using ok by (cases q) (auto simp: interest_ok_def interest_push_def sender_interest_capacity_def)
qed (auto simp: interest_ok_def sender_interest_capacity_def)

end
