(* ===== verification/Acceptance_State.thy ===== *)
theory Acceptance_State
  imports Kvlog_Crash Fifo
begin

text \<open>
  The pure fold of the acceptance tracker (\<open>rust/chain/src/acceptance.rs\<close>, \<open>TrackerState\<close>):
  the watched transactions, what one batch of chain facts does to them, the sweeps over them
  and the status a consumer reads. A clock reading is an argument, as in the code.

  A block hash is its printed form, a transaction id the same. The borsh codec of
  \<open>WatchRecord\<close> and the two mainnet parameters the pruning horizon is computed from come from
  libraries: they are fields of \<open>acc_env\<close>, with the directory the tracker keeps its files in. A log line and a latency mark change no state
  here and are left out.
\<close>

section \<open>Constants and records\<close>

definition tombstone_window_ms :: nat where "tombstone_window_ms = 120000"
definition stall_after_ms :: nat where "stall_after_ms = 60000"
definition confirmed_depth_blue :: nat where "confirmed_depth_blue = 1000"
definition terminal_depth_blue :: nat where "terminal_depth_blue = 2000"
definition watch_cap :: nat where "watch_cap = 512"

datatype watch_source = Send | Transport

datatype persisted_status =
    P_Submitted (submit_ok_ms: nat)
  | P_Accepted (p_block: string) (p_blue: nat) (p_ms: nat)
  | P_Displaced (p_since: nat) (p_prior: string)
  | P_Finalized (p_block: string) (p_blue: nat) (p_ms: nat)

record watch_record =
  wr_txid :: string
  wr_source :: watch_source
  wr_watched_ms :: nat
  wr_status :: persisted_status

datatype tx_status =
    T_Submitted
  | T_Accepted nat nat
  | T_Confirmed nat nat
  | T_Displaced
  | T_Stalled nat

datatype acceptance_event =
    E_Accepted string
  | E_Confirmed string nat
  | E_Displaced string
  | E_DisplacedElapsed string
  | E_SenderResolvable string nat
  | E_Stalled string nat

record acc_env =
  ae_codec :: "watch_record codec"
  ae_pruning_depth :: nat
  ae_target_time :: nat
  ae_dir :: path

definition env_ok :: "acc_env \<Rightarrow> bool" where
  "env_ok E \<longleftrightarrow> codec_ok (ae_codec E) \<and> key_of (ae_codec E) = wr_txid"

definition pruning_horizon_ms :: "acc_env \<Rightarrow> nat" where
  "pruning_horizon_ms E = ae_pruning_depth E * ae_target_time E"

record fold_result =
  fo_events :: "acceptance_event list"
  fo_failed :: "kv_error option"

definition empty_fold :: fold_result where
  "empty_fold = \<lparr>fo_events = [], fo_failed = None\<rparr>"

definition fold_into_result :: "fold_result \<Rightarrow> kv_error + acceptance_event list" where
  "fold_into_result f = (case fo_failed f of Some e \<Rightarrow> Inl e | None \<Rightarrow> Inr (fo_events f))"

definition fold_failed :: "kv_error \<Rightarrow> fold_result \<Rightarrow> fold_result" where
  "fold_failed e f = (if fo_failed f = None then f\<lparr>fo_failed := Some e\<rparr> else f)"

definition fold_event :: "acceptance_event \<Rightarrow> fold_result \<Rightarrow> fold_result" where
  "fold_event ev f = f\<lparr>fo_events := fo_events f @ [ev]\<rparr>"

type_synonym block_index = "(string, string list) hmap"

record tracker_state =
  ts_log :: "watch_record log"
  ts_by_block :: block_index
  ts_stall :: "string hset"
  ts_elapse :: "string hset"
  ts_confirmed :: "string hset"
  ts_sink :: nat
  ts_depth_held :: bool
  ts_walking :: bool
  ts_ahead :: "(string, string \<times> nat \<times> nat) hmap"
  ts_off :: off_chain

abbreviation records :: "tracker_state \<Rightarrow> (string, watch_record) hmap" where
  "records st \<equiv> lg_records (ts_log st)"

text \<open>The block a record counts as accepted at, which is what the index follows.\<close>

definition accepted_at :: "persisted_status \<Rightarrow> string option" where
  "accepted_at s = (case s of P_Accepted b _ _ \<Rightarrow> Some b | _ \<Rightarrow> None)"

section \<open>The index\<close>

definition index_put :: "string \<Rightarrow> string \<Rightarrow> block_index \<Rightarrow> block_index" where
  "index_put block txid m =
     hput block ((case hget m block of None \<Rightarrow> [] | Some ts \<Rightarrow> ts) @ [txid]) m"

definition index_drop :: "string \<Rightarrow> string \<Rightarrow> block_index \<Rightarrow> block_index" where
  "index_drop block txid m =
     (case hget m block of
        None \<Rightarrow> m
      | Some ts \<Rightarrow>
          let ts = filter (\<lambda>t. t \<noteq> txid) ts in
          if ts = [] then hdel block m else hput block ts m)"

definition holds_acceptance_at :: "tracker_state \<Rightarrow> string \<Rightarrow> bool" where
  "holds_acceptance_at st block \<longleftrightarrow> hget (ts_by_block st) block \<noteq> None"

definition claims_depth :: "tracker_state \<Rightarrow> bool" where
  "claims_depth st \<longleftrightarrow> \<not> ts_depth_held st \<and> \<not> ts_walking st"

definition awaits_first_acceptance :: "tracker_state \<Rightarrow> string \<Rightarrow> bool" where
  "awaits_first_acceptance st txid =
     (case hget (records st) txid of
        None \<Rightarrow> False
      | Some r \<Rightarrow> wr_source r = Send \<and> (case wr_status r of P_Submitted _ \<Rightarrow> True | _ \<Rightarrow> False))"

definition is_watched :: "tracker_state \<Rightarrow> string \<Rightarrow> bool" where
  "is_watched st txid \<longleftrightarrow> hget (records st) txid \<noteq> None"

section \<open>Load\<close>

definition log_path :: "acc_env \<Rightarrow> path" where
  "log_path E = ae_dir E @ [''acceptance.kvlog'']"

definition cursor_path :: "acc_env \<Rightarrow> path" where
  "cursor_path E = ae_dir E @ [''vcc.cursor'']"

datatype load_error = LoadKv kv_error | LogHeld string

definition index_of :: "watch_record list \<Rightarrow> block_index" where
  "index_of rs = foldl (\<lambda>m r. case accepted_at (wr_status r) of
     None \<Rightarrow> m | Some b \<Rightarrow> index_put b (wr_txid r) m) [] rs"

definition load_state :: "acc_env \<Rightarrow> path \<Rightarrow> disk \<Rightarrow> disk \<times> (load_error + tracker_state)" where
  "load_state E p d =
     (case load (ae_codec E) p d of
        (d, Inl e) \<Rightarrow> (d, Inl (LoadKv e))
      | (d, Inr lg) \<Rightarrow>
          (case hold lg of
             Some why \<Rightarrow> (d, Inl (LogHeld why))
           | None \<Rightarrow> (d, Inr \<lparr>ts_log = lg, ts_by_block = index_of (hvals (lg_records lg)), ts_stall = [],
               ts_elapse = [], ts_confirmed = [], ts_sink = 0, ts_depth_held = False, ts_walking = False,
               ts_ahead = [], ts_off = no_off_chain\<rparr>)))"

section \<open>Watches\<close>

definition drop_watch :: "acc_env \<Rightarrow> string \<Rightarrow> tracker_state \<Rightarrow> disk \<Rightarrow> tracker_state \<times> disk \<times> (kv_error + unit)" where
  "drop_watch E txid st d =
     (let by_block = (case hget (records st) txid of
            None \<Rightarrow> ts_by_block st
          | Some r \<Rightarrow> (case accepted_at (wr_status r) of
                None \<Rightarrow> ts_by_block st | Some b \<Rightarrow> index_drop b txid (ts_by_block st)));
          st = st\<lparr>ts_by_block := by_block, ts_stall := hset_remove txid (ts_stall st),
                  ts_elapse := hset_remove txid (ts_elapse st),
                  ts_confirmed := hset_remove txid (ts_confirmed st)\<rparr>
      in (case remove (ae_codec E) (ts_log st) d txid of
            (lg, d, res) \<Rightarrow> (st\<lparr>ts_log := lg\<rparr>, d, res)))"

text \<open>\<open>min_by_key\<close>: the first of the least.\<close>

fun oldest_of :: "watch_record list \<Rightarrow> watch_record option" where
  "oldest_of [] = None"
| "oldest_of (r # rs) =
     (case oldest_of rs of
        None \<Rightarrow> Some r
      | Some m \<Rightarrow> if wr_watched_ms r \<le> wr_watched_ms m then Some r else Some m)"

definition watch_state ::
  "acc_env \<Rightarrow> string \<Rightarrow> watch_source \<Rightarrow> nat \<Rightarrow> tracker_state \<Rightarrow> disk \<Rightarrow> tracker_state \<times> disk \<times> (kv_error + unit)" where
  "watch_state E txid source now st d =
     (if is_watched st txid then (st, d, Inr ())
      else
        let (st, d, room) =
          (if length (records st) \<ge> watch_cap then
             (case oldest_of (hvals (records st)) of
                None \<Rightarrow> (st, d, Inr ())
              | Some r \<Rightarrow> drop_watch E (wr_txid r) st d)
           else (st, d, Inr ()))
        in (case room of Inl e \<Rightarrow> (st, d, Inl e) | Inr _ \<Rightarrow>
              (case upsert (ae_codec E) (ts_log st) d txid
                      \<lparr>wr_txid = txid, wr_source = source, wr_watched_ms = now,
                       wr_status = P_Submitted now\<rparr> of
                 (lg, d, Inl e) \<Rightarrow> (st\<lparr>ts_log := lg\<rparr>, d, Inl e)
               | (lg, d, Inr _) \<Rightarrow> (st\<lparr>ts_log := lg\<rparr>, d, Inr ()))))"

definition note_added :: "string list \<Rightarrow> tracker_state \<Rightarrow> tracker_state" where
  "note_added blocks st = st\<lparr>ts_off := foldl (\<lambda>oc b. oc_added b oc) (ts_off st) blocks\<rparr>"

section \<open>Acceptances\<close>

definition accept_one ::
  "acc_env \<Rightarrow> string \<Rightarrow> nat \<Rightarrow> nat \<Rightarrow> tracker_state \<times> disk \<times> fold_result \<Rightarrow> string \<Rightarrow>
   tracker_state \<times> disk \<times> fold_result" where
  "accept_one E block blue ms s txid =
     (case s of (st, d, f) \<Rightarrow>
      (case hget (records st) txid of
         None \<Rightarrow> (st, d, f)
       | Some record \<Rightarrow>
           if accepted_at (wr_status record) = Some block then (st, d, f)
           else
             let previous = accepted_at (wr_status record);
                 updated = record\<lparr>wr_status := P_Accepted block blue ms\<rparr>
             in (case upsert (ae_codec E) (ts_log st) d txid updated of
                   (lg, d, Inl e) \<Rightarrow> (st\<lparr>ts_log := lg\<rparr>, d, fold_failed e f)
                 | (lg, d, Inr _) \<Rightarrow>
                     let by_block = (case previous of
                           None \<Rightarrow> ts_by_block st | Some old \<Rightarrow> index_drop old txid (ts_by_block st))
                     in (st\<lparr>ts_log := lg, ts_ahead := hdel txid (ts_ahead st),
                            ts_by_block := index_put block txid by_block,
                            ts_stall := hset_remove txid (ts_stall st),
                            ts_elapse := hset_remove txid (ts_elapse st)\<rparr>,
                         d, fold_event (E_Accepted txid) f))))"

definition on_accepted ::
  "acc_env \<Rightarrow> string \<Rightarrow> nat \<Rightarrow> string list \<Rightarrow> nat \<Rightarrow> tracker_state \<Rightarrow> disk \<Rightarrow> tracker_state \<times> disk \<times> fold_result" where
  "on_accepted E block blue txids ms st d = foldl (accept_one E block blue ms) (st, d, empty_fold) txids"

section \<open>Removals\<close>

text \<open>One transaction of a removed block; the last component is what stays indexed.\<close>

definition displace_one ::
  "acc_env \<Rightarrow> string \<Rightarrow> nat \<Rightarrow> (tracker_state \<times> disk \<times> fold_result) \<times> string list \<Rightarrow> string \<Rightarrow>
   (tracker_state \<times> disk \<times> fold_result) \<times> string list" where
  "displace_one E block now s txid =
     (case s of ((st, d, f), kept) \<Rightarrow>
      (case hget (records st) txid of
         None \<Rightarrow> ((st, d, f), kept)
       | Some record \<Rightarrow>
           (case upsert (ae_codec E) (ts_log st) d txid (record\<lparr>wr_status := P_Displaced now block\<rparr>) of
              (lg, d, Inl e) \<Rightarrow> ((st\<lparr>ts_log := lg\<rparr>, d, fold_failed e f), kept @ [txid])
            | (lg, d, Inr _) \<Rightarrow>
                ((st\<lparr>ts_log := lg, ts_confirmed := hset_remove txid (ts_confirmed st)\<rparr>, d,
                  fold_event (E_Displaced txid) f), kept))))"

definition remove_block ::
  "acc_env \<Rightarrow> nat \<Rightarrow> tracker_state \<times> disk \<times> fold_result \<Rightarrow> string \<Rightarrow> tracker_state \<times> disk \<times> fold_result" where
  "remove_block E now s block =
     (case s of (st, d, f) \<Rightarrow>
        let st = st\<lparr>ts_off := oc_removed block (ts_off st)\<rparr> in
        (case hget (ts_by_block st) block of
           None \<Rightarrow> (st, d, f)
         | Some txids \<Rightarrow>
             (case foldl (displace_one E block now) ((st, d, f), []) txids of
                ((st, d, f), kept) \<Rightarrow>
                  (if kept = [] then st\<lparr>ts_by_block := hdel block (ts_by_block st)\<rparr>
                   else st\<lparr>ts_by_block := hput block kept (ts_by_block st)\<rparr>, d, f))))"

definition on_removed ::
  "acc_env \<Rightarrow> string list \<Rightarrow> nat \<Rightarrow> tracker_state \<Rightarrow> disk \<Rightarrow> tracker_state \<times> disk \<times> fold_result" where
  "on_removed E blocks now st d = foldl (remove_block E now) (st, d, empty_fold) blocks"

section \<open>The walk's word\<close>

definition walk_accepted ::
  "acc_env \<Rightarrow> string \<Rightarrow> string \<Rightarrow> nat \<Rightarrow> nat \<Rightarrow> tracker_state \<Rightarrow> disk \<Rightarrow>
   tracker_state \<times> disk \<times> (kv_error + acceptance_event list)" where
  "walk_accepted E txid block blue ms st d =
     (case hget (records st) txid of
        None \<Rightarrow> (st, d, Inr [])
      | Some record \<Rightarrow>
          if (case wr_status record of P_Accepted b _ t \<Rightarrow> t = 0 \<and> b = block \<and> ms \<noteq> 0 | _ \<Rightarrow> False) then
            (case upsert (ae_codec E) (ts_log st) d txid (record\<lparr>wr_status := P_Accepted block blue ms\<rparr>) of
               (lg, d, Inl e) \<Rightarrow> (st\<lparr>ts_log := lg\<rparr>, d, Inl e)
             | (lg, d, Inr _) \<Rightarrow> (st\<lparr>ts_log := lg\<rparr>, d, Inr []))
          else if (case wr_status record of P_Submitted _ \<Rightarrow> True | P_Displaced _ _ \<Rightarrow> True | _ \<Rightarrow> False)
                  \<and> wr_source record = Transport \<and> \<not> oc_contains (ts_off st) block then
            (case on_accepted E block blue [txid] ms st d of
               (st, d, f) \<Rightarrow> (st, d, fold_into_result f))
          else (st, d, Inr []))"

definition watch_remembered ::
  "acc_env \<Rightarrow> string \<Rightarrow> watch_source \<Rightarrow> nat \<Rightarrow> remembered \<Rightarrow> tracker_state \<Rightarrow> disk \<Rightarrow>
   tracker_state \<times> disk \<times> (kv_error + acceptance_event list)" where
  "watch_remembered E txid source now remembered st d =
     (case watch_state E txid source now st d of
        (st, d, Inl e) \<Rightarrow> (st, d, Inl e)
      | (st, d, Inr _) \<Rightarrow>
          let remembered = (case remembered of
                RAccepted block _ _ _ \<Rightarrow>
                  if oc_contains (ts_off st) block then RDisplaced now block else remembered
              | RDisplaced _ _ \<Rightarrow> remembered)
          in (case remembered of
                RAccepted block blue daa ms \<Rightarrow>
                  (case on_accepted E block blue [txid] ms st d of
                     (st, d, f) \<Rightarrow> (st, d, fold_into_result f))
              | RDisplaced since prior \<Rightarrow>
                  (case hget (records st) txid of
                     None \<Rightarrow> (st, d, Inr [])
                   | Some record \<Rightarrow>
                       (case upsert (ae_codec E) (ts_log st) d txid
                               (record\<lparr>wr_status := P_Displaced since prior\<rparr>) of
                          (lg, d, Inl e) \<Rightarrow> (st\<lparr>ts_log := lg\<rparr>, d, Inl e)
                        | (lg, d, Inr _) \<Rightarrow> (st\<lparr>ts_log := lg\<rparr>, d, Inr [E_Displaced txid])))))"

section \<open>Depth, horizon, windows\<close>

definition finalize_watch ::
  "acc_env \<Rightarrow> string \<Rightarrow> tracker_state \<Rightarrow> disk \<Rightarrow> tracker_state \<times> disk \<times> (kv_error + unit)" where
  "finalize_watch E txid st d =
     (case hget (records st) txid of
        None \<Rightarrow> (st, d, Inr ())
      | Some record \<Rightarrow>
          (case wr_status record of
             P_Accepted block blue ms \<Rightarrow>
               (case upsert (ae_codec E) (ts_log st) d txid (record\<lparr>wr_status := P_Finalized block blue ms\<rparr>) of
                  (lg, d, Inl e) \<Rightarrow> (st\<lparr>ts_log := lg\<rparr>, d, Inl e)
                | (lg, d, Inr _) \<Rightarrow>
                    (st\<lparr>ts_log := lg, ts_by_block := index_drop block txid (ts_by_block st)\<rparr>, d, Inr ()))
           | _ \<Rightarrow> (st, d, Inr ())))"

fun drop_watches ::
  "acc_env \<Rightarrow> string list \<Rightarrow> tracker_state \<Rightarrow> disk \<Rightarrow> tracker_state \<times> disk \<times> (kv_error + unit)" where
  "drop_watches E [] st d = (st, d, Inr ())"
| "drop_watches E (t # ts) st d =
     (case drop_watch E t st d of
        (st, d, Inl e) \<Rightarrow> (st, d, Inl e)
      | (st, d, Inr _) \<Rightarrow> drop_watches E ts st d)"

definition prune_beyond_horizon ::
  "acc_env \<Rightarrow> nat \<Rightarrow> tracker_state \<Rightarrow> disk \<Rightarrow> tracker_state \<times> disk \<times> (kv_error + unit)" where
  "prune_beyond_horizon E now st d =
     drop_watches E
       (map wr_txid (filter (\<lambda>r. now - wr_watched_ms r > pruning_horizon_ms E) (hvals (records st)))) st d"

text \<open>The Confirmed crossings of one score, and the watches it makes terminal.\<close>

definition confirm_one :: "nat \<Rightarrow> string hset \<times> acceptance_event list \<Rightarrow> watch_record \<Rightarrow> string hset \<times> acceptance_event list" where
  "confirm_one sink s r =
     (case s of (emitted, events) \<Rightarrow>
      (case wr_status r of
         P_Accepted _ blue _ \<Rightarrow>
           if sink - blue \<ge> confirmed_depth_blue \<and> wr_txid r \<notin> set emitted
           then (hset_insert (wr_txid r) emitted, events @ [E_Confirmed (wr_txid r) (sink - blue)])
           else (emitted, events)
       | _ \<Rightarrow> (emitted, events)))"

definition terminal :: "nat \<Rightarrow> watch_record \<Rightarrow> bool" where
  "terminal sink r = (case wr_status r of P_Accepted _ blue _ \<Rightarrow> sink - blue \<ge> terminal_depth_blue | _ \<Rightarrow> False)"

fun finalize_all :: "acc_env \<Rightarrow> string list \<Rightarrow> tracker_state \<Rightarrow> disk \<Rightarrow> tracker_state \<times> disk" where
  "finalize_all E [] st d = (st, d)"
| "finalize_all E (t # ts) st d = (case finalize_watch E t st d of (st, d, _) \<Rightarrow> finalize_all E ts st d)"

definition on_sink_blue ::
  "acc_env \<Rightarrow> nat \<Rightarrow> nat \<Rightarrow> tracker_state \<Rightarrow> disk \<Rightarrow> tracker_state \<times> disk \<times> (kv_error + acceptance_event list)" where
  "on_sink_blue E sink now st d =
     (let st = st\<lparr>ts_sink := sink\<rparr> in
      if \<not> claims_depth st then
        (case prune_beyond_horizon E now st d of
           (st, d, Inl e) \<Rightarrow> (st, d, Inl e) | (st, d, Inr _) \<Rightarrow> (st, d, Inr []))
      else
        let rs = hvals (records st);
            (emitted, events) = foldl (confirm_one sink) (ts_confirmed st, []) rs;
            to_finalize = map wr_txid (filter (terminal sink) rs);
            (st, d) = finalize_all E to_finalize (st\<lparr>ts_confirmed := emitted\<rparr>) d
        in (case prune_beyond_horizon E now st d of (st, d, _) \<Rightarrow> (st, d, Inr events)))"

definition tick_event :: "tracker_state \<Rightarrow> nat \<Rightarrow> watch_record \<Rightarrow> acceptance_event option" where
  "tick_event st now r =
     (case wr_status r of
        P_Submitted t \<Rightarrow>
          if wr_source r = Send \<and> now - t \<ge> stall_after_ms \<and> wr_txid r \<notin> set (ts_stall st)
          then Some (E_Stalled (wr_txid r) (now - t)) else None
      | P_Displaced t _ \<Rightarrow>
          if now - t \<ge> tombstone_window_ms \<and> wr_txid r \<notin> set (ts_elapse st)
          then Some (E_DisplacedElapsed (wr_txid r)) else None
      | _ \<Rightarrow> None)"

definition mark_emitted :: "tracker_state \<Rightarrow> acceptance_event \<Rightarrow> tracker_state" where
  "mark_emitted st ev =
     (case ev of
        E_Stalled t _ \<Rightarrow> st\<lparr>ts_stall := hset_insert t (ts_stall st)\<rparr>
      | E_DisplacedElapsed t \<Rightarrow> st\<lparr>ts_elapse := hset_insert t (ts_elapse st)\<rparr>
      | _ \<Rightarrow> st)"

definition tick :: "nat \<Rightarrow> tracker_state \<Rightarrow> tracker_state \<times> acceptance_event list" where
  "tick now st =
     (if ts_walking st then (st, [])
      else let events = List.map_filter (tick_event st now) (hvals (records st))
           in (foldl mark_emitted st events, events))"

section \<open>What a consumer reads\<close>

definition status_of :: "tracker_state \<Rightarrow> string \<Rightarrow> nat \<Rightarrow> tx_status option" where
  "status_of st txid now =
     (case hget (records st) txid of
        None \<Rightarrow> None
      | Some r \<Rightarrow> Some
          (case wr_status r of
             P_Submitted t \<Rightarrow>
               (case hget (ts_ahead st) txid of
                  Some (_, blue, ms) \<Rightarrow> T_Accepted (ts_sink st - blue) ms
                | None \<Rightarrow>
                    if wr_source r = Send \<and> now - t \<ge> stall_after_ms then T_Stalled (now - t) else T_Submitted)
           | P_Accepted _ blue ms \<Rightarrow>
               if ts_sink st - blue \<ge> confirmed_depth_blue \<and> claims_depth st
               then T_Confirmed (ts_sink st - blue) ms else T_Accepted (ts_sink st - blue) ms
           | P_Finalized _ blue ms \<Rightarrow> T_Confirmed (ts_sink st - blue) ms
           | P_Displaced _ _ \<Rightarrow> T_Displaced))"

end
