(* ===== verification/Acceptance_Inv.thy ===== *)
theory Acceptance_Inv
  imports Acceptance_State
begin

text \<open>
  What every operation of the tracker's fold keeps, for every list of I/O faults: the log's own
  invariant, and the accepting-block index in step with the log's records. Each operation also
  has a lemma saying exactly which records it changed.
\<close>

section \<open>The invariant\<close>

definition live :: "acc_env \<Rightarrow> tracker_state \<Rightarrow> disk \<Rightarrow> bool" where
  "live E st d \<longleftrightarrow> env_ok E \<and> log_inv (ae_codec E) (ts_log st) d \<and> lg_held (ts_log st) = None \<and>
     lg_path (ts_log st) = log_path E"

definition entry :: "block_index \<Rightarrow> string \<Rightarrow> string list" where
  "entry m b = (case hget m b of None \<Rightarrow> [] | Some ts \<Rightarrow> ts)"

definition in_idx :: "block_index \<Rightarrow> string \<Rightarrow> string \<Rightarrow> bool" where
  "in_idx m b t \<longleftrightarrow> t \<in> set (entry m b)"

definition acc_at :: "tracker_state \<Rightarrow> string \<Rightarrow> string option" where
  "acc_at st t = (case hget (records st) t of None \<Rightarrow> None | Some r \<Rightarrow> accepted_at (wr_status r))"

definition idx_shape :: "block_index \<Rightarrow> bool" where
  "idx_shape m \<longleftrightarrow> (\<forall>b. hget m b \<noteq> Some [] \<and> distinct (entry m b))"

text \<open>
  Every index entry is an acceptance on record, and every acceptance on record is indexed
  except those of the transactions in \<open>X\<close>.
\<close>

definition synced :: "string set \<Rightarrow> tracker_state \<Rightarrow> bool" where
  "synced X st \<longleftrightarrow> idx_shape (ts_by_block st) \<and>
     (\<forall>b t. in_idx (ts_by_block st) b t \<longrightarrow> acc_at st t = Some b) \<and>
     (\<forall>b t. acc_at st t = Some b \<longrightarrow> t \<notin> X \<longrightarrow> in_idx (ts_by_block st) b t)"

definition st_ok :: "acc_env \<Rightarrow> string set \<Rightarrow> tracker_state \<Rightarrow> disk \<Rightarrow> bool" where
  "st_ok E X st d \<longleftrightarrow> live E st d \<and> synced X st \<and> oc_ok (ts_off st)"

lemma entry_hput: "entry (hput b ts m) b' = (if b' = b then ts else entry m b')"
  by (simp add: entry_def)

lemma entry_hdel: "entry (hdel b m) b' = (if b' = b then [] else entry m b')"
  by (simp add: entry_def)

lemma entry_put: "entry (index_put b t m) b' = (if b' = b then entry m b @ [t] else entry m b')"
  unfolding index_put_def entry_hput by (simp add: entry_def)

lemma entry_drop: "entry (index_drop b t m) b' = (if b' = b then filter (\<lambda>x. x \<noteq> t) (entry m b) else entry m b')"
proof (cases "hget m b")
  case None
  then show ?thesis by (simp add: index_drop_def entry_def)
next
  case (Some ts)
  then have "entry m b = ts" by (simp add: entry_def)
  then show ?thesis using Some by (simp add: index_drop_def Let_def entry_hput entry_hdel)
qed

lemma in_idx_put [simp]: "in_idx (index_put b t m) b' t' \<longleftrightarrow> in_idx m b' t' \<or> b' = b \<and> t' = t"
  by (cases "b' = b") (auto simp: in_idx_def entry_put)

lemma in_idx_drop [simp]: "in_idx (index_drop b t m) b' t' \<longleftrightarrow> in_idx m b' t' \<and> \<not> (b' = b \<and> t' = t)"
  by (cases "b' = b") (simp_all add: in_idx_def entry_drop)

lemma idx_shape_entry: "idx_shape m \<Longrightarrow> distinct (entry m b)"
  by (simp add: idx_shape_def)

lemma idx_shape_hput: "idx_shape m \<Longrightarrow> ts \<noteq> [] \<Longrightarrow> distinct ts \<Longrightarrow> idx_shape (hput b ts m)"
  by (simp add: idx_shape_def entry_hput)

lemma idx_shape_hdel: "idx_shape m \<Longrightarrow> idx_shape (hdel b m)"
  by (simp add: idx_shape_def entry_hdel)

lemma idx_shape_put:
  assumes "idx_shape m" and "\<not> in_idx m b t"
  shows "idx_shape (index_put b t m)"
proof -
  have "distinct (entry m b @ [t])" using assms idx_shape_entry by (simp add: in_idx_def)
  then show ?thesis
    unfolding index_put_def entry_def [symmetric] using assms(1) by (intro idx_shape_hput) simp_all
qed

lemma idx_shape_drop:
  assumes "idx_shape m"
  shows "idx_shape (index_drop b t m)"
proof (cases "hget m b")
  case None
  then show ?thesis using assms by (simp add: index_drop_def)
next
  case (Some ts)
  moreover have "distinct ts" using idx_shape_entry [OF assms, of b] Some by (simp add: entry_def)
  ultimately show ?thesis
    using assms by (simp add: index_drop_def Let_def idx_shape_hput idx_shape_hdel)
qed

lemma holds_acceptance_at_iff:
  assumes "idx_shape (ts_by_block st)"
  shows "holds_acceptance_at st b \<longleftrightarrow> (\<exists>t. in_idx (ts_by_block st) b t)"
proof (cases "hget (ts_by_block st) b")
  case None
  then show ?thesis by (simp add: holds_acceptance_at_def in_idx_def entry_def)
next
  case (Some ts)
  then have "hget (ts_by_block st) b \<noteq> Some []" using assms unfolding idx_shape_def by blast
  then obtain t where "t \<in> set ts" using Some by (cases ts) auto
  then show ?thesis using Some unfolding holds_acceptance_at_def in_idx_def entry_def by auto
qed

section \<open>Writes to the watch log\<close>

lemma live_key: "live E st d \<Longrightarrow> hget (records st) t = Some r \<Longrightarrow> wr_txid r = t"
  by (auto simp: live_def env_ok_def log_inv_def log_wf_def)

lemma put_record_cases:
  assumes lv: "live E st d" and key: "wr_txid r = t"
    and run: "upsert (ae_codec E) (ts_log st) d t r = (lg', d', res)"
  obtains (failed) e where "res = Inl e" "live E (st\<lparr>ts_log := lg'\<rparr>) d'" "lg_records lg' = records st"
  | (written) b where "res = Inr b" "live E (st\<lparr>ts_log := lg'\<rparr>) d'"
      "map_of (lg_records lg') = (map_of (records st))(t \<mapsto> r)"
proof -
  have inv: "log_inv (ae_codec E) (ts_log st) d" and ok: "codec_ok (ae_codec E)"
    and k: "t = key_of (ae_codec E) r" and held: "lg_held (ts_log st) = None"
    using lv key by (auto simp: live_def env_ok_def)
  from inv ok k run show thesis
  proof (cases rule: upsert_cases)
    case (failed e)
    then show thesis using that(1) lv by (simp add: live_def)
  next
    case same
    then have "st\<lparr>ts_log := lg'\<rparr> = st" "map_of (lg_records lg') = (map_of (records st))(t \<mapsto> r)"
      by (auto simp: fun_eq_iff)
    then show thesis using that(2) [of False] lv same by simp
  next
    case written
    then show thesis using that(2) lv by (auto simp: live_def fun_eq_iff)
  qed
qed

lemma live_log: "ts_log st = ts_log st' \<Longrightarrow> live E st d \<longleftrightarrow> live E st' d"
  by (simp add: live_def)

lemma acc_at_log: "map_of (records st) = map_of (records st') \<Longrightarrow> acc_at st t = acc_at st' t"
  by (simp add: acc_at_def)

section \<open>Keeping the index in step\<close>

lemma synced_shape: "synced X st \<Longrightarrow> idx_shape (ts_by_block st)"
  unfolding synced_def by blast

lemma synced_sound: "synced X st \<Longrightarrow> in_idx (ts_by_block st) b t \<Longrightarrow> acc_at st t = Some b"
  unfolding synced_def by blast

lemma synced_complete: "synced X st \<Longrightarrow> acc_at st t = Some b \<Longrightarrow> t \<notin> X \<Longrightarrow> in_idx (ts_by_block st) b t"
  unfolding synced_def by blast

text \<open>The two ways an operation moves one transaction: onto a block, or off every block.\<close>

lemma synced_onto:
  assumes sy: "synced X st" and new: "acc_at st t \<noteq> Some block"
    and by_block: "ts_by_block st' = index_put block t (case acc_at st t of None \<Rightarrow> ts_by_block st
         | Some old \<Rightarrow> index_drop old t (ts_by_block st))"
    and at: "\<And>u. acc_at st' u = (if u = t then Some block else acc_at st u)"
  shows "synced X st'"
proof -
  let ?m = "case acc_at st t of None \<Rightarrow> ts_by_block st | Some old \<Rightarrow> index_drop old t (ts_by_block st)"
  have m: "in_idx ?m b u \<longleftrightarrow> in_idx (ts_by_block st) b u \<and> u \<noteq> t" for b u
    using synced_sound [OF sy, of b u] by (cases "acc_at st t") auto
  have "idx_shape ?m"
    using synced_shape [OF sy] by (cases "acc_at st t") (simp_all add: idx_shape_drop)
  then have "idx_shape (ts_by_block st')" unfolding by_block by (rule idx_shape_put) (simp add: m)
  moreover have "acc_at st' u = Some b" if "in_idx (ts_by_block st') b u" for b u
    using that synced_sound [OF sy, of b u] unfolding by_block at by (auto simp: m)
  moreover have "in_idx (ts_by_block st') b u" if "acc_at st' u = Some b" "u \<notin> X" for b u
    using that synced_complete [OF sy, of u b] unfolding by_block at by (auto simp: m split: if_splits)
  ultimately show ?thesis unfolding synced_def by blast
qed

lemma synced_off:
  assumes sy: "synced X st" and old: "acc_at st t = Some block"
    and by_block: "ts_by_block st' = index_drop block t (ts_by_block st)"
    and at: "\<And>u. acc_at st' u = (if u = t then None else acc_at st u)"
  shows "synced X st'"
proof -
  have m: "in_idx (ts_by_block st') b u \<longleftrightarrow> in_idx (ts_by_block st) b u \<and> u \<noteq> t" for b u
    using synced_sound [OF sy, of b u] old unfolding by_block by auto
  have "idx_shape (ts_by_block st')" unfolding by_block using synced_shape [OF sy] by (rule idx_shape_drop)
  moreover have "acc_at st' u = Some b" if "in_idx (ts_by_block st') b u" for b u
    using that synced_sound [OF sy, of b u] m at by simp
  moreover have "in_idx (ts_by_block st') b u" if "acc_at st' u = Some b" "u \<notin> X" for b u
    using that synced_complete [OF sy, of u b] m at by (simp split: if_splits)
  ultimately show ?thesis unfolding synced_def by blast
qed

lemma synced_same:
  assumes "synced X st" and "ts_by_block st' = ts_by_block st" and "\<And>u. acc_at st' u = acc_at st u"
  shows "synced X st'"
  using assms(1) unfolding synced_def assms(2,3) .

section \<open>Acceptances\<close>

text \<open>What one acceptance did: nothing, a failed write, or the record moved to the block.\<close>

lemma accept_one_cases:
  assumes lv: "live E st d" and run: "accept_one E block blue ms (st, d, f) t = (st', d', f')"
  obtains (ignored) "st' = st" "d' = d" "f' = f" "hget (records st) t = None \<or> acc_at st t = Some block"
  | (failed) e where "live E st' d'" "f' = fold_failed e f" "st' = st\<lparr>ts_log := ts_log st'\<rparr>"
      "records st' = records st"
  | (accepted) r where "live E st' d'" "f' = fold_event (E_Accepted t) f" "hget (records st) t = Some r"
      "acc_at st t \<noteq> Some block"
      "map_of (records st') = (map_of (records st))(t \<mapsto> r\<lparr>wr_status := P_Accepted block blue ms\<rparr>)"
      "ts_by_block st' = index_put block t (case acc_at st t of None \<Rightarrow> ts_by_block st
         | Some old \<Rightarrow> index_drop old t (ts_by_block st))"
      "ts_off st' = ts_off st" "ts_sink st' = ts_sink st" "ts_depth_held st' = ts_depth_held st"
      "ts_walking st' = ts_walking st" "ts_confirmed st' = ts_confirmed st"
proof (cases "hget (records st) t = None \<or> acc_at st t = Some block")
  case True
  then show thesis
    using ignored run by (auto simp: accept_one_def acc_at_def split: option.splits)
next
  case False
  then obtain r where r: "hget (records st) t = Some r" and at: "accepted_at (wr_status r) \<noteq> Some block"
    by (auto simp: acc_at_def)
  let ?new = "r\<lparr>wr_status := P_Accepted block blue ms\<rparr>"
  have key: "wr_txid ?new = t" using live_key [OF lv r] by simp
  obtain lg1 d1 res where up: "upsert (ae_codec E) (ts_log st) d t ?new = (lg1, d1, res)" by (metis prod_cases3)
  from lv key up show thesis
  proof (cases rule: put_record_cases)
    case (failed e)
    have "st' = st\<lparr>ts_log := lg1\<rparr>" "d' = d1" "f' = fold_failed e f"
      using run r at up failed(1) by (simp_all add: accept_one_def Let_def)
    then show thesis using that(2) [of e] failed by simp
  next
    case (written b)
    have "st' = st\<lparr>ts_log := lg1, ts_ahead := hdel t (ts_ahead st),
          ts_by_block := index_put block t (case acc_at st t of None \<Rightarrow> ts_by_block st
            | Some old \<Rightarrow> index_drop old t (ts_by_block st)),
          ts_stall := hset_remove t (ts_stall st), ts_elapse := hset_remove t (ts_elapse st)\<rparr>"
      and "d' = d1" "f' = fold_event (E_Accepted t) f"
      using run r at up written by (simp_all add: accept_one_def Let_def acc_at_def)
    moreover have "live E st' d1"
      using written(2) calculation(1) by (simp add: live_def)
    ultimately show thesis
      using that(3) [of r] r written False by simp
  qed
qed

lemma accept_one_ok:
  assumes ok: "st_ok E X st d" and run: "accept_one E block blue ms (st, d, f) t = (st', d', f')"
  shows "st_ok E X st' d'"
proof -
  have lv: "live E st d" and sy: "synced X st" and oc: "oc_ok (ts_off st)" using ok by (auto simp: st_ok_def)
  from lv run show ?thesis
  proof (cases rule: accept_one_cases)
    case ignored
    then show ?thesis using ok by simp
  next
    case (failed e)
    have "acc_at st' = acc_at st" using failed(4) by (simp add: acc_at_def fun_eq_iff)
    moreover have "ts_by_block st' = ts_by_block st" "ts_off st' = ts_off st"
      by (subst failed(3), simp)+
    ultimately show ?thesis
      using failed(1) oc synced_same [OF sy, of st'] unfolding st_ok_def by simp
  next
    case (accepted r)
    have at: "acc_at st' u = (if u = t then Some block else acc_at st u)" for u
      using accepted(5) by (simp add: acc_at_def accepted_at_def)
    have "synced X st'" by (rule synced_onto [OF sy accepted(4,6) at])
    then show ?thesis using accepted oc by (simp add: st_ok_def)
  qed
qed

lemma accept_fold_ok:
  assumes "st_ok E X st d" and "foldl (accept_one E block blue ms) (st, d, f) ts = (st', d', f')"
  shows "st_ok E X st' d'"
  using assms
proof (induction ts arbitrary: st d f)
  case Nil
  then show ?case by simp
next
  case (Cons t ts)
  obtain st1 d1 f1 where s: "accept_one E block blue ms (st, d, f) t = (st1, d1, f1)" by (metis prod_cases3)
  then show ?case using Cons.IH [OF accept_one_ok [OF Cons.prems(1) s]] Cons.prems(2) by simp
qed

lemma on_accepted_ok:
  assumes "st_ok E X st d" and "on_accepted E block blue ts ms st d = (st', d', f)"
  shows "st_ok E X st' d'"
  using accept_fold_ok assms unfolding on_accepted_def by blast

section \<open>Removals\<close>

lemma displace_one_cases:
  assumes lv: "live E st d" and run: "displace_one E block now ((st, d, f), kept) t = ((st', d', f'), kept')"
  obtains (unknown) "st' = st" "d' = d" "f' = f" "kept' = kept" "hget (records st) t = None"
  | (failed) e r where "live E st' d'" "f' = fold_failed e f" "kept' = kept @ [t]"
      "st' = st\<lparr>ts_log := ts_log st'\<rparr>" "records st' = records st" "hget (records st) t = Some r"
  | (displaced) r where "live E st' d'" "f' = fold_event (E_Displaced t) f" "kept' = kept"
      "hget (records st) t = Some r"
      "map_of (records st') = (map_of (records st))(t \<mapsto> r\<lparr>wr_status := P_Displaced now block\<rparr>)"
      "st' = st\<lparr>ts_log := ts_log st', ts_confirmed := hset_remove t (ts_confirmed st)\<rparr>"
proof (cases "hget (records st) t")
  case None
  then show thesis using unknown run by (simp add: displace_one_def)
next
  case (Some r)
  let ?new = "r\<lparr>wr_status := P_Displaced now block\<rparr>"
  have key: "wr_txid ?new = t" using live_key [OF lv Some] by simp
  obtain lg1 d1 res where up: "upsert (ae_codec E) (ts_log st) d t ?new = (lg1, d1, res)" by (metis prod_cases3)
  from lv key up show thesis
  proof (cases rule: put_record_cases)
    case (failed e)
    have "st' = st\<lparr>ts_log := lg1\<rparr>" "d' = d1" "f' = fold_failed e f" "kept' = kept @ [t]"
      using run Some up failed(1) by (simp_all add: displace_one_def)
    then show thesis using that(2) [of e r] failed Some by simp
  next
    case (written b)
    have st': "st' = st\<lparr>ts_log := lg1, ts_confirmed := hset_remove t (ts_confirmed st)\<rparr>" "d' = d1"
      "f' = fold_event (E_Displaced t) f" "kept' = kept"
      using run Some up written(1) by (simp_all add: displace_one_def)
    moreover have "live E st' d1" using written(2) st'(1) by (simp add: live_def)
    ultimately show thesis using that(3) [of r] written Some by simp
  qed
qed

lemma fo_failed_fold_failed [simp]: "fo_failed (fold_failed e f) \<noteq> None"
  by (simp add: fold_failed_def)

lemma fo_failed_fold_event [simp]: "fo_failed (fold_event ev f) = fo_failed f"
  by (simp add: fold_event_def)

text \<open>What folding a removed block's transactions did to every record.\<close>

definition displaced_records ::
  "string \<Rightarrow> nat \<Rightarrow> string set \<Rightarrow> (string \<rightharpoonup> watch_record) \<Rightarrow> (string \<rightharpoonup> watch_record)" where
  "displaced_records block now S R u =
     (if u \<in> S then map_option (\<lambda>r. r\<lparr>wr_status := P_Displaced now block\<rparr>) (R u) else R u)"

lemma displace_fold:
  assumes "live E st d" and "distinct ts"
    and "foldl (displace_one E block now) ((st, d, f), kept) ts = ((st', d', f'), kept')"
  shows "\<exists>ks. kept' = kept @ ks \<and> set ks \<subseteq> set ts \<and> distinct ks \<and> live E st' d' \<and>
    ts_by_block st' = ts_by_block st \<and> ts_off st' = ts_off st \<and>
    map_of (records st') = displaced_records block now (set ts - set ks) (map_of (records st)) \<and>
    (fo_failed f' = None \<longleftrightarrow> fo_failed f = None \<and> ks = [])"
  using assms
proof (induction ts arbitrary: st d f kept)
  case Nil
  then show ?case by (simp add: displaced_records_def fun_eq_iff)
next
  case (Cons t ts)
  obtain st1 d1 f1 kept1 where s: "displace_one E block now ((st, d, f), kept) t = ((st1, d1, f1), kept1)"
    by (metis surj_pair)
  have rest: "foldl (displace_one E block now) ((st1, d1, f1), kept1) ts = ((st', d', f'), kept')"
    using Cons.prems(3) s by simp
  have ds: "distinct ts" and t: "t \<notin> set ts" using Cons.prems(2) by simp_all
  from Cons.prems(1) s show ?case
  proof (cases rule: displace_one_cases)
    case unknown
    obtain ks where ks: "kept' = kept @ ks" "set ks \<subseteq> set ts" "distinct ks" "live E st' d'"
      "ts_by_block st' = ts_by_block st" "ts_off st' = ts_off st"
      "map_of (records st') = displaced_records block now (set ts - set ks) (map_of (records st))"
      "fo_failed f' = None \<longleftrightarrow> fo_failed f = None \<and> ks = []"
      using Cons.IH [OF Cons.prems(1) ds rest [unfolded unknown(1-4)]] by (elim exE conjE)
    have "displaced_records block now (set ts - set ks) (map_of (records st)) =
        displaced_records block now (set (t # ts) - set ks) (map_of (records st))"
      using unknown(5) by (auto simp: displaced_records_def fun_eq_iff)
    then show ?thesis using ks by (intro exI [of _ ks] conjI) auto
  next
    case (failed e r)
    obtain ks where ks: "kept' = (kept @ [t]) @ ks" "set ks \<subseteq> set ts" "distinct ks" "live E st' d'"
      "ts_by_block st' = ts_by_block st1" "ts_off st' = ts_off st1"
      "map_of (records st') = displaced_records block now (set ts - set ks) (map_of (records st1))"
      "fo_failed f' = None \<longleftrightarrow> fo_failed f1 = None \<and> ks = []"
      using Cons.IH [OF failed(1) ds rest [unfolded failed(3)]] by (elim exE conjE)
    have "fo_failed f1 \<noteq> None" unfolding failed(2) by (rule fo_failed_fold_failed)
    then have ff: "fo_failed f' \<noteq> None" using ks(8) by simp
    have "ts_by_block st1 = ts_by_block st" "ts_off st1 = ts_off st"
      by (subst failed(4), simp)+
    moreover have "set ts - set ks = set (t # ts) - set (t # ks)" using t by auto
    ultimately show ?thesis
      using ks t failed(5) ff by (intro exI [of _ "t # ks"] conjI) auto
  next
    case (displaced r)
    obtain ks where ks: "kept' = kept @ ks" "set ks \<subseteq> set ts" "distinct ks" "live E st' d'"
      "ts_by_block st' = ts_by_block st1" "ts_off st' = ts_off st1"
      "map_of (records st') = displaced_records block now (set ts - set ks) (map_of (records st1))"
      "fo_failed f' = None \<longleftrightarrow> fo_failed f1 = None \<and> ks = []"
      using Cons.IH [OF displaced(1) ds rest [unfolded displaced(3)]] by (elim exE conjE)
    have "ts_by_block st1 = ts_by_block st" "ts_off st1 = ts_off st"
      by (subst displaced(6), simp)+
    moreover have "t \<notin> set ks" using ks(2) t by blast
    then have "displaced_records block now (set ts - set ks) (map_of (records st1)) =
        displaced_records block now (set (t # ts) - set ks) (map_of (records st))"
      using displaced(4,5) t by (auto simp: displaced_records_def fun_eq_iff)
    moreover have "fo_failed f1 = fo_failed f" using displaced(2) by simp
    ultimately show ?thesis using ks by (intro exI [of _ ks] conjI) auto
  qed
qed

lemma remove_block_cases:
  assumes ok: "st_ok E X st d" and run: "remove_block E now (st, d, f) block = (st', d', f')"
  obtains ks where "st_ok E X st' d'" and "set ks \<subseteq> {t. in_idx (ts_by_block st) block t}"
    and "map_of (records st') =
      displaced_records block now ({t. in_idx (ts_by_block st) block t} - set ks) (map_of (records st))"
    and "fo_failed f' = None \<longleftrightarrow> fo_failed f = None \<and> ks = []"
    and "ts_off st' = oc_removed block (ts_off st)"
proof -
  let ?st0 = "st\<lparr>ts_off := oc_removed block (ts_off st)\<rparr>"
  have lv: "live E ?st0 d" and sy: "synced X st" and oc: "oc_ok (oc_removed block (ts_off st))"
    using ok by (auto simp: st_ok_def live_def oc_ok_removed)
  show thesis
  proof (cases "hget (ts_by_block st) block")
    case None
    then have "\<not> in_idx (ts_by_block st) block t" for t by (simp add: in_idx_def entry_def)
    moreover have out: "st' = ?st0" "d' = d" "f' = f" using run None by (simp_all add: remove_block_def Let_def)
    moreover have "synced X ?st0" using synced_same [OF sy, of ?st0] by (simp add: acc_at_def)
    ultimately show thesis
      using that [of "[]"] lv oc by (simp add: st_ok_def displaced_records_def fun_eq_iff)
  next
    case (Some ts)
    have entry: "entry (ts_by_block st) block = ts" using Some by (simp add: entry_def)
    then have idx: "{t. in_idx (ts_by_block st) block t} = set ts" by (simp add: in_idx_def)
    have ds: "distinct ts" using idx_shape_entry [OF synced_shape [OF sy], of block] entry by simp
    obtain st1 d1 f1 ks where fd: "foldl (displace_one E block now) ((?st0, d, f), []) ts = ((st1, d1, f1), ks)"
      by (metis surj_pair)
    from displace_fold [OF lv ds fd] have D: "set ks \<subseteq> set ts" "distinct ks" "live E st1 d1"
      "ts_by_block st1 = ts_by_block st" "ts_off st1 = oc_removed block (ts_off st)"
      "map_of (records st1) = displaced_records block now (set ts - set ks) (map_of (records st))"
      "fo_failed f1 = None \<longleftrightarrow> fo_failed f = None \<and> ks = []"
      by auto
    have out: "d' = d1" "f' = f1" "ts_log st' = ts_log st1" "ts_off st' = ts_off st1"
      "ts_by_block st' = (if ks = [] then hdel block (ts_by_block st) else hput block ks (ts_by_block st))"
      using run Some fd D(4) by (auto simp: remove_block_def Let_def)
    have entry': "entry (ts_by_block st') b = (if b = block then ks else entry (ts_by_block st) b)" for b
      unfolding out(5) by (simp add: entry_hput entry_hdel)
    have at: "acc_at st' u = (if u \<in> set ts - set ks then None else acc_at st u)" for u
      using D(6) out(3) by (simp add: acc_at_def displaced_records_def accepted_at_def split: option.splits)
    have "idx_shape (ts_by_block st')"
      unfolding out(5) using synced_shape [OF sy] D(2) by (simp add: idx_shape_hput idx_shape_hdel)
    moreover have "acc_at st' u = Some b" if i: "in_idx (ts_by_block st') b u" for b u
    proof (cases "b = block")
      case True
      then have "u \<in> set ks" using i entry' by (simp add: in_idx_def)
      then have "in_idx (ts_by_block st) block u" using D(1) entry by (auto simp: in_idx_def)
      then show ?thesis using synced_sound [OF sy] at True \<open>u \<in> set ks\<close> by simp
    next
      case False
      then have "in_idx (ts_by_block st) b u" using i entry' by (simp add: in_idx_def)
      then have a: "acc_at st u = Some b" by (rule synced_sound [OF sy])
      have "u \<notin> set ts" using synced_sound [OF sy, of block u] a False entry by (auto simp: in_idx_def)
      then show ?thesis using at a by simp
    qed
    moreover have "in_idx (ts_by_block st') b u" if a: "acc_at st' u = Some b" and nx: "u \<notin> X" for b u
    proof -
      have keep: "\<not> (u \<in> set ts - set ks)" and "acc_at st u = Some b" using a at by (auto split: if_splits)
      then have "u \<in> set (entry (ts_by_block st) b)"
        using synced_complete [OF sy _ nx] by (simp add: in_idx_def)
      then show ?thesis using entry entry' keep by (cases "b = block") (auto simp: in_idx_def)
    qed
    ultimately have "synced X st'" unfolding synced_def by blast
    moreover have "live E st' d'" using D(3) out(1,3) by (simp add: live_def)
    ultimately have "st_ok E X st' d'" using oc D(5) out(4) by (simp add: st_ok_def)
    then show thesis
      by (rule that [of ks]) (use D out idx in simp_all)
  qed
qed

lemma remove_fold_ok:
  assumes "st_ok E X st d" and "foldl (remove_block E now) (st, d, f) bs = (st', d', f')"
  shows "st_ok E X st' d'"
  using assms
proof (induction bs arbitrary: st d f)
  case Nil
  then show ?case by simp
next
  case (Cons b bs)
  obtain st1 d1 f1 where s: "remove_block E now (st, d, f) b = (st1, d1, f1)" by (metis prod_cases3)
  have "st_ok E X st1 d1" using remove_block_cases [OF Cons.prems(1) s] by metis
  then show ?case using Cons.IH [of st1 d1 f1] Cons.prems(2) s by simp
qed

lemma on_removed_ok:
  assumes "st_ok E X st d" and "on_removed E bs now st d = (st', d', f)"
  shows "st_ok E X st' d'"
  using remove_fold_ok assms unfolding on_removed_def by blast

section \<open>Watches\<close>

lemma st_ok_mono: "st_ok E X st d \<Longrightarrow> X \<subseteq> Y \<Longrightarrow> st_ok E Y st d"
  unfolding st_ok_def synced_def by blast

text \<open>
  A dropped watch leaves the index before the log. When the log's write then fails, the record
  stays without its index entry: that transaction joins the exceptions.
\<close>

lemma drop_watch_cases:
  assumes ok: "st_ok E X st d" and run: "drop_watch E t st d = (st', d', res)"
  obtains (dropped) "res = Inr ()" "st_ok E X st' d'" "map_of (records st') = (map_of (records st))(t := None)"
      "hmap_ok (records st')" "ts_off st' = ts_off st" "hget (records st) t \<noteq> None \<Longrightarrow> records st' = hdel t (records st)"
  | (failed) e where "res = Inl e" "st_ok E (insert t X) st' d'" "records st' = records st" "ts_off st' = ts_off st"
proof -
  have lv: "live E st d" and sy: "synced X st" and oc: "oc_ok (ts_off st)" using ok by (auto simp: st_ok_def)
  have inv: "log_inv (ae_codec E) (ts_log st) d" and cok: "codec_ok (ae_codec E)"
    and held: "lg_held (ts_log st) = None" using lv by (auto simp: live_def env_ok_def)
  define m where "m = (case acc_at st t of None \<Rightarrow> ts_by_block st | Some b \<Rightarrow> index_drop b t (ts_by_block st))"
  obtain lg1 d1 r1 where rm: "remove (ae_codec E) (ts_log st) d t = (lg1, d1, r1)" by (metis prod_cases3)
  have out: "ts_log st' = lg1" "d' = d1" "res = r1" "ts_by_block st' = m" "ts_off st' = ts_off st"
    using run rm by (auto simp: drop_watch_def Let_def m_def acc_at_def split: option.splits)
  have im: "in_idx m b u \<longleftrightarrow> in_idx (ts_by_block st) b u \<and> u \<noteq> t" for b u
    using synced_sound [OF sy, of b u] unfolding m_def by (cases "acc_at st t") auto
  have shape: "idx_shape m"
    using synced_shape [OF sy] unfolding m_def by (cases "acc_at st t") (simp_all add: idx_shape_drop)
  have sync: "synced Y st'" if at: "\<And>u. u \<noteq> t \<Longrightarrow> acc_at st' u = acc_at st u"
    and t: "acc_at st' t = None \<or> t \<in> Y" and sub: "X \<subseteq> Y" for Y
  proof -
    have "acc_at st' u = Some b" if "in_idx (ts_by_block st') b u" for b u
      using that synced_sound [OF sy, of b u] at [of u] unfolding out(4) im by simp
    moreover have "in_idx (ts_by_block st') b u" if a: "acc_at st' u = Some b" "u \<notin> Y" for b u
    proof -
      have "u \<noteq> t" using a t by auto
      moreover have "u \<notin> X" using a(2) sub by blast
      ultimately show ?thesis
        using synced_complete [OF sy, of u b] a(1) at [of u] unfolding out(4) im by simp
    qed
    ultimately show ?thesis using shape unfolding synced_def out(4) by blast
  qed
  from inv cok rm show thesis
  proof (cases rule: remove_cases)
    case (failed e)
    have at: "acc_at st' u = acc_at st u" for u using failed(3) out(1) by (simp add: acc_at_def)
    have "st_ok E (insert t X) st' d'"
      using sync [of "insert t X"] at failed lv oc out by (auto simp: st_ok_def live_def)
    then show thesis using that(2) [of e] failed out by simp
  next
    case absent
    have at: "acc_at st' u = acc_at st u" for u using absent(2) out(1) by (simp add: acc_at_def)
    have "acc_at st' t = None" using absent(4) at by (simp add: acc_at_def)
    then have "st_ok E X st' d'"
      using sync [of X] at absent lv oc out by (auto simp: st_ok_def live_def)
    then show thesis
      using that(1) absent out lv by (auto simp: fun_eq_iff live_def log_inv_def log_wf_def)
  next
    case removed
    have at: "acc_at st' u = (if u = t then None else acc_at st u)" for u
      using removed(3) out(1) by (simp add: acc_at_def)
    have "st_ok E X st' d'"
      using sync [of X] at removed lv oc out by (auto simp: st_ok_def live_def)
    then show thesis
      using that(1) removed out lv by (auto simp: fun_eq_iff live_def log_inv_def log_wf_def)
  qed
qed

text \<open>A write of a record that is on no block before and on none after.\<close>

lemma put_plain_ok:
  assumes ok: "st_ok E X st d" and key: "wr_txid r = t"
    and same: "acc_at st t = accepted_at (wr_status r)"
    and run: "upsert (ae_codec E) (ts_log st) d t r = (lg', d', res)"
  shows "st_ok E X (st\<lparr>ts_log := lg'\<rparr>) d'"
    and "map_of (lg_records lg') =
      (case res of Inl _ \<Rightarrow> map_of (records st) | Inr _ \<Rightarrow> (map_of (records st))(t \<mapsto> r))"
proof -
  have lv: "live E st d" using ok by (simp add: st_ok_def)
  have "live E (st\<lparr>ts_log := lg'\<rparr>) d' \<and> map_of (lg_records lg') =
      (case res of Inl _ \<Rightarrow> map_of (records st) | Inr _ \<Rightarrow> (map_of (records st))(t \<mapsto> r))"
    by (rule put_record_cases [OF lv key run]) simp_all
  moreover from this have "acc_at (st\<lparr>ts_log := lg'\<rparr>) u = acc_at st u" for u
    using same by (cases res) (simp_all add: acc_at_def)
  then have "synced X (st\<lparr>ts_log := lg'\<rparr>)"
    using synced_same [of X st "st\<lparr>ts_log := lg'\<rparr>"] ok by (simp add: st_ok_def)
  ultimately show "st_ok E X (st\<lparr>ts_log := lg'\<rparr>) d'"
    "map_of (lg_records lg') =
      (case res of Inl _ \<Rightarrow> map_of (records st) | Inr _ \<Rightarrow> (map_of (records st))(t \<mapsto> r))"
    using ok by (simp_all add: st_ok_def)
qed

lemma watch_state_ok:
  assumes ok: "st_ok E X st d" and run: "watch_state E t src now st d = (st', d', res)"
  shows "\<exists>Y. st_ok E Y st' d' \<and> X \<subseteq> Y \<and> (res = Inr () \<longrightarrow> Y = X) \<and> ts_off st' = ts_off st"
    and "res = Inr () \<Longrightarrow> \<not> is_watched st t \<Longrightarrow>
      hget (records st') t = Some \<lparr>wr_txid = t, wr_source = src, wr_watched_ms = now, wr_status = P_Submitted now\<rparr>"
proof -
  let ?new = "\<lparr>wr_txid = t, wr_source = src, wr_watched_ms = now, wr_status = P_Submitted now\<rparr>"
  let ?P = "(\<exists>Y. st_ok E Y st' d' \<and> X \<subseteq> Y \<and> (res = Inr () \<longrightarrow> Y = X) \<and> ts_off st' = ts_off st) \<and>
    (res = Inr () \<longrightarrow> \<not> is_watched st t \<longrightarrow> hget (records st') t = Some ?new)"
  have add: ?P if ok1: "st_ok E X st1 d1" and none: "hget (records st1) t = None" and off: "ts_off st1 = ts_off st"
    and w: "(case upsert (ae_codec E) (ts_log st1) d1 t ?new of
        (lg, d, Inl e) \<Rightarrow> (st1\<lparr>ts_log := lg\<rparr>, d, Inl e)
      | (lg, d, Inr _) \<Rightarrow> (st1\<lparr>ts_log := lg\<rparr>, d, Inr ())) = (st', d', res)" for st1 d1
  proof -
    obtain lg2 d2 r2 where up: "upsert (ae_codec E) (ts_log st1) d1 t ?new = (lg2, d2, r2)" by (metis prod_cases3)
    have same: "acc_at st1 t = accepted_at (wr_status ?new)" using none by (simp add: acc_at_def accepted_at_def)
    have key: "wr_txid ?new = t" by simp
    note P = put_plain_ok [OF ok1 key same up]
    show ?thesis using w up P off by (cases r2) auto
  qed
  have ?P
  proof (cases "is_watched st t")
    case True
    then show ?thesis using run ok by (auto simp: watch_state_def)
  next
    case False
    then have none: "hget (records st) t = None" by (simp add: is_watched_def)
    show ?thesis
    proof (cases "length (records st) \<ge> watch_cap \<and> (\<exists>r. oldest_of (hvals (records st)) = Some r)")
      case True
      then obtain r where r: "oldest_of (hvals (records st)) = Some r" by blast
      obtain st1 d1 room where dr: "drop_watch E (wr_txid r) st d = (st1, d1, room)" by (metis prod_cases3)
      from ok dr show ?thesis
      proof (cases rule: drop_watch_cases)
        case dropped
        have "hget (records st1) t = None" using dropped(3) none by simp
        then show ?thesis
          using add [of st1 d1] dropped run False True r dr by (simp add: watch_state_def)
      next
        case (failed e)
        then have "st' = st1" "d' = d1" "res = Inl e" using run False True r dr by (simp_all add: watch_state_def)
        then show ?thesis using failed by auto
      qed
    next
      case full: False
      then show ?thesis
        using add [OF ok none refl] run False by (auto simp: watch_state_def split: option.splits if_splits)
    qed
  qed
  then show "\<exists>Y. st_ok E Y st' d' \<and> X \<subseteq> Y \<and> (res = Inr () \<longrightarrow> Y = X) \<and> ts_off st' = ts_off st"
    "res = Inr () \<Longrightarrow> \<not> is_watched st t \<Longrightarrow> hget (records st') t = Some ?new"
    by blast+
qed

section \<open>The walk's word\<close>

lemma walk_accepted_ok:
  assumes ok: "st_ok E X st d" and run: "walk_accepted E t block blue ms st d = (st', d', res)"
  shows "st_ok E X st' d'"
proof (cases "hget (records st) t")
  case None
  then show ?thesis using run ok by (simp add: walk_accepted_def)
next
  case (Some r)
  show ?thesis
  proof (cases "case wr_status r of P_Accepted b _ u \<Rightarrow> u = 0 \<and> b = block \<and> ms \<noteq> 0 | _ \<Rightarrow> False")
    case True
    let ?new = "r\<lparr>wr_status := P_Accepted block blue ms\<rparr>"
    obtain lg1 d1 r1 where up: "upsert (ae_codec E) (ts_log st) d t ?new = (lg1, d1, r1)" by (metis prod_cases3)
    have "st' = st\<lparr>ts_log := lg1\<rparr>" "d' = d1"
      using run Some True up by (auto simp: walk_accepted_def split: sum.splits)
    moreover have "wr_txid ?new = t" using live_key [of E st d t r] ok Some by (simp add: st_ok_def)
    moreover have "acc_at st t = accepted_at (wr_status ?new)"
      using Some True by (auto simp: acc_at_def accepted_at_def split: persisted_status.splits)
    ultimately show ?thesis using put_plain_ok(1) [OF ok _ _ up] by simp
  next
    case False
    obtain st1 d1 f where ac: "on_accepted E block blue [t] ms st d = (st1, d1, f)" by (metis prod_cases3)
    have "(st' = st \<and> d' = d) \<or> (st' = st1 \<and> d' = d1)"
      using run Some False ac by (auto simp: walk_accepted_def split: if_splits)
    then show ?thesis using ok on_accepted_ok [OF ok ac] by blast
  qed
qed

lemma watch_remembered_ok:
  assumes ok: "st_ok E X st d" and new: "\<not> is_watched st t"
    and run: "watch_remembered E t src now rem st d = (st', d', res)"
  shows "\<exists>Y. st_ok E Y st' d' \<and> X \<subseteq> Y"
proof -
  obtain st1 d1 w where ws: "watch_state E t src now st d = (st1, d1, w)" by (metis prod_cases3)
  note W = watch_state_ok [OF ok ws]
  show ?thesis
  proof (cases w)
    case (Inl e)
    then have "st' = st1" "d' = d1" using run ws by (simp_all add: watch_remembered_def)
    then show ?thesis using W(1) by blast
  next
    case (Inr u)
    then have ok1: "st_ok E X st1 d1" using W(1) by auto
    have rec: "hget (records st1) t = Some \<lparr>wr_txid = t, wr_source = src, wr_watched_ms = now, wr_status = P_Submitted now\<rparr>"
      using W(2) Inr new by simp
    define rem' where "rem' = (case rem of
        RAccepted block _ _ _ \<Rightarrow> if oc_contains (ts_off st1) block then RDisplaced now block else rem
      | RDisplaced _ _ \<Rightarrow> rem)"
    have run': "(case rem' of
        RAccepted block blue daa ms \<Rightarrow>
          (case on_accepted E block blue [t] ms st1 d1 of (st, d, f) \<Rightarrow> (st, d, fold_into_result f))
      | RDisplaced since prior \<Rightarrow>
          (case hget (records st1) t of
             None \<Rightarrow> (st1, d1, Inr [])
           | Some record \<Rightarrow>
               (case upsert (ae_codec E) (ts_log st1) d1 t (record\<lparr>wr_status := P_Displaced since prior\<rparr>) of
                  (lg, d, Inl e) \<Rightarrow> (st1\<lparr>ts_log := lg\<rparr>, d, Inl e)
                | (lg, d, Inr _) \<Rightarrow> (st1\<lparr>ts_log := lg\<rparr>, d, Inr [E_Displaced t])))) = (st', d', res)"
      using run ws Inr by (simp add: watch_remembered_def Let_def rem'_def)
    show ?thesis
    proof (cases rem')
      case (RAccepted block blue daa ms)
      obtain st2 d2 f where ac: "on_accepted E block blue [t] ms st1 d1 = (st2, d2, f)" by (metis prod_cases3)
      then show ?thesis using on_accepted_ok [OF ok1 ac] run' RAccepted by auto
    next
      case (RDisplaced since prior)
      let ?new = "\<lparr>wr_txid = t, wr_source = src, wr_watched_ms = now, wr_status = P_Displaced since prior\<rparr>"
      obtain lg2 d2 r2 where up: "upsert (ae_codec E) (ts_log st1) d1 t ?new = (lg2, d2, r2)" by (metis prod_cases3)
      have same: "acc_at st1 t = accepted_at (wr_status ?new)" using rec by (simp add: acc_at_def accepted_at_def)
      have key: "wr_txid ?new = t" by simp
      have "st' = st1\<lparr>ts_log := lg2\<rparr>" "d' = d2"
        using run' RDisplaced rec up by (auto split: sum.splits)
      then show ?thesis using put_plain_ok(1) [OF ok1 key same up] by blast
    qed
  qed
qed

section \<open>Depth and horizon\<close>

lemma finalize_watch_ok:
  assumes ok: "st_ok E X st d" and run: "finalize_watch E t st d = (st', d', res)"
  shows "st_ok E X st' d'"
proof (cases "\<exists>r block blue ms. hget (records st) t = Some r \<and> wr_status r = P_Accepted block blue ms")
  case False
  then have "st' = st" "d' = d"
    using run by (auto simp: finalize_watch_def split: option.splits persisted_status.splits)
  then show ?thesis using ok by simp
next
  case True
  then obtain r block blue ms where r: "hget (records st) t = Some r" "wr_status r = P_Accepted block blue ms"
    by blast
  let ?new = "r\<lparr>wr_status := P_Finalized block blue ms\<rparr>"
  have lv: "live E st d" and sy: "synced X st" using ok by (auto simp: st_ok_def)
  have key: "wr_txid ?new = t" using live_key [OF lv r(1)] by simp
  have at0: "acc_at st t = Some block" using r by (simp add: acc_at_def accepted_at_def)
  obtain lg1 d1 r1 where up: "upsert (ae_codec E) (ts_log st) d t ?new = (lg1, d1, r1)" by (metis prod_cases3)
  from lv key up show ?thesis
  proof (cases rule: put_record_cases)
    case (failed e)
    have out: "st' = st\<lparr>ts_log := lg1\<rparr>" "d' = d1" using run r up failed(1) by (simp_all add: finalize_watch_def)
    have "acc_at st' u = acc_at st u" for u using failed(3) out(1) by (simp add: acc_at_def)
    then have "synced X st'" using synced_same [OF sy, of st'] out(1) by simp
    then show ?thesis using failed(2) out ok by (simp add: st_ok_def)
  next
    case (written b)
    have out: "st' = st\<lparr>ts_log := lg1, ts_by_block := index_drop block t (ts_by_block st)\<rparr>" "d' = d1"
      using run r up written(1) by (simp_all add: finalize_watch_def)
    have at: "acc_at st' u = (if u = t then None else acc_at st u)" for u
      using written(3) out(1) by (simp add: acc_at_def accepted_at_def)
    have "synced X st'" by (rule synced_off [OF sy at0 _ at]) (simp add: out(1))
    then show ?thesis using written(2) out ok by (simp add: st_ok_def live_def)
  qed
qed

lemma finalize_all_ok:
  "st_ok E X st d \<Longrightarrow> finalize_all E ts st d = (st', d') \<Longrightarrow> st_ok E X st' d'"
proof (induction ts arbitrary: st d)
  case Nil
  then show ?case by simp
next
  case (Cons t ts)
  obtain st1 d1 r1 where f: "finalize_watch E t st d = (st1, d1, r1)" by (metis prod_cases3)
  show ?case using Cons.IH [OF finalize_watch_ok [OF Cons.prems(1) f]] Cons.prems(2) f by simp
qed

lemma drop_watches_ok:
  "st_ok E X st d \<Longrightarrow> drop_watches E ts st d = (st', d', res) \<Longrightarrow>
   \<exists>Y. st_ok E Y st' d' \<and> X \<subseteq> Y \<and> (res = Inr () \<longrightarrow> Y = X)"
proof (induction ts arbitrary: st d)
  case Nil
  then show ?case by auto
next
  case (Cons t ts)
  obtain st1 d1 r1 where dr: "drop_watch E t st d = (st1, d1, r1)" by (metis prod_cases3)
  from Cons.prems(1) dr show ?case
  proof (cases rule: drop_watch_cases)
    case dropped
    then show ?thesis using Cons.IH [OF dropped(2)] Cons.prems(2) dr by simp
  next
    case (failed e)
    then show ?thesis using Cons.prems(2) dr by auto
  qed
qed

lemma prune_ok:
  "st_ok E X st d \<Longrightarrow> prune_beyond_horizon E now st d = (st', d', res) \<Longrightarrow>
   \<exists>Y. st_ok E Y st' d' \<and> X \<subseteq> Y \<and> (res = Inr () \<longrightarrow> Y = X)"
  unfolding prune_beyond_horizon_def by (rule drop_watches_ok)

lemma st_ok_flags:
  assumes "st_ok E X st d" and "ts_log st' = ts_log st" and "ts_by_block st' = ts_by_block st"
    and "ts_off st' = ts_off st"
  shows "st_ok E X st' d"
  using assms synced_same [of X st st'] unfolding st_ok_def live_def by (simp add: acc_at_def)

lemma on_sink_blue_ok:
  assumes ok: "st_ok E X st d" and run: "on_sink_blue E sink now st d = (st', d', res)"
  shows "\<exists>Y. st_ok E Y st' d' \<and> X \<subseteq> Y"
proof -
  let ?st = "st\<lparr>ts_sink := sink\<rparr>"
  have ok0: "st_ok E X ?st d" by (rule st_ok_flags [OF ok]) simp_all
  show ?thesis
  proof (cases "claims_depth ?st")
    case False
    obtain st1 d1 r1 where pr: "prune_beyond_horizon E now ?st d = (st1, d1, r1)" by (metis prod_cases3)
    have "st' = st1" "d' = d1" using run False pr by (auto simp: on_sink_blue_def Let_def split: sum.splits)
    then show ?thesis using prune_ok [OF ok0 pr] by blast
  next
    case True
    let ?rs = "hvals (records ?st)"
    obtain emitted events where fo: "foldl (confirm_one sink) (ts_confirmed ?st, []) ?rs = (emitted, events)"
      by fastforce
    have ok1: "st_ok E X (?st\<lparr>ts_confirmed := emitted\<rparr>) d" by (rule st_ok_flags [OF ok0]) simp_all
    obtain st2 d2 where fi: "finalize_all E (map wr_txid (filter (terminal sink) ?rs)) (?st\<lparr>ts_confirmed := emitted\<rparr>) d = (st2, d2)"
      by fastforce
    obtain st3 d3 r3 where pr: "prune_beyond_horizon E now st2 d2 = (st3, d3, r3)" by (metis prod_cases3)
    have "st' = st3" "d' = d3" using run True fo fi pr by (auto simp: on_sink_blue_def Let_def)
    then show ?thesis using prune_ok [OF finalize_all_ok [OF ok1 fi] pr] by blast
  qed
qed

lemma mark_emitted_fields [simp]:
  "ts_log (mark_emitted st ev) = ts_log st" "ts_by_block (mark_emitted st ev) = ts_by_block st"
  "ts_off (mark_emitted st ev) = ts_off st"
  by (cases ev; simp add: mark_emitted_def)+

lemma mark_fold_fields:
  "ts_log (foldl mark_emitted st evs) = ts_log st \<and> ts_by_block (foldl mark_emitted st evs) = ts_by_block st \<and>
   ts_off (foldl mark_emitted st evs) = ts_off st"
  by (induction evs arbitrary: st) simp_all

lemma tick_ok:
  assumes "st_ok E X st d" and "tick now st = (st', evs)"
  shows "st_ok E X st' d"
  by (rule st_ok_flags [OF assms(1)]) (use assms(2) mark_fold_fields in \<open>auto simp: tick_def Let_def split: if_splits\<close>)

lemma oc_ok_added_fold: "oc_ok oc \<Longrightarrow> oc_ok (foldl (\<lambda>oc b. oc_added b oc) oc bs)"
  by (induction bs arbitrary: oc) (simp_all add: oc_ok_added)

lemma note_added_ok:
  assumes "st_ok E X st d"
  shows "st_ok E X (note_added bs st) d"
  using assms synced_same [of X st "note_added bs st"] oc_ok_added_fold
  unfolding st_ok_def live_def by (simp add: note_added_def acc_at_def)

section \<open>Load\<close>

lemma index_of_spec:
  assumes "distinct (map wr_txid rs)"
  shows "idx_shape (index_of rs) \<and>
    (\<forall>b t. in_idx (index_of rs) b t \<longleftrightarrow> (\<exists>r \<in> set rs. wr_txid r = t \<and> accepted_at (wr_status r) = Some b))"
  using assms
proof (induction rs rule: rev_induct)
  case Nil
  then show ?case by (simp add: index_of_def idx_shape_def in_idx_def entry_def)
next
  case (snoc r rs)
  then have IH: "idx_shape (index_of rs)"
    "\<And>b t. in_idx (index_of rs) b t \<longleftrightarrow> (\<exists>r \<in> set rs. wr_txid r = t \<and> accepted_at (wr_status r) = Some b)"
    by auto
  have step: "index_of (rs @ [r]) = (case accepted_at (wr_status r) of
      None \<Rightarrow> index_of rs | Some b \<Rightarrow> index_put b (wr_txid r) (index_of rs))"
    unfolding index_of_def foldl_append by simp
  show ?case
  proof (cases "accepted_at (wr_status r)")
    case None
    then show ?thesis using IH step by simp
  next
    case (Some b)
    have "wr_txid r \<notin> wr_txid ` set rs" using snoc.prems by simp
    then have "\<not> in_idx (index_of rs) b (wr_txid r)" unfolding IH(2) by (metis image_eqI)
    then show ?thesis using IH step Some by (auto simp: idx_shape_put)
  qed
qed

lemma log_path_neq: "log_path E \<noteq> []"
  by (simp add: log_path_def)

lemma load_state_ok:
  assumes env: "env_ok E" and run: "load_state E (log_path E) d = (d', Inr st)"
  shows "st_ok E {} st d'"
proof -
  obtain lg where ld: "load (ae_codec E) (log_path E) d = (d', Inr lg)" and held: "lg_held lg = None"
    and st: "ts_log st = lg" "ts_by_block st = index_of (hvals (lg_records lg))" "ts_off st = no_off_chain"
    using run by (auto simp: load_state_def hold_def split: prod.splits sum.splits option.splits)
  have "codec_ok (ae_codec E)" using env by (simp add: env_ok_def)
  then have inv: "log_inv (ae_codec E) lg d'" "lg_path lg = log_path E"
    using load_cases [OF _ _ ld [unfolded load_def]] by (metis log_path_neq)+
  have lv: "live E st d'" using env inv held st(1) by (simp add: live_def)
  have ok: "hmap_ok (records st)" using inv st(1) by (simp add: log_inv_def log_wf_def)
  have key: "(k, r) \<in> set (records st) \<Longrightarrow> wr_txid r = k" for k r
    using live_key [OF lv] ok by (simp add: hmap_ok_mem)
  then have "map wr_txid (hvals (records st)) = hkeys (records st)" by auto
  then have "distinct (map wr_txid (hvals (records st)))" using ok unfolding hmap_ok_def by metis
  note S = index_of_spec [OF this]
  have "in_idx (ts_by_block st) b t \<longleftrightarrow> acc_at st t = Some b" for b t
  proof -
    have "in_idx (ts_by_block st) b t \<longleftrightarrow>
        (\<exists>(k, r) \<in> set (records st). wr_txid r = t \<and> accepted_at (wr_status r) = Some b)"
      using S st(1) unfolding st(2) by (simp add: case_prod_unfold)
    also have "\<dots> \<longleftrightarrow> (\<exists>r. hget (records st) t = Some r \<and> accepted_at (wr_status r) = Some b)"
      using key ok hmap_ok_mem [OF ok] by fastforce
    also have "\<dots> \<longleftrightarrow> acc_at st t = Some b" by (auto simp: acc_at_def split: option.splits)
    finally show ?thesis .
  qed
  then have "synced {} st" using S st unfolding synced_def by simp
  then show ?thesis using lv st(3) by (simp add: st_ok_def)
qed

end
