(* ===== verification/Utf8.thy ===== *)
theory Utf8
  imports Prelude
begin

text \<open>
  What the sources use of Rust's strings. A \<open>String\<close> is its bytes, one character each, and
  \<open>utf8_valid\<close> says that bytes are one. \<open>std::str::from_utf8\<close> answers the text or nothing;
  \<open>String::from_utf8_lossy\<close> puts the three bytes of U+FFFD for every maximal ill-formed
  piece, as \<open>Utf8Chunks\<close> of the standard library cuts them.
\<close>

definition byte_in :: "nat \<Rightarrow> nat \<Rightarrow> byte \<Rightarrow> bool" where
  "byte_in lo hi b \<longleftrightarrow> lo \<le> unat b \<and> unat b \<le> hi"

definition second_ok :: "byte \<Rightarrow> byte \<Rightarrow> bool" where
  "second_ok b0 b1 \<longleftrightarrow>
     (if unat b0 = 0xE0 then byte_in 0xA0 0xBF b1
      else if unat b0 = 0xED then byte_in 0x80 0x9F b1
      else if unat b0 = 0xF0 then byte_in 0x90 0xBF b1
      else if unat b0 = 0xF4 then byte_in 0x80 0x8F b1
      else byte_in 0x80 0xBF b1)"

text \<open>How many bytes a character starting with this byte has; none when none does.\<close>

definition utf8_width :: "byte \<Rightarrow> nat" where
  "utf8_width b = (if byte_in 0 0x7F b then 1 else if byte_in 0xC2 0xDF b then 2
     else if byte_in 0xE0 0xEF b then 3 else if byte_in 0xF0 0xF4 b then 4 else 0)"

text \<open>The first piece of a byte string: its length, and whether it is a character.\<close>

fun utf8_first :: "byte \<Rightarrow> bytes \<Rightarrow> nat \<times> bool" where
  "utf8_first b0 rest = (let w = utf8_width b0 in
     if w = 0 then (1, False)
     else if w = 1 then (1, True)
     else (case rest of
       [] \<Rightarrow> (1, False)
     | b1 # r1 \<Rightarrow>
         if \<not> second_ok b0 b1 then (1, False)
         else if w = 2 then (2, True)
         else (case r1 of
           [] \<Rightarrow> (2, False)
         | b2 # r2 \<Rightarrow>
             if \<not> byte_in 0x80 0xBF b2 then (2, False)
             else if w = 3 then (3, True)
             else (case r2 of
               [] \<Rightarrow> (3, False)
             | b3 # _ \<Rightarrow> if byte_in 0x80 0xBF b3 then (4, True) else (3, False)))))"

declare utf8_first.simps [simp del]

lemma utf8_first_bounds:
  assumes "utf8_first b bs = (n, ok)"
  shows "0 < n" and "n \<le> Suc (length bs)" and "n \<le> 4"
  using assms
  by (auto simp: utf8_first.simps Let_def split: if_splits list.splits)

function utf8_valid :: "bytes \<Rightarrow> bool" where
  "utf8_valid [] = True"
| "utf8_valid (b # bs) = (case utf8_first b bs of (n, ok) \<Rightarrow> ok \<and> utf8_valid (drop n (b # bs)))"
  by pat_completeness auto
termination
  by (relation "measure length") (auto dest!: utf8_first_bounds(1) [OF sym])

declare utf8_valid.simps(2) [simp del]

definition replacement :: bytes where
  "replacement = [0xEF, 0xBF, 0xBD]"

function utf8_lossy :: "bytes \<Rightarrow> bytes" where
  "utf8_lossy [] = []"
| "utf8_lossy (b # bs) = (case utf8_first b bs of (n, ok) \<Rightarrow>
     (if ok then take n (b # bs) else replacement) @ utf8_lossy (drop n (b # bs)))"
  by pat_completeness auto
termination
  by (relation "measure length") (auto dest!: utf8_first_bounds(1) [OF sym])

declare utf8_lossy.simps(2) [simp del]

definition from_utf8 :: "bytes \<Rightarrow> string option" where
  "from_utf8 bs = (if utf8_valid bs then Some (text_of bs) else None)"

definition from_utf8_lossy :: "bytes \<Rightarrow> string" where
  "from_utf8_lossy bs = text_of (utf8_lossy bs)"

section \<open>Valid text is kept\<close>

lemma utf8_lossy_valid: "utf8_valid bs \<Longrightarrow> utf8_lossy bs = bs"
proof (induction bs rule: utf8_valid.induct)
  case (2 b bs)
  obtain n ok where f: "utf8_first b bs = (n, ok)" by (cases "utf8_first b bs")
  then have "ok" "utf8_valid (drop n (b # bs))" using 2(2) by (auto simp: utf8_valid.simps(2))
  then have "utf8_lossy (drop n (b # bs)) = drop n (b # bs)" using 2(1) [OF f [symmetric]] by blast
  then show ?case using f \<open>ok\<close> by (simp add: utf8_lossy.simps(2) del: take.simps drop.simps)
qed simp

lemma from_utf8_lossy_valid: "from_utf8 bs = Some s \<Longrightarrow> from_utf8_lossy bs = s"
  by (auto simp: from_utf8_def from_utf8_lossy_def utf8_lossy_valid split: if_splits)

lemma from_utf8_ascii: "utf8_valid (ascii s) \<Longrightarrow> from_utf8 (ascii s) = Some s"
  by (simp add: from_utf8_def)

lemma from_utf8_Some: "from_utf8 bs = Some s \<longleftrightarrow> utf8_valid bs \<and> bs = ascii s"
  by (auto simp: from_utf8_def)

lemma utf8_first_ascii: "unat b < 128 \<Longrightarrow> utf8_first b bs = (1, True)"
  by (simp add: utf8_first.simps utf8_width_def byte_in_def)

lemma utf8_valid_ascii: "\<forall>b \<in> set bs. unat b < 128 \<Longrightarrow> utf8_valid bs"
  by (induction bs) (simp_all add: utf8_valid.simps(2) utf8_first_ascii)

text \<open>A lossy reading is at most three times as long.\<close>

lemma length_utf8_lossy: "length (utf8_lossy bs) \<le> 3 * length bs"
proof (induction bs rule: utf8_lossy.induct)
  case (2 b bs)
  obtain n ok where f: "utf8_first b bs = (n, ok)" by (cases "utf8_first b bs")
  note bound = utf8_first_bounds [OF f]
  have "length (utf8_lossy (drop n (b # bs))) \<le> 3 * (Suc (length bs) - n)"
    using 2 [OF f [symmetric]] by simp
  moreover have "length (take n (b # bs)) = n" using bound by simp
  ultimately show ?case using f bound by (simp add: utf8_lossy.simps(2) replacement_def del: take.simps drop.simps) linarith
qed simp

lemma length_from_utf8_lossy: "length (from_utf8_lossy bs) \<le> 3 * length bs"
  by (simp add: from_utf8_lossy_def text_of_def length_utf8_lossy)

text \<open>Text joined to text is text.\<close>

lemma utf8_first_append:
  assumes "utf8_first b bs = (n, True)"
  shows "utf8_first b (bs @ cs) = (n, True)"
  using assms by (auto simp: utf8_first.simps Let_def split: if_splits list.splits)

lemma utf8_valid_append: "utf8_valid xs \<Longrightarrow> utf8_valid (xs @ ys) \<longleftrightarrow> utf8_valid ys"
proof (induction xs rule: utf8_valid.induct)
  case (2 b bs)
  obtain n where f: "utf8_first b bs = (n, True)" and v: "utf8_valid (drop n (b # bs))"
    using 2(2) by (auto simp: utf8_valid.simps(2) split: prod.splits)
  have "drop n ((b # bs) @ ys) = drop n (b # bs) @ ys"
    using utf8_first_bounds(2) [OF f] by (subst drop_append) simp
  then show ?case
    using 2(1) [OF f [symmetric] v] utf8_first_append [OF f, of ys]
    by (simp add: utf8_valid.simps(2) del: drop.simps)
qed simp

end
