(* ===== verification/Rust_Str.thy ===== *)
theory Rust_Str
  imports Utf8
begin

text \<open>
  What the sources use of \<open>str\<close>: the ASCII classes, \<open>parse\<close> for the unsigned integers,
  \<open>from_str_radix\<close> for hex bytes, and \<open>trim\<close>, which takes off every character with the Unicode
  property \<open>White_Space\<close>.
\<close>

definition is_ascii_digit :: "char \<Rightarrow> bool" where
  "is_ascii_digit ch \<longleftrightarrow> ch \<in> set ''0123456789''"

definition is_ascii_lowercase :: "char \<Rightarrow> bool" where
  "is_ascii_lowercase ch \<longleftrightarrow> ch \<in> set ''abcdefghijklmnopqrstuvwxyz''"

definition is_ascii_uppercase :: "char \<Rightarrow> bool" where
  "is_ascii_uppercase ch \<longleftrightarrow> ch \<in> set ''ABCDEFGHIJKLMNOPQRSTUVWXYZ''"

definition is_ascii_alphanumeric :: "char \<Rightarrow> bool" where
  "is_ascii_alphanumeric ch \<longleftrightarrow> is_ascii_digit ch \<or> is_ascii_lowercase ch \<or> is_ascii_uppercase ch"

definition is_ascii_hexdigit :: "char \<Rightarrow> bool" where
  "is_ascii_hexdigit ch \<longleftrightarrow> is_ascii_digit ch \<or> ch \<in> set ''abcdef'' \<or> ch \<in> set ''ABCDEF''"

definition hex_value :: "char \<Rightarrow> nat option" where
  "hex_value ch = (if is_ascii_digit ch then Some (of_char ch - 48)
     else if ch \<in> set ''abcdef'' then Some (of_char ch - 87)
     else if ch \<in> set ''ABCDEF'' then Some (of_char ch - 55) else None)"

definition digits_value :: "string \<Rightarrow> nat" where
  "digits_value s = foldl (\<lambda>n ch. 10 * n + (of_char ch - 48)) 0 s"

definition strip_plus :: "string \<Rightarrow> string" where
  "strip_plus s = (if s \<noteq> [] \<and> hd s = CHR ''+'' then tl s else s)"

text \<open>\<open>str::parse\<close> into an unsigned integer with this greatest value: one plus sign is allowed.\<close>

definition parse_unsigned :: "nat \<Rightarrow> string \<Rightarrow> nat option" where
  "parse_unsigned limit s =
     (let s' = strip_plus s in
      if s' = [] \<or> \<not> list_all is_ascii_digit s' \<or> limit < digits_value s' then None
      else Some (digits_value s'))"

definition u32_max :: nat where
  "u32_max = 4294967295"

section \<open>Printed numbers read back\<close>

lemma digit_cases: "n < 10 \<Longrightarrow> is_ascii_digit (digit n) \<and> of_char (digit n) - 48 = n"
proof -
  assume "n < 10"
  then consider "n = 0" | "n = 1" | "n = 2" | "n = 3" | "n = 4" | "n = 5" | "n = 6" | "n = 7" | "n = 8" | "n = 9"
    by (auto simp: numeral_eq_Suc less_Suc_eq)
  then show ?thesis by cases (simp_all add: digit_def is_ascii_digit_def)
qed

lemma decimal_digits: "list_all is_ascii_digit (decimal n)"
proof (induction n rule: decimal.induct)
  case (1 n)
  then show ?case by (subst decimal.simps) (simp add: digit_cases)
qed

lemma decimal_nonempty: "decimal n \<noteq> []"
  by (subst decimal.simps) simp

lemma digits_value_decimal: "digits_value (decimal n) = n"
proof (induction n rule: decimal.induct)
  case (1 n)
  show ?case
  proof (cases "n < 10")
    case True
    then show ?thesis by (subst decimal.simps) (simp add: digits_value_def digit_cases)
  next
    case False
    then have "digits_value (decimal (n div 10)) = n div 10" by (rule 1)
    then show ?thesis using False digit_cases [of "n mod 10"]
      by (subst decimal.simps) (simp add: digits_value_def)
  qed
qed

lemma digit_not_plus: "is_ascii_digit ch \<Longrightarrow> ch \<noteq> CHR ''+''"
  by (auto simp: is_ascii_digit_def)

lemma parse_decimal: "n \<le> limit \<Longrightarrow> parse_unsigned limit (decimal n) = Some n"
proof -
  assume "n \<le> limit"
  obtain d ds where d: "decimal n = d # ds" using decimal_nonempty by (cases "decimal n") auto
  then have "d \<noteq> CHR ''+''" using decimal_digits [of n] by (auto dest: digit_not_plus)
  then have "strip_plus (decimal n) = decimal n" unfolding d by (simp add: strip_plus_def)
  then show ?thesis using \<open>n \<le> limit\<close> decimal_digits decimal_nonempty digits_value_decimal
    by (simp add: parse_unsigned_def)
qed

section \<open>Whitespace\<close>

definition whitespace :: "string list" where
  "whitespace =
     [[CHR 0x09], [CHR 0x0A], [CHR 0x0B], [CHR 0x0C], [CHR 0x0D], [CHR 0x20],
      [CHR 0xC2, CHR 0x85], [CHR 0xC2, CHR 0xA0], [CHR 0xE1, CHR 0x9A, CHR 0x80],
      [CHR 0xE2, CHR 0x80, CHR 0x80], [CHR 0xE2, CHR 0x80, CHR 0x81], [CHR 0xE2, CHR 0x80, CHR 0x82],
      [CHR 0xE2, CHR 0x80, CHR 0x83], [CHR 0xE2, CHR 0x80, CHR 0x84], [CHR 0xE2, CHR 0x80, CHR 0x85],
      [CHR 0xE2, CHR 0x80, CHR 0x86], [CHR 0xE2, CHR 0x80, CHR 0x87], [CHR 0xE2, CHR 0x80, CHR 0x88],
      [CHR 0xE2, CHR 0x80, CHR 0x89], [CHR 0xE2, CHR 0x80, CHR 0x8A], [CHR 0xE2, CHR 0x80, CHR 0xA8],
      [CHR 0xE2, CHR 0x80, CHR 0xA9], [CHR 0xE2, CHR 0x80, CHR 0xAF], [CHR 0xE2, CHR 0x81, CHR 0x9F],
      [CHR 0xE3, CHR 0x80, CHR 0x80]]"

text \<open>Takes words of the list off the front for as long as one fits.\<close>

function strip_words :: "string list \<Rightarrow> string \<Rightarrow> string" where
  "strip_words ws s = (case find (\<lambda>w. w \<noteq> [] \<and> starts_with s w) ws of
     None \<Rightarrow> s | Some w \<Rightarrow> strip_words ws (drop (length w) s))"
  by pat_completeness auto
termination
proof (relation "measure (\<lambda>(ws, s). length s)")
  fix ws :: "string list" and s w
  assume "find (\<lambda>w. w \<noteq> [] \<and> starts_with s w) ws = Some w"
  then have "w \<noteq> []" "starts_with s w" by (auto simp: find_Some_iff)
  then have "s \<noteq> []" by (auto simp: starts_with_def)
  then show "((ws, drop (length w) s), ws, s) \<in> measure (\<lambda>(ws, s). length s)" using \<open>w \<noteq> []\<close> by simp
qed simp

declare strip_words.simps [simp del]

definition trim_start :: "string \<Rightarrow> string" where
  "trim_start s = strip_words whitespace s"

definition trim_end :: "string \<Rightarrow> string" where
  "trim_end s = rev (strip_words (map rev whitespace) (rev s))"

definition trim :: "string \<Rightarrow> string" where
  "trim s = trim_end (trim_start s)"

lemma strip_words_suffix: "\<exists>p. s = p @ strip_words ws s"
proof (induction ws s rule: strip_words.induct)
  case (1 ws s)
  show ?case
  proof (cases "find (\<lambda>w. w \<noteq> [] \<and> starts_with s w) ws")
    case None
    then show ?thesis by (subst strip_words.simps) simp
  next
    case (Some w)
    from 1 [OF Some] obtain p where "drop (length w) s = p @ strip_words ws (drop (length w) s)" ..
    then have "s = (take (length w) s @ p) @ strip_words ws (drop (length w) s)"
      by (metis append.assoc append_take_drop_id)
    moreover have "strip_words ws s = strip_words ws (drop (length w) s)"
      using Some by (subst strip_words.simps) simp
    ultimately show ?thesis by metis
  qed
qed

lemma strip_words_stop: "find (\<lambda>w. w \<noteq> [] \<and> starts_with (strip_words ws s) w) ws = None"
proof (induction ws s rule: strip_words.induct)
  case (1 ws s)
  show ?case
  proof (cases "find (\<lambda>w. w \<noteq> [] \<and> starts_with s w) ws")
    case None
    then show ?thesis by (subst strip_words.simps) simp
  next
    case (Some w)
    then have "strip_words ws s = strip_words ws (drop (length w) s)" by (subst strip_words.simps) simp
    then show ?thesis using 1 [OF Some] by simp
  qed
qed

lemma strip_words_idem: "strip_words ws (strip_words ws s) = strip_words ws s"
  using strip_words_stop [of ws s] by (subst (1) strip_words.simps) simp

lemma trim_end_prefix: "\<exists>r. s = trim_end s @ r"
proof -
  obtain p where "rev s = p @ strip_words (map rev whitespace) (rev s)" using strip_words_suffix by blast
  then have "s = rev (strip_words (map rev whitespace) (rev s)) @ rev p" by (metis rev_append rev_rev_ident)
  then show ?thesis unfolding trim_end_def by blast
qed

lemma trim_end_idem [simp]: "trim_end (trim_end s) = trim_end s"
  by (simp add: trim_end_def strip_words_idem)

lemma trim_trim_end [simp]: "trim_end (trim s) = trim s"
  by (simp add: trim_def)

text \<open>A text that ends in a character no whitespace ends in stays as it is.\<close>

lemma whitespace_last: "list_all (\<lambda>w. last w \<notin> set ''.0123456789abcdefghijklmnopqrstuvwxyz'') whitespace"
  by (simp add: whitespace_def)

lemma trim_end_kept:
  assumes "last s \<in> set ''.0123456789abcdefghijklmnopqrstuvwxyz''"
  shows "trim_end s = s"
proof -
  have none: "find (\<lambda>w. w \<noteq> [] \<and> starts_with (rev s) w) (map rev whitespace) = None"
  proof (subst find_None_iff, rule notI)
    assume "\<exists>w. w \<in> set (map rev whitespace) \<and> w \<noteq> [] \<and> starts_with (rev s) w"
    then obtain w where w: "w \<in> set whitespace" "w \<noteq> []" "starts_with (rev s) (rev w)" by auto
    then have "hd (rev s) = hd (rev w)" unfolding starts_with_def by (metis hd_take length_greater_0_conv rev_is_Nil_conv)
    then have "last s = last w" by (simp add: hd_rev)
    then show False using w(1) whitespace_last assms by (auto simp: list_all_iff)
  qed
  show ?thesis unfolding trim_end_def by (subst strip_words.simps) (simp add: none)
qed

end
