(* ===== verification/Acceptance_Tracker.thy ===== *)
theory Acceptance_Tracker
  imports Acceptance_Inv Rust_Str
begin

text \<open>
  The async shell of the acceptance tracker (\<open>rust/chain/src/acceptance.rs\<close>,
  \<open>AcceptanceTracker\<close>): the cursor file and its hold, the fold of a live batch and of a page of
  the message walk, the catch-up walk page by page, and the run loop that polls the walk beside
  the live feed.

  The node, the clocks and the hash parser are outside the program: a \<open>node\<close> answers the
  n-th call however it likes, so a lemma for every \<open>node\<close> covers every sequence of replies.
  The tracker, the disk and the number of calls made so far are one record, \<open>sys\<close>; the
  broadcast channel is the list of events sent. Each \<open>await\<close> on the node is one call; a page of
  the walk and the fold of a batch are each one step of the run loop.
\<close>

section \<open>The tracker and its surroundings\<close>

record block_facts =
  bf_blue :: nat
  bf_daa :: nat
  bf_time :: nat

record vcc_batch =
  vb_removed :: "string list"
  vb_added :: "string list"
  vb_accepted :: "(string \<times> string list) list"

record walk_acceptance =
  wa_block :: string
  wa_blue :: nat
  wa_daa :: nat
  wa_ms :: nat
  wa_txids :: "string list"

record walk_batch =
  wb_removed :: "string list"
  wb_accepted :: "walk_acceptance list"

datatype tracker_feed = F_Vcc vcc_batch | F_Walk walk_batch

record node =
  nd_block :: "nat \<Rightarrow> string \<Rightarrow> block_facts option"
  nd_sink_blue :: "nat \<Rightarrow> nat option"
  nd_sink :: "nat \<Rightarrow> string option"
  nd_page :: "nat \<Rightarrow> string \<Rightarrow> vcc_batch option"
  nd_clock :: "nat \<Rightarrow> nat"
  nd_instant :: "nat \<Rightarrow> nat"
  nd_parse_hash :: "string \<Rightarrow> string option"

record sys =
  sy_state :: tracker_state
  sy_events :: "acceptance_event list"
  sy_cursor_path :: path
  sy_cursor_written :: nat
  sy_frozen :: bool
  sy_frozen_since :: nat
  sy_holds :: nat
  sy_force_owed :: bool
  sy_interest :: "string list"
  sy_matched :: matched_memory
  sy_disk :: disk
  sy_calls :: nat

definition max_vcc_catchup_pages :: nat where "max_vcc_catchup_pages = 16"
definition vcc_tip_page_threshold :: nat where "vcc_tip_page_threshold = 100"
definition vcc_page_attempts :: nat where "vcc_page_attempts = 8"
definition cursor_min_write_secs :: nat where "cursor_min_write_secs = 3"

text \<open>One call out: its number, and the system with the call counted.\<close>

definition called :: "sys \<Rightarrow> sys" where
  "called s = s\<lparr>sy_calls := sy_calls s + 1\<rparr>"

definition now_unix_ms :: "node \<Rightarrow> sys \<Rightarrow> nat \<times> sys" where
  "now_unix_ms N s = (nd_clock N (sy_calls s), called s)"

definition broadcast :: "acceptance_event list \<Rightarrow> sys \<Rightarrow> sys" where
  "broadcast evs s = s\<lparr>sy_events := sy_events s @ evs\<rparr>"

text \<open>An operation of the state, run under the state's lock.\<close>

definition locked :: "(tracker_state \<Rightarrow> disk \<Rightarrow> tracker_state \<times> disk \<times> 'r) \<Rightarrow> sys \<Rightarrow> sys \<times> 'r" where
  "locked f s = (case f (sy_state s) (sy_disk s) of (st, d, r) \<Rightarrow> (s\<lparr>sy_state := st, sy_disk := d\<rparr>, r))"

definition load_tracker :: "acc_env \<Rightarrow> disk \<Rightarrow> disk \<times> (load_error + sys)" where
  "load_tracker E d =
     (case load_state E (log_path E) d of
        (d, Inl e) \<Rightarrow> (d, Inl e)
      | (d, Inr st) \<Rightarrow> (d, Inr \<lparr>sy_state = st, sy_events = [], sy_cursor_path = cursor_path E,
          sy_cursor_written = 0, sy_frozen = False, sy_frozen_since = 0, sy_holds = 0,
          sy_force_owed = False, sy_interest = [], sy_matched = no_memory, sy_disk = d, sy_calls = 0\<rparr>))"

definition walking_begin :: "sys \<Rightarrow> sys" where
  "walking_begin s = s\<lparr>sy_state := (sy_state s)\<lparr>ts_walking := True\<rparr>\<rparr>"

definition walking_drop :: "sys \<Rightarrow> sys" where
  "walking_drop s = s\<lparr>sy_state := (sy_state s)\<lparr>ts_walking := False, ts_ahead := []\<rparr>\<rparr>"

section \<open>Watches and senders\<close>

definition tracker_watch :: "acc_env \<Rightarrow> node \<Rightarrow> string \<Rightarrow> watch_source \<Rightarrow> sys \<Rightarrow> sys" where
  "tracker_watch E N txid source s =
     (if is_watched (sy_state s) txid then s
      else
        let remembered = (if source = Transport then mm_get (sy_matched s) txid else None);
            (now, s) = now_unix_ms N s
        in (case remembered of
              Some r \<Rightarrow> (case locked (watch_remembered E txid source now r) s of
                          (s, Inl _) \<Rightarrow> s | (s, Inr events) \<Rightarrow> broadcast events s)
            | None \<Rightarrow> (case locked (watch_state E txid source now) s of (s, _) \<Rightarrow> s)))"

definition note_sender_interest :: "string \<Rightarrow> sys \<Rightarrow> sys" where
  "note_sender_interest txid s =
     (if txid \<in> set (sy_interest s) then s
      else
        let known = (case mm_get (sy_matched s) txid of
              Some (RAccepted block _ daa _) \<Rightarrow>
                if oc_contains (ts_off (sy_state s)) block then None else Some daa
            | _ \<Rightarrow> None)
        in (case known of
              Some daa \<Rightarrow> broadcast [E_SenderResolvable txid daa] s
            | None \<Rightarrow> s\<lparr>sy_interest := interest_push txid (sy_interest s)\<rparr>))"

definition take_one :: "nat \<Rightarrow> string list \<times> acceptance_event list \<Rightarrow> string \<Rightarrow> string list \<times> acceptance_event list" where
  "take_one daa s txid =
     (case s of (q, out) \<Rightarrow>
        if txid \<in> set q then (remove1 txid q, out @ [E_SenderResolvable txid daa]) else (q, out))"

definition take_resolvable :: "string list \<Rightarrow> nat \<Rightarrow> sys \<Rightarrow> sys \<times> acceptance_event list" where
  "take_resolvable txids daa s =
     (case foldl (take_one daa) (sy_interest s, []) txids of (q, out) \<Rightarrow> (s\<lparr>sy_interest := q\<rparr>, out))"

section \<open>The cursor\<close>

definition read_cursor :: "node \<Rightarrow> sys \<Rightarrow> sys \<times> string option" where
  "read_cursor N s =
     (case read_file (sy_cursor_path s) (sy_disk s) of
        (d, Inl _) \<Rightarrow> (s\<lparr>sy_disk := d\<rparr>, None)
      | (d, Inr bs) \<Rightarrow> (s\<lparr>sy_disk := d\<rparr>, Option.bind (from_utf8 bs) (\<lambda>text. nd_parse_hash N (trim text))))"

definition write_cursor :: "node \<Rightarrow> string \<Rightarrow> bool \<Rightarrow> sys \<Rightarrow> sys" where
  "write_cursor N hash force s =
     (let (ms, s) = now_unix_ms N s; now = ms div 1000 in
      if \<not> force \<and> now - sy_cursor_written s < cursor_min_write_secs then s
      else
        let s = s\<lparr>sy_cursor_written := now\<rparr> in
        (case atomic_write (sy_cursor_path s) (ascii hash) (sy_disk s) of
           (d, Inl _) \<Rightarrow> (let s = s\<lparr>sy_disk := d\<rparr> in if force then s\<lparr>sy_force_owed := True\<rparr> else s)
         | (d, Inr _) \<Rightarrow> s\<lparr>sy_disk := d\<rparr>))"

definition freeze_cursor :: "node \<Rightarrow> sys \<Rightarrow> sys" where
  "freeze_cursor N s =
     (if sy_frozen s then s
      else let (now, s) = now_unix_ms N (s\<lparr>sy_frozen := True\<rparr>) in
           s\<lparr>sy_frozen_since := now, sy_holds := sy_holds s + 1,
             sy_state := (sy_state s)\<lparr>ts_depth_held := True\<rparr>\<rparr>)"

definition release_cursor :: "sys \<Rightarrow> sys" where
  "release_cursor s =
     (if sy_frozen s then
        s\<lparr>sy_frozen := False, sy_frozen_since := 0, sy_state := (sy_state s)\<lparr>ts_depth_held := False\<rparr>\<rparr>
      else s)"

definition keeps_hold :: "acc_env \<Rightarrow> node \<Rightarrow> sys \<Rightarrow> sys \<times> bool" where
  "keeps_hold E N s =
     (if sy_frozen s \<and> sy_frozen_since s \<noteq> 0 then
        (let (now, s') = now_unix_ms N s in (s', now - sy_frozen_since s < pruning_horizon_ms E))
      else (s, False))"

section \<open>Folding a batch\<close>

record accepting_block =
  ab_blue :: nat
  ab_daa :: "nat option"
  ab_ms :: nat

definition accepted_stamp :: "block_facts \<Rightarrow> nat" where
  "accepted_stamp b = bf_time b"

definition read_accepting_block :: "node \<Rightarrow> string \<Rightarrow> sys \<Rightarrow> sys \<times> accepting_block option" where
  "read_accepting_block N block s =
     (case nd_block N (sy_calls s) block of
        Some b \<Rightarrow> (called s, Some \<lparr>ab_blue = bf_blue b, ab_daa = Some (bf_daa b), ab_ms = accepted_stamp b\<rparr>)
      | None \<Rightarrow>
          let s = called s; bound = (\<lambda>sink. Some \<lparr>ab_blue = sink, ab_daa = None, ab_ms = 0\<rparr>) in
          if ts_sink (sy_state s) = 0 then
            (case nd_sink_blue N (sy_calls s) of
               Some blue \<Rightarrow> (called (s\<lparr>sy_state := (sy_state s)\<lparr>ts_sink := blue\<rparr>\<rparr>), bound blue)
             | None \<Rightarrow> (called s, None))
          else (s, bound (ts_sink (sy_state s))))"

text \<open>What one accepting block of a batch carries that someone cares about.\<close>

type_synonym batch_match = "string \<times> string list \<times> string list"

definition batch_matches :: "tracker_state \<Rightarrow> string list \<Rightarrow> (string \<times> string list) list \<Rightarrow> batch_match list" where
  "batch_matches st interest accepted =
     filter (\<lambda>(_, watched, wanted). watched \<noteq> [] \<or> wanted \<noteq> [])
       (map (\<lambda>(block, txids). (block, filter (is_watched st) txids, filter (\<lambda>t. t \<in> set interest) txids)) accepted)"

definition fold_match :: "acc_env \<Rightarrow> node \<Rightarrow> sys \<times> bool \<Rightarrow> batch_match \<Rightarrow> sys \<times> bool" where
  "fold_match E N sc m =
     (case (sc, m) of ((s, complete), (block, txids, wanted)) \<Rightarrow>
      (case read_accepting_block N block s of
         (s, None) \<Rightarrow> (s, complete \<and> txids = [])
       | (s, Some facts) \<Rightarrow>
           let s = (case ab_daa facts of
                 Some daa \<Rightarrow>
                   if wanted = [] then s
                   else (case take_resolvable wanted daa s of (s, out) \<Rightarrow> broadcast out s)
               | None \<Rightarrow> s)
           in if txids = [] then (s, complete)
              else (case locked (on_accepted E block (ab_blue facts) txids (ab_ms facts)) s of
                      (s, f) \<Rightarrow> (broadcast (fo_events f) s, complete \<and> fo_failed f = None))))"

definition fold_removals :: "acc_env \<Rightarrow> vcc_batch \<Rightarrow> nat \<Rightarrow> sys \<Rightarrow> sys \<times> bool" where
  "fold_removals E batch now s =
     (if vb_removed batch = [] then (s, True)
      else (case locked (on_removed E (vb_removed batch) now) s of
              (s, f) \<Rightarrow> (broadcast (fo_events f) s, fo_failed f = None)))"

definition fold_batch :: "acc_env \<Rightarrow> node \<Rightarrow> vcc_batch \<Rightarrow> sys \<Rightarrow> sys \<times> bool \<times> bool" where
  "fold_batch E N batch s =
     (let (now, s) = now_unix_ms N s;
          (s, complete) = fold_removals E batch now s;
          s = s\<lparr>sy_state := note_added (vb_added batch) (sy_state s)\<rparr>;
          (s, complete) = foldl (fold_match E N) (s, complete)
            (batch_matches (sy_state s) (sy_interest s) (vb_accepted batch));
          accepted = list_ex (holds_acceptance_at (sy_state s)) (vb_added batch)
      in (s, complete, accepted))"

definition fold_live :: "acc_env \<Rightarrow> node \<Rightarrow> vcc_batch \<Rightarrow> sys \<Rightarrow> sys" where
  "fold_live E N batch s =
     (case fold_batch E N batch s of
        (s, complete, accepted) \<Rightarrow>
          if \<not> complete then freeze_cursor N s
          else if \<not> sy_frozen s then
            (if vb_added batch = [] then s
             else write_cursor N (last (vb_added batch)) (accepted \<or> sy_force_owed s) (s\<lparr>sy_force_owed := False\<rparr>))
          else s)"

section \<open>Reading ahead of a walk\<close>

definition ahead_due :: "tracker_state \<Rightarrow> vcc_batch \<Rightarrow> (string \<times> string list) list" where
  "ahead_due st batch =
     filter (\<lambda>(_, due). due \<noteq> [])
       (map (\<lambda>(block, txids). (block, filter (awaits_first_acceptance st) txids)) (vb_accepted batch))"

definition ahead_one :: "node \<Rightarrow> sys \<Rightarrow> string \<times> string list \<Rightarrow> sys" where
  "ahead_one N s m =
     (case m of (block, txids) \<Rightarrow>
      (case read_accepting_block N block s of
         (s, None) \<Rightarrow> s
       | (s, Some facts) \<Rightarrow>
           broadcast (map E_Accepted txids)
             (s\<lparr>sy_state := (sy_state s)\<lparr>ts_ahead :=
                  foldl (\<lambda>m t. hput t (block, ab_blue facts, ab_ms facts) m) (ts_ahead (sy_state s)) txids\<rparr>\<rparr>)))"

definition fold_ahead :: "node \<Rightarrow> vcc_batch \<Rightarrow> sys \<Rightarrow> sys" where
  "fold_ahead N batch s = foldl (ahead_one N) s (ahead_due (sy_state s) batch)"

section \<open>A page of the message walk\<close>

definition walk_tell ::
  "acc_env \<Rightarrow> walk_acceptance \<Rightarrow> sys \<times> acceptance_event list \<Rightarrow> string \<Rightarrow> sys \<times> acceptance_event list" where
  "walk_tell E a se txid =
     (case se of (s, events) \<Rightarrow>
      (case locked (walk_accepted E txid (wa_block a) (wa_blue a) (wa_ms a)) s of
         (s, Inl _) \<Rightarrow> (s, events)
       | (s, Inr evs) \<Rightarrow> (s, events @ evs)))"

definition walk_remember :: "walk_acceptance \<Rightarrow> bool \<Rightarrow> nat \<Rightarrow> matched_memory \<Rightarrow> string \<Rightarrow> matched_memory" where
  "walk_remember a off now mm txid =
     mm_remember txid
       (if off then RDisplaced now (wa_block a)
        else RAccepted (wa_block a) (wa_blue a) (wa_daa a) (wa_ms a)) now mm"

definition walk_one ::
  "acc_env \<Rightarrow> nat \<Rightarrow> sys \<times> acceptance_event list \<times> (string list \<times> nat) list \<Rightarrow> walk_acceptance \<Rightarrow>
   sys \<times> acceptance_event list \<times> (string list \<times> nat) list" where
  "walk_one E now sv a =
     (case sv of (s, events, resolvable) \<Rightarrow>
        let off = oc_contains (ts_off (sy_state s)) (wa_block a);
            (s, events) = foldl (walk_tell E a) (s, events) (wa_txids a);
            s = s\<lparr>sy_matched := foldl (walk_remember a off now) (sy_matched s) (wa_txids a)\<rparr>
        in (s, events, if off then resolvable else resolvable @ [(wa_txids a, wa_daa a)]))"

definition resolve_one :: "sys \<times> acceptance_event list \<Rightarrow> string list \<times> nat \<Rightarrow> sys \<times> acceptance_event list" where
  "resolve_one se r =
     (case se of (s, events) \<Rightarrow> (case take_resolvable (fst r) (snd r) s of (s, out) \<Rightarrow> (s, events @ out)))"

definition fold_walk :: "acc_env \<Rightarrow> node \<Rightarrow> walk_batch \<Rightarrow> sys \<Rightarrow> sys" where
  "fold_walk E N batch s =
     (let (now, s) = now_unix_ms N s;
          s = (if wb_removed batch = [] then s
               else s\<lparr>sy_matched := mm_displace (wb_removed batch) now (sy_matched s)\<rparr>);
          (s, events, resolvable) = foldl (walk_one E now) (s, [], []) (wb_accepted batch);
          (s, events) = foldl resolve_one (s, events) resolvable
      in broadcast events s)"

section \<open>Catch-up\<close>

text \<open>The bounded retries of one page: the attempts left, and the reply if one came.\<close>

fun catch_up_page :: "nat \<Rightarrow> node \<Rightarrow> string \<Rightarrow> sys \<Rightarrow> sys \<times> vcc_batch option" where
  "catch_up_page 0 N cursor s = (s, None)"
| "catch_up_page (Suc n) N cursor s =
     (case nd_page N (sy_calls s) cursor of
        Some resp \<Rightarrow> (called s, Some resp)
      | None \<Rightarrow> catch_up_page n N cursor (called s))"

text \<open>A walk between two pages: not begun, at a cursor with its pages left, or over.\<close>

datatype walk_state = W_Start | W_At (w_cursor: string) (w_clean: bool) (w_pages: nat) | W_Done

definition reseed :: "node \<Rightarrow> sys \<Rightarrow> sys" where
  "reseed N s =
     (case nd_sink N (sy_calls s) of
        Some sink \<Rightarrow> release_cursor (write_cursor N sink True (called s))
      | None \<Rightarrow> called s)"

definition walk_page :: "acc_env \<Rightarrow> node \<Rightarrow> string \<Rightarrow> bool \<Rightarrow> nat \<Rightarrow> vcc_batch \<Rightarrow> sys \<Rightarrow> walk_state \<times> sys" where
  "walk_page E N cursor clean pages batch s =
     (let tip = length (vb_added batch) < vcc_tip_page_threshold;
          (s, complete, _) = fold_batch E N batch s;
          clean = (clean \<and> complete);
          s = (if complete then s else freeze_cursor N s);
          (cursor, s) =
            (if vb_added batch = [] then (cursor, s)
             else (last (vb_added batch),
                   if clean then write_cursor N (last (vb_added batch)) True s else s))
      in if tip then (W_Done, if clean then release_cursor s else freeze_cursor N s)
         else (W_At cursor clean pages, s))"

definition walk_step :: "acc_env \<Rightarrow> node \<Rightarrow> walk_state \<Rightarrow> sys \<Rightarrow> walk_state \<times> sys" where
  "walk_step E N w s =
     (case w of
        W_Start \<Rightarrow>
          (case read_cursor N s of
             (s, None) \<Rightarrow> (W_Done, reseed N s)
           | (s, Some cursor) \<Rightarrow> (W_At cursor True max_vcc_catchup_pages, s))
      | W_At cursor clean 0 \<Rightarrow>
          if \<not> clean then
            (case keeps_hold E N s of
               (s, True) \<Rightarrow> (W_Done, s) | (s, False) \<Rightarrow> (W_Done, reseed N s))
          else (W_Done, reseed N s)
      | W_At cursor clean (Suc pages) \<Rightarrow>
          (case catch_up_page vcc_page_attempts N cursor s of
             (s, None) \<Rightarrow>
               (case keeps_hold E N s of
                  (s, True) \<Rightarrow> (W_Done, s) | (s, False) \<Rightarrow> (W_Done, reseed N s))
           | (s, Some batch) \<Rightarrow> walk_page E N cursor clean pages batch s)
      | W_Done \<Rightarrow> (W_Done, s))"

text \<open>The whole walk: its start, at most sixteen pages, and the stop after them.\<close>

fun walk_steps :: "nat \<Rightarrow> acc_env \<Rightarrow> node \<Rightarrow> walk_state \<Rightarrow> sys \<Rightarrow> walk_state \<times> sys" where
  "walk_steps 0 E N w s = (w, s)"
| "walk_steps (Suc n) E N w s = (case walk_step E N w s of (w, s) \<Rightarrow> walk_steps n E N w s)"

definition catch_up :: "acc_env \<Rightarrow> node \<Rightarrow> sys \<Rightarrow> sys" where
  "catch_up E N s = snd (walk_steps (max_vcc_catchup_pages + 2) E N W_Start s)"

text \<open>The block of a page whose list names the transaction, and its DAA score.\<close>

definition accepting_block_of :: "(string \<times> string list) list \<Rightarrow> string \<Rightarrow> string option" where
  "accepting_block_of accepted txid = map_option fst (find (\<lambda>(_, ids). txid \<in> set ids) accepted)"

definition locate_accepting_daa_score :: "node \<Rightarrow> string \<Rightarrow> string \<Rightarrow> sys \<Rightarrow> sys \<times> nat option" where
  "locate_accepting_daa_score N txid carrying s =
     (case nd_parse_hash N txid of
        None \<Rightarrow> (s, None)
      | Some target \<Rightarrow>
          (case catch_up_page vcc_page_attempts N carrying s of
             (s, None) \<Rightarrow> (s, None)
           | (s, Some resp) \<Rightarrow>
               (case accepting_block_of (vb_accepted resp) target of
                  None \<Rightarrow> (s, None)
                | Some accepting \<Rightarrow> (called s, map_option bf_daa (nd_block N (sy_calls s) accepting)))))"

section \<open>The run loop\<close>

definition tick_ms :: nat where "tick_ms = 10000"
definition hold_walk_backoff_max :: nat where "hold_walk_backoff_max = 300000"

record run_state =
  rn_sys :: sys
  rn_walk :: "walk_state option"
  rn_held_back :: "tracker_feed list"
  rn_walk_again :: bool
  rn_hold_walk :: bool
  rn_backoff :: nat
  rn_walk_at :: nat
  rn_hold_seen :: nat

text \<open>
  What the loop's \<open>select\<close> may take next: one page of the running walk, a feed from the
  monitor, a connection, a sink score, or a tick.
\<close>

datatype run_input = I_Walk | I_Feed tracker_feed | I_Connected | I_Sink nat | I_Tick

definition fold_feed :: "acc_env \<Rightarrow> node \<Rightarrow> sys \<Rightarrow> tracker_feed \<Rightarrow> sys" where
  "fold_feed E N s feed = (case feed of F_Vcc batch \<Rightarrow> fold_live E N batch s | F_Walk batch \<Rightarrow> fold_walk E N batch s)"

definition now_instant :: "node \<Rightarrow> sys \<Rightarrow> nat \<times> sys" where
  "now_instant N s = (nd_instant N (sy_calls s), called s)"

definition begin_walk :: "run_state \<Rightarrow> run_state" where
  "begin_walk r = r\<lparr>rn_walk := Some W_Start, rn_sys := walking_begin (rn_sys r)\<rparr>"

definition run_start :: "node \<Rightarrow> sys \<Rightarrow> run_state" where
  "run_start N s =
     (let s = walking_begin s;
          s = (case nd_sink_blue N (sy_calls s) of
                 Some blue \<Rightarrow> called (s\<lparr>sy_state := (sy_state s)\<lparr>ts_sink := blue\<rparr>\<rparr>)
               | None \<Rightarrow> called s);
          (at, s) = now_instant N s
      in \<lparr>rn_sys = s, rn_walk = Some W_Start, rn_held_back = [], rn_walk_again = False,
          rn_hold_walk = False, rn_backoff = tick_ms, rn_walk_at = at, rn_hold_seen = 0\<rparr>)"

text \<open>The walk is over: what it held back folds in order, then depth may be claimed again.\<close>

definition walk_done :: "acc_env \<Rightarrow> node \<Rightarrow> run_state \<Rightarrow> run_state" where
  "walk_done E N r =
     (let s = walking_drop (foldl (fold_feed E N) (rn_sys r) (rn_held_back r));
          r' = r\<lparr>rn_walk := None, rn_held_back := [], rn_sys := s, rn_hold_walk := False\<rparr>;
          r' = (if rn_hold_walk r \<and> sy_frozen s then
                 (let (now, s) = now_instant N s; backoff = min (rn_backoff r * 2) hold_walk_backoff_max
                  in r'\<lparr>rn_sys := s, rn_backoff := backoff, rn_walk_at := now + backoff\<rparr>)
               else r')
      in if rn_walk_again r then begin_walk (r'\<lparr>rn_walk_again := False\<rparr>) else r')"

definition run_tick :: "acc_env \<Rightarrow> node \<Rightarrow> run_state \<Rightarrow> run_state" where
  "run_tick E N r =
     (let r =
        (if \<not> sy_frozen (rn_sys r) then r
         else
           let r = (if sy_holds (rn_sys r) = rn_hold_seen r then r
                    else (let (now, s) = now_instant N (rn_sys r) in
                          r\<lparr>rn_sys := s, rn_hold_seen := sy_holds s, rn_backoff := tick_ms, rn_walk_at := now\<rparr>))
           in if rn_walk r \<noteq> None then r
              else (let (now, s) = now_instant N (rn_sys r); r = r\<lparr>rn_sys := s\<rparr> in
                    if now \<ge> rn_walk_at r then (begin_walk r)\<lparr>rn_hold_walk := True\<rparr> else r));
        (now, s) = now_unix_ms N (rn_sys r);
        (st, events) = tick now (sy_state s)
      in r\<lparr>rn_sys := broadcast events (s\<lparr>sy_state := st\<rparr>)\<rparr>)"

definition run_sink :: "acc_env \<Rightarrow> node \<Rightarrow> nat \<Rightarrow> sys \<Rightarrow> sys" where
  "run_sink E N blue s =
     (let (now, s) = now_unix_ms N s in
      case locked (on_sink_blue E blue now) s of
        (s, Inl _) \<Rightarrow> s | (s, Inr events) \<Rightarrow> broadcast events s)"

definition run_step :: "acc_env \<Rightarrow> node \<Rightarrow> run_input \<Rightarrow> run_state \<Rightarrow> run_state" where
  "run_step E N i r =
     (case i of
        I_Walk \<Rightarrow>
          (case rn_walk r of
             None \<Rightarrow> r
           | Some w \<Rightarrow>
               (case walk_step E N w (rn_sys r) of
                  (W_Done, s) \<Rightarrow> walk_done E N (r\<lparr>rn_sys := s\<rparr>)
                | (w, s) \<Rightarrow> r\<lparr>rn_walk := Some w, rn_sys := s\<rparr>))
      | I_Feed feed \<Rightarrow>
          (if rn_walk r \<noteq> None then
             r\<lparr>rn_sys := (case feed of F_Vcc batch \<Rightarrow> fold_ahead N batch (rn_sys r) | F_Walk _ \<Rightarrow> rn_sys r),
               rn_held_back := rn_held_back r @ [feed]\<rparr>
           else r\<lparr>rn_sys := fold_feed E N (rn_sys r) feed\<rparr>)
      | I_Connected \<Rightarrow> if rn_walk r \<noteq> None then r\<lparr>rn_walk_again := True\<rparr> else begin_walk r
      | I_Sink blue \<Rightarrow> r\<lparr>rn_sys := run_sink E N blue (rn_sys r)\<rparr>
      | I_Tick \<Rightarrow> run_tick E N r)"

text \<open>The loop over any inputs, with calls from other threads (\<open>watch\<close>, \<open>note_sender_interest\<close>) between them.\<close>

datatype run_event = R_Input run_input | R_Watch string watch_source | R_Interest string

definition run_event :: "acc_env \<Rightarrow> node \<Rightarrow> run_state \<Rightarrow> run_event \<Rightarrow> run_state" where
  "run_event E N r ev =
     (case ev of
        R_Input i \<Rightarrow> run_step E N i r
      | R_Watch txid source \<Rightarrow> r\<lparr>rn_sys := tracker_watch E N txid source (rn_sys r)\<rparr>
      | R_Interest txid \<Rightarrow> r\<lparr>rn_sys := note_sender_interest txid (rn_sys r)\<rparr>)"

definition run_all :: "acc_env \<Rightarrow> node \<Rightarrow> run_event list \<Rightarrow> run_state \<Rightarrow> run_state" where
  "run_all E N evs r = foldl (run_event E N) r evs"

definition tracker_status :: "node \<Rightarrow> string \<Rightarrow> sys \<Rightarrow> tx_status option" where
  "tracker_status N txid s = status_of (sy_state s) txid (nd_clock N (sy_calls s))"

end
