(* ===== verification/Kvlog_Paths.thy ===== *)
theory Kvlog_Paths
  imports Kvlog_Crash
begin

text \<open>
  Which files a log touches: its own, the temp file of its durable writes, and the copies kept
  aside beside it with theirs. Two logs in one directory whose names do not run into each other
  this way leave each other alone.
\<close>

section \<open>Appends touch the log's own file\<close>

lemma write_frame_path:
  "write_frame lg bs buf d = (lg', d', res) \<Longrightarrow>
   lg_path lg' = lg_path lg \<and> (\<forall>q. q \<noteq> lg_path lg \<longrightarrow> content d' q = content d q)"
  unfolding write_frame_def by (elim io_tryE) auto

lemma cut_and_write_path:
  "cut_and_write lg bs buf d = (lg', d', res) \<Longrightarrow>
   lg_path lg' = lg_path lg \<and> (\<forall>q. q \<noteq> lg_path lg \<longrightarrow> content d' q = content d q)"
  unfolding cut_and_write_def Let_def
  by (auto elim!: io_tryE dest!: write_frame_path split: if_splits)

lemma append_log_path:
  assumes "append_log c lg d body = (lg', d', res)"
  shows "lg_path lg' = lg_path lg \<and> (\<forall>q. q \<noteq> lg_path lg \<longrightarrow> content d' q = content d q)"
  using assms unfolding append_log_def Let_def
  by (auto elim!: io_tryE dest!: cut_and_write_path split: sum.splits)

lemma upsert_path:
  assumes "upsert c lg d k r = (lg', d', res)"
  shows "lg_path lg' = lg_path lg \<and> (\<forall>q. q \<noteq> lg_path lg \<longrightarrow> content d' q = content d q)"
proof -
  obtain lg1 d1 ap where "append_log c lg d (projr (upsert_body c r)) = (lg1, d1, ap)" by (metis prod_cases3)
  then show ?thesis
    using assms append_log_path [of c lg d "projr (upsert_body c r)" lg1 d1 ap]
    by (cases "upsert_body c r")
       (auto simp: upsert_def Let_def split: option.splits sum.splits if_splits)
qed

lemma remove_path:
  assumes "remove c lg d k = (lg', d', res)"
  shows "lg_path lg' = lg_path lg \<and> (\<forall>q. q \<noteq> lg_path lg \<longrightarrow> content d' q = content d q)"
proof -
  obtain lg1 d1 ap where "append_log c lg d (projr (encode c (Remove k))) = (lg1, d1, ap)" by (metis prod_cases3)
  then show ?thesis
    using assms append_log_path [of c lg d "projr (encode c (Remove k))" lg1 d1 ap]
    by (cases "encode c (Remove k)"; cases "hget (lg_records lg) k")
       (auto simp: remove_def split: sum.splits)
qed

lemma tombstone_path:
  assumes "tombstone c lg d k = (lg', d', res)"
  shows "lg_path lg' = lg_path lg \<and> (\<forall>q. q \<noteq> lg_path lg \<longrightarrow> content d' q = content d q)"
proof -
  obtain lg1 d1 ap where "append_log c lg d (projr (encode c (Tombstone k))) = (lg1, d1, ap)" by (metis prod_cases3)
  then show ?thesis
    using assms append_log_path [of c lg d "projr (encode c (Tombstone k))" lg1 d1 ap]
    by (cases "encode c (Tombstone k)") (auto simp: tombstone_def split: sum.splits if_splits)
qed

lemma untombstone_path:
  assumes "untombstone c lg d k = (lg', d', res)"
  shows "lg_path lg' = lg_path lg \<and> (\<forall>q. q \<noteq> lg_path lg \<longrightarrow> content d' q = content d q)"
proof -
  obtain lg1 d1 ap where "append_log c lg d (projr (encode c (Untombstone k))) = (lg1, d1, ap)" by (metis prod_cases3)
  then show ?thesis
    using assms append_log_path [of c lg d "projr (encode c (Untombstone k))" lg1 d1 ap]
    by (cases "encode c (Untombstone k)") (auto simp: untombstone_def split: sum.splits if_splits)
qed

section \<open>Everything a log may touch\<close>

definition belongs :: "path \<Rightarrow> path \<Rightarrow> bool" where
  "belongs p q \<longleftrightarrow> q = p \<or> q = temp_path p \<or>
     q \<noteq> [] \<and> (starts_with (last q) (last p @ ''.unreadable-'') \<or> starts_with (last q) (''.'' @ last p @ ''.unreadable-''))"

lemma belongs_self [simp]: "belongs p p" "belongs p (temp_path p)"
  by (simp_all add: belongs_def)

definition spares :: "path \<Rightarrow> disk \<Rightarrow> disk \<Rightarrow> bool" where
  "spares p d d' \<longleftrightarrow> (\<forall>q. \<not> belongs p q \<longrightarrow> content d' q = content d q)"

lemma spares_refl [simp]: "spares p d d"
  by (simp add: spares_def)

lemma spares_trans: "spares p d d1 \<Longrightarrow> spares p d1 d2 \<Longrightarrow> spares p d d2"
  by (simp add: spares_def)

lemma spares_own: "\<forall>q. q \<noteq> p \<longrightarrow> content d' q = content d q \<Longrightarrow> spares p d d'"
  by (auto simp: spares_def belongs_def)

lemma spares_content: "content d' = content d \<Longrightarrow> spares p d d'"
  by (simp add: spares_def)

lemma atomic_write_spares:
  assumes "p \<noteq> []" and "atomic_write p bs d = (d', r)"
  shows "\<forall>q. q \<noteq> p \<and> q \<noteq> temp_path p \<longrightarrow> content d' q = content d q"
  using atomic_write_cases [OF assms] by (elim disjE conjE exE) simp_all

lemma wipe_spares:
  assumes p: "lg_path lg \<noteq> []" and run: "wipe lg d = (lg', d', r)"
  shows "lg_path lg' = lg_path lg \<and> spares (lg_path lg) d d'"
proof (cases "lg_held lg")
  case None
  obtain d1 r1 where aw: "atomic_write (lg_path lg) [] d = (d1, r1)" by fastforce
  then have "lg_path lg' = lg_path lg \<and> d' = d1"
    using run None by (cases r1) (auto simp: wipe_def refuse_if_held_def)
  then show ?thesis using atomic_write_spares [OF p aw] by (auto simp: spares_def belongs_def)
next
  case (Some why)
  then show ?thesis using run by (simp add: wipe_def refuse_if_held_def)
qed

lemma compact_spares:
  assumes wf: "log_wf c lg" and ok: "codec_ok c" and run: "compact c lg d = (lg', d', r)"
  shows "lg_path lg' = lg_path lg \<and> spares (lg_path lg) d d'"
  using wf ok run by (rule compact_cases) (auto simp: spares_def belongs_def)

lemma run_op_spares:
  assumes wf: "log_wf c lg" and ok: "codec_ok c" and run: "run_op c x lg d = (lg', d', err)"
  shows "spares (lg_path lg) d d'"
proof -
  have p: "lg_path lg \<noteq> []" using wf by (simp add: log_wf_def)
  show ?thesis
    using run
    by (cases x)
       (auto split: prod.splits intro: spares_own
         dest!: wipe_spares [OF p] compact_spares [OF wf ok] upsert_path remove_path tombstone_path untombstone_path)
qed

text \<open>The copies kept aside.\<close>

lemma aside_belongs:
  assumes p: "lg_path lg \<noteq> []"
  shows "belongs (lg_path lg) (aside_path c lg n b)" and "belongs (lg_path lg) (temp_path (aside_path c lg n b))"
proof -
  have a: "aside_path c lg n b = butlast (lg_path lg) @ [last (lg_path lg) @ ''.unreadable-'' @ decimal n @ ''-'' @
      decimal (length b) @ ''-'' @ hex_lower (rev (le_bytes (crc c b)))]"
    using p by (simp add: aside_path_def with_file_name_def aside_prefix_def log_name_def file_name_def)
  show "belongs (lg_path lg) (aside_path c lg n b)"
    unfolding a belongs_def by (simp add: starts_with_def)
  show "belongs (lg_path lg) (temp_path (aside_path c lg n b))"
    unfolding a belongs_def temp_path_def by (simp add: starts_with_def)
qed

lemma asides_result:
  assumes "asides lg d = (d', r)"
  shows "content d' = content d \<and> (\<forall>ps. r = Inr ps \<longrightarrow> lg_path lg \<noteq> [] \<longrightarrow> list_all (belongs (lg_path lg)) ps)"
  using assms unfolding asides_def
  by (cases "lg_path lg = []")
     (auto elim!: io_tryE simp: list_all_iff belongs_def aside_prefix_def log_name_def file_name_def parent_def
       split: option.splits)

lemma remove_files_spares:
  "remove_files ps d = (d', e) \<Longrightarrow> list_all (belongs p) ps \<Longrightarrow> spares p d d'"
proof (induction ps arbitrary: d d' e)
  case (Cons x xs)
  from Cons.prems(1) show ?case
  proof (simp, elim io_tryE)
    fix n d1
    assume c: "content d1 = content d" and run: "(case remove_files xs d1 of (d, _) \<Rightarrow> (d, Some OtherError)) = (d', e)"
    obtain d2 e2 where r: "remove_files xs d1 = (d2, e2)" by fastforce
    then show ?thesis using Cons.IH [OF r] Cons.prems(2) c run by (simp add: spares_def)
  next
    fix d1
    assume c: "content d1 = content d" and run: "remove_files xs (del_file x d1) = (d', e)"
    have "spares p d (del_file x d1)" using c Cons.prems(2) by (auto simp: spares_def)
    then show ?thesis using Cons.IH [OF run] Cons.prems(2) spares_trans by auto
  qed
qed simp

lemma remove_asides_spares:
  assumes p: "lg_path lg \<noteq> []" and "remove_asides lg d = (d', r)"
  shows "spares (lg_path lg) d d'"
proof -
  obtain d1 r1 where a: "asides lg d = (d1, r1)" by fastforce
  note res = asides_result [OF a]
  show ?thesis
  proof (cases r1)
    case (Inl e)
    then show ?thesis using assms(2) a res by (auto simp: remove_asides_def intro: spares_content)
  next
    case (Inr ps)
    obtain d2 e2 where rf: "remove_files ps d1 = (d2, e2)" by fastforce
    then have "d' = d2" using assms(2) a Inr by (auto simp: remove_asides_def split: option.splits)
    moreover have "spares (lg_path lg) d1 d2" using remove_files_spares [OF rf] res Inr p by blast
    ultimately show ?thesis using res by (simp add: spares_def)
  qed
qed

text \<open>Deleting copies leaves the log's own file alone.\<close>

lemma remove_files_keeps:
  "remove_files ps d = (d', e) \<Longrightarrow> q \<notin> set ps \<Longrightarrow> content d' q = content d q"
proof (induction ps arbitrary: d d' e)
  case (Cons x xs)
  from Cons.prems(1) show ?case
  proof (simp, elim io_tryE)
    fix n d1
    assume c: "content d1 = content d" and run: "(case remove_files xs d1 of (d, _) \<Rightarrow> (d, Some OtherError)) = (d', e)"
    obtain d2 e2 where r: "remove_files xs d1 = (d2, e2)" by fastforce
    then show ?thesis using Cons.IH [OF r] Cons.prems(2) c run by simp
  next
    fix d1
    assume c: "content d1 = content d" and run: "remove_files xs (del_file x d1) = (d', e)"
    then show ?thesis using Cons.IH [OF run] Cons.prems(2) by simp
  qed
qed simp

lemma asides_own:
  assumes "asides lg d = (d', Inr ps)" and p: "lg_path lg \<noteq> []"
  shows "lg_path lg \<notin> set ps"
proof -
  have long: "\<not> starts_with (last (lg_path lg)) (x @ last (lg_path lg) @ ''.unreadable-'')" for x
    by (auto simp: starts_with_def dest: arg_cong [of _ _ length])
  show ?thesis
    using assms(1) long [of "[]"] long [of "''.''"] p unfolding asides_def
    by (auto elim!: io_tryE simp: aside_prefix_def log_name_def file_name_def split: option.splits)
qed

lemma remove_asides_own:
  assumes p: "lg_path lg \<noteq> []" and "remove_asides lg d = (d', r)"
  shows "content d' (lg_path lg) = content d (lg_path lg)"
proof -
  obtain d1 r1 where a: "asides lg d = (d1, r1)" by fastforce
  note c = asides_result [OF a]
  show ?thesis
  proof (cases r1)
    case (Inl e)
    then show ?thesis using assms(2) a c by (auto simp: remove_asides_def)
  next
    case (Inr ps)
    obtain d2 e2 where rf: "remove_files ps d1 = (d2, e2)" by fastforce
    then have "d' = d2" using assms(2) a Inr by (auto simp: remove_asides_def split: option.splits)
    then show ?thesis
      using remove_files_keeps [OF rf asides_own [OF a [unfolded Inr] p]] c by simp
  qed
qed

section \<open>Loads\<close>

lemma save_aside_spares:
  assumes p: "p \<noteq> []" and "save_aside c p bs found d = (d', r)"
  shows "spares p d d'"
proof (cases "rp_tail found")
  case (Unreadable n)
  let ?bs = "drop (rp_good_end found) bs"
  let ?a = "aside_path c (fresh p found) (rp_good_end found) ?bs"
  have path: "lg_path (fresh p found) \<noteq> []" using p by simp
  have "atomic_write ?a ?bs d = (d', r)" using assms(2) Unreadable by (simp add: save_aside_def)
  then show ?thesis
    using atomic_write_spares [OF aside_path_neq(4) [OF path]] aside_belongs [OF path]
    unfolding spares_def fresh_path by metis
qed (use assms(2) in \<open>simp_all add: save_aside_def\<close>)

lemma finish_load_spares:
  assumes wf: "log_wf c lg" and ok: "codec_ok c" and run: "finish_load c found bs lg d = (d', r)"
  shows "spares (lg_path lg) d d'"
  using run compact_spares [OF wf ok]
  by (auto simp: finish_load_def split: option.splits prod.splits sum.splits if_splits)

lemma load_spares:
  assumes ok: "codec_ok c" and p: "p \<noteq> []" and run: "load c p d = (d', r)"
  shows "spares p d d'"
proof -
  obtain d1 got where rd: "read_file p d = (d1, got)" by fastforce
  have c1: "content d1 = content d" by (rule read_file_content [OF rd])
  have after: "spares p d1 d'" if ar: "after_read c (dec_frame c) p bs d1 = (d', r)" for bs
  proof (cases "replay c (dec_frame c) (checksum_holds c) bs")
    case (Inl e)
    then show ?thesis using ar by (simp add: after_read_def)
  next
    case (Inr found)
    have wf: "log_wf c (loaded p found)" by (rule loaded_wf [OF Inr p])
    have path: "lg_path (loaded p found) = p" by (simp add: loaded_def)
    obtain d2 sv where s: "save_aside c p bs found d1 = (d2, sv)" by fastforce
    show ?thesis
      using ar Inr s save_aside_spares [OF p s] finish_load_spares [OF wf ok, of found bs d2] path
      by (cases sv) (auto simp: after_read_def repaired_def split: if_splits intro: spares_trans)
  qed
  show ?thesis
  proof (cases got)
    case (Inr bs)
    then have "after_read c (dec_frame c) p bs d1 = (d', r)" using run rd by (simp add: load_def load_with_v1_steps)
    then show ?thesis using after c1 by (simp add: spares_def)
  next
    case (Inl e)
    then show ?thesis
      using run rd after c1 by (cases e) (auto simp: load_def load_with_v1_steps spares_def)
  qed
qed

end
