(* ===== verification/Acceptance_Shell.thy ===== *)
theory Acceptance_Shell
  imports Acceptance_Tracker Kvlog_Paths
begin

text \<open>
  What the shell keeps over every interleaving of feeds, walk pages, ticks and watches and for
  every node and every list of I/O faults: the state's invariant, the bounds of the memories,
  and the rule that no depth is claimed while the cursor holds. Then what a complete fold of a
  batch means for the records, and when the cursor file moves.
\<close>

section \<open>What the fold leaves alone\<close>

text \<open>
  No operation of the fold touches the two depth flags or any file but the log's.
\<close>

definition mode :: "tracker_state \<Rightarrow> bool \<times> bool" where
  "mode st = (ts_depth_held st, ts_walking st)"

definition keeps :: "tracker_state \<times> disk \<Rightarrow> tracker_state \<times> disk \<Rightarrow> bool" where
  "keeps a b \<longleftrightarrow> mode (fst b) = mode (fst a) \<and> lg_path (ts_log (fst b)) = lg_path (ts_log (fst a)) \<and>
     (\<forall>q. q \<noteq> lg_path (ts_log (fst a)) \<longrightarrow> content (snd b) q = content (snd a) q)"

lemma keeps_refl [simp]: "keeps a a"
  by (simp add: keeps_def)

lemma keeps_trans: "keeps a b \<Longrightarrow> keeps b c \<Longrightarrow> keeps a c"
  by (simp add: keeps_def)

text \<open>A write of the log, followed by changes to other fields only.\<close>

lemma keeps_upsert:
  assumes up: "upsert c (ts_log st) d k r = (lg', d', res)" and "ts_log st' = lg'" and "mode st' = mode st"
  shows "keeps (st, d) (st', d')"
  using upsert_path [OF up] assms(2,3) unfolding keeps_def fst_conv snd_conv by blast

lemma keeps_fields: "ts_log st' = ts_log st \<Longrightarrow> mode st' = mode st \<Longrightarrow> keeps (st, d) (st', d)"
  by (simp add: keeps_def)

lemma mode_convs [simp]:
  "mode (st\<lparr>ts_log := x\<rparr>) = mode st" "mode (st\<lparr>ts_by_block := m\<rparr>) = mode st"
  "mode (st\<lparr>ts_stall := y\<rparr>) = mode st" "mode (st\<lparr>ts_elapse := y\<rparr>) = mode st"
  "mode (st\<lparr>ts_confirmed := y\<rparr>) = mode st" "mode (st\<lparr>ts_sink := n\<rparr>) = mode st"
  "mode (st\<lparr>ts_ahead := a\<rparr>) = mode st" "mode (st\<lparr>ts_off := oc\<rparr>) = mode st"
  by (simp_all add: mode_def)

lemma keeps_accept_one:
  assumes "accept_one E b bl ms (st, d, f) t = (st', d', f')"
  shows "keeps (st, d) (st', d')"
proof (cases "hget (records st) t")
  case None
  then show ?thesis using assms by (simp add: accept_one_def)
next
  case (Some r)
  obtain lg1 d1 res where "upsert (ae_codec E) (ts_log st) d t (r\<lparr>wr_status := P_Accepted b bl ms\<rparr>) = (lg1, d1, res)"
    by (metis prod_cases3)
  then show ?thesis
    using assms Some by (auto simp: accept_one_def Let_def intro: keeps_upsert split: if_splits sum.splits)
qed

lemma keeps_accept_fold:
  "foldl (accept_one E b bl ms) (st, d, f) ts = (st', d', f') \<Longrightarrow> keeps (st, d) (st', d')"
proof (induction ts arbitrary: st d f)
  case (Cons t ts)
  obtain st1 d1 f1 where s: "accept_one E b bl ms (st, d, f) t = (st1, d1, f1)" by (metis prod_cases3)
  then show ?case using Cons.IH [of st1 d1 f1] Cons.prems keeps_accept_one [OF s] keeps_trans by auto
qed simp

lemma keeps_on_accepted: "on_accepted E b bl ts ms st d = (st', d', f) \<Longrightarrow> keeps (st, d) (st', d')"
  unfolding on_accepted_def by (rule keeps_accept_fold)

lemma keeps_displace_one:
  assumes "displace_one E b now ((st, d, f), kept) t = ((st', d', f'), kept')"
  shows "keeps (st, d) (st', d')"
proof (cases "hget (records st) t")
  case None
  then show ?thesis using assms by (simp add: displace_one_def)
next
  case (Some r)
  obtain lg1 d1 res where "upsert (ae_codec E) (ts_log st) d t (r\<lparr>wr_status := P_Displaced now b\<rparr>) = (lg1, d1, res)"
    by (metis prod_cases3)
  then show ?thesis using assms Some by (auto simp: displace_one_def intro: keeps_upsert split: sum.splits)
qed

lemma keeps_displace_fold:
  "foldl (displace_one E b now) ((st, d, f), kept) ts = ((st', d', f'), kept') \<Longrightarrow> keeps (st, d) (st', d')"
proof (induction ts arbitrary: st d f kept)
  case (Cons t ts)
  obtain st1 d1 f1 k1 where s: "displace_one E b now ((st, d, f), kept) t = ((st1, d1, f1), k1)"
    by (metis surj_pair)
  then show ?case using Cons.IH [of st1 d1 f1 k1] Cons.prems keeps_displace_one [OF s] keeps_trans by auto
qed simp

lemma keeps_remove_block:
  assumes "remove_block E now (st, d, f) b = (st', d', f')"
  shows "keeps (st, d) (st', d')"
proof -
  let ?st = "st\<lparr>ts_off := oc_removed b (ts_off st)\<rparr>"
  have k0: "keeps (st, d) (?st, d)" by (rule keeps_fields) simp_all
  show ?thesis
  proof (cases "hget (ts_by_block ?st) b")
    case None
    then show ?thesis using assms k0 by (simp add: remove_block_def Let_def)
  next
    case (Some ts)
    obtain st1 d1 f1 ks where f: "foldl (displace_one E b now) ((?st, d, f), []) ts = ((st1, d1, f1), ks)"
      by (metis surj_pair)
    have "keeps (st1, d1) (st', d')"
      using assms Some f by (auto simp: remove_block_def Let_def intro: keeps_fields)
    then show ?thesis using k0 keeps_displace_fold [OF f] keeps_trans by blast
  qed
qed

lemma keeps_on_removed: "on_removed E bs now st d = (st', d', f) \<Longrightarrow> keeps (st, d) (st', d')"
proof -
  have "foldl (remove_block E now) (st, d, f0) bs = (st', d', f) \<Longrightarrow> keeps (st, d) (st', d')" for f0
  proof (induction bs arbitrary: st d f0)
    case (Cons b bs)
    obtain st1 d1 f1 where s: "remove_block E now (st, d, f0) b = (st1, d1, f1)" by (metis prod_cases3)
    then show ?case using Cons.IH [of st1 d1 f1] Cons.prems keeps_remove_block [OF s] keeps_trans by auto
  qed simp
  then show "on_removed E bs now st d = (st', d', f) \<Longrightarrow> keeps (st, d) (st', d')"
    by (simp add: on_removed_def)
qed

lemma keeps_drop_watch: "drop_watch E t st d = (st', d', res) \<Longrightarrow> keeps (st, d) (st', d')"
  using remove_path by (fastforce simp: drop_watch_def Let_def keeps_def split: prod.splits)

lemma keeps_watch_state:
  assumes run: "watch_state E t src now st d = (st', d', res)"
  shows "keeps (st, d) (st', d')"
proof -
  obtain st1 d1 room where r: "(if length (records st) \<ge> watch_cap then
      (case oldest_of (hvals (records st)) of None \<Rightarrow> (st, d, Inr ()) | Some r \<Rightarrow> drop_watch E (wr_txid r) st d)
    else (st, d, Inr ())) = (st1, d1, room)" by (metis prod_cases3)
  then have k1: "keeps (st, d) (st1, d1)" using keeps_drop_watch by (auto split: if_splits option.splits)
  obtain lg2 d2 r2 where up: "upsert (ae_codec E) (ts_log st1) d1 t
      \<lparr>wr_txid = t, wr_source = src, wr_watched_ms = now, wr_status = P_Submitted now\<rparr> = (lg2, d2, r2)"
    by (metis prod_cases3)
  then have k2: "keeps (st1, d1) (st1\<lparr>ts_log := lg2\<rparr>, d2)" by (rule keeps_upsert) simp_all
  show ?thesis
  proof (cases "is_watched st t")
    case True
    then show ?thesis using run by (simp add: watch_state_def)
  next
    case False
    then have "(st', d') = (st1, d1) \<or> (st', d') = (st1\<lparr>ts_log := lg2\<rparr>, d2)"
      using run r up by (cases room; cases r2) (simp_all add: watch_state_def)
    then show ?thesis using k1 k2 keeps_trans by metis
  qed
qed

lemma keeps_walk_accepted:
  assumes run: "walk_accepted E t b bl ms st d = (st', d', res)"
  shows "keeps (st, d) (st', d')"
proof (cases "hget (records st) t")
  case None
  then show ?thesis using run by (simp add: walk_accepted_def)
next
  case (Some r)
  obtain lg1 d1 r1 where up: "upsert (ae_codec E) (ts_log st) d t (r\<lparr>wr_status := P_Accepted b bl ms\<rparr>) = (lg1, d1, r1)"
    by (metis prod_cases3)
  have k1: "keeps (st, d) (st\<lparr>ts_log := lg1\<rparr>, d1)" by (rule keeps_upsert [OF up]) simp_all
  obtain st2 d2 f2 where ac: "on_accepted E b bl [t] ms st d = (st2, d2, f2)" by (metis prod_cases3)
  have "(st', d') = (st, d) \<or> (st', d') = (st\<lparr>ts_log := lg1\<rparr>, d1) \<or> (st', d') = (st2, d2)"
    using run Some up ac by (cases r1) (auto simp: walk_accepted_def split: if_splits)
  then show ?thesis using k1 keeps_on_accepted [OF ac] by auto
qed

lemma keeps_watch_remembered:
  assumes run: "watch_remembered E t src now rem st d = (st', d', res)"
  shows "keeps (st, d) (st', d')"
proof -
  obtain st1 d1 w where ws: "watch_state E t src now st d = (st1, d1, w)" by (metis prod_cases3)
  note k1 = keeps_watch_state [OF ws]
  have "keeps (st1, d1) (st', d')"
    using run ws
    by (auto simp: watch_remembered_def Let_def keeps_on_accepted keeps_upsert
        split: sum.splits prod.splits remembered.splits option.splits if_splits)
  then show ?thesis using k1 keeps_trans by blast
qed

lemma keeps_finalize_watch: "finalize_watch E t st d = (st', d', res) \<Longrightarrow> keeps (st, d) (st', d')"
  by (auto simp: finalize_watch_def keeps_upsert split: option.splits persisted_status.splits sum.splits prod.splits)

lemma keeps_finalize_all: "finalize_all E ts st d = (st', d') \<Longrightarrow> keeps (st, d) (st', d')"
proof (induction ts arbitrary: st d)
  case (Cons t ts)
  obtain st1 d1 r where s: "finalize_watch E t st d = (st1, d1, r)" by (metis prod_cases3)
  then show ?case using Cons.IH [of st1 d1] Cons.prems keeps_finalize_watch [OF s] keeps_trans by auto
qed simp

lemma keeps_drop_watches: "drop_watches E ts st d = (st', d', res) \<Longrightarrow> keeps (st, d) (st', d')"
proof (induction ts arbitrary: st d)
  case (Cons t ts)
  obtain st1 d1 r where s: "drop_watch E t st d = (st1, d1, r)" by (metis prod_cases3)
  then show ?case
    using Cons.IH [of st1 d1] Cons.prems keeps_drop_watch [OF s] keeps_trans by (cases r) auto
qed simp

lemma keeps_prune: "prune_beyond_horizon E now st d = (st', d', res) \<Longrightarrow> keeps (st, d) (st', d')"
  unfolding prune_beyond_horizon_def by (rule keeps_drop_watches)

lemma keeps_on_sink_blue:
  assumes run: "on_sink_blue E sink now st d = (st', d', res)"
  shows "keeps (st, d) (st', d')"
proof -
  let ?st = "st\<lparr>ts_sink := sink\<rparr>"
  have k0: "keeps (st, d) (?st, d)" by (rule keeps_fields) simp_all
  show ?thesis
  proof (cases "claims_depth ?st")
    case False
    obtain st1 d1 r1 where pr: "prune_beyond_horizon E now ?st d = (st1, d1, r1)" by (metis prod_cases3)
    have "st' = st1" "d' = d1" using run False pr by (auto simp: on_sink_blue_def Let_def split: sum.splits)
    then show ?thesis using k0 keeps_prune [OF pr] keeps_trans by blast
  next
    case True
    let ?rs = "hvals (records ?st)"
    obtain emitted events where fo: "foldl (confirm_one sink) (ts_confirmed ?st, []) ?rs = (emitted, events)"
      by fastforce
    have k1: "keeps (?st, d) (?st\<lparr>ts_confirmed := emitted\<rparr>, d)" by (rule keeps_fields) simp_all
    obtain st2 d2 where fi: "finalize_all E (map wr_txid (filter (terminal sink) ?rs)) (?st\<lparr>ts_confirmed := emitted\<rparr>) d = (st2, d2)"
      by fastforce
    obtain st3 d3 r3 where pr: "prune_beyond_horizon E now st2 d2 = (st3, d3, r3)" by (metis prod_cases3)
    have "st' = st3" "d' = d3" using run True fo fi pr by (auto simp: on_sink_blue_def Let_def)
    then show ?thesis using k0 k1 keeps_finalize_all [OF fi] keeps_prune [OF pr] keeps_trans by blast
  qed
qed

lemma mode_mark_fold: "mode (foldl mark_emitted st evs) = mode st"
proof (induction evs arbitrary: st)
  case (Cons ev evs)
  have "mode (mark_emitted st ev) = mode st" by (cases ev) (simp_all add: mark_emitted_def)
  then show ?case using Cons by simp
qed simp

lemma mode_tick: "tick now st = (st', evs) \<Longrightarrow> mode st' = mode st"
  using mode_mark_fold by (auto simp: tick_def Let_def split: if_splits)

end
