(* ===== verification/Acceptance_Cursor.thy ===== *)
theory Acceptance_Cursor
  imports Acceptance_Shell
begin

text \<open>
  The shell's invariant, what a complete fold of a batch means for the records, and when the
  cursor file moves.
\<close>

section \<open>The invariant of the shell\<close>

definition sys_ok :: "acc_env \<Rightarrow> string set \<Rightarrow> sys \<Rightarrow> bool" where
  "sys_ok E X s \<longleftrightarrow> st_ok E X (sy_state s) (sy_disk s) \<and>
     (ts_depth_held (sy_state s) \<longleftrightarrow> sy_frozen s) \<and> mm_ok (sy_matched s) \<and>
     interest_ok (sy_interest s) \<and> sy_cursor_path s = cursor_path E"

text \<open>The cursor file and everything that governs it.\<close>

definition ctl :: "sys \<Rightarrow> path \<times> nat \<times> bool \<times> nat \<times> nat \<times> bool \<times> bytes option" where
  "ctl s = (sy_cursor_path s, sy_cursor_written s, sy_frozen s, sy_frozen_since s, sy_holds s,
     sy_force_owed s, content (sy_disk s) (sy_cursor_path s))"

text \<open>A step inside the fold: the invariant stays and the cursor is not touched.\<close>

definition inner :: "acc_env \<Rightarrow> string set \<Rightarrow> sys \<Rightarrow> sys \<Rightarrow> bool" where
  "inner E Y s s' \<longleftrightarrow> sys_ok E Y s' \<and> ctl s' = ctl s \<and> mode (sy_state s') = mode (sy_state s)"

lemma inner_refl: "sys_ok E X s \<Longrightarrow> inner E X s s"
  by (simp add: inner_def)

lemma inner_trans: "inner E X s s' \<Longrightarrow> inner E Y s' s'' \<Longrightarrow> inner E Y s s''"
  by (simp add: inner_def)

lemma inner_ok: "inner E X s s' \<Longrightarrow> sys_ok E X s'"
  by (simp add: inner_def)

lemma cursor_log_path: "cursor_path E \<noteq> log_path E" "temp_path (cursor_path E) \<noteq> log_path E"
  "cursor_path E \<noteq> []"
  by (simp_all add: cursor_path_def log_path_def temp_path_def)

lemma called_fields [simp]:
  "sy_state (called s) = sy_state s" "sy_disk (called s) = sy_disk s" "sy_events (called s) = sy_events s"
  "sy_interest (called s) = sy_interest s" "sy_matched (called s) = sy_matched s"
  "sy_frozen (called s) = sy_frozen s" "sy_frozen_since (called s) = sy_frozen_since s"
  "sy_force_owed (called s) = sy_force_owed s" "sy_holds (called s) = sy_holds s"
  "sy_cursor_path (called s) = sy_cursor_path s" "sy_cursor_written (called s) = sy_cursor_written s"
  by (simp_all add: called_def)

lemma broadcast_fields [simp]:
  "sy_state (broadcast evs s) = sy_state s" "sy_disk (broadcast evs s) = sy_disk s"
  "sy_events (broadcast evs s) = sy_events s @ evs"
  "sy_interest (broadcast evs s) = sy_interest s" "sy_matched (broadcast evs s) = sy_matched s"
  "sy_frozen (broadcast evs s) = sy_frozen s" "sy_frozen_since (broadcast evs s) = sy_frozen_since s"
  "sy_force_owed (broadcast evs s) = sy_force_owed s" "sy_holds (broadcast evs s) = sy_holds s"
  "sy_cursor_path (broadcast evs s) = sy_cursor_path s" "sy_cursor_written (broadcast evs s) = sy_cursor_written s"
  by (simp_all add: broadcast_def)

lemma ctl_simps [simp]: "ctl (called s) = ctl s" "ctl (broadcast evs s) = ctl s"
  "ctl (s\<lparr>sy_state := st\<rparr>) = ctl s" "ctl (s\<lparr>sy_interest := q\<rparr>) = ctl s" "ctl (s\<lparr>sy_matched := mm\<rparr>) = ctl s"
  by (simp_all add: ctl_def)

lemma sys_ok_simps [simp]: "sys_ok E X (called s) \<longleftrightarrow> sys_ok E X s"
  "sys_ok E X (broadcast evs s) \<longleftrightarrow> sys_ok E X s"
  by (simp_all add: sys_ok_def)

lemma inner_called [simp]: "inner E X s (called s') \<longleftrightarrow> inner E X s s'"
  "inner E X (called s) s' \<longleftrightarrow> inner E X s s'"
  by (simp_all add: inner_def)

lemma inner_broadcast [simp]: "inner E X s (broadcast evs s') \<longleftrightarrow> inner E X s s'"
  by (simp add: inner_def)

lemma now_unix_ms_inner: "sys_ok E X s \<Longrightarrow> now_unix_ms N s = (n, s') \<Longrightarrow> inner E X s s'"
  by (auto simp: now_unix_ms_def inner_def)

lemma sys_ok_mono: "sys_ok E X s \<Longrightarrow> X \<subseteq> Y \<Longrightarrow> sys_ok E Y s"
  by (auto simp: sys_ok_def intro: st_ok_mono)

lemma locked_inner:
  assumes ok: "sys_ok E X s" and run: "locked f s = (s', r)"
    and f: "\<And>st' d'. f (sy_state s) (sy_disk s) = (st', d', r) \<Longrightarrow>
      st_ok E Y st' d' \<and> keeps (sy_state s, sy_disk s) (st', d')"
  shows "inner E Y s s'"
proof -
  obtain st' d' where e: "f (sy_state s) (sy_disk s) = (st', d', r)" and s': "s' = s\<lparr>sy_state := st', sy_disk := d'\<rparr>"
    using run by (auto simp: locked_def split: prod.splits)
  note F = f [OF e]
  have p: "lg_path (ts_log (sy_state s)) = log_path E" and c: "sy_cursor_path s = cursor_path E"
    using ok by (auto simp: sys_ok_def st_ok_def live_def)
  have cont: "content d' (cursor_path E) = content (sy_disk s) (cursor_path E)" and m: "mode st' = mode (sy_state s)"
    using F p cursor_log_path(1) [of E] by (auto simp: keeps_def)
  show ?thesis using ok F cont c m unfolding inner_def ctl_def sys_ok_def s' by (simp add: mode_def)
qed

lemma take_resolvable_inner:
  assumes ok: "sys_ok E X s" and run: "take_resolvable ts daa s = (s', out)"
  shows "inner E X s s' \<and> sy_state s' = sy_state s"
proof -
  have "interest_ok (fst (foldl (take_one daa) (q, evs) ts))" if "interest_ok q" for q evs
    using that
  proof (induction ts arbitrary: q evs)
    case (Cons t ts)
    have "interest_ok (remove1 t q)"
      using Cons.prems by (auto simp: interest_ok_def length_remove1)
    then show ?case using Cons by (auto simp: take_one_def)
  qed simp
  then have keep: "interest_ok q \<Longrightarrow> foldl (take_one daa) (q, evs) ts = (q', out) \<Longrightarrow> interest_ok q'" for q q' evs
    by (metis fst_conv)
  obtain q where q: "foldl (take_one daa) (sy_interest s, []) ts = (q, out)" and s': "s' = s\<lparr>sy_interest := q\<rparr>"
    using run by (auto simp: take_resolvable_def split: prod.splits)
  have "interest_ok q" using keep [OF _ q] ok by (simp add: sys_ok_def)
  then show ?thesis using ok unfolding s' inner_def by (simp add: sys_ok_def)
qed

section \<open>The fold of a batch\<close>

text \<open>The sink score alone may change.\<close>

lemma read_accepting_block_inner:
  assumes ok: "sys_ok E X s" and run: "read_accepting_block N b s = (s', facts)"
  shows "inner E X s s' \<and> (\<exists>n. sy_state s' = (sy_state s)\<lparr>ts_sink := n\<rparr>)"
proof -
  have sink: "sys_ok E X (called s\<lparr>sy_state := (sy_state s)\<lparr>ts_sink := n\<rparr>\<rparr>)" for n
    using ok st_ok_flags [of E X "sy_state s" "sy_disk s" "(sy_state s)\<lparr>ts_sink := n\<rparr>"]
    by (simp add: sys_ok_def)
  have same: "\<exists>n. sy_state s = (sy_state s)\<lparr>ts_sink := n\<rparr>"
    by (rule exI [of _ "ts_sink (sy_state s)"]) simp
  show ?thesis
    using run ok sink same
    by (auto simp: read_accepting_block_def Let_def inner_def split: option.splits if_splits)
qed

lemma acc_at_sink [simp]: "acc_at (st\<lparr>ts_sink := n\<rparr>) = acc_at st"
  by (simp add: acc_at_def fun_eq_iff)

lemma is_watched_sink [simp]: "is_watched (st\<lparr>ts_sink := n\<rparr>) = is_watched st"
  by (simp add: is_watched_def fun_eq_iff)

text \<open>What folding acceptances does to the records.\<close>

lemma accept_fold_records:
  assumes "st_ok E X st d" and "foldl (accept_one E b bl ms) (st, d, f) ts = (st', d', f')"
  shows "is_watched st' = is_watched st \<and>
    (fo_failed f' = None \<longrightarrow> fo_failed f = None \<and>
      (\<forall>u. acc_at st' u = (if u \<in> set ts \<and> is_watched st u then Some b else acc_at st u)))"
  using assms
proof (induction ts arbitrary: st d f)
  case Nil
  then show ?case by simp
next
  case (Cons t ts)
  obtain st1 d1 f1 where s: "accept_one E b bl ms (st, d, f) t = (st1, d1, f1)" by (metis prod_cases3)
  have ok1: "st_ok E X st1 d1" by (rule accept_one_ok [OF Cons.prems(1) s])
  have lv: "live E st d" using Cons.prems(1) by (simp add: st_ok_def)
  have one: "is_watched st1 = is_watched st \<and> (fo_failed f1 = None \<longrightarrow> fo_failed f = None \<and>
      (\<forall>u. acc_at st1 u = (if u = t \<and> is_watched st u then Some b else acc_at st u)))"
    using lv s
  proof (cases rule: accept_one_cases)
    case ignored
    then show ?thesis by (auto simp: is_watched_def acc_at_def)
  next
    case (failed e)
    then show ?thesis by (simp add: is_watched_def fun_eq_iff)
  next
    case (accepted r)
    then show ?thesis by (auto simp: is_watched_def acc_at_def accepted_at_def fun_eq_iff)
  qed
  note rest = Cons.IH [OF ok1, of f1]
  show ?case using one rest Cons.prems(2) s by auto
qed

lemma on_accepted_records:
  assumes "st_ok E X st d" and "on_accepted E b bl ts ms st d = (st', d', f)"
  shows "is_watched st' = is_watched st"
    and "fo_failed f = None \<Longrightarrow> acc_at st' u = (if u \<in> set ts \<and> is_watched st u then Some b else acc_at st u)"
  using accept_fold_records [OF assms(1) assms(2) [unfolded on_accepted_def]] by auto

lemma displaced_acc_at:
  "map_of (records st') = displaced_records b now S (map_of (records st)) \<Longrightarrow>
   acc_at st' u = (if u \<in> S then None else acc_at st u)"
  by (simp add: acc_at_def displaced_records_def accepted_at_def split: option.splits)

lemma displaced_watched:
  "map_of (records st') = displaced_records b now S (map_of (records st)) \<Longrightarrow> is_watched st' = is_watched st"
  by (simp add: is_watched_def displaced_records_def fun_eq_iff)

lemma remove_fold_records:
  assumes "st_ok E X st d" and "foldl (remove_block E now) (st, d, f) bs = (st', d', f')"
  shows "is_watched st' = is_watched st \<and> (\<forall>u. acc_at st' u = acc_at st u \<or> acc_at st' u = None) \<and>
    (fo_failed f' = None \<longrightarrow> fo_failed f = None \<and> (\<forall>u b. u \<notin> X \<longrightarrow> b \<in> set bs \<longrightarrow> acc_at st' u \<noteq> Some b))"
  using assms
proof (induction bs arbitrary: st d f)
  case Nil
  then show ?case by simp
next
  case (Cons b bs)
  obtain st1 d1 f1 where s: "remove_block E now (st, d, f) b = (st1, d1, f1)" by (metis prod_cases3)
  obtain ks where ks: "st_ok E X st1 d1" "map_of (records st1) =
      displaced_records b now ({t. in_idx (ts_by_block st) b t} - set ks) (map_of (records st))"
    "fo_failed f1 = None \<longleftrightarrow> fo_failed f = None \<and> ks = []"
    using remove_block_cases [OF Cons.prems(1) s] by metis
  note at = displaced_acc_at [OF ks(2)] and w = displaced_watched [OF ks(2)]
  have R: "is_watched st' = is_watched st1" "\<And>u. acc_at st' u = acc_at st1 u \<or> acc_at st' u = None"
    "fo_failed f' = None \<Longrightarrow> fo_failed f1 = None"
    "\<And>u c. fo_failed f' = None \<Longrightarrow> u \<notin> X \<Longrightarrow> c \<in> set bs \<Longrightarrow> acc_at st' u \<noteq> Some c"
    using Cons.IH [OF ks(1), of f1] Cons.prems(2) s by auto
  have sy: "synced X st" using Cons.prems(1) by (simp add: st_ok_def)
  have gone: "acc_at st1 u \<noteq> Some b" if "fo_failed f1 = None" "u \<notin> X" for u
    using at [of u] ks(3) that synced_complete [OF sy, of u b] by auto
  have "acc_at st' u = acc_at st u \<or> acc_at st' u = None" for u
    using R(2) [of u] at [of u] by (auto split: if_splits)
  moreover have "acc_at st' u \<noteq> Some c" if "fo_failed f' = None" "u \<notin> X" "c \<in> set (b # bs)" for u c
  proof (cases "c \<in> set bs")
    case True
    then show ?thesis using R(4) that by blast
  next
    case False
    then have "c = b" using that(3) by simp
    then show ?thesis using gone [OF R(3) [OF that(1)] that(2)] R(2) [of u] by auto
  qed
  ultimately show ?case using R(1,3) w ks(3) by metis
qed

abbreviation acc :: "sys \<Rightarrow> string \<Rightarrow> string option" where
  "acc s \<equiv> acc_at (sy_state s)"

abbreviation watched :: "sys \<Rightarrow> string \<Rightarrow> bool" where
  "watched s \<equiv> is_watched (sy_state s)"

lemma fold_match_inner:
  assumes ok: "sys_ok E X s" and run: "fold_match E N (s, c) (block, txids, wanted) = (s', c')"
  shows "inner E X s s' \<and> watched s' = watched s \<and>
    (c' \<longrightarrow> c \<and> (\<forall>u. acc s' u = (if u \<in> set txids \<and> watched s u then Some block else acc s u)))"
proof -
  obtain s1 facts where rd: "read_accepting_block N block s = (s1, facts)" by fastforce
  have r1: "inner E X s s1" and st1: "acc s1 = acc s" "watched s1 = watched s"
    using read_accepting_block_inner [OF ok rd] by auto
  show ?thesis
  proof (cases facts)
    case None
    then have "s' = s1" "c' = (c \<and> txids = [])" using run rd by (simp_all add: fold_match_def)
    then show ?thesis using r1 st1 by simp
  next
    case (Some fs)
    define s2 where "s2 = (case ab_daa fs of
        Some daa \<Rightarrow> if wanted = [] then s1
          else (case take_resolvable wanted daa s1 of (s, out) \<Rightarrow> broadcast out s)
      | None \<Rightarrow> s1)"
    have s2: "inner E X s1 s2 \<and> sy_state s2 = sy_state s1"
    proof (cases "ab_daa fs")
      case None
      then show ?thesis using inner_refl [OF inner_ok [OF r1]] by (simp add: s2_def)
    next
      case daa: (Some daa)
      obtain q out where tk: "take_resolvable wanted daa s1 = (q, out)" by fastforce
      show ?thesis
        using take_resolvable_inner [OF inner_ok [OF r1] tk] inner_refl [OF inner_ok [OF r1]] daa tk
        by (simp add: s2_def)
    qed
    then have i2: "inner E X s s2" and st2: "acc s2 = acc s" "watched s2 = watched s"
      using inner_trans [OF r1] st1 by simp_all
    show ?thesis
    proof (cases "txids = []")
      case True
      then have "s' = s2" "c' = c" using run rd Some by (simp_all add: fold_match_def s2_def Let_def)
      then show ?thesis using i2 st2 True by simp
    next
      case False
      obtain s3 f where lk: "locked (on_accepted E block (ab_blue fs) txids (ab_ms fs)) s2 = (s3, f)" by fastforce
      have out: "s' = broadcast (fo_events f) s3" "c' = (c \<and> fo_failed f = None)"
        using run rd Some False lk by (simp_all add: fold_match_def s2_def Let_def)
      have ok2: "st_ok E X (sy_state s2) (sy_disk s2)" using i2 by (simp add: inner_def sys_ok_def)
      have i3: "inner E X s2 s3"
        by (rule locked_inner [OF inner_ok [OF i2] lk]) (use on_accepted_ok [OF ok2] keeps_on_accepted in blast)
      obtain d3 where "on_accepted E block (ab_blue fs) txids (ab_ms fs) (sy_state s2) (sy_disk s2) = (sy_state s3, d3, f)"
        using lk by (auto simp: locked_def split: prod.splits)
      note R = on_accepted_records [OF ok2 this]
      show ?thesis using out i3 inner_trans [OF i2 i3] R st2 by simp
    qed
  qed
qed

lemma fold_matches_inner:
  assumes "sys_ok E X s" and "foldl (fold_match E N) (s, c) ms = (s', c')"
  shows "inner E X s s' \<and> watched s' = watched s \<and>
    (c' \<longrightarrow> c \<and> (\<forall>u. (\<exists>m \<in> set ms. u \<in> set (fst (snd m)) \<and> watched s u \<and> acc s' u = Some (fst m)) \<or>
      (\<forall>m \<in> set ms. u \<notin> set (fst (snd m)) \<or> \<not> watched s u) \<and> acc s' u = acc s u))"
  using assms
proof (induction ms arbitrary: s c)
  case Nil
  then show ?case by (simp add: inner_refl)
next
  case (Cons m ms)
  obtain b w v where m: "m = (b, w, v)" by (metis prod_cases3)
  obtain s1 c1 where s: "fold_match E N (s, c) m = (s1, c1)" by fastforce
  have one: "inner E X s s1" "watched s1 = watched s"
    "c1 \<Longrightarrow> c \<and> (\<forall>u. acc s1 u = (if u \<in> set w \<and> watched s u then Some b else acc s u))"
    using fold_match_inner [OF Cons.prems(1) s [unfolded m]] by auto
  have run: "foldl (fold_match E N) (s1, c1) ms = (s', c')" using Cons.prems(2) s by simp
  have R: "inner E X s1 s'" "watched s' = watched s1"
    "c' \<Longrightarrow> c1" "c' \<Longrightarrow> (\<exists>m \<in> set ms. u \<in> set (fst (snd m)) \<and> watched s1 u \<and> acc s' u = Some (fst m)) \<or>
      (\<forall>m \<in> set ms. u \<notin> set (fst (snd m)) \<or> \<not> watched s1 u) \<and> acc s' u = acc s1 u" for u
    using Cons.IH [OF inner_ok [OF one(1)] run] by blast+
  have "(\<exists>m' \<in> set (m # ms). u \<in> set (fst (snd m')) \<and> watched s u \<and> acc s' u = Some (fst m')) \<or>
      (\<forall>m' \<in> set (m # ms). u \<notin> set (fst (snd m')) \<or> \<not> watched s u) \<and> acc s' u = acc s u" if "c'" for u
  proof -
    have a1: "acc s1 u = (if u \<in> set w \<and> watched s u then Some b else acc s u)"
      using one(3) R(3) that by blast
    show ?thesis using R(4) [OF that, of u] a1 one(2) m by (cases "u \<in> set w \<and> watched s u") auto
  qed
  moreover have "c' \<Longrightarrow> c" using R(3) one(3) by blast
  ultimately show ?case using inner_trans [OF one(1) R(1)] R(2) one(2) by simp
qed

text \<open>Every fact the batch carries for a watched transaction is in the records.\<close>

definition batch_settled :: "string set \<Rightarrow> tracker_state \<Rightarrow> vcc_batch \<Rightarrow> bool" where
  "batch_settled X st batch \<longleftrightarrow>
     (\<forall>u b. u \<notin> X \<longrightarrow> acc_at st u = Some b \<longrightarrow> b \<in> set (vb_removed batch) \<longrightarrow>
        (\<exists>ts. (b, ts) \<in> set (vb_accepted batch) \<and> u \<in> set ts)) \<and>
     (\<forall>b ts u. (b, ts) \<in> set (vb_accepted batch) \<longrightarrow> u \<in> set ts \<longrightarrow> is_watched st u \<longrightarrow>
        (\<exists>b' ts'. (b', ts') \<in> set (vb_accepted batch) \<and> u \<in> set ts' \<and> acc_at st u = Some b'))"

lemma batch_matchesD:
  "(b, w, v) \<in> set (batch_matches st q accepted) \<Longrightarrow> \<exists>ts. (b, ts) \<in> set accepted \<and> w = filter (is_watched st) ts"
  by (auto simp: batch_matches_def)

lemma batch_matchesI:
  assumes "(b, ts) \<in> set accepted" and "u \<in> set ts" and "is_watched st u"
  shows "(b, filter (is_watched st) ts, filter (\<lambda>t. t \<in> set q) ts) \<in> set (batch_matches st q accepted)"
proof -
  have "filter (is_watched st) ts \<noteq> []" using assms(2,3) by (auto simp: filter_empty_conv)
  then show ?thesis using assms(1) by (force simp: batch_matches_def)
qed

lemma note_added_acc [simp]: "acc_at (note_added bs st) = acc_at st" "is_watched (note_added bs st) = is_watched st"
  by (simp_all add: note_added_def acc_at_def is_watched_def fun_eq_iff)

lemma fold_removals_inner:
  assumes ok: "sys_ok E X s" and run: "fold_removals E batch now s = (s', c)"
  shows "inner E X s s' \<and> watched s' = watched s \<and>
    (c \<longrightarrow> (\<forall>u b. u \<notin> X \<longrightarrow> b \<in> set (vb_removed batch) \<longrightarrow> acc s' u \<noteq> Some b))"
proof (cases "vb_removed batch = []")
  case True
  then have "s' = s" using run by (simp add: fold_removals_def)
  then show ?thesis using inner_refl [OF ok] True by simp
next
  case False
  obtain s1 f where lk: "locked (on_removed E (vb_removed batch) now) s = (s1, f)" by fastforce
  have out: "s' = broadcast (fo_events f) s1" "c = (fo_failed f = None)"
    using run False lk by (simp_all add: fold_removals_def)
  have okst: "st_ok E X (sy_state s) (sy_disk s)" using ok by (simp add: sys_ok_def)
  have i: "inner E X s s1"
    by (rule locked_inner [OF ok lk]) (use on_removed_ok [OF okst] keeps_on_removed in blast)
  obtain d1 where "on_removed E (vb_removed batch) now (sy_state s) (sy_disk s) = (sy_state s1, d1, f)"
    using lk by (auto simp: locked_def split: prod.splits)
  note R = remove_fold_records [OF okst this [unfolded on_removed_def]]
  show ?thesis using R i out by simp
qed

lemma fold_batch_inner:
  assumes ok: "sys_ok E X s" and run: "fold_batch E N batch s = (s', complete, accepted)"
  shows "inner E X s s' \<and> watched s' = watched s \<and> (complete \<longrightarrow> batch_settled X (sy_state s') batch)"
proof -
  let ?s0 = "called s" and ?now = "nd_clock N (sy_calls s)"
  obtain s1 c1 where rm: "fold_removals E batch ?now ?s0 = (s1, c1)" by fastforce
  let ?s2 = "s1\<lparr>sy_state := note_added (vb_added batch) (sy_state s1)\<rparr>"
  let ?ms = "batch_matches (sy_state ?s2) (sy_interest ?s2) (vb_accepted batch)"
  obtain s3 c3 where fm: "foldl (fold_match E N) (?s2, c1) ?ms = (s3, c3)" by fastforce
  have out: "s' = s3" "complete = c3"
    using run rm fm by (auto simp: fold_batch_def now_unix_ms_def Let_def)
  have ok0: "sys_ok E X ?s0" using ok by simp
  note R1 = fold_removals_inner [OF ok0 rm]
  have i2: "inner E X s1 ?s2"
    using R1 note_added_ok [of E X "sy_state s1" "sy_disk s1" "vb_added batch"]
    by (auto simp: inner_def sys_ok_def note_added_def mode_def)
  note R3 = fold_matches_inner [OF inner_ok [OF i2] fm]
  have inn: "inner E X s s3" using R1 i2 R3 inner_trans by (metis inner_called(2))
  have w: "watched s3 = watched s" using R1 R3 by simp
  have "batch_settled X (sy_state s3) batch" if c: c3
  proof -
    have c1: c1 and ch: "\<And>u. (\<exists>m \<in> set ?ms. u \<in> set (fst (snd m)) \<and> watched ?s2 u \<and> acc s3 u = Some (fst m)) \<or>
      (\<forall>m \<in> set ?ms. u \<notin> set (fst (snd m)) \<or> \<not> watched ?s2 u) \<and> acc s3 u = acc s1 u"
      using R3 c by simp_all
    have hit: "\<exists>ts. (b, ts) \<in> set (vb_accepted batch) \<and> u \<in> set ts"
      if "m \<in> set ?ms" "u \<in> set (fst (snd m))" "fst m = b" for m u b
      using that batch_matchesD [of "fst m" "fst (snd m)" "snd (snd m)"] by fastforce
    have "\<exists>ts. (b, ts) \<in> set (vb_accepted batch) \<and> u \<in> set ts"
      if u: "u \<notin> X" "acc s3 u = Some b" "b \<in> set (vb_removed batch)" for u b
    proof -
      have "acc s1 u \<noteq> Some b" using R1 c1 u(1,3) by blast
      then obtain m where "m \<in> set ?ms" "u \<in> set (fst (snd m))" "acc s3 u = Some (fst m)"
        using ch [of u] u(2) by auto
      then show ?thesis using hit u(2) by auto
    qed
    moreover have "\<exists>b' ts'. (b', ts') \<in> set (vb_accepted batch) \<and> u \<in> set ts' \<and> acc s3 u = Some b'"
      if "(b, ts) \<in> set (vb_accepted batch)" "u \<in> set ts" "watched s3 u" for b ts u
    proof -
      have w2: "watched ?s2 u" using that(3) R3 by simp
      have "(b, filter (watched ?s2) ts, filter (\<lambda>t. t \<in> set (sy_interest ?s2)) ts) \<in> set ?ms"
        by (rule batch_matchesI [OF that(1,2) w2])
      moreover have "u \<in> set (filter (watched ?s2) ts)" using that(2) w2 by simp
      ultimately have "\<not> (\<forall>m \<in> set ?ms. u \<notin> set (fst (snd m)) \<or> \<not> watched ?s2 u)" using w2 by force
      then obtain m where "m \<in> set ?ms" "u \<in> set (fst (snd m))" "acc s3 u = Some (fst m)"
        using ch [of u] by blast
      then show ?thesis using hit by blast
    qed
    ultimately show ?thesis unfolding batch_settled_def by blast
  qed
  then show ?thesis using inn w out by simp
qed

section \<open>The cursor file\<close>

definition cursor_of :: "sys \<Rightarrow> bytes option" where
  "cursor_of s = content (sy_disk s) (sy_cursor_path s)"

lemma cursor_of_ctl: "ctl s' = ctl s \<Longrightarrow> cursor_of s' = cursor_of s"
  by (auto simp: ctl_def cursor_of_def)

lemma ctl_frozen: "ctl s' = ctl s \<Longrightarrow> sy_frozen s' = sy_frozen s"
  by (simp add: ctl_def)

lemma mode_walking: "mode st' = mode st \<Longrightarrow> ts_walking st' = ts_walking st"
  by (simp add: mode_def)

lemma cursor_of_simps [simp]: "cursor_of (called s) = cursor_of s" "cursor_of (broadcast evs s) = cursor_of s"
  by (simp_all add: cursor_of_def)

lemma st_ok_disk:
  assumes "st_ok E X st d" and "file_of d' (log_path E) = file_of d (log_path E)"
  shows "st_ok E X st d'"
proof -
  have p: "lg_path (ts_log st) = log_path E" using assms(1) by (simp add: st_ok_def live_def)
  have "log_inv (ae_codec E) (ts_log st) d' = log_inv (ae_codec E) (ts_log st) d"
    unfolding log_inv_def p assms(2) ..
  then show ?thesis using assms(1) by (simp add: st_ok_def live_def)
qed

lemma write_cursor_ok:
  assumes ok: "sys_ok E X s"
  shows "sys_ok E X (write_cursor N h force s)" and "sy_state (write_cursor N h force s) = sy_state s"
    and "sy_frozen (write_cursor N h force s) = sy_frozen s"
    and "cursor_of (write_cursor N h force s) = cursor_of s \<or> cursor_of (write_cursor N h force s) = Some (ascii h)"
    and "force \<Longrightarrow> cursor_of (write_cursor N h force s) = Some (ascii h) \<or> sy_force_owed (write_cursor N h force s)"
proof -
  let ?p = "cursor_path E"
  have p: "sy_cursor_path s = ?p" using ok by (simp add: sys_ok_def)
  have st: "st_ok E X (sy_state s) (sy_disk s)" using ok by (simp add: sys_ok_def)
  obtain d r where aw: "atomic_write ?p (ascii h) (sy_disk s) = (d, r)" by fastforce
  have d: "content d = (content (sy_disk s))(?p \<mapsto> ascii h, temp_path ?p := None) \<and> r = Inr () \<or>
      r = Inl OtherError \<and> (content d = content (sy_disk s) \<or> (\<exists>k. content d = (content (sy_disk s))(temp_path ?p \<mapsto> take k (ascii h))))"
    using atomic_write_cases [OF cursor_log_path(3) aw] by blast
  have same_file: "file_of d (log_path E) = file_of (sy_disk s) (log_path E)"
    using d cursor_log_path(1,2) [of E] by (auto simp: file_of_def)
  have st': "st_ok E X (sy_state s) d" by (rule st_ok_disk [OF st same_file])
  have cont: "content d ?p = (if r = Inr () then Some (ascii h) else content (sy_disk s) ?p)"
    using d temp_path_neq [OF cursor_log_path(3), of E] by auto
  note defs = write_cursor_def now_unix_ms_def Let_def cursor_of_def
  show "sys_ok E X (write_cursor N h force s)"
    using ok st' aw p by (cases r) (auto simp: defs sys_ok_def)
  show "sy_state (write_cursor N h force s) = sy_state s" "sy_frozen (write_cursor N h force s) = sy_frozen s"
    using aw p by (cases r; simp add: defs)+
  show "cursor_of (write_cursor N h force s) = cursor_of s \<or> cursor_of (write_cursor N h force s) = Some (ascii h)"
    using aw p cont by (cases r) (auto simp: defs)
  show "force \<Longrightarrow> cursor_of (write_cursor N h force s) = Some (ascii h) \<or> sy_force_owed (write_cursor N h force s)"
    using aw p cont by (cases r) (auto simp: defs)
qed

lemma freeze_cursor_ok:
  assumes ok: "sys_ok E X s"
  shows "sys_ok E X (freeze_cursor N s)" and "cursor_of (freeze_cursor N s) = cursor_of s"
    and "sy_frozen (freeze_cursor N s)"
    and "ts_walking (sy_state (freeze_cursor N s)) = ts_walking (sy_state s)"
proof -
  have "st_ok E X ((sy_state s)\<lparr>ts_depth_held := True\<rparr>) (sy_disk s)"
    by (rule st_ok_flags [of E X "sy_state s"]) (use ok in \<open>simp_all add: sys_ok_def\<close>)
  then show "sys_ok E X (freeze_cursor N s)"
    using ok by (auto simp: freeze_cursor_def now_unix_ms_def Let_def sys_ok_def called_def)
  show "cursor_of (freeze_cursor N s) = cursor_of s" "sy_frozen (freeze_cursor N s)"
    "ts_walking (sy_state (freeze_cursor N s)) = ts_walking (sy_state s)"
    by (simp_all add: freeze_cursor_def now_unix_ms_def Let_def cursor_of_def called_def)
qed

lemma release_cursor_ok:
  assumes ok: "sys_ok E X s"
  shows "sys_ok E X (release_cursor s)" and "cursor_of (release_cursor s) = cursor_of s"
    and "\<not> sy_frozen (release_cursor s)"
    and "ts_walking (sy_state (release_cursor s)) = ts_walking (sy_state s)"
proof -
  have "st_ok E X ((sy_state s)\<lparr>ts_depth_held := False\<rparr>) (sy_disk s)"
    by (rule st_ok_flags [of E X "sy_state s"]) (use ok in \<open>simp_all add: sys_ok_def\<close>)
  then show "sys_ok E X (release_cursor s)"
    using ok by (auto simp: release_cursor_def sys_ok_def)
  show "cursor_of (release_cursor s) = cursor_of s" "\<not> sy_frozen (release_cursor s)"
    "ts_walking (sy_state (release_cursor s)) = ts_walking (sy_state s)"
    by (simp_all add: release_cursor_def cursor_of_def)
qed

lemma fold_live_cases:
  assumes ok: "sys_ok E X s" and s': "s' = fold_live E N batch s"
  shows "sys_ok E X s' \<and> ts_walking (sy_state s') = ts_walking (sy_state s) \<and>
    (cursor_of s' \<noteq> cursor_of s \<longrightarrow>
       \<not> sy_frozen s \<and> \<not> sy_frozen s' \<and> vb_added batch \<noteq> [] \<and> cursor_of s' = Some (ascii (last (vb_added batch))) \<and>
       batch_settled X (sy_state s') batch) \<and>
    (sy_frozen s' \<or> batch_settled X (sy_state s') batch)"
proof -
  obtain s1 complete accepted where fb: "fold_batch E N batch s = (s1, complete, accepted)" by (metis prod_cases3)
  have i: "sys_ok E X s1" "cursor_of s1 = cursor_of s" "sy_frozen s1 = sy_frozen s"
    "ts_walking (sy_state s1) = ts_walking (sy_state s)" "complete \<Longrightarrow> batch_settled X (sy_state s1) batch"
    using fold_batch_inner [OF ok fb] cursor_of_ctl [of s1 s] ctl_frozen [of s1 s]
      mode_walking [of "sy_state s1" "sy_state s"] unfolding inner_def by blast+
  let ?s2 = "s1\<lparr>sy_force_owed := False\<rparr>"
  have ok2: "sys_ok E X ?s2" and c2: "cursor_of ?s2 = cursor_of s1" using i(1) by (simp_all add: sys_ok_def cursor_of_def)
  consider (held) "\<not> complete" | (frozen) "complete" "sy_frozen s1 \<or> vb_added batch = []"
    | (moved) "complete" "\<not> sy_frozen s1" "vb_added batch \<noteq> []" by blast
  then show ?thesis
  proof cases
    case held
    then have "s' = freeze_cursor N s1" using s' fb by (simp add: fold_live_def)
    then show ?thesis using freeze_cursor_ok [OF i(1), of N] i by simp
  next
    case frozen
    then have "s' = s1" using s' fb by (auto simp: fold_live_def)
    then show ?thesis using i frozen by simp
  next
    case moved
    let ?f = "accepted \<or> sy_force_owed s1"
    have "s' = write_cursor N (last (vb_added batch)) ?f ?s2" using s' fb moved by (simp add: fold_live_def)
    then show ?thesis using write_cursor_ok(1-4) [OF ok2, of N "last (vb_added batch)" ?f] i moved c2 by auto
  qed
qed

section \<open>The other steps\<close>

definition good :: "acc_env \<Rightarrow> sys \<Rightarrow> bool" where
  "good E s \<longleftrightarrow> (\<exists>X. sys_ok E X s)"

lemma goodI: "sys_ok E X s \<Longrightarrow> good E s"
  by (auto simp: good_def)

lemma good_called [simp]: "good E (called s) \<longleftrightarrow> good E s"
  by (simp add: good_def)

lemma good_broadcast [simp]: "good E (broadcast evs s) \<longleftrightarrow> good E s"
  by (simp add: good_def)

lemma sys_ok_state:
  assumes "sys_ok E X s" and "ts_log st = ts_log (sy_state s)" and "ts_by_block st = ts_by_block (sy_state s)"
    and "ts_off st = ts_off (sy_state s)" and "ts_depth_held st = ts_depth_held (sy_state s)"
  shows "sys_ok E X (s\<lparr>sy_state := st\<rparr>)"
  using assms st_ok_flags [of E X "sy_state s" "sy_disk s" st] by (simp add: sys_ok_def)

lemma good_state:
  assumes "good E s" and "ts_log st = ts_log (sy_state s)" and "ts_by_block st = ts_by_block (sy_state s)"
    and "ts_off st = ts_off (sy_state s)" and "ts_depth_held st = ts_depth_held (sy_state s)"
  shows "good E (s\<lparr>sy_state := st\<rparr>)"
  using assms sys_ok_state unfolding good_def by blast

lemma good_walking: "good E s \<Longrightarrow> good E (walking_begin s)" "good E s \<Longrightarrow> good E (walking_drop s)"
  unfolding walking_begin_def walking_drop_def by (rule good_state; simp)+

lemma ahead_one_ok:
  assumes ok: "sys_ok E X s"
  shows "sys_ok E X (ahead_one N s m) \<and> ts_walking (sy_state (ahead_one N s m)) = ts_walking (sy_state s)"
proof -
  obtain block ts where m: "m = (block, ts)" by (cases m)
  obtain s1 facts where rd: "read_accepting_block N block s = (s1, facts)" by fastforce
  have i: "sys_ok E X s1" "ts_walking (sy_state s1) = ts_walking (sy_state s)"
    using read_accepting_block_inner [OF ok rd] by (auto simp: inner_def mode_def)
  show ?thesis
    using i rd m
    by (cases facts) (simp_all add: ahead_one_def sys_ok_state)
qed

lemma fold_ahead_ok:
  assumes "sys_ok E X s"
  shows "sys_ok E X (fold_ahead N batch s) \<and> ts_walking (sy_state (fold_ahead N batch s)) = ts_walking (sy_state s)"
proof -
  have "sys_ok E X (foldl (ahead_one N) s ms) \<and> ts_walking (sy_state (foldl (ahead_one N) s ms)) = ts_walking (sy_state s)" for ms
    using assms
  proof (induction ms arbitrary: s)
    case (Cons m ms)
    then show ?case using Cons.IH [of "ahead_one N s m"] ahead_one_ok [OF Cons.prems, of N m] by simp
  qed simp
  then show ?thesis by (simp add: fold_ahead_def)
qed

lemma walk_tell_inner:
  assumes ok: "sys_ok E X s" and run: "walk_tell E a (s, evs) t = (s', evs')"
  shows "inner E X s s'"
proof -
  obtain s1 r where lk: "locked (walk_accepted E t (wa_block a) (wa_blue a) (wa_ms a)) s = (s1, r)" by fastforce
  have st: "st_ok E X (sy_state s) (sy_disk s)" using ok by (simp add: sys_ok_def)
  have "inner E X s s1"
    by (rule locked_inner [OF ok lk]) (use walk_accepted_ok [OF st] keeps_walk_accepted in blast)
  moreover have "s' = s1" using run lk by (cases r) (simp_all add: walk_tell_def)
  ultimately show ?thesis by simp
qed

lemma walk_tell_fold_inner:
  assumes "sys_ok E X s" and "foldl (walk_tell E a) (s, evs) ts = (s', evs')"
  shows "inner E X s s'"
  using assms
proof (induction ts arbitrary: s evs)
  case Nil
  then show ?case by (simp add: inner_refl)
next
  case (Cons t ts)
  obtain s1 e1 where s: "walk_tell E a (s, evs) t = (s1, e1)" by fastforce
  note i = walk_tell_inner [OF Cons.prems(1) s]
  show ?case using Cons.IH [OF inner_ok [OF i], of e1] Cons.prems(2) s inner_trans [OF i] by simp
qed

lemma mm_ok_fold: "mm_ok mm \<Longrightarrow> mm_ok (foldl (walk_remember a off now) mm ts)"
  by (induction ts arbitrary: mm) (simp_all add: walk_remember_def mm_ok_remember)

lemma walk_one_inner:
  assumes ok: "sys_ok E X s" and run: "walk_one E now (s, evs, res) a = (s', evs', res')"
  shows "inner E X s s'"
proof -
  obtain s1 e1 where f: "foldl (walk_tell E a) (s, evs) (wa_txids a) = (s1, e1)" by fastforce
  note i = walk_tell_fold_inner [OF ok f]
  have "s' = s1\<lparr>sy_matched := foldl (walk_remember a (oc_contains (ts_off (sy_state s)) (wa_block a)) now) (sy_matched s1) (wa_txids a)\<rparr>"
    using run f by (simp add: walk_one_def Let_def)
  then show ?thesis using i mm_ok_fold by (simp add: inner_def sys_ok_def)
qed

lemma walk_fold_inner:
  assumes "sys_ok E X s" and "foldl (walk_one E now) (s, evs, res) as = (s', evs', res')"
  shows "inner E X s s'"
  using assms
proof (induction as arbitrary: s evs res)
  case Nil
  then show ?case by (simp add: inner_refl)
next
  case (Cons a as)
  obtain s1 e1 r1 where s: "walk_one E now (s, evs, res) a = (s1, e1, r1)" by (metis prod_cases3)
  note i = walk_one_inner [OF Cons.prems(1) s]
  show ?case using Cons.IH [OF inner_ok [OF i], of e1 r1] Cons.prems(2) s inner_trans [OF i] by simp
qed

lemma resolve_fold_inner:
  assumes "sys_ok E X s" and "foldl resolve_one (s, evs) rs = (s', evs')"
  shows "inner E X s s'"
  using assms
proof (induction rs arbitrary: s evs)
  case Nil
  then show ?case by (simp add: inner_refl)
next
  case (Cons r rs)
  obtain s1 out where t: "take_resolvable (fst r) (snd r) s = (s1, out)" by fastforce
  have i: "inner E X s s1" using take_resolvable_inner [OF Cons.prems(1) t] by blast
  have "resolve_one (s, evs) r = (s1, evs @ out)" using t by (simp add: resolve_one_def)
  then show ?case using Cons.IH [OF inner_ok [OF i], of "evs @ out"] Cons.prems(2) inner_trans [OF i] by simp
qed

lemma fold_walk_inner:
  assumes ok: "sys_ok E X s"
  shows "inner E X s (fold_walk E N batch s)"
proof -
  let ?now = "nd_clock N (sy_calls s)"
  let ?s1 = "if wb_removed batch = [] then called s
    else (called s)\<lparr>sy_matched := mm_displace (wb_removed batch) ?now (sy_matched (called s))\<rparr>"
  obtain s2 e2 r2 where f: "foldl (walk_one E ?now) (?s1, [], []) (wb_accepted batch) = (s2, e2, r2)"
    by (metis prod_cases3)
  obtain s3 e3 where g: "foldl resolve_one (s2, e2) r2 = (s3, e3)" by fastforce
  have "fold_walk E N batch s = broadcast e3 s3"
    using f g by (simp add: fold_walk_def now_unix_ms_def Let_def)
  moreover have i1: "inner E X s ?s1" using ok mm_ok_displace by (simp add: inner_def sys_ok_def)
  moreover have i2: "inner E X ?s1 s2" by (rule walk_fold_inner [OF inner_ok [OF i1] f])
  moreover have "inner E X s2 s3" by (rule resolve_fold_inner [OF inner_ok [OF i2] g])
  ultimately show ?thesis using inner_trans by (metis inner_broadcast)
qed

end
