(* ===== verification/Acceptance_Run.thy ===== *)
theory Acceptance_Run
  imports Acceptance_Cursor
begin

text \<open>
  The catch-up walk and the run loop: the shell's invariant over every sequence of inputs, how
  far a walk can go, and the order in which feeds are folded.
\<close>

section \<open>The walk\<close>

text \<open>A step that keeps the shell's invariant and the walking mark.\<close>

definition step_ok :: "acc_env \<Rightarrow> string set \<Rightarrow> sys \<Rightarrow> sys \<Rightarrow> bool" where
  "step_ok E X s s' \<longleftrightarrow> sys_ok E X s' \<and> ts_walking (sy_state s') = ts_walking (sy_state s)"

lemma step_ok_trans: "step_ok E X s s' \<Longrightarrow> step_ok E X s' s'' \<Longrightarrow> step_ok E X s s''"
  by (simp add: step_ok_def)

lemma step_ok_refl: "sys_ok E X s \<Longrightarrow> step_ok E X s s"
  by (simp add: step_ok_def)

lemma step_ok_inner: "inner E X s s' \<Longrightarrow> step_ok E X s s'"
  by (simp add: inner_def step_ok_def mode_def)

lemma step_ok_called [simp]: "step_ok E X s (called s') \<longleftrightarrow> step_ok E X s s'"
  "step_ok E X (called s) s' \<longleftrightarrow> step_ok E X s s'"
  by (simp_all add: step_ok_def)

lemma step_ok_broadcast [simp]: "step_ok E X s (broadcast evs s') \<longleftrightarrow> step_ok E X s s'"
  by (simp add: step_ok_def)

lemma step_ok_D: "step_ok E X s s' \<Longrightarrow> sys_ok E X s'"
  by (simp add: step_ok_def)

lemma write_cursor_step: "sys_ok E X s \<Longrightarrow> step_ok E X s (write_cursor N h force s)"
  using write_cursor_ok(1,2) by (simp add: step_ok_def)

lemma freeze_cursor_step: "sys_ok E X s \<Longrightarrow> step_ok E X s (freeze_cursor N s)"
  using freeze_cursor_ok(1,4) by (simp add: step_ok_def)

lemma release_cursor_step: "sys_ok E X s \<Longrightarrow> step_ok E X s (release_cursor s)"
  using release_cursor_ok(1,4) by (simp add: step_ok_def)

lemma reseed_step: "sys_ok E X s \<Longrightarrow> step_ok E X s (reseed N s)"
proof -
  assume ok: "sys_ok E X s"
  show ?thesis
  proof (cases "nd_sink N (sy_calls s)")
    case None
    then show ?thesis using ok by (simp add: reseed_def step_ok_def)
  next
    case (Some h)
    have a: "step_ok E X s (write_cursor N h True (called s))" using write_cursor_step [of E X "called s"] ok by simp
    show ?thesis
      using Some step_ok_trans [OF a release_cursor_step [OF step_ok_D [OF a]]] by (simp add: reseed_def)
  qed
qed

lemma reseed_cursor:
  assumes "sys_ok E X s"
  shows "cursor_of (reseed N s) = cursor_of s \<or> (\<exists>h k. nd_sink N k = Some h \<and> cursor_of (reseed N s) = Some (ascii h))"
proof (cases "nd_sink N (sy_calls s)")
  case None
  then show ?thesis by (simp add: reseed_def)
next
  case (Some h)
  have ok: "sys_ok E X (called s)" using assms by simp
  let ?w = "write_cursor N h True (called s)"
  have "cursor_of ?w = cursor_of s \<or> cursor_of ?w = Some (ascii h)" using write_cursor_ok(4) [OF ok] by simp
  moreover have "cursor_of (reseed N s) = cursor_of ?w"
    using Some release_cursor_ok(2) [OF write_cursor_ok(1) [OF ok]] by (simp add: reseed_def)
  ultimately show ?thesis using Some by auto
qed

lemma keeps_hold_step: "sys_ok E X s \<Longrightarrow> keeps_hold E N s = (s', b) \<Longrightarrow> step_ok E X s s' \<and> cursor_of s' = cursor_of s"
  by (auto simp: keeps_hold_def now_unix_ms_def Let_def step_ok_def split: if_splits)

lemma catch_up_page_step:
  "sys_ok E X s \<Longrightarrow> catch_up_page n N cursor s = (s', r) \<Longrightarrow>
   step_ok E X s s' \<and> cursor_of s' = cursor_of s \<and> sy_frozen s' = sy_frozen s \<and> sy_state s' = sy_state s
     \<and> sy_calls s' \<le> sy_calls s + n \<and> (r = None \<or> (\<exists>k. r = nd_page N k cursor))"
proof (induction n N cursor s rule: catch_up_page.induct)
  case (1 N cursor s)
  then show ?case by (simp add: step_ok_def)
next
  case (2 n N cursor s)
  show ?case
  proof (cases "nd_page N (sy_calls s) cursor")
    case None
    have ok: "sys_ok E X (called s)" using 2(2) by simp
    have run: "catch_up_page n N cursor (called s) = (s', r)" using 2(3) None by simp
    have "sy_calls (called s) = sy_calls s + 1" by (simp add: called_def)
    then show ?thesis using "2.IH" [OF None ok run] by auto
  next
    case (Some resp)
    have "s' = called s" "r = Some resp" using 2(3) Some by simp_all
    moreover have "sy_calls (called s) = sy_calls s + 1" by (simp add: called_def)
    moreover have "\<exists>k. Some resp = nd_page N k cursor" using Some by metis
    ultimately show ?thesis using 2(2) by (simp add: step_ok_def)
  qed
qed

lemma read_cursor_step:
  assumes ok: "sys_ok E X s" and run: "read_cursor N s = (s', r)"
  shows "step_ok E X s s' \<and> cursor_of s' = cursor_of s \<and> sy_frozen s' = sy_frozen s"
proof -
  obtain d x where rd: "read_file (sy_cursor_path s) (sy_disk s) = (d, x)" by fastforce
  note c = read_file_content [OF rd]
  have s': "s' = s\<lparr>sy_disk := d\<rparr>" using run rd by (cases x) (simp_all add: read_cursor_def)
  have "st_ok E X (sy_state s) d"
    by (rule st_ok_disk [of E X _ "sy_disk s"]) (use ok c in \<open>simp_all add: sys_ok_def file_of_def\<close>)
  then show ?thesis using ok c unfolding s' by (simp add: step_ok_def sys_ok_def cursor_of_def)
qed

text \<open>One page of the walk, and the only way it moves the cursor.\<close>

lemma walk_page_step:
  assumes ok: "sys_ok E X s" and run: "walk_page E N cursor clean pages batch s = (w, s')"
  shows "step_ok E X s s' \<and>
    (cursor_of s' \<noteq> cursor_of s \<longrightarrow> clean \<and> vb_added batch \<noteq> [] \<and>
       cursor_of s' = Some (ascii (last (vb_added batch))) \<and> batch_settled X (sy_state s') batch) \<and>
    (w = W_Done \<or> (\<exists>cursor' clean'. w = W_At cursor' clean' pages \<and> (clean' \<longrightarrow> clean) \<and>
       (clean \<and> \<not> clean' \<longrightarrow> sy_frozen s'))) \<and>
    (w = W_Done \<longrightarrow> sy_frozen s' \<or> clean \<and> batch_settled X (sy_state s') batch)"
proof -
  obtain s1 complete accepted where fb: "fold_batch E N batch s = (s1, complete, accepted)" by (metis prod_cases3)
  have i: "sys_ok E X s1" "cursor_of s1 = cursor_of s" "step_ok E X s s1"
    "complete \<Longrightarrow> batch_settled X (sy_state s1) batch"
    using fold_batch_inner [OF ok fb] cursor_of_ctl [of s1 s] step_ok_inner unfolding inner_def by blast+
  let ?clean = "clean \<and> complete"
  define s2 where "s2 = (if complete then s1 else freeze_cursor N s1)"
  have s2: "step_ok E X s s2" "cursor_of s2 = cursor_of s" "\<not> complete \<Longrightarrow> sy_frozen s2"
    "complete \<Longrightarrow> s2 = s1"
    using i freeze_cursor_ok [OF i(1), of N] step_ok_trans [OF i(3) freeze_cursor_step [OF i(1)]]
    by (auto simp: s2_def)
  have ok2: "sys_ok E X s2" by (rule step_ok_D [OF s2(1)])
  let ?h = "last (vb_added batch)"
  define s3 where "s3 = (if vb_added batch \<noteq> [] \<and> ?clean then write_cursor N ?h True s2 else s2)"
  have s3: "step_ok E X s s3" "sy_state s3 = sy_state s2" "sy_frozen s3 = sy_frozen s2"
    "cursor_of s3 \<noteq> cursor_of s \<longrightarrow> vb_added batch \<noteq> [] \<and> ?clean \<and> cursor_of s3 = Some (ascii ?h)"
    using write_cursor_ok(1-4) [OF ok2, of N ?h True] step_ok_trans [OF s2(1) write_cursor_step [OF ok2]] s2
    by (auto simp: s3_def)
  have ok3: "sys_ok E X s3" by (rule step_ok_D [OF s3(1)])
  have out: "(w, s') = (if length (vb_added batch) < vcc_tip_page_threshold
      then (W_Done, if ?clean then release_cursor s3 else freeze_cursor N s3)
      else (W_At (if vb_added batch = [] then cursor else ?h) ?clean pages, s3))"
    using run fb by (auto simp: walk_page_def Let_def s2_def s3_def)
  have st4: "acc_at (sy_state (release_cursor s3)) = acc_at (sy_state s3)"
    "is_watched (sy_state (release_cursor s3)) = is_watched (sy_state s3)"
    by (auto simp: release_cursor_def acc_at_def is_watched_def fun_eq_iff)
  have settled: "batch_settled X (sy_state s3) batch" if "?clean" using i(4) s2(4) s3(2) that by simp
  then have settled4: "batch_settled X (sy_state (release_cursor s3)) batch" if "?clean"
    using st4 that unfolding batch_settled_def by simp
  show ?thesis
  proof (cases "length (vb_added batch) < vcc_tip_page_threshold")
    case True
    then have o: "w = W_Done" "s' = (if ?clean then release_cursor s3 else freeze_cursor N s3)" using out by simp_all
    show ?thesis
      using o s3 settled4 release_cursor_ok(1,2,4) [OF ok3] freeze_cursor_ok [OF ok3, of N]
      by (auto simp: step_ok_def)
  next
    case False
    then have "w = W_At (if vb_added batch = [] then cursor else ?h) ?clean pages" "s' = s3" using out by simp_all
    then show ?thesis using s3 settled s2(3) by auto
  qed
qed

lemma walk_step_ok:
  assumes ok: "sys_ok E X s" and run: "walk_step E N w s = (w', s')"
  shows "step_ok E X s s'"
proof (cases w)
  case W_Start
  obtain s1 r where rd: "read_cursor N s = (s1, r)" by fastforce
  note i = read_cursor_step [OF ok rd]
  then have a: "step_ok E X s s1" by simp
  show ?thesis
    using run W_Start rd a step_ok_trans [OF a reseed_step [OF step_ok_D [OF a], of N]]
    by (cases r) (auto simp: walk_step_def)
next
  case (W_At cursor clean n)
  obtain sk b where kh: "keeps_hold E N s = (sk, b)" by fastforce
  have k: "step_ok E X s sk" using keeps_hold_step [OF ok kh] by simp
  show ?thesis
  proof (cases n)
    case 0
    show ?thesis
      using run W_At 0 kh k reseed_step [OF ok, of N] step_ok_trans [OF k reseed_step [OF step_ok_D [OF k], of N]]
      by (cases clean; cases b) (auto simp: walk_step_def)
  next
    case (Suc pages)
    obtain s1 r where cp: "catch_up_page vcc_page_attempts N cursor s = (s1, r)" by fastforce
    have a: "step_ok E X s s1" using catch_up_page_step [OF ok cp] by simp
    show ?thesis
    proof (cases r)
      case None
      obtain s2 b2 where kh2: "keeps_hold E N s1 = (s2, b2)" by fastforce
      have k2: "step_ok E X s1 s2" using keeps_hold_step [OF step_ok_D [OF a] kh2] by simp
      have k3: "step_ok E X s s2" by (rule step_ok_trans [OF a k2])
      show ?thesis
        using run W_At Suc cp None kh2 k3 step_ok_trans [OF k3 reseed_step [OF step_ok_D [OF k3], of N]]
        by (cases b2) (auto simp: walk_step_def)
    next
      case (Some batch)
      then have "walk_page E N cursor clean pages batch s1 = (w', s')"
        using run W_At Suc cp by (simp add: walk_step_def)
      then show ?thesis using walk_page_step [OF step_ok_D [OF a]] step_ok_trans [OF a] by blast
    qed
  qed
next
  case W_Done
  then show ?thesis using run ok by (simp add: walk_step_def step_ok_def)
qed

text \<open>Pages left: what the walk still may ask for.\<close>

fun walk_fuel :: "walk_state \<Rightarrow> nat" where
  "walk_fuel W_Start = max_vcc_catchup_pages + 2"
| "walk_fuel (W_At _ _ n) = n + 1"
| "walk_fuel W_Done = 0"

lemma walk_step_fuel:
  assumes "sys_ok E X s" and "w \<noteq> W_Done" and "walk_step E N w s = (w', s')"
  shows "walk_fuel w' < walk_fuel w"
proof (cases w)
  case W_Start
  then show ?thesis using assms(3) by (auto simp: walk_step_def split: prod.splits option.splits)
next
  case (W_At cursor clean n)
  show ?thesis
  proof (cases n)
    case 0
    then show ?thesis using assms(3) W_At by (auto simp: walk_step_def split: prod.splits if_splits bool.splits)
  next
    case (Suc pages)
    obtain s1 r where cp: "catch_up_page vcc_page_attempts N cursor s = (s1, r)" by fastforce
    show ?thesis
    proof (cases r)
      case None
      then show ?thesis using assms(3) W_At Suc cp by (auto simp: walk_step_def split: prod.splits if_splits bool.splits)
    next
      case (Some batch)
      have ok1: "sys_ok E X s1" using catch_up_page_step [OF assms(1) cp] step_ok_D by blast
      have "walk_page E N cursor clean pages batch s1 = (w', s')"
        using assms(3) W_At Suc cp Some by (simp add: walk_step_def)
      then show ?thesis using walk_page_step [OF ok1] W_At Suc by fastforce
    qed
  qed
qed (use assms in simp)

lemma walk_steps_done:
  "sys_ok E X s \<Longrightarrow> walk_fuel w \<le> n \<Longrightarrow> walk_steps n E N w s = (w', s') \<Longrightarrow> w' = W_Done \<and> step_ok E X s s'"
proof (induction n arbitrary: w s)
  case 0
  then show ?case by (cases w) (auto simp: step_ok_def)
next
  case (Suc n)
  obtain w1 s1 where st: "walk_step E N w s = (w1, s1)" by fastforce
  have a: "step_ok E X s s1" by (rule walk_step_ok [OF Suc.prems(1) st])
  have run: "walk_steps n E N w1 s1 = (w', s')" using Suc.prems(3) st by simp
  have "walk_fuel w1 \<le> n"
  proof (cases "w = W_Done")
    case True
    then have "w1 = W_Done" using st by (simp add: walk_step_def)
    then show ?thesis by simp
  next
    case False
    then show ?thesis using walk_step_fuel [OF Suc.prems(1) False st] Suc.prems(2) by simp
  qed
  then show ?case using Suc.IH [OF step_ok_D [OF a] _ run] step_ok_trans [OF a] by blast
qed

end
