(* ===== verification/Acceptance_Loop.thy ===== *)
theory Acceptance_Loop
  imports Acceptance_Run
begin

text \<open>
  The run loop over every sequence of inputs: the shell's invariant, the walking mark, the feeds
  a walk holds back, and the end of every walk.
\<close>

section \<open>Calls from other threads, sink scores and ticks\<close>

definition outer :: "acc_env \<Rightarrow> sys \<Rightarrow> sys \<Rightarrow> bool" where
  "outer E s s' \<longleftrightarrow> good E s' \<and> ctl s' = ctl s \<and> mode (sy_state s') = mode (sy_state s)"

lemma outer_refl: "good E s \<Longrightarrow> outer E s s"
  by (simp add: outer_def)

lemma outer_called [simp]: "outer E s (called s') \<longleftrightarrow> outer E s s'" "outer E (called s) s' \<longleftrightarrow> outer E s s'"
  by (simp_all add: outer_def)

lemma outer_broadcast [simp]: "outer E s (broadcast evs s') \<longleftrightarrow> outer E s s'"
  by (simp add: outer_def)

lemma inner_outer: "inner E X s s' \<Longrightarrow> outer E s s'"
  by (auto simp: inner_def outer_def good_def)

lemma outer_cursor: "outer E s s' \<Longrightarrow> cursor_of s' = cursor_of s \<and> sy_frozen s' = sy_frozen s"
  using cursor_of_ctl [of s' s] ctl_frozen [of s' s] by (simp add: outer_def)

lemma outer_walking: "outer E s s' \<Longrightarrow> ts_walking (sy_state s') = ts_walking (sy_state s)"
  using mode_walking [of "sy_state s'" "sy_state s"] by (simp add: outer_def)

lemma locked_outer:
  assumes ok: "sys_ok E X s" and run: "locked f s = (s', r)"
    and f: "\<And>st' d'. f (sy_state s) (sy_disk s) = (st', d', r) \<Longrightarrow>
      (\<exists>Y. st_ok E Y st' d') \<and> keeps (sy_state s, sy_disk s) (st', d')"
  shows "outer E s s'"
proof -
  obtain st' d' where e: "f (sy_state s) (sy_disk s) = (st', d', r)"
    using run by (auto simp: locked_def split: prod.splits)
  obtain Y where Y: "st_ok E Y st' d'" using f [OF e] by blast
  have "inner E Y s s'"
  proof (rule locked_inner [OF ok run])
    fix st'' d'' assume "f (sy_state s) (sy_disk s) = (st'', d'', r)"
    then show "st_ok E Y st'' d'' \<and> keeps (sy_state s, sy_disk s) (st'', d'')" using f [OF e] Y e by simp
  qed
  then show ?thesis by (rule inner_outer)
qed

lemma tracker_watch_outer:
  assumes "good E s"
  shows "outer E s (tracker_watch E N t src s)"
proof (cases "is_watched (sy_state s) t")
  case True
  then show ?thesis using outer_refl [OF assms] by (simp add: tracker_watch_def)
next
  case False
  obtain X where "sys_ok E X s" using assms by (auto simp: good_def)
  then have ok: "sys_ok E X (called s)" and st: "st_ok E X (sy_state (called s)) (sy_disk (called s))"
    by (simp_all add: sys_ok_def)
  have new: "\<not> is_watched (sy_state (called s)) t" using False by simp
  let ?rem = "if src = Transport then mm_get (sy_matched s) t else None" and ?now = "nd_clock N (sy_calls s)"
  show ?thesis
  proof (cases ?rem)
    case None
    obtain s1 r where lk: "locked (watch_state E t src ?now) (called s) = (s1, r)" by fastforce
    have "outer E (called s) s1"
      by (rule locked_outer [OF ok lk]) (use watch_state_ok(1) [OF st] keeps_watch_state in blast)
    then show ?thesis using None False lk by (simp add: tracker_watch_def now_unix_ms_def)
  next
    case (Some rem)
    obtain s1 r where lk: "locked (watch_remembered E t src ?now rem) (called s) = (s1, r)" by fastforce
    have "outer E (called s) s1"
      by (rule locked_outer [OF ok lk]) (use watch_remembered_ok [OF st new] keeps_watch_remembered in blast)
    then show ?thesis
      using Some False lk by (cases r) (simp_all add: tracker_watch_def now_unix_ms_def)
  qed
qed

lemma note_sender_interest_outer:
  assumes "good E s"
  shows "outer E s (note_sender_interest t s)"
proof -
  have "outer E s (s\<lparr>sy_interest := interest_push t (sy_interest s)\<rparr>)"
    using assms interest.good_push by (auto simp: outer_def good_def sys_ok_def)
  then show ?thesis
    using assms outer_refl [OF assms]
    by (auto simp: note_sender_interest_def Let_def split: option.splits remembered.splits)
qed

lemma run_sink_outer:
  assumes "good E s"
  shows "outer E s (run_sink E N blue s)"
proof -
  obtain X where "sys_ok E X s" using assms by (auto simp: good_def)
  then have ok: "sys_ok E X (called s)" and st: "st_ok E X (sy_state (called s)) (sy_disk (called s))"
    by (simp_all add: sys_ok_def)
  obtain s1 r where lk: "locked (on_sink_blue E blue (nd_clock N (sy_calls s))) (called s) = (s1, r)" by fastforce
  have "outer E (called s) s1"
    by (rule locked_outer [OF ok lk]) (use on_sink_blue_ok [OF st] keeps_on_sink_blue in blast)
  then show ?thesis using lk by (cases r) (simp_all add: run_sink_def now_unix_ms_def)
qed

lemma tick_outer:
  assumes "good E s" and t: "tick now (sy_state s) = (st, evs)"
  shows "outer E s (s\<lparr>sy_state := st\<rparr>)"
proof -
  obtain X where ok: "sys_ok E X s" using assms by (auto simp: good_def)
  then have "st_ok E X st (sy_disk s)" using tick_ok t by (auto simp: sys_ok_def)
  then have "sys_ok E X (s\<lparr>sy_state := st\<rparr>)" using ok mode_tick [OF t] by (simp add: sys_ok_def mode_def)
  then show ?thesis using mode_tick [OF t] by (auto simp: outer_def good_def)
qed

section \<open>Feeds\<close>

lemma fold_feed_ok:
  assumes "good E s"
  shows "good E (fold_feed E N s feed) \<and> ts_walking (sy_state (fold_feed E N s feed)) = ts_walking (sy_state s)"
proof -
  obtain X where ok: "sys_ok E X s" using assms by (auto simp: good_def)
  show ?thesis
  proof (cases feed)
    case (F_Vcc batch)
    then show ?thesis using fold_live_cases [OF ok refl, of N batch] by (auto simp: fold_feed_def good_def)
  next
    case (F_Walk batch)
    then show ?thesis
      using inner_outer [OF fold_walk_inner [OF ok, of N batch]] outer_walking
      by (simp add: fold_feed_def outer_def)
  qed
qed

lemma fold_feeds_ok:
  "good E s \<Longrightarrow> good E (foldl (fold_feed E N) s feeds) \<and>
     ts_walking (sy_state (foldl (fold_feed E N) s feeds)) = ts_walking (sy_state s)"
proof (induction feeds arbitrary: s)
  case (Cons feed feeds)
  then show ?case using Cons.IH [of "fold_feed E N s feed"] fold_feed_ok [OF Cons.prems, of N feed] by simp
qed simp

section \<open>The loop's invariant\<close>

definition run_ok :: "acc_env \<Rightarrow> run_state \<Rightarrow> bool" where
  "run_ok E r \<longleftrightarrow> good E (rn_sys r) \<and> (ts_walking (sy_state (rn_sys r)) \<longleftrightarrow> rn_walk r \<noteq> None) \<and>
     (rn_walk r = None \<longrightarrow> rn_held_back r = []) \<and> rn_walk r \<noteq> Some W_Done \<and>
     (\<forall>w. rn_walk r = Some w \<longrightarrow> walk_fuel w \<le> max_vcc_catchup_pages + 2)"

lemma run_ok_sys:
  assumes "run_ok E r" and "good E s" and "ts_walking (sy_state s) = ts_walking (sy_state (rn_sys r))"
  shows "run_ok E (r\<lparr>rn_sys := s\<rparr>)"
  using assms by (simp add: run_ok_def)

lemma run_ok_outer: "run_ok E r \<Longrightarrow> outer E (rn_sys r) s \<Longrightarrow> run_ok E (r\<lparr>rn_sys := s\<rparr>)"
  by (rule run_ok_sys) (simp_all add: outer_walking, simp add: outer_def)

lemma run_ok_called: "run_ok E r \<Longrightarrow> run_ok E (r\<lparr>rn_sys := called (rn_sys r)\<rparr>)"
  by (rule run_ok_outer) (simp_all add: outer_refl run_ok_def)

lemma run_ok_marks [simp]:
  "run_ok E (r\<lparr>rn_walk_again := a\<rparr>) \<longleftrightarrow> run_ok E r" "run_ok E (r\<lparr>rn_hold_walk := a\<rparr>) \<longleftrightarrow> run_ok E r"
  "run_ok E (r\<lparr>rn_backoff := n\<rparr>) \<longleftrightarrow> run_ok E r" "run_ok E (r\<lparr>rn_walk_at := n\<rparr>) \<longleftrightarrow> run_ok E r"
  "run_ok E (r\<lparr>rn_hold_seen := n\<rparr>) \<longleftrightarrow> run_ok E r"
  by (simp_all add: run_ok_def)

lemma begin_walk_ok: "good E (rn_sys r) \<Longrightarrow> run_ok E (begin_walk r)"
  using good_walking(1) by (simp add: run_ok_def begin_walk_def walking_begin_def)

lemma run_start_ok:
  assumes "good E s"
  shows "run_ok E (run_start N s)"
proof -
  have g: "good E (walking_begin s)" by (rule good_walking(1) [OF assms])
  have "good E ((walking_begin s)\<lparr>sy_state := (sy_state (walking_begin s))\<lparr>ts_sink := b\<rparr>\<rparr>)" for b
    by (rule good_state [OF g]) simp_all
  then show ?thesis
    using g by (auto simp: run_start_def Let_def now_instant_def run_ok_def walking_begin_def split: option.splits)
qed

lemma walk_done_ok:
  assumes g: "good E (rn_sys r)"
  shows "run_ok E (walk_done E N r)"
proof -
  define s where "s = walking_drop (foldl (fold_feed E N) (rn_sys r) (rn_held_back r))"
  have gs: "good E s" "\<not> ts_walking (sy_state s)"
    unfolding s_def using good_walking(2) fold_feeds_ok [OF g] by (auto simp: walking_drop_def)
  define r1 where "r1 = r\<lparr>rn_walk := None, rn_held_back := [], rn_sys := s, rn_hold_walk := False\<rparr>"
  have o1: "run_ok E r1" using gs by (simp add: r1_def run_ok_def)
  define r2 where "r2 = (if rn_hold_walk r \<and> sy_frozen s then
      r1\<lparr>rn_sys := called s, rn_backoff := min (rn_backoff r * 2) hold_walk_backoff_max,
         rn_walk_at := nd_instant N (sy_calls s) + min (rn_backoff r * 2) hold_walk_backoff_max\<rparr> else r1)"
  have o2: "run_ok E r2" using o1 by (simp add: r2_def r1_def run_ok_def)
  have "walk_done E N r = (if rn_walk_again r then begin_walk (r2\<lparr>rn_walk_again := False\<rparr>) else r2)"
    by (simp add: walk_done_def Let_def s_def r1_def r2_def now_instant_def)
  then show ?thesis using o2 begin_walk_ok [of E "r2\<lparr>rn_walk_again := False\<rparr>"] by (simp add: run_ok_def)
qed

text \<open>The first part of a tick: a walk of its own, when the cursor holds and the back-off is over.\<close>

definition hold_part :: "node \<Rightarrow> run_state \<Rightarrow> run_state" where
  "hold_part N r =
     (if \<not> sy_frozen (rn_sys r) then r
      else
        let r = (if sy_holds (rn_sys r) = rn_hold_seen r then r
                 else (let (now, s) = now_instant N (rn_sys r) in
                       r\<lparr>rn_sys := s, rn_hold_seen := sy_holds s, rn_backoff := tick_ms, rn_walk_at := now\<rparr>))
        in if rn_walk r \<noteq> None then r
           else (let (now, s) = now_instant N (rn_sys r); r = r\<lparr>rn_sys := s\<rparr> in
                 if now \<ge> rn_walk_at r then (begin_walk r)\<lparr>rn_hold_walk := True\<rparr> else r))"

lemma run_tick_parts:
  "run_tick E N r =
     (let r = hold_part N r; (now, s) = now_unix_ms N (rn_sys r); (st, events) = tick now (sy_state s)
      in r\<lparr>rn_sys := broadcast events (s\<lparr>sy_state := st\<rparr>)\<rparr>)"
  by (simp add: run_tick_def hold_part_def)

lemma hold_part_ok:
  assumes ok: "run_ok E r"
  shows "run_ok E (hold_part N r)"
proof -
  define r1 where "r1 = (if sy_holds (rn_sys r) = rn_hold_seen r then r
      else r\<lparr>rn_sys := called (rn_sys r), rn_hold_seen := sy_holds (called (rn_sys r)), rn_backoff := tick_ms,
             rn_walk_at := nd_instant N (sy_calls (rn_sys r))\<rparr>)"
  have o1: "run_ok E r1" using ok by (simp add: r1_def run_ok_def)
  let ?r2 = "r1\<lparr>rn_sys := called (rn_sys r1)\<rparr>"
  have e: "hold_part N r = (if \<not> sy_frozen (rn_sys r) then r else if rn_walk r1 \<noteq> None then r1
      else if nd_instant N (sy_calls (rn_sys r1)) \<ge> rn_walk_at r1 then (begin_walk ?r2)\<lparr>rn_hold_walk := True\<rparr> else ?r2)"
    by (simp add: hold_part_def r1_def now_instant_def Let_def)
  have "good E (rn_sys ?r2)" using o1 by (simp add: run_ok_def)
  then show ?thesis using ok o1 run_ok_called [OF o1] begin_walk_ok [of E ?r2] by (simp add: e)
qed

lemma run_tick_ok:
  assumes ok: "run_ok E r"
  shows "run_ok E (run_tick E N r)"
proof -
  let ?r = "hold_part N r"
  have o1: "run_ok E ?r" by (rule hold_part_ok [OF ok])
  obtain st evs where t: "tick (nd_clock N (sy_calls (rn_sys ?r))) (sy_state (called (rn_sys ?r))) = (st, evs)" by fastforce
  have g: "good E (called (rn_sys ?r))" using o1 by (simp add: run_ok_def)
  have "outer E (rn_sys ?r) ((called (rn_sys ?r))\<lparr>sy_state := st\<rparr>)" using tick_outer [OF g t] by simp
  then show ?thesis
    using run_ok_outer [OF o1] t by (simp add: run_tick_parts Let_def now_unix_ms_def)
qed

lemma run_step_ok:
  assumes ok: "run_ok E r"
  shows "run_ok E (run_step E N i r)"
proof -
  have g: "good E (rn_sys r)" using ok by (simp add: run_ok_def)
  then obtain X where sok: "sys_ok E X (rn_sys r)" by (auto simp: good_def)
  show ?thesis
  proof (cases i)
    case I_Walk
    show ?thesis
    proof (cases "rn_walk r")
      case None
      then show ?thesis using ok I_Walk by (simp add: run_step_def)
    next
      case (Some w)
      obtain w' s' where st: "walk_step E N w (rn_sys r) = (w', s')" by fastforce
      have a: "step_ok E X (rn_sys r) s'" by (rule walk_step_ok [OF sok st])
      then have g': "good E s'" "ts_walking (sy_state s') = ts_walking (sy_state (rn_sys r))"
        by (auto simp: step_ok_def good_def)
      show ?thesis
      proof (cases "w' = W_Done")
        case True
        then show ?thesis using I_Walk Some st walk_done_ok [of E "r\<lparr>rn_sys := s'\<rparr>" N] g' by (simp add: run_step_def)
      next
        case False
        then have "run_step E N i r = r\<lparr>rn_walk := Some w', rn_sys := s'\<rparr>"
          using I_Walk Some st by (cases w') (simp_all add: run_step_def)
        moreover have "w \<noteq> W_Done" "walk_fuel w \<le> max_vcc_catchup_pages + 2" using ok Some by (auto simp: run_ok_def)
        moreover have "walk_fuel w' \<le> max_vcc_catchup_pages + 2"
          using walk_step_fuel [OF sok \<open>w \<noteq> W_Done\<close> st] calculation(3) by simp
        ultimately show ?thesis using ok Some g' False by (simp add: run_ok_def)
      qed
    qed
  next
    case (I_Feed feed)
    have "good E (fold_ahead N batch (rn_sys r)) \<and>
      ts_walking (sy_state (fold_ahead N batch (rn_sys r))) = ts_walking (sy_state (rn_sys r))" for batch
      using fold_ahead_ok [OF sok, of N batch] by (auto simp: good_def)
    then show ?thesis
      using I_Feed ok g fold_feed_ok [OF g, of N feed]
      by (cases feed) (auto simp: run_step_def run_ok_def)
  next
    case I_Connected
    then show ?thesis using ok begin_walk_ok [OF g] by (simp add: run_step_def)
  next
    case (I_Sink blue)
    then show ?thesis using run_ok_outer [OF ok run_sink_outer [OF g]] by (simp add: run_step_def)
  next
    case I_Tick
    then show ?thesis using run_tick_ok [OF ok] by (simp add: run_step_def)
  qed
qed

lemma run_event_ok:
  assumes ok: "run_ok E r"
  shows "run_ok E (run_event E N r ev)"
proof -
  have g: "good E (rn_sys r)" using ok by (simp add: run_ok_def)
  show ?thesis
    using run_step_ok [OF ok] run_ok_outer [OF ok tracker_watch_outer [OF g]]
      run_ok_outer [OF ok note_sender_interest_outer [OF g]]
    by (cases ev) (simp_all add: run_event_def)
qed

lemma run_all_ok: "run_ok E r \<Longrightarrow> run_ok E (run_all E N evs r)"
  unfolding run_all_def by (induction evs arbitrary: r) (simp_all add: run_event_ok)

lemma load_tracker_good:
  assumes env: "env_ok E" and run: "load_tracker E d = (d', Inr s)"
  shows "sys_ok E {} s"
proof -
  obtain d1 st where l: "load_state E (log_path E) d = (d1, Inr st)" "sy_state s = st" "sy_disk s = d1"
    "sy_frozen s = False" "sy_matched s = no_memory" "sy_interest s = []" "sy_cursor_path s = cursor_path E"
    using run by (auto simp: load_tracker_def split: prod.splits sum.splits)
  have "ts_depth_held st = False"
    using l(1) by (auto simp: load_state_def split: prod.splits sum.splits option.splits)
  then show ?thesis
    using load_state_ok [OF env l(1)] l by (simp add: sys_ok_def interest_ok_def)
qed

section \<open>Every walk ends\<close>

lemma run_walk_count:
  assumes "run_ok E r" and "rn_walk r = Some w" and "walk_fuel w \<le> length (filter (\<lambda>ev. ev = R_Input I_Walk) evs)"
  shows "\<exists>a b w' s'. evs = a @ R_Input I_Walk # b \<and> rn_walk (run_all E N a r) = Some w' \<and>
     walk_step E N w' (rn_sys (run_all E N a r)) = (W_Done, s')"
  using assms
proof (induction evs arbitrary: r w)
  case Nil
  then show ?case by (cases w) (simp_all add: run_ok_def)
next
  case (Cons ev evs)
  have g: "good E (rn_sys r)" using Cons.prems(1) by (simp add: run_ok_def)
  then obtain X where sok: "sys_ok E X (rn_sys r)" by (auto simp: good_def)
  have nd: "w \<noteq> W_Done" using Cons.prems(1,2) by (simp add: run_ok_def)
  let ?r = "run_event E N r ev"
  have ok1: "run_ok E ?r" by (rule run_event_ok [OF Cons.prems(1)])
  show ?case
  proof (cases "ev = R_Input I_Walk")
    case True
    obtain w1 s1 where st: "walk_step E N w (rn_sys r) = (w1, s1)" by fastforce
    show ?thesis
    proof (cases "w1 = W_Done")
      case True
      then have "ev # evs = [] @ R_Input I_Walk # evs \<and> rn_walk (run_all E N [] r) = Some w \<and>
        walk_step E N w (rn_sys (run_all E N [] r)) = (W_Done, s1)"
        using \<open>ev = R_Input I_Walk\<close> Cons.prems(2) st by (simp add: run_all_def)
      then show ?thesis by blast
    next
      case False
      then have w1: "rn_walk ?r = Some w1"
        using True Cons.prems(2) st by (cases w1) (simp_all add: run_event_def run_step_def)
      have "walk_fuel w1 \<le> length (filter (\<lambda>ev. ev = R_Input I_Walk) evs)"
        using walk_step_fuel [OF sok nd st] Cons.prems(3) True by simp
      then obtain a b w' s' where "evs = a @ R_Input I_Walk # b" "rn_walk (run_all E N a ?r) = Some w'"
        "walk_step E N w' (rn_sys (run_all E N a ?r)) = (W_Done, s')"
        using Cons.IH [OF ok1 w1] by blast
      then have "ev # evs = (ev # a) @ R_Input I_Walk # b \<and> rn_walk (run_all E N (ev # a) r) = Some w' \<and>
        walk_step E N w' (rn_sys (run_all E N (ev # a) r)) = (W_Done, s')"
        by (simp add: run_all_def)
      then show ?thesis by blast
    qed
  next
    case False
    then have w1: "rn_walk ?r = Some w"
      using Cons.prems(2)
      by (cases ev) (auto simp: run_event_def run_step_def run_tick_parts hold_part_def Let_def now_instant_def
          now_unix_ms_def split: run_input.splits prod.splits)
    have "walk_fuel w \<le> length (filter (\<lambda>ev. ev = R_Input I_Walk) evs)" using Cons.prems(3) False by simp
    then obtain a b w' s' where "evs = a @ R_Input I_Walk # b" "rn_walk (run_all E N a ?r) = Some w'"
      "walk_step E N w' (rn_sys (run_all E N a ?r)) = (W_Done, s')"
      using Cons.IH [OF ok1 w1] by blast
      then have "ev # evs = (ev # a) @ R_Input I_Walk # b \<and> rn_walk (run_all E N (ev # a) r) = Some w' \<and>
        walk_step E N w' (rn_sys (run_all E N (ev # a) r)) = (W_Done, s')"
        by (simp add: run_all_def)
      then show ?thesis by blast
  qed
qed

end
