(* ===== verification/Acceptance_Demo.thy ===== *)
theory Acceptance_Demo
  imports Acceptance_Loop Kvlog_Props
begin

text \<open>
  A concrete codec, node and tracker on which the properties of the acceptance tracker are
  witnessed.
\<close>

section \<open>A codec for watch records\<close>

text \<open>Numbers below 256 in a byte each, the txid behind its length, the block after it.\<close>

definition status_parts :: "persisted_status \<Rightarrow> byte \<times> nat \<times> nat \<times> string" where
  "status_parts s =
     (case s of
        P_Submitted n \<Rightarrow> (0, n, 0, [])
      | P_Accepted b x y \<Rightarrow> (1, x, y, b)
      | P_Displaced n b \<Rightarrow> (2, n, 0, b)
      | P_Finalized b x y \<Rightarrow> (3, x, y, b))"

definition status_from :: "byte \<Rightarrow> nat \<Rightarrow> nat \<Rightarrow> string \<Rightarrow> persisted_status" where
  "status_from tag x y b =
     (if tag = 0 then P_Submitted x else if tag = 1 then P_Accepted b x y
      else if tag = 2 then P_Displaced x b else P_Finalized b x y)"

definition watch_ser :: "watch_record \<Rightarrow> bytes option" where
  "watch_ser r =
     (case status_parts (wr_status r) of (tag, x, y, b) \<Rightarrow>
        if wr_watched_ms r < 256 \<and> x < 256 \<and> y < 256 \<and> length (wr_txid r) < 256 then
          Some ([if wr_source r = Send then 0 else 1, of_nat (wr_watched_ms r), tag, of_nat x, of_nat y,
                 of_nat (length (wr_txid r))] @ ascii (wr_txid r) @ ascii b)
        else None)"

fun watch_de :: "bytes \<Rightarrow> watch_record option" where
  "watch_de (s # w # tag # x # y # n # rest) =
     Some \<lparr>wr_txid = text_of (take (unat n) rest), wr_source = (if s = 0 then Send else Transport),
       wr_watched_ms = unat w, wr_status = status_from tag (unat x) (unat y) (text_of (drop (unat n) rest))\<rparr>"
| "watch_de _ = None"

lemma small_byte: "n < 256 \<Longrightarrow> unat (of_nat n :: byte) = n"
  by (simp add: unat_of_nat)

lemma watch_de_ser: "watch_ser r = Some bs \<Longrightarrow> watch_de bs = Some r"
  by (cases "wr_status r"; cases "wr_source r")
     (auto simp: watch_ser_def status_parts_def status_from_def small_byte text_of_def ascii_def comp_def
       split: if_splits)

fun watch_enc :: "watch_record frame \<Rightarrow> bytes option" where
  "watch_enc (Upsert r) = map_option ((#) 0) (watch_ser r)"
| "watch_enc (Remove k) = Some (1 # ascii k)"
| "watch_enc (Tombstone k) = Some (2 # ascii k)"
| "watch_enc (Untombstone k) = Some (3 # ascii k)"

definition watch_dec :: "bytes \<Rightarrow> watch_record frame option" where
  "watch_dec bs =
     (case bs of
        [] \<Rightarrow> None
      | b # r \<Rightarrow> if b = 0 then map_option Upsert (watch_de r) else if b = 1 then Some (Remove (text_of r))
          else if b = 2 then Some (Tombstone (text_of r)) else if b = 3 then Some (Untombstone (text_of r))
          else None)"

definition watch_codec :: "watch_record codec" where
  "watch_codec = \<lparr>ser = watch_ser, enc_frame = watch_enc, dec_frame = watch_dec, crc = demo_crc, key_of = wr_txid\<rparr>"

lemma watch_codec_ok: "codec_ok watch_codec"
proof -
  have "watch_enc f = Some bs \<Longrightarrow> watch_dec bs = Some f" for f bs
    by (cases f) (auto simp: watch_dec_def watch_de_ser)
  then show ?thesis by (simp add: codec_ok_def watch_codec_def watch_dec_def watch_de_ser)
qed

lemma watch_checksum_holds: "checksum_holds watch_codec"
  using demo_checksum_holds by (simp add: checksum_holds_def frame_crc_def watch_codec_def demo_codec_def)

definition demo_env :: acc_env where
  "demo_env = \<lparr>ae_codec = watch_codec, ae_pruning_depth = 10, ae_target_time = 1000, ae_dir = [''data'']\<rparr>"

lemma demo_env_ok: "env_ok demo_env"
  using watch_codec_ok by (simp add: env_ok_def demo_env_def watch_codec_def)

lemma demo_env_checksum: "checksum_holds (ae_codec demo_env)"
  using watch_checksum_holds by (simp add: demo_env_def)

section \<open>A node and a tracker\<close>

text \<open>
  Every block has blue score 5, the sink 2000; the clock always reads 7 and the walk's page is
  one block that accepts the transaction \<open>t\<close>.
\<close>

definition demo_batch :: vcc_batch where
  "demo_batch = \<lparr>vb_removed = [''A''], vb_added = [''B''], vb_accepted = [(''B'', [''t'', ''u''])]\<rparr>"

definition demo_node :: node where
  "demo_node = \<lparr>nd_block = \<lambda>_ _. Some \<lparr>bf_blue = 5, bf_daa = 6, bf_time = 9\<rparr>,
     nd_sink_blue = \<lambda>_. Some 2000, nd_sink = \<lambda>_. Some ''S'', nd_page = \<lambda>_ _. Some demo_batch,
     nd_clock = \<lambda>_. 7, nd_instant = \<lambda>_. 7, nd_parse_hash = \<lambda>s. if s = [] then None else Some s\<rparr>"

definition no_records :: "watch_record log" where
  "no_records = \<lparr>lg_path = log_path demo_env, lg_records = [], lg_tombstoned = [], lg_end = 0,
     lg_cut_owed = False, lg_held = None, lg_removed = False\<rparr>"

definition demo_tracker :: sys where
  "demo_tracker = \<lparr>sy_state = \<lparr>ts_log = no_records, ts_by_block = [], ts_stall = [], ts_elapse = [],
       ts_confirmed = [], ts_sink = 0, ts_depth_held = False, ts_walking = False, ts_ahead = [],
       ts_off = no_off_chain\<rparr>,
     sy_events = [], sy_cursor_path = cursor_path demo_env, sy_cursor_written = 0, sy_frozen = False,
     sy_frozen_since = 0, sy_holds = 0, sy_force_owed = False, sy_interest = [], sy_matched = no_memory,
     sy_disk = demo_disk, sy_calls = 0\<rparr>"

lemma demo_load_tracker: "load_tracker demo_env demo_disk = (demo_disk, Inr demo_tracker)"
proof -
  have "load (ae_codec demo_env) (log_path demo_env) demo_disk = (demo_disk, Inr no_records)"
    by (simp add: load_def load_with_v1_def read_file_def demo_disk_def content_def replay_Nil
        demo_env_checksum no_records_def)
  then show ?thesis
    by (simp add: load_tracker_def load_state_def hold_def no_records_def demo_tracker_def index_of_def)
qed

text \<open>One watched transaction, the walk that finds no cursor and seeds one, and nothing more.\<close>

definition demo_events :: "run_event list" where
  "demo_events = [R_Watch ''t'' Send, R_Input I_Walk]"

definition demo_state :: run_state where
  "demo_state = run_all demo_env demo_node demo_events (run_start demo_node demo_tracker)"

lemma demo_state_after:
  "rn_walk demo_state = None \<and> cursor_of (rn_sys demo_state) = Some (ascii ''S'') \<and>
   hkeys (records (sy_state (rn_sys demo_state))) = [''t'']"
  by code_simp

end
