(* ===== verification/Acceptance_Props.thy ===== *)
theory Acceptance_Props
  imports Acceptance_Demo
begin

text \<open>
  The acceptance tracker's contract, over every node, every sequence of inputs and every list of
  I/O faults.
\<close>

section \<open>Reachable trackers\<close>

definition reached :: "acc_env \<Rightarrow> node \<Rightarrow> disk \<Rightarrow> run_event list \<Rightarrow> run_state \<Rightarrow> bool" where
  "reached E N d evs r \<longleftrightarrow>
     (\<exists>d' s. load_tracker E d = (d', Inr s) \<and> r = run_all E N evs (run_start N s))"

lemma demo_reached: "reached demo_env demo_node demo_disk demo_events demo_state"
  using demo_load_tracker by (auto simp: reached_def demo_state_def)

lemma reached_ok:
  assumes "env_ok E" and "reached E N d evs r"
  shows "run_ok E r"
proof -
  obtain d' s where l: "load_tracker E d = (d', Inr s)" and r: "r = run_all E N evs (run_start N s)"
    using assms(2) by (auto simp: reached_def)
  show ?thesis unfolding r by (rule run_all_ok [OF run_start_ok [OF goodI [OF load_tracker_good [OF assms(1) l]]]])
qed

text \<open>
  The acceptances on record the index has lost: a drop that failed to write took them out of it.
\<close>

definition unindexed :: "tracker_state \<Rightarrow> string set" where
  "unindexed st = {t. \<exists>b. acc_at st t = Some b \<and> \<not> in_idx (ts_by_block st) b t}"

lemma st_ok_unindexed: "st_ok E X st d \<Longrightarrow> st_ok E (unindexed st) st d"
  unfolding st_ok_def synced_def unindexed_def by blast

lemma reached_sys:
  assumes "env_ok E" and "reached E N d evs r"
  shows "sys_ok E (unindexed (sy_state (rn_sys r))) (rn_sys r)"
  using reached_ok [OF assms] st_ok_unindexed by (auto simp: run_ok_def good_def sys_ok_def)

section \<open>The invariant of the running tracker\<close>

text \<open>
  C5. After a load and any sequence of feeds, walk pages, scores, ticks and calls, and whichever
  of its writes failed: every entry of the accepting-block index is an acceptance on record, no
  entry is empty or repeats a transaction, depth is claimed exactly when the cursor is not held
  and no walk runs, and the three memories are within their capacities.
\<close>

theorem tracker_invariant:
  assumes "env_ok E" and "reached E N d evs r"
  shows "(\<forall>b t. in_idx (ts_by_block (sy_state (rn_sys r))) b t \<longrightarrow> acc_at (sy_state (rn_sys r)) t = Some b) \<and>
    (\<forall>b. hget (ts_by_block (sy_state (rn_sys r))) b \<noteq> Some [] \<and>
       distinct (entry (ts_by_block (sy_state (rn_sys r))) b)) \<and>
    (claims_depth (sy_state (rn_sys r)) \<longleftrightarrow> \<not> sy_frozen (rn_sys r) \<and> rn_walk r = None) \<and>
    length (oc_order (ts_off (sy_state (rn_sys r)))) \<le> off_chain_capacity \<and>
    length (mm_order (sy_matched (rn_sys r))) \<le> matched_memory_capacity \<and>
    length (sy_interest (rn_sys r)) \<le> sender_interest_capacity"
proof -
  have s: "sys_ok E (unindexed (sy_state (rn_sys r))) (rn_sys r)" and r: "run_ok E r"
    using reached_sys [OF assms] reached_ok [OF assms] by simp_all
  have y: "synced (unindexed (sy_state (rn_sys r))) (sy_state (rn_sys r))" and oc: "oc_ok (ts_off (sy_state (rn_sys r)))"
    using s by (simp_all add: sys_ok_def st_ok_def)
  have "claims_depth (sy_state (rn_sys r)) \<longleftrightarrow> \<not> sy_frozen (rn_sys r) \<and> rn_walk r = None"
    using s r by (auto simp: claims_depth_def sys_ok_def run_ok_def)
  then show ?thesis
    using y oc.good_bound [OF oc] s unfolding synced_def idx_shape_def sys_ok_def mm_ok_def interest_ok_def by blast
qed

lemma tracker_invariant_witness:
  "reached demo_env demo_node demo_disk demo_events demo_state \<and>
   (claims_depth (sy_state (rn_sys demo_state)) \<longleftrightarrow> \<not> sy_frozen (rn_sys demo_state) \<and> rn_walk demo_state = None) \<and>
   rn_walk demo_state = None"
  using tracker_invariant [OF demo_env_ok demo_reached] demo_reached demo_state_after by blast

text \<open>
  C16. Confirmed is earned. A consumer reads it only of a finalized record, or of an acceptance
  at least 1000 blue deep while no walk runs and the cursor is not held.
\<close>

theorem confirmed_is_earned:
  assumes "env_ok E" and "reached E N d evs r"
    and "status_of (sy_state (rn_sys r)) t now = Some (T_Confirmed depth ms)"
  shows "\<exists>rec. hget (records (sy_state (rn_sys r))) t = Some rec \<and>
    ((\<exists>b blue. wr_status rec = P_Finalized b blue ms) \<or>
     (\<exists>b blue. wr_status rec = P_Accepted b blue ms \<and> depth = ts_sink (sy_state (rn_sys r)) - blue \<and>
        confirmed_depth_blue \<le> depth \<and> \<not> sy_frozen (rn_sys r) \<and> rn_walk r = None))"
proof -
  have c: "claims_depth (sy_state (rn_sys r)) \<longleftrightarrow> \<not> sy_frozen (rn_sys r) \<and> rn_walk r = None"
    using reached_sys [OF assms(1,2)] reached_ok [OF assms(1,2)] by (auto simp: claims_depth_def sys_ok_def run_ok_def)
  obtain rec where rec: "hget (records (sy_state (rn_sys r))) t = Some rec"
    using assms(3) by (cases "hget (records (sy_state (rn_sys r))) t") (simp_all add: status_of_def)
  then show ?thesis
    using assms(3) c by (cases "wr_status rec") (auto simp: status_of_def split: option.splits if_splits)
qed

definition deep_events :: "run_event list" where
  "deep_events = demo_events @ [R_Input (I_Feed (F_Vcc demo_batch)), R_Input (I_Sink 1500)]"

definition deep_state :: run_state where
  "deep_state = run_all demo_env demo_node deep_events (run_start demo_node demo_tracker)"

lemma deep_reached: "reached demo_env demo_node demo_disk deep_events deep_state"
  using demo_load_tracker by (auto simp: reached_def deep_state_def)

lemma deep_status: "status_of (sy_state (rn_sys deep_state)) ''t'' 0 = Some (T_Confirmed 1495 9)"
  by code_simp

lemma confirmed_is_earned_witness:
  "\<exists>rec. hget (records (sy_state (rn_sys deep_state))) ''t'' = Some rec \<and>
    ((\<exists>b blue. wr_status rec = P_Finalized b blue 9) \<or>
     (\<exists>b blue. wr_status rec = P_Accepted b blue 9 \<and> 1495 = ts_sink (sy_state (rn_sys deep_state)) - blue \<and>
        confirmed_depth_blue \<le> 1495 \<and> \<not> sy_frozen (rn_sys deep_state) \<and> rn_walk deep_state = None))"
  by (rule confirmed_is_earned [OF demo_env_ok deep_reached deep_status])

section \<open>The cursor\<close>

text \<open>
  What a reload finds: the records in memory, or, while a failed write is owed its cut, those
  records with the one that write named changed.
\<close>

definition reads_as :: "tracker_state \<Rightarrow> tracker_state \<Rightarrow> bool" where
  "reads_as st st2 \<longleftrightarrow>
     map_of (records st2) = map_of (records st) \<or>
     lg_cut_owed (ts_log st) \<and> (\<exists>t change. map_of (records st2) = (map_of (records st))(t := change))"

lemma frame_records_one: "\<exists>t change. frame_records c f R = R(t := change)"
proof -
  have same: "\<exists>t change. R = R(t := change)" by (metis fun_upd_triv)
  show ?thesis
  proof (cases f)
    case (Upsert r)
    then show ?thesis by (metis frame_records.simps(1))
  next
    case (Remove k)
    then show ?thesis by (metis frame_records.simps(2))
  qed (use same in simp_all)
qed

lemma reload_records:
  assumes ok: "sys_ok E X s" and sum: "checksum_holds (ae_codec E)"
    and again: "load_tracker E (sy_disk s) = (d2, Inr s2)"
  shows "reads_as (sy_state s) (sy_state s2)"
proof -
  have lv: "live E (sy_state s) (sy_disk s)" using ok by (simp add: sys_ok_def st_ok_def)
  obtain d1 lg where l: "load (ae_codec E) (log_path E) (sy_disk s) = (d1, Inr lg)" "ts_log (sy_state s2) = lg"
    using again by (auto simp: load_tracker_def load_state_def split: prod.splits sum.splits option.splits)
  have "state_of lg = state_of (ts_log (sy_state s)) \<or> lg_cut_owed (ts_log (sy_state s)) \<and>
      (\<exists>f. state_of lg = (frame_records (ae_codec E) f (records_of (ts_log (sy_state s))),
        frame_tombs f (flags_of (ts_log (sy_state s)))))"
    by (rule reload_one_frame [of "ae_codec E" _ "sy_disk s" d1])
      (use lv sum l in \<open>auto simp: live_def env_ok_def\<close>)
  then show ?thesis
    using l(2) frame_records_one [of "ae_codec E" _ "records_of (ts_log (sy_state s))"]
    by (auto simp: reads_as_def state_of_def records_of_def)
qed

text \<open>
  C21. A restart finds the truth. Load again after any run: the records are those the run had in
  memory, save that a failed write still owed its cut may show the change it was to make, to one
  transaction; and the rebuilt index holds exactly the acceptances on record, those a failed drop
  had taken out of it included.
\<close>

theorem restart_rebuilds:
  assumes "env_ok E" and "checksum_holds (ae_codec E)" and "reached E N d evs r"
    and "load_tracker E (sy_disk (rn_sys r)) = (d2, Inr s2)"
  shows "(map_of (records (sy_state s2)) = map_of (records (sy_state (rn_sys r))) \<or>
      lg_cut_owed (ts_log (sy_state (rn_sys r))) \<and>
        (\<exists>t change. map_of (records (sy_state s2)) = (map_of (records (sy_state (rn_sys r))))(t := change))) \<and>
    (\<forall>b t. in_idx (ts_by_block (sy_state s2)) b t \<longleftrightarrow> acc_at (sy_state s2) t = Some b)"
proof -
  have "reads_as (sy_state (rn_sys r)) (sy_state s2)"
    by (rule reload_records [OF reached_sys [OF assms(1,3)] assms(2,4)])
  moreover have "synced {} (sy_state s2)" using load_tracker_good [OF assms(1,4)] by (simp add: sys_ok_def st_ok_def)
  then have "in_idx (ts_by_block (sy_state s2)) b t \<longleftrightarrow> acc_at (sy_state s2) t = Some b" for b t
    unfolding synced_def by blast
  ultimately show ?thesis by (simp add: reads_as_def)
qed

lemma demo_reloads:
  assumes "faults d = []" and "replay watch_codec watch_dec True (file_of d (log_path demo_env)) = Inr r"
    and "repaired watch_codec (log_path demo_env) (file_of d (log_path demo_env)) r d = (d2, Inr lg)"
    and "hold lg = None"
  shows "\<exists>s2. load_tracker demo_env d = (d2, Inr s2)"
proof -
  have "dec_frame watch_codec = watch_dec" "ae_codec demo_env = watch_codec"
    by (simp_all add: watch_codec_def demo_env_def)
  then have "load (ae_codec demo_env) (log_path demo_env) d = (d2, Inr lg)"
    using assms watch_checksum_holds
    by (cases "content d (log_path demo_env)")
      (simp_all add: load_def load_with_v1_steps read_file_def after_read_def file_of_def)
  then show ?thesis using assms(4) by (simp add: load_tracker_def load_state_def)
qed

text \<open>Whether a system's log reads back whole, as a test that evaluates.\<close>

definition reads_back :: "sys \<Rightarrow> bool" where
  "reads_back s \<longleftrightarrow> faults (sy_disk s) = [] \<and> \<not> lg_cut_owed (ts_log (sy_state s)) \<and>
     (case replay watch_codec watch_dec True (file_of (sy_disk s) (log_path demo_env)) of
        Inl e \<Rightarrow> False
      | Inr r \<Rightarrow> (case repaired watch_codec (log_path demo_env) (file_of (sy_disk s) (log_path demo_env)) r (sy_disk s) of
          (d, Inl e) \<Rightarrow> False | (d, Inr lg) \<Rightarrow> hold lg = None))"

lemma reads_back_loads:
  assumes "reads_back s"
  shows "\<exists>d2 s2. load_tracker demo_env (sy_disk s) = (d2, Inr s2)" and "\<not> lg_cut_owed (ts_log (sy_state s))"
proof -
  obtain r where r: "replay watch_codec watch_dec True (file_of (sy_disk s) (log_path demo_env)) = Inr r"
    using assms by (cases "replay watch_codec watch_dec True (file_of (sy_disk s) (log_path demo_env))")
      (simp_all add: reads_back_def)
  obtain d res where rp: "repaired watch_codec (log_path demo_env) (file_of (sy_disk s) (log_path demo_env)) r (sy_disk s) = (d, res)"
    by fastforce
  then obtain lg where "res = Inr lg" "hold lg = None" using assms r by (cases res) (simp_all add: reads_back_def)
  then show "\<exists>d2 s2. load_tracker demo_env (sy_disk s) = (d2, Inr s2)"
    using demo_reloads [OF _ r, of d lg] rp assms by (auto simp: reads_back_def)
  show "\<not> lg_cut_owed (ts_log (sy_state s))" using assms by (simp add: reads_back_def)
qed

lemma demo_reads_back: "reads_back (rn_sys demo_state)"
  by code_simp

lemma restart_rebuilds_witness:
  "\<exists>d2 s2. load_tracker demo_env (sy_disk (rn_sys demo_state)) = (d2, Inr s2) \<and>
     hget (records (sy_state s2)) ''t'' = hget (records (sy_state (rn_sys demo_state))) ''t''"
proof -
  obtain d2 s2 where l: "load_tracker demo_env (sy_disk (rn_sys demo_state)) = (d2, Inr s2)"
    using reads_back_loads(1) [OF demo_reads_back] by blast
  from restart_rebuilds [OF demo_env_ok demo_env_checksum demo_reached l]
  show ?thesis using l reads_back_loads(2) [OF demo_reads_back] by metis
qed

text \<open>
  C4. The cursor is written last. A live batch, folded in one go, either leaves every acceptance
  and every removal it carries for a watched transaction in the records, or holds the cursor. The
  cursor file moves only in the first case, only while it is not held, only to the last block the
  batch added; and a load of the disk at that moment gives the records the batch left. Two
  exceptions: a removal may miss a transaction a failed drop had taken out of the index, which is
  lost until a restart (C24), and while a failed write is owed its cut the load may show the
  change that write was to make, to one transaction.
\<close>

theorem live_batch_moves_cursor_last:
  assumes "env_ok E" and "checksum_holds (ae_codec E)" and "reached E N d evs r"
    and "s' = fold_live E N batch (rn_sys r)"
  shows "(sy_frozen s' \<or> batch_settled (unindexed (sy_state (rn_sys r))) (sy_state s') batch) \<and>
    (cursor_of s' \<noteq> cursor_of (rn_sys r) \<longrightarrow>
       \<not> sy_frozen (rn_sys r) \<and> vb_added batch \<noteq> [] \<and> cursor_of s' = Some (ascii (last (vb_added batch))) \<and>
       batch_settled (unindexed (sy_state (rn_sys r))) (sy_state s') batch \<and>
       (\<forall>d2 s2. load_tracker E (sy_disk s') = (d2, Inr s2) \<longrightarrow> reads_as (sy_state s') (sy_state s2)))"
proof -
  note c = fold_live_cases [OF reached_sys [OF assms(1,3)] assms(4)]
  then have "sys_ok E (unindexed (sy_state (rn_sys r))) s'" by blast
  from reload_records [OF this assms(2)] show ?thesis using c by blast
qed

definition live_after :: sys where
  "live_after = fold_live demo_env demo_node demo_batch (rn_sys demo_state)"

lemma live_after_cursor: "cursor_of live_after = Some (ascii ''B'') \<and> ascii ''B'' \<noteq> ascii ''S'' \<and> \<not> sy_frozen live_after"
  by code_simp

lemma live_batch_moves_cursor_last_witness:
  "cursor_of live_after \<noteq> cursor_of (rn_sys demo_state) \<and>
   batch_settled (unindexed (sy_state (rn_sys demo_state))) (sy_state live_after) demo_batch"
proof -
  have "cursor_of live_after \<noteq> cursor_of (rn_sys demo_state)"
    using live_after_cursor demo_state_after by simp
  then show ?thesis
    using live_batch_moves_cursor_last [OF demo_env_ok demo_env_checksum demo_reached live_after_def] by blast
qed

lemma reseed_moves:
  assumes "sys_ok E X s0" and "reseed N s0 = s'" and "cursor_of s0 = cursor_of s" and "cursor_of s' \<noteq> cursor_of s"
  shows "\<exists>h k. nd_sink N k = Some h \<and> cursor_of s' = Some (ascii h)"
  using reseed_cursor [OF assms(1), of N] assms(2-4) by auto

text \<open>A hold that is still younger than the pruning horizon at some reading of the clock.\<close>

definition hold_over :: "acc_env \<Rightarrow> node \<Rightarrow> sys \<Rightarrow> bool" where
  "hold_over E N s \<longleftrightarrow> \<not> sy_frozen s \<or> sy_frozen_since s = 0 \<or>
     (\<exists>k. pruning_horizon_ms E \<le> nd_clock N k - sy_frozen_since s)"

lemma keeps_hold_False: "keeps_hold E N s = (s', False) \<Longrightarrow> hold_over E N s"
  by (auto simp: keeps_hold_def hold_over_def now_unix_ms_def Let_def not_less split: if_splits)

lemma catch_up_page_since: "catch_up_page n N cursor s = (s', r) \<Longrightarrow> sy_frozen_since s' = sy_frozen_since s"
  by (induction n N cursor s rule: catch_up_page.induct) (auto split: option.splits)

lemma walk_step_cursor:
  assumes ok: "sys_ok E X s" and run: "walk_step E N w s = (w', s')" and moved: "cursor_of s' \<noteq> cursor_of s"
  shows "(\<exists>cursor n k batch. w = W_At cursor True (Suc n) \<and> nd_page N k cursor = Some batch \<and>
      vb_added batch \<noteq> [] \<and> cursor_of s' = Some (ascii (last (vb_added batch))) \<and>
      batch_settled X (sy_state s') batch) \<or>
    (w' = W_Done \<and> (\<exists>h k. nd_sink N k = Some h \<and> cursor_of s' = Some (ascii h)) \<and>
      (w = W_Start \<and> snd (read_cursor N s) = None \<or> (\<exists>cursor. w = W_At cursor True 0) \<or> hold_over E N s))"
proof (cases w)
  case W_Start
  obtain s1 r where rd: "read_cursor N s = (s1, r)" by fastforce
  note i = read_cursor_step [OF ok rd]
  show ?thesis
  proof (cases r)
    case None
    then have e: "w' = W_Done" "reseed N s1 = s'" using run W_Start rd by (simp_all add: walk_step_def)
    have "sys_ok E X s1" using i step_ok_D by blast
    from reseed_moves [OF this e(2) _ moved] show ?thesis using i e W_Start rd None by simp
  next
    case (Some c)
    then show ?thesis using run W_Start rd i moved by (simp add: walk_step_def)
  qed
next
  case (W_At cursor clean n)
  show ?thesis
  proof (cases n)
    case 0
    show ?thesis
    proof (cases clean)
      case True
      then have "w' = W_Done" "reseed N s = s'" using run W_At 0 by (simp_all add: walk_step_def)
      then show ?thesis using reseed_moves [OF ok _ refl moved] W_At 0 True by blast
    next
      case False
      obtain sk b where kh: "keeps_hold E N s = (sk, b)" by fastforce
      note k = keeps_hold_step [OF ok kh]
      show ?thesis
      proof (cases b)
        case True
        then show ?thesis using run W_At 0 False kh k moved by (simp add: walk_step_def)
      next
        case b: False
        then have e: "w' = W_Done" "reseed N sk = s'" using run W_At 0 False kh by (simp_all add: walk_step_def)
        have "sys_ok E X sk" using k step_ok_D by blast
        moreover have "hold_over E N s" using keeps_hold_False kh b by simp
        ultimately show ?thesis using reseed_moves [OF _ e(2) _ moved] k e by blast
      qed
    qed
  next
    case (Suc pages)
    obtain s1 r where cp: "catch_up_page vcc_page_attempts N cursor s = (s1, r)" by fastforce
    note c = catch_up_page_step [OF ok cp]
    have ok1: "sys_ok E X s1" using c step_ok_D by blast
    show ?thesis
    proof (cases r)
      case None
      obtain s2 b where kh: "keeps_hold E N s1 = (s2, b)" by fastforce
      note k = keeps_hold_step [OF ok1 kh]
      show ?thesis
      proof (cases b)
        case True
        then show ?thesis using run W_At Suc cp None kh k c moved by (simp add: walk_step_def)
      next
        case False
        then have e: "w' = W_Done" "reseed N s2 = s'" using run W_At Suc cp None kh by (simp_all add: walk_step_def)
        have ok2: "sys_ok E X s2" using k step_ok_D by blast
        have "hold_over E N s1" using keeps_hold_False kh False by simp
        then have "hold_over E N s" using c catch_up_page_since [OF cp] by (simp add: hold_over_def)
        then show ?thesis using reseed_moves [OF ok2 e(2) _ moved] k c e by simp
      qed
    next
      case (Some batch)
      then have wp: "walk_page E N cursor clean pages batch s1 = (w', s')"
        using run W_At Suc cp by (simp add: walk_step_def)
      have "cursor_of s' \<noteq> cursor_of s1" using moved c by simp
      then have "clean \<and> vb_added batch \<noteq> [] \<and> cursor_of s' = Some (ascii (last (vb_added batch))) \<and>
        batch_settled X (sy_state s') batch" using walk_page_step [OF ok1 wp] by blast
      moreover have "\<exists>k. nd_page N k cursor = Some batch" using c unfolding Some by (metis option.distinct(1))
      ultimately show ?thesis using W_At Suc by blast
    qed
  qed
next
  case W_Done
  then show ?thesis using run moved by (simp add: walk_step_def)
qed

text \<open>
  C13. The walk moves the cursor in two ways only. Either a page was answered, every page before
  it and the page itself are wholly in the records (save what the page removes from under a
  transaction a failed drop had taken out of the index, C24), and the cursor moves to the page's
  last block; or the walk ends there and the cursor moves to the sink the node named, because the
  walk was starting and the cursor file gave it nothing to walk from, the sixteen pages were used
  up without a failed write, or no failed fold younger than the pruning horizon is being held.
\<close>

theorem walk_moves_cursor:
  assumes "env_ok E" and "reached E N d evs r" and "walk_step E N w (rn_sys r) = (w', s')"
    and "cursor_of s' \<noteq> cursor_of (rn_sys r)"
  shows "(\<exists>cursor n k batch. w = W_At cursor True (Suc n) \<and> nd_page N k cursor = Some batch \<and>
      vb_added batch \<noteq> [] \<and> cursor_of s' = Some (ascii (last (vb_added batch))) \<and>
      batch_settled (unindexed (sy_state (rn_sys r))) (sy_state s') batch) \<or>
    (w' = W_Done \<and> (\<exists>h k. nd_sink N k = Some h \<and> cursor_of s' = Some (ascii h)) \<and>
      (w = W_Start \<and> snd (read_cursor N (rn_sys r)) = None \<or> (\<exists>cursor. w = W_At cursor True 0) \<or>
       hold_over E N (rn_sys r)))"
  by (rule walk_step_cursor [OF reached_sys [OF assms(1,2)] assms(3,4)])

definition page_after :: "walk_state \<times> sys" where
  "page_after = walk_step demo_env demo_node (W_At ''S'' True 16) (rn_sys demo_state)"

lemma page_after_cursor:
  "cursor_of (snd page_after) = Some (ascii ''B'') \<and> ascii ''B'' \<noteq> ascii ''S'' \<and> fst page_after = W_Done"
  by code_simp

lemma walk_moves_cursor_witness:
  "cursor_of (snd page_after) \<noteq> cursor_of (rn_sys demo_state) \<and>
   ((\<exists>batch. cursor_of (snd page_after) = Some (ascii (last (vb_added batch))) \<and>
      batch_settled (unindexed (sy_state (rn_sys demo_state))) (sy_state (snd page_after)) batch) \<or>
    (\<exists>h. cursor_of (snd page_after) = Some (ascii h)))"
proof -
  obtain w s where p: "walk_step demo_env demo_node (W_At ''S'' True 16) (rn_sys demo_state) = (w, s)"
    and a: "page_after = (w, s)" unfolding page_after_def by (metis surj_pair)
  have "cursor_of s \<noteq> cursor_of (rn_sys demo_state)"
    using page_after_cursor demo_state_after by (simp add: a)
  then show ?thesis using walk_moves_cursor [OF demo_env_ok demo_reached p] unfolding a snd_conv by blast
qed

text \<open>
  Every walk ends. However the node answers and whatever else the loop does in between, a
  running walk is over after at most eighteen of its steps: its start, sixteen pages and the
  stop behind them.
\<close>

theorem walk_ends:
  assumes "env_ok E" and "reached E N d evs r" and "rn_walk r = Some w"
    and "max_vcc_catchup_pages + 2 \<le> length (filter (\<lambda>ev. ev = R_Input I_Walk) later)"
  shows "\<exists>a b w' s'. later = a @ R_Input I_Walk # b \<and> rn_walk (run_all E N a r) = Some w' \<and>
    walk_step E N w' (rn_sys (run_all E N a r)) = (W_Done, s')"
proof -
  have ok: "run_ok E r" by (rule reached_ok [OF assms(1,2)])
  then have "walk_fuel w \<le> length (filter (\<lambda>ev. ev = R_Input I_Walk) later)"
    using assms(3,4) by (auto simp: run_ok_def)
  then show ?thesis by (rule run_walk_count [OF ok assms(3)])
qed

lemma start_reached: "reached demo_env demo_node demo_disk [] (run_start demo_node demo_tracker)"
  using demo_load_tracker by (auto simp: reached_def run_all_def)

lemma walk_ends_witness:
  "\<exists>a b. replicate 18 (R_Input I_Walk) = a @ R_Input I_Walk # b \<and>
     (\<exists>s'. walk_step demo_env demo_node (the (rn_walk (run_all demo_env demo_node a (run_start demo_node demo_tracker))))
       (rn_sys (run_all demo_env demo_node a (run_start demo_node demo_tracker))) = (W_Done, s'))"
proof -
  have "rn_walk (run_start demo_node demo_tracker) = Some W_Start"
    by (simp add: run_start_def Let_def now_instant_def demo_node_def split: option.splits)
  moreover have "max_vcc_catchup_pages + 2 \<le> length (filter (\<lambda>ev. ev = R_Input I_Walk) (replicate 18 (R_Input I_Walk)))"
    by (simp add: max_vcc_catchup_pages_def)
  ultimately show ?thesis using walk_ends [OF demo_env_ok start_reached] by (metis option.sel)
qed

end
