(* ===== verification/Acceptance_Fold.thy ===== *)
theory Acceptance_Fold
  imports Acceptance_Props
begin

text \<open>
  What each kind of news does to the watched records: removals of the live stream, acceptances
  of the message walk, a new sink score, a tick, a new watch; and what a failed write costs.
\<close>

section \<open>Removals\<close>

lemma remove_fold_each:
  assumes "st_ok E X st d" and "foldl (remove_block E now) (st, d, f) bs = (st', d', f')"
    and "hget (records st) u = Some r"
  shows "\<exists>r'. hget (records st') u = Some r' \<and>
    (r' = r \<or> (\<exists>b \<in> set bs. accepted_at (wr_status r) = Some b \<and> r' = r\<lparr>wr_status := P_Displaced now b\<rparr>))"
  using assms
proof (induction bs arbitrary: st d f r)
  case Nil
  then show ?case by simp
next
  case (Cons b bs)
  obtain st1 d1 f1 where s: "remove_block E now (st, d, f) b = (st1, d1, f1)" by (metis prod_cases3)
  obtain ks where ks: "st_ok E X st1 d1" "map_of (records st1) =
      displaced_records b now ({t. in_idx (ts_by_block st) b t} - set ks) (map_of (records st))"
    using remove_block_cases [OF Cons.prems(1) s] by metis
  have sy: "synced X st" using Cons.prems(1) by (simp add: st_ok_def)
  have run: "foldl (remove_block E now) (st1, d1, f1) bs = (st', d', f')" using Cons.prems(2) s by simp
  show ?case
  proof (cases "in_idx (ts_by_block st) b u \<and> u \<notin> set ks")
    case False
    then have "hget (records st1) u = Some r" using ks(2) Cons.prems(3) by (auto simp: displaced_records_def)
    then show ?thesis using Cons.IH [OF ks(1) run] by fastforce
  next
    case True
    let ?r = "r\<lparr>wr_status := P_Displaced now b\<rparr>"
    have "accepted_at (wr_status r) = Some b"
      using synced_sound [OF sy, of b u] True Cons.prems(3) by (simp add: acc_at_def)
    moreover have "hget (records st1) u = Some ?r" using ks(2) True Cons.prems(3) by (simp add: displaced_records_def)
    moreover have "accepted_at (wr_status ?r) = None" by (simp add: accepted_at_def)
    ultimately show ?thesis using Cons.IH [OF ks(1) run] by fastforce
  qed
qed

lemma oc_remove_fold:
  assumes "st_ok E X st d" and "foldl (remove_block E now) (st, d, f) bs = (st', d', f')"
  shows "ts_off st' = fold oc_removed bs (ts_off st)"
  using assms
proof (induction bs arbitrary: st d f)
  case (Cons b bs)
  obtain st1 d1 f1 where s: "remove_block E now (st, d, f) b = (st1, d1, f1)" by (metis prod_cases3)
  have "st_ok E X st1 d1 \<and> ts_off st1 = oc_removed b (ts_off st)"
    using remove_block_cases [OF Cons.prems(1) s] by metis
  then show ?case using Cons.IH [of st1 d1 f1] Cons.prems(2) s by simp
qed simp

text \<open>
  A removal displaces exactly what it must. When blocks leave the chain, a record changes
  only if it is accepted at one of them, and then only to displaced from that block at that
  time; a finalized record never changes. When every write landed, no indexed transaction is
  left accepted at a removed block.
\<close>

theorem removal_displaces:
  assumes "env_ok E" and "reached E N d evs r"
    and "on_removed E bs now (sy_state (rn_sys r)) (sy_disk (rn_sys r)) = (st', d', f)"
  shows "(\<forall>u rec. hget (records (sy_state (rn_sys r))) u = Some rec \<longrightarrow>
      (\<exists>rec'. hget (records st') u = Some rec' \<and>
        (rec' = rec \<or> (\<exists>b \<in> set bs. accepted_at (wr_status rec) = Some b \<and>
           rec' = rec\<lparr>wr_status := P_Displaced now b\<rparr>)))) \<and>
    (fo_failed f = None \<longrightarrow>
      (\<forall>u b. u \<notin> unindexed (sy_state (rn_sys r)) \<longrightarrow> b \<in> set bs \<longrightarrow> acc_at st' u \<noteq> Some b))"
proof -
  have ok: "st_ok E (unindexed (sy_state (rn_sys r))) (sy_state (rn_sys r)) (sy_disk (rn_sys r))"
    using reached_sys [OF assms(1,2)] by (simp add: sys_ok_def)
  note run = assms(3) [unfolded on_removed_def]
  show ?thesis
    using remove_fold_each [OF ok run] remove_fold_records [OF ok run] by blast
qed

definition live_events :: "run_event list" where
  "live_events = demo_events @ [R_Input (I_Feed (F_Vcc demo_batch))]"

definition live_state :: run_state where
  "live_state = run_all demo_env demo_node live_events (run_start demo_node demo_tracker)"

lemma live_reached: "reached demo_env demo_node demo_disk live_events live_state"
  using demo_load_tracker by (auto simp: reached_def live_state_def)

lemma live_record:
  "hget (records (sy_state (rn_sys live_state))) ''t'' =
     Some \<lparr>wr_txid = ''t'', wr_source = Send, wr_watched_ms = 7, wr_status = P_Accepted ''B'' 5 9\<rparr> \<and>
   hget (ts_by_block (sy_state (rn_sys live_state))) ''B'' = Some [''t''] \<and> faults (sy_disk (rn_sys live_state)) = []"
  by code_simp

lemma live_indexed: "''t'' \<notin> unindexed (sy_state (rn_sys live_state))"
  using live_record by (auto simp: unindexed_def acc_at_def accepted_at_def in_idx_def entry_def)

definition removed_after :: "tracker_state \<times> disk \<times> fold_result" where
  "removed_after = on_removed demo_env [''B''] 8 (sy_state (rn_sys live_state)) (sy_disk (rn_sys live_state))"

lemma removed_after_clean: "fo_failed (snd (snd removed_after)) = None"
  by code_simp

lemma removal_displaces_witness:
  "acc_at (fst removed_after) ''t'' \<noteq> Some ''B'' \<and> (\<exists>rec'. hget (records (fst removed_after)) ''t'' = Some rec')"
proof -
  obtain st' d' f where r: "removed_after = (st', d', f)" by (metis prod_cases3)
  have run: "on_removed demo_env [''B''] 8 (sy_state (rn_sys live_state)) (sy_disk (rn_sys live_state)) = (st', d', f)"
    and f: "fo_failed f = None" using r removed_after_clean by (simp_all add: removed_after_def)
  note removal_displaces [OF demo_env_ok live_reached run]
  then have "acc_at st' ''t'' \<noteq> Some ''B''" "\<exists>rec'. hget (records st') ''t'' = Some rec'"
    using live_indexed f conjunct1 [OF live_record] by (simp, blast)
  then show ?thesis unfolding r fst_conv by blast
qed

section \<open>What a failed drop costs\<close>

text \<open>
  C24. A drop that fails strands its acceptance. Dropping a watch takes the transaction out of the
  index before the log's remove is written. When that write fails the record is still accepted
  at its block but no longer indexed, and a later removal of the block leaves it accepted.
\<close>

theorem failed_drop_strands:
  assumes "st_ok E X st d" and "hget (records st) t = Some rec" and "accepted_at (wr_status rec) = Some b"
    and "drop_watch E t st d = (st1, d1, Inl e)"
    and "on_removed E [b] now st1 d1 = (st2, d2, f)"
  shows "hget (records st2) t = Some rec \<and> \<not> in_idx (ts_by_block st1) b t"
proof -
  from assms(1,4) have "st_ok E (insert t X) st1 d1 \<and> records st1 = records st"
    by (cases rule: drop_watch_cases) auto
  then have ok: "st_ok E (insert t X) st1 d1" and r: "hget (records st1) t = Some rec" using assms(2) by auto
  have at: "acc_at st t = Some b" using assms(2,3) by (simp add: acc_at_def)
  have "ts_by_block st1 = index_drop b t (ts_by_block st)"
    using assms(2-4) by (auto simp: drop_watch_def Let_def split: prod.splits)
  then have out: "\<not> in_idx (ts_by_block st1) b t" by simp
  have "remove_block E now (st1, d1, empty_fold) b = (st2, d2, f)" using assms(5) by (simp add: on_removed_def)
  from remove_block_cases [OF ok this] obtain ks where
    "map_of (records st2) = displaced_records b now ({t. in_idx (ts_by_block st1) b t} - set ks) (map_of (records st1))"
    by metis
  then have "hget (records st2) t = Some rec" using r out by (simp add: displaced_records_def)
  then show ?thesis using out by simp
qed

definition stuck_disk :: disk where
  "stuck_disk = (sy_disk (rn_sys live_state))\<lparr>faults := [Some 0]\<rparr>"

lemma stuck_drop:
  "case drop_watch demo_env ''t'' (sy_state (rn_sys live_state)) stuck_disk of
     (st1, d1, Inr _) \<Rightarrow> False
   | (st1, d1, Inl e) \<Rightarrow> (case on_removed demo_env [''B''] 8 st1 d1 of (st2, d2, f) \<Rightarrow> fo_failed f = None)"
  by code_simp

lemma failed_drop_strands_witness:
  "\<exists>st1 d1 e st2 d2 f. drop_watch demo_env ''t'' (sy_state (rn_sys live_state)) stuck_disk = (st1, d1, Inl e) \<and>
     on_removed demo_env [''B''] 8 st1 d1 = (st2, d2, f) \<and> fo_failed f = None \<and>
     hget (records st2) ''t'' = hget (records (sy_state (rn_sys live_state))) ''t''"
proof -
  obtain st1 d1 res where dr: "drop_watch demo_env ''t'' (sy_state (rn_sys live_state)) stuck_disk = (st1, d1, res)"
    by (metis prod_cases3)
  obtain st2 d2 f where rm: "on_removed demo_env [''B''] 8 st1 d1 = (st2, d2, f)" by (metis prod_cases3)
  obtain e where e: "res = Inl e" and f: "fo_failed f = None" using stuck_drop dr rm by (cases res) simp_all
  have "sys_ok demo_env (unindexed (sy_state (rn_sys live_state))) (rn_sys live_state)"
    by (rule reached_sys [OF demo_env_ok live_reached])
  then have "st_ok demo_env (unindexed (sy_state (rn_sys live_state))) (sy_state (rn_sys live_state)) stuck_disk"
    using st_ok_disk by (auto simp: sys_ok_def stuck_disk_def file_of_def content_def)
  from failed_drop_strands [OF this conjunct1 [OF live_record] _ dr [unfolded e] rm]
  show ?thesis using dr e rm f live_record by (auto simp: accepted_at_def)
qed

section \<open>The message walk's word\<close>

text \<open>
  What the walk may do to a record: stamp an acceptance at the block it already has, or accept a
  message that waits, at a block the stream has not taken off the chain.
\<close>

definition walk_moved :: "off_chain \<Rightarrow> watch_record \<Rightarrow> watch_record \<Rightarrow> bool" where
  "walk_moved off r r' \<longleftrightarrow> wr_source r' = wr_source r \<and> wr_watched_ms r' = wr_watched_ms r \<and>
     (wr_status r' = wr_status r \<or>
      (\<exists>b blue ms. wr_status r' = P_Accepted b blue ms \<and>
        (accepted_at (wr_status r) = Some b \<or>
         wr_source r = Transport \<and> \<not> oc_contains off b \<and>
           ((\<exists>n. wr_status r = P_Submitted n) \<or> (\<exists>n p. wr_status r = P_Displaced n p)))))"

lemma walk_moved_refl: "walk_moved off r r"
  by (simp add: walk_moved_def)

lemma walk_moved_trans: "walk_moved off r r' \<Longrightarrow> walk_moved off r' r'' \<Longrightarrow> walk_moved off r r''"
  by (cases "wr_status r"; cases "wr_status r'"; cases "wr_status r''")
    (auto simp: walk_moved_def accepted_at_def)

definition walk_rel :: "sys \<Rightarrow> sys \<Rightarrow> bool" where
  "walk_rel s s' \<longleftrightarrow> ts_off (sy_state s') = ts_off (sy_state s) \<and>
     (\<forall>u. (hget (records (sy_state s)) u = None \<longrightarrow> hget (records (sy_state s')) u = None) \<and>
       (\<forall>r. hget (records (sy_state s)) u = Some r \<longrightarrow>
         (\<exists>r'. hget (records (sy_state s')) u = Some r' \<and> walk_moved (ts_off (sy_state s)) r r')))"

lemma walk_rel_same: "sy_state s' = sy_state s \<Longrightarrow> walk_rel s s'"
  using walk_moved_refl by (auto simp: walk_rel_def)

lemma walk_rel_trans: "walk_rel s s' \<Longrightarrow> walk_rel s' s'' \<Longrightarrow> walk_rel s s''"
  unfolding walk_rel_def using walk_moved_trans by (auto, blast+)

lemma walk_accepted_records:
  assumes ok: "st_ok E X st d" and run: "walk_accepted E t b bl ms st d = (st', d', res)"
  shows "ts_off st' = ts_off st \<and> (records st' = records st \<or>
    (\<exists>r ms'. hget (records st) t = Some r \<and>
      map_of (records st') = (map_of (records st))(t \<mapsto> r\<lparr>wr_status := P_Accepted b bl ms'\<rparr>) \<and>
      walk_moved (ts_off st) r (r\<lparr>wr_status := P_Accepted b bl ms'\<rparr>)))"
proof (cases "hget (records st) t")
  case None
  then show ?thesis using run by (simp add: walk_accepted_def)
next
  case (Some r)
  have lv: "live E st d" using ok by (simp add: st_ok_def)
  let ?new = "r\<lparr>wr_status := P_Accepted b bl ms\<rparr>"
  show ?thesis
  proof (cases "case wr_status r of P_Accepted c _ u \<Rightarrow> u = 0 \<and> c = b \<and> ms \<noteq> 0 | _ \<Rightarrow> False")
    case True
    obtain lg1 d1 r1 where up: "upsert (ae_codec E) (ts_log st) d t ?new = (lg1, d1, r1)" by (metis prod_cases3)
    have out: "st' = st\<lparr>ts_log := lg1\<rparr>"
      using run Some True up by (auto simp: walk_accepted_def split: sum.splits)
    have m: "walk_moved (ts_off st) r ?new"
      using True by (auto simp: walk_moved_def accepted_at_def split: persisted_status.splits)
    have "wr_txid ?new = t" using live_key [OF lv Some] by simp
    from lv this up show ?thesis
    proof (cases rule: put_record_cases)
      case (failed e)
      then show ?thesis using out by simp
    next
      case (written c)
      then have "map_of (records st') = (map_of (records st))(t \<mapsto> ?new)" "ts_off st' = ts_off st"
        using out by simp_all
      then show ?thesis using m Some by blast
    qed
  next
    case False
    show ?thesis
    proof (cases "(case wr_status r of P_Submitted _ \<Rightarrow> True | P_Displaced _ _ \<Rightarrow> True | _ \<Rightarrow> False)
        \<and> wr_source r = Transport \<and> \<not> oc_contains (ts_off st) b")
      case True
      obtain st1 d1 f where ac: "on_accepted E b bl [t] ms st d = (st1, d1, f)" by (metis prod_cases3)
      have "walk_accepted E t b bl ms st d = (st1, d1, fold_into_result f)"
        unfolding walk_accepted_def Some option.case if_not_P [OF False] if_P [OF True] ac by simp
      then have out: "st' = st1" using run by simp
      have m: "walk_moved (ts_off st) r ?new"
        using True by (auto simp: walk_moved_def split: persisted_status.splits)
      have "accept_one E b bl ms (st, d, empty_fold) t = (st1, d1, f)" using ac by (simp add: on_accepted_def)
      with lv show ?thesis
      proof (cases rule: accept_one_cases)
        case (failed e)
        have "ts_off (st\<lparr>ts_log := ts_log st1\<rparr>) = ts_off st" by simp
        then have "ts_off st1 = ts_off st" using failed(3) by simp
        then show ?thesis using failed(4) out by simp
      next
        case (accepted r')
        then have "r' = r" using Some by simp
        then have "map_of (records st') = (map_of (records st))(t \<mapsto> ?new)" "ts_off st' = ts_off st"
          using accepted(5,7) out by simp_all
        then show ?thesis using m Some by blast
      next
        case ignored
        then show ?thesis using out by simp
      qed
    next
      case no: False
      then have "walk_accepted E t b bl ms st d = (st, d, Inr [])"
        unfolding walk_accepted_def Some option.case if_not_P [OF False] by (rule if_not_P)
      then show ?thesis using run by simp
    qed
  qed
qed

lemma walk_tell_rel:
  assumes ok: "sys_ok E X s" and run: "walk_tell E a (s, evs) t = (s', evs')"
  shows "walk_rel s s'"
proof -
  obtain st' d' r where w: "walk_accepted E t (wa_block a) (wa_blue a) (wa_ms a) (sy_state s) (sy_disk s) = (st', d', r)"
    by (metis prod_cases3)
  have s': "sy_state s' = st'" using run w by (cases r) (auto simp: walk_tell_def locked_def)
  have st: "st_ok E X (sy_state s) (sy_disk s)" using ok by (simp add: sys_ok_def)
  from walk_accepted_records [OF st w] show ?thesis
    unfolding walk_rel_def s' using walk_moved_refl by fastforce
qed

lemma walk_tell_fold_rel:
  assumes "sys_ok E X s" and "foldl (walk_tell E a) (s, evs) ts = (s', evs')"
  shows "walk_rel s s'"
  using assms
proof (induction ts arbitrary: s evs)
  case Nil
  then show ?case by (simp add: walk_rel_same)
next
  case (Cons t ts)
  obtain s1 e1 where s: "walk_tell E a (s, evs) t = (s1, e1)" by fastforce
  show ?case
    using Cons.IH [OF inner_ok [OF walk_tell_inner [OF Cons.prems(1) s]], of e1] Cons.prems(2) s
      walk_rel_trans [OF walk_tell_rel [OF Cons.prems(1) s]] by simp
qed

lemma walk_fold_rel:
  assumes "sys_ok E X s" and "foldl (walk_one E now) (s, evs, res) as = (s', evs', res')"
  shows "walk_rel s s'"
  using assms
proof (induction as arbitrary: s evs res)
  case Nil
  then show ?case by (simp add: walk_rel_same)
next
  case (Cons a as)
  obtain s1 e1 where f: "foldl (walk_tell E a) (s, evs) (wa_txids a) = (s1, e1)" by fastforce
  obtain s2 e2 r2 where o: "walk_one E now (s, evs, res) a = (s2, e2, r2)" by (metis prod_cases3)
  have "sy_state s2 = sy_state s1" using o f by (auto simp: walk_one_def Let_def)
  then have "walk_rel s s2" using walk_tell_fold_rel [OF Cons.prems(1) f] by (simp add: walk_rel_def)
  moreover have "walk_rel s2 s'"
    using Cons.IH [OF inner_ok [OF walk_one_inner [OF Cons.prems(1) o]], of e2 r2] Cons.prems(2) o by simp
  ultimately show ?case by (rule walk_rel_trans)
qed

lemma resolve_fold_state:
  "foldl resolve_one (s, evs) rs = (s', evs') \<Longrightarrow> sy_state s' = sy_state s"
proof (induction rs arbitrary: s evs)
  case (Cons r rs)
  obtain s1 out where t: "take_resolvable (fst r) (snd r) s = (s1, out)" by fastforce
  have "sy_state s1 = sy_state s" using t by (auto simp: take_resolvable_def split: prod.splits)
  then show ?case using Cons t by (simp add: resolve_one_def)
qed simp

lemma fold_walk_rel:
  assumes ok: "sys_ok E X s"
  shows "walk_rel s (fold_walk E N batch s)"
proof -
  let ?now = "nd_clock N (sy_calls s)"
  let ?s1 = "if wb_removed batch = [] then called s
    else (called s)\<lparr>sy_matched := mm_displace (wb_removed batch) ?now (sy_matched (called s))\<rparr>"
  obtain s2 e2 r2 where f: "foldl (walk_one E ?now) (?s1, [], []) (wb_accepted batch) = (s2, e2, r2)"
    by (metis prod_cases3)
  obtain s3 e3 where g: "foldl resolve_one (s2, e2) r2 = (s3, e3)" by fastforce
  have e: "fold_walk E N batch s = broadcast e3 s3"
    using f g by (simp add: fold_walk_def now_unix_ms_def Let_def)
  have i1: "sys_ok E X ?s1" using ok mm_ok_displace by (simp add: sys_ok_def)
  have "walk_rel s ?s1" by (rule walk_rel_same) simp
  moreover have "walk_rel ?s1 s2" by (rule walk_fold_rel [OF i1 f])
  moreover have "walk_rel s2 (broadcast e3 s3)" by (rule walk_rel_same) (simp add: resolve_fold_state [OF g])
  ultimately show ?thesis unfolding e using walk_rel_trans by blast
qed

text \<open>
  The message walk never displaces. Folding one of its pages, removals included, adds and
  drops no watch, leaves every payment's status but for the time of an acceptance it already
  has, and accepts a message only while it waits and only at a block the live stream has not
  taken off the chain. Nothing accepted moves to another block.
\<close>

theorem walk_never_displaces:
  assumes "env_ok E" and "reached E N d evs r" and "s' = fold_walk E N batch (rn_sys r)"
  shows "(hget (records (sy_state s')) u = None \<longleftrightarrow> hget (records (sy_state (rn_sys r))) u = None) \<and>
    (\<forall>rec. hget (records (sy_state (rn_sys r))) u = Some rec \<longrightarrow>
      (\<exists>rec'. hget (records (sy_state s')) u = Some rec' \<and> wr_source rec' = wr_source rec \<and>
        (wr_status rec' = wr_status rec \<or>
         (\<exists>b blue ms. wr_status rec' = P_Accepted b blue ms \<and>
           (accepted_at (wr_status rec) = Some b \<or>
            wr_source rec = Transport \<and> \<not> oc_contains (ts_off (sy_state (rn_sys r))) b \<and>
              ((\<exists>n. wr_status rec = P_Submitted n) \<or> (\<exists>n p. wr_status rec = P_Displaced n p)))))))"
  using fold_walk_rel [OF reached_sys [OF assms(1,2)], where N = N and batch = batch]
  unfolding assms(3) [symmetric] walk_rel_def walk_moved_def
  by (cases "hget (records (sy_state (rn_sys r))) u") fastforce+

definition walk_demo :: walk_batch where
  "walk_demo = \<lparr>wb_removed = [''B''], wb_accepted =
     [\<lparr>wa_block = ''C'', wa_blue = 8, wa_daa = 8, wa_ms = 8, wa_txids = [''t'']\<rparr>]\<rparr>"

lemma walk_never_displaces_witness:
  "\<exists>rec'. hget (records (sy_state (fold_walk demo_env demo_node walk_demo (rn_sys live_state)))) ''t'' = Some rec' \<and>
     accepted_at (wr_status rec') = Some ''B''"
proof -
  let ?s = "fold_walk demo_env demo_node walk_demo (rn_sys live_state)"
  obtain rec' where r: "hget (records (sy_state ?s)) ''t'' = Some rec'"
    and m: "wr_status rec' = P_Accepted ''B'' 5 9 \<or> (\<exists>b blue ms. wr_status rec' = P_Accepted b blue ms \<and> b = ''B'')"
    using walk_never_displaces [OF demo_env_ok live_reached refl, where batch = walk_demo and u = "''t''"]
      live_record by (auto simp: accepted_at_def)
  have "accepted_at (wr_status rec') = Some ''B''" using m by (auto simp: accepted_at_def)
  with r show ?thesis by blast
qed

end
