(* ===== verification/Acceptance_Sweeps.thy ===== *)
theory Acceptance_Sweeps
  imports Acceptance_Fold
begin

text \<open>
  New watches, sink scores and ticks over the watched records, the feeds a walk holds back, and
  how long the bounded memories remember.
\<close>

section \<open>New watches\<close>

lemma oldest_of_None: "oldest_of rs = None \<longleftrightarrow> rs = []"
  by (cases rs) (auto split: option.splits)

lemma oldest_of_Some: "oldest_of rs = Some m \<Longrightarrow> m \<in> set rs \<and> (\<forall>r \<in> set rs. wr_watched_ms m \<le> wr_watched_ms r)"
proof (induction rs arbitrary: m)
  case (Cons r rs)
  show ?case
  proof (cases "oldest_of rs")
    case None
    then show ?thesis using Cons.prems by (simp add: oldest_of_None)
  next
    case (Some k)
    then show ?thesis using Cons.IH [OF Some] Cons.prems by (auto split: if_splits)
  qed
qed simp

lemma new_watch_records:
  assumes ok: "st_ok E X st d" and new: "\<not> is_watched st t"
    and run: "watch_state E t src now st d = (st', d', Inr ())"
  defines "rec \<equiv> \<lparr>wr_txid = t, wr_source = src, wr_watched_ms = now, wr_status = P_Submitted now\<rparr>"
  shows "map_of (records st') = (map_of (records st))(t \<mapsto> rec) \<and> length (records st) < watch_cap \<or>
    (\<exists>old. oldest_of (hvals (records st)) = Some old \<and> watch_cap \<le> length (records st) \<and>
      map_of (records st') = (map_of (records st))(wr_txid old := None, t \<mapsto> rec))"
proof -
  have add: "map_of (records st') = (map_of (records st1))(t \<mapsto> rec)"
    if ok1: "st_ok E X st1 d1" and none: "hget (records st1) t = None"
      and w: "(case upsert (ae_codec E) (ts_log st1) d1 t rec of
        (lg, d, Inl e) \<Rightarrow> (st1\<lparr>ts_log := lg\<rparr>, d, Inl e)
      | (lg, d, Inr _) \<Rightarrow> (st1\<lparr>ts_log := lg\<rparr>, d, Inr ())) = (st', d', Inr ())" for st1 d1
  proof -
    obtain lg2 d2 r2 where up: "upsert (ae_codec E) (ts_log st1) d1 t rec = (lg2, d2, r2)" by (metis prod_cases3)
    have "acc_at st1 t = accepted_at (wr_status rec)" using none by (simp add: acc_at_def accepted_at_def rec_def)
    moreover have "wr_txid rec = t" by (simp add: rec_def)
    ultimately show ?thesis using put_plain_ok(2) [OF ok1 _ _ up] w up by (cases r2) auto
  qed
  have none: "hget (records st) t = None" using new by (simp add: is_watched_def)
  show ?thesis
  proof (cases "watch_cap \<le> length (records st)")
    case False
    then show ?thesis using add [OF ok none] run new by (simp add: watch_state_def rec_def)
  next
    case True
    have "0 < watch_cap" by (simp add: watch_cap_def)
    then have "hvals (records st) \<noteq> []" using True by auto
    then obtain old where old: "oldest_of (hvals (records st)) = Some old"
      using oldest_of_None by (cases "oldest_of (hvals (records st))") auto
    obtain st1 d1 room where dr: "drop_watch E (wr_txid old) st d = (st1, d1, room)" by (metis prod_cases3)
    from ok dr show ?thesis
    proof (cases rule: drop_watch_cases)
      case dropped
      have "map_of (records st') = (map_of (records st1))(t \<mapsto> rec)"
        by (rule add [OF dropped(2)]) (use dropped none run new True old dr in \<open>simp_all add: watch_state_def rec_def\<close>)
      then show ?thesis using old True unfolding dropped(3) by blast
    next
      case (failed e)
      then show ?thesis using run new True old dr by (simp add: watch_state_def)
    qed
  qed
qed

text \<open>
  A new watch is admitted at the cost of the oldest. A watch that reports success is on
  record as submitted now. Below 512 records nothing else changes; at the cap exactly one other
  record goes, and no record has been watched longer than it.
\<close>

theorem watch_admits:
  assumes "env_ok E" and "reached E N d evs r" and "\<not> is_watched (sy_state (rn_sys r)) t"
    and "watch_state E t src now (sy_state (rn_sys r)) (sy_disk (rn_sys r)) = (st', d', Inr ())"
  shows "hget (records st') t =
      Some \<lparr>wr_txid = t, wr_source = src, wr_watched_ms = now, wr_status = P_Submitted now\<rparr> \<and>
    ((\<forall>u. u \<noteq> t \<longrightarrow> hget (records st') u = hget (records (sy_state (rn_sys r))) u) \<and>
       length (records (sy_state (rn_sys r))) < watch_cap \<or>
     (\<exists>old \<in> set (hvals (records (sy_state (rn_sys r)))).
       watch_cap \<le> length (records (sy_state (rn_sys r))) \<and>
       (\<forall>rec \<in> set (hvals (records (sy_state (rn_sys r)))). wr_watched_ms old \<le> wr_watched_ms rec) \<and>
       (\<forall>u. u \<noteq> t \<longrightarrow> hget (records st') u =
          (if u = wr_txid old then None else hget (records (sy_state (rn_sys r))) u))))"
proof -
  have ok: "st_ok E (unindexed (sy_state (rn_sys r))) (sy_state (rn_sys r)) (sy_disk (rn_sys r))"
    using reached_sys [OF assms(1,2)] by (simp add: sys_ok_def)
  from new_watch_records [OF ok assms(3,4)] show ?thesis
  proof (elim disjE exE conjE)
    fix old assume "oldest_of (hvals (records (sy_state (rn_sys r)))) = Some old"
      and c: "watch_cap \<le> length (records (sy_state (rn_sys r)))"
      and m: "map_of (records st') = (map_of (records (sy_state (rn_sys r))))(wr_txid old := None,
        t \<mapsto> \<lparr>wr_txid = t, wr_source = src, wr_watched_ms = now, wr_status = P_Submitted now\<rparr>)"
    note oldest_of_Some [OF this(1)]
    then show ?thesis using c by (intro conjI disjI2 bexI [of _ old]) (simp_all add: m)
  qed simp
qed

lemma watch_runs:
  "case watch_state demo_env ''w'' Transport 9 (sy_state (rn_sys live_state)) (sy_disk (rn_sys live_state)) of
     (st', d', res) \<Rightarrow> res = Inr () \<and> \<not> is_watched (sy_state (rn_sys live_state)) ''w''"
  by code_simp

lemma watch_admits_witness:
  "\<exists>st' d'. watch_state demo_env ''w'' Transport 9 (sy_state (rn_sys live_state)) (sy_disk (rn_sys live_state)) =
      (st', d', Inr ()) \<and>
    hget (records st') ''w'' =
      Some \<lparr>wr_txid = ''w'', wr_source = Transport, wr_watched_ms = 9, wr_status = P_Submitted 9\<rparr>"
proof -
  obtain st' d' res where w: "watch_state demo_env ''w'' Transport 9 (sy_state (rn_sys live_state))
      (sy_disk (rn_sys live_state)) = (st', d', res)" by (metis prod_cases3)
  then have res: "res = Inr ()" and n: "\<not> is_watched (sy_state (rn_sys live_state)) ''w''"
    using watch_runs by simp_all
  show ?thesis using watch_admits [OF demo_env_ok live_reached n w [unfolded res]] w res by blast
qed

section \<open>Sink scores\<close>

definition due_confirmed :: "nat \<Rightarrow> string hset \<Rightarrow> watch_record \<Rightarrow> acceptance_event option" where
  "due_confirmed sink emitted r =
     (case wr_status r of
        P_Accepted _ blue _ \<Rightarrow>
          if sink - blue \<ge> confirmed_depth_blue \<and> wr_txid r \<notin> set emitted
          then Some (E_Confirmed (wr_txid r) (sink - blue)) else None
      | _ \<Rightarrow> None)"

lemma map_filter_same: "(\<And>x. x \<in> set xs \<Longrightarrow> f x = g x) \<Longrightarrow> List.map_filter f xs = List.map_filter g xs"
proof (induction xs)
  case (Cons a xs)
  have "List.map_filter f xs = List.map_filter g xs" by (rule Cons.IH) (use Cons.prems in auto)
  moreover have "f a = g a" using Cons.prems by simp
  ultimately show ?case by (simp add: map_filter_simps split: option.splits)
qed simp

lemma map_filter_mem: "y \<in> set (List.map_filter f xs) \<longleftrightarrow> (\<exists>x \<in> set xs. f x = Some y)"
  by (induction xs) (auto simp: map_filter_simps split: option.splits)

lemma confirm_fold:
  assumes "distinct (map wr_txid rs)"
  shows "foldl (confirm_one sink) (em, evs) rs = (em', evs') \<Longrightarrow> evs' = evs @ List.map_filter (due_confirmed sink em) rs"
  using assms
proof (induction rs arbitrary: em evs)
  case Nil
  then show ?case by (simp add: map_filter_simps)
next
  case (Cons r rs)
  obtain em1 evs1 where o: "confirm_one sink (em, evs) r = (em1, evs1)" by fastforce
  have e1: "evs1 = evs @ (case due_confirmed sink em r of None \<Rightarrow> [] | Some ev \<Rightarrow> [ev])"
    and m1: "set em1 \<subseteq> insert (wr_txid r) (set em)" "set em \<subseteq> set em1"
    using o by (auto simp: confirm_one_def due_confirmed_def split: persisted_status.splits if_splits)
  have "due_confirmed sink em1 q = due_confirmed sink em q" if "q \<in> set rs" for q
  proof -
    have "wr_txid q \<noteq> wr_txid r" using Cons.prems(2) that by (simp, metis image_eqI)
    then have "wr_txid q \<in> set em1 \<longleftrightarrow> wr_txid q \<in> set em" using m1 by blast
    then show ?thesis by (simp add: due_confirmed_def split: persisted_status.splits)
  qed
  then have "List.map_filter (due_confirmed sink em1) rs = List.map_filter (due_confirmed sink em) rs"
    by (rule map_filter_same)
  then show ?case
    using Cons.IH [of em1 evs1] Cons.prems o e1 by (cases "due_confirmed sink em r") (simp_all add: map_filter_simps)
qed

text \<open>What a score may do to a record: make a deep acceptance final, or drop it past the horizon.\<close>

definition sunk :: "acc_env \<Rightarrow> nat \<Rightarrow> nat \<Rightarrow> watch_record \<Rightarrow> watch_record option \<Rightarrow> bool" where
  "sunk E sink now r r' \<longleftrightarrow>
     (case r' of
        None \<Rightarrow> now - wr_watched_ms r > pruning_horizon_ms E
      | Some r' \<Rightarrow> r' = r \<or> (\<exists>b blue ms. wr_status r = P_Accepted b blue ms \<and>
          sink - blue \<ge> terminal_depth_blue \<and> r' = r\<lparr>wr_status := P_Finalized b blue ms\<rparr>))"

lemma finalize_watch_records:
  assumes ok: "st_ok E X st d" and run: "finalize_watch E t st d = (st', d', res)"
  shows "map_of (records st') = map_of (records st) \<or>
    (\<exists>r b blue ms. hget (records st) t = Some r \<and> wr_status r = P_Accepted b blue ms \<and>
      map_of (records st') = (map_of (records st))(t \<mapsto> r\<lparr>wr_status := P_Finalized b blue ms\<rparr>))"
proof (cases "\<exists>r block blue ms. hget (records st) t = Some r \<and> wr_status r = P_Accepted block blue ms")
  case False
  then have "st' = st"
    using run by (auto simp: finalize_watch_def split: option.splits persisted_status.splits)
  then show ?thesis by simp
next
  case True
  then obtain r block blue ms where r: "hget (records st) t = Some r" "wr_status r = P_Accepted block blue ms"
    by blast
  let ?new = "r\<lparr>wr_status := P_Finalized block blue ms\<rparr>"
  have lv: "live E st d" using ok by (simp add: st_ok_def)
  have key: "wr_txid ?new = t" using live_key [OF lv r(1)] by simp
  obtain lg1 d1 r1 where up: "upsert (ae_codec E) (ts_log st) d t ?new = (lg1, d1, r1)" by (metis prod_cases3)
  have log: "ts_log st' = lg1" using run r up by (cases r1) (auto simp: finalize_watch_def)
  from lv key up show ?thesis
  proof (cases rule: put_record_cases)
    case (failed e)
    then show ?thesis using log by simp
  next
    case (written c)
    then have "map_of (records st') = (map_of (records st))(t \<mapsto> ?new)" using log by simp
    then show ?thesis using r by blast
  qed
qed

lemma finalize_all_records:
  assumes "st_ok E X st d" and "finalize_all E ts st d = (st', d')"
  shows "hget (records st') u = hget (records st) u \<or>
    (u \<in> set ts \<and> (\<exists>r b blue ms. hget (records st) u = Some r \<and> wr_status r = P_Accepted b blue ms \<and>
      hget (records st') u = Some (r\<lparr>wr_status := P_Finalized b blue ms\<rparr>)))"
  using assms
proof (induction ts arbitrary: st d)
  case Nil
  then show ?case by simp
next
  case (Cons t ts)
  obtain st1 d1 r1 where f: "finalize_watch E t st d = (st1, d1, r1)" by (metis prod_cases3)
  have run: "finalize_all E ts st1 d1 = (st', d')" using Cons.prems(2) f by simp
  note IH = Cons.IH [OF finalize_watch_ok [OF Cons.prems(1) f] run]
  from finalize_watch_records [OF Cons.prems(1) f] show ?case
  proof (elim disjE exE conjE)
    assume "map_of (records st1) = map_of (records st)"
    then show ?thesis using IH by auto
  next
    fix r b blue ms
    assume r: "hget (records st) t = Some r" "wr_status r = P_Accepted b blue ms"
      and m: "map_of (records st1) = (map_of (records st))(t \<mapsto> r\<lparr>wr_status := P_Finalized b blue ms\<rparr>)"
    show ?thesis
    proof (cases "u = t")
      case True
      then have "hget (records st1) u = Some (r\<lparr>wr_status := P_Finalized b blue ms\<rparr>)" using m by simp
      then have "hget (records st') u = Some (r\<lparr>wr_status := P_Finalized b blue ms\<rparr>)" using IH by auto
      then show ?thesis using True r by auto
    next
      case False
      then have "hget (records st1) u = hget (records st) u" using m by simp
      then show ?thesis using IH by auto
    qed
  qed
qed

lemma drop_watches_records:
  assumes "st_ok E X st d" and "drop_watches E ts st d = (st', d', res)"
  shows "hget (records st') u = hget (records st) u \<or> (u \<in> set ts \<and> hget (records st') u = None)"
  using assms
proof (induction ts arbitrary: st d)
  case Nil
  then show ?case by simp
next
  case (Cons t ts)
  obtain st1 d1 r1 where dr: "drop_watch E t st d = (st1, d1, r1)" by (metis prod_cases3)
  from Cons.prems(1) dr show ?case
  proof (cases rule: drop_watch_cases)
    case dropped
    then have "drop_watches E ts st1 d1 = (st', d', res)" using Cons.prems(2) dr by simp
    note Cons.IH [OF dropped(2) this]
    moreover have "hget (records st1) u = (if u = t then None else hget (records st) u)" using dropped(3) by simp
    ultimately show ?thesis by (auto split: if_splits)
  next
    case (failed e)
    then show ?thesis using Cons.prems(2) dr by auto
  qed
qed

text \<open>The records a state's log holds carry their own keys, once each.\<close>

lemma live_hmap: "live E st d \<Longrightarrow> hmap_ok (records st)"
  by (simp add: live_def log_inv_def log_wf_def)

lemma live_vals:
  assumes lv: "live E st d"
  shows "rec \<in> set (hvals (records st)) \<longleftrightarrow> hget (records st) (wr_txid rec) = Some rec"
proof
  assume "rec \<in> set (hvals (records st))"
  then obtain k where "(k, rec) \<in> set (records st)" by auto
  then have k: "hget (records st) k = Some rec" using hmap_ok_mem [OF live_hmap [OF lv]] by blast
  then show "hget (records st) (wr_txid rec) = Some rec" using live_key [OF lv k] by simp
next
  assume "hget (records st) (wr_txid rec) = Some rec"
  then show "rec \<in> set (hvals (records st))" using hget_Some_mem by force
qed

lemma live_txids:
  assumes lv: "live E st d"
  shows "distinct (map wr_txid (hvals (records st)))"
proof -
  have "wr_txid (snd p) = fst p" if "p \<in> set (records st)" for p
  proof -
    have "hget (records st) (fst p) = Some (snd p)" using that hmap_ok_mem [OF live_hmap [OF lv], of "fst p" "snd p"] by simp
    then show ?thesis by (rule live_key [OF lv])
  qed
  then have "map (wr_txid \<circ> snd) (records st) = hkeys (records st)" by simp
  then show ?thesis using live_hmap [OF lv] unfolding map_map hmap_ok_def by metis
qed

lemma prune_records:
  assumes ok: "st_ok E X st d" and run: "prune_beyond_horizon E now st d = (st', d', res)"
    and r: "hget (records st) u = Some rec"
  shows "hget (records st') u = Some rec \<or>
    (hget (records st') u = None \<and> now - wr_watched_ms rec > pruning_horizon_ms E)"
proof -
  have lv: "live E st d" using ok by (simp add: st_ok_def)
  have "now - wr_watched_ms rec > pruning_horizon_ms E"
    if "u \<in> set (map wr_txid (filter (\<lambda>r. now - wr_watched_ms r > pruning_horizon_ms E) (hvals (records st))))"
    using that live_vals [OF lv] r by auto
  then show ?thesis using drop_watches_records [OF ok run [unfolded prune_beyond_horizon_def], of u] r by auto
qed

lemma sink_records:
  assumes ok: "st_ok E X st d" and run: "on_sink_blue E sink now st d = (st', d', res)"
    and r: "hget (records st) u = Some rec"
  shows "sunk E sink now rec (hget (records st') u)" and "\<not> claims_depth st \<Longrightarrow> hget (records st') u \<in> {None, Some rec}"
proof -
  let ?st = "st\<lparr>ts_sink := sink\<rparr>"
  have ok0: "st_ok E X ?st d" by (rule st_ok_flags [OF ok]) simp_all
  have claims: "claims_depth ?st \<longleftrightarrow> claims_depth st" by (simp add: claims_depth_def)
  have "sunk E sink now rec (hget (records st') u) \<and> (\<not> claims_depth st \<longrightarrow> hget (records st') u \<in> {None, Some rec})"
  proof (cases "claims_depth st")
    case False
    obtain st1 d1 r1 where pr: "prune_beyond_horizon E now ?st d = (st1, d1, r1)" by (metis prod_cases3)
    have "st' = st1" using run False claims pr by (auto simp: on_sink_blue_def Let_def split: sum.splits)
    then show ?thesis using prune_records [OF ok0 pr, of u rec] r by (auto simp: sunk_def)
  next
    case True
    let ?rs = "hvals (records ?st)"
    obtain emitted events where fo: "foldl (confirm_one sink) (ts_confirmed ?st, []) ?rs = (emitted, events)"
      by fastforce
    let ?st1 = "?st\<lparr>ts_confirmed := emitted\<rparr>"
    have ok1: "st_ok E X ?st1 d" by (rule st_ok_flags [OF ok0]) simp_all
    obtain st2 d2 where fi: "finalize_all E (map wr_txid (filter (terminal sink) ?rs)) ?st1 d = (st2, d2)"
      by fastforce
    obtain st3 d3 r3 where pr: "prune_beyond_horizon E now st2 d2 = (st3, d3, r3)" by (metis prod_cases3)
    have out: "st' = st3" using run True claims fo fi pr by (auto simp: on_sink_blue_def Let_def)
    have ok2: "st_ok E X st2 d2" by (rule finalize_all_ok [OF ok1 fi])
    have deep: "terminal sink rec" if "u \<in> set (map wr_txid (filter (terminal sink) ?rs))"
      using that live_vals [of E st d] ok r by (auto simp: st_ok_def)
    from finalize_all_records [OF ok1 fi, of u] show ?thesis
    proof (elim disjE exE conjE)
      assume "hget (records st2) u = hget (records ?st1) u"
      then show ?thesis using prune_records [OF ok2 pr, of u rec] r out True by (auto simp: sunk_def)
    next
      fix rec' b blue ms
      assume u: "u \<in> set (map wr_txid (filter (terminal sink) ?rs))" and a: "hget (records ?st1) u = Some rec'"
        "wr_status rec' = P_Accepted b blue ms" "hget (records st2) u = Some (rec'\<lparr>wr_status := P_Finalized b blue ms\<rparr>)"
      have "rec' = rec" using a(1) r by simp
      then show ?thesis
        using prune_records [OF ok2 pr a(3)] out True a(2) deep [OF u] by (auto simp: sunk_def terminal_def)
    qed
  qed
  then show "sunk E sink now rec (hget (records st') u)"
    "\<not> claims_depth st \<Longrightarrow> hget (records st') u \<in> {None, Some rec}" by auto
qed

text \<open>
  A sink score claims depth once and only when it may. While the cursor is held or a walk
  runs a score announces nothing and finalizes nothing. Otherwise it announces exactly the
  acceptances 1000 blue deep it has not announced since they were last displaced, and the only
  records it changes are acceptances 2000 deep, which become final, and records past the
  pruning horizon, which may be dropped.
\<close>

theorem sink_score_claims:
  assumes "env_ok E" and "reached E N d evs r"
    and "on_sink_blue E sink now (sy_state (rn_sys r)) (sy_disk (rn_sys r)) = (st', d', res)"
  shows "(if sy_frozen (rn_sys r) \<or> rn_walk r \<noteq> None then
      (\<forall>out. res = Inr out \<longrightarrow> out = []) \<and>
      (\<forall>u rec. hget (records (sy_state (rn_sys r))) u = Some rec \<longrightarrow> hget (records st') u \<in> {None, Some rec})
    else res = Inr (List.map_filter (due_confirmed sink (ts_confirmed (sy_state (rn_sys r))))
      (hvals (records (sy_state (rn_sys r)))))) \<and>
    (\<forall>u rec. hget (records (sy_state (rn_sys r))) u = Some rec \<longrightarrow> sunk E sink now rec (hget (records st') u))"
proof -
  let ?st = "sy_state (rn_sys r)"
  have ok: "st_ok E (unindexed ?st) ?st (sy_disk (rn_sys r))"
    using reached_sys [OF assms(1,2)] by (simp add: sys_ok_def)
  have c: "claims_depth ?st \<longleftrightarrow> \<not> (sy_frozen (rn_sys r) \<or> rn_walk r \<noteq> None)"
    using reached_sys [OF assms(1,2)] reached_ok [OF assms(1,2)] by (auto simp: claims_depth_def sys_ok_def run_ok_def)
  have each: "\<forall>u rec. hget (records ?st) u = Some rec \<longrightarrow> sunk E sink now rec (hget (records st') u)"
    using sink_records(1) [OF ok assms(3)] by blast
  show ?thesis
  proof (cases "claims_depth ?st")
    case False
    then have no: "\<forall>u rec. hget (records ?st) u = Some rec \<longrightarrow> hget (records st') u \<in> {None, Some rec}"
      using sink_records(2) [OF ok assms(3)] by blast
    have "\<not> claims_depth (?st\<lparr>ts_sink := sink\<rparr>)" using False by (simp add: claims_depth_def)
    then have "\<forall>out. res = Inr out \<longrightarrow> out = []"
      using assms(3) by (auto simp: on_sink_blue_def Let_def split: prod.splits sum.splits)
    then show ?thesis using no each c False by simp
  next
    case True
    then have t: "claims_depth (?st\<lparr>ts_sink := sink\<rparr>)" by (simp add: claims_depth_def)
    obtain em ev where fo: "foldl (confirm_one sink) (ts_confirmed ?st, []) (hvals (records ?st)) = (em, ev)"
      by fastforce
    have "live E ?st (sy_disk (rn_sys r))" using ok by (simp add: st_ok_def)
    from confirm_fold [OF live_txids [OF this] fo]
    have "ev = List.map_filter (due_confirmed sink (ts_confirmed ?st)) (hvals (records ?st))" by simp
    then have "res = Inr (List.map_filter (due_confirmed sink (ts_confirmed ?st)) (hvals (records ?st)))"
      using assms(3) t fo by (auto simp: on_sink_blue_def Let_def split: prod.splits)
    then show ?thesis using each c True by simp
  qed
qed

lemma sink_score_claims_witness:
  "\<exists>st' d' res. on_sink_blue demo_env 1005 8 (sy_state (rn_sys live_state)) (sy_disk (rn_sys live_state)) = (st', d', res) \<and>
    res = Inr (List.map_filter (due_confirmed 1005 (ts_confirmed (sy_state (rn_sys live_state))))
      (hvals (records (sy_state (rn_sys live_state)))))"
proof -
  obtain st' d' res where s: "on_sink_blue demo_env 1005 8 (sy_state (rn_sys live_state)) (sy_disk (rn_sys live_state)) =
    (st', d', res)" by (metis prod_cases3)
  have "\<not> (sy_frozen (rn_sys live_state) \<or> rn_walk live_state \<noteq> None)" by code_simp
  then show ?thesis using sink_score_claims [OF demo_env_ok live_reached s] s by simp
qed

section \<open>Ticks\<close>

lemma mark_stall: "x \<in> set (ts_stall (foldl mark_emitted st evs)) \<longleftrightarrow> x \<in> set (ts_stall st) \<or> (\<exists>w. E_Stalled x w \<in> set evs)"
proof (induction evs arbitrary: st)
  case (Cons e evs)
  show ?case unfolding foldl.simps Cons.IH by (cases e) (auto simp: mark_emitted_def)
qed simp

lemma mark_elapse: "x \<in> set (ts_elapse (foldl mark_emitted st evs)) \<longleftrightarrow> x \<in> set (ts_elapse st) \<or> E_DisplacedElapsed x \<in> set evs"
proof (induction evs arbitrary: st)
  case (Cons e evs)
  show ?case unfolding foldl.simps Cons.IH by (cases e) (auto simp: mark_emitted_def)
qed simp

lemma tick_event_Stalled:
  "tick_event st now rec = Some (E_Stalled x w) \<longleftrightarrow> wr_txid rec = x \<and> wr_source rec = Send \<and> x \<notin> set (ts_stall st) \<and>
     (\<exists>n. wr_status rec = P_Submitted n \<and> w = now - n \<and> stall_after_ms \<le> w)"
  by (cases "wr_status rec") (auto simp: tick_event_def)

lemma tick_event_Elapsed:
  "tick_event st now rec = Some (E_DisplacedElapsed x) \<longleftrightarrow> wr_txid rec = x \<and> x \<notin> set (ts_elapse st) \<and>
     (\<exists>n p. wr_status rec = P_Displaced n p \<and> tombstone_window_ms \<le> now - n)"
  by (cases "wr_status rec") (auto simp: tick_event_def)

lemma tick_out:
  "tick now st = (st', evs) \<Longrightarrow> st' = foldl mark_emitted st evs \<and>
     evs = (if ts_walking st then [] else List.map_filter (tick_event st now) (hvals (records st)))"
  by (auto simp: tick_def Let_def split: if_splits)

lemma tick_events:
  assumes "tick now st = (st', evs)"
  shows "ts_walking st \<Longrightarrow> evs = []"
    and "E_Stalled x w \<in> set evs \<Longrightarrow> x \<notin> set (ts_stall st) \<and> (\<exists>rec \<in> set (hvals (records st)). wr_txid rec = x \<and>
      wr_source rec = Send \<and> (\<exists>n. wr_status rec = P_Submitted n \<and> w = now - n \<and> stall_after_ms \<le> w))"
    and "E_DisplacedElapsed x \<in> set evs \<Longrightarrow> x \<notin> set (ts_elapse st) \<and> (\<exists>rec \<in> set (hvals (records st)). wr_txid rec = x \<and>
      (\<exists>n p. wr_status rec = P_Displaced n p \<and> tombstone_window_ms \<le> now - n))"
    and "E_Stalled x w \<in> set evs \<Longrightarrow> x \<in> set (ts_stall st')"
    and "E_DisplacedElapsed x \<in> set evs \<Longrightarrow> x \<in> set (ts_elapse st')"
proof -
  note o = tick_out [OF assms]
  have mem: "ev \<in> set evs \<Longrightarrow> \<exists>rec \<in> set (hvals (records st)). tick_event st now rec = Some ev" for ev
    using o map_filter_mem [of ev "tick_event st now" "hvals (records st)"] by (auto split: if_splits)
  show "ts_walking st \<Longrightarrow> evs = []" using o by simp
  show "E_Stalled x w \<in> set evs \<Longrightarrow> x \<notin> set (ts_stall st) \<and> (\<exists>rec \<in> set (hvals (records st)). wr_txid rec = x \<and>
      wr_source rec = Send \<and> (\<exists>n. wr_status rec = P_Submitted n \<and> w = now - n \<and> stall_after_ms \<le> w))"
    using mem [of "E_Stalled x w"] unfolding tick_event_Stalled by blast
  show "E_DisplacedElapsed x \<in> set evs \<Longrightarrow> x \<notin> set (ts_elapse st) \<and> (\<exists>rec \<in> set (hvals (records st)). wr_txid rec = x \<and>
      (\<exists>n p. wr_status rec = P_Displaced n p \<and> tombstone_window_ms \<le> now - n))"
    using mem [of "E_DisplacedElapsed x"] unfolding tick_event_Elapsed by blast
  show "E_Stalled x w \<in> set evs \<Longrightarrow> x \<in> set (ts_stall st')" using o mark_stall [of x st evs] by blast
  show "E_DisplacedElapsed x \<in> set evs \<Longrightarrow> x \<in> set (ts_elapse st')" using o mark_elapse [of x st evs] by blast
qed

text \<open>
  A window is announced once, and never during a walk. A tick says a payment has stalled only
  when it is still submitted after 60 seconds, says a displacement has lasted only after 120,
  says neither while a walk runs, and what one tick has said of a transaction the next never says
  again, whatever the clock reads.
\<close>

theorem tick_announces_once:
  assumes "tick now st = (st1, evs)" and "tick later st1 = (st2, again)"
  shows "(ts_walking st \<longrightarrow> evs = []) \<and>
    (\<forall>x w. E_Stalled x w \<in> set evs \<longrightarrow>
       (\<exists>rec \<in> set (hvals (records st)). wr_txid rec = x \<and> wr_source rec = Send \<and>
          (\<exists>n. wr_status rec = P_Submitted n \<and> w = now - n \<and> stall_after_ms \<le> w)) \<and>
       (\<forall>v. E_Stalled x v \<notin> set again)) \<and>
    (\<forall>x. E_DisplacedElapsed x \<in> set evs \<longrightarrow>
       (\<exists>rec \<in> set (hvals (records st)). wr_txid rec = x \<and>
          (\<exists>n p. wr_status rec = P_Displaced n p \<and> tombstone_window_ms \<le> now - n)) \<and>
       E_DisplacedElapsed x \<notin> set again)"
  using tick_events [OF assms(1)] tick_events(2,3) [OF assms(2)] by blast

lemma tick_announces_once_witness:
  "\<exists>st1 evs st2 again. tick 60007 (sy_state (rn_sys demo_state)) = (st1, evs) \<and> tick 90000 st1 = (st2, again) \<and>
     E_Stalled ''t'' 60000 \<in> set evs \<and> E_Stalled ''t'' 89993 \<notin> set again"
proof -
  obtain st1 evs where t1: "tick 60007 (sy_state (rn_sys demo_state)) = (st1, evs)" by fastforce
  obtain st2 again where t2: "tick 90000 st1 = (st2, again)" by fastforce
  have "snd (tick 60007 (sy_state (rn_sys demo_state))) = [E_Stalled ''t'' 60000]" by code_simp
  then have "E_Stalled ''t'' 60000 \<in> set evs" using t1 by simp
  then show ?thesis using tick_announces_once [OF t1 t2] t1 t2 by blast
qed

section \<open>Feeds a walk holds back\<close>

lemma fold_ahead_keeps:
  assumes ok: "sys_ok E X s"
  shows "ts_log (sy_state (fold_ahead N batch s)) = ts_log (sy_state s) \<and> cursor_of (fold_ahead N batch s) = cursor_of s"
proof -
  have one: "sys_ok E X (ahead_one N s m) \<and> ts_log (sy_state (ahead_one N s m)) = ts_log (sy_state s) \<and>
      cursor_of (ahead_one N s m) = cursor_of s" if ok: "sys_ok E X s" for s m
  proof -
    obtain block ts where m: "m = (block, ts)" by (cases m)
    obtain s1 facts where rd: "read_accepting_block N block s = (s1, facts)" by fastforce
    have i: "cursor_of s1 = cursor_of s" "ts_log (sy_state s1) = ts_log (sy_state s)"
      using read_accepting_block_inner [OF ok rd] cursor_of_ctl [of s1 s] by (auto simp: inner_def)
    have "sys_ok E X (ahead_one N s m)" using ahead_one_ok [OF ok] by blast
    then show ?thesis using i rd m by (cases facts) (simp_all add: ahead_one_def cursor_of_def)
  qed
  have "ts_log (sy_state (foldl (ahead_one N) s ms)) = ts_log (sy_state s) \<and>
      cursor_of (foldl (ahead_one N) s ms) = cursor_of s" for ms
    using ok
  proof (induction ms arbitrary: s)
    case (Cons m ms)
    then show ?case using one [OF Cons.prems, of m] Cons.IH [of "ahead_one N s m"] by simp
  qed simp
  then show ?thesis by (simp add: fold_ahead_def)
qed

abbreviation feed_events :: "tracker_feed list \<Rightarrow> run_event list" where
  "feed_events feeds \<equiv> map (\<lambda>f. R_Input (I_Feed f)) feeds"

lemma held_back_run:
  assumes "run_ok E r" and "rn_walk r = Some w"
  shows "rn_held_back (run_all E N (feed_events feeds) r) = rn_held_back r @ feeds \<and>
    rn_walk (run_all E N (feed_events feeds) r) = Some w \<and>
    ts_log (sy_state (rn_sys (run_all E N (feed_events feeds) r))) = ts_log (sy_state (rn_sys r)) \<and>
    cursor_of (rn_sys (run_all E N (feed_events feeds) r)) = cursor_of (rn_sys r)"
  using assms
proof (induction feeds arbitrary: r)
  case Nil
  then show ?case by (simp add: run_all_def)
next
  case (Cons f feeds)
  let ?r = "run_event E N r (R_Input (I_Feed f))"
  obtain X where ok: "sys_ok E X (rn_sys r)" using Cons.prems(1) by (auto simp: run_ok_def good_def)
  have one: "rn_held_back ?r = rn_held_back r @ [f]" "rn_walk ?r = Some w"
    "ts_log (sy_state (rn_sys ?r)) = ts_log (sy_state (rn_sys r))" "cursor_of (rn_sys ?r) = cursor_of (rn_sys r)"
    using Cons.prems(2) fold_ahead_keeps [OF ok] by (cases f; simp add: run_event_def run_step_def)+
  have "run_all E N (feed_events (f # feeds)) r = run_all E N (feed_events feeds) ?r" by (simp add: run_all_def)
  then show ?case using Cons.IH [OF run_event_ok [OF Cons.prems(1)] one(2)] one by simp
qed

text \<open>
  A walk holds the feed back and loses nothing of it. Whatever arrives while a walk runs
  changes neither the records nor the cursor; the step that ends the walk leaves the records
  that folding those feeds, in the order they came, leaves after the walk's own last page.
\<close>

theorem walk_holds_feeds_back:
  assumes "env_ok E" and "reached E N d evs r" and "rn_walk r = Some w"
    and "r1 = run_all E N (feed_events feeds) r"
  shows "ts_log (sy_state (rn_sys r1)) = ts_log (sy_state (rn_sys r)) \<and> cursor_of (rn_sys r1) = cursor_of (rn_sys r) \<and>
    (\<forall>s. walk_step E N w (rn_sys r1) = (W_Done, s) \<longrightarrow>
       ts_log (sy_state (rn_sys (run_step E N I_Walk r1))) =
         ts_log (sy_state (foldl (fold_feed E N) s (rn_held_back r @ feeds))) \<and>
       rn_held_back (run_step E N I_Walk r1) = [])"
proof -
  note h = held_back_run [OF reached_ok [OF assms(1,2)] assms(3), of N feeds, folded assms(4)]
  have fields: "ts_log (sy_state (rn_sys (walk_done E N q))) =
      ts_log (sy_state (foldl (fold_feed E N) (rn_sys q) (rn_held_back q)))" "rn_held_back (walk_done E N q) = []" for q
    by (simp_all add: walk_done_def Let_def walking_drop_def walking_begin_def begin_walk_def now_instant_def)
  show ?thesis using h by (simp add: run_step_def fields)
qed

lemma walk_holds_feeds_back_witness:
  "rn_held_back (run_all demo_env demo_node (feed_events [F_Vcc demo_batch, F_Walk walk_demo])
      (run_start demo_node demo_tracker)) = [F_Vcc demo_batch, F_Walk walk_demo] \<and>
   ts_log (sy_state (rn_sys (run_all demo_env demo_node (feed_events [F_Vcc demo_batch, F_Walk walk_demo])
      (run_start demo_node demo_tracker)))) = ts_log (sy_state (rn_sys (run_start demo_node demo_tracker)))"
proof -
  have w: "rn_walk (run_start demo_node demo_tracker) = Some W_Start"
    "rn_held_back (run_start demo_node demo_tracker) = []"
    by (simp_all add: run_start_def Let_def now_instant_def demo_node_def split: option.splits)
  show ?thesis
    using walk_holds_feeds_back [OF demo_env_ok start_reached w(1) refl]
      held_back_run [OF reached_ok [OF demo_env_ok start_reached] w(1), of demo_node "[F_Vcc demo_batch, F_Walk walk_demo]"]
      w(2) by simp
qed

section \<open>How long a removal is remembered\<close>

text \<open>
  A block the stream removed bars the walk for the next 4095 removals at least, as long as
  the stream does not add it back.
\<close>

theorem removed_blocks_barred:
  assumes "env_ok E" and "reached E N d evs r" and "\<not> oc_contains (ts_off (sy_state (rn_sys r))) b"
    and "length bs < off_chain_capacity"
    and "on_removed E (b # bs) now (sy_state (rn_sys r)) (sy_disk (rn_sys r)) = (st', d', f)"
  shows "oc_contains (ts_off st') b"
proof -
  have ok: "st_ok E (unindexed (sy_state (rn_sys r))) (sy_state (rn_sys r)) (sy_disk (rn_sys r))"
    using reached_sys [OF assms(1,2)] by (simp add: sys_ok_def)
  let ?off = "ts_off (sy_state (rn_sys r))"
  have off: "oc_ok ?off" using ok by (simp add: st_ok_def)
  have same: "oc_contains oc x \<longleftrightarrow> x \<in> set (oc_order oc)" if "oc_ok oc" for oc x
    using that by (auto simp: oc_ok_def oc_contains_def)
  have "b \<in> set (oc_order (fold oc_removed bs (oc_removed b ?off)))"
    by (rule oc.survives [OF off _ assms(4)]) (use assms(3) same [OF off] in simp)
  moreover have "ts_off st' = fold oc_removed bs (oc_removed b ?off)"
    using oc_remove_fold [OF ok assms(5) [unfolded on_removed_def]] by simp
  moreover have "oc_ok (fold oc_removed bs (oc_removed b ?off))"
    using oc.good_fold [OF oc_ok_removed [OF off]] .
  ultimately show ?thesis using same by simp
qed

lemma removed_blocks_barred_witness:
  "oc_contains (ts_off (fst (on_removed demo_env [''Z'', ''Y''] 8 (sy_state (rn_sys live_state))
      (sy_disk (rn_sys live_state))))) ''Z''"
proof -
  obtain st' d' f where r: "on_removed demo_env [''Z'', ''Y''] 8 (sy_state (rn_sys live_state)) (sy_disk (rn_sys live_state)) =
    (st', d', f)" by (metis prod_cases3)
  have "\<not> oc_contains (ts_off (sy_state (rn_sys live_state))) ''Z''" by code_simp
  moreover have "length [''Y''] < off_chain_capacity" by (simp add: off_chain_capacity_def)
  ultimately show ?thesis using removed_blocks_barred [OF demo_env_ok live_reached _ _ r] r by simp
qed

section \<open>Naming a sender\<close>

lemma catch_up_page_disk: "catch_up_page n N cursor s = (s', r) \<Longrightarrow> sy_disk s' = sy_disk s"
  by (induction n N cursor s rule: catch_up_page.induct) (auto split: option.splits)

text \<open>
  A sender is located only by the block that accepted the message: the score answered is
  that of a block of the node's page whose list names the transaction.
\<close>

theorem locate_names_acceptor:
  assumes "sys_ok E X s" and "locate_accepting_daa_score N txid carrying s = (s', Some daa)"
  shows "\<exists>target k page block ids j facts. nd_parse_hash N txid = Some target \<and> nd_page N k carrying = Some page \<and>
    (block, ids) \<in> set (vb_accepted page) \<and> target \<in> set ids \<and> nd_block N j block = Some facts \<and> daa = bf_daa facts \<and>
    sy_state s' = sy_state s \<and> sy_disk s' = sy_disk s"
proof -
  obtain target where t: "nd_parse_hash N txid = Some target"
    using assms(2) by (cases "nd_parse_hash N txid") (simp_all add: locate_accepting_daa_score_def)
  obtain s1 resp where p: "catch_up_page vcc_page_attempts N carrying s = (s1, resp)" by fastforce
  obtain page where page: "resp = Some page"
    using assms(2) t p by (cases resp) (simp_all add: locate_accepting_daa_score_def)
  obtain block where b: "accepting_block_of (vb_accepted page) target = Some block"
    using assms(2) t p page
    by (cases "accepting_block_of (vb_accepted page) target") (simp_all add: locate_accepting_daa_score_def)
  have out: "s' = called s1" "map_option bf_daa (nd_block N (sy_calls s1) block) = Some daa"
    using assms(2) t p page b by (simp_all add: locate_accepting_daa_score_def)
  obtain ids where "(block, ids) \<in> set (vb_accepted page)" "target \<in> set ids"
    using b by (auto simp: accepting_block_of_def find_Some_iff) (metis nth_mem)
  moreover obtain facts where "nd_block N (sy_calls s1) block = Some facts" "daa = bf_daa facts" using out(2) by auto
  moreover have "\<exists>k. nd_page N k carrying = Some page" "sy_state s1 = sy_state s"
    using catch_up_page_step [OF assms(1) p] unfolding page by (metis option.distinct(1), blast)
  moreover have "sy_disk s1 = sy_disk s"
    by (rule catch_up_page_disk [OF p])
  ultimately show ?thesis using t unfolding out(1) called_fields by blast
qed

lemma locate_runs: "snd (locate_accepting_daa_score demo_node ''t'' ''S'' (rn_sys live_state)) = Some 6"
  by code_simp

lemma locate_names_acceptor_witness:
  "\<exists>page block ids. nd_page demo_node 0 ''S'' = Some page \<and> (block, ids) \<in> set (vb_accepted page) \<and> ''t'' \<in> set ids"
proof -
  obtain s' x where l: "locate_accepting_daa_score demo_node ''t'' ''S'' (rn_sys live_state) = (s', x)" by fastforce
  then have x: "x = Some 6" using locate_runs by simp
  from locate_names_acceptor [OF reached_sys [OF demo_env_ok live_reached] l [unfolded x]]
  show ?thesis by (auto simp: demo_node_def)
qed

end
