(* ===== verification/Base64.thy ===== *)
theory Base64
  imports Prelude
begin

text \<open>
  The base64 of the message bodies (\<open>rust/chain/src/transport.rs\<close>: \<open>encode_base64\<close>,
  \<open>is_base64_char\<close>, \<open>decode_base64\<close>), over the 32-bit accumulators the code uses, and the
  proof that decoding undoes encoding.
\<close>

text \<open>\<open>slice::chunks\<close> of a positive size.\<close>

function chunks :: "nat \<Rightarrow> 'a list \<Rightarrow> 'a list list" where
  "chunks n xs = (if n = 0 \<or> xs = [] then [] else take n xs # chunks n (drop n xs))"
  by pat_completeness auto
termination
  by (relation "measure (\<lambda>(n, xs). length xs)") auto

declare chunks.simps [simp del]

lemma chunks_Nil [simp]: "chunks n [] = []"
  by (simp add: chunks.simps)

lemma chunks_first: "xs \<noteq> [] \<Longrightarrow> 0 < n \<Longrightarrow> chunks n xs = take n xs # chunks n (drop n xs)"
  by (subst chunks.simps) simp

lemma chunks_append: "length xs = n \<Longrightarrow> 0 < n \<Longrightarrow> chunks n (xs @ ys) = xs # chunks n ys"
  by (subst chunks_first) auto

section \<open>Encoding\<close>

definition base64_alphabet :: string where
  "base64_alphabet = ''ABCDEFGHIJKLMNOPQRSTUVWXYZabcdefghijklmnopqrstuvwxyz0123456789+/''"

definition encode_chunk :: "bytes \<Rightarrow> string" where
  "encode_chunk chunk =
     (let acc = foldl (\<lambda>acc (i, b). acc OR push_bit (16 - 8 * i) (ucast b)) (0 :: u32) (zip [0..<length chunk] chunk)
      in map (\<lambda>i. if i \<le> length chunk
                  then base64_alphabet ! unat (drop_bit (18 - 6 * i) acc AND 0x3F)
                  else CHR ''='') [0..<4])"

definition encode_base64 :: "bytes \<Rightarrow> string" where
  "encode_base64 bs = concat (map encode_chunk (chunks 3 bs))"

section \<open>Decoding\<close>

definition is_base64_char :: "byte \<Rightarrow> bool" where
  "is_base64_char b \<longleftrightarrow>
     (0x41 \<le> b \<and> b \<le> 0x5A \<or> 0x61 \<le> b \<and> b \<le> 0x7A \<or> 0x30 \<le> b \<and> b \<le> 0x39) \<or>
     b = 0x2B \<or> b = 0x2F \<or> b = 0x3D"

definition base64_value :: "byte \<Rightarrow> u32 option" where
  "base64_value b =
     (if 0x41 \<le> b \<and> b \<le> 0x5A then Some (ucast (b - 0x41))
      else if 0x61 \<le> b \<and> b \<le> 0x7A then Some (ucast (b - 0x61 + 26))
      else if 0x30 \<le> b \<and> b \<le> 0x39 then Some (ucast (b - 0x30 + 52))
      else if b = 0x2B then Some 62
      else if b = 0x2F then Some 63
      else None)"

fun base64_acc :: "u32 \<Rightarrow> bytes \<Rightarrow> u32 option" where
  "base64_acc acc [] = Some acc"
| "base64_acc acc (b # bs) = (case base64_value b of
     None \<Rightarrow> None
   | Some v \<Rightarrow> base64_acc (push_bit 6 acc OR v) bs)"

definition be_bytes :: "u32 \<Rightarrow> bytes" where
  "be_bytes w = [ucast (drop_bit 24 w), ucast (drop_bit 16 w), ucast (drop_bit 8 w), ucast w]"

text \<open>One round of the loop; \<open>final\<close> says that the chunk is the last.\<close>

definition decode_chunk :: "bool \<Rightarrow> bytes \<Rightarrow> bytes option" where
  "decode_chunk final chunk =
     (if length chunk \<noteq> 4 then None
      else let pad = length (filter (\<lambda>b. b = 0x3D) chunk) in
        if 2 < pad \<or> 0 < pad \<and> \<not> final \<or> 0x3D \<in> set (take (4 - pad) chunk) then None
        else (case base64_acc 0 (take (4 - pad) chunk) of
          None \<Rightarrow> None
        | Some acc \<Rightarrow> Some (drop 1 (take (4 - pad) (be_bytes (push_bit (6 * pad) acc))))))"

fun decode_chunks :: "bytes list \<Rightarrow> bytes option" where
  "decode_chunks [] = Some []"
| "decode_chunks (c # cs) = (case decode_chunk (cs = []) c of
     None \<Rightarrow> None
   | Some out \<Rightarrow> (case decode_chunks cs of None \<Rightarrow> None | Some more_out \<Rightarrow> Some (out @ more_out)))"

definition decode_base64 :: "bytes \<Rightarrow> bytes option" where
  "decode_base64 text_bytes = decode_chunks (chunks 4 text_bytes)"

section \<open>Symbols\<close>

lemma alphabet_listed:
  "list_all (\<lambda>(n, ch). base64_value (byte_of_char ch) = Some (of_nat n) \<and>
     is_base64_char (byte_of_char ch) \<and> byte_of_char ch \<noteq> 0x3D) (enumerate 0 base64_alphabet)"
  by (simp add: base64_alphabet_def of_char_word base64_value_def is_base64_char_def)

lemma alphabet_value:
  assumes "n < 64"
  shows "base64_value (byte_of_char (base64_alphabet ! n)) = Some (of_nat n)"
    and "is_base64_char (byte_of_char (base64_alphabet ! n))"
    and "byte_of_char (base64_alphabet ! n) \<noteq> 0x3D"
proof -
  have "length base64_alphabet = 64" by (simp add: base64_alphabet_def)
  then have "(n, base64_alphabet ! n) \<in> set (enumerate 0 base64_alphabet)"
    using assms by (simp add: in_set_enumerate_eq)
  then show "base64_value (byte_of_char (base64_alphabet ! n)) = Some (of_nat n)"
    and "is_base64_char (byte_of_char (base64_alphabet ! n))"
    and "byte_of_char (base64_alphabet ! n) \<noteq> 0x3D"
    using alphabet_listed by (auto simp: list_all_iff)
qed

lemma pad_byte [simp]: "byte_of_char (CHR ''='') = 0x3D"
  by (simp add: of_char_word)

definition sextet :: "u32 \<Rightarrow> nat \<Rightarrow> u32" where
  "sextet w k = drop_bit k w AND 0x3F"

lemma sextet_mask: "sextet w k = take_bit 6 (drop_bit k w)"
  by (simp add: sextet_def take_bit_eq_mask mask_numeral)

lemma bit_sextet [simp]: "bit (sextet w k) n \<longleftrightarrow> n < 6 \<and> bit w (k + n)"
  by (auto simp: sextet_mask bit_simps)

lemma sextet_less: "unat (sextet w k) < 64"
proof -
  have "unat (sextet w k) = take_bit 6 (unat (drop_bit k w))"
    by (simp add: sextet_mask unsigned_take_bit_eq)
  also have "\<dots> < 64" using take_bit_nat_less_exp [of 6] by simp
  finally show ?thesis .
qed

definition symbol :: "u32 \<Rightarrow> nat \<Rightarrow> byte" where
  "symbol w k = byte_of_char (base64_alphabet ! unat (sextet w k))"

lemma symbol_value [simp]:
  "base64_value (symbol w k) = Some (sextet w k)"
  "is_base64_char (symbol w k)"
  "symbol w k \<noteq> 0x3D"
  using alphabet_value [OF sextet_less [of w k]] by (simp_all add: symbol_def)

section \<open>One chunk there and back\<close>

lemma upto_4: "[0..<4] = [0, 1, 2, 3 :: nat]"
  by (simp add: upt_rec)

lemma encode_chunk_three:
  "ascii (encode_chunk [a, b, c]) =
     (let w = push_bit 16 (ucast a) OR push_bit 8 (ucast b) OR ucast c
      in [symbol w 18, symbol w 12, symbol w 6, symbol w 0])"
  by (simp add: encode_chunk_def upto_4 ascii_def symbol_def sextet_def Let_def upt_rec or.assoc)

lemma encode_chunk_two:
  "ascii (encode_chunk [a, b]) =
     (let w = push_bit 16 (ucast a) OR push_bit 8 (ucast b)
      in [symbol w 18, symbol w 12, symbol w 6, 0x3D])"
  by (simp add: encode_chunk_def upto_4 ascii_def symbol_def sextet_def Let_def upt_rec)

lemma encode_chunk_one:
  "ascii (encode_chunk [a]) =
     (let w = push_bit 16 (ucast a) in [symbol w 18, symbol w 12, 0x3D, 0x3D])"
  by (simp add: encode_chunk_def upto_4 ascii_def symbol_def sextet_def Let_def upt_rec)

lemma byte_bit: "bit (b :: byte) n \<Longrightarrow> n < 8"
  by (auto dest: bit_imp_le_length)

lemma sextets_gathered:
  "push_bit 6 (push_bit 6 (push_bit 6 (sextet w 18) OR sextet w 12) OR sextet w 6) OR sextet w 0 = take_bit 24 w"
proof (rule bit_word_eqI)
  fix n assume "n < LENGTH(32)"
  consider "n < 6" | "6 \<le> n" "n < 12" | "12 \<le> n" "n < 18" | "18 \<le> n" by linarith
  then show "bit (push_bit 6 (push_bit 6 (push_bit 6 (sextet w 18) OR sextet w 12) OR sextet w 6) OR sextet w 0) n
      \<longleftrightarrow> bit (take_bit 24 w) n"
    using \<open>n < LENGTH(32)\<close> by cases (auto simp: bit_simps)
qed

lemma decode_symbols:
  "decode_chunk final [symbol w 18, symbol w 12, symbol w 6, symbol w 0] =
     Some (drop 1 (be_bytes (take_bit 24 w)))"
  using sextets_gathered [of w] by (simp add: decode_chunk_def be_bytes_def)

lemma decode_symbols_one_pad:
  assumes "sextet w 0 = 0"
  shows "decode_chunk True [symbol w 18, symbol w 12, symbol w 6, 0x3D] =
     Some (take 2 (drop 1 (be_bytes (take_bit 24 w))))"
  using sextets_gathered [of w] assms
  by (simp add: decode_chunk_def be_bytes_def)

lemma decode_symbols_two_pad:
  assumes "sextet w 0 = 0" and "sextet w 6 = 0"
  shows "decode_chunk True [symbol w 18, symbol w 12, 0x3D, 0x3D] =
     Some (take 1 (drop 1 (be_bytes (take_bit 24 w))))"
  using sextets_gathered [of w] assms
  by (simp add: decode_chunk_def be_bytes_def push_bit_push_bit)

lemma bytes_of_three:
  "drop 1 (be_bytes (take_bit 24 (push_bit 16 (ucast a) OR push_bit 8 (ucast b) OR ucast c))) = [a, b, c]"
  by (simp add: be_bytes_def, intro conjI; rule bit_word_eqI; auto simp: bit_simps dest: byte_bit)

text \<open>A chunk of one or two bytes is padded, and only the last is short.\<close>

lemma decode_encode_chunk:
  assumes "0 < length c" and "length c \<le> 3" and "length c < 3 \<longrightarrow> final"
  shows "decode_chunk final (ascii (encode_chunk c)) = Some c"
proof -
  consider (three) x y z where "c = [x, y, z]" | (two) x y where "c = [x, y]" "final" | (one) x where "c = [x]" "final"
    using assms by (cases c; cases "tl c"; cases "tl (tl c)") auto
  then show ?thesis
  proof cases
    case three
    then show ?thesis by (simp only: encode_chunk_three Let_def decode_symbols bytes_of_three)
  next
    case two
    let ?w = "push_bit 16 (ucast x) OR push_bit 8 (ucast y) OR ucast (0 :: byte) :: u32"
    have "sextet ?w 0 = 0" by (rule bit_word_eqI) (auto simp: bit_simps)
    from decode_symbols_one_pad [OF this] show ?thesis
      unfolding bytes_of_three using two by (simp add: encode_chunk_two Let_def)
  next
    case one
    let ?w = "push_bit 16 (ucast x) OR push_bit 8 (ucast (0 :: byte)) OR ucast (0 :: byte) :: u32"
    have "sextet ?w 0 = 0" "sextet ?w 6 = 0" by (rule bit_word_eqI; auto simp: bit_simps)+
    from decode_symbols_two_pad [OF this] show ?thesis
      unfolding bytes_of_three using one by (simp add: encode_chunk_one Let_def)
  qed
qed

lemma length_encode_chunk [simp]: "length (encode_chunk c) = 4"
  by (simp add: encode_chunk_def Let_def)

section \<open>The whole body\<close>

lemma chunks_encoded: "chunks 4 (ascii (concat (map encode_chunk cs))) = map (\<lambda>c. ascii (encode_chunk c)) cs"
  by (induction cs) (simp_all add: chunks_append ascii_def [of "[]"])

lemma chunks_3_step:
  "chunks 3 xs = (if xs = [] then [] else take 3 xs # chunks 3 (drop 3 xs))"
  by (subst chunks.simps) simp

lemma decode_encode_chunks: "decode_chunks (map (\<lambda>c. ascii (encode_chunk c)) (chunks 3 bs)) = Some bs"
proof (induction "length bs" arbitrary: bs rule: less_induct)
  case less
  show ?case
  proof (cases "bs = []")
    case False
    then have chunk: "chunks 3 bs = take 3 bs # chunks 3 (drop 3 bs)" by (subst chunks_3_step) simp
    have rest: "decode_chunks (map (\<lambda>c. ascii (encode_chunk c)) (chunks 3 (drop 3 bs))) = Some (drop 3 bs)"
      using False by (intro less) auto
    have last: "length (take 3 bs) < 3 \<longrightarrow> chunks 3 (drop 3 bs) = []" by simp
    have "decode_chunk (chunks 3 (drop 3 bs) = []) (ascii (encode_chunk (take 3 bs))) = Some (take 3 bs)"
      using False last by (intro decode_encode_chunk) auto
    then show ?thesis using chunk rest by (simp del: take.simps drop.simps)
  qed simp
qed

lemma decode_encode_base64: "decode_base64 (ascii (encode_base64 bs)) = Some bs"
  by (simp add: decode_base64_def encode_base64_def chunks_encoded decode_encode_chunks)

lemma length_encode_base64: "length (encode_base64 bs) = 4 * ((length bs + 2) div 3)"
proof (induction "length bs" arbitrary: bs rule: less_induct)
  case less
  show ?case
  proof (cases "bs = []")
    case False
    have "length (encode_base64 (drop 3 bs)) = 4 * ((length (drop 3 bs) + 2) div 3)"
      using False by (intro less) auto
    moreover have "encode_base64 bs = encode_chunk (take 3 bs) @ encode_base64 (drop 3 bs)"
      using False by (simp add: encode_base64_def chunks_first)
    ultimately have "length (encode_base64 bs) = 4 + 4 * ((length bs - 3 + 2) div 3)" by simp
    moreover have "0 < length bs" using False by simp
    then have "(length bs + 2) div 3 = Suc ((length bs - 3 + 2) div 3)" by presburger
    ultimately show ?thesis by simp
  qed (simp add: encode_base64_def)
qed

lemma encode_chunk_chars:
  assumes "0 < length c" and "length c \<le> 3"
  shows "list_all is_base64_char (ascii (encode_chunk c))"
proof -
  have pad: "is_base64_char 0x3D" by (simp add: is_base64_char_def)
  consider (three) x y z where "c = [x, y, z]" | (two) x y where "c = [x, y]" | (one) x where "c = [x]"
    using assms by (cases c; cases "tl c"; cases "tl (tl c)") auto
  then show ?thesis
    by cases (simp_all add: encode_chunk_three encode_chunk_two encode_chunk_one Let_def pad)
qed

lemma encode_base64_chars: "list_all is_base64_char (ascii (encode_base64 bs))"
proof (induction "length bs" arbitrary: bs rule: less_induct)
  case less
  show ?case
  proof (cases "bs = []")
    case False
    have "list_all is_base64_char (ascii (encode_base64 (drop 3 bs)))"
      using False by (intro less) auto
    moreover have "encode_base64 bs = encode_chunk (take 3 bs) @ encode_base64 (drop 3 bs)"
      using False by (simp add: encode_base64_def chunks_first)
    ultimately show ?thesis using False encode_chunk_chars [of "take 3 bs"] by simp
  qed (simp add: encode_base64_def ascii_def)
qed

end
