(* ===== verification/Chain_Error.thy ===== *)
theory Chain_Error
  imports Prelude
begin

text \<open>
  The chain crate's error (\<open>rust/chain/src/error.rs\<close>). An error of a library below is the
  text it prints.
\<close>

datatype chain_error =
    Rpc string
  | Wallet string
  | Io string
  | InsufficientFunds nat
  | StorageMassExceeded nat
  | TransactionTooHeavy
  | CovenantBoundInput string
  | PaymentStillSettling
  | EarlierPaymentWentThrough
  | Message string

definition em_dash :: string where
  "em_dash = [CHR 0xE2, CHR 0x80, CHR 0x94]"

fun show_error :: "chain_error \<Rightarrow> string" where
  "show_error (Rpc e) = e"
| "show_error (Wallet e) = e"
| "show_error (Io e) = e"
| "show_error (InsufficientFunds needed) =
     ''insufficient funds '' @ em_dash @ '' '' @ decimal needed @ '' sompi short''"
| "show_error (StorageMassExceeded mass) =
     ''storage mass '' @ decimal mass @ '' exceeds the per-tx maximum''"
| "show_error TransactionTooHeavy =
     ''transaction exceeds the per-tx mass ceiling (payload too large)''"
| "show_error (CovenantBoundInput outpoint) =
     ''coin '' @ outpoint @ '' is locked in a contract and moves only through ''
       @ ''the contract's own paths '' @ em_dash @ '' nothing was sent''"
| "show_error PaymentStillSettling =
     ''Your earlier payment to this address may still go through. Try again in a few seconds.''"
| "show_error EarlierPaymentWentThrough = ''Your earlier payment to this address went through.''"
| "show_error (Message m) = m"

end
