(* ===== verification/Wire.thy ===== *)
theory Wire
  imports Utf8 Base64 Chain_Error
begin

text \<open>
  The message wire (\<open>rust/chain/src/transport.rs\<close>): the grammar of a payload, the scans that
  read it off a block's transactions or off an accepted one, and the composers. The
  transactions are records of the fields the code reads of the node's types; the script decoder
  and the transaction hasher of the pinned crates are parameters.
\<close>

section \<open>The grammar\<close>

definition ciph_msg_prefix :: bytes where
  "ciph_msg_prefix = ascii ''ciph_msg:''"

definition kchat_prefix :: bytes where
  "kchat_prefix = ascii ''kchat:''"

datatype wire_namespace = CiphMsg | KChat

definition all_namespaces :: "wire_namespace list" where
  "all_namespaces = [CiphMsg, KChat]"

fun namespace_prefix :: "wire_namespace \<Rightarrow> bytes" where
  "namespace_prefix CiphMsg = ciph_msg_prefix"
| "namespace_prefix KChat = kchat_prefix"

fun namespace_token :: "wire_namespace \<Rightarrow> string" where
  "namespace_token CiphMsg = ''ciph_msg''"
| "namespace_token KChat = ''kchat''"

definition wire_v1 :: bytes where
  "wire_v1 = ascii ''1:''"

definition kind_token_cap :: nat where
  "kind_token_cap = 16"

definition kind_legacy :: string where
  "kind_legacy = ''legacy''"

definition kind_unknown :: string where
  "kind_unknown = ''unknown''"

text \<open>\<open>Iterator::find_map\<close> and \<open>Iterator::position\<close>.\<close>

fun find_map :: "('a \<Rightarrow> 'b option) \<Rightarrow> 'a list \<Rightarrow> 'b option" where
  "find_map f [] = None"
| "find_map f (x # xs) = (case f x of Some y \<Rightarrow> Some y | None \<Rightarrow> find_map f xs)"

fun position :: "('a \<Rightarrow> bool) \<Rightarrow> 'a list \<Rightarrow> nat option" where
  "position p [] = None"
| "position p (x # xs) = (if p x then Some 0 else map_option Suc (position p xs))"

definition colon :: byte where
  "colon = byte_of_char (CHR '':'')"

definition parse_payload_in :: "bytes \<Rightarrow> (wire_namespace \<times> string \<times> bytes) option" where
  "parse_payload_in payload =
     (case find_map (\<lambda>ns. map_option (Pair ns) (strip_prefix (namespace_prefix ns) payload)) all_namespaces of
        None \<Rightarrow> None
      | Some (namespace, rest) \<Rightarrow>
          (case strip_prefix wire_v1 rest of
             None \<Rightarrow> Some (case namespace of
                 CiphMsg \<Rightarrow> (namespace, kind_legacy, rest)
               | KChat \<Rightarrow> (namespace, kind_unknown, rest))
           | Some v1 \<Rightarrow>
               let cap = min (length v1) kind_token_cap in
               (case position (\<lambda>b. b = colon) (take cap v1) of
                  Some pos \<Rightarrow> Some (namespace, from_utf8_lossy (take pos v1), drop (pos + 1) v1)
                | None \<Rightarrow> Some (namespace, kind_unknown, v1))))"

definition parse_payload :: "bytes \<Rightarrow> (string \<times> bytes) option" where
  "parse_payload payload = map_option snd (parse_payload_in payload)"

section \<open>The scans\<close>

text \<open>A payload-bearing transaction the scan matched.\<close>

record transport_event =
  te_txid :: "string option"
  te_kind :: string
  te_namespace :: wire_namespace
  te_body :: bytes
  te_addresses :: "string list"
  te_block_time_ms :: "nat option"
  te_block_hash :: "string option"
  te_sender :: "string option"

text \<open>
  What the code reads of \<open>RpcTransaction\<close>, \<open>RpcBlock\<close> and \<open>RpcOptionalTransaction\<close>. The
  recomputed id and the script's address are answers of the pinned crates.
\<close>

record 's rpc_transaction =
  rt_payload :: bytes
  rt_outputs :: "'s list"
  rt_verbose_id :: "string option"
  rt_computed_id :: "string option"

record 's rpc_block =
  rb_transactions :: "'s rpc_transaction list"
  rb_timestamp :: nat
  rb_hash :: string

record verbose_data =
  vd_transaction_id :: "string option"
  vd_block_time :: "nat option"
  vd_block_hash :: "string option"

text \<open>An input's verbose data, the entry in it and the script in that may each be withheld.\<close>

record 's rpc_optional_transaction =
  ot_payload :: "bytes option"
  ot_inputs :: "'s option option option list"
  ot_outputs :: "'s option list"
  ot_verbose :: "verbose_data option"

type_synonym 's script_address = "'s \<Rightarrow> string option"

definition addresses_of :: "'s script_address \<Rightarrow> 's list \<Rightarrow> string list" where
  "addresses_of address_of scripts =
     foldl (\<lambda>seen script. case address_of script of
         Some address \<Rightarrow> if address \<in> set seen then seen else seen @ [address]
       | None \<Rightarrow> seen) [] scripts"

definition output_addresses :: "'s script_address \<Rightarrow> 's rpc_transaction \<Rightarrow> string list" where
  "output_addresses address_of tx = addresses_of address_of (rt_outputs tx)"

definition resolve_txid :: "'s rpc_transaction \<Rightarrow> string option" where
  "resolve_txid tx = (case rt_verbose_id tx of Some v \<Rightarrow> Some v | None \<Rightarrow> rt_computed_id tx)"

definition scan_transaction ::
    "'s script_address \<Rightarrow> nat option \<Rightarrow> string option \<Rightarrow> 's rpc_transaction \<Rightarrow> transport_event option" where
  "scan_transaction address_of block_time_ms block_hash tx =
     (case parse_payload_in (rt_payload tx) of
        None \<Rightarrow> None
      | Some (namespace, kind, body) \<Rightarrow> Some
          \<lparr>te_txid = resolve_txid tx, te_kind = kind, te_namespace = namespace, te_body = body,
           te_addresses = output_addresses address_of tx,
           te_block_time_ms = block_time_ms, te_block_hash = block_hash, te_sender = None\<rparr>)"

definition scan_block :: "'s script_address \<Rightarrow> 's rpc_block \<Rightarrow> transport_event list" where
  "scan_block address_of block =
     List.map_filter (scan_transaction address_of (Some (rb_timestamp block)) (Some (rb_hash block)))
       (rb_transactions block)"

definition input_zero_sender :: "'s script_address \<Rightarrow> 's rpc_optional_transaction \<Rightarrow> string option" where
  "input_zero_sender address_of tx =
     (case ot_inputs tx of
        Some (Some (Some script)) # _ \<Rightarrow> address_of script
      | _ \<Rightarrow> None)"

definition scan_accepted :: "'s script_address \<Rightarrow> 's rpc_optional_transaction \<Rightarrow> transport_event option" where
  "scan_accepted address_of tx =
     (case ot_payload tx of
        None \<Rightarrow> None
      | Some payload \<Rightarrow>
          (case parse_payload_in payload of
             None \<Rightarrow> None
           | Some (namespace, kind, body) \<Rightarrow>
               let verbose = ot_verbose tx in
               Some \<lparr>te_txid = Option.bind verbose vd_transaction_id, te_kind = kind,
                 te_namespace = namespace, te_body = body,
                 te_addresses = addresses_of address_of (List.map_filter id (ot_outputs tx)),
                 te_block_time_ms = Option.bind verbose vd_block_time,
                 te_block_hash = Option.bind verbose vd_block_hash,
                 te_sender = input_zero_sender address_of tx\<rparr>))"

section \<open>The composers\<close>

definition handshake_bond_sompi :: nat where
  "handshake_bond_sompi = 20000000"

definition min_sealed_len :: nat where
  "min_sealed_len = 61"

definition is_sealed_envelope :: "bytes \<Rightarrow> bool" where
  "is_sealed_envelope bs \<longleftrightarrow> min_sealed_len \<le> length bs \<and> (bs ! 12 = 0x02 \<or> bs ! 12 = 0x03)"

definition compose_handshake_wire :: "bytes \<Rightarrow> chain_error + bytes" where
  "compose_handshake_wire sealed =
     (if \<not> is_sealed_envelope sealed then Inl (Message ''handshake body must be a sealed envelope'')
      else Inr (ciph_msg_prefix @ wire_v1 @ ascii ''handshake:'' @ sealed))"

definition stash_scope :: string where
  "stash_scope = ''saved_handshake''"

definition compose_self_stash_wire :: "bytes \<Rightarrow> chain_error + bytes" where
  "compose_self_stash_wire sealed =
     (if \<not> is_sealed_envelope sealed then Inl (Message ''self-stash body must be a sealed envelope'')
      else Inr (ciph_msg_prefix @ wire_v1 @ ascii ''self_stash:'' @ ascii stash_scope @ [colon] @ sealed))"

definition strip_stash_scope :: "bytes \<Rightarrow> bytes option" where
  "strip_stash_scope body = strip_prefix (ascii stash_scope @ [colon]) body"

definition compose_comm_wire_in :: "wire_namespace \<Rightarrow> string \<Rightarrow> bytes \<Rightarrow> chain_error + bytes" where
  "compose_comm_wire_in namespace alias sealed =
     (if alias = [] \<or> colon \<in> set (ascii alias)
      then Inl (Message (''conversation alias must be non-empty without ':'' @ [CHR 0x27]))
      else if \<not> is_sealed_envelope sealed then Inl (Message ''comm body must be a sealed envelope'')
      else Inr (namespace_prefix namespace @ wire_v1 @ ascii ''comm:'' @ ascii alias @ [colon]
        @ ascii (encode_base64 sealed)))"

definition compose_comm_wire :: "string \<Rightarrow> bytes \<Rightarrow> chain_error + bytes" where
  "compose_comm_wire alias sealed = compose_comm_wire_in CiphMsg alias sealed"

definition split_comm_body :: "bytes \<Rightarrow> (string \<times> bytes) option" where
  "split_comm_body body =
     (case position (\<lambda>b. b = colon) body of
        None \<Rightarrow> None
      | Some delimiter \<Rightarrow>
          (case from_utf8 (take delimiter body) of
             None \<Rightarrow> None
           | Some alias \<Rightarrow> if alias = [] then None else Some (alias, drop (delimiter + 1) body)))"

definition decode_envelope_body :: "bytes \<Rightarrow> bytes" where
  "decode_envelope_body body =
     (if body \<noteq> [] \<and> length body mod 4 = 0 \<and> list_all is_base64_char body
      then (case decode_base64 body of Some decoded \<Rightarrow> decoded | None \<Rightarrow> body)
      else body)"

definition compose_bcast :: "string \<Rightarrow> string \<Rightarrow> chain_error + bytes" where
  "compose_bcast channel msg =
     (if channel = [] then Inl (Message ''broadcast channel must not be empty'')
      else if colon \<in> set (ascii channel)
      then Inl (Message ''broadcast channel must not contain ':' (it delimits the wire fields)'')
      else Inr (ciph_msg_prefix @ wire_v1 @ ascii ''bcast:'' @ ascii channel @ [colon] @ ascii msg))"

text \<open>
  \<open>resolve_return_address\<close>: the sender is what the node answers for the parsed id at the
  accepting block's score. The hash parser and the node are parameters; the node's refusal is
  the text it prints.
\<close>

definition resolve_return_address ::
    "(string \<Rightarrow> 'h option) \<Rightarrow> ('h \<Rightarrow> nat \<Rightarrow> string + string) \<Rightarrow> string \<Rightarrow> nat \<Rightarrow> chain_error + string" where
  "resolve_return_address parse_hash utxo_return_address txid accepting_daa_score =
     (case parse_hash txid of
        None \<Rightarrow> Inl (Message ''malformed txid'')
      | Some h \<Rightarrow>
          (case utxo_return_address h accepting_daa_score of
             Inl e \<Rightarrow> Inl (Message (''sender lookup failed: '' @ e))
           | Inr address \<Rightarrow> Inr address))"

end
