(* ===== verification/Wire_Props.thy ===== *)
theory Wire_Props
  imports Wire
begin

text \<open>
  What the wire promises: what a composer writes the parser and the body decoders read back,
  nothing unsealed goes out under an encrypted kind, a payload is read wholly or not at all,
  and the two scans read one payload alike.
\<close>

named_theorems wire \<open>the literal bytes of the grammar\<close>

section \<open>Prefixes and kind tokens\<close>

lemma colon_is [simp]: "colon = 0x3A"
  by (simp add: colon_def of_char_word)

lemma find_namespace:
  "find_map (\<lambda>n. map_option (Pair n) (strip_prefix (namespace_prefix n) (namespace_prefix ns @ rest))) all_namespaces =
     Some (ns, rest)"
proof (cases ns)
  case KChat
  have "strip_prefix ciph_msg_prefix (kchat_prefix @ rest) = None"
    by (simp add: strip_prefix_def ciph_msg_prefix_def kchat_prefix_def literal)
  then show ?thesis using KChat by (simp add: all_namespaces_def)
qed (simp add: all_namespaces_def)

lemma position_append:
  "\<forall>x \<in> set xs. \<not> p x \<Longrightarrow> p y \<Longrightarrow> position p (xs @ y # ys) = Some (length xs)"
  by (induction xs) auto

lemma position_Some:
  "position p xs = Some n \<Longrightarrow> n < length xs \<and> p (xs ! n) \<and> (\<forall>x \<in> set (take n xs). \<not> p x)"
  by (induction xs arbitrary: n) (auto split: if_splits)

definition token_ok :: "string \<Rightarrow> bool" where
  "token_ok k \<longleftrightarrow> length k < kind_token_cap \<and> colon \<notin> set (ascii k) \<and> utf8_valid (ascii k)"

lemma parse_token:
  assumes "token_ok k"
  shows "parse_payload_in (namespace_prefix ns @ wire_v1 @ ascii k @ colon # body) = Some (ns, k, body)"
proof -
  have len: "length k < 16" and no: "\<forall>b \<in> set (ascii k). b \<noteq> colon"
    using assms unfolding token_ok_def kind_token_cap_def by metis+
  define v where "v = ascii k @ colon # body"
  define cap where "cap = min (length v) kind_token_cap"
  have "length (ascii k) < cap" using len by (simp add: cap_def v_def kind_token_cap_def)
  then have "take cap v = ascii k @ colon # take (cap - length (ascii k) - 1) body"
    by (simp add: v_def take_Cons' del: colon_is)
  then have pos: "position (\<lambda>b. b = colon) (take cap v) = Some (length k)"
    using position_append [OF no, of colon] by simp
  have lossy: "from_utf8_lossy (ascii k) = k"
    using assms from_utf8_lossy_valid from_utf8_ascii unfolding token_ok_def by blast
  have pieces: "take (length k) v = ascii k" "drop (Suc (length k)) v = body"
    by (simp_all add: v_def)
  show ?thesis
    unfolding v_def [symmetric] parse_payload_in_def find_namespace
    by (simp add: Let_def cap_def [symmetric] pos lossy pieces del: colon_is)
qed

lemma tokens [simp]: "token_ok ''comm''" "token_ok ''handshake''" "token_ok ''self_stash''" "token_ok ''bcast''"
  by (simp_all add: token_ok_def kind_token_cap_def literal utf8_valid_ascii)

lemma token_colon:
  "ascii ''comm:'' = ascii ''comm'' @ [colon]" "ascii ''handshake:'' = ascii ''handshake'' @ [colon]"
  "ascii ''self_stash:'' = ascii ''self_stash'' @ [colon]" "ascii ''bcast:'' = ascii ''bcast'' @ [colon]"
  by (simp_all add: literal)

section \<open>Bodies\<close>

lemma split_comm:
  assumes "alias \<noteq> []" and "colon \<notin> set (ascii alias)" and "utf8_valid (ascii alias)"
  shows "split_comm_body (ascii alias @ colon # rest) = Some (alias, rest)"
proof -
  have "position (\<lambda>b. b = colon) (ascii alias @ colon # rest) = Some (length alias)"
    using position_append [of "ascii alias" "\<lambda>b. b = colon" colon rest] assms(2) by force
  then show ?thesis
    using assms(1,3) by (simp add: split_comm_body_def from_utf8_ascii del: colon_is)
qed

lemma decode_sealed: "is_sealed_envelope env \<Longrightarrow> decode_envelope_body env = env"
proof -
  assume sealed: "is_sealed_envelope env"
  then have "env ! 12 \<in> set env" by (simp add: is_sealed_envelope_def min_sealed_len_def)
  moreover have "\<not> is_base64_char (env ! 12)"
    using sealed by (auto simp: is_sealed_envelope_def is_base64_char_def)
  ultimately have "\<not> list_all is_base64_char env" by (auto simp: list_all_iff)
  then show ?thesis by (simp add: decode_envelope_body_def)
qed

lemma decode_encoded: "env \<noteq> [] \<Longrightarrow> decode_envelope_body (ascii (encode_base64 env)) = env"
proof -
  assume "env \<noteq> []"
  then have "encode_base64 env \<noteq> []"
    using length_encode_base64 [of env] by (cases env) auto
  then have "ascii (encode_base64 env) \<noteq> []" by (metis length_0_conv length_ascii)
  then show ?thesis
    by (simp add: decode_envelope_body_def encode_base64_chars decode_encode_base64 length_encode_base64)
qed

lemma sealed_nonempty: "is_sealed_envelope env \<Longrightarrow> env \<noteq> []"
  by (auto simp: is_sealed_envelope_def min_sealed_len_def)

section \<open>Properties\<close>

text \<open>
  A comm reads back whole. What the composer writes in either namespace under an alias
  parses as a comm of that namespace, its body splits into the alias and the base64 text, and
  the body decoder gives the very envelope; so it does when the envelope rides raw.
\<close>

theorem comm_round_trip:
  assumes "utf8_valid (ascii alias)" and "compose_comm_wire_in ns alias env = Inr wire"
  shows "\<exists>body text. parse_payload_in wire = Some (ns, ''comm'', body) \<and>
    split_comm_body body = Some (alias, text) \<and> decode_envelope_body text = env \<and>
    decode_envelope_body env = env"
proof -
  from assms(2) have ok: "alias \<noteq> []" "colon \<notin> set (ascii alias)" "is_sealed_envelope env"
    and wire: "wire = namespace_prefix ns @ wire_v1 @ ascii ''comm'' @ colon #
      (ascii alias @ colon # ascii (encode_base64 env))"
    by (auto simp: compose_comm_wire_in_def token_colon simp del: colon_is split: if_splits)
  show ?thesis
    unfolding wire using parse_token [OF tokens(1)] split_comm [OF ok(1,2) assms(1)]
      decode_encoded [OF sealed_nonempty [OF ok(3)]] decode_sealed [OF ok(3)] by blast
qed

definition demo_envelope :: bytes where
  "demo_envelope = replicate 12 0x41 @ [0x02] @ replicate 48 0x41"

lemma demo_sealed: "is_sealed_envelope demo_envelope"
  by (simp add: is_sealed_envelope_def demo_envelope_def min_sealed_len_def nth_append)

lemma comm_round_trip_witness:
  "\<exists>wire body text. compose_comm_wire_in KChat ''ab'' demo_envelope = Inr wire \<and>
    parse_payload_in wire = Some (KChat, ''comm'', body) \<and>
    split_comm_body body = Some (''ab'', text) \<and> decode_envelope_body text = demo_envelope"
proof -
  have v: "utf8_valid (ascii ''ab'')" by (simp add: literal utf8_valid_ascii)
  have c: "colon \<notin> set (ascii ''ab'')" by (simp add: literal)
  obtain wire where "compose_comm_wire_in KChat ''ab'' demo_envelope = Inr wire"
    using demo_sealed c by (simp add: compose_comm_wire_in_def)
  then show ?thesis using comm_round_trip [OF v, of KChat demo_envelope wire] by blast
qed

text \<open>
  A handshake and a stash read back whole. Each parses under its own kind, and the
  envelope it was composed from comes out of the body: directly for a handshake, past the
  scope for a stash.
\<close>

theorem sealed_round_trip:
  "(compose_handshake_wire env = Inr wire \<longrightarrow>
     (\<exists>body. parse_payload_in wire = Some (CiphMsg, ''handshake'', body) \<and> decode_envelope_body body = env)) \<and>
   (compose_self_stash_wire env = Inr wire \<longrightarrow>
     (\<exists>body rest. parse_payload_in wire = Some (CiphMsg, ''self_stash'', body) \<and>
        strip_stash_scope body = Some rest \<and> decode_envelope_body rest = env))"
proof (intro conjI impI)
  assume "compose_handshake_wire env = Inr wire"
  then have "is_sealed_envelope env"
    and wire: "wire = namespace_prefix CiphMsg @ wire_v1 @ ascii ''handshake'' @ colon # env"
    by (auto simp: compose_handshake_wire_def token_colon simp del: colon_is split: if_splits)
  then show "\<exists>body. parse_payload_in wire = Some (CiphMsg, ''handshake'', body) \<and> decode_envelope_body body = env"
    unfolding wire using parse_token [OF tokens(2)] decode_sealed by blast
next
  assume "compose_self_stash_wire env = Inr wire"
  then have sealed: "is_sealed_envelope env"
    and wire: "wire = namespace_prefix CiphMsg @ wire_v1 @ ascii ''self_stash'' @ colon #
      ((ascii stash_scope @ [colon]) @ env)"
    by (auto simp: compose_self_stash_wire_def token_colon simp del: colon_is split: if_splits)
  then show "\<exists>body rest. parse_payload_in wire = Some (CiphMsg, ''self_stash'', body) \<and>
      strip_stash_scope body = Some rest \<and> decode_envelope_body rest = env"
    unfolding wire using parse_token [OF tokens(3)] decode_sealed [OF sealed] strip_prefix_append
    unfolding strip_stash_scope_def by blast
qed

lemma sealed_round_trip_witness:
  "\<exists>wire body. compose_handshake_wire demo_envelope = Inr wire \<and>
    parse_payload_in wire = Some (CiphMsg, ''handshake'', body) \<and> decode_envelope_body body = demo_envelope"
proof -
  obtain wire where "compose_handshake_wire demo_envelope = Inr wire"
    using demo_sealed by (simp add: compose_handshake_wire_def)
  then show ?thesis using sealed_round_trip [of demo_envelope wire] by blast
qed

text \<open>
  The composers refuse exactly the ill-formed. An encrypted kind goes out if and only if
  its body has the sealed shape (and a comm has an alias without a colon); a broadcast if and
  only if its channel is named without one, and what it writes parses as a broadcast, never as
  an encrypted kind.
\<close>

theorem composers_refuse:
  "((\<exists>w. compose_handshake_wire env = Inr w) \<longleftrightarrow> is_sealed_envelope env) \<and>
   ((\<exists>w. compose_self_stash_wire env = Inr w) \<longleftrightarrow> is_sealed_envelope env) \<and>
   ((\<exists>w. compose_comm_wire_in ns alias env = Inr w) \<longleftrightarrow>
      is_sealed_envelope env \<and> alias \<noteq> [] \<and> colon \<notin> set (ascii alias)) \<and>
   ((\<exists>w. compose_bcast channel msg = Inr w) \<longleftrightarrow> channel \<noteq> [] \<and> colon \<notin> set (ascii channel)) \<and>
   {parse_payload w | w. compose_bcast channel msg = Inr w} \<subseteq>
     {Some (''bcast'', ascii channel @ [colon] @ ascii msg)}"
proof -
  have "parse_payload w = Some (''bcast'', ascii channel @ [colon] @ ascii msg)"
    if "compose_bcast channel msg = Inr w" for w
  proof -
    have w: "w = namespace_prefix CiphMsg @ wire_v1 @ ascii ''bcast'' @ colon # (ascii channel @ [colon] @ ascii msg)"
      using that by (auto simp: compose_bcast_def token_colon simp del: colon_is split: if_splits)
    show ?thesis unfolding w parse_payload_def parse_token [OF tokens(4)] by simp
  qed
  then have "{parse_payload w | w. compose_bcast channel msg = Inr w} \<subseteq>
     {Some (''bcast'', ascii channel @ [colon] @ ascii msg)}" by force
  then show ?thesis
    by (simp add: compose_handshake_wire_def compose_self_stash_wire_def compose_comm_wire_in_def
        compose_bcast_def del: colon_is)
qed

lemma find_namespace_Some:
  "find_map (\<lambda>n. map_option (Pair n) (strip_prefix (namespace_prefix n) payload)) all_namespaces = Some (ns, rest) \<longleftrightarrow>
     payload = namespace_prefix ns @ rest"
proof
  assume found: "find_map (\<lambda>n. map_option (Pair n) (strip_prefix (namespace_prefix n) payload)) all_namespaces = Some (ns, rest)"
  show "payload = namespace_prefix ns @ rest"
  proof (cases "strip_prefix ciph_msg_prefix payload")
    case None
    then show ?thesis
      using found strip_prefix_Some [of kchat_prefix payload rest]
      by (cases "strip_prefix kchat_prefix payload") (simp_all add: all_namespaces_def)
  next
    case (Some r)
    then show ?thesis
      using found strip_prefix_Some [of ciph_msg_prefix payload r] by (simp add: all_namespaces_def)
  qed
qed (simp add: find_namespace)

lemma find_namespace_None:
  "find_map (\<lambda>n. map_option (Pair n) (strip_prefix (namespace_prefix n) payload)) all_namespaces = None \<longleftrightarrow>
     (\<forall>ns rest. payload \<noteq> namespace_prefix ns @ rest)"
proof (cases "find_map (\<lambda>n. map_option (Pair n) (strip_prefix (namespace_prefix n) payload)) all_namespaces")
  case None
  then show ?thesis using find_namespace_Some [of payload] by simp
next
  case (Some found)
  then have "payload = namespace_prefix (fst found) @ snd found"
    using find_namespace_Some [of payload "fst found" "snd found"] by simp
  then have "\<not> (\<forall>ns rest. payload \<noteq> namespace_prefix ns @ rest)" by blast
  then show ?thesis unfolding Some by simp
qed

text \<open>
  A payload is read wholly or not at all. The parser answers exactly for payloads under
  one of the two namespaces; it names that namespace, the body is a tail of the payload, what
  lies between is at most the version, sixteen bytes of kind and its colon, and the kind's name
  is at most forty-five bytes long whatever those bytes are.
\<close>

theorem parse_total:
  "(parse_payload_in payload = None \<longleftrightarrow> (\<forall>ns rest. payload \<noteq> namespace_prefix ns @ rest)) \<and>
   (\<forall>ns kind body. parse_payload_in payload = Some (ns, kind, body) \<longrightarrow>
      length kind \<le> 45 \<and>
      (\<exists>head. payload = namespace_prefix ns @ head @ body \<and>
         (head = [] \<and> \<not> starts_with body wire_v1 \<and> kind = (if ns = CiphMsg then kind_legacy else kind_unknown) \<or>
          head = wire_v1 \<and> kind = kind_unknown \<or>
          (\<exists>token. head = wire_v1 @ token @ [colon] \<and> length token < kind_token_cap \<and>
             colon \<notin> set token \<and> kind = from_utf8_lossy token))))"
proof (intro conjI allI impI)
  show "parse_payload_in payload = None \<longleftrightarrow> (\<forall>ns rest. payload \<noteq> namespace_prefix ns @ rest)"
    unfolding parse_payload_in_def find_namespace_None [symmetric]
    by (simp add: Let_def split: option.splits prod.splits wire_namespace.splits)
next
  fix ns kind body assume parsed: "parse_payload_in payload = Some (ns, kind, body)"
  then obtain rest where ns: "find_map (\<lambda>n. map_option (Pair n) (strip_prefix (namespace_prefix n) payload)) all_namespaces = Some (ns, rest)"
    by (auto simp: parse_payload_in_def Let_def split: option.splits wire_namespace.splits)
  note payload = iffD1 [OF find_namespace_Some ns]
  show "\<exists>head. payload = namespace_prefix ns @ head @ body \<and>
         (head = [] \<and> \<not> starts_with body wire_v1 \<and> kind = (if ns = CiphMsg then kind_legacy else kind_unknown) \<or>
          head = wire_v1 \<and> kind = kind_unknown \<or>
          (\<exists>token. head = wire_v1 @ token @ [colon] \<and> length token < kind_token_cap \<and>
             colon \<notin> set token \<and> kind = from_utf8_lossy token))" (is "\<exists>head. ?P head")
  proof (cases "strip_prefix wire_v1 rest")
    case None
    then have "body = rest" and "kind = (case ns of CiphMsg \<Rightarrow> kind_legacy | KChat \<Rightarrow> kind_unknown)"
      and "\<not> starts_with rest wire_v1"
      using parsed ns
      by (auto simp: parse_payload_in_def strip_prefix_def starts_with_def split: wire_namespace.splits if_splits)
    then have "?P []"
      using payload by (simp add: kind_legacy_def kind_unknown_def split: wire_namespace.splits)
    then show ?thesis by blast
  next
    case (Some v1)
    then have rest: "rest = wire_v1 @ v1" by (simp add: strip_prefix_Some)
    let ?cap = "min (length v1) kind_token_cap"
    show ?thesis
    proof (cases "position (\<lambda>b. b = colon) (take ?cap v1)")
      case None
      then have "body = v1" "kind = kind_unknown"
        using parsed ns \<open>strip_prefix wire_v1 rest = Some v1\<close> by (simp_all add: parse_payload_in_def Let_def)
      then have "?P wire_v1" using payload rest by simp
      then show ?thesis by blast
    next
      case (Some n)
      then have kind: "kind = from_utf8_lossy (take n v1)" and body: "body = drop (Suc n) v1"
        using parsed ns \<open>strip_prefix wire_v1 rest = Some v1\<close> by (simp_all add: parse_payload_in_def Let_def)
      from position_Some [OF Some] have n: "n < ?cap" "v1 ! n = colon" and "colon \<notin> set (take n (take ?cap v1))"
        by auto
      then have "colon \<notin> set (take n v1)" by (simp add: min_def split: if_splits)
      moreover have "v1 = take n v1 @ [colon] @ body"
        using n body by (simp add: id_take_nth_drop [symmetric] del: colon_is)
          (metis Cons_nth_drop_Suc append_take_drop_id)
      ultimately have "?P (wire_v1 @ take n v1 @ [colon])"
        using payload rest kind n(1) by (simp del: colon_is) 
      then show ?thesis by blast
    qed
  qed
  then obtain head where "?P head" ..
  moreover have "length (from_utf8_lossy token) \<le> 45" if "length token < kind_token_cap" for token
    using length_from_utf8_lossy [of token] that by (simp add: kind_token_cap_def)
  ultimately show "length kind \<le> 45"
    by (auto simp: kind_legacy_def kind_unknown_def split: if_splits)
qed

lemma parse_total_witness:
  "length ''comm'' \<le> 45 \<and>
    parse_payload_in (namespace_prefix KChat @ wire_v1 @ ascii ''comm'' @ colon # [1]) = Some (KChat, ''comm'', [1])"
  using parse_token [OF tokens(1), of KChat "[1]"]
    conjunct2 [OF parse_total [of "namespace_prefix KChat @ wire_v1 @ ascii ''comm'' @ colon # [1]"]]
  by blast

text \<open>The output addresses are the decodable scripts' addresses, each at its first place.\<close>

lemma addresses_of_step:
  "foldl (\<lambda>seen script. case f script of
       Some address \<Rightarrow> if address \<in> set seen then seen else seen @ [address] | None \<Rightarrow> seen) seen scripts =
   foldl (\<lambda>seen address. if address \<in> set seen then seen else seen @ [address]) seen (List.map_filter f scripts)"
  by (induction scripts arbitrary: seen) (auto simp: map_filter_simps split: option.split)

lemma first_places:
  "foldl (\<lambda>seen address. if address \<in> set seen then seen else seen @ [address]) [] xs = rev (remdups (rev xs))"
proof (induction xs rule: rev_induct)
  case (snoc x xs)
  have "set (rev (remdups (rev xs))) = set xs" by simp
  then show ?case using snoc by simp
qed simp

lemma addresses_of_eq: "addresses_of f scripts = rev (remdups (rev (List.map_filter f scripts)))"
  unfolding addresses_of_def addresses_of_step by (rule first_places)

text \<open>
  The two scans read one payload alike. For a transaction with the same payload and outputs
  the block scan and the accepted scan both match or both do not, and agree on namespace, kind,
  body and recipients. The recipients are exactly the addresses of the standard outputs, each
  once, in order of first appearance, and only the accepted scan names a sender, from input 0.
\<close>

theorem scans_agree:
  assumes "ot_payload a = Some (rt_payload t)" and "List.map_filter id (ot_outputs a) = rt_outputs t"
  shows "map_option (\<lambda>e. (te_namespace e, te_kind e, te_body e, te_addresses e)) (scan_accepted f a) =
      map_option (\<lambda>e. (te_namespace e, te_kind e, te_body e, te_addresses e)) (scan_transaction f time hash t) \<and>
    (\<forall>e. scan_transaction f time hash t = Some e \<longrightarrow>
       te_addresses e = rev (remdups (rev (List.map_filter f (rt_outputs t)))) \<and> te_sender e = None) \<and>
    (\<forall>e s. scan_accepted f a = Some e \<longrightarrow> te_sender e = Some s \<longrightarrow>
       (\<exists>script rest. ot_inputs a = Some (Some (Some script)) # rest \<and> f script = Some s))"
  using assms
  by (auto simp: scan_accepted_def scan_transaction_def output_addresses_def addresses_of_eq
      input_zero_sender_def Let_def split: option.splits list.splits)

definition demo_tx :: "string rpc_transaction" where
  "demo_tx = \<lparr>rt_payload = ascii ''kchat:x'', rt_outputs = [''a'', ''b'', ''a''], rt_verbose_id = None, rt_computed_id = None\<rparr>"

definition demo_accepted :: "string rpc_optional_transaction" where
  "demo_accepted = \<lparr>ot_payload = Some (ascii ''kchat:x''), ot_inputs = [Some (Some (Some ''s''))],
     ot_outputs = [Some ''a'', None, Some ''b'', Some ''a''], ot_verbose = None\<rparr>"

lemma scans_agree_witness:
  "map_option te_addresses (scan_accepted Some demo_accepted) =
     map_option te_addresses (scan_transaction Some None None demo_tx)"
proof -
  have "map_option (\<lambda>e. (te_namespace e, te_kind e, te_body e, te_addresses e)) (scan_accepted Some demo_accepted) =
      map_option (\<lambda>e. (te_namespace e, te_kind e, te_body e, te_addresses e)) (scan_transaction Some None None demo_tx)"
    by (rule conjunct1 [OF scans_agree]) (simp_all add: demo_tx_def demo_accepted_def map_filter_simps)
  then show ?thesis
    by (cases "scan_accepted Some demo_accepted"; cases "scan_transaction Some None None demo_tx") simp_all
qed

end
