(* ===== verification/Sends_Store.thy ===== *)
theory Sends_Store
  imports Durable Rust_Str
begin

text \<open>
  What a relaunch must not forget about our own sends (\<open>rust/chain/src/sends_store.rs\<close>): the
  records of the two files, their load, which sets aside what it cannot use, and the one writer
  of each file. serde's readers and writers, the wallet library's addresses and hashes, the
  process id and the clock are parameters.
\<close>

definition sends_format :: nat where
  "sends_format = 1"

text \<open>\<open>Path::with_extension\<close>: what follows the last dot of the name goes, if a name precedes it.\<close>

definition file_stem :: "string \<Rightarrow> string" where
  "file_stem name =
     (let stem = rev (drop 1 (dropWhile (\<lambda>c. c \<noteq> CHR ''.'') (rev name))) in if stem = [] then name else stem)"

definition with_extension :: "path \<Rightarrow> string \<Rightarrow> path" where
  "with_extension p ext = (if p = [] then [] else butlast p @ [file_stem (last p) @ ''.'' @ ext])"

definition sends_path :: "path \<Rightarrow> path" where
  "sends_path store = with_extension store ''sends''"

definition spent_path :: "path \<Rightarrow> path" where
  "spent_path store = with_extension store ''spent''"

section \<open>Coins\<close>

definition to_hex_digits :: string where
  "to_hex_digits = ''0123456789abcdef''"

definition to_hex :: "bytes \<Rightarrow> string" where
  "to_hex bs = concat (map (\<lambda>b. [to_hex_digits ! unat (drop_bit 4 b), to_hex_digits ! unat (b AND 0x0F)]) bs)"

text \<open>\<open>u8::from_str_radix(.., 16)\<close> of two characters: a sign may stand for the first digit.\<close>

definition radix16 :: "char \<Rightarrow> char \<Rightarrow> byte option" where
  "radix16 a b =
     (if a = CHR ''+'' then map_option of_nat (hex_value b)
      else (case (hex_value a, hex_value b) of
              (Some h, Some l) \<Rightarrow> Some (of_nat (16 * h + l))
            | _ \<Rightarrow> None))"

fun from_hex_pairs :: "string \<Rightarrow> bytes option" where
  "from_hex_pairs (a # b # s) = (case radix16 a b of None \<Rightarrow> None | Some x \<Rightarrow> map_option ((#) x) (from_hex_pairs s))"
| "from_hex_pairs s = Some []"

definition from_hex :: "string \<Rightarrow> bytes option" where
  "from_hex text = (if length text mod 2 \<noteq> 0 then None else from_hex_pairs text)"

record coin_record =
  cr_txid :: string
  cr_index :: nat
  cr_amount :: nat
  cr_address :: "string option"
  cr_script_version :: nat
  cr_script :: string
  cr_block_daa_score :: nat
  cr_is_coinbase :: bool
  cr_covenant_id :: "string option"

text \<open>The wallet library's coin, as far as a record keeps it; its printers and parsers.\<close>

record ('h, 'a) utxo_entry =
  ue_txid :: 'h
  ue_index :: nat
  ue_amount :: nat
  ue_address :: "'a option"
  ue_script_version :: nat
  ue_script :: bytes
  ue_block_daa_score :: nat
  ue_is_coinbase :: bool
  ue_covenant_id :: "'h option"

type_synonym 'h outpoint = "'h \<times> nat"

definition entry_id :: "('h, 'a) utxo_entry \<Rightarrow> 'h outpoint" where
  "entry_id c = (ue_txid c, ue_index c)"

record ('h, 'a) wallet_text =
  show_hash :: "'h \<Rightarrow> string"
  parse_hash :: "string \<Rightarrow> 'h option"
  show_address :: "'a \<Rightarrow> string"
  parse_address :: "string \<Rightarrow> 'a option"

definition coin_record_of :: "('h, 'a) wallet_text \<Rightarrow> ('h, 'a) utxo_entry \<Rightarrow> coin_record" where
  "coin_record_of W c = \<lparr>
     cr_txid = show_hash W (ue_txid c), cr_index = ue_index c, cr_amount = ue_amount c,
     cr_address = map_option (show_address W) (ue_address c), cr_script_version = ue_script_version c,
     cr_script = to_hex (ue_script c), cr_block_daa_score = ue_block_daa_score c,
     cr_is_coinbase = ue_is_coinbase c, cr_covenant_id = map_option (show_hash W) (ue_covenant_id c)\<rparr>"

text \<open>An optional field: absent, or parsed, or the whole coin is refused.\<close>

definition opt_field :: "(string \<Rightarrow> 'f option) \<Rightarrow> string option \<Rightarrow> 'f option option" where
  "opt_field parse f = (case f of None \<Rightarrow> Some None | Some text \<Rightarrow> map_option Some (parse text))"

definition coin_of_record :: "('h, 'a) wallet_text \<Rightarrow> coin_record \<Rightarrow> ('h, 'a) utxo_entry option" where
  "coin_of_record W r =
     (case opt_field (parse_address W) (cr_address r) of None \<Rightarrow> None | Some address \<Rightarrow>
     (case opt_field (parse_hash W) (cr_covenant_id r) of None \<Rightarrow> None | Some covenant_id \<Rightarrow>
     (case from_hex (cr_script r) of None \<Rightarrow> None | Some script \<Rightarrow>
     (case parse_hash W (cr_txid r) of None \<Rightarrow> None | Some txid \<Rightarrow>
      Some \<lparr>ue_txid = txid, ue_index = cr_index r, ue_amount = cr_amount r, ue_address = address,
            ue_script_version = cr_script_version r, ue_script = script, ue_block_daa_score = cr_block_daa_score r,
            ue_is_coinbase = cr_is_coinbase r, ue_covenant_id = covenant_id\<rparr>))))"

section \<open>Records\<close>

datatype leg_state = Submitting | Sent | Unknown

record output_record =
  or_index :: nat
  or_value :: nat
  or_address :: "string option"

record leg_record =
  lr_txid :: string
  lr_state :: leg_state
  lr_paid_to :: string
  lr_direct :: "coin_record list"
  lr_earlier :: "coin_record list"
  lr_outputs :: "output_record list"
  lr_since_unix_ms :: nat
  lr_since_daa :: nat

record landed_record =
  la_paid_to :: string
  la_at_unix_ms :: nat

record retired_record =
  rt_txid :: string
  rt_paid_to :: string
  rt_at_unix_ms :: nat

record spent_record =
  sp_txid :: string
  sp_index :: nat
  sp_seen_at_daa :: nat
  sp_seen_at_ms :: nat

record sends =
  sd_legs :: "leg_record list"
  sd_landed :: "landed_record list"
  sd_retired :: "retired_record list"

definition no_sends :: sends where
  "no_sends = \<lparr>sd_legs = [], sd_landed = [], sd_retired = []\<rparr>"

text \<open>Either file as read back; its records stay raw.\<close>

record 'v envelope =
  ev_format :: nat
  ev_network :: string
  ev_legs :: "'v list"
  ev_landed :: "'v list"
  ev_retired :: "'v list"
  ev_coins :: "'v list"

record 'v sends_json =
  parse_envelope :: "bytes \<Rightarrow> 'v envelope option"
  leg_of :: "'v \<Rightarrow> leg_record option"
  landed_of :: "'v \<Rightarrow> landed_record option"
  retired_of :: "'v \<Rightarrow> retired_record option"
  spent_of :: "'v \<Rightarrow> spent_record option"
  write_values :: "'v list \<Rightarrow> bytes option"
  write_sends :: "nat \<Rightarrow> string \<Rightarrow> sends \<Rightarrow> bytes option"
  write_spent :: "nat \<Rightarrow> string \<Rightarrow> spent_record list \<Rightarrow> bytes option"

definition encode_sends :: "'v sends_json \<Rightarrow> string \<Rightarrow> sends \<Rightarrow> io_error + bytes" where
  "encode_sends J network s = (case write_sends J sends_format network s of None \<Rightarrow> Inl OtherError | Some bs \<Rightarrow> Inr bs)"

definition encode_spent :: "'v sends_json \<Rightarrow> string \<Rightarrow> spent_record list \<Rightarrow> io_error + bytes" where
  "encode_spent J network coins = (case write_spent J sends_format network coins of None \<Rightarrow> Inl OtherError | Some bs \<Rightarrow> Inr bs)"

section \<open>Setting aside\<close>

text \<open>
  The process: its id, the clock at the \<open>n\<close>-th copy, and with the disk the number of the next
  copy (the static counter).
\<close>

record process =
  pr_id :: nat
  pr_clock :: "nat \<Rightarrow> nat"

type_synonym world = "disk \<times> nat"

definition aside_name :: "process \<Rightarrow> path \<Rightarrow> nat \<Rightarrow> path" where
  "aside_name E path n =
     butlast path @ [''unreadable'',
       (case file_name path of None \<Rightarrow> ''record'' | Some name \<Rightarrow> name)
         @ ''.'' @ decimal (pr_clock E n) @ ''.'' @ decimal (pr_id E) @ ''.'' @ decimal n]"

definition move_file :: "path \<Rightarrow> path \<Rightarrow> disk \<Rightarrow> disk" where
  "move_file p q d = (case content d p of None \<Rightarrow> d | Some bs \<Rightarrow> put_file q bs (del_file p d))"

datatype 'v reading = Absent | Found "'v envelope" bytes | Kept

definition set_aside :: "process \<Rightarrow> path \<Rightarrow> world \<Rightarrow> world \<times> 'v reading" where
  "set_aside E path w =
     (case w of (d, n) \<Rightarrow>
      let aside = aside_name E path n; stays = (\<lambda>_ d. ((d, n + 1), Kept)) in
      io_try d stays (\<lambda>d. \<comment> \<open>create the directory\<close>
      io_try d stays (\<lambda>d. \<comment> \<open>rename\<close>
      ((move_file path aside d, n + 1), Absent))))"

definition copy_aside :: "process \<Rightarrow> 'v sends_json \<Rightarrow> path \<Rightarrow> 'v list \<Rightarrow> world \<Rightarrow> world" where
  "copy_aside E J path dropped w =
     (case w of (d, n) \<Rightarrow>
      (case write_values J dropped of
         None \<Rightarrow> (d, n + 1)
       | Some bs \<Rightarrow> (fst (atomic_write (aside_name E path n) bs d), n + 1)))"

definition keep_aside :: "process \<Rightarrow> 'v sends_json \<Rightarrow> ('r \<Rightarrow> 'v option) \<Rightarrow> path \<Rightarrow> 'r list \<Rightarrow> world \<Rightarrow> world" where
  "keep_aside E J to_value path records w =
     (let values = List.map_filter to_value records in
      if values = [] then w else copy_aside E J path values w)"

section \<open>Load\<close>

text \<open>\<open>is_dir\<close> answers the one question asked when the read fails.\<close>

definition read_envelope :: "process \<Rightarrow> 'v sends_json \<Rightarrow> bool \<Rightarrow> path \<Rightarrow> string \<Rightarrow> world \<Rightarrow> world \<times> 'v reading" where
  "read_envelope E J is_dir path network w =
     (case w of (d, n) \<Rightarrow>
     (case read_file path d of
        (d, Inl NotFound) \<Rightarrow> ((d, n), Absent)
      | (d, Inl _) \<Rightarrow> if is_dir then set_aside E path (d, n) else ((d, n), Kept)
      | (d, Inr bs) \<Rightarrow>
          (case parse_envelope J bs of
             None \<Rightarrow> set_aside E path (d, n)
           | Some envelope \<Rightarrow>
               if ev_format envelope = sends_format \<and> ev_network envelope = network then ((d, n), Found envelope bs)
               else set_aside E path (d, n))))"

fun decode_records :: "('v \<Rightarrow> 'r option) \<Rightarrow> 'v list \<Rightarrow> 'v list \<Rightarrow> 'r list \<times> 'v list" where
  "decode_records de [] dropped = ([], dropped)"
| "decode_records de (v # vs) dropped =
     (case de v of
        Some r \<Rightarrow> (case decode_records de vs dropped of (rs, dropped) \<Rightarrow> (r # rs, dropped))
      | None \<Rightarrow> decode_records de vs (dropped @ [v]))"

record 'r loaded_file =
  lf_records :: 'r
  lf_bytes :: bytes
  lf_kept :: bool

definition load_sends :: "process \<Rightarrow> 'v sends_json \<Rightarrow> bool \<Rightarrow> path \<Rightarrow> string \<Rightarrow> world \<Rightarrow> world \<times> sends loaded_file" where
  "load_sends E J is_dir path network w =
     (case read_envelope E J is_dir path network w of
        (w, Absent) \<Rightarrow> (w, \<lparr>lf_records = no_sends, lf_bytes = [], lf_kept = False\<rparr>)
      | (w, Kept) \<Rightarrow> (w, \<lparr>lf_records = no_sends, lf_bytes = [], lf_kept = True\<rparr>)
      | (w, Found envelope bs) \<Rightarrow>
          let (legs, dropped) = decode_records (leg_of J) (ev_legs envelope) [];
              (landed, dropped) = decode_records (landed_of J) (ev_landed envelope) dropped;
              (retired, dropped) = decode_records (retired_of J) (ev_retired envelope) dropped;
              w = (if dropped \<noteq> [] then copy_aside E J path dropped w else w)
          in (w, \<lparr>lf_records = \<lparr>sd_legs = legs, sd_landed = landed, sd_retired = retired\<rparr>, lf_bytes = bs, lf_kept = False\<rparr>))"

definition load_spent :: "process \<Rightarrow> 'v sends_json \<Rightarrow> bool \<Rightarrow> path \<Rightarrow> string \<Rightarrow> world \<Rightarrow> world \<times> spent_record list loaded_file" where
  "load_spent E J is_dir path network w =
     (case read_envelope E J is_dir path network w of
        (w, Absent) \<Rightarrow> (w, \<lparr>lf_records = [], lf_bytes = [], lf_kept = False\<rparr>)
      | (w, Kept) \<Rightarrow> (w, \<lparr>lf_records = [], lf_bytes = [], lf_kept = True\<rparr>)
      | (w, Found envelope bs) \<Rightarrow>
          let (coins, dropped) = decode_records (spent_of J) (ev_coins envelope) [];
              w = (if dropped \<noteq> [] then copy_aside E J path dropped w else w)
          in (w, \<lparr>lf_records = coins, lf_bytes = bs, lf_kept = False\<rparr>))"

section \<open>The writer of a file\<close>

text \<open>The writers of the process, by path; each is shared by every record over its file.\<close>

record writer =
  wr_generation :: nat
  wr_bytes :: "bytes option"
  wr_next :: nat

type_synonym writers = "(path, writer) hmap"

record durable_record =
  df_path :: path
  df_kept :: bool

definition writer_for :: "path \<Rightarrow> writers \<Rightarrow> writer" where
  "writer_for path ws = (case hget ws path of Some w \<Rightarrow> w | None \<Rightarrow> \<lparr>wr_generation = 0, wr_bytes = None, wr_next = 0\<rparr>)"

definition durable_new :: "path \<Rightarrow> bytes \<Rightarrow> bool \<Rightarrow> writers \<Rightarrow> durable_record \<times> writers" where
  "durable_new path bs kept ws =
     (let w = writer_for path ws;
          w = (if wr_bytes w = None then w\<lparr>wr_bytes := Some bs\<rparr> else w)
      in (\<lparr>df_path = path, df_kept = kept\<rparr>, hput path w ws))"

definition next_generation :: "durable_record \<Rightarrow> writers \<Rightarrow> nat \<times> writers" where
  "next_generation f ws =
     (let w = writer_for (df_path f) ws in
      (wr_next w + 1, hput (df_path f) (w\<lparr>wr_next := wr_next w + 1\<rparr>) ws))"

text \<open>The check and the write are one step: they run together under the writer's lock.\<close>

definition durable_write ::
  "durable_record \<Rightarrow> nat \<Rightarrow> bytes \<Rightarrow> writers \<Rightarrow> disk \<Rightarrow> writers \<times> disk \<times> (io_error + unit)" where
  "durable_write f generation bs ws d =
     (if df_kept f then (ws, d, Inl OtherError)
      else
        let w = writer_for (df_path f) ws in
        if generation \<le> wr_generation w then (ws, d, Inr ())
        else if wr_bytes w = Some bs then (hput (df_path f) (w\<lparr>wr_generation := generation\<rparr>) ws, d, Inr ())
        else (case atomic_write (df_path f) bs d of
                (d, Inl e) \<Rightarrow> (ws, d, Inl e)
              | (d, Inr _) \<Rightarrow> (hput (df_path f) (w\<lparr>wr_generation := generation, wr_bytes := Some bs\<rparr>) ws, d, Inr ())))"

end
