(* ===== verification/Spend_Policy.thy ===== *)
theory Spend_Policy
  imports Sends_Store "HOL-Library.Multiset"
begin

text \<open>
  Which coins fund a send, and in what order (\<open>rust/chain/src/spend_policy.rs\<close>). Two
  references are the same coin when their outpoints are, which is also how the pinned crate
  compares and hashes them.
\<close>

definition rider_limit :: nat where
  "rider_limit = 2"

definition is_reserved :: "'a list \<Rightarrow> ('h, 'a) utxo_entry \<Rightarrow> bool" where
  "is_reserved exclude c = (case ue_address c of None \<Rightarrow> True | Some address \<Rightarrow> address \<in> set exclude)"

definition is_covenant_bound :: "('h, 'a) utxo_entry \<Rightarrow> bool" where
  "is_covenant_bound c \<longleftrightarrow> ue_covenant_id c \<noteq> None"

text \<open>\<open>sort_by_key\<close> under \<open>Reverse\<close>: stable, largest first.\<close>

definition largest_first :: "('h, 'a) utxo_entry list \<Rightarrow> ('h, 'a) utxo_entry list" where
  "largest_first cs = sort_key (\<lambda>c. - int (ue_amount c)) cs"

definition select_spend_priority :: "('h, 'a) utxo_entry list \<Rightarrow> ('h, 'a) utxo_entry list \<Rightarrow> nat \<Rightarrow> 'a list \<Rightarrow> ('h, 'a) utxo_entry list" where
  "select_spend_priority mature pinned riders exclude =
     (let pinned_outpoints = map entry_id pinned;
          pool = largest_first
            (filter (\<lambda>c. \<not> is_covenant_bound c) (filter (\<lambda>c. entry_id c \<notin> set pinned_outpoints) mature));
          (pool, reserved) =
            (if exclude = [] then (pool, [])
             else List.partition (\<lambda>c. \<not> is_reserved exclude c) pool);
          order = largest_first (filter (\<lambda>c. \<not> is_covenant_bound c) pinned);
          rider_count = min (length pool) riders;
          keep = length pool - rider_count
      in order @ rev (drop keep pool) @ take keep pool @ reserved)"

text \<open>The closure \<open>take\<close> of \<open>anchored\<close>, with the set of ids it has placed.\<close>

fun place :: "'h outpoint hset \<Rightarrow> ('h, 'a) utxo_entry list \<Rightarrow> ('h, 'a) utxo_entry list \<times> 'h outpoint hset" where
  "place placed [] = ([], placed)"
| "place placed (c # cs) =
     (if \<not> is_covenant_bound c \<and> entry_id c \<notin> set placed
      then (let (out, placed') = place (hset_insert (entry_id c) placed) cs in (c # out, placed'))
      else place placed cs)"

definition anchored :: "('h, 'a) utxo_entry list \<Rightarrow> ('h, 'a) utxo_entry list \<Rightarrow> ('h, 'a) utxo_entry list \<Rightarrow> ('h, 'a) utxo_entry list \<Rightarrow> ('h, 'a) utxo_entry list" where
  "anchored order pinned firsts lasts =
     (if firsts = [] \<and> lasts = [] then order
      else
        let pinned_ids = map entry_id pinned;
            (firsts', placed) = place [] firsts;
            (lasts', placed) = place placed (filter (\<lambda>c. entry_id c \<notin> set pinned_ids) lasts);
            rest = filter (\<lambda>c. entry_id c \<notin> set placed) order;
            pinned_rest = takeWhile (\<lambda>c. entry_id c \<in> set pinned_ids) rest;
            tail = drop (length pinned_rest) rest;
            bound = (case pinned of [] \<Rightarrow> None | c # _ \<Rightarrow> ue_address c);
            (lead, after) = (case bound of
                Some _ \<Rightarrow> List.partition (\<lambda>c. ue_address c = bound) firsts'
              | None \<Rightarrow> (firsts', []))
        in lead @ pinned_rest @ after @ tail @ lasts')"

section \<open>Sorting largest first\<close>

abbreviation descending :: "('h, 'a) utxo_entry list \<Rightarrow> bool" where
  "descending \<equiv> sorted_wrt (\<lambda>a b. ue_amount b \<le> ue_amount a)"

abbreviation ascending :: "('h, 'a) utxo_entry list \<Rightarrow> bool" where
  "ascending \<equiv> sorted_wrt (\<lambda>a b. ue_amount a \<le> ue_amount b)"

lemma mset_largest_first [simp]: "mset (largest_first cs) = mset cs"
  by (simp add: largest_first_def)

lemma set_largest_first [simp]: "set (largest_first cs) = set cs"
  by (simp add: largest_first_def)

lemma largest_first_descending: "descending (largest_first cs)"
proof -
  have "sorted (map (\<lambda>c. - int (ue_amount c)) (largest_first cs))" by (simp add: largest_first_def)
  then show ?thesis by (simp add: sorted_map)
qed

lemma largest_first_stable:
  "filter (\<lambda>c. ue_amount c = a) (largest_first cs) = filter (\<lambda>c. ue_amount c = a) cs"
  using sort_key_stable [of "\<lambda>c. - int (ue_amount c)" "- int a" cs] by (simp add: largest_first_def)

text \<open>
  C25. The spend order offers every free coin once, in policy order. It is the pinned coins
  largest first, then at most the asked number of riders (the smallest free coins, smallest
  first), then the other free coins largest first, then the reserved ones largest first. No
  covenant coin is offered, and every other mature coin is.
\<close>

theorem spend_order:
  "\<exists>pins riders_drawn free reserved.
     select_spend_priority mature pinned riders exclude = pins @ riders_drawn @ free @ reserved \<and>
     mset pins = mset (filter (\<lambda>c. \<not> is_covenant_bound c) pinned) \<and> descending pins \<and>
     mset riders_drawn + mset free + mset reserved =
       mset (filter (\<lambda>c. entry_id c \<notin> entry_id ` set pinned \<and> \<not> is_covenant_bound c) mature) \<and>
     ascending riders_drawn \<and> descending free \<and> descending reserved \<and>
     length riders_drawn = min riders (length riders_drawn + length free) \<and>
     (\<forall>r \<in> set riders_drawn. \<forall>f \<in> set free. ue_amount r \<le> ue_amount f) \<and>
     (exclude \<noteq> [] \<longrightarrow> (\<forall>c \<in> set riders_drawn \<union> set free. \<not> is_reserved exclude c) \<and>
        (\<forall>c \<in> set reserved. is_reserved exclude c)) \<and>
     (exclude = [] \<longrightarrow> reserved = [])"
proof -
  define pool0 where "pool0 = largest_first
    (filter (\<lambda>c. \<not> is_covenant_bound c) (filter (\<lambda>c. entry_id c \<notin> set (map entry_id pinned)) mature))"
  define pool where "pool = (if exclude = [] then pool0 else filter (\<lambda>c. \<not> is_reserved exclude c) pool0)"
  define reserved where "reserved = (if exclude = [] then [] else filter (\<lambda>c. is_reserved exclude c) pool0)"
  define keep where "keep = length pool - min (length pool) riders"
  have order: "select_spend_priority mature pinned riders exclude =
      largest_first (filter (\<lambda>c. \<not> is_covenant_bound c) pinned) @ rev (drop keep pool) @ take keep pool @ reserved"
    by (simp add: select_spend_priority_def Let_def pool0_def pool_def reserved_def keep_def comp_def)
  have d0: "descending pool0" unfolding pool0_def by (rule largest_first_descending)
  then have d: "descending pool" "descending reserved"
    by (auto simp: pool_def reserved_def sorted_wrt_filter)
  have split: "descending (take keep pool @ drop keep pool)" using d(1) by simp
  have "mset pool + mset reserved = mset pool0" by (simp add: pool_def reserved_def add.commute)
  moreover have "mset pool0 = mset (filter (\<lambda>c. entry_id c \<notin> entry_id ` set pinned \<and> \<not> is_covenant_bound c) mature)"
    by (simp add: pool0_def filter_filter_mset conj_commute)
  moreover have "mset (rev (drop keep pool)) + mset (take keep pool) = mset pool"
    by (metis add.commute append_take_drop_id mset_append mset_rev)
  ultimately have m: "mset (rev (drop keep pool)) + mset (take keep pool) + mset reserved =
      mset (filter (\<lambda>c. entry_id c \<notin> entry_id ` set pinned \<and> \<not> is_covenant_bound c) mature)" by simp
  have asc: "ascending (rev (drop keep pool))" "descending (take keep pool)"
    "\<forall>r \<in> set (rev (drop keep pool)). \<forall>f \<in> set (take keep pool). ue_amount r \<le> ue_amount f"
    using split unfolding sorted_wrt_append sorted_wrt_rev by auto
  have len: "length (rev (drop keep pool)) = min riders (length (rev (drop keep pool)) + length (take keep pool))"
    by (simp add: keep_def)
  have fr: "exclude \<noteq> [] \<longrightarrow> (\<forall>c \<in> set (rev (drop keep pool)) \<union> set (take keep pool). \<not> is_reserved exclude c) \<and>
      (\<forall>c \<in> set reserved. is_reserved exclude c)"
    by (auto simp: pool_def reserved_def dest: in_set_takeD in_set_dropD)
  show ?thesis
    by (rule exI [of _ "largest_first (filter (\<lambda>c. \<not> is_covenant_bound c) pinned)"],
        rule exI [of _ "rev (drop keep pool)"], rule exI [of _ "take keep pool"], rule exI [of _ reserved])
      (use order m asc len fr d(2) largest_first_descending in \<open>simp add: reserved_def\<close>)
qed

section \<open>Placing the coins of unsettled sends\<close>

lemma place_spec:
  "place placed cs = (out, placed') \<Longrightarrow>
     set placed' = set placed \<union> entry_id ` set out \<and> set out \<subseteq> set cs \<and>
     distinct (map entry_id out) \<and> entry_id ` set out \<inter> set placed = {} \<and>
     (\<forall>c \<in> set out. \<not> is_covenant_bound c) \<and>
     (\<forall>c \<in> set cs. \<not> is_covenant_bound c \<longrightarrow> entry_id c \<in> set placed')"
proof (induction cs arbitrary: placed out)
  case (Cons c cs)
  show ?case
  proof (cases "\<not> is_covenant_bound c \<and> entry_id c \<notin> set placed")
    case True
    obtain o1 where o1: "place (hset_insert (entry_id c) placed) cs = (o1, placed')" "out = c # o1"
      using Cons.prems True by (auto simp: Let_def split: prod.splits)
    show ?thesis using Cons.IH [OF o1(1)] True o1(2) by auto
  next
    case False
    then have "place placed cs = (out, placed')" using Cons.prems by auto
    from Cons.IH [OF this] show ?thesis using False by auto
  qed
qed simp

text \<open>The parts of an anchored order.\<close>

lemma anchored_parts:
  assumes "firsts \<noteq> [] \<or> lasts \<noteq> []"
  obtains F L p0 pl rest where "place [] firsts = (F, p0)"
    and "place p0 (filter (\<lambda>c. entry_id c \<notin> entry_id ` set pinned) lasts) = (L, pl)"
    and "rest = filter (\<lambda>c. entry_id c \<notin> set pl) order"
    and "anchored order pinned firsts lasts =
      (case pinned of [] \<Rightarrow> F | p # _ \<Rightarrow>
         (case ue_address p of None \<Rightarrow> F | Some a \<Rightarrow> filter (\<lambda>c. ue_address c = Some a) F)) @
      takeWhile (\<lambda>c. entry_id c \<in> entry_id ` set pinned) rest @
      (case pinned of [] \<Rightarrow> [] | p # _ \<Rightarrow>
         (case ue_address p of None \<Rightarrow> [] | Some a \<Rightarrow> filter (\<lambda>c. ue_address c \<noteq> Some a) F)) @
      dropWhile (\<lambda>c. entry_id c \<in> entry_id ` set pinned) rest @ L"
proof -
  have some: "\<not> (firsts = [] \<and> lasts = [])" using assms by blast
  obtain F p0 where F: "place [] firsts = (F, p0)" by fastforce
  obtain L pl where L: "place p0 (filter (\<lambda>c. entry_id c \<notin> entry_id ` set pinned) lasts) = (L, pl)" by fastforce
  show thesis
    by (rule that [OF F L refl])
      (use F L in \<open>simp add: anchored_def if_not_P [OF some] Let_def dropWhile_eq_drop comp_def split: list.splits option.splits\<close>)
qed

lemma partition_mset:
  "mset (case pinned of [] \<Rightarrow> F | p # _ \<Rightarrow>
         (case ue_address p of None \<Rightarrow> F | Some a \<Rightarrow> filter (\<lambda>c. ue_address c = Some a) F)) +
   mset (case pinned of [] \<Rightarrow> [] | p # _ \<Rightarrow>
         (case ue_address p of None \<Rightarrow> [] | Some a \<Rightarrow> filter (\<lambda>c. ue_address c \<noteq> Some a) F)) = mset F"
  by (simp split: list.split option.split)

lemma mset_five: "mset (as @ bs @ cs @ ds @ es) = (mset as + mset cs) + (mset bs + mset ds) + mset es"
  by (simp add: ac_simps)

lemma anchored_mset:
  assumes "firsts \<noteq> [] \<or> lasts \<noteq> []" and "place [] firsts = (F, p0)"
    and "place p0 (filter (\<lambda>c. entry_id c \<notin> entry_id ` set pinned) lasts) = (L, pl)"
  shows "mset (anchored order pinned firsts lasts) = mset F + mset (filter (\<lambda>c. entry_id c \<notin> set pl) order) + mset L"
proof -
  define rest where "rest = filter (\<lambda>c. entry_id c \<notin> set pl) order"
  obtain F' L' p0' pl' rest' where F': "place [] firsts = (F', p0')"
    and L': "place p0' (filter (\<lambda>c. entry_id c \<notin> entry_id ` set pinned) lasts) = (L', pl')"
    and rest': "rest' = filter (\<lambda>c. entry_id c \<notin> set pl') order"
    and eq: "anchored order pinned firsts lasts =
      (case pinned of [] \<Rightarrow> F' | p # _ \<Rightarrow>
         (case ue_address p of None \<Rightarrow> F' | Some a \<Rightarrow> filter (\<lambda>c. ue_address c = Some a) F')) @
      takeWhile (\<lambda>c. entry_id c \<in> entry_id ` set pinned) rest' @
      (case pinned of [] \<Rightarrow> [] | p # _ \<Rightarrow>
         (case ue_address p of None \<Rightarrow> [] | Some a \<Rightarrow> filter (\<lambda>c. ue_address c \<noteq> Some a) F')) @
      dropWhile (\<lambda>c. entry_id c \<in> entry_id ` set pinned) rest' @ L'"
    by (rule anchored_parts [OF assms(1)])
  have same: "F' = F" "L' = L" "rest' = rest"
    using F' L' rest' assms(2,3) unfolding rest_def by auto
  have "mset (takeWhile (\<lambda>c. entry_id c \<in> entry_id ` set pinned) rest) +
      mset (dropWhile (\<lambda>c. entry_id c \<in> entry_id ` set pinned) rest) = mset rest"
    by (metis mset_append takeWhile_dropWhile_id)
  then show ?thesis
    unfolding eq same rest_def [symmetric] mset_five by (simp only: partition_mset)
qed

text \<open>
  Anchoring loses no coin and adds only the ones it is given. The coins offered are those of
  the order and the free-of-covenant coins of the two lists, a pinned coin of the second list
  left to the order; each coin is offered once when the order offers each once, and no covenant
  coin appears that the order did not have.
\<close>

theorem anchored_offers:
  "entry_id ` set (anchored order pinned firsts lasts) =
     entry_id ` set order \<union> entry_id ` {c \<in> set firsts. \<not> is_covenant_bound c} \<union>
     entry_id ` {c \<in> set lasts. \<not> is_covenant_bound c \<and> entry_id c \<notin> entry_id ` set pinned} \<and>
   (distinct (map entry_id order) \<longrightarrow> distinct (map entry_id (anchored order pinned firsts lasts))) \<and>
   (\<forall>c \<in> set (anchored order pinned firsts lasts). is_covenant_bound c \<longrightarrow> c \<in> set order)"
proof (cases "firsts = [] \<and> lasts = []")
  case False
  then have some: "firsts \<noteq> [] \<or> lasts \<noteq> []" by blast
  obtain F p0 where F: "place [] firsts = (F, p0)" by fastforce
  obtain L pl where L: "place p0 (filter (\<lambda>c. entry_id c \<notin> entry_id ` set pinned) lasts) = (L, pl)" by fastforce
  let ?a = "anchored order pinned firsts lasts"
  have m: "mset ?a = mset (F @ filter (\<lambda>c. entry_id c \<notin> set pl) order @ L)"
    using anchored_mset [OF some F L] by simp
  then have set_a: "set ?a = set (F @ filter (\<lambda>c. entry_id c \<notin> set pl) order @ L)" by (rule mset_eq_setD)
  have "mset (map entry_id ?a) = mset (map entry_id (F @ filter (\<lambda>c. entry_id c \<notin> set pl) order @ L))"
    unfolding mset_map m ..
  then have d: "distinct (map entry_id ?a) = distinct (map entry_id (F @ filter (\<lambda>c. entry_id c \<notin> set pl) order @ L))"
    by (rule mset_eq_imp_distinct_iff)
  note f = place_spec [OF F] and l = place_spec [OF L]
  have ids: "I ` (A \<union> {c \<in> D. I c \<notin> P} \<union> E) = I ` D \<union> P"
    if "I ` A \<union> I ` E = P" for I :: "('a, 'b) utxo_entry \<Rightarrow> 'a outpoint" and A D E P
    unfolding that [symmetric] by blast
  have "entry_id ` set ?a = entry_id ` set order \<union> set pl"
    unfolding set_a set_append set_filter Un_assoc [symmetric] by (rule ids) (use f l in auto)
  then have "entry_id ` set ?a = entry_id ` set order \<union> entry_id ` {c \<in> set firsts. \<not> is_covenant_bound c} \<union>
      entry_id ` {c \<in> set lasts. \<not> is_covenant_bound c \<and> entry_id c \<notin> entry_id ` set pinned}"
    using f l by auto
  moreover have "distinct (map entry_id order) \<longrightarrow> distinct (map entry_id ?a)"
  proof
    assume "distinct (map entry_id order)"
    then have "distinct (map entry_id (filter (\<lambda>c. entry_id c \<notin> set pl) order))" by (rule distinct_map_filter)
    moreover have "entry_id ` set (filter (\<lambda>c. entry_id c \<notin> set pl) order) \<inter> set pl = {}" by auto
    moreover have "set pl = entry_id ` set F \<union> entry_id ` set L" "entry_id ` set L \<inter> entry_id ` set F = {}" using f l by simp_all
    moreover have "distinct (map entry_id F)" "distinct (map entry_id L)" using f l by simp_all
    ultimately show "distinct (map entry_id ?a)"
      unfolding d map_append distinct_append set_append set_map by blast
  qed
  moreover have "\<forall>c \<in> set ?a. is_covenant_bound c \<longrightarrow> c \<in> set order"
    unfolding set_a using f l by auto
  ultimately show ?thesis by blast
qed (simp add: anchored_def)

definition demo_coin :: "string \<Rightarrow> nat \<Rightarrow> (string, string) utxo_entry" where
  "demo_coin i n = \<lparr>ue_txid = i, ue_index = 0, ue_amount = n, ue_address = Some ''A'', ue_script_version = 0, ue_script = [],
     ue_block_daa_score = 0, ue_is_coinbase = False, ue_covenant_id = None\<rparr>"

definition demo_mature :: "(string, string) utxo_entry list" where
  "demo_mature = [demo_coin ''a'' 5, demo_coin ''b'' 1, demo_coin ''c'' 9]"

lemma spend_order_witness:
  "\<exists>riders_drawn free. select_spend_priority demo_mature [] 2 [] = riders_drawn @ free \<and>
     length riders_drawn = min 2 (length riders_drawn + length free)"
proof -
  obtain pins riders_drawn free reserved where
    "select_spend_priority demo_mature [] 2 [] = pins @ riders_drawn @ free @ reserved"
    and "mset pins = mset (filter (\<lambda>c. \<not> is_covenant_bound c) [])"
    and "length riders_drawn = min 2 (length riders_drawn + length free)"
    and "[] = ([] :: string list) \<longrightarrow> reserved = []"
    using spend_order [of demo_mature "[]" 2 "[]"] by blast
  then show ?thesis by simp blast
qed

lemma anchored_offers_witness:
  "distinct (map entry_id (anchored demo_mature [] [] [demo_coin ''a'' 5]))"
  using anchored_offers [of demo_mature "[]" "[]" "[demo_coin ''a'' 5]"]
  by (simp add: demo_mature_def demo_coin_def entry_id_def)

lemma place_subset: "place placed cs = (out, placed') \<Longrightarrow> set out \<subseteq> set cs"
  using place_spec by blast

lemma place_placed: "place placed cs = (out, placed') \<Longrightarrow> set placed' = set placed \<union> entry_id ` set out"
  using place_spec by blast

lemma place_ids:
  assumes "place placed cs = (out, placed')"
  shows "entry_id ` set out = entry_id ` {c \<in> set cs. \<not> is_covenant_bound c} - set placed"
  using place_spec [OF assms] by (auto; blast)

text \<open>
  Anchoring keeps a message's identity and draws unsettled coins last. When the order opens
  with a pinned coin at the pinned address, so does the anchored order, whatever is put first.
  The coins of the second list that are neither pinned, covenant-bound nor put first close it.
\<close>

theorem anchored_keeps_identity:
  assumes "\<And>c. c \<in> set firsts \<Longrightarrow> entry_id c = entry_id p \<Longrightarrow> c = p"
    and "order = p # order'" and "p \<in> set pinned" and "\<forall>c \<in> set pinned. ue_address c = Some a"
  shows "(\<exists>c rest. anchored order pinned firsts lasts = c # rest \<and> ue_address c = Some a) \<and>
    (\<exists>before close. anchored order pinned firsts lasts = before @ close \<and>
       entry_id ` set close = entry_id ` {c \<in> set lasts. \<not> is_covenant_bound c \<and> entry_id c \<notin> entry_id ` set pinned}
         - entry_id ` {c \<in> set firsts. \<not> is_covenant_bound c})"
proof (cases "firsts = [] \<and> lasts = []")
  case True
  then show ?thesis using assms(2-4) by (simp add: anchored_def)
next
  case False
  then have some: "firsts \<noteq> [] \<or> lasts \<noteq> []" by blast
  obtain q qs where pinned: "pinned = q # qs" using assms(3) by (cases pinned) auto
  then have q: "ue_address q = Some a" using assms(4) by simp
  obtain F p0 L pl rest where F: "place [] firsts = (F, p0)"
    and L: "place p0 (filter (\<lambda>c. entry_id c \<notin> entry_id ` set pinned) lasts) = (L, pl)"
    and rest: "rest = filter (\<lambda>c. entry_id c \<notin> set pl) order"
    and eq: "anchored order pinned firsts lasts = filter (\<lambda>c. ue_address c = Some a) F @
      takeWhile (\<lambda>c. entry_id c \<in> entry_id ` set pinned) rest @
      filter (\<lambda>c. ue_address c \<noteq> Some a) F @ dropWhile (\<lambda>c. entry_id c \<in> entry_id ` set pinned) rest @ L"
    by (rule anchored_parts [OF some, of pinned order]) (simp add: pinned q)
  have "\<exists>c rest. anchored order pinned firsts lasts = c # rest \<and> ue_address c = Some a"
  proof (cases "filter (\<lambda>c. ue_address c = Some a) F")
    case Nil
    have "p \<notin> set F" using Nil assms(3,4) by (auto simp: filter_empty_conv)
    have in_F: "set p0 = entry_id ` set F" "set F \<subseteq> set firsts"
      using place_placed [OF F] place_subset [OF F] by simp_all
    have "entry_id p \<notin> set p0"
    proof
      assume "entry_id p \<in> set p0"
      then obtain f where "f \<in> set F" "entry_id f = entry_id p" unfolding in_F(1) by force
      then show False using assms(1) in_F(2) \<open>p \<notin> set F\<close> by blast
    qed
    moreover have "entry_id p \<notin> entry_id ` set L"
    proof
      assume "entry_id p \<in> entry_id ` set L"
      then obtain x where "x \<in> set L" "entry_id p = entry_id x" by (rule imageE)
      moreover from this have "entry_id x \<notin> entry_id ` set pinned" using place_subset [OF L] by auto
      ultimately show False using imageI [OF assms(3), of entry_id] by metis
    qed
    ultimately have "entry_id p \<notin> set pl" using place_placed [OF L] by simp
    then have "rest = p # filter (\<lambda>c. entry_id c \<notin> set pl) order'" using rest assms(2) by simp
    then show ?thesis unfolding eq Nil using assms(3,4) by simp
  next
    case (Cons c cs)
    then have "c \<in> set (filter (\<lambda>c. ue_address c = Some a) F)" by simp
    then have "ue_address c = Some a" by simp
    then show ?thesis unfolding eq Cons by simp
  qed
  moreover have "entry_id ` set L = entry_id ` {c \<in> set lasts. \<not> is_covenant_bound c \<and> entry_id c \<notin> entry_id ` set pinned}
         - entry_id ` {c \<in> set firsts. \<not> is_covenant_bound c}"
  proof -
    have "set p0 = entry_id ` {c \<in> set firsts. \<not> is_covenant_bound c}"
      using place_placed [OF F] place_ids [OF F] by simp
    then show ?thesis using place_ids [OF L] by (simp add: conj_ac Collect_conj_eq)
  qed
  moreover have "\<exists>before. anchored order pinned firsts lasts = before @ L"
    unfolding eq append_assoc [symmetric] by blast
  ultimately show ?thesis by blast
qed

lemma anchored_keeps_identity_witness:
  "\<exists>c rest. anchored demo_mature [demo_coin ''a'' 5] [demo_coin ''b'' 1] [demo_coin ''c'' 9] = c # rest \<and>
     ue_address c = Some ''A''"
  by (rule conjunct1 [OF anchored_keeps_identity
        [where p = "demo_coin ''a'' 5" and order' = "[demo_coin ''b'' 1, demo_coin ''c'' 9]"]])
    (simp_all add: demo_mature_def demo_coin_def entry_id_def)

end
