(* ===== verification/Json.thy ===== *)
theory Json
  imports Utf8 "HOL-Library.Multiset"
begin

text \<open>
  What the sources use of \<open>serde_json\<close>. The printer and the parser are a parameter: a
  \<open>json_codec\<close> prints a document compactly and parses bytes (which it checks for UTF-8 as it goes) to the
  document as it is written, every field in its place. \<open>json_ok\<close> is what the crate documents of them. What serde's
  derived readers and \<open>serde_json::Value\<close> make of a document is defined here.
\<close>

text \<open>A number is a \<open>u64\<close>, or one that is none (negative, with a fraction) by its text.\<close>

datatype json_number = U64 nat | Other_number string

datatype json =
    JNull
  | JBool bool
  | JNum json_number
  | JStr string
  | JArr "json list"
  | JObj "(string \<times> json) list"

record json_codec =
  jc_print :: "json \<Rightarrow> string"
  jc_parse :: "string \<Rightarrow> json option"

abbreviation newline :: char where
  "newline \<equiv> CHR 0x0A"

abbreviation quote :: char where
  "quote \<equiv> CHR 0x22"

text \<open>The documents the code prints: numbers are \<open>u64\<close> values, strings are text.\<close>

fun printable :: "json \<Rightarrow> bool" where
  "printable (JNum (U64 n)) \<longleftrightarrow> n \<le> u64_max"
| "printable (JNum (Other_number s)) \<longleftrightarrow> False"
| "printable (JStr s) \<longleftrightarrow> utf8_valid (ascii s)"
| "printable (JArr xs) \<longleftrightarrow> (\<forall>x \<in> set xs. printable x)"
| "printable (JObj fs) \<longleftrightarrow> (\<forall>f \<in> set fs. utf8_valid (ascii (fst f)) \<and> printable (snd f))"
| "printable _ \<longleftrightarrow> True"

fun join :: "string \<Rightarrow> string list \<Rightarrow> string" where
  "join sep [] = []"
| "join sep [x] = x"
| "join sep (x # y # zs) = x @ sep @ join sep (y # zs)"

definition field_text :: "json_codec \<Rightarrow> string \<times> json \<Rightarrow> string" where
  "field_text J f = jc_print J (JStr (fst f)) @ '':'' @ jc_print J (snd f)"

text \<open>A name that is printed without an escape.\<close>

definition plain_name :: "string \<Rightarrow> bool" where
  "plain_name s \<longleftrightarrow> (\<forall>ch \<in> set s. CHR 0x20 \<le> ch \<and> ch < CHR 0x7F \<and> ch \<noteq> quote \<and> ch \<noteq> CHR 0x5C)"

definition json_ok :: "json_codec \<Rightarrow> bool" where
  "json_ok J \<longleftrightarrow>
     (\<forall>j. printable j \<longrightarrow> jc_parse J (jc_print J j) = Some j) \<and>
     (\<forall>j. newline \<notin> set (jc_print J j)) \<and>
     (\<forall>fs. jc_print J (JObj fs) = ''{'' @ join '','' (map (field_text J) fs) @ ''}'') \<and>
     (\<forall>s. plain_name s \<longrightarrow> jc_print J (JStr s) = quote # s @ [quote]) \<and>
     (\<forall>n. jc_print J (JNum (U64 n)) = decimal n)"

lemma json_round: "json_ok J \<Longrightarrow> printable j \<Longrightarrow> jc_parse J (jc_print J j) = Some j"
  by (simp add: json_ok_def)

lemma json_object: "json_ok J \<Longrightarrow> jc_print J (JObj fs) = ''{'' @ join '','' (map (field_text J) fs) @ ''}''"
  by (simp add: json_ok_def)

lemma json_name: "json_ok J \<Longrightarrow> plain_name s \<Longrightarrow> jc_print J (JStr s) = quote # s @ [quote]"
  by (simp add: json_ok_def)

lemma json_number: "json_ok J \<Longrightarrow> jc_print J (JNum (U64 n)) = decimal n"
  by (simp add: json_ok_def)

lemma join_append:
  "xs \<noteq> [] \<Longrightarrow> ys \<noteq> [] \<Longrightarrow> join sep (xs @ ys) = join sep xs @ sep @ join sep ys"
proof (induction xs)
  case (Cons x xs)
  then show ?case by (cases xs; cases ys) auto
qed simp

section \<open>\<open>serde_json::Value\<close>\<close>

text \<open>An object becomes a map ordered by key, the last of equal keys winning.\<close>

definition value_map :: "(string \<times> 'a) list \<Rightarrow> (string \<times> 'a) list" where
  "value_map fs = sort_key fst (fold (\<lambda>(k, v). AList.update k v) fs [])"

fun json_value :: "json \<Rightarrow> json" where
  "json_value (JArr xs) = JArr (map json_value xs)"
| "json_value (JObj fs) = JObj (value_map (map (\<lambda>f. (fst f, json_value (snd f))) fs))"
| "json_value j = j"

definition from_slice_value :: "json_codec \<Rightarrow> bytes \<Rightarrow> json option" where
  "from_slice_value J bs = map_option json_value (jc_parse J (text_of bs))"

fun as_object :: "json \<Rightarrow> (string \<times> json) list option" where
  "as_object (JObj fs) = Some fs"
| "as_object _ = None"

fun as_array :: "json \<Rightarrow> json list option" where
  "as_array (JArr xs) = Some xs"
| "as_array _ = None"

fun as_str :: "json \<Rightarrow> string option" where
  "as_str (JStr s) = Some s"
| "as_str _ = None"

fun as_bool :: "json \<Rightarrow> bool option" where
  "as_bool (JBool b) = Some b"
| "as_bool _ = None"

fun as_u64 :: "json \<Rightarrow> nat option" where
  "as_u64 (JNum (U64 n)) = Some n"
| "as_u64 _ = None"

text \<open>\<open>Value::get\<close> by key.\<close>

fun value_get :: "json \<Rightarrow> string \<Rightarrow> json option" where
  "value_get (JObj fs) k = map_of fs k"
| "value_get _ k = None"

lemma distinct_sort_fst: "distinct (map fst fs) \<Longrightarrow> distinct (map fst (sort_key fst fs))"
proof -
  have "mset (map fst (sort_key fst fs)) = mset (map fst fs)" unfolding mset_map mset_sort ..
  then show "distinct (map fst fs) \<Longrightarrow> ?thesis" using mset_eq_imp_distinct_iff by blast
qed

lemma map_of_sort_key:
  assumes "distinct (map fst fs)"
  shows "map_of (sort_key fst fs) k = map_of fs k"
proof (cases "map_of fs k")
  case None
  then have "k \<notin> set (map fst (sort_key fst fs))" by (simp add: map_of_eq_None_iff)
  then have "map_of (sort_key fst fs) k = None" using map_of_eq_None_iff [of "sort_key fst fs" k] by simp
  then show ?thesis using None by simp
next
  case (Some v)
  then have "(k, v) \<in> set (sort_key fst fs)" by (simp add: map_of_SomeD)
  then show ?thesis using Some map_of_eq_Some_iff [OF distinct_sort_fst [OF assms]] by simp
qed

lemma fold_update_distinct:
  "distinct (map fst al) \<Longrightarrow> distinct (map fst (fold (\<lambda>(k, v). AList.update k v) fs al))"
  by (induction fs arbitrary: al) (auto simp: distinct_update)

lemma fold_update_lookup:
  "map_of (fold (\<lambda>(k, v). AList.update k v) fs al) k =
     (case map_of (rev fs) k of None \<Rightarrow> map_of al k | Some v \<Rightarrow> Some v)"
  by (induction fs arbitrary: al) (auto simp: update_conv' map_add_def split: option.split)

lemma value_map_lookup: "map_of (value_map fs) k = map_of (rev fs) k"
  unfolding value_map_def
  by (subst map_of_sort_key) (simp_all add: fold_update_distinct fold_update_lookup split: option.split)

lemma map_of_rev: "distinct (map fst fs) \<Longrightarrow> map_of (rev fs) k = map_of fs k"
proof (induction fs)
  case (Cons f fs)
  then have "fst f \<notin> fst ` set fs" by simp
  then have "map_of fs (fst f) = None" by (simp add: map_of_eq_None_iff)
  then show ?case using Cons by (auto simp: map_add_def split: option.split)
qed simp

lemma value_map_distinct: "distinct (map fst fs) \<Longrightarrow> map_of (value_map fs) k = map_of fs k"
  by (simp add: value_map_lookup map_of_rev)

lemma map_of_map_snd: "map_of (map (\<lambda>f. (fst f, g (snd f))) fs) k = map_option g (map_of fs k)"
  by (induction fs) auto

text \<open>What a printed object reads back as: the lookup of a field finds its value.\<close>

lemma printed_object:
  assumes "json_ok J" and "printable (JObj fs)"
    and "distinct (map fst fs)"
  shows "\<exists>m. from_slice_value J (ascii (jc_print J (JObj fs))) = Some (JObj m) \<and>
    (\<forall>k. map_of m k = map_option json_value (map_of fs k))"
proof -
  have "distinct (map fst (map (\<lambda>f. (fst f, json_value (snd f))) fs))" using assms(3) by (simp add: comp_def)
  then have "map_of (value_map (map (\<lambda>f. (fst f, json_value (snd f))) fs)) k = map_option json_value (map_of fs k)" for k
    by (simp only: value_map_distinct map_of_map_snd)
  moreover have "from_slice_value J (ascii (jc_print J (JObj fs))) =
      Some (JObj (value_map (map (\<lambda>f. (fst f, json_value (snd f))) fs)))"
    using json_round [OF assms(1,2)] by (simp add: from_slice_value_def)
  ultimately show ?thesis by blast
qed

end
