(* ===== verification/Core_Error.thy ===== *)
theory Core_Error
  imports Prelude
begin

text \<open>
  The custody crate's error (\<open>rust/core/src/error.rs\<close>). An error of a library below is the
  text it prints.
\<close>

datatype core_error =
    Bip32 string
  | Keys string
  | WordCount nat
  | PhraseEncoding
  | ExtraWordEncoding
  | EmptyPassphrase
  | Kdf string
  | MalformedBlob string
  | BlobParamBounds
  | WrongPassphraseOrCorrupt
  | DeviceBinding string
  | Seal
  | UnknownAddress string
  | VaultLocked
  | Signing string
  | MalformedEnvelope string
  | TransportKey string
  | TransportOpen
  | TransportSeal
  | HandshakeShape string
  | FrameShape string

fun show_core_error :: "core_error \<Rightarrow> string" where
  "show_core_error (Bip32 e) = ''bip32: '' @ e"
| "show_core_error (Keys e) = ''derivation: '' @ e"
| "show_core_error (WordCount n) =
     ''unsupported mnemonic length: '' @ decimal n @ '' words (expected 12 or 24)''"
| "show_core_error PhraseEncoding = ''mnemonic phrase is not valid UTF-8''"
| "show_core_error ExtraWordEncoding = ''extra word is not valid UTF-8''"
| "show_core_error EmptyPassphrase = ''vault passphrase must not be empty''"
| "show_core_error (Kdf e) = ''key derivation (Argon2id): '' @ e"
| "show_core_error (MalformedBlob reason) = ''sealed blob malformed: '' @ reason"
| "show_core_error BlobParamBounds = ''sealed blob KDF parameters out of bounds (tampered or corrupted)''"
| "show_core_error WrongPassphraseOrCorrupt = ''wrong passphrase or corrupted vault data''"
| "show_core_error (DeviceBinding reason) = ''vault is bound to its phone's hardware key: '' @ reason"
| "show_core_error Seal = ''vault seal failed''"
| "show_core_error (UnknownAddress addr) = ''address not registered with this signer: '' @ addr"
| "show_core_error VaultLocked = ''vault is locked''"
| "show_core_error (Signing e) = ''signing: '' @ e"
| "show_core_error (MalformedEnvelope reason) = ''transport envelope malformed: '' @ reason"
| "show_core_error (TransportKey reason) = ''transport cipher key invalid: '' @ reason"
| "show_core_error TransportOpen = ''transport decrypt failed: wrong key or tampered envelope''"
| "show_core_error TransportSeal = ''transport encrypt failed''"
| "show_core_error (HandshakeShape reason) = ''handshake payload malformed: '' @ reason"
| "show_core_error (FrameShape reason) = ''game frame malformed: '' @ reason"

end
