(* ===== verification/Frames.thy ===== *)
theory Frames
  imports Json Rust_Str Core_Error
begin

text \<open>
  The game frames inside a decrypted message (\<open>rust/core/src/frames.rs\<close>): a readable line, a
  newline and \<open>kv:1:<kind>:<json>\<close>. Text is bytes here as everywhere; the code's offsets are
  byte offsets, and it cuts only at a newline or a colon.
\<close>

section \<open>Kinds and frames\<close>

definition kv_version :: nat where
  "kv_version = 1"

definition game_attack_defend :: string where
  "game_attack_defend = ''attack_defend''"

definition marker_prefix :: string where
  "marker_prefix = ''kv:''"

definition max_field_len :: nat where
  "max_field_len = 64"

datatype frame_kind = Challenge | Accept | Result | Taunt

fun as_token :: "frame_kind \<Rightarrow> string" where
  "as_token Challenge = ''challenge''"
| "as_token Accept = ''accept''"
| "as_token Result = ''result''"
| "as_token Taunt = ''taunt''"

definition from_token :: "string \<Rightarrow> frame_kind option" where
  "from_token token =
     (if token = ''challenge'' then Some Challenge
      else if token = ''accept'' then Some Accept
      else if token = ''result'' then Some Result
      else if token = ''taunt'' then Some Taunt
      else None)"

record kv_frame =
  kf_kind :: frame_kind
  kf_line :: string
  kf_game :: "string option"
  kf_stake :: "string option"
  kf_id :: "string option"
  kf_ref :: "string option"
  kf_detail :: "string option"

datatype parsed = Plain string | Frame kv_frame | Unknown string

section \<open>JSON bodies\<close>

text \<open>
  The derived writers print the fields in order and leave out an absent optional one. The
  derived readers take an object (unknown names ignored, a known name twice refused, an
  optional one absent or null read as none) or an array of the fields in order.
\<close>

record challenge_body =
  cb_game :: string
  cb_stake :: "string option"
  cb_id :: "string option"

type_synonym accept_body = string
type_synonym result_body = "string option \<times> string"
type_synonym taunt_body = string

definition optional_field :: "string \<Rightarrow> string option \<Rightarrow> (string \<times> json) list" where
  "optional_field name v = (case v of None \<Rightarrow> [] | Some s \<Rightarrow> [(name, JStr s)])"

definition challenge_json :: "challenge_body \<Rightarrow> json" where
  "challenge_json b = JObj ((''game'', JStr (cb_game b)) # optional_field ''stake'' (cb_stake b)
     @ optional_field ''id'' (cb_id b))"

definition accept_json :: "accept_body \<Rightarrow> json" where
  "accept_json r = JObj [(''ref'', JStr r)]"

definition taunt_json :: "taunt_body \<Rightarrow> json" where
  "taunt_json t = JObj [(''text'', JStr t)]"

text \<open>A field of an object: absent, there once, or refused.\<close>

definition sole_field :: "string \<Rightarrow> (string \<times> json) list \<Rightarrow> json option option" where
  "sole_field name fs = (case filter (\<lambda>f. fst f = name) fs of
     [] \<Rightarrow> Some None | [f] \<Rightarrow> Some (Some (snd f)) | _ \<Rightarrow> None)"

fun read_optional :: "json option \<Rightarrow> string option option" where
  "read_optional None = Some None"
| "read_optional (Some JNull) = Some None"
| "read_optional (Some (JStr s)) = Some (Some s)"
| "read_optional (Some _) = None"

fun read_required :: "json option \<Rightarrow> string option" where
  "read_required (Some (JStr s)) = Some s"
| "read_required _ = None"

definition required_of :: "string \<Rightarrow> (string \<times> json) list \<Rightarrow> string option" where
  "required_of name fs = Option.bind (sole_field name fs) read_required"

definition optional_of :: "string \<Rightarrow> (string \<times> json) list \<Rightarrow> string option option" where
  "optional_of name fs = Option.bind (sole_field name fs) read_optional"

definition list_get :: "'a list \<Rightarrow> nat \<Rightarrow> 'a option" where
  "list_get xs i = (if i < length xs then Some (xs ! i) else None)"

fun read_challenge :: "json \<Rightarrow> challenge_body option" where
  "read_challenge (JObj fs) =
     (case (required_of ''game'' fs, optional_of ''stake'' fs, optional_of ''id'' fs) of
        (Some g, Some s, Some i) \<Rightarrow> Some \<lparr>cb_game = g, cb_stake = s, cb_id = i\<rparr>
      | _ \<Rightarrow> None)"
| "read_challenge (JArr xs) =
     (case (read_required (list_get xs 0), read_optional (list_get xs 1), read_optional (list_get xs 2)) of
        (Some g, Some s, Some i) \<Rightarrow> if length xs \<le> 3 then Some \<lparr>cb_game = g, cb_stake = s, cb_id = i\<rparr> else None
      | _ \<Rightarrow> None)"
| "read_challenge _ = None"

text \<open>The bodies of one required text.\<close>

fun read_single :: "string \<Rightarrow> json \<Rightarrow> string option" where
  "read_single name (JObj fs) = required_of name fs"
| "read_single name (JArr xs) = (if length xs \<le> 1 then read_required (list_get xs 0) else None)"
| "read_single name _ = None"

definition read_accept :: "json \<Rightarrow> accept_body option" where
  "read_accept j = read_single ''ref'' j"

definition read_taunt :: "json \<Rightarrow> taunt_body option" where
  "read_taunt j = read_single ''text'' j"

fun read_result :: "json \<Rightarrow> result_body option" where
  "read_result (JObj fs) =
     (case (optional_of ''ref'' fs, required_of ''outcome'' fs) of
        (Some r, Some t) \<Rightarrow> Some (r, t) | _ \<Rightarrow> None)"
| "read_result (JArr xs) =
     (case (read_optional (list_get xs 0), read_required (list_get xs 1)) of
        (Some r, Some t) \<Rightarrow> if length xs \<le> 2 then Some (r, t) else None | _ \<Rightarrow> None)"
| "read_result _ = None"

section \<open>Validation\<close>

definition validate_slug :: "string \<Rightarrow> core_error + unit" where
  "validate_slug slug =
     (if slug = [] \<or> max_field_len < length slug
        \<or> \<not> list_all (\<lambda>b. is_ascii_lowercase b \<or> is_ascii_digit b \<or> b = CHR ''_'') slug
      then Inl (FrameShape ''game slug'') else Inr ())"

definition validate_stake :: "string \<Rightarrow> core_error + unit" where
  "validate_stake stake =
     (if stake \<noteq> [] \<and> length stake \<le> max_field_len
        \<and> list_all (\<lambda>b. is_ascii_digit b \<or> b = CHR ''.'') stake
        \<and> length (filter (\<lambda>b. b = CHR ''.'') stake) \<le> 1 \<and> stake \<noteq> ''.''
      then Inr () else Inl (FrameShape ''stake''))"

definition validate_id :: "string \<Rightarrow> core_error + unit" where
  "validate_id i =
     (if i = [] \<or> max_field_len < length i
        \<or> \<not> list_all (\<lambda>b. is_ascii_digit b \<or> b \<in> set ''abcdef'') i
      then Inl (FrameShape ''id'') else Inr ())"

text \<open>Both branches answer the crossed swords, U+2694 U+FE0F.\<close>

definition swords :: string where
  "swords = [CHR 0xE2, CHR 0x9A, CHR 0x94, CHR 0xEF, CHR 0xB8, CHR 0x8F]"

definition game_label :: "string \<Rightarrow> string \<times> string" where
  "game_label game = (if game = game_attack_defend then (swords, ''Attack & Defend'') else (swords, game))"

section \<open>Building\<close>

definition assemble :: "json_codec \<Rightarrow> string \<Rightarrow> frame_kind \<Rightarrow> json \<Rightarrow> string" where
  "assemble J line kind body =
     line @ [newline] @ marker_prefix @ decimal kv_version @ '':'' @ as_token kind @ '':'' @ jc_print J body"

definition dash :: string where
  "dash = [CHR 0xE2, CHR 0x80, CHR 0x94]"

definition check_mark :: string where
  "check_mark = [CHR 0xE2, CHR 0x9C, CHR 0x93]"

definition challenge_line :: "string \<Rightarrow> string option \<Rightarrow> string" where
  "challenge_line game stake =
     (case game_label game of (emoji, name) \<Rightarrow>
        emoji @ '' '' @ name @ '' challenge '' @ dash @ '' ''
          @ (case stake of Some s \<Rightarrow> s @ '' KAS'' | None \<Rightarrow> ''friendly'') @ ''. Open in KaspaVerse to play.'')"

definition build_challenge :: "json_codec \<Rightarrow> string \<Rightarrow> string option \<Rightarrow> string \<Rightarrow> core_error + string" where
  "build_challenge J game stake i =
     (case validate_slug game of Inl e \<Rightarrow> Inl e | Inr _ \<Rightarrow>
     (case (case stake of None \<Rightarrow> Inr () | Some s \<Rightarrow> validate_stake s) of Inl e \<Rightarrow> Inl e | Inr _ \<Rightarrow>
     (case validate_id i of Inl e \<Rightarrow> Inl e | Inr _ \<Rightarrow>
        Inr (assemble J (challenge_line game stake) Challenge
          (challenge_json \<lparr>cb_game = game, cb_stake = stake, cb_id = Some i\<rparr>)))))"

definition accept_line :: "string \<Rightarrow> string" where
  "accept_line game =
     (case game_label game of (emoji, name) \<Rightarrow>
        check_mark @ '' Accepted the '' @ emoji @ '' '' @ name @ '' challenge.'')"

definition build_accept :: "json_codec \<Rightarrow> string \<Rightarrow> string \<Rightarrow> core_error + string" where
  "build_accept J game ref_id =
     (case validate_slug game of Inl e \<Rightarrow> Inl e | Inr _ \<Rightarrow>
     (case validate_id ref_id of Inl e \<Rightarrow> Inl e | Inr _ \<Rightarrow>
        Inr (assemble J (accept_line game) Accept (accept_json ref_id))))"

definition build_taunt :: "json_codec \<Rightarrow> string \<Rightarrow> core_error + string" where
  "build_taunt J msg =
     (let trimmed = trim msg in
      if trimmed = [] then Inl (FrameShape ''empty taunt'')
      else Inr (assemble J trimmed Taunt (taunt_json trimmed)))"

text \<open>The four random bytes are an argument.\<close>

definition fresh_challenge_id :: "bytes \<Rightarrow> string" where
  "fresh_challenge_id random = hex_lower random"

section \<open>Parsing\<close>

definition line_starts :: "string \<Rightarrow> nat list" where
  "line_starts s = 0 # List.map_filter (\<lambda>(i, b). if b = newline then Some (i + 1) else None) (enumerate 0 s)"

definition is_marker_shaped :: "string \<Rightarrow> bool" where
  "is_marker_shaped seg =
     (case strip_prefix marker_prefix seg of
        None \<Rightarrow> False
      | Some rest \<Rightarrow>
          let i = length (takeWhile is_ascii_digit rest) in
          if i = 0 \<or> list_get rest i \<noteq> Some (CHR '':'') then False
          else
            let token_start = i + 1;
                j = token_start + length (takeWhile (\<lambda>b. b \<noteq> CHR '':'') (drop token_start rest))
            in token_start < j \<and> list_get rest j = Some (CHR '':''))"

definition split_once :: "char \<Rightarrow> string \<Rightarrow> (string \<times> string) option" where
  "split_once ch s = (case dropWhile (\<lambda>b. b \<noteq> ch) s of
     [] \<Rightarrow> None | _ # r \<Rightarrow> Some (takeWhile (\<lambda>b. b \<noteq> ch) s, r))"

definition blank :: "frame_kind \<Rightarrow> kv_frame" where
  "blank kind = \<lparr>kf_kind = kind, kf_line = [], kf_game = None, kf_stake = None, kf_id = None,
     kf_ref = None, kf_detail = None\<rparr>"

definition frame_body :: "json_codec \<Rightarrow> frame_kind \<Rightarrow> string \<Rightarrow> kv_frame option" where
  "frame_body J kind json_text =
     (case kind of
        Challenge \<Rightarrow> map_option (\<lambda>b. (blank kind)\<lparr>kf_game := Some (cb_game b), kf_stake := cb_stake b, kf_id := cb_id b\<rparr>)
          (Option.bind (jc_parse J json_text) read_challenge)
      | Accept \<Rightarrow> map_option (\<lambda>r. (blank kind)\<lparr>kf_ref := Some r\<rparr>)
          (Option.bind (jc_parse J json_text) read_accept)
      | Result \<Rightarrow> map_option (\<lambda>(r, outcome). (blank kind)\<lparr>kf_ref := r, kf_detail := Some outcome\<rparr>)
          (Option.bind (jc_parse J json_text) read_result)
      | Taunt \<Rightarrow> map_option (\<lambda>t. (blank kind)\<lparr>kf_detail := Some t\<rparr>)
          (Option.bind (jc_parse J json_text) read_taunt))"

definition classify_frame :: "json_codec \<Rightarrow> string \<Rightarrow> (frame_kind \<times> kv_frame) option" where
  "classify_frame J seg =
     (case strip_prefix marker_prefix seg of None \<Rightarrow> None | Some rest \<Rightarrow>
     (case split_once (CHR '':'') rest of None \<Rightarrow> None | Some (ver, rest) \<Rightarrow>
        if parse_unsigned u32_max ver \<noteq> Some kv_version then None
        else
          (case split_once (CHR '':'') rest of None \<Rightarrow> None | Some (token, json_text) \<Rightarrow>
          (case from_token token of None \<Rightarrow> None | Some kind \<Rightarrow>
             map_option (Pair kind) (frame_body J kind json_text)))))"

fun parse_at :: "json_codec \<Rightarrow> string \<Rightarrow> nat list \<Rightarrow> parsed" where
  "parse_at J s [] = Plain s"
| "parse_at J s (start # starts) =
     (let seg = drop start s in
      if \<not> is_marker_shaped seg then parse_at J s starts
      else
        let line = trim_end (take start s) in
        (case classify_frame J seg of
           Some (kind, frame) \<Rightarrow> Frame (frame\<lparr>kf_kind := kind, kf_line := line\<rparr>)
         | None \<Rightarrow> Unknown (if line = [] then s else line)))"

definition parse :: "json_codec \<Rightarrow> string \<Rightarrow> parsed" where
  "parse J s = parse_at J s (line_starts s)"

end
