(* ===== verification/Json_Codec.thy ===== *)
theory Json_Codec
  imports Json Rust_Str
begin

text \<open>
  A printer and a parser that keep the laws of \<open>json_ok\<close>, written out so that theorems resting
  on those laws can be applied to something. The printer escapes the quote, the backslash and
  the newline; the parser is recursive descent with as much fuel as its text has characters.
\<close>

abbreviation backslash :: char where
  "backslash \<equiv> CHR 0x5C"

definition escape_char :: "char \<Rightarrow> string" where
  "escape_char ch = (if ch = quote \<or> ch = backslash then [backslash, ch]
     else if ch = newline then [backslash, CHR ''n''] else [ch])"

definition print_string :: "string \<Rightarrow> string" where
  "print_string s = quote # concat (map escape_char s) @ [quote]"

fun print_json :: "json \<Rightarrow> string" where
  "print_json JNull = ''null''"
| "print_json (JBool b) = (if b then ''true'' else ''false'')"
| "print_json (JNum (U64 n)) = decimal n"
| "print_json (JNum (Other_number s)) = ''null''"
| "print_json (JStr s) = print_string s"
| "print_json (JArr xs) = ''['' @ join '','' (map print_json xs) @ '']''"
| "print_json (JObj fs) = ''{'' @ join '','' (map (\<lambda>f. print_string (fst f) @ '':'' @ print_json (snd f)) fs) @ ''}''"

fun read_string :: "string \<Rightarrow> (string \<times> string) option" where
  "read_string [] = None"
| "read_string (ch # cs) =
     (if ch = quote then Some ([], cs)
      else if ch = backslash then
        (case cs of
           [] \<Rightarrow> None
         | e # es \<Rightarrow> map_option (\<lambda>(s, r). ((if e = CHR ''n'' then newline else e) # s, r)) (read_string es))
      else map_option (\<lambda>(s, r). (ch # s, r)) (read_string cs))"

definition read_number :: "string \<Rightarrow> nat \<times> string" where
  "read_number s = (digits_value (takeWhile is_ascii_digit s), dropWhile is_ascii_digit s)"

fun read_json :: "nat \<Rightarrow> string \<Rightarrow> (json \<times> string) option"
  and read_elements :: "nat \<Rightarrow> string \<Rightarrow> (json list \<times> string) option"
  and read_fields :: "nat \<Rightarrow> string \<Rightarrow> ((string \<times> json) list \<times> string) option"
where
  "read_json 0 s = None"
| "read_json (Suc n) s = (case s of
     [] \<Rightarrow> None
   | ch # cs \<Rightarrow>
       if ch = quote then map_option (\<lambda>(t, r). (JStr t, r)) (read_string cs)
       else if ch = CHR ''['' then
         (if starts_with cs '']'' then Some (JArr [], tl cs)
          else map_option (\<lambda>(xs, r). (JArr xs, r)) (read_elements n cs))
       else if ch = CHR ''{'' then
         (if starts_with cs ''}'' then Some (JObj [], tl cs)
          else map_option (\<lambda>(fs, r). (JObj fs, r)) (read_fields n cs))
       else if is_ascii_digit ch then (case read_number s of (k, r) \<Rightarrow> Some (JNum (U64 k), r))
       else if starts_with s ''null'' then Some (JNull, drop 4 s)
       else if starts_with s ''true'' then Some (JBool True, drop 4 s)
       else if starts_with s ''false'' then Some (JBool False, drop 5 s)
       else None)"
| "read_elements 0 s = None"
| "read_elements (Suc n) s = (case read_json n s of
     Some (x, ch # r) \<Rightarrow>
       if ch = CHR '','' then map_option (\<lambda>(xs, r'). (x # xs, r')) (read_elements n r)
       else if ch = CHR '']'' then Some ([x], r)
       else None
   | _ \<Rightarrow> None)"
| "read_fields 0 s = None"
| "read_fields (Suc n) s = (case s of
     [] \<Rightarrow> None
   | q # s' \<Rightarrow>
       (case read_string s' of
          Some (k, c # r) \<Rightarrow>
            if q = quote \<and> c = CHR '':'' then
              (case read_json n r of
                 Some (x, ch # r') \<Rightarrow>
                   if ch = CHR '','' then map_option (\<lambda>(fs, r''). ((k, x) # fs, r'')) (read_fields n r')
                   else if ch = CHR ''}'' then Some ([(k, x)], r')
                   else None
               | _ \<Rightarrow> None)
            else None
        | _ \<Rightarrow> None))"

definition small_codec :: json_codec where
  "small_codec = \<lparr>jc_print = print_json,
     jc_parse = (\<lambda>s. case read_json (length s) s of Some (j, []) \<Rightarrow> Some j | _ \<Rightarrow> None)\<rparr>"

section \<open>Strings and numbers there and back\<close>

lemma read_print_string: "read_string (concat (map escape_char s) @ quote # r) = Some (s, r)"
  by (induction s) (auto simp: escape_char_def)

definition stops :: "string \<Rightarrow> bool" where
  "stops r \<longleftrightarrow> r = [] \<or> \<not> is_ascii_digit (hd r)"

lemma read_decimal: "stops r \<Longrightarrow> read_number (decimal n @ r) = (n, r)"
proof -
  assume r: "stops r"
  have "\<forall>ch \<in> set (decimal n). is_ascii_digit ch" using decimal_digits [of n] by (simp add: list_all_iff)
  then have "takeWhile is_ascii_digit (decimal n @ r) = decimal n @ takeWhile is_ascii_digit r"
    "dropWhile is_ascii_digit (decimal n @ r) = dropWhile is_ascii_digit r"
    by (simp_all add: takeWhile_append dropWhile_append)
  moreover have "takeWhile is_ascii_digit r = []" "dropWhile is_ascii_digit r = r"
    using r by (cases r; simp add: stops_def)+
  ultimately show ?thesis by (simp add: read_number_def digits_value_decimal)
qed

section \<open>Documents there and back\<close>

text \<open>The fuel a document needs.\<close>

fun weight :: "json \<Rightarrow> nat" where
  "weight (JArr xs) = Suc (sum_list (map (\<lambda>x. Suc (weight x)) xs))"
| "weight (JObj fs) = Suc (sum_list (map (\<lambda>f. Suc (weight (snd f))) fs))"
| "weight _ = 1"

lemma weight_pos: "0 < weight j"
  by (cases j) auto

definition reads_back :: "json \<Rightarrow> bool" where
  "reads_back j \<longleftrightarrow> (\<forall>n r. weight j \<le> n \<longrightarrow> stops r \<longrightarrow> read_json n (print_json j @ r) = Some (j, r))"

lemma stops_Cons: "stops (CHR '','' # r)" "stops (CHR '']'' # r)" "stops (CHR ''}'' # r)"
  by (simp_all add: stops_def is_ascii_digit_def)

lemma read_elements_back:
  assumes "xs \<noteq> []" and "\<forall>x \<in> set xs. reads_back x" and "sum_list (map (\<lambda>x. Suc (weight x)) xs) \<le> n"
  shows "read_elements n (join '','' (map print_json xs) @ CHR '']'' # r) = Some (xs, r)"
  using assms
proof (induction xs arbitrary: n)
  case (Cons x xs)
  from Cons.prems(3) obtain m where n: "n = Suc m" by (cases n) auto
  then have x: "weight x \<le> m" and xs: "sum_list (map (\<lambda>x. Suc (weight x)) xs) \<le> m" using Cons.prems(3) by simp_all
  have got: "\<And>r. stops r \<Longrightarrow> read_json m (print_json x @ r) = Some (x, r)"
    using Cons.prems(2) x by (simp add: reads_back_def)
  show ?case
  proof (cases xs)
    case Nil
    then show ?thesis using n got [OF stops_Cons(2)] by simp
  next
    case (Cons y ys)
    then have "read_elements m (join '','' (map print_json xs) @ CHR '']'' # r) = Some (xs, r)"
      using Cons.IH Cons.prems(2) xs by simp
    moreover have "join '','' (map print_json (x # xs)) = print_json x @ CHR '','' # join '','' (map print_json xs)"
      using Cons by simp
    ultimately show ?thesis using n got [OF stops_Cons(1)] by simp
  qed
qed simp

lemma read_fields_back:
  assumes "fs \<noteq> []" and "\<forall>f \<in> set fs. reads_back (snd f)" and "sum_list (map (\<lambda>f. Suc (weight (snd f))) fs) \<le> n"
  shows "read_fields n (join '','' (map (\<lambda>f. print_string (fst f) @ '':'' @ print_json (snd f)) fs) @ CHR ''}'' # r) = Some (fs, r)"
  using assms
proof (induction fs arbitrary: n)
  case (Cons f fs)
  let ?p = "\<lambda>f. print_string (fst f) @ '':'' @ print_json (snd f)"
  from Cons.prems(3) obtain m where n: "n = Suc m" by (cases n) auto
  then have x: "weight (snd f) \<le> m" and fs: "sum_list (map (\<lambda>f. Suc (weight (snd f))) fs) \<le> m"
    using Cons.prems(3) by simp_all
  have got: "\<And>r. stops r \<Longrightarrow> read_json m (print_json (snd f) @ r) = Some (snd f, r)"
    using Cons.prems(2) x by (simp add: reads_back_def)
  have key: "\<And>r. read_string (concat (map escape_char (fst f)) @ quote # r) = Some (fst f, r)"
    by (rule read_print_string)
  show ?case
  proof (cases fs)
    case Nil
    then show ?thesis using n got [OF stops_Cons(3)] key by (simp add: print_string_def)
  next
    case (Cons y ys)
    then have "read_fields m (join '','' (map ?p fs) @ CHR ''}'' # r) = Some (fs, r)"
      using Cons.IH Cons.prems(2) fs by simp
    moreover have "join '','' (map ?p (f # fs)) = ?p f @ CHR '','' # join '','' (map ?p fs)"
      using Cons by simp
    ultimately show ?thesis using n got [OF stops_Cons(1)] key by (simp add: print_string_def)
  qed
qed simp

text \<open>No printed document opens with a closing bracket.\<close>

lemma decimal_Cons: "\<exists>d ds. decimal n = d # ds \<and> is_ascii_digit d"
  using decimal_nonempty [of n] decimal_digits [of n] by (cases "decimal n") auto

lemma print_first: "\<exists>ch cs. print_json j = ch # cs \<and> ch \<noteq> CHR '']''"
proof (cases "\<exists>k. j = JNum (U64 k)")
  case True
  then obtain k where k: "j = JNum (U64 k)" ..
  obtain d ds where "decimal k = d # ds" "is_ascii_digit d" using decimal_Cons by blast
  then show ?thesis unfolding k by (auto simp: is_ascii_digit_def)
next
  case False
  then show ?thesis by (cases j rule: print_json.cases) (auto simp: print_string_def)
qed

lemma join_first: "xs \<noteq> [] \<Longrightarrow> x # cs = hd xs \<Longrightarrow> \<exists>r. join sep xs = x # r"
  by (cases xs; cases "tl xs") auto

lemma digit_apart: "is_ascii_digit d \<Longrightarrow> d \<noteq> quote \<and> d \<noteq> CHR ''['' \<and> d \<noteq> CHR ''{''"
  by (auto simp: is_ascii_digit_def)

lemma reads_back_number: "reads_back (JNum (U64 k))"
  unfolding reads_back_def
proof (intro allI impI)
  fix n r assume n: "weight (JNum (U64 k)) \<le> n" and r: "stops r"
  obtain m where m: "n = Suc m" using n by (cases n) auto
  obtain d ds where d: "decimal k = d # ds" "is_ascii_digit d" using decimal_Cons by blast
  have "read_number (d # (ds @ r)) = (k, r)" using read_decimal [OF r, of k] d(1) by simp
  then show "read_json n (print_json (JNum (U64 k)) @ r) = Some (JNum (U64 k), r)"
    using m d digit_apart [OF d(2)] by simp
qed

lemma reads_back_all: "printable j \<Longrightarrow> reads_back j"
proof (induction j rule: printable.induct)
  case (1 n) show ?case by (rule reads_back_number)
next
  case (2 s) then show ?case by simp
next
  case (3 s)
  have "read_string (concat (map escape_char s) @ quote # r) = Some (s, r)" for r by (rule read_print_string)
  then show ?case by (auto simp: reads_back_def print_string_def Suc_le_eq gr0_conv_Suc)
next
  case (4 xs)
  then have xs: "\<forall>x \<in> set xs. reads_back x" by simp
  show ?case unfolding reads_back_def
  proof (intro allI impI)
    fix n r assume n: "weight (JArr xs) \<le> n"
    obtain m where m: "n = Suc m" using n by (cases n) auto
    show "read_json n (print_json (JArr xs) @ r) = Some (JArr xs, r)"
    proof (cases "xs = []")
      case False
      obtain ch cs where "print_json (hd xs) = ch # cs" "ch \<noteq> CHR '']''" using print_first by blast
      then obtain r' where j: "join '','' (map print_json xs) = ch # r'" "ch \<noteq> CHR '']''"
        using join_first [of "map print_json xs" ch cs "'',''"] False by (auto simp: hd_map)
      have "read_elements m (join '','' (map print_json xs) @ CHR '']'' # r) = Some (xs, r)"
        using read_elements_back [OF False xs] n m by simp
      then show ?thesis using m j by (simp add: starts_with_def is_ascii_digit_def)
    qed (simp add: m starts_with_def)
  qed
next
  case (5 fs)
  then have fs: "\<forall>f \<in> set fs. reads_back (snd f)" by simp
  show ?case unfolding reads_back_def
  proof (intro allI impI)
    fix n r assume n: "weight (JObj fs) \<le> n"
    obtain m where m: "n = Suc m" using n by (cases n) auto
    show "read_json n (print_json (JObj fs) @ r) = Some (JObj fs, r)"
    proof (cases "fs = []")
      case False
      let ?p = "\<lambda>f. print_string (fst f) @ '':'' @ print_json (snd f)"
      have "\<exists>cs. quote # cs = hd (map ?p fs)" using False by (auto simp: hd_map print_string_def)
      then obtain r' where j: "join '','' (map ?p fs) = quote # r'"
        using join_first [of "map ?p fs" quote _ "'',''"] False by auto
      have "read_fields m (join '','' (map ?p fs) @ CHR ''}'' # r) = Some (fs, r)"
        using read_fields_back [OF False fs] n m by simp
      then show ?thesis using m j by (simp add: starts_with_def)
    qed (simp add: m starts_with_def)
  qed
qed (auto simp: reads_back_def starts_with_def is_ascii_digit_def Suc_le_eq gr0_conv_Suc)

section \<open>The laws\<close>

lemma sum_join:
  "(\<And>x. x \<in> set xs \<Longrightarrow> f x \<le> length (g x)) \<Longrightarrow> sum_list (map (\<lambda>x. Suc (f x)) xs) \<le> Suc (length (join [sep] (map g xs)))"
proof (induction xs)
  case (Cons x xs)
  have "f x \<le> length (g x)" using Cons.prems by simp
  moreover have "sum_list (map (\<lambda>x. Suc (f x)) xs) \<le> Suc (length (join [sep] (map g xs)))" using Cons by simp
  ultimately show ?case by (cases xs) auto
qed simp

lemma weight_length: "weight j \<le> length (print_json j)"
proof (induction j rule: printable.induct)
  case (1 n)
  show ?case using decimal_nonempty [of n] by (cases "decimal n") auto
next
  case (4 xs)
  then show ?case using sum_join [of xs weight print_json] by fastforce
next
  case (5 fs)
  have "sum_list (map (\<lambda>f. Suc (weight (snd f))) fs) \<le>
      Suc (length (join '','' (map (\<lambda>f. print_string (fst f) @ '':'' @ print_json (snd f)) fs)))"
    by (rule sum_join) (use 5 in fastforce)
  then show ?case by simp
qed (auto simp: print_string_def)

lemma escape_plain: "plain_name s \<Longrightarrow> concat (map escape_char s) = s"
proof (induction s)
  case (Cons ch s)
  then have "ch \<noteq> quote" "ch \<noteq> backslash" "CHR 0x20 \<le> ch" by (simp_all add: plain_name_def)
  moreover have "\<not> CHR 0x20 \<le> newline" by simp
  ultimately have "escape_char ch = [ch]" by (auto simp: escape_char_def)
  then show ?case using Cons by (simp add: plain_name_def)
qed simp

lemma newline_escaped: "newline \<notin> set (print_string s)"
  by (auto simp: print_string_def escape_char_def)

lemma set_join: "set (join sep xs) \<subseteq> set sep \<union> \<Union> (set (map set xs))"
  by (induction xs rule: join.induct) auto

lemma newline_free: "newline \<notin> set (print_json j)"
proof (induction j rule: printable.induct)
  case (1 n)
  have "\<not> is_ascii_digit newline" by (simp add: is_ascii_digit_def)
  then show ?case using decimal_digits [of n] by (auto simp: list_all_iff)
next
  case (4 xs)
  then show ?case using set_join [of "'',''" "map print_json xs"] by auto
next
  case (5 fs)
  let ?p = "\<lambda>f. print_string (fst f) @ '':'' @ print_json (snd f)"
  have "\<forall>f \<in> set fs. newline \<notin> set (?p f)" using 5 newline_escaped by simp
  then have "newline \<notin> set '','' \<union> \<Union> (set (map set (map ?p fs)))" by auto
  then have "newline \<notin> set (join '','' (map ?p fs))" using set_join [of "'',''" "map ?p fs"] by blast
  then show ?case by simp
qed (use newline_escaped in auto)

theorem small_codec_ok: "json_ok small_codec"
proof -
  have "jc_parse small_codec (jc_print small_codec j) = Some j" if "printable j" for j
  proof -
    have "stops []" by (simp add: stops_def)
    then have "read_json (length (print_json j)) (print_json j @ []) = Some (j, [])"
      using reads_back_all [OF that] weight_length [of j] unfolding reads_back_def by blast
    then show ?thesis by (simp add: small_codec_def)
  qed
  moreover have "field_text small_codec = (\<lambda>f. print_string (fst f) @ '':'' @ print_json (snd f))"
    by (rule ext) (simp add: field_text_def small_codec_def)
  moreover have "jc_print small_codec = print_json" by (simp add: small_codec_def)
  ultimately show ?thesis
    unfolding json_ok_def using newline_free by (simp add: print_string_def escape_plain)
qed

end
