(* ===== verification/Plain_Text.thy ===== *)
theory Plain_Text
  imports Json Rust_Str
begin

text \<open>
  Names of plain characters: ASCII from the space on, without the quote and the backslash. They
  are valid text, hold no newline and are printed as they are.
\<close>

definition wire_text :: "string \<Rightarrow> bool" where
  "wire_text s \<longleftrightarrow> utf8_valid (ascii s)"

lemma unat_byte_of_char: "unat (byte_of_char ch) = (of_char ch :: nat)"
proof -
  have "(of_char ch :: nat) < 256"
    using mod_less_divisor [of 256 "of_char ch :: nat"] by (simp only: of_char_mod_256)
  then have "unat (of_nat (of_char ch) :: byte) = of_char ch" by (simp add: unat_of_nat)
  then show ?thesis by (simp add: byte_of_char_def of_nat_of_char)
qed

lemma plain_is_text: "plain_name s \<Longrightarrow> wire_text s"
proof -
  assume plain: "plain_name s"
  have "unat (byte_of_char ch) < 128" if "ch \<in> set s" for ch
  proof -
    have "ch < CHR 0x7F" using plain that by (simp add: plain_name_def)
    then have "(of_char ch :: nat) < of_char (CHR 0x7F)" by (simp only: less_char_def)
    then show ?thesis by (simp add: unat_byte_of_char)
  qed
  then show ?thesis unfolding wire_text_def by (intro utf8_valid_ascii) (auto simp: ascii_def)
qed

lemma plain_newline: "plain_name s \<Longrightarrow> newline \<notin> set s"
proof
  assume "plain_name s" "newline \<in> set s"
  then have "CHR 0x20 \<le> newline" unfolding plain_name_def by blast
  then show False by simp
qed

definition plain_char :: "char \<Rightarrow> bool" where
  "plain_char ch \<longleftrightarrow> CHR 0x20 \<le> ch \<and> ch < CHR 0x7F \<and> ch \<noteq> quote \<and> ch \<noteq> CHR 0x5C"

lemma plain_name_chars: "plain_name s \<longleftrightarrow> list_all plain_char s"
  by (simp add: plain_name_def plain_char_def list_all_iff)

lemma plain_listed:
  "list_all plain_char ''abcdefghijklmnopqrstuvwxyz0123456789._ABCDEFGHIJKLMNOPQRSTUVWXYZ''"
  by (simp add: plain_char_def)

lemma plain_classes:
  "is_ascii_digit ch \<or> is_ascii_lowercase ch \<or> ch = CHR ''_'' \<or> ch = CHR ''.'' \<or> ch \<in> set ''abcdef'' \<Longrightarrow> plain_char ch"
  using plain_listed by (auto simp: is_ascii_digit_def is_ascii_lowercase_def)

lemma hexdigit_plain: "is_ascii_hexdigit ch \<Longrightarrow> plain_char ch"
proof -
  assume "is_ascii_hexdigit ch"
  then consider "is_ascii_digit ch" | "ch \<in> set ''abcdef''" | "ch \<in> set ''ABCDEF''"
    unfolding is_ascii_hexdigit_def by blast
  then show ?thesis
  proof cases
    case 3
    have "list_all plain_char ''ABCDEF''" using plain_listed by simp
    then show ?thesis using 3 unfolding list_all_iff by blast
  qed (use plain_classes in blast)+
qed

lemma hex_text: "list_all is_ascii_hexdigit s \<Longrightarrow> wire_text s"
  by (rule plain_is_text) (auto simp: plain_name_chars list_all_iff hexdigit_plain)

lemma plain_literal: "list_all plain_char s \<Longrightarrow> plain_name s \<and> wire_text s"
  by (simp add: plain_is_text plain_name_chars)

end
