(* ===== verification/Frames_Props.thy ===== *)
theory Frames_Props
  imports Frames Json_Codec Plain_Text
begin

text \<open>
  What the frames promise: a built invitation reads back as the card of its fields, the card
  comes from the JSON and never from the line, anything else degrades to text; and the one
  case in which a taunt does not read back.
\<close>

section \<open>Line starts and markers\<close>

lemma map_filter_append: "List.map_filter f (xs @ ys) = List.map_filter f xs @ List.map_filter f ys"
  by (simp add: List.map_filter_def)

lemma enumerate_shift:
  "List.map_filter (\<lambda>(i, b). if b = newline then Some (i + 1) else None) (enumerate (k + n) s) =
   map ((+) k) (List.map_filter (\<lambda>(i, b). if b = newline then Some (i + 1) else None) (enumerate n s))"
  by (induction s arbitrary: n) (simp_all add: map_filter_simps flip: add_Suc_right)

lemma line_starts_append:
  "line_starts (xs @ newline # ys) = line_starts xs @ map ((+) (Suc (length xs))) (line_starts ys)"
  using enumerate_shift [of "Suc (length xs)" 0 ys]
  by (simp add: line_starts_def enumerate_append_eq map_filter_append map_filter_simps)

lemma line_starts_one: "newline \<notin> set xs \<Longrightarrow> line_starts xs = [0]"
proof -
  assume "newline \<notin> set xs"
  then have "List.map_filter (\<lambda>(i, b). if b = newline then Some (i + 1) else None) (enumerate n xs) = []" for n
    by (induction xs arbitrary: n) (auto simp: map_filter_simps)
  then show ?thesis by (simp add: line_starts_def)
qed

lemma parse_at_skip:
  "\<forall>a \<in> set as. \<not> is_marker_shaped (drop a s) \<Longrightarrow> parse_at J s (as @ bs) = parse_at J s bs"
  by (induction as) (auto simp: Let_def)

lemma newline_is_space: "trim_end (s @ [newline]) = trim_end s"
proof -
  have "find (\<lambda>w. w \<noteq> [] \<and> starts_with (newline # rev s) w) (map rev whitespace) = Some [newline]"
    by (simp add: whitespace_def starts_with_def)
  then show ?thesis unfolding trim_end_def by (subst strip_words.simps) simp
qed

lemma length_trim_end: "length (trim_end s) \<le> length s"
  using trim_end_prefix [of s] by (metis length_append le_add1)

text \<open>The lines before the one that holds the marker.\<close>

definition unmarked :: "string \<Rightarrow> string \<Rightarrow> bool" where
  "unmarked line seg \<longleftrightarrow> (\<forall>a \<in> set (line_starts line). \<not> is_marker_shaped (drop a (line @ newline # seg)))"

definition degrade :: "json_codec \<Rightarrow> string \<Rightarrow> string \<Rightarrow> parsed" where
  "degrade J line seg = (case classify_frame J seg of
     Some (kind, frame) \<Rightarrow> Frame (frame\<lparr>kf_kind := kind, kf_line := trim_end line\<rparr>)
   | None \<Rightarrow> Unknown (if trim_end line = [] then line @ newline # seg else trim_end line))"

lemma parse_marker:
  assumes "unmarked line seg" and "is_marker_shaped seg"
  shows "parse J (line @ newline # seg) = degrade J line seg"
proof -
  obtain more_starts where "line_starts seg = 0 # more_starts" by (simp add: line_starts_def)
  then have "parse J (line @ newline # seg) =
      parse_at J (line @ newline # seg) (Suc (length line) # map ((+) (Suc (length line))) more_starts)"
    using parse_at_skip assms(1) unfolding parse_def line_starts_append unmarked_def by simp
  moreover have "trim_end (take (Suc (length line)) (line @ newline # seg)) = trim_end line"
    by (simp add: newline_is_space)
  ultimately show ?thesis using assms(2) by (simp add: degrade_def Let_def newline_is_space split: option.split)
qed

lemma not_marked: "hd seg \<noteq> CHR ''k'' \<Longrightarrow> seg \<noteq> [] \<Longrightarrow> \<not> is_marker_shaped seg"
  by (cases seg) (auto simp: is_marker_shaped_def marker_prefix_def strip_prefix_def split: option.splits if_splits)

section \<open>What is assembled\<close>

definition marker :: "frame_kind \<Rightarrow> string \<Rightarrow> string" where
  "marker kind body = marker_prefix @ decimal kv_version @ '':'' @ as_token kind @ '':'' @ body"

lemma assemble_marker: "assemble J line kind body = line @ newline # marker kind (jc_print J body)"
  by (simp add: assemble_def marker_def)

lemma decimal_one: "decimal kv_version = ''1''"
  by (simp add: kv_version_def decimal.simps digit_def)

lemma marker_shaped: "is_marker_shaped (marker kind body)"
  unfolding marker_def is_marker_shaped_def strip_prefix_append decimal_one
  by (cases kind) (simp_all add: list_get_def is_ascii_digit_def Let_def)

lemma token_inverse [simp]: "from_token (as_token kind) = Some kind"
  by (cases kind) (simp_all add: from_token_def)

lemma split_token: "split_once (CHR '':'') (as_token kind @ '':'' @ body) = Some (as_token kind, body)"
  by (cases kind) (simp_all add: split_once_def)

lemma classify_marker: "classify_frame J (marker kind body) = map_option (Pair kind) (frame_body J kind body)"
proof -
  have "split_once (CHR '':'') (''1'' @ '':'' @ as_token kind @ '':'' @ body) = Some (''1'', as_token kind @ '':'' @ body)"
    by (simp add: split_once_def)
  moreover have "parse_unsigned u32_max ''1'' = Some kv_version"
    using parse_decimal [of kv_version u32_max] unfolding decimal_one by (simp add: kv_version_def u32_max_def)
  ultimately show ?thesis
    using split_token [of kind body]
    unfolding classify_frame_def marker_def strip_prefix_append decimal_one by simp
qed

section \<open>Bodies there and back\<close>

lemma required_single [simp]: "required_of name [(name, JStr s)] = Some s"
  by (simp add: required_of_def sole_field_def)

lemma read_challenge_json: "read_challenge (challenge_json b) = Some b"
  by (cases "cb_stake b"; cases "cb_id b")
    (simp_all add: challenge_json_def optional_field_def required_of_def optional_of_def sole_field_def)

lemma printable_challenge:
  "wire_text (cb_game b) \<Longrightarrow> (\<forall>s. cb_stake b = Some s \<longrightarrow> wire_text s) \<Longrightarrow> (\<forall>s. cb_id b = Some s \<longrightarrow> wire_text s) \<Longrightarrow>
     printable (challenge_json b)"
  by (cases "cb_stake b"; cases "cb_id b")
    (simp_all add: challenge_json_def optional_field_def wire_text_def literal utf8_valid_ascii)

lemma slug_plain: "validate_slug g = Inr u \<Longrightarrow> plain_name g"
  by (auto simp: validate_slug_def plain_name_chars list_all_iff split: if_splits intro: plain_classes)

lemma stake_plain: "validate_stake g = Inr u \<Longrightarrow> plain_name g"
  by (auto simp: validate_stake_def plain_name_chars list_all_iff split: if_splits intro: plain_classes)

lemma id_plain: "validate_id g = Inr u \<Longrightarrow> plain_name g"
  unfolding validate_id_def plain_name_chars list_all_iff
  by (auto split: if_splits intro!: plain_classes)

lemma printable_single: "wire_text s \<Longrightarrow> plain_name name \<Longrightarrow> printable (JObj [(name, JStr s)])"
  using plain_is_text [of name] by (simp add: wire_text_def)

section \<open>Generated lines\<close>

lemma generated_unmarked:
  assumes "newline \<notin> set line" and "line = CHR 0xE2 # rest"
  shows "unmarked line seg"
  unfolding unmarked_def line_starts_one [OF assms(1)] by (simp add: assms(2) not_marked)

lemma challenge_line_shape:
  assumes "plain_name game" and "\<forall>s. stake = Some s \<longrightarrow> plain_name s"
  shows "newline \<notin> set (challenge_line game stake)" "\<exists>r. challenge_line game stake = CHR 0xE2 # r"
    "trim_end (challenge_line game stake) = challenge_line game stake"
proof -
  have n: "newline \<notin> set game" "\<forall>s. stake = Some s \<longrightarrow> newline \<notin> set s"
    using plain_newline [OF assms(1)] assms(2) plain_newline by blast+
  show "newline \<notin> set (challenge_line game stake)"
    using n by (cases stake) (simp_all add: challenge_line_def game_label_def swords_def dash_def)
  show "\<exists>r. challenge_line game stake = CHR 0xE2 # r"
    by (simp add: challenge_line_def game_label_def swords_def)
  show "trim_end (challenge_line game stake) = challenge_line game stake"
    by (rule trim_end_kept) (simp add: challenge_line_def game_label_def split: option.split)
qed

lemma accept_line_shape:
  assumes "plain_name game"
  shows "newline \<notin> set (accept_line game)" "\<exists>r. accept_line game = CHR 0xE2 # r" "trim_end (accept_line game) = accept_line game"
proof -
  show "newline \<notin> set (accept_line game)"
    using plain_newline [OF assms] by (simp add: accept_line_def game_label_def swords_def check_mark_def)
  show "\<exists>r. accept_line game = CHR 0xE2 # r" by (simp add: accept_line_def game_label_def check_mark_def)
  show "trim_end (accept_line game) = accept_line game"
    by (rule trim_end_kept) (simp add: accept_line_def game_label_def)
qed

section \<open>Properties\<close>

text \<open>
  C26. A built invitation reads back as its card. A challenge and an acceptance that the builder
  accepts parse to a frame of their kind with the generated line and exactly the fields they
  were built from.
\<close>

theorem frames_round_trip:
  assumes "json_ok J"
  shows "(\<forall>wire. build_challenge J game stake i = Inr wire \<longrightarrow> parse J wire = Frame
      \<lparr>kf_kind = Challenge, kf_line = challenge_line game stake, kf_game = Some game, kf_stake = stake,
       kf_id = Some i, kf_ref = None, kf_detail = None\<rparr>) \<and>
    (\<forall>wire. build_accept J game i = Inr wire \<longrightarrow> parse J wire = Frame
      \<lparr>kf_kind = Accept, kf_line = accept_line game, kf_game = None, kf_stake = None,
       kf_id = None, kf_ref = Some i, kf_detail = None\<rparr>)"
proof (intro conjI allI impI)
  fix wire assume built: "build_challenge J game stake i = Inr wire"
  define b where "b = \<lparr>cb_game = game, cb_stake = stake, cb_id = Some i\<rparr>"
  have plain: "plain_name game" "\<forall>s. stake = Some s \<longrightarrow> plain_name s" "plain_name i"
    and wire: "wire = challenge_line game stake @ newline # marker Challenge (jc_print J (challenge_json b))"
    using built slug_plain stake_plain id_plain
    by (auto simp: build_challenge_def assemble_marker b_def split: sum.splits option.splits)
  note line = challenge_line_shape [OF plain(1,2)]
  obtain r where "challenge_line game stake = CHR 0xE2 # r" using line(2) ..
  note un = generated_unmarked [OF line(1) this]
  have "printable (challenge_json b)" by (rule printable_challenge) (use plain plain_is_text in \<open>auto simp: b_def\<close>)
  then have "jc_parse J (jc_print J (challenge_json b)) = Some (challenge_json b)" by (rule json_round [OF assms])
  then show "parse J wire = Frame \<lparr>kf_kind = Challenge, kf_line = challenge_line game stake, kf_game = Some game,
      kf_stake = stake, kf_id = Some i, kf_ref = None, kf_detail = None\<rparr>"
    unfolding wire parse_marker [OF un marker_shaped] degrade_def classify_marker
    by (simp add: frame_body_def read_challenge_json line(3) blank_def b_def)
next
  fix wire assume built: "build_accept J game i = Inr wire"
  have plain: "plain_name game" "plain_name i"
    and wire: "wire = accept_line game @ newline # marker Accept (jc_print J (accept_json i))"
    using built slug_plain id_plain
    by (auto simp: build_accept_def assemble_marker split: sum.splits option.splits)
  note line = accept_line_shape [OF plain(1)]
  obtain r where "accept_line game = CHR 0xE2 # r" using line(2) ..
  note un = generated_unmarked [OF line(1) this]
  have "plain_name ''ref''" by (simp add: plain_name_def)
  then have "jc_parse J (jc_print J (accept_json i)) = Some (accept_json i)"
    unfolding accept_json_def using json_round [OF assms] printable_single [OF plain_is_text [OF plain(2)]] by blast
  then show "parse J wire = Frame \<lparr>kf_kind = Accept, kf_line = accept_line game, kf_game = None,
      kf_stake = None, kf_id = None, kf_ref = Some i, kf_detail = None\<rparr>"
    unfolding wire parse_marker [OF un marker_shaped] degrade_def classify_marker
    by (simp add: frame_body_def read_accept_def accept_json_def line(3) blank_def)
qed

lemma frames_round_trip_witness:
  "\<exists>wire f. build_challenge small_codec ''duel'' (Some ''10'') ''a1'' = Inr wire \<and>
     parse small_codec wire = Frame f \<and> kf_stake f = Some ''10''"
proof -
  have "validate_slug ''duel'' = Inr ()"
    by (simp add: validate_slug_def max_field_len_def is_ascii_lowercase_def)
  moreover have "validate_stake ''10'' = Inr ()"
    by (simp add: validate_stake_def max_field_len_def is_ascii_digit_def)
  moreover have "validate_id ''a1'' = Inr ()"
    by (simp add: validate_id_def max_field_len_def is_ascii_digit_def)
  ultimately obtain wire where w: "build_challenge small_codec ''duel'' (Some ''10'') ''a1'' = Inr wire"
    by (simp add: build_challenge_def)
  have "parse small_codec wire = Frame
      \<lparr>kf_kind = Challenge, kf_line = challenge_line ''duel'' (Some ''10''), kf_game = Some ''duel'',
       kf_stake = Some ''10'', kf_id = Some ''a1'', kf_ref = None, kf_detail = None\<rparr>"
    using frames_round_trip [OF small_codec_ok, of "''duel''" "Some ''10''" "''a1''"] w by blast
  then show ?thesis using w by fastforce
qed

lemma slug_shape:
  "{s. validate_slug s = Inr ()} \<subseteq> {s. s \<noteq> [] \<and> length s \<le> 64 \<and> CHR '':'' \<notin> set s \<and> newline \<notin> set s}"
proof
  fix s assume "s \<in> {s. validate_slug s = Inr ()}"
  then have s: "s \<noteq> []" "length s \<le> 64"
    and cs: "list_all (\<lambda>b. is_ascii_lowercase b \<or> is_ascii_digit b \<or> b = CHR ''_'') s"
    by (simp_all add: validate_slug_def max_field_len_def split: if_splits)
  have "\<not> (is_ascii_lowercase (CHR '':'') \<or> is_ascii_digit (CHR '':'') \<or> CHR '':'' = CHR ''_'')"
    "\<not> (is_ascii_lowercase newline \<or> is_ascii_digit newline \<or> newline = CHR ''_'')"
    by (simp_all add: is_ascii_lowercase_def is_ascii_digit_def)
  then show "s \<in> {s. s \<noteq> [] \<and> length s \<le> 64 \<and> CHR '':'' \<notin> set s \<and> newline \<notin> set s}"
    using s cs unfolding list_all_iff by blast
qed

lemma stake_shape: "{s. validate_stake s = Inr ()} \<subseteq> {s. length s \<le> 64 \<and> set s \<subseteq> set ''0123456789.''}"
proof
  fix s assume "s \<in> {s. validate_stake s = Inr ()}"
  then have "length s \<le> 64" "list_all (\<lambda>b. is_ascii_digit b \<or> b = CHR ''.'') s"
    by (simp_all add: validate_stake_def max_field_len_def split: if_splits)
  moreover have "set ''0123456789.'' = set ''0123456789'' \<union> {CHR ''.''}" by (simp add: insert_commute)
  ultimately show "s \<in> {s. length s \<le> 64 \<and> set s \<subseteq> set ''0123456789.''}"
    unfolding list_all_iff is_ascii_digit_def by blast
qed

lemma id_shape: "{s. validate_id s = Inr ()} \<subseteq> {s. s \<noteq> [] \<and> length s \<le> 64 \<and> set s \<subseteq> set ''0123456789abcdef''}"
proof
  fix s assume "s \<in> {s. validate_id s = Inr ()}"
  then have "s \<noteq> []" "length s \<le> 64" "list_all (\<lambda>b. is_ascii_digit b \<or> b \<in> set ''abcdef'') s"
    unfolding validate_id_def max_field_len_def by (metis (lifting) Inl_Inr_False mem_Collect_eq not_le)+
  moreover have "set ''0123456789abcdef'' = set ''0123456789'' \<union> set ''abcdef''"
    unfolding set_append [symmetric] by simp
  ultimately show "s \<in> {s. s \<noteq> [] \<and> length s \<le> 64 \<and> set s \<subseteq> set ''0123456789abcdef''}"
    unfolding list_all_iff is_ascii_digit_def by blast
qed

text \<open>
  The builders refuse exactly the fields that could break the wire. A challenge is built if
  and only if its game is a slug, its stake a plain decimal and its id lowercase hex, each at
  most 64 bytes; an acceptance for a slug and an id; a taunt when anything is left of it.
\<close>

theorem builders_refuse:
  "((\<exists>w. build_challenge J game stake i = Inr w) \<longleftrightarrow>
      validate_slug game = Inr () \<and> stake \<in> insert None (Some ` {s. validate_stake s = Inr ()}) \<and> validate_id i = Inr ()) \<and>
   ((\<exists>w. build_accept J game i = Inr w) \<longleftrightarrow> validate_slug game = Inr () \<and> validate_id i = Inr ()) \<and>
   ((\<exists>w. build_taunt J msg = Inr w) \<longleftrightarrow> trim msg \<noteq> []) \<and>
   {s. validate_slug s = Inr ()} \<subseteq> {s. s \<noteq> [] \<and> length s \<le> 64 \<and> CHR '':'' \<notin> set s \<and> newline \<notin> set s} \<and>
   {s. validate_stake s = Inr ()} \<subseteq> {s. length s \<le> 64 \<and> set s \<subseteq> set ''0123456789.''} \<and>
   {s. validate_id s = Inr ()} \<subseteq> {s. s \<noteq> [] \<and> length s \<le> 64 \<and> set s \<subseteq> set ''0123456789abcdef''}"
proof -
  have "(\<exists>w. build_challenge J game stake i = Inr w) \<longleftrightarrow>
      validate_slug game = Inr () \<and> stake \<in> insert None (Some ` {s. validate_stake s = Inr ()}) \<and> validate_id i = Inr ()"
    by (cases stake) (auto simp: build_challenge_def split: sum.splits)
  then show ?thesis using slug_shape stake_shape id_shape
    by (simp add: build_accept_def build_taunt_def Let_def split: sum.splits)
qed

text \<open>
  The card is the JSON's. When two messages carry the same marked segment behind lines that
  hold no marker themselves, they parse to the same kind of thing, and two frames agree in every
  field but the line: no wording of the line changes a card.
\<close>

theorem card_from_json:
  assumes "is_marker_shaped seg" and "unmarked line seg" and "unmarked line' seg"
  shows "(\<exists>f f'. parse J (line @ newline # seg) = Frame f \<and> parse J (line' @ newline # seg) = Frame f' \<and>
      f' = f\<lparr>kf_line := trim_end line'\<rparr> \<and> kf_line f = trim_end line) \<or>
    (\<exists>t t'. parse J (line @ newline # seg) = Unknown t \<and> parse J (line' @ newline # seg) = Unknown t')"
  unfolding parse_marker [OF assms(2,1)] parse_marker [OF assms(3,1)] degrade_def
  by (cases "classify_frame J seg") auto

lemma card_from_json_witness:
  "(\<exists>f f'. parse small_codec (''win'' @ newline # marker Taunt []) = Frame f \<and>
        parse small_codec (''lose'' @ newline # marker Taunt []) = Frame f' \<and>
        f' = f\<lparr>kf_line := trim_end ''lose''\<rparr> \<and> kf_line f = trim_end ''win'') \<or>
    (\<exists>t t'. parse small_codec (''win'' @ newline # marker Taunt []) = Unknown t \<and>
        parse small_codec (''lose'' @ newline # marker Taunt []) = Unknown t')"
proof (rule card_from_json [OF marker_shaped])
  show "unmarked ''win'' (marker Taunt [])"
    unfolding unmarked_def by (subst line_starts_one) (simp_all add: not_marked)
  show "unmarked ''lose'' (marker Taunt [])"
    unfolding unmarked_def by (subst line_starts_one) (simp_all add: not_marked)
qed

lemma parse_at_find:
  "parse_at J s starts = (case find (\<lambda>a. is_marker_shaped (drop a s)) starts of
     None \<Rightarrow> Plain s
   | Some a \<Rightarrow> (case classify_frame J (drop a s) of
       Some (kind, frame) \<Rightarrow> Frame (frame\<lparr>kf_kind := kind, kf_line := trim_end (take a s)\<rparr>)
     | None \<Rightarrow> Unknown (if trim_end (take a s) = [] then s else trim_end (take a s))))"
  by (induction starts) (auto simp: Let_def)

text \<open>
  Parsing is total and reads the first marked line only. A text is plain, whole, exactly
  when no line of it is marked; otherwise the first marked line decides: a frame that classifies
  gives the card, anything else the readable text before it or, with none, the whole text.
\<close>

theorem parse_first_marker:
  "parse J s = (case find (\<lambda>a. is_marker_shaped (drop a s)) (line_starts s) of
     None \<Rightarrow> Plain s
   | Some a \<Rightarrow> (case classify_frame J (drop a s) of
       Some (kind, frame) \<Rightarrow> Frame (frame\<lparr>kf_kind := kind, kf_line := trim_end (take a s)\<rparr>)
     | None \<Rightarrow> Unknown (if trim_end (take a s) = [] then s else trim_end (take a s))))"
  unfolding parse_def by (rule parse_at_find)

section \<open>Taunts\<close>

lemma taunt_wire:
  assumes "build_taunt J msg = Inr wire"
  shows "wire = trim msg @ newline # marker Taunt (jc_print J (taunt_json (trim msg)))" "trim msg \<noteq> []"
  using assms by (simp_all add: build_taunt_def assemble_marker Let_def split: if_splits)

text \<open>
  A taunt reads back when no line of it is marked. The parse of a built taunt is the taunt
  frame with the trimmed text as its line and as its detail, provided that no line of the text
  starts, where it stands in the wire, in the shape of a marker.
\<close>

theorem taunt_round_trip:
  assumes "json_ok J" and "utf8_valid (ascii (trim msg))" and "build_taunt J msg = Inr wire"
    and "unmarked (trim msg) (marker Taunt (jc_print J (taunt_json (trim msg))))"
  shows "parse J wire = Frame ((blank Taunt)\<lparr>kf_line := trim msg, kf_detail := Some (trim msg)\<rparr>)"
proof -
  have "plain_name ''text''" by (simp add: plain_name_def)
  then have "jc_parse J (jc_print J (taunt_json (trim msg))) = Some (taunt_json (trim msg))"
    unfolding taunt_json_def
    using json_round [OF assms(1)] printable_single assms(2) unfolding wire_text_def by blast
  then show ?thesis
    unfolding taunt_wire(1) [OF assms(3)] parse_marker [OF assms(4) marker_shaped] degrade_def classify_marker
    by (simp add: frame_body_def read_taunt_def taunt_json_def blank_def)
qed

lemma one_line_unmarked:
  "newline \<notin> set line \<Longrightarrow> line \<noteq> [] \<Longrightarrow> hd line \<noteq> CHR ''k'' \<Longrightarrow> unmarked line seg"
  unfolding unmarked_def by (simp add: line_starts_one not_marked hd_append)

lemma taunt_round_trip_witness:
  "\<exists>wire. build_taunt small_codec '' you lose '' = Inr wire \<and>
    parse small_codec wire = Frame ((blank Taunt)\<lparr>kf_line := ''you lose'', kf_detail := Some ''you lose''\<rparr>)"
proof -
  have t: "trim '' you lose '' = ''you lose''"
    by (simp add: trim_def trim_start_def trim_end_def strip_words.simps whitespace_def starts_with_def)
  have "plain_name ''you lose''" by (simp add: plain_name_def)
  then have v: "utf8_valid (ascii (trim '' you lose ''))" using plain_is_text unfolding t wire_text_def by blast
  have u: "unmarked (trim '' you lose '') seg" for seg unfolding t by (rule one_line_unmarked) simp_all
  obtain wire where w: "build_taunt small_codec '' you lose '' = Inr wire"
    by (simp add: build_taunt_def t Let_def)
  show ?thesis using taunt_round_trip [OF small_codec_ok v w u] w unfolding t by blast
qed

lemma parse_at_first:
  "\<exists>a \<in> set starts. is_marker_shaped (drop a s) \<Longrightarrow>
     \<exists>a \<in> set starts. (\<exists>f. parse_at J s starts = Frame f \<and> kf_line f = trim_end (take a s)) \<or>
       parse_at J s starts = Unknown s \<or> parse_at J s starts = Unknown (trim_end (take a s))"
  by (induction starts) (auto simp: Let_def split: option.splits)

lemma parse_at_prefix:
  "\<exists>a \<in> set starts. is_marker_shaped (drop a s) \<Longrightarrow> parse_at J s (starts @ others) = parse_at J s starts"
  by (induction starts) (auto simp: Let_def)

lemma line_start_cases: "a \<in> set (line_starts s) \<Longrightarrow> a = 0 \<or> (\<exists>n. a = Suc n \<and> n < length s \<and> s ! n = newline)"
  by (auto simp: line_starts_def List.map_filter_def in_set_enumerate_eq split: if_splits)

lemma trim_end_take:
  assumes "a \<in> set (line_starts s)" and "s \<noteq> []"
  shows "length (trim_end (take a (s @ r))) < length s"
proof -
  consider "a = 0" | n where "a = Suc n" "n < length s" "s ! n = newline" using line_start_cases [OF assms(1)] by blast
  then show ?thesis
  proof cases
    case 1
    then show ?thesis using assms(2) length_trim_end [of "[]"] by simp
  next
    case 2
    then have "take a (s @ r) = take n s @ [newline]" by (simp add: take_Suc_conv_app_nth)
    then have "length (trim_end (take a (s @ r))) \<le> n"
      using length_trim_end [of "take n s"] 2(2) by (simp add: newline_is_space)
    then show ?thesis using 2(2) by simp
  qed
qed

text \<open>
  A taunt with a marked line is lost. When a line of the text has the shape of a marker,
  the built taunt does not read back: the parse is a frame or a degraded text whose readable
  line is shorter than the text, or the raw wire.
\<close>

theorem taunt_marker_lost:
  assumes "build_taunt J msg = Inr wire"
    and "\<not> unmarked (trim msg) (marker Taunt (jc_print J (taunt_json (trim msg))))"
  shows "(\<exists>f. parse J wire = Frame f \<and> length (kf_line f) < length (trim msg)) \<or>
    parse J wire = Unknown wire \<or> (\<exists>t. parse J wire = Unknown t \<and> length t < length (trim msg))"
proof -
  let ?seg = "marker Taunt (jc_print J (taunt_json (trim msg)))"
  note wire = taunt_wire [OF assms(1)]
  have starts: "line_starts wire = line_starts (trim msg) @ map ((+) (Suc (length (trim msg)))) (line_starts ?seg)"
    unfolding wire(1) by (rule line_starts_append)
  have first: "\<exists>a \<in> set (line_starts (trim msg)). is_marker_shaped (drop a wire)"
    using assms(2) unfolding unmarked_def wire(1) by blast
  have "parse J wire = parse_at J wire (line_starts (trim msg))"
    unfolding parse_def starts using first parse_at_prefix by blast
  then obtain a where a: "a \<in> set (line_starts (trim msg))"
    "(\<exists>f. parse J wire = Frame f \<and> kf_line f = trim_end (take a wire)) \<or>
       parse J wire = Unknown wire \<or> parse J wire = Unknown (trim_end (take a wire))"
    using parse_at_first [OF first, of J] by auto
  have "length (trim_end (take a wire)) < length (trim msg)"
    unfolding wire(1) by (rule trim_end_take [OF a(1) wire(2)])
  then show ?thesis using a(2) by metis
qed

definition marked_taunt :: string where
  "marked_taunt = ''gg'' @ newline # ''kv:1:accept:x''"

lemma marked_taunt_trim: "trim marked_taunt = marked_taunt"
proof -
  have "trim_start marked_taunt = marked_taunt"
    by (simp add: trim_start_def marked_taunt_def strip_words.simps whitespace_def starts_with_def)
  moreover have "trim_end marked_taunt = marked_taunt" by (rule trim_end_kept) (simp add: marked_taunt_def)
  ultimately show ?thesis by (simp add: trim_def)
qed

lemma marked_taunt_marked: "\<not> unmarked marked_taunt seg"
proof -
  have "3 \<in> set (line_starts marked_taunt)"
    by (simp add: line_starts_def marked_taunt_def map_filter_simps)
  moreover have "drop 3 (marked_taunt @ newline # seg) = marker Accept (''x'' @ newline # seg)"
    unfolding marker_def decimal_one by (simp add: marked_taunt_def marker_prefix_def)
  ultimately show ?thesis using marker_shaped unfolding unmarked_def by force
qed

lemma taunt_marker_lost_witness:
  "\<exists>wire. build_taunt small_codec marked_taunt = Inr wire \<and>
    ((\<exists>f. parse small_codec wire = Frame f \<and> length (kf_line f) < length marked_taunt) \<or>
     parse small_codec wire = Unknown wire \<or>
     (\<exists>t. parse small_codec wire = Unknown t \<and> length t < length marked_taunt))"
proof -
  have "marked_taunt \<noteq> []" by (simp add: marked_taunt_def)
  then obtain wire where w: "build_taunt small_codec marked_taunt = Inr wire"
    by (simp add: build_taunt_def marked_taunt_trim Let_def)
  show ?thesis using taunt_marker_lost [OF w] marked_taunt_marked w unfolding marked_taunt_trim by blast
qed

end
