(* ===== verification/Handshake.thy ===== *)
theory Handshake
  imports Json Rust_Str Core_Error
begin

text \<open>
  The handshake and the self-stash plaintexts (\<open>rust/core/src/handshake.rs\<close>): what is written,
  what a receiver accepts, the snapshot of every conversation, the authorship tag and the shape
  a refused payload is described by. A tag is its 32 bytes; random bytes are arguments.
\<close>

definition alias_len :: nat where
  "alias_len = 6"

definition protocol_version :: nat where
  "protocol_version = 1"

definition validate_alias :: "string \<Rightarrow> core_error + unit" where
  "validate_alias alias =
     (if length alias \<noteq> alias_len * 2 \<or> \<not> list_all is_ascii_hexdigit alias
      then Inl (HandshakeShape ''alias'') else Inr ())"

definition fresh_alias :: "bytes \<Rightarrow> string" where
  "fresh_alias random = hex_lower random"

definition fresh_conversation_id :: "bytes \<Rightarrow> string" where
  "fresh_conversation_id random = hex_lower random"

section \<open>The handshake payload\<close>

record handshake_payload =
  hp_kind :: "string option"
  hp_alias :: string
  hp_their_alias :: "string option"
  hp_timestamp :: nat
  hp_version :: "nat option"
  hp_recipient_address :: "string option"
  hp_send_to_recipient :: "bool option"
  hp_is_response :: "bool option"

text \<open>An optional field that is absent is not written.\<close>

definition opt_field :: "string \<Rightarrow> ('a \<Rightarrow> json) \<Rightarrow> 'a option \<Rightarrow> (string \<times> json) list" where
  "opt_field name f v = (case v of None \<Rightarrow> [] | Some x \<Rightarrow> [(name, f x)])"

abbreviation json_nat :: "nat \<Rightarrow> json" where
  "json_nat n \<equiv> JNum (U64 n)"

definition handshake_fields :: "handshake_payload \<Rightarrow> (string \<times> json) list" where
  "handshake_fields p =
     opt_field ''type'' JStr (hp_kind p)
     @ [(''alias'', JStr (hp_alias p))]
     @ opt_field ''theirAlias'' JStr (hp_their_alias p)
     @ [(''timestamp'', json_nat (hp_timestamp p))]
     @ opt_field ''version'' json_nat (hp_version p)
     @ opt_field ''recipientAddress'' JStr (hp_recipient_address p)
     @ opt_field ''sendToRecipient'' JBool (hp_send_to_recipient p)
     @ opt_field ''isResponse'' JBool (hp_is_response p)"

definition initial :: "string \<Rightarrow> nat \<Rightarrow> core_error + handshake_payload" where
  "initial my_alias timestamp_ms =
     (case validate_alias my_alias of Inl e \<Rightarrow> Inl e | Inr _ \<Rightarrow> Inr
        \<lparr>hp_kind = Some ''handshake'', hp_alias = my_alias, hp_their_alias = None,
         hp_timestamp = timestamp_ms, hp_version = Some protocol_version,
         hp_recipient_address = None, hp_send_to_recipient = None, hp_is_response = None\<rparr>)"

definition response :: "string \<Rightarrow> string \<Rightarrow> nat \<Rightarrow> core_error + handshake_payload" where
  "response my_alias their_alias timestamp_ms =
     (case validate_alias my_alias of Inl e \<Rightarrow> Inl e | Inr _ \<Rightarrow>
     (case validate_alias their_alias of Inl e \<Rightarrow> Inl e | Inr _ \<Rightarrow> Inr
        \<lparr>hp_kind = Some ''handshake'', hp_alias = my_alias, hp_their_alias = Some their_alias,
         hp_timestamp = timestamp_ms, hp_version = Some protocol_version,
         hp_recipient_address = None, hp_send_to_recipient = None, hp_is_response = Some True\<rparr>))"

definition to_plaintext :: "json_codec \<Rightarrow> handshake_payload \<Rightarrow> bytes" where
  "to_plaintext J p = ascii (jc_print J (JObj (handshake_fields p)))"

definition is_acceptance :: "handshake_payload \<Rightarrow> bool" where
  "is_acceptance p \<longleftrightarrow> hp_is_response p = Some True \<and> hp_their_alias p \<noteq> None"

section \<open>Reading by hand\<close>

definition pick :: "(string \<times> json) list \<Rightarrow> string \<Rightarrow> string \<Rightarrow> json option" where
  "pick m camel snake = (case map_of m camel of Some v \<Rightarrow> Some v | None \<Rightarrow> map_of m snake)"

definition text_field :: "json option \<Rightarrow> string option" where
  "text_field v = Option.bind v as_str"

definition read_timestamp :: "(string \<times> json) list \<Rightarrow> nat option" where
  "read_timestamp m = Option.bind (map_of m ''timestamp'') (\<lambda>v.
     case as_u64 v of Some n \<Rightarrow> Some n | None \<Rightarrow> Option.bind (as_str v) (parse_unsigned u64_max))"

text \<open>A version that is there and is no \<open>u32\<close> is an error, never absent.\<close>

definition u32_of :: "json \<Rightarrow> nat option" where
  "u32_of v = (case as_u64 v of Some n \<Rightarrow> if n < 2 ^ 32 then Some n else None | None \<Rightarrow> None)"

definition read_version :: "(string \<times> json) list \<Rightarrow> core_error + nat option" where
  "read_version m = (case map_of m ''version'' of
     None \<Rightarrow> Inr None
   | Some JNull \<Rightarrow> Inr None
   | Some v \<Rightarrow> (case u32_of v of Some n \<Rightarrow> Inr (Some n) | None \<Rightarrow> Inl (HandshakeShape ''version'')))"

definition check_receiver :: "string \<Rightarrow> string option \<Rightarrow> nat option \<Rightarrow> core_error + unit" where
  "check_receiver alias their_alias version =
     (case validate_alias alias of Inl e \<Rightarrow> Inl e | Inr _ \<Rightarrow>
     (case (case their_alias of None \<Rightarrow> Inr () | Some t \<Rightarrow> validate_alias t) of Inl e \<Rightarrow> Inl e | Inr _ \<Rightarrow>
      if (case version of None \<Rightarrow> False | Some v \<Rightarrow> protocol_version < v)
      then Inl (HandshakeShape ''unsupported version'') else Inr ()))"

definition json_object_of :: "json_codec \<Rightarrow> bytes \<Rightarrow> core_error + (string \<times> json) list" where
  "json_object_of J plaintext = (case from_slice_value J plaintext of
     None \<Rightarrow> Inl (HandshakeShape ''json'')
   | Some v \<Rightarrow> (case as_object v of None \<Rightarrow> Inl (HandshakeShape ''not an object'') | Some m \<Rightarrow> Inr m))"

definition handshake_of_map :: "(string \<times> json) list \<Rightarrow> core_error + handshake_payload" where
  "handshake_of_map m =
     (case text_field (map_of m ''alias'') of None \<Rightarrow> Inl (HandshakeShape ''alias missing'') | Some alias \<Rightarrow>
     (case read_timestamp m of None \<Rightarrow> Inl (HandshakeShape ''timestamp'') | Some timestamp \<Rightarrow>
     (case read_version m of Inl e \<Rightarrow> Inl e | Inr version \<Rightarrow>
      let p = \<lparr>hp_kind = text_field (map_of m ''type''), hp_alias = alias,
               hp_their_alias = text_field (pick m ''theirAlias'' ''their_alias''),
               hp_timestamp = timestamp, hp_version = version,
               hp_recipient_address = text_field (pick m ''recipientAddress'' ''recipient_address''),
               hp_send_to_recipient = Option.bind (pick m ''sendToRecipient'' ''send_to_recipient'') as_bool,
               hp_is_response = Option.bind (pick m ''isResponse'' ''is_response'') as_bool\<rparr>
      in (case check_receiver (hp_alias p) (hp_their_alias p) (hp_version p) of
            Inl e \<Rightarrow> Inl e | Inr _ \<Rightarrow> Inr p))))"

definition from_plaintext :: "json_codec \<Rightarrow> bytes \<Rightarrow> core_error + handshake_payload" where
  "from_plaintext J plaintext =
     (case json_object_of J plaintext of Inl e \<Rightarrow> Inl e | Inr m \<Rightarrow> handshake_of_map m)"

section \<open>The self-stash payload\<close>

record saved_payload =
  sp_kind :: "string option"
  sp_alias :: string
  sp_timestamp :: nat
  sp_version :: "nat option"
  sp_their_alias :: "string option"
  sp_is_response :: "bool option"
  sp_partner_address :: string
  sp_recipient_address :: string
  sp_conversation_id :: "string option"
  sp_bound_branch :: "string option"
  sp_bound_index :: "nat option"

definition bound_branch_receive :: string where
  "bound_branch_receive = ''receive''"

definition bound_branch_change :: string where
  "bound_branch_change = ''change''"

definition saved_new ::
    "string \<Rightarrow> string option \<Rightarrow> string \<Rightarrow> string \<Rightarrow> string \<Rightarrow> nat \<Rightarrow> bool \<Rightarrow> nat \<Rightarrow> core_error + saved_payload" where
  "saved_new my_alias their_alias partner_address conversation_id bound_branch bound_index is_response timestamp_ms =
     (case validate_alias my_alias of Inl e \<Rightarrow> Inl e | Inr _ \<Rightarrow>
     (case (case their_alias of None \<Rightarrow> Inr () | Some t \<Rightarrow> validate_alias t) of Inl e \<Rightarrow> Inl e | Inr _ \<Rightarrow>
      if partner_address = [] then Inl (HandshakeShape ''partner address'')
      else if bound_branch \<noteq> bound_branch_receive \<and> bound_branch \<noteq> bound_branch_change
      then Inl (HandshakeShape ''bound branch'')
      else Inr \<lparr>sp_kind = Some ''handshake'', sp_alias = my_alias, sp_timestamp = timestamp_ms,
        sp_version = Some protocol_version, sp_their_alias = their_alias,
        sp_is_response = (if is_response then Some True else None),
        sp_partner_address = partner_address, sp_recipient_address = partner_address,
        sp_conversation_id = Some conversation_id, sp_bound_branch = Some bound_branch,
        sp_bound_index = Some bound_index\<rparr>))"

definition saved_fields :: "saved_payload \<Rightarrow> (string \<times> json) list" where
  "saved_fields p =
     opt_field ''type'' JStr (sp_kind p)
     @ [(''alias'', JStr (sp_alias p)), (''timestamp'', json_nat (sp_timestamp p))]
     @ opt_field ''version'' json_nat (sp_version p)
     @ opt_field ''theirAlias'' JStr (sp_their_alias p)
     @ opt_field ''isResponse'' JBool (sp_is_response p)
     @ [(''partnerAddress'', JStr (sp_partner_address p)), (''recipientAddress'', JStr (sp_recipient_address p))]
     @ opt_field ''conversationId'' JStr (sp_conversation_id p)
     @ opt_field ''boundBranch'' JStr (sp_bound_branch p)
     @ opt_field ''boundIndex'' json_nat (sp_bound_index p)"

definition saved_to_plaintext :: "json_codec \<Rightarrow> saved_payload \<Rightarrow> bytes" where
  "saved_to_plaintext J p = ascii (jc_print J (JObj (saved_fields p)))"

text \<open>\<open>Option::or_else\<close> and \<open>Option::filter\<close>.\<close>

definition or_else :: "'a option \<Rightarrow> 'a option \<Rightarrow> 'a option" where
  "or_else a b = (case a of None \<Rightarrow> b | Some x \<Rightarrow> Some x)"

definition filter_option :: "('a \<Rightarrow> bool) \<Rightarrow> 'a option \<Rightarrow> 'a option" where
  "filter_option f v = (case v of None \<Rightarrow> None | Some x \<Rightarrow> if f x then Some x else None)"

definition saved_of_map :: "(string \<times> json) list \<Rightarrow> core_error + saved_payload" where
  "saved_of_map m =
     (case text_field (map_of m ''alias'') of None \<Rightarrow> Inl (HandshakeShape ''alias missing'') | Some alias \<Rightarrow>
     (case read_timestamp m of None \<Rightarrow> Inl (HandshakeShape ''timestamp'') | Some timestamp \<Rightarrow>
     (case filter_option (\<lambda>a. a \<noteq> [])
        (or_else (text_field (pick m ''partnerAddress'' ''partner_address''))
                 (text_field (pick m ''recipientAddress'' ''recipient_address''))) of
        None \<Rightarrow> Inl (HandshakeShape ''partner address'')
      | Some partner_address \<Rightarrow>
     (case read_version m of Inl e \<Rightarrow> Inl e | Inr version \<Rightarrow>
      let p = \<lparr>sp_kind = text_field (map_of m ''type''), sp_alias = alias, sp_timestamp = timestamp,
               sp_version = version,
               sp_their_alias = text_field (pick m ''theirAlias'' ''their_alias''),
               sp_is_response = Option.bind (pick m ''isResponse'' ''is_response'') as_bool,
               sp_partner_address = partner_address, sp_recipient_address = partner_address,
               sp_conversation_id = text_field (pick m ''conversationId'' ''conversation_id''),
               sp_bound_branch = filter_option (\<lambda>b. b = bound_branch_receive \<or> b = bound_branch_change)
                 (text_field (pick m ''boundBranch'' ''bound_branch'')),
               sp_bound_index = Option.bind (pick m ''boundIndex'' ''bound_index'') u32_of\<rparr>
      in (case check_receiver (sp_alias p) (sp_their_alias p) (sp_version p) of
            Inl e \<Rightarrow> Inl e | Inr _ \<Rightarrow> Inr p)))))"

definition saved_from_plaintext :: "json_codec \<Rightarrow> bytes \<Rightarrow> core_error + saved_payload" where
  "saved_from_plaintext J plaintext =
     (case json_object_of J plaintext of Inl e \<Rightarrow> Inl e | Inr m \<Rightarrow> saved_of_map m)"

definition bound_slot :: "saved_payload \<Rightarrow> (string \<times> nat) option" where
  "bound_slot p = (case (sp_bound_branch p, sp_bound_index p) of
     (Some branch, Some index) \<Rightarrow> Some (branch, index) | _ \<Rightarrow> None)"

section \<open>The snapshot\<close>

definition max_snapshot_rows :: nat where
  "max_snapshot_rows = 128"

record snapshot =
  sn_head :: saved_payload
  sn_conversations :: "saved_payload list"
  sn_stashed_at :: "nat option"

definition snapshot_new :: "saved_payload list \<Rightarrow> nat \<Rightarrow> core_error + snapshot" where
  "snapshot_new rows stashed_at_ms = (case rows of
     [] \<Rightarrow> Inl (HandshakeShape ''empty snapshot'')
   | head # _ \<Rightarrow> Inr \<lparr>sn_head = head, sn_conversations = rows, sn_stashed_at = Some stashed_at_ms\<rparr>)"

text \<open>The rows are spliced in where the head's closing brace stood.\<close>

definition snapshot_to_plaintext :: "json_codec \<Rightarrow> snapshot \<Rightarrow> core_error + bytes" where
  "snapshot_to_plaintext J s =
     (let head = saved_to_plaintext J (sn_head s) in
      if head = [] \<or> last head \<noteq> byte_of_char (CHR ''}'') then Inl (HandshakeShape ''serialize'')
      else
        let rows = ascii (jc_print J (JArr (map (\<lambda>p. JObj (saved_fields p)) (sn_conversations s))))
        in Inr (butlast head
          @ (case sn_stashed_at s of None \<Rightarrow> [] | Some t \<Rightarrow> ascii ('','' @ [quote] @ ''stashedAt'' @ [quote] @ '':'' @ decimal t))
          @ ascii ('','' @ [quote] @ ''conversations'' @ [quote] @ '':'') @ rows @ ascii ''}''))"

definition snapshot_from_plaintext :: "json_codec \<Rightarrow> bytes \<Rightarrow> core_error + snapshot" where
  "snapshot_from_plaintext J plaintext =
     (case saved_from_plaintext J plaintext of Inl e \<Rightarrow> Inl e | Inr head \<Rightarrow>
     (case from_slice_value J plaintext of None \<Rightarrow> Inl (HandshakeShape ''json'') | Some v \<Rightarrow>
      Inr \<lparr>sn_head = head,
        sn_conversations =
          (case Option.bind (value_get v ''conversations'') as_array of
             None \<Rightarrow> []
           | Some rows \<Rightarrow> List.map_filter
               (\<lambda>row. case saved_from_plaintext J (ascii (jc_print J row)) of Inl _ \<Rightarrow> None | Inr p \<Rightarrow> Some p)
               (take max_snapshot_rows rows)),
        sn_stashed_at = Option.bind (value_get v ''stashedAt'') as_u64\<rparr>))"

definition snapshot_rows :: "snapshot \<Rightarrow> saved_payload list" where
  "snapshot_rows s = (if sn_conversations s = [] then [sn_head s] else sn_conversations s)"

end
