(* ===== verification/Handshake_Props.thy ===== *)
theory Handshake_Props
  imports Handshake Plain_Text Json_Codec
begin

text \<open>
  What the handshake and stash plaintexts promise: what one side writes the other reads back,
  what a receiver accepts keeps the receiver's law, spellings never reject, and a snapshot
  restores every conversation it was built from.
\<close>

named_theorems fields \<open>looking up written fields\<close>

section \<open>Looking up a written field\<close>

lemma map_of_opt_field [fields]: "map_of (opt_field n f v) k = (if k = n then map_option f v else None)"
  by (simp add: opt_field_def split: option.split)

lemma shadowed [fields]: "(case map_option f v of None \<Rightarrow> None | Some x \<Rightarrow> Some x) = map_option f v"
  by (cases v) simp_all

lemma handshake_lookup:
  "map_of (handshake_fields p) ''type'' = map_option JStr (hp_kind p)"
  "map_of (handshake_fields p) ''alias'' = Some (JStr (hp_alias p))"
  "map_of (handshake_fields p) ''theirAlias'' = map_option JStr (hp_their_alias p)"
  "map_of (handshake_fields p) ''their_alias'' = None"
  "map_of (handshake_fields p) ''timestamp'' = Some (json_nat (hp_timestamp p))"
  "map_of (handshake_fields p) ''version'' = map_option json_nat (hp_version p)"
  "map_of (handshake_fields p) ''recipientAddress'' = map_option JStr (hp_recipient_address p)"
  "map_of (handshake_fields p) ''recipient_address'' = None"
  "map_of (handshake_fields p) ''sendToRecipient'' = map_option JBool (hp_send_to_recipient p)"
  "map_of (handshake_fields p) ''send_to_recipient'' = None"
  "map_of (handshake_fields p) ''isResponse'' = map_option JBool (hp_is_response p)"
  "map_of (handshake_fields p) ''is_response'' = None"
  by (simp_all add: handshake_fields_def map_add_def fields split: option.split)

lemma saved_lookup:
  "map_of (saved_fields p) ''type'' = map_option JStr (sp_kind p)"
  "map_of (saved_fields p) ''alias'' = Some (JStr (sp_alias p))"
  "map_of (saved_fields p) ''timestamp'' = Some (json_nat (sp_timestamp p))"
  "map_of (saved_fields p) ''version'' = map_option json_nat (sp_version p)"
  "map_of (saved_fields p) ''theirAlias'' = map_option JStr (sp_their_alias p)"
  "map_of (saved_fields p) ''their_alias'' = None"
  "map_of (saved_fields p) ''isResponse'' = map_option JBool (sp_is_response p)"
  "map_of (saved_fields p) ''is_response'' = None"
  "map_of (saved_fields p) ''partnerAddress'' = Some (JStr (sp_partner_address p))"
  "map_of (saved_fields p) ''conversationId'' = map_option JStr (sp_conversation_id p)"
  "map_of (saved_fields p) ''conversation_id'' = None"
  "map_of (saved_fields p) ''boundBranch'' = map_option JStr (sp_bound_branch p)"
  "map_of (saved_fields p) ''bound_branch'' = None"
  "map_of (saved_fields p) ''boundIndex'' = map_option json_nat (sp_bound_index p)"
  "map_of (saved_fields p) ''bound_index'' = None"
  "map_of (saved_fields p) ''stashedAt'' = None" "map_of (saved_fields p) ''conversations'' = None"
  by (simp_all add: saved_fields_def map_add_def fields split: option.split)

text \<open>Reading a written field.\<close>

lemma read_text [fields]: "text_field (map_option json_value (map_option JStr v)) = v"
  by (cases v) (simp_all add: text_field_def)

lemma read_bool [fields]: "Option.bind (map_option json_value (map_option JBool v)) as_bool = v"
  by (cases v) simp_all

lemma read_nat_field [fields]:
  "Option.bind (map_option json_value (map_option json_nat v)) u32_of = (case v of Some n \<Rightarrow> if n < 2 ^ 32 then v else None | None \<Rightarrow> None)"
  by (cases v) (simp_all add: u32_of_def)

lemma pick_camel:
  assumes "map_of m snake = None"
  shows "pick m camel snake = map_of m camel"
  using assms by (simp add: pick_def split: option.split)

lemma keys_opt_field: "map fst (opt_field n f v) = (if v = None then [] else [n])"
  by (simp add: opt_field_def split: option.split)

lemma handshake_keys: "distinct (map fst (handshake_fields p))"
  by (simp add: handshake_fields_def keys_opt_field)

lemma saved_keys: "distinct (map fst (saved_fields p))"
  by (simp add: saved_fields_def keys_opt_field)

definition text_ok :: "string option \<Rightarrow> bool" where
  "text_ok v \<longleftrightarrow> (case v of None \<Rightarrow> True | Some s \<Rightarrow> wire_text s)"

definition payload_ok :: "handshake_payload \<Rightarrow> bool" where
  "payload_ok p \<longleftrightarrow> text_ok (hp_kind p) \<and> text_ok (hp_recipient_address p) \<and> hp_timestamp p \<le> u64_max \<and>
     check_receiver (hp_alias p) (hp_their_alias p) (hp_version p) = Inr ()"

lemma alias_text: "validate_alias a = Inr () \<Longrightarrow> wire_text a"
  by (simp add: validate_alias_def hex_text split: if_splits)

lemma receiver_parts:
  assumes "check_receiver a t v = Inr ()"
  shows "validate_alias a = Inr ()" and "\<And>x. t = Some x \<Longrightarrow> validate_alias x = Inr ()"
    and "\<And>n. v = Some n \<Longrightarrow> n \<le> 1"
  using assms by (auto simp: check_receiver_def protocol_version_def split: sum.splits option.splits if_splits)

lemma printable_opt_field:
  "wire_text n \<Longrightarrow> (\<And>x. v = Some x \<Longrightarrow> printable (f x)) \<Longrightarrow>
     \<forall>f \<in> set (opt_field n f v). utf8_valid (ascii (fst f)) \<and> printable (snd f)"
  by (cases v) (simp_all add: opt_field_def wire_text_def)

lemma field_names_text:
  "wire_text ''type''" "wire_text ''alias''" "wire_text ''theirAlias''" "wire_text ''timestamp''"
  "wire_text ''version''" "wire_text ''recipientAddress''" "wire_text ''sendToRecipient''"
  "wire_text ''isResponse''" "wire_text ''partnerAddress''" "wire_text ''conversationId''"
  "wire_text ''boundBranch''" "wire_text ''boundIndex''" "wire_text ''stashedAt''" "wire_text ''conversations''"
  by (rule plain_is_text, simp add: plain_name_def)+

lemma handshake_printable:
  assumes "payload_ok p"
  shows "printable (JObj (handshake_fields p))"
proof -
  have r: "check_receiver (hp_alias p) (hp_their_alias p) (hp_version p) = Inr ()"
    and ok: "text_ok (hp_kind p)" "text_ok (hp_recipient_address p)" "hp_timestamp p \<le> u64_max"
    using assms by (simp_all add: payload_ok_def)
  have small: "n \<le> 1 \<Longrightarrow> n \<le> u64_max" for n by (simp add: u64_max_def)
  have mand: "utf8_valid (ascii ''alias'')" "utf8_valid (ascii ''timestamp'')"
    using field_names_text(2,4) by (simp_all only: wire_text_def)
  have al: "utf8_valid (ascii (hp_alias p))" using alias_text [OF receiver_parts(1) [OF r]] by (simp add: wire_text_def)
  have opts:
    "\<forall>f \<in> set (opt_field ''type'' JStr (hp_kind p)). utf8_valid (ascii (fst f)) \<and> printable (snd f)"
    "\<forall>f \<in> set (opt_field ''theirAlias'' JStr (hp_their_alias p)). utf8_valid (ascii (fst f)) \<and> printable (snd f)"
    "\<forall>f \<in> set (opt_field ''version'' json_nat (hp_version p)). utf8_valid (ascii (fst f)) \<and> printable (snd f)"
    "\<forall>f \<in> set (opt_field ''recipientAddress'' JStr (hp_recipient_address p)). utf8_valid (ascii (fst f)) \<and> printable (snd f)"
    "\<forall>f \<in> set (opt_field ''sendToRecipient'' JBool (hp_send_to_recipient p)). utf8_valid (ascii (fst f)) \<and> printable (snd f)"
    "\<forall>f \<in> set (opt_field ''isResponse'' JBool (hp_is_response p)). utf8_valid (ascii (fst f)) \<and> printable (snd f)"
    by (rule printable_opt_field [OF field_names_text(1)],
        use ok(1) in \<open>simp add: text_ok_def wire_text_def\<close>,
        rule printable_opt_field [OF field_names_text(3)],
        use alias_text receiver_parts(2) [OF r] in \<open>simp add: wire_text_def\<close>,
        rule printable_opt_field [OF field_names_text(5)],
        use small receiver_parts(3) [OF r] in simp,
        rule printable_opt_field [OF field_names_text(6)],
        use ok(2) in \<open>simp add: text_ok_def wire_text_def\<close>,
        rule printable_opt_field [OF field_names_text(7)], simp,
        rule printable_opt_field [OF field_names_text(8)], simp)
  show ?thesis unfolding handshake_fields_def printable.simps set_append ball_Un
    using opts mand al ok(3) by simp
qed

text \<open>Reading depends only on what the names look up.\<close>

lemma handshake_of_map_cong:
  assumes "\<And>k. map_of m k = map_of m' k"
  shows "handshake_of_map m = handshake_of_map m'"
  unfolding handshake_of_map_def read_timestamp_def read_version_def pick_def assms by (rule refl)

lemma handshake_of_fields:
  assumes "payload_ok p" and "\<And>k. map_of m k = map_option json_value (map_of (handshake_fields p) k)"
  shows "handshake_of_map m = Inr p"
proof -
  have r: "check_receiver (hp_alias p) (hp_their_alias p) (hp_version p) = Inr ()"
    using assms(1) by (simp add: payload_ok_def)
  have look:
    "text_field (map_of m ''alias'') = Some (hp_alias p)" "text_field (map_of m ''type'') = hp_kind p"
    "read_timestamp m = Some (hp_timestamp p)"
    "text_field (pick m ''theirAlias'' ''their_alias'') = hp_their_alias p"
    "text_field (pick m ''recipientAddress'' ''recipient_address'') = hp_recipient_address p"
    "Option.bind (pick m ''sendToRecipient'' ''send_to_recipient'') as_bool = hp_send_to_recipient p"
    "Option.bind (pick m ''isResponse'' ''is_response'') as_bool = hp_is_response p"
    using fields
    by (simp_all add: assms(2) handshake_lookup pick_camel, simp_all add: text_field_def read_timestamp_def assms(2) handshake_lookup)
  have "read_version m = Inr (hp_version p)"
    using receiver_parts(3) [OF r]
    by (cases "hp_version p") (simp_all add: assms(2) handshake_lookup read_version_def u32_of_def)
  then show ?thesis using look r by (simp add: handshake_of_map_def Let_def)
qed

lemma handshake_reads_back:
  assumes "json_ok J" and "payload_ok p"
  shows "from_plaintext J (to_plaintext J p) = Inr p"
proof -
  obtain m where m: "from_slice_value J (to_plaintext J p) = Some (JObj m)"
    and look: "\<And>k. map_of m k = map_option json_value (map_of (handshake_fields p) k)"
    using printed_object [OF assms(1) handshake_printable [OF assms(2)] handshake_keys]
    unfolding to_plaintext_def by blast
  show ?thesis
    using handshake_of_fields [OF assms(2) look] m by (simp add: from_plaintext_def json_object_of_def)
qed

section \<open>The handshake\<close>

lemma initial_ok: "initial a t = Inr p \<Longrightarrow> t \<le> u64_max \<Longrightarrow> payload_ok p \<and> \<not> is_acceptance p"
  using plain_literal [of "''handshake''"]
  by (auto simp: initial_def payload_ok_def check_receiver_def text_ok_def protocol_version_def
      is_acceptance_def plain_char_def split: sum.splits)

lemma response_ok: "response a b t = Inr p \<Longrightarrow> t \<le> u64_max \<Longrightarrow> payload_ok p \<and> is_acceptance p"
  using plain_literal [of "''handshake''"]
  by (auto simp: response_def payload_ok_def check_receiver_def text_ok_def protocol_version_def
      is_acceptance_def plain_char_def split: sum.splits)

text \<open>
  C27. A handshake reads back as it was sealed. What either leg is built as, the receiver's
  parser reads from its plaintext, field for field; the first leg is no acceptance, the second
  is one and echoes the alias it answers.
\<close>

theorem handshake_round_trip:
  assumes "json_ok J" and "t \<le> u64_max"
  shows "(\<forall>p. initial a t = Inr p \<longrightarrow>
      from_plaintext J (to_plaintext J p) = Inr p \<and> \<not> is_acceptance p \<and> hp_alias p = a) \<and>
    (\<forall>p. response a b t = Inr p \<longrightarrow>
      from_plaintext J (to_plaintext J p) = Inr p \<and> is_acceptance p \<and> hp_alias p = a \<and> hp_their_alias p = Some b)"
proof (intro conjI allI impI)
  fix p assume "initial a t = Inr p"
  moreover from this show "hp_alias p = a" by (auto simp: initial_def split: sum.splits)
  ultimately show "from_plaintext J (to_plaintext J p) = Inr p" "\<not> is_acceptance p"
    using initial_ok [OF _ assms(2)] handshake_reads_back [OF assms(1)] by blast+
next
  fix p assume "response a b t = Inr p"
  moreover from this show "hp_alias p = a" "hp_their_alias p = Some b" by (auto simp: response_def split: sum.splits)
  ultimately show "from_plaintext J (to_plaintext J p) = Inr p" "is_acceptance p"
    using response_ok [OF _ assms(2)] handshake_reads_back [OF assms(1)] by blast+
qed

definition demo_alias :: string where
  "demo_alias = ''0a1b2c3d4e5f''"

lemma demo_alias_ok: "validate_alias demo_alias = Inr ()"
  by (simp add: validate_alias_def demo_alias_def alias_len_def is_ascii_hexdigit_def is_ascii_digit_def)

lemma handshake_round_trip_witness:
  "\<exists>p. response demo_alias demo_alias 7 = Inr p \<and>
     from_plaintext small_codec (to_plaintext small_codec p) = Inr p \<and> is_acceptance p"
proof -
  have t: "(7 :: nat) \<le> u64_max" by (simp add: u64_max_def)
  obtain p where "response demo_alias demo_alias 7 = Inr p" by (simp add: response_def demo_alias_ok)
  then show ?thesis using handshake_round_trip [OF small_codec_ok t, of demo_alias demo_alias] by blast
qed

text \<open>
  A receiver accepts only what its law allows. An accepted payload has a twelve-digit hex
  alias, such an alias of ours when it names one, and a version of at most one when it names
  one; a version that is there and is no 32-bit number refuses the payload, and so does a
  missing alias or timestamp.
\<close>

theorem receiver_law:
  "(\<forall>p. from_plaintext J bs = Inr p \<longrightarrow>
      length (hp_alias p) = 12 \<and> list_all is_ascii_hexdigit (hp_alias p) \<and>
      (\<forall>a. hp_their_alias p = Some a \<longrightarrow> length a = 12 \<and> list_all is_ascii_hexdigit a) \<and>
      (\<forall>v. hp_version p = Some v \<longrightarrow> v \<le> 1)) \<and>
   (\<forall>m v. json_object_of J bs = Inr m \<longrightarrow> map_of m ''version'' = Some v \<longrightarrow> v \<noteq> JNull \<longrightarrow> u32_of v = None \<longrightarrow>
      (\<exists>e. from_plaintext J bs = Inl e)) \<and>
   (\<forall>m. json_object_of J bs = Inr m \<longrightarrow> map_of m ''alias'' = None \<or> map_of m ''timestamp'' = None \<longrightarrow>
      (\<exists>e. from_plaintext J bs = Inl e))"
proof (intro conjI allI impI)
  fix p assume ok: "from_plaintext J bs = Inr p"
  then obtain m where m: "handshake_of_map m = Inr p" by (auto simp: from_plaintext_def split: sum.splits)
  have r: "check_receiver (hp_alias p) (hp_their_alias p) (hp_version p) = Inr ()"
    using m by (auto simp: handshake_of_map_def Let_def split: option.splits sum.splits)
  have valid: "validate_alias a = Inr () \<Longrightarrow> length a = 12 \<and> list_all is_ascii_hexdigit a" for a
    by (simp add: validate_alias_def alias_len_def split: if_splits)
  show "length (hp_alias p) = 12" "list_all is_ascii_hexdigit (hp_alias p)"
    using valid [OF receiver_parts(1) [OF r]] by blast+
  fix a assume "hp_their_alias p = Some a"
  then show "length a = 12" "list_all is_ascii_hexdigit a" using valid receiver_parts(2) [OF r] by blast+
next
  fix p v assume "from_plaintext J bs = Inr p" "hp_version p = Some v"
  then show "v \<le> 1" using receiver_parts(3) [of "hp_alias p" "hp_their_alias p" "hp_version p" v]
    by (auto simp: from_plaintext_def handshake_of_map_def Let_def split: sum.splits option.splits)
next
  fix m v assume "json_object_of J bs = Inr m" "map_of m ''version'' = Some v" "v \<noteq> JNull" "u32_of v = None"
  moreover from this have "read_version m = Inl (HandshakeShape ''version'')"
    by (cases v) (simp_all add: read_version_def)
  ultimately show "\<exists>e. from_plaintext J bs = Inl e"
    by (simp add: from_plaintext_def handshake_of_map_def split: option.split)
next
  fix m assume "json_object_of J bs = Inr m" "map_of m ''alias'' = None \<or> map_of m ''timestamp'' = None"
  then show "\<exists>e. from_plaintext J bs = Inl e"
    by (auto simp: from_plaintext_def handshake_of_map_def text_field_def read_timestamp_def split: option.split)
qed

lemma receiver_law_witness:
  "\<exists>p bs. from_plaintext small_codec bs = Inr p \<and> length (hp_alias p) = 12"
proof -
  obtain p where p: "initial demo_alias 7 = Inr p" by (simp add: initial_def demo_alias_ok)
  have "payload_ok p" using initial_ok [OF p] by (simp add: u64_max_def)
  then have "from_plaintext small_codec (to_plaintext small_codec p) = Inr p"
    by (rule handshake_reads_back [OF small_codec_ok])
  then show ?thesis using receiver_law [of small_codec "to_plaintext small_codec p"] by blast
qed

text \<open>
  Spelling never rejects and never changes a handshake. Two objects that look up alike in
  the names the parser prefers, and in a snake_case name wherever its camelCase one is absent,
  read alike, whatever other fields and duplicates they hold.
\<close>

theorem spelling_tolerated:
  assumes "\<forall>k \<in> {''type'', ''alias'', ''timestamp'', ''version'', ''theirAlias'', ''recipientAddress'',
      ''sendToRecipient'', ''isResponse''}. map_of m k = map_of m' k"
    and "\<forall>(camel, snake) \<in> {(''theirAlias'', ''their_alias''), (''recipientAddress'', ''recipient_address''),
      (''sendToRecipient'', ''send_to_recipient''), (''isResponse'', ''is_response'')}.
      map_of m camel = None \<longrightarrow> map_of m snake = map_of m' snake"
  shows "handshake_of_map m = handshake_of_map m'"
proof -
  have "pick m ''theirAlias'' ''their_alias'' = pick m' ''theirAlias'' ''their_alias''"
    "pick m ''recipientAddress'' ''recipient_address'' = pick m' ''recipientAddress'' ''recipient_address''"
    "pick m ''sendToRecipient'' ''send_to_recipient'' = pick m' ''sendToRecipient'' ''send_to_recipient''"
    "pick m ''isResponse'' ''is_response'' = pick m' ''isResponse'' ''is_response''"
    using assms by (simp_all add: pick_def split: option.split)
  moreover have "map_of m ''alias'' = map_of m' ''alias''" "map_of m ''type'' = map_of m' ''type''"
    "map_of m ''timestamp'' = map_of m' ''timestamp''" "map_of m ''version'' = map_of m' ''version''"
    using assms(1) by simp_all
  ultimately show ?thesis by (simp only: handshake_of_map_def read_timestamp_def read_version_def)
qed

definition demo_map :: "(string \<times> json) list" where
  "demo_map = [(''alias'', JStr demo_alias), (''timestamp'', json_nat 5), (''isResponse'', JBool True)]"

lemma spelling_tolerated_witness:
  "handshake_of_map demo_map = handshake_of_map (demo_map @ [(''is_response'', JBool False), (''extra'', JNull)])"
  by (rule spelling_tolerated) (simp_all add: demo_map_def)

end
