(* ===== verification/Snapshot_Props.thy ===== *)
theory Snapshot_Props
  imports Handshake_Props
begin

text \<open>
  What a stash restores: a row reads back as it was built, with its bound slot, and a snapshot
  reads back with every conversation, its head still an ordinary stash for a client that knows
  no snapshots.
\<close>

section \<open>One row\<close>

definition saved_ok :: "saved_payload \<Rightarrow> bool" where
  "saved_ok p \<longleftrightarrow> text_ok (sp_kind p) \<and> sp_timestamp p \<le> u64_max \<and>
     check_receiver (sp_alias p) (sp_their_alias p) (sp_version p) = Inr () \<and>
     sp_partner_address p \<noteq> [] \<and> wire_text (sp_partner_address p) \<and> sp_recipient_address p = sp_partner_address p \<and>
     text_ok (sp_conversation_id p) \<and>
     (case sp_bound_branch p of None \<Rightarrow> True | Some b \<Rightarrow> b = bound_branch_receive \<or> b = bound_branch_change) \<and>
     (case sp_bound_index p of None \<Rightarrow> True | Some n \<Rightarrow> n < 2 ^ 32)"

lemma branch_text: "wire_text bound_branch_receive" "wire_text bound_branch_change"
  by (rule plain_is_text, simp add: plain_name_def bound_branch_receive_def bound_branch_change_def)+

text \<open>The values of a row are text, numbers and truth values.\<close>

definition scalar :: "json \<Rightarrow> bool" where
  "scalar j \<longleftrightarrow> (case j of JArr _ \<Rightarrow> False | JObj _ \<Rightarrow> False | _ \<Rightarrow> True)"

lemma scalar_value: "scalar j \<Longrightarrow> json_value j = j"
  by (cases j) (simp_all add: scalar_def)

lemma scalar_opt_field: "(\<And>x. scalar (f x)) \<Longrightarrow> \<forall>e \<in> set (opt_field n f v). scalar (snd e)"
  by (cases v) (simp_all add: opt_field_def)

lemma scalar_makers: "scalar (JStr s)" "scalar (json_nat k)" "scalar (JBool b)"
  by (simp_all add: scalar_def)

lemma saved_scalar: "\<forall>e \<in> set (saved_fields p). scalar (snd e)"
  unfolding saved_fields_def set_append ball_Un
  by (intro conjI scalar_opt_field scalar_makers) (simp_all add: scalar_makers)

lemma saved_printable:
  assumes "saved_ok p"
  shows "\<forall>e \<in> set (saved_fields p). utf8_valid (ascii (fst e)) \<and> printable (snd e)"
proof -
  have r: "check_receiver (sp_alias p) (sp_their_alias p) (sp_version p) = Inr ()"
    and ok: "text_ok (sp_kind p)" "sp_timestamp p \<le> u64_max" "wire_text (sp_partner_address p)"
      "wire_text (sp_recipient_address p)" "text_ok (sp_conversation_id p)"
    using assms by (simp_all add: saved_ok_def)
  have branch: "sp_bound_branch p = Some b \<Longrightarrow> wire_text b" for b
    using assms branch_text by (auto simp: saved_ok_def)
  have index: "sp_bound_index p = Some n \<Longrightarrow> n \<le> u64_max" for n
    using assms by (simp add: saved_ok_def u64_max_def)
  have small: "sp_version p = Some n \<Longrightarrow> n \<le> u64_max" for n
    using receiver_parts(3) [OF r, of n] by (simp add: u64_max_def)
  have al: "wire_text (sp_alias p)" by (rule alias_text [OF receiver_parts(1) [OF r]])
  have opts:
    "\<forall>f \<in> set (opt_field ''type'' JStr (sp_kind p)). utf8_valid (ascii (fst f)) \<and> printable (snd f)"
    "\<forall>f \<in> set (opt_field ''version'' json_nat (sp_version p)). utf8_valid (ascii (fst f)) \<and> printable (snd f)"
    "\<forall>f \<in> set (opt_field ''theirAlias'' JStr (sp_their_alias p)). utf8_valid (ascii (fst f)) \<and> printable (snd f)"
    "\<forall>f \<in> set (opt_field ''isResponse'' JBool (sp_is_response p)). utf8_valid (ascii (fst f)) \<and> printable (snd f)"
    "\<forall>f \<in> set (opt_field ''conversationId'' JStr (sp_conversation_id p)). utf8_valid (ascii (fst f)) \<and> printable (snd f)"
    "\<forall>f \<in> set (opt_field ''boundBranch'' JStr (sp_bound_branch p)). utf8_valid (ascii (fst f)) \<and> printable (snd f)"
    "\<forall>f \<in> set (opt_field ''boundIndex'' json_nat (sp_bound_index p)). utf8_valid (ascii (fst f)) \<and> printable (snd f)"
    by (rule printable_opt_field [OF field_names_text(1)],
        use ok(1) in \<open>simp add: text_ok_def wire_text_def\<close>,
        rule printable_opt_field [OF field_names_text(5)], use small in simp,
        rule printable_opt_field [OF field_names_text(3)],
        use alias_text receiver_parts(2) [OF r] in \<open>simp add: wire_text_def\<close>,
        rule printable_opt_field [OF field_names_text(8)], simp,
        rule printable_opt_field [OF field_names_text(10)],
        use ok(5) in \<open>simp add: text_ok_def wire_text_def\<close>,
        rule printable_opt_field [OF field_names_text(11)],
        use branch in \<open>simp add: wire_text_def\<close>,
        rule printable_opt_field [OF field_names_text(12)], use index in simp)
  have mand: "utf8_valid (ascii ''alias'')" "utf8_valid (ascii ''timestamp'')"
    "utf8_valid (ascii ''partnerAddress'')" "utf8_valid (ascii ''recipientAddress'')"
    using field_names_text(2,4,9,6) by (simp_all only: wire_text_def)
  show ?thesis unfolding saved_fields_def set_append ball_Un
    using opts mand al ok(2-4) by (simp add: wire_text_def)
qed

lemma saved_of_fields:
  assumes "saved_ok p"
    and look: "\<And>k. k \<noteq> ''stashedAt'' \<Longrightarrow> k \<noteq> ''conversations'' \<Longrightarrow>
      map_of m k = map_option json_value (map_of (saved_fields p) k)"
  shows "saved_of_map m = Inr p"
proof -
  have r: "check_receiver (sp_alias p) (sp_their_alias p) (sp_version p) = Inr ()"
    and partner: "sp_partner_address p \<noteq> []" "sp_recipient_address p = sp_partner_address p"
    using assms(1) by (simp_all add: saved_ok_def)
  have texts:
    "text_field (map_of m ''alias'') = Some (sp_alias p)" "text_field (map_of m ''type'') = sp_kind p"
    "read_timestamp m = Some (sp_timestamp p)"
    "text_field (pick m ''theirAlias'' ''their_alias'') = sp_their_alias p"
    "text_field (pick m ''partnerAddress'' ''partner_address'') = Some (sp_partner_address p)"
    "Option.bind (pick m ''isResponse'' ''is_response'') as_bool = sp_is_response p"
    "text_field (pick m ''conversationId'' ''conversation_id'') = sp_conversation_id p"
    "text_field (pick m ''boundBranch'' ''bound_branch'') = sp_bound_branch p"
    using fields
    by (simp_all add: look saved_lookup pick_camel,
        simp_all add: text_field_def read_timestamp_def pick_def look saved_lookup)
  have "Option.bind (pick m ''boundIndex'' ''bound_index'') u32_of = sp_bound_index p"
    using assms(1)
    by (simp add: pick_camel look saved_lookup read_nat_field saved_ok_def split: option.splits)
  moreover have "filter_option (\<lambda>b. b = bound_branch_receive \<or> b = bound_branch_change) (sp_bound_branch p) = sp_bound_branch p"
    using assms(1) by (auto simp: filter_option_def saved_ok_def split: option.splits)
  moreover have "read_version m = Inr (sp_version p)"
    using receiver_parts(3) [OF r]
    by (cases "sp_version p") (simp_all add: look saved_lookup read_version_def u32_of_def)
  moreover have "filter_option (\<lambda>a. a \<noteq> []) (or_else (Some (sp_partner_address p)) v) = Some (sp_partner_address p)" for v
    using partner(1) by (simp add: filter_option_def or_else_def)
  ultimately show ?thesis using texts r partner(2) by (simp add: saved_of_map_def Let_def)
qed

lemma saved_new_ok:
  assumes "saved_new a t partner conv branch index resp ts = Inr p"
    and "wire_text partner" and "wire_text conv" and "index < 2 ^ 32" and "ts \<le> u64_max"
  shows "saved_ok p" and "bound_slot p = Some (branch, index)"
  using assms plain_literal [of "''handshake''"]
  by (auto simp: saved_new_def saved_ok_def check_receiver_def text_ok_def protocol_version_def bound_slot_def
      plain_char_def split: sum.splits if_splits)

section \<open>Rows that went through a value\<close>

lemma set_update_subset: "set (AList.update k v al) \<subseteq> insert (k, v) (set al)"
  by (induction al) auto

lemma set_fold_update: "set (fold (\<lambda>(k, v). AList.update k v) fs al) \<subseteq> set al \<union> set fs"
proof (induction fs arbitrary: al)
  case (Cons f fs)
  show ?case using Cons.IH [of "AList.update (fst f) (snd f) al"] set_update_subset [of "fst f" "snd f" al]
    by (simp add: split_def) blast
qed simp

lemma set_value_map: "set (value_map fs) \<subseteq> set fs"
  using set_fold_update [of fs "[]"] by (simp add: value_map_def)

lemma value_map_keys: "distinct (map fst (value_map fs))"
  unfolding value_map_def by (rule distinct_sort_fst, rule fold_update_distinct) simp

lemma scalar_fields: "\<forall>e \<in> set fs. scalar (snd e) \<Longrightarrow> map (\<lambda>f. (fst f, json_value (snd f))) fs = fs"
  by (induction fs) (simp_all add: scalar_value)

definition row_value :: "saved_payload \<Rightarrow> (string \<times> json) list" where
  "row_value p = value_map (saved_fields p)"

lemma json_value_row: "json_value (JObj (saved_fields p)) = JObj (row_value p)"
  by (simp add: row_value_def scalar_fields [OF saved_scalar])

lemma row_value_fields: "set (row_value p) \<subseteq> set (saved_fields p)" "map_of (row_value p) k = map_of (saved_fields p) k"
  by (simp_all add: row_value_def set_value_map value_map_distinct [OF saved_keys])

lemma row_printable: "saved_ok p \<Longrightarrow> printable (JObj (row_value p))"
  unfolding printable.simps using saved_printable row_value_fields(1) by blast

lemma row_reads_back:
  assumes "json_ok J" and "saved_ok p"
  shows "saved_from_plaintext J (ascii (jc_print J (JObj (row_value p)))) = Inr p"
proof -
  have "distinct (map fst (row_value p))" unfolding row_value_def by (rule value_map_keys)
  then obtain m where m: "from_slice_value J (ascii (jc_print J (JObj (row_value p)))) = Some (JObj m)"
    and look: "\<And>k. map_of m k = map_option json_value (map_of (row_value p) k)"
    using printed_object [OF assms(1) row_printable [OF assms(2)]] by blast
  have "saved_of_map m = Inr p" by (rule saved_of_fields [OF assms(2)]) (simp add: look row_value_fields(2))
  then show ?thesis using m by (simp add: saved_from_plaintext_def json_object_of_def)
qed

section \<open>The spliced text\<close>

definition snapshot_fields :: "snapshot \<Rightarrow> (string \<times> json) list" where
  "snapshot_fields s = saved_fields (sn_head s) @ opt_field ''stashedAt'' json_nat (sn_stashed_at s)
     @ [(''conversations'', JArr (map (\<lambda>p. JObj (saved_fields p)) (sn_conversations s)))]"

lemma saved_fields_nonempty: "saved_fields p \<noteq> []"
  by (simp add: saved_fields_def)

lemma plain_field_name: "json_ok J \<Longrightarrow> jc_print J (JStr ''stashedAt'') = quote # ''stashedAt'' @ [quote]"
    "json_ok J \<Longrightarrow> jc_print J (JStr ''conversations'') = quote # ''conversations'' @ [quote]"
  by (rule json_name, assumption, simp add: plain_name_def)+

lemma snapshot_text:
  assumes "json_ok J"
  shows "snapshot_to_plaintext J s = Inr (ascii (jc_print J (JObj (snapshot_fields s))))"
proof -
  define body where "body = join '','' (map (field_text J) (saved_fields (sn_head s)))"
  have head: "saved_to_plaintext J (sn_head s) = ascii (''{'' @ body @ ''}'')"
    by (simp add: saved_to_plaintext_def json_object [OF assms] body_def)
  then have cut: "butlast (saved_to_plaintext J (sn_head s)) = ascii (''{'' @ body)"
    and last: "last (saved_to_plaintext J (sn_head s)) = byte_of_char (CHR ''}'')" "saved_to_plaintext J (sn_head s) \<noteq> []"
    by (simp_all add: ascii_def butlast_append)
  have ne: "map (field_text J) (saved_fields (sn_head s)) \<noteq> []" by (simp add: saved_fields_nonempty)
  have "jc_print J (JObj (snapshot_fields s)) = ''{'' @ body
      @ (case sn_stashed_at s of None \<Rightarrow> [] | Some t \<Rightarrow> '','' @ [quote] @ ''stashedAt'' @ [quote] @ '':'' @ decimal t)
      @ '','' @ [quote] @ ''conversations'' @ [quote] @ '':''
      @ jc_print J (JArr (map (\<lambda>p. JObj (saved_fields p)) (sn_conversations s))) @ ''}''"
    unfolding json_object [OF assms] snapshot_fields_def map_append
    by (subst join_append [OF ne])
      (simp_all add: body_def opt_field_def field_text_def plain_field_name [OF assms] json_number [OF assms] split: option.split)
  then show ?thesis
    unfolding snapshot_to_plaintext_def Let_def cut using last
    by (simp add: ascii_def split: option.split)
qed

section \<open>Properties\<close>

lemma snapshot_printable:
  assumes "saved_ok (sn_head s)" and "\<forall>p \<in> set (sn_conversations s). saved_ok p"
    and "\<forall>t. sn_stashed_at s = Some t \<longrightarrow> t \<le> u64_max"
  shows "printable (JObj (snapshot_fields s))"
proof -
  have "printable (JObj (saved_fields p))" if "saved_ok p" for p using saved_printable [OF that] by simp
  then have "printable (JArr (map (\<lambda>p. JObj (saved_fields p)) (sn_conversations s)))"
    unfolding printable.simps(4) set_map using assms(2) by blast
  moreover have "\<forall>f \<in> set (opt_field ''stashedAt'' json_nat (sn_stashed_at s)). utf8_valid (ascii (fst f)) \<and> printable (snd f)"
    using assms(3) by (intro printable_opt_field field_names_text) simp
  moreover have "utf8_valid (ascii ''conversations'')" using field_names_text(14) by (simp only: wire_text_def)
  ultimately show ?thesis
    unfolding snapshot_fields_def printable.simps set_append ball_Un
    using saved_printable [OF assms(1)] by simp
qed

lemma snapshot_keys: "distinct (map fst (snapshot_fields s))"
  using saved_keys [of "sn_head s"] map_of_eq_None_iff [of "saved_fields (sn_head s)" "''stashedAt''"]
    map_of_eq_None_iff [of "saved_fields (sn_head s)" "''conversations''"]
  by (simp add: snapshot_fields_def keys_opt_field saved_lookup image_iff)

lemma snapshot_lookup:
  "k \<noteq> ''stashedAt'' \<Longrightarrow> k \<noteq> ''conversations'' \<Longrightarrow> map_of (snapshot_fields s) k = map_of (saved_fields (sn_head s)) k"
  "map_of (snapshot_fields s) ''stashedAt'' = map_option json_nat (sn_stashed_at s)"
  "map_of (snapshot_fields s) ''conversations'' = Some (JArr (map (\<lambda>p. JObj (saved_fields p)) (sn_conversations s)))"
  by (simp_all add: snapshot_fields_def map_add_def fields saved_lookup split: option.split)

text \<open>
  A snapshot restores what it was built from. For at most 128 rows as the builder makes
  them, the bytes written read back as the same snapshot: the head, every row in order, and the
  time it was built. A client that knows no snapshots reads the head from the same bytes, and
  every row has the bound slot it was built with.
\<close>

theorem snapshot_round_trip:
  assumes "json_ok J" and "snapshot_new rows t = Inr s" and "t \<le> u64_max"
    and "\<forall>p \<in> set rows. saved_ok p" and "length rows \<le> max_snapshot_rows"
  shows "\<exists>bs. snapshot_to_plaintext J s = Inr bs \<and> snapshot_from_plaintext J bs = Inr s \<and>
    saved_from_plaintext J bs = Inr (hd rows) \<and> snapshot_rows s = rows"
proof -
  obtain head tail where rows: "rows = head # tail"
    and s: "s = \<lparr>sn_head = head, sn_conversations = rows, sn_stashed_at = Some t\<rparr>"
    using assms(2) by (auto simp: snapshot_new_def split: list.splits)
  define bs where "bs = ascii (jc_print J (JObj (snapshot_fields s)))"
  have "printable (JObj (snapshot_fields s))"
    by (rule snapshot_printable) (use assms(3,4) in \<open>simp_all add: s rows\<close>)
  then obtain m where m: "from_slice_value J bs = Some (JObj m)"
    and look: "\<And>k. map_of m k = map_option json_value (map_of (snapshot_fields s) k)"
    unfolding bs_def using printed_object [OF assms(1) _ snapshot_keys] by blast
  have "saved_of_map m = Inr head"
    by (rule saved_of_fields) (use assms(4) in \<open>simp_all add: rows look snapshot_lookup s\<close>)
  then have head: "saved_from_plaintext J bs = Inr head"
    using m by (simp add: saved_from_plaintext_def json_object_of_def)
  have "json_value (JArr (map (\<lambda>p. JObj (saved_fields p)) rows)) = JArr (map (\<lambda>p. JObj (row_value p)) rows)"
    by (simp add: row_value_def scalar_fields [OF saved_scalar])
  then have "map_of m ''conversations'' = Some (JArr (map (\<lambda>p. JObj (row_value p)) rows))"
    unfolding look snapshot_lookup by (simp add: s del: json_value.simps)
  moreover have "map_of m ''stashedAt'' = Some (json_nat t)" unfolding look snapshot_lookup by (simp add: s)
  moreover have "List.map_filter (\<lambda>row. case saved_from_plaintext J (ascii (jc_print J row)) of Inl _ \<Rightarrow> None | Inr p \<Rightarrow> Some p)
      (map (\<lambda>p. JObj (row_value p)) rows) = rows"
    using assms(4) row_reads_back [OF assms(1)] by (induction rows) (simp_all add: map_filter_simps)
  ultimately have "snapshot_from_plaintext J bs = Inr s"
    using head m assms(5) by (simp add: snapshot_from_plaintext_def s)
  then show ?thesis
    using snapshot_text [OF assms(1), of s] head by (simp add: bs_def snapshot_rows_def s rows)
qed

lemma saved_demo:
  "\<exists>p. saved_new demo_alias None ''partner'' ''c1'' ''change'' 4 True 9 = Inr p \<and> saved_ok p"
proof -
  have "\<exists>p. saved_new demo_alias None ''partner'' ''c1'' ''change'' 4 True 9 = Inr p"
    by (simp add: saved_new_def demo_alias_ok bound_branch_change_def)
  then obtain p where p: "saved_new demo_alias None ''partner'' ''c1'' ''change'' 4 True 9 = Inr p" ..
  have "wire_text ''partner''" "wire_text ''c1''" by (rule plain_is_text, simp add: plain_name_def)+
  then have "saved_ok p" by (rule saved_new_ok(1) [OF p]) (simp_all add: u64_max_def)
  then show ?thesis using p by blast
qed

lemma snapshot_round_trip_witness:
  "\<exists>p s bs. saved_ok p \<and> snapshot_new [p] 11 = Inr s \<and> snapshot_to_plaintext small_codec s = Inr bs \<and>
     snapshot_from_plaintext small_codec bs = Inr s"
proof -
  obtain p where p: "saved_ok p" using saved_demo by blast
  then have all: "\<forall>q \<in> set [p]. saved_ok q" by simp
  obtain s where s: "snapshot_new [p] 11 = Inr s" by (simp add: snapshot_new_def)
  have "(11 :: nat) \<le> u64_max" "length [p] \<le> max_snapshot_rows" by (simp_all add: u64_max_def max_snapshot_rows_def)
  from snapshot_round_trip [OF small_codec_ok s this(1) all this(2)] show ?thesis using p s by blast
qed

text \<open>A single row, the shape the live population writes, reads back with its slot.\<close>

lemma stash_row_round_trip:
  assumes "json_ok J" and "saved_new a t partner conv branch index resp ts = Inr p"
    and "wire_text partner" and "wire_text conv" and "index < 2 ^ 32" and "ts \<le> u64_max"
  shows "saved_from_plaintext J (saved_to_plaintext J p) = Inr p" and "bound_slot p = Some (branch, index)"
proof -
  note ok = saved_new_ok [OF assms(2-6)]
  have "printable (JObj (saved_fields p))" using saved_printable [OF ok(1)] by simp
  then obtain m where m: "from_slice_value J (saved_to_plaintext J p) = Some (JObj m)"
    and look: "\<And>k. map_of m k = map_option json_value (map_of (saved_fields p) k)"
    unfolding saved_to_plaintext_def using printed_object [OF assms(1) _ saved_keys] by blast
  have "saved_of_map m = Inr p" by (rule saved_of_fields [OF ok(1)]) (simp add: look)
  then show "saved_from_plaintext J (saved_to_plaintext J p) = Inr p"
    using m by (simp add: saved_from_plaintext_def json_object_of_def)
  show "bound_slot p = Some (branch, index)" by (rule ok(2))
qed

end
