(* ===== verification/Stash_Tag.thy ===== *)
theory Stash_Tag
  imports Handshake Plain_Text
begin

text \<open>
  The authorship tag of a stash and the description of a refused payload
  (\<open>rust/core/src/handshake.rs\<close>: \<open>attach_stash_tag\<close>, \<open>split_stash_tag\<close>, \<open>describe_shape\<close>), with
  what they promise: a tag comes off as it went on, and a description holds no byte of the
  payload that is not part of an identifier.
\<close>

section \<open>The tag\<close>

definition stash_tag_field :: string where
  "stash_tag_field = ''kvTag''"

definition tag_head :: bytes where
  "tag_head = ascii ('','' @ [quote] @ stash_tag_field @ [quote] @ '':'' @ [quote])"

definition tag_close :: bytes where
  "tag_close = ascii ([quote] @ ''}'')"

definition close_brace :: byte where
  "close_brace = byte_of_char (CHR ''}'')"

definition open_brace :: byte where
  "open_brace = byte_of_char (CHR ''{'')"

definition attach_stash_tag :: "bytes \<Rightarrow> bytes \<Rightarrow> core_error + bytes" where
  "attach_stash_tag untagged tag =
     (if untagged = [] \<or> last untagged \<noteq> close_brace then Inl (HandshakeShape ''serialize'')
      else Inr (butlast untagged @ tag_head @ ascii (hex_lower tag) @ tag_close))"

text \<open>\<open>slice::strip_suffix\<close> and \<open>u8::from_str_radix\<close> with radix 16, which allows one plus sign.\<close>

definition strip_suffix :: "'a list \<Rightarrow> 'a list \<Rightarrow> 'a list option" where
  "strip_suffix p xs = map_option rev (strip_prefix (rev p) (rev xs))"

definition hex_digits :: "string \<Rightarrow> nat option" where
  "hex_digits s = fold (\<lambda>ch acc. Option.bind acc (\<lambda>n. map_option (\<lambda>d. 16 * n + d) (hex_value ch))) s (Some 0)"

definition u8_from_hex :: "string \<Rightarrow> byte option" where
  "u8_from_hex s =
     (let s' = strip_plus s in
      if s' = [] then None
      else (case hex_digits s' of None \<Rightarrow> None | Some n \<Rightarrow> if n < 256 then Some (of_nat n) else None))"

text \<open>The loop over the 32 bytes of the tag.\<close>

fun read_hex_bytes :: "nat \<Rightarrow> bytes \<Rightarrow> bytes option" where
  "read_hex_bytes 0 hex = Some []"
| "read_hex_bytes (Suc n) hex =
     (if length hex < 2 then None
      else (case Option.bind (from_utf8 (take 2 hex)) u8_from_hex of
         None \<Rightarrow> None
       | Some b \<Rightarrow> map_option (Cons b) (read_hex_bytes n (drop 2 hex))))"

definition split_stash_tag :: "bytes \<Rightarrow> (bytes \<times> bytes) option" where
  "split_stash_tag plaintext =
     (let suffix_len = length tag_head + 64 + 2 in
      if length plaintext \<le> suffix_len then None
      else
        let body = take (length plaintext - suffix_len) plaintext;
            suffix = drop (length plaintext - suffix_len) plaintext
        in (case strip_prefix tag_head suffix of None \<Rightarrow> None | Some rest \<Rightarrow>
           (case strip_suffix tag_close rest of None \<Rightarrow> None | Some hex \<Rightarrow>
           (case read_hex_bytes 32 hex of None \<Rightarrow> None | Some tag \<Rightarrow>
              let untagged = body @ [close_brace]
              in if \<not> starts_with untagged [open_brace] then None else Some (untagged, tag)))))"

section \<open>The shape of a refused payload\<close>

definition max_shape_fields :: nat where
  "max_shape_fields = 24"

definition max_name_len :: nat where
  "max_name_len = 32"

definition safe_name :: "string \<Rightarrow> string" where
  "safe_name name =
     (if name \<noteq> [] \<and> length name \<le> max_name_len
        \<and> list_all (\<lambda>b. is_ascii_alphanumeric b \<or> b = CHR ''_'') name
      then name
      else ''<unprintable:'' @ decimal (min (length name) 999) @ ''>'')"

fun json_type_name :: "json \<Rightarrow> string" where
  "json_type_name JNull = ''null''"
| "json_type_name (JBool _) = ''bool''"
| "json_type_name (JNum _) = ''number''"
| "json_type_name (JStr _) = ''string''"
| "json_type_name (JArr _) = ''array''"
| "json_type_name (JObj _) = ''object''"

definition ellipsis :: string where
  "ellipsis = [CHR 0xE2, CHR 0x80, CHR 0xA6]"

definition describe_shape :: "json_codec \<Rightarrow> bytes \<Rightarrow> string" where
  "describe_shape J plaintext =
     (case from_slice_value J plaintext of
        None \<Rightarrow> ''not-json''
      | Some (JObj m) \<Rightarrow>
          let total = length m;
              parts = map (\<lambda>f. safe_name (fst f) @ '':'' @ json_type_name (snd f)) (take max_shape_fields m)
          in join '','' (if max_shape_fields < total
               then parts @ [ellipsis @ ''+'' @ decimal (total - max_shape_fields) @ '' more''] else parts)
      | Some other \<Rightarrow> ''not-an-object('' @ json_type_name other @ '')'')"

section \<open>A tag comes off as it went on\<close>

lemma hex_digit_value: "n < 16 \<Longrightarrow> hex_value (digit n) = Some n \<and> digit n \<noteq> CHR ''+''"
proof -
  assume "n < 16"
  then consider "n < 10" | "n = 10" | "n = 11" | "n = 12" | "n = 13" | "n = 14" | "n = 15"
    by (auto simp: numeral_eq_Suc less_Suc_eq)
  then show ?thesis
  proof cases
    case 1
    then show ?thesis using digit_cases [OF 1] digit_not_plus by (auto simp: hex_value_def)
  qed (simp_all add: digit_def hex_value_def is_ascii_digit_def)
qed

lemma hexdigit_listed: "n < 16 \<Longrightarrow> is_ascii_hexdigit (digit n)"
proof -
  assume "n < 16"
  then consider "n < 10" | "n = 10" | "n = 11" | "n = 12" | "n = 13" | "n = 14" | "n = 15"
    by (auto simp: numeral_eq_Suc less_Suc_eq)
  then show ?thesis
    by cases (simp_all add: digit_cases is_ascii_hexdigit_def, simp_all add: digit_def)
qed

lemma hex_byte_digits: "unat (b :: byte) div 16 < 16" "unat b mod 16 < 16"
  using unsigned_less [of b, where ?'a = nat] by simp_all

lemma hex_byte_plain: "list_all is_ascii_hexdigit (hex_byte b)"
  by (simp add: hex_byte_def hexdigit_listed hex_byte_digits)

lemma hex_lower_plain: "list_all is_ascii_hexdigit (hex_lower bs)"
  by (induction bs) (simp_all add: hex_lower_def hex_byte_plain)

lemma u8_from_hex_byte: "u8_from_hex (hex_byte b) = Some b"
proof -
  note d = hex_digit_value [OF hex_byte_digits(1) [of b]] hex_digit_value [OF hex_byte_digits(2) [of b]]
  have "strip_plus (hex_byte b) = hex_byte b" using d(1) by (simp add: strip_plus_def hex_byte_def)
  moreover have "hex_digits (hex_byte b) = Some (unat b)"
    using d by (simp add: hex_digits_def hex_byte_def)
  ultimately show ?thesis
    using unsigned_less [of b, where ?'a = nat] by (simp add: u8_from_hex_def Let_def) (simp add: hex_byte_def)
qed

lemma read_hex_lower: "length tag = n \<Longrightarrow> read_hex_bytes n (ascii (hex_lower tag)) = Some tag"
proof (induction tag arbitrary: n)
  case (Cons b tag)
  have two: "ascii (hex_lower (b # tag)) = ascii (hex_byte b) @ ascii (hex_lower tag)" by (simp add: hex_lower_def)
  have len: "length (ascii (hex_byte b)) = 2" by (simp add: hex_byte_def)
  have "from_utf8 (ascii (hex_byte b)) = Some (hex_byte b)"
    using hex_text [OF hex_byte_plain] unfolding wire_text_def by (rule from_utf8_ascii)
  moreover have "take 2 (ascii (hex_lower (b # tag))) = ascii (hex_byte b)"
    "drop 2 (ascii (hex_lower (b # tag))) = ascii (hex_lower tag)" unfolding two using len by simp_all
  moreover have "2 \<le> length (ascii (hex_lower (b # tag)))" unfolding two using len by simp
  ultimately show ?case using Cons u8_from_hex_byte [of b] by (cases n) (simp_all add: not_less)
qed (simp add: hex_lower_def)

lemma length_tag_head [simp]: "length tag_head = 10"
  by (simp add: tag_head_def stash_tag_field_def)

lemma length_tag_close [simp]: "length tag_close = 2"
  by (simp add: tag_close_def)

lemma strip_suffix_append: "strip_suffix p (xs @ p) = Some xs"
  by (simp add: strip_suffix_def)

lemma strip_suffix_Some: "strip_suffix p xs = Some ys \<longleftrightarrow> xs = ys @ p"
  by (auto simp: strip_suffix_def strip_prefix_Some) (metis rev_append rev_rev_ident)

lemma length_read_hex: "read_hex_bytes n hex = Some t \<Longrightarrow> length t = n"
proof (induction n arbitrary: t hex)
  case (Suc n)
  then show ?case
    by (cases "Option.bind (from_utf8 (take 2 hex)) u8_from_hex"; cases "read_hex_bytes n (drop 2 hex)")
      (auto split: if_splits)
qed simp

lemma split_parts:
  assumes "split_stash_tag plaintext = Some (u, t)"
  obtains hex where "length hex = 64" and "plaintext = butlast u @ tag_head @ hex @ tag_close"
    and "starts_with u [open_brace]" and "length t = 32"
proof -
  define k where "k = length plaintext - 76"
  from assms have long: "76 < length plaintext" by (simp add: split_stash_tag_def Let_def split: if_splits)
  note split = assms [unfolded split_stash_tag_def Let_def, simplified, folded k_def]
  obtain rest where rest: "strip_prefix tag_head (drop k plaintext) = Some rest"
    using split long by (cases "strip_prefix tag_head (drop k plaintext)") (simp_all add: k_def)
  obtain hex where hex: "strip_suffix tag_close rest = Some hex"
    using split long rest by (cases "strip_suffix tag_close rest") (simp_all add: k_def)
  obtain t' where t': "read_hex_bytes 32 hex = Some t'"
    using split long rest hex by (cases "read_hex_bytes 32 hex") (simp_all add: k_def)
  have u: "t = t'" "u = take k plaintext @ [close_brace]" "starts_with u [open_brace]"
    using split long rest hex t' by (simp_all add: k_def split: if_splits)
  have tail: "drop k plaintext = tag_head @ hex @ tag_close"
    using rest hex by (simp add: strip_prefix_Some strip_suffix_Some)
  have "length (drop k plaintext) = 76" using long by (simp add: k_def)
  then have "length hex = 64" unfolding tail by simp
  moreover have "plaintext = butlast u @ tag_head @ hex @ tag_close"
    unfolding u(2) tail [symmetric] by simp
  ultimately show thesis using that u(1,3) length_read_hex [OF t'] by blast
qed

text \<open>
  A tag comes off as it went on. Tagging succeeds exactly for bytes that end in a brace; and
  when they are an object's, splitting the tagged bytes gives back those bytes and the tag. What
  splits was tagged: the bytes are the untagged ones with their brace replaced by the tag field.
\<close>

theorem stash_tag_round_trip:
  assumes "length tag = 32"
  shows "((\<exists>out. attach_stash_tag untagged tag = Inr out) \<longleftrightarrow> untagged \<noteq> [] \<and> last untagged = close_brace) \<and>
    (\<forall>out. attach_stash_tag untagged tag = Inr out \<longrightarrow> 1 < length untagged \<longrightarrow> starts_with untagged [open_brace] \<longrightarrow>
       split_stash_tag out = Some (untagged, tag)) \<and>
    (\<forall>u t. split_stash_tag plaintext = Some (u, t) \<longrightarrow>
       starts_with u [open_brace] \<and> length t = 32 \<and>
       (\<exists>hex. length hex = 64 \<and> plaintext = butlast u @ tag_head @ hex @ tag_close))"
proof (intro conjI allI impI)
  show "(\<exists>out. attach_stash_tag untagged tag = Inr out) \<longleftrightarrow> untagged \<noteq> [] \<and> last untagged = close_brace"
    by (simp add: attach_stash_tag_def)
next
  fix out assume attached: "attach_stash_tag untagged tag = Inr out" and obj: "1 < length untagged" "starts_with untagged [open_brace]"
  then have u: "untagged \<noteq> []" "last untagged = close_brace"
    and o: "out = butlast untagged @ tag_head @ ascii (hex_lower tag) @ tag_close"
    by (simp_all add: attach_stash_tag_def split: if_splits)
  have len: "length out = length (butlast untagged) + 76" using assms by (simp add: o)
  have "butlast untagged @ [close_brace] = untagged" using u by (metis append_butlast_last_id)
  moreover have "0 < length (butlast untagged)" using obj(1) by simp
  ultimately show "split_stash_tag out = Some (untagged, tag)"
    using read_hex_lower [OF assms] obj(2)
    unfolding split_stash_tag_def Let_def len
    by (simp add: o strip_suffix_append)
next
  fix u t assume "split_stash_tag plaintext = Some (u, t)"
  then show "starts_with u [open_brace]" by (rule split_parts)
next
  fix u t assume "split_stash_tag plaintext = Some (u, t)"
  then show "length t = 32" by (rule split_parts)
next
  fix u t assume "split_stash_tag plaintext = Some (u, t)"
  then show "\<exists>hex. length hex = 64 \<and> plaintext = butlast u @ tag_head @ hex @ tag_close"
    by (rule split_parts) blast
qed

lemma stash_tag_round_trip_witness:
  "\<exists>out. attach_stash_tag [open_brace, close_brace] (replicate 32 7) = Inr out \<and>
     split_stash_tag out = Some ([open_brace, close_brace], replicate 32 7)"
proof -
  let ?u = "[open_brace, close_brace]" and ?t = "replicate 32 7 :: bytes"
  have t: "length ?t = 32" by simp
  obtain out where "attach_stash_tag ?u ?t = Inr out" by (simp add: attach_stash_tag_def)
  moreover have "1 < length ?u" "starts_with ?u [open_brace]" by (simp_all add: starts_with_def)
  ultimately show ?thesis
    using conjunct1 [OF conjunct2 [OF stash_tag_round_trip [OF t, of ?u "[]"]]] by blast
qed

section \<open>A description holds nothing of a stranger's\<close>

definition safe_char :: "char \<Rightarrow> bool" where
  "safe_char ch \<longleftrightarrow> is_ascii_alphanumeric ch \<or> ch \<in> set ''_:,<>()-+ '' \<or> ch \<in> set ellipsis"

lemma safe_decimal: "list_all safe_char (decimal n)"
  using decimal_digits [of n] by (auto simp: list_all_iff safe_char_def is_ascii_alphanumeric_def)

lemma safe_name_safe: "list_all safe_char (safe_name name)"
proof (cases "name \<noteq> [] \<and> length name \<le> max_name_len \<and> list_all (\<lambda>b. is_ascii_alphanumeric b \<or> b = CHR ''_'') name")
  case True
  then show ?thesis by (auto simp: safe_name_def list_all_iff safe_char_def)
next
  case False
  have "list_all safe_char ''<unprintable:''"
    by (simp add: safe_char_def is_ascii_alphanumeric_def is_ascii_lowercase_def)
  moreover have "list_all safe_char ''>''" by (simp add: safe_char_def)
  ultimately show ?thesis using False safe_decimal by (simp only: safe_name_def if_False list_all_append)
qed

lemma type_name_safe: "list_all safe_char (json_type_name j) \<and> length (json_type_name j) \<le> 6"
  by (cases j) (simp_all add: safe_char_def is_ascii_alphanumeric_def is_ascii_lowercase_def)

lemma join_safe: "list_all safe_char sep \<Longrightarrow> list_all (list_all safe_char) xs \<Longrightarrow> list_all safe_char (join sep xs)"
  by (induction sep xs rule: join.induct) simp_all

lemma literals_safe:
  "list_all safe_char '',''" "list_all safe_char '':''" "list_all safe_char '')''" "list_all safe_char ''+''"
  "list_all safe_char ellipsis" "list_all safe_char '' more''" "list_all safe_char ''not-json''"
  "list_all safe_char ''not-an-object(''"
  by (simp_all add: safe_char_def ellipsis_def is_ascii_alphanumeric_def is_ascii_lowercase_def)

lemma field_safe: "list_all safe_char (safe_name (fst f) @ '':'' @ json_type_name (snd f))"
  unfolding list_all_append by (intro conjI safe_name_safe literals_safe conjunct1 [OF type_name_safe])

lemma list_all_if: "list_all P xs \<Longrightarrow> P r \<Longrightarrow> list_all P (if c then xs @ [r] else xs)"
  by simp

lemma rest_safe: "list_all safe_char (ellipsis @ ''+'' @ decimal n @ '' more'')"
  unfolding list_all_append by (intro conjI safe_decimal literals_safe)

text \<open>
  A description is safe to log. Whatever bytes a stranger sealed to us, the description of
  their shape consists of ASCII letters and digits, a few fixed signs and the ellipsis; so it
  holds no newline and no control character.
\<close>

theorem describe_shape_safe:
  "list_all safe_char (describe_shape J plaintext) \<and> newline \<notin> set (describe_shape J plaintext)"
proof -
  have "list_all safe_char (describe_shape J plaintext)"
  proof (cases "from_slice_value J plaintext")
    case None
    then show ?thesis using literals_safe(7) by (simp only: describe_shape_def option.case)
  next
    case (Some v)
    show ?thesis
    proof (cases "\<exists>m. v = JObj m")
      case True
      then obtain m where m: "v = JObj m" ..
      have "list_all (list_all safe_char) (map (\<lambda>f. safe_name (fst f) @ '':'' @ json_type_name (snd f)) (take max_shape_fields m))"
        by (simp only: list.pred_map comp_def field_safe list.pred_True)
      then show ?thesis
        unfolding describe_shape_def Some m option.case json.case Let_def
        by (intro join_safe literals_safe list_all_if rest_safe)
    next
      case False
      have "list_all safe_char (''not-an-object('' @ json_type_name v @ '')'')"
        unfolding list_all_append by (intro conjI literals_safe conjunct1 [OF type_name_safe])
      then show ?thesis using False Some by (cases v) (simp_all only: describe_shape_def option.case json.case, blast)
    qed
  qed
  moreover have "\<not> safe_char newline"
    by (simp add: safe_char_def ellipsis_def is_ascii_alphanumeric_def is_ascii_digit_def
        is_ascii_lowercase_def is_ascii_uppercase_def)
  ultimately show ?thesis unfolding list_all_iff by blast
qed

end
