(* ===== verification/Json_Store.thy ===== *)
theory Json_Store
  imports Durable
begin

text \<open>
  The small JSON files beside the logs (\<open>rust/chain/src/history_fill.rs\<close>: \<open>read_json\<close>,
  \<open>write_json\<close>, \<open>write_json_durable\<close>). serde's derived writer and reader of a type are a
  parameter, a \<open>serde\<close>; \<open>serde_ok\<close> is their documented round trip, up to the order of a map.
\<close>

record 'a serde =
  to_vec :: "'a \<Rightarrow> bytes option"
  from_slice :: "bytes \<Rightarrow> 'a option"

definition serde_ok :: "('a \<Rightarrow> 'a \<Rightarrow> bool) \<Rightarrow> 'a serde \<Rightarrow> bool" where
  "serde_ok same s \<longleftrightarrow> (\<forall>v bs. to_vec s v = Some bs \<longrightarrow> (\<exists>v'. from_slice s bs = Some v' \<and> same v' v))"

datatype file_error = Encode_Failed | Dir_Failed io_error | Write_Failed io_error

text \<open>\<open>fs::read(..).ok()\<close> and then \<open>from_slice(..).ok()\<close>.\<close>

definition read_opt :: "'a serde \<Rightarrow> path \<Rightarrow> disk \<Rightarrow> disk \<times> 'a option" where
  "read_opt s p d = (case read_file p d of
     (d, Inl _) \<Rightarrow> (d, None)
   | (d, Inr bs) \<Rightarrow> (d, from_slice s bs))"

definition read_json :: "'a serde \<Rightarrow> 'a \<Rightarrow> path \<Rightarrow> disk \<Rightarrow> disk \<times> 'a" where
  "read_json s v0 p d = (case read_opt s p d of
     (d, None) \<Rightarrow> (d, v0)
   | (d, Some v) \<Rightarrow> (d, v))"

text \<open>The cheap write: the file is truncated when it is opened, then written.\<close>

definition write_json :: "'a serde \<Rightarrow> path \<Rightarrow> 'a \<Rightarrow> disk \<Rightarrow> disk \<times> (file_error + unit)" where
  "write_json s p v d = (case to_vec s v of
     None \<Rightarrow> (d, Inl Encode_Failed)
   | Some bs \<Rightarrow>
       let put = (\<lambda>d. io_try d (\<lambda>_ d. (d, Inl (Write_Failed OtherError))) (\<lambda>d. \<comment> \<open>open\<close>
             let d = put_file p [] d in
             io_try d (\<lambda>n d. (put_file p (take n bs) d, Inl (Write_Failed OtherError)))
               (\<lambda>d. (put_file p bs d, Inr ()))))
       in (case parent p of
             None \<Rightarrow> put d
           | Some _ \<Rightarrow> io_try d (\<lambda>_ d. (d, Inl (Dir_Failed OtherError))) put))"

definition write_json_durable :: "'a serde \<Rightarrow> path \<Rightarrow> 'a \<Rightarrow> disk \<Rightarrow> disk \<times> (file_error + unit)" where
  "write_json_durable s p v d = (case to_vec s v of
     None \<Rightarrow> (d, Inl Encode_Failed)
   | Some bs \<Rightarrow> (case atomic_write p bs d of
       (d, Inl e) \<Rightarrow> (d, Inl (Write_Failed e))
     | (d, Inr _) \<Rightarrow> (d, Inr ())))"

section \<open>What the files hold\<close>

text \<open>What a read that meets no failure gives.\<close>

definition stored :: "'a serde \<Rightarrow> path \<Rightarrow> disk \<Rightarrow> 'a option" where
  "stored s p d = Option.bind (content d p) (from_slice s)"

lemma stored_cong: "content d p = content d' p \<Longrightarrow> stored s p d = stored s p d'"
  by (simp add: stored_def)

lemma read_opt_cases:
  assumes "read_opt s p d = (d', v)"
  shows "content d' = content d \<and> (v = None \<or> v = stored s p d)"
proof -
  obtain d1 r where r: "read_file p d = (d1, r)" by fastforce
  show ?thesis
    using assms r read_file_content [OF r] read_file_Inr [of p d d1]
    by (cases r) (auto simp: read_opt_def stored_def)
qed

lemma read_opt_no_fault: "faults d = [] \<Longrightarrow> read_opt s p d = (d, stored s p d)"
  by (simp add: read_opt_def read_file_def stored_def split: option.splits)

lemma write_json_cases:
  assumes "write_json s p v d = (d', r)"
  shows "(r = Inr () \<longrightarrow> (\<exists>bs. to_vec s v = Some bs \<and> content d' = (content d)(p \<mapsto> bs))) \<and>
    (\<forall>q. q \<noteq> p \<longrightarrow> content d' q = content d q)"
  using assms unfolding write_json_def Let_def
  by (auto elim!: io_tryE split: option.splits)

lemma write_json_durable_cases:
  assumes p: "p \<noteq> []" and "write_json_durable s p v d = (d', r)"
  obtains (saved) bs where "r = Inr ()" "to_vec s v = Some bs"
      "content d' = (content d)(p \<mapsto> bs, temp_path p := None)"
  | (kept) e where "r = Inl e" "\<And>q. q \<noteq> temp_path p \<Longrightarrow> content d' q = content d q"
proof (cases "to_vec s v")
  case None
  then show thesis using assms(2) kept by (auto simp: write_json_durable_def)
next
  case (Some bs)
  obtain d1 r1 where aw: "atomic_write p bs d = (d1, r1)" by fastforce
  show thesis
  proof (cases r1)
    case (Inl e)
    then show thesis
      using assms(2) Some aw atomic_write_Inl [OF p aw [unfolded Inl]] kept
      by (auto simp: write_json_durable_def)
  next
    case (Inr u)
    then show thesis
      using assms(2) Some aw atomic_write_Inr [OF p aw [unfolded Inr]] saved
      by (auto simp: write_json_durable_def)
  qed
qed

section \<open>A file that is saved durably\<close>

text \<open>
  What its users rely on: a save that answers is what the file gives from then on, and one that
  fails leaves the file as it was.
\<close>

locale durable_file =
  fixes target :: path and save :: "'a serde \<Rightarrow> path \<Rightarrow> 'a \<Rightarrow> disk \<Rightarrow> disk \<times> (file_error + unit)"
  assumes saved: "serde_ok same s \<Longrightarrow> save s (dir @ target) v d = (d', Inr ()) \<Longrightarrow>
      \<exists>v'. stored s (dir @ target) d' = Some v' \<and> same v' v"
    and kept: "save s (dir @ target) v d = (d', Inl e) \<Longrightarrow> stored s (dir @ target) d' = stored s (dir @ target) d"
begin

text \<open>Memory that follows the file only after a save agrees with it before and after.\<close>

lemma follows:
  assumes ok: "serde_ok same s"
    and before: "stored s (dir @ target) d = Some v0 \<and> same v0 m"
    and run: "save s (dir @ target) v d = (d', r)"
    and m': "m' = (case r of Inl _ \<Rightarrow> m | Inr _ \<Rightarrow> v)"
  shows "\<exists>v'. stored s (dir @ target) d' = Some v' \<and> same v' m'"
proof (cases r)
  case (Inl e)
  then show ?thesis using kept [OF run [unfolded Inl]] before m' by simp
next
  case (Inr u)
  then have "save s (dir @ target) v d = (d', Inr ())" using run by simp
  then show ?thesis using saved [OF ok] m' Inr by simp
qed

end

lemma durable_file_write: "target \<noteq> [] \<Longrightarrow> durable_file target write_json_durable"
proof
  fix same :: "'a \<Rightarrow> 'a \<Rightarrow> bool" and s dir v d d' e
  assume ne: "target \<noteq> []"
  then have p: "dir @ target \<noteq> []" by simp
  show "serde_ok same s \<Longrightarrow> write_json_durable s (dir @ target) v d = (d', Inr ()) \<Longrightarrow>
      \<exists>v'. stored s (dir @ target) d' = Some v' \<and> same v' v"
    by (erule write_json_durable_cases [OF p])
       (use temp_path_neq [OF p] in \<open>auto simp: serde_ok_def stored_def\<close>)
  show "write_json_durable s (dir @ target) v d = (d', Inl e) \<Longrightarrow> stored s (dir @ target) d' = stored s (dir @ target) d"
    by (erule write_json_durable_cases [OF p])
       (use temp_path_neq [OF p] in \<open>auto intro: stored_cong\<close>)
qed

text \<open>A concrete writer and reader, of two values.\<close>

definition two_values :: "'a \<Rightarrow> 'a \<Rightarrow> 'a serde" where
  "two_values a b = \<lparr>to_vec = (\<lambda>v. if v = a then Some [0] else if v = b then Some [1] else None),
     from_slice = (\<lambda>bs. if bs = [0] then Some a else if bs = [1] then Some b else None)\<rparr>"

lemma two_values_ok: "(\<And>v. same v v) \<Longrightarrow> serde_ok same (two_values a b)"
  by (simp add: serde_ok_def two_values_def)

end
