(* ===== verification/Ranking.thy ===== *)
theory Ranking
  imports Prelude "HOL-Library.Product_Lexorder" "HOL-Library.Multiset"
begin

text \<open>
  Rust's comparison chains over the rows of a hash map: \<open>Ordering\<close>, \<open>a.cmp(b).then(..)\<close>,
  \<open>Iterator::max_by\<close> and \<open>sort_by\<close>. A map's rows come in an order the program does not
  choose, so a lookup that picks the best row, or sorts them, is only well defined if its
  comparison leaves no two different rows equal. That contract is the locale \<open>ranking\<close>; a
  chain of comparisons meets it when it compares the rows' keys in a linear order
  (\<open>keyed_ranking\<close>), with \<open>down\<close> for a field compared in reverse.
\<close>

section \<open>Orderings\<close>

datatype ordering = Less | Equal | Greater

instantiation ordering :: linorder
begin

definition less_eq_ordering :: "ordering \<Rightarrow> ordering \<Rightarrow> bool" where
  "less_eq_ordering a b \<longleftrightarrow> a = Less \<or> a = b \<or> b = Greater"

definition less_ordering :: "ordering \<Rightarrow> ordering \<Rightarrow> bool" where
  "less_ordering a b \<longleftrightarrow> a \<le> b \<and> a \<noteq> b"

instance
  by standard (auto simp: less_eq_ordering_def less_ordering_def, (metis ordering.exhaust)+)

end

lemma ordering_le [simp]:
  "Less \<le> x" "x \<le> Greater" "\<not> Greater \<le> Equal" "\<not> Greater \<le> Less" "\<not> Equal \<le> Less"
  by (simp_all add: less_eq_ordering_def)

lemma le_Equal: "x \<le> Equal \<longleftrightarrow> x \<noteq> Greater"
  by (cases x) (simp_all add: less_eq_ordering_def)

definition cmp :: "'a::linorder \<Rightarrow> 'a \<Rightarrow> ordering" where
  "cmp a b = (if a < b then Less else if a = b then Equal else Greater)"

fun then_cmp :: "ordering \<Rightarrow> ordering \<Rightarrow> ordering" where
  "then_cmp Equal b = b"
| "then_cmp a _ = a"

lemma cmp_Equal [simp]: "cmp a b = Equal \<longleftrightarrow> a = b"
  by (simp add: cmp_def)

lemma cmp_Less [simp]: "cmp a b = Less \<longleftrightarrow> a < b"
  by (simp add: cmp_def)

lemma cmp_Greater [simp]: "cmp a b = Greater \<longleftrightarrow> b < a"
  by (auto simp: cmp_def)

text \<open>A field compared with the operands swapped.\<close>

datatype 'a down = Down (undown: 'a)

instantiation down :: (linorder) linorder
begin

definition less_eq_down :: "'a down \<Rightarrow> 'a down \<Rightarrow> bool" where
  "less_eq_down a b \<longleftrightarrow> undown b \<le> undown a"

definition less_down :: "'a down \<Rightarrow> 'a down \<Rightarrow> bool" where
  "less_down a b \<longleftrightarrow> undown b < undown a"

instance
  by standard (auto simp: less_eq_down_def less_down_def intro: down.expand)

end

lemma cmp_Down: "cmp (Down a) (Down b) = cmp b a"
  by (auto simp: cmp_def less_down_def)

lemma cmp_pair: "cmp (a, b) (c, d) = then_cmp (cmp a c) (cmp b d)"
  by (auto simp: cmp_def less_prod_def)

lemmas cmp_keys = cmp_pair cmp_Down

section \<open>Choosing and sorting\<close>

text \<open>\<open>max_by\<close> keeps the later of two equal rows; \<open>sort_by\<close> is stable.\<close>

fun max_by :: "('a \<Rightarrow> 'a \<Rightarrow> ordering) \<Rightarrow> 'a list \<Rightarrow> 'a option" where
  "max_by f [] = None"
| "max_by f (x # xs) = Some (foldl (\<lambda>m y. if f m y = Greater then m else y) x xs)"

fun insert_by :: "('a \<Rightarrow> 'a \<Rightarrow> ordering) \<Rightarrow> 'a \<Rightarrow> 'a list \<Rightarrow> 'a list" where
  "insert_by f x [] = [x]"
| "insert_by f x (y # ys) = (if f x y = Greater then y # insert_by f x ys else x # y # ys)"

fun sort_by :: "('a \<Rightarrow> 'a \<Rightarrow> ordering) \<Rightarrow> 'a list \<Rightarrow> 'a list" where
  "sort_by f [] = []"
| "sort_by f (x # xs) = insert_by f x (sort_by f xs)"

lemma max_by_None [simp]: "max_by f xs = None \<longleftrightarrow> xs = []"
  by (cases xs) simp_all

lemma max_by_in: "max_by f xs = Some m \<Longrightarrow> m \<in> set xs"
proof (cases xs)
  case (Cons x ys)
  have "foldl (\<lambda>m y. if f m y = Greater then m else y) x ys \<in> set (x # ys)"
    by (induction ys arbitrary: x) (auto split: if_splits)
  then show "max_by f xs = Some m \<Longrightarrow> m \<in> set xs" using Cons by auto
qed simp

lemma mset_insert_by [simp]: "mset (insert_by f x xs) = add_mset x (mset xs)"
  by (induction xs) auto

lemma mset_sort_by [simp]: "mset (sort_by f xs) = mset xs"
  by (induction xs) auto

lemma set_sort_by [simp]: "set (sort_by f xs) = set xs"
  by (metis mset_sort_by set_mset_mset)

lemma length_sort_by [simp]: "length (sort_by f xs) = length xs"
  by (metis mset_sort_by size_mset)

lemma distinct_sort_by [simp]: "distinct (sort_by f xs) = distinct xs"
  by (metis mset_sort_by mset_eq_imp_distinct_iff)

section \<open>The contract\<close>

text \<open>
  A total comparison that calls two rows equal only when they have the same identity.
\<close>

locale ranking =
  fixes compare :: "'a \<Rightarrow> 'a \<Rightarrow> ordering" and ident :: "'a \<Rightarrow> 'k"
  assumes flip: "compare b a = Greater \<longleftrightarrow> compare a b = Less"
    and tie: "compare a b = Equal \<Longrightarrow> ident a = ident b"
    and trans: "compare a b \<le> Equal \<Longrightarrow> compare b c \<le> Equal \<Longrightarrow> compare a c \<le> Equal"
begin

lemma self: "compare a a = Equal"
  using flip [of a a] by (cases "compare a a") auto

lemma total: "compare a b \<le> Equal \<or> compare b a \<le> Equal"
  using flip [of a b] by (cases "compare b a") (auto simp: le_Equal)

lemma antisym: "compare a b \<le> Equal \<Longrightarrow> compare b a \<le> Equal \<Longrightarrow> ident a = ident b"
  using flip [of a b] flip [of b a] tie [of a b]
  by (cases "compare a b"; cases "compare b a") (auto simp: le_Equal)

lemma best_is_greatest:
  assumes "max_by compare xs = Some m" and "x \<in> set xs"
  shows "compare x m \<le> Equal"
proof -
  have "\<forall>x \<in> set (y # ys). compare x (foldl (\<lambda>m y. if compare m y = Greater then m else y) y ys) \<le> Equal"
    for y ys
  proof (induction ys arbitrary: y)
    case Nil
    then show ?case by (simp add: self)
  next
    case (Cons z zs)
    let ?best = "if compare y z = Greater then y else z"
    have "compare y ?best \<le> Equal" and "compare z ?best \<le> Equal"
      using flip [of z y] by (auto simp: self le_Equal)
    moreover have "\<forall>x \<in> set (?best # zs). compare x (foldl (\<lambda>m y. if compare m y = Greater then m else y) ?best zs) \<le> Equal"
      by (rule Cons.IH)
    ultimately show ?case using trans [of y ?best] trans [of z ?best] by simp
  qed
  then show ?thesis using assms by (cases xs) auto
qed

lemma best_unique:
  assumes "m \<in> set xs" and best: "\<And>x. x \<in> set xs \<Longrightarrow> compare x m \<le> Equal" and inj: "inj_on ident (set xs)"
  shows "max_by compare xs = Some m"
proof -
  obtain b where b: "max_by compare xs = Some b" using assms(1) by (cases "max_by compare xs") auto
  have "ident m = ident b"
    using best_is_greatest [OF b assms(1)] best [OF max_by_in [OF b]] by (rule antisym)
  then have "m = b" using inj assms(1) max_by_in [OF b] by (simp add: inj_on_def)
  then show ?thesis using b by simp
qed

text \<open>The choice does not depend on the order the rows come in.\<close>

lemma best_cong:
  assumes "set xs = set ys" and inj: "inj_on ident (set xs)"
  shows "max_by compare xs = max_by compare ys"
proof (cases "max_by compare ys")
  case None
  then show ?thesis using assms(1) by simp
next
  case (Some m)
  then show ?thesis
    using best_unique [of m xs] max_by_in [OF Some] best_is_greatest [OF Some] assms by simp
qed

lemma insert_by_sorted:
  "sorted_wrt (\<lambda>a b. compare a b \<le> Equal) xs \<Longrightarrow> sorted_wrt (\<lambda>a b. compare a b \<le> Equal) (insert_by compare x xs)"
proof (induction xs)
  case (Cons y ys)
  show ?case
  proof (cases "compare x y = Greater")
    case True
    then have "compare y x \<le> Equal" using flip [of x y] by (simp add: le_Equal)
    moreover have "set (insert_by compare x ys) = insert x (set ys)"
      by (metis mset_insert_by set_mset_add_mset_insert set_mset_mset)
    ultimately show ?thesis using True Cons by auto
  next
    case False
    then have "compare x y \<le> Equal" by (simp add: le_Equal)
    then show ?thesis using False Cons.prems trans by auto
  qed
qed simp

lemma sort_by_sorted: "sorted_wrt (\<lambda>a b. compare a b \<le> Equal) (sort_by compare xs)"
  by (induction xs) (simp_all add: insert_by_sorted)

lemma sorted_unique:
  assumes "sorted_wrt (\<lambda>a b. compare a b \<le> Equal) xs" and "sorted_wrt (\<lambda>a b. compare a b \<le> Equal) ys"
    and "mset xs = mset ys" and "inj_on ident (set xs)"
  shows "xs = ys"
  using assms
proof (induction xs arbitrary: ys)
  case (Cons x xs)
  obtain y ys' where ys: "ys = y # ys'" using Cons.prems(3) by (cases ys) auto
  have sets: "set (x # xs) = set (y # ys')" using Cons.prems(3) ys by (metis set_mset_mset)
  have "compare x y \<le> Equal"
    using Cons.prems(1) sets self [of x] by (cases "x = y") auto
  moreover have "compare y x \<le> Equal"
    using Cons.prems(2) ys sets self [of y] by (cases "x = y") auto
  ultimately have "ident x = ident y" by (rule antisym)
  then have "x = y" using Cons.prems(4) sets by (auto simp: inj_on_def)
  then show ?case using Cons ys by auto
qed simp

lemma sort_cong:
  assumes "mset xs = mset ys" and "inj_on ident (set xs)"
  shows "sort_by compare xs = sort_by compare ys"
  by (rule sorted_unique) (use assms sort_by_sorted in simp_all)

lemma sort_filter:
  assumes "inj_on ident (set xs)"
  shows "sort_by compare (filter P xs) = filter P (sort_by compare xs)"
proof (rule sorted_unique)
  show "sorted_wrt (\<lambda>a b. compare a b \<le> Equal) (filter P (sort_by compare xs))"
    by (rule sorted_wrt_filter) (rule sort_by_sorted)
  show "inj_on ident (set (sort_by compare (filter P xs)))"
    using assms by (auto intro: inj_on_subset)
qed (simp_all add: sort_by_sorted)

text \<open>The last of the sorted rows is the best.\<close>

lemma last_sort_is_best:
  assumes "xs \<noteq> []" and "inj_on ident (set xs)"
  shows "max_by compare xs = Some (last (sort_by compare xs))"
proof (rule best_unique)
  let ?ys = "sort_by compare xs"
  have ne: "?ys \<noteq> []" using assms(1) by (metis length_0_conv length_sort_by)
  show "last ?ys \<in> set xs" using last_in_set [OF ne] by simp
  fix x
  assume "x \<in> set xs"
  then have "x \<in> set (butlast ?ys @ [last ?ys])" using ne by simp
  moreover have "sorted_wrt (\<lambda>a b. compare a b \<le> Equal) (butlast ?ys @ [last ?ys])"
    using sort_by_sorted ne by simp
  ultimately show "compare x (last ?ys) \<le> Equal"
    using self [of x] by (auto simp: sorted_wrt_append simp del: append_butlast_last_id)
qed (rule assms(2))

end

locale keyed_ranking =
  fixes compare :: "'a \<Rightarrow> 'a \<Rightarrow> ordering" and key :: "'a \<Rightarrow> 'b::linorder" and ident :: "'a \<Rightarrow> 'k"
  assumes by_key: "compare a b = cmp (key a) (key b)"
    and key_ident: "key a = key b \<Longrightarrow> ident a = ident b"

sublocale keyed_ranking \<subseteq> ranking
proof unfold_locales
  fix a b c
  show "compare b a = Greater \<longleftrightarrow> compare a b = Less" by (simp add: by_key)
  show "compare a b = Equal \<Longrightarrow> ident a = ident b"
    unfolding by_key cmp_Equal by (rule key_ident)
  show "compare a b \<le> Equal \<Longrightarrow> compare b c \<le> Equal \<Longrightarrow> compare a c \<le> Equal"
    unfolding by_key le_Equal cmp_Greater not_less by (rule order_trans)
qed

context keyed_ranking
begin

lemma below: "compare a b \<le> Equal \<longleftrightarrow> key a \<le> key b"
  by (auto simp: by_key le_Equal)

lemma best_key:
  assumes "max_by compare xs = Some m" and "x \<in> set xs"
  shows "key x \<le> key m"
  using best_is_greatest [OF assms] by (simp add: below)

end

end
