(* ===== verification/Read_Marks.thy ===== *)
theory Read_Marks
  imports Json_Store Ranking
begin

text \<open>
  How far the user has read in each conversation (\<open>rust/chain/src/read_marks.rs\<close>): one mark
  per conversation, a time and a transaction id, which only moves forward in the order the
  messages of a thread are sorted in.
\<close>

record read_mark =
  rm_unix_ms :: nat
  rm_txid :: string

type_synonym read_marks = "(string, read_mark) hmap"

definition read_marks_file :: string where
  "read_marks_file = ''read.marks''"

definition precedes :: "read_mark \<Rightarrow> nat \<Rightarrow> string \<Rightarrow> bool" where
  "precedes m unix_ms txid \<longleftrightarrow> (unix_ms, txid) > (rm_unix_ms m, rm_txid m)"

definition marks_path :: "path \<Rightarrow> path" where
  "marks_path dir = dir @ [read_marks_file]"

definition read_marks_opt :: "read_marks serde \<Rightarrow> path \<Rightarrow> disk \<Rightarrow> disk \<times> read_marks option" where
  "read_marks_opt s dir d = read_opt s (dir @ [read_marks_file]) d"

definition load_marks :: "read_marks serde \<Rightarrow> path \<Rightarrow> disk \<Rightarrow> disk \<times> read_marks" where
  "load_marks s dir d = (case read_marks_opt s dir d of
     (d, None) \<Rightarrow> (d, [])
   | (d, Some v) \<Rightarrow> (d, v))"

definition save_marks :: "read_marks serde \<Rightarrow> path \<Rightarrow> read_marks \<Rightarrow> disk \<Rightarrow> disk \<times> (file_error + unit)" where
  "save_marks s dir v d = write_json s (dir @ [read_marks_file]) v d"

definition get_mark :: "read_marks \<Rightarrow> string \<Rightarrow> read_mark option" where
  "get_mark ms cid = hget ms cid"

definition advance :: "read_marks \<Rightarrow> string \<Rightarrow> nat \<Rightarrow> string \<Rightarrow> read_marks \<times> bool" where
  "advance ms cid unix_ms txid = (case hget ms cid of
     Some m \<Rightarrow>
       if \<not> precedes m unix_ms txid then (ms, False)
       else (hput cid (m\<lparr>rm_unix_ms := unix_ms, rm_txid := txid\<rparr>) ms, True)
   | None \<Rightarrow> (hput cid \<lparr>rm_unix_ms = unix_ms, rm_txid = txid\<rparr> ms, True))"

section \<open>Forward only\<close>

text \<open>Where a conversation is read to: nothing below every mark.\<close>

definition position_of :: "read_marks \<Rightarrow> string \<Rightarrow> (nat \<times> string) option" where
  "position_of ms cid = map_option (\<lambda>m. (rm_unix_ms m, rm_txid m)) (hget ms cid)"

fun further :: "(nat \<times> string) option \<Rightarrow> nat \<times> string \<Rightarrow> (nat \<times> string) option" where
  "further None q = Some q"
| "further (Some p) q = Some (max p q)"

lemma advance_position:
  "position_of (fst (advance ms cid t x)) c = (if c = cid then further (position_of ms cid) (t, x) else position_of ms c)"
  by (auto simp: advance_def position_of_def precedes_def max_def split: option.splits)

lemma advance_moved: "snd (advance ms cid t x) \<longleftrightarrow> position_of (fst (advance ms cid t x)) cid \<noteq> position_of ms cid"
  by (auto simp: advance_def position_of_def precedes_def split: option.splits)

text \<open>Marks set one after another, in whatever order they come.\<close>

definition advance_all :: "read_marks \<Rightarrow> (string \<times> nat \<times> string) list \<Rightarrow> read_marks" where
  "advance_all ms pings = foldl (\<lambda>ms (cid, t, x). fst (advance ms cid t x)) ms pings"

lemma further_commute: "Option.bind (further p a) (\<lambda>p. further (Some p) b) = Option.bind (further p b) (\<lambda>p. further (Some p) a)"
  by (cases p) (simp_all add: max.commute max.left_commute)

lemma advance_all_position:
  "position_of (advance_all ms pings) cid =
     foldl further (position_of ms cid) (map snd (filter (\<lambda>p. fst p = cid) pings))"
proof (induction pings arbitrary: ms)
  case Nil
  then show ?case by (simp add: advance_all_def)
next
  case (Cons p pings)
  obtain c t x where p: "p = (c, t, x)" by (metis prod_cases3)
  have "advance_all ms (p # pings) = advance_all (fst (advance ms c t x)) pings"
    by (simp add: advance_all_def p)
  then show ?case by (simp add: Cons.IH advance_position p)
qed

lemma foldl_further:
  "foldl further p qs = (case p of None \<Rightarrow> if qs = [] then None else Some (Max (set qs)) | Some q \<Rightarrow> Some (Max (insert q (set qs))))"
proof (induction qs arbitrary: p)
  case (Cons q qs)
  show ?case
  proof (cases p)
    case None
    then show ?thesis using Cons.IH [of "Some q"] by simp
  next
    case (Some r)
    have "Max (insert (max r q) (set qs)) = Max (insert r (insert q (set qs)))"
      by (cases "set qs = {}") (simp_all add: max.assoc)
    then show ?thesis using Some Cons.IH [of "Some (max r q)"] by simp
  qed
qed (simp split: option.splits)

text \<open>
  A conversation is read up to the furthest row ever shown. Whatever marks come, in whatever
  order and however often, the conversation stands at the greatest of them and the mark it had,
  in the order its messages are sorted in, and no other conversation's mark moves.
\<close>

theorem marks_keep_furthest:
  "position_of (advance_all ms pings) cid =
     (let at = {q. \<exists>p \<in> set pings. p = (cid, q)} \<union> (case position_of ms cid of None \<Rightarrow> {} | Some p \<Rightarrow> {p})
      in if at = {} then None else Some (Max at))"
proof -
  define qs where "qs = map snd (filter (\<lambda>p. fst p = cid) pings)"
  have s: "{q. \<exists>p \<in> set pings. p = (cid, q)} = set qs" by (force simp: qs_def image_iff)
  show ?thesis
    unfolding advance_all_position foldl_further s Let_def qs_def [symmetric]
    by (cases "position_of ms cid") simp_all
qed

end
