(* ===== verification/Transport_Store.thy ===== *)
theory Transport_Store
  imports Kvlog_Crash Read_Marks Wire Rust_Str
begin

text \<open>
  The messaging store (\<open>rust/chain/src/transport_store.rs\<close>): conversations and messages over two
  logs in one directory. Every operation takes the store and the disk and returns both with its
  result. The two codecs (borsh of the two record types, and their keys) are arguments.
\<close>

section \<open>Records\<close>

datatype key_branch = Receive | Change

datatype conversation_status = PendingOutbound | PendingInbound | Active

record conversation_record =
  cv_id :: string
  cv_contact_address :: string
  cv_my_alias :: string
  cv_their_alias :: "string option"
  cv_status :: conversation_status
  cv_initiated_by_me :: bool
  cv_bound_branch :: key_branch
  cv_bound_index :: nat
  cv_created_unix_ms :: nat
  cv_last_activity_unix_ms :: nat
  cv_handshake_txid :: "string option"

datatype message_direction = Inbound | Outbound

datatype stored_kind = Handshake_Row | Comm_Row | Legacy_Row

datatype row_source = Unknown_Source | Own | Node_Scanned | Fill_Sourced

text \<open>The eight fields every message frame has, and the two that were added behind them.\<close>

record message_head =
  mg_txid :: string
  mg_conversation_id :: string
  mg_direction :: message_direction
  mg_kind :: stored_kind
  mg_envelope :: bytes
  mg_unix_ms :: nat
  mg_alias_on_wire :: "string option"
  mg_sealed_to :: "(key_branch \<times> nat) option"

record message_record = message_head +
  mg_provenance :: row_source
  mg_wire :: wire_namespace

text \<open>
  The derived borsh of an enum is its variant's index. The reader of the eight fields is a
  parameter: it answers them with the bytes left over.
\<close>

definition source_of_tag :: "byte \<Rightarrow> row_source option" where
  "source_of_tag t = (if t = 0 then Some Unknown_Source else if t = 1 then Some Own
     else if t = 2 then Some Node_Scanned else if t = 3 then Some Fill_Sourced else None)"

definition wire_of_tag :: "byte \<Rightarrow> wire_namespace option" where
  "wire_of_tag t = (if t = 0 then Some CiphMsg else if t = 1 then Some KChat else None)"

text \<open>A trailing field: absent at the end of the input, else its one tag byte.\<close>

definition trailing :: "'f \<Rightarrow> (byte \<Rightarrow> 'f option) \<Rightarrow> bytes \<Rightarrow> ('f \<times> bytes) option" where
  "trailing absent of_tag bs = (case bs of
     [] \<Rightarrow> Some (absent, [])
   | t # rest \<Rightarrow> map_option (\<lambda>f. (f, rest)) (of_tag t))"

definition deserialize_message :: "(bytes \<Rightarrow> (message_head \<times> bytes) option) \<Rightarrow> bytes \<Rightarrow> (message_record \<times> bytes) option" where
  "deserialize_message head bs = (case head bs of None \<Rightarrow> None | Some (h, rest) \<Rightarrow>
     (case trailing Unknown_Source source_of_tag rest of None \<Rightarrow> None | Some (provenance, rest) \<Rightarrow>
     (case trailing CiphMsg wire_of_tag rest of None \<Rightarrow> None | Some (wire, rest) \<Rightarrow>
      Some (message_head.extend h (message_record.fields provenance wire), rest))))"

record conversation_tail =
  tail_newest :: "message_record option"
  tail_unread :: nat

record contact_merge_report =
  mr_contacts :: nat
  mr_rows_folded :: nat
  mr_messages_rehomed :: nat

record wipe_report =
  wr_conversations :: nat
  wr_messages :: nat
  wr_pending_bonds :: nat

record transport_store =
  tr_conversations :: "conversation_record log"
  tr_messages :: "message_record log"
  tr_scrub_owed :: bool

datatype store_error = Log_Error kv_error | Cannot_Be_Written string

abbreviation conversations :: "transport_store \<Rightarrow> (string, conversation_record) hmap" where
  "conversations s \<equiv> lg_records (tr_conversations s)"

abbreviation messages :: "transport_store \<Rightarrow> (string, message_record) hmap" where
  "messages s \<equiv> lg_records (tr_messages s)"

definition conversations_log :: string where "conversations_log = ''conversations.kvlog''"
definition messages_log :: string where "messages_log = ''messages.kvlog''"

section \<open>Erasing\<close>

text \<open>Messages first; both are tried, the first failure reported.\<close>

definition compact_store ::
  "conversation_record codec \<Rightarrow> message_record codec \<Rightarrow> transport_store \<Rightarrow> disk
     \<Rightarrow> transport_store \<times> disk \<times> (kv_error + unit)" where
  "compact_store cc mc s d =
     (case compact mc (tr_messages s) d of (ml, d, rm) \<Rightarrow>
      case compact cc (tr_conversations s) d of (cl, d, rc) \<Rightarrow>
        (s\<lparr>tr_messages := ml, tr_conversations := cl\<rparr>, d, (case rm of Inl e \<Rightarrow> Inl e | Inr _ \<Rightarrow> rc)))"

text \<open>\<open>into_iter().find_map(Result::err)\<close>.\<close>

fun first_error :: "kv_error option list \<Rightarrow> kv_error option" where
  "first_error [] = None"
| "first_error (e # es) = (case e of Some e \<Rightarrow> Some e | None \<Rightarrow> first_error es)"

definition error_of :: "kv_error + 'a \<Rightarrow> kv_error option" where
  "error_of r = (case r of Inl e \<Rightarrow> Some e | Inr _ \<Rightarrow> None)"

definition scrub ::
  "conversation_record codec \<Rightarrow> message_record codec \<Rightarrow> transport_store \<Rightarrow> disk
     \<Rightarrow> transport_store \<times> disk \<times> (kv_error + unit)" where
  "scrub cc mc s d =
     (let s = s\<lparr>tr_scrub_owed := True\<rparr> in
      case remove_asides (tr_messages s) d of (d, ra) \<Rightarrow>
      case remove_asides (tr_conversations s) d of (d, rb) \<Rightarrow>
      case compact_store cc mc s d of (s, d, rc) \<Rightarrow>
        (case first_error [error_of ra, error_of rb, error_of rc] of
           Some e \<Rightarrow> (s, d, Inl e)
         | None \<Rightarrow> (s\<lparr>tr_scrub_owed := False\<rparr>, d, Inr ())))"

definition finish_removals ::
  "conversation_record codec \<Rightarrow> message_record codec \<Rightarrow> transport_store \<Rightarrow> disk
     \<Rightarrow> transport_store \<times> disk \<times> (kv_error + unit)" where
  "finish_removals cc mc s d =
     (if tr_scrub_owed s then scrub cc mc s d
      else if holds_removed (tr_messages s) \<or> holds_removed (tr_conversations s) then compact_store cc mc s d
      else (s, d, Inr ()))"

definition wipe_preview :: "transport_store \<Rightarrow> wipe_report" where
  "wipe_preview s = \<lparr>wr_conversations = length (conversations s), wr_messages = length (messages s),
     wr_pending_bonds = length (filter (\<lambda>c. \<not> is_tombstoned (tr_conversations s) (cv_id c))
       (filter (\<lambda>c. cv_status c = PendingInbound) (hvals (conversations s))))\<rparr>"

definition wipe_store :: "transport_store \<Rightarrow> disk \<Rightarrow> transport_store \<times> disk \<times> (kv_error + wipe_report)" where
  "wipe_store s d =
     (let report = wipe_preview s in
      case remove_asides (tr_messages s) d of (d, ra) \<Rightarrow>
      case remove_asides (tr_conversations s) d of (d, rb) \<Rightarrow>
      let s = (case first_error [error_of ra, error_of rb] of Some _ \<Rightarrow> s\<lparr>tr_scrub_owed := True\<rparr> | None \<Rightarrow> s) in
      case wipe (tr_messages s) d of (ml, d, rm) \<Rightarrow>
      let s = s\<lparr>tr_messages := ml\<rparr> in
      (case rm of Inl e \<Rightarrow> (s, d, Inl e) | Inr _ \<Rightarrow>
       case wipe (tr_conversations s) d of (cl, d, rc) \<Rightarrow>
       let s = s\<lparr>tr_conversations := cl\<rparr> in
       (case rc of Inl e \<Rightarrow> (s, d, Inl e) | Inr _ \<Rightarrow> (s, d, Inr report))))"

section \<open>Load\<close>

definition load_store ::
  "conversation_record codec \<Rightarrow> message_record codec \<Rightarrow> path \<Rightarrow> disk \<Rightarrow> disk \<times> (store_error + transport_store)" where
  "load_store cc mc dir d =
     (case load cc (dir @ [conversations_log]) d of
        (d, Inl e) \<Rightarrow> (d, Inl (Log_Error e))
      | (d, Inr cl) \<Rightarrow>
     (case load mc (dir @ [messages_log]) d of
        (d, Inl e) \<Rightarrow> (d, Inl (Log_Error e))
      | (d, Inr ml) \<Rightarrow>
     (case (case hold ml of Some why \<Rightarrow> Some why | None \<Rightarrow> hold cl) of
        Some why \<Rightarrow> (d, Inl (Cannot_Be_Written why))
      | None \<Rightarrow>
          (case finish_removals cc mc \<lparr>tr_conversations = cl, tr_messages = ml, tr_scrub_owed = False\<rparr> d of
             (s, d, _) \<Rightarrow> (d, Inr s)))))"

section \<open>Conversations\<close>

definition upsert_conversation ::
  "conversation_record codec \<Rightarrow> conversation_record \<Rightarrow> transport_store \<Rightarrow> disk
     \<Rightarrow> transport_store \<times> disk \<times> (kv_error + unit)" where
  "upsert_conversation cc record s d = (case upsert cc (tr_conversations s) d (cv_id record) record of
     (cl, d, r) \<Rightarrow> (s\<lparr>tr_conversations := cl\<rparr>, d, map_sum id (\<lambda>_. ()) r))"

definition conversation :: "transport_store \<Rightarrow> string \<Rightarrow> conversation_record option" where
  "conversation s cid = hget (conversations s) cid"

definition hidden :: "transport_store \<Rightarrow> conversation_record \<Rightarrow> bool" where
  "hidden s c \<longleftrightarrow> is_tombstoned (tr_conversations s) (cv_id c)"

text \<open>A conversation we can talk in outranks one still awaiting our accept.\<close>

definition alias_rank :: "conversation_record \<Rightarrow> nat" where
  "alias_rank c =
     (if cv_status c = Active \<and> cv_my_alias c \<noteq> [] then 3
      else if cv_status c = Active then 2
      else if cv_status c = PendingOutbound \<and> cv_initiated_by_me c then 1
      else 0)"

definition alias_order :: "transport_store \<Rightarrow> conversation_record \<Rightarrow> conversation_record \<Rightarrow> ordering" where
  "alias_order s a b =
     then_cmp (cmp (alias_rank a) (alias_rank b))
    (then_cmp (cmp (\<not> hidden s a) (\<not> hidden s b))
    (then_cmp (cmp (cv_created_unix_ms b) (cv_created_unix_ms a))
    (then_cmp (cmp (cv_last_activity_unix_ms a) (cv_last_activity_unix_ms b))
              (cmp (cv_id b) (cv_id a)))))"

definition conversation_by_alias :: "transport_store \<Rightarrow> string \<Rightarrow> conversation_record option" where
  "conversation_by_alias s alias =
     max_by (alias_order s)
       (filter (\<lambda>c. cv_my_alias c = alias \<or> cv_their_alias c = Some alias) (hvals (conversations s)))"

definition awaiting_order :: "transport_store \<Rightarrow> conversation_record \<Rightarrow> conversation_record \<Rightarrow> ordering" where
  "awaiting_order s a b =
     then_cmp (cmp (\<not> hidden s a) (\<not> hidden s b))
    (then_cmp (cmp (cv_created_unix_ms b) (cv_created_unix_ms a))
              (cmp (cv_id b) (cv_id a)))"

definition conversation_awaiting_response :: "transport_store \<Rightarrow> string \<Rightarrow> conversation_record option" where
  "conversation_awaiting_response s echoed_alias =
     max_by (awaiting_order s)
       (filter (\<lambda>c. cv_status c = PendingOutbound \<and> cv_my_alias c = echoed_alias) (hvals (conversations s)))"

definition completable :: "conversation_record \<Rightarrow> bool" where
  "completable c \<longleftrightarrow> cv_initiated_by_me c \<and> cv_status c = PendingOutbound"

definition contact_order :: "conversation_record \<Rightarrow> conversation_record \<Rightarrow> ordering" where
  "contact_order a b =
     then_cmp (cmp (completable a) (completable b))
    (then_cmp (cmp (cv_last_activity_unix_ms a) (cv_last_activity_unix_ms b))
              (cmp (cv_id b) (cv_id a)))"

definition conversation_by_contact_address :: "transport_store \<Rightarrow> string \<Rightarrow> conversation_record option" where
  "conversation_by_contact_address s address =
     (if address = [] then None
      else max_by contact_order (filter (\<lambda>c. cv_contact_address c = address) (hvals (conversations s))))"

definition established_order :: "conversation_record \<Rightarrow> conversation_record \<Rightarrow> ordering" where
  "established_order a b =
     then_cmp (cmp (cv_status b = Active) (cv_status a = Active))
    (then_cmp (cmp (cv_created_unix_ms a) (cv_created_unix_ms b))
              (cmp (cv_id a) (cv_id b)))"

definition conversations_for_contact_address :: "transport_store \<Rightarrow> string \<Rightarrow> conversation_record list" where
  "conversations_for_contact_address s address =
     (if address = [] then []
      else sort_by established_order (filter (\<lambda>c. cv_contact_address c = address) (hvals (conversations s))))"

definition has_any_contact_address :: "transport_store \<Rightarrow> bool" where
  "has_any_contact_address s \<longleftrightarrow> list_ex (\<lambda>c. cv_contact_address c \<noteq> []) (hvals (conversations s))"

definition has_handshake_txid :: "transport_store \<Rightarrow> string \<Rightarrow> bool" where
  "has_handshake_txid s txid \<longleftrightarrow> list_ex (\<lambda>c. cv_handshake_txid c = Some txid) (hvals (conversations s))"

definition recent_order :: "conversation_record \<Rightarrow> conversation_record \<Rightarrow> ordering" where
  "recent_order a b =
     then_cmp (cmp (cv_last_activity_unix_ms b) (cv_last_activity_unix_ms a)) (cmp (cv_id a) (cv_id b))"

definition list_conversations :: "transport_store \<Rightarrow> conversation_record list" where
  "list_conversations s = sort_by recent_order (hvals (conversations s))"

definition remove_conversation ::
  "conversation_record codec \<Rightarrow> string \<Rightarrow> transport_store \<Rightarrow> disk \<Rightarrow> transport_store \<times> disk \<times> (kv_error + unit)" where
  "remove_conversation cc cid s d = (case remove cc (tr_conversations s) d cid of
     (cl, d, r) \<Rightarrow> (s\<lparr>tr_conversations := cl\<rparr>, d, r))"

definition ghost :: "transport_store \<Rightarrow> message_record \<Rightarrow> bool" where
  "ghost s m \<longleftrightarrow> is_tombstoned (tr_messages s) (mg_txid m)"

text \<open>\<open>max()\<close>, and what it falls back to.\<close>

definition announced_at :: "transport_store \<Rightarrow> conversation_record \<Rightarrow> message_direction \<Rightarrow> nat" where
  "announced_at s row direction =
     (case max_by cmp (map mg_unix_ms (filter (\<lambda>m. mg_conversation_id m = cv_id row \<and> mg_direction m = direction
          \<and> mg_kind m = Handshake_Row \<and> \<not> ghost s m) (hvals (messages s)))) of
        None \<Rightarrow> cv_created_unix_ms row
      | Some t \<Rightarrow> t)"

definition thread_order :: "message_record \<Rightarrow> message_record \<Rightarrow> ordering" where
  "thread_order a b = then_cmp (cmp (mg_unix_ms a) (mg_unix_ms b)) (cmp (mg_txid a) (mg_txid b))"

definition inbound_comm :: "transport_store \<Rightarrow> string \<Rightarrow> message_record \<Rightarrow> bool" where
  "inbound_comm s cid m \<longleftrightarrow> mg_conversation_id m = cid \<and> mg_direction m = Inbound \<and> mg_kind m = Comm_Row \<and> \<not> ghost s m"

definition conversation_wire :: "transport_store \<Rightarrow> string \<Rightarrow> wire_namespace" where
  "conversation_wire s cid =
     (case max_by thread_order (filter (inbound_comm s cid) (hvals (messages s))) of
        None \<Rightarrow> CiphMsg
      | Some m \<Rightarrow> mg_wire m)"

definition newest_inbound :: "transport_store \<Rightarrow> string \<Rightarrow> message_record option" where
  "newest_inbound s cid = max_by thread_order (filter (inbound_comm s cid) (hvals (messages s)))"

text \<open>One pass over every stored row.\<close>

definition note_tail ::
  "transport_store \<Rightarrow> read_marks \<Rightarrow> (string, conversation_tail) hmap \<Rightarrow> message_record \<Rightarrow> (string, conversation_tail) hmap" where
  "note_tail s marks tails record =
     (if ghost s record then tails
      else
        let cid = mg_conversation_id record;
            t = (case hget tails cid of Some t \<Rightarrow> t | None \<Rightarrow> \<lparr>tail_newest = None, tail_unread = 0\<rparr>);
            newer = (case tail_newest t of None \<Rightarrow> True
                     | Some h \<Rightarrow> (mg_unix_ms h, mg_txid h) < (mg_unix_ms record, mg_txid record));
            t = (if newer then t\<lparr>tail_newest := Some record\<rparr> else t);
            unread = (mg_direction record = Inbound \<and> mg_kind record = Comm_Row \<and>
                      (case get_mark marks cid of None \<Rightarrow> True
                       | Some mark \<Rightarrow> precedes mark (mg_unix_ms record) (mg_txid record)));
            t = (if unread then t\<lparr>tail_unread := min (tail_unread t + 1) u32_max\<rparr> else t)
        in hput cid t tails)"

definition conversation_tails :: "transport_store \<Rightarrow> read_marks \<Rightarrow> (string, conversation_tail) hmap" where
  "conversation_tails s marks = foldl (note_tail s marks) [] (hvals (messages s))"

section \<open>Messages\<close>

definition record_message ::
  "message_record codec \<Rightarrow> message_record \<Rightarrow> transport_store \<Rightarrow> disk \<Rightarrow> transport_store \<times> disk \<times> (kv_error + bool)" where
  "record_message mc record s d =
     (if hget (messages s) (mg_txid record) \<noteq> None then (s, d, Inr False)
      else (case upsert mc (tr_messages s) d (mg_txid record) record of
              (ml, d, Inl e) \<Rightarrow> (s\<lparr>tr_messages := ml\<rparr>, d, Inl e)
            | (ml, d, Inr _) \<Rightarrow> (s\<lparr>tr_messages := ml\<rparr>, d, Inr True)))"

definition has_message_txid :: "transport_store \<Rightarrow> string \<Rightarrow> bool" where
  "has_message_txid s txid \<longleftrightarrow> hget (messages s) txid \<noteq> None"

definition message :: "transport_store \<Rightarrow> string \<Rightarrow> message_record option" where
  "message s txid = hget (messages s) txid"

definition overridable :: "message_record option \<Rightarrow> message_record \<Rightarrow> bool" where
  "overridable held record = (case held of
     Some existing \<Rightarrow> mg_direction existing = Inbound
       \<and> (mg_provenance existing = Fill_Sourced \<or> mg_provenance existing = Unknown_Source)
       \<and> mg_provenance record = Node_Scanned
   | None \<Rightarrow> False)"

definition override_message ::
  "message_record codec \<Rightarrow> message_record \<Rightarrow> transport_store \<Rightarrow> disk
     \<Rightarrow> transport_store \<times> disk \<times> (kv_error + message_record option)" where
  "override_message mc record s d =
     (if \<not> overridable (hget (messages s) (mg_txid record)) record then (s, d, Inr None)
      else
        let replaced = hget (messages s) (mg_txid record) in
        (case upsert mc (tr_messages s) d (mg_txid record) record of
           (ml, d, Inl e) \<Rightarrow> (s\<lparr>tr_messages := ml\<rparr>, d, Inl e)
         | (ml, d, Inr _) \<Rightarrow> (s\<lparr>tr_messages := ml\<rparr>, d, Inr replaced)))"

definition message_conversation :: "transport_store \<Rightarrow> string \<Rightarrow> string option" where
  "message_conversation s txid = map_option mg_conversation_id (hget (messages s) txid)"

definition messages_for :: "transport_store \<Rightarrow> string \<Rightarrow> message_record list" where
  "messages_for s cid = sort_by thread_order (filter (\<lambda>m. mg_conversation_id m = cid) (hvals (messages s)))"

definition remove_message ::
  "message_record codec \<Rightarrow> string \<Rightarrow> transport_store \<Rightarrow> disk \<Rightarrow> transport_store \<times> disk \<times> (kv_error + unit)" where
  "remove_message mc txid s d = (case remove mc (tr_messages s) d txid of
     (ml, d, r) \<Rightarrow> (s\<lparr>tr_messages := ml\<rparr>, d, r))"

definition tombstone_message ::
  "message_record codec \<Rightarrow> string \<Rightarrow> transport_store \<Rightarrow> disk \<Rightarrow> transport_store \<times> disk \<times> (kv_error + bool)" where
  "tombstone_message mc txid s d = (case tombstone mc (tr_messages s) d txid of
     (ml, d, r) \<Rightarrow> (s\<lparr>tr_messages := ml\<rparr>, d, r))"

definition untombstone_message ::
  "message_record codec \<Rightarrow> string \<Rightarrow> transport_store \<Rightarrow> disk \<Rightarrow> transport_store \<times> disk \<times> (kv_error + bool)" where
  "untombstone_message mc txid s d = (case untombstone mc (tr_messages s) d txid of
     (ml, d, r) \<Rightarrow> (s\<lparr>tr_messages := ml\<rparr>, d, r))"

definition is_message_tombstoned :: "transport_store \<Rightarrow> string \<Rightarrow> bool" where
  "is_message_tombstoned s txid \<longleftrightarrow> is_tombstoned (tr_messages s) txid"

definition tombstone_conversation ::
  "conversation_record codec \<Rightarrow> string \<Rightarrow> transport_store \<Rightarrow> disk \<Rightarrow> transport_store \<times> disk \<times> (kv_error + bool)" where
  "tombstone_conversation cc cid s d = (case tombstone cc (tr_conversations s) d cid of
     (cl, d, r) \<Rightarrow> (s\<lparr>tr_conversations := cl\<rparr>, d, r))"

definition untombstone_conversation ::
  "conversation_record codec \<Rightarrow> string \<Rightarrow> transport_store \<Rightarrow> disk \<Rightarrow> transport_store \<times> disk \<times> (kv_error + bool)" where
  "untombstone_conversation cc cid s d = (case untombstone cc (tr_conversations s) d cid of
     (cl, d, r) \<Rightarrow> (s\<lparr>tr_conversations := cl\<rparr>, d, r))"

definition is_conversation_tombstoned :: "transport_store \<Rightarrow> string \<Rightarrow> bool" where
  "is_conversation_tombstoned s cid \<longleftrightarrow> is_tombstoned (tr_conversations s) cid"

section \<open>One conversation per contact\<close>

definition rehome_message ::
  "message_record codec \<Rightarrow> string \<Rightarrow> string \<Rightarrow> transport_store \<Rightarrow> disk
     \<Rightarrow> transport_store \<times> disk \<times> (kv_error + bool)" where
  "rehome_message mc txid cid s d =
     (case hget (messages s) txid of
        None \<Rightarrow> (s, d, Inr False)
      | Some existing \<Rightarrow>
          if mg_conversation_id existing = cid then (s, d, Inr False)
          else (case upsert mc (tr_messages s) d txid (existing\<lparr>mg_conversation_id := cid\<rparr>) of
                  (ml, d, Inl e) \<Rightarrow> (s\<lparr>tr_messages := ml\<rparr>, d, Inl e)
                | (ml, d, Inr _) \<Rightarrow> (s\<lparr>tr_messages := ml\<rparr>, d, Inr True)))"

text \<open>The host's key, greater is better.\<close>

definition merge_rank :: "conversation_record \<Rightarrow> bool \<Rightarrow> bool \<times> bool \<times> bool \<times> bool \<times> nat" where
  "merge_rank c is_hidden =
     (cv_my_alias c \<noteq> [], cv_their_alias c \<noteq> None, cv_status c = Active, \<not> is_hidden, cv_created_unix_ms c)"

definition merge_order :: "conversation_record \<times> bool \<Rightarrow> conversation_record \<times> bool \<Rightarrow> ordering" where
  "merge_order a b =
     then_cmp (cmp (merge_rank (fst a) (snd a)) (merge_rank (fst b) (snd b))) (cmp (cv_id (fst b)) (cv_id (fst a)))"

text \<open>
  What the host takes from one folded row: the state is the host, when its two aliases were
  announced, the earliest establishment and the latest activity.
\<close>

record merging =
  mn_host :: conversation_record
  mn_theirs_at :: nat
  mn_mine_at :: nat
  mn_created :: nat
  mn_last :: nat

definition absorb :: "transport_store \<Rightarrow> merging \<Rightarrow> conversation_record \<Rightarrow> merging" where
  "absorb s m dup =
     (let dup_theirs_at = announced_at s dup Inbound;
          dup_mine_at = announced_at s dup Outbound;
          m = (case cv_their_alias dup of
                 None \<Rightarrow> m
               | Some alias \<Rightarrow>
                   if cv_their_alias (mn_host m) = None \<or> dup_theirs_at > mn_theirs_at m
                   then m\<lparr>mn_host := (mn_host m)\<lparr>cv_their_alias := Some alias,
                            cv_bound_branch := cv_bound_branch dup, cv_bound_index := cv_bound_index dup\<rparr>,
                          mn_theirs_at := dup_theirs_at\<rparr>
                   else m);
          m = (if cv_my_alias dup \<noteq> [] \<and> (cv_my_alias (mn_host m) = [] \<or> dup_mine_at > mn_mine_at m)
               then m\<lparr>mn_host := (mn_host m)\<lparr>cv_my_alias := cv_my_alias dup\<rparr>, mn_mine_at := dup_mine_at\<rparr>
               else m);
          m = (if cv_handshake_txid (mn_host m) = None
               then m\<lparr>mn_host := (mn_host m)\<lparr>cv_handshake_txid := cv_handshake_txid dup\<rparr>\<rparr>
               else m)
      in m\<lparr>mn_created := min (mn_created m) (cv_created_unix_ms dup),
           mn_last := max (mn_last m) (cv_last_activity_unix_ms dup)\<rparr>)"

definition merged_host :: "transport_store \<Rightarrow> conversation_record \<Rightarrow> conversation_record list \<Rightarrow> conversation_record" where
  "merged_host s host dups =
     (let m = foldl (absorb s)
            \<lparr>mn_host = host, mn_theirs_at = announced_at s host Inbound, mn_mine_at = announced_at s host Outbound,
             mn_created = cv_created_unix_ms host, mn_last = cv_last_activity_unix_ms host\<rparr> dups;
          h = (mn_host m)\<lparr>cv_created_unix_ms := mn_created m, cv_last_activity_unix_ms := mn_last m\<rparr>
      in if cv_status h \<noteq> PendingInbound \<and> cv_my_alias h \<noteq> [] \<and> cv_their_alias h \<noteq> None
         then h\<lparr>cv_status := Active\<rparr> else h)"

fun rehome_all ::
  "message_record codec \<Rightarrow> string \<Rightarrow> string list \<Rightarrow> transport_store \<Rightarrow> disk \<Rightarrow> nat
     \<Rightarrow> transport_store \<times> disk \<times> (kv_error + nat)" where
  "rehome_all mc host [] s d n = (s, d, Inr n)"
| "rehome_all mc host (txid # txids) s d n =
     (case rehome_message mc txid host s d of
        (s, d, Inl e) \<Rightarrow> (s, d, Inl e)
      | (s, d, Inr moved) \<Rightarrow> rehome_all mc host txids s d (if moved then n + 1 else n))"

fun fold_rows ::
  "conversation_record codec \<Rightarrow> message_record codec \<Rightarrow> string \<Rightarrow> conversation_record list \<Rightarrow> transport_store \<Rightarrow> disk
     \<Rightarrow> contact_merge_report \<Rightarrow> transport_store \<times> disk \<times> (kv_error + contact_merge_report)" where
  "fold_rows cc mc host [] s d report = (s, d, Inr report)"
| "fold_rows cc mc host (dup # dups) s d report =
     (let txids = map mg_txid (filter (\<lambda>m. mg_conversation_id m = cv_id dup) (hvals (messages s))) in
      case rehome_all mc host txids s d (mr_messages_rehomed report) of
        (s, d, Inl e) \<Rightarrow> (s, d, Inl e)
      | (s, d, Inr rehomed) \<Rightarrow>
     (case remove cc (tr_conversations s) d (cv_id dup) of
        (cl, d, Inl e) \<Rightarrow> (s\<lparr>tr_conversations := cl\<rparr>, d, Inl e)
      | (cl, d, Inr _) \<Rightarrow>
          fold_rows cc mc host dups (s\<lparr>tr_conversations := cl\<rparr>) d
            (report\<lparr>mr_messages_rehomed := rehomed, mr_rows_folded := mr_rows_folded report + 1\<rparr>)))"

text \<open>The rows of one contact with their flags, worst first; the host is the last.\<close>

definition contact_rows :: "transport_store \<Rightarrow> string \<Rightarrow> (conversation_record \<times> bool) list" where
  "contact_rows s address =
     map (\<lambda>c. (c, hidden s c)) (filter (\<lambda>c. cv_contact_address c = address) (hvals (conversations s)))"

definition merge_contact ::
  "conversation_record codec \<Rightarrow> message_record codec \<Rightarrow> string \<Rightarrow> transport_store \<Rightarrow> disk
     \<Rightarrow> transport_store \<times> disk \<times> (kv_error + (string \<times> contact_merge_report) option)" where
  "merge_contact cc mc address s d =
     (if address = [] then (s, d, Inr None)
      else let rows = contact_rows s address in
      if length rows < 2 then (s, d, Inr None)
      else
        let sorted_rows = sort_by merge_order rows;
            (host, host_hidden) = last sorted_rows;
            rows = butlast sorted_rows;
            blocked = (cv_status host = PendingInbound \<and>
              (host_hidden \<or> list_ex (\<lambda>(c, h). h \<and> cv_status c = PendingInbound) rows));
            any_visible = (\<not> host_hidden \<or> list_ex (\<lambda>(_, h). \<not> h) rows);
            host = merged_host s host (map fst rows);
            host_id = cv_id host
        in (case upsert cc (tr_conversations s) d host_id host of
              (cl, d, Inl e) \<Rightarrow> (s\<lparr>tr_conversations := cl\<rparr>, d, Inl e)
            | (cl, d, Inr _) \<Rightarrow>
           (case fold_rows cc mc host_id (map fst rows) (s\<lparr>tr_conversations := cl\<rparr>) d
                   \<lparr>mr_contacts = 1, mr_rows_folded = 0, mr_messages_rehomed = 0\<rparr> of
              (s, d, Inl e) \<Rightarrow> (s, d, Inl e)
            | (s, d, Inr report) \<Rightarrow>
                (case (if blocked then tombstone_conversation cc host_id s d
                       else if any_visible then untombstone_conversation cc host_id s d
                       else (s, d, Inr False)) of
                   (s, d, Inl e) \<Rightarrow> (s, d, Inl e)
                 | (s, d, Inr _) \<Rightarrow> (s, d, Inr (Some (host_id, report)))))))"

fun merge_all ::
  "conversation_record codec \<Rightarrow> message_record codec \<Rightarrow> string list \<Rightarrow> transport_store \<Rightarrow> disk
     \<Rightarrow> contact_merge_report \<Rightarrow> transport_store \<times> disk \<times> (kv_error + contact_merge_report)" where
  "merge_all cc mc [] s d report = (s, d, Inr report)"
| "merge_all cc mc (address # addresses) s d report =
     (case merge_contact cc mc address s d of
        (s, d, Inl e) \<Rightarrow> (s, d, Inl e)
      | (s, d, Inr None) \<Rightarrow> merge_all cc mc addresses s d report
      | (s, d, Inr (Some (_, one))) \<Rightarrow>
          merge_all cc mc addresses s d
            \<lparr>mr_contacts = mr_contacts report + 1, mr_rows_folded = mr_rows_folded report + mr_rows_folded one,
             mr_messages_rehomed = mr_messages_rehomed report + mr_messages_rehomed one\<rparr>)"

definition merge_duplicate_contacts ::
  "conversation_record codec \<Rightarrow> message_record codec \<Rightarrow> transport_store \<Rightarrow> disk
     \<Rightarrow> transport_store \<times> disk \<times> (kv_error + contact_merge_report)" where
  "merge_duplicate_contacts cc mc s d =
     merge_all cc mc
       (remdups_adj (sort (map cv_contact_address (filter (\<lambda>c. cv_contact_address c \<noteq> []) (hvals (conversations s))))))
       s d \<lparr>mr_contacts = 0, mr_rows_folded = 0, mr_messages_rehomed = 0\<rparr>"

end
