(* ===== verification/Store_Demo.thy ===== *)
theory Store_Demo
  imports Transport_Store Kvlog_Props
begin

text \<open>
  A concrete codec for any record type, from a table of the records it can write, and concrete
  conversations, messages and stores on which the properties of the messaging store are
  witnessed.
\<close>

section \<open>A codec from a table\<close>

definition table_ser :: "'t list \<Rightarrow> 't \<Rightarrow> bytes option" where
  "table_ser tbl r = (case position (\<lambda>x. x = r) tbl of
     Some i \<Rightarrow> if i < 256 then Some [of_nat i] else None
   | None \<Rightarrow> None)"

definition table_de :: "'t list \<Rightarrow> bytes \<Rightarrow> 't option" where
  "table_de tbl bs = (case bs of [b] \<Rightarrow> if unat b < length tbl then Some (tbl ! unat b) else None | _ \<Rightarrow> None)"

fun table_enc :: "'t list \<Rightarrow> 't frame \<Rightarrow> bytes option" where
  "table_enc tbl (Upsert r) = map_option ((#) 0) (table_ser tbl r)"
| "table_enc tbl (Remove k) = Some (1 # ascii k)"
| "table_enc tbl (Tombstone k) = Some (2 # ascii k)"
| "table_enc tbl (Untombstone k) = Some (3 # ascii k)"

definition table_dec :: "'t list \<Rightarrow> bytes \<Rightarrow> 't frame option" where
  "table_dec tbl bs =
     (case bs of
        [] \<Rightarrow> None
      | b # r \<Rightarrow> if b = 0 then map_option Upsert (table_de tbl r) else if b = 1 then Some (Remove (text_of r))
          else if b = 2 then Some (Tombstone (text_of r)) else if b = 3 then Some (Untombstone (text_of r))
          else None)"

definition table_codec :: "('t \<Rightarrow> string) \<Rightarrow> 't list \<Rightarrow> 't codec" where
  "table_codec key tbl = \<lparr>ser = table_ser tbl, enc_frame = table_enc tbl, dec_frame = table_dec tbl, crc = demo_crc, key_of = key\<rparr>"

lemma table_position: "position p xs = Some i \<Longrightarrow> i < length xs \<and> p (xs ! i)"
  by (induction xs arbitrary: i) (auto split: if_splits)

lemma table_round: "table_ser tbl r = Some bs \<Longrightarrow> table_de tbl bs = Some r"
  by (auto simp: table_ser_def table_de_def unat_of_nat dest: table_position split: option.splits if_splits)

lemma table_codec_ok: "codec_ok (table_codec key tbl)"
proof -
  have "table_enc tbl f = Some bs \<Longrightarrow> table_dec tbl bs = Some f" for f bs
    by (cases f) (auto simp: table_dec_def table_round)
  then show ?thesis by (simp add: codec_ok_def table_codec_def table_dec_def table_round)
qed

lemma table_checksum_holds: "checksum_holds (table_codec key tbl)"
  using demo_checksum_holds by (simp add: checksum_holds_def frame_crc_def table_codec_def demo_codec_def)

lemma table_key [simp]: "key_of (table_codec key tbl) = key"
  by (simp add: table_codec_def)

section \<open>Rows\<close>

text \<open>A conversation we opened, one opened with us by the same contact, and a stranger's invitation.\<close>

definition row_ours :: conversation_record where
  "row_ours = \<lparr>cv_id = ''k'', cv_contact_address = ''x'', cv_my_alias = ''a'', cv_their_alias = None,
     cv_status = PendingOutbound, cv_initiated_by_me = True, cv_bound_branch = Receive, cv_bound_index = 0,
     cv_created_unix_ms = 1, cv_last_activity_unix_ms = 1, cv_handshake_txid = Some ''h''\<rparr>"

definition row_theirs :: conversation_record where
  "row_theirs = \<lparr>cv_id = ''l'', cv_contact_address = ''x'', cv_my_alias = [], cv_their_alias = Some ''b'',
     cv_status = PendingInbound, cv_initiated_by_me = False, cv_bound_branch = Receive, cv_bound_index = 3,
     cv_created_unix_ms = 2, cv_last_activity_unix_ms = 5, cv_handshake_txid = Some ''g''\<rparr>"

definition row_merged :: conversation_record where
  "row_merged = row_ours\<lparr>cv_their_alias := Some ''b'', cv_bound_index := 3, cv_last_activity_unix_ms := 5, cv_status := Active\<rparr>"

definition row_stranger :: conversation_record where
  "row_stranger = row_theirs\<lparr>cv_id := ''c'', cv_contact_address := [], cv_their_alias := Some ''a'', cv_created_unix_ms := 0\<rparr>"

definition demo_message :: "string \<Rightarrow> string \<Rightarrow> nat \<Rightarrow> row_source \<Rightarrow> message_record" where
  "demo_message txid cid t source = \<lparr>mg_txid = txid, mg_conversation_id = cid, mg_direction = Inbound, mg_kind = Comm_Row,
     mg_envelope = [1, 2], mg_unix_ms = t, mg_alias_on_wire = None, mg_sealed_to = None,
     mg_provenance = source, mg_wire = KChat\<rparr>"

definition store_of :: "conversation_record list \<Rightarrow> message_record list \<Rightarrow> transport_store" where
  "store_of cs ms = \<lparr>
     tr_conversations = \<lparr>lg_path = [''d'', conversations_log], lg_records = map (\<lambda>c. (cv_id c, c)) cs, lg_tombstoned = [],
       lg_end = 0, lg_cut_owed = False, lg_held = None, lg_removed = False\<rparr>,
     tr_messages = \<lparr>lg_path = [''d'', messages_log], lg_records = map (\<lambda>m. (mg_txid m, m)) ms, lg_tombstoned = [],
       lg_end = 0, lg_cut_owed = False, lg_held = None, lg_removed = False\<rparr>,
     tr_scrub_owed = False\<rparr>"

definition demo_cc :: "conversation_record codec" where
  "demo_cc = table_codec cv_id [row_ours, row_theirs, row_merged, row_stranger]"

definition demo_mc :: "message_record codec" where
  "demo_mc = table_codec mg_txid [demo_message ''t'' ''l'' 7 Fill_Sourced, demo_message ''t'' ''k'' 7 Fill_Sourced,
     demo_message ''t'' ''l'' 9 Node_Scanned]"

end
