(* ===== verification/Store_Lookup.thy ===== *)
theory Store_Lookup
  imports Transport_Store Store_Demo
begin

text \<open>
  What the lookups of the messaging store answer. Each picks or sorts by a chain of comparisons
  that ends in the row's id, so each meets the \<open>ranking\<close> contract and answers the same whatever
  order the maps hand their rows out in; then what the alias lookup cannot be made to do, and
  what the one-pass tails say of a thread and its mark.
\<close>

section \<open>The comparisons are rankings\<close>

interpretation by_alias: keyed_ranking "alias_order s"
    "\<lambda>c. (alias_rank c, \<not> hidden s c, Down (cv_created_unix_ms c), cv_last_activity_unix_ms c, Down (cv_id c))"
    cv_id for s
  by unfold_locales (auto simp: alias_order_def cmp_keys)

interpretation by_awaiting: keyed_ranking "awaiting_order s"
    "\<lambda>c. (\<not> hidden s c, Down (cv_created_unix_ms c), Down (cv_id c))" cv_id for s
  by unfold_locales (auto simp: awaiting_order_def cmp_keys)

interpretation by_contact: keyed_ranking contact_order
    "\<lambda>c. (completable c, cv_last_activity_unix_ms c, Down (cv_id c))" cv_id
  by unfold_locales (auto simp: contact_order_def cmp_keys)

interpretation by_establishment: keyed_ranking established_order
    "\<lambda>c. (Down (cv_status c = Active), cv_created_unix_ms c, cv_id c)" cv_id
  by unfold_locales (auto simp: established_order_def cmp_keys)

interpretation by_activity: keyed_ranking recent_order
    "\<lambda>c. (Down (cv_last_activity_unix_ms c), cv_id c)" cv_id
  by unfold_locales (auto simp: recent_order_def cmp_keys)

interpretation by_time: keyed_ranking thread_order "\<lambda>m. (mg_unix_ms m, mg_txid m)" mg_txid
  by unfold_locales (auto simp: thread_order_def cmp_keys)

interpretation by_merge: keyed_ranking merge_order
    "\<lambda>r. (merge_rank (fst r) (snd r), Down (cv_id (fst r)))" "\<lambda>r. cv_id (fst r)"
  by unfold_locales (auto simp: merge_order_def cmp_keys)

interpretation by_value: keyed_ranking cmp "\<lambda>n :: nat. n" "\<lambda>n. n"
  by unfold_locales simp_all

section \<open>Rows\<close>

text \<open>The maps are maps and every row is filed under its own id.\<close>

definition store_wf :: "transport_store \<Rightarrow> bool" where
  "store_wf s \<longleftrightarrow> hmap_ok (conversations s) \<and> hmap_ok (messages s) \<and>
     list_all (\<lambda>(k, c). cv_id c = k) (conversations s) \<and> list_all (\<lambda>(k, m). mg_txid m = k) (messages s)"

text \<open>The same rows and flags, in whatever order.\<close>

definition same_store :: "transport_store \<Rightarrow> transport_store \<Rightarrow> bool" where
  "same_store s s' \<longleftrightarrow> map_of (conversations s) = map_of (conversations s') \<and> map_of (messages s) = map_of (messages s') \<and>
     set (lg_tombstoned (tr_conversations s)) = set (lg_tombstoned (tr_conversations s')) \<and>
     set (lg_tombstoned (tr_messages s)) = set (lg_tombstoned (tr_messages s'))"

lemma keyed_inj:
  assumes "hmap_ok m" and "list_all (\<lambda>(k, v). f v = k) m"
  shows "inj_on f (set (hvals m)) \<and> distinct (hvals m)"
proof -
  have "map f (hvals m) = hkeys m"
    using assms(2) by (induction m) auto
  then have "distinct (map f (hvals m))" using assms(1) by (simp only: hmap_ok_def)
  then show ?thesis using distinct_map [of f "hvals m"] by blast
qed

lemma hvals_mset:
  assumes "hmap_ok m" and "hmap_ok m'" and "map_of m = map_of m'"
  shows "mset (hvals m) = mset (hvals m')"
proof -
  have "set m = set m'" using assms hmap_ok_mem by (metis subsetI subset_antisym surj_pair)
  moreover have "distinct m" "distinct m'" using assms(1,2) by (simp_all add: hmap_ok_def distinct_map)
  ultimately have "mset m = mset m'" by (simp add: set_eq_iff_mset_eq_distinct)
  then show ?thesis by (simp only: mset_map)
qed

lemma store_wf_inj:
  assumes "store_wf s"
  shows "inj_on cv_id (set (hvals (conversations s)))" and "inj_on mg_txid (set (hvals (messages s)))"
    and "distinct (hvals (conversations s))" and "distinct (hvals (messages s))"
  using assms keyed_inj unfolding store_wf_def by blast+

lemma inj_filter: "inj_on f (set xs) \<Longrightarrow> inj_on f (set (filter P xs))"
  by (auto intro: inj_on_subset)

lemma same_store_rows:
  assumes "store_wf s" and "store_wf s'" and "same_store s s'"
  shows "mset (hvals (conversations s)) = mset (hvals (conversations s'))"
    and "mset (hvals (messages s)) = mset (hvals (messages s'))"
    and "hidden s = hidden s'" and "ghost s = ghost s'"
  using assms hvals_mset unfolding store_wf_def same_store_def
  by (auto simp: hidden_def ghost_def is_tombstoned_def fun_eq_iff)

lemma mset_filter_eq: "mset xs = mset ys \<Longrightarrow> mset (filter P xs) = mset (filter P ys)"
  by simp

lemma same_orders:
  assumes "hidden s = hidden s'"
  shows "alias_order s = alias_order s'" and "awaiting_order s = awaiting_order s'"
  using assms by (simp_all add: alias_order_def awaiting_order_def fun_eq_iff)

section \<open>Every lookup ignores the order of the maps\<close>

lemma contact_rows_inj:
  assumes "store_wf s"
  shows "inj_on (\<lambda>r. cv_id (fst r)) (set (contact_rows s a))"
proof (rule inj_onI)
  fix x y
  assume "x \<in> set (contact_rows s a)" "y \<in> set (contact_rows s a)" and eq: "cv_id (fst x) = cv_id (fst y)"
  moreover have "fst r \<in> set (hvals (conversations s)) \<and> snd r = hidden s (fst r)"
    if "r \<in> set (contact_rows s a)" for r
    using that by (force simp: contact_rows_def)
  ultimately show "x = y" using inj_onD [OF store_wf_inj(1) [OF assms] eq] by (simp add: prod_eq_iff)
qed

lemma lookups_same:
  assumes wf: "store_wf s" "store_wf s'" and same: "same_store s s'"
  shows "conversation_by_alias s a = conversation_by_alias s' a"
    and "conversation_awaiting_response s a = conversation_awaiting_response s' a"
    and "conversation_by_contact_address s a = conversation_by_contact_address s' a"
    and "conversations_for_contact_address s a = conversations_for_contact_address s' a"
    and "list_conversations s = list_conversations s'"
    and "messages_for s a = messages_for s' a"
    and "newest_inbound s a = newest_inbound s' a"
    and "conversation_wire s a = conversation_wire s' a"
    and "announced_at s = announced_at s'"
    and "sort_by merge_order (contact_rows s a) = sort_by merge_order (contact_rows s' a)"
proof -
  note rows = same_store_rows [OF wf same]
  note orders = same_orders [OF rows(3)]
  note inj = store_wf_inj [OF wf(1)]
  have cset: "set (filter P (hvals (conversations s))) = set (filter P (hvals (conversations s')))" for P
    using mset_filter_eq [OF rows(1)] by (metis set_mset_mset)
  have mset: "set (filter P (hvals (messages s))) = set (filter P (hvals (messages s')))" for P
    using mset_filter_eq [OF rows(2)] by (metis set_mset_mset)
  show "conversation_by_alias s a = conversation_by_alias s' a"
    unfolding conversation_by_alias_def orders(1) by (rule by_alias.best_cong [OF cset inj_filter [OF inj(1)]])
  show "conversation_awaiting_response s a = conversation_awaiting_response s' a"
    unfolding conversation_awaiting_response_def orders(2) by (rule by_awaiting.best_cong [OF cset inj_filter [OF inj(1)]])
  show "conversation_by_contact_address s a = conversation_by_contact_address s' a"
    unfolding conversation_by_contact_address_def
    using by_contact.best_cong [OF cset inj_filter [OF inj(1)]] by simp
  show "conversations_for_contact_address s a = conversations_for_contact_address s' a"
    unfolding conversations_for_contact_address_def
    using by_establishment.sort_cong [OF mset_filter_eq [OF rows(1)] inj_filter [OF inj(1)]] by simp
  show "list_conversations s = list_conversations s'"
    unfolding list_conversations_def by (rule by_activity.sort_cong [OF rows(1) inj(1)])
  show "messages_for s a = messages_for s' a"
    unfolding messages_for_def by (rule by_time.sort_cong [OF mset_filter_eq [OF rows(2)] inj_filter [OF inj(2)]])
  have inb: "inbound_comm s = inbound_comm s'" by (simp add: inbound_comm_def rows(4) fun_eq_iff)
  have newest: "max_by thread_order (filter (inbound_comm s a) (hvals (messages s)))
      = max_by thread_order (filter (inbound_comm s' a) (hvals (messages s')))"
    unfolding inb by (rule by_time.best_cong [OF mset inj_filter [OF inj(2)]])
  show "newest_inbound s a = newest_inbound s' a" unfolding newest_inbound_def by (rule newest)
  show "conversation_wire s a = conversation_wire s' a" unfolding conversation_wire_def newest ..
  show "announced_at s = announced_at s'"
  proof (intro ext)
    fix row :: conversation_record and dir
    have "max_by cmp (map mg_unix_ms (filter (\<lambda>m. mg_conversation_id m = cv_id row \<and> mg_direction m = dir
          \<and> mg_kind m = Handshake_Row \<and> \<not> ghost s m) (hvals (messages s))))
        = max_by cmp (map mg_unix_ms (filter (\<lambda>m. mg_conversation_id m = cv_id row \<and> mg_direction m = dir
          \<and> mg_kind m = Handshake_Row \<and> \<not> ghost s m) (hvals (messages s'))))"
      by (rule by_value.best_cong) (simp_all only: set_map mset inj_on_id2)
    then show "announced_at s row dir = announced_at s' row dir"
      unfolding announced_at_def rows(4) by simp
  qed
  show "sort_by merge_order (contact_rows s a) = sort_by merge_order (contact_rows s' a)"
  proof (rule by_merge.sort_cong)
    show "mset (contact_rows s a) = mset (contact_rows s' a)"
      unfolding contact_rows_def rows(3) mset_map using mset_filter_eq [OF rows(1)] by simp
    show "inj_on (\<lambda>r. cv_id (fst r)) (set (contact_rows s a))"
      by (rule contact_rows_inj [OF wf(1)])
  qed
qed

section \<open>Tails\<close>

text \<open>What one pass over some rows has found for a thread.\<close>

definition live_thread :: "transport_store \<Rightarrow> string \<Rightarrow> message_record \<Rightarrow> bool" where
  "live_thread s cid m \<longleftrightarrow> mg_conversation_id m = cid \<and> \<not> ghost s m"

definition past_mark :: "read_marks \<Rightarrow> message_record \<Rightarrow> bool" where
  "past_mark marks m \<longleftrightarrow> mg_direction m = Inbound \<and> mg_kind m = Comm_Row \<and>
     (case get_mark marks (mg_conversation_id m) of None \<Rightarrow> True
      | Some mark \<Rightarrow> precedes mark (mg_unix_ms m) (mg_txid m))"

definition tail_spec :: "transport_store \<Rightarrow> read_marks \<Rightarrow> string \<Rightarrow> message_record list \<Rightarrow> conversation_tail option" where
  "tail_spec s marks cid xs =
     (let live = filter (live_thread s cid) xs in
      if live = [] then None
      else Some \<lparr>tail_newest = max_by thread_order live, tail_unread = min (length (filter (past_mark marks) live)) u32_max\<rparr>)"

lemma max_by_snoc:
  "max_by f (xs @ [y]) = Some (case max_by f xs of None \<Rightarrow> y | Some m \<Rightarrow> if f m y = Greater then m else y)"
  by (cases xs) simp_all

lemma thread_order_Greater:
  "thread_order a b \<noteq> Greater \<longleftrightarrow> (mg_unix_ms a, mg_txid a) \<le> (mg_unix_ms b, mg_txid b)"
  unfolding by_time.by_key cmp_Greater not_less ..

lemma tail_step:
  assumes inj: "inj_on mg_txid (set (xs @ [r]))" and new: "r \<notin> set xs"
    and IH: "\<And>cid. hget tails cid = tail_spec s marks cid xs"
  shows "hget (note_tail s marks tails r) cid = tail_spec s marks cid (xs @ [r])"
proof (cases "live_thread s cid r")
  case False
  then show ?thesis using IH by (auto simp: note_tail_def tail_spec_def live_thread_def Let_def)
next
  case True
  then have live: "\<not> ghost s r" "mg_conversation_id r = cid" by (auto simp: live_thread_def)
  let ?live = "filter (live_thread s cid) xs"
  have newest: "(if (case max_by thread_order ?live of None \<Rightarrow> True
        | Some h \<Rightarrow> (mg_unix_ms h, mg_txid h) < (mg_unix_ms r, mg_txid r)) then Some r else max_by thread_order ?live)
      = max_by thread_order (?live @ [r])"
  proof (cases "max_by thread_order ?live")
    case (Some h)
    then have "h \<in> set xs" using max_by_in [OF Some] by auto
    then have "mg_txid h \<noteq> mg_txid r" using inj new by (auto simp: inj_on_def)
    then have "(mg_unix_ms h, mg_txid h) < (mg_unix_ms r, mg_txid r) \<longleftrightarrow> thread_order h r \<noteq> Greater"
      by (auto simp: thread_order_Greater less_le)
    then show ?thesis using Some by (auto simp: max_by_snoc)
  qed (auto simp: max_by_snoc)
  have count: "min (Suc (min n u32_max)) u32_max = min (Suc n) u32_max" for n by simp
  let ?t = "(case hget tails cid of Some t \<Rightarrow> t | None \<Rightarrow> \<lparr>tail_newest = None, tail_unread = 0\<rparr>)"
  have t: "?t = \<lparr>tail_newest = max_by thread_order ?live, tail_unread = min (length (filter (past_mark marks) ?live)) u32_max\<rparr>"
    unfolding IH tail_spec_def Let_def by (cases "?live = []") (simp_all del: filter_filter)
  have "hget (note_tail s marks tails r) cid = Some \<lparr>tail_newest = max_by thread_order (?live @ [r]),
      tail_unread = min (length (filter (past_mark marks) (?live @ [r]))) u32_max\<rparr>"
  proof -
    have unread: "mg_direction r = Inbound \<and> mg_kind r = Comm_Row \<and>
        (case get_mark marks cid of None \<Rightarrow> True | Some mark \<Rightarrow> precedes mark (mg_unix_ms r) (mg_txid r)) \<longleftrightarrow> past_mark marks r"
      by (simp add: past_mark_def live(2))
    show ?thesis
      using newest live unfolding note_tail_def Let_def live(2) t unread
      by (cases "past_mark marks r") (auto simp del: filter_filter split: if_splits)
  qed
  then show ?thesis using True by (simp add: tail_spec_def Let_def)
qed

lemma conversation_tails_spec:
  assumes "store_wf s"
  shows "hget (conversation_tails s marks) cid = tail_spec s marks cid (hvals (messages s))"
proof -
  have "inj_on mg_txid (set xs) \<Longrightarrow> distinct xs \<Longrightarrow>
      hget (foldl (note_tail s marks) [] xs) cid = tail_spec s marks cid xs" for xs cid
  proof (induction xs arbitrary: cid rule: rev_induct)
    case Nil
    then show ?case by (simp add: tail_spec_def)
  next
    case (snoc r xs)
    have "hget (foldl (note_tail s marks) [] xs) cid = tail_spec s marks cid xs" for cid
      using snoc by (auto intro: inj_on_subset)
    from tail_step [OF snoc.prems(1) _ this] show ?case using snoc.prems(2) by simp
  qed
  then show ?thesis unfolding conversation_tails_def using store_wf_inj [OF assms] by blast
qed

lemma past_mark_position:
  "past_mark marks m \<longleftrightarrow> mg_direction m = Inbound \<and> mg_kind m = Comm_Row \<and>
     (case position_of marks (mg_conversation_id m) of None \<Rightarrow> True | Some p \<Rightarrow> p < (mg_unix_ms m, mg_txid m))"
  by (simp add: past_mark_def position_of_def get_mark_def precedes_def split: option.splits)

lemma live_thread_messages:
  assumes "store_wf s"
  shows "sort_by thread_order (filter (live_thread s cid) (hvals (messages s))) = filter (\<lambda>m. \<not> ghost s m) (messages_for s cid)"
proof -
  have "filter (live_thread s cid) (hvals (messages s))
      = filter (\<lambda>m. \<not> ghost s m) (filter (\<lambda>m. mg_conversation_id m = cid) (hvals (messages s)))"
    by (simp add: live_thread_def [abs_def])
  then show ?thesis
    unfolding messages_for_def using by_time.sort_filter [OF inj_filter [OF store_wf_inj(2) [OF assms]]] by metis
qed

text \<open>A row the best row stays ahead of.\<close>

lemma alias_stays:
  assumes "alias_rank x < alias_rank c \<or> alias_rank x = alias_rank c \<and> (\<not> hidden s x \<longrightarrow> \<not> hidden s c) \<and> cv_created_unix_ms c < cv_created_unix_ms x"
  shows "alias_order s x c \<le> Equal"
  unfolding by_alias.below using assms by (auto simp: less_eq_prod_def less_down_def less_eq_down_def)

text \<open>
  C32. Every lookup of the messaging store depends only on what is stored. Two stores with the
  same rows and flags, whatever order their maps hand the rows out in, answer every lookup
  alike: by alias, by echoed alias, by contact address, both lists, a thread and its newest
  inbound message, the dialect, the announcement times, the host of a merge, and the tails.
\<close>

theorem lookups_ignore_map_order:
  assumes "store_wf s" and "store_wf s'" and "same_store s s'"
  shows "conversation_by_alias s = conversation_by_alias s' \<and>
    conversation_awaiting_response s = conversation_awaiting_response s' \<and>
    conversation_by_contact_address s = conversation_by_contact_address s' \<and>
    conversations_for_contact_address s = conversations_for_contact_address s' \<and>
    list_conversations s = list_conversations s' \<and> messages_for s = messages_for s' \<and>
    newest_inbound s = newest_inbound s' \<and> conversation_wire s = conversation_wire s' \<and>
    announced_at s = announced_at s' \<and>
    (\<lambda>a. sort_by merge_order (contact_rows s a)) = (\<lambda>a. sort_by merge_order (contact_rows s' a)) \<and>
    (\<lambda>marks. map_of (conversation_tails s marks)) = (\<lambda>marks. map_of (conversation_tails s' marks))"
proof -
  note same = lookups_same [OF assms]
  note rows = same_store_rows [OF assms]
  have live: "live_thread s = live_thread s'" by (simp add: live_thread_def rows(4) fun_eq_iff)
  have "tail_spec s marks cid (hvals (messages s)) = tail_spec s' marks cid (hvals (messages s'))" for marks cid
  proof -
    have m: "mset (filter (live_thread s cid) (hvals (messages s))) = mset (filter (live_thread s cid) (hvals (messages s')))"
      by (rule mset_filter_eq [OF rows(2)])
    have "max_by thread_order (filter (live_thread s cid) (hvals (messages s)))
        = max_by thread_order (filter (live_thread s cid) (hvals (messages s')))"
      by (rule by_time.best_cong [OF _ inj_filter [OF store_wf_inj(2) [OF assms(1)]]])
         (use m in \<open>metis set_mset_mset\<close>)
    moreover have "length (filter (past_mark marks) (filter (live_thread s cid) (hvals (messages s))))
        = length (filter (past_mark marks) (filter (live_thread s cid) (hvals (messages s'))))"
      using mset_filter_eq [OF m, of "past_mark marks"] by (metis size_mset)
    moreover have "filter (live_thread s cid) (hvals (messages s)) = [] \<longleftrightarrow> filter (live_thread s cid) (hvals (messages s')) = []"
      using m by (metis mset_zero_iff)
    ultimately show ?thesis unfolding tail_spec_def live Let_def by simp
  qed
  then have tails: "map_of (conversation_tails s marks) = map_of (conversation_tails s' marks)" for marks
    using conversation_tails_spec assms(1,2) by (auto simp: fun_eq_iff)
  show ?thesis by (intro conjI ext same tails) (simp_all only: same)
qed

lemma lookups_ignore_map_order_witness:
  "list_conversations (store_of [row_ours, row_theirs] []) = list_conversations (store_of [row_theirs, row_ours] [])"
proof -
  let ?s = "store_of [row_ours, row_theirs] []" and ?s' = "store_of [row_theirs, row_ours] []"
  have "store_wf ?s" "store_wf ?s'"
    by (simp_all add: store_wf_def store_of_def hmap_ok_def row_ours_def row_theirs_def)
  moreover have "same_store ?s ?s'"
    by (simp add: same_store_def store_of_def row_ours_def row_theirs_def fun_upd_twist)
  ultimately show ?thesis using lookups_ignore_map_order by metis
qed

text \<open>
  An alias cannot be taken over. Whatever rows are added, none of them changes whom an alias
  of a live conversation of ours routes to, unless the added row is itself a live conversation
  with an alias of ours, at least as visible and established no later: an unaccepted invitation,
  a revived row or a younger conversation under the same alias never captures it.
\<close>

theorem alias_not_captured:
  assumes wf: "store_wf s'" and best: "conversation_by_alias s a = Some c"
    and live: "cv_status c = Active" "cv_my_alias c \<noteq> []"
    and kept: "set (hvals (conversations s)) \<subseteq> set (hvals (conversations s'))"
    and flags: "\<And>x. x \<in> set (hvals (conversations s)) \<Longrightarrow> hidden s' x = hidden s x"
    and added: "\<And>x. x \<in> set (hvals (conversations s')) - set (hvals (conversations s)) \<Longrightarrow>
      cv_status x \<noteq> Active \<or> cv_my_alias x = [] \<or>
      ((hidden s' c \<longrightarrow> hidden s' x) \<and> cv_created_unix_ms c < cv_created_unix_ms x)"
  shows "conversation_by_alias s' a = Some c"
proof -
  let ?P = "\<lambda>c. cv_my_alias c = a \<or> cv_their_alias c = Some a"
  have c: "c \<in> set (hvals (conversations s))" "?P c"
    using max_by_in [OF best [unfolded conversation_by_alias_def]] by simp_all
  have "max_by (alias_order s') (filter ?P (hvals (conversations s'))) = Some c"
  proof (rule by_alias.best_unique)
    show "c \<in> set (filter ?P (hvals (conversations s')))" using c kept by auto
    show "inj_on cv_id (set (filter ?P (hvals (conversations s'))))"
      by (rule inj_filter [OF store_wf_inj(1) [OF wf]])
    fix x
    assume x: "x \<in> set (filter ?P (hvals (conversations s')))"
    show "alias_order s' x c \<le> Equal"
    proof (cases "x \<in> set (hvals (conversations s))")
      case True
      then have "alias_order s x c \<le> Equal"
        using by_alias.best_is_greatest [OF best [unfolded conversation_by_alias_def], of x] x by simp
      moreover have "alias_order s' x c = alias_order s x c"
        using flags [OF True] flags [OF c(1)] by (simp add: alias_order_def)
      ultimately show ?thesis by simp
    next
      case False
      then have "x \<in> set (hvals (conversations s')) - set (hvals (conversations s))" using x by simp
      from added [OF this] show ?thesis
        by (intro alias_stays) (auto simp: alias_rank_def live)
    qed
  qed
  then show ?thesis by (simp add: conversation_by_alias_def)
qed

lemma alias_not_captured_witness:
  "conversation_by_alias (store_of [row_merged, row_stranger] []) ''a'' = Some row_merged"
proof (rule alias_not_captured)
  let ?s = "store_of [row_merged] []" and ?s' = "store_of [row_merged, row_stranger] []"
  show "store_wf ?s'" by (simp add: store_wf_def store_of_def hmap_ok_def row_merged_def row_ours_def row_stranger_def row_theirs_def)
  show "conversation_by_alias ?s ''a'' = Some row_merged"
    by (simp add: conversation_by_alias_def store_of_def row_merged_def row_ours_def)
  show "cv_status row_merged = Active" "cv_my_alias row_merged \<noteq> []" by (simp_all add: row_merged_def row_ours_def)
  show "set (hvals (conversations ?s)) \<subseteq> set (hvals (conversations ?s'))" by (simp add: store_of_def)
  show "hidden ?s' x = hidden ?s x" for x by (simp add: hidden_def is_tombstoned_def store_of_def)
  show "cv_status x \<noteq> Active \<or> cv_my_alias x = [] \<or>
      (hidden ?s' row_merged \<longrightarrow> hidden ?s' x) \<and> cv_created_unix_ms row_merged < cv_created_unix_ms x"
    if "x \<in> set (hvals (conversations ?s')) - set (hvals (conversations ?s))" for x
    using that by (simp add: store_of_def row_stranger_def row_theirs_def)
qed

text \<open>
  The list's tails are the threads' own. For every conversation the one-pass tails hold what
  its thread and its read mark say: nothing when the thread has no live row, else the last live
  row of the thread and the number of its inbound messages past the mark, up to the width of
  the counter; and when the mark is set to the newest inbound message the count is zero and no
  other conversation's tail changes.
\<close>

theorem tails_agree_with_threads:
  assumes wf: "store_wf s"
  shows "hget (conversation_tails s marks) cid =
      (let live = filter (\<lambda>m. \<not> ghost s m) (messages_for s cid) in
       if live = [] then None
       else Some \<lparr>tail_newest = Some (last live), tail_unread = min (length (filter (past_mark marks) live)) u32_max\<rparr>) \<and>
    (newest_inbound s cid = Some m \<longrightarrow>
       map_option tail_unread (hget (conversation_tails s (fst (advance marks cid (mg_unix_ms m) (mg_txid m)))) cid) = Some 0 \<and>
       (c \<noteq> cid \<longrightarrow> hget (conversation_tails s (fst (advance marks cid (mg_unix_ms m) (mg_txid m)))) c
          = hget (conversation_tails s marks) c))"
proof -
  let ?live = "filter (live_thread s cid) (hvals (messages s))"
  let ?marks = "fst (advance marks cid (mg_unix_ms m) (mg_txid m))"
  have inj: "inj_on mg_txid (set ?live)" by (rule inj_filter [OF store_wf_inj(2) [OF wf]])
  have thread: "sort_by thread_order ?live = filter (\<lambda>m. \<not> ghost s m) (messages_for s cid)"
    by (rule live_thread_messages [OF wf])
  have same: "mset (filter (\<lambda>m. \<not> ghost s m) (messages_for s cid)) = mset ?live"
    unfolding thread [symmetric] by simp
  have first: "tail_spec s marks cid (hvals (messages s)) =
      (let live = filter (\<lambda>m. \<not> ghost s m) (messages_for s cid) in
       if live = [] then None
       else Some \<lparr>tail_newest = Some (last live), tail_unread = min (length (filter (past_mark marks) live)) u32_max\<rparr>)"
  proof -
    have "length (filter (past_mark marks) (filter (\<lambda>m. \<not> ghost s m) (messages_for s cid))) = length (filter (past_mark marks) ?live)"
      using mset_filter_eq [OF same, of "past_mark marks"] by (metis size_mset)
    moreover have "?live = [] \<longleftrightarrow> filter (\<lambda>m. \<not> ghost s m) (messages_for s cid) = []"
      using same by (metis mset_zero_iff)
    moreover have "?live \<noteq> [] \<Longrightarrow> max_by thread_order ?live = Some (last (filter (\<lambda>m. \<not> ghost s m) (messages_for s cid)))"
      using by_time.last_sort_is_best [OF _ inj] unfolding thread by simp
    ultimately show ?thesis unfolding tail_spec_def Let_def by (simp del: filter_filter)
  qed
  have clear: "tail_spec s ?marks cid (hvals (messages s)) = Some \<lparr>tail_newest = max_by thread_order ?live, tail_unread = 0\<rparr>"
    if m: "newest_inbound s cid = Some m"
  proof -
    have newest: "max_by thread_order (filter (inbound_comm s cid) (hvals (messages s))) = Some m"
      using m by (simp add: newest_inbound_def)
    have "m \<in> set ?live" using max_by_in [OF newest] by (auto simp: inbound_comm_def live_thread_def)
    then have ne: "?live \<noteq> []" by (metis empty_iff empty_set)
    have "\<not> past_mark ?marks x" if x: "x \<in> set ?live" for x
    proof
      assume p: "past_mark ?marks x"
      then have "x \<in> set (filter (inbound_comm s cid) (hvals (messages s)))"
        using x by (auto simp: past_mark_def inbound_comm_def live_thread_def)
      from by_time.best_key [OF newest this] have "(mg_unix_ms x, mg_txid x) \<le> (mg_unix_ms m, mg_txid m)" .
      moreover have "mg_conversation_id x = cid" using x by (simp add: live_thread_def)
      ultimately show False
        using p unfolding past_mark_position advance_position
        by (cases "position_of marks cid") (auto simp: not_less [symmetric])
    qed
    then have "filter (past_mark ?marks) ?live = []" by (simp add: filter_empty_conv)
    then show ?thesis using ne unfolding tail_spec_def Let_def by simp
  qed
  have other: "tail_spec s ?marks c (hvals (messages s)) = tail_spec s marks c (hvals (messages s))" if "c \<noteq> cid"
  proof -
    have "filter (past_mark ?marks) (filter (live_thread s c) (hvals (messages s)))
        = filter (past_mark marks) (filter (live_thread s c) (hvals (messages s)))"
      by (rule filter_cong [OF refl]) (use that in \<open>auto simp: past_mark_position advance_position live_thread_def\<close>)
    then show ?thesis unfolding tail_spec_def Let_def by (simp del: filter_filter)
  qed
  show ?thesis unfolding conversation_tails_spec [OF wf] using first clear other by simp
qed

lemma tails_agree_with_threads_witness:
  "hget (conversation_tails (store_of [] [demo_message ''t'' ''k'' 7 Own]) []) ''k'' =
     Some \<lparr>tail_newest = Some (demo_message ''t'' ''k'' 7 Own), tail_unread = 1\<rparr>"
proof -
  let ?s = "store_of [] [demo_message ''t'' ''k'' 7 Own]"
  have wf: "store_wf ?s" by (simp add: store_wf_def store_of_def hmap_ok_def demo_message_def)
  show ?thesis
    using tails_agree_with_threads [OF wf, of "[]" "''k''" "demo_message ''t'' ''k'' 7 Own" "''k''"]
    by (simp add: messages_for_def store_of_def demo_message_def ghost_def is_tombstoned_def past_mark_def get_mark_def u32_max_def)
qed

end
