(* ===== verification/Store_Inv.thy ===== *)
theory Store_Inv
  imports Store_Lookup Kvlog_Paths
begin

text \<open>
  The store over its two logs. Every operation is a sequence of log operations on one log or the
  other, and neither log touches the other's file, so what a log promises of one operation
  (\<open>run_op_cases\<close>) is promised of the store: both files replay to the rows in memory, and an
  operation that fails changes no row.
\<close>

section \<open>The invariant\<close>

definition codecs_ok :: "conversation_record codec \<Rightarrow> message_record codec \<Rightarrow> bool" where
  "codecs_ok cc mc \<longleftrightarrow> codec_ok cc \<and> codec_ok mc \<and> key_of cc = cv_id \<and> key_of mc = mg_txid"

definition store_inv ::
  "conversation_record codec \<Rightarrow> message_record codec \<Rightarrow> path \<Rightarrow> transport_store \<times> disk \<Rightarrow> bool" where
  "store_inv cc mc dir sd \<longleftrightarrow> (case sd of (s, d) \<Rightarrow>
     lg_path (tr_conversations s) = dir @ [conversations_log] \<and> lg_path (tr_messages s) = dir @ [messages_log] \<and>
     log_inv cc (tr_conversations s) d \<and> log_inv mc (tr_messages s) d \<and>
     lg_held (tr_conversations s) = None \<and> lg_held (tr_messages s) = None)"

lemma store_invD:
  assumes "store_inv cc mc dir (s, d)"
  shows "lg_path (tr_conversations s) = dir @ [conversations_log]" "lg_path (tr_messages s) = dir @ [messages_log]"
    "log_inv cc (tr_conversations s) d" "log_inv mc (tr_messages s) d"
    "lg_held (tr_conversations s) = None" "lg_held (tr_messages s) = None"
    "log_wf cc (tr_conversations s)" "log_wf mc (tr_messages s)"
  using assms log_inv_wf by (auto simp: store_inv_def)

lemma store_inv_wf:
  assumes "codecs_ok cc mc" and "store_inv cc mc dir (s, d)"
  shows "store_wf s"
  using assms store_invD(7,8) [OF assms(2)]
  by (auto simp: store_wf_def log_wf_def codecs_ok_def list_all_iff hmap_ok_mem)

text \<open>Neither log's name runs into the other's.\<close>

lemma logs_apart:
  "\<not> belongs (dir @ [conversations_log]) (dir @ [messages_log])"
  "\<not> belongs (dir @ [messages_log]) (dir @ [conversations_log])"
  by (simp_all add: belongs_def temp_path_def starts_with_def conversations_log_def messages_log_def)

lemma log_inv_spared:
  assumes "log_inv c lg d" and "spares p d d'" and "\<not> belongs p (lg_path lg)"
  shows "log_inv c lg d'"
proof -
  have "file_of d' (lg_path lg) = file_of d (lg_path lg)" using assms(2,3) by (simp add: spares_def file_of_def)
  then show ?thesis using assms(1) by (simp add: log_inv_def)
qed

lemma log_inv_own:
  assumes "log_inv c lg d" and "content d' (lg_path lg) = content d (lg_path lg)"
  shows "log_inv c lg d'"
  using assms by (simp add: log_inv_def file_of_def)

section \<open>One log operation\<close>

abbreviation conv_rows :: "transport_store \<Rightarrow> string \<Rightarrow> conversation_record option" where
  "conv_rows s \<equiv> map_of (conversations s)"

abbreviation conv_flags :: "transport_store \<Rightarrow> string set" where
  "conv_flags s \<equiv> set (lg_tombstoned (tr_conversations s))"

abbreviation msg_rows :: "transport_store \<Rightarrow> string \<Rightarrow> message_record option" where
  "msg_rows s \<equiv> map_of (messages s)"

abbreviation msg_flags :: "transport_store \<Rightarrow> string set" where
  "msg_flags s \<equiv> set (lg_tombstoned (tr_messages s))"

text \<open>An operation either did what it promises or changed no row and no flag.\<close>

definition did :: "'t codec \<Rightarrow> 't log_op \<Rightarrow> 't log \<Rightarrow> 't log \<Rightarrow> bool \<Rightarrow> bool" where
  "did c x lg lg' ok \<longleftrightarrow>
     (if ok then records_of lg' = op_records c x (records_of lg) \<and> flags_of lg' = op_flags x (records_of lg) (flags_of lg)
      else records_of lg' = records_of lg \<and> flags_of lg' = flags_of lg)"

lemma conv_op:
  assumes ok: "codecs_ok cc mc" and inv: "store_inv cc mc dir (s, d)"
    and run: "run_op cc x (tr_conversations s) d = (cl, d', err)"
  shows "store_inv cc mc dir (s\<lparr>tr_conversations := cl\<rparr>, d')"
    and "did cc x (tr_conversations s) cl (err = None)"
proof -
  have c: "codec_ok cc" using ok by (simp add: codecs_ok_def)
  note D = store_invD [OF inv]
  note R = run_op_cases [OF D(3) c run]
  have "log_inv mc (tr_messages s) d'"
    using log_inv_spared [OF D(4) run_op_spares [OF D(7) c run]] D(1,2) logs_apart(1) by simp
  then show "store_inv cc mc dir (s\<lparr>tr_conversations := cl\<rparr>, d')" using R D by (simp add: store_inv_def)
  show "did cc x (tr_conversations s) cl (err = None)" using R by (cases err) (simp_all add: did_def)
qed

lemma msg_op:
  assumes ok: "codecs_ok cc mc" and inv: "store_inv cc mc dir (s, d)"
    and run: "run_op mc x (tr_messages s) d = (ml, d', err)"
  shows "store_inv cc mc dir (s\<lparr>tr_messages := ml\<rparr>, d')"
    and "did mc x (tr_messages s) ml (err = None)"
proof -
  have c: "codec_ok mc" using ok by (simp add: codecs_ok_def)
  note D = store_invD [OF inv]
  note R = run_op_cases [OF D(4) c run]
  have "log_inv cc (tr_conversations s) d'"
    using log_inv_spared [OF D(3) run_op_spares [OF D(8) c run]] D(1,2) logs_apart(2) by simp
  then show "store_inv cc mc dir (s\<lparr>tr_messages := ml\<rparr>, d')" using R D by (simp add: store_inv_def)
  show "did mc x (tr_messages s) ml (err = None)" using R by (cases err) (simp_all add: did_def)
qed

lemma asides_inv:
  assumes inv: "store_inv cc mc dir (s, d)"
  shows "remove_asides (tr_messages s) d = (d', r) \<Longrightarrow> store_inv cc mc dir (s, d')"
    and "remove_asides (tr_conversations s) d = (d', r') \<Longrightarrow> store_inv cc mc dir (s, d')"
proof -
  note D = store_invD [OF inv]
  have p: "lg_path (tr_messages s) \<noteq> []" "lg_path (tr_conversations s) \<noteq> []" using D(1,2) by simp_all
  show "remove_asides (tr_messages s) d = (d', r) \<Longrightarrow> store_inv cc mc dir (s, d')"
    using D log_inv_spared [OF D(3) remove_asides_spares [OF p(1)]] log_inv_own [OF D(4) remove_asides_own [OF p(1)]]
      logs_apart by (simp add: store_inv_def)
  show "remove_asides (tr_conversations s) d = (d', r') \<Longrightarrow> store_inv cc mc dir (s, d')"
    using D log_inv_spared [OF D(4) remove_asides_spares [OF p(2)]] log_inv_own [OF D(3) remove_asides_own [OF p(2)]]
      logs_apart by (simp add: store_inv_def)
qed

section \<open>Moves\<close>

text \<open>
  What an operation of the store may do: log operations, each allowed where it happens, deletion
  of copies, the scrub flag.
\<close>

inductive moves ::
  "conversation_record codec \<Rightarrow> message_record codec \<Rightarrow> (transport_store \<Rightarrow> conversation_record log_op \<Rightarrow> bool)
     \<Rightarrow> (transport_store \<Rightarrow> message_record log_op \<Rightarrow> bool) \<Rightarrow> transport_store \<times> disk \<Rightarrow> transport_store \<times> disk \<Rightarrow> bool"
  for cc mc C M where
  stay: "moves cc mc C M a a"
| conv: "moves cc mc C M a (s, d) \<Longrightarrow> C s x \<Longrightarrow> run_op cc x (tr_conversations s) d = (cl, d', err) \<Longrightarrow>
    moves cc mc C M a (s\<lparr>tr_conversations := cl\<rparr>, d')"
| msg: "moves cc mc C M a (s, d) \<Longrightarrow> M s x \<Longrightarrow> run_op mc x (tr_messages s) d = (ml, d', err) \<Longrightarrow>
    moves cc mc C M a (s\<lparr>tr_messages := ml\<rparr>, d')"
| copies: "moves cc mc C M a (s, d) \<Longrightarrow>
    (\<exists>r. remove_asides (tr_messages s) d = (d', r)) \<or> (\<exists>r. remove_asides (tr_conversations s) d = (d', r)) \<Longrightarrow>
    moves cc mc C M a (s, d')"
| owed: "moves cc mc C M a (s, d) \<Longrightarrow> moves cc mc C M a (s\<lparr>tr_scrub_owed := b\<rparr>, d)"

inductive_cases movesE: "moves cc mc C M a b"

lemma moves_trans: "moves cc mc C M b c \<Longrightarrow> moves cc mc C M a b \<Longrightarrow> moves cc mc C M a c"
  by (induction rule: moves.induct) (auto intro: moves.intros)

lemma moves_inv:
  assumes ok: "codecs_ok cc mc"
  shows "moves cc mc C M a b \<Longrightarrow> store_inv cc mc dir a \<Longrightarrow> store_inv cc mc dir b"
proof (induction rule: moves.induct)
  case (conv a s d x cl d' err)
  then show ?case using conv_op(1) [OF ok] by blast
next
  case (msg a s d x ml d' err)
  then show ?case using msg_op(1) [OF ok] by blast
next
  case (copies a s d d')
  then show ?case using asides_inv by blast
next
  case (owed a s d b)
  then show ?case by (simp add: store_inv_def)
qed simp

lemma moves_mono:
  assumes "moves cc mc C M a b" and "\<And>s x. C s x \<Longrightarrow> C' s x" and "\<And>s x. M s x \<Longrightarrow> M' s x"
  shows "moves cc mc C' M' a b"
  using assms(1)
proof (induction rule: moves.induct)
  case (conv a s d x cl d' err)
  show ?case by (rule moves.conv [OF conv.IH assms(2) [OF conv.hyps(2)] conv.hyps(3)])
next
  case (msg a s d x ml d' err)
  show ?case by (rule moves.msg [OF msg.IH assms(3) [OF msg.hyps(2)] msg.hyps(3)])
qed (auto intro: moves.intros)

text \<open>The log's operations as data, read back from the calls.\<close>

lemma run_op_upsert: "upsert c lg d (key_of c r) r = (lg', d', res) \<Longrightarrow> \<exists>err. run_op c (Do_Upsert r) lg d = (lg', d', err) \<and> (err = None \<longleftrightarrow> \<not> isl res)"
  by (cases res) auto

lemma run_op_remove: "remove c lg d k = (lg', d', res) \<Longrightarrow> \<exists>err. run_op c (Do_Remove k) lg d = (lg', d', err) \<and> (err = None \<longleftrightarrow> \<not> isl res)"
  by (cases res) auto

lemma run_op_tombstone: "tombstone c lg d k = (lg', d', res) \<Longrightarrow> \<exists>err. run_op c (Do_Tombstone k) lg d = (lg', d', err) \<and> (err = None \<longleftrightarrow> \<not> isl res)"
  by (cases res) auto

lemma run_op_untombstone: "untombstone c lg d k = (lg', d', res) \<Longrightarrow> \<exists>err. run_op c (Do_Untombstone k) lg d = (lg', d', err) \<and> (err = None \<longleftrightarrow> \<not> isl res)"
  by (cases res) auto

lemma run_op_wipe: "wipe lg d = (lg', d', res) \<Longrightarrow> \<exists>err. run_op c Do_Wipe lg d = (lg', d', err) \<and> (err = None \<longleftrightarrow> \<not> isl res)"
  by (cases res) auto

lemma run_op_compact: "compact c lg d = (lg', d', res) \<Longrightarrow> \<exists>err. run_op c Do_Compact lg d = (lg', d', err) \<and> (err = None \<longleftrightarrow> \<not> isl res)"
  by (cases res) auto

lemmas run_ops_back = run_op_upsert run_op_remove run_op_tombstone run_op_untombstone run_op_wipe run_op_compact

end
