(* ===== verification/Store_Ops.thy ===== *)
theory Store_Ops
  imports Store_Inv
begin

text \<open>
  The operations of the store as moves, and what follows for every sequence of them: the
  invariant, the rows after a restart, and which rows nothing overwrites.
\<close>

section \<open>Operations as data\<close>

datatype store_op =
    Op_Upsert conversation_record
  | Op_Remove_Conversation string
  | Op_Hide string
  | Op_Unhide string
  | Op_Record message_record
  | Op_Override message_record
  | Op_Rehome string string
  | Op_Remove_Message string
  | Op_Ghost string
  | Op_Unghost string
  | Op_Merge string
  | Op_Merge_All
  | Op_Compact
  | Op_Scrub
  | Op_Finish
  | Op_Wipe

fun store_step ::
  "conversation_record codec \<Rightarrow> message_record codec \<Rightarrow> store_op \<Rightarrow> transport_store \<times> disk \<Rightarrow> transport_store \<times> disk" where
  "store_step cc mc (Op_Upsert r) (s, d) = (case upsert_conversation cc r s d of (s, d, _) \<Rightarrow> (s, d))"
| "store_step cc mc (Op_Remove_Conversation k) (s, d) = (case remove_conversation cc k s d of (s, d, _) \<Rightarrow> (s, d))"
| "store_step cc mc (Op_Hide k) (s, d) = (case tombstone_conversation cc k s d of (s, d, _) \<Rightarrow> (s, d))"
| "store_step cc mc (Op_Unhide k) (s, d) = (case untombstone_conversation cc k s d of (s, d, _) \<Rightarrow> (s, d))"
| "store_step cc mc (Op_Record m) (s, d) = (case record_message mc m s d of (s, d, _) \<Rightarrow> (s, d))"
| "store_step cc mc (Op_Override m) (s, d) = (case override_message mc m s d of (s, d, _) \<Rightarrow> (s, d))"
| "store_step cc mc (Op_Rehome t k) (s, d) = (case rehome_message mc t k s d of (s, d, _) \<Rightarrow> (s, d))"
| "store_step cc mc (Op_Remove_Message t) (s, d) = (case remove_message mc t s d of (s, d, _) \<Rightarrow> (s, d))"
| "store_step cc mc (Op_Ghost t) (s, d) = (case tombstone_message mc t s d of (s, d, _) \<Rightarrow> (s, d))"
| "store_step cc mc (Op_Unghost t) (s, d) = (case untombstone_message mc t s d of (s, d, _) \<Rightarrow> (s, d))"
| "store_step cc mc (Op_Merge a) (s, d) = (case merge_contact cc mc a s d of (s, d, _) \<Rightarrow> (s, d))"
| "store_step cc mc Op_Merge_All (s, d) = (case merge_duplicate_contacts cc mc s d of (s, d, _) \<Rightarrow> (s, d))"
| "store_step cc mc Op_Compact (s, d) = (case compact_store cc mc s d of (s, d, _) \<Rightarrow> (s, d))"
| "store_step cc mc Op_Scrub (s, d) = (case scrub cc mc s d of (s, d, _) \<Rightarrow> (s, d))"
| "store_step cc mc Op_Finish (s, d) = (case finish_removals cc mc s d of (s, d, _) \<Rightarrow> (s, d))"
| "store_step cc mc Op_Wipe (s, d) = (case wipe_store s d of (s, d, _) \<Rightarrow> (s, d))"

definition run_store ::
  "conversation_record codec \<Rightarrow> message_record codec \<Rightarrow> store_op list \<Rightarrow> transport_store \<times> disk \<Rightarrow> transport_store \<times> disk" where
  "run_store cc mc ops sd = foldl (\<lambda>sd x. store_step cc mc x sd) sd ops"

section \<open>Which message writes an operation makes\<close>

text \<open>
  New rows, claims that yield to the node, rows changing their thread; nothing that takes a row
  away or clears a flag.
\<close>

fun message_write :: "transport_store \<Rightarrow> message_record log_op \<Rightarrow> bool" where
  "message_write s (Do_Upsert r) \<longleftrightarrow>
     hget (messages s) (mg_txid r) = None \<or> overridable (hget (messages s) (mg_txid r)) r \<or>
     (\<exists>m. hget (messages s) (mg_txid r) = Some m \<and> r = m\<lparr>mg_conversation_id := mg_conversation_id r\<rparr>)"
| "message_write s (Do_Remove t) \<longleftrightarrow> False"
| "message_write s Do_Wipe \<longleftrightarrow> False"
| "message_write s (Do_Untombstone t) \<longleftrightarrow> False"
| "message_write s _ \<longleftrightarrow> True"

abbreviation any :: "transport_store \<Rightarrow> 'x \<Rightarrow> bool" where
  "any \<equiv> \<lambda>_ _. True"

lemma moves_conv1:
  "C s x \<Longrightarrow> run_op cc x (tr_conversations s) d = (cl, d', err) \<Longrightarrow> moves cc mc C M (s, d) (s\<lparr>tr_conversations := cl\<rparr>, d')"
  by (rule moves.conv [OF moves.stay])

lemma moves_msg1:
  "M s x \<Longrightarrow> run_op mc x (tr_messages s) d = (ml, d', err) \<Longrightarrow> moves cc mc C M (s, d) (s\<lparr>tr_messages := ml\<rparr>, d')"
  by (rule moves.msg [OF moves.stay])

lemma store_same [simp]:
  "s\<lparr>tr_messages := tr_messages s\<rparr> = s" "s\<lparr>tr_conversations := tr_conversations s\<rparr> = s"
  by simp_all

lemma upsert_conversation_moves:
  assumes ok: "codecs_ok cc mc" and run: "upsert_conversation cc r s d = (s', d', res)"
  shows "moves cc mc any M (s, d) (s', d')"
proof -
  obtain cl d1 u where up: "upsert cc (tr_conversations s) d (cv_id r) r = (cl, d1, u)" by (metis prod_cases3)
  then have out: "s' = s\<lparr>tr_conversations := cl\<rparr>" "d' = d1" using run by (simp_all add: upsert_conversation_def)
  have "upsert cc (tr_conversations s) d (key_of cc r) r = (cl, d1, u)" using up ok by (simp add: codecs_ok_def)
  from run_op_upsert [OF this] obtain err where "run_op cc (Do_Upsert r) (tr_conversations s) d = (cl, d1, err)" by blast
  from moves_conv1 [OF _ this] show ?thesis unfolding out by simp
qed

lemma conv_key_moves:
  assumes "run_op cc x (tr_conversations s) d = (cl, d', err)"
  shows "moves cc mc any M (s, d) (s\<lparr>tr_conversations := cl\<rparr>, d')"
  using moves_conv1 [OF _ assms] by simp

lemma keyed_conversation_moves:
  "remove_conversation cc k s d = (s', d', r1) \<Longrightarrow> moves cc mc any M (s, d) (s', d')"
  "tombstone_conversation cc k s d = (s', d', r2) \<Longrightarrow> moves cc mc any M (s, d) (s', d')"
  "untombstone_conversation cc k s d = (s', d', r2) \<Longrightarrow> moves cc mc any M (s, d) (s', d')"
  unfolding remove_conversation_def tombstone_conversation_def untombstone_conversation_def
  by (auto split: prod.splits dest!: run_ops_back intro: conv_key_moves)

lemma upsert_message_moves:
  assumes ok: "codecs_ok cc mc" and may: "message_write s (Do_Upsert r)"
    and run: "upsert mc (tr_messages s) d (mg_txid r) r = (ml, d', res)"
  shows "moves cc mc C message_write (s, d) (s\<lparr>tr_messages := ml\<rparr>, d')"
proof -
  have "upsert mc (tr_messages s) d (key_of mc r) r = (ml, d', res)" using run ok by (simp add: codecs_ok_def)
  from run_op_upsert [OF this] obtain err where "run_op mc (Do_Upsert r) (tr_messages s) d = (ml, d', err)" by blast
  from moves_msg1 [where M = message_write, OF may this] show ?thesis .
qed

lemma record_message_moves:
  assumes ok: "codecs_ok cc mc" and run: "record_message mc m s d = (s', d', res)"
  shows "moves cc mc C message_write (s, d) (s', d')"
proof (cases "hget (messages s) (mg_txid m)")
  case None
  obtain ml d1 u where up: "upsert mc (tr_messages s) d (mg_txid m) m = (ml, d1, u)" by (metis prod_cases3)
  then have "s' = s\<lparr>tr_messages := ml\<rparr>" "d' = d1"
    using run None by (auto simp: record_message_def split: sum.splits)
  then show ?thesis using upsert_message_moves [OF ok _ up] None by simp
next
  case (Some held)
  then show ?thesis using run by (simp add: record_message_def moves.stay)
qed

lemma override_message_moves:
  assumes ok: "codecs_ok cc mc" and run: "override_message mc m s d = (s', d', res)"
  shows "moves cc mc C message_write (s, d) (s', d')"
proof (cases "overridable (hget (messages s) (mg_txid m)) m")
  case True
  obtain ml d1 u where up: "upsert mc (tr_messages s) d (mg_txid m) m = (ml, d1, u)" by (metis prod_cases3)
  then have "s' = s\<lparr>tr_messages := ml\<rparr>" "d' = d1"
    using run True by (auto simp: override_message_def Let_def split: sum.splits)
  then show ?thesis using upsert_message_moves [OF ok _ up] True by simp
next
  case False
  then show ?thesis using run by (simp add: override_message_def moves.stay)
qed

lemma rehome_message_moves:
  assumes ok: "codecs_ok cc mc" and inv: "store_inv cc mc dir (s, d)" and run: "rehome_message mc t k s d = (s', d', res)"
  shows "moves cc mc C message_write (s, d) (s', d')"
proof (cases "hget (messages s) t")
  case None
  then show ?thesis using run by (simp add: rehome_message_def moves.stay)
next
  case (Some m)
  then have t: "mg_txid m = t" using store_invD(8) [OF inv] ok by (simp add: log_wf_def codecs_ok_def)
  show ?thesis
  proof (cases "mg_conversation_id m = k")
    case True
    then show ?thesis using run Some by (simp add: rehome_message_def moves.stay)
  next
    case False
    let ?m = "m\<lparr>mg_conversation_id := k\<rparr>"
    obtain ml d1 u where up: "upsert mc (tr_messages s) d (mg_txid ?m) ?m = (ml, d1, u)" by (metis prod_cases3)
    then have "s' = s\<lparr>tr_messages := ml\<rparr>" "d' = d1"
      using run Some False t by (auto simp: rehome_message_def split: sum.splits)
    moreover have "message_write s (Do_Upsert ?m)" using Some t by simp
    ultimately show ?thesis using upsert_message_moves [OF ok _ up] by simp
  qed
qed

lemma tombstone_message_moves:
  assumes "tombstone_message mc t s d = (s', d', res)"
  shows "moves cc mc C message_write (s, d) (s', d')"
proof -
  obtain ml d1 u where t: "tombstone mc (tr_messages s) d t = (ml, d1, u)" by (metis prod_cases3)
  then have out: "s' = s\<lparr>tr_messages := ml\<rparr>" "d' = d1" using assms by (simp_all add: tombstone_message_def)
  obtain err where "run_op mc (Do_Tombstone t) (tr_messages s) d = (ml, d1, err)" using run_op_tombstone [OF t] by blast
  from moves_msg1 [where M = message_write, OF _ this] show ?thesis unfolding out by simp
qed

fun unghosts :: "'s \<Rightarrow> 't log_op \<Rightarrow> bool" where
  "unghosts s (Do_Untombstone t) \<longleftrightarrow> True"
| "unghosts s _ \<longleftrightarrow> False"

lemma untombstone_message_moves:
  assumes "untombstone_message mc t s d = (s', d', res)"
  shows "moves cc mc C unghosts (s, d) (s', d')"
proof -
  obtain ml d1 u where t: "untombstone mc (tr_messages s) d t = (ml, d1, u)" by (metis prod_cases3)
  then have out: "s' = s\<lparr>tr_messages := ml\<rparr>" "d' = d1" using assms by (simp_all add: untombstone_message_def)
  obtain err where "run_op mc (Do_Untombstone t) (tr_messages s) d = (ml, d1, err)" using run_op_untombstone [OF t] by blast
  from moves_msg1 [where M = unghosts, OF _ this] show ?thesis unfolding out by simp
qed

text \<open>The merge: rows rehomed one by one, each folded row removed behind its messages.\<close>

lemma rehome_all_moves:
  assumes ok: "codecs_ok cc mc"
  shows "rehome_all mc h ts s d n = (s', d', res) \<Longrightarrow> store_inv cc mc dir (s, d) \<Longrightarrow>
    moves cc mc C message_write (s, d) (s', d')"
proof (induction ts arbitrary: s d n)
  case Nil
  then show ?case by (simp add: moves.stay)
next
  case (Cons t ts)
  obtain s1 d1 r1 where re: "rehome_message mc t h s d = (s1, d1, r1)" by (metis prod_cases3)
  note m1 = rehome_message_moves [OF ok Cons.prems(2) re]
  show ?case
  proof (cases r1)
    case (Inl e)
    then show ?thesis using Cons.prems re m1 by simp
  next
    case (Inr moved)
    have "store_inv cc mc dir (s1, d1)" by (rule moves_inv [OF ok m1 Cons.prems(2)])
    with Cons.IH [of s1 d1] Cons.prems Inr re show ?thesis by (auto intro: moves_trans [OF _ m1])
  qed
qed

lemma fold_rows_moves:
  assumes ok: "codecs_ok cc mc"
  shows "fold_rows cc mc h dups s d rep = (s', d', res) \<Longrightarrow> store_inv cc mc dir (s, d) \<Longrightarrow>
    moves cc mc any message_write (s, d) (s', d')"
proof (induction dups arbitrary: s d rep)
  case Nil
  then show ?case by (simp add: moves.stay)
next
  case (Cons dup dups)
  let ?ts = "map mg_txid (filter (\<lambda>m. mg_conversation_id m = cv_id dup) (hvals (messages s)))"
  obtain s1 d1 r1 where re: "rehome_all mc h ?ts s d (mr_messages_rehomed rep) = (s1, d1, r1)" by (metis prod_cases3)
  note m1 = rehome_all_moves [OF ok re Cons.prems(2), where C = any]
  note inv1 = moves_inv [OF ok m1 Cons.prems(2)]
  show ?case
  proof (cases r1)
    case (Inl e)
    then show ?thesis using Cons.prems re m1 by (simp add: Let_def)
  next
    case (Inr k)
    obtain cl d2 r2 where rm: "remove cc (tr_conversations s1) d1 (cv_id dup) = (cl, d2, r2)" by (metis prod_cases3)
    obtain err where "run_op cc (Do_Remove (cv_id dup)) (tr_conversations s1) d1 = (cl, d2, err)"
      using run_op_remove [OF rm] by blast
    note m2 = moves_trans [OF conv_key_moves [OF this] m1]
    note inv2 = moves_inv [OF ok m2 Cons.prems(2)]
    show ?thesis
    proof (cases r2)
      case (Inl e)
      then show ?thesis using Cons.prems re rm m2 \<open>r1 = Inr k\<close> by (simp add: Let_def)
    next
      case (Inr u)
      then show ?thesis
        using Cons.prems(1) re rm \<open>r1 = Inr k\<close> moves_trans [OF Cons.IH [OF _ inv2] m2] by (simp add: Let_def)
    qed
  qed
qed

text \<open>The steps of a merge that folds something.\<close>

definition merge_plan :: "transport_store \<Rightarrow> string \<Rightarrow> conversation_record \<times> conversation_record list \<times> bool \<times> bool" where
  "merge_plan s address =
     (let sorted_rows = sort_by merge_order (contact_rows s address);
          (host, host_hidden) = last sorted_rows;
          rows = butlast sorted_rows
      in (merged_host s host (map fst rows), map fst rows,
          cv_status host = PendingInbound \<and> (host_hidden \<or> list_ex (\<lambda>(c, h). h \<and> cv_status c = PendingInbound) rows),
          \<not> host_hidden \<or> list_ex (\<lambda>(_, h). \<not> h) rows))"

lemma merge_contact_steps:
  assumes "merge_plan s address = (host, dups, blocked, any_visible)"
  shows "merge_contact cc mc address s d =
    (if address = [] \<or> length (contact_rows s address) < 2 then (s, d, Inr None)
     else (case upsert cc (tr_conversations s) d (cv_id host) host of
        (cl, d, Inl e) \<Rightarrow> (s\<lparr>tr_conversations := cl\<rparr>, d, Inl e)
      | (cl, d, Inr _) \<Rightarrow>
     (case fold_rows cc mc (cv_id host) dups (s\<lparr>tr_conversations := cl\<rparr>) d
             \<lparr>mr_contacts = 1, mr_rows_folded = 0, mr_messages_rehomed = 0\<rparr> of
        (s, d, Inl e) \<Rightarrow> (s, d, Inl e)
      | (s, d, Inr report) \<Rightarrow>
     (case (if blocked then tombstone_conversation cc (cv_id host) s d
            else if any_visible then untombstone_conversation cc (cv_id host) s d
            else (s, d, Inr False)) of
        (s, d, Inl e) \<Rightarrow> (s, d, Inl e)
      | (s, d, Inr _) \<Rightarrow> (s, d, Inr (Some (cv_id host, report)))))))"
proof -
  obtain h hh where l: "last (sort_by merge_order (contact_rows s address)) = (h, hh)" by fastforce
  let ?rows = "butlast (sort_by merge_order (contact_rows s address))"
  have eqs: "host = merged_host s h (map fst ?rows)" "dups = map fst ?rows"
    "blocked = (cv_status h = PendingInbound \<and> (hh \<or> list_ex (\<lambda>(c, h). h \<and> cv_status c = PendingInbound) ?rows))"
    "any_visible = (\<not> hh \<or> list_ex (\<lambda>(_, h). \<not> h) ?rows)"
    using assms unfolding merge_plan_def Let_def l prod.case prod.inject by blast+
  show ?thesis
    unfolding eqs merge_contact_def Let_def l prod.case
    by (cases "address = []"; cases "length (contact_rows s address) < 2") (simp_all only: simp_thms if_True if_False)
qed

lemma merge_contact_moves:
  assumes ok: "codecs_ok cc mc" and inv: "store_inv cc mc dir (s, d)" and run: "merge_contact cc mc a s d = (s', d', res)"
  shows "moves cc mc any message_write (s, d) (s', d')"
proof -
  obtain host dups blocked any_visible where plan: "merge_plan s a = (host, dups, blocked, any_visible)" by (metis prod_cases4)
  note steps = run [unfolded merge_contact_steps [OF plan]]
  show ?thesis
  proof (cases "a = [] \<or> length (contact_rows s a) < 2")
    case True
    then show ?thesis using steps by (auto intro: moves.stay)
  next
    case False
    obtain cl d1 r1 where up: "upsert cc (tr_conversations s) d (cv_id host) host = (cl, d1, r1)" by (metis prod_cases3)
    have "upsert cc (tr_conversations s) d (key_of cc host) host = (cl, d1, r1)" using up ok by (simp add: codecs_ok_def)
    from run_op_upsert [OF this] obtain err where "run_op cc (Do_Upsert host) (tr_conversations s) d = (cl, d1, err)" by blast
    note m1 = conv_key_moves [OF this, where M = message_write]
    note inv1 = moves_inv [OF ok m1 inv]
    show ?thesis
    proof (cases r1)
      case (Inl e)
      then show ?thesis using steps False up m1 by simp
    next
      case r1: (Inr u)
      obtain s2 d2 r2 where fo: "fold_rows cc mc (cv_id host) dups (s\<lparr>tr_conversations := cl\<rparr>) d1
          \<lparr>mr_contacts = 1, mr_rows_folded = 0, mr_messages_rehomed = 0\<rparr> = (s2, d2, r2)" by (metis prod_cases3)
      note m2 = moves_trans [OF fold_rows_moves [OF ok fo inv1] m1]
      show ?thesis
      proof (cases r2)
        case (Inl e)
        then show ?thesis using steps False up r1 fo m2 by simp
      next
        case r2: (Inr rep)
        obtain s3 d3 r3 where fl: "(if blocked then tombstone_conversation cc (cv_id host) s2 d2
            else if any_visible then untombstone_conversation cc (cv_id host) s2 d2
            else (s2, d2, Inr False)) = (s3, d3, r3)" by (metis prod_cases3)
        have "moves cc mc any message_write (s2, d2) (s3, d3)"
          using fl by (auto split: if_splits intro: moves.stay keyed_conversation_moves)
        then have "moves cc mc any message_write (s, d) (s3, d3)" using m2 by (rule moves_trans)
        moreover have "s' = s3" "d' = d3"
          using steps False up r1 fo r2 fl by (auto split: sum.splits)
        ultimately show ?thesis by simp
      qed
    qed
  qed
qed

lemma merge_all_moves:
  assumes ok: "codecs_ok cc mc"
  shows "merge_all cc mc as s d rep = (s', d', res) \<Longrightarrow> store_inv cc mc dir (s, d) \<Longrightarrow>
    moves cc mc any message_write (s, d) (s', d')"
proof (induction "as" arbitrary: s d rep)
  case Nil
  then show ?case by (simp add: moves.stay)
next
  case (Cons a "as")
  obtain s1 d1 r1 where me: "merge_contact cc mc a s d = (s1, d1, r1)" by (metis prod_cases3)
  note m1 = merge_contact_moves [OF ok Cons.prems(2) me]
  note inv1 = moves_inv [OF ok m1 Cons.prems(2)]
  show ?case
    using Cons.prems(1) me m1 moves_trans [OF Cons.IH [OF _ inv1] m1]
    by (auto split: sum.splits option.splits)
qed

lemma merge_duplicate_contacts_moves:
  assumes "codecs_ok cc mc" and "store_inv cc mc dir (s, d)" and "merge_duplicate_contacts cc mc s d = (s', d', res)"
  shows "moves cc mc any message_write (s, d) (s', d')"
  using merge_all_moves [OF assms(1) _ assms(2)] assms(3) unfolding merge_duplicate_contacts_def by blast

text \<open>Erasing. A compaction writes no row.\<close>

fun compacts :: "'s \<Rightarrow> 't log_op \<Rightarrow> bool" where
  "compacts s Do_Compact \<longleftrightarrow> True"
| "compacts s _ \<longleftrightarrow> False"

lemma compact_store_moves:
  assumes "compact_store cc mc s d = (s', d', res)"
  shows "moves cc mc compacts compacts (s, d) (s', d')"
proof -
  obtain ml d1 r1 where m: "compact mc (tr_messages s) d = (ml, d1, r1)" by (metis prod_cases3)
  obtain cl d2 r2 where c: "compact cc (tr_conversations s) d1 = (cl, d2, r2)" by (metis prod_cases3)
  have out: "s' = s\<lparr>tr_messages := ml, tr_conversations := cl\<rparr>" "d' = d2"
    using assms m c by (auto simp: compact_store_def)
  obtain e1 where "run_op mc Do_Compact (tr_messages s) d = (ml, d1, e1)" using run_op_compact [OF m] by blast
  from moves_msg1 [where M = compacts, OF _ this]
  have m1: "moves cc mc compacts compacts (s, d) (s\<lparr>tr_messages := ml\<rparr>, d1)" by simp
  obtain e2 where "run_op cc Do_Compact (tr_conversations (s\<lparr>tr_messages := ml\<rparr>)) d1 = (cl, d2, e2)"
    using run_op_compact [OF c] by auto
  from moves.conv [OF m1 _ this] show ?thesis unfolding out by simp
qed

lemma copies_moves:
  "remove_asides (tr_messages s) d = (d', r) \<Longrightarrow> moves cc mc C M (s, d) (s, d')"
  "remove_asides (tr_conversations s) d = (d', r') \<Longrightarrow> moves cc mc C M (s, d) (s, d')"
  by (auto intro: moves.copies [OF moves.stay])

lemma owed_moves: "moves cc mc C M (s, d) (s\<lparr>tr_scrub_owed := b\<rparr>, d)"
  by (rule moves.owed [OF moves.stay])

lemma scrub_moves:
  assumes "scrub cc mc s d = (s', d', res)"
  shows "moves cc mc compacts compacts (s, d) (s', d')"
proof -
  let ?s = "s\<lparr>tr_scrub_owed := True\<rparr>"
  obtain d1 ra where a: "remove_asides (tr_messages ?s) d = (d1, ra)" by fastforce
  obtain d2 rb where b: "remove_asides (tr_conversations ?s) d1 = (d2, rb)" by fastforce
  obtain s3 d3 rc where c: "compact_store cc mc ?s d2 = (s3, d3, rc)" by (metis prod_cases3)
  note m = moves_trans [OF compact_store_moves [OF c]
      moves_trans [OF copies_moves(2) [OF b] moves_trans [OF copies_moves(1) [OF a] owed_moves]]]
  have "(s' = s3 \<or> s' = s3\<lparr>tr_scrub_owed := False\<rparr>) \<and> d' = d3"
    using assms a b c by (auto simp: scrub_def Let_def split: option.splits prod.splits)
  then show ?thesis using m moves.owed [OF m] by auto
qed

lemma finish_removals_moves:
  assumes "finish_removals cc mc s d = (s', d', res)"
  shows "moves cc mc compacts compacts (s, d) (s', d')"
  using assms scrub_moves compact_store_moves
  by (auto simp: finish_removals_def split: if_splits intro: moves.stay)

lemma wipe_store_moves:
  assumes "wipe_store s d = (s', d', res)"
  shows "moves cc mc any any (s, d) (s', d')"
proof -
  obtain d1 ra where a: "remove_asides (tr_messages s) d = (d1, ra)" by fastforce
  obtain d2 rb where b: "remove_asides (tr_conversations s) d1 = (d2, rb)" by fastforce
  define s2 where "s2 = (case first_error [error_of ra, error_of rb] of Some _ \<Rightarrow> s\<lparr>tr_scrub_owed := True\<rparr> | None \<Rightarrow> s)"
  have m2: "moves cc mc any any (s, d) (s2, d2)"
    using moves_trans [OF copies_moves(2) [OF b] copies_moves(1) [OF a]]
    by (auto simp: s2_def intro: moves.owed split: option.splits)
  obtain ml d3 rm where m: "wipe (tr_messages s2) d2 = (ml, d3, rm)" by (metis prod_cases3)
  obtain e1 where e1: "run_op mc Do_Wipe (tr_messages s2) d2 = (ml, d3, e1)" using run_op_wipe [OF m] by blast
  have m3: "moves cc mc any any (s, d) (s2\<lparr>tr_messages := ml\<rparr>, d3)" by (rule moves.msg [OF m2 _ e1]) simp
  obtain cl d4 rc where c: "wipe (tr_conversations (s2\<lparr>tr_messages := ml\<rparr>)) d3 = (cl, d4, rc)" by (metis prod_cases3)
  obtain e2 where e2: "run_op cc Do_Wipe (tr_conversations (s2\<lparr>tr_messages := ml\<rparr>)) d3 = (cl, d4, e2)" using run_op_wipe [OF c] by blast
  have m4: "moves cc mc any any (s, d) (s2\<lparr>tr_messages := ml, tr_conversations := cl\<rparr>, d4)" by (rule moves.conv [OF m3 _ e2]) simp
  have "wipe_store s d = (case rm of Inl e \<Rightarrow> (s2\<lparr>tr_messages := ml\<rparr>, d3, Inl e) | Inr _ \<Rightarrow>
      (case rc of Inl e \<Rightarrow> (s2\<lparr>tr_messages := ml, tr_conversations := cl\<rparr>, d4, Inl e)
       | Inr _ \<Rightarrow> (s2\<lparr>tr_messages := ml, tr_conversations := cl\<rparr>, d4, Inr (wipe_preview s))))"
    using a b m c unfolding wipe_store_def Let_def by (simp only: prod.case s2_def [symmetric])
  then show ?thesis using assms m3 m4 by (auto split: sum.splits)
qed

text \<open>Every operation.\<close>

fun forgets :: "store_op \<Rightarrow> bool" where
  "forgets (Op_Remove_Message t) \<longleftrightarrow> True"
| "forgets Op_Wipe \<longleftrightarrow> True"
| "forgets _ \<longleftrightarrow> False"

fun restores :: "store_op \<Rightarrow> bool" where
  "restores (Op_Unghost t) \<longleftrightarrow> True"
| "restores _ \<longleftrightarrow> False"

lemma compacts_write: "compacts s x \<Longrightarrow> message_write s x"
  by (cases x) simp_all

lemma step_moves_gentle:
  assumes ok: "codecs_ok cc mc" and inv: "store_inv cc mc dir (s, d)" and "\<not> forgets x" and "\<not> restores x"
  shows "moves cc mc any message_write (s, d) (store_step cc mc x (s, d))"
proof -
  note erase = moves_mono [where C = compacts and M = compacts and C' = any and M' = message_write, OF _ _ compacts_write]
  show ?thesis
    using assms(3,4)
    by (cases x)
       (auto split: prod.splits
         dest: upsert_conversation_moves [OF ok] keyed_conversation_moves record_message_moves [OF ok, where C = any]
           override_message_moves [OF ok, where C = any] rehome_message_moves [OF ok inv, where C = any]
           tombstone_message_moves [where C = any]
           merge_contact_moves [OF ok inv] merge_duplicate_contacts_moves [OF ok inv]
         intro: erase [OF compact_store_moves] erase [OF scrub_moves] erase [OF finish_removals_moves])
qed

lemma step_moves_unghost: "moves cc mc any unghosts (s, d) (store_step cc mc (Op_Unghost t) (s, d))"
  using untombstone_message_moves by (auto split: prod.splits)

lemma step_moves:
  assumes ok: "codecs_ok cc mc" and inv: "store_inv cc mc dir (s, d)"
  shows "moves cc mc any any (s, d) (store_step cc mc x (s, d))"
proof -
  consider (gentle) "\<not> forgets x" "\<not> restores x" | (unghost) t where "x = Op_Unghost t"
    | (wipe) "x = Op_Wipe" | (rm) t where "x = Op_Remove_Message t" by (cases x) auto
  then show ?thesis
  proof cases
    case gentle
    from step_moves_gentle [OF ok inv this] show ?thesis by (rule moves_mono) simp_all
  next
    case unghost
    show ?thesis unfolding unghost by (rule moves_mono [OF step_moves_unghost]) simp_all
  next
    case wipe
    then show ?thesis using wipe_store_moves by (auto split: prod.splits)
  next
    case rm
    obtain ml d1 r where r: "remove mc (tr_messages s) d t = (ml, d1, r)" by (metis prod_cases3)
    obtain err where "run_op mc (Do_Remove t) (tr_messages s) d = (ml, d1, err)" using run_op_remove [OF r] by blast
    from moves_msg1 [where M = any, OF _ this] show ?thesis using rm r by (simp add: remove_message_def)
  qed
qed

lemma run_store_inv:
  assumes ok: "codecs_ok cc mc"
  shows "store_inv cc mc dir sd \<Longrightarrow> store_inv cc mc dir (run_store cc mc ops sd)"
proof (induction ops arbitrary: sd)
  case (Cons x ops)
  have "store_inv cc mc dir (store_step cc mc x sd)"
    using moves_inv [OF ok step_moves [OF ok]] Cons.prems by (cases sd) blast
  then show ?case using Cons.IH by (simp add: run_store_def)
qed (simp add: run_store_def)

end
