(* ===== verification/Store_Runs.thy ===== *)
theory Store_Runs
  imports Store_Ops
begin

text \<open>
  A concrete run of the messaging store from an empty disk: two rows of one contact and a
  message in one of them, with the invariant that makes it an instance of the properties.
\<close>

definition empty_disk :: disk where
  "empty_disk = \<lparr>files = [], faults = []\<rparr>"

definition demo_dir :: path where
  "demo_dir = [''d'']"

lemma empty_log_inv:
  assumes "codec_ok c" and "checksum_holds c"
  shows "log_inv c \<lparr>lg_path = demo_dir @ [n], lg_records = [], lg_tombstoned = [], lg_end = 0,
    lg_cut_owed = False, lg_held = None, lg_removed = False\<rparr> empty_disk"
proof -
  have "load c (demo_dir @ [n]) empty_disk = (empty_disk, Inr \<lparr>lg_path = demo_dir @ [n], lg_records = [], lg_tombstoned = [],
      lg_end = 0, lg_cut_owed = False, lg_held = None, lg_removed = False\<rparr>)"
    by (simp add: load_def load_with_v1_def read_file_def empty_disk_def content_def replay_Nil assms(2))
  from load_inv(1) [OF assms(1) _ this] show ?thesis by simp
qed

lemma demo_codecs: "codecs_ok demo_cc demo_mc" "checksum_holds demo_cc" "checksum_holds demo_mc"
  by (simp_all add: codecs_ok_def demo_cc_def demo_mc_def table_codec_ok table_checksum_holds)

lemma empty_store_inv: "store_inv demo_cc demo_mc demo_dir (store_of [] [], empty_disk)"
proof -
  have ok: "codec_ok demo_cc" "codec_ok demo_mc" using demo_codecs(1) by (simp_all add: codecs_ok_def)
  from empty_log_inv [OF ok(1) demo_codecs(2), of conversations_log] empty_log_inv [OF ok(2) demo_codecs(3), of messages_log]
  show ?thesis by (simp add: store_inv_def store_of_def demo_dir_def)
qed

definition demo_run :: "store_op list \<Rightarrow> transport_store \<times> disk" where
  "demo_run ops = run_store demo_cc demo_mc ops (store_of [] [], empty_disk)"

lemma demo_run_inv: "store_inv demo_cc demo_mc demo_dir (demo_run ops)"
  unfolding demo_run_def by (rule run_store_inv [OF demo_codecs(1) empty_store_inv])

text \<open>Our conversation, the same contact's invitation, and a message filed under the invitation.\<close>

definition two_rows :: "store_op list" where
  "two_rows = [Op_Upsert row_ours, Op_Upsert row_theirs, Op_Record (demo_message ''t'' ''l'' 7 Fill_Sourced)]"

lemma two_rows_run:
  "case demo_run two_rows of (s, d) \<Rightarrow>
     map_of (conversations s) ''k'' = Some row_ours \<and> map_of (conversations s) ''l'' = Some row_theirs \<and>
     map_of (messages s) ''t'' = Some (demo_message ''t'' ''l'' 7 Fill_Sourced) \<and>
     \<not> lg_cut_owed (tr_conversations s) \<and> \<not> lg_cut_owed (tr_messages s)"
  by code_simp

end
