(* ===== verification/Store_Props.thy ===== *)
theory Store_Props
  imports Store_Runs
begin

text \<open>
  What the messaging store keeps: across a restart, against replays and unauthenticated claims,
  and of a message the user deleted.
\<close>

section \<open>Restart\<close>

lemma compacts_keep:
  assumes ok: "codecs_ok cc mc"
  shows "moves cc mc compacts compacts a b \<Longrightarrow> store_inv cc mc dir a \<Longrightarrow> same_store (fst a) (fst b)"
proof (induction rule: moves.induct)
  case (stay a)
  then show ?case by (simp add: same_store_def)
next
  case (conv a s d x cl d' err)
  have "did cc x (tr_conversations s) cl (err = None)"
    by (rule conv_op(2) [OF ok moves_inv [OF ok conv.hyps(1) conv.prems] conv.hyps(3)])
  moreover have "x = Do_Compact" using conv.hyps(2) by (cases x) auto
  ultimately show ?case using conv.IH [OF conv.prems]
    by (simp add: same_store_def did_def records_of_def flags_of_def split: if_splits)
next
  case (msg a s d x ml d' err)
  have "did mc x (tr_messages s) ml (err = None)"
    by (rule msg_op(2) [OF ok moves_inv [OF ok msg.hyps(1) msg.prems] msg.hyps(3)])
  moreover have "x = Do_Compact" using msg.hyps(2) by (cases x) auto
  ultimately show ?case using msg.IH [OF msg.prems]
    by (simp add: same_store_def did_def records_of_def flags_of_def split: if_splits)
next
  case (copies a s d d')
  then show ?case by simp
next
  case (owed a s d b)
  then show ?case by (simp add: same_store_def)
qed

lemma load_store_parts:
  assumes "load_store cc mc dir d = (d', Inr s)"
  obtains cl ml d1 d2 r where "load cc (dir @ [conversations_log]) d = (d1, Inr cl)"
    and "load mc (dir @ [messages_log]) d1 = (d2, Inr ml)" and "lg_held ml = None" and "lg_held cl = None"
    and "finish_removals cc mc \<lparr>tr_conversations = cl, tr_messages = ml, tr_scrub_owed = False\<rparr> d2 = (s, d', r)"
  using assms unfolding load_store_def
  by (auto simp: hold_def split: prod.splits sum.splits option.splits)

lemma load_store_inv:
  assumes ok: "codecs_ok cc mc" and ld: "load_store cc mc dir d = (d', Inr s)"
  shows "store_inv cc mc dir (s, d')"
proof -
  from ld obtain cl ml d1 d2 r where cl: "load cc (dir @ [conversations_log]) d = (d1, Inr cl)" "lg_held cl = None"
    and ml: "load mc (dir @ [messages_log]) d1 = (d2, Inr ml)" "lg_held ml = None"
    and fin: "finish_removals cc mc \<lparr>tr_conversations = cl, tr_messages = ml, tr_scrub_owed = False\<rparr> d2 = (s, d', r)"
    by (rule load_store_parts)
  have c: "codec_ok cc" "codec_ok mc" using ok by (simp_all add: codecs_ok_def)
  have ne: "dir @ [n] \<noteq> []" for n by simp
  note L = load_inv [OF c(1) ne cl(1)] load_inv [OF c(2) ne ml(1)]
  have "log_inv cc cl d2" using log_inv_spared [OF L(1) load_spares [OF c(2) ne ml(1)]] L(2) logs_apart(2) by simp
  then have "store_inv cc mc dir (\<lparr>tr_conversations = cl, tr_messages = ml, tr_scrub_owed = False\<rparr>, d2)"
    using L cl(2) ml(2) by (simp add: store_inv_def)
  from moves_inv [OF ok finish_removals_moves [OF fin] this] show ?thesis .
qed

lemma reload_store:
  assumes ok: "codecs_ok cc mc" and crc: "checksum_holds cc" "checksum_holds mc" and inv: "store_inv cc mc dir (s, d)"
    and clean: "\<not> lg_cut_owed (tr_conversations s)" "\<not> lg_cut_owed (tr_messages s)"
    and ld: "load_store cc mc dir d = (d', Inr s')"
  shows "same_store s s'"
proof -
  from ld obtain cl ml d1 d2 r where cl: "load cc (dir @ [conversations_log]) d = (d1, Inr cl)" "lg_held cl = None"
    and ml: "load mc (dir @ [messages_log]) d1 = (d2, Inr ml)" "lg_held ml = None"
    and fin: "finish_removals cc mc \<lparr>tr_conversations = cl, tr_messages = ml, tr_scrub_owed = False\<rparr> d2 = (s', d', r)"
    by (rule load_store_parts)
  have c: "codec_ok cc" "codec_ok mc" using ok by (simp_all add: codecs_ok_def)
  note D = store_invD [OF inv]
  have ne: "dir @ [n] \<noteq> []" for n by simp
  note L = load_inv [OF c(1) ne cl(1)] load_inv [OF c(2) ne ml(1)]
  have convs: "records_of cl = records_of (tr_conversations s) \<and> flags_of cl = flags_of (tr_conversations s)"
    using reload_inv [OF c(1) crc(1) D(3) D(5) clean(1), unfolded D(1), OF cl(1)] by simp
  have "log_inv mc (tr_messages s) d1" using log_inv_spared [OF D(4) load_spares [OF c(1) ne cl(1)]] D(2) logs_apart(1) by simp
  from reload_inv [OF c(2) crc(2) this D(6) clean(2), unfolded D(2), OF ml(1)]
  have msgs: "records_of ml = records_of (tr_messages s) \<and> flags_of ml = flags_of (tr_messages s)" by simp
  let ?s = "\<lparr>tr_conversations = cl, tr_messages = ml, tr_scrub_owed = False\<rparr>"
  have "log_inv cc cl d2" using log_inv_spared [OF L(1) load_spares [OF c(2) ne ml(1)]] L(2) logs_apart(2) by simp
  then have "store_inv cc mc dir (?s, d2)" using L cl(2) ml(2) by (simp add: store_inv_def)
  from compacts_keep [OF ok finish_removals_moves [OF fin] this] have "same_store ?s s'" by simp
  then show ?thesis using convs msgs by (simp add: same_store_def records_of_def flags_of_def)
qed

text \<open>
  C3. The store survives a restart. Load it from any files, run any operations while any of
  their I/O calls fail, and load it again: as long as no failed write is still waiting to be
  cut off, every row and every flag is back, and every conversation list, thread and lookup
  answers what it answered before.
\<close>

theorem store_survives_restart:
  assumes ok: "codecs_ok cc mc" and crc: "checksum_holds cc" "checksum_holds mc"
    and first: "load_store cc mc dir d0 = (d1, Inr s0)" and run: "run_store cc mc ops (s0, d1) = (s, d)"
    and clean: "\<not> lg_cut_owed (tr_conversations s)" "\<not> lg_cut_owed (tr_messages s)"
    and again: "load_store cc mc dir d = (d2, Inr s2)"
  shows "same_store s s2 \<and> list_conversations s2 = list_conversations s \<and> messages_for s2 = messages_for s \<and>
    conversation_by_alias s2 = conversation_by_alias s \<and>
    conversation_by_contact_address s2 = conversation_by_contact_address s"
proof -
  have inv: "store_inv cc mc dir (s, d)"
    using run_store_inv [OF ok load_store_inv [OF ok first], of ops] unfolding run .
  note same = reload_store [OF ok crc inv clean again]
  note L = lookups_same [OF store_inv_wf [OF ok inv] store_inv_wf [OF ok load_store_inv [OF ok again]] same]
  show ?thesis using same L(1,3,5,6) by (simp add: fun_eq_iff)
qed

section \<open>What no replay and no claim undoes\<close>

text \<open>Rows the node's own chain or this device vouches for.\<close>

definition vouched :: "message_record \<Rightarrow> bool" where
  "vouched m \<longleftrightarrow> mg_direction m = Outbound \<or> mg_provenance m = Own \<or> mg_provenance m = Node_Scanned"

definition keeps :: "string \<Rightarrow> transport_store \<Rightarrow> transport_store \<Rightarrow> bool" where
  "keeps t s s' \<longleftrightarrow> (\<forall>m. msg_rows s t = Some m \<longrightarrow>
     (\<exists>m'. msg_rows s' t = Some m' \<and> (vouched m \<longrightarrow> (\<exists>c. m' = m\<lparr>mg_conversation_id := c\<rparr>))))"

lemma vouched_rehomed [simp]: "vouched (m\<lparr>mg_conversation_id := c\<rparr>) = vouched m"
  by (simp add: vouched_def)

lemma kept_trans:
  assumes "keeps t s1 s2" and "keeps t s2 s3"
  shows "keeps t s1 s3"
  unfolding keeps_def
proof (intro allI impI)
  fix m
  assume "msg_rows s1 t = Some m"
  then obtain m2 where m2: "msg_rows s2 t = Some m2" "vouched m \<longrightarrow> (\<exists>c. m2 = m\<lparr>mg_conversation_id := c\<rparr>)"
    using assms(1) unfolding keeps_def by blast
  then obtain m3 where m3: "msg_rows s3 t = Some m3" "vouched m2 \<longrightarrow> (\<exists>c. m3 = m2\<lparr>mg_conversation_id := c\<rparr>)"
    using assms(2) unfolding keeps_def by blast
  have "\<exists>c. m3 = m\<lparr>mg_conversation_id := c\<rparr>" if v: "vouched m"
  proof -
    obtain c where c: "m2 = m\<lparr>mg_conversation_id := c\<rparr>" using m2(2) v by blast
    then have "vouched m2" using v by simp
    then obtain c' where "m3 = m2\<lparr>mg_conversation_id := c'\<rparr>" using m3(2) by blast
    then have "m3 = m\<lparr>mg_conversation_id := c'\<rparr>" unfolding c by simp
    then show ?thesis by blast
  qed
  then show "\<exists>m'. msg_rows s3 t = Some m' \<and> (vouched m \<longrightarrow> (\<exists>c. m' = m\<lparr>mg_conversation_id := c\<rparr>))"
    using m3(1) by blast
qed

lemma keeps_self: "msg_rows s' t = msg_rows s t \<Longrightarrow> keeps t s s'"
proof -
  have "m = m\<lparr>mg_conversation_id := mg_conversation_id m\<rparr>" for m :: message_record by simp
  then show "msg_rows s' t = msg_rows s t \<Longrightarrow> keeps t s s'" unfolding keeps_def by metis
qed

text \<open>One message operation.\<close>

lemma message_op_keeps:
  assumes ok: "codecs_ok cc mc" and inv: "store_inv cc mc dir (s, d)"
    and run: "run_op mc x (tr_messages s) d = (ml, d', err)"
    and may: "message_write s x \<or> unghosts s x \<or> (\<exists>k. x = Do_Remove k \<and> k \<noteq> t)"
  shows "keeps t s (s\<lparr>tr_messages := ml\<rparr>)"
    and "x \<noteq> Do_Untombstone t \<Longrightarrow> t \<in> msg_flags s \<Longrightarrow> t \<in> set (lg_tombstoned ml)"
proof -
  note did = msg_op(2) [OF ok inv run]
  have key: "key_of mc = mg_txid" using ok by (simp add: codecs_ok_def)
  show "keeps t s (s\<lparr>tr_messages := ml\<rparr>)"
  proof (cases "\<exists>r. x = Do_Upsert r \<and> mg_txid r = t \<and> err = None")
    case True
    then obtain r where r: "x = Do_Upsert r" "mg_txid r = t" "err = None" by blast
    then have rows: "map_of (lg_records ml) t = Some r" using did key by (simp add: did_def records_of_def)
    show ?thesis unfolding keeps_def
    proof (intro allI impI)
      fix m
      assume m: "msg_rows s t = Some m"
      then have "overridable (Some m) r \<or> r = m\<lparr>mg_conversation_id := mg_conversation_id r\<rparr>" using may r by auto
      then have "vouched m \<longrightarrow> (\<exists>c. r = m\<lparr>mg_conversation_id := c\<rparr>)"
        by (auto simp: vouched_def overridable_def)
      then show "\<exists>m'. msg_rows (s\<lparr>tr_messages := ml\<rparr>) t = Some m' \<and> (vouched m \<longrightarrow> (\<exists>c. m' = m\<lparr>mg_conversation_id := c\<rparr>))"
        using rows by simp
    qed
  next
    case False
    then have "map_of (lg_records ml) t = msg_rows s t"
      using did may key by (cases x) (auto simp: did_def records_of_def split: if_splits)
    then show ?thesis by (intro keeps_self) simp
  qed
  show "x \<noteq> Do_Untombstone t \<Longrightarrow> t \<in> msg_flags s \<Longrightarrow> t \<in> set (lg_tombstoned ml)"
    using did may by (cases x) (auto simp: did_def flags_of_def split: if_splits)
qed

lemma moves_keep:
  assumes ok: "codecs_ok cc mc"
  shows "moves cc mc any message_write a b \<Longrightarrow> store_inv cc mc dir a \<Longrightarrow>
    keeps t (fst a) (fst b) \<and> (t \<in> msg_flags (fst a) \<longrightarrow> t \<in> msg_flags (fst b))"
proof (induction rule: moves.induct)
  case (stay a)
  then show ?case by (simp add: keeps_self)
next
  case (conv a s d x cl d' err)
  have "keeps t s (s\<lparr>tr_conversations := cl\<rparr>)" by (rule keeps_self) simp
  then show ?case using conv.IH [OF conv.prems] kept_trans by auto
next
  case (msg a s d x ml d' err)
  note K = message_op_keeps [OF ok moves_inv [OF ok msg.hyps(1) msg.prems] msg.hyps(3), of t]
  have "x \<noteq> Do_Untombstone t" using msg.hyps(2) by auto
  then show ?case using K msg.hyps(2) msg.IH [OF msg.prems] kept_trans by auto
next
  case (copies a s d d')
  then show ?case by simp
next
  case (owed a s d b)
  have "keeps t s (s\<lparr>tr_scrub_owed := b\<rparr>)" by (rule keeps_self) simp
  then show ?case using owed.IH [OF owed.prems] kept_trans by auto
qed

lemma step_keeps:
  assumes ok: "codecs_ok cc mc" and inv: "store_inv cc mc dir (s, d)"
    and x: "x \<noteq> Op_Wipe" "x \<noteq> Op_Remove_Message t" and run: "store_step cc mc x (s, d) = (s', d')"
  shows "keeps t s s' \<and> (x \<noteq> Op_Unghost t \<longrightarrow> t \<in> msg_flags s \<longrightarrow> t \<in> msg_flags s')"
proof -
  consider (gentle) "\<not> forgets x" "\<not> restores x" | (unghost) k where "x = Op_Unghost k"
    | (rm) k where "x = Op_Remove_Message k" "k \<noteq> t" using x by (cases x) auto
  then show ?thesis
  proof cases
    case gentle
    from moves_keep [OF ok step_moves_gentle [OF ok inv this] inv] show ?thesis unfolding run by simp
  next
    case unghost
    obtain ml d1 r where r: "untombstone mc (tr_messages s) d k = (ml, d1, r)" by (metis prod_cases3)
    obtain err where "run_op mc (Do_Untombstone k) (tr_messages s) d = (ml, d1, err)" using run_op_untombstone [OF r] by blast
    note K = message_op_keeps [OF ok inv this, of t]
    have "s' = s\<lparr>tr_messages := ml\<rparr>" using run unghost r by (simp add: untombstone_message_def)
    then show ?thesis using K unghost by auto
  next
    case rm
    obtain ml d1 r where r: "remove mc (tr_messages s) d k = (ml, d1, r)" by (metis prod_cases3)
    obtain err where "run_op mc (Do_Remove k) (tr_messages s) d = (ml, d1, err)" using run_op_remove [OF r] by blast
    note K = message_op_keeps [OF ok inv this, of t]
    have "s' = s\<lparr>tr_messages := ml\<rparr>" using run rm r by (simp add: remove_message_def)
    then show ?thesis using K rm by auto
  qed
qed

lemma run_keeps:
  assumes ok: "codecs_ok cc mc"
  shows "store_inv cc mc dir (s, d) \<Longrightarrow> Op_Wipe \<notin> set ops \<Longrightarrow> Op_Remove_Message t \<notin> set ops \<Longrightarrow>
    run_store cc mc ops (s, d) = (s', d') \<Longrightarrow>
    keeps t s s' \<and> (Op_Unghost t \<notin> set ops \<longrightarrow> t \<in> msg_flags s \<longrightarrow> t \<in> msg_flags s')"
proof (induction ops arbitrary: s d)
  case Nil
  then show ?case by (simp add: run_store_def keeps_self)
next
  case (Cons x ops)
  obtain s1 d1 where step: "store_step cc mc x (s, d) = (s1, d1)" by fastforce
  have x: "x \<noteq> Op_Wipe" "x \<noteq> Op_Remove_Message t" using Cons.prems(2,3) by auto
  note K = step_keeps [OF ok Cons.prems(1) x step]
  have "store_inv cc mc dir (s1, d1)"
    using moves_inv [OF ok step_moves [OF ok Cons.prems(1), of x] Cons.prems(1)] unfolding step .
  moreover have "run_store cc mc ops (s1, d1) = (s', d')" using Cons.prems(4) step by (simp add: run_store_def)
  ultimately have R: "keeps t s1 s' \<and> (Op_Unghost t \<notin> set ops \<longrightarrow> t \<in> msg_flags s1 \<longrightarrow> t \<in> msg_flags s')"
    using Cons.IH Cons.prems(2,3) by simp
  then show ?case using K kept_trans by auto
qed

text \<open>
  C29. What the node or this device vouches for is final. No replay, no claim from a server, no
  merge and no failure changes a stored row that is our own, outbound or scanned by the node in
  anything but the thread it is filed under; only deleting that message or wiping the store
  takes it away.
\<close>

theorem vouched_is_final:
  assumes "codecs_ok cc mc" and "store_inv cc mc dir (s, d)" and "message s t = Some m" and "vouched m"
    and "run_store cc mc ops (s, d) = (s', d')" and "Op_Wipe \<notin> set ops" and "Op_Remove_Message t \<notin> set ops"
  shows "\<exists>c. message s' t = Some (m\<lparr>mg_conversation_id := c\<rparr>)"
  using run_keeps [OF assms(1,2,6,7,5)] assms(3,4) by (auto simp: message_def keeps_def)

text \<open>
  C30. A deleted message stays deleted. A row the user ghosted is kept and kept ghosted by every
  operation but its own restore, its removal and a wipe, so the walk that meets the transaction
  again records nothing: the row is still there to be found a duplicate, and still hidden.
\<close>

theorem deleted_stays_deleted:
  assumes "codecs_ok cc mc" and "store_inv cc mc dir (s, d)"
    and "has_message_txid s (mg_txid m)" and "is_message_tombstoned s (mg_txid m)"
    and "run_store cc mc ops (s, d) = (s', d')" and "Op_Wipe \<notin> set ops" and "Op_Remove_Message (mg_txid m) \<notin> set ops"
    and "Op_Unghost (mg_txid m) \<notin> set ops"
  shows "record_message mc m s' d' = (s', d', Inr False) \<and> is_message_tombstoned s' (mg_txid m)"
  using run_keeps [OF assms(1,2,6,7,5)] assms(3,4,8)
  by (auto simp: has_message_txid_def is_message_tombstoned_def is_tombstoned_def keeps_def record_message_def)

section \<open>Witnesses\<close>

definition scanned_then_claimed :: "store_op list" where
  "scanned_then_claimed = [Op_Record (demo_message ''t'' ''l'' 9 Node_Scanned), Op_Ghost ''t'']"

definition replays :: "store_op list" where
  "replays = [Op_Record (demo_message ''t'' ''l'' 7 Fill_Sourced), Op_Override (demo_message ''t'' ''k'' 7 Fill_Sourced)]"

lemma scanned_run:
  "case demo_run scanned_then_claimed of (s, d) \<Rightarrow>
     message s ''t'' = Some (demo_message ''t'' ''l'' 9 Node_Scanned) \<and> is_message_tombstoned s ''t'' \<and>
     \<not> lg_cut_owed (tr_conversations s) \<and> \<not> lg_cut_owed (tr_messages s)"
  by code_simp

lemma vouched_is_final_witness:
  "\<exists>s d s' d' c. demo_run scanned_then_claimed = (s, d) \<and> run_store demo_cc demo_mc replays (s, d) = (s', d') \<and>
     message s' ''t'' = Some ((demo_message ''t'' ''l'' 9 Node_Scanned)\<lparr>mg_conversation_id := c\<rparr>)"
proof -
  obtain s d where sd: "demo_run scanned_then_claimed = (s, d)" by fastforce
  obtain s' d' where run: "run_store demo_cc demo_mc replays (s, d) = (s', d')" by fastforce
  have inv: "store_inv demo_cc demo_mc demo_dir (s, d)" using demo_run_inv [of scanned_then_claimed] unfolding sd .
  have m: "message s ''t'' = Some (demo_message ''t'' ''l'' 9 Node_Scanned)" using scanned_run unfolding sd prod.case by blast
  have "vouched (demo_message ''t'' ''l'' 9 Node_Scanned)" by (simp add: vouched_def demo_message_def)
  from vouched_is_final [OF demo_codecs(1) inv m this run] obtain c
    where "message s' ''t'' = Some ((demo_message ''t'' ''l'' 9 Node_Scanned)\<lparr>mg_conversation_id := c\<rparr>)"
    by (auto simp: replays_def)
  then show ?thesis using sd run by blast
qed

lemma deleted_stays_deleted_witness:
  "\<exists>s d s' d'. demo_run scanned_then_claimed = (s, d) \<and> run_store demo_cc demo_mc replays (s, d) = (s', d') \<and>
     record_message demo_mc (demo_message ''t'' ''l'' 9 Node_Scanned) s' d' = (s', d', Inr False) \<and> is_message_tombstoned s' ''t''"
proof -
  obtain s d where sd: "demo_run scanned_then_claimed = (s, d)" by fastforce
  obtain s' d' where run: "run_store demo_cc demo_mc replays (s, d) = (s', d')" by fastforce
  let ?m = "demo_message ''t'' ''l'' 9 Node_Scanned"
  have inv: "store_inv demo_cc demo_mc demo_dir (s, d)" using demo_run_inv [of scanned_then_claimed] unfolding sd .
  have t: "mg_txid ?m = ''t''" by (simp add: demo_message_def)
  have "message s ''t'' = Some ?m" "is_message_tombstoned s ''t''" using scanned_run unfolding sd prod.case by blast+
  then have "has_message_txid s (mg_txid ?m)" "is_message_tombstoned s (mg_txid ?m)"
    unfolding t by (simp_all add: has_message_txid_def message_def)
  from deleted_stays_deleted [OF demo_codecs(1) inv this run] show ?thesis
    unfolding t using sd run by (auto simp: replays_def)
qed

text \<open>A load on a device whose checksum gives its known answers.\<close>

definition load_checked :: "'t codec \<Rightarrow> path \<Rightarrow> disk \<Rightarrow> disk \<times> (kv_error + 't log)" where
  "load_checked c p d = (case read_file p d of
     (d, Inl OtherError) \<Rightarrow> (d, Inl (kv_error.Io OtherError))
   | (d, Inl InvalidInput) \<Rightarrow> (d, Inl (kv_error.Io InvalidInput))
   | (d, got) \<Rightarrow> let bs = (case got of Inl _ \<Rightarrow> [] | Inr bs \<Rightarrow> bs) in
       (case replay c (dec_frame c) True bs of Inl e \<Rightarrow> (d, Inl e) | Inr found \<Rightarrow> repaired c p bs found d))"

lemma load_checked: "checksum_holds c \<Longrightarrow> load c p d = load_checked c p d"
  unfolding load_def load_with_v1_steps after_read_def load_checked_def Let_def
  by (auto split: prod.split sum.split io_error.split)

lemma demo_loads:
  "load demo_cc p d = load_checked demo_cc p d" "load demo_mc p d = load_checked demo_mc p d"
  by (simp_all add: load_checked demo_codecs)

lemma empty_load: "load_store demo_cc demo_mc demo_dir empty_disk = (empty_disk, Inr (store_of [] []))"
  unfolding load_store_def demo_loads by code_simp

lemma scanned_reload:
  "case demo_run scanned_then_claimed of (s, d) \<Rightarrow>
     (case load_store demo_cc demo_mc demo_dir d of (d', r) \<Rightarrow> \<not> isl r)"
  unfolding load_store_def demo_loads by code_simp

lemma store_survives_restart_witness:
  "\<exists>s d d2 s2. demo_run scanned_then_claimed = (s, d) \<and> load_store demo_cc demo_mc demo_dir d = (d2, Inr s2) \<and>
     message s2 ''t'' = Some (demo_message ''t'' ''l'' 9 Node_Scanned)"
proof -
  obtain s d where sd: "demo_run scanned_then_claimed = (s, d)" by fastforce
  obtain d2 s2 where ld: "load_store demo_cc demo_mc demo_dir d = (d2, Inr s2)"
    using scanned_reload unfolding sd prod.case by (cases "load_store demo_cc demo_mc demo_dir d"; cases "snd (load_store demo_cc demo_mc demo_dir d)") auto
  have clean: "\<not> lg_cut_owed (tr_conversations s)" "\<not> lg_cut_owed (tr_messages s)"
    and m: "message s ''t'' = Some (demo_message ''t'' ''l'' 9 Node_Scanned)"
    using scanned_run unfolding sd prod.case by blast+
  have "same_store s s2"
    using store_survives_restart [OF demo_codecs empty_load sd [unfolded demo_run_def] clean ld] by blast
  then show ?thesis using sd ld m by (auto simp: same_store_def message_def)
qed

section \<open>Frames of every version\<close>

definition tag_of_source :: "row_source \<Rightarrow> byte" where
  "tag_of_source p = (case p of Unknown_Source \<Rightarrow> 0 | Own \<Rightarrow> 1 | Node_Scanned \<Rightarrow> 2 | Fill_Sourced \<Rightarrow> 3)"

definition tag_of_wire :: "wire_namespace \<Rightarrow> byte" where
  "tag_of_wire w = (case w of CiphMsg \<Rightarrow> 0 | KChat \<Rightarrow> 1)"

lemma tags_read_back [simp]: "source_of_tag (tag_of_source p) = Some p" "wire_of_tag (tag_of_wire w) = Some w"
  by (cases p; simp add: tag_of_source_def source_of_tag_def) (cases w; simp add: tag_of_wire_def wire_of_tag_def)

lemma source_tags: "source_of_tag t \<noteq> None \<longleftrightarrow> t < 4"
  by (auto simp: source_of_tag_def word_less_nat_alt word_unat_eq_iff)

text \<open>
  A stored message reads back whichever version wrote it, and a damaged one never passes for
  an old one. Behind the eight fields every frame has: both tags give back the provenance and
  the namespace, a frame that ends before a tag takes its default, and a byte that is no tag in
  either place fails the whole frame.
\<close>

theorem message_frames_read_back:
  assumes "\<And>rest. head (bs @ rest) = Some (h, rest)"
  shows "deserialize_message head (bs @ [tag_of_source p, tag_of_wire w]) = Some (message_head.extend h (message_record.fields p w), []) \<and>
    deserialize_message head (bs @ [tag_of_source p]) = Some (message_head.extend h (message_record.fields p CiphMsg), []) \<and>
    deserialize_message head bs = Some (message_head.extend h (message_record.fields Unknown_Source CiphMsg), []) \<and>
    (deserialize_message head (bs @ t # rest) = None \<longleftrightarrow> 4 \<le> t \<or> rest \<noteq> [] \<and> wire_of_tag (hd rest) = None)"
proof -
  have bs: "head bs = Some (h, [])" using assms [of "[]"] by simp
  have bad: "source_of_tag t = None \<longleftrightarrow> 4 \<le> t" using source_tags [of t] by (auto simp: not_less)
  have "deserialize_message head (bs @ t # rest) = None \<longleftrightarrow> 4 \<le> t \<or> rest \<noteq> [] \<and> wire_of_tag (hd rest) = None"
    unfolding bad [symmetric] by (cases "source_of_tag t"; cases rest) (auto simp: deserialize_message_def assms trailing_def split: option.splits)
  then show ?thesis by (simp add: deserialize_message_def assms bs trailing_def)
qed

lemma message_frames_read_back_witness:
  "deserialize_message (\<lambda>bs. case bs of [] \<Rightarrow> None | _ # rest \<Rightarrow> Some (message_head.truncate (demo_message ''t'' ''k'' 7 Own), rest)) [9, 2, 1]
     = Some (demo_message ''t'' ''k'' 7 Node_Scanned, [])"
proof -
  let ?h = "message_head.truncate (demo_message ''t'' ''k'' 7 Own)"
  let ?head = "\<lambda>bs. case bs of [] \<Rightarrow> None | _ # rest \<Rightarrow> Some (?h, rest)"
  have "deserialize_message ?head ([9] @ [tag_of_source Node_Scanned, tag_of_wire KChat])
      = Some (message_head.extend ?h (message_record.fields Node_Scanned KChat), [])"
    by (rule message_frames_read_back [THEN conjunct1]) simp
  then show ?thesis
    by (simp add: tag_of_source_def tag_of_wire_def message_head.truncate_def message_head.extend_def message_record.fields_def demo_message_def)
qed

end
