(* ===== verification/Store_Wipe.thy ===== *)
theory Store_Wipe
  imports Store_Runs
begin

text \<open>
  What a wipe leaves on disk: the two logs, empty, and none of the copies or temp files the logs
  may have left beside them.
\<close>

section \<open>Copies\<close>

definition is_copy :: "path \<Rightarrow> path \<Rightarrow> bool" where
  "is_copy p q \<longleftrightarrow> q \<noteq> [] \<and> butlast q = butlast p \<and>
     (starts_with (last q) (last p @ ''.unreadable-'') \<or> starts_with (last q) (''.'' @ last p @ ''.unreadable-''))"

lemma content_hkeys: "content d q \<noteq> None \<longleftrightarrow> q \<in> set (hkeys (files d))"
  by (force simp: content_def map_of_eq_None_iff)

lemma remove_files_gone:
  "remove_files ps d = (d', None) \<Longrightarrow> content d' = (\<lambda>q. if q \<in> set ps then None else content d q)"
proof (induction ps arbitrary: d)
  case (Cons p ps)
  from Cons.prems have "io_try d (\<lambda>_ d. let (d, _) = remove_files ps d in (d, Some OtherError)) (\<lambda>d. remove_files ps (del_file p d)) = (d', None)"
    by simp
  then show ?case
  proof (cases rule: io_tryE)
    case (failed n d1)
    then show ?thesis by (simp add: Let_def split: prod.splits)
  next
    case (ok d1)
    from Cons.IH [OF ok(2)] show ?thesis using ok(1) by (auto simp: fun_eq_iff)
  qed
qed (simp add: fun_eq_iff)

lemma remove_asides_gone:
  assumes p: "lg_path lg \<noteq> []" and run: "remove_asides lg d = (d', Inr n)"
  shows "content d' = (\<lambda>q. if is_copy (lg_path lg) q then None else content d q)"
proof -
  obtain d1 a where as: "asides lg d = (d1, a)" by fastforce
  obtain ps where ps: "a = Inr ps" using run as by (cases a) (simp_all add: remove_asides_def)
  have copies: "(starts_with (last q) (aside_prefix lg) \<or> starts_with (last q) (''.'' @ aside_prefix lg)) \<and> q \<noteq> [] \<and> butlast q = butlast (lg_path lg)
      \<longleftrightarrow> is_copy (lg_path lg) q" for q
    using p by (auto simp: is_copy_def aside_prefix_def log_name_def file_name_def)
  have "content d1 = content d \<and> ps = filter (\<lambda>p. p \<noteq> [] \<and> butlast p = butlast (lg_path lg) \<and>
      (starts_with (last p) (aside_prefix lg) \<or> starts_with (last p) (''.'' @ aside_prefix lg))) (hkeys (files d1))"
    using as p unfolding ps asides_def parent_def by (auto elim!: io_tryE)
  then have "content d1 = content d \<and> set ps = {q \<in> set (hkeys (files d1)). is_copy (lg_path lg) q}"
    unfolding copies [symmetric] set_eq_iff mem_Collect_eq by (simp only: set_filter mem_Collect_eq) blast
  moreover have "remove_files ps d1 = (d', None)"
    using run as ps by (auto simp: remove_asides_def split: prod.splits option.splits)
  from remove_files_gone [OF this] have "content d' = (\<lambda>q. if q \<in> set ps then None else content d1 q)" .
  ultimately have c: "content d' q = (if q \<in> set (hkeys (files d1)) \<and> is_copy (lg_path lg) q then None else content d1 q)"
    and c1: "content d1 = content d" for q by simp_all
  show ?thesis
  proof
    fix q
    show "content d' q = (if is_copy (lg_path lg) q then None else content d q)"
      using content_hkeys [of d1 q] unfolding c c1 by (cases "content d q") simp_all
  qed
qed

lemma wipe_gone:
  assumes "lg_path lg \<noteq> []" and "wipe lg d = (lg', d', Inr u)"
  shows "content d' = (content d)(lg_path lg \<mapsto> [], temp_path (lg_path lg) := None)"
    and "lg' = lg\<lparr>lg_records := [], lg_tombstoned := [], lg_end := 0, lg_cut_owed := False, lg_removed := False\<rparr>"
proof -
  obtain d1 r1 where aw: "atomic_write (lg_path lg) [] d = (d1, r1)" by fastforce
  then have out: "r1 = Inr ()" "d' = d1"
    "lg' = lg\<lparr>lg_records := [], lg_tombstoned := [], lg_end := 0, lg_cut_owed := False, lg_removed := False\<rparr>"
    using assms(2) by (auto simp: wipe_def split: sum.splits)
  then show "lg' = lg\<lparr>lg_records := [], lg_tombstoned := [], lg_end := 0, lg_cut_owed := False, lg_removed := False\<rparr>" by simp
  show "content d' = (content d)(lg_path lg \<mapsto> [], temp_path (lg_path lg) := None)"
    using atomic_write_Inr [OF assms(1)] aw out by simp
qed

section \<open>The wipe\<close>

definition leftover :: "path \<Rightarrow> path \<Rightarrow> bool" where
  "leftover dir q \<longleftrightarrow> is_copy (dir @ [conversations_log]) q \<or> is_copy (dir @ [messages_log]) q \<or>
     q = temp_path (dir @ [conversations_log]) \<or> q = temp_path (dir @ [messages_log])"

lemma leftover_not_log: "\<not> leftover dir (dir @ [conversations_log])" "\<not> leftover dir (dir @ [messages_log])"
  by (simp_all add: leftover_def is_copy_def temp_path_def starts_with_def conversations_log_def messages_log_def)

lemma first_error_None: "first_error [error_of a, error_of b] = None \<longleftrightarrow> \<not> isl a \<and> \<not> isl b"
  by (cases a; cases b) (simp_all add: error_of_def)

lemma wipe_store_gone:
  assumes inv: "store_inv cc mc dir (s, d)" and run: "wipe_store s d = (s', d', Inr rep)" and scrubbed: "\<not> tr_scrub_owed s'"
  shows "rep = wipe_preview s" and "conversations s' = []" and "messages s' = []"
    and "lg_tombstoned (tr_conversations s') = []" and "lg_tombstoned (tr_messages s') = []"
    and "content d' = (\<lambda>q. if q = dir @ [conversations_log] \<or> q = dir @ [messages_log] then Some []
      else if leftover dir q then None else content d q)"
proof -
  note D = store_invD(1,2) [OF inv]
  have p: "lg_path (tr_messages s) \<noteq> []" "lg_path (tr_conversations s) \<noteq> []" using D by simp_all
  obtain d1 ra where a: "remove_asides (tr_messages s) d = (d1, ra)" by fastforce
  obtain d2 rb where b: "remove_asides (tr_conversations s) d1 = (d2, rb)" by fastforce
  define s2 where "s2 = (case first_error [error_of ra, error_of rb] of Some _ \<Rightarrow> s\<lparr>tr_scrub_owed := True\<rparr> | None \<Rightarrow> s)"
  have logs: "tr_messages s2 = tr_messages s" "tr_conversations s2 = tr_conversations s" by (simp_all add: s2_def split: option.split)
  obtain ml d3 rm where m: "wipe (tr_messages s) d2 = (ml, d3, rm)" by (metis prod_cases3)
  obtain cl d4 rc where c: "wipe (tr_conversations s) d3 = (cl, d4, rc)" by (metis prod_cases3)
  have "wipe_store s d = (case rm of Inl e \<Rightarrow> (s2\<lparr>tr_messages := ml\<rparr>, d3, Inl e) | Inr _ \<Rightarrow>
      (case rc of Inl e \<Rightarrow> (s2\<lparr>tr_messages := ml, tr_conversations := cl\<rparr>, d4, Inl e)
       | Inr _ \<Rightarrow> (s2\<lparr>tr_messages := ml, tr_conversations := cl\<rparr>, d4, Inr (wipe_preview s))))"
  proof -
    have m2: "wipe (tr_messages s2) d2 = (ml, d3, rm)" using m by (simp only: logs)
    have c2: "wipe (tr_conversations (s2\<lparr>tr_messages := ml\<rparr>)) d3 = (cl, d4, rc)" using c by (simp add: logs)
    show ?thesis unfolding wipe_store_def Let_def a b prod.case s2_def [symmetric] m2 c2 by simp
  qed
  with run have out: "rm = Inr ()" "rc = Inr ()" "s' = s2\<lparr>tr_messages := ml, tr_conversations := cl\<rparr>" "d' = d4" "rep = wipe_preview s"
    by (auto split: sum.splits)
  have "tr_scrub_owed s2 = tr_scrub_owed s'" unfolding out(3) by simp
  then have "first_error [error_of ra, error_of rb] = None" using scrubbed by (auto simp: s2_def split: option.splits)
  then obtain na nb where ok: "ra = Inr na" "rb = Inr nb" by (cases ra; cases rb) (simp_all add: error_of_def)
  note wm = wipe_gone [OF p(1) m [unfolded out(1)]] and wc = wipe_gone [OF p(2) c [unfolded out(2)]]
  have d2: "content d2 = (\<lambda>q. if is_copy (dir @ [conversations_log]) q \<or> is_copy (dir @ [messages_log]) q then None else content d q)"
    using remove_asides_gone [OF p(1) a [unfolded ok(1)]] remove_asides_gone [OF p(2) b [unfolded ok(2)]] unfolding D by (auto simp: fun_eq_iff)
  have temps: "temp_path (dir @ [n]) \<noteq> dir @ [n']" if "n' = conversations_log \<or> n' = messages_log" for n n'
    using that by (auto simp: temp_path_def conversations_log_def messages_log_def)
  have "content d4 q = (if q = dir @ [conversations_log] \<or> q = dir @ [messages_log] then Some []
      else if leftover dir q then None else content d q)" for q
  proof -
    define c m where cm: "c = dir @ [conversations_log]" "m = dir @ [messages_log]"
    have ne: "temp_path c \<noteq> c" "temp_path m \<noteq> c" "temp_path c \<noteq> m" "temp_path m \<noteq> m" unfolding cm using temps by blast+
    show ?thesis unfolding wc(1) wm(1) d2 D leftover_def cm [symmetric] fun_upd_def using ne by simp
  qed
  then show "content d' = (\<lambda>q. if q = dir @ [conversations_log] \<or> q = dir @ [messages_log] then Some []
      else if leftover dir q then None else content d q)" unfolding out(4) by blast
  show "rep = wipe_preview s" by (rule out(5))
  show "conversations s' = []" "messages s' = []" "lg_tombstoned (tr_conversations s') = []" "lg_tombstoned (tr_messages s') = []"
    unfolding out(3) wm(2) wc(2) by simp_all
qed

text \<open>
  C31. A wipe leaves nothing behind. When it reports success with no scrub owed, the store is
  empty, the report counts what was there, both logs are empty files, no copy set aside and no
  temp file of either is left, and every other file on the device is as it was.
\<close>

theorem wipe_leaves_nothing:
  assumes "store_inv cc mc dir (s, d)" and "wipe_store s d = (s', d', Inr rep)" and "\<not> tr_scrub_owed s'"
  shows "rep = wipe_preview s \<and> wipe_preview s' = \<lparr>wr_conversations = 0, wr_messages = 0, wr_pending_bonds = 0\<rparr> \<and>
    list_conversations s' = [] \<and> messages_for s' = (\<lambda>_. []) \<and>
    content d' = (\<lambda>q. if q = dir @ [conversations_log] \<or> q = dir @ [messages_log] then Some []
      else if leftover dir q then None else content d q)"
proof -
  note W = wipe_store_gone [OF assms]
  have "wipe_preview s' = \<lparr>wr_conversations = 0, wr_messages = 0, wr_pending_bonds = 0\<rparr>" "list_conversations s' = []"
    "messages_for s' = (\<lambda>_. [])"
    by (simp_all add: wipe_preview_def list_conversations_def messages_for_def W(2,3) fun_eq_iff)
  then show ?thesis using W(1,6) by blast
qed

text \<open>A store with a copy set aside of an earlier log.\<close>

definition aside_of_messages :: path where
  "aside_of_messages = demo_dir @ [messages_log @ ''.unreadable-8-1-0'']"

definition disk_with_copy :: disk where
  "disk_with_copy = put_file aside_of_messages [7] (snd (demo_run two_rows))"

lemma two_rows_wiped:
  "case wipe_store (fst (demo_run two_rows)) disk_with_copy of (s', d', r) \<Rightarrow>
     r = Inr \<lparr>wr_conversations = 2, wr_messages = 1, wr_pending_bonds = 1\<rparr> \<and> \<not> tr_scrub_owed s'"
  by code_simp

lemma wipe_leaves_nothing_witness:
  "\<exists>s' d' rep. wipe_store (fst (demo_run two_rows)) disk_with_copy = (s', d', Inr rep) \<and> wr_messages rep = 1 \<and>
     content disk_with_copy aside_of_messages = Some [7] \<and> content d' aside_of_messages = None"
proof -
  let ?s = "fst (demo_run two_rows)" and ?d = "snd (demo_run two_rows)"
  obtain s' d' r where run: "wipe_store ?s disk_with_copy = (s', d', r)" by (metis prod_cases3)
  have r: "r = Inr \<lparr>wr_conversations = 2, wr_messages = 1, wr_pending_bonds = 1\<rparr>" and owed: "\<not> tr_scrub_owed s'"
    using two_rows_wiped unfolding run prod.case by blast+
  obtain s d where sd: "demo_run two_rows = (s, d)" by fastforce
  have inv: "store_inv demo_cc demo_mc demo_dir (?s, ?d)" using demo_run_inv [of two_rows] unfolding sd by simp
  have "aside_of_messages \<noteq> demo_dir @ [conversations_log]" "aside_of_messages \<noteq> demo_dir @ [messages_log]"
    by (simp_all add: aside_of_messages_def messages_log_def conversations_log_def)
  then have same: "content disk_with_copy (demo_dir @ [conversations_log]) = content ?d (demo_dir @ [conversations_log])"
    "content disk_with_copy (demo_dir @ [messages_log]) = content ?d (demo_dir @ [messages_log])" by (simp_all add: disk_with_copy_def)
  note D = store_invD [OF inv]
  have "log_inv demo_cc (tr_conversations ?s) disk_with_copy" "log_inv demo_mc (tr_messages ?s) disk_with_copy"
    using log_inv_own [OF D(3)] log_inv_own [OF D(4)] same unfolding D(1,2) by simp_all
  then have "store_inv demo_cc demo_mc demo_dir (?s, disk_with_copy)" using D by (simp add: store_inv_def)
  from wipe_leaves_nothing [OF this run [unfolded r] owed]
  have gone: "content d' aside_of_messages = None"
    by (simp add: leftover_def is_copy_def aside_of_messages_def starts_with_def conversations_log_def messages_log_def)
  have "content disk_with_copy aside_of_messages = Some [7]" by (simp add: disk_with_copy_def)
  then show ?thesis using run r gone by auto
qed

end
