(* ===== verification/Store_Merge.thy ===== *)
theory Store_Merge
  imports Store_Ops
begin

text \<open>
  The merge of the rows held with one contact: which messages and rows it moves, wherever it
  stops, and what the kept row takes from the rows folded into it.
\<close>

section \<open>Messages moved to another thread\<close>

definition rehomed :: "string set \<Rightarrow> string \<Rightarrow> (string \<Rightarrow> message_record option) \<Rightarrow> string \<Rightarrow> message_record option" where
  "rehomed T h R t = (if t \<in> T then map_option (\<lambda>m. m\<lparr>mg_conversation_id := h\<rparr>) (R t) else R t)"

lemma rehomed_empty [simp]: "rehomed {} h R = R"
  by (simp add: rehomed_def fun_eq_iff)

lemma rehomed_rehomed: "rehomed T h (rehomed S h R) = rehomed (S \<union> T) h R"
  by (simp add: rehomed_def fun_eq_iff option.map_comp comp_def)

lemma message_update_same [simp]: "m\<lparr>mg_conversation_id := mg_conversation_id m\<rparr> = m"
  by simp

text \<open>The message side of a move: rows rehomed, flags and conversations untouched.\<close>

definition moved :: "string set \<Rightarrow> string \<Rightarrow> transport_store \<Rightarrow> transport_store \<Rightarrow> bool" where
  "moved T h s s' \<longleftrightarrow> msg_rows s' = rehomed T h (msg_rows s) \<and> msg_flags s' = msg_flags s \<and>
     tr_conversations s' = tr_conversations s"

lemma rehome_message_result:
  assumes ok: "codecs_ok cc mc" and inv: "store_inv cc mc dir (s, d)" and run: "rehome_message mc t h s d = (s', d', r)"
  shows "if isl r then moved {} h s s' else moved {t} h s s'"
proof (cases "hget (messages s) t")
  case None
  then show ?thesis using run by (auto simp: rehome_message_def moved_def rehomed_def fun_eq_iff)
next
  case (Some m)
  then have t: "mg_txid m = t" using store_invD(8) [OF inv] ok by (simp add: log_wf_def codecs_ok_def)
  show ?thesis
  proof (cases "mg_conversation_id m = h")
    case True
    then have "s' = s" "r = Inr False" using run Some by (simp_all add: rehome_message_def)
    then show ?thesis using True Some by (auto simp: moved_def rehomed_def fun_eq_iff)
  next
    case False
    let ?m = "m\<lparr>mg_conversation_id := h\<rparr>"
    obtain ml d1 u where up: "upsert mc (tr_messages s) d t ?m = (ml, d1, u)" by (metis prod_cases3)
    then have out: "s' = s\<lparr>tr_messages := ml\<rparr>" "isl r = isl u"
      using run Some False by (auto simp: rehome_message_def split: sum.splits)
    have key: "key_of mc ?m = t" using ok t by (simp add: codecs_ok_def)
    have "upsert mc (tr_messages s) d (key_of mc ?m) ?m = (ml, d1, u)" using up unfolding key .
    from run_op_upsert [OF this] obtain err where
      op: "run_op mc (Do_Upsert ?m) (tr_messages s) d = (ml, d1, err)" "err = None \<longleftrightarrow> \<not> isl u" by blast
    from msg_op(2) [OF ok inv op(1)] show ?thesis
      unfolding out did_def op(2) using key Some
      by (auto simp: moved_def rehomed_def records_of_def flags_of_def fun_eq_iff)
  qed
qed

lemma moved_trans: "moved S h s s1 \<Longrightarrow> moved T h s1 s2 \<Longrightarrow> moved (S \<union> T) h s s2"
  by (simp add: moved_def rehomed_rehomed)

lemma rehome_all_result:
  assumes ok: "codecs_ok cc mc"
  shows "rehome_all mc h ts s d n = (s', d', r) \<Longrightarrow> store_inv cc mc dir (s, d) \<Longrightarrow>
    \<exists>T \<subseteq> set ts. moved T h s s' \<and> (\<not> isl r \<longrightarrow> T = set ts)"
proof (induction ts arbitrary: s d n)
  case Nil
  then show ?case by (auto simp: moved_def)
next
  case (Cons t ts)
  obtain s1 d1 r1 where re: "rehome_message mc t h s d = (s1, d1, r1)" by (metis prod_cases3)
  note res = rehome_message_result [OF ok Cons.prems(2) re]
  have inv1: "store_inv cc mc dir (s1, d1)"
    by (rule moves_inv [OF ok rehome_message_moves [OF ok Cons.prems(2) re, where C = any] Cons.prems(2)])
  show ?case
  proof (cases r1)
    case (Inl e)
    then show ?thesis using Cons.prems re res by (intro exI [of _ "{}"]) auto
  next
    case (Inr b)
    then have "rehome_all mc h ts s1 d1 (if b then n + 1 else n) = (s', d', r)" using Cons.prems re by simp
    from Cons.IH [OF this inv1] obtain T where "T \<subseteq> set ts" "moved T h s1 s'" "\<not> isl r \<longrightarrow> T = set ts" by blast
    then show ?thesis using moved_trans [of "{t}" h s s1 T s'] res Inr by (intro exI [of _ "insert t T"]) auto
  qed
qed

section \<open>Rows folded behind their messages\<close>

definition on_rows :: "transport_store \<Rightarrow> string set \<Rightarrow> string set" where
  "on_rows s ids = {t. \<exists>m. msg_rows s t = Some m \<and> mg_conversation_id m \<in> ids}"

definition folded :: "string set \<Rightarrow> string set \<Rightarrow> string \<Rightarrow> transport_store \<Rightarrow> transport_store \<Rightarrow> bool" where
  "folded D T h s s' \<longleftrightarrow> msg_rows s' = rehomed T h (msg_rows s) \<and> msg_flags s' = msg_flags s \<and>
     conv_rows s' = conv_rows s |` (- D) \<and> conv_flags s' = conv_flags s - D"

lemma wf_message:
  assumes "store_wf s"
  shows "msg_rows s t = Some m \<Longrightarrow> mg_txid m = t" and "m \<in> set (hvals (messages s)) \<longleftrightarrow> msg_rows s (mg_txid m) = Some m"
proof -
  have keys: "\<forall>p \<in> set (messages s). mg_txid (snd p) = fst p" and ok: "hmap_ok (messages s)"
    using assms by (auto simp: store_wf_def list_all_iff)
  show key: "msg_rows s t = Some m \<Longrightarrow> mg_txid m = t" for t m using keys map_of_SomeD by fastforce
  show "m \<in> set (hvals (messages s)) \<longleftrightarrow> msg_rows s (mg_txid m) = Some m"
  proof
    assume "m \<in> set (hvals (messages s))"
    then obtain t where "(t, m) \<in> set (messages s)" by auto
    then show "msg_rows s (mg_txid m) = Some m" using hmap_ok_mem [OF ok] key by metis
  next
    assume "msg_rows s (mg_txid m) = Some m"
    from map_of_SomeD [OF this] show "m \<in> set (hvals (messages s))" by force
  qed
qed

lemma wf_conversation:
  assumes "store_wf s"
  shows "conv_rows s k = Some c \<Longrightarrow> cv_id c = k" and "c \<in> set (hvals (conversations s)) \<longleftrightarrow> conv_rows s (cv_id c) = Some c"
proof -
  have keys: "\<forall>p \<in> set (conversations s). cv_id (snd p) = fst p" and ok: "hmap_ok (conversations s)"
    using assms by (auto simp: store_wf_def list_all_iff)
  show key: "conv_rows s k = Some c \<Longrightarrow> cv_id c = k" for k c using keys map_of_SomeD by fastforce
  show "c \<in> set (hvals (conversations s)) \<longleftrightarrow> conv_rows s (cv_id c) = Some c"
  proof
    assume "c \<in> set (hvals (conversations s))"
    then obtain k where "(k, c) \<in> set (conversations s)" by auto
    then show "conv_rows s (cv_id c) = Some c" using hmap_ok_mem [OF ok] key by metis
  next
    assume "conv_rows s (cv_id c) = Some c"
    from map_of_SomeD [OF this] show "c \<in> set (hvals (conversations s))" by force
  qed
qed

lemma thread_txids:
  assumes "store_wf s"
  shows "set (map mg_txid (filter (\<lambda>m. mg_conversation_id m = k) (hvals (messages s)))) = on_rows s {k}"
proof (intro equalityI subsetI)
  fix t
  assume "t \<in> set (map mg_txid (filter (\<lambda>m. mg_conversation_id m = k) (hvals (messages s))))"
  then obtain m where "m \<in> set (hvals (messages s))" "mg_conversation_id m = k" "t = mg_txid m"
    unfolding set_map set_filter by blast
  then show "t \<in> on_rows s {k}" using wf_message(2) [OF assms] by (auto simp: on_rows_def)
next
  fix t
  assume "t \<in> on_rows s {k}"
  then obtain m where m: "msg_rows s t = Some m" "mg_conversation_id m = k" by (auto simp: on_rows_def)
  then have "mg_txid m = t" "m \<in> set (hvals (messages s))" using wf_message [OF assms] by auto
  then show "t \<in> set (map mg_txid (filter (\<lambda>m. mg_conversation_id m = k) (hvals (messages s))))" using m by force
qed

lemma restrict_minus_insert: "(R(k := None)) |` (- D) = R |` (- insert k D)"
  by (auto simp: restrict_map_def fun_eq_iff)

lemma fold_rows_result:
  assumes ok: "codecs_ok cc mc"
  shows "fold_rows cc mc h dups s d rep = (s', d', r) \<Longrightarrow> store_inv cc mc dir (s, d) \<Longrightarrow>
    distinct (map cv_id dups) \<Longrightarrow> h \<notin> set (map cv_id dups) \<Longrightarrow> set (map cv_id dups) \<subseteq> dom (conv_rows s) \<Longrightarrow>
    \<exists>D T. D \<subseteq> set (map cv_id dups) \<and> on_rows s D \<subseteq> T \<and> T \<subseteq> on_rows s (set (map cv_id dups)) \<and>
      folded D T h s s' \<and> (\<not> isl r \<longrightarrow> D = set (map cv_id dups))"
proof (induction dups arbitrary: s d rep)
  case Nil
  then show ?case by (intro exI [of _ "{}"]) (auto simp: folded_def on_rows_def restrict_map_def fun_eq_iff)
next
  case (Cons dup dups)
  let ?ts = "map mg_txid (filter (\<lambda>m. mg_conversation_id m = cv_id dup) (hvals (messages s)))"
  let ?k = "cv_id dup" and ?ids = "set (map cv_id dups)"
  have wf: "store_wf s" by (rule store_inv_wf [OF ok Cons.prems(2)])
  have ts: "set ?ts = on_rows s {?k}"
    by (rule thread_txids [OF wf])
  obtain s1 d1 r1 where re: "rehome_all mc h ?ts s d (mr_messages_rehomed rep) = (s1, d1, r1)" by (metis prod_cases3)
  note inv1 = moves_inv [OF ok rehome_all_moves [OF ok re Cons.prems(2), where C = any] Cons.prems(2)]
  from rehome_all_result [OF ok re Cons.prems(2)] obtain T1
    where T1: "T1 \<subseteq> on_rows s {?k}" "moved T1 h s s1" "\<not> isl r1 \<longrightarrow> T1 = on_rows s {?k}" unfolding ts by blast
  have stop: "\<exists>D T. D \<subseteq> set (map cv_id (dup # dups)) \<and> on_rows s D \<subseteq> T \<and> T \<subseteq> on_rows s (set (map cv_id (dup # dups))) \<and>
      folded D T h s s2 \<and> (\<not> isl (Inl e :: kv_error + contact_merge_report) \<longrightarrow> D = set (map cv_id (dup # dups)))"
    if "msg_rows s2 = msg_rows s1" "msg_flags s2 = msg_flags s1" "conv_rows s2 = conv_rows s" "conv_flags s2 = conv_flags s" for s2 e
    using that T1 by (intro exI [of _ "{}"] exI [of _ T1]) (auto simp: folded_def moved_def on_rows_def)
  show ?case
  proof (cases r1)
    case (Inl e)
    then have "s' = s1" "r = Inl e" using Cons.prems(1) re by (simp_all add: Let_def)
    then show ?thesis using stop [of s1 e] T1(2) by (simp add: moved_def)
  next
    case r1: (Inr n)
    then have T1_all: "T1 = on_rows s {?k}" using T1(3) by simp
    obtain cl d2 r2 where rm: "remove cc (tr_conversations s1) d1 ?k = (cl, d2, r2)" by (metis prod_cases3)
    obtain err where op: "run_op cc (Do_Remove ?k) (tr_conversations s1) d1 = (cl, d2, err)" "err = None \<longleftrightarrow> \<not> isl r2"
      using run_op_remove [OF rm] by blast
    note inv2 = conv_op(1) [OF ok inv1 op(1)] and did2 = conv_op(2) [OF ok inv1 op(1)]
    let ?s2 = "s1\<lparr>tr_conversations := cl\<rparr>"
    show ?thesis
    proof (cases r2)
      case (Inl e)
      then have "s' = ?s2" "r = Inl e" using Cons.prems(1) re r1 rm by (simp_all add: Let_def)
      moreover have "records_of cl = records_of (tr_conversations s)" "flags_of cl = flags_of (tr_conversations s)"
        using did2 T1(2) op(2) Inl by (simp_all add: did_def moved_def)
      ultimately show ?thesis using stop [of ?s2 e] by (simp add: records_of_def flags_of_def)
    next
      case (Inr u)
      have present: "conv_rows s ?k \<noteq> None" using Cons.prems(5) by auto
      have rows2: "conv_rows ?s2 = (conv_rows s)(?k := None)" "conv_flags ?s2 = conv_flags s - {?k}"
        using did2 T1(2) op(2) Inr present by (auto simp: did_def moved_def records_of_def flags_of_def)
      have msgs2: "msg_rows ?s2 = rehomed T1 h (msg_rows s)" "msg_flags ?s2 = msg_flags s" using T1(2) by (simp_all add: moved_def)
      have ids: "distinct (map cv_id dups)" "h \<notin> ?ids" "?k \<notin> ?ids" using Cons.prems(3,4) by auto
      have "?ids \<subseteq> dom (conv_rows s)" using Cons.prems(5) by simp
      then have "?ids \<subseteq> dom (conv_rows s) - {?k}" using ids(3) by blast
      then have "?ids \<subseteq> dom (conv_rows ?s2)" unfolding rows2(1) by simp
      note apart = this
      have fo: "fold_rows cc mc h dups ?s2 d2 (rep\<lparr>mr_messages_rehomed := n, mr_rows_folded := mr_rows_folded rep + 1\<rparr>) = (s', d', r)"
        using Cons.prems(1) re r1 rm Inr by (simp add: Let_def)
      from Cons.IH [OF fo inv2 ids(1,2) apart] obtain D T where D: "D \<subseteq> ?ids" "on_rows ?s2 D \<subseteq> T" "T \<subseteq> on_rows ?s2 ?ids"
        "folded D T h ?s2 s'" "\<not> isl r \<longrightarrow> D = ?ids" by blast
      have same: "on_rows ?s2 X = on_rows s X" if "X \<subseteq> ?ids" for X
      proof -
        have "\<exists>m. msg_rows s t = Some m \<and> mg_conversation_id m \<in> X" if "t \<in> on_rows ?s2 X" for t
          using that \<open>X \<subseteq> ?ids\<close> ids(2) unfolding on_rows_def msgs2 rehomed_def by (auto split: if_splits)
        moreover have "t \<in> on_rows ?s2 X" if "msg_rows s t = Some m" "mg_conversation_id m \<in> X" for t m
        proof -
          have "t \<notin> T1" using that \<open>X \<subseteq> ?ids\<close> ids(3) unfolding T1_all on_rows_def by auto
          then show ?thesis using that unfolding on_rows_def msgs2 rehomed_def by auto
        qed
        ultimately show ?thesis by (auto simp: on_rows_def)
      qed
      have union: "on_rows s (insert k X) = on_rows s {k} \<union> on_rows s X" for k X by (auto simp: on_rows_def)
      have "folded (insert ?k D) (T1 \<union> T) h s s'"
      proof -
        have "conv_rows s' = conv_rows s |` (- insert ?k D)" "conv_flags s' = conv_flags s - insert ?k D"
          using D(4) rows2 unfolding folded_def by (simp only: restrict_minus_insert, blast)
        then show ?thesis using D(4) msgs2 by (simp add: folded_def rehomed_rehomed)
      qed
      moreover have "on_rows s (insert ?k D) \<subseteq> T1 \<union> T"
        unfolding union [of ?k D] T1_all using D(2) unfolding same [OF D(1)] by blast
      moreover have "T1 \<union> T \<subseteq> on_rows s (insert ?k ?ids)"
        unfolding union [of ?k ?ids] T1_all using D(3) unfolding same [OF subset_refl] by blast
      ultimately show ?thesis
        using D(1,5) by (intro exI [of _ "insert ?k D"] exI [of _ "T1 \<union> T"]) auto
    qed
  qed
qed

end
