(* ===== verification/Store_Merge_Host.thy ===== *)
theory Store_Merge_Host
  imports Store_Merge
begin

text \<open>
  What the kept row of a merge holds. The code walks the folded rows once and overwrites the
  kept row as it goes; the reference picks each field by its own rule, and the two are equal.
\<close>

section \<open>The latest of some rows\<close>

text \<open>The first of the rows whose alias was announced last.\<close>

definition by_announced :: "transport_store \<Rightarrow> message_direction \<Rightarrow> conversation_record \<Rightarrow> conversation_record \<Rightarrow> ordering" where
  "by_announced s dir a b = cmp (announced_at s a dir) (announced_at s b dir)"

definition latest :: "transport_store \<Rightarrow> message_direction \<Rightarrow> conversation_record list \<Rightarrow> conversation_record option" where
  "latest s dir rows = max_by (by_announced s dir) (rev rows)"

lemma latest_Nil [simp]: "latest s dir [] = None"
  by (simp add: latest_def)

lemma best_Cons:
  "max_by (by_announced s dir) (x # xs) = Some (case max_by (by_announced s dir) xs of None \<Rightarrow> x
     | Some b \<Rightarrow> if announced_at s b dir < announced_at s x dir then x else b)"
proof (induction xs rule: rev_induct)
  case (snoc y ys)
  have greater: "by_announced s dir a b = Greater \<longleftrightarrow> announced_at s b dir < announced_at s a dir" for a b
    by (simp add: by_announced_def)
  have "max_by (by_announced s dir) (x # ys @ [y]) = max_by (by_announced s dir) ((x # ys) @ [y])" by simp
  then show ?case
    unfolding max_by_snoc greater snoc.IH by (cases "max_by (by_announced s dir) ys") auto
qed simp

lemma latest_snoc:
  "latest s dir (rows @ [x]) = Some (case latest s dir rows of None \<Rightarrow> x
     | Some b \<Rightarrow> if announced_at s b dir < announced_at s x dir then x else b)"
  unfolding latest_def by (simp only: rev_append rev.simps append.simps best_Cons)

section \<open>The reference\<close>

abbreviation with_theirs :: "conversation_record list \<Rightarrow> conversation_record list" where
  "with_theirs \<equiv> filter (\<lambda>c. cv_their_alias c \<noteq> None)"

abbreviation with_mine :: "conversation_record list \<Rightarrow> conversation_record list" where
  "with_mine \<equiv> filter (\<lambda>c. cv_my_alias c \<noteq> [])"

definition gathered :: "transport_store \<Rightarrow> conversation_record \<Rightarrow> conversation_record list \<Rightarrow> conversation_record" where
  "gathered s host dups = host\<lparr>
     cv_my_alias := (case latest s Outbound (with_mine (host # dups)) of None \<Rightarrow> [] | Some c \<Rightarrow> cv_my_alias c),
     cv_their_alias := (case latest s Inbound (with_theirs (host # dups)) of None \<Rightarrow> None | Some c \<Rightarrow> cv_their_alias c),
     cv_bound_branch := (case latest s Inbound (with_theirs (host # dups)) of None \<Rightarrow> cv_bound_branch host | Some c \<Rightarrow> cv_bound_branch c),
     cv_bound_index := (case latest s Inbound (with_theirs (host # dups)) of None \<Rightarrow> cv_bound_index host | Some c \<Rightarrow> cv_bound_index c),
     cv_handshake_txid := (case filter (\<lambda>c. cv_handshake_txid c \<noteq> None) (host # dups) of [] \<Rightarrow> None | c # _ \<Rightarrow> cv_handshake_txid c)\<rparr>"

definition merged_spec :: "transport_store \<Rightarrow> conversation_record \<Rightarrow> conversation_record list \<Rightarrow> conversation_record" where
  "merged_spec s host dups =
     (let h = (gathered s host dups)\<lparr>
            cv_created_unix_ms := Min (set (map cv_created_unix_ms (host # dups))),
            cv_last_activity_unix_ms := Max (set (map cv_last_activity_unix_ms (host # dups)))\<rparr>
      in if cv_status host \<noteq> PendingInbound \<and> list_ex (\<lambda>c. cv_my_alias c \<noteq> []) (host # dups)
            \<and> list_ex (\<lambda>c. cv_their_alias c \<noteq> None) (host # dups)
         then h\<lparr>cv_status := Active\<rparr> else h)"

section \<open>One pass gathers it\<close>

text \<open>The steps of one folded row.\<close>

definition take_theirs :: "transport_store \<Rightarrow> conversation_record \<Rightarrow> merging \<Rightarrow> merging" where
  "take_theirs s x m = (case cv_their_alias x of None \<Rightarrow> m | Some alias \<Rightarrow>
     if cv_their_alias (mn_host m) = None \<or> announced_at s x Inbound > mn_theirs_at m
     then m\<lparr>mn_host := (mn_host m)\<lparr>cv_their_alias := Some alias,
              cv_bound_branch := cv_bound_branch x, cv_bound_index := cv_bound_index x\<rparr>,
            mn_theirs_at := announced_at s x Inbound\<rparr>
     else m)"

definition take_mine :: "transport_store \<Rightarrow> conversation_record \<Rightarrow> merging \<Rightarrow> merging" where
  "take_mine s x m =
     (if cv_my_alias x \<noteq> [] \<and> (cv_my_alias (mn_host m) = [] \<or> announced_at s x Outbound > mn_mine_at m)
      then m\<lparr>mn_host := (mn_host m)\<lparr>cv_my_alias := cv_my_alias x\<rparr>, mn_mine_at := announced_at s x Outbound\<rparr>
      else m)"

definition take_shake :: "conversation_record \<Rightarrow> merging \<Rightarrow> merging" where
  "take_shake x m =
     (if cv_handshake_txid (mn_host m) = None
      then m\<lparr>mn_host := (mn_host m)\<lparr>cv_handshake_txid := cv_handshake_txid x\<rparr>\<rparr> else m)"

definition take_times :: "conversation_record \<Rightarrow> merging \<Rightarrow> merging" where
  "take_times x m = m\<lparr>mn_created := min (mn_created m) (cv_created_unix_ms x),
     mn_last := max (mn_last m) (cv_last_activity_unix_ms x)\<rparr>"

lemma absorb_steps: "absorb s m x = take_times x (take_shake x (take_mine s x (take_theirs s x m)))"
  unfolding absorb_def Let_def take_times_def take_shake_def take_mine_def take_theirs_def ..

lemma latest_None [simp]: "latest s dir rows = None \<longleftrightarrow> rows = []"
  by (simp add: latest_def)

lemma latest_in: "latest s dir rows = Some c \<Longrightarrow> c \<in> set rows"
  unfolding latest_def using max_by_in by fastforce

lemma latest_one [simp]: "latest s dir [x] = Some x"
  using latest_snoc [of s dir "[]" x] by simp

lemma latest_filter_snoc:
  "latest s dir (filter P (rows @ [x])) = (if P x then Some (case latest s dir (filter P rows) of None \<Rightarrow> x
     | Some b \<Rightarrow> if announced_at s b dir < announced_at s x dir then x else b) else latest s dir (filter P rows))"
  by (simp add: latest_snoc)

lemma latest_filter:
  assumes "latest s dir (filter P rows) = Some c"
  shows "P c"
  using latest_in [OF assms] by simp

text \<open>Each group of fields keeps to its rule, and no step touches another's fields.\<close>

definition theirs_inv :: "transport_store \<Rightarrow> conversation_record \<Rightarrow> conversation_record list \<Rightarrow> merging \<Rightarrow> bool" where
  "theirs_inv s host rows m \<longleftrightarrow> (case latest s Inbound (with_theirs rows) of
     None \<Rightarrow> cv_their_alias (mn_host m) = None \<and>
       cv_bound_branch (mn_host m) = cv_bound_branch host \<and> cv_bound_index (mn_host m) = cv_bound_index host
   | Some c \<Rightarrow> cv_their_alias (mn_host m) = cv_their_alias c \<and> cv_bound_branch (mn_host m) = cv_bound_branch c \<and>
       cv_bound_index (mn_host m) = cv_bound_index c \<and> mn_theirs_at m = announced_at s c Inbound)"

definition mine_inv :: "transport_store \<Rightarrow> conversation_record list \<Rightarrow> merging \<Rightarrow> bool" where
  "mine_inv s rows m \<longleftrightarrow> (case latest s Outbound (with_mine rows) of
     None \<Rightarrow> cv_my_alias (mn_host m) = []
   | Some c \<Rightarrow> cv_my_alias (mn_host m) = cv_my_alias c \<and> mn_mine_at m = announced_at s c Outbound)"

definition rest_inv :: "conversation_record \<Rightarrow> conversation_record list \<Rightarrow> merging \<Rightarrow> bool" where
  "rest_inv host rows m \<longleftrightarrow>
     cv_handshake_txid (mn_host m) = (case filter (\<lambda>c. cv_handshake_txid c \<noteq> None) rows of [] \<Rightarrow> None | c # _ \<Rightarrow> cv_handshake_txid c) \<and>
     mn_created m = Min (set (map cv_created_unix_ms rows)) \<and> mn_last m = Max (set (map cv_last_activity_unix_ms rows)) \<and>
     cv_id (mn_host m) = cv_id host \<and> cv_contact_address (mn_host m) = cv_contact_address host \<and>
     cv_status (mn_host m) = cv_status host \<and> cv_initiated_by_me (mn_host m) = cv_initiated_by_me host \<and>
     cv_created_unix_ms (mn_host m) = cv_created_unix_ms host \<and> cv_last_activity_unix_ms (mn_host m) = cv_last_activity_unix_ms host"

lemma take_theirs_inv:
  assumes "theirs_inv s host rows m"
  shows "theirs_inv s host (rows @ [x]) (take_theirs s x m)"
proof (cases "cv_their_alias x")
  case None
  then show ?thesis using assms by (simp add: theirs_inv_def latest_filter_snoc take_theirs_def)
next
  case x: (Some al)
  show ?thesis
  proof (cases "latest s Inbound (with_theirs rows)")
    case None
    then show ?thesis using assms x unfolding theirs_inv_def latest_filter_snoc by (simp add: take_theirs_def)
  next
    case (Some b)
    then have "cv_their_alias b \<noteq> None" by (rule latest_filter)
    then show ?thesis using assms x unfolding theirs_inv_def latest_filter_snoc Some by (auto simp: take_theirs_def)
  qed
qed

lemma take_mine_inv:
  assumes "mine_inv s rows m"
  shows "mine_inv s (rows @ [x]) (take_mine s x m)"
proof (cases "cv_my_alias x = []")
  case True
  then show ?thesis using assms by (simp add: mine_inv_def latest_filter_snoc take_mine_def)
next
  case x: False
  show ?thesis
  proof (cases "latest s Outbound (with_mine rows)")
    case None
    then show ?thesis using assms x unfolding mine_inv_def latest_filter_snoc by (simp add: take_mine_def)
  next
    case (Some b)
    then have "cv_my_alias b \<noteq> []" by (rule latest_filter)
    then show ?thesis using assms x unfolding mine_inv_def latest_filter_snoc Some by (simp add: take_mine_def)
  qed
qed

lemma take_frames [simp]:
  "mine_inv s rows (take_theirs s x m) \<longleftrightarrow> mine_inv s rows m"
  "theirs_inv s host rows (take_mine s x m) \<longleftrightarrow> theirs_inv s host rows m"
  "theirs_inv s host rows (take_shake x m) \<longleftrightarrow> theirs_inv s host rows m"
  "theirs_inv s host rows (take_times x m) \<longleftrightarrow> theirs_inv s host rows m"
  "mine_inv s rows (take_shake x m) \<longleftrightarrow> mine_inv s rows m"
  "mine_inv s rows (take_times x m) \<longleftrightarrow> mine_inv s rows m"
  "rest_inv host rows (take_theirs s x m) \<longleftrightarrow> rest_inv host rows m"
  "rest_inv host rows (take_mine s x m) \<longleftrightarrow> rest_inv host rows m"
  by (simp_all add: theirs_inv_def mine_inv_def rest_inv_def take_theirs_def take_mine_def take_shake_def take_times_def
      split: option.split)

lemma take_rest_inv:
  assumes "rest_inv host rows m" and "rows \<noteq> []"
  shows "rest_inv host (rows @ [x]) (take_times x (take_shake x m))"
proof -
  have "Min (set (map f rows) \<union> {f x}) = min (Min (set (map f rows))) (f x)"
    "Max (set (map f rows) \<union> {f x}) = max (Max (set (map f rows))) (f x)" for f :: "conversation_record \<Rightarrow> nat"
    using assms(2) by (simp_all add: min.commute max.commute)
  then show ?thesis
    using assms(1) by (cases "filter (\<lambda>c. cv_handshake_txid c \<noteq> None) rows")
      (auto simp: rest_inv_def take_times_def take_shake_def filter_empty_conv filter_eq_Cons_iff)
qed

lemma absorb_all:
  assumes "theirs_inv s host rows m" "mine_inv s rows m" "rest_inv host rows m" "rows \<noteq> []"
  shows "theirs_inv s host (rows @ xs) (foldl (absorb s) m xs) \<and> mine_inv s (rows @ xs) (foldl (absorb s) m xs) \<and>
    rest_inv host (rows @ xs) (foldl (absorb s) m xs)"
  using assms
proof (induction xs arbitrary: rows m)
  case (Cons x xs)
  have "theirs_inv s host (rows @ [x]) (absorb s m x)" "mine_inv s (rows @ [x]) (absorb s m x)" "rest_inv host (rows @ [x]) (absorb s m x)"
    unfolding absorb_steps using take_theirs_inv [OF Cons.prems(1)] take_mine_inv Cons.prems take_rest_inv by simp_all
  from Cons.IH [OF this] show ?case by simp
qed simp

section \<open>The pass is the reference\<close>

lemma theirs_alias:
  assumes "theirs_inv s host rows m"
  shows "cv_their_alias (mn_host m) \<noteq> None \<longleftrightarrow> list_ex (\<lambda>c. cv_their_alias c \<noteq> None) rows"
proof (cases "latest s Inbound (with_theirs rows)")
  case None
  then have "\<not> list_ex (\<lambda>c. cv_their_alias c \<noteq> None) rows" by (auto simp: list_ex_iff filter_empty_conv)
  then show ?thesis using assms None by (simp add: theirs_inv_def)
next
  case (Some c)
  then have "c \<in> set rows" "cv_their_alias c \<noteq> None" using latest_in [OF Some] by simp_all
  moreover have "cv_their_alias (mn_host m) = cv_their_alias c" using assms Some by (simp add: theirs_inv_def)
  ultimately show ?thesis by (metis (mono_tags) list_ex_iff)
qed

lemma mine_alias:
  assumes "mine_inv s rows m"
  shows "cv_my_alias (mn_host m) \<noteq> [] \<longleftrightarrow> list_ex (\<lambda>c. cv_my_alias c \<noteq> []) rows"
proof (cases "latest s Outbound (with_mine rows)")
  case None
  then have "\<not> list_ex (\<lambda>c. cv_my_alias c \<noteq> []) rows" by (auto simp: list_ex_iff filter_empty_conv)
  then show ?thesis using assms None by (simp add: mine_inv_def)
next
  case (Some c)
  then have "c \<in> set rows" "cv_my_alias c \<noteq> []" using latest_in [OF Some] by simp_all
  moreover have "cv_my_alias (mn_host m) = cv_my_alias c" using assms Some by (simp add: mine_inv_def)
  ultimately show ?thesis by (metis (mono_tags) list_ex_iff)
qed

lemma gathers:
  assumes "theirs_inv s host (host # dups) m" "mine_inv s (host # dups) m" "rest_inv host (host # dups) m"
  shows "mn_host m = gathered s host dups"
proof -
  let ?t = "latest s Inbound (with_theirs (host # dups))" and ?o = "latest s Outbound (with_mine (host # dups))"
  have "cv_their_alias (mn_host m) = (case ?t of None \<Rightarrow> None | Some c \<Rightarrow> cv_their_alias c)"
    "cv_bound_branch (mn_host m) = (case ?t of None \<Rightarrow> cv_bound_branch host | Some c \<Rightarrow> cv_bound_branch c)"
    "cv_bound_index (mn_host m) = (case ?t of None \<Rightarrow> cv_bound_index host | Some c \<Rightarrow> cv_bound_index c)"
    using assms(1) unfolding theirs_inv_def by (cases ?t; simp del: filter.simps)+
  moreover have "cv_my_alias (mn_host m) = (case ?o of None \<Rightarrow> [] | Some c \<Rightarrow> cv_my_alias c)"
    using assms(2) unfolding mine_inv_def by (cases ?o; simp del: filter.simps)
  ultimately show ?thesis using assms(3)
    unfolding gathered_def rest_inv_def by (intro conversation_record.equality) (simp_all del: filter.simps)
qed

text \<open>
  C28. A merge keeps the newest of everything. The row it keeps carries, of all the rows of the
  contact, the alias each side announced last (the first row's on a tie, their alias with the
  receiving slot bound to it), the first handshake it can name, the earliest establishment and
  the latest activity, and becomes active exactly when both aliases are known and it was not an
  unanswered invitation.
\<close>

theorem merge_keeps_newest: "merged_host s host dups = merged_spec s host dups"
proof -
  let ?start = "\<lparr>mn_host = host, mn_theirs_at = announced_at s host Inbound, mn_mine_at = announced_at s host Outbound,
     mn_created = cv_created_unix_ms host, mn_last = cv_last_activity_unix_ms host\<rparr>"
  let ?m = "foldl (absorb s) ?start dups"
  have "theirs_inv s host [host] ?start" "mine_inv s [host] ?start" "rest_inv host [host] ?start"
    by (simp_all add: theirs_inv_def mine_inv_def rest_inv_def)
  from absorb_all [OF this, of dups] have inv:
    "theirs_inv s host (host # dups) ?m" "mine_inv s (host # dups) ?m" "rest_inv host (host # dups) ?m" by simp_all
  have h: "mn_host ?m = gathered s host dups" by (rule gathers [OF inv])
  have status: "cv_status (gathered s host dups) = cv_status host" by (simp add: gathered_def)
  have times: "mn_created ?m = Min (set (map cv_created_unix_ms (host # dups)))"
    "mn_last ?m = Max (set (map cv_last_activity_unix_ms (host # dups)))" using inv(3) by (simp_all add: rest_inv_def)
  note aliases = theirs_alias [OF inv(1), unfolded h] mine_alias [OF inv(2), unfolded h]
  show ?thesis
    unfolding merged_host_def merged_spec_def Let_def h times aliases [symmetric] status [symmetric]
    by (simp del: set_map list.map)
qed

end
