(* ===== verification/Store_Merge_Props.thy ===== *)
theory Store_Merge_Props
  imports Store_Merge_Host Store_Runs
begin

text \<open>
  What a merge of one contact's rows does to the store, whether it finishes or stops on an
  error: one row is left, no message is lost or leaves its contact, and a second pass finds
  nothing to do.
\<close>

section \<open>The rows of a contact\<close>

definition ids_of :: "transport_store \<Rightarrow> string \<Rightarrow> string set" where
  "ids_of s a = {k. \<exists>c. conv_rows s k = Some c \<and> cv_contact_address c = a}"

lemma contact_rows_ids:
  assumes "store_wf s"
  shows "(\<lambda>r. cv_id (fst r)) ` set (contact_rows s a) = ids_of s a" and "distinct (map (\<lambda>r. cv_id (fst r)) (contact_rows s a))"
proof -
  have rows: "set (contact_rows s a) = {(c, hidden s c) | c. conv_rows s (cv_id c) = Some c \<and> cv_contact_address c = a}"
    unfolding contact_rows_def set_map set_filter using wf_conversation(2) [OF assms] by auto
  show "(\<lambda>r. cv_id (fst r)) ` set (contact_rows s a) = ids_of s a"
  proof (intro equalityI subsetI)
    fix k
    assume "k \<in> (\<lambda>r. cv_id (fst r)) ` set (contact_rows s a)"
    then obtain c where "k = cv_id c" "conv_rows s (cv_id c) = Some c" "cv_contact_address c = a" unfolding rows by auto
    then show "k \<in> ids_of s a" unfolding ids_of_def by blast
  next
    fix k
    assume "k \<in> ids_of s a"
    then obtain c where c: "conv_rows s k = Some c" "cv_contact_address c = a" unfolding ids_of_def by blast
    then have k: "cv_id c = k" using wf_conversation(1) [OF assms] by blast
    then have "(c, hidden s c) \<in> set (contact_rows s a)" using c unfolding rows by simp
    then show "k \<in> (\<lambda>r. cv_id (fst r)) ` set (contact_rows s a)" using k by force
  qed
  have "distinct (contact_rows s a)"
    unfolding contact_rows_def distinct_map using store_wf_inj(3) [OF assms] by (simp add: inj_on_def)
  then show "distinct (map (\<lambda>r. cv_id (fst r)) (contact_rows s a))"
    using contact_rows_inj [OF assms] by (simp add: distinct_map)
qed

lemma contact_rows_length:
  assumes "store_wf s"
  shows "length (contact_rows s a) = card (ids_of s a)"
  using contact_rows_ids [OF assms, of a] distinct_card [of "map (\<lambda>r. cv_id (fst r)) (contact_rows s a)"] by simp

lemma ids_of_finite: "finite (ids_of s a)"
  by (rule finite_subset [OF _ finite_dom_map_of [of "conversations s"]]) (auto simp: ids_of_def)

text \<open>A row folds under the id and the contact of the host.\<close>

lemma merged_same: "cv_id (merged_host s host dups) = cv_id host" "cv_contact_address (merged_host s host dups) = cv_contact_address host"
proof -
  have one: "cv_id (mn_host (absorb s m x)) = cv_id (mn_host m) \<and> cv_contact_address (mn_host (absorb s m x)) = cv_contact_address (mn_host m)" for m x
    by (simp add: absorb_steps take_theirs_def take_mine_def take_shake_def take_times_def split: option.split)
  have "cv_id (mn_host (foldl (absorb s) m xs)) = cv_id (mn_host m) \<and>
      cv_contact_address (mn_host (foldl (absorb s) m xs)) = cv_contact_address (mn_host m)" for m xs
    by (induction xs arbitrary: m) (simp_all add: one)
  then show "cv_id (merged_host s host dups) = cv_id host" "cv_contact_address (merged_host s host dups) = cv_contact_address host"
    by (simp_all add: merged_host_def Let_def)
qed

lemma merge_plan_rows:
  assumes wf: "store_wf s" and plan: "merge_plan s a = (host, dups, bl, vis)" and two: "\<not> length (contact_rows s a) < 2"
  shows "distinct (cv_id host # map cv_id dups)" and "insert (cv_id host) (set (map cv_id dups)) = ids_of s a"
    and "cv_contact_address host = a" and "length dups + 1 = card (ids_of s a)"
proof -
  let ?rows = "sort_by merge_order (contact_rows s a)"
  have ne: "?rows \<noteq> []" using two by (metis length_0_conv length_sort_by zero_less_numeral)
  obtain h hh where l: "last ?rows = (h, hh)" by fastforce
  have split: "?rows = butlast ?rows @ [(h, hh)]" using append_butlast_last_id [OF ne] l by simp
  have parts: "host = merged_host s h (map fst (butlast ?rows))" "dups = map fst (butlast ?rows)"
    using plan unfolding merge_plan_def Let_def l prod.case prod.inject by blast+
  have id: "cv_id host = cv_id h" "cv_contact_address host = cv_contact_address h" unfolding parts(1) merged_same by simp_all
  have keys: "map (\<lambda>r. cv_id (fst r)) ?rows = map cv_id dups @ [cv_id host]"
    by (subst split) (simp add: parts(2) id comp_def)
  have "mset (map (\<lambda>r. cv_id (fst r)) ?rows) = mset (map (\<lambda>r. cv_id (fst r)) (contact_rows s a))" by simp
  then have "distinct (map (\<lambda>r. cv_id (fst r)) ?rows)" using contact_rows_ids(2) [OF wf] by (metis mset_eq_imp_distinct_iff)
  then show "distinct (cv_id host # map cv_id dups)" unfolding keys by auto
  have "set (map (\<lambda>r. cv_id (fst r)) ?rows) = ids_of s a" using contact_rows_ids(1) [OF wf] by simp
  then show "insert (cv_id host) (set (map cv_id dups)) = ids_of s a" unfolding keys by auto
  have "(h, hh) \<in> set (contact_rows s a)" by (metis l last_in_set ne set_sort_by)
  then show "cv_contact_address host = a" unfolding id by (auto simp: contact_rows_def)
  have "length (map (\<lambda>r. cv_id (fst r)) ?rows) = card (ids_of s a)" by (simp add: contact_rows_length [OF wf])
  then show "length dups + 1 = card (ids_of s a)" unfolding keys by simp
qed

section \<open>One contact, whatever happens\<close>

text \<open>The host written, \<open>D\<close> folded away behind it, \<open>T\<close> its messages; or nothing at all.\<close>

definition merged_into ::
  "conversation_record \<Rightarrow> string set \<Rightarrow> string set \<Rightarrow> transport_store \<Rightarrow> transport_store \<Rightarrow> bool" where
  "merged_into host D T s s' \<longleftrightarrow>
     msg_rows s' = rehomed T (cv_id host) (msg_rows s) \<and> msg_flags s' = msg_flags s \<and>
     conv_rows s' = (conv_rows s)(cv_id host \<mapsto> host) |` (- D)"

lemma flag_host_rows:
  assumes ok: "codecs_ok cc mc" and inv: "store_inv cc mc dir (s, d)"
    and run: "(if bl then tombstone_conversation cc h s d else if vis then untombstone_conversation cc h s d
      else (s, d, Inr False)) = (s', d', r)"
  shows "conv_rows s' = conv_rows s" and "tr_messages s' = tr_messages s"
    and "\<not> isl r \<Longrightarrow> conv_rows s h \<noteq> None \<Longrightarrow>
      conv_flags s' = (if bl then insert h (conv_flags s) else if vis then conv_flags s - {h} else conv_flags s)"
proof -
  consider (bl) cl d1 r1 where "bl" "tombstone cc (tr_conversations s) d h = (cl, d1, r1)" "s' = s\<lparr>tr_conversations := cl\<rparr>" "r = r1"
    | (vis) cl d1 r1 where "\<not> bl" "vis" "untombstone cc (tr_conversations s) d h = (cl, d1, r1)" "s' = s\<lparr>tr_conversations := cl\<rparr>" "r = r1"
    | (none) "\<not> bl" "\<not> vis" "s' = s"
    using run by (auto simp: tombstone_conversation_def untombstone_conversation_def split: if_splits prod.splits)
  then have "conv_rows s' = conv_rows s \<and> tr_messages s' = tr_messages s \<and> (\<not> isl r \<and> conv_rows s h \<noteq> None \<longrightarrow>
      conv_flags s' = (if bl then insert h (conv_flags s) else if vis then conv_flags s - {h} else conv_flags s))"
  proof cases
    case bl
    obtain err where "run_op cc (Do_Tombstone h) (tr_conversations s) d = (cl, d1, err)" "err = None \<longleftrightarrow> \<not> isl r1"
      using run_op_tombstone [OF bl(2)] by blast
    then show ?thesis using conv_op(2) [OF ok inv, of "Do_Tombstone h"] bl
      by (auto simp: did_def records_of_def flags_of_def split: if_splits)
  next
    case vis
    obtain err where "run_op cc (Do_Untombstone h) (tr_conversations s) d = (cl, d1, err)" "err = None \<longleftrightarrow> \<not> isl r1"
      using run_op_untombstone [OF vis(3)] by blast
    then show ?thesis using conv_op(2) [OF ok inv, of "Do_Untombstone h"] vis
      by (auto simp: did_def records_of_def flags_of_def split: if_splits)
  qed simp
  then show "conv_rows s' = conv_rows s" and "tr_messages s' = tr_messages s"
    and "\<not> isl r \<Longrightarrow> conv_rows s h \<noteq> None \<Longrightarrow>
      conv_flags s' = (if bl then insert h (conv_flags s) else if vis then conv_flags s - {h} else conv_flags s)" by blast+
qed

lemma merge_contact_result:
  assumes ok: "codecs_ok cc mc" and inv: "store_inv cc mc dir (s, d)"
    and plan: "merge_plan s a = (host, dups, bl, vis)" and work: "\<not> (a = [] \<or> length (contact_rows s a) < 2)"
    and run: "merge_contact cc mc a s d = (s', d', r)"
  shows "(conv_rows s' = conv_rows s \<and> tr_messages s' = tr_messages s \<and> isl r) \<or>
    (\<exists>D T. D \<subseteq> set (map cv_id dups) \<and> on_rows s D \<subseteq> T \<and> T \<subseteq> on_rows s (set (map cv_id dups)) \<and> merged_into host D T s s' \<and>
      (\<not> isl r \<longrightarrow> D = set (map cv_id dups) \<and> (\<exists>rep. r = Inr (Some (cv_id host, rep))) \<and>
        conv_flags s' = (let F = conv_flags s - D in
          if bl then insert (cv_id host) F else if vis then F - {cv_id host} else F)))"
proof -
  let ?h = "cv_id host" and ?ids = "set (map cv_id dups)"
  have wf: "store_wf s" by (rule store_inv_wf [OF ok inv])
  have two: "\<not> length (contact_rows s a) < 2" using work by simp
  note rows = merge_plan_rows [OF wf plan two]
  note steps = run [unfolded merge_contact_steps [OF plan] if_not_P [OF work]]
  obtain cl d1 r1 where up: "upsert cc (tr_conversations s) d ?h host = (cl, d1, r1)" by (metis prod_cases3)
  have "upsert cc (tr_conversations s) d (key_of cc host) host = (cl, d1, r1)" using up ok by (simp add: codecs_ok_def)
  from run_op_upsert [OF this] obtain err where
    op: "run_op cc (Do_Upsert host) (tr_conversations s) d = (cl, d1, err)" "err = None \<longleftrightarrow> \<not> isl r1" by blast
  let ?s1 = "s\<lparr>tr_conversations := cl\<rparr>"
  note inv1 = conv_op(1) [OF ok inv op(1)] and did1 = conv_op(2) [OF ok inv op(1), unfolded did_def op(2)]
  show ?thesis
  proof (cases r1)
    case (Inl e)
    then have "s' = ?s1" "r = Inl e" using steps up by simp_all
    then show ?thesis using did1 Inl by (simp add: records_of_def)
  next
    case r1: (Inr u)
    have host1: "conv_rows ?s1 = (conv_rows s)(?h \<mapsto> host)" "conv_flags ?s1 = conv_flags s"
      using did1 r1 ok by (simp_all add: records_of_def flags_of_def codecs_ok_def)
    have "?ids \<subseteq> ids_of s a" using rows(2) by blast
    then have present: "?ids \<subseteq> dom (conv_rows ?s1)" unfolding host1 ids_of_def by auto
    obtain s2 d2 r2 where fo: "fold_rows cc mc ?h dups ?s1 d1
        \<lparr>mr_contacts = 1, mr_rows_folded = 0, mr_messages_rehomed = 0\<rparr> = (s2, d2, r2)" by (metis prod_cases3)
    note inv2 = moves_inv [OF ok fold_rows_moves [OF ok fo inv1] inv1]
    have dist: "distinct (map cv_id dups)" "?h \<notin> ?ids" using rows(1) by simp_all
    from fold_rows_result [OF ok fo inv1 dist present] obtain D T where D: "D \<subseteq> ?ids" "on_rows ?s1 D \<subseteq> T" "T \<subseteq> on_rows ?s1 ?ids"
      "folded D T ?h ?s1 s2" "\<not> isl r2 \<longrightarrow> D = ?ids" by blast
    have on: "on_rows ?s1 X = on_rows s X" for X by (simp add: on_rows_def)
    have into: "merged_into host D T s s2" using D(4) host1 by (simp add: folded_def merged_into_def)
    show ?thesis
    proof (cases r2)
      case (Inl e)
      then have "s' = s2" "r = Inl e" using steps up r1 fo by simp_all
      then show ?thesis using into D on by auto
    next
      case r2: (Inr rep)
      obtain s3 d3 r3 where fl: "(if bl then tombstone_conversation cc ?h s2 d2
          else if vis then untombstone_conversation cc ?h s2 d2 else (s2, d2, Inr False)) = (s3, d3, r3)" by (metis prod_cases3)
      note flag = flag_host_rows [OF ok inv2 fl]
      have out: "s' = s3" "isl r = isl r3" "\<not> isl r \<Longrightarrow> r = Inr (Some (?h, rep))"
        using steps up r1 fo r2 fl by (auto split: sum.splits)
      have "conv_rows s2 ?h = Some host" using into D(1) dist by (auto simp: merged_into_def restrict_map_def)
      then have "\<not> isl r \<Longrightarrow> conv_flags s' = (let F = conv_flags s - D in
          if bl then insert ?h F else if vis then F - {?h} else F)"
        using flag(3) out D(4) host1(2) by (simp add: folded_def Let_def)
      moreover have "merged_into host D T s s'" using into flag(1,2) out(1) by (simp add: merged_into_def)
      ultimately show ?thesis using D on out(3) r2 by (intro disjI2 exI [of _ D] exI [of _ T]) auto
    qed
  qed
qed

section \<open>Messages and contacts\<close>

text \<open>A message as its reader sees it: the contact it is shown under, and everything but its row.\<close>

definition contact_of :: "transport_store \<Rightarrow> message_record \<Rightarrow> string option" where
  "contact_of s m = map_option cv_contact_address (conv_rows s (mg_conversation_id m))"

definition letter :: "transport_store \<Rightarrow> string \<Rightarrow> (string option \<times> message_record) option" where
  "letter s t = map_option (\<lambda>m. (contact_of s m, m\<lparr>mg_conversation_id := []\<rparr>)) (msg_rows s t)"

lemma merged_into_letter:
  assumes into: "merged_into host D T s s'" and D: "on_rows s D \<subseteq> T" "T \<subseteq> on_rows s (ids_of s a)" "cv_id host \<notin> D"
    and host: "cv_id host \<in> ids_of s a" "cv_contact_address host = a"
  shows "letter s' = letter s"
proof
  fix t
  have rows: "conv_rows s' = (conv_rows s)(cv_id host \<mapsto> host) |` (- D)" "msg_rows s' = rehomed T (cv_id host) (msg_rows s)"
    using into by (simp_all add: merged_into_def)
  have at: "map_option cv_contact_address (conv_rows s k) = Some a" if "k \<in> ids_of s a" for k
    using that by (auto simp: ids_of_def)
  show "letter s' t = letter s t"
  proof (cases "msg_rows s t")
    case None
    then show ?thesis by (simp add: letter_def rows rehomed_def)
  next
    case (Some m)
    let ?k = "mg_conversation_id m"
    show ?thesis
    proof (cases "t \<in> T")
      case True
      then have "?k \<in> ids_of s a" using D(2) Some by (auto simp: on_rows_def)
      then have "contact_of s m = Some a" unfolding contact_of_def by (rule at)
      moreover have "contact_of s' (m\<lparr>mg_conversation_id := cv_id host\<rparr>) = Some a"
        using D(3) host(2) by (simp add: contact_of_def rows restrict_map_def)
      ultimately show ?thesis using Some True by (simp add: letter_def rows(2) rehomed_def)
    next
      case False
      then have "?k \<notin> D" using D(1) Some by (auto simp: on_rows_def)
      then have "contact_of s' m = contact_of s m"
        using at [OF host(1)] host(2) by (auto simp: contact_of_def rows(1) restrict_map_def)
      then show ?thesis using Some False by (simp add: letter_def rows(2) rehomed_def)
    qed
  qed
qed

lemma merge_contact_stays:
  assumes ok: "codecs_ok cc mc" and inv: "store_inv cc mc dir (s, d)" and run: "merge_contact cc mc a s d = (s', d', r)"
  shows "letter s' = letter s \<and> msg_flags s' = msg_flags s"
    and "\<not> isl r \<Longrightarrow> ids_of s' b = (if b = a \<and> a \<noteq> [] \<and> 2 \<le> card (ids_of s a) then {cv_id (fst (merge_plan s a))} else ids_of s b)"
proof -
  obtain host dups bl vis where plan: "merge_plan s a = (host, dups, bl, vis)" by (metis prod_cases4)
  have wf: "store_wf s" by (rule store_inv_wf [OF ok inv])
  note count = contact_rows_length [OF wf, of a]
  have "(letter s' = letter s \<and> msg_flags s' = msg_flags s) \<and> (\<not> isl r \<longrightarrow>
      ids_of s' b = (if b = a \<and> a \<noteq> [] \<and> 2 \<le> card (ids_of s a) then {cv_id host} else ids_of s b))"
  proof (cases "a = [] \<or> length (contact_rows s a) < 2")
    case True
    then have "s' = s" using run unfolding merge_contact_steps [OF plan] by simp
    then show ?thesis using True count by auto
  next
    case work: False
    then have two: "\<not> length (contact_rows s a) < 2" by simp
    note rows = merge_plan_rows [OF wf plan two]
    have "cv_id host \<notin> set (map cv_id dups)" using rows(1) by simp
    with rows(2) have h: "cv_id host \<in> ids_of s a" "set (map cv_id dups) = ids_of s a - {cv_id host}" by blast+
    consider (same) "conv_rows s' = conv_rows s" "tr_messages s' = tr_messages s" "isl r"
      | (into) D T where "D \<subseteq> set (map cv_id dups)" "on_rows s D \<subseteq> T" "T \<subseteq> on_rows s (set (map cv_id dups))"
          "merged_into host D T s s'" "\<not> isl r \<longrightarrow> D = set (map cv_id dups)"
      using merge_contact_result [OF ok inv plan work run] by blast
    then show ?thesis
    proof cases
      case same
      then show ?thesis by (simp add: letter_def contact_of_def fun_eq_iff)
    next
      case into
      have "T \<subseteq> on_rows s (ids_of s a)" using into(3) unfolding h by (auto simp: on_rows_def)
      moreover have "cv_id host \<notin> D" using into(1) unfolding h by blast
      ultimately have "letter s' = letter s" using merged_into_letter [OF into(4,2)] h(1) rows(3) by blast
      moreover have "ids_of s' b = (if b = a then {cv_id host} else ids_of s b)" if "\<not> isl r"
      proof -
        have D: "D = ids_of s a - {cv_id host}" using into(5) that unfolding h by blast
        have s': "conv_rows s' x = (if x = cv_id host then Some host else if x \<in> D then None else conv_rows s x)" for x
          using into(4) \<open>cv_id host \<notin> D\<close> by (simp add: merged_into_def restrict_map_def)
        have apart: "x \<notin> ids_of s b" if "x \<in> ids_of s a" "b \<noteq> a" for x using that by (auto simp: ids_of_def)
        have "x \<in> ids_of s' b \<longleftrightarrow> x = cv_id host \<and> b = a \<or> x \<noteq> cv_id host \<and> x \<notin> D \<and> x \<in> ids_of s b" for x
          using rows(3) unfolding ids_of_def mem_Collect_eq s' by (cases "x = cv_id host") auto
        note mem = this
        show ?thesis
        proof (cases "b = a")
          case True
          then show ?thesis unfolding set_eq_iff mem by (auto simp: D)
        next
          case False
          have "x \<in> ids_of s' b \<longleftrightarrow> x \<in> ids_of s b" for x
            using mem [of x] apart [of x, OF _ False] h(1) False by (cases "x \<in> ids_of s a"; cases "x = cv_id host") (simp_all add: D)
          then show ?thesis using False by (simp add: set_eq_iff)
        qed
      qed
      moreover have "msg_flags s' = msg_flags s" using into(4) by (simp add: merged_into_def)
      moreover have "a \<noteq> []" "2 \<le> card (ids_of s a)" using work count by simp_all
      ultimately show ?thesis by simp
    qed
  qed
  then show "letter s' = letter s \<and> msg_flags s' = msg_flags s"
    and "\<not> isl r \<Longrightarrow> ids_of s' b = (if b = a \<and> a \<noteq> [] \<and> 2 \<le> card (ids_of s a) then {cv_id (fst (merge_plan s a))} else ids_of s b)"
    unfolding plan by simp_all
qed

section \<open>Every contact\<close>

lemma merge_all_stays:
  assumes ok: "codecs_ok cc mc"
  shows "merge_all cc mc as s d rep = (s', d', r) \<Longrightarrow> store_inv cc mc dir (s, d) \<Longrightarrow>
    letter s' = letter s \<and> msg_flags s' = msg_flags s \<and>
    (\<not> isl r \<longrightarrow> (\<forall>b. card (ids_of s' b) = (if b \<in> set as - {[]} then min 1 (card (ids_of s b)) else card (ids_of s b))))"
proof (induction "as" arbitrary: s d rep)
  case Nil
  then show ?case by simp
next
  case (Cons a "as")
  obtain s1 d1 r1 where me: "merge_contact cc mc a s d = (s1, d1, r1)" by (metis prod_cases3)
  note one = merge_contact_stays [OF ok Cons.prems(2) me]
  note inv1 = moves_inv [OF ok merge_contact_moves [OF ok Cons.prems(2) me] Cons.prems(2)]
  show ?case
  proof (cases r1)
    case (Inl e)
    then show ?thesis using Cons.prems(1) me one(1) by auto
  next
    case (Inr x)
    have card1: "card (ids_of s1 b) = (if b = a \<and> a \<noteq> [] then min 1 (card (ids_of s b)) else card (ids_of s b))" for b
      using one(2) [of b] Inr by (simp split: if_splits)
    obtain rep1 where "merge_all cc mc as s1 d1 rep1 = (s', d', r)"
      using Cons.prems(1) me Inr by (cases x) auto
    from Cons.IH [OF this inv1] show ?thesis using one(1) card1 by (auto simp: min_def split: if_splits)
  qed
qed

lemma merge_all_idle:
  assumes "\<And>a. a \<noteq> [] \<Longrightarrow> length (contact_rows s a) < 2"
  shows "merge_all cc mc as s d rep = (s, d, Inr rep)"
proof (induction "as")
  case (Cons a "as")
  have "merge_contact cc mc a s d = (s, d, Inr None)" using assms [of a] by (auto simp: merge_contact_def Let_def)
  then show ?case using Cons by simp
qed simp

lemma contact_addresses:
  assumes "store_wf s" and "ids_of s b \<noteq> {}" and "b \<noteq> []"
  shows "b \<in> set (remdups_adj (sort (map cv_contact_address (filter (\<lambda>c. cv_contact_address c \<noteq> []) (hvals (conversations s))))))"
proof -
  obtain k c where c: "conv_rows s k = Some c" "cv_contact_address c = b" using assms(2) unfolding ids_of_def by blast
  then have "c \<in> set (hvals (conversations s))" using wf_conversation [OF assms(1)] by blast
  then have "b \<in> cv_contact_address ` {c \<in> set (hvals (conversations s)). cv_contact_address c \<noteq> []}" using c(2) assms(3) by blast
  then show ?thesis unfolding remdups_adj_set set_sort set_map set_filter by simp
qed

text \<open>
  C12. A merge loses no message and moves none to another contact. Wherever the pass over every
  contact stops, on an error of the disk or at its end, each stored message is still there,
  unchanged but for the row it is filed under, and that row is one of the same contact as
  before; no ghost flag changes.
\<close>

theorem merge_never_strands:
  assumes "codecs_ok cc mc" and "store_inv cc mc dir (s, d)"
    and "merge_duplicate_contacts cc mc s d = (s', d', r)"
  shows "letter s' = letter s \<and> msg_flags s' = msg_flags s"
  using merge_all_stays [OF assms(1) _ assms(2)] assms(3) unfolding merge_duplicate_contacts_def by blast

text \<open>
  After a pass that finishes every contact has one row. No two rows share a contact, every
  contact that had a row still has one, rows without a contact are all kept, and running the
  pass again changes neither the store nor the disk and reports nothing folded.
\<close>

theorem merge_settles:
  assumes "codecs_ok cc mc" and "store_inv cc mc dir (s, d)"
    and "merge_duplicate_contacts cc mc s d = (s', d', Inr rep)"
  shows "(\<lambda>a. card (ids_of s' a)) = (\<lambda>a. if a = [] then card (ids_of s []) else min 1 (card (ids_of s a))) \<and>
    merge_duplicate_contacts cc mc s' d' = (s', d', Inr \<lparr>mr_contacts = 0, mr_rows_folded = 0, mr_messages_rehomed = 0\<rparr>)"
proof -
  let ?as = "remdups_adj (sort (map cv_contact_address (filter (\<lambda>c. cv_contact_address c \<noteq> []) (hvals (conversations s)))))"
  have run: "merge_all cc mc ?as s d \<lparr>mr_contacts = 0, mr_rows_folded = 0, mr_messages_rehomed = 0\<rparr> = (s', d', Inr rep)"
    using assms(3) unfolding merge_duplicate_contacts_def .
  have inv': "store_inv cc mc dir (s', d')"
    by (rule moves_inv [OF assms(1) merge_duplicate_contacts_moves [OF assms] assms(2)])
  have wf: "store_wf s" "store_wf s'" using store_inv_wf assms(1,2) inv' by blast+
  have "card (ids_of s' a) = (if a = [] then card (ids_of s []) else min 1 (card (ids_of s a)))" for a
    using merge_all_stays [OF assms(1) run assms(2)] contact_addresses [OF wf(1), of a]
    by (cases "ids_of s a = {}") auto
  note cards = this
  then have "length (contact_rows s' a) < 2" if "a \<noteq> []" for a
    using that by (simp add: contact_rows_length [OF wf(2)])
  from merge_all_idle [OF this] show ?thesis using cards unfolding merge_duplicate_contacts_def by simp
qed

text \<open>
  A merge that folds leaves exactly the kept row. Of the contact's rows only the host is
  left, holding what the merge gathered; every message of any of them is filed under it; no
  other row, message or ghost flag changes; and the host is hidden when it is an unanswered
  invitation the user had dismissed, visible when any of the rows was, and otherwise as it was.
\<close>

theorem merge_folds_to_one:
  assumes ok: "codecs_ok cc mc" and inv: "store_inv cc mc dir (s, d)"
    and run: "merge_contact cc mc a s d = (s', d', Inr (Some (h, rep)))"
  shows "case merge_plan s a of (host, dups, blocked, any_visible) \<Rightarrow>
    h = cv_id host \<and> cv_contact_address host = a \<and>
    conv_rows s' = (\<lambda>k. if k = h then Some host else if k \<in> ids_of s a then None else conv_rows s k) \<and>
    msg_rows s' = rehomed (on_rows s (ids_of s a)) h (msg_rows s) \<and> msg_flags s' = msg_flags s \<and>
    conv_flags s' = (let kept = conv_flags s - (ids_of s a - {h}) in
      if blocked then insert h kept else if any_visible then kept - {h} else kept)"
proof -
  obtain host dups bl vis where plan: "merge_plan s a = (host, dups, bl, vis)" by (metis prod_cases4)
  have wf: "store_wf s" by (rule store_inv_wf [OF ok inv])
  have work: "\<not> (a = [] \<or> length (contact_rows s a) < 2)"
    using run unfolding merge_contact_steps [OF plan] by (auto split: if_splits)
  then have two: "\<not> length (contact_rows s a) < 2" by simp
  note rows = merge_plan_rows [OF wf plan two]
  have "cv_id host \<notin> set (map cv_id dups)" using rows(1) by simp
  with rows(2) have ids: "cv_id host \<in> ids_of s a" "set (map cv_id dups) = ids_of s a - {cv_id host}" by blast+
  from merge_contact_result [OF ok inv plan work run] obtain D T where
    D: "on_rows s D \<subseteq> T" "T \<subseteq> on_rows s (set (map cv_id dups))" "merged_into host D T s s'" "D = ids_of s a - {cv_id host}"
    and h: "h = cv_id host" and flags: "conv_flags s' = (let F = conv_flags s - D in
      if bl then insert (cv_id host) F else if vis then F - {cv_id host} else F)"
    unfolding ids by auto
  have T: "T = on_rows s (ids_of s a - {cv_id host})" using D(1,2) unfolding D(4) ids by blast
  have "rehomed T h (msg_rows s) t = rehomed (on_rows s (ids_of s a)) h (msg_rows s) t" for t
    unfolding T h rehomed_def on_rows_def using ids(1) by (cases "msg_rows s t") auto
  then have msgs: "msg_rows s' = rehomed (on_rows s (ids_of s a)) h (msg_rows s)" using D(3) h by (auto simp: merged_into_def)
  have convs: "conv_rows s' = (\<lambda>k. if k = h then Some host else if k \<in> ids_of s a then None else conv_rows s k)"
    using D(3) unfolding merged_into_def D(4) h by (auto simp: restrict_map_def fun_eq_iff)
  have ghosts: "msg_flags s' = msg_flags s" using D(3) by (simp add: merged_into_def)
  have hidden: "conv_flags s' = (let kept = conv_flags s - (ids_of s a - {h}) in
      if bl then insert h kept else if vis then kept - {h} else kept)"
    using flags unfolding D(4) h .
  show ?thesis unfolding plan prod.case using rows(3) h by (intro conjI msgs convs ghosts hidden)
qed

section \<open>A merge that folds\<close>

lemma two_rows_merge:
  "case demo_run two_rows of (s, d) \<Rightarrow>
     (case merge_contact demo_cc demo_mc ''x'' s d of (s', d', r) \<Rightarrow>
        r = Inr (Some (''k'', \<lparr>mr_contacts = 1, mr_rows_folded = 1, mr_messages_rehomed = 1\<rparr>))) \<and>
     (case merge_duplicate_contacts demo_cc demo_mc s d of (s', d', r) \<Rightarrow>
        r = Inr \<lparr>mr_contacts = 1, mr_rows_folded = 1, mr_messages_rehomed = 1\<rparr>)"
  by code_simp

lemma two_rows_merged:
  obtains s d s1 d1 s2 d2 where "demo_run two_rows = (s, d)" and "store_inv demo_cc demo_mc demo_dir (s, d)"
    and "merge_contact demo_cc demo_mc ''x'' s d = (s1, d1, Inr (Some (''k'', \<lparr>mr_contacts = 1, mr_rows_folded = 1, mr_messages_rehomed = 1\<rparr>)))"
    and "merge_duplicate_contacts demo_cc demo_mc s d = (s2, d2, Inr \<lparr>mr_contacts = 1, mr_rows_folded = 1, mr_messages_rehomed = 1\<rparr>)"
    and "msg_rows s ''t'' = Some (demo_message ''t'' ''l'' 7 Fill_Sourced)" and "conv_rows s ''l'' = Some row_theirs"
proof -
  obtain s d where sd: "demo_run two_rows = (s, d)" by fastforce
  obtain s1 d1 r1 where m1: "merge_contact demo_cc demo_mc ''x'' s d = (s1, d1, r1)" by (metis prod_cases3)
  obtain s2 d2 r2 where m2: "merge_duplicate_contacts demo_cc demo_mc s d = (s2, d2, r2)" by (metis prod_cases3)
  have "store_inv demo_cc demo_mc demo_dir (s, d)" using demo_run_inv [of two_rows] unfolding sd .
  then show thesis using that [OF sd] m1 m2 two_rows_run two_rows_merge unfolding sd prod.case m1 m2 by blast
qed

lemma merge_never_strands_witness:
  "\<exists>s d s' d' r. demo_run two_rows = (s, d) \<and> merge_duplicate_contacts demo_cc demo_mc s d = (s', d', r) \<and>
     map_option fst (letter s' ''t'') = Some (Some ''x'')"
proof -
  from two_rows_merged obtain s d s2 d2 r where run: "demo_run two_rows = (s, d)"
    "store_inv demo_cc demo_mc demo_dir (s, d)" "merge_duplicate_contacts demo_cc demo_mc s d = (s2, d2, r)"
    "msg_rows s ''t'' = Some (demo_message ''t'' ''l'' 7 Fill_Sourced)" "conv_rows s ''l'' = Some row_theirs" by metis
  have "letter s2 = letter s" using merge_never_strands [OF demo_codecs(1) run(2,3)] by simp
  then have "map_option fst (letter s2 ''t'') = Some (Some ''x'')"
    using run(4,5) by (simp add: letter_def contact_of_def demo_message_def row_theirs_def)
  then show ?thesis using run by blast
qed

lemma merge_settles_witness:
  "\<exists>s d s' d' rep. demo_run two_rows = (s, d) \<and> merge_duplicate_contacts demo_cc demo_mc s d = (s', d', Inr rep) \<and>
     mr_rows_folded rep = 1 \<and> card (ids_of s' ''x'') \<le> 1"
proof -
  from two_rows_merged obtain s d s2 d2 where run: "demo_run two_rows = (s, d)" "store_inv demo_cc demo_mc demo_dir (s, d)"
    "merge_duplicate_contacts demo_cc demo_mc s d = (s2, d2, Inr \<lparr>mr_contacts = 1, mr_rows_folded = 1, mr_messages_rehomed = 1\<rparr>)" by metis
  have "(\<lambda>a. card (ids_of s2 a)) = (\<lambda>a. if a = [] then card (ids_of s []) else min 1 (card (ids_of s a)))"
    using merge_settles [OF demo_codecs(1) run(2,3)] by blast
  from fun_cong [OF this, of "''x''"] have "card (ids_of s2 ''x'') \<le> 1" by simp
  then show ?thesis using run by (intro exI conjI) (assumption | simp)+
qed

lemma merge_folds_to_one_witness:
  "\<exists>s d s' d' rep. demo_run two_rows = (s, d) \<and> merge_contact demo_cc demo_mc ''x'' s d = (s', d', Inr (Some (''k'', rep))) \<and>
     cv_id (fst (merge_plan s ''x'')) = ''k''"
proof -
  from two_rows_merged obtain s d s1 d1 rep where run: "demo_run two_rows = (s, d)" "store_inv demo_cc demo_mc demo_dir (s, d)"
    "merge_contact demo_cc demo_mc ''x'' s d = (s1, d1, Inr (Some (''k'', rep)))" by metis
  have "cv_id (fst (merge_plan s ''x'')) = ''k''"
    using merge_folds_to_one [OF demo_codecs(1) run(2,3)] by (auto split: prod.splits)
  then show ?thesis using run by blast
qed

end
