(* ===== verification/Block_List.thy ===== *)
theory Block_List
  imports Json_Store Ranking
begin

text \<open>
  The refused addresses (\<open>rust/chain/src/block_list.rs\<close>): a map from an address to the time of
  the block, changed on the disk first and in memory second.
\<close>

record blocked_contact =
  bc_since_unix_ms :: nat

type_synonym block_list = "(string, blocked_contact) hmap"

definition block_list_file :: string where
  "block_list_file = ''block.list''"

definition same_blocked :: "block_list \<Rightarrow> block_list \<Rightarrow> bool" where
  "same_blocked a b \<longleftrightarrow> map_of a = map_of b"

definition load_blocked :: "block_list serde \<Rightarrow> path \<Rightarrow> disk \<Rightarrow> disk \<times> block_list" where
  "load_blocked s dir d = (case read_file (dir @ [block_list_file]) d of
     (d, Inl _) \<Rightarrow> (d, [])
   | (d, Inr bs) \<Rightarrow> (d, case from_slice s bs of None \<Rightarrow> [] | Some v \<Rightarrow> v))"

definition read_blocked :: "block_list serde \<Rightarrow> path \<Rightarrow> disk \<Rightarrow> disk \<times> block_list option" where
  "read_blocked s dir d = read_opt s (dir @ [block_list_file]) d"

definition save_blocked :: "block_list serde \<Rightarrow> path \<Rightarrow> block_list \<Rightarrow> disk \<Rightarrow> disk \<times> (file_error + unit)" where
  "save_blocked s dir v d = write_json_durable s (dir @ [block_list_file]) v d"

text \<open>The change runs on a copy; only a saved copy becomes the list.\<close>

definition commit_blocked ::
  "block_list serde \<Rightarrow> path \<Rightarrow> (block_list \<Rightarrow> block_list \<times> bool) \<Rightarrow> block_list \<Rightarrow> disk
     \<Rightarrow> block_list \<times> disk \<times> (file_error + bool)" where
  "commit_blocked s dir change bl d =
     (case change bl of (next, changed) \<Rightarrow>
        if \<not> changed then (bl, d, Inr False)
        else (case save_blocked s dir next d of
                (d, Inl e) \<Rightarrow> (bl, d, Inl e)
              | (d, Inr _) \<Rightarrow> (next, d, Inr True)))"

definition is_blocked :: "block_list \<Rightarrow> string \<Rightarrow> bool" where
  "is_blocked bl address \<longleftrightarrow> address \<noteq> [] \<and> hget bl address \<noteq> None"

definition block :: "string \<Rightarrow> nat \<Rightarrow> block_list \<Rightarrow> block_list \<times> bool" where
  "block address now bl =
     (if address = [] then (bl, False)
      else if hget bl address \<noteq> None then (bl, False)
      else (hput address \<lparr>bc_since_unix_ms = now\<rparr> bl, True))"

definition unblock :: "string \<Rightarrow> block_list \<Rightarrow> block_list \<times> bool" where
  "unblock address bl = (hdel address bl, hget bl address \<noteq> None)"

definition blocked_len :: "block_list \<Rightarrow> nat" where
  "blocked_len bl = length bl"

definition blocked_is_empty :: "block_list \<Rightarrow> bool" where
  "blocked_is_empty bl \<longleftrightarrow> bl = []"

text \<open>Newest block first, then by address.\<close>

definition block_order :: "string \<times> blocked_contact \<Rightarrow> string \<times> blocked_contact \<Rightarrow> ordering" where
  "block_order a b = then_cmp (cmp (bc_since_unix_ms (snd b)) (bc_since_unix_ms (snd a))) (cmp (fst a) (fst b))"

definition blocked_entries :: "block_list \<Rightarrow> (string \<times> blocked_contact) list" where
  "blocked_entries bl = sort_by block_order bl"

section \<open>What the list promises\<close>

interpretation by_since: keyed_ranking block_order "\<lambda>e. (Down (bc_since_unix_ms (snd e)), fst e)" fst
  by unfold_locales (auto simp: block_order_def cmp_keys)

interpretation block_file: durable_file "[block_list_file]" write_json_durable
  by (rule durable_file_write) simp

lemma map_of_block:
  "map_of (fst (block a now bl)) = (if snd (block a now bl) then (map_of bl)(a \<mapsto> \<lparr>bc_since_unix_ms = now\<rparr>) else map_of bl)"
  by (auto simp: block_def)

lemma map_of_unblock: "map_of (fst (unblock a bl)) = (map_of bl)(a := None)"
  by (auto simp: unblock_def)

text \<open>
  The block list in memory is the one on the disk. Whatever change is committed and whatever
  the disk does, a commit that answers an error, or that there was nothing to change, leaves the
  list as it was; and if the file held the list before, it holds the list after.
\<close>

theorem block_list_agrees:
  assumes ok: "serde_ok same_blocked s"
    and before: "\<exists>v. stored s (dir @ [block_list_file]) d = Some v \<and> same_blocked v bl"
    and run: "commit_blocked s dir change bl d = (bl', d', r)"
  shows "(bl' = (if r = Inr True then fst (change bl) else bl)) \<and>
    (\<exists>v. stored s (dir @ [block_list_file]) d' = Some v \<and> same_blocked v bl')"
proof -
  obtain bn changed where c: "change bl = (bn, changed)" by fastforce
  show ?thesis
  proof (cases changed)
    case False
    then show ?thesis using run before c by (auto simp: commit_blocked_def)
  next
    case True
    obtain d1 r1 where sv: "write_json_durable s (dir @ [block_list_file]) bn d = (d1, r1)" by fastforce
    then have out: "bl' = (case r1 of Inl _ \<Rightarrow> bl | Inr _ \<Rightarrow> bn)" "d' = d1"
      "r = (case r1 of Inl e \<Rightarrow> Inl e | Inr _ \<Rightarrow> Inr True)"
      using run c True by (auto simp: commit_blocked_def save_blocked_def split: sum.splits)
    obtain v0 where "stored s (dir @ [block_list_file]) d = Some v0 \<and> same_blocked v0 bl" using before by blast
    from block_file.follows [OF ok this sv out(1)] show ?thesis
      using out c by (cases r1) auto
  qed
qed

lemma block_list_agrees_witness:
  "\<exists>d'. commit_blocked (two_values [] (fst (block ''x'' 5 []))) [] (block ''x'' 5) [] \<lparr>files = [([block_list_file], [0])], faults = []\<rparr>
      = (fst (block ''x'' 5 []), d', Inr True) \<and>
    (\<exists>v. stored (two_values [] (fst (block ''x'' 5 []))) [block_list_file] d' = Some v \<and> map_of v ''x'' = Some \<lparr>bc_since_unix_ms = 5\<rparr>)"
proof -
  let ?s = "two_values [] (fst (block ''x'' 5 []))" and ?d = "\<lparr>files = [([block_list_file], [0])], faults = []\<rparr> :: disk"
  obtain bl d' r where run: "commit_blocked ?s [] (block ''x'' 5) [] ?d = (bl, d', r)" by (metis prod_cases3)
  have r: "r = Inr True"
    using run by (simp add: commit_blocked_def block_def save_blocked_def write_json_durable_def two_values_def
        atomic_write_def parent_def file_name_def Let_def)
  have ok: "serde_ok same_blocked ?s" by (rule two_values_ok) (simp add: same_blocked_def)
  have before: "\<exists>v. stored ?s ([] @ [block_list_file]) ?d = Some v \<and> same_blocked v []"
    by (simp add: stored_def content_def two_values_def same_blocked_def)
  from block_list_agrees [OF ok before run] show ?thesis
    using run r by (auto simp: same_blocked_def map_of_block block_def)
qed

end
