(* ===== verification/History_Fill.thy ===== *)
theory History_Fill
  imports Json_Store Rust_Str Chain_Error
begin

text \<open>
  The history fill (\<open>rust/chain/src/history_fill.rs\<close>): the requests to an untrusted indexer,
  the page walker, and the files that keep the user's choice, the resume points with the erase
  floor, and what the last backup covered. The HTTP client is a parameter: what it answers to
  the walker's calls.
\<close>

section \<open>The client\<close>

definition default_indexer :: string where
  "default_indexer = ''https://indexer.kasia.fyi''"

definition page_limit :: nat where
  "page_limit = 50"

definition page_budget :: nat where
  "page_budget = 40"

record indexer_handshake =
  ih_tx_id :: string
  ih_sender :: string
  ih_receiver :: string
  ih_block_time :: nat
  ih_message_payload :: string

record indexer_comm =
  ic_tx_id :: string
  ic_sender :: string
  ic_alias :: string
  ic_block_time :: nat
  ic_message_payload :: string

record indexer_self_stash =
  is_tx_id :: string
  is_block_time :: nat
  is_stashed_data :: string

definition trim_end_char :: "char \<Rightarrow> string \<Rightarrow> string" where
  "trim_end_char c s = rev (dropWhile (\<lambda>x. x = c) (rev s))"

definition indexer_client :: "string \<Rightarrow> chain_error + string" where
  "indexer_client base =
     (let base = trim_end_char (CHR ''/'') (trim base) in
      if \<not> (starts_with base ''https://'' \<or> starts_with base ''http://'')
      then Inl (Message ''indexer endpoint must be an http(s) URL'')
      else Inr base)"

definition hex_table :: string where
  "hex_table = ''0123456789abcdef''"

definition encode_hex :: "bytes \<Rightarrow> string" where
  "encode_hex bs = concat (map (\<lambda>b. [hex_table ! unat (drop_bit 4 b), hex_table ! unat (b AND 0x0F)]) bs)"

fun decode_pairs :: "string \<Rightarrow> bytes option" where
  "decode_pairs (a # b # s) = (case hex_value a of None \<Rightarrow> None | Some h \<Rightarrow>
     (case hex_value b of None \<Rightarrow> None | Some l \<Rightarrow>
      map_option (\<lambda>bs. (push_bit 4 (of_nat h) OR of_nat l) # bs) (decode_pairs s)))"
| "decode_pairs s = Some []"

definition decode_hex :: "string \<Rightarrow> bytes option" where
  "decode_hex text = (if length text mod 2 \<noteq> 0 then None else decode_pairs text)"

definition handshakes_url :: "string \<Rightarrow> string \<Rightarrow> nat \<Rightarrow> string" where
  "handshakes_url base receiver since = base @ ''/handshakes/by-receiver?address='' @ receiver
     @ ''&block_time='' @ decimal since @ ''&limit='' @ decimal page_limit"

definition comms_url :: "string \<Rightarrow> string \<Rightarrow> string \<Rightarrow> nat \<Rightarrow> string" where
  "comms_url base sender alias_hex since = base @ ''/contextual-messages/by-sender?address='' @ sender
     @ ''&alias='' @ alias_hex @ ''&block_time='' @ decimal since @ ''&limit='' @ decimal page_limit"

definition self_stash_url :: "string \<Rightarrow> string \<Rightarrow> string \<Rightarrow> nat \<Rightarrow> string" where
  "self_stash_url base owner scope since = base @ ''/self-stash/by-owner?owner='' @ owner
     @ ''&scope='' @ encode_hex (ascii scope) @ ''&block_time='' @ decimal since
     @ ''&limit='' @ decimal page_limit"

section \<open>The page walker\<close>

record 'a walk_outcome =
  wo_items :: "'a list"
  wo_cursor :: nat
  wo_complete :: bool
  wo_pages :: nat
  wo_error :: "string option"

definition future_skew_ms :: nat where
  "future_skew_ms = 10 * 60 * 1000"

definition page_wall :: string where
  "page_wall =
     ''page wall: a full page yielded no new rows (same-block_time cluster past the API's reach)''"

text \<open>
  What the walk holds between pages. The rows of an answer are read through the two accessors
  of \<open>FillItem\<close>.
\<close>

record 'a walking =
  wk_cursor :: nat
  wk_seen :: "string hset"
  wk_items :: "'a list"
  wk_progressed :: bool

definition take_row :: "('a \<Rightarrow> string) \<Rightarrow> ('a \<Rightarrow> nat) \<Rightarrow> nat \<Rightarrow> 'a walking \<Rightarrow> 'a \<Rightarrow> 'a walking" where
  "take_row tx_id block_time ceiling w item =
     (if block_time item > ceiling then w
      else
        let w = w\<lparr>wk_cursor := max (wk_cursor w) (block_time item)\<rparr> in
        if tx_id item \<notin> set (wk_seen w)
        then w\<lparr>wk_seen := hset_insert (tx_id item) (wk_seen w), wk_progressed := True,
               wk_items := wk_items w @ [item]\<rparr>
        else w)"

text \<open>
  The loop. \<open>fetch n c\<close> is the answer to the \<open>n\<close>-th request, made from the cursor \<open>c\<close>; the
  budget bounds the requests, so the loop ends whatever they answer.
\<close>

function walk_loop ::
  "('a \<Rightarrow> string) \<Rightarrow> ('a \<Rightarrow> nat) \<Rightarrow> (nat \<Rightarrow> nat \<Rightarrow> chain_error + 'a list) \<Rightarrow> nat \<Rightarrow> nat \<Rightarrow> 'a walking
     \<Rightarrow> 'a walk_outcome" where
  "walk_loop tx_id block_time fetch ceiling pages w =
     (if page_budget \<le> pages
      then \<lparr>wo_items = wk_items w, wo_cursor = wk_cursor w, wo_complete = False, wo_pages = pages, wo_error = None\<rparr>
      else (case fetch pages (wk_cursor w) of
        Inl e \<Rightarrow> \<lparr>wo_items = wk_items w, wo_cursor = wk_cursor w, wo_complete = False, wo_pages = pages,
                  wo_error = Some (show_error e)\<rparr>
      | Inr page \<Rightarrow>
          let pages = pages + 1;
              w = foldl (take_row tx_id block_time ceiling) (w\<lparr>wk_progressed := False\<rparr>) page
          in if length page < page_limit
             then \<lparr>wo_items = wk_items w, wo_cursor = wk_cursor w, wo_complete = True, wo_pages = pages,
                   wo_error = None\<rparr>
             else if \<not> wk_progressed w
             then \<lparr>wo_items = wk_items w, wo_cursor = wk_cursor w, wo_complete = False, wo_pages = pages,
                   wo_error = Some page_wall\<rparr>
             else walk_loop tx_id block_time fetch ceiling pages w))"
  by pat_completeness auto
termination
  by (relation "measure (\<lambda>(_, _, _, _, pages, _). page_budget - pages)") auto

declare walk_loop.simps [simp del]

definition walk_pages ::
  "('a \<Rightarrow> string) \<Rightarrow> ('a \<Rightarrow> nat) \<Rightarrow> (nat \<Rightarrow> nat \<Rightarrow> chain_error + 'a list) \<Rightarrow> nat \<Rightarrow> nat \<Rightarrow> 'a walk_outcome" where
  "walk_pages tx_id block_time fetch start now =
     walk_loop tx_id block_time fetch (saturating_add now future_skew_ms) 0
       \<lparr>wk_cursor = start, wk_seen = [], wk_items = [], wk_progressed = False\<rparr>"

section \<open>Configuration, cursors, backup coverage\<close>

record fill_config =
  fg_enabled :: bool
  fg_endpoint :: string

definition default_config :: fill_config where
  "default_config = \<lparr>fg_enabled = False, fg_endpoint = default_indexer\<rparr>"

record fill_cursors =
  fc_handshakes :: "(string, nat) hmap"
  fc_comms :: "(string, nat) hmap"
  fc_stash :: "(string, nat) hmap"
  fc_floor_unix_ms :: nat

definition no_cursors :: fill_cursors where
  "no_cursors = \<lparr>fc_handshakes = [], fc_comms = [], fc_stash = [], fc_floor_unix_ms = 0\<rparr>"

record stash_state =
  st_last_unix_ms :: nat
  st_last_txid :: string
  st_covered :: "string list"
  st_confirmed_readable :: bool

definition no_stash :: stash_state where
  "no_stash = \<lparr>st_last_unix_ms = 0, st_last_txid = [], st_covered = [], st_confirmed_readable = False\<rparr>"

definition config_file :: string where "config_file = ''fill.config''"
definition cursors_file :: string where "cursors_file = ''fill.cursors''"
definition stash_state_file :: string where "stash_state_file = ''stash.state''"

definition load_stash_state :: "stash_state serde \<Rightarrow> path \<Rightarrow> disk \<Rightarrow> disk \<times> stash_state" where
  "load_stash_state s dir d = read_json s no_stash (dir @ [stash_state_file]) d"

definition save_stash_state :: "stash_state serde \<Rightarrow> path \<Rightarrow> stash_state \<Rightarrow> disk \<Rightarrow> disk \<times> (file_error + unit)" where
  "save_stash_state s dir v d = write_json s (dir @ [stash_state_file]) v d"

definition load_config :: "fill_config serde \<Rightarrow> path \<Rightarrow> disk \<Rightarrow> disk \<times> fill_config" where
  "load_config s dir d = read_json s default_config (dir @ [config_file]) d"

definition save_config ::
  "fill_config serde \<Rightarrow> path \<Rightarrow> fill_config \<Rightarrow> disk \<Rightarrow> disk \<times> (chain_error + file_error + unit)" where
  "save_config s dir v d = (case indexer_client (fg_endpoint v) of
     Inl e \<Rightarrow> (d, Inl e)
   | Inr _ \<Rightarrow> (case write_json s (dir @ [config_file]) v d of (d, r) \<Rightarrow> (d, Inr r)))"

definition load_cursors :: "fill_cursors serde \<Rightarrow> path \<Rightarrow> disk \<Rightarrow> disk \<times> fill_cursors" where
  "load_cursors s dir d = read_json s no_cursors (dir @ [cursors_file]) d"

definition save_cursors :: "fill_cursors serde \<Rightarrow> path \<Rightarrow> fill_cursors \<Rightarrow> disk \<Rightarrow> disk \<times> (file_error + unit)" where
  "save_cursors s dir v d = write_json_durable s (dir @ [cursors_file]) v d"

definition start_at :: "fill_cursors \<Rightarrow> (string, nat) hmap \<Rightarrow> string \<Rightarrow> nat" where
  "start_at c lane key = max (case hget lane key of None \<Rightarrow> 0 | Some n \<Rightarrow> n) (fc_floor_unix_ms c)"

definition raise_floor :: "fill_cursors \<Rightarrow> nat \<Rightarrow> fill_cursors \<times> nat" where
  "raise_floor c now =
     (let c = c\<lparr>fc_floor_unix_ms := max (fc_floor_unix_ms c) now\<rparr> in (c, fc_floor_unix_ms c))"

end
