(* ===== verification/History_Fill_Props.thy ===== *)
theory History_Fill_Props
  imports History_Fill
begin

text \<open>
  What the history fill promises: whatever the indexer answers, a walk is bounded, takes each
  transaction once, takes nothing dated past the skew and asks for nothing before its start;
  an indexer that answers honestly is drained, over as many runs as it takes; an erase is
  never walked back behind its floor; the alias encoding round-trips.
\<close>

section \<open>One page\<close>

text \<open>What the walk's state always satisfies.\<close>

definition walk_ok :: "('a \<Rightarrow> string) \<Rightarrow> ('a \<Rightarrow> nat) \<Rightarrow> nat \<Rightarrow> nat \<Rightarrow> 'a walking \<Rightarrow> bool" where
  "walk_ok tx bt ceiling start w \<longleftrightarrow>
     set (wk_seen w) = tx ` set (wk_items w) \<and> distinct (map tx (wk_items w)) \<and>
     list_all (\<lambda>i. bt i \<le> ceiling \<and> bt i \<le> wk_cursor w) (wk_items w) \<and>
     start \<le> wk_cursor w \<and> wk_cursor w \<le> max start ceiling"

lemma take_row_ok: "walk_ok tx bt ceiling start w \<Longrightarrow> walk_ok tx bt ceiling start (take_row tx bt ceiling w r)"
  by (auto simp: walk_ok_def take_row_def Let_def list_all_iff le_max_iff_disj)

lemma take_row_facts:
  "wk_cursor w \<le> wk_cursor (take_row tx bt ceiling w r)"
  "bt r \<le> ceiling \<Longrightarrow> bt r \<le> wk_cursor (take_row tx bt ceiling w r)"
  "wk_cursor (take_row tx bt ceiling w r) = wk_cursor w \<or>
     (bt r \<le> ceiling \<and> wk_cursor (take_row tx bt ceiling w r) = bt r)"
  "set (wk_items w) \<subseteq> set (wk_items (take_row tx bt ceiling w r))"
  "set (wk_items (take_row tx bt ceiling w r)) \<subseteq> insert r (set (wk_items w))"
  "set (wk_seen (take_row tx bt ceiling w r)) = (if bt r \<le> ceiling then {tx r} else {}) \<union> set (wk_seen w)"
  "wk_progressed (take_row tx bt ceiling w r) \<longleftrightarrow>
     wk_progressed w \<or> bt r \<le> ceiling \<and> tx r \<notin> set (wk_seen w)"
  by (auto simp: take_row_def Let_def)

lemma page_ok: "walk_ok tx bt ceiling start w \<Longrightarrow> walk_ok tx bt ceiling start (foldl (take_row tx bt ceiling) w page)"
  by (induction page arbitrary: w) (simp_all add: take_row_ok)

lemma page_cursor:
  "wk_cursor w \<le> wk_cursor (foldl (take_row tx bt ceiling) w page)"
  "r \<in> set page \<Longrightarrow> bt r \<le> ceiling \<Longrightarrow> bt r \<le> wk_cursor (foldl (take_row tx bt ceiling) w page)"
  "wk_cursor (foldl (take_row tx bt ceiling) w page) = wk_cursor w \<or>
     (\<exists>r \<in> set page. bt r \<le> ceiling \<and> wk_cursor (foldl (take_row tx bt ceiling) w page) = bt r)"
proof -
  show up: "wk_cursor w \<le> wk_cursor (foldl (take_row tx bt ceiling) w page)" for w page
    by (induction page arbitrary: w) (auto intro: order_trans take_row_facts(1))
  show "r \<in> set page \<Longrightarrow> bt r \<le> ceiling \<Longrightarrow> bt r \<le> wk_cursor (foldl (take_row tx bt ceiling) w page)"
    by (induction page arbitrary: w) (auto intro: order_trans [OF take_row_facts(2) up])
  show "wk_cursor (foldl (take_row tx bt ceiling) w page) = wk_cursor w \<or>
     (\<exists>r \<in> set page. bt r \<le> ceiling \<and> wk_cursor (foldl (take_row tx bt ceiling) w page) = bt r)"
  proof (induction page arbitrary: w)
    case (Cons r page)
    let ?w = "take_row tx bt ceiling w r"
    have "wk_cursor (foldl (take_row tx bt ceiling) w (r # page)) = wk_cursor (foldl (take_row tx bt ceiling) ?w page)"
      by simp
    then show ?case
      using Cons.IH [of ?w] take_row_facts(3) [of tx bt ceiling w r] by (metis list.set_intros)
  qed simp
qed

lemma page_items:
  "set (wk_items (foldl (take_row tx bt ceiling) w page)) \<subseteq> set (wk_items w) \<union> set page"
proof (induction page arbitrary: w)
  case (Cons r page)
  then show ?case using take_row_facts(5) [of tx bt ceiling w r] by fastforce
qed simp

lemma page_keeps: "set (wk_items w) \<subseteq> set (wk_items (foldl (take_row tx bt ceiling) w page))"
proof (induction page arbitrary: w)
  case (Cons r page)
  then show ?case using take_row_facts(4) [of w tx bt ceiling r] by fastforce
qed simp

lemma page_seen:
  "set (wk_seen (foldl (take_row tx bt ceiling) w page)) = set (wk_seen w) \<union> tx ` {r \<in> set page. bt r \<le> ceiling}"
  by (induction page arbitrary: w) (auto simp: take_row_facts(6))

lemma page_progressed:
  "wk_progressed (foldl (take_row tx bt ceiling) w page) \<longleftrightarrow>
     wk_progressed w \<or> (\<exists>r \<in> set page. bt r \<le> ceiling \<and> tx r \<notin> set (wk_seen w))"
  by (induction page arbitrary: w) (auto simp: take_row_facts(6,7))

section \<open>A walk\<close>

text \<open>The page the loop takes next, and its five ways on.\<close>

definition after_page :: "('a \<Rightarrow> string) \<Rightarrow> ('a \<Rightarrow> nat) \<Rightarrow> nat \<Rightarrow> 'a walking \<Rightarrow> 'a list \<Rightarrow> 'a walking" where
  "after_page tx bt ceiling w page = foldl (take_row tx bt ceiling) (w\<lparr>wk_progressed := False\<rparr>) page"

definition ended :: "'a walking \<Rightarrow> bool \<Rightarrow> nat \<Rightarrow> string option \<Rightarrow> 'a walk_outcome" where
  "ended w complete pages error = \<lparr>wo_items = wk_items w, wo_cursor = wk_cursor w, wo_complete = complete,
     wo_pages = pages, wo_error = error\<rparr>"

lemma walk_loop_budget: "page_budget \<le> pages \<Longrightarrow> walk_loop tx bt fetch ceiling pages w = ended w False pages None"
  by (simp add: walk_loop.simps ended_def)

lemma walk_loop_error:
  "pages < page_budget \<Longrightarrow> fetch pages (wk_cursor w) = Inl e \<Longrightarrow>
   walk_loop tx bt fetch ceiling pages w = ended w False pages (Some (show_error e))"
  by (simp add: walk_loop.simps ended_def)

lemma walk_loop_page:
  "pages < page_budget \<Longrightarrow> fetch pages (wk_cursor w) = Inr page \<Longrightarrow>
   walk_loop tx bt fetch ceiling pages w =
     (if length page < page_limit then ended (after_page tx bt ceiling w page) True (pages + 1) None
      else if \<not> wk_progressed (after_page tx bt ceiling w page)
      then ended (after_page tx bt ceiling w page) False (pages + 1) (Some page_wall)
      else walk_loop tx bt fetch ceiling (pages + 1) (after_page tx bt ceiling w page))"
  by (subst walk_loop.simps) (simp add: ended_def after_page_def Let_def)

lemma walk_loop_short:
  "pages < page_budget \<Longrightarrow> fetch pages (wk_cursor w) = Inr page \<Longrightarrow> length page < page_limit \<Longrightarrow>
   walk_loop tx bt fetch ceiling pages w = ended (after_page tx bt ceiling w page) True (pages + 1) None"
  by (simp add: walk_loop_page)

lemma walk_induct [case_names budget error page]:
  assumes budget: "\<And>pages w. page_budget \<le> pages \<Longrightarrow> P pages w"
    and error: "\<And>pages w e. pages < page_budget \<Longrightarrow> fetch pages (wk_cursor w) = Inl e \<Longrightarrow> P pages w"
    and page: "\<And>pages w page. pages < page_budget \<Longrightarrow> fetch pages (wk_cursor w) = Inr page \<Longrightarrow>
      P (pages + 1) (after_page tx bt ceiling w page) \<Longrightarrow> P pages w"
  shows "P pages (w :: 'a walking)"
proof (induction "page_budget - pages" arbitrary: pages w rule: less_induct)
  case (less pages w)
  show ?case
  proof (cases "page_budget \<le> pages")
    case False
    then show ?thesis
      using error page less by (cases "fetch pages (wk_cursor w)") auto
  qed (rule budget)
qed

definition outcome_ok :: "('a \<Rightarrow> string) \<Rightarrow> ('a \<Rightarrow> nat) \<Rightarrow> nat \<Rightarrow> nat \<Rightarrow> 'a walk_outcome \<Rightarrow> bool" where
  "outcome_ok tx bt ceiling start out \<longleftrightarrow>
    distinct (map tx (wo_items out)) \<and> list_all (\<lambda>i. bt i \<le> ceiling) (wo_items out) \<and>
    start \<le> wo_cursor out \<and> wo_cursor out \<le> max start ceiling \<and> wo_pages out \<le> page_budget \<and>
    (wo_complete out \<longrightarrow> wo_error out = None) \<and>
    (\<not> wo_complete out \<and> wo_error out = None \<longrightarrow> wo_pages out = page_budget)"

lemma after_page_ok: "walk_ok tx bt ceiling start w \<Longrightarrow> walk_ok tx bt ceiling start (after_page tx bt ceiling w page)"
  unfolding after_page_def by (rule page_ok) (simp add: walk_ok_def)

lemma ended_ok:
  assumes "walk_ok tx bt ceiling start w" and "pages \<le> page_budget"
    and "complete \<longrightarrow> error = None" and "\<not> complete \<and> error = None \<longrightarrow> pages = page_budget"
  shows "outcome_ok tx bt ceiling start (ended w complete pages error)"
  using assms by (auto simp: walk_ok_def outcome_ok_def ended_def list_all_iff)

lemma walk_loop_ok:
  "walk_ok tx bt ceiling start w \<Longrightarrow> pages \<le> page_budget \<Longrightarrow>
   outcome_ok tx bt ceiling start (walk_loop tx bt fetch ceiling pages w)"
proof (induction pages w rule: walk_induct [where fetch = fetch and tx = tx and bt = bt and ceiling = ceiling])
  case (budget pages w)
  then show ?case by (simp add: walk_loop_budget ended_ok)
next
  case (error pages w e)
  then show ?case by (simp add: walk_loop_error ended_ok)
next
  case (page pages w page)
  then show ?case using after_page_ok [OF page(4), of page]
    by (simp add: walk_loop_page ended_ok)
qed

lemma walk_loop_asks_after:
  assumes "\<And>n c. start \<le> c \<Longrightarrow> fetch' n c = fetch n c"
  shows "start \<le> wk_cursor w \<Longrightarrow> walk_loop tx bt fetch' ceiling pages w = walk_loop tx bt fetch ceiling pages w"
proof (induction pages w rule: walk_induct [where fetch = fetch and tx = tx and bt = bt and ceiling = ceiling])
  case (budget pages w)
  then show ?case by (simp add: walk_loop_budget)
next
  case (error pages w e)
  then show ?case using assms by (simp add: walk_loop_error)
next
  case (page pages w page)
  have "start \<le> wk_cursor (after_page tx bt ceiling w page)"
    using page_cursor(1) [of "w\<lparr>wk_progressed := False\<rparr>" tx bt ceiling page] page(4) by (simp add: after_page_def)
  then show ?case using page assms by (simp add: walk_loop_page)
qed

lemma walk_pages_ok: "outcome_ok tx bt (saturating_add now future_skew_ms) start (walk_pages tx bt fetch start now)"
  unfolding walk_pages_def by (rule walk_loop_ok) (simp_all add: walk_ok_def)

lemma walk_pages_asks_after:
  assumes "\<And>n c. start \<le> c \<Longrightarrow> fetch' n c = fetch n c"
  shows "walk_pages tx bt fetch' start now = walk_pages tx bt fetch start now"
  unfolding walk_pages_def by (rule walk_loop_asks_after [of start, OF assms]) simp_all

text \<open>
  A walk over an untrusted indexer is bounded. Whatever the indexer answers, the walk ends
  within its forty pages, takes a transaction id at most once and nothing dated past the skew
  allowance, never moves its cursor back or past that allowance, reports completeness only
  without an error, reports neither only at the full budget, and asks for nothing before the
  point it was started from.
\<close>

theorem walk_bounded:
  assumes "\<And>n c. start \<le> c \<Longrightarrow> fetch' n c = fetch n c"
  shows "case walk_pages tx bt fetch start now of out \<Rightarrow>
    distinct (map tx (wo_items out)) \<and> list_all (\<lambda>i. bt i \<le> saturating_add now future_skew_ms) (wo_items out) \<and>
    start \<le> wo_cursor out \<and> wo_cursor out \<le> max start (saturating_add now future_skew_ms) \<and>
    wo_pages out \<le> page_budget \<and> (wo_complete out \<longrightarrow> wo_error out = None) \<and>
    (\<not> wo_complete out \<and> wo_error out = None \<longrightarrow> wo_pages out = page_budget) \<and>
    walk_pages tx bt fetch' start now = out"
  using walk_pages_ok [of tx bt now start fetch] walk_pages_asks_after [of start fetch' fetch tx bt now, OF assms]
  by (simp add: outcome_ok_def)

lemma walk_bounded_witness:
  "walk_pages fst snd (\<lambda>n c. if n = 0 then Inr [(''a'', 5), (''b'', 10 ^ 9), (''a'', 7)] else Inl (Message ''down'')) 3 10
     = \<lparr>wo_items = [(''a'', 5)], wo_cursor = 7, wo_complete = True, wo_pages = 1, wo_error = None\<rparr> \<and>
   wo_pages (walk_pages fst snd (\<lambda>n c. if n = 0 then Inr [(''a'', 5), (''b'', 10 ^ 9), (''a'', 7)] else Inl (Message ''down'')) 3 10)
     \<le> page_budget"
proof -
  let ?f = "\<lambda>n c. if n = 0 then Inr [(''a'', 5), (''b'', 10 ^ 9), (''a'', 7)] else Inl (Message ''down'')"
  have "walk_pages fst snd ?f 3 10
     = \<lparr>wo_items = [(''a'', 5)], wo_cursor = 7, wo_complete = True, wo_pages = 1, wo_error = None\<rparr>"
    by (simp add: walk_pages_def walk_loop.simps page_budget_def page_limit_def Let_def take_row_def
        saturating_add_def future_skew_ms_def u64_max_def)
  then show ?thesis using walk_bounded [of 3 ?f ?f fst snd 10] by simp
qed

section \<open>An honest indexer\<close>

text \<open>
  It serves its rows in order of block time from the cursor on, inclusive, at most a page at a
  time, as its API documents.
\<close>

definition honest_answers :: "('a \<Rightarrow> nat) \<Rightarrow> 'a list \<Rightarrow> nat \<Rightarrow> nat \<Rightarrow> chain_error + 'a list" where
  "honest_answers bt rows n c = Inr (take page_limit (filter (\<lambda>r. c \<le> bt r) rows))"

definition walked ::
  "('a \<Rightarrow> string) \<Rightarrow> ('a \<Rightarrow> nat) \<Rightarrow> 'a list \<Rightarrow> nat \<Rightarrow> nat \<Rightarrow> 'a walking \<Rightarrow> bool" where
  "walked tx bt rows ceiling start w \<longleftrightarrow> walk_ok tx bt ceiling start w \<and>
     set (wk_items w) \<subseteq> {r \<in> set rows. start \<le> bt r} \<and>
     {r \<in> set rows. start \<le> bt r \<and> bt r < wk_cursor w \<and> bt r \<le> ceiling} \<subseteq> set (wk_items w)"

lemma take_sorted_below:
  assumes "sorted (map bt xs)" and "r0 \<in> set (take n xs)" and "r \<in> set xs" and "bt r < (bt r0 :: nat)"
  shows "r \<in> set (take n xs)"
proof (rule ccontr)
  assume "r \<notin> set (take n xs)"
  then have "r \<in> set (drop n xs)" using assms(3) by (metis UnE append_take_drop_id set_append)
  moreover have "sorted (map bt (take n xs) @ map bt (drop n xs))"
    using assms(1) by (metis append_take_drop_id map_append)
  ultimately have "bt r0 \<le> bt r" using assms(2) by (simp add: sorted_append)
  then show False using assms(4) by simp
qed

lemma after_page_cursor:
  "wk_cursor w \<le> wk_cursor (after_page tx bt ceiling w page)"
  "r \<in> set page \<Longrightarrow> bt r \<le> ceiling \<Longrightarrow> bt r \<le> wk_cursor (after_page tx bt ceiling w page)"
  "wk_cursor (after_page tx bt ceiling w page) \<noteq> wk_cursor w \<Longrightarrow>
     \<exists>r \<in> set page. wk_cursor (after_page tx bt ceiling w page) = bt r"
  using page_cursor(1) [of "w\<lparr>wk_progressed := False\<rparr>" tx bt ceiling page]
    page_cursor(2) [of r page bt ceiling tx "w\<lparr>wk_progressed := False\<rparr>"]
    page_cursor(3) [of tx bt ceiling "w\<lparr>wk_progressed := False\<rparr>" page]
  by (auto simp: after_page_def)

lemma after_page_items:
  "set (wk_items (after_page tx bt ceiling w page)) \<subseteq> set (wk_items w) \<union> set page"
  "set (wk_items w) \<subseteq> set (wk_items (after_page tx bt ceiling w page))"
  using page_items [of tx bt ceiling "w\<lparr>wk_progressed := False\<rparr>" page]
    page_keeps [of "w\<lparr>wk_progressed := False\<rparr>" tx bt ceiling page]
  by (simp_all add: after_page_def)

lemma after_page_takes:
  assumes ok: "walk_ok tx bt ceiling start w" and rows: "set (wk_items w) \<union> set page \<subseteq> set rows"
    and dist: "distinct (map tx rows)" and r: "r \<in> set page" "bt r \<le> ceiling"
  shows "r \<in> set (wk_items (after_page tx bt ceiling w page))"
proof -
  let ?w = "after_page tx bt ceiling w page"
  have "tx r \<in> set (wk_seen ?w)" using r page_seen [of tx bt ceiling "w\<lparr>wk_progressed := False\<rparr>" page]
    by (auto simp: after_page_def)
  then obtain i where i: "i \<in> set (wk_items ?w)" "tx i = tx r"
    using after_page_ok [OF ok, of page] by (auto simp: walk_ok_def)
  then have "i \<in> set rows" "r \<in> set rows" using after_page_items(1) [of tx bt ceiling w page] rows r(1) by blast+
  then have "i = r" using dist i(2) by (auto simp: distinct_map inj_on_def)
  then show ?thesis using i(1) by simp
qed

lemma walked_page:
  assumes w: "walked tx bt rows ceiling start w" and sorted: "sorted (map bt rows)" and dist: "distinct (map tx rows)"
    and page: "page = take page_limit (filter (\<lambda>r. wk_cursor w \<le> bt r) rows)"
  shows "walked tx bt rows ceiling start (after_page tx bt ceiling w page)"
proof -
  let ?w = "after_page tx bt ceiling w page"
  let ?from = "filter (\<lambda>r. wk_cursor w \<le> bt r) rows"
  have ok: "walk_ok tx bt ceiling start w" using w by (simp add: walked_def)
  have sub: "set page \<subseteq> {r \<in> set rows. start \<le> bt r}"
    using ok page by (auto simp: walk_ok_def dest!: in_set_takeD)
  have rows: "set (wk_items w) \<union> set page \<subseteq> set rows" using sub w by (auto simp: walked_def)
  have "r \<in> set (wk_items ?w)" if r: "r \<in> set rows" "start \<le> bt r" "bt r < wk_cursor ?w" "bt r \<le> ceiling" for r
  proof (cases "bt r < wk_cursor w")
    case True
    then have "r \<in> set (wk_items w)" using r w by (auto simp: walked_def)
    then show ?thesis using after_page_items(2) [of w tx bt ceiling page] by blast
  next
    case False
    then obtain r0 where r0: "r0 \<in> set page" "wk_cursor ?w = bt r0"
      using r(3) after_page_cursor(3) [of tx bt ceiling w page] by force
    have "sorted (map bt ?from)" using sorted by (rule sorted_filter)
    then have "r \<in> set page"
      using take_sorted_below [of bt ?from r0 page_limit r] r0 r False page by simp
    then show ?thesis by (rule after_page_takes [OF ok rows dist _ r(4)])
  qed
  then show ?thesis
    using after_page_ok [OF ok] after_page_items(1) [of tx bt ceiling w page] sub w
    by (auto simp: walked_def)
qed

text \<open>A short page leaves nothing out.\<close>

lemma walked_short:
  assumes w: "walked tx bt rows ceiling start w" and sorted: "sorted (map bt rows)" and dist: "distinct (map tx rows)"
    and page: "page = take page_limit (filter (\<lambda>r. wk_cursor w \<le> bt r) rows)" and short: "length page < page_limit"
  shows "set (wk_items (after_page tx bt ceiling w page)) = {r \<in> set rows. start \<le> bt r \<and> bt r \<le> ceiling}"
proof -
  let ?w = "after_page tx bt ceiling w page"
  have all: "page = filter (\<lambda>r. wk_cursor w \<le> bt r) rows" using page short by auto
  have ok: "walk_ok tx bt ceiling start w" using w by (simp add: walked_def)
  have next_ok: "walked tx bt rows ceiling start ?w" by (rule walked_page [OF w sorted dist page])
  have rows: "set (wk_items w) \<union> set page \<subseteq> set rows" using w all by (auto simp: walked_def)
  have "r \<in> set (wk_items ?w)" if "r \<in> set rows" "start \<le> bt r" "bt r \<le> ceiling" for r
  proof (cases "wk_cursor w \<le> bt r")
    case True
    then show ?thesis using after_page_takes [OF ok rows dist _ that(3)] that(1) all by simp
  next
    case False
    then have "r \<in> set (wk_items w)" using that w by (auto simp: walked_def)
    then show ?thesis using after_page_items(2) [of w tx bt ceiling page] by blast
  qed
  then show ?thesis using next_ok by (auto simp: walked_def walk_ok_def list_all_iff)
qed

text \<open>A full page takes the cursor on, when no block time has a page of rows to itself.\<close>

lemma walked_full:
  assumes w: "walked tx bt rows ceiling start w"
    and page: "page = take page_limit (filter (\<lambda>r. wk_cursor w \<le> bt r) rows)" and full: "\<not> length page < page_limit"
    and no_wall: "length (filter (\<lambda>r. bt r = wk_cursor w) rows) < page_limit"
    and now: "list_all (\<lambda>r. bt r \<le> ceiling) rows" and dist: "distinct (map tx rows)"
  shows "wk_cursor w < wk_cursor (after_page tx bt ceiling w page) \<and> wk_progressed (after_page tx bt ceiling w page)"
proof -
  have len: "length page = page_limit" using page full by simp
  have "\<exists>r \<in> set page. bt r \<noteq> wk_cursor w"
  proof (rule ccontr)
    assume "\<not> (\<exists>r \<in> set page. bt r \<noteq> wk_cursor w)"
    then have "filter (\<lambda>r. bt r = wk_cursor w) page = page" by (simp add: filter_id_conv)
    moreover have "length (filter (\<lambda>r. bt r = wk_cursor w) page) \<le> length (filter (\<lambda>r. bt r = wk_cursor w) rows)"
    proof -
      let ?from = "filter (\<lambda>r. wk_cursor w \<le> bt r) rows"
      have "filter (\<lambda>r. bt r = wk_cursor w) ?from
          = filter (\<lambda>r. bt r = wk_cursor w) page @ filter (\<lambda>r. bt r = wk_cursor w) (drop page_limit ?from)"
        unfolding page by (metis append_take_drop_id filter_append)
      moreover have "filter (\<lambda>r. bt r = wk_cursor w) ?from = filter (\<lambda>r. bt r = wk_cursor w) rows"
        by (auto intro: filter_cong)
      ultimately show ?thesis by (metis le_add1 length_append)
    qed
    ultimately show False using no_wall len by simp
  qed
  then obtain r where r: "r \<in> set page" "bt r \<noteq> wk_cursor w" by blast
  have "r \<in> set rows" "wk_cursor w \<le> bt r" using r(1) page by (auto dest: in_set_takeD)
  then have later: "wk_cursor w < bt r" "bt r \<le> ceiling" using r(2) now by (auto simp: list_all_iff)
  have "tx r \<notin> set (wk_seen w)"
  proof
    assume "tx r \<in> set (wk_seen w)"
    then obtain i where i: "i \<in> set (wk_items w)" "tx i = tx r" using w by (auto simp: walked_def walk_ok_def)
    then have "i \<in> set rows" "bt i \<le> wk_cursor w"
      using w by (auto simp: walked_def walk_ok_def list_all_iff)
    then show False using i(2) \<open>r \<in> set rows\<close> dist later(1) by (auto simp: distinct_map inj_on_def)
  qed
  then have "wk_progressed (after_page tx bt ceiling w page)"
    using r(1) later(2) page_progressed [of tx bt ceiling "w\<lparr>wk_progressed := False\<rparr>" page]
    by (auto simp: after_page_def)
  then show ?thesis using after_page_cursor(2) [where tx = tx and w = w and bt = bt and ceiling = ceiling and page = page and r = r, OF r(1) later(2)] later(1) by simp
qed

text \<open>The walk of an honest indexer: complete with every row, or stopped at the budget, further on.\<close>

lemma honest_walk:
  assumes sorted: "sorted (map bt rows)" and dist: "distinct (map tx rows)"
  shows "walked tx bt rows ceiling start w \<Longrightarrow>
    wo_complete (walk_loop tx bt (honest_answers bt rows) ceiling pages w) \<Longrightarrow>
    set (wo_items (walk_loop tx bt (honest_answers bt rows) ceiling pages w))
      = {r \<in> set rows. start \<le> bt r \<and> bt r \<le> ceiling}"
proof (induction pages w rule: walk_induct [where fetch = "honest_answers bt rows" and tx = tx and bt = bt and ceiling = ceiling])
  case (page pages w page)
  then have p: "page = take page_limit (filter (\<lambda>r. wk_cursor w \<le> bt r) rows)" by (simp add: honest_answers_def)
  show ?case
    using page walked_short [OF page(4) sorted dist p] walked_page [OF page(4) sorted dist p]
    by (auto simp: walk_loop_page ended_def split: if_splits)
qed (simp_all add: walk_loop_budget walk_loop_error ended_def)

lemma honest_walk_on:
  assumes sorted: "sorted (map bt rows)" and dist: "distinct (map tx rows)"
    and no_wall: "\<And>t. length (filter (\<lambda>r. bt r = t) rows) < page_limit"
    and now: "list_all (\<lambda>r. bt r \<le> ceiling) rows"
  shows "walked tx bt rows ceiling start w \<Longrightarrow>
    case walk_loop tx bt (honest_answers bt rows) ceiling pages w of out \<Rightarrow>
      wo_error out = None \<and> set (wo_items out) \<subseteq> {r \<in> set rows. start \<le> bt r} \<and>
      {r \<in> set rows. start \<le> bt r \<and> bt r < wo_cursor out} \<subseteq> set (wo_items out) \<and>
      wk_cursor w \<le> wo_cursor out \<and> (pages < page_budget \<and> \<not> wo_complete out \<longrightarrow> wk_cursor w < wo_cursor out)"
proof (induction pages w rule: walk_induct [where fetch = "honest_answers bt rows" and tx = tx and bt = bt and ceiling = ceiling])
  case (budget pages w)
  then show ?case using now by (auto simp: walk_loop_budget ended_def walked_def list_all_iff)
next
  case (error pages w e)
  then show ?case by (simp add: honest_answers_def)
next
  case (page pages w page)
  then have p: "page = take page_limit (filter (\<lambda>r. wk_cursor w \<le> bt r) rows)" by (simp add: honest_answers_def)
  let ?w = "after_page tx bt ceiling w page"
  have w: "walked tx bt rows ceiling start ?w" by (rule walked_page [OF page(4) sorted dist p])
  show ?case
  proof (cases "length page < page_limit")
    case True
    then show ?thesis
      using page(1,2) w walked_short [OF page(4) sorted dist p True] after_page_cursor(1) [of w tx bt ceiling page] now
      by (auto simp: walk_loop_page ended_def walked_def list_all_iff)
  next
    case False
    then have on: "wk_cursor w < wk_cursor ?w" "wk_progressed ?w"
      using walked_full [OF page(4) p False no_wall now dist] by simp_all
    then have "walk_loop tx bt (honest_answers bt rows) ceiling pages w
        = walk_loop tx bt (honest_answers bt rows) ceiling (pages + 1) ?w"
      using page(1,2) False by (simp add: walk_loop_page)
    then show ?thesis using page(3) [OF w] on by auto
  qed
qed

section \<open>Runs\<close>

text \<open>Runs one after another, each from the cursor the one before left.\<close>

fun fill_runs ::
  "('a \<Rightarrow> string) \<Rightarrow> ('a \<Rightarrow> nat) \<Rightarrow> (nat \<Rightarrow> nat \<Rightarrow> chain_error + 'a list) \<Rightarrow> nat \<Rightarrow> nat \<Rightarrow> nat \<Rightarrow> 'a list \<times> bool" where
  "fill_runs tx bt fetch now 0 start = ([], False)"
| "fill_runs tx bt fetch now (Suc n) start =
     (let out = walk_pages tx bt fetch start now in
      if wo_complete out then (wo_items out, True)
      else (let (rest, complete) = fill_runs tx bt fetch now n (wo_cursor out) in (wo_items out @ rest, complete)))"

lemma walked_start:
  "walked tx bt rows ceiling start \<lparr>wk_cursor = start, wk_seen = [], wk_items = [], wk_progressed = False\<rparr>"
  by (auto simp: walked_def walk_ok_def)

lemma honest_pages:
  assumes "sorted (map bt rows)" and "distinct (map tx rows)"
    and "wo_complete (walk_pages tx bt (honest_answers bt rows) start now)"
  shows "set (wo_items (walk_pages tx bt (honest_answers bt rows) start now))
    = {r \<in> set rows. start \<le> bt r \<and> bt r \<le> saturating_add now future_skew_ms}"
  using honest_walk [OF assms(1,2) walked_start] assms(3) unfolding walk_pages_def by blast

text \<open>
  C33. Completeness is never claimed over missing history. Against an indexer that serves its
  rows as its API says, a walk that reports itself complete has taken every row from its start
  on that is not dated past the skew allowance, and nothing else.
\<close>

theorem complete_means_all:
  assumes "sorted (map bt rows)" and "distinct (map tx rows)"
    and "wo_complete (walk_pages tx bt (honest_answers bt rows) start now)"
  shows "set (wo_items (walk_pages tx bt (honest_answers bt rows) start now))
    = {r \<in> set rows. start \<le> bt r \<and> bt r \<le> saturating_add now future_skew_ms}"
  using assms by (rule honest_pages)

lemma complete_means_all_witness:
  "set (wo_items (walk_pages fst snd (honest_answers snd [(''a'', 1), (''b'', 5), (''c'', 7)]) 5 10))
    = {(''b'', 5), (''c'', 7)}"
proof -
  have s: "sorted (map snd [(''a'', 1 :: nat), (''b'', 5), (''c'', 7)])"
    and d: "distinct (map fst [(''a'', 1 :: nat), (''b'', 5), (''c'', 7)])" by simp_all
  have c: "wo_complete (walk_pages fst snd (honest_answers snd [(''a'', 1), (''b'', 5), (''c'', 7)]) 5 10)"
  proof -
    let ?w = "\<lparr>wk_cursor = 5, wk_seen = [], wk_items = [], wk_progressed = False\<rparr> :: (string \<times> nat) walking"
    have "honest_answers snd [(''a'', 1), (''b'', 5), (''c'', 7)] 0 (wk_cursor ?w) = Inr [(''b'', 5), (''c'', 7)]"
      by (simp add: honest_answers_def page_limit_def)
    then show ?thesis
      unfolding walk_pages_def
      by (subst walk_loop_short [where page = "[(''b'', 5), (''c'', 7)]"]) (simp_all add: page_budget_def page_limit_def ended_def)
  qed
  have now: "saturating_add 10 future_skew_ms = 600010"
    by (simp add: saturating_add_def future_skew_ms_def u64_max_def)
  have "{r \<in> set [(''a'', 1 :: nat), (''b'', 5), (''c'', 7)]. 5 \<le> snd r \<and> snd r \<le> 600010} = {(''b'', 5), (''c'', 7)}"
    by auto
  then show ?thesis using complete_means_all [OF s d c] unfolding now by (rule trans [rotated])
qed

text \<open>
  C34. Resumed runs drain an honest indexer. If no block time carries a full page of rows and
  none is dated past the skew allowance, then after finitely many runs, each from the cursor
  the last one left, a run reports itself complete, and the runs together have taken exactly
  the rows from the first start on.
\<close>

theorem fill_drains:
  assumes sorted: "sorted (map bt rows)" and dist: "distinct (map tx rows)"
    and no_wall: "\<And>t. length (filter (\<lambda>r. bt r = t) rows) < page_limit"
    and now: "list_all (\<lambda>r. bt r \<le> saturating_add now future_skew_ms) rows"
  shows "\<exists>n taken. fill_runs tx bt (honest_answers bt rows) now n start = (taken, True) \<and>
    set taken = {r \<in> set rows. start \<le> bt r}"
proof (induction "Suc (saturating_add now future_skew_ms) - start" arbitrary: start rule: less_induct)
  case less
  let ?C = "saturating_add now future_skew_ms"
  let ?out = "walk_pages tx bt (honest_answers bt rows) start now"
  show ?case
  proof (cases "wo_complete ?out")
    case True
    have "set (wo_items ?out) = {r \<in> set rows. start \<le> bt r}"
      using honest_pages [OF sorted dist True] now by (auto simp: list_all_iff)
    then show ?thesis using True by (intro exI [of _ "Suc 0"] exI [of _ "wo_items ?out"]) simp
  next
    case False
    have out: "set (wo_items ?out) \<subseteq> {r \<in> set rows. start \<le> bt r}"
      "{r \<in> set rows. start \<le> bt r \<and> bt r < wo_cursor ?out} \<subseteq> set (wo_items ?out)" "start < wo_cursor ?out"
      using honest_walk_on [where start = start and pages = 0, OF sorted dist no_wall now walked_start] False
      unfolding walk_pages_def by (simp_all add: page_budget_def)
    have "wo_cursor ?out \<le> max start ?C"
      using walk_pages_ok [of tx bt now start "honest_answers bt rows"] by (simp add: outcome_ok_def)
    then have "Suc ?C - wo_cursor ?out < Suc ?C - start" using out(3) by linarith
    from less [OF this] obtain n taken where n: "fill_runs tx bt (honest_answers bt rows) now n (wo_cursor ?out) = (taken, True)"
      and t: "set taken = {r \<in> set rows. wo_cursor ?out \<le> bt r}" by blast
    have "fill_runs tx bt (honest_answers bt rows) now (Suc n) start = (wo_items ?out @ taken, True)"
      using False n by simp
    moreover have "set (wo_items ?out @ taken) = {r \<in> set rows. start \<le> bt r}"
      using out t by (auto simp: not_le)
    ultimately show ?thesis by blast
  qed
qed

lemma fill_drains_witness:
  "\<exists>n taken. fill_runs fst snd (honest_answers snd [(''a'', 1), (''b'', 5), (''c'', 7)]) 10 n 5 = (taken, True) \<and>
    set taken = {(''b'', 5), (''c'', 7)}"
proof -
  let ?rows = "[(''a'', 1 :: nat), (''b'', 5), (''c'', 7)]"
  have s: "sorted (map snd ?rows)" and d: "distinct (map fst ?rows)" by simp_all
  have w: "length (filter (\<lambda>r. snd r = t) ?rows) < page_limit" for t by (simp add: page_limit_def)
  have n: "list_all (\<lambda>r. snd r \<le> saturating_add 10 future_skew_ms) ?rows"
    by (simp add: saturating_add_def future_skew_ms_def u64_max_def)
  have "{r \<in> set ?rows. 5 \<le> snd r} = {(''b'', 5), (''c'', 7)}" by auto
  then show ?thesis using fill_drains [OF s d w n, of 5] by simp
qed

section \<open>The erase floor\<close>

interpretation cursors: durable_file "[cursors_file]" write_json_durable
  by (rule durable_file_write) simp

definition same_cursors :: "fill_cursors \<Rightarrow> fill_cursors \<Rightarrow> bool" where
  "same_cursors a b \<longleftrightarrow> map_of (fc_handshakes a) = map_of (fc_handshakes b) \<and>
     map_of (fc_comms a) = map_of (fc_comms b) \<and> map_of (fc_stash a) = map_of (fc_stash b) \<and>
     fc_floor_unix_ms a = fc_floor_unix_ms b"

text \<open>
  An erase stands. Once the cursors are saved with the floor raised, what is read back from
  then on starts every lane and every key, walked before or not, at the floor or later, so no
  walk asks the indexer for anything older; a save that fails changes nothing in the file.
\<close>

theorem erase_floor_stands:
  assumes ok: "serde_ok same_cursors s"
    and run: "save_cursors s dir (fst (raise_floor c erased)) d = (d', r)"
    and same: "\<And>n t. erased \<le> t \<Longrightarrow> fetch' n t = fetch n t"
  shows "(r \<noteq> Inr () \<longrightarrow> stored s (dir @ [cursors_file]) d' = stored s (dir @ [cursors_file]) d) \<and>
    (r = Inr () \<longrightarrow> (\<exists>c'. stored s (dir @ [cursors_file]) d' = Some c' \<and>
       erased \<le> start_at c' lane key \<and>
       walk_pages tx bt fetch' (start_at c' lane key) now = walk_pages tx bt fetch (start_at c' lane key) now))"
proof (cases r)
  case (Inl e)
  then show ?thesis using cursors.kept [of s dir "fst (raise_floor c erased)" d d' e] run by (simp add: save_cursors_def)
next
  case (Inr u)
  then obtain c' where c': "stored s (dir @ [cursors_file]) d' = Some c'" "same_cursors c' (fst (raise_floor c erased))"
    using cursors.saved [OF ok, of dir "fst (raise_floor c erased)" d d'] run by (auto simp: save_cursors_def)
  then have at: "erased \<le> start_at c' lane key"
    by (auto simp: same_cursors_def start_at_def raise_floor_def Let_def)
  then have "walk_pages tx bt fetch' (start_at c' lane key) now = walk_pages tx bt fetch (start_at c' lane key) now"
    using walk_pages_asks_after [of "start_at c' lane key" fetch' fetch tx bt now] same by simp
  then show ?thesis using c' at Inr by simp
qed

lemma erase_floor_stands_witness:
  "\<exists>d' c'. save_cursors (two_values no_cursors (fst (raise_floor no_cursors 9))) [] (fst (raise_floor no_cursors 9)) \<lparr>files = [], faults = []\<rparr> = (d', Inr ()) \<and>
     stored (two_values no_cursors (fst (raise_floor no_cursors 9))) [cursors_file] d' = Some c' \<and> 9 \<le> start_at c' [] ''k''"
proof -
  let ?s = "two_values no_cursors (fst (raise_floor no_cursors 9))" and ?d = "\<lparr>files = [], faults = []\<rparr> :: disk"
  let ?fetch = "\<lambda>(n :: nat) (t :: nat). Inr [] :: chain_error + (string \<times> nat) list"
  obtain d' r where run: "save_cursors ?s [] (fst (raise_floor no_cursors 9)) ?d = (d', r)" by fastforce
  have r: "r = Inr ()"
    using run by (simp add: save_cursors_def write_json_durable_def two_values_def raise_floor_def no_cursors_def Let_def
        atomic_write_def parent_def file_name_def)
  have ok: "serde_ok same_cursors ?s" by (rule two_values_ok) (simp add: same_cursors_def)
  from erase_floor_stands [OF ok run, where fetch = ?fetch and fetch' = ?fetch and lane = "[]" and key = "''k''"]
  show ?thesis using run r by auto
qed

end
