(* ===== verification/Sends_Store_Props.thy ===== *)
theory Sends_Store_Props
  imports Sends_Store Kvlog_Durability
begin

text \<open>
  What the record of our sends promises: a coin and a file read back as they were written, a
  file that cannot be used is never written over, and of several snapshots in flight the newest
  that answered is the one on the disk.
\<close>

section \<open>Coins\<close>

lemma hex_table_values: "n < 16 \<Longrightarrow> hex_value (to_hex_digits ! n) = Some n \<and> to_hex_digits ! n \<noteq> CHR ''+''"
proof -
  have "list_all (\<lambda>n. hex_value (to_hex_digits ! n) = Some n \<and> to_hex_digits ! n \<noteq> CHR ''+'') [0..<16]" by code_simp
  then show "n < 16 \<Longrightarrow> hex_value (to_hex_digits ! n) = Some n \<and> to_hex_digits ! n \<noteq> CHR ''+''"
    by (simp add: list_all_iff)
qed

lemma nibbles:
  fixes b :: byte
  shows "unat (drop_bit 4 b) < 16" and "unat (b AND 0x0F) < 16" and "16 * unat (drop_bit 4 b) + unat (b AND 0x0F) = unat b"
proof -
  have low: "unat (b AND 0x0F) = unat b mod 16"
  proof -
    have "b AND 0x0F = take_bit 4 b" by (simp add: take_bit_eq_mask mask_eq_exp_minus_1)
    then have "unat (b AND 0x0F) = take_bit 4 (unat b)" by (simp only: unsigned_take_bit_eq)
    then show ?thesis by (simp only: take_bit_eq_mod) simp
  qed
  have high: "unat (drop_bit 4 b) = unat b div 16" by (simp add: drop_bit_eq_div unat_div_distrib)
  have "unat b < 256" using unsigned_less [of b] by simp
  then show "unat (drop_bit 4 b) < 16" "unat (b AND 0x0F) < 16" "16 * unat (drop_bit 4 b) + unat (b AND 0x0F) = unat b"
    unfolding low high by (simp_all add: less_mult_imp_div_less)
qed

lemma radix16_byte: "radix16 (to_hex_digits ! unat (drop_bit 4 b)) (to_hex_digits ! unat (b AND 0x0F)) = Some b"
proof -
  have "of_nat (16 * unat (drop_bit 4 b) + unat (b AND 0x0F)) = b" unfolding nibbles by simp
  then show ?thesis
    using hex_table_values [OF nibbles(1) [of b]] hex_table_values [OF nibbles(2) [of b]] by (simp add: radix16_def)
qed

lemma hex_round_trip: "from_hex (to_hex bs) = Some bs"
proof -
  have "length (to_hex bs) mod 2 = 0" by (induction bs) (simp_all add: to_hex_def)
  moreover have "from_hex_pairs (to_hex bs) = Some bs"
    by (induction bs) (simp_all add: to_hex_def radix16_byte)
  ultimately show ?thesis by (simp add: from_hex_def)
qed

text \<open>What the wallet library documents of its printers.\<close>

definition wallet_text_ok :: "('h, 'a) wallet_text \<Rightarrow> bool" where
  "wallet_text_ok W \<longleftrightarrow> (\<forall>h. parse_hash W (show_hash W h) = Some h) \<and> (\<forall>a. parse_address W (show_address W a) = Some a)"

text \<open>
  A coin survives its record. Whatever the coin, the record made of it gives the same coin
  back in every field, script bytes and the two optional fields included.
\<close>

theorem coin_round_trip:
  assumes "wallet_text_ok W"
  shows "coin_of_record W (coin_record_of W c) = Some c"
proof -
  have "opt_field (parse_address W) (map_option (show_address W) a) = Some a"
    "opt_field (parse_hash W) (map_option (show_hash W) h) = Some h" for a h
    unfolding opt_field_def using assms by (auto simp: wallet_text_ok_def split: option.split)
  then show ?thesis
    using assms by (simp add: coin_of_record_def coin_record_of_def hex_round_trip wallet_text_ok_def)
qed

lemma coin_round_trip_witness:
  "coin_of_record \<lparr>show_hash = id, parse_hash = Some, show_address = id, parse_address = Some\<rparr>
     (coin_record_of \<lparr>show_hash = id, parse_hash = Some, show_address = id, parse_address = Some\<rparr>
       \<lparr>ue_txid = ''t'', ue_index = 1, ue_amount = 5, ue_address = None, ue_script_version = 0, ue_script = [32, 255],
        ue_block_daa_score = 9, ue_is_coinbase = False, ue_covenant_id = Some ''c''\<rparr>)
   = Some \<lparr>ue_txid = ''t'', ue_index = 1, ue_amount = 5, ue_address = None, ue_script_version = 0, ue_script = [32, 255],
        ue_block_daa_score = 9, ue_is_coinbase = False, ue_covenant_id = Some ''c''\<rparr>"
  by (rule coin_round_trip) (simp add: wallet_text_ok_def)

section \<open>The newest snapshot\<close>

text \<open>
  Snapshots of one file taken, landed in any order and any number of times, and the file opened
  again by a rebuilt lane with whatever it had read.
\<close>

datatype snapshot_act = Take bytes | Land nat | Reopen bytes

type_synonym snapshots = "writers \<times> disk \<times> (nat \<times> bytes) list \<times> nat list"

fun snapshot_step :: "path \<Rightarrow> snapshots \<Rightarrow> snapshot_act \<Rightarrow> snapshots" where
  "snapshot_step p (ws, d, taken, acked) (Take bs) =
     (case next_generation \<lparr>df_path = p, df_kept = False\<rparr> ws of (g, ws) \<Rightarrow> (ws, d, (g, bs) # taken, acked))"
| "snapshot_step p (ws, d, taken, acked) (Land g) =
     (case map_of taken g of
        None \<Rightarrow> (ws, d, taken, acked)
      | Some bs \<Rightarrow>
          (case durable_write \<lparr>df_path = p, df_kept = False\<rparr> g bs ws d of
             (ws, d, r) \<Rightarrow> (ws, d, taken, if r = Inr () then g # acked else acked)))"
| "snapshot_step p (ws, d, taken, acked) (Reopen bs) = (snd (durable_new p bs False ws), d, taken, acked)"

definition snapshot_inv :: "path \<Rightarrow> bytes \<Rightarrow> snapshots \<Rightarrow> bool" where
  "snapshot_inv p b0 st \<longleftrightarrow> (case st of (ws, d, taken, acked) \<Rightarrow>
     let w = writer_for p ws in
     wr_bytes w = Some (file_of d p) \<and> (\<forall>g \<in> set (map fst taken). g \<le> wr_next w) \<and> distinct (map fst taken) \<and>
     (\<forall>g \<in> set acked. g \<le> wr_generation w) \<and>
     (if wr_generation w = 0 then file_of d p = b0 else map_of taken (wr_generation w) = Some (file_of d p)))"

lemma writer_for_put [simp]: "writer_for p (hput p w ws) = w"
  by (simp add: writer_for_def)

lemma durable_write_cases:
  assumes "durable_write \<lparr>df_path = p, df_kept = False\<rparr> g bs ws d = (ws', d', r)"
    and "wr_bytes (writer_for p ws) = Some (file_of d p)"
  obtains (old) "ws' = ws" "d' = d" "r = Inr ()" "g \<le> wr_generation (writer_for p ws)"
  | (landed) "r = Inr ()" "wr_generation (writer_for p ws) < g" "file_of d' p = bs"
      "writer_for p ws' = (writer_for p ws)\<lparr>wr_generation := g, wr_bytes := Some bs\<rparr>"
  | (failed) "ws' = ws" "r \<noteq> Inr ()" "file_of d' p = file_of d p"
proof -
  let ?w = "writer_for p ws"
  show thesis
  proof (cases "g \<le> wr_generation ?w")
    case True
    then show thesis using assms old by (simp add: durable_write_def Let_def)
  next
    case newer: False
    show thesis
    proof (cases "wr_bytes ?w = Some bs")
      case True
      then have "r = Inr ()" "d' = d" "writer_for p ws' = ?w\<lparr>wr_generation := g\<rparr>" using assms(1) newer True by (auto simp: durable_write_def Let_def)
      moreover have "?w\<lparr>wr_generation := g, wr_bytes := Some bs\<rparr> = ?w\<lparr>wr_generation := g\<rparr>" using True by simp
      ultimately show thesis using landed newer True assms(2) by simp
    next
      case False
      obtain d1 r1 where aw: "atomic_write p bs d = (d1, r1)" by fastforce
      show thesis
      proof (cases r1)
        case (Inl e)
        have "content d1 p = content d p"
        proof (cases "p = []")
          case True
          then show ?thesis using aw by (simp add: atomic_write_root)
        next
          case ne: False
          show ?thesis by (rule atomic_write_Inl [OF ne aw [unfolded Inl]]) (use temp_path_neq [OF ne] in metis)
        qed
        then show thesis using failed assms(1) newer False aw Inl by (auto simp: durable_write_def Let_def file_of_def)
      next
        case (Inr u)
        then have ne: "p \<noteq> []" using aw by (auto simp: atomic_write_root)
        have "content d1 p = Some bs" using atomic_write_Inr [OF ne aw [unfolded Inr]] temp_path_neq [OF ne] by simp
        then show thesis using landed assms(1) newer False aw Inr by (auto simp: durable_write_def Let_def file_of_def)
      qed
    qed
  qed
qed

lemma snapshot_step_inv:
  assumes inv: "snapshot_inv p b0 st"
  shows "snapshot_inv p b0 (snapshot_step p st a)"
proof -
  obtain ws d taken acked where st: "st = (ws, d, taken, acked)" by (metis prod_cases4)
  let ?w = "writer_for p ws"
  have I: "wr_bytes ?w = Some (file_of d p)" "\<forall>g \<in> set (map fst taken). g \<le> wr_next ?w" "distinct (map fst taken)"
    "\<forall>g \<in> set acked. g \<le> wr_generation ?w"
    "if wr_generation ?w = 0 then file_of d p = b0 else map_of taken (wr_generation ?w) = Some (file_of d p)"
    using inv by (simp_all add: snapshot_inv_def st Let_def)
  show ?thesis
  proof (cases a)
    case (Take bs)
    have fresh: "wr_next ?w + 1 \<notin> set (map fst taken)" using I(2) by fastforce
    have "wr_generation ?w \<noteq> 0 \<Longrightarrow> wr_generation ?w \<in> set (map fst taken)"
      using I(5) by (force dest: map_of_SomeD)
    then have "wr_generation ?w \<noteq> 0 \<Longrightarrow> wr_generation ?w \<noteq> wr_next ?w + 1" using fresh by metis
    then show ?thesis using I fresh
      by (auto simp: Take st snapshot_inv_def next_generation_def Let_def)
  next
    case (Land g)
    show ?thesis
    proof (cases "map_of taken g")
      case None
      then show ?thesis using inv by (simp add: Land st)
    next
      case (Some bs)
      obtain ws' d' r where w: "durable_write \<lparr>df_path = p, df_kept = False\<rparr> g bs ws d = (ws', d', r)" by (metis prod_cases3)
      show ?thesis
      proof (cases rule: durable_write_cases [OF w I(1)])
        case 1
        then show ?thesis using I by (simp add: Land st Some w snapshot_inv_def Let_def)
      next
        case 2
        then show ?thesis using I Some by (auto simp: Land st w snapshot_inv_def Let_def)
      next
        case 3
        then show ?thesis using I by (simp add: Land st Some w snapshot_inv_def Let_def)
      qed
    qed
  next
    case (Reopen bs)
    then show ?thesis using I by (simp add: st snapshot_inv_def durable_new_def Let_def)
  qed
qed

text \<open>
  C14. Of the snapshots of a file the newest that answered stays. Take snapshots, land them in
  any order and as often as one likes while any write fails, and open the file again with stale
  bytes in between: the file holds what it held at first or exactly the snapshot of the
  writer's generation, no snapshot that answered is newer than that one, and no number is given
  out twice.
\<close>

theorem newest_snapshot_stays:
  "case foldl (snapshot_step p) (snd (durable_new p (file_of d0 p) False []), d0, [], []) acts of
     (ws, d, taken, acked) \<Rightarrow>
       (let newest = wr_generation (writer_for p ws) in
        (if newest = 0 then file_of d p = file_of d0 p else map_of taken newest = Some (file_of d p)) \<and>
        list_all (\<lambda>g. g \<le> newest) acked \<and> distinct (map fst taken))"
proof -
  have "snapshot_inv p (file_of d0 p) (snd (durable_new p (file_of d0 p) False []), d0, [], [])"
    by (simp add: snapshot_inv_def durable_new_def Let_def) (simp add: writer_for_def)
  then have "snapshot_inv p (file_of d0 p) (foldl (snapshot_step p) (snd (durable_new p (file_of d0 p) False []), d0, [], []) acts)"
    by (induction acts rule: rev_induct) (simp_all add: snapshot_step_inv)
  moreover obtain ws d taken acked where
    st: "foldl (snapshot_step p) (snd (durable_new p (file_of d0 p) False []), d0, [], []) acts = (ws, d, taken, acked)" by (metis prod_cases4)
  ultimately show ?thesis unfolding st snapshot_inv_def prod.case Let_def list_all_iff by blast
qed

section \<open>What cannot be used is kept\<close>

text \<open>What serde documents: a file written reads back, its records one by one.\<close>

definition sends_json_ok :: "'v sends_json \<Rightarrow> bool" where
  "sends_json_ok J \<longleftrightarrow> (\<forall>fmt network s bs. write_sends J fmt network s = Some bs \<longrightarrow>
     (\<exists>ev. parse_envelope J bs = Some ev \<and> ev_format ev = fmt \<and> ev_network ev = network \<and>
       map (leg_of J) (ev_legs ev) = map Some (sd_legs s) \<and> map (landed_of J) (ev_landed ev) = map Some (sd_landed s) \<and>
       map (retired_of J) (ev_retired ev) = map Some (sd_retired s)))"

lemma decode_records_parts:
  "decode_records de vs dropped = (List.map_filter de vs, dropped @ filter (\<lambda>v. de v = None) vs)"
  by (induction vs arbitrary: dropped) (auto simp: List.map_filter_simps split: option.split)

lemma decode_records_all: "map de vs = map Some rs \<Longrightarrow> decode_records de vs dropped = (rs, dropped)"
  by (induction vs arbitrary: rs) auto

lemma aside_apart: "aside_name E p n \<noteq> p" "p \<noteq> [] \<Longrightarrow> aside_name E p n \<noteq> temp_path p"
proof -
  have len: "length (aside_name E p n) = length p - 1 + 2" by (simp add: aside_name_def)
  then show "aside_name E p n \<noteq> p" by (cases p) auto
  show "p \<noteq> [] \<Longrightarrow> aside_name E p n \<noteq> temp_path p" using len by (cases p) (auto simp: temp_path_def dest: arg_cong [where f = length])
qed

lemma temp_aside_apart: "temp_path (aside_name E p n) \<noteq> p"
proof
  assume "temp_path (aside_name E p n) = p"
  then have "length (temp_path (aside_name E p n)) = length p" by (rule arg_cong)
  moreover have "length (temp_path (aside_name E p n)) = length p - 1 + 2" by (simp add: temp_path_def aside_name_def)
  ultimately show False by (cases p) auto
qed

lemma copy_aside_keeps: "content (fst (copy_aside E J p vs (d, n))) p = content d p"
proof (cases "write_values J vs")
  case (Some bs)
  obtain d1 r where aw: "atomic_write (aside_name E p n) bs d = (d1, r)" by fastforce
  have ne: "aside_name E p n \<noteq> []" by (simp add: aside_name_def)
  have "content d1 p = content d p"
    using atomic_write_cases [OF ne aw] aside_apart(1) temp_aside_apart by (elim disjE conjE exE) (metis fun_upd_other)+
  then show ?thesis using Some aw by (simp add: copy_aside_def)
qed (simp add: copy_aside_def)

lemma set_aside_cases:
  assumes "set_aside E p (d, n) = (w, rd)" and "content d p = Some bs"
  obtains (kept) d' where "w = (d', n + 1)" "rd = Kept" "content d' = content d"
  | (moved) d' where "w = (d', n + 1)" "rd = Absent" "content d' p = None" "content d' (aside_name E p n) = Some bs"
  using assms aside_apart(1) [of E p n] unfolding set_aside_def Let_def prod.case
  by (auto elim!: io_tryE simp: move_file_def)

lemma read_envelope_cases:
  assumes run: "read_envelope E J is_dir p network (d, n) = (w, rd)" and held: "content d p = Some bs"
  obtains (kept) "rd = Kept" "content (fst w) p = Some bs"
  | (moved) "rd = Absent" "content (fst w) p = None" "content (fst w) (aside_name E p n) = Some bs"
  | (found) ev d' where "rd = Found ev bs" "w = (d', n)" "content d' p = Some bs" "parse_envelope J bs = Some ev"
      "ev_format ev = sends_format" "ev_network ev = network"
proof -
  obtain d1 r where rf: "read_file p d = (d1, r)" by fastforce
  have c1: "content d1 = content d" by (rule read_file_content [OF rf])
  then have h1: "content d1 p = Some bs" using held by simp
  have aside: thesis if "set_aside E p (d1, n) = (w, rd)"
    using that h1
  proof (cases rule: set_aside_cases)
    case a: (kept d')
    show thesis by (rule kept) (use a h1 in simp_all)
  next
    case a: (moved d')
    show thesis by (rule moved) (use a in simp_all)
  qed
  show thesis
  proof (cases r)
    case (Inl e)
    then have "e \<noteq> NotFound" using rf held read_file_NotFound by fastforce
    then show thesis using run rf Inl aside kept h1 by (cases e) (auto simp: read_envelope_def split: if_splits)
  next
    case (Inr bs')
    then have "bs' = bs" using rf held read_file_Inr by fastforce
    then show thesis using run rf Inr aside found h1 by (auto simp: read_envelope_def split: option.splits if_splits)
  qed
qed

text \<open>
  C22. Nothing unreadable is lost or written over. Load any file there is and then land any
  snapshots through a record opened on what was loaded: if the file could not be used its very
  bytes are still there, in place with nothing written over them or set aside under a name of
  their own; else it parsed as a file of this format and network, and the records loaded are
  all those of its values that decode, in order.
\<close>

theorem nothing_unreadable_is_lost:
  assumes held: "content d p = Some bs" and run: "load_sends E J is_dir p network (d, n) = ((d1, n1), ld)"
    and opened: "durable_new p (lf_bytes ld) (lf_kept ld) ws = (f, ws1)"
    and wrote: "durable_write f g snap ws1 d1 = (ws2, d2, r)"
  shows "(content d2 p = Some bs \<and> r \<noteq> Inr ()) \<or> content d2 (aside_name E p n) = Some bs \<or>
    (\<exists>ev. parse_envelope J bs = Some ev \<and> ev_format ev = sends_format \<and> ev_network ev = network \<and> lf_bytes ld = bs \<and>
      lf_records ld = \<lparr>sd_legs = List.map_filter (leg_of J) (ev_legs ev), sd_landed = List.map_filter (landed_of J) (ev_landed ev),
        sd_retired = List.map_filter (retired_of J) (ev_retired ev)\<rparr>)"
proof -
  have f: "f = \<lparr>df_path = p, df_kept = lf_kept ld\<rparr>" using opened by (simp add: durable_new_def Let_def)
  obtain w rd where re: "read_envelope E J is_dir p network (d, n) = (w, rd)" by fastforce
  show ?thesis
    using re held
  proof (cases rule: read_envelope_cases)
    case kept
    then have "ld = \<lparr>lf_records = no_sends, lf_bytes = [], lf_kept = True\<rparr>" "(d1, n1) = w" using run re by (simp_all add: load_sends_def)
    then have "d2 = d1" "r = Inl OtherError" "content d1 p = Some bs" using wrote kept f by (auto simp: durable_write_def)
    then show ?thesis by simp
  next
    case moved
    then have ld: "(d1, n1) = w" using run re by (simp add: load_sends_def)
    then have c1: "content d1 (aside_name E p n) = Some bs" using moved by auto
    have "content d2 (aside_name E p n) = content d1 (aside_name E p n)"
    proof (cases "p = []")
      case True
      then show ?thesis using wrote f by (auto simp: durable_write_def Let_def atomic_write_root split: if_splits)
    next
      case False
      obtain d3 r3 where aw: "atomic_write p snap d1 = (d3, r3)" by fastforce
      have "content d3 (aside_name E p n) = content d1 (aside_name E p n)"
        using atomic_write_cases [OF False aw] aside_apart(1) [of E p n] aside_apart(2) [OF False, of E n]
        by (elim disjE conjE exE) simp_all
      then show ?thesis using wrote f aw by (auto simp: durable_write_def Let_def split: if_splits sum.splits)
    qed
    then show ?thesis using c1 by simp
  next
    case (found ev d')
    then show ?thesis using run re by (auto simp: load_sends_def Let_def decode_records_parts split: if_splits)
  qed
qed

lemma load_sends_found:
  assumes J: "sends_json_ok J" and wrote: "encode_sends J network s = Inr bs"
    and held: "content d p = Some bs" and faults: "faults d = []"
  obtains ev where "parse_envelope J bs = Some ev" "ev_format ev = sends_format" "ev_network ev = network" "read_file p d = (d, Inr bs)"
    "load_sends E J is_dir p network (d, n) = ((d, n), \<lparr>lf_records = s, lf_bytes = bs, lf_kept = False\<rparr>)"
proof -
  have w: "write_sends J sends_format network s = Some bs"
    using wrote by (auto simp: encode_sends_def split: option.splits)
  then obtain ev where ev: "parse_envelope J bs = Some ev" "ev_format ev = sends_format" "ev_network ev = network"
    "map (leg_of J) (ev_legs ev) = map Some (sd_legs s)" "map (landed_of J) (ev_landed ev) = map Some (sd_landed s)"
    "map (retired_of J) (ev_retired ev) = map Some (sd_retired s)"
    using J unfolding sends_json_ok_def by blast
  have rd: "read_file p d = (d, Inr bs)" using held faults by (simp add: read_file_def)
  have "read_envelope E J is_dir p network (d, n) = ((d, n), Found ev bs)" using rd ev by (simp add: read_envelope_def)
  then have "load_sends E J is_dir p network (d, n) = ((d, n), \<lparr>lf_records = s, lf_bytes = bs, lf_kept = False\<rparr>)"
    using ev(4-6) by (simp add: load_sends_def decode_records_all)
  then show thesis using that ev(1-3) rd by blast
qed

text \<open>
  A file of sends reads back on its own network and on no other. What was written for a
  network loads there as exactly the records written, with nothing set aside and the disk
  unchanged; for another network the file is not used, and is set aside whole.
\<close>

theorem sends_file_round_trip:
  assumes J: "sends_json_ok J" and wrote: "encode_sends J network s = Inr bs"
    and held: "content d p = Some bs" and faults: "faults d = []"
  shows "load_sends E J is_dir p network (d, n) = ((d, n), \<lparr>lf_records = s, lf_bytes = bs, lf_kept = False\<rparr>) \<and>
    (other \<noteq> network \<longrightarrow> load_sends E J is_dir p other (d, n) =
      ((move_file p (aside_name E p n) d, n + 1), \<lparr>lf_records = no_sends, lf_bytes = [], lf_kept = False\<rparr>))"
proof -
  obtain ev where ev: "parse_envelope J bs = Some ev" "ev_format ev = sends_format" "ev_network ev = network"
    and rd: "read_file p d = (d, Inr bs)"
    and found: "load_sends E J is_dir p network (d, n) = ((d, n), \<lparr>lf_records = s, lf_bytes = bs, lf_kept = False\<rparr>)"
    using load_sends_found [OF assms] by metis
  have "load_sends E J is_dir p other (d, n) =
      ((move_file p (aside_name E p n) d, n + 1), \<lparr>lf_records = no_sends, lf_bytes = [], lf_kept = False\<rparr>)" if "other \<noteq> network"
    using that rd ev faults by (simp add: load_sends_def read_envelope_def set_aside_def Let_def)
  then show ?thesis using found by blast
qed

section \<open>Witnesses\<close>

definition demo_sends :: sends where
  "demo_sends = \<lparr>sd_legs = [], sd_landed = [\<lparr>la_paid_to = ''k'', la_at_unix_ms = 7\<rparr>], sd_retired = []\<rparr>"

definition demo_json :: "nat sends_json" where
  "demo_json = \<lparr>
     parse_envelope = (\<lambda>bs. if bs = [1] then Some \<lparr>ev_format = 1, ev_network = ''n'', ev_legs = [], ev_landed = [7], ev_retired = [], ev_coins = []\<rparr>
       else if bs = [2] then Some \<lparr>ev_format = 1, ev_network = ''n'', ev_legs = [3], ev_landed = [7, 8], ev_retired = [], ev_coins = []\<rparr> else None),
     leg_of = (\<lambda>_. None), landed_of = (\<lambda>v. if v = 7 then Some \<lparr>la_paid_to = ''k'', la_at_unix_ms = 7\<rparr> else None),
     retired_of = (\<lambda>_. None), spent_of = (\<lambda>_. None),
     write_values = (\<lambda>vs. Some (map of_nat vs)),
     write_sends = (\<lambda>fmt network s. if fmt = 1 \<and> network = ''n'' \<and> s = demo_sends then Some [1] else None),
     write_spent = (\<lambda>_ _ _. None)\<rparr>"

definition demo_process :: process where
  "demo_process = \<lparr>pr_id = 4, pr_clock = (\<lambda>_. 9)\<rparr>"

lemma sends_file_round_trip_witness:
  "snd (load_sends demo_process demo_json False [''a.sends''] ''n'' (\<lparr>files = [([''a.sends''], [1])], faults = []\<rparr>, 0))
      = \<lparr>lf_records = demo_sends, lf_bytes = [1], lf_kept = False\<rparr> \<and>
   lf_records (snd (load_sends demo_process demo_json False [''a.sends''] ''m'' (\<lparr>files = [([''a.sends''], [1])], faults = []\<rparr>, 0))) = no_sends"
proof -
  let ?d = "\<lparr>files = [([''a.sends''], [1])], faults = []\<rparr> :: disk"
  have ok: "sends_json_ok demo_json" by (auto simp: sends_json_ok_def demo_json_def demo_sends_def)
  have enc: "encode_sends demo_json ''n'' demo_sends = Inr [1]" by (simp add: encode_sends_def demo_json_def sends_format_def)
  have held: "content ?d [''a.sends''] = Some [1]" by (simp add: content_def)
  show ?thesis using sends_file_round_trip [OF ok enc held, of demo_process False 0 "''m''"] by simp
qed

text \<open>A file of which one record decodes and two do not, and a file that is none of ours.\<close>

lemma nothing_unreadable_is_lost_witness:
  "\<exists>d2. fst (snd (durable_write \<lparr>df_path = [''a.sends''], df_kept = False\<rparr> 1 [5]
      (snd (durable_new [''a.sends''] [] False [])) (fst (fst (load_sends demo_process demo_json False [''a.sends''] ''n'' (\<lparr>files = [([''a.sends''], [9])], faults = []\<rparr>, 0)))))) = d2 \<and>
    content d2 [''a.sends''] = Some [5] \<and> content d2 (aside_name demo_process [''a.sends''] 0) = Some [9]"
proof -
  let ?p = "[''a.sends'']" and ?d = "\<lparr>files = [([''a.sends''], [9])], faults = []\<rparr> :: disk"
  obtain d1 n1 ld where ld: "load_sends demo_process demo_json False ?p ''n'' (?d, 0) = ((d1, n1), ld)" by (metis surj_pair)
  have fields: "lf_bytes ld = [] \<and> \<not> lf_kept ld \<and> faults d1 = [] \<and> parse_envelope demo_json [9] = None"
    using ld by (auto simp: load_sends_def read_envelope_def read_file_def content_def demo_json_def set_aside_def move_file_def Let_def)
  obtain f ws1 where f: "durable_new ?p (lf_bytes ld) (lf_kept ld) [] = (f, ws1)" by fastforce
  obtain ws2 d2 r where w: "durable_write f 1 [5] ws1 d1 = (ws2, d2, r)" by (metis prod_cases3)
  have fws: "f = \<lparr>df_path = ?p, df_kept = False\<rparr>" "ws1 = snd (durable_new ?p [] False [])"
    using f fields by (auto simp: durable_new_def Let_def)
  have "content ?d ?p = Some [9]" by (simp add: content_def)
  from nothing_unreadable_is_lost [OF this ld f w]
  have kept: "(content d2 ?p = Some [9] \<and> r \<noteq> Inr ()) \<or> content d2 (aside_name demo_process ?p 0) = Some [9]" using fields by auto
  have "snd (atomic_write ?p [5] d1) = Inr ()" using fields by (simp add: atomic_write_no_fault)
  then obtain d3 where aw: "atomic_write ?p [5] d1 = (d3, Inr ())" by (metis prod.collapse)
  then have "r = Inr ()" "d2 = d3" using w fws by (auto simp: durable_write_def durable_new_def writer_for_def Let_def)
  moreover have "content d3 ?p = Some [5]" using atomic_write_Inr [OF _ aw] temp_path_neq [of ?p] by simp
  ultimately have "content d2 ?p = Some [5]" "content d2 (aside_name demo_process ?p 0) = Some [9]" using kept by auto
  then show ?thesis using ld w fws by auto
qed

end
