(* ===== verification/Vault.thy ===== *)
theory Vault
  imports Prelude Core_Error
begin

text \<open>
  The sealed-seed blob (\<open>rust/core/src/vault.rs\<close>). Argon2id and XChaCha20-Poly1305 are not part of
  the repository: they are the fields of \<open>vault_crypto\<close>. The salt and the nonce of a seal, which the
  code draws from the system's generator, are arguments. Byte strings are lists of bytes, the
  offsets and the little-endian integers are the code's.
\<close>

unbundle bit_operations_syntax

section \<open>Layout\<close>

definition vault_magic :: bytes where "vault_magic = [75, 86, 83, 66]"
definition version_v1 :: byte where "version_v1 = 1"
definition version_v2 :: byte where "version_v2 = 2"
definition scheme_path_b :: byte where "scheme_path_b = 2"
definition header_len_v1 :: nat where "header_len_v1 = 58"
definition header_len_v2 :: nat where "header_len_v2 = 60"
definition salt_len :: nat where "salt_len = 16"
definition nonce_len :: nat where "nonce_len = 24"
definition seed_len :: nat where "seed_len = 64"
definition tag_len :: nat where "tag_len = 16"
definition blob_len_v1 :: nat where "blob_len_v1 = header_len_v1 + seed_len + tag_len"
definition blob_len :: nat where "blob_len = header_len_v2 + seed_len + tag_len"
definition pepper_len :: nat where "pepper_len = 32"
definition pin_len :: nat where "pin_len = 6"

definition kind_passphrase :: byte where "kind_passphrase = 1"
definition kind_digits :: byte where "kind_digits = 2"
definition binding_none :: byte where "binding_none = 0"
definition binding_device :: byte where "binding_device = 1"

definition min_m_cost_kib :: u32 where "min_m_cost_kib = 8 * 1024"
definition max_m_cost_kib :: u32 where "max_m_cost_kib = 256 * 1024"
definition min_t_cost :: u32 where "min_t_cost = 1"
definition max_t_cost :: u32 where "max_t_cost = 64"
definition min_p_cost :: u32 where "min_p_cost = 1"
definition max_p_cost :: u32 where "max_p_cost = 8"

lemmas vault_consts = vault_magic_def version_v1_def version_v2_def scheme_path_b_def header_len_v1_def header_len_v2_def
  salt_len_def nonce_len_def seed_len_def tag_len_def blob_len_v1_def blob_len_def pepper_len_def pin_len_def
  kind_passphrase_def kind_digits_def binding_none_def binding_device_def

section \<open>Parameters and facts\<close>

datatype input_kind = Passphrase | Digits

fun to_byte :: "input_kind \<Rightarrow> byte" where
  "to_byte Passphrase = kind_passphrase"
| "to_byte Digits = kind_digits"

definition from_byte :: "byte \<Rightarrow> core_error + input_kind" where
  "from_byte b =
     (if b = kind_passphrase then Inr Passphrase
      else if b = kind_digits then Inr Digits
      else Inl (MalformedBlob ''input kind''))"

record blob_facts =
  bf_version :: byte
  bf_input_kind :: input_kind
  bf_device_bound :: bool

record seal_params =
  m_cost_kib :: u32
  t_cost :: u32
  p_cost :: u32

definition default_params :: seal_params where
  "default_params = \<lparr>m_cost_kib = 64 * 1024, t_cost = 3, p_cost = 1\<rparr>"

definition in_bounds :: "seal_params \<Rightarrow> bool" where
  "in_bounds p \<longleftrightarrow>
     (min_m_cost_kib \<le> m_cost_kib p \<and> m_cost_kib p \<le> max_m_cost_kib)
     \<and> (min_t_cost \<le> t_cost p \<and> t_cost p \<le> max_t_cost)
     \<and> (min_p_cost \<le> p_cost p \<and> p_cost p \<le> max_p_cost)"

definition check_bounds :: "seal_params \<Rightarrow> core_error + unit" where
  "check_bounds p = (if in_bounds p then Inr () else Inl BlobParamBounds)"

section \<open>Keys\<close>

record vault_crypto =
  argon2id :: "bytes \<Rightarrow> bytes \<Rightarrow> seal_params \<Rightarrow> string + bytes"
  aead_encrypt :: "bytes \<Rightarrow> bytes \<Rightarrow> bytes \<Rightarrow> bytes \<Rightarrow> bytes option"
  aead_decrypt :: "bytes \<Rightarrow> bytes \<Rightarrow> bytes \<Rightarrow> bytes \<Rightarrow> bytes option"

definition derive_key ::
  "vault_crypto \<Rightarrow> bytes \<Rightarrow> bytes option \<Rightarrow> bytes \<Rightarrow> seal_params \<Rightarrow> core_error + bytes" where
  "derive_key C passphrase pepper salt params =
     (case (case pepper of
              None \<Rightarrow> argon2id C passphrase salt params
            | Some p \<Rightarrow> argon2id C (passphrase @ p) salt params) of
        Inl e \<Rightarrow> Inl (Kdf e)
      | Inr key \<Rightarrow> Inr key)"

definition check_pepper :: "bytes option \<Rightarrow> core_error + bytes option" where
  "check_pepper pepper =
     (case pepper of
        None \<Rightarrow> Inr None
      | Some p \<Rightarrow> if length p = pepper_len then Inr (Some p) else Inl (DeviceBinding ''pepper length''))"

section \<open>The header\<close>

definition build_header :: "seal_params \<Rightarrow> bytes \<Rightarrow> bytes \<Rightarrow> input_kind \<Rightarrow> bool \<Rightarrow> bytes" where
  "build_header params salt nonce kind device_bound =
     vault_magic @ [version_v2, scheme_path_b]
     @ le_bytes (m_cost_kib params) @ le_bytes (t_cost params) @ le_bytes (p_cost params)
     @ salt @ nonce @ [to_byte kind, if device_bound then binding_device else binding_none]"

definition le_u32_at :: "bytes \<Rightarrow> nat \<Rightarrow> u32" where
  "le_u32_at blob pos = of_le_bytes (take 4 (drop pos blob))"

definition header_params :: "bytes \<Rightarrow> seal_params" where
  "header_params blob =
     \<lparr>m_cost_kib = le_u32_at blob 6, t_cost = le_u32_at blob 10, p_cost = le_u32_at blob 14\<rparr>"

definition layout_of :: "byte \<Rightarrow> core_error + nat \<times> nat" where
  "layout_of v =
     (if v = version_v1 then Inr (header_len_v1, blob_len_v1)
      else if v = version_v2 then Inr (header_len_v2, blob_len)
      else Inl (MalformedBlob ''unknown version''))"

definition header_facts :: "bytes \<Rightarrow> nat \<Rightarrow> core_error + blob_facts" where
  "header_facts blob header_len =
     (if header_len = header_len_v1
      then Inr \<lparr>bf_version = version_v1, bf_input_kind = Passphrase, bf_device_bound = False\<rparr>
      else (case from_byte (blob ! 58) of
              Inl e \<Rightarrow> Inl e
            | Inr kind \<Rightarrow>
                (if blob ! 59 = binding_none
                 then Inr \<lparr>bf_version = version_v2, bf_input_kind = kind, bf_device_bound = False\<rparr>
                 else if blob ! 59 = binding_device
                 then Inr \<lparr>bf_version = version_v2, bf_input_kind = kind, bf_device_bound = True\<rparr>
                 else Inl (MalformedBlob ''binding''))))"

definition parse_header :: "bytes \<Rightarrow> core_error + nat \<times> seal_params \<times> blob_facts" where
  "parse_header blob =
     (if length blob < header_len_v1 then Inl (MalformedBlob ''too short'')
      else if take 4 blob \<noteq> vault_magic then Inl (MalformedBlob ''magic'')
      else (case layout_of (blob ! 4) of
         Inl e \<Rightarrow> Inl e
       | Inr (header_len, len) \<Rightarrow>
           (if blob ! 5 \<noteq> scheme_path_b then Inl (MalformedBlob ''unknown scheme'')
            else if length blob \<noteq> len then Inl (MalformedBlob ''length'')
            else (case check_bounds (header_params blob) of
               Inl e \<Rightarrow> Inl e
             | Inr _ \<Rightarrow>
                 (case header_facts blob header_len of
                    Inl e \<Rightarrow> Inl e
                  | Inr facts \<Rightarrow> Inr (header_len, header_params blob, facts))))))"

definition read_facts :: "bytes \<Rightarrow> core_error + blob_facts" where
  "read_facts blob =
     (case parse_header blob of Inl e \<Rightarrow> Inl e | Inr (_, _, facts) \<Rightarrow> Inr facts)"

section \<open>Sealing\<close>

definition is_ascii_digit :: "byte \<Rightarrow> bool" where
  "is_ascii_digit b \<longleftrightarrow> 48 \<le> b \<and> b \<le> 57"

definition check_seal_inputs ::
  "bytes \<Rightarrow> seal_params \<Rightarrow> input_kind \<Rightarrow> bytes option \<Rightarrow> core_error + bytes option" where
  "check_seal_inputs passphrase params kind pepper =
     (if passphrase = [] then Inl EmptyPassphrase
      else (case check_bounds params of
         Inl e \<Rightarrow> Inl e
       | Inr _ \<Rightarrow> (case check_pepper pepper of
            Inl e \<Rightarrow> Inl e
          | Inr pepper \<Rightarrow>
              (if kind = Digits \<and> pepper = None then Inl (DeviceBinding ''a PIN vault needs a device binding'')
               else if kind = Digits \<and> (length passphrase \<noteq> pin_len \<or> \<not> list_all is_ascii_digit passphrase)
               then Inl (MalformedBlob ''pin shape'')
               else Inr pepper))))"

definition seal_seed ::
  "vault_crypto \<Rightarrow> bytes \<Rightarrow> bytes \<Rightarrow> seal_params \<Rightarrow> input_kind \<Rightarrow> bytes option \<Rightarrow> bytes \<Rightarrow> bytes \<Rightarrow> core_error + bytes" where
  "seal_seed C seed passphrase params kind pepper salt nonce =
     (case check_seal_inputs passphrase params kind pepper of
        Inl e \<Rightarrow> Inl e
      | Inr pepper \<Rightarrow>
          (let header = build_header params salt nonce kind (pepper \<noteq> None) in
           (case derive_key C passphrase pepper salt params of
              Inl e \<Rightarrow> Inl e
            | Inr key \<Rightarrow>
                (case aead_encrypt C key nonce seed header of
                   None \<Rightarrow> Inl Seal
                 | Some ciphertext \<Rightarrow>
                     (let blob = header @ ciphertext in
                      (case aead_decrypt C key nonce (drop header_len_v2 blob) header of
                         None \<Rightarrow> Inl Seal
                       | Some reopened \<Rightarrow> if reopened \<noteq> seed then Inl Seal else Inr blob))))))"

section \<open>Opening\<close>

definition bound_pepper :: "bool \<Rightarrow> bytes option \<Rightarrow> core_error + bytes option" where
  "bound_pepper device_bound pepper =
     (case check_pepper pepper of
        Inl e \<Rightarrow> Inl e
      | Inr pepper \<Rightarrow>
          (if device_bound then
             (case pepper of
                None \<Rightarrow> Inl (DeviceBinding ''this vault is bound to its phone'')
              | Some p \<Rightarrow> Inr (Some p))
           else Inr None))"

definition unseal_seed :: "vault_crypto \<Rightarrow> bytes \<Rightarrow> bytes \<Rightarrow> bytes option \<Rightarrow> core_error + bytes" where
  "unseal_seed C blob passphrase pepper =
     (if passphrase = [] then Inl EmptyPassphrase
      else (case parse_header blob of
         Inl e \<Rightarrow> Inl e
       | Inr (header_len, params, facts) \<Rightarrow>
           (case bound_pepper (bf_device_bound facts) pepper of
              Inl e \<Rightarrow> Inl e
            | Inr pepper \<Rightarrow>
                (let header = take header_len blob;
                     salt = take 16 (drop 18 blob);
                     nonce = take 24 (drop 34 blob) in
                 (case derive_key C passphrase pepper salt params of
                    Inl e \<Rightarrow> Inl e
                  | Inr key \<Rightarrow>
                      (case aead_decrypt C key nonce (drop header_len blob) header of
                         None \<Rightarrow> Inl WrongPassphraseOrCorrupt
                       | Some plaintext \<Rightarrow>
                           if length plaintext \<noteq> seed_len then Inl (MalformedBlob ''payload length'')
                           else Inr plaintext))))))"

definition reseal_seed ::
  "vault_crypto \<Rightarrow> bytes \<Rightarrow> bytes \<Rightarrow> bytes \<Rightarrow> seal_params \<Rightarrow> input_kind \<Rightarrow> bytes option \<Rightarrow> bytes \<Rightarrow> bytes \<Rightarrow> core_error + bytes" where
  "reseal_seed C blob current new_secret params new_kind pepper salt nonce =
     (case check_seal_inputs new_secret params new_kind pepper of
        Inl e \<Rightarrow> Inl e
      | Inr _ \<Rightarrow>
          (case unseal_seed C blob current pepper of
             Inl e \<Rightarrow> Inl e
           | Inr seed \<Rightarrow> seal_seed C seed new_secret params new_kind pepper salt nonce))"

end
