(* ===== verification/Vault_Props.thy ===== *)
theory Vault_Props
  imports Vault
begin

text \<open>
  What the sealed-seed blob promises: a sealed blob opens to its seed and says what it is, a blob
  that opens is one a seal writes, no key is derived with parameters out of bounds, and a re-key
  keeps the seed.
\<close>

section \<open>The header and its parser\<close>

lemma length_build_header [simp]:
  "length salt = 16 \<Longrightarrow> length nonce = 24 \<Longrightarrow> length (build_header params salt nonce kind b) = 60"
  by (simp add: build_header_def vault_magic_def)

lemma take4_le_bytes [simp]: "take 4 (le_bytes w @ xs) = le_bytes w"
  by simp

lemma drop_header:
  assumes "length salt = 16" "length nonce = 24" and h_def: "h = build_header params salt nonce kind b @ c"
  shows "take 4 h = vault_magic" "h ! 4 = version_v2" "h ! 5 = scheme_path_b"
    "drop 6 h = le_bytes (m_cost_kib params) @ le_bytes (t_cost params) @ le_bytes (p_cost params) @ salt @ nonce
       @ [to_byte kind, if b then binding_device else binding_none] @ c"
  unfolding h_def build_header_def vault_magic_def by simp_all

lemma header_fields:
  assumes "length salt = 16" "length nonce = 24" and h_def: "h = build_header params salt nonce kind b @ c"
  shows "header_params h = params" "take 16 (drop 18 h) = salt" "take 24 (drop 34 h) = nonce"
    "h ! 58 = to_byte kind" "h ! 59 = (if b then binding_device else binding_none)"
    "take 60 h = build_header params salt nonce kind b" "drop 60 h = c"
proof -
  note d = drop_header [OF assms]
  have "6 \<le> length h" using assms by simp
  then have at: "drop (6 + k) h = drop k (drop 6 h)" "h ! (6 + k) = drop 6 h ! k" for k
    by (simp_all add: add.commute)
  show "header_params h = params"
    using at(1) [of 4] at(1) [of 8] by (simp add: header_params_def le_u32_at_def d(4))
  show "take 16 (drop 18 h) = salt" using at(1) [of 12] assms(1) by (simp add: d(4))
  show "take 24 (drop 34 h) = nonce" using at(1) [of 28] assms(1,2) by (simp add: d(4))
  show "h ! 58 = to_byte kind" using at(2) [of 52] assms(1,2) by (simp add: d(4) nth_append)
  show "h ! 59 = (if b then binding_device else binding_none)"
    using at(2) [of 53] assms(1,2) by (simp add: d(4) nth_append)
  show "take 60 h = build_header params salt nonce kind b" "drop 60 h = c" using assms by (simp_all add: h_def)
qed

lemma from_to_byte [simp]: "from_byte (to_byte k) = Inr k"
  by (cases k) (simp_all add: from_byte_def vault_consts)

lemma from_byte_Inr: "from_byte b = Inr k \<longleftrightarrow> b = to_byte k"
  by (cases k) (auto simp: from_byte_def vault_consts split: if_splits)

lemma parse_build_header:
  assumes "length salt = 16" "length nonce = 24" "length c = 80" "in_bounds params"
  shows "parse_header (build_header params salt nonce kind b @ c)
    = Inr (60, params, \<lparr>bf_version = 2, bf_input_kind = kind, bf_device_bound = b\<rparr>)"
  using assms header_fields [OF assms(1,2) refl, of params kind b c] drop_header(1-3) [OF assms(1,2) refl, of params kind b c]
  by (cases b) (simp_all add: parse_header_def layout_of_def header_facts_def check_bounds_def vault_consts)

lemma parse_header_Inr:
  assumes "parse_header blob = Inr (n, params, facts)"
  shows "take 4 blob = vault_magic" "blob ! 5 = scheme_path_b" "params = header_params blob" "in_bounds params"
    "layout_of (blob ! 4) = Inr (n, length blob)" "header_facts blob n = Inr facts"
  using assms by (auto simp: parse_header_def check_bounds_def split: if_splits sum.splits prod.splits)

lemma parse_header_v2:
  assumes p: "parse_header blob = Inr (n, params, facts)" and v2: "bf_version facts = 2"
  shows "n = 60" "length blob = 140"
    "take 60 blob = build_header params (take 16 (drop 18 blob)) (take 24 (drop 34 blob)) (bf_input_kind facts) (bf_device_bound facts)"
proof -
  note h = parse_header_Inr [OF p]
  have n: "n = 60 \<and> length blob = 140 \<and> blob ! 4 = 2"
    using h(5,6) v2 by (auto simp: layout_of_def header_facts_def vault_consts split: if_splits)
  then show "n = 60" "length blob = 140" by auto
  have kind: "blob ! 58 = to_byte (bf_input_kind facts)"
    "blob ! 59 = (if bf_device_bound facts then binding_device else binding_none)"
    using h(6) n by (auto simp: header_facts_def header_len_v1_def from_byte_Inr split: sum.splits if_splits)
  have split: "take (a + k) blob = take a blob @ take k (drop a blob)" for a k by (simp add: take_add)
  have one: "take 1 (drop k blob) = [blob ! k]" if "k < 140" for k
    using n that by (simp add: take_Suc Cons_nth_drop_Suc [symmetric])
  have le: "le_bytes (le_u32_at blob k) = take 4 (drop k blob)" if "k \<le> 136" for k
    using n that by (simp add: le_u32_at_def)
  have "take 60 blob = take 4 blob @ [blob ! 4] @ [blob ! 5] @ take 4 (drop 6 blob) @ take 4 (drop 10 blob) @ take 4 (drop 14 blob)
      @ take 16 (drop 18 blob) @ take 24 (drop 34 blob) @ [blob ! 58] @ [blob ! 59]"
    using split [of 4 1] split [of 5 1] split [of 6 4] split [of 10 4] split [of 14 4] split [of 18 16] split [of 34 24]
      split [of 58 1] split [of 59 1] one [of 4] one [of 5] one [of 58] one [of 59]
    by simp
  then show "take 60 blob = build_header params (take 16 (drop 18 blob)) (take 24 (drop 34 blob)) (bf_input_kind facts) (bf_device_bound facts)"
    using h n kind by (simp add: build_header_def header_params_def le version_v2_def)
qed

section \<open>Inversion\<close>

lemma check_seal_inputs_Inr:
  "check_seal_inputs pass params kind pepper = Inr q \<longleftrightarrow>
     q = pepper \<and> pass \<noteq> [] \<and> in_bounds params \<and> (case pepper of None \<Rightarrow> True | Some p \<Rightarrow> length p = 32)
     \<and> (kind = Digits \<longrightarrow> pepper \<noteq> None \<and> length pass = 6 \<and> list_all is_ascii_digit pass)"
  by (auto simp: check_seal_inputs_def check_bounds_def check_pepper_def vault_consts split: option.splits sum.splits if_splits)

lemma seal_seed_Inr:
  "seal_seed C seed pass params kind pepper salt nonce = Inr blob \<longleftrightarrow>
     check_seal_inputs pass params kind pepper = Inr pepper \<and>
     (\<exists>key c. derive_key C pass pepper salt params = Inr key \<and>
        aead_encrypt C key nonce seed (build_header params salt nonce kind (pepper \<noteq> None)) = Some c \<and>
        blob = build_header params salt nonce kind (pepper \<noteq> None) @ c \<and>
        aead_decrypt C key nonce (drop 60 blob) (build_header params salt nonce kind (pepper \<noteq> None)) = Some seed)"
proof (cases "check_seal_inputs pass params kind pepper")
  case (Inr q)
  then have "q = pepper" unfolding check_seal_inputs_Inr by blast
  then show ?thesis using Inr
    by (auto simp: seal_seed_def Let_def header_len_v2_def split: sum.splits option.splits if_splits)
qed (simp add: seal_seed_def)

lemma unseal_seed_Inr:
  "unseal_seed C blob pass pepper = Inr seed \<longleftrightarrow>
     pass \<noteq> [] \<and> length seed = 64 \<and>
     (\<exists>n params facts q key. parse_header blob = Inr (n, params, facts) \<and> bound_pepper (bf_device_bound facts) pepper = Inr q \<and>
        derive_key C pass q (take 16 (drop 18 blob)) params = Inr key \<and>
        aead_decrypt C key (take 24 (drop 34 blob)) (drop n blob) (take n blob) = Some seed)"
  by (auto simp: unseal_seed_def Let_def seed_len_def split: sum.splits option.splits prod.splits if_splits)

lemma sealed_header:
  assumes sealed: "seal_seed C seed pass params kind pepper salt nonce = Inr blob"
    and lens: "length seed = 64" "length salt = 16" "length nonce = 24"
    and tag: "\<And>k n m a c. aead_encrypt C k n m a = Some c \<Longrightarrow> length c = length m + 16"
  shows "length blob = 140"
    "parse_header blob = Inr (60, params, \<lparr>bf_version = 2, bf_input_kind = kind, bf_device_bound = pepper \<noteq> None\<rparr>)"
proof -
  from sealed obtain key c where c: "aead_encrypt C key nonce seed (build_header params salt nonce kind (pepper \<noteq> None)) = Some c"
    "blob = build_header params salt nonce kind (pepper \<noteq> None) @ c" "in_bounds params"
    unfolding seal_seed_Inr check_seal_inputs_Inr by blast
  have len: "length c = 80" using tag [OF c(1)] lens by simp
  show "length blob = 140" using c(2) len lens by simp
  show "parse_header blob = Inr (60, params, \<lparr>bf_version = 2, bf_input_kind = kind, bf_device_bound = pepper \<noteq> None\<rparr>)"
    unfolding c(2) by (rule parse_build_header [OF lens(2,3) len c(3)])
qed

lemma sealed_opens:
  assumes sealed: "seal_seed C seed pass params kind pepper salt nonce = Inr blob"
    and lens: "length seed = 64" "length salt = 16" "length nonce = 24"
    and tag: "\<And>k n m a c. aead_encrypt C k n m a = Some c \<Longrightarrow> length c = length m + 16"
    and bp: "bound_pepper (pepper \<noteq> None) q = Inr pepper"
  shows "unseal_seed C blob pass q = Inr seed"
proof -
  from sealed obtain key c where c: "derive_key C pass pepper salt params = Inr key"
    "blob = build_header params salt nonce kind (pepper \<noteq> None) @ c"
    "aead_decrypt C key nonce (drop 60 blob) (build_header params salt nonce kind (pepper \<noteq> None)) = Some seed" "pass \<noteq> []"
    unfolding seal_seed_Inr check_seal_inputs_Inr by blast
  note f = header_fields [OF lens(2,3) c(2)]
  show ?thesis
    unfolding unseal_seed_Inr using c(1,3,4) f sealed_header(2) [OF sealed lens tag] bp lens(1) by auto
qed

lemma bound_pepper_self:
  "check_seal_inputs pass params kind pepper = Inr q \<Longrightarrow> bound_pepper (pepper \<noteq> None) pepper = Inr pepper"
  by (auto simp: check_seal_inputs_Inr bound_pepper_def check_pepper_def pepper_len_def split: option.splits)

section \<open>Properties\<close>

text \<open>
  C17. A blob a seal returns is of the length of the layout, states in the clear the kind and the
  binding it was sealed with, and opens under the passphrase and the pepper of the seal to the
  very seed. Sealed without a pepper it opens whatever pepper a phone offers; sealed with one it
  answers, without one, that it is bound to its phone. A PIN vault is always bound and its PIN
  has six digits. The cipher is any that adds a tag of sixteen bytes.
\<close>

theorem seal_opens:
  assumes sealed: "seal_seed C seed pass params kind pepper salt nonce = Inr blob"
    and lens: "length seed = 64" "length salt = 16" "length nonce = 24"
    and tag: "\<And>k n m a c. aead_encrypt C k n m a = Some c \<Longrightarrow> length c = length m + 16"
  shows "length blob = blob_len \<and>
    read_facts blob = Inr \<lparr>bf_version = 2, bf_input_kind = kind, bf_device_bound = pepper \<noteq> None\<rparr> \<and>
    unseal_seed C blob pass pepper = Inr seed \<and>
    (case pepper of
       None \<Rightarrow> (\<forall>p. length p = 32 \<longrightarrow> unseal_seed C blob pass (Some p) = Inr seed)
     | Some _ \<Rightarrow> unseal_seed C blob pass None = Inl (DeviceBinding ''this vault is bound to its phone'')) \<and>
    (kind = Digits \<longrightarrow> pepper \<noteq> None \<and> length pass = 6 \<and> list_all is_ascii_digit pass)"
proof -
  note h = sealed_header [OF sealed lens tag]
  from sealed have ci: "check_seal_inputs pass params kind pepper = Inr pepper" unfolding seal_seed_Inr by blast
  note ci' = ci [unfolded check_seal_inputs_Inr]
  have o: "unseal_seed C blob pass q = Inr seed" if "bound_pepper (pepper \<noteq> None) q = Inr pepper" for q
    by (rule sealed_opens [OF sealed lens tag that])
  have "case pepper of
       None \<Rightarrow> (\<forall>p. length p = 32 \<longrightarrow> unseal_seed C blob pass (Some p) = Inr seed)
     | Some _ \<Rightarrow> unseal_seed C blob pass None = Inl (DeviceBinding ''this vault is bound to its phone'')"
  proof (cases pepper)
    case None
    then show ?thesis using o by (simp add: bound_pepper_def check_pepper_def pepper_len_def)
  next
    case (Some p)
    then show ?thesis using h(2) ci' by (simp add: unseal_seed_def bound_pepper_def check_pepper_def)
  qed
  then show ?thesis
    using h o [OF bound_pepper_self [OF ci]] ci' by (simp add: read_facts_def blob_len_def vault_consts)
qed

text \<open>
  C18. A blob of the current version that opens is, byte for byte, the blob a seal of its seed
  writes with the same passphrase, the parameters and the randomness in its header, for any cipher
  whose decryption inverts its encryption. This holds of a blob marked as sealed with digits only
  if it is device-bound and was opened with six digits: opening checks neither, while no seal
  writes such a blob without a device key or with another passphrase.
\<close>

theorem opens_only_what_seals:
  assumes inverse: "\<And>k n c a m. aead_decrypt C k n c a = Some m \<Longrightarrow> aead_encrypt C k n m a = Some c"
    and opened: "unseal_seed C blob pass pepper = Inr seed"
    and facts: "read_facts blob = Inr \<lparr>bf_version = 2, bf_input_kind = kind, bf_device_bound = bound\<rparr>"
    and pin: "kind = Digits \<Longrightarrow> bound \<and> length pass = 6 \<and> list_all is_ascii_digit pass"
  shows "in_bounds (header_params blob) \<and>
    seal_seed C seed pass (header_params blob) kind (if bound then pepper else None) (take 16 (drop 18 blob)) (take 24 (drop 34 blob)) = Inr blob"
proof -
  let ?salt = "take 16 (drop 18 blob)" and ?nonce = "take 24 (drop 34 blob)"
  from opened obtain n params fs q key where o: "parse_header blob = Inr (n, params, fs)" "bound_pepper (bf_device_bound fs) pepper = Inr q"
    "derive_key C pass q ?salt params = Inr key" "aead_decrypt C key ?nonce (drop n blob) (take n blob) = Some seed" "pass \<noteq> []"
    unfolding unseal_seed_Inr by blast
  have fs: "fs = \<lparr>bf_version = 2, bf_input_kind = kind, bf_device_bound = bound\<rparr>" using facts o(1) by (simp add: read_facts_def)
  note p = parse_header_Inr [OF o(1)] and v = parse_header_v2 [OF o(1)]
  have n: "n = 60" and hd: "take 60 blob = build_header params ?salt ?nonce kind bound" using v fs by auto
  have q: "q = (if bound then pepper else None)" "(q \<noteq> None) = bound" "case q of None \<Rightarrow> True | Some p \<Rightarrow> length p = 32"
    using o(2) fs by (auto simp: bound_pepper_def check_pepper_def pepper_len_def split: option.splits if_splits)
  have ci: "check_seal_inputs pass params kind q = Inr q"
    unfolding check_seal_inputs_Inr using o(5) p(4) q pin by auto
  have blob: "blob = build_header params ?salt ?nonce kind (q \<noteq> None) @ drop 60 blob"
    using hd q(2) append_take_drop_id [of 60 blob] by simp
  have "seal_seed C seed pass params kind q ?salt ?nonce = Inr blob"
    unfolding seal_seed_Inr using ci o(3,4) inverse [OF o(4)] hd q(2) blob n by auto
  then show ?thesis using p(3,4) q(1) by simp
qed

text \<open>
  C35. Argon2id is never run with parameters out of bounds, whatever the header says: two
  derivations that agree on the parameters in bounds give the same seals, the same openings and
  the same re-keys of every blob.
\<close>

theorem kdf_stays_in_bounds:
  assumes same: "\<And>pw salt ps. in_bounds ps \<Longrightarrow> kdf pw salt ps = argon2id C pw salt ps"
  shows "unseal_seed (C\<lparr>argon2id := kdf\<rparr>) blob pass pepper = unseal_seed C blob pass pepper \<and>
    seal_seed (C\<lparr>argon2id := kdf\<rparr>) seed pass params kind pepper salt nonce = seal_seed C seed pass params kind pepper salt nonce \<and>
    reseal_seed (C\<lparr>argon2id := kdf\<rparr>) blob pass new params kind pepper salt nonce = reseal_seed C blob pass new params kind pepper salt nonce"
proof -
  have key: "derive_key (C\<lparr>argon2id := kdf\<rparr>) pw q sl ps = derive_key C pw q sl ps" if "in_bounds ps" for pw q sl ps
    using that same by (simp add: derive_key_def split: option.splits)
  have u: "unseal_seed (C\<lparr>argon2id := kdf\<rparr>) blob pass pepper = unseal_seed C blob pass pepper"
    unfolding unseal_seed_def Let_def by (auto simp: key dest: parse_header_Inr(4) split: sum.splits prod.splits)
  have s: "seal_seed (C\<lparr>argon2id := kdf\<rparr>) seed pass params kind pepper salt nonce = seal_seed C seed pass params kind pepper salt nonce"
    for seed pass
  proof (cases "check_seal_inputs pass params kind pepper")
    case (Inr q)
    then have "in_bounds params" unfolding check_seal_inputs_Inr by blast
    then show ?thesis using Inr by (simp add: seal_seed_def key Let_def split: sum.split option.split)
  qed (simp add: seal_seed_def)
  show ?thesis using u s by (auto simp: reseal_seed_def split: sum.splits)
qed

text \<open>
  A re-key answers with a blob only if the old blob opened under the current secret, and the
  new blob opens under the new secret to the seed the old one held; it is bound exactly when a
  pepper was given. A new secret no seal takes is refused whatever the old blob and the current
  secret are, and else a failure to open the old blob is the answer.
\<close>

theorem reseal_keeps_seed:
  assumes lens: "length salt = 16" "length nonce = 24"
    and tag: "\<And>k n m a c. aead_encrypt C k n m a = Some c \<Longrightarrow> length c = length m + 16"
  shows "case reseal_seed C blob current new params kind pepper salt nonce of
      Inr blob' \<Rightarrow> (\<exists>seed. unseal_seed C blob current pepper = Inr seed \<and> unseal_seed C blob' new pepper = Inr seed) \<and>
        read_facts blob' = Inr \<lparr>bf_version = 2, bf_input_kind = kind, bf_device_bound = pepper \<noteq> None\<rparr>
    | Inl e \<Rightarrow> (case check_seal_inputs new params kind pepper of
          Inl e' \<Rightarrow> e = e'
        | Inr _ \<Rightarrow> (case unseal_seed C blob current pepper of
            Inl e' \<Rightarrow> e = e'
          | Inr seed \<Rightarrow> seal_seed C seed new params kind pepper salt nonce = Inl e))"
proof (cases "reseal_seed C blob current new params kind pepper salt nonce")
  case (Inl e)
  then show ?thesis by (auto simp: reseal_seed_def split: sum.splits)
next
  case (Inr blob')
  then obtain q seed where s: "check_seal_inputs new params kind pepper = Inr q" "unseal_seed C blob current pepper = Inr seed"
    "seal_seed C seed new params kind pepper salt nonce = Inr blob'" by (auto simp: reseal_seed_def split: sum.splits)
  have len: "length seed = 64" using s(2) unfolding unseal_seed_Inr by blast
  show ?thesis
    using Inr s(2) sealed_opens [OF s(3) len lens tag bound_pepper_self [OF s(1)]] sealed_header(2) [OF s(3) len lens tag]
    by (simp add: read_facts_def)
qed

section \<open>Witnesses\<close>

text \<open>A cipher that tags a message with the start of its key.\<close>

definition demo_tag :: "bytes \<Rightarrow> bytes" where
  "demo_tag key = take 16 (key @ replicate 16 0)"

definition demo_crypto :: vault_crypto where
  "demo_crypto = \<lparr>argon2id = (\<lambda>pw salt ps. Inr (pw @ salt)),
     aead_encrypt = (\<lambda>k n m a. Some (m @ demo_tag k)),
     aead_decrypt = (\<lambda>k n c a. if 16 \<le> length c \<and> drop (length c - 16) c = demo_tag k then Some (take (length c - 16) c) else None)\<rparr>"

lemma demo_tag_law: "aead_encrypt demo_crypto k n m a = Some c \<Longrightarrow> length c = length m + 16"
  by (auto simp: demo_crypto_def demo_tag_def)

lemma demo_inverse: "aead_decrypt demo_crypto k n c a = Some m \<Longrightarrow> aead_encrypt demo_crypto k n m a = Some c"
  by (auto simp: demo_crypto_def split: if_splits) (metis append_take_drop_id)

abbreviation "demo_seed \<equiv> replicate 64 (66 :: byte)"
abbreviation "demo_salt \<equiv> replicate 16 (7 :: byte)"
abbreviation "demo_nonce \<equiv> replicate 24 (9 :: byte)"
abbreviation "demo_pin \<equiv> [49, 50, 51, 52, 53, 54 :: byte]"
abbreviation "demo_pepper \<equiv> replicate 32 (5 :: byte)"

lemma demo_vault_sealed: "seal_seed demo_crypto demo_seed demo_pin default_params Digits (Some demo_pepper) demo_salt demo_nonce
    = Inr (build_header default_params demo_salt demo_nonce Digits True @ demo_seed @ demo_tag (demo_pin @ demo_pepper @ demo_salt))"
  unfolding seal_seed_Inr check_seal_inputs_Inr
  by (simp add: derive_key_def demo_crypto_def demo_tag_def is_ascii_digit_def in_bounds_def default_params_def
      min_m_cost_kib_def max_m_cost_kib_def min_t_cost_def max_t_cost_def min_p_cost_def max_p_cost_def)

lemma seal_opens_witness:
  "\<exists>blob. seal_seed demo_crypto demo_seed demo_pin default_params Digits (Some demo_pepper) demo_salt demo_nonce = Inr blob \<and>
     unseal_seed demo_crypto blob demo_pin (Some demo_pepper) = Inr demo_seed"
  using demo_vault_sealed seal_opens [OF demo_vault_sealed _ _ _ demo_tag_law] by simp

lemma opens_only_what_seals_witness:
  "\<exists>blob. unseal_seed demo_crypto blob demo_pin (Some demo_pepper) = Inr demo_seed \<and>
     seal_seed demo_crypto demo_seed demo_pin (header_params blob) Digits (Some demo_pepper) (take 16 (drop 18 blob)) (take 24 (drop 34 blob)) = Inr blob"
proof -
  let ?blob = "build_header default_params demo_salt demo_nonce Digits True @ demo_seed @ demo_tag (demo_pin @ demo_pepper @ demo_salt)"
  have o: "unseal_seed demo_crypto ?blob demo_pin (Some demo_pepper) = Inr demo_seed"
    by (rule sealed_opens [OF demo_vault_sealed _ _ _ demo_tag_law bound_pepper_self]) (use demo_vault_sealed [unfolded seal_seed_Inr] in auto)
  have f: "read_facts ?blob = Inr \<lparr>bf_version = 2, bf_input_kind = Digits, bf_device_bound = True\<rparr>"
    using sealed_header(2) [OF demo_vault_sealed _ _ _ demo_tag_law] by (simp add: read_facts_def)
  show ?thesis
    using o opens_only_what_seals [OF demo_inverse o f] by (auto simp: is_ascii_digit_def)
qed

lemma kdf_stays_in_bounds_witness:
  "unseal_seed (demo_crypto\<lparr>argon2id := (\<lambda>pw salt ps. if in_bounds ps then Inr (pw @ salt) else Inl ''out of memory'')\<rparr>) [1] [2] None
     = unseal_seed demo_crypto [1] [2] None"
  using kdf_stays_in_bounds [of "\<lambda>pw salt ps. if in_bounds ps then Inr (pw @ salt) else Inl ''out of memory''" demo_crypto "[1]" "[2]" None]
  by (simp add: demo_crypto_def)

lemma reseal_keeps_seed_witness:
  "\<exists>blob blob'. unseal_seed demo_crypto blob demo_pin (Some demo_pepper) = Inr demo_seed \<and>
     reseal_seed demo_crypto blob demo_pin [97] default_params Passphrase (Some demo_pepper) demo_salt demo_nonce = Inr blob' \<and>
     unseal_seed demo_crypto blob' [97] (Some demo_pepper) = Inr demo_seed"
proof -
  let ?blob = "build_header default_params demo_salt demo_nonce Digits True @ demo_seed @ demo_tag (demo_pin @ demo_pepper @ demo_salt)"
  have o: "unseal_seed demo_crypto ?blob demo_pin (Some demo_pepper) = Inr demo_seed"
    by (rule sealed_opens [OF demo_vault_sealed _ _ _ demo_tag_law bound_pepper_self]) (use demo_vault_sealed [unfolded seal_seed_Inr] in auto)
  have ci: "check_seal_inputs [97] default_params Passphrase (Some demo_pepper) = Inr (Some demo_pepper)"
    using demo_vault_sealed [unfolded seal_seed_Inr] unfolding check_seal_inputs_Inr by simp
  have "seal_seed demo_crypto demo_seed [97] default_params Passphrase (Some demo_pepper) demo_salt demo_nonce
      = Inr (build_header default_params demo_salt demo_nonce Passphrase True @ demo_seed @ demo_tag ([97] @ demo_pepper @ demo_salt))"
    unfolding seal_seed_Inr using ci by (simp add: derive_key_def demo_crypto_def demo_tag_def)
  then obtain blob' where r: "reseal_seed demo_crypto ?blob demo_pin [97] default_params Passphrase (Some demo_pepper) demo_salt demo_nonce = Inr blob'"
    using ci o by (simp add: reseal_seed_def)
  have "unseal_seed demo_crypto blob' [97] (Some demo_pepper) = Inr demo_seed"
    using reseal_keeps_seed [where C = demo_crypto and blob = ?blob and current = demo_pin and new = "[97]" and salt = demo_salt
        and nonce = demo_nonce and params = default_params and kind = Passphrase and pepper = "Some demo_pepper", OF _ _ demo_tag_law] r o
    by simp
  then show ?thesis using o r by blast
qed

end
