(* ===== verification/Walk.thy ===== *)
theory Walk
  imports Acceptance_Tracker Wire Durable Rust_Str Utf8
begin

text \<open>
  The message walk (\<open>rust/chain/src/walk.rs\<close>): its state, and the one task that fetches pages
  from the committed cursor, hands them to the matchers and moves the cursor.

  The task is a state machine. A value of \<open>run_pc\<close> is a point where another thread may act: before
  each section under the state lock, and at each \<open>await\<close>. \<open>walk_move\<close> takes one step: the task
  runs on from its point (\<open>Run\<close> with what the node, the matchers or the clock answered there), or
  another thread arms, holds or pokes the walk. A list of events is an interleaving, and a lemma
  for every list covers all of them. A section under the lock reads one moment of the clocks.

  Hashes are texts, as in the tracker. What the node answers, the parser of hashes and the node's
  error texts are arguments. The log of the process holds what the task asked of the node and of
  the matchers, what each arm found in the store's file, and what was done to the cursor, in
  order; no step reads it.
\<close>

section \<open>Constants\<close>

definition max_walk_pages :: nat where "max_walk_pages = max_vcc_catchup_pages"
definition walk_tip_page_threshold :: nat where "walk_tip_page_threshold = vcc_tip_page_threshold"
definition walk_page_attempts :: nat where "walk_page_attempts = vcc_page_attempts"
definition max_failed_runs :: nat where "max_failed_runs = 3"
definition failed_run_backoff_ms :: nat where "failed_run_backoff_ms = 2000"
definition failed_run_backoff_cap_ms :: nat where "failed_run_backoff_cap_ms = 60000"
definition cursor_min_write :: nat where "cursor_min_write = 3"
definition catch_up_behind_ms :: nat where "catch_up_behind_ms = 60000"
definition retention_root_off_chain :: string where
  "retention_root_off_chain = ''does not have retention root on its chain''"
definition watchdog_stall_secs :: nat where "watchdog_stall_secs = 30"

section \<open>The page\<close>

record 's chain_entry =
  ce_hash :: "string option"
  ce_blue :: "nat option"
  ce_daa :: "nat option"
  ce_timestamp :: "nat option"
  ce_accepted :: "'s rpc_optional_transaction list"

record 's v2_response =
  vr_removed :: "string list"
  vr_added :: "string list"
  vr_accepted :: "'s chain_entry list"

record 's chain_page =
  wp_from :: string
  wp_response :: "'s v2_response"
  wp_aligned :: nat

definition page_new :: "string \<Rightarrow> 's v2_response \<Rightarrow> 's chain_page" where
  "page_new from response =
     \<lparr>wp_from = from, wp_response = response,
      wp_aligned = length (takeWhile (\<lambda>(hash, entry). ce_hash entry = Some hash)
        (zip (vr_added response) (vr_accepted response)))\<rparr>"

definition page_removed :: "'s chain_page \<Rightarrow> string list" where
  "page_removed p = vr_removed (wp_response p)"

definition page_blocks :: "'s chain_page \<Rightarrow> (string \<times> 's chain_entry) list" where
  "page_blocks p = take (wp_aligned p) (zip (vr_added (wp_response p)) (vr_accepted (wp_response p)))"

definition page_last :: "'s chain_page \<Rightarrow> (string \<times> nat option) option" where
  "page_last p =
     (if wp_aligned p = 0 then None
      else let i = wp_aligned p - 1 in
        Some (vr_added (wp_response p) ! i, ce_timestamp (vr_accepted (wp_response p) ! i)))"

definition added_len :: "'s chain_page \<Rightarrow> nat" where
  "added_len p = length (vr_added (wp_response p))"

datatype verdict = Folded | Held

section \<open>The node's answers\<close>

datatype page_error = NoSocket | SocketLost | Displaced | TimedOut | Refused string

definition page_error_of :: "nat option \<Rightarrow> nat option \<Rightarrow> (nat \<Rightarrow> bool option) \<Rightarrow> string \<Rightarrow> page_error" where
  "page_error_of before after retired_judged error =
     (case before of
        None \<Rightarrow> NoSocket
      | Some socket \<Rightarrow>
          if after \<noteq> before then
            (case retired_judged socket of
               Some False \<Rightarrow> Displaced
             | _ \<Rightarrow> SocketLost)
          else Refused error)"

text \<open>What a call of the node came to: an answer, an error, or nothing in the time given.\<close>

datatype 'a call = Answered 'a | Failed_Call string | Elapsed

definition link_page ::
  "nat option \<Rightarrow> nat option \<Rightarrow> (nat \<Rightarrow> bool option) \<Rightarrow> 's v2_response call \<Rightarrow> page_error + 's v2_response" where
  "link_page before after retired_judged c =
     (case c of
        Answered response \<Rightarrow> Inr response
      | Failed_Call e \<Rightarrow> Inl (page_error_of before after retired_judged e)
      | Elapsed \<Rightarrow> Inl TimedOut)"

definition link_sink :: "string call \<Rightarrow> string + string" where
  "link_sink c =
     (case c of
        Answered sink \<Rightarrow> Inr sink
      | Failed_Call e \<Rightarrow> Inl e
      | Elapsed \<Rightarrow> Inl ''no answer in 60 s'')"

record walk_env =
  we_parse_hash :: "string \<Rightarrow> string option"
  we_zero_hash :: string
  we_not_found :: string
  we_matchers :: nat

fun contains :: "string \<Rightarrow> string \<Rightarrow> bool" where
  "contains needle [] \<longleftrightarrow> needle = []"
| "contains needle (c # cs) \<longleftrightarrow> take (length needle) (c # cs) = needle \<or> contains needle cs"

function trim_end_matches :: "string \<Rightarrow> string \<Rightarrow> string" where
  "trim_end_matches s pat =
     (if pat \<noteq> [] \<and> length pat \<le> length s \<and> drop (length s - length pat) s = pat
      then trim_end_matches (take (length s - length pat) s) pat else s)"
  by pat_completeness auto
termination by (relation "measure (\<lambda>(s, pat). length s)") (auto simp: neq_Nil_conv)

declare trim_end_matches.simps [simp del]

definition cursor_unknown :: "walk_env \<Rightarrow> string \<Rightarrow> bool" where
  "cursor_unknown E error =
     (let missing = trim_end (trim_end_matches (we_not_found E) (we_zero_hash E)) in
      contains missing error \<or> contains retention_root_off_chain error)"

section \<open>The cursor file\<close>

definition read_walk_cursor :: "walk_env \<Rightarrow> path \<Rightarrow> disk \<Rightarrow> disk \<times> string option" where
  "read_walk_cursor E p d =
     (case read_file p d of
        (d, Inl _) \<Rightarrow> (d, None)
      | (d, Inr bs) \<Rightarrow> (d, Option.bind (from_utf8 bs) (\<lambda>text. we_parse_hash E (trim text))))"

definition write_walk_cursor :: "path \<Rightarrow> string \<Rightarrow> disk \<Rightarrow> disk" where
  "write_walk_cursor p hash d = fst (atomic_write p (ascii hash) d)"

section \<open>The state\<close>

datatype intake_mode = Idle | Running

record intake =
  iw_mode :: intake_mode
  iw_cursor :: "string option"
  iw_path :: "path option"
  iw_written_at :: nat
  iw_cursor_time_ms :: "nat option"
  iw_epoch :: nat
  iw_failed_runs :: nat
  iw_retry_after :: "nat option"
  iw_carried :: "(string \<times> nat) option"
  iw_own :: "(string \<times> nat) option"
  iw_mark_read :: bool
  iw_present :: bool
  iw_at_tip :: bool

datatype cause = Budget | Failure

record page_in_flight =
  pf_sent_mono_ms :: nat
  pf_socket :: "nat option"
  pf_catch_up :: bool

text \<open>What one section under the lock, or one step between two waits, reads of the world.\<close>

record moment =
  mo_unix_ms :: nat
  mo_mono_ms :: nat
  mo_instant :: nat
  mo_socket :: "nat option"

text \<open>Where the answer of a mark's read goes on.\<close>

datatype 's mark_cont = At_Start | With_Page nat string "'s v2_response"

datatype 's run_pc =
    Parked
  | Begin
  | Mark_Check nat "'s mark_cont"
  | Mark_Ask nat "'s mark_cont"
  | Mark_Set nat "'s mark_cont" string
  | Owed nat
  | Stepping nat nat
  | Behind nat nat string
  | Attempt nat nat string bool nat bool
  | Turn nat nat string bool nat bool
  | After_Turn nat nat string bool nat bool
  | Asking nat nat string bool nat bool
  | Awaiting nat nat string bool nat bool
  | Sleeping nat nat string bool nat bool
  | Failing nat string
  | Gate nat nat "'s chain_page"
  | Progress nat nat "'s chain_page"
  | Folding nat nat "'s chain_page" nat
  | Holding nat string
  | Committing nat nat "'s chain_page"
  | Landing nat cause
  | Tell_Landed nat cause string string
  | Sink_Ask nat
  | Sink_Failed nat
  | Sink_Set nat string
  | Tell_Seeded nat "string option" string
  | Settling nat

datatype 's observation =
    Asked string
  | Served nat string
  | Unserved nat string page_error
  | Said nat "'s chain_page" verdict
  | Committed "'s chain_page"
  | Landed string string
  | Seeded "string option" string
  | Gap nat string string
  | Armed nat path "io_error + bytes" "string option"

record 's process =
  pw_state :: intake
  pw_poke :: bool
  pw_settled :: nat
  pw_in_flight :: "page_in_flight option"
  pw_progress :: nat
  pw_since :: nat
  pw_quiet :: bool
  pw_yields :: bool
  pw_pc :: "'s run_pc"
  pw_disk :: disk
  pw_log :: "'s observation list"

definition state_new :: intake where
  "state_new = \<lparr>iw_mode = Idle, iw_cursor = None, iw_path = None, iw_written_at = 0, iw_cursor_time_ms = None,
     iw_epoch = 0, iw_failed_runs = 0, iw_retry_after = None, iw_carried = None, iw_own = None,
     iw_mark_read = False, iw_present = False, iw_at_tip = False\<rparr>"

definition walk_new :: "disk \<Rightarrow> 's process" where
  "walk_new d = \<lparr>pw_state = state_new, pw_poke = False, pw_settled = 0, pw_in_flight = None, pw_progress = 0,
     pw_since = 0, pw_quiet = False, pw_yields = False, pw_pc = Parked, pw_disk = d, pw_log = []\<rparr>"

definition logged :: "'s observation list \<Rightarrow> 's process \<Rightarrow> 's process" where
  "logged os P = P\<lparr>pw_log := pw_log P @ os\<rparr>"

definition jump :: "'s run_pc \<Rightarrow> 's process \<Rightarrow> 's process" where
  "jump pc P = P\<lparr>pw_pc := pc\<rparr>"

section \<open>Arming, holding, poking\<close>

definition flush :: "moment \<Rightarrow> intake \<Rightarrow> disk \<Rightarrow> intake \<times> disk" where
  "flush now s d =
     (case (iw_path s, iw_cursor s) of
        (Some path, Some cursor) \<Rightarrow>
          (s\<lparr>iw_written_at := mo_unix_ms now div 1000\<rparr>, write_walk_cursor path cursor d)
      | _ \<Rightarrow> (s, d))"

definition arm_state :: "walk_env \<Rightarrow> path \<Rightarrow> intake \<Rightarrow> disk \<Rightarrow> intake \<times> disk" where
  "arm_state E path s d =
     (let same_store = iw_path s = Some path;
          (s, d) = (if \<not> same_store \<or> iw_cursor s = None
                    then (case read_walk_cursor E path d of
                            (d, c) \<Rightarrow> (s\<lparr>iw_cursor := c, iw_cursor_time_ms := None, iw_path := Some path\<rparr>, d))
                    else (s, d)) in
      (s\<lparr>iw_mode := Running, iw_epoch := iw_epoch s + 1, iw_failed_runs := 0, iw_retry_after := None,
         iw_carried := (if same_store then (case iw_carried s of None \<Rightarrow> iw_own s | Some m \<Rightarrow> Some m) else None),
         iw_own := None, iw_mark_read := False, iw_present := False, iw_at_tip := False\<rparr>, d))"

definition arm :: "walk_env \<Rightarrow> moment \<Rightarrow> path \<Rightarrow> 's process \<Rightarrow> 's process" where
  "arm E now path P =
     (case arm_state E path (pw_state P) (pw_disk P) of
        (s, d) \<Rightarrow> logged [Armed (iw_epoch s) path (snd (read_file path (pw_disk P))) (iw_cursor s)]
          (P\<lparr>pw_state := s, pw_disk := d, pw_since := mo_mono_ms now, pw_quiet := False, pw_poke := True\<rparr>))"

definition hold_intake :: "moment \<Rightarrow> 's process \<Rightarrow> 's process" where
  "hold_intake now P =
     (let s = pw_state P in
      if iw_mode s = Idle then P
      else (case flush now (s\<lparr>iw_mode := Idle, iw_epoch := iw_epoch s + 1\<rparr>) (pw_disk P) of
              (s, d) \<Rightarrow> P\<lparr>pw_state := s, pw_disk := d\<rparr>))"

definition poke :: "'s process \<Rightarrow> 's process" where
  "poke P = P\<lparr>pw_poke := True\<rparr>"

definition socket_published :: "'s process \<Rightarrow> 's process" where
  "socket_published P = P\<lparr>pw_quiet := False, pw_state := (pw_state P)\<lparr>iw_at_tip := False\<rparr>\<rparr>"

definition yield_to :: "'s process \<Rightarrow> 's process" where
  "yield_to P = P\<lparr>pw_yields := True\<rparr>"

definition is_running :: "'s process \<Rightarrow> bool" where
  "is_running P \<longleftrightarrow> iw_mode (pw_state P) = Running"

definition settled :: "nat \<Rightarrow> 's process \<Rightarrow> bool" where
  "settled epoch P \<longleftrightarrow> epoch \<le> pw_settled P"

text \<open>The fold gate is held from the check before a fold to the end of its bookkeeping.\<close>

fun gate_held :: "'s run_pc \<Rightarrow> bool" where
  "gate_held (Progress _ _ _) = True"
| "gate_held (Folding _ _ _ _) = True"
| "gate_held (Holding _ _) = True"
| "gate_held (Committing _ _ _) = True"
| "gate_held _ = False"

definition quiesce_returns :: "'s process \<Rightarrow> bool" where
  "quiesce_returns P \<longleftrightarrow> \<not> gate_held (pw_pc P)"

definition note_ticks :: "nat \<Rightarrow> nat \<Rightarrow> 's process \<Rightarrow> 's process \<times> bool" where
  "note_ticks connected_mono now_mono P =
     (if connected_mono = 0 \<or> \<not> is_running P then (P, False)
      else
        let since = max (max connected_mono (pw_since P)) (pw_progress P);
            quiet_secs = (now_mono - since) div 1000 in
        if watchdog_stall_secs \<le> quiet_secs \<and> \<not> pw_quiet P then (P\<lparr>pw_quiet := True\<rparr>, True)
        else (P, False))"

section \<open>The task's sections\<close>

definition still_at :: "nat \<Rightarrow> string \<Rightarrow> intake \<Rightarrow> bool" where
  "still_at epoch from s \<longleftrightarrow> iw_mode s = Running \<and> iw_epoch s = epoch \<and> iw_cursor s = Some from"

definition under :: "nat \<Rightarrow> intake \<Rightarrow> bool" where
  "under epoch s \<longleftrightarrow> iw_mode s = Running \<and> iw_epoch s = epoch"

definition begin_run :: "moment \<Rightarrow> intake \<Rightarrow> 's run_pc" where
  "begin_run now s =
     (if iw_mode s \<noteq> Running then Parked
      else if (case iw_retry_after s of None \<Rightarrow> False | Some t \<Rightarrow> mo_instant now < t) then Settling (iw_epoch s)
      else Mark_Check (iw_epoch s) At_Start)"

fun after_mark :: "nat \<Rightarrow> 's mark_cont \<Rightarrow> 's run_pc" where
  "after_mark epoch At_Start = Owed epoch"
| "after_mark epoch (With_Page pages from response) = Gate epoch pages (page_new from response)"

definition wants_mark :: "nat \<Rightarrow> intake \<Rightarrow> bool" where
  "wants_mark epoch s \<longleftrightarrow> under epoch s \<and> iw_cursor s \<noteq> None \<and> \<not> iw_mark_read s"

definition set_mark :: "nat \<Rightarrow> moment \<Rightarrow> string \<Rightarrow> intake \<Rightarrow> intake" where
  "set_mark epoch now mark s =
     (if under epoch s \<and> \<not> iw_mark_read s
      then s\<lparr>iw_own := Some (mark, mo_unix_ms now), iw_mark_read := True\<rparr> else s)"

definition step_pc :: "nat \<Rightarrow> nat \<Rightarrow> intake \<Rightarrow> 's run_pc" where
  "step_pc epoch pages s =
     (if \<not> under epoch s then Settling epoch
      else (case iw_cursor s of Some from \<Rightarrow> Behind epoch pages from | None \<Rightarrow> Sink_Ask epoch))"

definition behind :: "nat \<Rightarrow> moment \<Rightarrow> intake \<Rightarrow> bool" where
  "behind epoch now s \<longleftrightarrow> iw_epoch s = epoch \<and> \<not> iw_at_tip s
     \<and> (case iw_cursor_time_ms s of None \<Rightarrow> True | Some t \<Rightarrow> catch_up_behind_ms \<le> mo_unix_ms now - t)"

definition retry_pc :: "nat \<Rightarrow> nat \<Rightarrow> string \<Rightarrow> bool \<Rightarrow> nat \<Rightarrow> bool \<Rightarrow> 's run_pc" where
  "retry_pc epoch pages from large attempt only =
     (if attempt + 1 < walk_page_attempts then Sleeping epoch pages from large attempt only
      else if only then Settling epoch else Failing epoch from)"

definition page_answered ::
  "walk_env \<Rightarrow> nat \<Rightarrow> nat \<Rightarrow> string \<Rightarrow> bool \<Rightarrow> nat \<Rightarrow> bool \<Rightarrow> page_error + 's v2_response \<Rightarrow> 's run_pc" where
  "page_answered E epoch pages from large attempt only r =
     (case r of
        Inr response \<Rightarrow> Mark_Check epoch (With_Page pages from response)
      | Inl TimedOut \<Rightarrow> Failing epoch from
      | Inl SocketLost \<Rightarrow> Failing epoch from
      | Inl Displaced \<Rightarrow> Settling epoch
      | Inl NoSocket \<Rightarrow> retry_pc epoch pages from large attempt only
      | Inl (Refused e) \<Rightarrow>
          if cursor_unknown E e then Landing epoch Failure
          else retry_pc epoch pages from large attempt False)"

definition failed_run_pause :: "nat \<Rightarrow> nat" where
  "failed_run_pause failed = min (failed_run_backoff_ms * 2 ^ min (failed - 1) 8) failed_run_backoff_cap_ms"

definition failed_run :: "nat \<Rightarrow> string \<Rightarrow> moment \<Rightarrow> intake \<Rightarrow> intake \<times> 's run_pc" where
  "failed_run epoch from now s =
     (if \<not> still_at epoch from s then (s, Settling epoch)
      else
        let failed = iw_failed_runs s + 1 in
        (s\<lparr>iw_failed_runs := failed, iw_retry_after := Some (mo_instant now + failed_run_pause failed)\<rparr>,
         if max_failed_runs \<le> failed then Landing epoch Failure else Settling epoch))"

definition note_progress :: "nat \<Rightarrow> string \<Rightarrow> intake \<Rightarrow> intake" where
  "note_progress epoch from s =
     (if iw_epoch s \<noteq> epoch \<or> iw_cursor s \<noteq> Some from then s
      else s\<lparr>iw_failed_runs := 0, iw_retry_after := None, iw_mark_read := True\<rparr>)"

definition hold_at :: "moment \<Rightarrow> intake \<Rightarrow> disk \<Rightarrow> intake \<times> disk" where
  "hold_at now s d = flush now (s\<lparr>iw_mode := Idle, iw_epoch := iw_epoch s + 1\<rparr>) d"

definition page_long :: "'s chain_page \<Rightarrow> bool" where
  "page_long page \<longleftrightarrow> walk_tip_page_threshold \<le> added_len page"

definition carries :: "'s chain_page \<Rightarrow> (string \<times> nat) option \<Rightarrow> bool" where
  "carries page mark =
     (case mark of None \<Rightarrow> False
      | Some (m, _) \<Rightarrow> m = wp_from page \<or> m \<in> fst ` set (page_blocks page))"

definition pass_marks :: "nat \<Rightarrow> 's chain_page \<Rightarrow> bool \<Rightarrow> intake \<Rightarrow> intake" where
  "pass_marks epoch page at_tip s =
     (if at_tip \<or> carries page (iw_own s) then
        (let s = s\<lparr>iw_own := None, iw_carried := None\<rparr> in
         if iw_epoch s = epoch then s\<lparr>iw_present := True, iw_at_tip := iw_at_tip s \<or> at_tip\<rparr> else s)
      else if carries page (iw_carried s) then s\<lparr>iw_carried := None\<rparr>
      else s)"

definition commit :: "nat \<Rightarrow> 's chain_page \<Rightarrow> bool \<Rightarrow> bool \<Rightarrow> moment \<Rightarrow> intake \<Rightarrow> disk \<Rightarrow> (intake \<times> disk) option" where
  "commit epoch page force at_tip now s d =
     (if iw_cursor s \<noteq> Some (wp_from page) then None
      else
        let moved = page_last page;
            s = (case moved of Some (to, time) \<Rightarrow> s\<lparr>iw_cursor := Some to, iw_cursor_time_ms := time\<rparr> | None \<Rightarrow> s);
            s = pass_marks epoch page at_tip s in
        Some (if moved = None then (s, d)
              else if force \<or> iw_mode s \<noteq> Running \<or> cursor_min_write \<le> mo_unix_ms now div 1000 - iw_written_at s
              then flush now s d else (s, d)))"

definition after_commit :: "nat \<Rightarrow> nat \<Rightarrow> 's chain_page \<Rightarrow> 's run_pc" where
  "after_commit epoch pages page =
     (if wp_aligned page < added_len page then Settling epoch
      else if \<not> page_long page then Settling epoch
      else if max_walk_pages \<le> pages + 1 then Landing epoch Budget
      else Stepping epoch (pages + 1))"

datatype landing_point = No_Landing | To_Mark string string | Present | To_Sink

definition landing :: "nat \<Rightarrow> cause \<Rightarrow> moment \<Rightarrow> intake \<Rightarrow> disk \<Rightarrow> intake \<times> disk \<times> landing_point" where
  "landing epoch cause now s d =
     (if \<not> under epoch s then (s, d, No_Landing)
      else (case iw_cursor s of
         None \<Rightarrow> (s, d, To_Sink)
       | Some cursor \<Rightarrow>
           let ahead = (\<lambda>m. case m of None \<Rightarrow> None | Some (mark, t) \<Rightarrow> if mark \<noteq> cursor then Some mark else None);
               next1 = ahead (iw_carried s);
               s = s\<lparr>iw_carried := None\<rparr>;
               (next2, s) = (if next1 = None \<and> iw_own s \<noteq> None
                             then (ahead (iw_own s), s\<lparr>iw_own := None, iw_present := True\<rparr>) else (next1, s)) in
           (case next2 of
              None \<Rightarrow> (s, d, if iw_present s then Present else To_Sink)
            | Some mark \<Rightarrow>
                let s = s\<lparr>iw_cursor := Some mark, iw_cursor_time_ms := None, iw_failed_runs := 0\<rparr>;
                    s = (if cause = Budget then s\<lparr>iw_retry_after := None\<rparr> else s);
                    (s, d) = flush now s d in
                (s, d, To_Mark cursor mark))))"

definition sink_unread :: "nat \<Rightarrow> moment \<Rightarrow> intake \<Rightarrow> intake" where
  "sink_unread epoch now s =
     (if under epoch s then
        let pause = mo_instant now + failed_run_backoff_ms in
        s\<lparr>iw_retry_after := Some (case iw_retry_after s of None \<Rightarrow> pause | Some t \<Rightarrow> max t pause)\<rparr>
      else s)"

definition reseed_at :: "string \<Rightarrow> moment \<Rightarrow> intake \<Rightarrow> disk \<Rightarrow> intake \<times> disk" where
  "reseed_at sink now s d =
     flush now (s\<lparr>iw_cursor := Some sink, iw_cursor_time_ms := None, iw_failed_runs := 0, iw_retry_after := None,
       iw_carried := None, iw_own := None, iw_mark_read := True, iw_present := True, iw_at_tip := True\<rparr>) d"

definition tell_gap :: "walk_env \<Rightarrow> string \<Rightarrow> string \<Rightarrow> 's process \<Rightarrow> 's process" where
  "tell_gap E was to P = logged (map (\<lambda>i. Gap i was to) [0..<we_matchers E]) P"

section \<open>One step of the task\<close>

datatype 's answer =
    Go
  | Mark_Is "string + string"
  | Page_Is "page_error + 's v2_response"
  | Sink_Is "string + string"
  | Says verdict

fun run_section :: "walk_env \<Rightarrow> moment \<Rightarrow> 's run_pc \<Rightarrow> 's process \<Rightarrow> 's process" where
  "run_section E now Parked P = (if pw_poke P then jump Begin (P\<lparr>pw_poke := False\<rparr>) else P)"
| "run_section E now Begin P = jump (begin_run now (pw_state P)) P"
| "run_section E now (Mark_Check epoch k) P =
     jump (if wants_mark epoch (pw_state P) then Mark_Ask epoch k else after_mark epoch k) P"
| "run_section E now (Mark_Set epoch k mark) P =
     jump (after_mark epoch k) (P\<lparr>pw_state := set_mark epoch now mark (pw_state P)\<rparr>)"
| "run_section E now (Owed epoch) P =
     jump (if max_failed_runs \<le> iw_failed_runs (pw_state P) then Landing epoch Failure else Stepping epoch 0) P"
| "run_section E now (Stepping epoch pages) P = jump (step_pc epoch pages (pw_state P)) P"
| "run_section E now (Behind epoch pages from) P =
     jump (Attempt epoch pages from (0 < pages \<or> behind epoch now (pw_state P)) 0 True) P"
| "run_section E now (Attempt epoch pages from large attempt only) P =
     jump (if \<not> still_at epoch from (pw_state P) then Settling epoch
           else if large \<and> pw_yields P then Turn epoch pages from large attempt only
           else Asking epoch pages from large attempt only) P"
| "run_section E now (Turn epoch pages from large attempt only) P =
     jump (After_Turn epoch pages from large attempt only) P"
| "run_section E now (After_Turn epoch pages from large attempt only) P =
     jump (if still_at epoch from (pw_state P) then Asking epoch pages from large attempt only else Settling epoch) P"
| "run_section E now (Asking epoch pages from large attempt only) P =
     logged [Asked from] (jump (Awaiting epoch pages from large attempt only)
       (P\<lparr>pw_in_flight := Some \<lparr>pf_sent_mono_ms = mo_mono_ms now, pf_socket = mo_socket now, pf_catch_up = large\<rparr>\<rparr>))"
| "run_section E now (Sleeping epoch pages from large attempt only) P =
     jump (Attempt epoch pages from large (attempt + 1) only) P"
| "run_section E now (Failing epoch from) P =
     (case failed_run epoch from now (pw_state P) of (s, pc) \<Rightarrow> jump pc (P\<lparr>pw_state := s\<rparr>))"
| "run_section E now (Gate epoch pages page) P =
     jump (if still_at epoch (wp_from page) (pw_state P) then Progress epoch pages page else Settling epoch) P"
| "run_section E now (Progress epoch pages page) P =
     jump (Folding epoch pages page 0)
       (P\<lparr>pw_progress := mo_mono_ms now, pw_quiet := False,
          pw_state := note_progress epoch (wp_from page) (pw_state P)\<rparr>)"
| "run_section E now (Folding epoch pages page i) P =
     (if we_matchers E \<le> i then jump (Committing epoch pages page) P else P)"
| "run_section E now (Holding epoch from) P =
     (case hold_at now (pw_state P) (pw_disk P) of (s, d) \<Rightarrow> jump (Settling epoch) (P\<lparr>pw_state := s, pw_disk := d\<rparr>))"
| "run_section E now (Committing epoch pages page) P =
     (let at_tip = (\<not> page_long page \<and> wp_aligned page = added_len page);
          next_pc = after_commit epoch pages page in
      case commit epoch page (page_long page \<or> 0 < pages) at_tip now (pw_state P) (pw_disk P) of
        None \<Rightarrow> jump next_pc P
      | Some (s, d) \<Rightarrow> logged [Committed page] (jump next_pc (P\<lparr>pw_state := s, pw_disk := d\<rparr>)))"
| "run_section E now (Landing epoch cause) P =
     (case landing epoch cause now (pw_state P) (pw_disk P) of
        (s, d, l) \<Rightarrow>
          (let P = P\<lparr>pw_state := s, pw_disk := d\<rparr> in
           case l of
             No_Landing \<Rightarrow> jump (Settling epoch) P
           | To_Mark was mark \<Rightarrow> logged [Landed was mark] (jump (Tell_Landed epoch cause was mark) P)
           | Present \<Rightarrow> (if cause = Budget then jump (Settling epoch) (poke P) else jump (Sink_Ask epoch) P)
           | To_Sink \<Rightarrow> jump (Sink_Ask epoch) P))"
| "run_section E now (Tell_Landed epoch cause was mark) P =
     (let P = tell_gap E was mark P in
      if cause = Budget then jump Parked (poke P) else jump (Settling epoch) P)"
| "run_section E now (Sink_Failed epoch) P =
     jump (Settling epoch) (P\<lparr>pw_state := sink_unread epoch now (pw_state P)\<rparr>)"
| "run_section E now (Sink_Set epoch sink) P =
     (if \<not> under epoch (pw_state P) then jump (Settling epoch) P
      else (case reseed_at sink now (pw_state P) (pw_disk P) of
              (s, d) \<Rightarrow> logged [Seeded (iw_cursor (pw_state P)) sink]
                (jump (Tell_Seeded epoch (iw_cursor (pw_state P)) sink) (P\<lparr>pw_state := s, pw_disk := d\<rparr>))))"
| "run_section E now (Tell_Seeded epoch was sink) P =
     jump (Settling epoch) (case was of None \<Rightarrow> P | Some from \<Rightarrow> tell_gap E from sink P)"
| "run_section E now (Settling epoch) P =
     jump Parked (P\<lparr>pw_settled := max (pw_settled P) epoch\<rparr>)"
| "run_section E now (Mark_Ask _ _) P = P"
| "run_section E now (Awaiting _ _ _ _ _ _) P = P"
| "run_section E now (Sink_Ask _) P = P"

fun run_answer :: "walk_env \<Rightarrow> moment \<Rightarrow> 's answer \<Rightarrow> 's process \<Rightarrow> 's process" where
  "run_answer E now Go P = run_section E now (pw_pc P) P"
| "run_answer E now (Mark_Is r) P =
     (case pw_pc P of
        Mark_Ask epoch k \<Rightarrow>
          jump (case r of Inl _ \<Rightarrow> after_mark epoch k | Inr mark \<Rightarrow> Mark_Set epoch k mark) P
      | _ \<Rightarrow> P)"
| "run_answer E now (Page_Is r) P =
     (case pw_pc P of
        Awaiting epoch pages from large attempt only \<Rightarrow>
          logged [case r of Inl e \<Rightarrow> Unserved epoch from e | Inr _ \<Rightarrow> Served epoch from]
            (jump (page_answered E epoch pages from large attempt only r) (P\<lparr>pw_in_flight := None\<rparr>))
      | _ \<Rightarrow> P)"
| "run_answer E now (Sink_Is r) P =
     (case pw_pc P of
        Sink_Ask epoch \<Rightarrow> jump (case r of Inl _ \<Rightarrow> Sink_Failed epoch | Inr sink \<Rightarrow> Sink_Set epoch sink) P
      | _ \<Rightarrow> P)"
| "run_answer E now (Says v) P =
     (case pw_pc P of
        Folding epoch pages page i \<Rightarrow>
          if we_matchers E \<le> i then P
          else logged [Said i page v]
            (jump (case v of Held \<Rightarrow> Holding epoch (wp_from page) | Folded \<Rightarrow> Folding epoch pages page (i + 1)) P)
      | _ \<Rightarrow> P)"

datatype 's walk_event =
    Arm path
  | Hold
  | Poke
  | Published
  | Yield_To
  | Ticks nat nat
  | Run "'s answer"

fun walk_move :: "walk_env \<Rightarrow> 's process \<Rightarrow> moment \<times> 's walk_event \<Rightarrow> 's process" where
  "walk_move E P (now, Arm path) = arm E now path P"
| "walk_move E P (now, Hold) = hold_intake now P"
| "walk_move E P (now, Poke) = poke P"
| "walk_move E P (now, Published) = socket_published P"
| "walk_move E P (now, Yield_To) = yield_to P"
| "walk_move E P (now, Ticks since t) = fst (note_ticks since t P)"
| "walk_move E P (now, Run answer) = run_answer E now answer P"

definition walk_run :: "walk_env \<Rightarrow> disk \<Rightarrow> (moment \<times> 's walk_event) list \<Rightarrow> 's process" where
  "walk_run E d evs = foldl (walk_move E) (walk_new d) evs"

end
