(* ===== verification/Event_System.thy ===== *)
theory Event_System
  imports Main
begin

text \<open>
  The interface of every machine of the development that takes one event at a time: what each
  event keeps holds after every list of events, from every state in which it holds at first.
\<close>

locale event_system =
  fixes move :: "'s \<Rightarrow> 'e \<Rightarrow> 's" and inv :: "'s \<Rightarrow> bool" and may :: "'e \<Rightarrow> bool"
  assumes move_keeps: "inv s \<Longrightarrow> may e \<Longrightarrow> inv (move s e)"
begin

lemma events_keep: "inv s \<Longrightarrow> list_all may es \<Longrightarrow> inv (foldl move s es)"
  by (induction es arbitrary: s) (simp_all add: move_keeps)

lemma prefixes_keep: "inv s \<Longrightarrow> list_all may es \<Longrightarrow> inv (foldl move s (take k es))"
  by (rule events_keep) (auto simp: list_all_iff dest: in_set_takeD)

end

text \<open>A machine whose events leave one observable value alone.\<close>

locale silent_system = event_system move inv may
  for move :: "'s \<Rightarrow> 'e \<Rightarrow> 's" and inv :: "'s \<Rightarrow> bool" and may :: "'e \<Rightarrow> bool" +
  fixes shown :: "'s \<Rightarrow> 'v"
  assumes move_silent: "inv s \<Longrightarrow> may e \<Longrightarrow> shown (move s e) = shown s"
begin

lemma events_silent: "inv s \<Longrightarrow> list_all may es \<Longrightarrow> shown (foldl move s es) = shown s"
  by (induction es arbitrary: s) (simp_all add: move_keeps move_silent)

end

end
