(* ===== verification/Walk_Audit.thy ===== *)
theory Walk_Audit
  imports Walk Event_System
begin

text \<open>
  The auditor of the message walk. It replays what the task did, in order, and refuses a log in
  which the cursor moved other than the code promises: past a page only when every matcher had
  folded that page from the cursor; to a mark or to the sink only with every matcher told of the
  gap; and at an arm only to what the store's file holds, and only when the walk has no cursor of
  that store.
\<close>

section \<open>The auditor\<close>

text \<open>The cursor, the store it is of, the pages each matcher folded, and the gaps yet to tell.\<close>

type_synonym 's audit =
  "string option \<times> path option \<times> (nat \<times> 's chain_page) list \<times> (nat \<times> string \<times> string) list"

definition owed_gap :: "nat \<Rightarrow> string \<Rightarrow> string \<Rightarrow> (nat \<times> string \<times> string) list" where
  "owed_gap n was to = map (\<lambda>i. (i, was, to)) [0..<n]"

text \<open>The hash a cursor file names, if it names one.\<close>

definition stored_cursor :: "walk_env \<Rightarrow> io_error + bytes \<Rightarrow> string option" where
  "stored_cursor E found =
     (case found of
        Inl _ \<Rightarrow> None
      | Inr bs \<Rightarrow> (case from_utf8 bs of None \<Rightarrow> None | Some text \<Rightarrow> we_parse_hash E (trim text)))"

fun audit_one :: "walk_env \<Rightarrow> 's audit \<Rightarrow> 's observation \<Rightarrow> 's audit option" where
  "audit_one E a (Asked from) = Some a"
| "audit_one E a (Served epoch from) = Some a"
| "audit_one E a (Unserved epoch from e) = Some a"
| "audit_one E (c, st, said, owed) (Said i page v) = Some (c, st, if v = Folded then (i, page) # said else said, owed)"
| "audit_one E (c, st, said, owed) (Committed page) =
     (if c = Some (wp_from page) \<and> list_all (\<lambda>i. (i, page) \<in> set said) [0..<we_matchers E]
      then Some (case page_last page of None \<Rightarrow> c | Some (to, _) \<Rightarrow> Some to, st, said, owed) else None)"
| "audit_one E (c, st, said, owed) (Landed was mark) =
     (if c = Some was \<and> owed = [] then Some (Some mark, st, said, owed_gap (we_matchers E) was mark) else None)"
| "audit_one E (c, st, said, owed) (Seeded was sink) =
     (if c = was \<and> owed = []
      then Some (Some sink, st, said, case was of None \<Rightarrow> [] | Some from \<Rightarrow> owed_gap (we_matchers E) from sink) else None)"
| "audit_one E (c, st, said, owed) (Gap i was to) =
     (case owed of [] \<Rightarrow> None | g # rest \<Rightarrow> if g = (i, was, to) then Some (c, st, said, rest) else None)"
| "audit_one E (c, st, said, owed) (Armed epoch path found c') =
     (if c' = (if st = Some path \<and> c \<noteq> None then c else stored_cursor E found)
      then Some (c', Some path, said, owed) else None)"

definition audit_on :: "walk_env \<Rightarrow> 's audit option \<Rightarrow> 's observation list \<Rightarrow> 's audit option" where
  "audit_on E a os = foldl (\<lambda>a ob. Option.bind a (\<lambda>a. audit_one E a ob)) a os"

definition audit :: "walk_env \<Rightarrow> 's observation list \<Rightarrow> 's audit option" where
  "audit E os = audit_on E (Some (None, None, [], [])) os"

lemma audit_on_simps [simp]:
  "audit_on E q [] = q" "audit_on E (Some a) (ob # os) = audit_on E (audit_one E a ob) os"
  by (simp_all add: audit_on_def)

lemma audit_append: "audit E (os @ os') = audit_on E (audit E os) os'"
  by (simp add: audit_def audit_on_def)

lemma audit_gaps:
  "audit_on E (Some (c, st, said, map (\<lambda>i. (i, was, to)) is)) (map (\<lambda>i. Gap i was to) is) = Some (c, st, said, [])"
  by (induction "is") simp_all

section \<open>The log of every run passes the audit\<close>

fun owed_at :: "nat \<Rightarrow> 's run_pc \<Rightarrow> (nat \<times> string \<times> string) list" where
  "owed_at n (Tell_Landed _ _ was mark) = owed_gap n was mark"
| "owed_at n (Tell_Seeded _ (Some from) sink) = owed_gap n from sink"
| "owed_at n _ = []"

fun folded_at :: "nat \<Rightarrow> 's run_pc \<Rightarrow> (nat \<times> 's chain_page) list" where
  "folded_at n (Folding _ _ page i) = map (\<lambda>j. (j, page)) [0..<i]"
| "folded_at n (Committing _ _ page) = map (\<lambda>j. (j, page)) [0..<n]"
| "folded_at n _ = []"

definition audited :: "walk_env \<Rightarrow> 's process \<Rightarrow> bool" where
  "audited E P \<longleftrightarrow> (\<exists>said. audit E (pw_log P)
       = Some (iw_cursor (pw_state P), iw_path (pw_state P), said, owed_at (we_matchers E) (pw_pc P))
     \<and> set (folded_at (we_matchers E) (pw_pc P)) \<subseteq> set said)"

lemma process_fields [simp]:
  "pw_state (jump pc P) = pw_state P" "pw_disk (jump pc P) = pw_disk P" "pw_log (jump pc P) = pw_log P"
  "pw_pc (jump pc P) = pc" "pw_poke (jump pc P) = pw_poke P" "pw_yields (jump pc P) = pw_yields P"
  "pw_state (logged os P) = pw_state P" "pw_disk (logged os P) = pw_disk P" "pw_log (logged os P) = pw_log P @ os"
  "pw_pc (logged os P) = pw_pc P" "pw_poke (logged os P) = pw_poke P" "pw_yields (logged os P) = pw_yields P"
  "pw_state (poke P) = pw_state P" "pw_disk (poke P) = pw_disk P" "pw_log (poke P) = pw_log P" "pw_pc (poke P) = pw_pc P"
  by (simp_all add: jump_def logged_def poke_def)

text \<open>What a flush leaves alone.\<close>

lemma flush_fields:
  assumes "flush now s d = (s', d')"
  shows "iw_mode s' = iw_mode s" "iw_cursor s' = iw_cursor s" "iw_path s' = iw_path s" "iw_epoch s' = iw_epoch s"
    "iw_failed_runs s' = iw_failed_runs s" "iw_carried s' = iw_carried s" "iw_own s' = iw_own s"
    "iw_mark_read s' = iw_mark_read s" "iw_present s' = iw_present s"
  using assms by (auto simp: flush_def split: option.splits)

lemma arm_state_fields:
  assumes "arm_state E path s d = (s', d')"
  shows "iw_epoch s' = iw_epoch s + 1" "iw_own s' = None" "\<not> iw_mark_read s'" "iw_mode s' = Running" "iw_failed_runs s' = 0"
    "content d' = content d" "iw_path s' = Some path"
    "iw_cursor s' = (if iw_path s = Some path \<and> iw_cursor s \<noteq> None then iw_cursor s
       else stored_cursor E (snd (read_file path d)))"
  using assms
  by (auto simp: arm_state_def read_walk_cursor_def stored_cursor_def Let_def Option.bind_def
      split: if_splits prod.splits sum.splits option.splits dest: read_file_content)

lemma commit_cursor:
  assumes "commit epoch page force at_tip now s d = Some (s', d')"
  shows "iw_cursor s = Some (wp_from page)"
    "iw_cursor s' = (case page_last page of None \<Rightarrow> Some (wp_from page) | Some (to, _) \<Rightarrow> Some to)"
    "iw_path s' = iw_path s"
  using assms
  by (auto simp: commit_def pass_marks_def Let_def split: if_splits option.splits prod.splits dest: flush_fields(2,3))

lemma landing_cursor:
  assumes "landing epoch cause now s d = (s', d', l)"
  shows "case l of To_Mark was mark \<Rightarrow> iw_cursor s = Some was \<and> iw_cursor s' = Some mark | _ \<Rightarrow> iw_cursor s' = iw_cursor s \<and> d' = d"
    "iw_path s' = iw_path s"
  using assms
  by (auto simp: landing_def Let_def split: if_splits option.splits prod.splits landing_point.splits dest: flush_fields(2,3))

lemma after_commit_quiet [simp]: "owed_at n (after_commit epoch pages page) = []" "folded_at n (after_commit epoch pages page) = []"
  by (simp_all add: after_commit_def)

lemma quiet_pcs [simp]:
  "owed_at n (begin_run now s) = []" "folded_at n (begin_run now s) = []"
  "owed_at n (after_mark epoch k) = []" "folded_at n (after_mark epoch k) = []"
  "owed_at n (step_pc epoch pages s) = []" "folded_at n (step_pc epoch pages s) = []"
  "owed_at n (page_answered E epoch pages from large attempt only r) = []"
  "folded_at n (page_answered E epoch pages from large attempt only r) = []"
  by (auto simp: begin_run_def step_pc_def page_answered_def retry_pc_def split: option.split sum.split page_error.split)
     (cases k; simp)+

lemma failed_run_quiet:
  assumes "failed_run epoch from now s = (s', pc)"
  shows "iw_cursor s' = iw_cursor s" "owed_at n pc = []" "folded_at n pc = []" "iw_path s' = iw_path s"
  using assms by (auto simp: failed_run_def Let_def split: if_splits)

text \<open>A step that changes neither the cursor nor the log, and owes and claims nothing after.\<close>

lemma audited_quiet:
  assumes "audited E P" and "pw_log P' = pw_log P" and "iw_cursor (pw_state P') = iw_cursor (pw_state P)"
    and "iw_path (pw_state P') = iw_path (pw_state P)"
    and "owed_at (we_matchers E) (pw_pc P') = owed_at (we_matchers E) (pw_pc P)"
    and "set (folded_at (we_matchers E) (pw_pc P')) \<subseteq> set (folded_at (we_matchers E) (pw_pc P))"
  shows "audited E P'"
  using assms unfolding audited_def by (metis (no_types, lifting) order_trans)

lemma audited_section:
  assumes a: "audited E P" and pc: "pw_pc P = pc"
  shows "audited E (run_section E now pc P)"
proof -
  let ?n = "we_matchers E"
  obtain said where au: "audit E (pw_log P) = Some (iw_cursor (pw_state P), iw_path (pw_state P), said, owed_at ?n pc)"
    and sd: "set (folded_at ?n pc) \<subseteq> set said" using a pc by (auto simp: audited_def)
  show ?thesis
  proof (cases pc)
    case (Mark_Set epoch k mark)
    then show ?thesis by (intro audited_quiet [OF a]) (use pc in \<open>simp_all add: set_mark_def\<close>)
  next
    case (Failing epoch start)
    obtain s' pc' where f: "failed_run epoch start now (pw_state P) = (s', pc' :: 'a run_pc)" by fastforce
    show ?thesis by (intro audited_quiet [OF a]) (use pc Failing f failed_run_quiet [OF f] in simp_all)
  next
    case (Progress epoch pages page)
    then show ?thesis by (intro audited_quiet [OF a]) (use pc in \<open>simp_all add: note_progress_def\<close>)
  next
    case (Holding epoch start)
    obtain s' d' where h: "hold_at now (pw_state P) (pw_disk P) = (s', d')" by fastforce
    show ?thesis
      by (intro audited_quiet [OF a]) (use pc Holding h flush_fields(2,3) [OF h [unfolded hold_at_def]] in simp_all)
  next
    case (Committing epoch pages page)
    let ?c = "commit epoch page (page_long page \<or> 0 < pages) (\<not> page_long page \<and> wp_aligned page = added_len page) now (pw_state P) (pw_disk P)"
    show ?thesis
    proof (cases ?c)
      case None
      then show ?thesis by (intro audited_quiet [OF a]) (use pc Committing in \<open>simp_all add: Let_def\<close>)
    next
      case (Some sd')
      obtain s' d' where c: "?c = Some (s', d')" using Some by fastforce
      have all: "list_all (\<lambda>i. (i, page) \<in> set said) [0..<?n]" using sd Committing by (auto simp: list_all_iff)
      show ?thesis
        using c commit_cursor [OF c] au all Committing
        by (auto simp: audited_def audit_append split: option.splits)
    qed
  next
    case (Landing epoch cause)
    obtain s' d' l where l: "landing epoch cause now (pw_state P) (pw_disk P) = (s', d', l)" by (metis prod_cases3)
    show ?thesis using landing_cursor [OF l] au l Landing by (cases l) (auto simp: audited_def audit_append Let_def)
  next
    case (Tell_Landed epoch cause was mark)
    then show ?thesis
      using au audit_gaps [of E "iw_cursor (pw_state P)" "iw_path (pw_state P)" said was mark "[0..<?n]"]
      by (auto simp: audited_def audit_append tell_gap_def owed_gap_def Let_def)
  next
    case (Sink_Failed epoch)
    then show ?thesis by (intro audited_quiet [OF a]) (use pc in \<open>simp_all add: sink_unread_def Let_def\<close>)
  next
    case (Sink_Set epoch sink)
    obtain s' d' where r: "reseed_at sink now (pw_state P) (pw_disk P) = (s', d')" by fastforce
    have "iw_cursor s' = Some sink" "iw_path s' = iw_path (pw_state P)" using flush_fields(2,3) [OF r [unfolded reseed_at_def]] by simp_all
    then show ?thesis using au r Sink_Set by (auto simp: audited_def audit_append split: option.splits)
  next
    case (Tell_Seeded epoch was sink)
    then show ?thesis
      using au audit_gaps [of E "iw_cursor (pw_state P)" "iw_path (pw_state P)" said _ sink "[0..<?n]"]
      by (cases was) (auto simp: audited_def audit_append tell_gap_def owed_gap_def)
  next
    case (Asking epoch pages start large attempt only)
    then show ?thesis using au by (auto simp: audited_def audit_append)
  qed (use a au sd pc in \<open>auto simp: audited_def\<close>)
qed

lemma audited_answer:
  assumes "audited E P"
  shows "audited E (run_answer E now ans P)"
proof (cases ans)
  case Go
  then show ?thesis using audited_section [OF assms refl] by simp
next
  case (Mark_Is r)
  then show ?thesis using assms by (auto simp: audited_def split: run_pc.split sum.split)
next
  case (Page_Is r)
  then show ?thesis using assms by (auto simp: audited_def audit_append split: run_pc.split sum.split)
next
  case (Sink_Is r)
  then show ?thesis using assms by (auto simp: audited_def split: run_pc.split sum.split)
next
  case (Says v)
  then show ?thesis
    using assms by (cases v) (auto simp: audited_def audit_append image_subset_iff less_Suc_eq split: run_pc.split)
qed

lemma audited_move:
  assumes "audited E P"
  shows "audited E (walk_move E P e)"
proof -
  obtain now ev where e: "e = (now, ev)" by fastforce
  show ?thesis
  proof (cases ev)
    case (Arm path)
    obtain s' d' where a: "arm_state E path (pw_state P) (pw_disk P) = (s', d')" by fastforce
    show ?thesis using assms e Arm a arm_state_fields(7,8) [OF a] by (auto simp: audited_def arm_def audit_append)
  next
    case Hold
    obtain s' d' where h: "flush now ((pw_state P)\<lparr>iw_mode := Idle, iw_epoch := iw_epoch (pw_state P) + 1\<rparr>) (pw_disk P) = (s', d')" by fastforce
    show ?thesis
      using assms e Hold h flush_fields(2,3) [OF h] by (auto simp: audited_def hold_intake_def Let_def)
  next
    case (Run ans)
    then show ?thesis using audited_answer [OF assms] e by simp
  qed (use assms e in \<open>auto simp: audited_def poke_def socket_published_def yield_to_def note_ticks_def Let_def\<close>)
qed

interpretation walk_audit: event_system "walk_move E" "audited E" "\<lambda>_. True" for E
  by unfold_locales (rule audited_move)

lemma audited_run: "audited E (walk_run E d evs)"
  unfolding walk_run_def
  by (rule walk_audit.events_keep) (auto simp: audited_def walk_new_def state_new_def audit_def list_all_iff)

end
