(* ===== verification/Walk_Bounds.thy ===== *)
theory Walk_Bounds
  imports Walk_Audit
begin

text \<open>
  The numbers of the message walk: what a point of the task says about its counters, how many
  answers a run can take, how often one arm can land on a mark, and what a held walk leaves alone.
\<close>

lemmas walk_consts = max_walk_pages_def max_vcc_catchup_pages_def walk_page_attempts_def vcc_page_attempts_def max_failed_runs_def

section \<open>The points of the task\<close>

fun run_epoch :: "'s run_pc \<Rightarrow> nat option" where
  "run_epoch Parked = None"
| "run_epoch Begin = None"
| "run_epoch (Mark_Check epoch _) = Some epoch"
| "run_epoch (Mark_Ask epoch _) = Some epoch"
| "run_epoch (Mark_Set epoch _ _) = Some epoch"
| "run_epoch (Owed epoch) = Some epoch"
| "run_epoch (Stepping epoch _) = Some epoch"
| "run_epoch (Behind epoch _ _) = Some epoch"
| "run_epoch (Attempt epoch _ _ _ _ _) = Some epoch"
| "run_epoch (Turn epoch _ _ _ _ _) = Some epoch"
| "run_epoch (After_Turn epoch _ _ _ _ _) = Some epoch"
| "run_epoch (Asking epoch _ _ _ _ _) = Some epoch"
| "run_epoch (Awaiting epoch _ _ _ _ _) = Some epoch"
| "run_epoch (Sleeping epoch _ _ _ _ _) = Some epoch"
| "run_epoch (Failing epoch _) = Some epoch"
| "run_epoch (Gate epoch _ _) = Some epoch"
| "run_epoch (Progress epoch _ _) = Some epoch"
| "run_epoch (Folding epoch _ _ _) = Some epoch"
| "run_epoch (Holding epoch _) = Some epoch"
| "run_epoch (Committing epoch _ _) = Some epoch"
| "run_epoch (Landing epoch _) = Some epoch"
| "run_epoch (Tell_Landed epoch _ _ _) = Some epoch"
| "run_epoch (Sink_Ask epoch) = Some epoch"
| "run_epoch (Sink_Failed epoch) = Some epoch"
| "run_epoch (Sink_Set epoch _) = Some epoch"
| "run_epoch (Tell_Seeded epoch _ _) = Some epoch"
| "run_epoch (Settling epoch) = Some epoch"

text \<open>The counters of a point, and the points at which a page may yet be asked for.\<close>

fun mark_cont_ok :: "'s mark_cont \<Rightarrow> bool" where
  "mark_cont_ok At_Start = True"
| "mark_cont_ok (With_Page pages _ _) = (pages < 16)"

fun counters_ok :: "nat \<Rightarrow> 's run_pc \<Rightarrow> bool" where
  "counters_ok n (Mark_Check _ k) = mark_cont_ok k"
| "counters_ok n (Mark_Ask _ k) = mark_cont_ok k"
| "counters_ok n (Mark_Set _ k _) = mark_cont_ok k"
| "counters_ok n (Stepping _ pages) = (pages < 16)"
| "counters_ok n (Behind _ pages _) = (pages < 16)"
| "counters_ok n (Attempt _ pages _ _ attempt _) = (pages < 16 \<and> attempt < 8)"
| "counters_ok n (Turn _ pages _ _ attempt _) = (pages < 16 \<and> attempt < 8)"
| "counters_ok n (After_Turn _ pages _ _ attempt _) = (pages < 16 \<and> attempt < 8)"
| "counters_ok n (Asking _ pages _ _ attempt _) = (pages < 16 \<and> attempt < 8)"
| "counters_ok n (Awaiting _ pages _ _ attempt _) = (pages < 16 \<and> attempt < 8)"
| "counters_ok n (Sleeping _ pages _ _ attempt _) = (pages < 16 \<and> attempt + 1 < 8)"
| "counters_ok n (Gate _ pages _) = (pages < 16)"
| "counters_ok n (Progress _ pages _) = (pages < 16)"
| "counters_ok n (Folding _ pages _ i) = (pages < 16 \<and> i \<le> n)"
| "counters_ok n (Committing _ pages _) = (pages < 16)"
| "counters_ok n _ = True"

fun may_ask :: "'s run_pc \<Rightarrow> bool" where
  "may_ask (Mark_Check _ (With_Page _ _ _)) = True"
| "may_ask (Mark_Ask _ (With_Page _ _ _)) = True"
| "may_ask (Mark_Set _ (With_Page _ _ _) _) = True"
| "may_ask (Stepping _ _) = True"
| "may_ask (Behind _ _ _) = True"
| "may_ask (Attempt _ _ _ _ _ _) = True"
| "may_ask (Turn _ _ _ _ _ _) = True"
| "may_ask (After_Turn _ _ _ _ _ _) = True"
| "may_ask (Asking _ _ _ _ _ _) = True"
| "may_ask (Awaiting _ _ _ _ _ _) = True"
| "may_ask (Sleeping _ _ _ _ _ _) = True"
| "may_ask (Gate _ _ _) = True"
| "may_ask (Progress _ _ _) = True"
| "may_ask (Folding _ _ _ _) = True"
| "may_ask (Committing _ _ _) = True"
| "may_ask _ = False"

definition pc_ok :: "walk_env \<Rightarrow> 's process \<Rightarrow> bool" where
  "pc_ok E P \<longleftrightarrow> counters_ok (we_matchers E) (pw_pc P) \<and>
     (case run_epoch (pw_pc P) of None \<Rightarrow> True
      | Some e \<Rightarrow> e \<le> iw_epoch (pw_state P) \<and>
          (may_ask (pw_pc P) \<and> e = iw_epoch (pw_state P) \<longrightarrow> iw_failed_runs (pw_state P) < 3))"

lemma pc_ok_step:
  assumes "counters_ok (we_matchers E) (pw_pc P')" "iw_epoch (pw_state P) \<le> iw_epoch (pw_state P')"
    "run_epoch (pw_pc P') = None \<or> run_epoch (pw_pc P') = run_epoch (pw_pc P)"
    "may_ask (pw_pc P') \<and> iw_epoch (pw_state P') = iw_epoch (pw_state P) \<longrightarrow>
       may_ask (pw_pc P) \<and> iw_failed_runs (pw_state P') \<le> iw_failed_runs (pw_state P) \<or> iw_failed_runs (pw_state P') < 3"
    "pc_ok E P"
  shows "pc_ok E P'"
  using assms unfolding pc_ok_def by (auto split: option.splits)

lemma retry_next [simp]:
  "pages < 16 \<Longrightarrow> attempt < 8 \<Longrightarrow> counters_ok n (retry_pc epoch pages from large attempt only)"
  "run_epoch (retry_pc epoch pages from large attempt only) = Some epoch"
  by (auto simp: retry_pc_def walk_consts)

lemma counters_next [simp]:
  "mark_cont_ok k \<Longrightarrow> counters_ok n (after_mark epoch k)" "run_epoch (after_mark epoch k) = Some epoch"
  "may_ask (after_mark epoch k) \<longleftrightarrow> k \<noteq> At_Start"
  by (cases k; simp)+

lemma step_next [simp]:
  "pages < 16 \<Longrightarrow> counters_ok n (step_pc epoch pages s)" "run_epoch (step_pc epoch pages s) = Some epoch"
  by (auto simp: step_pc_def split: option.split)

lemma answered_next [simp]:
  "pages < 16 \<Longrightarrow> attempt < 8 \<Longrightarrow> counters_ok n (page_answered E epoch pages from large attempt only r)"
  "run_epoch (page_answered E epoch pages from large attempt only r) = Some epoch"
  by (auto simp: page_answered_def split: sum.split page_error.split)

lemma after_commit_next [simp]:
  "counters_ok n (after_commit epoch pages page)" "run_epoch (after_commit epoch pages page) = Some epoch"
  by (auto simp: after_commit_def walk_consts)

lemma failed_run_next:
  assumes "failed_run epoch from now s = (s', pc)"
  shows "counters_ok n pc" "run_epoch pc = Some epoch" "\<not> may_ask pc" "iw_epoch s' = iw_epoch s"
  using assms by (auto simp: failed_run_def Let_def split: if_splits)

lemma pass_marks_fields:
  "iw_epoch (pass_marks epoch page at_tip s) = iw_epoch s" "iw_mode (pass_marks epoch page at_tip s) = iw_mode s"
  "iw_failed_runs (pass_marks epoch page at_tip s) = iw_failed_runs s" "iw_mark_read (pass_marks epoch page at_tip s) = iw_mark_read s"
  "iw_path (pass_marks epoch page at_tip s) = iw_path s" "iw_cursor (pass_marks epoch page at_tip s) = iw_cursor s"
  "iw_carried (pass_marks epoch page at_tip s) \<in> {None, iw_carried s}" "iw_own (pass_marks epoch page at_tip s) \<in> {None, iw_own s}"
  by (simp_all add: pass_marks_def Let_def)

text \<open>A commit is a move of the cursor, the marks it passes, and a flush or none.\<close>

lemma commit_cases:
  assumes "commit epoch page force at_tip now s d = Some (s', d')"
  obtains s1 where "s1 = (case page_last page of Some (to, time) \<Rightarrow> s\<lparr>iw_cursor := Some to, iw_cursor_time_ms := time\<rparr> | None \<Rightarrow> s)"
    "(s', d') = (pass_marks epoch page at_tip s1, d) \<or> (s', d') = flush now (pass_marks epoch page at_tip s1) d"
proof -
  have "(s', d') \<in> {(pass_marks epoch page at_tip (case page_last page of Some (to, time) \<Rightarrow> s\<lparr>iw_cursor := Some to, iw_cursor_time_ms := time\<rparr> | None \<Rightarrow> s), d),
      flush now (pass_marks epoch page at_tip (case page_last page of Some (to, time) \<Rightarrow> s\<lparr>iw_cursor := Some to, iw_cursor_time_ms := time\<rparr> | None \<Rightarrow> s)) d}"
    using assms unfolding commit_def Let_def by (simp split: if_splits)
  then show ?thesis using that by blast
qed

lemma commit_next:
  assumes "commit epoch page force at_tip now s d = Some (s', d')"
  shows "iw_epoch s' = iw_epoch s" "iw_failed_runs s' = iw_failed_runs s" "iw_mark_read s' = iw_mark_read s"
    "iw_carried s' = None \<or> iw_carried s' = iw_carried s" "iw_own s' = None \<or> iw_own s' = iw_own s" "iw_path s' = iw_path s"
proof -
  from commit_cases [OF assms] obtain s1 where
    s1: "s1 = (case page_last page of Some (to, time) \<Rightarrow> s\<lparr>iw_cursor := Some to, iw_cursor_time_ms := time\<rparr> | None \<Rightarrow> s)" and
    s': "(s', d') = (pass_marks epoch page at_tip s1, d) \<or> flush now (pass_marks epoch page at_tip s1) d = (s', d')" by metis
  have same: "iw_epoch s1 = iw_epoch s" "iw_failed_runs s1 = iw_failed_runs s" "iw_mark_read s1 = iw_mark_read s"
    "iw_carried s1 = iw_carried s" "iw_own s1 = iw_own s" "iw_path s1 = iw_path s"
    unfolding s1 by (simp_all split: option.split)
  have eq: "iw_epoch s' = iw_epoch (pass_marks epoch page at_tip s1)" "iw_failed_runs s' = iw_failed_runs (pass_marks epoch page at_tip s1)"
    "iw_mark_read s' = iw_mark_read (pass_marks epoch page at_tip s1)" "iw_carried s' = iw_carried (pass_marks epoch page at_tip s1)"
    "iw_own s' = iw_own (pass_marks epoch page at_tip s1)" "iw_path s' = iw_path (pass_marks epoch page at_tip s1)"
    using s' flush_fields by auto
  note pm = pass_marks_fields [of epoch page at_tip s1]
  show "iw_epoch s' = iw_epoch s" "iw_failed_runs s' = iw_failed_runs s" "iw_mark_read s' = iw_mark_read s" "iw_path s' = iw_path s"
    unfolding eq using pm same by simp_all
  show "iw_carried s' = None \<or> iw_carried s' = iw_carried s" "iw_own s' = None \<or> iw_own s' = iw_own s"
    unfolding eq using pm(7,8) same by auto
qed

lemma landing_next:
  assumes "landing epoch cause now s d = (s', d', l)"
  shows "iw_epoch s' = iw_epoch s" "iw_failed_runs s' \<le> iw_failed_runs s" "iw_mark_read s' = iw_mark_read s"
  using assms
  by (auto simp: landing_def Let_def split: if_splits option.splits prod.splits dest: flush_fields)

lemma pc_ok_section:
  assumes ok: "pc_ok E P" and pc: "pw_pc P = pc"
  shows "pc_ok E (run_section E now pc P)"
proof -
  have cnt: "counters_ok (we_matchers E) pc" using ok pc by (simp add: pc_ok_def)
  show ?thesis
  proof (cases pc)
    case Parked
    then show ?thesis using ok pc by (auto simp: pc_ok_def jump_def)
  next
    case Begin
    then show ?thesis by (auto simp: pc_ok_def begin_run_def split: option.split)
  next
    case (Mark_Check epoch k)
    then show ?thesis by (intro pc_ok_step [OF _ _ _ _ ok]) (use pc cnt in \<open>cases k; simp\<close>)+
  next
    case (Mark_Set epoch k mark)
    then show ?thesis by (intro pc_ok_step [OF _ _ _ _ ok]) (use pc cnt in \<open>cases k; simp add: set_mark_def\<close>)+
  next
    case (Owed epoch)
    then show ?thesis using ok pc by (auto simp: pc_ok_def walk_consts)
  next
    case (Failing epoch start)
    obtain s' pc' where f: "failed_run epoch start now (pw_state P) = (s', pc' :: 'a run_pc)" by fastforce
    show ?thesis by (intro pc_ok_step [OF _ _ _ _ ok]) (use pc Failing f failed_run_next [OF f] in simp_all)
  next
    case (Progress epoch pages page)
    then show ?thesis by (intro pc_ok_step [OF _ _ _ _ ok]) (use pc cnt in \<open>simp_all add: note_progress_def\<close>)
  next
    case (Folding epoch pages page i)
    then show ?thesis using ok pc by (auto simp: pc_ok_def)
  next
    case (Holding epoch start)
    obtain s' d' where h: "hold_at now (pw_state P) (pw_disk P) = (s', d')" by fastforce
    show ?thesis
      by (intro pc_ok_step [OF _ _ _ _ ok]) (use pc Holding h flush_fields(4) [OF h [unfolded hold_at_def]] in simp_all)
  next
    case (Committing epoch pages page)
    let ?c = "commit epoch page (page_long page \<or> 0 < pages) (\<not> page_long page \<and> wp_aligned page = added_len page) now (pw_state P) (pw_disk P)"
    show ?thesis
    proof (cases ?c)
      case None
      then show ?thesis by (intro pc_ok_step [OF _ _ _ _ ok]) (use pc Committing in \<open>simp_all add: Let_def\<close>)
    next
      case (Some sd')
      obtain s' d' where c: "?c = Some (s', d')" using Some by fastforce
      show ?thesis by (intro pc_ok_step [OF _ _ _ _ ok]) (use pc Committing c commit_next [OF c] in \<open>simp_all add: Let_def\<close>)
    qed
  next
    case (Landing epoch cause)
    obtain s' d' l where l: "landing epoch cause now (pw_state P) (pw_disk P) = (s', d', l)" by (metis prod_cases3)
    show ?thesis using landing_next [OF l] l Landing ok pc by (cases l) (auto simp: pc_ok_def Let_def)
  next
    case (Tell_Landed epoch cause was mark)
    then show ?thesis using ok pc by (auto simp: pc_ok_def tell_gap_def Let_def)
  next
    case (Sink_Failed epoch)
    then show ?thesis using ok pc by (auto simp: pc_ok_def sink_unread_def Let_def)
  next
    case (Sink_Set epoch sink)
    obtain s' d' where r: "reseed_at sink now (pw_state P) (pw_disk P) = (s', d')" by fastforce
    show ?thesis using flush_fields(4) [OF r [unfolded reseed_at_def]] r Sink_Set ok pc by (auto simp: pc_ok_def)
  next
    case (Tell_Seeded epoch was sink)
    then show ?thesis using ok pc by (cases was) (auto simp: pc_ok_def tell_gap_def)
  next
    case (Attempt epoch pages start large attempt only)
    then show ?thesis using ok pc by (auto simp: pc_ok_def)
  next
    case (Stepping epoch pages)
    then show ?thesis by (intro pc_ok_step [OF _ _ _ _ ok]) (use pc cnt in simp_all)
  qed (use ok pc in \<open>auto simp: pc_ok_def\<close>)
qed

lemma pc_ok_answer:
  assumes "pc_ok E P"
  shows "pc_ok E (run_answer E now ans P)"
proof (cases ans)
  case Go
  then show ?thesis using pc_ok_section [OF assms refl] by simp
next
  case (Mark_Is r)
  then show ?thesis
  proof (cases "pw_pc P")
    case (Mark_Ask epoch k)
    then show ?thesis using Mark_Is assms by (cases k) (auto simp: pc_ok_def split: sum.split)
  qed (use assms in auto)
next
  case (Page_Is r)
  show ?thesis
  proof (cases "pw_pc P")
    case (Awaiting epoch pages start large attempt only)
    then show ?thesis
      using Page_Is by (intro pc_ok_step [OF _ _ _ _ assms]) (use assms in \<open>auto simp: pc_ok_def\<close>)
  qed (use Page_Is assms in auto)
next
  case (Sink_Is r)
  then show ?thesis using assms by (auto simp: pc_ok_def split: run_pc.split sum.split)
next
  case (Says v)
  then show ?thesis using assms by (cases v) (auto simp: pc_ok_def split: run_pc.split)
qed

lemma pc_ok_move:
  assumes "pc_ok E P"
  shows "pc_ok E (walk_move E P e)"
proof -
  obtain now ev where e: "e = (now, ev)" by fastforce
  show ?thesis
  proof (cases ev)
    case (Arm path)
    obtain s' d' where a: "arm_state E path (pw_state P) (pw_disk P) = (s', d')" by fastforce
    show ?thesis using assms e Arm a arm_state_fields [OF a] by (auto simp: pc_ok_def arm_def split: option.splits)
  next
    case Hold
    obtain s' d' where h: "flush now ((pw_state P)\<lparr>iw_mode := Idle, iw_epoch := iw_epoch (pw_state P) + 1\<rparr>) (pw_disk P) = (s', d')" by fastforce
    show ?thesis
      using assms e Hold h flush_fields(4) [OF h] by (auto simp: pc_ok_def hold_intake_def Let_def split: option.splits)
  next
    case (Run ans)
    then show ?thesis using pc_ok_answer [OF assms] e by simp
  qed (use assms e in \<open>auto simp: pc_ok_def poke_def socket_published_def yield_to_def note_ticks_def Let_def split: option.splits\<close>)
qed

interpretation walk_points: event_system "walk_move E" "pc_ok E" "\<lambda>_. True" for E
  by unfold_locales (rule pc_ok_move)

lemma pc_ok_run: "pc_ok E (walk_run E d evs)"
  unfolding walk_run_def by (rule walk_points.events_keep) (auto simp: pc_ok_def walk_new_def list_all_iff)

end
