(* ===== verification/Walk_Runs.thy ===== *)
theory Walk_Runs
  imports Walk_Bounds
begin

text \<open>
  Three facts about every run of the message walk: how often an arm lands on a mark, a rank that
  falls with every answer the task takes, and what a walk that is held leaves alone.
\<close>

section \<open>Landings\<close>

definition landings :: "'s observation list \<Rightarrow> nat" where
  "landings os = foldl (\<lambda>k ob. case ob of Landed _ _ \<Rightarrow> Suc k | Armed _ _ _ _ \<Rightarrow> 0 | _ \<Rightarrow> k) 0 os"

definition marks_left :: "intake \<Rightarrow> nat" where
  "marks_left s = (if iw_carried s = None then 0 else 1) + (if iw_own s = None \<and> iw_mark_read s then 0 else 1)"

definition landings_ok :: "'s process \<Rightarrow> bool" where
  "landings_ok P \<longleftrightarrow> landings (pw_log P) + marks_left (pw_state P) \<le> 2 \<and> (iw_own (pw_state P) \<noteq> None \<longrightarrow> iw_mark_read (pw_state P))"

lemma landings_append [simp]:
  "landings (os @ [ob]) = (case ob of Landed _ _ \<Rightarrow> Suc (landings os) | Armed _ _ _ _ \<Rightarrow> 0 | _ \<Rightarrow> landings os)"
  "landings (os @ map (\<lambda>i. Gap i was to) is) = landings os"
proof -
  show "landings (os @ [ob]) = (case ob of Landed _ _ \<Rightarrow> Suc (landings os) | Armed _ _ _ _ \<Rightarrow> 0 | _ \<Rightarrow> landings os)"
    by (cases ob) (simp_all add: landings_def)
  show "landings (os @ map (\<lambda>i. Gap i was to) is) = landings os"
    by (induction "is" rule: rev_induct) (simp_all add: landings_def)
qed

lemma landings_step:
  assumes "landings_ok P" "landings (pw_log P') = landings (pw_log P)" "marks_left (pw_state P') \<le> marks_left (pw_state P)"
    "iw_own (pw_state P') \<noteq> None \<longrightarrow> iw_mark_read (pw_state P')"
  shows "landings_ok P'"
  using assms by (simp add: landings_ok_def)

lemma flush_fst:
  "iw_carried (fst (flush now s d)) = iw_carried s" "iw_own (fst (flush now s d)) = iw_own s"
  "iw_mark_read (fst (flush now s d)) = iw_mark_read s"
  using flush_fields [of now s d] by (metis prod.collapse)+

lemma landing_marks:
  assumes "landing epoch cause now s d = (s', d', l)" and "iw_own s \<noteq> None \<longrightarrow> iw_mark_read s"
  shows "case l of To_Mark _ _ \<Rightarrow> marks_left s' < marks_left s | _ \<Rightarrow> marks_left s' \<le> marks_left s"
    "iw_own s' \<noteq> None \<longrightarrow> iw_mark_read s'"
  using assms unfolding landing_def Let_def
  by (auto simp: marks_left_def split_beta flush_fst split: if_splits option.splits)

lemma commit_marks:
  assumes "commit epoch page force at_tip now s d = Some (s', d')" and "iw_own s \<noteq> None \<longrightarrow> iw_mark_read s"
  shows "marks_left s' \<le> marks_left s" "iw_own s' \<noteq> None \<longrightarrow> iw_mark_read s'"
  using commit_next(3-5) [OF assms(1)] assms(2) by (elim disjE; simp add: marks_left_def)+

lemma marks_left_same:
  "iw_carried s' = iw_carried s \<Longrightarrow> iw_own s' = iw_own s \<Longrightarrow> iw_mark_read s' = iw_mark_read s \<Longrightarrow> marks_left s' = marks_left s"
  by (simp add: marks_left_def)

lemma landings_section:
  assumes ok: "landings_ok P" and pc: "pw_pc P = pc"
  shows "landings_ok (run_section E now pc P)"
proof -
  have own: "iw_own (pw_state P) \<noteq> None \<longrightarrow> iw_mark_read (pw_state P)" using ok by (simp add: landings_ok_def)
  show ?thesis
  proof (cases pc)
    case (Mark_Set epoch k mark)
    show ?thesis
      by (rule landings_step [OF ok]) (use own Mark_Set in \<open>auto simp: set_mark_def marks_left_def\<close>)
  next
    case (Failing epoch start)
    show ?thesis
      by (rule landings_step [OF ok])
        (use own Failing in \<open>auto simp: failed_run_def marks_left_def Let_def\<close>)
  next
    case (Progress epoch pages page)
    show ?thesis
      by (rule landings_step [OF ok]) (use own Progress in \<open>auto simp: note_progress_def marks_left_def\<close>)
  next
    case (Holding epoch start)
    obtain s' d' where h: "hold_at now (pw_state P) (pw_disk P) = (s', d')" by fastforce
    show ?thesis
      by (rule landings_step [OF ok])
        (use own Holding h flush_fields(6-8) [OF h [unfolded hold_at_def]] in \<open>simp_all add: marks_left_def\<close>)
  next
    case (Committing epoch pages page)
    let ?c = "commit epoch page (page_long page \<or> 0 < pages) (\<not> page_long page \<and> wp_aligned page = added_len page) now (pw_state P) (pw_disk P)"
    show ?thesis
    proof (cases ?c)
      case None
      show ?thesis by (rule landings_step [OF ok]) (use own Committing None in \<open>simp_all add: Let_def\<close>)
    next
      case (Some sd')
      obtain s' d' where c: "?c = Some (s', d')" using Some by fastforce
      show ?thesis
        by (rule landings_step [OF ok]) (use commit_marks [OF c own] Committing c in \<open>simp_all add: Let_def\<close>)
    qed
  next
    case (Landing epoch cause)
    obtain s' d' l where l: "landing epoch cause now (pw_state P) (pw_disk P) = (s', d', l)" by (metis prod_cases3)
    show ?thesis using landing_marks [OF l own] l Landing ok by (cases l) (auto simp: landings_ok_def Let_def)
  next
    case (Sink_Set epoch sink)
    obtain s' d' where r: "reseed_at sink now (pw_state P) (pw_disk P) = (s', d')" by fastforce
    show ?thesis
      using flush_fields(6-8) [OF r [unfolded reseed_at_def]] r Sink_Set ok by (auto simp: landings_ok_def marks_left_def)
  next
    case (Sink_Failed epoch)
    show ?thesis
      by (rule landings_step [OF ok]) (use own Sink_Failed in \<open>auto simp: sink_unread_def marks_left_def Let_def\<close>)
  next
    case (Tell_Landed epoch cause was mark)
    show ?thesis
      by (rule landings_step [OF ok]) (use own Tell_Landed in \<open>simp_all add: tell_gap_def Let_def\<close>)
  next
    case (Tell_Seeded epoch was sink)
    show ?thesis
      by (rule landings_step [OF ok]) (use own Tell_Seeded in \<open>cases was; simp add: tell_gap_def\<close>)+
  next
    case Parked
    show ?thesis by (rule landings_step [OF ok]) (use own Parked in simp_all)
  qed (rule landings_step [OF ok]; use own in simp)+
qed

lemma landings_answer:
  assumes "landings_ok P"
  shows "landings_ok (run_answer E now ans P)"
proof (cases ans)
  case Go
  then show ?thesis using landings_section [OF assms refl] by simp
qed (use assms in \<open>auto simp: landings_ok_def split: run_pc.split sum.split\<close>)

lemma landings_move:
  assumes "landings_ok P"
  shows "landings_ok (walk_move E P e)"
proof -
  obtain now ev where e: "e = (now, ev)" by fastforce
  show ?thesis
  proof (cases ev)
    case (Arm path)
    obtain s' d' where a: "arm_state E path (pw_state P) (pw_disk P) = (s', d')" by fastforce
    show ?thesis using arm_state_fields [OF a] a e Arm by (simp add: landings_ok_def arm_def marks_left_def)
  next
    case Hold
    obtain s' d' where h: "flush now ((pw_state P)\<lparr>iw_mode := Idle, iw_epoch := iw_epoch (pw_state P) + 1\<rparr>) (pw_disk P) = (s', d')" by fastforce
    show ?thesis
      using assms e Hold h flush_fields(6-8) [OF h] by (auto simp: landings_ok_def hold_intake_def marks_left_def Let_def)
  next
    case (Run ans)
    then show ?thesis using landings_answer [OF assms] e by simp
  qed (use assms e in \<open>auto simp: landings_ok_def marks_left_def poke_def socket_published_def yield_to_def note_ticks_def Let_def\<close>)
qed

interpretation walk_landings: event_system "walk_move E" landings_ok "\<lambda>_. True" for E
  by unfold_locales (rule landings_move)

section \<open>The end of a run\<close>

text \<open>What the task waits for at a point, and a rank that falls with every answer it takes.\<close>

fun expects :: "nat \<Rightarrow> 's run_pc \<Rightarrow> 's answer \<Rightarrow> bool" where
  "expects n Parked ans = False"
| "expects n (Mark_Ask _ _) ans = (case ans of Mark_Is _ \<Rightarrow> True | _ \<Rightarrow> False)"
| "expects n (Awaiting _ _ _ _ _ _) ans = (case ans of Page_Is _ \<Rightarrow> True | _ \<Rightarrow> False)"
| "expects n (Sink_Ask _) ans = (case ans of Sink_Is _ \<Rightarrow> True | _ \<Rightarrow> False)"
| "expects n (Folding _ _ _ i) ans = (if i < n then (case ans of Says _ \<Rightarrow> True | _ \<Rightarrow> False) else ans = Go)"
| "expects n _ ans = (ans = Go)"

definition page_rank :: "nat \<Rightarrow> nat \<Rightarrow> nat" where
  "page_rank n pages = (15 - pages) * (n + 67) + 10"

fun start_rank :: "nat \<Rightarrow> 's mark_cont \<Rightarrow> nat \<Rightarrow> nat" where
  "start_rank n At_Start k = 16 * (n + 67) + 11 + k"
| "start_rank n (With_Page pages _ _) k = page_rank n pages + n + 7 + k"

fun rank :: "nat \<Rightarrow> 's run_pc \<Rightarrow> nat" where
  "rank n Parked = 0"
| "rank n (Settling _) = 1"
| "rank n (Tell_Seeded _ _ _) = 2"
| "rank n (Tell_Landed _ _ _ _) = 2"
| "rank n (Sink_Failed _) = 2"
| "rank n (Sink_Set _ _) = 3"
| "rank n (Sink_Ask _) = 4"
| "rank n (Landing _ _) = 5"
| "rank n (Failing _ _) = 6"
| "rank n (Holding _ _) = 6"
| "rank n (Committing _ pages _) = page_rank n pages + 2"
| "rank n (Folding _ pages _ i) = page_rank n pages + 3 + (n - i)"
| "rank n (Progress _ pages _) = page_rank n pages + n + 4"
| "rank n (Gate _ pages _) = page_rank n pages + n + 5"
| "rank n (Sleeping _ pages _ _ attempt _) = page_rank n pages + n + 11 + 6 * (8 - attempt)"
| "rank n (Awaiting _ pages _ _ attempt _) = page_rank n pages + n + 12 + 6 * (8 - attempt)"
| "rank n (Asking _ pages _ _ attempt _) = page_rank n pages + n + 13 + 6 * (8 - attempt)"
| "rank n (After_Turn _ pages _ _ attempt _) = page_rank n pages + n + 14 + 6 * (8 - attempt)"
| "rank n (Turn _ pages _ _ attempt _) = page_rank n pages + n + 15 + 6 * (8 - attempt)"
| "rank n (Attempt _ pages _ _ attempt _) = page_rank n pages + n + 16 + 6 * (8 - attempt)"
| "rank n (Behind _ pages _) = page_rank n pages + n + 65"
| "rank n (Stepping _ pages) = page_rank n pages + n + 66"
| "rank n (Owed _) = 16 * (n + 67) + 11"
| "rank n (Mark_Set _ k _) = start_rank n k 1"
| "rank n (Mark_Ask _ k) = start_rank n k 2"
| "rank n (Mark_Check _ k) = start_rank n k 3"
| "rank n Begin = 16 * (n + 67) + 15"

lemma page_rank_ge: "10 \<le> page_rank n pages" "page_rank n pages \<le> 15 * (n + 67) + 10"
proof -
  have "(15 - pages) * (n + 67) \<le> 15 * (n + 67)" by (rule mult_le_mono1) simp
  then show "page_rank n pages \<le> 15 * (n + 67) + 10" unfolding page_rank_def by linarith
qed (simp add: page_rank_def)

lemma page_rank_Suc: "pages < 15 \<Longrightarrow> page_rank n (Suc pages) + (n + 67) = page_rank n pages"
proof -
  assume "pages < 15"
  then obtain k where "15 - pages = Suc k" "15 - Suc pages = k" by (metis Suc_diff_Suc)
  then show ?thesis by (simp add: page_rank_def)
qed

lemma next_ranks:
  "rank n (begin_run now s) < 16 * (n + 67) + 15" "rank n (after_mark epoch k) < start_rank n k 1"
  "rank n (step_pc epoch pages s) < page_rank n pages + n + 66"
  "rank n (after_commit epoch pages page) < page_rank n pages + 2"
  "attempt < 8 \<Longrightarrow> rank n (page_answered E epoch pages start large attempt only r) < page_rank n pages + n + 12 + 6 * (8 - attempt)"
proof -
  note le = page_rank_ge [of n pages]
  show "rank n (begin_run now s) < 16 * (n + 67) + 15" by (simp add: begin_run_def split: option.split)
  show "rank n (after_mark epoch k) < start_rank n k 1" by (cases k) simp_all
  show "rank n (step_pc epoch pages s) < page_rank n pages + n + 66"
    using le(1) by (auto simp: step_pc_def split: option.split)
  show "rank n (after_commit epoch pages page) < page_rank n pages + 2"
    using le(1) page_rank_Suc [of pages n] by (auto simp: after_commit_def walk_consts)
  show "attempt < 8 \<Longrightarrow> rank n (page_answered E epoch pages start large attempt only r) < page_rank n pages + n + 12 + 6 * (8 - attempt)"
    using le(1) by (auto simp: page_answered_def retry_pc_def split: sum.split page_error.split)
qed

lemma rank_falls:
  assumes ok: "pc_ok E P" and ex: "expects (we_matchers E) (pw_pc P) ans"
  shows "rank (we_matchers E) (pw_pc (run_answer E now ans P)) < rank (we_matchers E) (pw_pc P)"
proof -
  let ?n = "we_matchers E"
  have cnt: "counters_ok ?n (pw_pc P)" using ok by (simp add: pc_ok_def)
  show ?thesis
  proof (cases "pw_pc P")
    case Parked
    then show ?thesis using ex by simp
  next
    case (Mark_Ask epoch k)
    then show ?thesis using ex next_ranks(2) [of ?n epoch k] by (cases k) (auto split: answer.splits sum.split)
  next
    case (Mark_Check epoch k)
    then show ?thesis using ex next_ranks(2) [of ?n epoch k] by (cases k) auto
  next
    case (Mark_Set epoch k mark)
    then show ?thesis using ex next_ranks(2) [of ?n epoch k] by auto
  next
    case (Awaiting epoch pages start large attempt only)
    then show ?thesis using ex cnt next_ranks(5) [of attempt] by (auto split: answer.splits)
  next
    case (Sink_Ask epoch)
    then show ?thesis using ex by (auto split: answer.splits sum.split)
  next
    case (Folding epoch pages page i)
    have "6 < page_rank ?n pages" using page_rank_ge(1) [of ?n pages] by linarith
    then show ?thesis using Folding ex by (auto split: answer.splits if_splits verdict.split)
  next
    case Begin
    then show ?thesis using ex next_ranks(1) by auto
  next
    case (Owed epoch)
    have "page_rank ?n 0 + ?n + 66 < 16 * (?n + 67) + 11" by (simp add: page_rank_def)
    then show ?thesis using Owed ex by auto
  next
    case (Stepping epoch pages)
    then show ?thesis using ex next_ranks(3) by auto
  next
    case (Attempt epoch pages start large attempt only)
    have "1 < page_rank ?n pages" using page_rank_ge(1) [of ?n pages] by linarith
    then show ?thesis using Attempt ex by auto
  next
    case (After_Turn epoch pages start large attempt only)
    have "1 < page_rank ?n pages" using page_rank_ge(1) [of ?n pages] by linarith
    then show ?thesis using After_Turn ex by auto
  next
    case (Sleeping epoch pages start large attempt only)
    then show ?thesis using ex cnt by auto
  next
    case (Failing epoch start)
    then show ?thesis using ex by (auto simp: failed_run_def Let_def)
  next
    case (Gate epoch pages page)
    have "1 < page_rank ?n pages" using page_rank_ge(1) [of ?n pages] by linarith
    then show ?thesis using Gate ex by auto
  next
    case (Committing epoch pages page)
    then show ?thesis using ex next_ranks(4) by (auto simp: Let_def split: option.split prod.split)
  next
    case (Landing epoch cause)
    then show ?thesis using ex by (auto simp: Let_def split: prod.split landing_point.split)
  next
    case (Sink_Set epoch sink)
    then show ?thesis using ex by (auto split: prod.split)
  next
    case (Holding epoch start)
    then show ?thesis using ex by (auto split: prod.split)
  next
    case (Behind epoch pages start)
    then show ?thesis using ex by auto
  next
    case (Tell_Landed epoch cause was mark)
    then show ?thesis using ex by (auto simp: Let_def)
  qed (use ex in auto)
qed

fun answered :: "walk_env \<Rightarrow> 's process \<Rightarrow> (moment \<times> 's walk_event) list \<Rightarrow> nat" where
  "answered E P [] = 0"
| "answered E P (e # es) =
     (case snd e of Run ans \<Rightarrow> if expects (we_matchers E) (pw_pc P) ans then 1 else 0 | _ \<Rightarrow> 0)
       + answered E (walk_move E P e) es"

lemma other_moves_keep_pc:
  assumes "\<And>ans. ev \<noteq> Run ans"
  shows "pw_pc (walk_move E P (now, ev)) = pw_pc P"
  using assms
  by (cases ev) (auto simp: arm_def hold_intake_def poke_def socket_published_def yield_to_def note_ticks_def Let_def split: prod.split)

lemma unexpected_stays:
  assumes "\<not> expects (we_matchers E) (pw_pc P) ans" and "pw_pc P \<noteq> Parked"
  shows "run_answer E now ans P = P"
proof (cases ans)
  case Go
  then show ?thesis using assms by (cases "pw_pc P") (auto split: if_splits)
qed (use assms in \<open>auto split: run_pc.splits if_splits\<close>)

lemma answered_bound:
  assumes "pc_ok E P" and "\<And>k. pw_pc (foldl (walk_move E) P (take k evs)) \<noteq> Parked"
  shows "answered E P evs \<le> rank (we_matchers E) (pw_pc P)"
  using assms
proof (induction evs arbitrary: P)
  case (Cons e es)
  let ?Q = "walk_move E P e"
  have "pw_pc (foldl (walk_move E) ?Q (take k es)) \<noteq> Parked" for k using Cons.prems(2) [of "Suc k"] by simp
  with Cons.IH pc_ok_move [OF Cons.prems(1)] have IH: "answered E ?Q es \<le> rank (we_matchers E) (pw_pc ?Q)" by blast
  obtain now ev where e: "e = (now, ev)" by fastforce
  have np: "pw_pc P \<noteq> Parked" using Cons.prems(2) [of 0] by simp
  show ?case
  proof (cases "\<exists>ans. ev = Run ans")
    case True
    then obtain ans where ev: "ev = Run ans" by blast
    show ?thesis
    proof (cases "expects (we_matchers E) (pw_pc P) ans")
      case True
      then show ?thesis using IH rank_falls [OF Cons.prems(1) True, of now] e ev by simp
    next
      case False
      then show ?thesis using IH unexpected_stays [OF False np, of now] e ev by simp
    qed
  next
    case False
    then have "pw_pc ?Q = pw_pc P" using other_moves_keep_pc e by blast
    then show ?thesis using IH False e by (cases ev) auto
  qed
qed simp

text \<open>
  A node and matchers that answer: what each says may depend on all that went before. The task is
  given the answer it waits for.
\<close>

record 's replies =
  rp_mark :: "'s process \<Rightarrow> string + string"
  rp_page :: "'s process \<Rightarrow> page_error + 's v2_response"
  rp_sink :: "'s process \<Rightarrow> string + string"
  rp_verdict :: "'s process \<Rightarrow> verdict"

definition reply :: "walk_env \<Rightarrow> 's replies \<Rightarrow> 's process \<Rightarrow> 's answer" where
  "reply E node P =
     (case pw_pc P of
        Mark_Ask _ _ \<Rightarrow> Mark_Is (rp_mark node P)
      | Awaiting _ _ _ _ _ _ \<Rightarrow> Page_Is (rp_page node P)
      | Sink_Ask _ \<Rightarrow> Sink_Is (rp_sink node P)
      | Folding _ _ _ i \<Rightarrow> if i < we_matchers E then Says (rp_verdict node P) else Go
      | _ \<Rightarrow> Go)"

lemma reply_expected: "pw_pc P \<noteq> Parked \<Longrightarrow> expects (we_matchers E) (pw_pc P) (reply E node P)"
  by (cases "pw_pc P") (simp_all add: reply_def)

lemma replies_park:
  assumes "pc_ok E P"
  shows "\<exists>k \<le> rank (we_matchers E) (pw_pc P).
    pw_pc (((\<lambda>P. run_answer E (clock P) (reply E node P) P) ^^ k) P) = Parked"
  using assms
proof (induction "rank (we_matchers E) (pw_pc P)" arbitrary: P rule: less_induct)
  case less
  let ?step = "\<lambda>P. run_answer E (clock P) (reply E node P) P"
  show ?case
  proof (cases "pw_pc P = Parked")
    case False
    have falls: "rank (we_matchers E) (pw_pc (?step P)) < rank (we_matchers E) (pw_pc P)"
      by (rule rank_falls [OF less.prems reply_expected [OF False]])
    then obtain k where "k \<le> rank (we_matchers E) (pw_pc (?step P))" "pw_pc ((?step ^^ k) (?step P)) = Parked"
      using less.hyps [OF falls pc_ok_answer [OF less.prems]] by blast
    then have "Suc k \<le> rank (we_matchers E) (pw_pc P)" "pw_pc ((?step ^^ Suc k) P) = Parked"
      using falls by (simp, simp only: funpow_Suc_right o_apply)
    then show ?thesis by blast
  next
    case True
    then show ?thesis by (intro exI [of _ 0]) simp
  qed
qed

lemma rank_le:
  assumes "counters_ok n pc"
  shows "rank n pc \<le> 16 * (n + 67) + 15"
proof -
  have p: "page_rank n pages \<le> 15 * n + 1015" for pages using page_rank_ge(2) [of n pages] by simp
  have a: "6 * (8 - attempt) \<le> 48" for attempt :: nat by simp
  have k: "start_rank n k j \<le> 16 * n + 1083 + j" for k :: "'a mark_cont" and j
  proof (cases k)
    case (With_Page pages start r)
    then show ?thesis using p [of pages] by simp
  qed simp
  have l: "page_rank n pages + n + 16 + 6 * (8 - attempt) \<le> 16 * n + 1079" for pages attempt
    using p [of pages] a [of attempt] by linarith
  have q: "page_rank n pages + n + 66 \<le> 16 * n + 1081" for pages using p [of pages] by simp
  show ?thesis
  proof (cases pc)
    case (Mark_Check epoch c)
    then show ?thesis using k [of c 3] by simp
  next
    case (Mark_Ask epoch c)
    then show ?thesis using k [of c 2] by simp
  next
    case (Mark_Set epoch c mark)
    then show ?thesis using k [of c 1] by simp
  next
    case (Folding epoch pages page i)
    then show ?thesis using q [of pages] by simp
  next
    case (Committing epoch pages page)
    then show ?thesis using q [of pages] by simp
  next
    case (Progress epoch pages page)
    then show ?thesis using q [of pages] by simp
  next
    case (Gate epoch pages page)
    then show ?thesis using q [of pages] by simp
  next
    case (Stepping epoch pages)
    then show ?thesis using q [of pages] by simp
  next
    case (Behind epoch pages start)
    then show ?thesis using q [of pages] by simp
  next
    case (Attempt epoch pages start large attempt only)
    then show ?thesis using l [of pages attempt] by simp
  next
    case (Turn epoch pages start large attempt only)
    then show ?thesis using l [of pages attempt] by simp
  next
    case (After_Turn epoch pages start large attempt only)
    then show ?thesis using l [of pages attempt] by simp
  next
    case (Asking epoch pages start large attempt only)
    then show ?thesis using l [of pages attempt] by simp
  next
    case (Awaiting epoch pages start large attempt only)
    then show ?thesis using l [of pages attempt] by simp
  next
    case (Sleeping epoch pages start large attempt only)
    then show ?thesis using l [of pages attempt] by simp
  qed simp_all
qed

section \<open>A held walk\<close>

definition resting :: "'s process \<Rightarrow> bool" where
  "resting P \<longleftrightarrow> \<not> is_running P \<and> quiesce_returns P"

fun not_arm :: "moment \<times> 's walk_event \<Rightarrow> bool" where
  "not_arm (_, Arm _) = False"
| "not_arm _ = True"

fun is_fold :: "'s observation \<Rightarrow> bool" where
  "is_fold (Said _ _ _) = True"
| "is_fold (Committed _) = True"
| "is_fold (Landed _ _) = True"
| "is_fold (Seeded _ _) = True"
| "is_fold _ = False"

definition shown :: "'s process \<Rightarrow> string option \<times> disk \<times> 's observation list" where
  "shown P = (iw_cursor (pw_state P), pw_disk P, filter is_fold (pw_log P))"

lemma not_running: "\<not> is_running P \<longleftrightarrow> iw_mode (pw_state P) = Idle"
  by (cases "iw_mode (pw_state P)") (simp_all add: is_running_def)

lemma gate_free_next [simp]:
  "\<not> gate_held (begin_run now s)" "\<not> gate_held (after_mark epoch k)" "\<not> gate_held (step_pc epoch pages s)"
  "\<not> gate_held (page_answered E epoch pages start large attempt only r)"
  by (cases k; auto simp: begin_run_def step_pc_def page_answered_def retry_pc_def split: option.split sum.split page_error.split)+

lemma no_folds_told: "filter is_fold (map (\<lambda>i. Gap i was to) is) = []"
  by (induction "is") simp_all

lemma rest_section:
  assumes "resting P" and "pw_pc P = pc"
  shows "resting (run_section E now pc P) \<and> shown (run_section E now pc P) = shown P"
proof -
  have idle: "iw_mode (pw_state P) = Idle" and gate: "\<not> gate_held pc"
    using assms by (simp_all add: resting_def not_running quiesce_returns_def)
  show ?thesis
  proof (cases pc)
    case Parked
    then show ?thesis using idle assms by (auto simp: resting_def shown_def not_running quiesce_returns_def jump_def)
  next
    case (Mark_Set epoch k mark)
    then show ?thesis using idle by (simp add: resting_def shown_def not_running quiesce_returns_def set_mark_def under_def)
  next
    case (Failing epoch start)
    then show ?thesis using idle by (simp add: resting_def shown_def not_running quiesce_returns_def failed_run_def still_at_def)
  next
    case (Landing epoch cause)
    then show ?thesis using idle by (simp add: resting_def shown_def not_running quiesce_returns_def landing_def under_def Let_def)
  next
    case (Tell_Landed epoch cause was mark)
    then show ?thesis
      using idle by (simp add: resting_def shown_def not_running quiesce_returns_def tell_gap_def no_folds_told Let_def)
  next
    case (Tell_Seeded epoch was sink)
    then show ?thesis
      using idle by (cases was) (simp_all add: resting_def shown_def not_running quiesce_returns_def tell_gap_def no_folds_told)
  next
    case (Sink_Failed epoch)
    then show ?thesis using idle by (simp add: resting_def shown_def not_running quiesce_returns_def sink_unread_def under_def)
  next
    case (Sink_Set epoch sink)
    then show ?thesis using idle by (simp add: resting_def shown_def not_running quiesce_returns_def under_def)
  qed (use gate idle assms(2) in \<open>auto simp: resting_def shown_def not_running quiesce_returns_def under_def still_at_def\<close>)
qed

lemma rest_answer:
  assumes "resting P"
  shows "resting (run_answer E now ans P) \<and> shown (run_answer E now ans P) = shown P"
proof (cases ans)
  case Go
  then show ?thesis using rest_section [OF assms refl] by simp
qed (use assms in \<open>auto simp: resting_def shown_def not_running quiesce_returns_def split: run_pc.split sum.split\<close>)

lemma rest_move:
  assumes "resting P" and "not_arm e"
  shows "resting (walk_move E P e) \<and> shown (walk_move E P e) = shown P"
proof -
  obtain now ev where e: "e = (now, ev)" by fastforce
  show ?thesis
  proof (cases ev)
    case (Run ans)
    then show ?thesis using rest_answer [OF assms(1)] e by simp
  qed (use assms e in \<open>auto simp: resting_def shown_def not_running quiesce_returns_def hold_intake_def poke_def
      socket_published_def yield_to_def note_ticks_def Let_def\<close>)
qed

interpretation walk_held: silent_system "walk_move E" resting not_arm shown for E
  by unfold_locales (use rest_move in blast)+

end
