(* ===== verification/Walk_Tally.thy ===== *)
theory Walk_Tally
  imports Walk_Bounds
begin

text \<open>
  How often the message walk asks for a page the node does not serve: the answers that count
  against a page, read off the log of a run, and the bound no run passes.
\<close>

section \<open>The tally\<close>

text \<open>
  The answers that count against a page: no answer in time, a lost socket, a refusal. No socket to
  ask on and an answer the fleet displaced do not, and a refusal of the cursor itself ends the run
  at a landing.
\<close>

fun counts_against :: "walk_env \<Rightarrow> page_error \<Rightarrow> bool" where
  "counts_against E TimedOut = True"
| "counts_against E SocketLost = True"
| "counts_against E (Refused text) = (\<not> cursor_unknown E text)"
| "counts_against E NoSocket = False"
| "counts_against E Displaced = False"

fun clears :: "walk_env \<Rightarrow> page_error \<Rightarrow> bool" where
  "clears E Displaced = True"
| "clears E (Refused text) = cursor_unknown E text"
| "clears E _ = False"

text \<open>
  The epoch of the last arm, and the answers counted since: an arm, a page served, a move of the
  cursor and an answer that is no failure of the page begin the count anew.
\<close>

fun tally_one :: "walk_env \<Rightarrow> nat option \<times> nat \<Rightarrow> 's observation \<Rightarrow> nat option \<times> nat" where
  "tally_one E (cur, k) (Armed epoch _ _ _) = (Some epoch, 0)"
| "tally_one E (cur, k) (Served epoch _) = (cur, if cur = Some epoch then 0 else k)"
| "tally_one E (cur, k) (Unserved epoch _ e) =
     (cur, if cur \<noteq> Some epoch then k else if counts_against E e then Suc k else if clears E e then 0 else k)"
| "tally_one E (cur, k) (Committed _) = (cur, 0)"
| "tally_one E (cur, k) (Landed _ _) = (cur, 0)"
| "tally_one E (cur, k) (Seeded _ _) = (cur, 0)"
| "tally_one E (cur, k) _ = (cur, k)"

definition tally :: "walk_env \<Rightarrow> 's observation list \<Rightarrow> nat option \<times> nat" where
  "tally E os = foldl (tally_one E) (None, 0) os"

definition unserved :: "walk_env \<Rightarrow> 's observation list \<Rightarrow> nat" where
  "unserved E os = snd (tally E os)"

lemma tally_snoc [simp]: "tally E [] = (None, 0)" "tally E (os @ [ob]) = tally_one E (tally E os) ob"
  by (simp_all add: tally_def)

lemma tally_gaps [simp]: "tally E (os @ map (\<lambda>i. Gap i was to) is) = tally E os"
proof -
  have "foldl (tally_one E) a (map (\<lambda>i. Gap i was to) is) = a" for a
    by (induction "is") (simp_all add: tally_one.simps(7) split: prod.split, metis surj_pair tally_one.simps(9))
  then show ?thesis by (simp add: tally_def)
qed

section \<open>The bound\<close>

text \<open>What a run has counted at a point, by its own attempts, and the cursor it asks from.\<close>

fun spent_at :: "'s run_pc \<Rightarrow> nat" where
  "spent_at (Attempt _ _ _ _ attempt only) = (if only then 0 else attempt)"
| "spent_at (Turn _ _ _ _ attempt only) = (if only then 0 else attempt)"
| "spent_at (After_Turn _ _ _ _ attempt only) = (if only then 0 else attempt)"
| "spent_at (Asking _ _ _ _ attempt only) = (if only then 0 else attempt)"
| "spent_at (Awaiting _ _ _ _ attempt only) = (if only then 0 else attempt)"
| "spent_at (Sleeping _ _ _ _ attempt only) = (if only then 0 else attempt + 1)"
| "spent_at (Failing _ _) = 8"
| "spent_at _ = 0"

fun asks_from :: "'s run_pc \<Rightarrow> string option" where
  "asks_from (Behind _ _ start) = Some start"
| "asks_from (Attempt _ _ start _ _ _) = Some start"
| "asks_from (Turn _ _ start _ _ _) = Some start"
| "asks_from (After_Turn _ _ start _ _ _) = Some start"
| "asks_from (Asking _ _ start _ _ _) = Some start"
| "asks_from (Awaiting _ _ start _ _ _) = Some start"
| "asks_from (Sleeping _ _ start _ _ _) = Some start"
| "asks_from (Failing _ start) = Some start"
| "asks_from _ = None"

fun has_page :: "'s run_pc \<Rightarrow> bool" where
  "has_page (Mark_Check _ (With_Page _ _ _)) = True"
| "has_page (Mark_Ask _ (With_Page _ _ _)) = True"
| "has_page (Mark_Set _ (With_Page _ _ _) _) = True"
| "has_page (Gate _ _ _) = True"
| "has_page (Progress _ _ _) = True"
| "has_page _ = False"

text \<open>
  A point of the current arm. While the walk runs, what was counted is paid for by failed runs and
  the attempts of this one; once it is held, one more run's worth may still come in.
\<close>

definition run_tally :: "intake \<Rightarrow> 's run_pc \<Rightarrow> nat \<Rightarrow> bool" where
  "run_tally s pc k \<longleftrightarrow>
     (has_page pc \<longrightarrow> k = 0) \<and>
     (iw_mode s = Running \<longrightarrow> k \<le> 8 * iw_failed_runs s + spent_at pc) \<and>
     (iw_mode s = Running \<longrightarrow> asks_from pc \<noteq> None \<longrightarrow> iw_cursor s = asks_from pc \<and> iw_failed_runs s < 3) \<and>
     (iw_mode s \<noteq> Running \<longrightarrow> asks_from pc \<noteq> None \<longrightarrow> k \<le> 16 + spent_at pc)"

definition tally_ok :: "walk_env \<Rightarrow> 's process \<Rightarrow> bool" where
  "tally_ok E P \<longleftrightarrow>
     (case tally E (pw_log P) of (cur, k) \<Rightarrow>
        k \<le> 24 \<and> iw_failed_runs (pw_state P) \<le> 3 \<and>
        (iw_mode (pw_state P) = Running \<longleftrightarrow> cur = Some (iw_epoch (pw_state P))) \<and>
        (\<forall>e. cur = Some e \<longrightarrow> e \<le> iw_epoch (pw_state P)) \<and>
        (run_epoch (pw_pc P) \<noteq> None \<longrightarrow> run_epoch (pw_pc P) = cur \<longrightarrow> run_tally (pw_state P) (pw_pc P) k) \<and>
        (run_epoch (pw_pc P) = None \<or> run_epoch (pw_pc P) \<noteq> cur \<longrightarrow>
           iw_mode (pw_state P) = Running \<longrightarrow> k \<le> 8 * iw_failed_runs (pw_state P)))"

text \<open>A step that leaves the log and the numbers alone and goes on to a point that claims no more.\<close>

lemma tally_step:
  assumes ok: "tally_ok E P" and same: "pw_log P' = pw_log P" "iw_failed_runs (pw_state P') = iw_failed_runs (pw_state P)"
      "iw_mode (pw_state P') = iw_mode (pw_state P)" "iw_epoch (pw_state P') = iw_epoch (pw_state P)"
    and next_pc: "run_epoch (pw_pc P') = run_epoch (pw_pc P) \<or> run_epoch (pw_pc P') = None \<and> spent_at (pw_pc P) = 0"
    and claims: "\<And>k. run_epoch (pw_pc P) = Some (iw_epoch (pw_state P)) \<or> iw_mode (pw_state P) \<noteq> Running \<Longrightarrow> k \<le> 24 \<Longrightarrow>
        run_tally (pw_state P) (pw_pc P) k \<Longrightarrow> run_tally (pw_state P') (pw_pc P') k"
  shows "tally_ok E P'"
proof -
  obtain cur k where t: "tally E (pw_log P) = (cur, k)" by fastforce
  let ?s = "pw_state P" and ?pc = "pw_pc P" and ?pc' = "pw_pc P'"
  have c: "k \<le> 24 \<and> iw_failed_runs ?s \<le> 3 \<and> (iw_mode ?s = Running \<longleftrightarrow> cur = Some (iw_epoch ?s)) \<and>
      (\<forall>e. cur = Some e \<longrightarrow> e \<le> iw_epoch ?s) \<and>
      (run_epoch ?pc \<noteq> None \<longrightarrow> run_epoch ?pc = cur \<longrightarrow> run_tally ?s ?pc k) \<and>
      (run_epoch ?pc = None \<or> run_epoch ?pc \<noteq> cur \<longrightarrow> iw_mode ?s = Running \<longrightarrow> k \<le> 8 * iw_failed_runs ?s)"
    using ok unfolding tally_ok_def t prod.case .
  note c2 = conjunct2 [OF c]
  note c3 = conjunct2 [OF c2]
  note c4 = conjunct2 [OF c3]
  note c5 = conjunct2 [OF c4]
  note o = conjunct1 [OF c] conjunct1 [OF c2] conjunct1 [OF c3] conjunct1 [OF c4] conjunct1 [OF c5, rule_format]
    conjunct2 [OF c5, rule_format]
  have live: "run_tally (pw_state P') ?pc' k" if here: "run_epoch ?pc' \<noteq> None" "run_epoch ?pc' = cur"
  proof -
    have eq: "run_epoch ?pc' = run_epoch ?pc" using next_pc here(1) by blast
    have "run_epoch ?pc \<noteq> None" "run_epoch ?pc = cur" using here unfolding eq .
    then have "run_tally ?s ?pc k" by (rule o(5))
    moreover have "run_epoch ?pc = Some (iw_epoch ?s) \<or> iw_mode ?s \<noteq> Running" using o(3) eq here by metis
    ultimately show ?thesis using claims o(1) by blast
  qed
  have idle: "k \<le> 8 * iw_failed_runs ?s" if gone: "run_epoch ?pc' = None \<or> run_epoch ?pc' \<noteq> cur" and run: "iw_mode ?s = Running"
  proof (cases "run_epoch ?pc \<noteq> None \<and> run_epoch ?pc = cur")
    case True
    then have "spent_at ?pc = 0" using next_pc gone by auto
    then show ?thesis using o(5) True run by (auto simp: run_tally_def)
  next
    case False
    then have "run_epoch ?pc = None \<or> run_epoch ?pc \<noteq> cur" by metis
    then show ?thesis using run by (rule o(6))
  qed
  show ?thesis
    unfolding tally_ok_def same t prod.case by (intro conjI impI o(1-4) live idle)
qed

lemma commit_mode:
  assumes "commit epoch page force at_tip now s d = Some (s', d')"
  shows "iw_mode s' = iw_mode s"
  using assms
  by (auto simp: commit_def pass_marks_def Let_def split: if_splits option.splits prod.splits dest: flush_fields(1))

lemma flush_numbers:
  "iw_epoch (fst (flush now s d)) = iw_epoch s" "iw_mode (fst (flush now s d)) = iw_mode s"
  "iw_failed_runs (fst (flush now s d)) = iw_failed_runs s"
  using flush_fields [of now s d] by (metis prod.collapse)+

lemma landing_mode:
  assumes "landing epoch cause now s d = (s', d', l)"
  shows "iw_mode s' = iw_mode s"
  using assms
  by (auto simp: landing_def Let_def split: if_splits option.splits prod.splits dest: flush_fields(1))

lemma landing_failed:
  assumes "landing epoch cause now s d = (s', d', l)"
  shows "case l of To_Mark _ _ \<Rightarrow> iw_failed_runs s' = 0 | _ \<Rightarrow> iw_failed_runs s' = iw_failed_runs s"
  using assms unfolding landing_def Let_def
  by (auto simp: split_beta flush_numbers split: if_splits option.splits)

lemma tally_section:
  assumes ok: "tally_ok E P" and pts: "pc_ok E P" and pc: "pw_pc P = pc"
  shows "tally_ok E (run_section E now pc P)"
proof (cases pc)
  case Parked
  then show ?thesis using ok pc by (auto simp: tally_ok_def jump_def)
next
  case Begin
  then show ?thesis using ok pc by (auto simp: tally_ok_def begin_run_def run_tally_def split: option.split)
next
  case (Mark_Check epoch k)
  show ?thesis by (intro tally_step [OF ok]) (use pc Mark_Check in \<open>cases k; auto simp: run_tally_def\<close>)+
next
  case (Mark_Set epoch k mark)
  show ?thesis by (intro tally_step [OF ok]) (use pc Mark_Set in \<open>cases k; auto simp: run_tally_def set_mark_def\<close>)+
next
  case (Owed epoch)
  show ?thesis by (intro tally_step [OF ok]) (use pc Owed in \<open>auto simp: run_tally_def\<close>)
next
  case (Stepping epoch pages)
  show ?thesis
    by (intro tally_step [OF ok])
      (use pc Stepping pts in \<open>auto simp: run_tally_def step_pc_def under_def pc_ok_def split: option.split\<close>)
next
  case (Behind epoch pages start)
  show ?thesis by (intro tally_step [OF ok]) (use pc Behind in \<open>auto simp: run_tally_def\<close>)
next
  case (Attempt epoch pages start large attempt only)
  show ?thesis
    by (intro tally_step [OF ok]) (use pc Attempt in \<open>auto simp: run_tally_def still_at_def split: if_splits\<close>)
next
  case (Turn epoch pages start large attempt only)
  show ?thesis by (intro tally_step [OF ok]) (use pc Turn in \<open>auto simp: run_tally_def\<close>)
next
  case (After_Turn epoch pages start large attempt only)
  show ?thesis
    by (intro tally_step [OF ok]) (use pc After_Turn in \<open>auto simp: run_tally_def still_at_def split: if_splits\<close>)
next
  case (Asking epoch pages start large attempt only)
  then show ?thesis using ok pc by (auto simp: tally_ok_def run_tally_def split: prod.splits if_splits)
next
  case (Sleeping epoch pages start large attempt only)
  show ?thesis by (intro tally_step [OF ok]) (use pc Sleeping in \<open>auto simp: run_tally_def\<close>)
next
  case (Failing epoch start)
  then show ?thesis
    using ok pc pts by (auto simp: tally_ok_def run_tally_def failed_run_def still_at_def pc_ok_def Let_def split: prod.splits if_splits)
next
  case (Gate epoch pages page)
  show ?thesis by (intro tally_step [OF ok]) (use pc Gate in \<open>auto simp: run_tally_def\<close>)
next
  case (Progress epoch pages page)
  then show ?thesis
    using ok pc by (auto simp: tally_ok_def run_tally_def note_progress_def split: prod.splits if_splits)
next
  case (Folding epoch pages page i)
  show ?thesis by (intro tally_step [OF ok]) (use pc Folding in \<open>auto simp: run_tally_def\<close>)
next
  case (Holding epoch start)
  obtain s' d' where h: "hold_at now (pw_state P) (pw_disk P) = (s', d')" by fastforce
  show ?thesis
    using ok pc Holding h flush_fields [OF h [unfolded hold_at_def]]
    by (auto simp: tally_ok_def run_tally_def split: prod.splits if_splits option.splits)
next
  case (Committing epoch pages page)
  let ?c = "commit epoch page (page_long page \<or> 0 < pages) (\<not> page_long page \<and> wp_aligned page = added_len page) now (pw_state P) (pw_disk P)"
  have quiet: "spent_at (after_commit epoch pages page) = 0" "asks_from (after_commit epoch pages page) = None"
    "\<not> has_page (after_commit epoch pages page)"
    by (simp_all add: after_commit_def)
  show ?thesis
  proof (cases ?c)
    case None
    then show ?thesis
      by (intro tally_step [OF ok]) (use pc Committing quiet in \<open>auto simp: Let_def run_tally_def\<close>)
  next
    case (Some sd')
    obtain s' d' where c: "?c = Some (s', d')" using Some by fastforce
    show ?thesis
      using ok pc Committing c commit_next(1,2) [OF c] commit_mode [OF c] quiet
      by (auto simp: tally_ok_def run_tally_def Let_def split: prod.splits if_splits)
  qed
next
  case (Landing epoch cause)
  obtain s' d' l where l: "landing epoch cause now (pw_state P) (pw_disk P) = (s', d', l)" by (metis prod_cases3)
  show ?thesis
    using landing_next(1) [OF l] landing_mode [OF l] landing_failed [OF l] l Landing ok pc
    by (cases l) (auto simp: tally_ok_def run_tally_def Let_def split: prod.splits if_splits)
next
  case (Tell_Landed epoch cause was mark)
  then show ?thesis using ok pc by (auto simp: tally_ok_def run_tally_def tell_gap_def Let_def split: prod.splits if_splits)
next
  case (Sink_Failed epoch)
  then show ?thesis using ok pc by (auto simp: tally_ok_def run_tally_def sink_unread_def Let_def split: prod.splits if_splits)
next
  case (Sink_Set epoch sink)
  obtain s' d' where r: "reseed_at sink now (pw_state P) (pw_disk P) = (s', d')" by fastforce
  show ?thesis
    using flush_fields [OF r [unfolded reseed_at_def]] r Sink_Set ok pc
    by (auto simp: tally_ok_def run_tally_def split: prod.splits if_splits)
next
  case (Tell_Seeded epoch was sink)
  then show ?thesis
    using ok pc by (cases was) (auto simp: tally_ok_def run_tally_def tell_gap_def split: prod.splits if_splits)
next
  case (Settling epoch)
  show ?thesis by (intro tally_step [OF ok]) (use pc Settling in \<open>auto simp: run_tally_def\<close>)
qed (use ok pc in simp_all)

lemma tally_page_answer:
  assumes ok: "tally_ok E P" and pts: "pc_ok E P" and pc: "pw_pc P = Awaiting epoch pages start large attempt only"
  shows "tally_ok E (run_answer E now (Page_Is r) P)"
proof -
  have "attempt < 8" using pts pc by (simp add: pc_ok_def)
  then show ?thesis
  proof (cases r)
    case (Inr response)
    then show ?thesis using ok pc by (auto simp: tally_ok_def run_tally_def page_answered_def split: prod.splits if_splits)
  next
    case (Inl e)
    then show ?thesis
      using ok pc \<open>attempt < 8\<close>
      by (cases e)
        (auto simp: tally_ok_def run_tally_def page_answered_def retry_pc_def walk_consts split: prod.splits if_splits)
  qed
qed

lemma tally_answer:
  assumes ok: "tally_ok E P" and pts: "pc_ok E P"
  shows "tally_ok E (run_answer E now ans P)"
proof (cases ans)
  case Go
  then show ?thesis using tally_section [OF ok pts refl] by simp
next
  case (Mark_Is r)
  then show ?thesis
  proof (cases "pw_pc P")
    case (Mark_Ask epoch k)
    show ?thesis
      by (intro tally_step [OF ok]) (use Mark_Is Mark_Ask in \<open>cases k; auto simp: run_tally_def split: sum.splits\<close>)+
  qed (use ok in auto)
next
  case (Page_Is r)
  then show ?thesis
  proof (cases "pw_pc P")
    case (Awaiting epoch pages start large attempt only)
    then show ?thesis using tally_page_answer [OF ok pts] Page_Is by blast
  qed (use ok in auto)
next
  case (Sink_Is r)
  then show ?thesis
  proof (cases "pw_pc P")
    case (Sink_Ask epoch)
    show ?thesis
      by (intro tally_step [OF ok]) (use Sink_Is Sink_Ask in \<open>auto simp: run_tally_def split: sum.splits\<close>)
  qed (use ok in auto)
next
  case (Says v)
  then show ?thesis
  proof (cases "pw_pc P")
    case (Folding epoch pages page i)
    then show ?thesis
      using Says ok by (cases v) (auto simp: tally_ok_def run_tally_def split: prod.splits if_splits)
  qed (use ok in auto)
qed

lemma tally_move:
  assumes ok: "tally_ok E P" and pts: "pc_ok E P"
  shows "tally_ok E (walk_move E P e)"
proof -
  obtain now ev where e: "e = (now, ev)" by fastforce
  show ?thesis
  proof (cases ev)
    case (Arm path)
    obtain s' d' where a: "arm_state E path (pw_state P) (pw_disk P) = (s', d')" by fastforce
    have "run_epoch (pw_pc P) = None \<or> run_epoch (pw_pc P) \<noteq> Some (iw_epoch s')"
      using pts arm_state_fields(1) [OF a] by (auto simp: pc_ok_def split: option.splits)
    moreover have "tally_one E (tally E (pw_log P)) (Armed (iw_epoch s') q found c :: 'a observation) = (Some (iw_epoch s'), 0)" for q found c
      by (cases "tally E (pw_log P)") simp
    ultimately show ?thesis using e Arm a arm_state_fields(4,5) [OF a] by (auto simp: tally_ok_def arm_def)
  next
    case Hold
    obtain s' d' where h: "flush now ((pw_state P)\<lparr>iw_mode := Idle, iw_epoch := iw_epoch (pw_state P) + 1\<rparr>) (pw_disk P) = (s', d')" by fastforce
    obtain cur k where t: "tally E (pw_log P) = (cur, k)" by fastforce
    show ?thesis
    proof (cases "iw_mode (pw_state P) = Idle")
      case False
      then have "iw_mode (pw_state P) = Running" by (cases "iw_mode (pw_state P)") simp_all
      moreover have "iw_mode s' = Idle" "iw_epoch s' = Suc (iw_epoch (pw_state P))" "iw_failed_runs s' = iw_failed_runs (pw_state P)"
        using flush_fields [OF h] by simp_all
      ultimately show ?thesis
        using ok e Hold h t by (auto simp: tally_ok_def run_tally_def hold_intake_def Let_def)
    qed (use ok e Hold in \<open>simp add: hold_intake_def Let_def\<close>)
  next
    case (Run ans)
    then show ?thesis using tally_answer [OF ok pts] e by simp
  qed (use ok e in \<open>auto simp: tally_ok_def run_tally_def poke_def socket_published_def yield_to_def note_ticks_def Let_def split: prod.splits\<close>)
qed

interpretation walk_tally: event_system "walk_move E" "\<lambda>P. tally_ok E P \<and> pc_ok E P" "\<lambda>_. True" for E
  by unfold_locales (simp add: tally_move pc_ok_move)

lemma tally_run: "tally_ok E (walk_run E d evs)"
  unfolding walk_run_def
  by (rule conjunct1 [OF walk_tally.events_keep]) (auto simp: tally_ok_def pc_ok_def walk_new_def state_new_def list_all_iff)

lemma unserved_bound: "unserved E (pw_log (walk_run E d evs)) \<le> max_failed_runs * walk_page_attempts"
  using tally_run [of E d evs] by (auto simp: unserved_def tally_ok_def walk_consts split: prod.splits)

end
