(* ===== verification/Walk_Props.thy ===== *)
theory Walk_Props
  imports Walk_Runs Walk_Tally
begin

text \<open>
  What the message walk promises, for every interleaving of its task with arms, holds, pokes and
  new sockets, and for every answer of the node and the matchers: the cursor never passes what was
  not folded without telling every matcher, a run asks a bounded number of times and ends, an arm
  lands on a mark at most twice, a held walk is still, and its file is never ahead of the cursor.
\<close>

section \<open>The cursor file\<close>

text \<open>The cursors the walk stood at, one after another.\<close>

definition stood_at :: "walk_env \<Rightarrow> 's observation list \<Rightarrow> string \<Rightarrow> bool" where
  "stood_at E os c \<longleftrightarrow> (\<exists>xs ys st said owed. os = xs @ ys \<and> audit E xs = Some (Some c, st, said, owed))"

lemma stood_at_grows: "stood_at E os c \<Longrightarrow> stood_at E (os @ os') c"
  unfolding stood_at_def by (metis append.assoc)

lemma stood_at_now: "audited E P \<Longrightarrow> iw_cursor (pw_state P) = Some c \<Longrightarrow> stood_at E (pw_log P) c"
  unfolding audited_def stood_at_def by (metis append_Nil2)

lemma write_cursor_content:
  assumes "p \<noteq> []"
  shows "content (write_walk_cursor p c d) p \<in> {content d p, Some (ascii c)}"
proof -
  obtain d' r where w: "atomic_write p (ascii c) d = (d', r)" by fastforce
  then show ?thesis
    using atomic_write_cases [OF assms w] temp_path_neq [OF assms] by (auto simp: write_walk_cursor_def)
qed

text \<open>A step writes the file of the one store it was armed with, or nothing, and writes the cursor.\<close>

definition one_store :: "path \<Rightarrow> intake \<Rightarrow> bool" where
  "one_store p s \<longleftrightarrow> iw_path s = None \<or> iw_path s = Some p"

definition writes_cursor :: "path \<Rightarrow> disk \<Rightarrow> intake \<Rightarrow> disk \<Rightarrow> bool" where
  "writes_cursor p d s' d' \<longleftrightarrow> content d' p = content d p \<or> (\<exists>c. iw_cursor s' = Some c \<and> content d' p = Some (ascii c))"

lemma flush_writes:
  assumes "p \<noteq> []" "one_store p s" "flush now s d = (s', d')"
  shows "writes_cursor p d s' d'" "one_store p s'"
  using assms write_cursor_content [of p]
  by (auto simp: flush_def one_store_def writes_cursor_def split: option.splits) force+

lemma flush_writes':
  assumes "p \<noteq> []" "one_store p s"
  shows "writes_cursor p d (fst (flush now s d)) (snd (flush now s d))" "one_store p (fst (flush now s d))"
  using flush_writes [OF assms] by (metis prod.collapse)+

lemma writes_nothing [simp]: "writes_cursor p d s d"
  by (simp add: writes_cursor_def)

lemma commit_writes:
  assumes "p \<noteq> []" "one_store p s" "commit epoch page force at_tip now s d = Some (s', d')"
  shows "writes_cursor p d s' d'" "one_store p s'"
proof -
  from commit_cases [OF assms(3)] obtain s1 where
    s1: "s1 = (case page_last page of Some (to, time) \<Rightarrow> s\<lparr>iw_cursor := Some to, iw_cursor_time_ms := time\<rparr> | None \<Rightarrow> s)" and
    s': "(s', d') = (pass_marks epoch page at_tip s1, d) \<or> flush now (pass_marks epoch page at_tip s1) d = (s', d')" by metis
  have "one_store p (pass_marks epoch page at_tip s1)"
    using assms(2) unfolding one_store_def pass_marks_fields s1 by (simp split: option.split)
  then show "writes_cursor p d s' d'" "one_store p s'"
    using s' flush_writes [OF assms(1), of "pass_marks epoch page at_tip s1" now d s' d'] writes_nothing by auto
qed

lemma one_store_same:
  "one_store p (s\<lparr>iw_cursor := c\<rparr>) = one_store p s" "one_store p (s\<lparr>iw_cursor_time_ms := t\<rparr>) = one_store p s"
  "one_store p (s\<lparr>iw_failed_runs := n\<rparr>) = one_store p s" "one_store p (s\<lparr>iw_retry_after := t\<rparr>) = one_store p s"
  "one_store p (s\<lparr>iw_carried := m\<rparr>) = one_store p s" "one_store p (s\<lparr>iw_own := m\<rparr>) = one_store p s"
  "one_store p (s\<lparr>iw_present := b\<rparr>) = one_store p s"
  by (simp_all add: one_store_def)

lemma landing_writes:
  assumes "p \<noteq> []" "one_store p s" "landing epoch cause now s d = (s', d', l)"
  shows "writes_cursor p d s' d'" "one_store p s'"
  using assms(2,3) flush_writes' [OF assms(1)] unfolding landing_def Let_def
  by (auto simp: split_beta one_store_same split: if_splits option.splits)

lemma hold_at_writes:
  assumes "p \<noteq> []" "one_store p s" "flush now (s\<lparr>iw_mode := Idle, iw_epoch := e\<rparr>) d = (s', d')"
  shows "writes_cursor p d s' d'" "one_store p s'"
  using flush_writes [OF assms(1) _ assms(3)] assms(2) by (auto simp: one_store_def)

fun at_store :: "path \<Rightarrow> moment \<times> 's walk_event \<Rightarrow> bool" where
  "at_store p (_, Arm q) \<longleftrightarrow> q = p"
| "at_store p _ \<longleftrightarrow> True"

lemma section_writes:
  assumes p: "p \<noteq> []" and one: "one_store p (pw_state P)"
  shows "one_store p (pw_state (run_section E now pc P)) \<and>
    writes_cursor p (pw_disk P) (pw_state (run_section E now pc P)) (pw_disk (run_section E now pc P))"
proof (cases pc)
  case (Mark_Set epoch k mark)
  then show ?thesis using one by (simp add: set_mark_def one_store_def writes_cursor_def)
next
  case (Failing epoch start)
  then show ?thesis using one by (simp add: failed_run_def one_store_def writes_cursor_def Let_def)
next
  case (Progress epoch pages page)
  then show ?thesis using one by (simp add: note_progress_def one_store_def writes_cursor_def)
next
  case (Holding epoch start)
  obtain s' d' where h: "hold_at now (pw_state P) (pw_disk P) = (s', d')" by fastforce
  show ?thesis using hold_at_writes [OF p one h [unfolded hold_at_def]] Holding h by simp
next
  case (Committing epoch pages page)
  let ?c = "commit epoch page (page_long page \<or> 0 < pages) (\<not> page_long page \<and> wp_aligned page = added_len page) now (pw_state P) (pw_disk P)"
  show ?thesis
  proof (cases ?c)
    case None
    then show ?thesis using Committing one by (simp add: Let_def writes_cursor_def)
  next
    case (Some sd')
    obtain s' d' where c: "?c = Some (s', d')" using Some by fastforce
    show ?thesis using commit_writes [OF p one c] Committing c by (simp add: Let_def)
  qed
next
  case (Landing epoch cause)
  obtain s' d' l where l: "landing epoch cause now (pw_state P) (pw_disk P) = (s', d', l)" by (metis prod_cases3)
  show ?thesis using landing_writes [OF p one l] l Landing by (cases l) (simp_all add: Let_def)
next
  case (Tell_Landed epoch cause was mark)
  then show ?thesis using one by (simp add: tell_gap_def writes_cursor_def Let_def)
next
  case (Tell_Seeded epoch was sink)
  then show ?thesis using one by (cases was) (simp_all add: tell_gap_def writes_cursor_def)
next
  case (Sink_Failed epoch)
  then show ?thesis using one by (simp add: sink_unread_def one_store_def writes_cursor_def Let_def)
next
  case (Sink_Set epoch sink)
  obtain s' d' where r: "reseed_at sink now (pw_state P) (pw_disk P) = (s', d')" by fastforce
  show ?thesis
    using flush_writes [OF p _ r [unfolded reseed_at_def]] one r Sink_Set by (simp add: one_store_def writes_cursor_def)
qed (use one in \<open>simp_all add: writes_cursor_def\<close>)

lemma move_writes:
  assumes p: "p \<noteq> []" and one: "one_store p (pw_state P)" and e: "at_store p e"
  shows "one_store p (pw_state (walk_move E P e)) \<and>
    writes_cursor p (pw_disk P) (pw_state (walk_move E P e)) (pw_disk (walk_move E P e))"
proof -
  obtain now ev where ev: "e = (now, ev)" by fastforce
  show ?thesis
  proof (cases ev)
    case (Arm q)
    obtain s' d' where a: "arm_state E q (pw_state P) (pw_disk P) = (s', d')" by fastforce
    have "iw_path s' = Some q" using a by (auto simp: arm_state_def Let_def split: if_splits prod.splits)
    then show ?thesis
      using arm_state_fields(6) [OF a] a ev Arm e by (simp add: arm_def one_store_def writes_cursor_def)
  next
    case Hold
    obtain s' d' where h: "flush now ((pw_state P)\<lparr>iw_mode := Idle, iw_epoch := iw_epoch (pw_state P) + 1\<rparr>) (pw_disk P) = (s', d')" by fastforce
    show ?thesis
      using hold_at_writes [OF p one h] ev Hold h one by (simp add: hold_intake_def Let_def writes_cursor_def)
  next
    case (Run ans)
    show ?thesis
    proof (cases ans)
      case Go
      then show ?thesis using section_writes [OF p one] ev Run by simp
    qed (use ev Run one in \<open>auto simp: writes_cursor_def split: run_pc.split\<close>)
  qed (use ev one in \<open>auto simp: one_store_def writes_cursor_def poke_def socket_published_def yield_to_def note_ticks_def Let_def\<close>)
qed

lemma log_grows: "\<exists>os. pw_log (walk_move E P e) = pw_log P @ os"
proof -
  obtain now ev where ev: "e = (now, ev)" by fastforce
  have "\<exists>os. pw_log (run_section E now pc P) = pw_log P @ os" for pc
    by (cases pc) (auto simp: tell_gap_def Let_def split: prod.split option.split landing_point.split)
  moreover have "\<exists>os. pw_log (run_answer E now ans P) = pw_log P @ os" if "ans \<noteq> Go" for ans
    using that by (cases ans) (auto split: run_pc.split)
  ultimately show ?thesis
    using ev
    by (cases ev) (auto simp: arm_def hold_intake_def poke_def socket_published_def yield_to_def note_ticks_def Let_def
        split: prod.split, metis run_answer.simps(1))
qed

definition file_ok :: "walk_env \<Rightarrow> path \<Rightarrow> disk \<Rightarrow> 's process \<Rightarrow> bool" where
  "file_ok E p d P \<longleftrightarrow> audited E P \<and> one_store p (pw_state P) \<and>
     (content (pw_disk P) p = content d p \<or> (\<exists>c. stood_at E (pw_log P) c \<and> content (pw_disk P) p = Some (ascii c)))"

lemma file_ok_move:
  assumes p: "p \<noteq> []" and ok: "file_ok E p d P" and e: "at_store p e"
  shows "file_ok E p d (walk_move E P e)"
proof -
  let ?Q = "walk_move E P e"
  have au: "audited E ?Q" using audited_move [of E P e] ok by (simp add: file_ok_def)
  note w = move_writes [OF p _ e, of P E]
  have one: "one_store p (pw_state ?Q)" and wr: "writes_cursor p (pw_disk P) (pw_state ?Q) (pw_disk ?Q)"
    using w ok by (auto simp: file_ok_def)
  obtain os where os: "pw_log ?Q = pw_log P @ os" using log_grows by blast
  show ?thesis
    using au one wr ok stood_at_now [OF au] stood_at_grows [of E "pw_log P" _ os] os
    unfolding file_ok_def writes_cursor_def by metis
qed

interpretation walk_file: event_system "walk_move E" "\<lambda>P. p \<noteq> [] \<and> file_ok E p d P" "at_store p" for E p d
  by unfold_locales (use file_ok_move in blast)

section \<open>What the audit says of one move\<close>

lemma audit_on_None [simp]: "audit_on E None os = None"
  by (induction os) (simp_all add: audit_on_def)

lemma audit_split:
  assumes "audit E (xs @ ob # ys) = Some a"
  obtains a1 a2 where "audit E xs = Some a1" "audit_one E a1 ob = Some a2" "audit_on E (Some a2) ys = Some a"
proof -
  have run: "audit_on E (audit E xs) (ob # ys) = Some a" using assms by (simp add: audit_append)
  then obtain a1 where a1: "audit E xs = Some a1" by (cases "audit E xs") auto
  with run have "audit_on E (audit_one E a1 ob) ys = Some a" by simp
  then show ?thesis using that a1 by (cases "audit_one E a1 ob") auto
qed

lemma said_in_log:
  "audit E os = Some (c, st, said, owed) \<Longrightarrow> (i, page) \<in> set said \<Longrightarrow> Said i page Folded \<in> set os"
proof (induction os arbitrary: c st said owed rule: rev_induct)
  case (snoc ob os)
  obtain c1 st1 said1 owed1 where a: "audit E os = Some (c1, st1, said1, owed1)"
    "audit_one E (c1, st1, said1, owed1) ob = Some (c, st, said, owed)"
    using snoc.prems(1) by (cases "audit E os") (auto simp: audit_append)
  show ?case
    using snoc.IH [OF a(1)] a(2) snoc.prems(2) by (cases ob) (auto split: if_splits list.splits)
qed (simp add: audit_def)

lemma owed_is_told:
  "audit_on E (Some (c, st, said, owed)) os = Some (c', st', said', []) \<Longrightarrow> (i, was, to) \<in> set owed \<Longrightarrow> Gap i was to \<in> set os"
proof (induction os arbitrary: c st said owed)
  case (Cons ob os)
  obtain c1 st1 said1 owed1 where a: "audit_one E (c, st, said, owed) ob = Some (c1, st1, said1, owed1)"
    "audit_on E (Some (c1, st1, said1, owed1)) os = Some (c', st', said', [])"
    using Cons.prems(1) by (cases "audit_one E (c, st, said, owed) ob") auto
  show ?case
    using Cons.IH [OF a(2)] a(1) Cons.prems(2) by (cases ob) (auto split: if_splits list.splits)
qed simp

lemma owed_gap_told:
  assumes "audit_on E (Some (c, st, said, owed_gap n was to)) os = Some (c', st', said', [])"
  shows "list_all (\<lambda>i. Gap i was to \<in> set os) [0..<n]"
  using owed_is_told [OF assms] by (auto simp: owed_gap_def list_all_iff)

lemma audited_of_run:
  obtains said where "audit E (pw_log (walk_run E d evs))
    = Some (iw_cursor (pw_state (walk_run E d evs)), iw_path (pw_state (walk_run E d evs)), said,
        owed_at (we_matchers E) (pw_pc (walk_run E d evs)))"
  using audited_run [of E d evs] by (auto simp: audited_def)

lemma committed_was_said:
  assumes "audited E P" and "Committed page \<in> set (pw_log P)" and "i < we_matchers E"
  shows "Said i page Folded \<in> set (pw_log P)"
proof -
  obtain xs ys where log: "pw_log P = xs @ Committed page # ys" using assms(2) by (meson split_list)
  obtain a where "audit E (xs @ Committed page # ys) = Some a" using assms(1) log by (auto simp: audited_def)
  from audit_split [OF this] obtain c1 st1 said1 owed1 a2 where a: "audit E xs = Some (c1, st1, said1, owed1)"
    "audit_one E (c1, st1, said1, owed1) (Committed page) = Some a2" by (metis prod_cases4)
  have "(i, page) \<in> set said1" using a(2) assms(3) by (auto simp: list_all_iff split: if_splits)
  then show ?thesis using said_in_log [OF a(1)] log by simp
qed

section \<open>Properties\<close>

text \<open>
  C2. The log of every run of the walk passes the audit, and the audit ends at the cursor and the
  store the walk holds. So the cursor moves past a page only from the page's own start and only
  when every matcher has folded it. It moves to a mark or to the sink only from where it stood,
  and, where a cursor was set, every matcher is then told of the gap, in order, before any other
  such move; a walk with no cursor tells nobody. An arm keeps the cursor it has for the same store
  and otherwise takes the hash the store's cursor file names, or none.
\<close>

theorem cursor_never_skips:
  "case audit E (pw_log (walk_run E d evs)) of
     None \<Rightarrow> False
   | Some (c, st, said, owed) \<Rightarrow> c = iw_cursor (pw_state (walk_run E d evs)) \<and> st = iw_path (pw_state (walk_run E d evs))
       \<and> owed = owed_at (we_matchers E) (pw_pc (walk_run E d evs))"
proof -
  obtain said where "audit E (pw_log (walk_run E d evs))
    = Some (iw_cursor (pw_state (walk_run E d evs)), iw_path (pw_state (walk_run E d evs)), said,
        owed_at (we_matchers E) (pw_pc (walk_run E d evs)))"
    by (rule audited_of_run)
  then show ?thesis by simp
qed

text \<open>
  At any moment of any run, a page in the log of commits has been folded by every matcher
  before it; and once the task is parked, every landing on a mark and every re-seed of a cursor
  that was set has been told to every matcher after it.
\<close>

theorem moves_are_accounted:
  assumes log: "pw_log (walk_run E d evs) = xs @ ob # ys"
  shows "case ob of
      Committed page \<Rightarrow> list_all (\<lambda>i. Said i page Folded \<in> set xs) [0..<we_matchers E]
    | Landed was mark \<Rightarrow> (if pw_pc (walk_run E d evs) = Parked then list_all (\<lambda>i. Gap i was mark \<in> set ys) [0..<we_matchers E] else True)
    | Seeded (Some was) sink \<Rightarrow> (if pw_pc (walk_run E d evs) = Parked then list_all (\<lambda>i. Gap i was sink \<in> set ys) [0..<we_matchers E] else True)
    | _ \<Rightarrow> True"
proof -
  let ?n = "we_matchers E" and ?P = "walk_run E d evs"
  obtain said where au: "audit E (xs @ ob # ys) = Some (iw_cursor (pw_state ?P), iw_path (pw_state ?P), said, owed_at ?n (pw_pc ?P))"
    using audited_of_run [of E d evs] log by metis
  obtain c1 st1 said1 owed1 c2 st2 said2 owed2 where a: "audit E xs = Some (c1, st1, said1, owed1)"
    "audit_one E (c1, st1, said1, owed1) ob = Some (c2, st2, said2, owed2)"
    "audit_on E (Some (c2, st2, said2, owed2)) ys = Some (iw_cursor (pw_state ?P), iw_path (pw_state ?P), said, owed_at ?n (pw_pc ?P))"
    using audit_split [OF au] by (metis prod_cases4)
  have told: "list_all (\<lambda>i. Gap i was to \<in> set ys) [0..<?n]" if "owed2 = owed_gap ?n was to" "pw_pc ?P = Parked" for was to
    using owed_gap_told [of E c2 st2 said2 ?n was to ys] a(3) that by simp
  show ?thesis
  proof (cases ob)
    case (Committed page)
    then show ?thesis using a(2) said_in_log [OF a(1)] by (auto simp: list_all_iff split: if_splits)
  next
    case (Landed was mark)
    then show ?thesis using a(2) told by (auto split: if_splits)
  next
    case (Seeded was sink)
    then show ?thesis using a(2) told by (cases was) (auto split: if_splits)
  qed simp_all
qed

text \<open>
  C36. No run is ever stuck. From every point the task can reach, whatever the node and the
  matchers answer to what it asks, and whatever the clock says, it is parked again after at most
  16 times (n + 67) and 15 answers, for n matchers; and the counters of every such point are in
  their ranges.
\<close>

theorem walk_never_stuck:
  "counters_ok (we_matchers E) (pw_pc (walk_run E d evs)) \<and>
   (\<exists>k \<le> 16 * (we_matchers E + 67) + 15.
      pw_pc (((\<lambda>P. run_answer E (clock P) (reply E node P) P) ^^ k) (walk_run E d evs)) = Parked)"
proof -
  have ok: "pc_ok E (walk_run E d evs)" by (rule pc_ok_run)
  then have "counters_ok (we_matchers E) (pw_pc (walk_run E d evs))" by (simp add: pc_ok_def)
  moreover obtain k where "k \<le> rank (we_matchers E) (pw_pc (walk_run E d evs))"
    "pw_pc (((\<lambda>P. run_answer E (clock P) (reply E node P) P) ^^ k) (walk_run E d evs)) = Parked"
    using replies_park [OF ok] by blast
  ultimately show ?thesis using rank_le by (meson le_trans)
qed

text \<open>
  C37. A page the node does not serve is not asked for without end. Count, of the answers to the
  walk's asks under the last arm, those that fail the page (none in time, a socket lost, a refusal
  that does not refuse the cursor), beginning anew at an arm, at a page served, at a move of the
  cursor, at an answer another socket displaced and at a refusal of the cursor itself: the count
  never passes 24, three failed runs of eight attempts. And whenever a page is being asked for,
  fewer pages than the budget were walked in this run, fewer attempts made than are allowed, and,
  if the walk has not been armed or held since the run began, fewer runs than the limit have
  failed from this cursor.
\<close>

theorem asks_bounded:
  "unserved E (pw_log (walk_run E d evs)) \<le> max_failed_runs * walk_page_attempts \<and>
   (case pw_pc (walk_run E d evs) of
     Awaiting epoch pages start large attempt only \<Rightarrow>
       pages < max_walk_pages \<and> attempt < walk_page_attempts \<and>
       (if epoch = iw_epoch (pw_state (walk_run E d evs)) then iw_failed_runs (pw_state (walk_run E d evs)) < max_failed_runs
        else epoch < iw_epoch (pw_state (walk_run E d evs)))
   | _ \<Rightarrow> True)"
  using unserved_bound [of E d evs] pc_ok_run [of E d evs] by (auto simp: pc_ok_def walk_consts split: run_pc.split)

text \<open>
  Between two arms the walk lands on a mark at most twice, whatever fails and however often
  the budget is spent.
\<close>

theorem two_landings: "landings (pw_log (walk_run E d evs)) \<le> 2"
proof -
  have "landings_ok (walk_run E d evs)"
    unfolding walk_run_def
    by (rule walk_landings.events_keep) (simp_all add: landings_ok_def landings_def marks_left_def walk_new_def state_new_def list_all_iff)
  then show ?thesis by (simp add: landings_ok_def)
qed

text \<open>
  C20. A run ends. From any moment of any run, whatever arms, holds and pokes fall between, the
  task takes at most 16 times (n + 67) and 15 more answers, for n matchers, before it is parked.
\<close>

theorem run_ends:
  "(\<exists>k. pw_pc (foldl (walk_move E) (walk_run E d evs) (take k evs')) = Parked) \<or>
   answered E (walk_run E d evs) evs' \<le> 16 * (we_matchers E + 67) + 15"
proof (cases "\<exists>k. pw_pc (foldl (walk_move E) (walk_run E d evs) (take k evs')) = Parked")
  case False
  then have "answered E (walk_run E d evs) evs' \<le> rank (we_matchers E) (pw_pc (walk_run E d evs))"
    using answered_bound [OF pc_ok_run] by blast
  also have "\<dots> \<le> 16 * (we_matchers E + 67) + 15"
    by (rule rank_le) (use pc_ok_run [of E d evs] in \<open>simp add: pc_ok_def\<close>)
  finally show ?thesis by blast
qed blast

text \<open>
  C19. Once the walk is held and the wait for the fold in progress has returned, nothing moves until the next arm: over any
  events but arms no fold starts, the cursor stays, and the disk is not written.
\<close>

theorem held_walk_is_still:
  assumes held: "\<not> is_running P" and gate: "quiesce_returns P" and no_arm: "list_all not_arm evs"
  shows "shown (foldl (walk_move E) P evs) = shown P"
  by (rule walk_held.events_silent [OF _ no_arm]) (simp add: resting_def held gate)

text \<open>
  C23. The cursor file is never ahead of the walk: over any run armed with one store, the file
  holds what it held at first or a cursor the walk stood at. A process that dies at any moment
  replays from there.
\<close>

theorem file_never_ahead:
  assumes "p \<noteq> []" and "list_all (at_store p) evs"
  shows "content (pw_disk (walk_run E d evs)) p = content d p \<or>
    (\<exists>c. stood_at E (pw_log (walk_run E d evs)) c \<and> content (pw_disk (walk_run E d evs)) p = Some (ascii c))"
proof -
  have "p \<noteq> [] \<and> file_ok E p d (walk_run E d evs)"
    unfolding walk_run_def
    by (rule walk_file.events_keep [OF _ assms(2)])
      (use assms(1) in \<open>simp add: file_ok_def audited_def audit_def one_store_def walk_new_def state_new_def\<close>)
  then show ?thesis by (simp add: file_ok_def)
qed

text \<open>
  A hold writes the cursor: a process that starts on the disk a hold left, with no write
  failing, and arms the same store stands at the cursor the held walk stood at.
\<close>

theorem hold_then_restart:
  assumes running: "is_running P" and path: "iw_path (pw_state P) = Some p" "p \<noteq> []" and cursor: "iw_cursor (pw_state P) = Some c"
    and works: "faults (pw_disk P) = []"
    and parses: "from_utf8 (ascii c) = Some t" "we_parse_hash E (trim t) = Some c"
  shows "iw_cursor (pw_state (arm E later p (walk_new (pw_disk (hold_intake now P))))) = Some c"
proof -
  obtain d' where w: "atomic_write p (ascii c) (pw_disk P) = (d', Inr ())"
    using atomic_write_no_fault [OF path(2) works] by (metis prod.collapse old.unit.exhaust)
  have "iw_mode (pw_state P) \<noteq> Idle" using running by (simp add: is_running_def)
  then have d: "pw_disk (hold_intake now P) = d'"
    using path(1) cursor w by (simp add: hold_intake_def flush_def write_walk_cursor_def Let_def)
  have "content d' p = Some (ascii c)" using atomic_write_Inr [OF path(2) w] temp_path_neq [OF path(2)] by simp
  moreover have "faults d' = []" using w works by (auto simp: atomic_write_def parent_def file_name_def path(2) io_call_no_fault Let_def)
  ultimately have "read_walk_cursor E p d' = (d', Some c)"
    using parses by (simp add: read_walk_cursor_def read_file_def)
  then show ?thesis by (simp add: d arm_def arm_state_def walk_new_def state_new_def logged_def Let_def)
qed

section \<open>Witnesses\<close>

text \<open>A walk with one matcher: armed with no file, seeded at \<open>a\<close>, then one page to \<open>b\<close>.\<close>

definition demo_walk :: walk_env where
  "demo_walk = \<lparr>we_parse_hash = Some, we_zero_hash = ''0'', we_not_found = ''cannot find header 0'', we_matchers = 1\<rparr>"

definition demo_now :: moment where
  "demo_now = \<lparr>mo_unix_ms = 9000000, mo_mono_ms = 5, mo_instant = 5, mo_socket = Some 1\<rparr>"

definition demo_page :: "unit v2_response" where
  "demo_page = \<lparr>vr_removed = [], vr_added = [''b''],
     vr_accepted = [\<lparr>ce_hash = Some ''b'', ce_blue = Some 1, ce_daa = Some 1, ce_timestamp = Some 8999000,
       ce_accepted = [\<lparr>ot_payload = Some (ascii ''ciph_msg:1:comm:x''), ot_inputs = [], ot_outputs = [],
         ot_verbose = Some \<lparr>vd_transaction_id = Some ''t'', vd_block_time = None, vd_block_hash = None\<rparr>\<rparr>]\<rparr>]\<rparr>"

definition demo_steps :: "(moment \<times> unit walk_event) list" where
  "demo_steps = map (Pair demo_now) ([Arm [''c'']] @ replicate 5 (Run Go) @ [Run (Sink_Is (Inr ''a''))] @ replicate 3 (Run Go)
     @ [Poke] @ replicate 8 (Run Go) @ [Run (Page_Is (Inr demo_page))] @ replicate 3 (Run Go) @ [Run (Says Folded)] @ replicate 3 (Run Go))"

abbreviation "no_disk \<equiv> \<lparr>files = [], faults = []\<rparr> :: disk"

lemma demo_walk_log:
  "pw_log (walk_run demo_walk no_disk demo_steps)
     = [Armed 1 [''c''] (Inl NotFound) None, Seeded None ''a'', Asked ''a'', Served 1 ''a'', Said 0 (page_new ''a'' demo_page) Folded] @ Committed (page_new ''a'' demo_page) # []
   \<and> pw_pc (walk_run demo_walk no_disk demo_steps) = Parked
   \<and> iw_cursor (pw_state (walk_run demo_walk no_disk demo_steps)) = Some ''b''
   \<and> iw_path (pw_state (walk_run demo_walk no_disk demo_steps)) = Some [''c'']
   \<and> iw_mode (pw_state (walk_run demo_walk no_disk demo_steps)) = Running
   \<and> content (pw_disk (walk_run demo_walk no_disk demo_steps)) [''c''] = Some (ascii ''a'')
   \<and> faults (pw_disk (walk_run demo_walk no_disk demo_steps)) = []"
  by code_simp

lemma moves_are_accounted_witness:
  "Said 0 (page_new ''a'' demo_page) Folded \<in> set (pw_log (walk_run demo_walk no_disk demo_steps))"
  using moves_are_accounted [OF conjunct1 [OF demo_walk_log]] demo_walk_log by (simp add: demo_walk_def)

lemma held_walk_is_still_witness:
  "\<not> is_running (hold_intake demo_now (walk_run demo_walk no_disk demo_steps)) \<and>
   shown (foldl (walk_move demo_walk) (hold_intake demo_now (walk_run demo_walk no_disk demo_steps)) [(demo_now, Poke), (demo_now, Run Go)])
     = shown (hold_intake demo_now (walk_run demo_walk no_disk demo_steps))"
proof -
  let ?P = "walk_run demo_walk no_disk demo_steps"
  obtain s d where f: "flush demo_now ((pw_state ?P)\<lparr>iw_mode := Idle, iw_epoch := iw_epoch (pw_state ?P) + 1\<rparr>) (pw_disk ?P) = (s, d)" by fastforce
  have "pw_state (hold_intake demo_now ?P) = s" "pw_pc (hold_intake demo_now ?P) = Parked"
    using f demo_walk_log by (simp_all add: hold_intake_def Let_def)
  then have "\<not> is_running (hold_intake demo_now ?P)" "quiesce_returns (hold_intake demo_now ?P)"
    using flush_fields(1) [OF f] by (simp_all add: is_running_def quiesce_returns_def)
  then show ?thesis using held_walk_is_still [of "hold_intake demo_now ?P" "[(demo_now, Poke), (demo_now, Run Go)]" demo_walk] by simp
qed

lemma file_never_ahead_witness:
  "content no_disk [''c''] = None \<and> content (pw_disk (walk_run demo_walk no_disk demo_steps)) [''c''] = Some (ascii ''a'') \<and>
   (\<exists>c. stood_at demo_walk (pw_log (walk_run demo_walk no_disk demo_steps)) c \<and>
      content (pw_disk (walk_run demo_walk no_disk demo_steps)) [''c''] = Some (ascii c))"
proof -
  have "list_all (at_store [''c'']) demo_steps" by code_simp
  from file_never_ahead [OF _ this, of demo_walk no_disk] show ?thesis
    using demo_walk_log by (simp add: content_def)
qed

lemma hold_then_restart_witness:
  "iw_cursor (pw_state (arm demo_walk demo_now [''c''] (walk_new (pw_disk (hold_intake demo_now (walk_run demo_walk no_disk demo_steps)))))) = Some ''b''"
proof (rule hold_then_restart [where t = "''b''"])
  show "from_utf8 (ascii ''b'') = Some ''b''" by code_simp
  show "we_parse_hash demo_walk (trim ''b'') = Some ''b''" by code_simp
qed (use demo_walk_log in \<open>simp_all add: is_running_def\<close>)

end
