(* ===== verification/Walk_Matcher.thy ===== *)
theory Walk_Matcher
  imports Walk_Props
begin

text \<open>
  The transport matcher (\<open>rust/chain/src/walk.rs\<close>, \<open>TransportMatcher\<close> and \<open>scan_page\<close>): the scan of
  a page for messages, the hand-over to the observers, the sink and the acceptance tracker, in the
  order the code has them, and what that means for the pages the walk commits.

  The sink of the message hub is an argument: it answers a list of matches with a verdict. What
  the matcher sends out is the list of its outputs, in order, each hand-over with the answer it
  had. The session is the walk and its first matcher in one machine: any move of the walk may fall
  while the matcher folds.
\<close>

section \<open>The scan of a page\<close>

definition entry_events :: "'s script_address \<Rightarrow> 's chain_entry \<Rightarrow> transport_event list \<times> string list" where
  "entry_events address_of cb =
     foldl (\<lambda>(matches, txids) tx.
       case scan_accepted address_of tx of
         None \<Rightarrow> (matches, txids)
       | Some event \<Rightarrow>
           (matches @ [event],
            case Option.bind (ot_verbose tx) vd_transaction_id of Some txid \<Rightarrow> txids @ [txid] | None \<Rightarrow> txids))
       ([], []) (ce_accepted cb)"

definition entry_acceptance :: "string \<Rightarrow> 's chain_entry \<Rightarrow> string list \<Rightarrow> walk_acceptance list" where
  "entry_acceptance block cb txids =
     (if txids = [] then []
      else (case (ce_blue cb, ce_daa cb, ce_timestamp cb) of
              (Some blue, Some daa, Some ms) \<Rightarrow>
                [\<lparr>wa_block = block, wa_blue = blue, wa_daa = daa, wa_ms = ms, wa_txids = txids\<rparr>]
            | _ \<Rightarrow> []))"

definition scan_page :: "'s script_address \<Rightarrow> 's chain_page \<Rightarrow> transport_event list \<times> walk_acceptance list" where
  "scan_page address_of page =
     foldl (\<lambda>(matches, accepted) (block, cb).
       case entry_events address_of cb of
         (found, txids) \<Rightarrow> (matches @ found, accepted @ entry_acceptance block cb txids))
       ([], []) (page_blocks page)"

section \<open>The matcher\<close>

datatype matcher_output =
    Observed transport_event
  | Handed "transport_event list" verdict
  | Fed walk_batch
  | Told string string

record matcher =
  mt_sink :: "(transport_event list \<Rightarrow> verdict) option"
  mt_tracker :: bool

definition matcher_new :: "bool \<Rightarrow> matcher" where
  "matcher_new tracker = \<lparr>mt_sink = None, mt_tracker = tracker\<rparr>"

definition set_sink :: "(transport_event list \<Rightarrow> verdict) \<Rightarrow> matcher \<Rightarrow> matcher" where
  "set_sink sink m = m\<lparr>mt_sink := Some sink\<rparr>"

definition feed_tracker :: "string list \<Rightarrow> walk_acceptance list \<Rightarrow> matcher \<Rightarrow> matcher_output list" where
  "feed_tracker removed accepted m =
     (if removed = [] \<and> accepted = [] then []
      else if mt_tracker m then [Fed \<lparr>wb_removed = removed, wb_accepted = accepted\<rparr>] else [])"

definition on_gap :: "string \<Rightarrow> string \<Rightarrow> matcher \<Rightarrow> matcher_output list" where
  "on_gap from to m = (case mt_sink m of Some _ \<Rightarrow> [Told from to] | None \<Rightarrow> [])"

definition fold_page :: "'s script_address \<Rightarrow> 's chain_page \<Rightarrow> matcher \<Rightarrow> matcher_output list \<times> verdict" where
  "fold_page address_of page m =
     (case scan_page address_of page of
        (matches, accepted) \<Rightarrow>
          (let (out, v) =
             (if matches = [] then ([], Folded)
              else (case mt_sink m of
                      Some sink \<Rightarrow> (map Observed matches @ [Handed matches (sink matches)], sink matches)
                    | None \<Rightarrow> (map Observed matches, Held)))
           in (out @ feed_tracker (page_removed page) accepted m, v)))"

section \<open>The walk with its matcher\<close>

text \<open>
  The matcher folds the page the walk is folding, as the first of its matchers, and its verdict
  reaches the walk when the fold has ended; every gap the walk tells its first matcher is told by
  that matcher. No other verdict is ever the first matcher's.
\<close>

record 's session =
  ss_walk :: "'s process"
  ss_matcher :: matcher
  ss_pending :: "verdict option"
  ss_out :: "matcher_output list"

datatype 's session_event =
    Walk_Does moment "'s walk_event"
  | Sink_Armed "transport_event list \<Rightarrow> verdict"
  | Fold_Starts
  | Fold_Ends moment

fun at_first :: "'s run_pc \<Rightarrow> 's chain_page option" where
  "at_first (Folding _ _ page i) = (if i = 0 then Some page else None)"
| "at_first _ = None"

fun answers_first :: "'s run_pc \<Rightarrow> 's walk_event \<Rightarrow> bool" where
  "answers_first pc (Run (Says _)) = (at_first pc \<noteq> None)"
| "answers_first pc _ = False"

fun told_first :: "matcher \<Rightarrow> 's observation \<Rightarrow> matcher_output list" where
  "told_first m (Gap i was to) = (if i = 0 then on_gap was to m else [])"
| "told_first m _ = []"

fun session_move :: "walk_env \<Rightarrow> 's script_address \<Rightarrow> 's session \<Rightarrow> 's session_event \<Rightarrow> 's session" where
  "session_move E address_of S (Walk_Does now ev) =
     (let W = ss_walk S; W' = walk_move E W (now, ev) in
      if answers_first (pw_pc W) ev then S
      else S\<lparr>ss_walk := W',
             ss_out := ss_out S @ concat (map (told_first (ss_matcher S)) (drop (length (pw_log W)) (pw_log W')))\<rparr>)"
| "session_move E address_of S (Sink_Armed sink) = S\<lparr>ss_matcher := set_sink sink (ss_matcher S)\<rparr>"
| "session_move E address_of S Fold_Starts =
     (case (at_first (pw_pc (ss_walk S)), ss_pending S) of
        (Some page, None) \<Rightarrow>
          if we_matchers E = 0 then S
          else (case fold_page address_of page (ss_matcher S) of
                  (out, v) \<Rightarrow> S\<lparr>ss_pending := Some v, ss_out := ss_out S @ out\<rparr>)
      | _ \<Rightarrow> S)"
| "session_move E address_of S (Fold_Ends now) =
     (case ss_pending S of
        None \<Rightarrow> S
      | Some v \<Rightarrow> S\<lparr>ss_pending := None, ss_walk := run_answer E now (Says v) (ss_walk S)\<rparr>)"

definition session_run :: "walk_env \<Rightarrow> 's script_address \<Rightarrow> disk \<Rightarrow> bool \<Rightarrow> 's session_event list \<Rightarrow> 's session" where
  "session_run E address_of d tracker evs =
     foldl (session_move E address_of)
       \<lparr>ss_walk = walk_new d, ss_matcher = matcher_new tracker, ss_pending = None, ss_out = []\<rparr> evs"

section \<open>The scan as a comprehension\<close>

lemma entry_events_eq:
  "entry_events address_of cb =
     (List.map_filter (scan_accepted address_of) (ce_accepted cb),
      List.map_filter te_txid (List.map_filter (scan_accepted address_of) (ce_accepted cb)))"
proof -
  have id: "te_txid event = Option.bind (ot_verbose tx) vd_transaction_id" if "scan_accepted address_of tx = Some event" for tx event
    using that by (auto simp: scan_accepted_def Let_def split: option.splits)
  have "foldl (\<lambda>(matches, txids) tx.
       case scan_accepted address_of tx of
         None \<Rightarrow> (matches, txids)
       | Some event \<Rightarrow>
           (matches @ [event],
            case Option.bind (ot_verbose tx) vd_transaction_id of Some txid \<Rightarrow> txids @ [txid] | None \<Rightarrow> txids))
       (ms, ts) txs =
     (ms @ List.map_filter (scan_accepted address_of) txs, ts @ List.map_filter te_txid (List.map_filter (scan_accepted address_of) txs))"
    for ms ts txs
    by (induction txs arbitrary: ms ts) (auto simp: List.map_filter_def id split: option.split)
  then show ?thesis by (simp add: entry_events_def)
qed

lemma scan_page_eq:
  "scan_page address_of page =
     (concat (map (\<lambda>(_, cb). fst (entry_events address_of cb)) (page_blocks page)),
      concat (map (\<lambda>(block, cb). entry_acceptance block cb (snd (entry_events address_of cb))) (page_blocks page)))"
proof -
  have "foldl (\<lambda>(matches, accepted) (block, cb).
       case entry_events address_of cb of
         (found, txids) \<Rightarrow> (matches @ found, accepted @ entry_acceptance block cb txids)) (ms, ac) bs =
     (ms @ concat (map (\<lambda>(_, cb). fst (entry_events address_of cb)) bs),
      ac @ concat (map (\<lambda>(block, cb). entry_acceptance block cb (snd (entry_events address_of cb))) bs))" for ms ac bs
    by (induction bs arbitrary: ms ac) (auto split: prod.split)
  then show ?thesis by (simp add: scan_page_def)
qed

section \<open>What the session keeps\<close>

definition handed :: "'s script_address \<Rightarrow> 's session \<Rightarrow> 's chain_page \<Rightarrow> bool" where
  "handed address_of S page \<longleftrightarrow>
     fst (scan_page address_of page) = [] \<or> Handed (fst (scan_page address_of page)) Folded \<in> set (ss_out S)"

definition session_ok :: "walk_env \<Rightarrow> 's script_address \<Rightarrow> 's session \<Rightarrow> bool" where
  "session_ok E address_of S \<longleftrightarrow> audited E (ss_walk S) \<and>
     (\<forall>page. Said 0 page Folded \<in> set (pw_log (ss_walk S)) \<longrightarrow> handed address_of S page) \<and>
     (\<forall>v. ss_pending S = Some v \<longrightarrow>
        0 < we_matchers E \<and>
        (\<exists>page. at_first (pw_pc (ss_walk S)) = Some page \<and> (v = Folded \<longrightarrow> handed address_of S page)))"

lemma at_first_Some: "at_first pc = Some page \<longleftrightarrow> (\<exists>epoch pages. pc = Folding epoch pages page 0)"
  by (cases pc) auto

text \<open>Only the matcher's own verdict is written down as the first matcher's.\<close>

lemma first_verdicts:
  assumes "\<not> answers_first (pw_pc W) ev"
  shows "Said 0 page v \<in> set (pw_log (walk_move E W (now, ev))) \<Longrightarrow> Said 0 page v \<in> set (pw_log W)"
proof (cases ev)
  case (Run ans)
  have sec: "Said 0 page v \<in> set (pw_log (run_section E now pc W)) \<Longrightarrow> Said 0 page v \<in> set (pw_log W)" for pc
    by (cases pc) (auto simp: tell_gap_def Let_def split: prod.splits option.splits landing_point.splits if_splits)
  assume "Said 0 page v \<in> set (pw_log (walk_move E W (now, ev)))"
  then show ?thesis
    using Run assms sec [of "pw_pc W"]
    by (cases ans) (auto split: run_pc.splits if_splits sum.splits)
qed (auto simp: arm_def hold_intake_def poke_def socket_published_def yield_to_def note_ticks_def Let_def
    split: prod.splits if_splits)

lemma fold_stays:
  assumes "\<not> answers_first (pw_pc W) ev" and "at_first (pw_pc W) = Some page" and "0 < we_matchers E"
  shows "pw_pc (walk_move E W (now, ev)) = pw_pc W"
proof (cases "\<exists>ans. ev = Run ans")
  case True
  then obtain ans where ev: "ev = Run ans" by blast
  have "\<not> expects (we_matchers E) (pw_pc W) ans"
    using assms ev by (cases ans) (auto simp: at_first_Some)
  then show ?thesis using unexpected_stays [of E W ans now] assms(2) ev by (auto simp: at_first_Some)
next
  case False
  then show ?thesis using other_moves_keep_pc by blast
qed

lemma fold_page_handed:
  assumes "fold_page address_of page m = (out, Folded)"
  shows "fst (scan_page address_of page) = [] \<or> Handed (fst (scan_page address_of page)) Folded \<in> set out"
  using assms by (auto simp: fold_page_def split_beta Let_def split: if_splits option.splits)

lemma session_ok_move:
  assumes ok: "session_ok E address_of S"
  shows "session_ok E address_of (session_move E address_of S e)"
proof (cases e)
  case (Walk_Does now ev)
  show ?thesis
  proof (cases "answers_first (pw_pc (ss_walk S)) ev")
    case False
    show ?thesis
      using ok Walk_Does False audited_move [of E "ss_walk S" "(now, ev)"] first_verdicts [OF False, of _ _ E now]
        fold_stays [OF False, of _ E now]
      unfolding session_ok_def handed_def by (auto simp: Let_def)
  qed (use ok Walk_Does in simp)
next
  case (Sink_Armed sink)
  then show ?thesis using ok by (simp add: session_ok_def handed_def)
next
  case Fold_Starts
  show ?thesis
  proof (cases "at_first (pw_pc (ss_walk S)) = None \<or> ss_pending S \<noteq> None \<or> we_matchers E = 0")
    case True
    then show ?thesis using ok Fold_Starts by (auto split: option.split)
  next
    case False
    then obtain page where page: "at_first (pw_pc (ss_walk S)) = Some page" "ss_pending S = None" "0 < we_matchers E" by auto
    obtain out v where f: "fold_page address_of page (ss_matcher S) = (out, v)" by fastforce
    have "v = Folded \<Longrightarrow> fst (scan_page address_of page) = [] \<or> Handed (fst (scan_page address_of page)) Folded \<in> set out"
      using fold_page_handed f by blast
    then show ?thesis using ok Fold_Starts page f by (auto simp: session_ok_def handed_def)
  qed
next
  case (Fold_Ends now)
  show ?thesis
  proof (cases "ss_pending S")
    case None
    then show ?thesis using ok Fold_Ends by simp
  next
    case (Some v)
    then obtain epoch pages page where pc: "pw_pc (ss_walk S) = Folding epoch pages page 0" "0 < we_matchers E"
      and folded: "v = Folded \<longrightarrow> handed address_of S page"
      using ok by (auto simp: session_ok_def at_first_Some)
    have "pw_log (run_answer E now (Says v) (ss_walk S)) = pw_log (ss_walk S) @ [Said 0 page v]"
      using pc by simp
    moreover have "audited E (run_answer E now (Says v) (ss_walk S))"
      by (rule audited_answer) (use ok in \<open>simp add: session_ok_def\<close>)
    ultimately show ?thesis
      using ok Fold_Ends Some folded by (auto simp: session_ok_def handed_def)
  qed
qed

interpretation walk_session: event_system "session_move E address_of" "session_ok E address_of" "\<lambda>_. True" for E address_of
  by unfold_locales (rule session_ok_move)

lemma session_ok_run: "session_ok E address_of (session_run E address_of d tracker evs)"
  unfolding session_run_def
  by (rule walk_session.events_keep) (auto simp: session_ok_def audited_def audit_def walk_new_def state_new_def list_all_iff)

section \<open>Properties\<close>

text \<open>
  The scan of a page is exact. Its messages are those of the accepted transactions of its
  chain blocks, in chain order and then in the order accepted; and a transaction is handed to the
  tracker under a block exactly when that block accepted a message of that id and came with its
  blue score, its DAA score and its time.
\<close>

theorem scan_page_exact:
  "fst (scan_page address_of page)
     = concat (map (\<lambda>(_, cb). List.map_filter (scan_accepted address_of) (ce_accepted cb)) (page_blocks page)) \<and>
   (((\<exists>wa \<in> set (snd (scan_page address_of page)). wa_block wa = block \<and> txid \<in> set (wa_txids wa)) \<longleftrightarrow>
     (\<exists>cb tx event. (block, cb) \<in> set (page_blocks page) \<and> tx \<in> set (ce_accepted cb) \<and>
        scan_accepted address_of tx = Some event \<and> te_txid event = Some txid \<and>
        ce_blue cb \<noteq> None \<and> ce_daa cb \<noteq> None \<and> ce_timestamp cb \<noteq> None)))"
proof -
  have mf: "y \<in> set (List.map_filter f xs) \<longleftrightarrow> (\<exists>x \<in> set xs. f x = Some y)" for y :: 'y and f :: "'x \<Rightarrow> 'y option" and xs
    by (induction xs) (auto simp: List.map_filter_def)
  have ids: "txid \<in> set (snd (entry_events address_of cb)) \<longleftrightarrow>
      (\<exists>tx event. tx \<in> set (ce_accepted cb) \<and> scan_accepted address_of tx = Some event \<and> te_txid event = Some txid)" for cb
    unfolding entry_events_eq by (auto simp: List.map_filter_def) force+
  have acc: "(\<exists>wa \<in> set (entry_acceptance b cb ts). wa_block wa = block \<and> txid \<in> set (wa_txids wa)) \<longleftrightarrow>
      b = block \<and> txid \<in> set ts \<and> ce_blue cb \<noteq> None \<and> ce_daa cb \<noteq> None \<and> ce_timestamp cb \<noteq> None" for b cb ts
    by (cases "ce_blue cb"; cases "ce_daa cb"; cases "ce_timestamp cb") (auto simp: entry_acceptance_def)
  have "(\<exists>wa \<in> set (snd (scan_page address_of page)). wa_block wa = block \<and> txid \<in> set (wa_txids wa)) \<longleftrightarrow>
      (\<exists>(b, cb) \<in> set (page_blocks page). \<exists>wa \<in> set (entry_acceptance b cb (snd (entry_events address_of cb))).
         wa_block wa = block \<and> txid \<in> set (wa_txids wa))"
    unfolding scan_page_eq by auto
  also have "\<dots> \<longleftrightarrow> (\<exists>cb. (block, cb) \<in> set (page_blocks page) \<and> txid \<in> set (snd (entry_events address_of cb)) \<and>
      ce_blue cb \<noteq> None \<and> ce_daa cb \<noteq> None \<and> ce_timestamp cb \<noteq> None)"
    unfolding acc by auto
  finally show ?thesis unfolding ids by (auto simp: scan_page_eq entry_events_eq)
qed

text \<open>
  C11. No message is passed unfolded. In every run of the walk with the transport matcher as its
  first, whatever sinks are armed and whatever falls while the matcher folds: when a page is
  committed, every message of the page has been handed to a sink, whole and in order, and that
  sink answered that it folded them. So a page with messages and no sink, or one its sink held, is
  never committed.
\<close>

theorem no_message_passes_unfolded:
  assumes "0 < we_matchers E"
    and "Committed page \<in> set (pw_log (ss_walk (session_run E address_of d tracker evs)))"
    and "fst (scan_page address_of page) \<noteq> []"
  shows "Handed (fst (scan_page address_of page)) Folded \<in> set (ss_out (session_run E address_of d tracker evs))"
proof -
  have ok: "session_ok E address_of (session_run E address_of d tracker evs)" by (rule session_ok_run)
  then have "Said 0 page Folded \<in> set (pw_log (ss_walk (session_run E address_of d tracker evs)))"
    using committed_was_said [OF _ assms(2,1)] by (simp add: session_ok_def)
  then show ?thesis using ok assms(3) by (auto simp: session_ok_def handed_def)
qed

text \<open>The run of \<open>demo_steps\<close> as a session: a sink that folds, and a hold while the matcher folds.\<close>

definition demo_session :: "unit session" where
  "demo_session = session_run demo_walk (\<lambda>_. None) no_disk True
     (Sink_Armed (\<lambda>_. Folded) # map (\<lambda>(now, ev). Walk_Does now ev) (take 23 demo_steps)
       @ [Fold_Starts, Walk_Does demo_now Hold, Fold_Ends demo_now] @ map (\<lambda>(now, ev). Walk_Does now ev) (drop 24 demo_steps))"

lemma no_message_passes_unfolded_witness:
  "Committed (page_new ''a'' demo_page) \<in> set (pw_log (ss_walk demo_session)) \<and>
   Handed (fst (scan_page (\<lambda>_. None) (page_new ''a'' demo_page))) Folded \<in> set (ss_out demo_session)"
proof -
  have "last (pw_log (ss_walk demo_session)) = Committed (page_new ''a'' demo_page) \<and> pw_log (ss_walk demo_session) \<noteq> []" by code_simp
  then have here: "Committed (page_new ''a'' demo_page) \<in> set (pw_log (ss_walk demo_session))" by (metis last_in_set)
  have some: "fst (scan_page (\<lambda>_. None) (page_new ''a'' demo_page)) \<noteq> []" by code_simp
  have one: "0 < we_matchers demo_walk" by (simp add: demo_walk_def)
  show ?thesis
    using no_message_passes_unfolded [OF one here [unfolded demo_session_def] some] here by (simp add: demo_session_def)
qed

end
