(* ===== verification/In_Flight.thy ===== *)
theory In_Flight
  imports Sends_Store
begin

text \<open>
  Our own sends on one lane (\<open>rust/chain/src/wallet_sync.rs\<close>, \<open>InFlightSends\<close>): the sends in
  flight, the log of submits that a read of the node withholds, the legs of unknown fate that
  anchor a retry, the sends an earlier run carried in, the coins our accepted sends spent, and
  what of all this the store keeps.

  Transaction ids and addresses are any types; an id is ordered, as the code's is. The records of
  the wallet library are read through the few fields the code uses; the library's tag of an
  accepted record is a field of it. The log of legs, a \<open>BTreeMap\<close>, is a list in the order of its
  keys. A time of the clock is an argument of the operation that reads it.
\<close>

section \<open>Constants\<close>

definition landed_notice_for_ms :: nat where "landed_notice_for_ms = 60 * 60 * 1000"
definition landed_kept :: nat where "landed_kept = 64"
definition read_settled_kept :: nat where "read_settled_kept = 1024"
definition earlier_anchor_for_ms :: nat where "earlier_anchor_for_ms = 24 * 60 * 60 * 1000"
definition spent_kept :: nat where "spent_kept = 4096"
definition spent_for_ms :: nat where "spent_for_ms = 60 * 60 * 1000"
definition carried_for_ms :: nat where "carried_for_ms = 24 * 60 * 60 * 1000"

definition carried_for_daa :: "nat \<Rightarrow> nat" where
  "carried_for_daa target_time_per_block = carried_for_ms div max target_time_per_block 1"

section \<open>Legs and sends\<close>

record 'h in_flight_send =
  is_returning :: "('h outpoint \<times> nat) list"
  is_spends :: "'h outpoint list"

record ('h, 'a) leg_meta =
  lm_paid_to :: string
  lm_direct :: "('h, 'a) utxo_entry list"
  lm_earlier :: "('h, 'a) utxo_entry list"
  lm_outputs :: "(nat \<times> nat \<times> 'a option) list"
  lm_since_unix_ms :: nat
  lm_since_daa :: nat

definition leg_inputs :: "('h, 'a) leg_meta \<Rightarrow> ('h, 'a) utxo_entry list" where
  "leg_inputs meta = lm_direct meta @ lm_earlier meta"

definition leg_record_of :: "('h, 'a) wallet_text \<Rightarrow> ('h, 'a) leg_meta \<Rightarrow> 'h \<Rightarrow> leg_state \<Rightarrow> leg_record" where
  "leg_record_of W meta txid st =
     \<lparr>lr_txid = show_hash W txid, lr_state = st, lr_paid_to = lm_paid_to meta,
      lr_direct = map (coin_record_of W) (lm_direct meta), lr_earlier = map (coin_record_of W) (lm_earlier meta),
      lr_outputs = map (\<lambda>(index, value, address). \<lparr>or_index = index, or_value = value, or_address = map_option (show_address W) address\<rparr>)
        (lm_outputs meta),
      lr_since_unix_ms = lm_since_unix_ms meta, lr_since_daa = lm_since_daa meta\<rparr>"

text \<open>\<open>collect::<Option<Vec<_>>>\<close>.\<close>

fun all_some :: "'x option list \<Rightarrow> 'x list option" where
  "all_some [] = Some []"
| "all_some (None # xs) = None"
| "all_some (Some x # xs) = map_option ((#) x) (all_some xs)"

definition output_of_record :: "('h, 'a) wallet_text \<Rightarrow> output_record \<Rightarrow> (nat \<times> nat \<times> 'a option) option" where
  "output_of_record W r =
     (case or_address r of
        None \<Rightarrow> Some (or_index r, or_value r, None)
      | Some text \<Rightarrow>
          (case parse_address W text of None \<Rightarrow> None | Some a \<Rightarrow> Some (or_index r, or_value r, Some a)))"

definition leg_of_record :: "('h, 'a) wallet_text \<Rightarrow> leg_record \<Rightarrow> ('h, 'a) leg_meta option" where
  "leg_of_record W r =
     (case all_some (map (output_of_record W) (lr_outputs r)) of None \<Rightarrow> None | Some outputs \<Rightarrow>
     (case all_some (map (coin_of_record W) (lr_direct r)) of None \<Rightarrow> None | Some direct \<Rightarrow>
     (case all_some (map (coin_of_record W) (lr_earlier r)) of None \<Rightarrow> None | Some earlier \<Rightarrow>
      Some \<lparr>lm_paid_to = lr_paid_to r, lm_direct = direct, lm_earlier = earlier, lm_outputs = outputs,
            lm_since_unix_ms = lr_since_unix_ms r, lm_since_daa = lr_since_daa r\<rparr>)))"

record ('h, 'a) unknown_leg =
  ul_txid :: 'h
  ul_paid_to :: string
  ul_held :: "('h, 'a) utxo_entry list"
  ul_earlier :: "('h, 'a) utxo_entry list"
  ul_since_unix_ms :: nat
  ul_seq :: nat

definition unknown_coins :: "('h, 'a) unknown_leg \<Rightarrow> ('h, 'a) utxo_entry list" where
  "unknown_coins leg = ul_held leg @ ul_earlier leg"

definition leg_spends :: "('h, 'a) unknown_leg \<Rightarrow> 'h outpoint \<Rightarrow> bool" where
  "leg_spends leg coin \<longleftrightarrow> coin \<in> set (map entry_id (unknown_coins leg))"

record 'h logged_leg =
  lo_txid :: 'h
  lo_inputs :: "'h outpoint list"
  lo_returned :: bool

record 'h spent_coin =
  sb_coin :: "'h outpoint"
  sb_seen_at_daa :: nat
  sb_seen_at_ms :: nat

text \<open>What the code reads of the wallet library's record of an outgoing transaction.\<close>

record 'h outgoing =
  og_id :: 'h
  og_accepted :: bool
  og_entries :: "'h outpoint list"

record sends_file_store =
  fstore_network :: string
  fstore_sends :: durable_record
  fstore_spent :: durable_record

record ('h, 'a) in_flight =
  fl_sends :: "('h, 'h in_flight_send) hmap"
  fl_taken :: "('h, 'h outgoing) hmap"
  fl_accepted :: "'h hset"
  fl_cancelled :: "('h, ('h, 'a) utxo_entry list) hmap"
  fl_legs :: "(nat \<times> 'h logged_leg) list"
  fl_next_leg :: nat
  fl_readers :: "nat list"
  fl_unknown :: "('h, 'a) unknown_leg list"
  fl_next_unknown :: nat
  fl_read_settled :: "'h hset"
  fl_read_settled_order :: "'h list"
  fl_landed :: "(string \<times> nat) list"
  fl_retired :: "('h \<times> string \<times> nat) list"
  fl_meta :: "('h, ('h, 'a) leg_meta) hmap"
  fl_carried :: "('h, ('h, 'a) leg_meta) hmap"
  fl_spent_by_us :: "'h spent_coin list"
  fl_ours :: "'a hset"
  fl_carried_for_daa :: nat
  fl_store :: "sends_file_store option"

definition no_sends_yet :: "('h, 'a) in_flight" where
  "no_sends_yet = \<lparr>fl_sends = [], fl_taken = [], fl_accepted = [], fl_cancelled = [], fl_legs = [], fl_next_leg = 0,
     fl_readers = [], fl_unknown = [], fl_next_unknown = 0, fl_read_settled = [], fl_read_settled_order = [],
     fl_landed = [], fl_retired = [], fl_meta = [], fl_carried = [], fl_spent_by_us = [], fl_ours = [],
     fl_carried_for_daa = 0, fl_store = None\<rparr>"

section \<open>The evidence of a read\<close>

record ('h, 'a) read_evidence =
  re_asked :: "'a hset"
  re_unspent :: "'h outpoint hset"
  re_score_read :: nat
  re_indexed_after :: nat

text \<open>The score a batch output of a chain carries, \<open>UNACCEPTED_DAA_SCORE\<close>, is the largest one.\<close>

definition evidence_spent :: "('h, 'a) read_evidence \<Rightarrow> ('h, 'a) utxo_entry \<Rightarrow> 'h hset \<Rightarrow> 'h hset \<Rightarrow> bool" where
  "evidence_spent ev coin may_land proven =
     (let indexed = (if ue_block_daa_score coin = u64_max then ue_txid coin \<in> set proven
                     else saturating_add (ue_block_daa_score coin) (re_indexed_after ev) \<le> re_score_read ev);
          settled_creator = (ue_txid coin \<in> set proven \<or> ue_txid coin \<notin> set may_land)
      in (case ue_address coin of None \<Rightarrow> False | Some a \<Rightarrow> a \<in> set (re_asked ev))
         \<and> entry_id coin \<notin> set (re_unspent ev) \<and> settled_creator \<and> indexed)"

section \<open>The log of submits and the reads\<close>

definition prune :: "('h, 'a) in_flight \<Rightarrow> ('h, 'a) in_flight" where
  "prune s =
     s\<lparr>fl_legs := filter (\<lambda>(seq, leg). \<not> lo_returned leg \<or> (fl_readers s \<noteq> [] \<and> Min (set (fl_readers s)) \<le> seq)) (fl_legs s)\<rparr>"

definition submitting :: "'h \<Rightarrow> 'h outpoint list \<Rightarrow> ('h, 'a) in_flight \<Rightarrow> ('h, 'a) in_flight" where
  "submitting txid inputs s =
     s\<lparr>fl_legs := fl_legs s @ [(fl_next_leg s, \<lparr>lo_txid = txid, lo_inputs = inputs, lo_returned = False\<rparr>)],
       fl_next_leg := fl_next_leg s + 1\<rparr>"

definition begin_read :: "('h, 'a) in_flight \<Rightarrow> ('h, 'a) in_flight \<times> nat" where
  "begin_read s =
     (let floor = (case find (\<lambda>(_, leg). \<not> lo_returned leg) (fl_legs s) of None \<Rightarrow> fl_next_leg s | Some (seq, _) \<Rightarrow> seq)
      in (s\<lparr>fl_readers := fl_readers s @ [floor]\<rparr>, floor))"

definition logged_from :: "nat \<Rightarrow> ('h, 'a) in_flight \<Rightarrow> 'h outpoint list" where
  "logged_from floor s = concat (map (lo_inputs \<circ> snd) (filter (\<lambda>(seq, _). floor \<le> seq) (fl_legs s)))"

text \<open>\<open>Vec::swap_remove\<close> at the first position that holds the value.\<close>

definition swap_remove :: "'x \<Rightarrow> 'x list \<Rightarrow> 'x list" where
  "swap_remove x xs =
     (let i = length (takeWhile (\<lambda>y. y \<noteq> x) xs) in
      if i < length xs then butlast (xs[i := last xs]) else xs)"

definition end_read :: "nat \<Rightarrow> ('h, 'a) in_flight \<Rightarrow> ('h, 'a) in_flight" where
  "end_read floor s = prune (s\<lparr>fl_readers := swap_remove floor (fl_readers s)\<rparr>)"

section \<open>Legs of unknown fate\<close>

definition fate_unknown :: "('h, 'a) unknown_leg \<Rightarrow> ('h, 'a) in_flight \<Rightarrow> ('h, 'a) in_flight" where
  "fate_unknown leg s =
     s\<lparr>fl_next_unknown := fl_next_unknown s + 1,
       fl_unknown := filter (\<lambda>known. ul_txid known \<noteq> ul_txid leg) (fl_unknown s) @ [leg\<lparr>ul_seq := fl_next_unknown s\<rparr>]\<rparr>"

definition mark_returned :: "nat \<Rightarrow> bool \<Rightarrow> (nat \<times> 'h logged_leg) list \<Rightarrow> (nat \<times> 'h logged_leg) list" where
  "mark_returned seq may_have_left legs =
     (if may_have_left then map (\<lambda>(k, leg). if k = seq then (k, leg\<lparr>lo_returned := True\<rparr>) else (k, leg)) legs
      else filter (\<lambda>(k, _). k \<noteq> seq) legs)"

definition submit_returned :: "nat \<Rightarrow> 'h \<Rightarrow> bool \<Rightarrow> ('h, 'a) in_flight \<Rightarrow> ('h, 'a) in_flight" where
  "submit_returned now txid may_have_left s =
     (let s = (case find (\<lambda>(_, leg). lo_txid leg = txid \<and> \<not> lo_returned leg) (rev (fl_legs s)) of
                 None \<Rightarrow> s
               | Some (seq, _) \<Rightarrow> s\<lparr>fl_legs := mark_returned seq may_have_left (fl_legs s)\<rparr>);
          s = (if may_have_left then s\<lparr>fl_carried := hdel txid (fl_carried s)\<rparr> else s);
          s = (if may_have_left \<and> hget (fl_taken s) txid = None \<and> \<not> (\<exists>leg \<in> set (fl_unknown s). ul_txid leg = txid)
               then (case hget (fl_meta s) txid of
                       None \<Rightarrow> s
                     | Some meta \<Rightarrow> fate_unknown \<lparr>ul_txid = txid, ul_paid_to = lm_paid_to meta, ul_held = lm_direct meta,
                         ul_earlier = lm_earlier meta, ul_since_unix_ms = now, ul_seq = 0\<rparr> s)
               else s)
      in prune s)"

text \<open>Largest first, ties in the order of the outpoints.\<close>

definition largest_coins_first :: "('h :: linorder, 'a) utxo_entry list \<Rightarrow> ('h, 'a) utxo_entry list" where
  "largest_coins_first coins = sort_key (\<lambda>c. - int (ue_amount c)) (sort_key ue_txid (sort_key ue_index coins))"

definition carried_inputs :: "('h, 'a) in_flight \<Rightarrow> 'h outpoint list" where
  "carried_inputs s = concat (map (\<lambda>meta. map entry_id (leg_inputs meta)) (hvals (fl_carried s)))"

definition ours_in_flight :: "'h outpoint hset \<Rightarrow> ('h, 'a) in_flight \<Rightarrow> 'h outpoint hset" where
  "ours_in_flight spent_by_ours s =
     spent_by_ours @ concat (map og_entries (filter (\<lambda>r. \<not> og_accepted r) (hvals (fl_taken s)))) @ carried_inputs s"

record ('h, 'a) anchoring =
  an_first :: "('h, 'a) utxo_entry list"
  an_last :: "('h, 'a) utxo_entry list"
  an_blocked :: bool

definition anchor_leg ::
  "string \<Rightarrow> 'h outpoint hset \<Rightarrow> 'h outpoint hset \<Rightarrow> nat \<Rightarrow> ('h, 'a) anchoring \<times> ('h, 'a) utxo_entry list list
     \<Rightarrow> ('h :: linorder, 'a) unknown_leg \<Rightarrow> ('h, 'a) anchoring \<times> ('h, 'a) utxo_entry list list" where
  "anchor_leg key spendable ours now acc leg =
     (case acc of (a, each) \<Rightarrow>
      (let free = filter (\<lambda>c. entry_id c \<notin> set ours); own = free (ul_held leg); earlier = free (ul_earlier leg) in
       if ul_paid_to leg \<noteq> key
       then (a\<lparr>an_last := an_last a @ free (filter (\<lambda>c. entry_id c \<in> set spendable) (ul_held leg))\<rparr>, each)
       else if own \<noteq> [] then (a, each @ [largest_coins_first own])
       else if ul_held leg \<noteq> [] then (a\<lparr>an_blocked := True\<rparr>, each)
       else if now - ul_since_unix_ms leg < earlier_anchor_for_ms \<and> earlier \<noteq> [] then (a, each @ [largest_coins_first earlier])
       else (a, each)))"

definition anchoring_for ::
  "string \<Rightarrow> 'h outpoint hset \<Rightarrow> 'h outpoint hset \<Rightarrow> nat \<Rightarrow> ('h :: linorder, 'a) in_flight \<Rightarrow> ('h, 'a) anchoring" where
  "anchoring_for key spendable spent_by_ours now s =
     (case foldl (anchor_leg key spendable (ours_in_flight spent_by_ours s) now)
             (\<lparr>an_first = [], an_last = [], an_blocked = False\<rparr>, []) (fl_unknown s) of
        (a, each) \<Rightarrow> a\<lparr>an_first := an_first a @ map hd (filter (\<lambda>cs. cs \<noteq> []) each) @ concat (map (drop 1) each)\<rparr>)"

text \<open>The queue of retired legs keeps the newest.\<close>

definition keep_newest :: "nat \<Rightarrow> 'x list \<Rightarrow> 'x list" where
  "keep_newest n xs = drop (length xs - n) xs"

definition retire :: "(('h, 'a) unknown_leg \<Rightarrow> bool) \<Rightarrow> nat \<Rightarrow> ('h, 'a) in_flight \<Rightarrow> ('h, 'a) in_flight" where
  "retire keep now s =
     s\<lparr>fl_unknown := filter keep (fl_unknown s),
       fl_retired := keep_newest landed_kept
         (fl_retired s @ map (\<lambda>leg. (ul_txid leg, ul_paid_to leg, now)) (filter (\<lambda>leg. \<not> keep leg) (fl_unknown s)))\<rparr>"

definition retire_unknown :: "(('h, 'a) utxo_entry \<Rightarrow> bool) \<Rightarrow> nat \<Rightarrow> nat \<Rightarrow> ('h, 'a) in_flight \<Rightarrow> ('h, 'a) in_flight" where
  "retire_unknown spent before now s =
     (let s = s\<lparr>fl_unknown := map (\<lambda>leg. leg\<lparr>ul_since_unix_ms := min (ul_since_unix_ms leg) now\<rparr>) (fl_unknown s)\<rparr> in
      retire (\<lambda>leg. \<not> (ul_seq leg < before \<and> (\<exists>c \<in> set (unknown_coins leg). spent c))
        \<and> (ul_held leg \<noteq> [] \<or> now - ul_since_unix_ms leg < earlier_anchor_for_ms)) now s)"

definition note_landed :: "(string \<times> nat) list \<Rightarrow> string \<Rightarrow> nat \<Rightarrow> (string \<times> nat) list" where
  "note_landed landed key now = (if key = [] then landed else keep_newest landed_kept (landed @ [(key, now)]))"

definition proven_landed :: "('h \<Rightarrow> bool) \<Rightarrow> nat \<Rightarrow> ('h, 'a) in_flight \<Rightarrow> ('h, 'a) in_flight" where
  "proven_landed landed now s =
     (let keys = map ul_paid_to (filter (\<lambda>leg. landed (ul_txid leg)) (fl_unknown s));
          lands = (\<lambda>(txid, key, t). landed txid \<and> now - t < landed_notice_for_ms);
          keys = keys @ map (fst \<circ> snd) (filter lands (fl_retired s))
      in s\<lparr>fl_unknown := filter (\<lambda>leg. \<not> landed (ul_txid leg)) (fl_unknown s),
           fl_retired := filter (\<lambda>r. \<not> lands r) (fl_retired s),
           fl_landed := foldl (\<lambda>l key. note_landed l key now) (fl_landed s) keys\<rparr>)"

definition coins_spent :: "nat \<Rightarrow> 'h outpoint list \<Rightarrow> ('h, 'a) in_flight \<Rightarrow> ('h, 'a) in_flight" where
  "coins_spent now coins s = retire (\<lambda>leg. \<not> (\<exists>coin \<in> set coins. leg_spends leg coin)) now s"

definition creator_lost :: "nat \<Rightarrow> 'h \<Rightarrow> ('h, 'a) in_flight \<Rightarrow> ('h, 'a) in_flight" where
  "creator_lost now txid s = retire (\<lambda>leg. \<not> (\<exists>coin \<in> set (ul_earlier leg). ue_txid coin = txid)) now s"

definition retire_spent_by :: "nat \<Rightarrow> 'h outpoint list \<Rightarrow> ('h, 'a) in_flight \<Rightarrow> ('h, 'a) in_flight" where
  "retire_spent_by now accepted_spends s = retire (\<lambda>leg. \<not> (\<exists>spent \<in> set accepted_spends. leg_spends leg spent)) now s"

definition own_send_seen :: "nat \<Rightarrow> 'h \<Rightarrow> 'h outpoint list \<Rightarrow> ('h, 'a) in_flight \<Rightarrow> ('h, 'a) in_flight" where
  "own_send_seen now txid accepted_spends s =
     retire_spent_by now accepted_spends (s\<lparr>fl_unknown := filter (\<lambda>leg. ul_txid leg \<noteq> txid) (fl_unknown s)\<rparr>)"

definition fate_seen :: "nat \<Rightarrow> 'h \<Rightarrow> ('h, 'a) in_flight \<Rightarrow> ('h, 'a) in_flight" where
  "fate_seen now txid s = proven_landed (\<lambda>leg. leg = txid) now s"

definition outputs_listed :: "nat \<Rightarrow> 'h hset \<Rightarrow> ('h, 'a) in_flight \<Rightarrow> ('h, 'a) in_flight" where
  "outputs_listed now txids s = proven_landed (\<lambda>leg. leg \<in> set txids) now s"

definition take_landed :: "string \<Rightarrow> nat \<Rightarrow> ('h, 'a) in_flight \<Rightarrow> ('h, 'a) in_flight \<times> bool" where
  "take_landed key now s =
     (let live = (\<lambda>(paid_to, t). now - t < landed_notice_for_ms) in
      (s\<lparr>fl_landed := filter (\<lambda>n. live n \<and> fst n \<noteq> key) (fl_landed s)\<rparr>,
       \<exists>n \<in> set (fl_landed s). live n \<and> fst n = key))"

definition unknown_addresses :: "string \<Rightarrow> ('h, 'a) in_flight \<Rightarrow> 'a list" where
  "unknown_addresses key s =
     rev (remdups (rev (List.map_filter ue_address (concat (map unknown_coins (filter (\<lambda>leg. ul_paid_to leg = key) (fl_unknown s)))))))"

definition unknown_spends_any :: "'h outpoint list \<Rightarrow> ('h, 'a) in_flight \<Rightarrow> bool" where
  "unknown_spends_any coins s \<longleftrightarrow> (\<exists>leg \<in> set (fl_unknown s). \<exists>coin \<in> set coins. leg_spends leg coin)"

definition unknown_mark :: "('h, 'a) in_flight \<Rightarrow> nat" where
  "unknown_mark s = fl_next_unknown s"

end
