(* ===== verification/In_Flight_Sends.thy ===== *)
theory In_Flight_Sends
  imports In_Flight
begin

text \<open>
  The rest of \<open>InFlightSends\<close> (\<open>rust/chain/src/wallet_sync.rs\<close>): sends as they enter, leave and
  settle, the sends an earlier run carried in and how a read judges them, the coins our accepted
  sends spent, and the load and the snapshot of the store.
\<close>

section \<open>Entering and leaving\<close>

text \<open>What \<open>enter\<close> reads of a record: the transaction's outputs with the script of each, and its inputs.\<close>

record ('h, 's) transaction =
  tn_outputs :: "('s \<times> nat) list"
  tn_inputs :: "'h outpoint list"

datatype ('h, 's) transaction_data =
    TD_Outgoing "('h, 's) transaction" "nat option"
  | TD_Batch "('h, 's) transaction"
  | TD_Other

definition enter ::
  "('s \<Rightarrow> 'a option) \<Rightarrow> 'h \<Rightarrow> ('h, 's) transaction_data \<Rightarrow> 'a hset \<Rightarrow> ('h, 'a) in_flight \<Rightarrow> ('h, 'a) in_flight" where
  "enter address_of txid data ours s =
     (case (case data of
              TD_Outgoing tx payment \<Rightarrow> Some (tx, payment = None)
            | TD_Batch tx \<Rightarrow> Some (tx, True)
            | TD_Other \<Rightarrow> None) of
        None \<Rightarrow> s
      | Some (tx, uncounted) \<Rightarrow>
          (let returning = (if uncounted
             then List.map_filter (\<lambda>(index, script, value).
                    case address_of script of
                      None \<Rightarrow> None
                    | Some to \<Rightarrow> if to \<in> set ours then Some ((txid, index), value) else None)
                    (zip [0..<length (tn_outputs tx)] (tn_outputs tx))
             else [])
           in s\<lparr>fl_sends := hput txid \<lparr>is_returning = returning, is_spends = tn_inputs tx\<rparr> (fl_sends s)\<rparr>))"

definition leave_one :: "nat \<Rightarrow> 'h \<Rightarrow> ('h, 'a) in_flight \<Rightarrow> ('h, 'a) in_flight \<times> 'h list" where
  "leave_one now txid s =
     (let s = (if hget (fl_taken s) txid \<noteq> None
               then s\<lparr>fl_taken := hdel txid (fl_taken s), fl_accepted := hset_insert txid (fl_accepted s)\<rparr> else s);
          s = s\<lparr>fl_carried := hdel txid (fl_carried s)\<rparr> in
      (case hget (fl_sends s) txid of
         None \<Rightarrow> (fate_seen now txid s, [])
       | Some send \<Rightarrow>
           (own_send_seen now txid (is_spends send) (s\<lparr>fl_sends := hdel txid (fl_sends s)\<rparr>), map fst (is_spends send))))"

text \<open>The recursion of \<open>leave\<close> as a list of the ids still to leave, in the order it visits them.\<close>

lemma leave_one_sends: "fl_sends (fst (leave_one now txid s)) = hdel txid (fl_sends s)"
proof (cases "hget (fl_sends s) txid")
  case None
  then have "hdel txid (fl_sends s) = fl_sends s" by (simp add: map_of_eq_None_iff)
  then show ?thesis using None by (simp add: leave_one_def fate_seen_def proven_landed_def Let_def)
next
  case (Some send)
  then show ?thesis by (simp add: leave_one_def own_send_seen_def retire_spent_by_def retire_def Let_def)
qed

lemma leave_one_parents: "hget (fl_sends s) txid = None \<Longrightarrow> snd (leave_one now txid s) = []"
  by (simp add: leave_one_def Let_def)

lemma length_hdel: "hget m k \<noteq> None \<Longrightarrow> length (hdel k m) < length m"
  by (induction m) (auto simp: le_imp_less_Suc length_delete_le split: if_splits)

function leave_all :: "nat \<Rightarrow> 'h list \<Rightarrow> ('h, 'a) in_flight \<Rightarrow> ('h, 'a) in_flight" where
  "leave_all now [] s = s"
| "leave_all now (txid # txids) s = (case leave_one now txid s of (s', parents) \<Rightarrow> leave_all now (parents @ txids) s')"
  by pat_completeness auto
termination
proof (relation "inv_image (less_than <*lex*> less_than) (\<lambda>(now, txids, s). (length (fl_sends s), length txids))", goal_cases)
  case 1
  then show ?case by (simp add: wf_lex_prod)
next
  case (2 now txid txids s s' parents)
  have s': "fl_sends s' = hdel txid (fl_sends s)" using leave_one_sends [of now txid s] 2 by (metis fst_conv)
  show ?case
  proof (cases "hget (fl_sends s) txid")
    case None
    then have "hdel txid (fl_sends s) = fl_sends s" "parents = []"
      using leave_one_parents [OF None, of now] 2 None by (simp add: map_of_eq_None_iff, metis snd_conv)
    then show ?thesis using s' by simp
  next
    case Some
    then show ?thesis using s' length_hdel [of "fl_sends s" txid] by simp
  qed
qed

definition leave :: "nat \<Rightarrow> 'h \<Rightarrow> ('h, 'a) in_flight \<Rightarrow> ('h, 'a) in_flight \<times> bool" where
  "leave now txid s = (leave_all now [txid] s, hget (fl_sends s) txid \<noteq> None)"

section \<open>Records of the library, and settling\<close>

definition note_taken :: "'h outgoing \<Rightarrow> ('h, 'a) in_flight \<Rightarrow> ('h, 'a) in_flight" where
  "note_taken record s = s\<lparr>fl_taken := hput (og_id record) record (fl_taken s)\<rparr>"

definition note_cancelled :: "'h \<Rightarrow> ('h, 'a) utxo_entry list \<Rightarrow> ('h, 'a) in_flight \<Rightarrow> ('h, 'a) in_flight" where
  "note_cancelled txid coins s = s\<lparr>fl_cancelled := hput txid coins (fl_cancelled s)\<rparr>"

definition returned_tagged :: "'h \<Rightarrow> ('h, 'a) in_flight \<Rightarrow> bool option" where
  "returned_tagged txid s = map_option og_accepted (hget (fl_taken s) txid)"

definition returned :: "('h, 'a) in_flight \<Rightarrow> ('h, 'h outgoing) hmap" where
  "returned s = fl_taken s"

definition seen_accepted :: "('h, 'a) in_flight \<Rightarrow> 'h list" where
  "seen_accepted s = fl_accepted s"

definition tracks :: "'h \<Rightarrow> ('h, 'a) in_flight \<Rightarrow> bool" where
  "tracks txid s \<longleftrightarrow> hget (fl_taken s) txid \<noteq> None \<or> hget (fl_sends s) txid \<noteq> None
     \<or> txid \<in> set (fl_read_settled s) \<or> hget (fl_carried s) txid \<noteq> None"

record ('h, 'a) reopening =
  ro_taken :: "'h outgoing list"
  ro_accepted :: "'h list"
  ro_cancelled :: "('h, 'a) utxo_entry list"

definition reopen :: "('h, 'a) in_flight \<Rightarrow> ('h, 'a) in_flight \<times> ('h, 'a) reopening" where
  "reopen s =
     (s\<lparr>fl_accepted := [], fl_cancelled := []\<rparr>,
      \<lparr>ro_taken = hvals (fl_taken s), ro_accepted = fl_accepted s, ro_cancelled = concat (hvals (fl_cancelled s))\<rparr>)"

definition done_with :: "nat \<Rightarrow> 'h \<Rightarrow> ('h, 'a) in_flight \<Rightarrow> ('h, 'a) in_flight" where
  "done_with now txid s =
     (let s = own_send_seen now txid [] s in
      s\<lparr>fl_sends := hdel txid (fl_sends s), fl_taken := hdel txid (fl_taken s), fl_accepted := hset_remove txid (fl_accepted s)\<rparr>)"

text \<open>The oldest of the settled sends are forgotten beyond the bound.\<close>

definition settle_one :: "'h \<Rightarrow> 'h hset \<times> 'h list \<Rightarrow> 'h hset \<times> 'h list" where
  "settle_one txid q =
     (case q of (known, order) \<Rightarrow>
      (if txid \<in> set known then (known, order)
       else let order = order @ [txid]; over = take (length order - read_settled_kept) order in
         (foldl (\<lambda>known old. hset_remove old known) (hset_insert txid known) over, keep_newest read_settled_kept order)))"

definition settle_send :: "nat \<Rightarrow> 'h \<Rightarrow> ('h, 'a) in_flight \<Rightarrow> ('h, 'a) in_flight" where
  "settle_send now txid s =
     (case settle_one txid (fl_read_settled s, fl_read_settled_order s) of
        (known, order) \<Rightarrow> done_with now txid (s\<lparr>fl_read_settled := known, fl_read_settled_order := order\<rparr>))"

definition was_read_settled :: "'h \<Rightarrow> ('h, 'a) in_flight \<Rightarrow> bool" where
  "was_read_settled txid s \<longleftrightarrow> txid \<in> set (fl_read_settled s)"

section \<open>Coins our accepted sends spent\<close>

definition note_spent_one :: "nat \<Rightarrow> nat \<Rightarrow> 'h spent_coin list \<Rightarrow> 'h outpoint \<Rightarrow> 'h spent_coin list" where
  "note_spent_one daa now kept coin =
     (if \<exists>k \<in> set kept. sb_coin k = coin
      then (let i = length (takeWhile (\<lambda>k. sb_coin k \<noteq> coin) kept); k = kept ! i in
            kept[i := k\<lparr>sb_seen_at_daa := max (sb_seen_at_daa k) daa, sb_seen_at_ms := now\<rparr>])
      else kept @ [\<lparr>sb_coin = coin, sb_seen_at_daa = daa, sb_seen_at_ms = now\<rparr>])"

definition note_spent_at :: "'h outpoint list \<Rightarrow> nat \<Rightarrow> nat \<Rightarrow> ('h, 'a) in_flight \<Rightarrow> ('h, 'a) in_flight" where
  "note_spent_at coins daa now s =
     s\<lparr>fl_spent_by_us := keep_newest spent_kept (foldl (note_spent_one daa now) (fl_spent_by_us s) coins)\<rparr>"

text \<open>One id of the walk: what it spent, and the ids it spends from, the last pushed taken first.\<close>

definition spent_by_send :: "('h, 'a) in_flight \<Rightarrow> 'h \<Rightarrow> 'h outpoint list" where
  "spent_by_send s txid =
     (case hget (fl_sends s) txid of None \<Rightarrow> [] | Some send \<Rightarrow> is_spends send)
     @ (case hget (fl_taken s) txid of None \<Rightarrow> [] | Some record \<Rightarrow> og_entries record)
     @ (case (case hget (fl_carried s) txid of None \<Rightarrow> hget (fl_meta s) txid | Some meta \<Rightarrow> Some meta) of
          None \<Rightarrow> [] | Some meta \<Rightarrow> map entry_id (leg_inputs meta))"

definition parents_of :: "('h, 'a) in_flight \<Rightarrow> 'h \<Rightarrow> 'h list" where
  "parents_of s txid = (case hget (fl_sends s) txid of None \<Rightarrow> [] | Some send \<Rightarrow> map fst (is_spends send))"

function spent_walk :: "('h, 'a) in_flight \<Rightarrow> 'h list \<Rightarrow> 'h list \<Rightarrow> 'h outpoint list \<Rightarrow> 'h outpoint list" where
  "spent_walk s [] seen coins = coins"
| "spent_walk s (txid # stack) seen coins =
     (if txid \<in> set seen then spent_walk s stack seen coins
      else spent_walk s (rev (parents_of s txid) @ stack) (txid # seen) (coins @ spent_by_send s txid))"
  by pat_completeness auto
termination
proof (relation "inv_image (less_than <*lex*> less_than) (\<lambda>(s, stack, seen, coins).
    (card (set (hkeys (fl_sends s)) - set seen), length stack))", goal_cases)
  case (3 s txid stack seen coins)
  show ?case
  proof (cases "hget (fl_sends s) txid")
    case None
    have "parents_of s txid = []" using None by (simp add: parents_of_def)
    moreover have "txid \<notin> set (hkeys (fl_sends s))" using None by (simp add: map_of_eq_None_iff)
    ultimately show ?thesis by (simp add: Diff_insert0)
  next
    case (Some send)
    then have "txid \<in> set (hkeys (fl_sends s)) - set seen" using 3 by (auto dest: map_of_SomeD intro: rev_image_eqI)
    then have "card (set (hkeys (fl_sends s)) - set (txid # seen)) < card (set (hkeys (fl_sends s)) - set seen)"
      by (intro psubset_card_mono) auto
    then show ?thesis by simp
  qed
qed auto

definition note_accepted :: "'h \<Rightarrow> nat \<Rightarrow> nat \<Rightarrow> ('h, 'a) in_flight \<Rightarrow> ('h, 'a) in_flight" where
  "note_accepted txid daa now s = note_spent_at (spent_walk s [txid] [] []) daa now s"

definition spent_withheld :: "nat \<Rightarrow> nat \<Rightarrow> nat \<Rightarrow> ('h, 'a) in_flight \<Rightarrow> ('h, 'a) in_flight \<times> 'h outpoint list" where
  "spent_withheld score margin now s =
     (let kept = map (\<lambda>k. k\<lparr>sb_seen_at_ms := min (sb_seen_at_ms k) now\<rparr>) (fl_spent_by_us s);
          kept = filter (\<lambda>k. now - sb_seen_at_ms k < spent_for_ms) kept
      in (s\<lparr>fl_spent_by_us := kept\<rparr>,
          map sb_coin (filter (\<lambda>k. score < saturating_add (sb_seen_at_daa k) margin) kept)))"

section \<open>Sends an earlier run carried in\<close>

definition carried_txids :: "('h, 'a) in_flight \<Rightarrow> 'h list" where
  "carried_txids s = hkeys (fl_carried s)"

record 'h judgement =
  ju_spent :: "'h outpoint list"
  ju_ended :: "'h list"
  ju_converted :: "'h list"

definition ended_now ::
  "(('h, 'a) utxo_entry \<Rightarrow> 'h hset \<Rightarrow> bool) \<Rightarrow> 'h hset \<Rightarrow> ('h, ('h, 'a) leg_meta) hmap \<Rightarrow> ('h \<times> 'h outpoint list) list" where
  "ended_now gone proven carried =
     List.map_filter (\<lambda>(txid, meta).
       if txid \<in> set proven then Some (txid, map entry_id (leg_inputs meta))
       else (let missing = map entry_id (filter (\<lambda>c. gone c proven) (leg_inputs meta)) in
             if missing = [] then None else Some (txid, missing))) carried"

definition end_carried :: "('h \<times> 'h outpoint list) list \<Rightarrow> ('h, ('h, 'a) leg_meta) hmap \<Rightarrow> ('h, ('h, 'a) leg_meta) hmap" where
  "end_carried ended carried = filter (\<lambda>(txid, _). txid \<notin> set (map fst ended)) carried"

lemma ended_now_carried:
  "(txid, coins) \<in> set (ended_now gone proven carried) \<Longrightarrow> \<exists>meta. (txid, meta) \<in> set carried"
  by (induction carried) (auto simp: ended_now_def List.map_filter_def Let_def split: if_splits)

lemma end_carried_shorter:
  assumes "ended_now gone proven carried \<noteq> []"
  shows "length (end_carried (ended_now gone proven carried) carried) < length carried"
proof -
  obtain txid coins where e: "(txid, coins) \<in> set (ended_now gone proven carried)"
    using assms by (metis list.set_intros(1) neq_Nil_conv prod.exhaust)
  then obtain meta where "(txid, meta) \<in> set carried" using ended_now_carried by metis
  moreover have "txid \<in> set (map fst (ended_now gone proven carried))" using e by force
  ultimately show ?thesis
    unfolding end_carried_def by (intro length_filter_less [of "(txid, meta)"]) auto
qed

function judge_loop ::
  "(('h, 'a) utxo_entry \<Rightarrow> 'h hset \<Rightarrow> bool) \<Rightarrow> 'h hset \<Rightarrow> 'h judgement \<Rightarrow> ('h, ('h, 'a) leg_meta) hmap
     \<Rightarrow> 'h hset \<times> 'h judgement \<times> ('h, ('h, 'a) leg_meta) hmap" where
  "judge_loop gone proven j carried =
     (let ended = ended_now gone proven carried in
      if ended = [] then (proven, j, carried)
      else judge_loop gone (foldl (\<lambda>p (txid, _). hset_insert txid p) proven ended)
             (j\<lparr>ju_spent := ju_spent j @ concat (map snd ended), ju_ended := ju_ended j @ map fst ended\<rparr>)
             (end_carried ended carried))"
  by pat_completeness auto
termination
  by (relation "measure (\<lambda>(gone, proven, j, carried). length carried)") (simp_all add: end_carried_shorter)

declare judge_loop.simps [simp del]

definition stale_leg :: "nat \<Rightarrow> nat \<Rightarrow> nat \<Rightarrow> ('h, 'a) leg_meta \<Rightarrow> bool" where
  "stale_leg for_daa score now meta \<longleftrightarrow>
     carried_for_ms \<le> now - lm_since_unix_ms meta \<and> saturating_add (lm_since_daa meta) for_daa \<le> score"

definition convert_stale :: "nat \<Rightarrow> ('h, 'a) in_flight \<times> 'h judgement \<Rightarrow> 'h \<Rightarrow> ('h, 'a) in_flight \<times> 'h judgement" where
  "convert_stale now acc txid =
     (case acc of (s, j) \<Rightarrow>
      (case hget (fl_carried s) txid of
         None \<Rightarrow> (s, j)
       | Some meta \<Rightarrow>
           (let s = fate_unknown \<lparr>ul_txid = txid, ul_paid_to = lm_paid_to meta, ul_held = lm_direct meta,
                      ul_earlier = lm_earlier meta, ul_since_unix_ms = now, ul_seq = 0\<rparr>
                      (s\<lparr>fl_carried := hdel txid (fl_carried s)\<rparr>)
            in (s\<lparr>fl_meta := hput txid meta (fl_meta s)\<rparr>, j\<lparr>ju_converted := ju_converted j @ [txid]\<rparr>))))"

definition judge_carried ::
  "'h hset \<Rightarrow> (('h, 'a) utxo_entry \<Rightarrow> 'h hset \<Rightarrow> bool) \<Rightarrow> nat \<Rightarrow> nat \<Rightarrow> ('h, 'a) in_flight
     \<Rightarrow> ('h, 'a) in_flight \<times> 'h hset \<times> 'h judgement" where
  "judge_carried proven gone score now s =
     (let carried = map (\<lambda>(txid, meta). (txid, meta\<lparr>lm_since_daa := min (lm_since_daa meta) score,
            lm_since_unix_ms := min (lm_since_unix_ms meta) now\<rparr>)) (fl_carried s)
      in case judge_loop gone proven \<lparr>ju_spent = [], ju_ended = [], ju_converted = []\<rparr> carried of
        (proven, j, carried) \<Rightarrow>
          (let stale = map fst (filter (\<lambda>(_, meta). stale_leg (fl_carried_for_daa s) score now meta) carried) in
           case foldl (convert_stale now) (s\<lparr>fl_carried := carried\<rparr>, j) stale of (s, j) \<Rightarrow> (s, proven, j)))"

section \<open>The store\<close>

definition keep_watched :: "'a hset \<Rightarrow> ('h, 'a) in_flight \<Rightarrow> ('h, 'a) in_flight" where
  "keep_watched watched s =
     (let foreign = (\<lambda>c. case ue_address c of None \<Rightarrow> False | Some a \<Rightarrow> a \<notin> set watched) in
      s\<lparr>fl_ours := watched,
        fl_unknown := filter (\<lambda>leg. \<not> list_all foreign (unknown_coins leg)) (fl_unknown s),
        fl_carried := filter (\<lambda>(_, meta). \<not> list_all foreign (leg_inputs meta)) (fl_carried s)\<rparr>)"

definition remember_leg :: "'h \<Rightarrow> ('h, 'a) leg_meta \<Rightarrow> ('h, 'a) in_flight \<Rightarrow> ('h, 'a) in_flight" where
  "remember_leg txid meta s = s\<lparr>fl_meta := hput txid meta (fl_meta s)\<rparr>"

definition forget_leg :: "nat \<Rightarrow> 'h \<Rightarrow> ('h, 'a) in_flight \<Rightarrow> ('h, 'a) in_flight" where
  "forget_leg now txid s = submit_returned now txid False (s\<lparr>fl_meta := hdel txid (fl_meta s)\<rparr>)"

definition load_leg ::
  "('h, 'a) wallet_text \<Rightarrow> ('h, 'a) in_flight \<times> leg_record list \<Rightarrow> leg_record \<Rightarrow> ('h, 'a) in_flight \<times> leg_record list" where
  "load_leg W acc r =
     (case acc of (s, unusable) \<Rightarrow>
      (case (parse_hash W (lr_txid r), leg_of_record W r) of
         (Some txid, Some meta) \<Rightarrow>
           (if lr_state r = Sent then (s\<lparr>fl_carried := hput txid meta (fl_carried s)\<rparr>, unusable)
            else (s\<lparr>fl_unknown := fl_unknown s @ [\<lparr>ul_txid = txid, ul_paid_to = lm_paid_to meta, ul_held = lm_direct meta,
                      ul_earlier = lm_earlier meta, ul_since_unix_ms = lm_since_unix_ms meta, ul_seq = fl_next_unknown s\<rparr>],
                    fl_next_unknown := fl_next_unknown s + 1, fl_meta := hput txid meta (fl_meta s)\<rparr>, unusable))
       | _ \<Rightarrow> (s, unusable @ [r])))"

definition load_in_flight ::
  "('h, 'a) wallet_text \<Rightarrow> process \<Rightarrow> 'v sends_json \<Rightarrow> (leg_record \<Rightarrow> 'v option) \<Rightarrow> bool \<Rightarrow> path \<Rightarrow> string \<Rightarrow> nat
     \<Rightarrow> writers \<Rightarrow> world \<Rightarrow> world \<times> writers \<times> ('h, 'a) in_flight" where
  "load_in_flight W E J to_value is_dir store network per_block ws w =
     (case load_sends E J is_dir (sends_path store) network w of (w, sends) \<Rightarrow>
     (case load_spent E J is_dir (spent_path store) network w of (w, spent) \<Rightarrow>
      (let recs = lf_records sends;
           (s, unusable) = foldl (load_leg W) (no_sends_yet\<lparr>fl_carried_for_daa := carried_for_daa per_block\<rparr>, []) (sd_legs recs);
           w = (if unusable \<noteq> [] then keep_aside E J to_value (sends_path store) unusable w else w);
           (f_sends, ws) = durable_new (sends_path store) (lf_bytes sends) (lf_kept sends) ws;
           (f_spent, ws) = durable_new (spent_path store) (lf_bytes spent) (lf_kept spent) ws
       in (w, ws, s\<lparr>fl_landed := map (\<lambda>r. (la_paid_to r, la_at_unix_ms r)) (sd_landed recs),
            fl_retired := List.map_filter (\<lambda>r. map_option (\<lambda>h. (h, rt_paid_to r, rt_at_unix_ms r)) (parse_hash W (rt_txid r))) (sd_retired recs),
            fl_spent_by_us := List.map_filter (\<lambda>r. map_option (\<lambda>h. \<lparr>sb_coin = (h, sp_index r), sb_seen_at_daa = sp_seen_at_daa r,
              sb_seen_at_ms = sp_seen_at_ms r\<rparr>) (parse_hash W (sp_txid r))) (lf_records spent),
            fl_store := Some \<lparr>fstore_network = network, fstore_sends = f_sends, fstore_spent = f_spent\<rparr>\<rparr>))))"

text \<open>What the store keeps: the legs of unknown fate, the legs logged or sent, the carried sends.\<close>

definition kept_meta :: "('h, 'a) in_flight \<Rightarrow> ('h, ('h, 'a) leg_meta) hmap" where
  "kept_meta s =
     filter (\<lambda>(txid, _). txid \<in> set (map ul_txid (fl_unknown s)) \<or> hget (fl_taken s) txid \<noteq> None
       \<or> txid \<in> set (map (lo_txid \<circ> snd) (filter (\<lambda>(_, leg). \<not> lo_returned leg) (fl_legs s)))) (fl_meta s)"

definition unknown_meta :: "('h, ('h, 'a) leg_meta) hmap \<Rightarrow> ('h, 'a) unknown_leg \<Rightarrow> ('h, 'a) leg_meta" where
  "unknown_meta meta leg =
     \<lparr>lm_paid_to = ul_paid_to leg, lm_direct = ul_held leg, lm_earlier = ul_earlier leg,
      lm_outputs = (case hget meta (ul_txid leg) of None \<Rightarrow> [] | Some m \<Rightarrow> lm_outputs m),
      lm_since_unix_ms = ul_since_unix_ms leg,
      lm_since_daa = (case hget meta (ul_txid leg) of None \<Rightarrow> 0 | Some m \<Rightarrow> lm_since_daa m)\<rparr>"

definition snapshot_legs :: "('h, 'a) wallet_text \<Rightarrow> ('h, 'a) in_flight \<Rightarrow> leg_record list" where
  "snapshot_legs W s =
     (let meta = kept_meta s; unknown = map ul_txid (fl_unknown s) in
      sort_key lr_txid
        (map (\<lambda>leg. leg_record_of W (unknown_meta meta leg) (ul_txid leg) Unknown) (fl_unknown s)
         @ map (\<lambda>(txid, m). leg_record_of W m txid (if hget (fl_taken s) txid \<noteq> None then Sent else Submitting))
             (filter (\<lambda>(txid, _). txid \<notin> set unknown) meta)
         @ map (\<lambda>(txid, m). leg_record_of W m txid Sent) (filter (\<lambda>(txid, _). hget meta txid = None) (fl_carried s))))"

definition snapshot_sends :: "('h, 'a) wallet_text \<Rightarrow> ('h, 'a) in_flight \<Rightarrow> sends" where
  "snapshot_sends W s =
     \<lparr>sd_legs = snapshot_legs W s,
      sd_landed = map (\<lambda>(key, t). \<lparr>la_paid_to = key, la_at_unix_ms = t\<rparr>) (fl_landed s),
      sd_retired = map (\<lambda>(txid, key, t). \<lparr>rt_txid = show_hash W txid, rt_paid_to = key, rt_at_unix_ms = t\<rparr>) (fl_retired s)\<rparr>"

definition snapshot_spent :: "('h, 'a) wallet_text \<Rightarrow> ('h, 'a) in_flight \<Rightarrow> spent_record list" where
  "snapshot_spent W s =
     map (\<lambda>k. \<lparr>sp_txid = show_hash W (fst (sb_coin k)), sp_index = snd (sb_coin k), sp_seen_at_daa = sb_seen_at_daa k,
       sp_seen_at_ms = sb_seen_at_ms k\<rparr>) (fl_spent_by_us s)"

record sends_snapshot =
  sn_store :: sends_file_store
  sn_sends :: "nat \<times> (io_error + bytes)"
  sn_spent :: "(nat \<times> (io_error + bytes)) option"

definition take_snapshot ::
  "('h, 'a) wallet_text \<Rightarrow> 'v sends_json \<Rightarrow> bool \<Rightarrow> ('h, 'a) in_flight \<Rightarrow> writers \<Rightarrow> ('h, 'a) in_flight \<times> writers \<times> sends_snapshot option" where
  "take_snapshot W J with_spent s ws =
     (case fl_store s of
        None \<Rightarrow> (s, ws, None)
      | Some store \<Rightarrow>
          (let s = s\<lparr>fl_meta := kept_meta s\<rparr>;
               (spent, ws) = (if with_spent
                 then (case next_generation (fstore_spent store) ws of
                         (g, ws) \<Rightarrow> (Some (g, encode_spent J (fstore_network store) (snapshot_spent W s)), ws))
                 else (None, ws));
               (g, ws) = next_generation (fstore_sends store) ws
           in (s, ws, Some \<lparr>sn_store = store, sn_sends = (g, encode_sends J (fstore_network store) (snapshot_sends W s)), sn_spent = spent\<rparr>)))"

definition land :: "sends_snapshot \<Rightarrow> writers \<Rightarrow> disk \<Rightarrow> writers \<times> disk \<times> (io_error + unit)" where
  "land sn ws d =
     (case sn_sends sn of (_, Inl e) \<Rightarrow> (ws, d, Inl e) | (g, Inr bs) \<Rightarrow>
     (case durable_write (fstore_sends (sn_store sn)) g bs ws d of (ws, d, Inl e) \<Rightarrow> (ws, d, Inl e) | (ws, d, Inr _) \<Rightarrow>
     (case sn_spent sn of None \<Rightarrow> (ws, d, Inr ()) | Some (_, Inl e) \<Rightarrow> (ws, d, Inl e) | Some (g, Inr bs) \<Rightarrow>
      durable_write (fstore_spent (sn_store sn)) g bs ws d)))"

section \<open>The balance\<close>

definition unsettled :: "('h, 'a) in_flight \<Rightarrow> nat" where
  "unsettled s =
     (let spent = concat (map is_spends (hvals (fl_sends s))) @ carried_inputs s;
          carried = concat (map (\<lambda>(txid, meta).
            map (\<lambda>(index, value, _). ((txid, index), value))
              (filter (\<lambda>(_, _, address). case address of None \<Rightarrow> False | Some a \<Rightarrow> a \<in> set (fl_ours s)) (lm_outputs meta))) (fl_carried s));
          home = filter (\<lambda>(outpoint, _). outpoint \<notin> set spent) (concat (map is_returning (hvals (fl_sends s))) @ carried)
      in foldl (\<lambda>sum (_, value). saturating_add sum value) 0 home)"

text \<open>A lookup in a map filtered by its keys.\<close>

lemma hget_filter_key: "hget (filter (\<lambda>(k, _). P k) m) t = (if P t then hget m t else None)"
  by (induction m) auto

end
