(* ===== verification/In_Flight_Reads.thy ===== *)
theory In_Flight_Reads
  imports In_Flight_Sends Event_System "HOL-Library.Multiset"
begin

text \<open>
  What a read of the node withholds while sends are submitted beside it
  (\<open>rust/chain/src/wallet_sync.rs\<close>): the log of submits, the floors of the reads under way, and the
  coins a read finds in the log when it decides.
\<close>

text \<open>
  Submits, returns and reads in any order. A read is named when it begins and ends once. Whatever
  else happens to the record may change everything but the log, the counter and the floors.
\<close>

datatype ('h, 'a) log_event =
    Submit 'h "'h outpoint list"
  | Return 'h bool nat
  | Begin_Read nat
  | End_Read nat
  | Elsewhere "('h, 'a) in_flight"

fun read_move :: "('h, 'a) in_flight \<times> (nat, nat) hmap \<Rightarrow> ('h, 'a) log_event \<Rightarrow> ('h, 'a) in_flight \<times> (nat, nat) hmap" where
  "read_move (s, reads) (Submit txid inputs) = (submitting txid inputs s, reads)"
| "read_move (s, reads) (Return txid may_have_left now) = (submit_returned now txid may_have_left s, reads)"
| "read_move (s, reads) (Begin_Read r) =
     (if hget reads r \<noteq> None then (s, reads) else (case begin_read s of (s, floor) \<Rightarrow> (s, reads @ [(r, floor)])))"
| "read_move (s, reads) (End_Read r) =
     (case hget reads r of None \<Rightarrow> (s, reads) | Some floor \<Rightarrow> (end_read floor s, hdel r reads))"
| "read_move (s, reads) (Elsewhere t) =
     (t\<lparr>fl_legs := fl_legs s, fl_next_leg := fl_next_leg s, fl_readers := fl_readers s\<rparr>, reads)"

definition log_ok :: "('h, 'a) in_flight \<times> (nat, nat) hmap \<Rightarrow> bool" where
  "log_ok m \<longleftrightarrow> (case m of (s, reads) \<Rightarrow>
     sorted_wrt (<) (map fst (fl_legs s)) \<and> list_all (\<lambda>(seq, _). seq < fl_next_leg s) (fl_legs s)
     \<and> mset (fl_readers s) = mset (hvals reads) \<and> hmap_ok reads)"

section \<open>The log and its pruning\<close>

lemma mset_swap_remove: "mset (swap_remove x xs) = mset xs - {#x#}"
proof (cases "x \<in> set xs")
  case True
  define i where "i = length (takeWhile (\<lambda>y. y \<noteq> x) xs)"
  have i: "i < length xs"
    using True unfolding i_def by (induction xs) auto
  have x: "xs ! i = x" using nth_length_takeWhile [of "\<lambda>y. y \<noteq> x" xs] i unfolding i_def by simp
  have "xs \<noteq> []" using True by auto
  have "mset (butlast (xs[i := last xs])) + {#last (xs[i := last xs])#} = mset (xs[i := last xs])"
    using \<open>xs \<noteq> []\<close> by (metis append_butlast_last_id list_update_nonempty mset_append mset_single_iff_right union_code)
  moreover have "last (xs[i := last xs]) = last xs"
    using \<open>xs \<noteq> []\<close> i by (simp add: last_conv_nth nth_list_update)
  moreover have "mset (xs[i := last xs]) = mset xs - {#x#} + {#last xs#}"
    using mset_update [OF i, of "last xs"] x by simp
  ultimately have "mset (butlast (xs[i := last xs])) = mset xs - {#x#}" by simp
  then show ?thesis using i unfolding swap_remove_def i_def by (simp add: Let_def)
next
  case False
  then have "takeWhile (\<lambda>y. y \<noteq> x) xs = xs" by (simp add: takeWhile_eq_all_conv) blast
  then have "swap_remove x xs = xs" by (simp only: swap_remove_def Let_def less_irrefl if_False)
  then show ?thesis using False by (simp add: diff_single_trivial)
qed

lemma prune_readers [simp]: "fl_readers (prune s) = fl_readers s" "fl_next_leg (prune s) = fl_next_leg s"
  by (simp_all add: prune_def)

lemma prune_mem:
  "(seq, leg) \<in> set (fl_legs (prune s)) \<longleftrightarrow>
     (seq, leg) \<in> set (fl_legs s) \<and> (\<not> lo_returned leg \<or> (\<exists>floor \<in> set (fl_readers s). floor \<le> seq))"
proof -
  have "(fl_readers s \<noteq> [] \<and> Min (set (fl_readers s)) \<le> seq) = (\<exists>floor \<in> set (fl_readers s). floor \<le> seq)"
    by (cases "fl_readers s = []") (simp_all add: Min_le_iff)
  then show ?thesis by (auto simp: prune_def)
qed

lemma prune_sublist: "\<exists>P. fl_legs (prune s) = filter P (fl_legs s)"
  by (auto simp: prune_def)

lemma sorted_wrt_map_filter: "sorted_wrt R (map f xs) \<Longrightarrow> sorted_wrt R (map f (filter P xs))"
  by (induction xs) auto

lemma map_fst_mark: "map (fst \<circ> (\<lambda>(k, leg). if k = seq then (k, g leg) else (k, leg))) legs = map fst legs"
  by (induction legs) auto

lemma legs_of_mark:
  "sorted_wrt (<) (map fst legs) \<Longrightarrow> sorted_wrt (<) (map fst (mark_returned seq may legs))"
  "list_all (\<lambda>(k, _). k < n) legs \<Longrightarrow> list_all (\<lambda>(k, _). k < n) (mark_returned seq may legs)"
  by (auto simp: mark_returned_def map_fst_mark sorted_wrt_map_filter list_all_iff split: if_splits)

text \<open>What a return does to the log: the latest leg under way with the id is marked, or taken out.\<close>

definition returned_legs :: "'h \<Rightarrow> bool \<Rightarrow> (nat \<times> 'h logged_leg) list \<Rightarrow> (nat \<times> 'h logged_leg) list" where
  "returned_legs txid may legs =
     (case find (\<lambda>(_, leg). lo_txid leg = txid \<and> \<not> lo_returned leg) (rev legs) of
        None \<Rightarrow> legs | Some (seq, _) \<Rightarrow> mark_returned seq may legs)"

lemma fate_unknown_log [simp]:
  "fl_legs (fate_unknown leg s) = fl_legs s" "fl_next_leg (fate_unknown leg s) = fl_next_leg s"
  "fl_readers (fate_unknown leg s) = fl_readers s"
  by (simp_all add: fate_unknown_def)

lemma submit_returned_log:
  "\<exists>t. submit_returned now txid may s = prune t \<and> fl_legs t = returned_legs txid may (fl_legs s)
     \<and> fl_readers t = fl_readers s \<and> fl_next_leg t = fl_next_leg s"
  by (auto simp: submit_returned_def returned_legs_def Let_def split: option.splits if_splits)

lemma returned_legs_ok:
  "sorted_wrt (<) (map fst legs) \<Longrightarrow> sorted_wrt (<) (map fst (returned_legs txid may legs))"
  "list_all (\<lambda>(k, _). k < n) legs \<Longrightarrow> list_all (\<lambda>(k, _). k < n) (returned_legs txid may legs)"
  by (auto simp: returned_legs_def legs_of_mark split: option.splits)

lemma log_prune_ok:
  "log_ok (s, reads) \<Longrightarrow> log_ok (prune s, reads)"
  using prune_sublist [of s] by (auto simp: log_ok_def sorted_wrt_map_filter list_all_iff)

lemma mset_hdel: "hget m k = Some v \<Longrightarrow> hmap_ok m \<Longrightarrow> mset (hvals (hdel k m)) = mset (hvals m) - {#v#}"
proof (induction m)
  case (Cons kv m)
  show ?case
  proof (cases "fst kv = k")
    case True
    then have "k \<notin> fst ` set m" using Cons.prems(2) by (auto simp: hmap_ok_def)
    then have "hdel k m = m" by (simp add: delete_id)
    then show ?thesis using True Cons.prems(1) by (cases kv) simp
  next
    case False
    then have m: "hget m k = Some v" "hmap_ok m" using Cons.prems by (cases kv; simp add: hmap_ok_def)+
    then have "v \<in># mset (hvals m)" by (force dest: map_of_SomeD)
    then show ?thesis using Cons.IH [OF m] False by (cases kv) simp
  qed
qed simp

lemma read_move_ok:
  assumes "log_ok m"
  shows "log_ok (read_move m e)"
proof -
  obtain s reads where m: "m = (s, reads)" by force
  show ?thesis
  proof (cases e)
    case (Submit txid inputs)
    then show ?thesis using assms m
      by (auto simp: log_ok_def submitting_def sorted_wrt_append list_all_iff less_Suc_eq dest: bspec)
  next
    case (Return txid may now)
    obtain t where t: "submit_returned now txid may s = prune t" "fl_legs t = returned_legs txid may (fl_legs s)"
      "fl_readers t = fl_readers s" "fl_next_leg t = fl_next_leg s" using submit_returned_log by metis
    have "log_ok (t, reads)" using assms t(2-4) unfolding m by (simp add: log_ok_def returned_legs_ok)
    then show ?thesis using t(1) Return m log_prune_ok by simp
  next
    case (Begin_Read r)
    then show ?thesis using assms m
      by (auto simp: log_ok_def begin_read_def Let_def distinct_map map_of_eq_None_iff hmap_ok_def image_iff split: option.splits)
  next
    case (End_Read r)
    show ?thesis
    proof (cases "hget reads r")
      case (Some floor)
      have ok: "hmap_ok reads" using assms m by (simp add: log_ok_def)
      have "mset (hvals (hdel r reads)) = mset (hvals reads) - {#floor#}"
        using Some ok by (rule mset_hdel)
      then have "log_ok (s\<lparr>fl_readers := swap_remove floor (fl_readers s)\<rparr>, hdel r reads)"
        using assms m ok by (simp add: log_ok_def mset_swap_remove)
      then show ?thesis using log_prune_ok Some End_Read m by (simp add: end_read_def)
    qed (use assms m End_Read in simp)
  next
    case Elsewhere
    then show ?thesis using assms m by (simp add: log_ok_def)
  qed
qed

interpretation submits: event_system read_move log_ok "\<lambda>_. True"
  by unfold_locales (rule read_move_ok)

section \<open>What a read withholds\<close>

definition watches :: "nat \<Rightarrow> nat \<Rightarrow> ('h, 'a) in_flight \<times> (nat, nat) hmap \<Rightarrow> bool" where
  "watches r floor m \<longleftrightarrow> log_ok m \<and> hget (snd m) r = Some floor \<and> floor \<le> fl_next_leg (fst m)"

definition holds_back :: "nat \<Rightarrow> nat \<Rightarrow> 'h \<Rightarrow> 'h outpoint list \<Rightarrow> ('h, 'a) in_flight \<times> (nat, nat) hmap \<Rightarrow> bool" where
  "holds_back r floor txid inputs m \<longleftrightarrow> watches r floor m
     \<and> (\<exists>seq leg. (seq, leg) \<in> set (fl_legs (fst m)) \<and> floor \<le> seq \<and> lo_txid leg = txid \<and> lo_inputs leg = inputs)"

text \<open>The events that neither end the read nor take the leg out as refused before its request.\<close>

fun not_ending :: "nat \<Rightarrow> ('h, 'a) log_event \<Rightarrow> bool" where
  "not_ending r (End_Read r') \<longleftrightarrow> r' \<noteq> r"
| "not_ending r _ \<longleftrightarrow> True"

fun not_refusing :: "nat \<Rightarrow> 'h \<Rightarrow> ('h, 'a) log_event \<Rightarrow> bool" where
  "not_refusing r txid (End_Read r') \<longleftrightarrow> r' \<noteq> r"
| "not_refusing r txid (Return txid' may_have_left _) \<longleftrightarrow> txid' = txid \<longrightarrow> may_have_left"
| "not_refusing r txid _ \<longleftrightarrow> True"

lemma not_refusing_ending: "not_refusing r txid e \<Longrightarrow> not_ending r e"
  by (cases e) auto

lemma find_rev_leg:
  "find (\<lambda>(_, leg). lo_txid leg = txid \<and> \<not> lo_returned leg) (rev legs) = Some (seq, leg) \<Longrightarrow>
     (seq, leg) \<in> set legs \<and> lo_txid leg = txid"
proof -
  assume "find (\<lambda>(_, leg). lo_txid leg = txid \<and> \<not> lo_returned leg) (rev legs) = Some (seq, leg)"
  then obtain i where "i < length (rev legs)" "rev legs ! i = (seq, leg)" "lo_txid leg = txid"
    unfolding find_Some_iff by (metis (mono_tags, lifting) case_prod_conv)
  then show ?thesis by (metis nth_mem set_rev)
qed

lemma sorted_keys_unique:
  fixes xs :: "('k :: linorder \<times> 'v) list"
  shows "sorted_wrt (<) (map fst xs) \<Longrightarrow> (k, v) \<in> set xs \<Longrightarrow> (k', v') \<in> set xs \<Longrightarrow> k = k' \<Longrightarrow> v = v'"
  by (induction xs) (auto simp: rev_image_eqI)

lemma returned_legs_keep:
  assumes "(seq, leg) \<in> set legs" "sorted_wrt (<) (map fst legs)" "txid' = lo_txid leg \<longrightarrow> may"
  shows "\<exists>leg'. (seq, leg') \<in> set (returned_legs txid' may legs) \<and> lo_txid leg' = lo_txid leg \<and> lo_inputs leg' = lo_inputs leg"
proof (cases "find (\<lambda>(_, leg). lo_txid leg = txid' \<and> \<not> lo_returned leg) (rev legs)")
  case None
  then show ?thesis using assms(1) by (auto simp: returned_legs_def)
next
  case (Some found)
  obtain q found_leg where f: "found = (q, found_leg)" by force
  have q: "(q, found_leg) \<in> set legs" "lo_txid found_leg = txid'" 
    using find_rev_leg [OF Some [unfolded f]] by simp_all
  have same: "q = seq \<Longrightarrow> found_leg = leg"
    by (rule sorted_keys_unique [OF assms(2)]) (use q(1) assms(1) in auto)
  show ?thesis
  proof (cases may)
    case True
    let ?m = "\<lambda>(k, leg). if k = q then (k, leg\<lparr>lo_returned := True\<rparr>) else (k, leg)"
    have m: "?m (seq, leg) \<in> set (map ?m legs)" using assms(1) by (simp only: set_map) (rule imageI)
    have e: "returned_legs txid' may legs = map ?m legs" using True Some f by (simp add: returned_legs_def mark_returned_def)
    show ?thesis
      by (rule exI [of _ "snd (?m (seq, leg))"]) (use m in \<open>auto simp: e split: if_splits\<close>)
  next
    case False
    then have "q \<noteq> seq" using same q(2) assms(3) by metis
    then show ?thesis using False Some f assms(1) by (auto simp: returned_legs_def mark_returned_def)
  qed
qed

lemma prune_keeps:
  "(seq, leg) \<in> set (fl_legs s) \<Longrightarrow> floor \<in> set (fl_readers s) \<Longrightarrow> floor \<le> seq \<Longrightarrow> (seq, leg) \<in> set (fl_legs (prune s))"
  by (auto simp: prune_mem)

lemma watched_floor:
  assumes "watches r floor m"
  shows "floor \<in> set (fl_readers (fst m))"
proof -
  have "mset (fl_readers (fst m)) = mset (hvals (snd m))" using assms by (simp add: watches_def log_ok_def split_beta)
  then have "set (fl_readers (fst m)) = set (hvals (snd m))" by (metis set_mset_mset)
  moreover have "(r, floor) \<in> set (snd m)" using assms by (simp add: watches_def map_of_SomeD)
  ultimately show ?thesis by force
qed

lemma watches_move:
  assumes "watches r floor m" "not_ending r e"
  shows "watches r floor (read_move m e)"
proof -
  obtain s reads where m: "m = (s, reads)" by force
  have t: "fl_next_leg (submit_returned now txid may s) = fl_next_leg s" for now txid may
    using submit_returned_log [of now txid may s] by auto
  have "hget (snd (read_move m e)) r = Some floor \<and> floor \<le> fl_next_leg (fst (read_move m e))"
    using assms m by (cases e) (auto simp: watches_def submitting_def begin_read_def end_read_def t map_add_Some_iff Let_def split: option.splits)
  moreover have "log_ok (read_move m e)" using assms(1) by (intro read_move_ok) (simp add: watches_def)
  ultimately show ?thesis by (simp add: watches_def)
qed

lemma holds_back_move:
  assumes h: "holds_back r floor txid inputs m" and e: "not_refusing r txid e"
  shows "holds_back r floor txid inputs (read_move m e)"
proof -
  obtain s reads where m: "m = (s, reads)" by force
  have w: "watches r floor m" using h by (simp add: holds_back_def)
  have w': "watches r floor (read_move m e)" using w not_refusing_ending [OF e] by (rule watches_move)
  obtain seq leg where l: "(seq, leg) \<in> set (fl_legs s)" "floor \<le> seq" "lo_txid leg = txid" "lo_inputs leg = inputs"
    using h m by (auto simp: holds_back_def)
  have "\<exists>leg'. (seq, leg') \<in> set (fl_legs (fst (read_move m e))) \<and> lo_txid leg' = txid \<and> lo_inputs leg' = inputs"
  proof (cases e)
    case (Return txid' may now)
    obtain t where t: "submit_returned now txid' may s = prune t" "fl_legs t = returned_legs txid' may (fl_legs s)"
      "fl_readers t = fl_readers s" using submit_returned_log by metis
    have "sorted_wrt (<) (map fst (fl_legs s))" using w m by (simp add: watches_def log_ok_def)
    then obtain leg' where "(seq, leg') \<in> set (fl_legs t)" "lo_txid leg' = txid" "lo_inputs leg' = inputs"
      using returned_legs_keep [OF l(1), of txid' may] e l Return t(2) by auto
    then show ?thesis using prune_keeps [of seq leg' t floor] t watched_floor [OF w] l(2) m Return by auto
  next
    case (End_Read r')
    then show ?thesis using l m w' watched_floor [OF w']
      by (auto simp: end_read_def prune_mem split: option.splits)
  qed (use l m in \<open>auto simp: submitting_def begin_read_def Let_def split: option.splits\<close>)
  then show ?thesis using w' l(2) by (auto simp: holds_back_def)
qed

interpretation reading: event_system read_move "watches r floor" "not_ending r" for r floor
  by unfold_locales (rule watches_move)

interpretation withholding: event_system read_move "holds_back r floor txid inputs" "not_refusing r txid" for r floor txid inputs
  by unfold_locales (rule holds_back_move)

lemma floor_at_begin:
  assumes "log_ok m" "hget (snd m) r = None"
  obtains floor where "watches r floor (read_move m (Begin_Read r))"
    "\<And>seq leg. (seq, leg) \<in> set (fl_legs (fst m)) \<Longrightarrow> \<not> lo_returned leg \<Longrightarrow> floor \<le> seq"
    "fl_legs (fst (read_move m (Begin_Read r))) = fl_legs (fst m)"
proof -
  obtain s reads where m: "m = (s, reads)" by force
  define floor where "floor = snd (begin_read s)"
  have reads: "hget (reads @ [(r, floor)]) r = Some floor" using assms(2) m by (simp add: map_add_def)
  have mv: "read_move m (Begin_Read r) = (fst (begin_read s), reads @ [(r, floor)])"
    using assms(2) m by (simp add: floor_def split_beta)
  have same: "fl_legs (fst (begin_read s)) = fl_legs s" "fl_next_leg (fst (begin_read s)) = fl_next_leg s"
    by (simp_all add: begin_read_def Let_def)
  have sorted: "sorted_wrt (<) (map fst (fl_legs s))" and lt: "\<And>seq leg. (seq, leg) \<in> set (fl_legs s) \<Longrightarrow> seq < fl_next_leg s"
    using assms(1) m by (auto simp: log_ok_def list_all_iff)
  have below: "floor \<le> seq" if "(seq, leg) \<in> set legs" "\<not> lo_returned leg" "sorted_wrt (<) (map fst legs)"
    "floor = (case find (\<lambda>(_, leg). \<not> lo_returned leg) legs of None \<Rightarrow> n | Some (seq, _) \<Rightarrow> seq)" for seq leg legs n
    using that by (induction legs) (auto simp: image_iff split: if_splits prod.splits dest: less_imp_le bspec)
  have top: "floor \<le> fl_next_leg s"
    using lt by (auto simp: floor_def begin_read_def Let_def find_Some_iff split: option.splits)
      (metis less_imp_le nth_mem)
  show ?thesis
  proof
    show "watches r floor (read_move m (Begin_Read r))"
      using read_move_ok [OF assms(1), of "Begin_Read r"] reads top unfolding mv by (simp add: watches_def same)
  next
    fix seq leg assume "(seq, leg) \<in> set (fl_legs (fst m))" "\<not> lo_returned leg"
    then show "floor \<le> seq"
      using below [of seq leg "fl_legs s" "fl_next_leg s"] sorted m by (simp add: floor_def begin_read_def Let_def)
  next
    show "fl_legs (fst (read_move m (Begin_Read r))) = fl_legs (fst m)" unfolding mv by (simp add: same m)
  qed
qed

lemma withheld_when_logged:
  assumes "holds_back r floor txid inputs m"
  shows "hget (snd m) r = Some floor \<and> set inputs \<subseteq> set (logged_from floor (fst m))"
  using assms by (force simp: holds_back_def watches_def logged_from_def)

lemma submitted_while_watched:
  assumes "watches r floor m" "list_all (not_refusing r txid) es" "Submit txid inputs \<in> set es"
  shows "holds_back r floor txid inputs (foldl read_move m es)"
proof -
  obtain before after where es: "es = before @ Submit txid inputs # after" using assms(3) by (meson split_list)
  have a: "list_all (not_refusing r txid) before" "list_all (not_refusing r txid) after" using assms(2) es by auto
  have "list_all (not_ending r) before" using a(1) by (auto simp: list_all_iff intro: not_refusing_ending)
  then have w: "watches r floor (foldl read_move m before)" using reading.events_keep [OF assms(1)] by blast
  obtain s reads where m: "foldl read_move m before = (s, reads)" by force
  have "watches r floor (read_move (s, reads) (Submit txid inputs))"
    using watches_move [OF w, of "Submit txid inputs"] m by simp
  then have "holds_back r floor txid inputs (read_move (s, reads) (Submit txid inputs))"
    using w m by (fastforce simp: holds_back_def watches_def submitting_def)
  then show ?thesis using withholding.events_keep a(2) m es by simp
qed

lemma no_submits_ok: "log_ok (no_sends_yet, [])"
  by (simp add: log_ok_def no_sends_yet_def)

definition in_its_submit :: "'h \<Rightarrow> 'h outpoint list \<Rightarrow> ('h, 'a) in_flight \<Rightarrow> bool" where
  "in_its_submit txid inputs s \<longleftrightarrow> (\<exists>(seq, leg) \<in> set (fl_legs s). lo_txid leg = txid \<and> lo_inputs leg = inputs \<and> \<not> lo_returned leg)"

text \<open>
  C7. A read withholds what it may not have seen: take any history of submits, returns, reads and
  changes elsewhere, then a read that begins and, after it, any events that do not end it. The
  coins of every leg that was in its submit when the read took its floor, and of every leg
  submitted since, are among those the read withholds when it decides, whether or not the leg
  returned meanwhile and however many other reads began or ended, unless the leg was refused
  before its request left.
\<close>

theorem read_withholds:
  assumes "m = foldl read_move (no_sends_yet, []) past" "hget (snd m) r = None"
    and "list_all (not_refusing r txid) es"
    and "in_its_submit txid inputs (fst m) \<or> Submit txid inputs \<in> set es"
    and "(s, reads) = foldl read_move m (Begin_Read r # es)"
  shows "\<exists>floor. hget reads r = Some floor \<and> set inputs \<subseteq> set (logged_from floor s)"
proof -
  have ok: "log_ok m" unfolding assms(1) using submits.events_keep [OF no_submits_ok] by (simp add: list_all_iff)
  obtain floor where f: "watches r floor (read_move m (Begin_Read r))"
    "\<And>seq leg. (seq, leg) \<in> set (fl_legs (fst m)) \<Longrightarrow> \<not> lo_returned leg \<Longrightarrow> floor \<le> seq"
    "fl_legs (fst (read_move m (Begin_Read r))) = fl_legs (fst m)" using floor_at_begin [OF ok assms(2)] by metis
  have "holds_back r floor txid inputs (foldl read_move (read_move m (Begin_Read r)) es)"
  proof (cases "Submit txid inputs \<in> set es")
    case True
    then show ?thesis using submitted_while_watched [OF f(1) assms(3)] by simp
  next
    case False
    then have "holds_back r floor txid inputs (read_move m (Begin_Read r))"
      using assms(4) f by (auto simp: holds_back_def in_its_submit_def)
    then show ?thesis using assms(3) by (rule withholding.events_keep)
  qed
  then show ?thesis using withheld_when_logged assms(5) by (metis foldl_Cons fst_conv snd_conv)
qed

definition demo_past :: "(nat, nat) log_event list" where
  "demo_past = [Submit 1 [(7, 0)], Submit 2 [(8, 0)], Return 2 True 5]"

definition demo_since :: "(nat, nat) log_event list" where
  "demo_since = [Return 1 True 6, Begin_Read 4, Submit 3 [(9, 1)], End_Read 4, Return 3 True 7]"

lemma read_withholds_witness:
  "in_its_submit 1 [(7, 0)] (fst (foldl read_move (no_sends_yet, []) demo_past))
   \<and> (\<exists>floor. hget (snd (foldl read_move (no_sends_yet, []) (demo_past @ Begin_Read 0 # demo_since))) 0 = Some floor
        \<and> {(7, 0)} \<subseteq> set (logged_from floor (fst (foldl read_move (no_sends_yet, []) (demo_past @ Begin_Read 0 # demo_since)))))"
proof -
  have a: "in_its_submit 1 [(7, 0)] (fst (foldl read_move (no_sends_yet, []) demo_past))"
    "hget (snd (foldl read_move (no_sends_yet, []) demo_past)) 0 = None" "list_all (not_refusing 0 1) demo_since"
    by (simp_all add: in_its_submit_def demo_past_def demo_since_def no_sends_yet_def submitting_def submit_returned_def
        mark_returned_def prune_def)
  show ?thesis
    using read_withholds [OF refl a(2,3) disjI1 [OF a(1)] prod.collapse] a(1) by simp
qed

end
