(* ===== verification/In_Flight_Chains.thy ===== *)
theory In_Flight_Chains
  imports In_Flight_Sends
begin

text \<open>
  Chains of our own sends (\<open>rust/chain/src/wallet_sync.rs\<close>): what an acceptance takes with it, the
  coins it keeps as spent, and what a read proves of the sends an earlier run carried in. The
  recursions of the code are compared with inductive relations over the chain.
\<close>

section \<open>Walks from a send to the sends it spends from\<close>

inductive walk_to :: "('h \<Rightarrow> 'h list) \<Rightarrow> 'h set \<Rightarrow> 'h \<Rightarrow> 'h \<Rightarrow> bool" for parents avoid where
  here: "x \<notin> avoid \<Longrightarrow> walk_to parents avoid x x"
| up: "x \<notin> avoid \<Longrightarrow> p \<in> set (parents x) \<Longrightarrow> walk_to parents avoid p u \<Longrightarrow> walk_to parents avoid x u"

inductive_cases walk_toE: "walk_to parents avoid x u"

inductive_simps walk_to_step: "walk_to parents avoid x u"

lemma walk_avoids: "walk_to parents avoid x u \<Longrightarrow> x \<notin> avoid"
  by (erule walk_toE)

lemma walk_mono: "walk_to parents (insert t avoid) x u \<Longrightarrow> walk_to parents avoid x u"
  by (induction rule: walk_to.induct) (auto intro: walk_to.intros)

text \<open>A walk either keeps clear of a send or its last stretch starts there.\<close>

lemma walk_split:
  "walk_to parents avoid x u \<Longrightarrow>
     walk_to parents (insert t avoid) x u \<or> u = t \<or> (\<exists>p \<in> set (parents t). walk_to parents (insert t avoid) p u)"
  by (induction rule: walk_to.induct) (auto intro: walk_to.intros)

lemma walk_through:
  assumes "t \<notin> avoid"
  shows "walk_to parents avoid t u \<or> (\<exists>x \<in> set xs. walk_to parents avoid x u) \<longleftrightarrow>
    u = t \<or> (\<exists>x \<in> set (parents t) \<union> set xs. walk_to parents (insert t avoid) x u)" (is "?l \<longleftrightarrow> ?r")
proof
  assume ?l
  then obtain x where x: "x = t \<or> x \<in> set xs" "walk_to parents avoid x u" by blast
  have "\<not> walk_to parents (insert t avoid) t u" using walk_avoids by fastforce
  then show ?r using x walk_split [OF x(2), of t] by blast
next
  assume ?r
  then consider "u = t" | x where "x \<in> set (parents t)" "walk_to parents (insert t avoid) x u"
    | x where "x \<in> set xs" "walk_to parents (insert t avoid) x u" by blast
  then show ?l
  proof cases
    case 1
    then show ?thesis using assms by (simp add: here)
  next
    case 2
    then have "walk_to parents avoid t u" using assms walk_mono by (metis up)
    then show ?thesis ..
  next
    case 3
    then show ?thesis using walk_mono by metis
  qed
qed

lemma walk_stop:
  "walk_to (parents(t := [])) {} x u \<longleftrightarrow> walk_to parents {t} x u \<or> (u = t \<and> walk_to (parents(t := [])) {} x t)"
proof
  assume "walk_to (parents(t := [])) {} x u"
  then show "walk_to parents {t} x u \<or> (u = t \<and> walk_to (parents(t := [])) {} x t)"
    by (induction rule: walk_to.induct) (auto intro: walk_to.intros split: if_splits)
next
  assume "walk_to parents {t} x u \<or> (u = t \<and> walk_to (parents(t := [])) {} x t)"
  moreover have "walk_to parents {t} x u \<Longrightarrow> walk_to (parents(t := [])) {} x u"
    by (induction rule: walk_to.induct) (auto intro: walk_to.intros)
  ultimately show "walk_to (parents(t := [])) {} x u" by blast
qed

text \<open>A send left behind and its own parents next: the same sends are reached.\<close>

lemma walk_first:
  "(\<exists>x \<in> set (t # xs). walk_to parents {} x u) \<longleftrightarrow>
     u = t \<or> (\<exists>x \<in> set (parents t @ xs). walk_to (parents(t := [])) {} x u)"
proof -
  have "(\<exists>x \<in> set (t # xs). walk_to parents {} x u) \<longleftrightarrow>
    u = t \<or> (\<exists>x \<in> set (parents t @ xs). walk_to parents {t} x u)"
    using walk_through [of t "{}" parents u xs] by simp
  also have "\<dots> \<longleftrightarrow> u = t \<or> (\<exists>x \<in> set (parents t @ xs). walk_to (parents(t := [])) {} x u)"
    using walk_stop [of parents t _ u] by metis
  finally show ?thesis .
qed

section \<open>The coins an acceptance keeps\<close>

lemma spent_walk_coins:
  "set (spent_walk s stack seen coins) =
     set coins \<union> (\<Union>u \<in> {u. \<exists>x \<in> set stack. walk_to (parents_of s) (set seen) x u}. set (spent_by_send s u))"
proof (induction s stack seen coins rule: spent_walk.induct)
  case (2 s txid stack seen coins)
  show ?case
  proof (cases "txid \<in> set seen")
    case True
    then have "\<not> walk_to (parents_of s) (set seen) txid u" for u using walk_avoids by metis
    then show ?thesis using 2(1) [OF True] True by simp
  next
    case False
    have r: "{u. \<exists>x \<in> set (txid # stack). walk_to (parents_of s) (set seen) x u} =
      insert txid {u. \<exists>x \<in> set (rev (parents_of s txid) @ stack). walk_to (parents_of s) (set (txid # seen)) x u}"
      using walk_through [OF False, of "parents_of s" _ stack] by auto
    show ?thesis using 2(2) [OF False] False unfolding r by auto
  qed
qed simp

section \<open>What an acceptance takes with it\<close>

lemma parents_of_eq: "parents_of s = (\<lambda>t. case hget (fl_sends s) t of None \<Rightarrow> [] | Some send \<Rightarrow> map fst (is_spends send))"
  by (auto simp: parents_of_def)

definition spends_of :: "('h, 'a) in_flight \<Rightarrow> 'h \<Rightarrow> 'h outpoint list" where
  "spends_of s txid = (case hget (fl_sends s) txid of None \<Rightarrow> [] | Some send \<Rightarrow> is_spends send)"

text \<open>A leg of unknown fate that an accepted send settles.\<close>

definition settled_by :: "('h, 'a) in_flight \<Rightarrow> 'h \<Rightarrow> ('h, 'a) unknown_leg \<Rightarrow> bool" where
  "settled_by s txid leg \<longleftrightarrow> ul_txid leg = txid \<or> (\<exists>coin \<in> set (spends_of s txid). leg_spends leg coin)"

lemma leave_one_step:
  assumes "leave_one now txid s = (s', parents)"
  shows "parents = parents_of s txid" "fl_sends s' = hdel txid (fl_sends s)" "fl_taken s' = hdel txid (fl_taken s)"
    "fl_carried s' = hdel txid (fl_carried s)"
    "set (fl_accepted s') = set (fl_accepted s) \<union> (if hget (fl_taken s) txid = None then {} else {txid})"
    "fl_unknown s' = filter (\<lambda>leg. \<not> settled_by s txid leg) (fl_unknown s)"
proof -
  have taken: "hget (fl_taken s) txid = None \<Longrightarrow> hdel txid (fl_taken s) = fl_taken s"
    by (simp add: map_of_eq_None_iff)
  have sends: "hget (fl_sends s) txid = None \<Longrightarrow> hdel txid (fl_sends s) = fl_sends s"
    by (simp add: map_of_eq_None_iff)
  note defs = leave_one_def Let_def fate_seen_def proven_landed_def own_send_seen_def retire_spent_by_def retire_def
  show "parents = parents_of s txid" "fl_sends s' = hdel txid (fl_sends s)" "fl_taken s' = hdel txid (fl_taken s)"
    "fl_carried s' = hdel txid (fl_carried s)"
    "set (fl_accepted s') = set (fl_accepted s) \<union> (if hget (fl_taken s) txid = None then {} else {txid})"
    "fl_unknown s' = filter (\<lambda>leg. \<not> settled_by s txid leg) (fl_unknown s)"
    using assms taken sends
    by (auto simp: defs parents_of_def settled_by_def spends_of_def intro!: filter_cong split: option.splits if_splits)
qed

lemma leave_reach:
  assumes "leave_one now txid s = (s', parents)"
  shows "(\<exists>x \<in> set (txid # txids). walk_to (parents_of s) {} x u) \<longleftrightarrow>
    u = txid \<or> (\<exists>x \<in> set (parents @ txids). walk_to (parents_of s') {} x u)"
proof -
  have "parents_of s' = (parents_of s)(txid := [])" using leave_one_step(2) [OF assms] by (auto simp: parents_of_def)
  then show ?thesis unfolding leave_one_step(1) [OF assms] by (simp only: walk_first)
qed

lemma leave_all_maps:
  "hget (fl_sends (leave_all now txids s)) u =
     (if \<exists>x \<in> set txids. walk_to (parents_of s) {} x u then None else hget (fl_sends s) u)
   \<and> hget (fl_taken (leave_all now txids s)) u =
     (if \<exists>x \<in> set txids. walk_to (parents_of s) {} x u then None else hget (fl_taken s) u)
   \<and> hget (fl_carried (leave_all now txids s)) u =
     (if \<exists>x \<in> set txids. walk_to (parents_of s) {} x u then None else hget (fl_carried s) u)"
proof (induction now txids s rule: leave_all.induct)
  case (2 now txid txids s)
  obtain s' parents where one: "leave_one now txid s = (s', parents)" by force
  note st = leave_one_step [OF one] and r = leave_reach [OF one, of txids]
  show ?case using 2 [OF one [symmetric]] unfolding r leave_all.simps one prod.case st(2-4) by auto
qed simp

lemma taken_first:
  "A \<union> (if f t = None then {} else {t}) \<union> {u. (if u = t then None else f u) \<noteq> None \<and> R u}
   = A \<union> {u. f u \<noteq> None \<and> (u = t \<or> R u)}"
  by (auto split: if_splits)

lemma leave_all_accepted:
  "set (fl_accepted (leave_all now txids s)) = set (fl_accepted s) \<union>
     {u. hget (fl_taken s) u \<noteq> None \<and> (\<exists>x \<in> set txids. walk_to (parents_of s) {} x u)}"
proof (induction now txids s rule: leave_all.induct)
  case (2 now txid txids s)
  obtain s' parents where one: "leave_one now txid s = (s', parents)" by force
  note st = leave_one_step [OF one] and r = leave_reach [OF one, of txids]
  let ?R = "\<lambda>u. \<exists>x \<in> set (parents @ txids). walk_to (parents_of s') {} x u"
  have "set (fl_accepted (leave_all now (txid # txids) s)) = set (fl_accepted s)
    \<union> (if hget (fl_taken s) txid = None then {} else {txid}) \<union> {u. hget (hdel txid (fl_taken s)) u \<noteq> None \<and> ?R u}"
    using 2 [OF one [symmetric]] unfolding leave_all.simps one prod.case st(3,5) .
  also have "\<dots> = set (fl_accepted s) \<union> {u. hget (fl_taken s) u \<noteq> None \<and> (u = txid \<or> ?R u)}"
    by (simp only: hget_hdel) (rule taken_first)
  finally show ?case unfolding r .
qed simp

lemma leave_all_unknown:
  "fl_unknown (leave_all now txids s) =
     filter (\<lambda>leg. \<not> (\<exists>u. (\<exists>x \<in> set txids. walk_to (parents_of s) {} x u) \<and> settled_by s u leg)) (fl_unknown s)"
proof (induction now txids s rule: leave_all.induct)
  case (2 now txid txids s)
  obtain s' parents where one: "leave_one now txid s = (s', parents)" by force
  note st = leave_one_step [OF one] and r = leave_reach [OF one, of txids]
  have by': "settled_by s' u leg \<longleftrightarrow> (if u = txid then ul_txid leg = txid else settled_by s u leg)" for u leg
    using st(2) by (simp add: settled_by_def spends_of_def)
  let ?R = "\<lambda>u. \<exists>x \<in> set (parents @ txids). walk_to (parents_of s') {} x u"
  have own: "settled_by s txid leg" if "ul_txid leg = txid" for leg using that by (simp add: settled_by_def)
  have eq: "(\<not> settled_by s txid leg \<and> \<not> (\<exists>u. ?R u \<and> settled_by s' u leg)) \<longleftrightarrow>
    \<not> (\<exists>u. (u = txid \<or> ?R u) \<and> settled_by s u leg)" for leg
    using own by' by metis
  have "fl_unknown (leave_all now (txid # txids) s) =
    filter (\<lambda>leg. \<not> settled_by s txid leg \<and> \<not> (\<exists>u. ?R u \<and> settled_by s' u leg)) (fl_unknown s)"
    using 2 [OF one [symmetric]] unfolding leave_all.simps one prod.case st(6) filter_filter by simp
  then show ?case unfolding eq r .
qed simp

definition taken_along :: "('h, 'a) in_flight \<Rightarrow> 'h \<Rightarrow> 'h \<Rightarrow> bool" where
  "taken_along s txid u \<longleftrightarrow> walk_to (parents_of s) {} txid u"

text \<open>
  C10. An acceptance takes the whole chain. When a send leaves at its acceptance, the sends
  that leave the fold, the records kept and the carried sends are exactly it and the sends of ours
  it spends from, directly or through others; every one of them whose record was kept is seen
  accepted and no other is; and of the legs of unknown fate exactly those stay that are none of
  these sends and share no coin with one, in their order.
\<close>

theorem acceptance_takes_chain:
  "let s' = fst (leave now txid s) in
     hget (fl_sends s') = (\<lambda>u. if taken_along s txid u then None else hget (fl_sends s) u) \<and>
     hget (fl_taken s') = (\<lambda>u. if taken_along s txid u then None else hget (fl_taken s) u) \<and>
     hget (fl_carried s') = (\<lambda>u. if taken_along s txid u then None else hget (fl_carried s) u) \<and>
     set (fl_accepted s') = set (fl_accepted s) \<union> {u. hget (fl_taken s) u \<noteq> None \<and> taken_along s txid u} \<and>
     fl_unknown s' = filter (\<lambda>leg. \<not> (\<exists>u. taken_along s txid u \<and> settled_by s u leg)) (fl_unknown s) \<and>
     (snd (leave now txid s) \<longleftrightarrow> hget (fl_sends s) txid \<noteq> None)"
  using leave_all_maps [of now "[txid]" s] leave_all_accepted [of now "[txid]" s] leave_all_unknown [of now "[txid]" s]
  by (simp add: leave_def Let_def taken_along_def fun_eq_iff)

section \<open>A read from a node that is behind\<close>

definition kept_as_spent :: "nat \<Rightarrow> nat \<Rightarrow> 'h outpoint \<Rightarrow> 'h spent_coin list \<Rightarrow> bool" where
  "kept_as_spent daa now coin kept \<longleftrightarrow>
     (\<exists>k \<in> set kept. sb_coin k = coin \<and> daa \<le> sb_seen_at_daa k \<and> sb_seen_at_ms k = now)"

lemma first_with:
  assumes "\<exists>k \<in> set kept. sb_coin k = coin"
  shows "length (takeWhile (\<lambda>k. sb_coin k \<noteq> coin) kept) < length kept"
    and "sb_coin (kept ! length (takeWhile (\<lambda>k. sb_coin k \<noteq> coin) kept)) = coin"
  using assms by (induction kept) auto

lemma note_spent_one_keeps: "kept_as_spent daa now coin (note_spent_one daa now kept coin)"
proof (cases "\<exists>k \<in> set kept. sb_coin k = coin")
  case True
  note f = first_with [OF True]
  let ?i = "length (takeWhile (\<lambda>k. sb_coin k \<noteq> coin) kept)"
  let ?k = "(kept ! ?i)\<lparr>sb_seen_at_daa := max (sb_seen_at_daa (kept ! ?i)) daa, sb_seen_at_ms := now\<rparr>"
  have "?k \<in> set (kept[?i := ?k])" using f(1) by (simp add: set_update_memI)
  moreover have "note_spent_one daa now kept coin = kept[?i := ?k]" using True by (simp add: note_spent_one_def Let_def)
  ultimately show ?thesis using f(2) unfolding kept_as_spent_def by (intro bexI [of _ ?k]) simp_all
qed (simp add: kept_as_spent_def note_spent_one_def)

lemma note_spent_one_other:
  assumes "kept_as_spent daa now coin kept"
  shows "kept_as_spent daa now coin (note_spent_one daa now kept coin')"
proof (cases "\<exists>k \<in> set kept. sb_coin k = coin'")
  case True
  note f = first_with [OF True]
  let ?i = "length (takeWhile (\<lambda>k. sb_coin k \<noteq> coin') kept)"
  let ?k = "(kept ! ?i)\<lparr>sb_seen_at_daa := max (sb_seen_at_daa (kept ! ?i)) daa, sb_seen_at_ms := now\<rparr>"
  obtain j where j: "j < length kept" "sb_coin (kept ! j) = coin" "daa \<le> sb_seen_at_daa (kept ! j)" "sb_seen_at_ms (kept ! j) = now"
    using assms by (auto simp: kept_as_spent_def in_set_conv_nth)
  have e: "note_spent_one daa now kept coin' = kept[?i := ?k]" using True by (simp add: note_spent_one_def Let_def)
  have "kept[?i := ?k] ! j \<in> set (kept[?i := ?k])" using j(1) by simp
  moreover have "sb_coin (kept[?i := ?k] ! j) = coin \<and> daa \<le> sb_seen_at_daa (kept[?i := ?k] ! j) \<and> sb_seen_at_ms (kept[?i := ?k] ! j) = now"
    using j f by (cases "j = ?i") auto
  ultimately show ?thesis unfolding e kept_as_spent_def by blast
next
  case False
  then show ?thesis using assms by (auto simp: kept_as_spent_def note_spent_one_def)
qed

lemma length_note_spent_one: "length (note_spent_one daa now kept coin) \<le> Suc (length kept)"
  by (simp add: note_spent_one_def Let_def)

lemma note_spent_fold:
  "set coins \<subseteq> {coin. kept_as_spent daa now coin (foldl (note_spent_one daa now) kept coins)}
   \<and> length (foldl (note_spent_one daa now) kept coins) \<le> length kept + length coins"
proof (induction coins rule: rev_induct)
  case (snoc coin coins)
  then show ?case
    using note_spent_one_keeps [of daa now coin] note_spent_one_other [of daa now _ "foldl (note_spent_one daa now) kept coins" coin]
      length_note_spent_one [of daa now "foldl (note_spent_one daa now) kept coins" coin] by auto
qed simp

text \<open>
  What our accepted send spent is not offered again by a node that is behind. Note a send
  as accepted at a score: a read, within the time the coins are kept, from a node less than the
  margin beyond that score, withholds every coin that send or a send of ours it spends from
  spent, as long as the list of such coins is not over its bound.
\<close>

theorem accepted_coins_withheld:
  assumes "length (fl_spent_by_us s) + length (spent_walk s [txid] [] []) \<le> spent_kept"
    and "now \<le> later" "later - now < spent_for_ms" "score < saturating_add daa margin"
    and "taken_along s txid u" "coin \<in> set (spent_by_send s u)"
  shows "coin \<in> set (snd (spent_withheld score margin later (note_accepted txid daa now s)))"
proof -
  let ?kept = "foldl (note_spent_one daa now) (fl_spent_by_us s) (spent_walk s [txid] [] [])"
  have "coin \<in> set (spent_walk s [txid] [] [])"
    using assms(5,6) spent_walk_coins [of s "[txid]" "[]" "[]"] by (auto simp: taken_along_def simp del: spent_walk.simps)
  then have "kept_as_spent daa now coin ?kept" "length ?kept \<le> spent_kept"
    using note_spent_fold [of "spent_walk s [txid] [] []" daa now "fl_spent_by_us s"] assms(1) by auto
  then obtain k where k: "k \<in> set ?kept" "sb_coin k = coin" "daa \<le> sb_seen_at_daa k" "sb_seen_at_ms k = now"
    and e: "fl_spent_by_us (note_accepted txid daa now s) = ?kept"
    by (auto simp: kept_as_spent_def note_accepted_def note_spent_at_def keep_newest_def)
  have "score < saturating_add (sb_seen_at_daa k) margin" using assms(4) k(3) by (auto simp: saturating_add_def)
  then show ?thesis unfolding spent_withheld_def Let_def e using k assms(2,3) by (force simp: min_def)
qed

definition demo_chain :: "(nat, nat) in_flight" where
  "demo_chain = no_sends_yet\<lparr>fl_sends := [(2, \<lparr>is_returning = [], is_spends = [(1, 0)]\<rparr>), (1, \<lparr>is_returning = [], is_spends = [(0, 3)]\<rparr>)]\<rparr>"

lemma accepted_coins_withheld_witness:
  "taken_along demo_chain 2 1 \<and> (0, 3) \<in> set (snd (spent_withheld 105 10 60 (note_accepted 2 100 50 demo_chain)))"
proof -
  have reach: "taken_along demo_chain 2 1"
    unfolding taken_along_def by (rule up [of _ _ 1]) (auto simp: parents_of_def demo_chain_def intro: here)
  have "(0, 3) \<in> set (spent_by_send demo_chain 1)" by (simp add: spent_by_send_def demo_chain_def no_sends_yet_def)
  then have "(0, 3) \<in> set (snd (spent_withheld 105 10 60 (note_accepted 2 100 50 demo_chain)))"
    using reach by (intro accepted_coins_withheld [of _ _ _ _ _ _ _ 1])
      (simp_all add: demo_chain_def no_sends_yet_def parents_of_def spent_by_send_def spent_kept_def spent_for_ms_def saturating_add_def u64_max_def)
  then show ?thesis using reach by simp
qed

end
