(* ===== verification/In_Flight_Judge.thy ===== *)
theory In_Flight_Judge
  imports In_Flight_Sends
begin

text \<open>
  What a read of the node's unspent set proves of the sends an earlier run carried in
  (\<open>rust/chain/src/wallet_sync.rs\<close>, \<open>judge_carried\<close> under \<open>ReadEvidence::spent\<close>), compared with the
  least relation closed under the rules of the evidence.
\<close>

text \<open>
  A carried send is settled when the answer proves it, or when it spends a coin whose address was
  asked, that the answer does not list, whose creator is settled or no send of ours that may
  still land, and which any synced node would list by now if it were unspent: a coin with a score
  old enough, one without once its creator is settled.
\<close>

inductive proves_settled ::
  "('h, 'a) read_evidence \<Rightarrow> 'h hset \<Rightarrow> 'h hset \<Rightarrow> ('h, ('h, 'a) leg_meta) hmap \<Rightarrow> 'h \<Rightarrow> bool"
  for ev may_land proven carried where
  by_answer: "txid \<in> set proven \<Longrightarrow> proves_settled ev may_land proven carried txid"
| by_coin: "(txid, meta) \<in> set carried \<Longrightarrow> c \<in> set (leg_inputs meta) \<Longrightarrow> ue_address c = Some a \<Longrightarrow> a \<in> set (re_asked ev)
     \<Longrightarrow> entry_id c \<notin> set (re_unspent ev)
     \<Longrightarrow> ue_txid c \<notin> set may_land \<or> proves_settled ev may_land proven carried (ue_txid c)
     \<Longrightarrow> (if ue_block_daa_score c = u64_max then proves_settled ev may_land proven carried (ue_txid c)
          else saturating_add (ue_block_daa_score c) (re_indexed_after ev) \<le> re_score_read ev)
     \<Longrightarrow> proves_settled ev may_land proven carried txid"
monos if_mono

lemma evidence_by_coin:
  assumes "evidence_spent ev c may_land known" "(txid, meta) \<in> set carried" "c \<in> set (leg_inputs meta)"
    and "\<And>t. t \<in> set known \<Longrightarrow> proves_settled ev may_land proven carried t"
  shows "proves_settled ev may_land proven carried txid"
  using assms by (auto simp: evidence_spent_def Let_def split: if_splits option.splits intro!: by_coin [of txid meta carried c])

section \<open>The loop\<close>

lemma ended_now_mem:
  "txid \<in> set (map fst (ended_now gone known carried)) \<longleftrightarrow>
     (\<exists>meta. (txid, meta) \<in> set carried \<and> (txid \<in> set known \<or> (\<exists>c \<in> set (leg_inputs meta). gone c known)))"
  by (induction carried) (auto simp: ended_now_def List.map_filter_def Let_def filter_empty_conv split: if_splits)

lemma insert_all: "set (foldl (\<lambda>p (txid, _). hset_insert txid p) known ended) = set known \<union> set (map fst ended)"
  by (induction ended arbitrary: known) auto

text \<open>
  The loop ends where nothing more is proven, what it ends is what it adds to the proven ids, and
  whatever rule holds of the ids proven so far and carries from them to an id it ends holds of
  all it ends.
\<close>

lemma judge_loop_spec:
  assumes "judge_loop gone known j carried = (known', j', carried')"
  shows "\<exists>new. ju_ended j' = ju_ended j @ new \<and> set known' = set known \<union> set new \<and> ju_converted j' = ju_converted j
    \<and> carried' = filter (\<lambda>(t, _). t \<notin> set new) carried \<and> set new \<subseteq> set (map fst carried)
    \<and> ended_now gone known' carried' = []"
  using assms
proof (induction gone known j carried rule: judge_loop.induct)
  case (1 gone known j carried)
  define ended where "ended = ended_now gone known carried"
  show ?case
  proof (cases "ended = []")
    case True
    then show ?thesis using 1(2) by (subst (asm) judge_loop.simps) (auto simp: ended_def Let_def intro!: exI [of _ "[]"])
  next
    case False
    let ?known = "foldl (\<lambda>p (txid, _). hset_insert txid p) known ended"
    let ?j = "j\<lparr>ju_spent := ju_spent j @ concat (map snd ended), ju_ended := ju_ended j @ map fst ended\<rparr>"
    have st: "judge_loop gone ?known ?j (end_carried ended carried) = (known', j', carried')"
      using 1(2) False by (subst (asm) judge_loop.simps) (simp add: ended_def Let_def)
    obtain new where new: "ju_ended j' = (ju_ended j @ map fst ended) @ new" "set known' = set ?known \<union> set new"
      "ju_converted j' = ju_converted j" "carried' = filter (\<lambda>(t, _). t \<notin> set new) (end_carried ended carried)"
      "set new \<subseteq> set (map fst (end_carried ended carried))" "ended_now gone known' carried' = []"
      using 1(1) [OF ended_def False st] by auto
    have sub: "set (map fst ended) \<subseteq> set (map fst carried)"
    proof
      fix t assume "t \<in> set (map fst ended)"
      then show "t \<in> set (map fst carried)" unfolding ended_def ended_now_mem by (force simp: image_iff)
    qed
    have "carried' = filter (\<lambda>(t, _). t \<notin> set (map fst ended @ new)) carried"
      unfolding new(4) end_carried_def filter_filter by (intro filter_cong) auto
    moreover have "set (map fst ended @ new) \<subseteq> set (map fst carried)"
      using sub new(5) by (auto simp: end_carried_def image_iff)
    moreover have "set known' = set known \<union> set (map fst ended @ new)" using new(2) by (simp only: insert_all set_append Un_assoc)
    ultimately show ?thesis using new(1,3,6) by (intro exI [of _ "map fst ended @ new"]) simp
  qed
qed

lemma judge_loop_sound:
  assumes "judge_loop gone known j carried = (known', j', carried')" "\<forall>t \<in> set known. P t"
    and closed: "\<And>t meta c known. (t, meta) \<in> set carried0 \<Longrightarrow> c \<in> set (leg_inputs meta) \<Longrightarrow> gone c known \<Longrightarrow>
      \<forall>u \<in> set known. P u \<Longrightarrow> P t"
    and "set carried \<subseteq> set carried0"
  shows "\<forall>t \<in> set known'. P t"
  using assms(1,2,4) closed
proof (induction gone known j carried rule: judge_loop.induct)
  case (1 gone known j carried)
  define ended where "ended = ended_now gone known carried"
  show ?case
  proof (cases "ended = []")
    case True
    then show ?thesis using 1(2,3) by (subst (asm) judge_loop.simps) (auto simp: ended_def Let_def)
  next
    case False
    let ?known = "foldl (\<lambda>p (txid, _). hset_insert txid p) known ended"
    let ?j = "j\<lparr>ju_spent := ju_spent j @ concat (map snd ended), ju_ended := ju_ended j @ map fst ended\<rparr>"
    have st: "judge_loop gone ?known ?j (end_carried ended carried) = (known', j', carried')"
      using 1(2) False by (subst (asm) judge_loop.simps) (simp add: ended_def Let_def)
    have "P t" if "t \<in> set (map fst ended)" for t
      using that 1(3-5) unfolding ended_def ended_now_mem by blast
    then have "\<forall>t \<in> set ?known. P t" using 1(3) unfolding insert_all by blast
    moreover have "set (end_carried ended carried) \<subseteq> set carried0" using 1(4) by (auto simp: end_carried_def)
    ultimately show ?thesis
      using 1(1) [OF ended_def False st] 1(5) by blast
  qed
qed

section \<open>The judgement\<close>

definition clamped :: "nat \<Rightarrow> nat \<Rightarrow> ('h, 'a) leg_meta \<Rightarrow> ('h, 'a) leg_meta" where
  "clamped score now meta =
     meta\<lparr>lm_since_daa := min (lm_since_daa meta) score, lm_since_unix_ms := min (lm_since_unix_ms meta) now\<rparr>"

lemma clamped_inputs [simp]: "leg_inputs (clamped score now meta) = leg_inputs meta"
  by (simp add: clamped_def leg_inputs_def)

text \<open>A carried send that proves nothing for a day by both clocks becomes a leg of unknown fate.\<close>

definition leg_for :: "nat \<Rightarrow> 'h \<Rightarrow> ('h, 'a) leg_meta \<Rightarrow> nat \<Rightarrow> ('h, 'a) unknown_leg" where
  "leg_for now txid meta seq =
     \<lparr>ul_txid = txid, ul_paid_to = lm_paid_to meta, ul_held = lm_direct meta, ul_earlier = lm_earlier meta,
      ul_since_unix_ms = now, ul_seq = seq\<rparr>"

lemma convert_stale_all:
  assumes "foldl (convert_stale now) (s, j) stale = (s', j')" "distinct stale" "\<forall>t \<in> set stale. hget (fl_carried s) t \<noteq> None"
  shows "hget (fl_carried s') t = (if t \<in> set stale then None else hget (fl_carried s) t)
    \<and> ju_converted j' = ju_converted j @ stale \<and> ju_ended j' = ju_ended j
    \<and> (\<forall>t \<in> set stale. \<exists>seq. leg_for now t (the (hget (fl_carried s) t)) seq \<in> set (fl_unknown s'))
    \<and> (\<forall>leg \<in> set (fl_unknown s). ul_txid leg \<notin> set stale \<longrightarrow> leg \<in> set (fl_unknown s'))"
  using assms
proof (induction stale arbitrary: s j)
  case (Cons u stale)
  obtain meta where meta: "hget (fl_carried s) u = Some meta" using Cons.prems(3) by auto
  define s1 where "s1 = fst (convert_stale now (s, j) u)"
  define j1 where "j1 = snd (convert_stale now (s, j) u)"
  have s1: "fl_carried s1 = hdel u (fl_carried s)"
    "fl_unknown s1 = filter (\<lambda>leg. ul_txid leg \<noteq> u) (fl_unknown s) @ [leg_for now u meta (fl_next_unknown s)]"
    "j1 = j\<lparr>ju_converted := ju_converted j @ [u]\<rparr>"
    using meta by (simp_all add: s1_def j1_def convert_stale_def fate_unknown_def leg_for_def Let_def)
  have fold: "foldl (convert_stale now) (s1, j1) stale = (s', j')" using Cons.prems(1) by (simp add: s1_def j1_def)
  have pre: "distinct stale" "\<forall>t \<in> set stale. hget (fl_carried s1) t \<noteq> None"
    using Cons.prems(2,3) by (auto simp: s1)
  note IH = Cons.IH [OF fold pre]
  have u: "u \<notin> set stale" using Cons.prems(2) by simp
  have "leg_for now u meta (fl_next_unknown s) \<in> set (fl_unknown s')"
    using IH u by (auto simp: s1 leg_for_def)
  moreover have "\<exists>seq. leg_for now t (the (hget (fl_carried s) t)) seq \<in> set (fl_unknown s')" if "t \<in> set stale" for t
  proof -
    have "hget (fl_carried s1) t = hget (fl_carried s) t" using that u by (auto simp: s1)
    then show ?thesis using IH that by metis
  qed
  moreover have "hget (fl_carried s') t = (if t \<in> set (u # stale) then None else hget (fl_carried s) t)"
    using IH by (simp add: s1)
  moreover have "ju_converted j' = ju_converted j @ u # stale \<and> ju_ended j' = ju_ended j" using IH by (simp add: s1)
  ultimately show ?case using IH meta by (auto simp: s1)
qed simp

definition stale_at :: "nat \<Rightarrow> nat \<Rightarrow> ('h, 'a) in_flight \<Rightarrow> 'h \<Rightarrow> bool" where
  "stale_at score now s txid \<longleftrightarrow>
     (case hget (fl_carried s) txid of None \<Rightarrow> False
      | Some meta \<Rightarrow> stale_leg (fl_carried_for_daa s) score now (clamped score now meta))"

lemma judge_loop_least:
  fixes carried :: "('h, ('h, 'a) leg_meta) hmap"
  assumes "judge_loop (\<lambda>c. evidence_spent ev c may_land) proven j (map (\<lambda>(t, m). (t, clamped score now m)) carried) = (known, j', rest)"
  shows "set known = {t. proves_settled ev may_land proven carried t}"
proof
  let ?P = "proves_settled ev may_land proven carried" and ?gone = "\<lambda>c. evidence_spent ev c may_land"
  let ?clamped = "map (\<lambda>(t, m). (t, clamped score now m)) carried"
  have "\<forall>t \<in> set known. ?P t"
  proof (rule judge_loop_sound [OF assms])
    fix t meta c known'
    assume "(t, meta) \<in> set ?clamped" and c: "c \<in> set (leg_inputs meta)" and g: "?gone c known'" and k: "\<forall>u \<in> set known'. ?P u"
    then obtain m where "(t, m) \<in> set carried" "meta = clamped score now m" by auto
    then show "?P t" using c g k by (intro evidence_by_coin [of ev c may_land known' t m]) auto
  qed (auto intro: by_answer)
  then show "set known \<subseteq> {t. ?P t}" by blast
  obtain new where new: "set known = set proven \<union> set new" "rest = filter (\<lambda>(t, _). t \<notin> set new) ?clamped"
    "ended_now ?gone known rest = []" using judge_loop_spec [OF assms] by blast
  have "?P t \<Longrightarrow> t \<in> set known" for t
  proof (induction rule: proves_settled.induct)
    case (by_coin txid meta c a)
    then have gone: "?gone c known" by (auto simp: evidence_spent_def Let_def split: if_splits)
    show ?case
    proof (rule ccontr)
      assume "txid \<notin> set known"
      moreover have "(txid, clamped score now meta) \<in> set ?clamped" using by_coin.hyps(1) by force
      ultimately have "(txid, clamped score now meta) \<in> set rest" using new(1,2) by auto
      then have "txid \<in> set (map fst (ended_now ?gone known rest))"
        unfolding ended_now_mem using by_coin.hyps(2) gone by (metis clamped_inputs)
      then show False using new(3) by simp
    qed
  qed (use new(1) in simp)
  then show "{t. ?P t} \<subseteq> set known" by blast
qed

lemma hget_map_clamped: "hget (map (\<lambda>(t, m). (t, f m)) carried) t = map_option f (hget carried t)"
  by (induction carried) auto

lemma judge_carried_parts:
  fixes s :: "('h, 'a) in_flight"
  assumes "hmap_ok (fl_carried s)"
    and "judge_carried proven (\<lambda>c. evidence_spent ev c may_land) score now s = (s', proven', j)"
  defines "settles \<equiv> proves_settled ev may_land proven (fl_carried s)"
  shows "set proven' = {t. settles t}" "set (ju_ended j) = {t. hget (fl_carried s) t \<noteq> None \<and> settles t}"
    "set (ju_converted j) = {t. stale_at score now s t \<and> \<not> settles t}"
    "hget (fl_carried s') t = (if settles t \<or> stale_at score now s t then None else map_option (clamped score now) (hget (fl_carried s) t))"
    "stale_at score now s t \<and> \<not> settles t \<longrightarrow>
       (\<exists>seq. leg_for now t (clamped score now (the (hget (fl_carried s) t))) seq \<in> set (fl_unknown s'))"
proof -
  let ?c = "map (\<lambda>(t, m). (t, clamped score now m)) (fl_carried s)"
  obtain known j1 rest where loop: "judge_loop (\<lambda>c. evidence_spent ev c may_land) proven
      \<lparr>ju_spent = [], ju_ended = [], ju_converted = []\<rparr> ?c = (known, j1, rest)" by (metis prod_cases3)
  obtain new where new: "ju_ended j1 = new" "ju_converted j1 = []" "set known = set proven \<union> set new"
    "rest = filter (\<lambda>(t, _). t \<notin> set new) ?c" "set new \<subseteq> set (map fst ?c)"
    using judge_loop_spec [OF loop] by auto
  have least: "set known = {t. settles t}" unfolding settles_def by (rule judge_loop_least [OF loop])
  define stale where "stale = map fst (filter (\<lambda>(_, meta). stale_leg (fl_carried_for_daa s) score now meta) rest)"
  have conv: "foldl (convert_stale now) (s\<lparr>fl_carried := rest\<rparr>, j1) stale = (s', j)" "proven' = known"
    using assms(2) loop unfolding judge_carried_def clamped_def [symmetric] stale_def
    by (auto simp: Let_def split: prod.splits)
  have ok: "hmap_ok rest" using assms(1) new(4)
    by (auto simp: hmap_ok_def distinct_map inj_on_def comp_def split_beta intro!: distinct_filter)
  have in_rest: "hget rest t = (if t \<in> set new then None else map_option (clamped score now) (hget (fl_carried s) t))" for t
    using new(4) hget_filter_key [of "\<lambda>t. t \<notin> set new" ?c t] by (simp add: hget_map_clamped)
  have stale_mem: "t \<in> set stale \<longleftrightarrow> (\<exists>m. hget rest t = Some m \<and> stale_leg (fl_carried_for_daa s) score now m)" for t
    using hmap_ok_mem [OF ok] by (force simp: stale_def)
  show "set proven' = {t. settles t}" using conv(2) least by simp
  have fix_point: "ended_now (\<lambda>c. evidence_spent ev c may_land) known rest = []" using judge_loop_spec [OF loop] by auto
  have ended: "t \<in> set new \<longleftrightarrow> hget (fl_carried s) t \<noteq> None \<and> settles t" for t
  proof
    assume "t \<in> set new"
    then have "t \<in> set (hkeys (fl_carried s))" "t \<in> set known" using new(3,5) by (auto simp: split_beta image_iff)
    then show "hget (fl_carried s) t \<noteq> None \<and> settles t" using least unfolding set_hkeys by simp
  next
    assume t: "hget (fl_carried s) t \<noteq> None \<and> settles t"
    show "t \<in> set new"
    proof (rule ccontr)
      assume n: "t \<notin> set new"
      obtain m where "hget (fl_carried s) t = Some m" using t by blast
      then have "hget rest t = Some (clamped score now m)" unfolding in_rest using n by simp
      then have "(t, clamped score now m) \<in> set rest" by (rule hget_Some_mem)
      then have "t \<in> set (map fst (ended_now (\<lambda>c. evidence_spent ev c may_land) known rest))"
        unfolding ended_now_mem using t least by blast
      then show False using fix_point by simp
    qed
  qed
  have stale_iff: "t \<in> set stale \<longleftrightarrow> stale_at score now s t \<and> \<not> settles t" for t
    unfolding stale_mem in_rest ended stale_at_def by (auto split: option.splits)
  have distinct: "distinct stale" using ok by (simp add: stale_def hmap_ok_def distinct_map_filter)
  have stale_in: "\<forall>t \<in> set stale. hget (fl_carried (s\<lparr>fl_carried := rest\<rparr>)) t \<noteq> None" using stale_mem by auto
  note all = convert_stale_all [OF conv(1) distinct stale_in]
  show "set (ju_ended j) = {t. hget (fl_carried s) t \<noteq> None \<and> settles t}" using all new(1) ended by auto
  show "set (ju_converted j) = {t. stale_at score now s t \<and> \<not> settles t}" using all new(2) stale_iff by auto
  show "hget (fl_carried s') t = (if settles t \<or> stale_at score now s t then None else map_option (clamped score now) (hget (fl_carried s) t))"
  proof -
    have "hget (fl_carried s') t = (if t \<in> set stale then None else hget rest t)" using all [of t] by simp
    also have "\<dots> = (if settles t \<or> stale_at score now s t then None else map_option (clamped score now) (hget (fl_carried s) t))"
      unfolding stale_iff in_rest ended by (auto simp: stale_at_def)
    finally show ?thesis .
  qed
  show "stale_at score now s t \<and> \<not> settles t \<longrightarrow>
       (\<exists>seq. leg_for now t (clamped score now (the (hget (fl_carried s) t))) seq \<in> set (fl_unknown s'))"
  proof
    assume st: "stale_at score now s t \<and> \<not> settles t"
    then have "t \<in> set stale" using stale_iff by blast
    moreover have "the (hget rest t) = clamped score now (the (hget (fl_carried s) t))"
      using st unfolding in_rest ended by (auto simp: stale_at_def split: option.splits)
    ultimately show "\<exists>seq. leg_for now t (clamped score now (the (hget (fl_carried s) t))) seq \<in> set (fl_unknown s')"
      using all by fastforce
  qed
qed

text \<open>
  C9. A read judges the carried sends exactly as its evidence proves. The carried sends that a
  read ends are those the rules of the evidence settle, and no others, however long the chain of
  creators that must be settled first; the ids it has proven at the end are those the rules give.
  Of the rest those unresolved for a day by both clocks become legs of unknown fate with their
  coins and their payment, and every other one stays carried with its times no later than the
  read's.
\<close>

theorem judgement_is_least:
  assumes "hmap_ok (fl_carried s)"
    and "judge_carried proven (\<lambda>c. evidence_spent ev c may_land) score now s = (s', proven', j)"
  shows "set proven' = {t. proves_settled ev may_land proven (fl_carried s) t} \<and>
    set (ju_ended j) = {t. hget (fl_carried s) t \<noteq> None \<and> proves_settled ev may_land proven (fl_carried s) t} \<and>
    set (ju_converted j) = {t. stale_at score now s t \<and> \<not> proves_settled ev may_land proven (fl_carried s) t} \<and>
    hget (fl_carried s') = (\<lambda>t. if proves_settled ev may_land proven (fl_carried s) t \<or> stale_at score now s t then None
      else map_option (clamped score now) (hget (fl_carried s) t)) \<and>
    (\<forall>t \<in> set (ju_converted j). \<exists>seq. leg_for now t (clamped score now (the (hget (fl_carried s) t))) seq \<in> set (fl_unknown s'))"
proof (intro conjI ballI)
  note parts = judge_carried_parts [OF assms]
  show "hget (fl_carried s') = (\<lambda>t. if proves_settled ev may_land proven (fl_carried s) t \<or> stale_at score now s t then None
      else map_option (clamped score now) (hget (fl_carried s) t))"
    using parts(4) by (rule ext)
  fix t assume "t \<in> set (ju_converted j)"
  then show "\<exists>seq. leg_for now t (clamped score now (the (hget (fl_carried s) t))) seq \<in> set (fl_unknown s')"
    using parts(3) parts(5) [of t] by simp
qed (use judge_carried_parts [OF assms] in simp_all)

text \<open>A chain of two carried sends: the second spends an output of the first, which the answer shows settled.\<close>

definition demo_carried_coin :: "nat \<Rightarrow> nat \<Rightarrow> (nat, nat) utxo_entry" where
  "demo_carried_coin txid score = \<lparr>ue_txid = txid, ue_index = 0, ue_amount = 5, ue_address = Some 7, ue_script_version = 0, ue_script = [],
     ue_block_daa_score = score, ue_is_coinbase = False, ue_covenant_id = None\<rparr>"

definition demo_leg :: "(nat, nat) utxo_entry \<Rightarrow> (nat, nat) leg_meta" where
  "demo_leg c = \<lparr>lm_paid_to = ''k'', lm_direct = [c], lm_earlier = [], lm_outputs = [], lm_since_unix_ms = 10, lm_since_daa = 100\<rparr>"

definition demo_carried :: "(nat, nat) in_flight" where
  "demo_carried = no_sends_yet\<lparr>fl_carried := [(2, demo_leg (demo_carried_coin 1 u64_max)), (1, demo_leg (demo_carried_coin 0 50))]\<rparr>"

definition demo_answer :: "(nat, nat) read_evidence" where
  "demo_answer = \<lparr>re_asked = [7], re_unspent = [], re_score_read = 100, re_indexed_after = 10\<rparr>"

lemma judgement_is_least_witness:
  "set (ju_ended (snd (snd (judge_carried [] (\<lambda>c. evidence_spent demo_answer c [1, 2]) 100 20 demo_carried)))) =
     {t. hget (fl_carried demo_carried) t \<noteq> None \<and> proves_settled demo_answer [1, 2] [] (fl_carried demo_carried) t}"
proof -
  have "hmap_ok (fl_carried demo_carried)" by (simp add: demo_carried_def hmap_ok_def)
  from judgement_is_least [OF this prod.collapse [symmetric, THEN trans, OF arg_cong2 [OF refl prod.collapse [symmetric], of Pair]]]
  show ?thesis by blast
qed

end
