(* ===== verification/In_Flight_Inv.thy ===== *)
theory In_Flight_Inv
  imports In_Flight_Chains In_Flight_Judge Event_System
begin

text \<open>
  What every operation of the record of our sends in flight keeps
  (\<open>rust/chain/src/wallet_sync.rs\<close>, \<open>InFlightSends\<close>): its maps have one value for an id, the legs of
  unknown fate are in the order of their places with one leg for a transaction, and every queue
  is within its bound.
\<close>

definition maps_ok :: "('h, 'a) in_flight \<Rightarrow> bool" where
  "maps_ok s \<longleftrightarrow> hmap_ok (fl_sends s) \<and> hmap_ok (fl_taken s) \<and> hmap_ok (fl_cancelled s) \<and> hmap_ok (fl_meta s) \<and> hmap_ok (fl_carried s)"

definition unknown_ok :: "('h, 'a) unknown_leg list \<Rightarrow> nat \<Rightarrow> bool" where
  "unknown_ok legs n \<longleftrightarrow> distinct (map ul_txid legs) \<and> sorted_wrt (<) (map ul_seq legs) \<and> list_all (\<lambda>leg. ul_seq leg < n) legs"

definition settled_ok :: "'h hset \<times> 'h list \<Rightarrow> bool" where
  "settled_ok q \<longleftrightarrow> set (fst q) = set (snd q) \<and> distinct (snd q) \<and> length (snd q) \<le> read_settled_kept"

definition queues_ok :: "('h, 'a) in_flight \<Rightarrow> bool" where
  "queues_ok s \<longleftrightarrow> length (fl_landed s) \<le> landed_kept \<and> length (fl_retired s) \<le> landed_kept
     \<and> length (fl_spent_by_us s) \<le> spent_kept \<and> settled_ok (fl_read_settled s, fl_read_settled_order s)"

definition flight_ok :: "('h, 'a) in_flight \<Rightarrow> bool" where
  "flight_ok s \<longleftrightarrow> maps_ok s \<and> unknown_ok (fl_unknown s) (fl_next_unknown s) \<and> queues_ok s"

text \<open>An operation that changes none of these parts keeps them.\<close>

lemma flight_ok_same:
  assumes "flight_ok s" "fl_sends t = fl_sends s" "fl_taken t = fl_taken s" "fl_cancelled t = fl_cancelled s" "fl_meta t = fl_meta s"
    "fl_carried t = fl_carried s" "fl_unknown t = fl_unknown s" "fl_next_unknown t = fl_next_unknown s" "fl_landed t = fl_landed s"
    "fl_retired t = fl_retired s" "fl_spent_by_us t = fl_spent_by_us s" "fl_read_settled t = fl_read_settled s"
    "fl_read_settled_order t = fl_read_settled_order s"
  shows "flight_ok t"
  using assms by (simp add: flight_ok_def maps_ok_def queues_ok_def)

lemma flight_ok_maps:
  "flight_ok s \<Longrightarrow> hmap_ok m \<Longrightarrow> flight_ok (s\<lparr>fl_sends := m\<rparr>)"
  "flight_ok s \<Longrightarrow> hmap_ok m2 \<Longrightarrow> flight_ok (s\<lparr>fl_taken := m2\<rparr>)"
  "flight_ok s \<Longrightarrow> hmap_ok m3 \<Longrightarrow> flight_ok (s\<lparr>fl_cancelled := m3\<rparr>)"
  "flight_ok s \<Longrightarrow> hmap_ok m4 \<Longrightarrow> flight_ok (s\<lparr>fl_meta := m4\<rparr>)"
  "flight_ok s \<Longrightarrow> hmap_ok m4 \<Longrightarrow> flight_ok (s\<lparr>fl_carried := m4\<rparr>)"
  "flight_ok s \<Longrightarrow> flight_ok (s\<lparr>fl_accepted := h\<rparr>)"
  "flight_ok s \<Longrightarrow> flight_ok (s\<lparr>fl_legs := l\<rparr>)"
  "flight_ok s \<Longrightarrow> flight_ok (s\<lparr>fl_next_leg := n\<rparr>)"
  "flight_ok s \<Longrightarrow> flight_ok (s\<lparr>fl_readers := r\<rparr>)"
  "flight_ok s \<Longrightarrow> flight_ok (s\<lparr>fl_ours := o'\<rparr>)"
  by (simp_all add: flight_ok_def maps_ok_def queues_ok_def)

lemma flight_maps:
  assumes "flight_ok s"
  shows "hmap_ok (fl_sends s)" "hmap_ok (fl_taken s)" "hmap_ok (fl_cancelled s)" "hmap_ok (fl_meta s)" "hmap_ok (fl_carried s)"
  using assms by (simp_all add: flight_ok_def maps_ok_def)

lemma hmap_ok_filter: "hmap_ok m \<Longrightarrow> hmap_ok (filter P m)"
  by (simp add: hmap_ok_def distinct_map_filter)

lemma length_keep_newest [simp]: "length (keep_newest n xs) \<le> n"
  by (simp add: keep_newest_def)

lemma unknown_ok_filter: "unknown_ok legs n \<Longrightarrow> unknown_ok (filter P legs) n"
  unfolding unknown_ok_def by (simp add: distinct_map_filter list_all_iff sorted_wrt_map sorted_wrt_filter)

lemma unknown_ok_clamp:
  "unknown_ok legs n \<Longrightarrow> unknown_ok (map (\<lambda>leg. leg\<lparr>ul_since_unix_ms := f leg\<rparr>) legs) n"
  by (simp add: unknown_ok_def comp_def list_all_iff)

lemma flight_ok_unknown:
  "flight_ok s \<Longrightarrow> unknown_ok legs (fl_next_unknown s) \<Longrightarrow> flight_ok (s\<lparr>fl_unknown := legs\<rparr>)"
  by (simp add: flight_ok_def maps_ok_def queues_ok_def)

lemma flight_unknown: "flight_ok s \<Longrightarrow> unknown_ok (fl_unknown s) (fl_next_unknown s)"
  by (simp add: flight_ok_def)

lemma retire_ok: "flight_ok s \<Longrightarrow> flight_ok (retire keep now s)"
  by (simp add: flight_ok_def maps_ok_def queues_ok_def retire_def unknown_ok_filter)

lemma fate_unknown_ok:
  assumes "flight_ok s"
  shows "flight_ok (fate_unknown leg s)"
proof -
  let ?legs = "filter (\<lambda>known. ul_txid known \<noteq> ul_txid leg) (fl_unknown s)"
  have "unknown_ok ?legs (fl_next_unknown s)" using assms by (simp add: unknown_ok_filter flight_unknown)
  then have "unknown_ok (?legs @ [leg\<lparr>ul_seq := fl_next_unknown s\<rparr>]) (fl_next_unknown s + 1)"
    by (auto simp: unknown_ok_def list_all_iff sorted_wrt_append less_Suc_eq)
  then show ?thesis using assms by (simp add: fate_unknown_def flight_ok_def maps_ok_def queues_ok_def)
qed

lemma note_landed_fold:
  "length landed \<le> landed_kept \<Longrightarrow> length (foldl (\<lambda>l key. note_landed l key now) landed keys) \<le> landed_kept"
  by (induction keys arbitrary: landed) (simp_all add: note_landed_def)

lemma proven_landed_ok: "flight_ok s \<Longrightarrow> flight_ok (proven_landed landed now s)"
  by (auto simp: flight_ok_def maps_ok_def queues_ok_def proven_landed_def Let_def unknown_ok_filter note_landed_fold
      intro: order_trans [OF length_filter_le])

lemma own_send_seen_ok: "flight_ok s \<Longrightarrow> flight_ok (own_send_seen now txid spends s)"
  by (simp add: own_send_seen_def retire_spent_by_def retire_ok flight_ok_unknown unknown_ok_filter flight_unknown)

lemma retire_unknown_ok: "flight_ok s \<Longrightarrow> flight_ok (retire_unknown spent before now s)"
  by (simp add: retire_unknown_def retire_ok flight_ok_unknown unknown_ok_clamp flight_unknown)

lemma prune_flight_ok: "flight_ok s \<Longrightarrow> flight_ok (prune s)"
  by (simp add: prune_def flight_ok_maps)

lemma submit_returned_ok: "flight_ok s \<Longrightarrow> flight_ok (submit_returned now txid may s)"
  unfolding submit_returned_def Let_def
  by (auto intro!: prune_flight_ok fate_unknown_ok flight_ok_maps simp: flight_maps split: option.split)

lemma leave_one_ok: "flight_ok s \<Longrightarrow> flight_ok (fst (leave_one now txid s))"
  unfolding leave_one_def Let_def
  by (auto intro!: proven_landed_ok own_send_seen_ok flight_ok_maps simp: flight_maps fate_seen_def split: option.split)

lemma leave_all_ok: "flight_ok s \<Longrightarrow> flight_ok (leave_all now txids s)"
proof (induction now txids s rule: leave_all.induct)
  case (2 now txid txids s)
  obtain s' parents where one: "leave_one now txid s = (s', parents)" by force
  then show ?case using 2(1) [OF one [symmetric]] leave_one_ok [OF 2(2), of now txid] by simp
qed simp

lemma done_with_ok: "flight_ok s \<Longrightarrow> flight_ok (done_with now txid s)"
  unfolding done_with_def Let_def
  by (intro flight_ok_maps hmap_ok_hdel) (simp_all add: flight_maps own_send_seen_ok)

lemma settle_one_ok:
  assumes "settled_ok q"
  shows "settled_ok (settle_one txid q)"
proof -
  obtain known order where q: "q = (known, order)" by force
  have ok: "set known = set order" "distinct order" "length order \<le> read_settled_kept" using assms q by (simp_all add: settled_ok_def)
  have rem: "set (foldl (\<lambda>known old. hset_remove old known) k over) = set k - set over" for k :: "'a list" and over
    by (induction over arbitrary: k) auto
  show ?thesis
  proof (cases "txid \<in> set known")
    case True
    then show ?thesis using assms q by (simp add: settle_one_def)
  next
    case False
    let ?o = "order @ [txid]"
    let ?n = "length ?o - read_settled_kept"
    have d: "distinct ?o" using ok False by auto
    have e: "settle_one txid q = (foldl (\<lambda>known old. hset_remove old known) (hset_insert txid known) (take ?n ?o), drop ?n ?o)"
      using False q by (simp add: settle_one_def Let_def keep_newest_def)
    have s: "set (hset_insert txid known) = set ?o" using ok(1) by auto
    have "set ?o = set (take ?n ?o) \<union> set (drop ?n ?o)" by (metis append_take_drop_id set_append)
    moreover have "set (take ?n ?o) \<inter> set (drop ?n ?o) = {}" using d by (metis append_take_drop_id distinct_append)
    ultimately have "set ?o - set (take ?n ?o) = set (drop ?n ?o)" by blast
    moreover have "distinct (drop ?n ?o)" using d by (rule distinct_drop)
    moreover have "length (drop ?n ?o) \<le> read_settled_kept" by (simp only: length_drop)
    ultimately show ?thesis unfolding e settled_ok_def fst_conv snd_conv rem s by blast
  qed
qed

lemma settle_send_ok:
  assumes "flight_ok s"
  shows "flight_ok (settle_send now txid s)"
proof -
  obtain known order where q: "settle_one txid (fl_read_settled s, fl_read_settled_order s) = (known, order)" by force
  have "settled_ok (known, order)" using settle_one_ok [of "(fl_read_settled s, fl_read_settled_order s)" txid] assms q
    by (simp add: flight_ok_def queues_ok_def)
  then have "flight_ok (s\<lparr>fl_read_settled := known, fl_read_settled_order := order\<rparr>)"
    using assms by (simp add: flight_ok_def maps_ok_def queues_ok_def)
  then show ?thesis by (simp add: settle_send_def q done_with_ok)
qed

lemma flight_ok_spent: "flight_ok s \<Longrightarrow> length l \<le> spent_kept \<Longrightarrow> flight_ok (s\<lparr>fl_spent_by_us := l\<rparr>)"
  by (simp add: flight_ok_def maps_ok_def queues_ok_def)

lemma spent_withheld_ok: "flight_ok s \<Longrightarrow> flight_ok (fst (spent_withheld score margin now s))"
  unfolding spent_withheld_def Let_def fst_conv
  by (rule flight_ok_spent) (auto simp: flight_ok_def queues_ok_def intro: order_trans [OF length_filter_le])

lemma note_spent_at_ok: "flight_ok s \<Longrightarrow> flight_ok (note_spent_at coins daa now s)"
  by (simp add: note_spent_at_def flight_ok_spent)

lemma take_landed_ok: "flight_ok s \<Longrightarrow> flight_ok (fst (take_landed key now s))"
  by (auto simp: take_landed_def Let_def flight_ok_def maps_ok_def queues_ok_def intro: order_trans [OF length_filter_le])

lemma convert_stale_ok: "flight_ok s \<Longrightarrow> flight_ok (fst (convert_stale now (s, j) txid))"
  unfolding convert_stale_def Let_def
  by (auto intro!: flight_ok_maps fate_unknown_ok hmap_ok_hput flight_maps hmap_ok_hdel split: option.split)

lemma convert_all_ok: "flight_ok s \<Longrightarrow> flight_ok (fst (foldl (convert_stale now) (s, j) stale))"
proof (induction stale arbitrary: s j)
  case (Cons t stale)
  then show ?case using convert_stale_ok [of s now j t] by (cases "convert_stale now (s, j) t") simp
qed simp

lemma judge_carried_ok:
  assumes "flight_ok s"
  shows "flight_ok (fst (judge_carried proven gone score now s))"
proof -
  let ?c = "map (\<lambda>(txid, meta). (txid, meta\<lparr>lm_since_daa := min (lm_since_daa meta) score,
            lm_since_unix_ms := min (lm_since_unix_ms meta) now\<rparr>)) (fl_carried s)"
  obtain known j rest where loop: "judge_loop gone proven \<lparr>ju_spent = [], ju_ended = [], ju_converted = []\<rparr> ?c = (known, j, rest)"
    by (cases "judge_loop gone proven \<lparr>ju_spent = [], ju_ended = [], ju_converted = []\<rparr> ?c") simp
  obtain new where "rest = filter (\<lambda>(t, _). t \<notin> set new) ?c" using judge_loop_spec [OF loop] by blast
  moreover have "hmap_ok ?c" using flight_maps(5) [OF assms] by (simp add: hmap_ok_def comp_def split_beta)
  ultimately have "hmap_ok rest" by (simp only: hmap_ok_filter)
  then have "flight_ok (s\<lparr>fl_carried := rest\<rparr>)" using assms by (rule flight_ok_maps(5) [rotated])
  then have "flight_ok (fst (foldl (convert_stale now) (s\<lparr>fl_carried := rest\<rparr>, j) stale))" for stale by (rule convert_all_ok)
  then show ?thesis unfolding judge_carried_def Let_def loop prod.case by (simp only: split_beta fst_conv)
qed

section \<open>Every operation\<close>

datatype ('h, 's, 'a) flight_op =
    F_Enter "'s \<Rightarrow> 'a option" 'h "('h, 's) transaction_data" "'a hset"
  | F_Leave nat 'h
  | F_Submitting 'h "'h outpoint list"
  | F_Submit_Returned nat 'h bool
  | F_Begin_Read
  | F_End_Read nat
  | F_Fate_Unknown "('h, 'a) unknown_leg"
  | F_Retire_Unknown "('h, 'a) utxo_entry \<Rightarrow> bool" nat nat
  | F_Coins_Spent nat "'h outpoint list"
  | F_Creator_Lost nat 'h
  | F_Own_Send_Seen nat 'h "'h outpoint list"
  | F_Fate_Seen nat 'h
  | F_Outputs_Listed nat "'h hset"
  | F_Take_Landed string nat
  | F_Note_Taken "'h outgoing"
  | F_Note_Cancelled 'h "('h, 'a) utxo_entry list"
  | F_Reopen
  | F_Settled nat 'h
  | F_Done_With nat 'h
  | F_Note_Accepted 'h nat nat
  | F_Note_Spent "'h outpoint list" nat nat
  | F_Spent_Withheld nat nat nat
  | F_Judge "'h hset" "('h, 'a) utxo_entry \<Rightarrow> 'h hset \<Rightarrow> bool" nat nat
  | F_Keep_Watched "'a hset"
  | F_Remember_Leg 'h "('h, 'a) leg_meta"
  | F_Forget_Leg nat 'h
  | F_Snapshot

fun flight_step :: "('h, 'a) in_flight \<Rightarrow> ('h, 's, 'a) flight_op \<Rightarrow> ('h, 'a) in_flight" where
  "flight_step s (F_Enter address_of txid data ours) = enter address_of txid data ours s"
| "flight_step s (F_Leave now txid) = fst (leave now txid s)"
| "flight_step s (F_Submitting txid inputs) = submitting txid inputs s"
| "flight_step s (F_Submit_Returned now txid may) = submit_returned now txid may s"
| "flight_step s F_Begin_Read = fst (begin_read s)"
| "flight_step s (F_End_Read floor) = end_read floor s"
| "flight_step s (F_Fate_Unknown leg) = fate_unknown leg s"
| "flight_step s (F_Retire_Unknown spent before now) = retire_unknown spent before now s"
| "flight_step s (F_Coins_Spent now coins) = coins_spent now coins s"
| "flight_step s (F_Creator_Lost now txid) = creator_lost now txid s"
| "flight_step s (F_Own_Send_Seen now txid spends) = own_send_seen now txid spends s"
| "flight_step s (F_Fate_Seen now txid) = fate_seen now txid s"
| "flight_step s (F_Outputs_Listed now txids) = outputs_listed now txids s"
| "flight_step s (F_Take_Landed key now) = fst (take_landed key now s)"
| "flight_step s (F_Note_Taken rec) = note_taken rec s"
| "flight_step s (F_Note_Cancelled txid coins) = note_cancelled txid coins s"
| "flight_step s F_Reopen = fst (reopen s)"
| "flight_step s (F_Settled now txid) = settle_send now txid s"
| "flight_step s (F_Done_With now txid) = done_with now txid s"
| "flight_step s (F_Note_Accepted txid daa now) = note_accepted txid daa now s"
| "flight_step s (F_Note_Spent coins daa now) = note_spent_at coins daa now s"
| "flight_step s (F_Spent_Withheld score margin now) = fst (spent_withheld score margin now s)"
| "flight_step s (F_Judge proven gone score now) = fst (judge_carried proven gone score now s)"
| "flight_step s (F_Keep_Watched watched) = keep_watched watched s"
| "flight_step s (F_Remember_Leg txid meta) = remember_leg txid meta s"
| "flight_step s (F_Forget_Leg now txid) = forget_leg now txid s"
| "flight_step s F_Snapshot = s\<lparr>fl_meta := kept_meta s\<rparr>"

lemma flight_step_ok:
  assumes "flight_ok s"
  shows "flight_ok (flight_step s f)"
proof (cases f)
  case (F_Enter address_of txid data ours)
  then show ?thesis using assms flight_maps(1) [OF assms]
    by (auto simp: enter_def Let_def intro!: flight_ok_maps split: option.split)
next
  case (F_Keep_Watched watched)
  then show ?thesis using assms
    by (auto simp: keep_watched_def Let_def flight_ok_def maps_ok_def queues_ok_def hmap_ok_filter unknown_ok_filter)
next
  case F_Reopen
  then show ?thesis using assms by (auto simp: reopen_def intro!: flight_ok_maps)
next
  case (F_Forget_Leg now txid)
  then show ?thesis using assms flight_maps [OF assms] by (auto simp: forget_leg_def intro!: submit_returned_ok flight_ok_maps)
next
  case (F_Leave now txid)
  show ?thesis unfolding F_Leave flight_step.simps leave_def fst_conv using assms by (rule leave_all_ok)
qed (use assms flight_maps [OF assms] in \<open>simp_all add: submitting_def flight_ok_maps submit_returned_ok
    begin_read_def end_read_def prune_flight_ok Let_def fate_unknown_ok retire_unknown_ok coins_spent_def creator_lost_def retire_ok
    own_send_seen_ok fate_seen_def outputs_listed_def proven_landed_ok take_landed_ok note_taken_def note_cancelled_def
    settle_send_ok done_with_ok note_accepted_def note_spent_at_ok spent_withheld_ok judge_carried_ok remember_leg_def kept_meta_def
    hmap_ok_filter\<close>)

interpretation flights: event_system flight_step flight_ok "\<lambda>_. True"
  by unfold_locales (rule flight_step_ok)

lemma no_sends_flight_ok: "flight_ok no_sends_yet"
  by (simp add: no_sends_yet_def flight_ok_def maps_ok_def unknown_ok_def queues_ok_def settled_ok_def)

text \<open>
  C38. The record of our sends stays well formed and bounded. After any operations in any order,
  with any answers, clocks and coins, every map has one value for an id; the legs of unknown fate
  have one leg for a transaction and stand in the order of their places, each below the next
  place; at most 64 landed notices, 64 retired legs and 4096 spent coins are kept; and the
  settled sends known are exactly those of the queue that forgets them, at most 1024.
\<close>

theorem flight_invariant:
  fixes ops :: "('h, 's, 'a) flight_op list"
  shows "let s = foldl flight_step no_sends_yet ops in
     maps_ok s \<and> distinct (map ul_txid (fl_unknown s)) \<and> sorted_wrt (<) (map ul_seq (fl_unknown s)) \<and>
     list_all (\<lambda>leg. ul_seq leg < fl_next_unknown s) (fl_unknown s) \<and>
     length (fl_landed s) \<le> 64 \<and> length (fl_retired s) \<le> 64 \<and> length (fl_spent_by_us s) \<le> 4096 \<and>
     set (fl_read_settled s) = set (fl_read_settled_order s) \<and> length (fl_read_settled_order s) \<le> 1024"
proof -
  have "flight_ok (foldl flight_step no_sends_yet ops)"
    using flights.events_keep [OF no_sends_flight_ok] by (simp add: list_all_iff)
  then show ?thesis
    by (simp add: flight_ok_def unknown_ok_def queues_ok_def settled_ok_def landed_kept_def spent_kept_def read_settled_kept_def Let_def)
qed

end
