(* ===== verification/In_Flight_Anchor.thy ===== *)
theory In_Flight_Anchor
  imports In_Flight_Sends
begin

text \<open>
  How a retry meets the legs of unknown fate (\<open>rust/chain/src/wallet_sync.rs\<close>, \<open>anchoring\<close>): which
  coins lead a build for the same payment, so that it conflicts with every leg that may have left.
\<close>

section \<open>What one leg adds\<close>

definition leg_lead ::
  "string \<Rightarrow> 'h outpoint hset \<Rightarrow> nat \<Rightarrow> ('h :: linorder, 'a) unknown_leg \<Rightarrow> ('h, 'a) utxo_entry list list" where
  "leg_lead key ours now leg =
     (let own = filter (\<lambda>c. entry_id c \<notin> set ours) (ul_held leg); earlier = filter (\<lambda>c. entry_id c \<notin> set ours) (ul_earlier leg) in
      if ul_paid_to leg \<noteq> key then []
      else if own \<noteq> [] then [largest_coins_first own]
      else if ul_held leg = [] \<and> now - ul_since_unix_ms leg < earlier_anchor_for_ms \<and> earlier \<noteq> [] then [largest_coins_first earlier]
      else [])"

definition leg_trail :: "string \<Rightarrow> 'h outpoint hset \<Rightarrow> 'h outpoint hset \<Rightarrow> ('h, 'a) unknown_leg \<Rightarrow> ('h, 'a) utxo_entry list" where
  "leg_trail key spendable ours leg =
     (if ul_paid_to leg = key then []
      else filter (\<lambda>c. entry_id c \<in> set spendable \<and> entry_id c \<notin> set ours) (ul_held leg))"

definition leg_blocks :: "string \<Rightarrow> 'h outpoint hset \<Rightarrow> ('h, 'a) unknown_leg \<Rightarrow> bool" where
  "leg_blocks key ours leg \<longleftrightarrow>
     ul_paid_to leg = key \<and> ul_held leg \<noteq> [] \<and> list_all (\<lambda>c. entry_id c \<in> set ours) (ul_held leg)"

lemma anchor_leg_adds:
  "anchor_leg key spendable ours now (a, each) leg =
     (a\<lparr>an_last := an_last a @ leg_trail key spendable ours leg, an_blocked := an_blocked a \<or> leg_blocks key ours leg\<rparr>,
      each @ leg_lead key ours now leg)"
  by (cases a) (auto simp: anchor_leg_def leg_lead_def leg_trail_def leg_blocks_def Let_def filter_empty_conv list_all_iff conj_commute)

lemma anchor_legs_add:
  "foldl (anchor_leg key spendable ours now) (a, each) legs =
     (a\<lparr>an_last := an_last a @ concat (map (leg_trail key spendable ours) legs),
        an_blocked := an_blocked a \<or> (\<exists>leg \<in> set legs. leg_blocks key ours leg)\<rparr>,
      each @ concat (map (leg_lead key ours now) legs))"
  by (induction legs arbitrary: a each) (auto simp: anchor_leg_adds)

lemma set_largest_coins_first [simp]: "set (largest_coins_first coins) = set coins"
  by (simp add: largest_coins_first_def)

lemma largest_coins_first_Nil [simp]: "largest_coins_first coins = [] \<longleftrightarrow> coins = []"
  using set_largest_coins_first [of coins] by (metis set_empty)

lemma largest_leads:
  assumes "c \<in> set coins"
  shows "ue_amount c \<le> ue_amount (hd (largest_coins_first coins))"
proof -
  let ?k = "\<lambda>c. - int (ue_amount c)"
  have "sorted (map ?k (largest_coins_first coins))" by (simp add: largest_coins_first_def)
  moreover have "c \<in> set (largest_coins_first coins)" using assms by simp
  ultimately have "?k (hd (largest_coins_first coins)) \<le> ?k c"
    by (cases "largest_coins_first coins") auto
  then show ?thesis by simp
qed

lemma lead_parts:
  assumes "coins \<in> set (leg_lead key ours now leg)"
  shows "coins \<noteq> []" "c \<in> set coins \<Longrightarrow> entry_id c \<notin> set ours"
  using assms by (auto simp: leg_lead_def Let_def split: if_splits)

lemma lead_length: "length (leg_lead key ours now leg) \<le> (if ul_paid_to leg = key then 1 else 0)"
  by (simp add: leg_lead_def Let_def)

lemma leads_length:
  "length (concat (map (leg_lead key ours now) legs)) \<le> length (filter (\<lambda>leg. ul_paid_to leg = key) legs)"
proof (induction legs)
  case (Cons leg legs)
  then show ?case using lead_length [of key ours now leg] by (auto split: if_splits)
qed simp

lemma anchoring_parts:
  assumes each_def: "each = concat (map (leg_lead key (ours_in_flight spent s) now) (fl_unknown s))"
  shows "anchoring_for key spendable spent now s =
    \<lparr>an_first = map hd each @ concat (map (drop 1) each),
     an_last = concat (map (leg_trail key spendable (ours_in_flight spent s)) (fl_unknown s)),
     an_blocked = (\<exists>leg \<in> set (fl_unknown s). leg_blocks key (ours_in_flight spent s) leg)\<rparr>"
proof -
  have "filter (\<lambda>cs. cs \<noteq> []) each = each"
    unfolding each_def filter_id_conv using lead_parts(1) by fastforce
  then show ?thesis by (simp add: anchoring_for_def anchor_legs_add each_def)
qed

section \<open>The property\<close>

text \<open>The first coins of a build hold the largest of a leg's coins that no other send of ours spends.\<close>

definition leads_with :: "'h outpoint hset \<Rightarrow> ('h, 'a) utxo_entry list \<Rightarrow> ('h, 'a) utxo_entry list \<Rightarrow> bool" where
  "leads_with ours leading coins \<longleftrightarrow>
     (\<exists>c \<in> set leading. c \<in> set coins \<and>
        list_all (\<lambda>d. entry_id d \<in> set ours \<or> ue_amount d \<le> ue_amount c) coins)"

text \<open>A leg without coins of its own that still anchors: it is younger than a day.\<close>

definition anchors_earlier :: "nat \<Rightarrow> ('h, 'a) unknown_leg \<Rightarrow> bool" where
  "anchors_earlier now leg \<longleftrightarrow> ul_held leg = [] \<and> now - ul_since_unix_ms leg < earlier_anchor_for_ms"

lemma free_leads:
  assumes "largest_coins_first (filter (\<lambda>c. entry_id c \<notin> set ours) coins) \<in> set each"
    and "filter (\<lambda>c. entry_id c \<notin> set ours) coins \<noteq> []" and "set (map hd each) \<subseteq> set leading"
  shows "leads_with ours leading coins"
proof -
  let ?own = "filter (\<lambda>c. entry_id c \<notin> set ours) coins"
  have "hd (largest_coins_first ?own) \<in> set leading" using assms(1,3) by auto
  moreover have "hd (largest_coins_first ?own) \<in> set ?own"
    using assms(2) by (metis hd_in_set largest_coins_first_Nil set_largest_coins_first)
  moreover have "entry_id c \<in> set ours \<or> ue_amount c \<le> ue_amount (hd (largest_coins_first ?own))" if "c \<in> set coins" for c
    using largest_leads [of c ?own] that by auto
  ultimately show ?thesis unfolding leads_with_def list_all_iff by auto
qed

lemma lead_from:
  assumes "coins \<in> set (leg_lead key ours now leg)" and "c \<in> set coins"
  shows "ul_paid_to leg = key \<and> (c \<in> set (ul_held leg) \<or> anchors_earlier now leg \<and> c \<in> set (ul_earlier leg))"
  using assms by (auto simp: leg_lead_def anchors_earlier_def Let_def split: if_splits)

text \<open>
  C8. A retry cannot pay twice beside a leg that may have left. Take every leg of unknown fate of
  the payment. If it holds coins of its own, a build for the payment has the largest of them that
  no other send of ours spends among its first coins, of which there are no more than legs of the
  payment; or the build is marked blocked, because sends of ours in flight spend every coin of
  the leg, and it is marked so for no other reason. If it holds none and is younger than a day, the
  same is so of the coins its earlier legs held, unless sends of ours spend them all; older than a
  day it is passed over. The build leads with no other coins than those of such legs, and no
  coin it offers, first or last, is one a send of ours in flight spends.
\<close>

theorem retry_meets_every_leg:
  "let a = anchoring_for key spendable spent now s; ours = ours_in_flight spent s;
       mine = filter (\<lambda>leg. ul_paid_to leg = key) (fl_unknown s); lead = take (length mine) (an_first a)
   in list_all (\<lambda>leg.
        if ul_held leg \<noteq> []
        then leads_with ours lead (ul_held leg) \<or> (an_blocked a \<and> list_all (\<lambda>c. entry_id c \<in> set ours) (ul_held leg))
        else earlier_anchor_for_ms \<le> now - ul_since_unix_ms leg \<or> leads_with ours lead (ul_earlier leg)
          \<or> list_all (\<lambda>c. entry_id c \<in> set ours) (ul_earlier leg)) mine
      \<and> an_blocked a = list_ex (\<lambda>leg. ul_held leg \<noteq> [] \<and> list_all (\<lambda>c. entry_id c \<in> set ours) (ul_held leg)) mine
      \<and> list_all (\<lambda>c. list_ex (\<lambda>leg. c \<in> set (ul_held leg) \<or> anchors_earlier now leg \<and> c \<in> set (ul_earlier leg)) mine) (an_first a)
      \<and> list_all (\<lambda>c. entry_id c \<notin> set ours) (an_first a @ an_last a)"
proof -
  let ?ours = "ours_in_flight spent s" and ?mine = "filter (\<lambda>leg. ul_paid_to leg = key) (fl_unknown s)"
  let ?a = "anchoring_for key spendable spent now s"
  let ?lead = "take (length ?mine) (an_first ?a)" and ?free = "filter (\<lambda>c. entry_id c \<notin> set ?ours)"
  define each where "each = concat (map (leg_lead key ?ours now) (fl_unknown s))"
  have a: "an_first ?a = map hd each @ concat (map (drop 1) each)"
    "an_last ?a = concat (map (leg_trail key spendable ?ours) (fl_unknown s))"
    "an_blocked ?a = (\<exists>leg \<in> set (fl_unknown s). leg_blocks key ?ours leg)"
    unfolding anchoring_parts [OF each_def] by simp_all
  have lead: "set (map hd each) \<subseteq> set ?lead"
    using leads_length [of key ?ours now "fl_unknown s"] by (simp add: a(1) each_def)
  have blocked: "an_blocked ?a = list_ex (\<lambda>leg. ul_held leg \<noteq> [] \<and> list_all (\<lambda>c. entry_id c \<in> set ?ours) (ul_held leg)) ?mine"
    unfolding a(3) by (auto simp: leg_blocks_def list_ex_iff)
  have "leads_with ?ours ?lead (ul_held leg) \<or> (an_blocked ?a \<and> list_all (\<lambda>c. entry_id c \<in> set ?ours) (ul_held leg))"
    if leg: "leg \<in> set ?mine" "ul_held leg \<noteq> []" for leg
  proof (cases "?free (ul_held leg) = []")
    case True
    then show ?thesis using leg a(3) by (auto simp: leg_blocks_def filter_empty_conv list_all_iff)
  next
    case False
    then have "largest_coins_first (?free (ul_held leg)) \<in> set each"
      using leg by (auto simp: each_def leg_lead_def intro!: bexI [of _ leg])
    then show ?thesis using free_leads False lead by blast
  qed
  moreover have "earlier_anchor_for_ms \<le> now - ul_since_unix_ms leg \<or> leads_with ?ours ?lead (ul_earlier leg)
      \<or> list_all (\<lambda>c. entry_id c \<in> set ?ours) (ul_earlier leg)" if leg: "leg \<in> set ?mine" "ul_held leg = []" for leg
  proof (cases "?free (ul_earlier leg) = [] \<or> earlier_anchor_for_ms \<le> now - ul_since_unix_ms leg")
    case True
    then show ?thesis by (auto simp: filter_empty_conv list_all_iff)
  next
    case False
    then have "largest_coins_first (?free (ul_earlier leg)) \<in> set each"
      using leg by (auto simp: each_def leg_lead_def Let_def intro!: bexI [of _ leg])
    then show ?thesis using free_leads False lead by blast
  qed
  moreover have first: "\<exists>coins \<in> set each. c \<in> set coins" if "c \<in> set (an_first ?a)" for c
  proof -
    have "cs \<noteq> []" if "cs \<in> set each" for cs using that unfolding each_def by (auto dest: lead_parts(1))
    then show ?thesis using that unfolding a(1) by (auto dest!: in_set_dropD intro: bexI hd_in_set)
  qed
  then have "\<exists>leg \<in> set ?mine. c \<in> set (ul_held leg) \<or> anchors_earlier now leg \<and> c \<in> set (ul_earlier leg)"
    if "c \<in> set (an_first ?a)" for c
    using that lead_from [of _ key ?ours now _ c] unfolding each_def by fastforce
  moreover have "entry_id c \<notin> set ?ours" if "c \<in> set (an_first ?a @ an_last ?a)" for c
  proof (cases "c \<in> set (an_first ?a)")
    case True
    then show ?thesis using first lead_parts(2) unfolding each_def by fastforce
  next
    case False
    then show ?thesis using that unfolding a(2) by (auto simp: leg_trail_def split: if_splits)
  qed
  ultimately show ?thesis
    unfolding Let_def list_all_iff list_ex_iff blocked by simp
qed

end
