(* ===== verification/In_Flight_Restart.thy ===== *)
theory In_Flight_Restart
  imports In_Flight_Sends Sends_Store_Props "HOL-Library.Multiset"
begin

text \<open>
  The record of our sends over a restart (\<open>rust/chain/src/wallet_sync.rs\<close>: \<open>snapshot\<close>, \<open>land\<close>, \<open>load\<close>
  over \<open>sends_store.rs\<close>): what a snapshot that answered puts on the disk, and what the next process
  starts with.
\<close>

section \<open>Records of legs\<close>

lemma all_some_map: "(\<And>x. x \<in> set xs \<Longrightarrow> f x = Some (g x)) \<Longrightarrow> all_some (map f xs) = Some (map g xs)"
  by (induction xs) auto

lemma leg_of_record_of:
  assumes "wallet_text_ok W"
  shows "leg_of_record W (leg_record_of W meta txid st) = Some meta"
proof -
  have coins: "all_some (map (coin_of_record W \<circ> coin_record_of W) coins) = Some coins" for coins
    using all_some_map [of coins "coin_of_record W \<circ> coin_record_of W" id] coin_round_trip [OF assms] by simp
  have "parse_address W (show_address W a) = Some a" for a using assms by (simp add: wallet_text_ok_def)
  then have "output_of_record W \<lparr>or_index = i, or_value = v, or_address = map_option (show_address W) a\<rparr> = Some (i, v, a)" for i v a
    by (cases a) (simp_all add: output_of_record_def)
  then have "all_some (map (output_of_record W \<circ> (\<lambda>(index, value, address). \<lparr>or_index = index, or_value = value,
      or_address = map_option (show_address W) address\<rparr>)) outputs) = Some outputs" for outputs
    by (induction outputs) auto
  then show ?thesis by (simp add: leg_of_record_def leg_record_of_def coins)
qed

lemma leg_record_fields [simp]:
  "lr_txid (leg_record_of W meta txid st) = show_hash W txid" "lr_state (leg_record_of W meta txid st) = st"
  by (simp_all add: leg_record_of_def)

section \<open>What a snapshot holds and a load makes of it\<close>

type_synonym ('h, 'a) kept_leg = "'h \<times> ('h, 'a) leg_meta \<times> leg_state"

definition kept_record :: "('h, 'a) wallet_text \<Rightarrow> ('h, 'a) kept_leg \<Rightarrow> leg_record" where
  "kept_record W k = (case k of (txid, meta, st) \<Rightarrow> leg_record_of W meta txid st)"

definition kept_legs :: "('h, 'a) in_flight \<Rightarrow> ('h, 'a) kept_leg list" where
  "kept_legs s =
     map (\<lambda>leg. (ul_txid leg, unknown_meta (kept_meta s) leg, Unknown)) (fl_unknown s)
     @ map (\<lambda>(txid, m). (txid, m, if hget (fl_taken s) txid \<noteq> None then Sent else Submitting))
         (filter (\<lambda>(txid, _). txid \<notin> set (map ul_txid (fl_unknown s))) (kept_meta s))
     @ map (\<lambda>(txid, m). (txid, m, Sent)) (filter (\<lambda>(txid, _). hget (kept_meta s) txid = None) (fl_carried s))"

lemma insort_key_map: "insort_key f (g x) (map g xs) = map g (insort_key (\<lambda>x. f (g x)) x xs)"
  by (induction xs) auto

lemma sort_key_map: "sort_key f (map g xs) = map g (sort_key (\<lambda>x. f (g x)) xs)"
  by (induction xs) (simp_all add: insort_key_map)

lemma snapshot_legs_kept: "snapshot_legs W s = map (kept_record W) (sort_key (\<lambda>k. lr_txid (kept_record W k)) (kept_legs s))"
proof -
  have e: "map (kept_record W) (kept_legs s) =
    map (\<lambda>leg. leg_record_of W (unknown_meta (kept_meta s) leg) (ul_txid leg) Unknown) (fl_unknown s)
    @ map (\<lambda>(txid, m). leg_record_of W m txid (if hget (fl_taken s) txid \<noteq> None then Sent else Submitting))
        (filter (\<lambda>(txid, _). txid \<notin> set (map ul_txid (fl_unknown s))) (kept_meta s))
    @ map (\<lambda>(txid, m). leg_record_of W m txid Sent) (filter (\<lambda>(txid, _). hget (kept_meta s) txid = None) (fl_carried s))"
    by (simp add: kept_legs_def kept_record_def comp_def case_prod_beta')
  show ?thesis unfolding sort_key_map [symmetric] snapshot_legs_def Let_def e ..
qed

text \<open>A leg of unknown fate as it is told apart: its transaction, its payment, its coins and its time.\<close>

definition leg_told :: "('h, 'a) unknown_leg \<Rightarrow> 'h \<times> string \<times> ('h, 'a) utxo_entry list \<times> ('h, 'a) utxo_entry list \<times> nat" where
  "leg_told leg = (ul_txid leg, ul_paid_to leg, ul_held leg, ul_earlier leg, ul_since_unix_ms leg)"

definition meta_told :: "'h \<Rightarrow> ('h, 'a) leg_meta \<Rightarrow> 'h \<times> string \<times> ('h, 'a) utxo_entry list \<times> ('h, 'a) utxo_entry list \<times> nat" where
  "meta_told txid m = (txid, lm_paid_to m, lm_direct m, lm_earlier m, lm_since_unix_ms m)"

lemma load_leg_kept:
  assumes "wallet_text_ok W"
  shows "load_leg W (s, un) (kept_record W (txid, m, st)) =
    (if st = Sent then (s\<lparr>fl_carried := hput txid m (fl_carried s)\<rparr>, un)
     else (s\<lparr>fl_unknown := fl_unknown s @ [\<lparr>ul_txid = txid, ul_paid_to = lm_paid_to m, ul_held = lm_direct m,
             ul_earlier = lm_earlier m, ul_since_unix_ms = lm_since_unix_ms m, ul_seq = fl_next_unknown s\<rparr>],
           fl_next_unknown := fl_next_unknown s + 1, fl_meta := hput txid m (fl_meta s)\<rparr>, un))"
proof -
  have "parse_hash W (show_hash W txid) = Some txid" using assms by (simp add: wallet_text_ok_def)
  then show ?thesis using leg_of_record_of [OF assms] by (simp add: load_leg_def kept_record_def)
qed

lemma load_kept_legs:
  assumes "wallet_text_ok W" "distinct (map fst (filter (\<lambda>(_, _, st). st = Sent) ks))"
  shows "\<exists>s'. foldl (load_leg W) (s, un) (map (kept_record W) ks) = (s', un) \<and>
    (\<forall>t. hget (fl_carried s') t = (case map_of (filter (\<lambda>(_, _, st). st = Sent) ks) t of None \<Rightarrow> hget (fl_carried s) t | Some (m, _) \<Rightarrow> Some m)) \<and>
    set (map leg_told (fl_unknown s')) = set (map leg_told (fl_unknown s)) \<union> {meta_told t m |t m st. (t, m, st) \<in> set ks \<and> st \<noteq> Sent}"
  using assms(2)
proof (induction ks arbitrary: s)
  case (Cons k ks)
  obtain t m st where k: "k = (t, m, st)" by (metis prod_cases3)
  define s1 where "s1 = fst (load_leg W (s, un) (kept_record W k))"
  have step: "load_leg W (s, un) (kept_record W k) = (s1, un)"
    using load_leg_kept [OF assms(1), of s un t m st] k by (simp add: s1_def)
  have "distinct (map fst (filter (\<lambda>(_, _, st). st = Sent) ks))" using Cons.prems by (cases "st = Sent") (simp_all add: k)
  from Cons.IH [OF this, of s1] obtain s' where s': "foldl (load_leg W) (s1, un) (map (kept_record W) ks) = (s', un)"
    "\<And>u. hget (fl_carried s') u = (case map_of (filter (\<lambda>(_, _, st). st = Sent) ks) u of None \<Rightarrow> hget (fl_carried s1) u | Some (m, _) \<Rightarrow> Some m)"
    "set (map leg_told (fl_unknown s')) = set (map leg_told (fl_unknown s1)) \<union> {meta_told t m |t m st. (t, m, st) \<in> set ks \<and> st \<noteq> Sent}"
    by blast
  have c: "fl_carried s1 = (if st = Sent then hput t m (fl_carried s) else fl_carried s)"
    and u: "set (map leg_told (fl_unknown s1)) = set (map leg_told (fl_unknown s)) \<union> (if st = Sent then {} else {meta_told t m})"
    using load_leg_kept [OF assms(1), of s un t m st] by (auto simp: s1_def k leg_told_def meta_told_def)
  have t: "st = Sent \<Longrightarrow> map_of (filter (\<lambda>(_, _, st). st = Sent) ks) t = None"
    using Cons.prems by (simp add: k map_of_eq_None_iff)
  show ?case
  proof (intro exI [of _ s'] conjI allI)
    show "foldl (load_leg W) (s, un) (map (kept_record W) (k # ks)) = (s', un)" using step s'(1) by simp
    fix v
    show "hget (fl_carried s') v = (case map_of (filter (\<lambda>(_, _, st). st = Sent) (k # ks)) v of None \<Rightarrow> hget (fl_carried s) v | Some (m, _) \<Rightarrow> Some m)"
      using s'(2) [of v] t unfolding c k by (auto split: option.split)
  next
    show "set (map leg_told (fl_unknown s')) = set (map leg_told (fl_unknown s)) \<union>
        {meta_told t m |t m st. (t, m, st) \<in> set (k # ks) \<and> st \<noteq> Sent}"
      unfolding s'(3) u k by auto
  qed
qed simp

lemma kept_sent:
  assumes "hmap_ok (fl_meta s)" "hmap_ok (fl_carried s)"
  shows "distinct (map fst (filter (\<lambda>(_, _, st). st = Sent) (kept_legs s)))"
    and "(t, m, Sent) \<in> set (kept_legs s) \<longleftrightarrow>
      (case hget (kept_meta s) t of
         Some m' \<Rightarrow> m' = m \<and> t \<notin> set (map ul_txid (fl_unknown s)) \<and> hget (fl_taken s) t \<noteq> None
       | None \<Rightarrow> hget (fl_carried s) t = Some m)"
proof -
  have ok: "hmap_ok (kept_meta s)" using assms(1) by (simp add: kept_meta_def hmap_ok_def distinct_map_filter)
  let ?u = "set (map ul_txid (fl_unknown s))"
  have parts: "map fst (filter (\<lambda>(_, _, st). st = Sent) (kept_legs s)) =
      map fst (filter (\<lambda>(t, _). t \<notin> ?u \<and> hget (fl_taken s) t \<noteq> None) (kept_meta s))
      @ map fst (filter (\<lambda>(t, _). hget (kept_meta s) t = None) (fl_carried s))"
  proof -
    have a: "filter (\<lambda>(_, _, st). st = Sent) (map (\<lambda>leg. (ul_txid leg, unknown_meta (kept_meta s) leg, Unknown)) legs) = []" for legs
      by (induction legs) auto
    have b: "map fst (filter (\<lambda>(_, _, st). st = Sent) (map (\<lambda>(txid, m). (txid, m, if hget (fl_taken s) txid \<noteq> None then Sent else Submitting))
        (filter (\<lambda>(txid, _). txid \<notin> ?u) ms))) = map fst (filter (\<lambda>(t, _). t \<notin> ?u \<and> hget (fl_taken s) t \<noteq> None) ms)" for ms
      by (induction ms) auto
    have c: "map fst (filter (\<lambda>(_, _, st). st = Sent) (map (\<lambda>(txid, m). (txid, m, Sent)) ms)) = map fst ms" for ms
      by (induction ms) auto
    show ?thesis unfolding kept_legs_def filter_append map_append a b c by simp
  qed
  have d: "distinct (map fst (filter P m))" if "hmap_ok m" for P and m :: "('h, 'x) hmap"
    using that by (simp add: hmap_ok_def distinct_map_filter)
  have "hget (kept_meta s) t \<noteq> None" if "t \<in> set (map fst (filter P (kept_meta s)))" for t and P
  proof -
    obtain m where "(t, m) \<in> set (kept_meta s)" using \<open>t \<in> _\<close> by auto
    then show ?thesis using hmap_ok_mem [OF ok, of t m] by simp
  qed
  moreover have "hget (kept_meta s) t = None" if "t \<in> set (map fst (filter (\<lambda>(t, _). hget (kept_meta s) t = None) (fl_carried s)))" for t
    using that by auto
  ultimately have "set (map fst (filter P (kept_meta s))) \<inter>
      set (map fst (filter (\<lambda>(t, _). hget (kept_meta s) t = None) (fl_carried s))) = {}" for P
    by (meson disjoint_iff)
  then show "distinct (map fst (filter (\<lambda>(_, _, st). st = Sent) (kept_legs s)))"
    unfolding parts distinct_append using d [OF ok] d [OF assms(2)] by blast
  show "(t, m, Sent) \<in> set (kept_legs s) \<longleftrightarrow>
      (case hget (kept_meta s) t of
         Some m' \<Rightarrow> m' = m \<and> t \<notin> ?u \<and> hget (fl_taken s) t \<noteq> None
       | None \<Rightarrow> hget (fl_carried s) t = Some m)"
  proof -
    have "(t, m, Sent) \<in> set (kept_legs s) \<longleftrightarrow>
        (t, m) \<in> set (kept_meta s) \<and> t \<notin> ?u \<and> hget (fl_taken s) t \<noteq> None
        \<or> (t, m) \<in> set (fl_carried s) \<and> hget (kept_meta s) t = None"
      by (auto simp: kept_legs_def image_iff)
    then show ?thesis unfolding hmap_ok_mem [OF ok] hmap_ok_mem [OF assms(2)] by (simp split: option.split)
  qed
qed

text \<open>
  What the next process is to start with, of the sends themselves: a transaction whose fate is
  unknown, one whose submit returned with the library's record of it, and one still in its submit.
\<close>

definition fate_open :: "('h, 'a) in_flight \<Rightarrow> 'h \<Rightarrow> bool" where
  "fate_open s t \<longleftrightarrow> (\<exists>leg \<in> set (fl_unknown s). ul_txid leg = t)"

definition in_submit :: "('h, 'a) in_flight \<Rightarrow> 'h \<Rightarrow> bool" where
  "in_submit s t \<longleftrightarrow> (\<exists>(seq, leg) \<in> set (fl_legs s). lo_txid leg = t \<and> \<not> lo_returned leg)"

text \<open>Carried in: what was sent, and what an earlier run carried in and this one did not take over.\<close>

definition carried_after :: "('h, 'a) in_flight \<Rightarrow> 'h \<Rightarrow> ('h, 'a) leg_meta option" where
  "carried_after s t =
     (case hget (fl_meta s) t of
        None \<Rightarrow> hget (fl_carried s) t
      | Some m \<Rightarrow> if fate_open s t then None else if hget (fl_taken s) t \<noteq> None then Some m
                  else if in_submit s t then None else hget (fl_carried s) t)"

text \<open>Of unknown fate: what was so, and every leg in its submit.\<close>

definition unknown_after :: "('h, 'a) in_flight \<Rightarrow> ('h \<times> string \<times> ('h, 'a) utxo_entry list \<times> ('h, 'a) utxo_entry list \<times> nat) set" where
  "unknown_after s = leg_told ` set (fl_unknown s) \<union>
     {meta_told t m |t m. hget (fl_meta s) t = Some m \<and> in_submit s t \<and> \<not> fate_open s t \<and> hget (fl_taken s) t = None}"

lemma kept_meta_hget:
  "hget (kept_meta s) t = (if fate_open s t \<or> hget (fl_taken s) t \<noteq> None \<or> in_submit s t then hget (fl_meta s) t else None)"
proof -
  have "t \<in> set (map ul_txid (fl_unknown s)) \<longleftrightarrow> fate_open s t"
    "t \<in> set (map (lo_txid \<circ> snd) (filter (\<lambda>(_, leg). \<not> lo_returned leg) (fl_legs s))) \<longleftrightarrow> in_submit s t"
    by (auto simp: fate_open_def in_submit_def image_iff)
  then show ?thesis unfolding kept_meta_def hget_filter_key by simp
qed

lemma carried_after_kept:
  "carried_after s t =
     (case hget (kept_meta s) t of
        Some m \<Rightarrow> if t \<notin> set (map ul_txid (fl_unknown s)) \<and> hget (fl_taken s) t \<noteq> None then Some m else None
      | None \<Rightarrow> hget (fl_carried s) t)"
proof -
  have "t \<in> set (map ul_txid (fl_unknown s)) \<longleftrightarrow> fate_open s t" by (auto simp: fate_open_def)
  then show ?thesis unfolding carried_after_def kept_meta_hget by (auto split: option.split)
qed

lemma unknown_after_kept:
  "unknown_after s = set (map leg_told (fl_unknown s)) \<union>
     {meta_told t m |t m. hget (kept_meta s) t = Some m \<and> t \<notin> set (map ul_txid (fl_unknown s)) \<and> hget (fl_taken s) t = None}"
proof -
  have "t \<in> set (map ul_txid (fl_unknown s)) \<longleftrightarrow> fate_open s t" for t by (auto simp: fate_open_def)
  then have "hget (kept_meta s) t = Some m \<and> t \<notin> set (map ul_txid (fl_unknown s)) \<and> hget (fl_taken s) t = None \<longleftrightarrow>
      hget (fl_meta s) t = Some m \<and> in_submit s t \<and> \<not> fate_open s t \<and> hget (fl_taken s) t = None" for t m
    unfolding kept_meta_hget by auto
  then show ?thesis unfolding unknown_after_def by simp
qed

lemma load_snapshot_legs:
  assumes W: "wallet_text_ok W" and ok: "hmap_ok (fl_meta s)" "hmap_ok (fl_carried s)"
    and s0: "fl_carried s0 = []" "fl_unknown s0 = []"
  shows "\<exists>s'. foldl (load_leg W) (s0, []) (snapshot_legs W s) = (s', []) \<and> hget (fl_carried s') = carried_after s
    \<and> set (map leg_told (fl_unknown s')) = unknown_after s"
proof -
  define ks where "ks = sort_key (\<lambda>k. lr_txid (kept_record W k)) (kept_legs s)"
  have set: "set ks = set (kept_legs s)" by (simp add: ks_def)
  have "mset (map fst (filter (\<lambda>(_, _, st). st = Sent) ks)) = mset (map fst (filter (\<lambda>(_, _, st). st = Sent) (kept_legs s)))"
    unfolding ks_def by (simp only: mset_map mset_filter mset_sort)
  then have dist: "distinct (map fst (filter (\<lambda>(_, _, st). st = Sent) ks))"
    using kept_sent(1) [OF ok] mset_eq_imp_distinct_iff by blast
  have mem: "map_of (filter (\<lambda>(_, _, st). st = Sent) ks) t = Some (m, st) \<longleftrightarrow> st = Sent \<and> (t, m, Sent) \<in> set (kept_legs s)" for t m st
    using dist set by (auto simp: map_of_eq_Some_iff)
  obtain s' where s': "foldl (load_leg W) (s0, []) (map (kept_record W) ks) = (s', [])"
    "\<And>t. hget (fl_carried s') t = (case map_of (filter (\<lambda>(_, _, st). st = Sent) ks) t of None \<Rightarrow> hget (fl_carried s0) t | Some (m, _) \<Rightarrow> Some m)"
    "set (map leg_told (fl_unknown s')) = set (map leg_told (fl_unknown s0)) \<union> {meta_told t m |t m st. (t, m, st) \<in> set ks \<and> st \<noteq> Sent}"
    using load_kept_legs [OF W dist, of s0 "[]"] by blast
  have "hget (fl_carried s') t = carried_after s t" for t
  proof (cases "map_of (filter (\<lambda>(_, _, st). st = Sent) ks) t")
    case None
    then have "(t, m, Sent) \<notin> set (kept_legs s)" for m using mem by (metis option.distinct(1))
    then have no: "\<not> (case hget (kept_meta s) t of
        Some m' \<Rightarrow> m' = m \<and> t \<notin> set (map ul_txid (fl_unknown s)) \<and> hget (fl_taken s) t \<noteq> None
      | None \<Rightarrow> hget (fl_carried s) t = Some m)" for m
      unfolding kept_sent(2) [OF ok] .
    have "carried_after s t = None"
    proof (cases "hget (kept_meta s) t")
      case None
      then show ?thesis using no [of "the (hget (fl_carried s) t)"] by (cases "hget (fl_carried s) t") (simp_all add: carried_after_kept)
    next
      case (Some m)
      then show ?thesis using no [of m] by (simp add: carried_after_kept)
    qed
    then show ?thesis using s'(2) None s0(1) by simp
  next
    case (Some mst)
    then obtain m where m: "mst = (m, Sent)" "(t, m, Sent) \<in> set (kept_legs s)" using mem by (metis surj_pair)
    then show ?thesis using s'(2) [of t] Some unfolding kept_sent(2) [OF ok] by (auto simp: carried_after_kept split: option.splits)
  qed
  moreover have "{meta_told t m |t m st. (t, m, st) \<in> set ks \<and> st \<noteq> Sent} = unknown_after s"
  proof -
    have okm: "hmap_ok (kept_meta s)" using ok(1) by (simp add: kept_meta_def hmap_ok_def distinct_map_filter)
    have told: "meta_told (ul_txid leg) (unknown_meta meta leg) = leg_told leg" for leg meta
      by (simp add: meta_told_def unknown_meta_def leg_told_def)
    have "(t, m, st) \<in> set ks \<and> st \<noteq> Sent \<longleftrightarrow>
      (\<exists>leg \<in> set (fl_unknown s). t = ul_txid leg \<and> m = unknown_meta (kept_meta s) leg \<and> st = Unknown) \<or>
      (hget (kept_meta s) t = Some m \<and> t \<notin> set (map ul_txid (fl_unknown s)) \<and> hget (fl_taken s) t = None \<and> st = Submitting)" for t m st
      unfolding set hmap_ok_mem [OF okm, symmetric] by (cases "hget (fl_taken s) t") (auto simp: kept_legs_def image_iff split: if_splits)
    then show ?thesis unfolding unknown_after_kept by (auto simp: told intro: exI) (metis told)+
  qed
  ultimately show ?thesis using s'(1,3) s0(2) by (intro exI [of _ s']) (simp add: snapshot_legs_kept ks_def fun_eq_iff)
qed

section \<open>The restart\<close>

lemma paths_apart:
  assumes "store \<noteq> []"
  shows "sends_path store \<noteq> []" "sends_path store \<noteq> spent_path store" "temp_path (spent_path store) \<noteq> sends_path store"
proof -
  have l: "last (sends_path store) = file_stem (last store) @ ''.sends''" "last (spent_path store) = file_stem (last store) @ ''.spent''"
    "last (temp_path (spent_path store)) = ''.'' @ (file_stem (last store) @ ''.spent'') @ ''.tmp''"
    using assms by (simp_all add: sends_path_def spent_path_def with_extension_def temp_path_def)
  show "sends_path store \<noteq> []" using assms by (simp add: sends_path_def with_extension_def)
  show "sends_path store \<noteq> spent_path store" using l(1,2) by auto
  have "last (last (sends_path store)) = CHR ''s''" "last (last (temp_path (spent_path store))) = CHR ''p''" unfolding l by simp_all
  then show "temp_path (spent_path store) \<noteq> sends_path store" by auto
qed

lemma durable_write_spares:
  assumes "durable_write \<lparr>df_path = p, df_kept = False\<rparr> g bs ws d = (ws', d', r)" "q \<noteq> p" "q \<noteq> temp_path p"
  shows "file_of d' q = file_of d q"
proof -
  have "content d' q = content d q"
  proof (cases "d' = d")
    case False
    then obtain r1 where aw: "atomic_write p bs d = (d', r1)"
      using assms(1) by (auto simp: durable_write_def Let_def split: prod.splits sum.splits if_splits)
    show ?thesis
    proof (cases "p = []")
      case True
      then show ?thesis using aw by (simp add: atomic_write_root)
    next
      case ne: False
      then show ?thesis using atomic_write_cases [OF ne aw] assms(2,3) by (elim disjE conjE exE) simp_all
    qed
  qed simp
  then show ?thesis by (simp add: file_of_def)
qed

definition store_at :: "string \<Rightarrow> path \<Rightarrow> sends_file_store" where
  "store_at network store = \<lparr>fstore_network = network, fstore_sends = \<lparr>df_path = sends_path store, df_kept = False\<rparr>,
     fstore_spent = \<lparr>df_path = spent_path store, df_kept = False\<rparr>\<rparr>"

text \<open>The writer of a file knows what the file holds and gave out every number it has taken.\<close>

definition writer_knows :: "path \<Rightarrow> writers \<Rightarrow> disk \<Rightarrow> bool" where
  "writer_knows p ws d \<longleftrightarrow> wr_bytes (writer_for p ws) = Some (file_of d p)
     \<and> wr_generation (writer_for p ws) \<le> wr_next (writer_for p ws)"

lemma kept_meta_again: "kept_meta (s\<lparr>fl_meta := kept_meta s\<rparr>) = kept_meta s"
  by (simp add: kept_meta_def)

lemma snapshot_sends_again: "snapshot_sends W (s\<lparr>fl_meta := kept_meta s\<rparr>) = snapshot_sends W s"
  by (simp add: snapshot_sends_def snapshot_legs_def kept_meta_again)

lemma landed_snapshot:
  assumes store: "store \<noteq> []" "fl_store s = Some (store_at network store)"
    and snap: "take_snapshot W J with_spent s ws = (s1, ws1, Some sn)"
    and landed: "land sn ws1 d = (ws2, d2, Inr ())" and knows: "writer_knows (sends_path store) ws d"
  shows "encode_sends J network (snapshot_sends W s) = Inr (file_of d2 (sends_path store))"
proof -
  let ?p = "sends_path store" and ?w = "writer_for (sends_path store) ws"
  note apart = paths_apart [OF store(1)]
  define spent where "spent = sn_spent sn"
  have sn: "sn_store sn = store_at network store" "sn_sends sn = (wr_next ?w + 1, encode_sends J network (snapshot_sends W s))"
    "writer_for ?p ws1 = ?w\<lparr>wr_next := wr_next ?w + 1\<rparr>"
    using snap store(2) apart(2)
    by (auto simp: take_snapshot_def Let_def next_generation_def store_at_def snapshot_sends_again writer_for_def split: if_splits)
  obtain bs where bs: "encode_sends J network (snapshot_sends W s) = Inr bs"
    using landed sn(2) by (cases "encode_sends J network (snapshot_sends W s)") (auto simp: land_def)
  obtain ws' d' r' where first: "durable_write \<lparr>df_path = ?p, df_kept = False\<rparr> (wr_next ?w + 1) bs ws1 d = (ws', d', r')"
    by (metis prod_cases3)
  have "r' = Inr ()" using landed sn(1,2) bs first by (auto simp: land_def store_at_def split: sum.splits)
  then have d': "file_of d' ?p = bs"
    using durable_write_cases [OF first] sn(3) knows by (auto simp: writer_knows_def)
  have "file_of d2 ?p = file_of d' ?p"
  proof (cases "sn_spent sn")
    case None
    then show ?thesis using landed sn(1,2) bs first \<open>r' = Inr ()\<close> by (auto simp: land_def store_at_def)
  next
    case (Some gb)
    then obtain g b where "durable_write \<lparr>df_path = spent_path store, df_kept = False\<rparr> g b ws' d' = (ws2, d2, Inr ())"
      using landed sn(1,2) bs first \<open>r' = Inr ()\<close> by (auto simp: land_def store_at_def split: sum.splits prod.splits)
    then show ?thesis by (rule durable_write_spares) (use apart in metis)+
  qed
  then show ?thesis using bs d' by simp
qed

lemma load_landed_snapshot:
  assumes W: "wallet_text_ok W" and J: "sends_json_ok J" and ok: "hmap_ok (fl_meta s)" "hmap_ok (fl_carried s)"
    and enc: "encode_sends J network (snapshot_sends W s) = Inr bs" and held: "content d (sends_path store) = Some bs" "faults d = []"
    and load: "load_in_flight W E J to_value is_dir store network per_block ws (d, n) = (w', ws', s')"
  shows "hget (fl_carried s') = carried_after s \<and> set (map leg_told (fl_unknown s')) = unknown_after s
    \<and> fl_landed s' = fl_landed s \<and> fl_retired s' = fl_retired s"
proof -
  have found: "load_sends E J is_dir (sends_path store) network (d, n) = ((d, n), \<lparr>lf_records = snapshot_sends W s, lf_bytes = bs, lf_kept = False\<rparr>)"
    using load_sends_found [OF J enc held] by metis
  obtain w2 spent where sp: "load_spent E J is_dir (spent_path store) network (d, n) = (w2, spent)" by (metis surj_pair)
  let ?s0 = "no_sends_yet\<lparr>fl_carried_for_daa := carried_for_daa per_block\<rparr> :: ('a, 'b) in_flight"
  obtain s2 where s2: "foldl (load_leg W) (?s0, []) (snapshot_legs W s) = (s2, [])" "hget (fl_carried s2) = carried_after s"
    "set (map leg_told (fl_unknown s2)) = unknown_after s"
    using load_snapshot_legs [OF W ok, of ?s0] by (auto simp: no_sends_yet_def)
  have legs: "sd_legs (snapshot_sends W s) = snapshot_legs W s" by (simp add: snapshot_sends_def)
  have p: "parse_hash W (show_hash W h) = Some h" for h using W by (simp add: wallet_text_ok_def)
  have landed: "map (\<lambda>r. (la_paid_to r, la_at_unix_ms r)) (sd_landed (snapshot_sends W s)) = fl_landed s"
    by (simp add: snapshot_sends_def comp_def split_beta)
  have retired: "List.map_filter (\<lambda>r. map_option (\<lambda>h. (h, rt_paid_to r, rt_at_unix_ms r)) (parse_hash W (rt_txid r)))
      (map (\<lambda>(txid, key, t). \<lparr>rt_txid = show_hash W txid, rt_paid_to = key, rt_at_unix_ms = t\<rparr>) rs) = rs" for rs
    by (induction rs) (auto simp: List.map_filter_simps p)
  have "fl_carried s' = fl_carried s2 \<and> fl_unknown s' = fl_unknown s2 \<and> fl_landed s' = fl_landed s \<and> fl_retired s' = fl_retired s"
    using load retired [of "fl_retired s"] landed unfolding load_in_flight_def found sp prod.case Let_def
    by (auto simp: legs s2(1) snapshot_sends_def split: prod.splits)
  then show ?thesis using s2(2,3) by simp
qed

text \<open>
  C6. A restart loses no send in flight. Let a snapshot of the record be taken and landed while the
  writer of the file knows what it holds, whatever fails before the answer; then take a process
  that starts on that disk with the same store and network. Every send whose submit had returned
  it carries in with its coins, outputs and times, and so it does every send an earlier run
  carried in that this run did not take over. Every leg of unknown fate, and every leg that was
  in its submit, it holds as a leg of unknown fate with its payment, its coins and its time. It
  holds no others, and it has the same notices and the same retired legs.
\<close>

theorem restart_loses_no_send:
  assumes "wallet_text_ok W" "sends_json_ok J" "\<And>x. write_sends J sends_format network x \<noteq> Some []"
    and "hmap_ok (fl_meta s)" "hmap_ok (fl_carried s)" "store \<noteq> []" "fl_store s = Some (store_at network store)"
    and "writer_knows (sends_path store) ws d" "take_snapshot W J with_spent s ws = (s1, ws1, Some sn)"
    and "land sn ws1 d = (ws2, d2, Inr ())" "faults d2 = []"
    and "load_in_flight W E J to_value is_dir store network per_block [] (d2, n) = (w', ws', s')"
  shows "hget (fl_carried s') = carried_after s \<and> set (map leg_told (fl_unknown s')) = unknown_after s
    \<and> fl_landed s' = fl_landed s \<and> fl_retired s' = fl_retired s"
proof -
  let ?bs = "file_of d2 (sends_path store)"
  have enc: "encode_sends J network (snapshot_sends W s) = Inr ?bs"
    using landed_snapshot [OF assms(6,7,9,10,8)] .
  then have "?bs \<noteq> []" using assms(3) [of "snapshot_sends W s"] by (auto simp: encode_sends_def split: option.splits)
  then have "content d2 (sends_path store) = Some ?bs" by (auto simp: file_of_def split: option.splits)
  then show ?thesis using load_landed_snapshot [OF assms(1,2,4,5) enc] assms(11,12) by blast
qed

text \<open>
  A record with one leg in its submit, one sent and one carried in. The codec writes this one
  record and reads it back.
\<close>

definition text_of_nat :: "(nat, nat) wallet_text" where
  "text_of_nat = \<lparr>show_hash = \<lambda>n. replicate n CHR ''x'', parse_hash = Some \<circ> length, show_address = \<lambda>n. replicate n CHR ''x'',
     parse_address = Some \<circ> length\<rparr>"

definition meta_paid :: "string \<Rightarrow> (nat, nat) leg_meta" where
  "meta_paid key = \<lparr>lm_paid_to = key, lm_direct = [], lm_earlier = [], lm_outputs = [(0, 4, Some 3)], lm_since_unix_ms = 5, lm_since_daa = 6\<rparr>"

definition three_sends :: "(nat, nat) in_flight" where
  "three_sends = no_sends_yet\<lparr>fl_meta := [(1, meta_paid ''a''), (2, meta_paid ''b'')],
     fl_legs := [(0, \<lparr>lo_txid = 1, lo_inputs = [], lo_returned = False\<rparr>)],
     fl_taken := [(2, \<lparr>og_id = 2, og_accepted = False, og_entries = []\<rparr>)],
     fl_carried := [(3, meta_paid ''c'')], fl_store := Some (store_at ''n'' [''log''])\<rparr>"

definition three_json :: "leg_record sends_json" where
  "three_json =
     \<lparr>parse_envelope = (\<lambda>bs. if bs = [7] then Some \<lparr>ev_format = 1, ev_network = ''n'',
         ev_legs = sd_legs (snapshot_sends text_of_nat three_sends), ev_landed = [], ev_retired = [], ev_coins = []\<rparr> else None),
      leg_of = Some, landed_of = (\<lambda>_. None), retired_of = (\<lambda>_. None), spent_of = (\<lambda>_. None), write_values = (\<lambda>_. None),
      write_sends = (\<lambda>fmt network s. if fmt = 1 \<and> network = ''n'' \<and> s = snapshot_sends text_of_nat three_sends then Some [7] else None),
      write_spent = (\<lambda>_ _ _. None)\<rparr>"

lemma restart_loses_no_send_witness:
  "\<exists>s1 ws1 sn ws2 d2 w' ws' s'.
     take_snapshot text_of_nat three_json False three_sends (snd (durable_new [''log.sends''] [] False [])) = (s1, ws1, Some sn) \<and>
     land sn ws1 \<lparr>files = [], faults = []\<rparr> = (ws2, d2, Inr ()) \<and>
     load_in_flight text_of_nat demo_process three_json (\<lambda>_. None) False [''log''] ''n'' 1000 [] (d2, 0) = (w', ws', s') \<and>
     hget (fl_carried s') = carried_after three_sends \<and> set (map leg_told (fl_unknown s')) = unknown_after three_sends"
proof -
  let ?ws = "snd (durable_new [''log.sends''] [] False [])" and ?d = "\<lparr>files = [], faults = []\<rparr> :: disk"
  have path: "sends_path [''log''] = [''log.sends'']" by (simp add: sends_path_def with_extension_def file_stem_def)
  obtain s1 ws1 sn0 where snap0: "take_snapshot text_of_nat three_json False three_sends ?ws = (s1, ws1, sn0)" by (metis prod_cases3)
  then obtain sn where sn: "sn0 = Some sn" by (auto simp: take_snapshot_def three_sends_def Let_def split_beta)
  obtain ws2 d2 r where land: "land sn ws1 ?d = (ws2, d2, r)" by (metis prod_cases3)
  obtain w' ws' s' where load: "load_in_flight text_of_nat demo_process three_json (\<lambda>_. None) False [''log''] ''n'' 1000 [] (d2, 0) = (w', ws', s')"
    by (metis prod_cases3)
  have W: "wallet_text_ok text_of_nat" by (simp add: wallet_text_ok_def text_of_nat_def)
  have J: "sends_json_ok three_json"
    by (auto simp: sends_json_ok_def three_json_def three_sends_def no_sends_yet_def snapshot_sends_def)
  have knows: "writer_knows (sends_path [''log'']) ?ws ?d"
    by (simp add: writer_knows_def path durable_new_def writer_for_def file_of_def content_def Let_def)
  have "snapshot_sends text_of_nat (three_sends\<lparr>fl_meta := kept_meta three_sends\<rparr>) = snapshot_sends text_of_nat three_sends"
    by (rule snapshot_sends_again)
  then have enc: "sn_sends sn = (1, Inr [7])" "sn_store sn = store_at ''n'' [''log'']" "sn_spent sn = None"
    "writer_for [''log.sends''] ws1 = \<lparr>wr_generation = 0, wr_bytes = Some [], wr_next = 1\<rparr>"
    using snap0 sn by (auto simp: take_snapshot_def Let_def next_generation_def store_at_def three_sends_def no_sends_yet_def path
        durable_new_def writer_for_def encode_sends_def three_json_def sends_format_def)
  obtain d3 where aw: "atomic_write [''log.sends''] [7] ?d = (d3, Inr ())" "faults d3 = []"
    by (simp add: atomic_write_def parent_def file_name_def Let_def put_file_def del_file_def io_call_def)
  have "r = Inr ()" "d2 = d3" using land enc aw by (auto simp: land_def durable_write_def store_at_def path Let_def)
  then show ?thesis
    using restart_loses_no_send [OF W J _ _ _ _ _ knows snap0 [unfolded sn] land [unfolded \<open>r = Inr ()\<close>] _ load] snap0 sn land load aw(2)
    by (simp add: three_json_def three_sends_def no_sends_yet_def hmap_ok_def)
qed

end
