(* ===== verification/Link_Text.thy ===== *)
theory Link_Text
  imports Rust_Str Chain_Error
begin

text \<open>
  The texts of the link (\<open>rust/chain/src/link.rs\<close>): why an endpoint was struck and the token it is
  kept under, what of a node's text may be logged, the host of an endpoint and the addresses a
  person may pin. A text is its bytes; \<open>chars_of\<close> cuts it into its characters.
\<close>

section \<open>Characters and pieces of a text\<close>

function chars_of :: "string \<Rightarrow> string list" where
  "chars_of [] = []"
| "chars_of (c # s) = take (max 1 (utf8_width (byte_of_char c))) (c # s) # chars_of (drop (max 1 (utf8_width (byte_of_char c))) (c # s))"
  by pat_completeness auto
termination
  by (relation "measure length") (auto simp: max_def)

declare chars_of.simps(2) [simp del]

lemma concat_chars_of [simp]: "concat (chars_of s) = s"
  by (induction s rule: chars_of.induct) (simp_all add: chars_of.simps)

lemma chars_of_nonempty: "w \<in> set (chars_of s) \<Longrightarrow> w \<noteq> []"
  by (induction s rule: chars_of.induct) (auto simp: chars_of.simps max_def split: if_splits)

text \<open>\<open>char::is_control\<close>: the Unicode category Cc.\<close>

definition is_control :: "string \<Rightarrow> bool" where
  "is_control w \<longleftrightarrow>
     (case w of
        [c] \<Rightarrow> (of_char c :: nat) < 0x20 \<or> (of_char c :: nat) = 0x7F
      | [c, d] \<Rightarrow> (of_char c :: nat) = 0xC2 \<and> (of_char d :: nat) < 0xA0
      | _ \<Rightarrow> False)"

fun find_text :: "string \<Rightarrow> string \<Rightarrow> nat option" where
  "find_text p [] = (if p = [] then Some 0 else None)"
| "find_text p (c # s) = (if starts_with (c # s) p then Some 0 else map_option Suc (find_text p s))"

definition has_text :: "string \<Rightarrow> string \<Rightarrow> bool" where
  "has_text s p \<longleftrightarrow> find_text p s \<noteq> None"

fun split_at :: "char \<Rightarrow> string \<Rightarrow> string list" where
  "split_at x [] = [[]]"
| "split_at x (c # s) =
     (if c = x then [] # split_at x s
      else (case split_at x s of p # ps \<Rightarrow> (c # p) # ps | [] \<Rightarrow> [[c]]))"

text \<open>\<open>str::lines\<close>: a line ends at a newline, with one carriage return before it; the last one may lack it.\<close>

fun lines_from :: "string \<Rightarrow> string \<Rightarrow> string list" where
  "lines_from line [] = (if line = [] then [] else [line])"
| "lines_from line (c # s) =
     (if c = CHR 0x0A then (if line \<noteq> [] \<and> last line = CHR 0x0D then butlast line else line) # lines_from [] s
      else lines_from (line @ [c]) s)"

definition lines_of :: "string \<Rightarrow> string list" where
  "lines_of s = lines_from [] s"

definition to_ascii_lowercase :: "string \<Rightarrow> string" where
  "to_ascii_lowercase s = map (\<lambda>c. if is_ascii_uppercase c then char_of ((of_char c :: nat) + 32) else c) s"

section \<open>What of a node's text is used\<close>

definition sanitize_node_text :: "string \<Rightarrow> string" where
  "sanitize_node_text text = concat (take 200 (filter (\<lambda>w. \<not> is_control w) (chars_of text)))"

definition schemes :: "string list" where
  "schemes = [''https://'', ''http://'', ''wss://'', ''ws://'']"

definition first_url :: "string \<Rightarrow> nat option" where
  "first_url rest =
     (case List.map_filter (\<lambda>p. find_text p rest) schemes of [] \<Rightarrow> None | at # ats \<Rightarrow> Some (foldl min at ats))"

definition url_ends :: "string \<Rightarrow> bool" where
  "url_ends w \<longleftrightarrow> w \<in> set whitespace \<or> w \<in> set ['')'', [CHR 0x22], '']'', '','']"

definition after_url :: "string \<Rightarrow> string" where
  "after_url tail = concat (dropWhile (\<lambda>w. \<not> url_ends w) (chars_of tail))"

definition ellipsis :: string where
  "ellipsis = [CHR 0xE2, CHR 0x80, CHR 0xA6]"

lemma find_text_Some: "find_text p s = Some i \<Longrightarrow> starts_with (drop i s) p \<and> i \<le> length s"
  by (induction p s arbitrary: i rule: find_text.induct) (auto simp: starts_with_def split: if_splits)

lemma foldl_min_mem: "foldl min (a :: nat) as \<in> set (a # as)"
proof (induction as arbitrary: a)
  case (Cons b as)
  then show ?case using Cons [of "min a b"] by (auto simp: min_def split: if_splits)
qed simp

lemma first_url_Some:
  assumes "first_url rest = Some at"
  obtains p where "p \<in> set schemes" "find_text p rest = Some at"
proof -
  have "at \<in> set (List.map_filter (\<lambda>p. find_text p rest) schemes)"
    using assms foldl_min_mem by (auto simp: first_url_def split: list.splits)
  then show thesis using that by (auto simp: List.map_filter_def)
qed

lemma after_url_shorter:
  assumes "first_url rest = Some at"
  shows "length (after_url (drop at rest)) < length rest"
proof -
  obtain p where p: "p \<in> set schemes" "find_text p rest = Some at" using first_url_Some [OF assms] .
  have "starts_with (drop at rest) p" using find_text_Some [OF p(2)] by blast
  then obtain c s where d: "drop at rest = c # s" "c = CHR ''h'' \<or> c = CHR ''w''"
    using p(1) by (auto simp: schemes_def starts_with_def dest: arg_cong [of _ _ length]) (metis append_Cons append_take_drop_id)+
  have w: "take (max 1 (utf8_width (byte_of_char c))) (c # s) = [c]" "drop (max 1 (utf8_width (byte_of_char c))) (c # s) = s"
    using d(2) by (auto simp: utf8_width_def byte_in_def byte_of_char_def)
  have "\<not> url_ends [c]" using d(2) by (auto simp: url_ends_def whitespace_def)
  then have "after_url (c # s) = concat (dropWhile (\<lambda>w. \<not> url_ends w) (chars_of s))"
    unfolding after_url_def chars_of.simps w by simp
  moreover have "length (concat (dropWhile P ws)) \<le> length (concat ws)" for P and ws :: "string list"
    by (induction ws) auto
  ultimately have "length (after_url (drop at rest)) \<le> length s" unfolding d by (metis concat_chars_of)
  moreover have "length s < length rest" using arg_cong [OF d(1), of length] by simp
  ultimately show ?thesis by simp
qed

function scrub_urls :: "string \<Rightarrow> string" where
  "scrub_urls rest =
     (case first_url rest of
        None \<Rightarrow> rest
      | Some at \<Rightarrow> take at rest @ ellipsis @ scrub_urls (after_url (drop at rest)))"
  by pat_completeness auto
termination
  by (relation "measure length") (simp_all add: after_url_shorter)

declare scrub_urls.simps [simp del]

section \<open>Why an endpoint was struck\<close>

datatype strike_reason =
    Dropped | Probe_Failed | Dial_Timeout | Http_Server_Error | Bind_Failed | Stall | Dns_Failure | Unreachable
  | Link_Blackout | Os_Lost_Adjacent | Self_Inflicted | Own_Load | Unknown_Reason

fun as_reason_token :: "strike_reason \<Rightarrow> string" where
  "as_reason_token Dropped = ''drop''"
| "as_reason_token Probe_Failed = ''probe-failed''"
| "as_reason_token Dial_Timeout = ''dial-timeout''"
| "as_reason_token Http_Server_Error = ''http-5xx''"
| "as_reason_token Bind_Failed = ''bind-failed''"
| "as_reason_token Stall = ''stall''"
| "as_reason_token Dns_Failure = ''dns-failure''"
| "as_reason_token Unreachable = ''unreachable''"
| "as_reason_token Link_Blackout = ''link-blackout''"
| "as_reason_token Os_Lost_Adjacent = ''os-lost-adjacent''"
| "as_reason_token Self_Inflicted = ''self-inflicted''"
| "as_reason_token Own_Load = ''own-load''"
| "as_reason_token Unknown_Reason = ''unknown''"

definition from_reason_token :: "string \<Rightarrow> strike_reason" where
  "from_reason_token token =
     (if token = ''drop'' then Dropped
      else if token = ''probe-failed'' then Probe_Failed
      else if token = ''dial-timeout'' then Dial_Timeout
      else if token = ''http-5xx'' then Http_Server_Error
      else if token = ''bind-failed'' then Bind_Failed
      else if token = ''stall'' then Stall
      else if token = ''dns-failure'' then Dns_Failure
      else if token = ''unreachable'' then Unreachable
      else if token = ''link-blackout'' then Link_Blackout
      else if token = ''os-lost-adjacent'' then Os_Lost_Adjacent
      else if token = ''self-inflicted'' then Self_Inflicted
      else if token = ''own-load'' then Own_Load
      else Unknown_Reason)"

lemma from_as_token [simp]: "from_reason_token (as_reason_token r) = r"
  by (cases r) (simp_all add: from_reason_token_def)

definition classify_probe_failure :: "string \<Rightarrow> strike_reason" where
  "classify_probe_failure text =
     (let lower = to_ascii_lowercase (sanitize_node_text (scrub_urls text)) in
      if has_text lower ''500 internal server error'' \<or> has_text lower ''502 bad gateway''
         \<or> has_text lower ''503 service unavailable'' \<or> has_text lower ''504 gateway timeout'' then Http_Server_Error
      else if has_text lower ''no address associated with hostname'' \<or> has_text lower ''failed to lookup address information''
         \<or> has_text lower ''name or service not known'' \<or> has_text lower ''temporary failure in name resolution'' then Dns_Failure
      else if has_text lower ''network is unreachable'' then Unreachable
      else if has_text lower ''timeout'' \<or> has_text lower ''timed out'' then Dial_Timeout
      else Probe_Failed)"

definition failed_at_the_dial :: "string \<Rightarrow> bool" where
  "failed_at_the_dial text \<longleftrightarrow> starts_with text ''probe dial ''"

definition is_idempotent_submit_error :: "string \<Rightarrow> bool" where
  "is_idempotent_submit_error message \<longleftrightarrow> has_text message ''already accepted by the consensus''
     \<or> has_text message ''is already in the mempool'' \<or> has_text message ''is already in the orphan pool''"

section \<open>Addresses of endpoints\<close>

definition endpoint_host :: "string \<Rightarrow> string" where
  "endpoint_host url =
     (let second = (case find_text ''://'' url of
          None \<Rightarrow> url
        | Some i \<Rightarrow> (let rest = drop (i + 3) url in case find_text ''://'' rest of None \<Rightarrow> rest | Some j \<Rightarrow> take j rest))
      in takeWhile (\<lambda>c. c \<noteq> CHR ''/'') second)"

definition candidate_url_is_clean :: "string \<Rightarrow> bool" where
  "candidate_url_is_clean url \<longleftrightarrow>
     url \<noteq> [] \<and> list_all (\<lambda>w. w \<notin> set whitespace \<and> \<not> is_control w \<and> w \<noteq> [CHR 0x7F]) (chars_of url)"

definition max_node_url_len :: nat where
  "max_node_url_len = 512"

definition validate_node_url :: "string \<Rightarrow> chain_error + string" where
  "validate_node_url raw =
     (let url = trim raw in
      if url = [] then Inl (Message (''node URL is empty '' @ em_dash @ '' leave it unset to use public node discovery''))
      else if max_node_url_len < length url then Inl (Message (''node URL is longer than '' @ decimal max_node_url_len @ '' bytes''))
      else if \<not> candidate_url_is_clean url then Inl (Message ''node URL contains whitespace or control characters'')
      else if \<not> (starts_with url ''wss://'' \<or> starts_with url ''ws://'')
        then Inl (Message (''node URL must start with wss:// or ws:// (a Kaspa node'' @ [CHR 0x27] @ ''s wRPC port, not its REST port)''))
      else if endpoint_host url = [] then Inl (Message ''node URL has no host'')
      else if CHR ''@'' \<in> set (endpoint_host url) \<or> CHR ''?'' \<in> set url \<or> CHR ''#'' \<in> set url
        then Inl (Message (''credentials in a node URL are not supported '' @ em_dash @ '' use an unauthenticated wRPC endpoint''))
      else Inr url)"

text \<open>An HTTP status in a walk's failure: a colon, a space, three digits and a space.\<close>

definition beacon_answered :: string where "beacon_answered = '' (a beacon answered)''"
definition resolver_fetch :: string where "resolver_fetch = ''resolver fetch''"

definition a_walk_answered :: "string \<Rightarrow> bool" where
  "a_walk_answered text \<longleftrightarrow>
     (case strip_prefix resolver_fetch text of None \<Rightarrow> False | Some rest \<Rightarrow> starts_with rest beacon_answered)"

fun a_beacon_answered :: "string \<Rightarrow> bool" where
  "a_beacon_answered [] \<longleftrightarrow> False"
| "a_beacon_answered (c # s) \<longleftrightarrow>
     (case s of
        sp # a # b # d # e # _ \<Rightarrow> c = CHR '':'' \<and> sp = CHR '' '' \<and> a \<in> set ''12345'' \<and> is_ascii_digit b \<and> is_ascii_digit d \<and> e = CHR '' ''
      | _ \<Rightarrow> False)
     \<or> a_beacon_answered s"

text \<open>What a resolver walk's answer becomes: the text of a failure says whether a beacon answered.\<close>

definition walk_failure :: "string \<Rightarrow> chain_error" where
  "walk_failure raw =
     Message (resolver_fetch @ (if a_beacon_answered raw then beacon_answered else []) @ '': '' @ sanitize_node_text raw)"

end
