(* ===== verification/Link_Health.thy ===== *)
theory Link_Health
  imports Link_Text Durable Ranking
begin

text \<open>
  The health of endpoints (\<open>rust/chain/src/link.rs\<close>): what a run or a round of failures says of an
  endpoint or of the phone, the strikes, the demotions and their file, the endpoints a race may
  draw on, round trips and silence, and the signed transactions kept for a resubmit.

  The maps of the code are association lists; a map's order is the list's, and what depends on it
  says so. A time is a natural number. Times given in a \<open>Duration\<close> are in seconds where the code
  compares seconds and in milliseconds where it compares milliseconds.
\<close>

section \<open>Runs and rounds\<close>

definition strike_window_secs :: nat where "strike_window_secs = 600"
definition demote_at_strikes :: nat where "demote_at_strikes = 2"
definition demotion_cooldown_secs :: nat where "demotion_cooldown_secs = 600"
definition clean_run_secs :: nat where "clean_run_secs = 300"
definition strike_dedup_secs :: nat where "strike_dedup_secs = 10"
definition min_strike_run_secs :: nat where "min_strike_run_secs = 10"
definition os_lost_adjacency_secs :: nat where "os_lost_adjacency_secs = 5"
definition self_inflicted_adjacency_secs :: nat where "self_inflicted_adjacency_secs = 5"
definition dns_correlation_min :: nat where "dns_correlation_min = 2"

datatype run_judgment = Clean_Run | Strike_Run | Churn_Noise

definition judge_run :: "nat \<Rightarrow> run_judgment" where
  "judge_run run_secs =
     (if clean_run_secs \<le> run_secs then Clean_Run else if min_strike_run_secs \<le> run_secs then Strike_Run else Churn_Noise)"

definition hosts_of :: "(string \<times> strike_reason) list \<Rightarrow> string list" where
  "hosts_of failed = remdups (map (endpoint_host \<circ> fst) failed)"

definition dns_outage_in_round :: "(string \<times> strike_reason) list \<Rightarrow> bool" where
  "dns_outage_in_round failed \<longleftrightarrow> dns_correlation_min \<le> length (hosts_of (filter (\<lambda>(_, reason). reason = Dns_Failure) failed))"

definition phone_fault_in_round :: "(string \<times> strike_reason) list \<Rightarrow> bool" where
  "phone_fault_in_round failed \<longleftrightarrow>
     dns_correlation_min \<le> length (hosts_of (filter (\<lambda>(_, reason). reason \<in> {Dns_Failure, Unreachable}) failed))"

definition nothing_answered_in_round :: "(string \<times> strike_reason) list \<Rightarrow> nat \<Rightarrow> bool" where
  "nothing_answered_in_round failed answered \<longleftrightarrow>
     answered = 0 \<and> list_all (\<lambda>(_, reason). reason \<in> {Dial_Timeout, Dns_Failure, Unreachable}) failed
     \<and> dns_correlation_min \<le> length (hosts_of failed)"

section \<open>Is a failure evidence?\<close>

datatype admissibility = Convict strike_reason | Withhold strike_reason

definition abs_diff :: "nat \<Rightarrow> nat \<Rightarrow> nat" where
  "abs_diff a b = max a b - min a b"

definition judge_admissibility :: "strike_reason \<Rightarrow> nat \<Rightarrow> nat \<Rightarrow> nat \<Rightarrow> bool \<Rightarrow> nat \<Rightarrow> admissibility" where
  "judge_admissibility reason event_at os_lost_at doubled_connect_at phone_fault_correlated phone_fault_round_at =
     (if reason = Http_Server_Error then Convict reason
      else if phone_fault_correlated \<and> reason \<in> {Dns_Failure, Unreachable} then Withhold reason
      else if reason \<in> {Dropped, Stall, Bind_Failed} \<and> phone_fault_round_at \<noteq> 0 \<and> event_at \<le> phone_fault_round_at
        then Withhold Link_Blackout
      else if doubled_connect_at \<noteq> 0 \<and> abs_diff event_at doubled_connect_at \<le> self_inflicted_adjacency_secs
        then Withhold Self_Inflicted
      else if os_lost_at \<noteq> 0 \<and> abs_diff event_at os_lost_at \<le> os_lost_adjacency_secs then Withhold Os_Lost_Adjacent
      else Convict reason)"

section \<open>The record of an endpoint\<close>

record health_record =
  hr_strikes :: nat
  hr_last_strike :: nat
  hr_demoted_until :: nat
  hr_last_healthy :: nat
  hr_last_reason :: strike_reason
  hr_withheld :: nat
  hr_last_run_secs :: nat

type_synonym endpoint_health = "(string, health_record) hmap"

definition no_health :: health_record where
  "no_health = \<lparr>hr_strikes = 0, hr_last_strike = 0, hr_demoted_until = 0, hr_last_healthy = 0,
     hr_last_reason = Unknown_Reason, hr_withheld = 0, hr_last_run_secs = 0\<rparr>"

definition health_of :: "endpoint_health \<Rightarrow> string \<Rightarrow> health_record" where
  "health_of h url = (case hget h url of None \<Rightarrow> no_health | Some r \<Rightarrow> r)"

definition strike_endpoint :: "string \<Rightarrow> nat \<Rightarrow> strike_reason \<Rightarrow> endpoint_health \<Rightarrow> endpoint_health \<times> bool" where
  "strike_endpoint url now reason h =
     (let r = health_of h url in
      if 0 < hr_strikes r \<and> now - hr_last_strike r < strike_dedup_secs then (hput url r h, now < hr_demoted_until r)
      else
        let n = (if strike_window_secs < now - hr_last_strike r then 0 else hr_strikes r) + 1;
            r = r\<lparr>hr_strikes := n, hr_last_strike := now, hr_last_reason := reason\<rparr>
        in if demote_at_strikes \<le> n then (hput url (r\<lparr>hr_demoted_until := now + demotion_cooldown_secs\<rparr>) h, True)
           else (hput url r h, False))"

definition withhold_strike :: "string \<Rightarrow> strike_reason \<Rightarrow> endpoint_health \<Rightarrow> endpoint_health" where
  "withhold_strike url reason h =
     (let r = health_of h url in hput url (r\<lparr>hr_withheld := min (hr_withheld r + 1) u32_max, hr_last_reason := reason\<rparr>) h)"

definition endpoint_last_reason :: "endpoint_health \<Rightarrow> string \<Rightarrow> (strike_reason \<times> nat) option" where
  "endpoint_last_reason h url = map_option (\<lambda>r. (hr_last_reason r, hr_withheld r)) (hget h url)"

definition record_run :: "string \<Rightarrow> nat \<Rightarrow> endpoint_health \<Rightarrow> endpoint_health" where
  "record_run url run_secs h = hput url ((health_of h url)\<lparr>hr_last_run_secs := run_secs\<rparr>) h"

definition endpoint_last_run :: "endpoint_health \<Rightarrow> string \<Rightarrow> nat option" where
  "endpoint_last_run h url = map_option hr_last_run_secs (hget h url)"

definition clean_run :: "string \<Rightarrow> endpoint_health \<Rightarrow> endpoint_health" where
  "clean_run url h = (case hget h url of None \<Rightarrow> h | Some r \<Rightarrow> hput url (r\<lparr>hr_strikes := 0\<rparr>) h)"

definition mark_healthy :: "string \<Rightarrow> nat \<Rightarrow> endpoint_health \<Rightarrow> endpoint_health" where
  "mark_healthy url now h = hput url ((health_of h url)\<lparr>hr_last_healthy := now\<rparr>) h"

definition has_live_strike :: "endpoint_health \<Rightarrow> string \<Rightarrow> nat \<Rightarrow> bool" where
  "has_live_strike h url now \<longleftrightarrow>
     (case hget h url of None \<Rightarrow> False | Some r \<Rightarrow> 0 < hr_strikes r \<and> now - hr_last_strike r \<le> strike_window_secs)"

definition is_demoted :: "endpoint_health \<Rightarrow> string \<Rightarrow> nat \<Rightarrow> bool" where
  "is_demoted h url now \<longleftrightarrow> (case hget h url of None \<Rightarrow> False | Some r \<Rightarrow> now < hr_demoted_until r)"

definition demoted_set :: "endpoint_health \<Rightarrow> nat \<Rightarrow> string hset" where
  "demoted_set h now = map fst (filter (\<lambda>(_, r). now < hr_demoted_until r) h)"

section \<open>The endpoints a race draws on\<close>

definition pantry_dials :: nat where "pantry_dials = 3"
definition pantry_fresh_secs :: nat where "pantry_fresh_secs = 7 * 24 * 3600"

definition in_pantry :: "string option \<Rightarrow> nat \<Rightarrow> bool \<Rightarrow> string \<times> health_record \<Rightarrow> bool" where
  "in_pantry cached now ignore_demotions e \<longleftrightarrow>
     (case e of (url, r) \<Rightarrow> 0 < hr_last_healthy r \<and> now - hr_last_healthy r \<le> pantry_fresh_secs
        \<and> (ignore_demotions \<or> hr_demoted_until r \<le> now) \<and> Some url \<noteq> cached)"

definition rank_of :: "(string, nat) hmap \<Rightarrow> string \<Rightarrow> nat" where
  "rank_of ranks url = (case hget ranks url of None \<Rightarrow> u64_max | Some n \<Rightarrow> n)"

definition pantry_order :: "(string, nat) hmap \<Rightarrow> string \<times> health_record \<Rightarrow> string \<times> health_record \<Rightarrow> ordering" where
  "pantry_order ranks a b =
     then_cmp (cmp (rank_of ranks (fst a)) (rank_of ranks (fst b)))
       (then_cmp (cmp (hr_last_healthy (snd b)) (hr_last_healthy (snd a))) (cmp (fst a) (fst b)))"

definition race_pantry :: "string option \<Rightarrow> nat \<Rightarrow> nat \<Rightarrow> bool \<Rightarrow> (string, nat) hmap \<Rightarrow> endpoint_health \<Rightarrow> string list" where
  "race_pantry cached now k ignore_demotions ranks h =
     map fst (take k (sort_by (pantry_order ranks) (filter (in_pantry cached now ignore_demotions) h)))"

section \<open>The file\<close>

definition health_row :: "string \<times> health_record \<Rightarrow> string" where
  "health_row e =
     (case e of (url, r) \<Rightarrow>
        url @ [CHR 0x09] @ decimal (hr_strikes r) @ [CHR 0x09] @ decimal (hr_last_strike r) @ [CHR 0x09]
        @ decimal (hr_demoted_until r) @ [CHR 0x09] @ decimal (hr_last_healthy r) @ [CHR 0x09]
        @ as_reason_token (hr_last_reason r) @ [CHR 0x09] @ decimal (hr_withheld r) @ [CHR 0x09]
        @ decimal (hr_last_run_secs r) @ [CHR 0x0A])"

definition field_or :: "nat \<Rightarrow> string list \<Rightarrow> nat \<Rightarrow> nat" where
  "field_or limit parts i =
     (if i < length parts then (case parse_unsigned limit (parts ! i) of None \<Rightarrow> 0 | Some n \<Rightarrow> n) else 0)"

definition parse_health_row :: "string \<Rightarrow> (string \<times> health_record) option" where
  "parse_health_row line =
     (let parts = split_at (CHR 0x09) line in
      if length parts < 4 then None
      else if \<not> (starts_with (parts ! 0) ''wss://'' \<or> starts_with (parts ! 0) ''ws://'') then None
      else (case (parse_unsigned u32_max (parts ! 1), parse_unsigned u64_max (parts ! 2), parse_unsigned u64_max (parts ! 3)) of
        (Some strikes, Some last_strike, Some until) \<Rightarrow>
          Some (parts ! 0,
            \<lparr>hr_strikes = strikes, hr_last_strike = last_strike, hr_demoted_until = until, hr_last_healthy = field_or u64_max parts 4,
             hr_last_reason = (if 5 < length parts then from_reason_token (parts ! 5) else Unknown_Reason),
             hr_withheld = field_or u32_max parts 6, hr_last_run_secs = field_or u64_max parts 7\<rparr>)
      | _ \<Rightarrow> None))"

definition health_of_text :: "string \<Rightarrow> endpoint_health" where
  "health_of_text text = foldl (\<lambda>h (url, r). hput url r h) [] (List.map_filter parse_health_row (lines_of text))"

definition load_health :: "path \<Rightarrow> disk \<Rightarrow> disk \<times> endpoint_health" where
  "load_health path d =
     (case read_file path d of
        (d, Inl _) \<Rightarrow> (d, [])
      | (d, Inr bs) \<Rightarrow> (d, case from_utf8 bs of None \<Rightarrow> [] | Some text \<Rightarrow> health_of_text text))"

text \<open>\<open>std::fs::write\<close>: the file is opened, which empties it, and written; nothing is kept of a failure.\<close>

definition save_health :: "path \<Rightarrow> endpoint_health \<Rightarrow> disk \<Rightarrow> disk" where
  "save_health path h d =
     (let bs = ascii (concat (map health_row h));
          write_out = (\<lambda>d. io_try d (\<lambda>_ d. d) (\<lambda>d.
            let d = put_file path [] d in
            io_try d (\<lambda>n d. put_file path (take n bs) d) (\<lambda>d. put_file path bs d)))
      in if path = [] then write_out d else io_try d (\<lambda>_ d. write_out d) write_out)"

section \<open>Silence\<close>

definition silence_deadline :: nat where "silence_deadline = 9"
definition watchdog_stall :: nat where "watchdog_stall = 30"
definition predial_floor :: nat where "predial_floor = 3"
definition predial_lead :: nat where "predial_lead = 6"

definition silence_deadline_after :: "nat \<Rightarrow> nat option" where
  "silence_deadline_after landed =
     (let secs = silence_deadline * 2 ^ min landed 16 in if secs < watchdog_stall then Some secs else None)"

definition predial_after :: "nat \<Rightarrow> nat" where
  "predial_after deadline = max (deadline - predial_lead) predial_floor"

definition silent_incumbent_spoke_again :: "nat \<Rightarrow> nat \<Rightarrow> nat \<Rightarrow> bool" where
  "silent_incumbent_spoke_again ticks_now ticks_at_start quiet \<longleftrightarrow> ticks_at_start < ticks_now \<and> quiet < silence_deadline"

definition starlink_slot_ms :: nat where "starlink_slot_ms = 15000"
definition starlink_first_ms :: nat where "starlink_first_ms = 12000"

definition starlink_boundary_in :: "nat \<Rightarrow> nat \<Rightarrow> nat option" where
  "starlink_boundary_in sent_unix_ms rtt_ms =
     (if sent_unix_ms < starlink_first_ms then None
      else let phase = (sent_unix_ms - starlink_first_ms) mod starlink_slot_ms in
           if phase = 0 \<or> starlink_slot_ms \<le> phase + rtt_ms
           then Some ((if phase = 0 then sent_unix_ms else sent_unix_ms + (starlink_slot_ms - phase)) div 1000 mod 60)
           else None)"

section \<open>Round trips\<close>

definition rtt_window_ms :: nat where "rtt_window_ms = 30000"
definition rtt_probe_every_ms :: nat where "rtt_probe_every_ms = 2000"

type_synonym rtt_book = "(string, (nat \<times> nat) list) hmap"

definition rtt_record :: "string \<Rightarrow> nat \<Rightarrow> nat \<Rightarrow> rtt_book \<Rightarrow> rtt_book" where
  "rtt_record url at_ms rtt_ms b =
     (let samples = (case hget b url of None \<Rightarrow> [] | Some l \<Rightarrow> l) @ [(at_ms, rtt_ms)]
      in hput url (dropWhile (\<lambda>(at, _). rtt_window_ms < at_ms - at) samples) b)"

definition rtt_median :: "rtt_book \<Rightarrow> string \<Rightarrow> nat option" where
  "rtt_median b url =
     (case hget b url of
        None \<Rightarrow> None
      | Some [] \<Rightarrow> None
      | Some (s # ss) \<Rightarrow>
          (let samples = s # ss in
           if fst (last samples) - fst s < rtt_window_ms - rtt_probe_every_ms then None
           else Some (sort (map snd samples) ! (length samples div 2))))"

definition rtt_ranks :: "rtt_book \<Rightarrow> (string, nat) hmap" where
  "rtt_ranks b = List.map_filter (\<lambda>url. map_option (\<lambda>m. (url, m)) (rtt_median b url)) (hkeys b)"

definition rtt_flush :: "rtt_book \<Rightarrow> rtt_book" where
  "rtt_flush b = []"

section \<open>Signed transactions kept for a resubmit\<close>

definition retain_ttl_ms :: nat where "retain_ttl_ms = 10 * 60 * 1000"
definition retain_cap :: nat where "retain_cap = 32"

type_synonym 'tx retention = "(string, 'tx \<times> string option \<times> nat) hmap"

definition retain_tx :: "string \<Rightarrow> 'tx \<Rightarrow> string option \<Rightarrow> nat \<Rightarrow> 'tx retention \<Rightarrow> 'tx retention" where
  "retain_tx txid tx submit_url now m =
     (let m = filter (\<lambda>(_, _, _, at). now - at \<le> retain_ttl_ms) m;
          m = (if retain_cap \<le> length m
               then (case m of [] \<Rightarrow> m
                     | e # es \<Rightarrow> hdel (fst (foldl (\<lambda>a b. if snd (snd (snd b)) < snd (snd (snd a)) then b else a) e es)) m)
               else m)
      in hput txid (tx, submit_url, now) m)"

definition take_tx :: "string \<Rightarrow> 'tx retention \<Rightarrow> 'tx retention \<times> ('tx \<times> string option) option" where
  "take_tx txid m = (hdel txid m, map_option (\<lambda>(tx, url, _). (tx, url)) (hget m txid))"

definition retained_len :: "'tx retention \<Rightarrow> nat" where
  "retained_len m = length m"

end
