(* ===== verification/Link_Props.thy ===== *)
theory Link_Props
  imports Link_Health Plain_Text
begin

text \<open>
  What the health of endpoints promises (\<open>rust/chain/src/link.rs\<close>): a demotion is earned by two
  incidents, the file keeps every demotion, a race draws on the best of those allowed whatever the
  order of the map, a failure's reason does not depend on what an endpoint calls itself, and a
  pinned address carries no credentials.
\<close>

section \<open>Strikes\<close>

datatype health_event =
    Struck string nat strike_reason
  | Withheld string strike_reason
  | Ran string nat
  | Ran_Clean string
  | Answered string nat

fun health_move :: "endpoint_health \<Rightarrow> health_event \<Rightarrow> endpoint_health" where
  "health_move h (Struck url now reason) = fst (strike_endpoint url now reason h)"
| "health_move h (Withheld url reason) = withhold_strike url reason h"
| "health_move h (Ran url secs) = record_run url secs h"
| "health_move h (Ran_Clean url) = clean_run url h"
| "health_move h (Answered url now) = mark_healthy url now h"

lemma health_of_hput [simp]: "health_of (hput u r h) v = (if v = u then r else health_of h v)"
  by (simp add: health_of_def)

definition struck_since :: "health_event list \<Rightarrow> string \<Rightarrow> nat \<Rightarrow> bool" where
  "struck_since es u t \<longleftrightarrow> (\<exists>before reason after. es = before @ Struck u t reason # after \<and> Ran_Clean u \<notin> set after)"

text \<open>Two strikes at least the dedup apart and within the window, with no clean run between.\<close>

definition twice_struck :: "health_event list \<Rightarrow> string \<Rightarrow> nat \<Rightarrow> bool" where
  "twice_struck es u t \<longleftrightarrow> (\<exists>t0 between reason after. es = between @ Struck u t reason # after \<and> struck_since between u t0
     \<and> t0 + strike_dedup_secs \<le> t \<and> t \<le> t0 + strike_window_secs)"

definition earned :: "health_event list \<Rightarrow> endpoint_health \<Rightarrow> string \<Rightarrow> bool" where
  "earned es h u \<longleftrightarrow>
     (0 < hr_strikes (health_of h u) \<longrightarrow> struck_since es u (hr_last_strike (health_of h u))) \<and>
     (0 < hr_demoted_until (health_of h u) \<longrightarrow>
       (\<exists>t. twice_struck es u t \<and> hr_demoted_until (health_of h u) = t + demotion_cooldown_secs))"

lemma struck_since_later:
  assumes "struck_since es u t" "e \<noteq> Ran_Clean u"
  shows "struck_since (es @ [e]) u t"
proof -
  obtain before reason after where "es = before @ Struck u t reason # after" "Ran_Clean u \<notin> set after"
    using assms(1) unfolding struck_since_def by blast
  then have "es @ [e] = before @ Struck u t reason # (after @ [e])" "Ran_Clean u \<notin> set (after @ [e])" using assms(2) by simp_all
  then show ?thesis unfolding struck_since_def by blast
qed

lemma twice_struck_later: "twice_struck es u t \<Longrightarrow> twice_struck (es @ [e]) u t"
  unfolding twice_struck_def by (metis append_Cons append_assoc)

lemma earned_later:
  assumes "earned es h u" "hr_strikes (health_of h' u) = hr_strikes (health_of h u)" "hr_last_strike (health_of h' u) = hr_last_strike (health_of h u)"
    "hr_demoted_until (health_of h' u) = hr_demoted_until (health_of h u)" "e \<noteq> Ran_Clean u"
  shows "earned (es @ [e]) h' u"
  using assms struck_since_later twice_struck_later unfolding earned_def by metis

lemma earned_strike:
  assumes "earned es h u"
  shows "earned (es @ [Struck v now reason]) (fst (strike_endpoint v now reason h)) u"
proof (cases "v = u \<and> \<not> (0 < hr_strikes (health_of h v) \<and> now - hr_last_strike (health_of h v) < strike_dedup_secs)")
  case False
  then show ?thesis
    by (intro earned_later [OF assms]) (auto simp: strike_endpoint_def Let_def)
next
  case True
  let ?r = "health_of h u" and ?r' = "health_of (fst (strike_endpoint v now reason h)) u"
  let ?n = "(if strike_window_secs < now - hr_last_strike ?r then 0 else hr_strikes ?r) + 1"
  have r': "hr_strikes ?r' = ?n" "hr_last_strike ?r' = now"
    "hr_demoted_until ?r' = (if demote_at_strikes \<le> ?n then now + demotion_cooldown_secs else hr_demoted_until ?r)"
    using True by (auto simp: strike_endpoint_def Let_def)
  have now: "struck_since (es @ [Struck v now reason]) u now"
    using True unfolding struck_since_def by fastforce
  show ?thesis
  proof (cases "demote_at_strikes \<le> ?n")
    case two: True
    then have s: "0 < hr_strikes ?r" "now \<le> hr_last_strike ?r + strike_window_secs"
      by (auto simp: demote_at_strikes_def split: if_splits)
    then have "hr_last_strike ?r + strike_dedup_secs \<le> now" using True s(1) by (auto simp: strike_dedup_secs_def)
    moreover have "struck_since es u (hr_last_strike ?r)" using assms s(1) by (simp add: earned_def)
    ultimately have "twice_struck (es @ [Struck v now reason]) u now"
      using s(2) True unfolding twice_struck_def by blast
    then show ?thesis using now r' two by (auto simp: earned_def)
  next
    case False
    then show ?thesis using assms now r' twice_struck_later unfolding earned_def by metis
  qed
qed

lemma earned_move: "earned es h u \<Longrightarrow> earned (es @ [e]) (health_move h e) u"
proof (cases e)
  case (Ran_Clean v)
  assume a: "earned es h u"
  show ?thesis
  proof (cases "v = u")
    case True
    then have "hr_strikes (health_of (clean_run v h) u) = 0"
      "hr_demoted_until (health_of (clean_run v h) u) = hr_demoted_until (health_of h u)"
      by (auto simp: clean_run_def health_of_def no_health_def split: option.splits)
    then show ?thesis using a twice_struck_later Ran_Clean unfolding earned_def by (metis health_move.simps(4) less_irrefl)
  next
    case False
    then have "health_of (clean_run v h) u = health_of h u" by (auto simp: clean_run_def split: option.split)
    then show ?thesis using earned_later [OF a] Ran_Clean False by simp
  qed
next
  case (Struck v now reason)
  assume "earned es h u"
  then show ?thesis using earned_strike Struck by simp
qed (auto intro!: earned_later simp: withhold_strike_def record_run_def mark_healthy_def Let_def)

text \<open>
  C39. A demotion is earned. Whatever strikes, withheld strikes, runs and answers came before in
  whatever order and with whatever clock, an endpoint sits out at a time only if it was struck
  within the cooldown before that time, and had been struck before then, at least the dedup
  earlier and at most the window, with no clean run of it in between.
\<close>

theorem demotion_is_earned:
  assumes "is_demoted (foldl health_move [] es) url now"
  shows "\<exists>t. twice_struck es url t \<and> now < t + demotion_cooldown_secs"
proof -
  have "earned es (foldl health_move [] es) url"
  proof (induction es rule: rev_induct)
    case Nil
    then show ?case by (simp add: earned_def health_of_def no_health_def)
  next
    case (snoc e es)
    then show ?case using earned_move by simp
  qed
  moreover have "now < hr_demoted_until (health_of (foldl health_move [] es) url)"
    using assms by (auto simp: is_demoted_def health_of_def split: option.splits)
  ultimately show ?thesis by (auto simp: earned_def)
qed

lemma demotion_is_earned_witness:
  "\<exists>t. twice_struck [Struck ''wss://a'' 1000 Dropped, Withheld ''wss://a'' Os_Lost_Adjacent, Struck ''wss://a'' 1020 Stall] ''wss://a'' t \<and> 1500 < t + demotion_cooldown_secs"
  by (rule demotion_is_earned)
    (simp add: is_demoted_def strike_endpoint_def withhold_strike_def health_of_def no_health_def strike_dedup_secs_def
      strike_window_secs_def demote_at_strikes_def demotion_cooldown_secs_def Let_def)

section \<open>The pantry\<close>

interpretation by_rank: keyed_ranking "pantry_order ranks" "\<lambda>e. (rank_of ranks (fst e), Down (hr_last_healthy (snd e)), fst e)" fst for ranks
  by unfold_locales (auto simp: pantry_order_def cmp_keys)

lemma keys_identify: "hmap_ok h \<Longrightarrow> inj_on fst (set (filter P h))"
  by (auto simp: hmap_ok_def distinct_map intro: inj_on_subset)

text \<open>
  A race draws on the best endpoints it may. The endpoints drawn do not depend on the order
  of the map, are distinct and no more than asked for; each answered within a week, is neither
  the cached one nor demoted unless demotions are ignored; and of the endpoints that meet this none
  left out comes before one drawn, in the order of the measured round trip, then the latest
  answer, then the address.
\<close>

theorem pantry_is_best:
  assumes "hmap_ok h" "hmap_ok h'" "hget h = hget h'"
  shows "race_pantry cached now k ignoring ranks h = race_pantry cached now k ignoring ranks h' \<and>
    distinct (race_pantry cached now k ignoring ranks h) \<and> length (race_pantry cached now k ignoring ranks h) \<le> k \<and>
    (\<forall>url \<in> set (race_pantry cached now k ignoring ranks h). \<exists>r. hget h url = Some r \<and> in_pantry cached now ignoring (url, r)) \<and>
    (\<forall>url r. hget h url = Some r \<and> in_pantry cached now ignoring (url, r) \<and> url \<notin> set (race_pantry cached now k ignoring ranks h) \<longrightarrow>
      length (race_pantry cached now k ignoring ranks h) = k \<and>
      (\<forall>drawn \<in> set (race_pantry cached now k ignoring ranks h). \<exists>d. hget h drawn = Some d \<and> pantry_order ranks (drawn, d) (url, r) \<le> Equal))"
proof -
  let ?may = "in_pantry cached now ignoring" and ?order = "pantry_order ranks"
  let ?sorted = "sort_by ?order (filter ?may h)"
  have sets: "set h = set h'" using hmap_ok_mem [OF assms(1)] hmap_ok_mem [OF assms(2)] assms(3) by auto
  have dist: "distinct h" "distinct h'" using assms(1,2) by (simp_all add: hmap_ok_def distinct_map)
  have "mset (filter ?may h) = mset (filter ?may h')"
    using sets dist by (metis distinct_filter set_eq_iff_mset_eq_distinct set_filter)
  then have same: "?sorted = sort_by ?order (filter ?may h')" by (rule by_rank.sort_cong) (rule keys_identify [OF assms(1)])
  have mem: "(url, r) \<in> set ?sorted \<longleftrightarrow> hget h url = Some r \<and> ?may (url, r)" for url r
    using hmap_ok_mem [OF assms(1)] by auto
  have keys: "distinct (map fst ?sorted)"
  proof -
    have "distinct (map fst (filter ?may h))" using assms(1) by (simp add: hmap_ok_def distinct_map_filter)
    then show ?thesis by (metis mset_map mset_sort_by mset_eq_imp_distinct_iff)
  qed
  have drawn: "race_pantry cached now k ignoring ranks h = map fst (take k ?sorted)" by (simp add: race_pantry_def)
  have left: "length (take k ?sorted) = k \<and> (\<forall>d \<in> set (take k ?sorted). ?order d (url, r) \<le> Equal)"
    if u: "hget h url = Some r" "?may (url, r)" "url \<notin> set (map fst (take k ?sorted))" for url r
  proof -
    have "(url, r) \<in> set ?sorted" "(url, r) \<notin> set (take k ?sorted)" using mem u by force+
    then have "(url, r) \<in> set (drop k ?sorted)" by (metis Un_iff append_take_drop_id set_append)
    moreover have "sorted_wrt (\<lambda>a b. ?order a b \<le> Equal) (take k ?sorted @ drop k ?sorted)"
      unfolding append_take_drop_id by (rule by_rank.sort_by_sorted)
    ultimately show ?thesis unfolding sorted_wrt_append by (auto dest: length_pos_if_in_set)
  qed
  show ?thesis
  proof (intro conjI)
    show "race_pantry cached now k ignoring ranks h = race_pantry cached now k ignoring ranks h'"
      using same by (simp add: race_pantry_def)
    show "distinct (race_pantry cached now k ignoring ranks h)" unfolding drawn take_map [symmetric] using keys by (rule distinct_take)
    show "length (race_pantry cached now k ignoring ranks h) \<le> k" unfolding drawn by simp
    show "\<forall>url \<in> set (race_pantry cached now k ignoring ranks h). \<exists>r. hget h url = Some r \<and> ?may (url, r)"
      unfolding drawn using mem by (force dest: in_set_takeD)
    show "\<forall>url r. hget h url = Some r \<and> ?may (url, r) \<and> url \<notin> set (race_pantry cached now k ignoring ranks h) \<longrightarrow>
      length (race_pantry cached now k ignoring ranks h) = k \<and>
      (\<forall>drawn \<in> set (race_pantry cached now k ignoring ranks h). \<exists>d. hget h drawn = Some d \<and> ?order (drawn, d) (url, r) \<le> Equal)"
    proof (intro allI impI conjI ballI)
      fix url r assume u: "hget h url = Some r \<and> ?may (url, r) \<and> url \<notin> set (race_pantry cached now k ignoring ranks h)"
      then have l: "length (take k ?sorted) = k" "\<forall>d \<in> set (take k ?sorted). ?order d (url, r) \<le> Equal"
        using left [of url r] unfolding drawn by blast+
      show "length (race_pantry cached now k ignoring ranks h) = k" unfolding drawn using l(1) by simp
      fix v assume "v \<in> set (race_pantry cached now k ignoring ranks h)"
      then obtain d where "(v, d) \<in> set (take k ?sorted)" unfolding drawn by auto
      then show "\<exists>d. hget h v = Some d \<and> ?order (v, d) (url, r) \<le> Equal" using l(2) mem by (metis in_set_takeD)
    qed
  qed
qed

definition demo_health :: endpoint_health where
  "demo_health = [(''wss://a'', no_health\<lparr>hr_last_healthy := 90\<rparr>), (''wss://b'', no_health\<lparr>hr_last_healthy := 95\<rparr>)]"

lemma pantry_is_best_witness:
  "race_pantry None 100 1 False [] demo_health = race_pantry None 100 1 False [] (rev demo_health)
   \<and> race_pantry None 100 1 False [] demo_health = [''wss://b'']"
proof -
  have "hmap_ok demo_health" "hmap_ok (rev demo_health)" "hget demo_health = hget (rev demo_health)"
    by (auto simp: demo_health_def hmap_ok_def)
  moreover have "race_pantry None 100 1 False [] demo_health = [''wss://b'']"
    by (simp add: race_pantry_def demo_health_def no_health_def in_pantry_def pantry_fresh_secs_def pantry_order_def rank_of_def cmp_def)
  ultimately show ?thesis using pantry_is_best by blast
qed

section \<open>The file\<close>

lemma split_at_none: "x \<notin> set s \<Longrightarrow> split_at x s = [s]"
  by (induction s) auto

lemma split_at_first: "x \<notin> set p \<Longrightarrow> split_at x (p @ x # s) = p # split_at x s"
  by (induction p) (auto split: list.splits)

lemma lines_from_row:
  "CHR 0x0A \<notin> set row \<Longrightarrow> line @ row \<noteq> [] \<Longrightarrow> last (line @ row) \<noteq> CHR 0x0D
     \<Longrightarrow> lines_from line (row @ CHR 0x0A # rest) = (line @ row) # lines_from [] rest"
proof (induction row arbitrary: line)
  case (Cons c row)
  then show ?case using Cons.IH [of "line @ [c]"] Cons.prems by (cases "c = CHR 0x0A") auto
qed simp

text \<open>An address the file can hold, and a record within the widths the file is read with.\<close>

definition fileable :: "string \<times> health_record \<Rightarrow> bool" where
  "fileable e \<longleftrightarrow> (case e of (url, r) \<Rightarrow>
     (starts_with url ''wss://'' \<or> starts_with url ''ws://'') \<and> CHR 0x09 \<notin> set url \<and> CHR 0x0A \<notin> set url \<and> utf8_valid (ascii url)
     \<and> hr_strikes r \<le> u32_max \<and> hr_last_strike r \<le> u64_max \<and> hr_demoted_until r \<le> u64_max \<and> hr_last_healthy r \<le> u64_max
     \<and> hr_withheld r \<le> u32_max \<and> hr_last_run_secs r \<le> u64_max)"

lemma decimal_chars: "c \<in> set (decimal n) \<Longrightarrow> is_ascii_digit c"
  using decimal_digits by (metis list_all_iff)

lemma decimal_plain: "CHR 0x09 \<notin> set (decimal n)" "CHR 0x0A \<notin> set (decimal n)" "CHR 0x0D \<notin> set (decimal n)"
  using decimal_chars [of _ n] by (auto simp: is_ascii_digit_def)

lemma token_plain: "CHR 0x09 \<notin> set (as_reason_token r)" "CHR 0x0A \<notin> set (as_reason_token r)"
  by (cases r; simp)+

definition health_line :: "string \<times> health_record \<Rightarrow> string" where
  "health_line e = butlast (health_row e)"

lemma health_row_line: "health_row e = health_line e @ [CHR 0x0A]"
  by (simp add: health_line_def health_row_def split_beta butlast_append)

lemma health_line_parts:
  "health_line (url, r) = url @ CHR 0x09 # decimal (hr_strikes r) @ CHR 0x09 # decimal (hr_last_strike r) @ CHR 0x09 # decimal (hr_demoted_until r)
     @ CHR 0x09 # decimal (hr_last_healthy r) @ CHR 0x09 # as_reason_token (hr_last_reason r) @ CHR 0x09 # decimal (hr_withheld r)
     @ CHR 0x09 # decimal (hr_last_run_secs r)"
  by (simp add: health_line_def health_row_def butlast_append)

lemma parse_health_line:
  assumes "fileable (url, r)"
  shows "parse_health_row (health_line (url, r)) = Some (url, r)"
proof -
  have "split_at (CHR 0x09) (health_line (url, r)) = [url, decimal (hr_strikes r), decimal (hr_last_strike r), decimal (hr_demoted_until r),
      decimal (hr_last_healthy r), as_reason_token (hr_last_reason r), decimal (hr_withheld r), decimal (hr_last_run_secs r)]"
    unfolding health_line_parts using assms by (simp add: fileable_def split_at_first split_at_none decimal_plain token_plain)
  then show ?thesis using assms
    by (cases r) (simp add: parse_health_row_def fileable_def parse_decimal field_or_def)
qed

lemma health_line_ends:
  assumes "fileable e"
  shows "CHR 0x0A \<notin> set (health_line e)" "health_line e \<noteq> []" "last (health_line e) \<noteq> CHR 0x0D"
proof -
  obtain url r where e: "e = (url, r)" by force
  show "CHR 0x0A \<notin> set (health_line e)" "health_line e \<noteq> []"
    using assms unfolding e health_line_parts by (auto simp: fileable_def decimal_plain token_plain)
  have "last (health_line e) \<in> set (decimal (hr_last_run_secs r))"
    unfolding e health_line_parts using decimal_nonempty [of "hr_last_run_secs r"] by simp
  then show "last (health_line e) \<noteq> CHR 0x0D" using decimal_plain(3) by metis
qed

lemma lines_of_rows:
  assumes "list_all fileable h"
  shows "lines_of (concat (map health_row h)) = map health_line h"
proof -
  have "list_all fileable h \<Longrightarrow> lines_from [] (concat (map (\<lambda>e. health_line e @ [CHR 0x0A]) h)) = map health_line h"
  proof (induction h)
    case (Cons e h)
    then show ?case using lines_from_row [of "health_line e" "[]"] health_line_ends [of e] by simp
  qed simp
  moreover have row: "health_row = (\<lambda>e. health_line e @ [CHR 0x0A])" by (rule ext) (rule health_row_line)
  ultimately show ?thesis using assms unfolding lines_of_def row by blast
qed

lemma hput_new: "hget m k = None \<Longrightarrow> hput k v m = m @ [(k, v)]"
  by (induction m) auto

lemma hput_all:
  "distinct (map fst (m @ h)) \<Longrightarrow> foldl (\<lambda>m (k, v). hput k v m) m h = m @ h"
proof (induction h arbitrary: m)
  case (Cons kv h)
  obtain k v where kv: "kv = (k, v)" by force
  have "hget m k = None" using Cons.prems by (auto simp: kv map_of_eq_None_iff)
  then show ?case using Cons.IH [of "m @ [(k, v)]"] Cons.prems by (simp add: kv hput_new)
qed simp

lemma health_text_round_trip:
  assumes "hmap_ok h" "list_all fileable h"
  shows "health_of_text (concat (map health_row h)) = h"
proof -
  have "List.map_filter parse_health_row (map health_line h) = h"
    using assms(2) by (induction h) (auto simp: List.map_filter_simps parse_health_line)
  then show ?thesis using hput_all [of "[]" h] assms by (simp add: health_of_text_def lines_of_rows hmap_ok_def)
qed

lemma plain_valid: "list_all plain_char s \<Longrightarrow> utf8_valid (ascii s)"
  using plain_literal by (simp add: wire_text_def)

lemma plain_parts:
  "utf8_valid (ascii (decimal n))" "utf8_valid (ascii (as_reason_token t))" "utf8_valid (ascii [CHR 0x09])" "utf8_valid (ascii [CHR 0x0A])"
proof -
  have "list_all plain_char (decimal n)" using decimal_digits [of n] by (auto simp: list_all_iff intro: plain_classes)
  then show "utf8_valid (ascii (decimal n))" by (rule plain_valid)
  have "list_all plain_char (as_reason_token t)" by (cases t) (simp_all add: plain_char_def)
  then show "utf8_valid (ascii (as_reason_token t))" by (rule plain_valid)
  show "utf8_valid (ascii [CHR 0x09])" "utf8_valid (ascii [CHR 0x0A])" by (simp_all add: utf8_valid_ascii literal)
qed

lemma row_valid:
  assumes "fileable e"
  shows "utf8_valid (ascii (health_row e))"
proof -
  obtain url r where e: "e = (url, r)" by force
  have "utf8_valid (ascii url)" using assms e by (simp add: fileable_def)
  then show ?thesis
    unfolding e health_row_def prod.case ascii_append using plain_parts by (simp only: utf8_valid_append)
qed

lemma rows_valid: "list_all fileable h \<Longrightarrow> utf8_valid (ascii (concat (map health_row h)))"
proof (induction h)
  case (Cons e h)
  then have "utf8_valid (ascii (health_row e))" "utf8_valid (ascii (concat (map health_row h)))" using row_valid by simp_all
  then show ?case by (simp only: list.map concat.simps ascii_append utf8_valid_append)
qed simp

text \<open>
  The file keeps every demotion. What is saved of the endpoints, if no write fails, is read back
  as it was, in every field, for every map whose addresses the file can hold; and a line of the
  oldest format, with its four fields, is read with its strikes and its demotion.
\<close>

theorem health_file_round_trip:
  assumes "hmap_ok h" "list_all fileable h" "faults d = []"
  shows "snd (load_health path (save_health path h d)) = h \<and>
    (\<forall>e \<in> set h. case e of (url, r) \<Rightarrow>
      parse_health_row (url @ CHR 0x09 # decimal (hr_strikes r) @ CHR 0x09 # decimal (hr_last_strike r) @ CHR 0x09 # decimal (hr_demoted_until r))
      = Some (url, no_health\<lparr>hr_strikes := hr_strikes r, hr_last_strike := hr_last_strike r, hr_demoted_until := hr_demoted_until r\<rparr>))"
proof (intro conjI ballI)
  let ?bs = "ascii (concat (map health_row h))"
  have "save_health path h d = put_file path ?bs (put_file path [] d)" using assms(3) by (simp add: save_health_def Let_def)
  moreover have "from_utf8 ?bs = Some (concat (map health_row h))" using rows_valid [OF assms(2)] by (rule from_utf8_ascii)
  ultimately show "snd (load_health path (save_health path h d)) = h"
    using assms(3) health_text_round_trip [OF assms(1,2)] by (simp add: load_health_def read_file_def)
next
  fix e assume "e \<in> set h"
  obtain url r where e: "e = (url, r)" by force
  have f: "fileable (url, r)" using assms(2) \<open>e \<in> set h\<close> e by (auto simp: list_all_iff)
  have "split_at (CHR 0x09) (url @ CHR 0x09 # decimal (hr_strikes r) @ CHR 0x09 # decimal (hr_last_strike r) @ CHR 0x09 # decimal (hr_demoted_until r))
      = [url, decimal (hr_strikes r), decimal (hr_last_strike r), decimal (hr_demoted_until r)]"
    using f by (simp add: fileable_def split_at_first split_at_none decimal_plain)
  then show "case e of (url, r) \<Rightarrow>
      parse_health_row (url @ CHR 0x09 # decimal (hr_strikes r) @ CHR 0x09 # decimal (hr_last_strike r) @ CHR 0x09 # decimal (hr_demoted_until r))
      = Some (url, no_health\<lparr>hr_strikes := hr_strikes r, hr_last_strike := hr_last_strike r, hr_demoted_until := hr_demoted_until r\<rparr>)"
    using f unfolding e by (simp add: parse_health_row_def fileable_def parse_decimal field_or_def no_health_def)
qed

lemma health_file_round_trip_witness:
  "snd (load_health [''endpoint.health''] (save_health [''endpoint.health'']
     [(''wss://a'', no_health\<lparr>hr_strikes := 2, hr_demoted_until := 1620, hr_last_reason := Stall\<rparr>)] \<lparr>files = [], faults = []\<rparr>))
   = [(''wss://a'', no_health\<lparr>hr_strikes := 2, hr_demoted_until := 1620, hr_last_reason := Stall\<rparr>)]"
proof -
  have "utf8_valid (ascii ''wss://a'')" by (simp add: utf8_valid_ascii literal)
  then show ?thesis
    by (intro health_file_round_trip [THEN conjunct1])
      (simp_all add: hmap_ok_def fileable_def no_health_def starts_with_def u32_max_def u64_max_def)
qed

section \<open>Reasons and names\<close>

lemma find_text_first:
  "find_text p s = Some i \<Longrightarrow> j < i \<Longrightarrow> \<not> starts_with (drop j s) p"
proof (induction p s arbitrary: i j rule: find_text.induct)
  case (2 p c s)
  then show ?case by (cases j) (auto split: if_splits)
qed (auto split: if_splits)

lemma find_text_here: "starts_with (drop i s) p \<Longrightarrow> i \<le> length s \<Longrightarrow> \<exists>j \<le> i. find_text p s = Some j"
proof (induction p s arbitrary: i rule: find_text.induct)
  case (2 p c s)
  show ?case
  proof (cases "starts_with (c # s) p")
    case False
    then obtain n where "i = Suc n" "starts_with (drop n s) p" "n \<le> length s" using 2(2,3) by (cases i) auto
    then obtain j where "j \<le> n" "find_text p s = Some j" using 2(1) [OF False] by blast
    then show ?thesis using False \<open>i = Suc n\<close> by (intro exI [of _ "Suc j"]) simp
  qed simp
qed (auto simp: starts_with_def)

text \<open>A scheme begins with a letter that it does not hold again, so none begins before another and ends in it.\<close>

definition scheme_head :: "char \<Rightarrow> bool" where
  "scheme_head c \<longleftrightarrow> c = CHR ''h'' \<or> c = CHR ''w''"

lemma scheme_chars: "p \<in> set schemes \<Longrightarrow> p \<noteq> [] \<and> scheme_head (hd p) \<and> list_all (\<lambda>c. \<not> scheme_head c) (tl p)"
  by (auto simp: schemes_def scheme_head_def)

lemma no_scheme_across:
  assumes p: "p \<in> set schemes" and pre: "find_text p pre = None" and w: "w = c # s" "scheme_head c" and i: "i < length pre"
  shows "\<not> starts_with (drop i (pre @ w)) p"
proof
  assume "starts_with (drop i (pre @ w)) p"
  then have st: "take (length p) (drop i pre @ w) = p" using i by (auto simp: starts_with_def)
  show False
  proof (cases "length p \<le> length (drop i pre)")
    case True
    then have "take (length p) (drop i pre) = p" using st by simp
    then have "starts_with (drop i pre) p" by (metis starts_with_take)
    then show False using find_text_here [of i pre p] i pre by auto
  next
    case False
    let ?n = "length (drop i pre)"
    have n: "0 < ?n" "?n < length p" using i False by simp_all
    have "p ! ?n = (drop i pre @ w) ! ?n" using n(2) by (metis nth_take st)
    then have "p ! ?n = c" by (simp add: w(1) nth_append)
    moreover obtain m where m: "?n = Suc m" using n(1) by (cases ?n) simp_all
    have "p ! ?n = tl p ! m" unfolding m using n(2) by (cases p) simp_all
    moreover have "tl p ! m \<in> set (tl p)" using n(2) unfolding m by (intro nth_mem) simp
    ultimately show False using scheme_chars [OF p] w(2) by (metis list_all_iff)
  qed
qed

definition plain_url :: "string \<Rightarrow> bool" where
  "plain_url u \<longleftrightarrow> (\<exists>p \<in> set schemes. starts_with u p) \<and> list_all (\<lambda>c. (of_char c :: nat) < 128 \<and> \<not> url_ends [c]) u"

definition url_over :: "string \<Rightarrow> bool" where
  "url_over rest \<longleftrightarrow> rest = [] \<or> ((of_char (hd rest) :: nat) < 128 \<and> url_ends [hd rest])"

lemma first_char_ascii: "(of_char c :: nat) < 128 \<Longrightarrow> chars_of (c # s) = [c] # chars_of s"
  by (simp add: chars_of.simps utf8_width_def byte_in_def unat_byte_of_char)

lemma after_plain_url:
  assumes "plain_url u" "url_over rest"
  shows "after_url (u @ rest) = rest"
proof -
  have "list_all (\<lambda>c. (of_char c :: nat) < 128 \<and> \<not> url_ends [c]) u" using assms(1) by (simp add: plain_url_def)
  then have "after_url (u @ rest) = after_url rest"
    by (induction u) (simp_all add: after_url_def first_char_ascii)
  also have "\<dots> = rest"
  proof (cases rest)
    case (Cons c s)
    then show ?thesis using assms(2) by (simp add: url_over_def after_url_def first_char_ascii)
  qed (simp add: after_url_def)
  finally show ?thesis .
qed

lemma foldl_min_start: "foldl min (a :: nat) as \<le> a"
  by (induction as arbitrary: a) (simp, metis foldl_Cons min.bounded_iff)

lemma foldl_min_least: "i \<in> set (a # as) \<Longrightarrow> foldl min (a :: nat) as \<le> i"
proof (induction as arbitrary: a)
  case (Cons b as)
  then show ?case using foldl_min_start [of "min a b" as] Cons.IH [of "min a b"] by (cases "i \<in> set as") auto
qed simp

lemma scrub_plain_url:
  assumes pre: "list_all (\<lambda>p. find_text p pre = None) schemes" and u: "plain_url u" and rest: "url_over rest"
  shows "scrub_urls (pre @ u @ rest) = pre @ ellipsis @ scrub_urls rest"
proof -
  let ?t = "pre @ u @ rest"
  obtain p where p: "p \<in> set schemes" "starts_with u p" using u by (auto simp: plain_url_def)
  have tp: "take (length p) u = p" using p(2) by (simp add: starts_with_def)
  have "u \<noteq> []" using tp scheme_chars [OF p(1)] by auto
  moreover have "hd u = hd p" using arg_cong [OF tp, of hd] scheme_chars [OF p(1)] by (cases p) simp_all
  ultimately obtain c s where w: "u @ rest = c # s" "scheme_head c" using scheme_chars [OF p(1)] by (cases u) auto
  have none: "find_text q ?t = Some i \<Longrightarrow> length pre \<le> i" if "q \<in> set schemes" for q i
    using no_scheme_across [OF that _ w, of pre i] pre that find_text_Some [of q ?t i] by (fastforce simp: list_all_iff)
  have "length p \<le> length u" using tp by (metis length_take min.cobounded1)
  then have "starts_with (drop (length pre) ?t) p" using tp by (simp add: starts_with_def)
  then obtain j where "j \<le> length pre" "find_text p ?t = Some j" using find_text_here [of "length pre" ?t p] by auto
  then have here: "find_text p ?t = Some (length pre)" using none [OF p(1)] by (metis le_antisym)
  have "first_url ?t = Some (length pre)"
  proof -
    let ?ats = "List.map_filter (\<lambda>p. find_text p ?t) schemes"
    have mem: "length pre \<in> set ?ats" using p(1) here by (auto simp: List.map_filter_def intro!: image_eqI [of _ _ p])
    then obtain a as where as: "?ats = a # as" by (cases ?ats) auto
    have lower: "\<forall>i \<in> set ?ats. length pre \<le> i" using none by (auto simp: List.map_filter_def)
    have "foldl min a as \<le> length pre" using mem as foldl_min_least by simp
    moreover have "length pre \<le> foldl min a as" using lower foldl_min_mem [of a as] as by auto
    ultimately show ?thesis using as by (simp add: first_url_def)
  qed
  then show ?thesis by (subst scrub_urls.simps) (simp add: after_plain_url [OF u rest])
qed

lemma comma_escapes:
  "candidate_url_is_clean ''wss://a,timeout'' \<and>
   classify_probe_failure (''probe dial '' @ ''wss://a,timeout'' @ '': refused'') = Dial_Timeout \<and>
   classify_probe_failure (''probe dial '' @ ''wss://a'' @ '': refused'') = Probe_Failed"
  by code_simp

text \<open>
  C40. An endpoint whose address is ASCII, with no space, comma, bracket or quote in it, cannot
  choose why it failed: two failures that differ only in such an address, with no other address
  before it and one of those characters or nothing after it, are classified alike, whatever words
  the address is made of. The restriction is needed. A learned address may hold a comma, where the
  scrubbing of a failure stops: an endpoint that calls itself wss://a,timeout is let in, and its
  failure is classified by its own word.
\<close>

theorem reason_ignores_name:
  assumes "list_all (\<lambda>p. find_text p pre = None) schemes" "plain_url u" "plain_url v" "url_over rest"
  shows "classify_probe_failure (pre @ u @ rest) = classify_probe_failure (pre @ v @ rest) \<and>
    candidate_url_is_clean ''wss://a,timeout'' \<and>
    classify_probe_failure (''probe dial '' @ ''wss://a,timeout'' @ '': refused'') = Dial_Timeout \<and>
    classify_probe_failure (''probe dial '' @ ''wss://a'' @ '': refused'') = Probe_Failed"
  using scrub_plain_url [OF assms(1,2,4)] scrub_plain_url [OF assms(1,3,4)] comma_escapes by (simp add: classify_probe_failure_def)

lemma reason_ignores_name_witness:
  "classify_probe_failure (''probe dial '' @ ''wss://timeout.example:'' @ '' refused'')
   = classify_probe_failure (''probe dial '' @ ''wss://a:'' @ '' refused'')"
  by (rule reason_ignores_name [THEN conjunct1])
    (auto simp: schemes_def starts_with_def plain_url_def url_over_def url_ends_def whitespace_def)

section \<open>Pinned addresses\<close>

text \<open>
  A pinned address is one that can be dialled and holds no credentials: what is accepted of a
  typed text is the text without the space around it, of at most 512 bytes, without space or
  control character, with a websocket scheme and a host, and without user, query or fragment.
\<close>

lemma pinned_address_is_clean:
  assumes "validate_node_url raw = Inr url"
  shows "url = trim raw \<and> length url \<le> 512 \<and> candidate_url_is_clean url \<and> (starts_with url ''wss://'' \<or> starts_with url ''ws://'')
    \<and> endpoint_host url \<noteq> [] \<and> CHR ''@'' \<notin> set (endpoint_host url) \<and> CHR ''?'' \<notin> set url \<and> CHR ''#'' \<notin> set url"
  using assms by (auto simp: validate_node_url_def Let_def max_node_url_len_def split: if_splits)

section \<open>Transactions kept\<close>

definition retention_ok :: "'tx retention \<Rightarrow> bool" where
  "retention_ok m \<longleftrightarrow> hmap_ok m \<and> length m \<le> retain_cap"

lemma oldest_listed: "foldl (\<lambda>a b. if P a b then b else a) e es \<in> set (e # es)"
  by (induction es arbitrary: e) (auto split: if_splits)

lemma length_hdel_listed: "k \<in> set (hkeys m) \<Longrightarrow> length (hdel k m) < length m"
  by (induction m) (auto simp: le_imp_less_Suc length_delete_le)

lemma retain_ok:
  assumes "retention_ok m"
  shows "retention_ok (retain_tx txid tx url now m)" "hget (retain_tx txid tx url now m) txid = Some (tx, url, now)"
proof -
  define young where "young = filter (\<lambda>(_, _, _, at). now - at \<le> retain_ttl_ms) m"
  define room where "room = (if retain_cap \<le> length young
    then (case young of [] \<Rightarrow> young
          | e # es \<Rightarrow> hdel (fst (foldl (\<lambda>a b. if snd (snd (snd b)) < snd (snd (snd a)) then b else a) e es)) young)
    else young)"
  have r: "retain_tx txid tx url now m = hput txid (tx, url, now) room"
    unfolding retain_tx_def Let_def room_def young_def by (simp split: list.split)
  have ok: "hmap_ok young" "length young \<le> retain_cap"
    using assms by (auto simp: young_def retention_ok_def hmap_ok_def distinct_map_filter intro: order_trans [OF length_filter_le])
  have "length room < retain_cap \<and> hmap_ok room"
  proof (cases young)
    case Nil
    then show ?thesis by (simp add: room_def retain_cap_def)
  next
    case (Cons e es)
    let ?o = "foldl (\<lambda>a b. if snd (snd (snd b)) < snd (snd (snd a)) then b else a) e es"
    have "fst ?o \<in> set (hkeys young)" using oldest_listed [of "\<lambda>a b. snd (snd (snd b)) < snd (snd (snd a))" e es] Cons by auto
    then have "length (hdel (fst ?o) young) < length young" by (rule length_hdel_listed)
    moreover have "room = (if retain_cap \<le> length young then hdel (fst ?o) young else young)" using Cons by (simp add: room_def)
    ultimately show ?thesis using ok by auto
  qed
  then show "retention_ok (retain_tx txid tx url now m)" unfolding r by (simp add: retention_ok_def length_hput)
  show "hget (retain_tx txid tx url now m) txid = Some (tx, url, now)" unfolding r by simp
qed

end
