(* ===== verification/Spec2Isabelle.thy ===== *)
theory Spec2Isabelle
  imports Kvlog_Props Acceptance_Props Acceptance_Sweeps Wire_Props Spend_Policy Frames_Props Snapshot_Props Stash_Tag
    Store_Props Store_Wipe Store_Merge_Props Read_Marks Block_List History_Fill_Props Sends_Store_Props Vault_Props Walk_Matcher
    In_Flight_Reads In_Flight_Inv In_Flight_Anchor In_Flight_Restart Link_Props
begin

text \<open>
  A verification development for the Rust core of the wallet (src/rust/chain/src and
  src/rust/core/src).

  The program. The wallet follows the block DAG of a node. The message walk reads the chain page
  by page and hands every accepted message to the message hub, which keeps conversations and
  messages in the messaging store. The acceptance tracker watches the transactions the wallet
  sent until they are deep in the chain. The record of sends in flight knows which coins a send
  may have spent while its fate is open, and its snapshot lets a restart know it too. The store,
  the tracker and the cursors of both walks live in files that must survive a crash at any
  moment. The health of endpoints decides which nodes are dialled, the history fill asks an
  indexer for what the chain no longer has, and the vault seals the seed.

  How it is modelled. Machine bytes are 8-bit words, text is a list of bytes seen as characters,
  and counters whose wrap-around the code does not meet are naturals, cut off at zero where the
  code saturates. A failure is the left of a sum or None. The disk (theory Durable) is a map from
  paths to contents with a list of faults: every I/O call takes the next fault, and a failed
  write leaves any prefix of its bytes. A process that dies inside a call is one whose last call
  failed and which runs nothing more. Hash maps are association lists with distinct keys; where
  the order of a map could be seen, a theorem says it is not. Tasks that run beside each other
  are cut at every lock and every await, and a list of events, in any order, is one interleaving
  of them (theory Event_System); the one exception is named below.

  The theories and the code.

  Foundations. Prelude: bytes, little-endian words, association lists. Utf8, Rust_Str, Plain_Text,
  Base64, Json, Json_Codec: what the code uses of the strings of the standard library, and of
  base64 and JSON documents. Ranking: the comparison chains of sort_by and max_by, as two locales
  interpreted on each order of the code. Fifo: the bounded queues. Event_System: the machines.
  Durable: durable.rs, with atomic_write and the temporary file it renames. Chain_Error and
  Core_Error: the two error.rs.

  The log. Kvlog is kvlog.rs: records and flags in memory over a file of checked frames; load with
  its classification of a damaged file, its repair and its copies kept aside, the migration of the
  first format, and every operation. Kvlog_Frames: a frame reads back and a cut-off one is never
  taken for one. Kvlog_Durability: what each operation leaves on disk. Kvlog_Load and Kvlog_Crash:
  the invariant of a loaded log over any operations and faults, with the failed write that is owed
  its cut. Kvlog_Props: durability and atomicity against a specification on maps (spec_step).
  Kvlog_Paths: two logs in one directory leave each other alone.

  The tracker. Acceptance_State is the fold of acceptance.rs on the watched records and their
  index by accepting block; Acceptance_Tracker the cursor, its hold, the live batches, the
  catch-up walk, the reads ahead of it and the run loop. Acceptance_Inv, Acceptance_Shell,
  Acceptance_Cursor, Acceptance_Run, Acceptance_Loop: the invariants, layer by layer, over every
  interleaving of feeds, pages, ticks and watches. Acceptance_Props, Acceptance_Fold,
  Acceptance_Sweeps: the properties. Acceptance_Demo: a concrete node and codec.

  The wire. Wire and Wire_Props: the payloads of transport.rs and what is read of them. Frames and
  Frames_Props: the game frames of frames.rs. Handshake, Handshake_Props, Snapshot_Props,
  Stash_Tag: the handshakes, the stash, its snapshot and its tag of handshake.rs. Vault and
  Vault_Props: the sealed seed of vault.rs.

  The stores. Transport_Store is transport_store.rs over two logs; Store_Lookup its lookups,
  Store_Inv its invariant, Store_Ops and Store_Props its operations over any run and restart,
  Store_Wipe its wipe, Store_Merge, Store_Merge_Host and Store_Merge_Props the merge of the rows
  of one contact, Store_Demo and Store_Runs concrete runs. Json_Store, with a locale for a file
  written through a temporary one, Read_Marks and Block_List: read_marks.rs and block_list.rs.
  History_Fill and History_Fill_Props: history_fill.rs. Sends_Store and Sends_Store_Props: the
  record of sends on disk of sends_store.rs, with its generations.

  Sends in flight. In_Flight and In_Flight_Sends are the InFlightSends of wallet_sync.rs.
  In_Flight_Inv: the invariant of its maps and queues over every operation. In_Flight_Reads: what
  a read of the balance withholds. In_Flight_Anchor: how a retry meets the legs that may have
  left. In_Flight_Chains: an acceptance takes out the chain of sends it spends. In_Flight_Judge:
  the judgement of carried sends is the least one its rules allow. In_Flight_Restart: the snapshot
  and the load. Spend_Policy: spend_policy.rs.

  The message walk. Walk is walk.rs as a task cut at every section under its lock and every await;
  its log says what it asked, what was answered, and where the cursor went. Walk_Audit: an auditor
  of that log, which refuses a cursor that moves other than the code promises. Walk_Bounds,
  Walk_Tally, Walk_Runs: the counters of every point, the unserved answers a page can cost, the
  landings, the rank that falls with every answer, the held walk. Walk_Props: the properties.
  Walk_Matcher: the transport matcher with its scan, and the walk and its matcher as one machine.

  Endpoints. Link_Health, Link_Text, Link_Props: strikes, demotions, their file, the pantry of a
  race, round trips, the texts of failures and addresses, from link.rs.

  Bounds and fuel. No loop has fuel of its own: the loops of the code recurse on the data or with
  a measure. The catch-up walk takes its budget of sixteen pages and two steps more; a page fill
  its budget of forty pages; a run of the message walk is parked after at most 16 (n + 67) + 15
  answers for n matchers, sixteen pages of eight attempts each; and three failed runs of eight
  attempts, 24 answers, are all a page that is not served can cost under one arm.

  What is an argument. The record codec and its checksum (borsh, crc32fast), with the hypothesis
  that they read back what they wrote and that a cut-off frame is no frame; JSON documents with
  their round trip; the cipher and the key derivation; the node, the indexer, the hub's sink, the
  texts of node errors, and all clocks, as functions or as answers in events. Each hypothesis is
  met by a concrete codec, cipher or node in a witness.

  One step where the code awaits. A batch or a page of the catch-up walk is folded in one step
  (fold_batch, walk_page), while the code gives its lock back between the blocks of a batch to ask
  the node for a block. The answers of the node may still be any; but no watch, tick or feed falls
  inside a fold, so a transaction that is watched only after its block was passed is outside the
  model. In the message walk and in the record of sends in flight the awaits are points of the
  interleaving.

  Not modelled. The tasks that are calls of the pinned node client or wallet library, and their
  supervision (dag_monitor.rs, wallet_lane.rs, link_rpc.rs, the probes and races of link.rs, the
  lane around the record in wallet_sync.rs); the building and signing of transactions (send.rs
  beyond the spend policy) and the keys (keychain, mnemonic, seed, signer, transport_keys), which
  rest on those libraries; the ciphers of messages and attachments; node tables, discovery,
  preferences and contact names; development switches, counters and logging; the covenant seam,
  which is types; and the bridge to the user interface, generated or not.
\<close>

end
